(* ===== verification/RT_Prelude.thy ===== *)
theory RT_Prelude
  imports Main "HOL-Library.Word" "HOL-Library.Monad_Syntax"
begin

text \<open>
  Shared vocabulary of the development: the machine integer types of \<^verbatim>\<open>rtdef.h\<close>, the error codes,
  \<^verbatim>\<open>RT_ASSERT\<close>, alignment, and the generic facts about the option monad, lists and words that the
  component theories use.

  Every kernel function is a total HOL function into \<open>option\<close>. The value \<open>None\<close> means that control
  does not come back to the caller: an \<^verbatim>\<open>RT_ASSERT\<close> failed (the handler of \<^verbatim>\<open>kservice.c\<close> spins
  forever) or the code touched memory outside the objects of the model (a NULL dereference, an array
  index out of range, linking a list node that is already linked).
\<close>

unbundle bit_operations_syntax

section \<open>Machine types\<close>

type_synonym u8 = "8 word"
type_synonym u16 = "16 word"
type_synonym u32 = "32 word"
type_synonym rt_err_t = int

text \<open>Addresses of kernel objects; \<^verbatim>\<open>RT_NULL\<close> is 0.\<close>

type_synonym ptr = nat

abbreviation (input) RT_NULL :: ptr where "RT_NULL \<equiv> 0"

abbreviation (input) RT_EOK :: rt_err_t where "RT_EOK \<equiv> 0"
abbreviation (input) RT_ERROR :: rt_err_t where "RT_ERROR \<equiv> 1"
abbreviation (input) RT_ETIMEOUT :: rt_err_t where "RT_ETIMEOUT \<equiv> 2"
abbreviation (input) RT_EFULL :: rt_err_t where "RT_EFULL \<equiv> 3"
abbreviation (input) RT_EEMPTY :: rt_err_t where "RT_EEMPTY \<equiv> 4"
abbreviation (input) RT_ENOMEM :: rt_err_t where "RT_ENOMEM \<equiv> 5"
abbreviation (input) RT_ENOSYS :: rt_err_t where "RT_ENOSYS \<equiv> 6"
abbreviation (input) RT_EBUSY :: rt_err_t where "RT_EBUSY \<equiv> 7"
abbreviation (input) RT_EIO :: rt_err_t where "RT_EIO \<equiv> 8"
abbreviation (input) RT_EINTR :: rt_err_t where "RT_EINTR \<equiv> 9"
abbreviation (input) RT_EINVAL :: rt_err_t where "RT_EINVAL \<equiv> 10"

abbreviation (input) RT_TICK_MAX :: u32 where "RT_TICK_MAX \<equiv> 0xFFFFFFFF"

text \<open>Half of the tick range, the bound the timer code compares wrapped differences with.\<close>

abbreviation (input) RT_TICK_HALF :: u32 where "RT_TICK_HALF \<equiv> RT_TICK_MAX div 2"

abbreviation (input) RT_ALIGN_SIZE :: nat where "RT_ALIGN_SIZE \<equiv> 4"
abbreviation (input) RT_NAME_MAX :: nat where "RT_NAME_MAX \<equiv> 8"
abbreviation (input) RT_THREAD_PRIORITY_MAX :: nat where "RT_THREAD_PRIORITY_MAX \<equiv> 32"

section \<open>Assertions and alignment\<close>

definition RT_ASSERT :: "bool \<Rightarrow> unit option" where
  "RT_ASSERT c = (if c then Some () else None)"

text \<open>\<^verbatim>\<open>(size + align - 1) & ~(align - 1)\<close> for an alignment that is a power of two.\<close>

definition RT_ALIGN :: "nat \<Rightarrow> nat \<Rightarrow> nat" where
  "RT_ALIGN sz align = (sz + align - 1) div align * align"

definition RT_ALIGN_DOWN :: "nat \<Rightarrow> nat \<Rightarrow> nat" where
  "RT_ALIGN_DOWN sz align = sz div align * align"

section \<open>Collections of rewrite rules and invariant rules\<close>

named_theorems kdefs \<open>definitions of kernel operations\<close>
named_theorems kinv \<open>introduction rules: an operation keeps the scheduler invariant\<close>

section \<open>The option monad\<close>

lemma RT_ASSERT_simps [simp]:
  "RT_ASSERT True = Some ()"
  "RT_ASSERT False = None"
  by (simp_all add: RT_ASSERT_def)

lemma RT_ASSERT_eq_Some [simp]: "RT_ASSERT c = Some u \<longleftrightarrow> c"
  by (simp add: RT_ASSERT_def)

text \<open>
  \<open>okp P m\<close>: every result of \<open>m\<close> satisfies \<open>P\<close>. It is the partial part of a specification; that an
  operation returns is stated separately, by giving its result.
\<close>

abbreviation okp :: "('a \<Rightarrow> bool) \<Rightarrow> 'a option \<Rightarrow> bool" where
  "okp \<equiv> pred_option"

lemma okp_iff: "okp P m \<longleftrightarrow> (\<forall>x. m = Some x \<longrightarrow> P x)"
  by (cases m) auto

lemma okpI: "(\<And>x. m = Some x \<Longrightarrow> P x) \<Longrightarrow> okp P m"
  by (auto simp: okp_iff)

lemma okpD: "okp P m \<Longrightarrow> m = Some x \<Longrightarrow> P x"
  by (auto simp: okp_iff)

lemma okp_Some: "P x \<Longrightarrow> okp P (Some x)"
  by simp

lemma okp_bind: "okp Q m \<Longrightarrow> (\<And>x. Q x \<Longrightarrow> okp P (f x)) \<Longrightarrow> okp P (Option.bind m f)"
  by (cases m) auto

lemma okp_assert: "(c \<Longrightarrow> okp P (f ())) \<Longrightarrow> okp P (Option.bind (RT_ASSERT c) f)"
  by (cases c) auto

lemma okp_if: "(c \<Longrightarrow> okp P a) \<Longrightarrow> (\<not> c \<Longrightarrow> okp P b) \<Longrightarrow> okp P (if c then a else b)"
  by simp

lemma okp_mono: "okp Q m \<Longrightarrow> (\<And>x. Q x \<Longrightarrow> P x) \<Longrightarrow> okp P m"
  by (cases m) auto

lemma okp_conj: "okp P m \<Longrightarrow> okp Q m \<Longrightarrow> okp (\<lambda>x. P x \<and> Q x) m"
  by (cases m) auto

lemma okp_case_prod: "(\<And>a b. x = (a, b) \<Longrightarrow> okp P (f a b)) \<Longrightarrow> okp P (case x of (a, b) \<Rightarrow> f a b)"
  by (cases x) auto

lemma okp_let: "(\<And>y. y = x \<Longrightarrow> okp P (f y)) \<Longrightarrow> okp P (let y = x in f y)"
  by simp

text \<open>\<open>okt P m\<close>: \<open>m\<close> returns, and its result satisfies \<open>P\<close>. This is the total form.\<close>

definition okt :: "('a \<Rightarrow> bool) \<Rightarrow> 'a option \<Rightarrow> bool" where
  "okt P m \<longleftrightarrow> (\<exists>x. m = Some x \<and> P x)"

lemma okt_Some [simp]: "okt P (Some x) \<longleftrightarrow> P x"
  by (simp add: okt_def)

lemma okt_None [simp]: "\<not> okt P None"
  by (simp add: okt_def)

lemma okt_bind: "okt Q m \<Longrightarrow> (\<And>x. Q x \<Longrightarrow> okt P (f x)) \<Longrightarrow> okt P (Option.bind m f)"
  by (auto simp: okt_def)

lemma okt_mono: "okt Q m \<Longrightarrow> (\<And>x. Q x \<Longrightarrow> P x) \<Longrightarrow> okt P m"
  by (auto simp: okt_def)

lemma okt_okp: "okt P m \<Longrightarrow> okp P m"
  by (auto simp: okt_def)

section \<open>Alignment\<close>

lemma RT_ALIGN_ge: "0 < a \<Longrightarrow> n \<le> RT_ALIGN n a"
proof -
  assume a: "0 < a"
  let ?m = "n + a - 1"
  have "?m = ?m div a * a + ?m mod a"
    by simp
  moreover have "?m mod a < a"
    using a by simp
  ultimately have "n + a - 1 < ?m div a * a + a"
    by linarith
  with a show ?thesis
    unfolding RT_ALIGN_def by linarith
qed

lemma RT_ALIGN_dvd: "a dvd RT_ALIGN n a"
  by (simp add: RT_ALIGN_def)

lemma RT_ALIGN_DOWN_le: "RT_ALIGN_DOWN n a \<le> n"
  by (simp add: RT_ALIGN_DOWN_def)

lemma RT_ALIGN_DOWN_dvd: "a dvd RT_ALIGN_DOWN n a"
  by (simp add: RT_ALIGN_DOWN_def)

section \<open>Lists\<close>

lemma distinct_removeAll_notin [simp]: "n \<notin> set xs \<Longrightarrow> removeAll n xs = xs"
  by (induction xs) auto

lemma removeAll_hd: "distinct (x # xs) \<Longrightarrow> removeAll x (x # xs) = xs"
  by simp

lemma takeWhile_snoc_False: "\<not> P x \<Longrightarrow> takeWhile P (xs @ [x]) = takeWhile P xs"
  by (induction xs) auto

section \<open>Single bits\<close>

text \<open>\<^verbatim>\<open>1 << p\<close>, the mask of one priority level.\<close>

definition bitmask :: "nat \<Rightarrow> u32" where
  "bitmask p = push_bit p 1"

lemma bit_bitmask: "bit (bitmask p) q \<longleftrightarrow> p = q \<and> q < 32"
  unfolding bitmask_def by (simp only: bit_push_bit_iff bit_1_iff) auto

lemma bit_or_bitmask: "bit (g OR bitmask p) q \<longleftrightarrow> bit g q \<or> (p = q \<and> q < 32)"
  by (simp add: bit_or_iff bit_bitmask)

lemma bit_andnot_bitmask: "bit (g AND NOT (bitmask p)) q \<longleftrightarrow> bit g q \<and> p \<noteq> q" for g :: u32
  by (auto simp: bit_and_iff bit_not_iff bit_bitmask dest: bit_imp_le_length)

lemma word_eq_0_bits: "g = 0 \<longleftrightarrow> (\<forall>p < 32. \<not> bit g p)" for g :: u32
  by (auto intro!: bit_word_eqI)

lemma unat_inc:
  fixes a b :: "'a::len word"
  assumes "a < b"
  shows "unat (a + 1) = unat a + 1"
proof -
  have "a \<noteq> - 1" using assms word_not_simps by auto
  then have "1 + a \<noteq> 0" by (metis add.commute eq_neg_iff_add_eq_0)
  then show ?thesis using unatSuc [of a] by (simp add: add.commute)
qed

lemma unat_align_mask: "unat (x AND NOT (mask k)) = unat x - unat x mod 2 ^ k" for x :: "'a::len word"
proof -
  have m: "x AND mask k = take_bit k x" by (simp add: take_bit_eq_mask)
  have "x - (x AND mask k) = x AND NOT (x AND mask k)" by (rule disjunctive_diff_eq_and_not) (auto intro!: bit_word_eqI simp: bit_simps)
  also have "\<dots> = x AND NOT (mask k)" by (auto intro!: bit_word_eqI simp: bit_simps)
  finally have e: "x AND NOT (mask k) = x - (x AND mask k)" by simp
  have l: "x AND mask k \<le> x" by (simp add: word_and_le2)
  show ?thesis using l unfolding e by (simp add: unat_sub m unsigned_take_bit_eq) (simp add: take_bit_eq_mod)
qed

lemma unat_align_down: "unat (x AND NOT 3) = unat x - unat x mod 4" for x :: "'a::len word"
proof -
  have "(3 :: 'a word) = mask 2" by (simp add: mask_eq_exp_minus_1)
  then have "unat (x AND NOT 3) = unat x - unat x mod 2 ^ 2" by (simp only: unat_align_mask)
  then show ?thesis by simp
qed

text \<open>Positions on a ring of \<open>n\<close> cells.\<close>

lemma ring_mod: "x < 2 * n \<Longrightarrow> x mod n = (if x < n then x else x - n)" for x n :: nat
  by (simp add: le_mod_geq not_less)

end
