(* ===== verification/RT_List.thy ===== *)
theory RT_List
  imports RT_Prelude
begin

text \<open>
  The intrusive doubly linked lists of \<^verbatim>\<open>include/rtservice.h\<close>. A list head and the nodes embedded in
  kernel objects are both \<^verbatim>\<open>struct rt_list_node\<close>; here a node is \<open>Head h\<close> or \<open>Node n\<close> and the memory
  is the pair of its \<^verbatim>\<open>next\<close> and \<^verbatim>\<open>prev\<close> fields. The pointer operations are translated field write by
  field write. The relation \<open>linked d L\<close> says that the memory \<open>d\<close> holds the family \<open>L\<close> of disjoint
  circular lists, and the refinement lemmas show that the pointer operations act on \<open>L\<close> as list
  operations. The locale \<open>intrusive_lists\<close> is the interface; it is interpreted on the pointer code and
  on the list families the kernel state uses.
\<close>

section \<open>Pointer level\<close>

datatype ('h, 'n) node = Head 'h | Node 'n

record ('h, 'n) dlist =
  nxt :: "('h, 'n) node \<Rightarrow> ('h, 'n) node"
  prv :: "('h, 'n) node \<Rightarrow> ('h, 'n) node"

definition set_nxt :: "('h, 'n) node \<Rightarrow> ('h, 'n) node \<Rightarrow> ('h, 'n) dlist \<Rightarrow> ('h, 'n) dlist" where
  "set_nxt p q d = d\<lparr>nxt := (nxt d)(p := q)\<rparr>"

definition set_prv :: "('h, 'n) node \<Rightarrow> ('h, 'n) node \<Rightarrow> ('h, 'n) dlist \<Rightarrow> ('h, 'n) dlist" where
  "set_prv p q d = d\<lparr>prv := (prv d)(p := q)\<rparr>"

definition rt_list_init :: "('h, 'n) node \<Rightarrow> ('h, 'n) dlist \<Rightarrow> ('h, 'n) dlist" where
  "rt_list_init l d = set_nxt l l (set_prv l l d)"

definition rt_list_insert_after ::
    "('h, 'n) node \<Rightarrow> ('h, 'n) node \<Rightarrow> ('h, 'n) dlist \<Rightarrow> ('h, 'n) dlist" where
  "rt_list_insert_after l n d =
    (let d = set_prv (nxt d l) n d;
         d = set_nxt n (nxt d l) d;
         d = set_nxt l n d
     in set_prv n l d)"

definition rt_list_insert_before ::
    "('h, 'n) node \<Rightarrow> ('h, 'n) node \<Rightarrow> ('h, 'n) dlist \<Rightarrow> ('h, 'n) dlist" where
  "rt_list_insert_before l n d =
    (let d = set_nxt (prv d l) n d;
         d = set_prv n (prv d l) d;
         d = set_prv l n d
     in set_nxt n l d)"

definition rt_list_remove :: "('h, 'n) node \<Rightarrow> ('h, 'n) dlist \<Rightarrow> ('h, 'n) dlist" where
  "rt_list_remove n d =
    (let d = set_prv (nxt d n) (prv d n) d;
         d = set_nxt (prv d n) (nxt d n) d
     in set_nxt n n (set_prv n n d))"

definition rt_list_isempty :: "('h, 'n) node \<Rightarrow> ('h, 'n) dlist \<Rightarrow> bool" where
  "rt_list_isempty l d \<longleftrightarrow> nxt d l = l"

text \<open>The walk of \<^verbatim>\<open>rt_list_len\<close>; \<open>fuel\<close> bounds the number of nodes visited.\<close>

fun rt_list_len_from :: "nat \<Rightarrow> ('h, 'n) node \<Rightarrow> ('h, 'n) node \<Rightarrow> ('h, 'n) dlist \<Rightarrow> nat \<Rightarrow> nat option" where
  "rt_list_len_from 0 l p d len = None"
| "rt_list_len_from (Suc fuel) l p d len =
     (if nxt d p \<noteq> l then rt_list_len_from fuel l (nxt d p) d (Suc len) else Some len)"

definition rt_list_len :: "nat \<Rightarrow> ('h, 'n) node \<Rightarrow> ('h, 'n) dlist \<Rightarrow> nat option" where
  "rt_list_len fuel l d = rt_list_len_from fuel l l d 0"

section \<open>Families of lists\<close>

text \<open>The abstract counterpart: for each head the list of its nodes, in \<^verbatim>\<open>next\<close> order.\<close>

type_synonym ('h, 'n) lists = "'h \<Rightarrow> 'n list"

definition in_some_list :: "'n \<Rightarrow> ('h, 'n) lists \<Rightarrow> bool" where
  "in_some_list n L \<longleftrightarrow> (\<exists>h. n \<in> set (L h))"

definition lists_disjoint :: "('h, 'n) lists \<Rightarrow> bool" where
  "lists_disjoint L \<longleftrightarrow> (\<forall>h. distinct (L h)) \<and> (\<forall>h h' n. n \<in> set (L h) \<longrightarrow> n \<in> set (L h') \<longrightarrow> h = h')"

definition lists_remove :: "'n \<Rightarrow> ('h, 'n) lists \<Rightarrow> ('h, 'n) lists" where
  "lists_remove n L = (\<lambda>h. removeAll n (L h))"

definition lists_push_front :: "'h \<Rightarrow> 'n \<Rightarrow> ('h, 'n) lists \<Rightarrow> ('h, 'n) lists" where
  "lists_push_front h n L = L(h := n # L h)"

definition lists_push_back :: "'h \<Rightarrow> 'n \<Rightarrow> ('h, 'n) lists \<Rightarrow> ('h, 'n) lists" where
  "lists_push_back h n L = L(h := L h @ [n])"

text \<open>Insertion before a node \<open>m\<close> that is in the list of \<open>h\<close>.\<close>

definition insert_before_elem :: "'n \<Rightarrow> 'n \<Rightarrow> 'n list \<Rightarrow> 'n list" where
  "insert_before_elem m n xs = takeWhile (\<lambda>x. x \<noteq> m) xs @ n # dropWhile (\<lambda>x. x \<noteq> m) xs"

definition lists_insert_before :: "'n \<Rightarrow> 'n \<Rightarrow> ('h, 'n) lists \<Rightarrow> ('h, 'n) lists" where
  "lists_insert_before m n L = (\<lambda>h. if m \<in> set (L h) then insert_before_elem m n (L h) else L h)"

section \<open>The representation relation\<close>

fun seg :: "('h, 'n) dlist \<Rightarrow> ('h, 'n) node \<Rightarrow> 'n list \<Rightarrow> ('h, 'n) node \<Rightarrow> bool" where
  "seg d a [] b \<longleftrightarrow> nxt d a = b \<and> prv d b = a"
| "seg d a (x # xs) b \<longleftrightarrow> nxt d a = Node x \<and> prv d (Node x) = a \<and> seg d (Node x) xs b"

definition linked :: "('h, 'n) dlist \<Rightarrow> ('h, 'n) lists \<Rightarrow> bool" where
  "linked d L \<longleftrightarrow> lists_disjoint L \<and> (\<forall>h. seg d (Head h) (L h) (Head h)) \<and>
     (\<forall>n. \<not> in_some_list n L \<longrightarrow> nxt d (Node n) = Node n \<and> prv d (Node n) = Node n)"

lemma nxt_prv_set [simp]:
  "nxt (set_nxt p q d) = (nxt d)(p := q)" "prv (set_nxt p q d) = prv d"
  "nxt (set_prv p q d) = nxt d" "prv (set_prv p q d) = (prv d)(p := q)"
  by (simp_all add: set_nxt_def set_prv_def)

lemma seg_append: "seg d a (xs @ x # ys) b \<longleftrightarrow> seg d a xs (Node x) \<and> seg d (Node x) ys b"
  by (induction xs arbitrary: a) auto

lemma seg_frame:
  "seg d a xs b \<Longrightarrow> (\<And>p. p \<in> insert a (Node ` set xs) \<Longrightarrow> nxt d' p = nxt d p) \<Longrightarrow>
   (\<And>p. p \<in> insert b (Node ` set xs) \<Longrightarrow> prv d' p = prv d p) \<Longrightarrow> seg d' a xs b"
  by (induction xs arbitrary: a) auto

text \<open>The cell before and the cell after a point of a segment.\<close>

definition last_cell :: "('h, 'n) node \<Rightarrow> 'n list \<Rightarrow> ('h, 'n) node" where
  "last_cell a xs = (if xs = [] then a else Node (last xs))"

definition first_cell :: "'n list \<Rightarrow> ('h, 'n) node \<Rightarrow> ('h, 'n) node" where
  "first_cell ys b = (if ys = [] then b else Node (hd ys))"

lemma cell_simps [simp]:
  "last_cell a [] = a" "last_cell a (x # xs) = last_cell (Node x) xs"
  "first_cell [] b = b" "first_cell (x # xs) b = Node x"
  by (simp_all add: last_cell_def first_cell_def)

lemma last_cell_in: "last_cell a xs \<in> insert a (Node ` set xs)"
  by (simp add: last_cell_def)

lemma first_cell_in: "first_cell ys b \<in> insert b (Node ` set ys)"
  by (simp add: first_cell_def)

lemma seg_first: "seg d a xs b \<Longrightarrow> nxt d a = first_cell xs b"
  by (cases xs) auto

lemma seg_last: "seg d a xs b \<Longrightarrow> prv d b = last_cell a xs"
  by (induction xs arbitrary: a) auto

lemma seg_split: "seg d a (xs @ ys) b \<Longrightarrow> seg d a xs (first_cell ys b) \<and> seg d (last_cell a xs) ys b"
  by (induction xs arbitrary: a) (auto simp: seg_first dest: seg_first, (cases ys; simp)+)

lemma seg_join: "seg d a xs (Node n) \<Longrightarrow> seg d (Node n) ys b \<Longrightarrow> seg d a (xs @ n # ys) b"
  by (simp add: seg_append)

text \<open>Changing the cell a segment ends in, or the cell it starts from.\<close>

lemma seg_retarget_end:
  "seg d a xs q \<Longrightarrow> distinct (a # map Node xs) \<Longrightarrow>
   (\<And>r. r \<in> insert a (Node ` set xs) \<Longrightarrow> r \<noteq> last_cell a xs \<Longrightarrow> nxt d' r = nxt d r) \<Longrightarrow>
   (\<And>x. x \<in> set xs \<Longrightarrow> prv d' (Node x) = prv d (Node x)) \<Longrightarrow>
   nxt d' (last_cell a xs) = q' \<Longrightarrow> prv d' q' = last_cell a xs \<Longrightarrow> seg d' a xs q'"
proof (induction xs arbitrary: a)
  case Nil
  then show ?case by simp
next
  case (Cons x xs)
  have "last_cell (Node x) xs \<noteq> a"
    using Cons.prems(2) last_cell_in [of "Node x" xs] by auto
  with Cons.prems(1,3) have "nxt d' a = Node x" by fastforce
  moreover have "prv d' (Node x) = a" using Cons.prems(1,4) by simp
  moreover have "seg d' (Node x) xs q'"
    using Cons.prems by (intro Cons.IH) auto
  ultimately show ?case by simp
qed

lemma seg_retarget_start:
  "seg d p ys b \<Longrightarrow> distinct (map Node ys @ [b]) \<Longrightarrow>
   (\<And>y. y \<in> set ys \<Longrightarrow> nxt d' (Node y) = nxt d (Node y)) \<Longrightarrow>
   (\<And>r. r \<in> insert b (Node ` set ys) \<Longrightarrow> r \<noteq> first_cell ys b \<Longrightarrow> prv d' r = prv d r) \<Longrightarrow>
   nxt d' p' = first_cell ys b \<Longrightarrow> prv d' (first_cell ys b) = p' \<Longrightarrow> seg d' p' ys b"
  by (cases ys) (auto intro!: seg_frame [of d])

lemma linked_disjoint: "linked d L \<Longrightarrow> lists_disjoint L"
  by (simp add: linked_def)

lemma disjointD: "lists_disjoint L \<Longrightarrow> n \<in> set (L h) \<Longrightarrow> n \<in> set (L h') \<Longrightarrow> h' = h"
  by (auto simp: lists_disjoint_def)

lemma disjoint_distinct: "lists_disjoint L \<Longrightarrow> distinct (L h)"
  by (simp add: lists_disjoint_def)

section \<open>Abstract operations keep families disjoint\<close>

lemma in_some_list_remove [simp]: "in_some_list m (lists_remove n L) \<longleftrightarrow> m \<noteq> n \<and> in_some_list m L"
  by (auto simp: in_some_list_def lists_remove_def)

lemma in_some_list_push_front: "in_some_list m (lists_push_front h n L) \<longleftrightarrow> m = n \<or> in_some_list m L"
  by (auto simp: in_some_list_def lists_push_front_def)

lemma in_some_list_push_back: "in_some_list m (lists_push_back h n L) \<longleftrightarrow> m = n \<or> in_some_list m L"
  by (auto simp: in_some_list_def lists_push_back_def)

lemma disjoint_remove: "lists_disjoint L \<Longrightarrow> lists_disjoint (lists_remove n L)"
  by (auto simp: lists_disjoint_def lists_remove_def distinct_removeAll)

lemma disjoint_push_front:
  "lists_disjoint L \<Longrightarrow> \<not> in_some_list n L \<Longrightarrow> lists_disjoint (lists_push_front h n L)"
  by (auto simp: lists_disjoint_def lists_push_front_def in_some_list_def)

lemma disjoint_push_back:
  "lists_disjoint L \<Longrightarrow> \<not> in_some_list n L \<Longrightarrow> lists_disjoint (lists_push_back h n L)"
  by (auto simp: lists_disjoint_def lists_push_back_def in_some_list_def)

lemma insert_before_elem_split:
  "m \<notin> set xs \<Longrightarrow> insert_before_elem m n (xs @ m # ys) = xs @ n # m # ys"
  by (induction xs) (auto simp: insert_before_elem_def)

lemma set_insert_before_elem [simp]: "set (insert_before_elem m n xs) = insert n (set xs)"
proof -
  have "set xs = set (takeWhile (\<lambda>x. x \<noteq> m) xs @ dropWhile (\<lambda>x. x \<noteq> m) xs)"
    by simp
  then show ?thesis
    unfolding insert_before_elem_def by (metis (no_types) Un_insert_right list.simps(15) set_append)
qed

lemma distinct_insert_before_elem:
  "distinct xs \<Longrightarrow> n \<notin> set xs \<Longrightarrow> distinct (insert_before_elem m n xs)"
proof -
  assume xs: "distinct xs" and n: "n \<notin> set xs"
  have "distinct (takeWhile (\<lambda>x. x \<noteq> m) xs @ dropWhile (\<lambda>x. x \<noteq> m) xs)"
    using xs by simp
  then show ?thesis
    using n unfolding insert_before_elem_def
    by (auto simp del: takeWhile_dropWhile_id dest: set_takeWhileD set_dropWhileD)
qed

lemma disjoint_insert_before:
  assumes L: "lists_disjoint L" and n: "\<not> in_some_list n L"
  shows "lists_disjoint (lists_insert_before m n L)"
proof -
  have "distinct (lists_insert_before m n L h)" for h
    using L n distinct_insert_before_elem [of "L h" n m]
    by (auto simp: lists_insert_before_def lists_disjoint_def in_some_list_def)
  moreover have "h = h'" if "k \<in> set (lists_insert_before m n L h)" "k \<in> set (lists_insert_before m n L h')" for k h h'
    using that L n by (auto simp: lists_insert_before_def lists_disjoint_def in_some_list_def split: if_splits)
  ultimately show ?thesis
    by (auto simp: lists_disjoint_def)
qed

section \<open>Refinement\<close>

lemma linked_seg: "linked d L \<Longrightarrow> seg d (Head h) (L h) (Head h)"
  by (simp add: linked_def)

lemma linked_free: "linked d L \<Longrightarrow> \<not> in_some_list n L \<Longrightarrow> nxt d (Node n) = Node n \<and> prv d (Node n) = Node n"
  by (simp add: linked_def)

lemma linkedI:
  "lists_disjoint L \<Longrightarrow> (\<And>h. seg d (Head h) (L h) (Head h)) \<Longrightarrow>
   (\<And>n. \<not> in_some_list n L \<Longrightarrow> nxt d (Node n) = Node n \<and> prv d (Node n) = Node n) \<Longrightarrow> linked d L"
  by (simp add: linked_def)

text \<open>
  One cell \<open>n\<close> is linked between two neighbours \<open>a\<close> and \<open>b\<close>: the shared core of the two insertions.
\<close>

definition link_between :: "('h, 'n) node \<Rightarrow> ('h, 'n) node \<Rightarrow> ('h, 'n) node \<Rightarrow> ('h, 'n) dlist \<Rightarrow> ('h, 'n) dlist" where
  "link_between a n b d = d\<lparr>nxt := (nxt d)(a := n, n := b), prv := (prv d)(b := n, n := a)\<rparr>"

lemma insert_after_link:
  "n \<noteq> l \<Longrightarrow> n \<noteq> nxt d l \<Longrightarrow> rt_list_insert_after l n d = link_between l n (nxt d l) d"
  by (auto simp: rt_list_insert_after_def link_between_def set_nxt_def set_prv_def Let_def fun_eq_iff)

lemma insert_before_link:
  "n \<noteq> l \<Longrightarrow> n \<noteq> prv d l \<Longrightarrow> rt_list_insert_before l n d = link_between (prv d l) n l d"
  by (auto simp: rt_list_insert_before_def link_between_def set_nxt_def set_prv_def Let_def fun_eq_iff)

lemma seg_link_between:
  assumes s: "seg d (Head h) (xs @ ys) (Head h)" and "distinct (xs @ ys)" and "n \<notin> set (xs @ ys)"
    and p: "p = last_cell (Head h) xs" and q: "q = first_cell ys (Head h)"
  shows "seg (link_between p (Node n) q d) (Head h) (xs @ n # ys) (Head h)"
proof (rule seg_join)
  have s1: "seg d (Head h) xs q" and s2: "seg d p ys (Head h)"
    using seg_split [OF s] p q by auto
  have pin: "p \<in> insert (Head h) (Node ` set xs)" and qin: "q \<in> insert (Head h) (Node ` set ys)"
    unfolding p q by (rule last_cell_in, rule first_cell_in)
  show "seg (link_between p (Node n) q d) (Head h) xs (Node n)"
    using assms pin qin by (intro seg_retarget_end [OF s1]) (auto simp: link_between_def distinct_map inj_on_def)
  show "seg (link_between p (Node n) q d) (Node n) ys (Head h)"
    using assms pin qin by (intro seg_retarget_start [OF s2]) (auto simp: link_between_def distinct_map inj_on_def)
qed

text \<open>Linking a free cell into the list of \<open>h\<close> leaves the other lists and the other free cells alone.\<close>

lemma linked_link_between:
  assumes d: "linked d L" and n: "\<not> in_some_list n L" and h: "L h = xs @ ys"
    and p: "p = last_cell (Head h) xs" and q: "q = first_cell ys (Head h)"
    and L': "L' = L(h := xs @ n # ys)"
  shows "linked (link_between p (Node n) q d) L'"
proof (rule linkedI)
  have dj: "lists_disjoint L" using d by (rule linked_disjoint)
  have nin: "\<And>h. n \<notin> set (L h)" using n by (simp add: in_some_list_def)
  have dist: "distinct (xs @ ys)" using disjoint_distinct [OF dj, of h] h by simp
  have pq: "p \<in> insert (Head h) (Node ` set (L h))" "q \<in> insert (Head h) (Node ` set (L h))"
    using last_cell_in [of "Head h" xs] first_cell_in [of ys "Head h"] by (auto simp: p q h)
  have setL: "set (L' h') = (if h' = h then insert n (set (L h)) else set (L h'))" for h'
    by (auto simp: L' h)
  have "distinct (L' h')" for h'
    using disjoint_distinct [OF dj, of h'] dist nin [of h] by (auto simp: L' h)
  moreover have "h1 = h2" if "m \<in> set (L' h1)" "m \<in> set (L' h2)" for m h1 h2
    using that nin disjointD [OF dj, of m] unfolding setL by (auto split: if_splits)
  ultimately show "lists_disjoint L'"
    unfolding lists_disjoint_def by blast
  show "seg (link_between p (Node n) q d) (Head h') (L' h') (Head h')" for h'
  proof (cases "h' = h")
    case True
    then show ?thesis
      using seg_link_between [of d h xs ys n p q] linked_seg [OF d, of h] dist nin [of h] p q by (simp add: L' h)
  next
    case False
    then have "x \<notin> set (L h')" if "x \<in> set (L h)" for x
      using disjointD [OF dj that, of h'] by auto
    with False pq nin [of h'] show ?thesis
      unfolding L' by (auto intro!: seg_frame [OF linked_seg [OF d]] simp: link_between_def)
  qed
  show "nxt (link_between p (Node n) q d) (Node m) = Node m \<and> prv (link_between p (Node n) q d) (Node m) = Node m"
    if m: "\<not> in_some_list m L'" for m
  proof -
    have "m \<noteq> n" using m setL [of h] by (auto simp: in_some_list_def)
    moreover have "\<not> in_some_list m L" using m by (auto simp: in_some_list_def setL split: if_splits)
    ultimately show ?thesis
      using linked_free [OF d] pq by (auto simp: link_between_def in_some_list_def)
  qed
qed

lemma first_not_free: "linked d L \<Longrightarrow> \<not> in_some_list n L \<Longrightarrow> first_cell (L h) (Head h) \<noteq> Node n"
  using first_cell_in [of "L h" "Head h"] by (auto simp: in_some_list_def)

lemma last_not_free: "\<not> in_some_list n L \<Longrightarrow> set xs \<subseteq> set (L h) \<Longrightarrow> last_cell (Head h) xs \<noteq> Node n"
  using last_cell_in [of "Head h" xs] by (auto simp: in_some_list_def)

lemma insert_after_refines:
  assumes "linked d L" and "\<not> in_some_list n L"
  shows "linked (rt_list_insert_after (Head h) (Node n) d) (lists_push_front h n L)"
proof -
  have nx: "nxt d (Head h) = first_cell (L h) (Head h)"
    using linked_seg [OF assms(1)] by (rule seg_first)
  have "linked (link_between (Head h) (Node n) (nxt d (Head h)) d) (lists_push_front h n L)"
    by (rule linked_link_between [OF assms, of h "[]" "L h"]) (simp_all add: nx lists_push_front_def)
  moreover have "Node n \<noteq> nxt d (Head h)"
    unfolding nx using first_not_free [OF assms, of h] by metis
  ultimately show ?thesis
    by (simp add: insert_after_link)
qed

lemma insert_before_refines:
  assumes "linked d L" and "\<not> in_some_list n L"
  shows "linked (rt_list_insert_before (Head h) (Node n) d) (lists_push_back h n L)"
proof -
  have nx: "prv d (Head h) = last_cell (Head h) (L h)"
    using linked_seg [OF assms(1)] by (rule seg_last)
  have "linked (link_between (prv d (Head h)) (Node n) (Head h) d) (lists_push_back h n L)"
    by (rule linked_link_between [OF assms, of h "L h" "[]"]) (simp_all add: nx lists_push_back_def)
  moreover have "Node n \<noteq> prv d (Head h)"
    unfolding nx using last_not_free [OF assms(2), of "L h" h] by (metis order_refl)
  ultimately show ?thesis
    by (simp add: insert_before_link)
qed

lemma lists_insert_before_split:
  assumes dj: "lists_disjoint L" and xs: "L h = xs @ m # ys"
  shows "lists_insert_before m n L = L(h := xs @ n # m # ys)"
proof
  fix h'
  have "m \<notin> set xs"
    using disjoint_distinct [OF dj, of h] xs by auto
  moreover have "m \<in> set (L h') \<longleftrightarrow> h' = h"
    using disjointD [OF dj, of m h h'] xs by auto
  ultimately show "lists_insert_before m n L h' = (L(h := xs @ n # m # ys)) h'"
    by (auto simp: lists_insert_before_def insert_before_elem_split xs)
qed

lemma insert_before_node_refines:
  assumes "linked d L" and "\<not> in_some_list n L" and m: "m \<in> set (L h)"
  shows "linked (rt_list_insert_before (Node m) (Node n) d) (lists_insert_before m n L)"
proof -
  obtain xs ys where xs: "L h = xs @ m # ys"
    using m by (auto simp: in_set_conv_decomp)
  have L': "lists_insert_before m n L = L(h := xs @ n # m # ys)"
    by (rule lists_insert_before_split [OF linked_disjoint [OF assms(1)] xs])
  have "seg d (Head h) xs (Node m)"
    using linked_seg [OF assms(1), of h] xs by (simp add: seg_append)
  then have pv: "prv d (Node m) = last_cell (Head h) xs"
    by (rule seg_last)
  have "linked (link_between (prv d (Node m)) (Node n) (Node m) d) (lists_insert_before m n L)"
    by (rule linked_link_between [OF assms(1,2), of h xs "m # ys"]) (simp_all add: xs pv L')
  moreover have "Node n \<noteq> Node m"
    using assms(2) m by (auto simp: in_some_list_def)
  moreover have "Node n \<noteq> prv d (Node m)"
    unfolding pv using last_not_free [OF assms(2), of xs h] xs by fastforce
  ultimately show ?thesis
    by (simp add: insert_before_link)
qed

text \<open>Removal unlinks a node from whichever list holds it, and does nothing to a free node.\<close>

definition unlink :: "('h, 'n) node \<Rightarrow> ('h, 'n) node \<Rightarrow> ('h, 'n) node \<Rightarrow> ('h, 'n) dlist \<Rightarrow> ('h, 'n) dlist" where
  "unlink a n b d = d\<lparr>nxt := (nxt d)(a := b, n := n), prv := (prv d)(b := a, n := n)\<rparr>"

lemma remove_unlink:
  "nxt d n = b \<Longrightarrow> prv d n = a \<Longrightarrow> (b = n \<longleftrightarrow> a = n) \<Longrightarrow> rt_list_remove n d = unlink a n b d"
  by (auto simp: rt_list_remove_def unlink_def set_nxt_def set_prv_def Let_def fun_eq_iff)

lemma seg_unlink:
  assumes s1: "seg d (Head h) xs (Node n)" and s2: "seg d (Node n) ys (Head h)" and dist: "distinct (xs @ n # ys)"
    and p: "p = last_cell (Head h) xs" and q: "q = first_cell ys (Head h)"
  shows "seg (unlink p (Node n) q d) (Head h) (xs @ ys) (Head h)"
proof (cases ys)
  case Nil
  then show ?thesis
    using assms last_cell_in [of "Head h" xs]
    by (auto intro!: seg_retarget_end [OF s1] simp: unlink_def distinct_map inj_on_def)
next
  case (Cons y zs)
  have "seg (unlink p (Node n) q d) (Head h) xs (Node y)"
    using assms Cons last_cell_in [of "Head h" xs]
    by (intro seg_retarget_end [OF s1]) (auto simp: unlink_def distinct_map inj_on_def)
  moreover have "seg (unlink p (Node n) q d) (Node y) zs (Head h)"
  proof (rule seg_frame)
    show "seg d (Node y) zs (Head h)" using s2 Cons by simp
    show "nxt (unlink p (Node n) q d) r = nxt d r" if "r \<in> insert (Node y) (Node ` set zs)" for r
      using that dist Cons last_cell_in [of "Head h" xs] unfolding p by (auto simp: unlink_def)
    show "prv (unlink p (Node n) q d) r = prv d r" if "r \<in> insert (Head h) (Node ` set zs)" for r
      using that dist Cons unfolding q by (auto simp: unlink_def)
  qed
  ultimately show ?thesis
    unfolding Cons by (rule seg_join)
qed

lemma lists_remove_split:
  assumes dj: "lists_disjoint L" and xs: "L h = xs @ n # ys"
  shows "lists_remove n L = L(h := xs @ ys)"
proof
  fix h'
  have "distinct (xs @ n # ys)"
    using disjoint_distinct [OF dj, of h] xs by simp
  moreover have "n \<in> set (L h') \<longleftrightarrow> h' = h"
    using disjointD [OF dj, of n h h'] xs by auto
  ultimately show "lists_remove n L h' = (L(h := xs @ ys)) h'"
    by (auto simp: lists_remove_def xs)
qed

lemma lists_remove_free: "\<not> in_some_list n L \<Longrightarrow> lists_remove n L = L"
  by (auto simp: lists_remove_def in_some_list_def fun_eq_iff)

lemma linked_unlink:
  assumes d: "linked d L" and xs: "L h = xs @ n # ys"
    and p: "p = last_cell (Head h) xs" and q: "q = first_cell ys (Head h)"
  shows "linked (unlink p (Node n) q d) (lists_remove n L)"
proof (rule linkedI)
  have dj: "lists_disjoint L" using d by (rule linked_disjoint)
  have dist: "distinct (xs @ n # ys)" using disjoint_distinct [OF dj, of h] xs by simp
  have L': "lists_remove n L = L(h := xs @ ys)" by (rule lists_remove_split [OF dj xs])
  have s: "seg d (Head h) xs (Node n)" "seg d (Node n) ys (Head h)"
    using linked_seg [OF d, of h] xs by (auto simp: seg_append)
  have pq: "p \<in> insert (Head h) (Node ` (set xs \<union> set ys))" "q \<in> insert (Head h) (Node ` (set xs \<union> set ys))"
    using last_cell_in [of "Head h" xs] first_cell_in [of ys "Head h"] by (auto simp: p q)
  show "lists_disjoint (lists_remove n L)" using dj by (rule disjoint_remove)
  show "seg (unlink p (Node n) q d) (Head h') (lists_remove n L h') (Head h')" for h'
  proof (cases "h' = h")
    case True
    then show ?thesis
      using seg_unlink [OF s dist p q] L' by simp
  next
    case False
    have "x \<notin> set (L h')" if "x \<in> insert n (set xs \<union> set ys)" for x
      using disjointD [OF dj, of x h h'] that False xs by auto
    then show ?thesis
      using False pq unfolding L' by (auto intro!: seg_frame [OF linked_seg [OF d]] simp: unlink_def)
  qed
  show "nxt (unlink p (Node n) q d) (Node m) = Node m \<and> prv (unlink p (Node n) q d) (Node m) = Node m"
    if "\<not> in_some_list m (lists_remove n L)" for m
  proof (cases "m = n")
    case True
    then show ?thesis by (simp add: unlink_def)
  next
    case False
    then have free: "\<not> in_some_list m L" using that by simp
    then have "m \<notin> set (L h)" by (simp add: in_some_list_def)
    then show ?thesis
      using linked_free [OF d free] pq False xs by (auto simp: unlink_def)
  qed
qed

lemma remove_refines:
  assumes d: "linked d L"
  shows "linked (rt_list_remove (Node n) d) (lists_remove n L)"
proof (cases "in_some_list n L")
  case False
  have "rt_list_remove (Node n) d = unlink (Node n) (Node n) (Node n) d"
    using linked_free [OF d False] by (intro remove_unlink) auto
  also have "\<dots> = d"
    using linked_free [OF d False] by (simp add: unlink_def fun_upd_idem)
  finally show ?thesis
    using d False by (simp add: lists_remove_free)
next
  case True
  then obtain h xs ys where xs: "L h = xs @ n # ys"
    by (auto simp: in_some_list_def in_set_conv_decomp)
  have dist: "distinct (xs @ n # ys)"
    using disjoint_distinct [OF linked_disjoint [OF d], of h] xs by simp
  have s: "seg d (Head h) xs (Node n)" "seg d (Node n) ys (Head h)"
    using linked_seg [OF d, of h] xs by (auto simp: seg_append)
  have "prv d (Node n) = last_cell (Head h) xs" "nxt d (Node n) = first_cell ys (Head h)"
    using seg_last [OF s(1)] seg_first [OF s(2)] .
  moreover have "last_cell (Head h) xs \<noteq> Node n" "first_cell ys (Head h) \<noteq> Node n"
    using last_cell_in [of "Head h" xs] first_cell_in [of ys "Head h"] dist by auto
  ultimately show ?thesis
    using linked_unlink [OF d xs refl refl] by (simp add: remove_unlink)
qed

lemma isempty_refines: "linked d L \<Longrightarrow> rt_list_isempty (Head h) d \<longleftrightarrow> L h = []"
  using seg_first [OF linked_seg, of d L h] by (auto simp: rt_list_isempty_def first_cell_def)

lemma first_refines: "linked d L \<Longrightarrow> L h \<noteq> [] \<Longrightarrow> nxt d (Head h) = Node (hd (L h))"
  using seg_first [OF linked_seg, of d L h] by (simp add: first_cell_def)

lemma rt_list_len_from_seg:
  "seg d p xs (Head h) \<Longrightarrow> length xs < fuel \<Longrightarrow> rt_list_len_from fuel (Head h) p d k = Some (k + length xs)"
proof (induction xs arbitrary: p fuel k)
  case Nil
  then show ?case by (cases fuel) auto
next
  case (Cons x xs)
  then obtain f where "fuel = Suc f" by (cases fuel) auto
  with Cons show ?case by simp
qed

section \<open>The interface\<close>

text \<open>Taking the first node off a list until it is empty: the loop of the kernel's wake-up-all code.\<close>

fun drain :: "('d \<Rightarrow> bool) \<Rightarrow> ('d \<Rightarrow> 'n) \<Rightarrow> ('n \<Rightarrow> 'd \<Rightarrow> 'd) \<Rightarrow> nat \<Rightarrow> 'd \<Rightarrow> ('n list \<times> 'd) option" where
  "drain isemp frst rem 0 d = (if isemp d then Some ([], d) else None)"
| "drain isemp frst rem (Suc fuel) d =
     (if isemp d then Some ([], d)
      else map_option (\<lambda>(ns, d'). (frst d # ns, d')) (drain isemp frst rem fuel (rem (frst d) d)))"

locale intrusive_lists =
  fixes rep :: "'d \<Rightarrow> ('h, 'n) lists \<Rightarrow> bool"
    and push_front :: "'h \<Rightarrow> 'n \<Rightarrow> 'd \<Rightarrow> 'd"
    and push_back :: "'h \<Rightarrow> 'n \<Rightarrow> 'd \<Rightarrow> 'd"
    and remove :: "'n \<Rightarrow> 'd \<Rightarrow> 'd"
    and isempty :: "'h \<Rightarrow> 'd \<Rightarrow> bool"
    and first :: "'h \<Rightarrow> 'd \<Rightarrow> 'n"
  assumes rep_disjoint: "rep d L \<Longrightarrow> lists_disjoint L"
    and rep_push_front: "rep d L \<Longrightarrow> \<not> in_some_list n L \<Longrightarrow> rep (push_front h n d) (lists_push_front h n L)"
    and rep_push_back: "rep d L \<Longrightarrow> \<not> in_some_list n L \<Longrightarrow> rep (push_back h n d) (lists_push_back h n L)"
    and rep_remove: "rep d L \<Longrightarrow> rep (remove n d) (lists_remove n L)"
    and rep_isempty: "rep d L \<Longrightarrow> isempty h d \<longleftrightarrow> L h = []"
    and rep_first: "rep d L \<Longrightarrow> L h \<noteq> [] \<Longrightarrow> first h d = hd (L h)"
begin

lemma rep_fold_push_back:
  "rep d L \<Longrightarrow> distinct ns \<Longrightarrow> (\<And>n. n \<in> set ns \<Longrightarrow> \<not> in_some_list n L) \<Longrightarrow>
   rep (fold (push_back h) ns d) (L(h := L h @ ns))"
proof (induction ns arbitrary: d L)
  case Nil
  then show ?case by simp
next
  case (Cons n ns)
  let ?L = "lists_push_back h n L"
  have "rep (push_back h n d) ?L"
    using Cons.prems by (intro rep_push_back) auto
  then have "rep (fold (push_back h) ns (push_back h n d)) (?L(h := ?L h @ ns))"
    using Cons.prems by (intro Cons.IH) (auto simp: in_some_list_push_back)
  then show ?case
    by (simp add: lists_push_back_def fun_upd_def cong: if_cong)
qed

lemma rep_drain:
  "rep d L \<Longrightarrow> length (L h) \<le> fuel \<Longrightarrow>
   \<exists>d'. drain (isempty h) (first h) remove fuel d = Some (L h, d') \<and> rep d' (L(h := []))"
proof (induction fuel arbitrary: d L)
  case 0
  then show ?case by (auto simp: rep_isempty fun_upd_idem)
next
  case (Suc fuel)
  show ?case
  proof (cases "L h")
    case Nil
    with Suc.prems show ?thesis by (auto simp: rep_isempty fun_upd_idem)
  next
    case (Cons n ns)
    have first: "first h d = n"
      using rep_first [OF Suc.prems(1), of h] Cons by simp
    have L': "lists_remove n L = L(h := ns)"
      using lists_remove_split [OF rep_disjoint [OF Suc.prems(1)], of h "[]" n ns] Cons by simp
    have "rep (remove n d) (L(h := ns))"
      using rep_remove [OF Suc.prems(1), of n] L' by simp
    then obtain d' where "drain (isempty h) (first h) remove fuel (remove n d) = Some (ns, d')" "rep d' (L(h := []))"
      using Suc.IH [of "remove n d" "L(h := ns)"] Suc.prems(2) Cons by (auto simp: fun_upd_def cong: if_cong)
    then show ?thesis
      using Cons first by (simp add: rep_isempty [OF Suc.prems(1)] fun_upd_def cong: if_cong)
  qed
qed

lemma fifo:
  assumes "rep d L" and "L h = []" and "distinct ns" and "\<And>n. n \<in> set ns \<Longrightarrow> \<not> in_some_list n L"
  shows "\<exists>d'. drain (isempty h) (first h) remove (length ns) (fold (push_back h) ns d) = Some (ns, d') \<and> rep d' L"
proof -
  have "rep (fold (push_back h) ns d) (L(h := ns))"
    using rep_fold_push_back [OF assms(1,3,4), of h] assms(2) by simp
  from rep_drain [OF this, of h "length ns"] assms(2) show ?thesis
    by (simp add: fun_upd_idem)
qed

end

text \<open>The node a \<^verbatim>\<open>next\<close> pointer designates; \<^verbatim>\<open>rt_list_entry\<close> of a list head is not an object.\<close>

definition first_entry :: "'h \<Rightarrow> ('h, 'n) dlist \<Rightarrow> 'n option" where
  "first_entry h d = (case nxt d (Head h) of Node n \<Rightarrow> Some n | Head _ \<Rightarrow> None)"

interpretation dl: intrusive_lists linked "\<lambda>h n. rt_list_insert_after (Head h) (Node n)"
    "\<lambda>h n. rt_list_insert_before (Head h) (Node n)" "\<lambda>n. rt_list_remove (Node n)"
    "\<lambda>h. rt_list_isempty (Head h)" "\<lambda>h d. the (first_entry h d)"
proof
  fix d :: "('h, 'n) dlist" and L h
  assume "linked d L"
  then show "L h \<noteq> [] \<Longrightarrow> the (first_entry h d) = hd (L h)"
    by (simp add: first_entry_def first_refines)
qed (auto intro: linked_disjoint insert_after_refines insert_before_refines remove_refines simp: isempty_refines)

interpretation fl: intrusive_lists "\<lambda>d L. d = L \<and> lists_disjoint L" lists_push_front lists_push_back lists_remove
    "\<lambda>h L. L h = []" "\<lambda>h L. hd (L h)"
  by unfold_locales (auto intro: disjoint_push_front disjoint_push_back disjoint_remove)

section \<open>Properties\<close>

text \<open>
  The pointer code of \<^verbatim>\<open>rt_list_insert_before\<close>, \<^verbatim>\<open>rt_list_isempty\<close> and \<^verbatim>\<open>rt_list_remove\<close> is a FIFO:
  inserting free nodes one after the other before an empty list head and then repeatedly removing the
  first node yields exactly those nodes in insertion order, stops after that many removals, and leaves
  every list of the memory as it was.
\<close>

theorem rt_list_fifo:
  assumes "linked d L" and "L h = []" and "distinct ns" and "\<And>n. n \<in> set ns \<Longrightarrow> \<not> in_some_list n L"
  shows "\<exists>d'. drain (rt_list_isempty (Head h)) (\<lambda>d. the (first_entry h d)) (\<lambda>n. rt_list_remove (Node n)) (length ns)
      (fold (\<lambda>n. rt_list_insert_before (Head h) (Node n)) ns d) = Some (ns, d') \<and> linked d' L"
  using assms by (rule dl.fifo)

definition empty_dlist :: "('h, 'n) dlist" where
  "empty_dlist = \<lparr>nxt = (\<lambda>p. p), prv = (\<lambda>p. p)\<rparr>"

lemma linked_empty: "linked empty_dlist (\<lambda>_. [])"
  by (simp add: linked_def empty_dlist_def lists_disjoint_def)

theorem rt_list_fifo_witness:
  "\<exists>d'. drain (rt_list_isempty (Head (0::nat))) (\<lambda>d. the (first_entry 0 d)) (\<lambda>n. rt_list_remove (Node n)) (length [3, 1, 2::nat])
      (fold (\<lambda>n. rt_list_insert_before (Head 0) (Node n)) [3, 1, 2::nat] empty_dlist) = Some ([3, 1, 2], d') \<and>
      linked d' (\<lambda>_. [])"
  by (rule rt_list_fifo [OF linked_empty]) (auto simp: in_some_list_def)

text \<open>
  \<^verbatim>\<open>rt_list_remove\<close> on a node takes it out of whichever list holds it and changes no other list; on
  a node that is in no list it changes nothing. The kernel relies on this when it removes a thread from
  an unknown wait list (\<^verbatim>\<open>rt_thread_resume\<close>, \<^verbatim>\<open>rt_thread_timeout\<close>).
\<close>

theorem rt_list_remove_any:
  assumes "linked d L"
  shows "linked (rt_list_remove (Node n) d) (\<lambda>h. filter (\<lambda>m. m \<noteq> n) (L h))"
proof -
  have "lists_remove n L = (\<lambda>h. filter (\<lambda>m. m \<noteq> n) (L h))"
    by (auto simp: lists_remove_def removeAll_filter_not_eq fun_eq_iff) (metis (mono_tags, lifting) filter_cong)
  then show ?thesis
    using dl.rep_remove [OF assms, of n] by simp
qed

theorem rt_list_remove_any_witness:
  "linked (rt_list_remove (Node (7::nat)) (rt_list_insert_after (Head (0::nat)) (Node 7) empty_dlist)) (\<lambda>h. [])"
  using rt_list_remove_any [OF dl.rep_push_front [OF linked_empty, of 7 0], of 7]
  by (simp add: lists_push_front_def in_some_list_def if_distrib cong: if_cong)

end
