(* ===== verification/RT_Kservice.thy ===== *)
theory RT_Kservice
  imports RT_Prelude
begin

text \<open>
  The parts of \<^verbatim>\<open>src/kservice.c\<close> the scheduler and the object system rest on: \<^verbatim>\<open>__rt_ffs\<close> with its lookup
  table, and the bounded string functions \<^verbatim>\<open>rt_strncpy\<close>, \<^verbatim>\<open>rt_strncmp\<close>, \<^verbatim>\<open>rt_strnlen\<close>. The locale \<open>find_first_set\<close>
  is the contract the scheduler uses; it is interpreted on the table-driven code.
\<close>

section \<open>Find first set\<close>

definition lowest_bit_bitmap :: "nat list" where
  "lowest_bit_bitmap = [
   0, 0, 1, 0, 2, 0, 1, 0, 3, 0, 1, 0, 2, 0, 1, 0,
   4, 0, 1, 0, 2, 0, 1, 0, 3, 0, 1, 0, 2, 0, 1, 0,
   5, 0, 1, 0, 2, 0, 1, 0, 3, 0, 1, 0, 2, 0, 1, 0,
   4, 0, 1, 0, 2, 0, 1, 0, 3, 0, 1, 0, 2, 0, 1, 0,
   6, 0, 1, 0, 2, 0, 1, 0, 3, 0, 1, 0, 2, 0, 1, 0,
   4, 0, 1, 0, 2, 0, 1, 0, 3, 0, 1, 0, 2, 0, 1, 0,
   5, 0, 1, 0, 2, 0, 1, 0, 3, 0, 1, 0, 2, 0, 1, 0,
   4, 0, 1, 0, 2, 0, 1, 0, 3, 0, 1, 0, 2, 0, 1, 0,
   7, 0, 1, 0, 2, 0, 1, 0, 3, 0, 1, 0, 2, 0, 1, 0,
   4, 0, 1, 0, 2, 0, 1, 0, 3, 0, 1, 0, 2, 0, 1, 0,
   5, 0, 1, 0, 2, 0, 1, 0, 3, 0, 1, 0, 2, 0, 1, 0,
   4, 0, 1, 0, 2, 0, 1, 0, 3, 0, 1, 0, 2, 0, 1, 0,
   6, 0, 1, 0, 2, 0, 1, 0, 3, 0, 1, 0, 2, 0, 1, 0,
   4, 0, 1, 0, 2, 0, 1, 0, 3, 0, 1, 0, 2, 0, 1, 0,
   5, 0, 1, 0, 2, 0, 1, 0, 3, 0, 1, 0, 2, 0, 1, 0,
   4, 0, 1, 0, 2, 0, 1, 0, 3, 0, 1, 0, 2, 0, 1, 0]"

definition rt_ffs :: "u32 \<Rightarrow> nat" where
  "rt_ffs v =
    (if v = 0 then 0
     else if v AND 0xFF \<noteq> 0 then lowest_bit_bitmap ! unat (v AND 0xFF) + 1
     else if v AND 0xFF00 \<noteq> 0 then lowest_bit_bitmap ! unat (drop_bit 8 (v AND 0xFF00)) + 9
     else if v AND 0xFF0000 \<noteq> 0 then lowest_bit_bitmap ! unat (drop_bit 16 (v AND 0xFF0000)) + 17
     else lowest_bit_bitmap ! unat (drop_bit 24 (v AND 0xFF000000)) + 25)"

section \<open>Strings\<close>

text \<open>
  A C string is a list of characters; reading at or past its end yields the terminating NUL.
  \<^verbatim>\<open>rt_strncpy\<close> returns the \<open>n\<close> bytes it writes to the destination.
\<close>

abbreviation NUL :: char where "NUL \<equiv> CHR 0x00"

fun rt_strncpy :: "string \<Rightarrow> nat \<Rightarrow> string" where
  "rt_strncpy s 0 = []"
| "rt_strncpy [] (Suc n) = NUL # replicate n NUL"
| "rt_strncpy (c # s) (Suc n) = (if c = NUL then NUL # replicate n NUL else c # rt_strncpy s n)"

definition cchar :: "string \<Rightarrow> char" where
  "cchar s = (case s of [] \<Rightarrow> NUL | c # _ \<Rightarrow> c)"

text \<open>\<^verbatim>\<open>signed char __res = *cs - *ct\<close>: the difference wrapped to eight signed bits.\<close>

definition char_diff :: "char \<Rightarrow> char \<Rightarrow> int" where
  "char_diff c d = sint (word_of_int (of_char c - of_char d) :: 8 word)"

fun rt_strncmp :: "string \<Rightarrow> string \<Rightarrow> nat \<Rightarrow> int" where
  "rt_strncmp cs ct 0 = 0"
| "rt_strncmp cs ct (Suc n) =
     (let res = char_diff (cchar cs) (cchar ct)
      in if res \<noteq> 0 \<or> cchar cs = NUL then res else rt_strncmp (tl cs) (tl ct) n)"

fun rt_strnlen :: "string \<Rightarrow> nat \<Rightarrow> nat" where
  "rt_strnlen s n = (if cchar s \<noteq> NUL \<and> 0 < n then Suc (rt_strnlen (tl s) (n - 1)) else 0)"

declare rt_strnlen.simps [simp del]

text \<open>The string a character array denotes.\<close>

definition cstr :: "string \<Rightarrow> string" where
  "cstr s = takeWhile (\<lambda>c. c \<noteq> NUL) s"

section \<open>Correctness of \<^verbatim>\<open>__rt_ffs\<close>\<close>

fun table_ok :: "nat \<Rightarrow> nat list \<Rightarrow> bool" where
  "table_ok i [] = True"
| "table_ok i (t # ts) = (t < 8 \<and> i mod 2 ^ t = 0 \<and> i div 2 ^ t mod 2 = 1 \<and> table_ok (i + 1) ts)"

lemma table_ok_nth:
  "table_ok i ts \<Longrightarrow> k < length ts \<Longrightarrow> ts ! k < 8 \<and> 2 ^ (ts ! k) dvd i + k \<and> odd ((i + k) div 2 ^ (ts ! k))"
proof (induction ts arbitrary: i k)
  case Nil
  then show ?case by simp
next
  case (Cons t ts)
  then show ?case
    using Cons.IH [of "Suc i" "k - 1"] by (cases k) (auto simp: odd_iff_mod_2_eq_one)
qed

lemma bitmap_table: "table_ok 1 (tl lowest_bit_bitmap)"
  by (simp add: lowest_bit_bitmap_def del: One_nat_def)

lemma bitmap_entry:
  assumes "0 < i" and "i < 256"
  shows "bit i (lowest_bit_bitmap ! i)" and "lowest_bit_bitmap ! i < 8" and "q < lowest_bit_bitmap ! i \<Longrightarrow> \<not> bit i q"
proof -
  have len: "length lowest_bit_bitmap = 256"
    by (simp add: lowest_bit_bitmap_def)
  let ?t = "lowest_bit_bitmap ! i"
  have "tl lowest_bit_bitmap ! (i - 1) = ?t"
    using assms len by (simp add: nth_tl)
  then have t: "?t < 8" "2 ^ ?t dvd i" "odd (i div 2 ^ ?t)"
    using table_ok_nth [OF bitmap_table, of "i - 1"] assms len by simp_all
  then show "bit i ?t" "?t < 8"
    by (simp_all add: bit_iff_odd)
  assume q: "q < ?t"
  then have "(2::nat) ^ Suc q dvd 2 ^ ?t"
    by (intro le_imp_power_dvd) simp
  then have "2 ^ Suc q dvd i"
    using t(2) by (rule dvd_trans)
  then obtain k where "i = 2 ^ Suc q * k" ..
  then show "\<not> bit i q"
    by (simp add: bit_iff_odd)
qed

lemma power_8_256: "(2::nat) ^ 8 = 256"
  by simp

lemma ffs_byte:
  fixes w :: u32
  assumes "w \<noteq> 0" and "\<And>q. bit w q \<Longrightarrow> q < 8"
  shows "bit w (lowest_bit_bitmap ! unat w)" and "lowest_bit_bitmap ! unat w < 8"
    and "q < lowest_bit_bitmap ! unat w \<Longrightarrow> \<not> bit w q"
proof -
  have "take_bit 8 w = w"
    using assms(2) by (intro bit_word_eqI) (auto simp: bit_take_bit_iff)
  then have "unat w = take_bit 8 (unat w)"
    by (metis unsigned_take_bit_eq)
  then have "unat w < 256"
    by (metis take_bit_nat_less_exp power_8_256)
  moreover have "0 < unat w"
    using assms(1) by (simp add: unat_gt_0)
  ultimately show "bit w (lowest_bit_bitmap ! unat w)" "lowest_bit_bitmap ! unat w < 8"
    "q < lowest_bit_bitmap ! unat w \<Longrightarrow> \<not> bit w q"
    using bitmap_entry [of "unat w"] by (auto simp: bit_unsigned_iff)
qed

text \<open>The contract of a find-first-set routine: 0 for 0, else one plus the index of the lowest set bit.\<close>

locale find_first_set =
  fixes ffs :: "u32 \<Rightarrow> nat"
  assumes ffs_zero: "ffs 0 = 0"
    and ffs_bit: "v \<noteq> 0 \<Longrightarrow> 0 < ffs v \<and> bit v (ffs v - 1)"
    and ffs_least: "v \<noteq> 0 \<Longrightarrow> q < ffs v - 1 \<Longrightarrow> \<not> bit v q"
begin

lemma ffs_le: "bit v q \<Longrightarrow> ffs v - 1 \<le> q"
  using ffs_least [of v q] by (cases "v = 0") (auto simp: not_less [symmetric])

lemma ffs_lt_32: "v \<noteq> 0 \<Longrightarrow> ffs v - 1 < 32"
  using ffs_bit [of v] bit_imp_le_length [of v "ffs v - 1"] by simp

lemma ffs_eq_Least: "v \<noteq> 0 \<Longrightarrow> ffs v - 1 = (LEAST q. bit v q)"
  using ffs_bit ffs_le by (intro Least_equality [symmetric]) auto

lemma ffs_unique: "bit v q \<Longrightarrow> (\<And>p. p < q \<Longrightarrow> \<not> bit v p) \<Longrightarrow> ffs v = q + 1"
proof -
  assume q: "bit v q" and least: "\<And>p. p < q \<Longrightarrow> \<not> bit v p"
  then have "v \<noteq> 0" by auto
  with ffs_bit [of v] ffs_le [OF q] least [of "ffs v - 1"] show "ffs v = q + 1"
    by (cases "ffs v - 1 < q") auto
qed

end

lemma mask_bits:
  "bit (v AND 0xFF) q \<longleftrightarrow> bit v q \<and> q < 8"
  "bit (drop_bit 8 (v AND 0xFF00)) q \<longleftrightarrow> bit v (q + 8) \<and> q < 8"
  "bit (drop_bit 16 (v AND 0xFF0000)) q \<longleftrightarrow> bit v (q + 16) \<and> q < 8"
  "bit (drop_bit 24 (v AND 0xFF000000)) q \<longleftrightarrow> bit v (q + 24) \<and> q < 8" for v :: u32
proof -
  have m: "(0xFF :: u32) = mask 8" "(0xFF00 :: u32) = push_bit 8 (mask 8)"
    "(0xFF0000 :: u32) = push_bit 16 (mask 8)" "(0xFF000000 :: u32) = push_bit 24 (mask 8)"
    by (simp_all add: mask_eq_exp_minus_1 push_bit_eq_mult)
  show "bit (v AND 0xFF) q \<longleftrightarrow> bit v q \<and> q < 8"
    by (auto simp: m bit_and_iff bit_mask_iff)
  show "bit (drop_bit 8 (v AND 0xFF00)) q \<longleftrightarrow> bit v (q + 8) \<and> q < 8"
    by (auto simp: m bit_drop_bit_eq bit_and_iff bit_push_bit_iff bit_mask_iff add.commute dest: bit_imp_le_length)
  show "bit (drop_bit 16 (v AND 0xFF0000)) q \<longleftrightarrow> bit v (q + 16) \<and> q < 8"
    by (auto simp: m bit_drop_bit_eq bit_and_iff bit_push_bit_iff bit_mask_iff add.commute dest: bit_imp_le_length)
  show "bit (drop_bit 24 (v AND 0xFF000000)) q \<longleftrightarrow> bit v (q + 24) \<and> q < 8"
    by (auto simp: m bit_drop_bit_eq bit_and_iff bit_push_bit_iff bit_mask_iff add.commute dest: bit_imp_le_length)
qed

text \<open>One byte lane of the word: if the lane is not zero and the lower lanes are, the table finds the bit.\<close>

lemma ffs_lane:
  fixes v w :: u32
  assumes "w \<noteq> 0" and w: "\<And>q. bit w q \<longleftrightarrow> bit v (q + k) \<and> q < 8" and low: "\<And>q. q < k \<Longrightarrow> \<not> bit v q"
  defines "r \<equiv> lowest_bit_bitmap ! unat w + k"
  shows "bit v r \<and> (\<forall>q < r. \<not> bit v q)"
proof -
  have e: "bit w (lowest_bit_bitmap ! unat w)" "lowest_bit_bitmap ! unat w < 8"
    "\<And>q. q < lowest_bit_bitmap ! unat w \<Longrightarrow> \<not> bit w q"
    using ffs_byte [of w] assms(1) w by simp_all
  have "\<not> bit v q" if "q < r" for q
  proof (cases "q < k")
    case True
    then show ?thesis by (rule low)
  next
    case False
    then have "k \<le> q" by simp
    then obtain p where "q = k + p" using le_Suc_ex by blast
    then have "q = p + k" by simp
    with that e(3) [of p] e(2) w [of p] show ?thesis
      by (auto simp: r_def)
  qed
  then show ?thesis
    using e w by (auto simp: r_def)
qed

lemma lane_zero:
  fixes v w :: u32
  assumes "\<And>q. bit w q \<longleftrightarrow> bit v (q + k) \<and> q < 8" and "w = 0" and "k \<le> q" and "q < k + 8"
  shows "\<not> bit v q"
proof -
  obtain p where "q = k + p" using assms(3) le_Suc_ex by blast
  then have "q = p + k" by simp
  with assms(1) [of p] assms(2,4) show ?thesis by simp
qed

lemma drop_bit_eq_0:
  fixes x :: u32
  assumes "\<And>q. bit x q \<Longrightarrow> k \<le> q"
  shows "drop_bit k x = 0 \<longleftrightarrow> x = 0"
proof
  assume d: "drop_bit k x = 0"
  show "x = 0"
  proof (rule bit_word_eqI)
    fix q
    have "\<not> bit (drop_bit k x) (q - k)" using d by simp
    then show "bit x q \<longleftrightarrow> bit 0 q" using assms [of q] by (auto simp: bit_drop_bit_eq)
  qed
qed simp

lemma mask_low:
  "bit (v AND 0xFF00) q \<Longrightarrow> 8 \<le> q" "bit (v AND 0xFF0000) q \<Longrightarrow> 16 \<le> q" "bit (v AND 0xFF000000) q \<Longrightarrow> 24 \<le> q" for v :: u32
proof -
  have m: "(0xFF00 :: u32) = push_bit 8 (mask 8)"
    "(0xFF0000 :: u32) = push_bit 16 (mask 8)" "(0xFF000000 :: u32) = push_bit 24 (mask 8)"
    by (simp_all add: mask_eq_exp_minus_1 push_bit_eq_mult)
  show "bit (v AND 0xFF00) q \<Longrightarrow> 8 \<le> q" "bit (v AND 0xFF0000) q \<Longrightarrow> 16 \<le> q" "bit (v AND 0xFF000000) q \<Longrightarrow> 24 \<le> q"
    by (simp_all add: m bit_and_iff bit_push_bit_iff)
qed

lemma rt_ffs_lowest:
  assumes "v \<noteq> 0"
  shows "0 < rt_ffs v \<and> bit v (rt_ffs v - 1) \<and> (\<forall>q < rt_ffs v - 1. \<not> bit v q)"
proof -
  have z0: "v AND 0xFF = 0 \<Longrightarrow> q < 8 \<Longrightarrow> \<not> bit v q" for q
    using mask_bits(1) [of v q] by auto
  have z1: "v AND 0xFF00 = 0 \<Longrightarrow> 8 \<le> q \<Longrightarrow> q < 16 \<Longrightarrow> \<not> bit v q" for q
    by (rule lane_zero [OF mask_bits(2)]) simp_all
  have z2: "v AND 0xFF0000 = 0 \<Longrightarrow> 16 \<le> q \<Longrightarrow> q < 24 \<Longrightarrow> \<not> bit v q" for q
    by (rule lane_zero [OF mask_bits(3)]) simp_all
  have z3: "v AND 0xFF000000 = 0 \<Longrightarrow> 24 \<le> q \<Longrightarrow> q < 32 \<Longrightarrow> \<not> bit v q" for q
    by (rule lane_zero [OF mask_bits(4)]) simp_all
  consider (b0) "v AND 0xFF \<noteq> 0" | (b1) "v AND 0xFF = 0" "v AND 0xFF00 \<noteq> 0"
    | (b2) "v AND 0xFF = 0" "v AND 0xFF00 = 0" "v AND 0xFF0000 \<noteq> 0"
    | (b3) "v AND 0xFF = 0" "v AND 0xFF00 = 0" "v AND 0xFF0000 = 0" by blast
  then show ?thesis
  proof cases
    case b0
    with assms have "rt_ffs v = lowest_bit_bitmap ! unat (v AND 0xFF) + 1"
      by (simp add: rt_ffs_def)
    with ffs_lane [OF b0, of v 0] show ?thesis
      by (simp add: mask_bits)
  next
    case b1
    with assms have e: "rt_ffs v = lowest_bit_bitmap ! unat (drop_bit 8 (v AND 0xFF00)) + 9"
      unfolding rt_ffs_def by argo
    have "drop_bit 8 (v AND 0xFF00) \<noteq> 0"
      using b1(2) drop_bit_eq_0 [of "v AND 0xFF00" 8] mask_low(1) by blast
    from ffs_lane [OF this mask_bits(2) z0 [OF b1(1)]] show ?thesis
      unfolding e by (simp add: add.commute)
  next
    case b2
    have low: "\<not> bit v q" if "q < 16" for q
      using z0 [OF b2(1), of q] z1 [OF b2(2), of q] that by linarith
    from b2 assms have e: "rt_ffs v = lowest_bit_bitmap ! unat (drop_bit 16 (v AND 0xFF0000)) + 17"
      unfolding rt_ffs_def by argo
    have "drop_bit 16 (v AND 0xFF0000) \<noteq> 0"
      using b2(3) drop_bit_eq_0 [of "v AND 0xFF0000" 16] mask_low(2) by blast
    from ffs_lane [OF this mask_bits(3) low] show ?thesis
      unfolding e by (simp add: add.commute)
  next
    case b3
    have low: "\<not> bit v q" if "q < 24" for q
      using z0 [OF b3(1), of q] z1 [OF b3(2), of q] z2 [OF b3(3), of q] that by linarith
    from b3 assms have e: "rt_ffs v = lowest_bit_bitmap ! unat (drop_bit 24 (v AND 0xFF000000)) + 25"
      unfolding rt_ffs_def by argo
    have "v AND 0xFF000000 \<noteq> 0"
    proof
      assume "v AND 0xFF000000 = 0"
      then have "\<not> bit v q" if "q < 32" for q
        using low [of q] z3 [of q] that by linarith
      then show False using assms by (simp add: word_eq_0_bits)
    qed
    then have "drop_bit 24 (v AND 0xFF000000) \<noteq> 0"
      using drop_bit_eq_0 [of "v AND 0xFF000000" 24] mask_low(3) by blast
    from ffs_lane [OF this mask_bits(4) low] show ?thesis
      unfolding e by (simp add: add.commute)
  qed
qed

interpretation ffs: find_first_set rt_ffs
  using rt_ffs_lowest by unfold_locales (auto simp: rt_ffs_def)

text \<open>
  The table-driven \<^verbatim>\<open>__rt_ffs\<close> agrees with its specification on every 32-bit value: it returns 0
  exactly for 0, and otherwise one plus the index of the least significant set bit.
\<close>

theorem rt_ffs_spec: "rt_ffs v = (if v = 0 then 0 else (LEAST q. bit v q) + 1)"
  using ffs.ffs_eq_Least [of v] ffs.ffs_bit [of v] ffs.ffs_zero by auto

section \<open>Correctness of the string functions\<close>

lemma char_diff_0 [simp]: "char_diff c d = 0 \<longleftrightarrow> c = d"
proof
  assume "char_diff c d = 0"
  then have "(word_of_int (of_char c - of_char d) :: 8 word) = 0"
    by (simp add: char_diff_def signed_eq_0_iff)
  then have "(word_of_int (of_char c) :: 8 word) = word_of_int (of_char d)"
    by simp
  then have "(of_char c :: int) mod 256 = of_char d mod 256"
    by (simp add: word_of_int_eq_iff take_bit_eq_mod)
  then show "c = d" by simp
qed (simp add: char_diff_def)

lemma cstr_simps [simp]: "cstr [] = []" "cstr (c # s) = (if c = NUL then [] else c # cstr s)"
  by (simp_all add: cstr_def)

lemma cchar_simps [simp]: "cchar [] = NUL" "cchar (c # s) = c"
  by (simp_all add: cchar_def)

lemma length_rt_strncpy [simp]: "length (rt_strncpy s n) = n"
  by (induction s n rule: rt_strncpy.induct) auto

lemma cstr_replicate_NUL [simp]: "cstr (replicate n NUL) = []"
  by (cases n) auto

lemma cstr_rt_strncpy: "cstr (rt_strncpy s n) = take n (cstr s)"
  by (induction s n rule: rt_strncpy.induct) auto

lemma rt_strncmp_eq_0: "rt_strncmp cs ct n = 0 \<longleftrightarrow> take n (cstr cs) = take n (cstr ct)"
proof (induction cs ct n rule: rt_strncmp.induct)
  case (1 cs ct)
  then show ?case by simp
next
  case (2 cs ct n)
  then show ?case
    by (cases cs; cases ct) (auto simp: Let_def)
qed

lemma rt_strnlen_eq: "rt_strnlen s n = length (take n (cstr s))"
  by (induction s n rule: rt_strnlen.induct) (subst rt_strnlen.simps, auto simp: cchar_def split: list.splits nat_diff_split)

text \<open>
  Names of kernel objects are compared on their first \<^verbatim>\<open>RT_NAME_MAX\<close> characters: storing a name with
  \<^verbatim>\<open>rt_strncpy\<close> and comparing it with \<^verbatim>\<open>rt_strncmp\<close> gives 0 exactly when the two names, cut at a NUL
  and at the bound, are the same string.
\<close>

theorem rt_strncmp_strncpy: "rt_strncmp (rt_strncpy s n) t n = 0 \<longleftrightarrow> take n (cstr s) = take n (cstr t)"
  by (simp add: rt_strncmp_eq_0 cstr_rt_strncpy)

end
