(* ===== verification/RT_State.thy ===== *)
theory RT_State
  imports RT_List RT_Kservice
begin

text \<open>
  The data model of the kernel: the structures of \<^verbatim>\<open>include/rtdef.h\<close> as records and the global variables of
  \<^verbatim>\<open>src/*.c\<close> as the fields of one state record. The configuration of the kernel is that of the board
  (\<^verbatim>\<open>bsp/imxrt/imxrt1060-nxp-evk/rtconfig.h\<close>): one CPU, 32 priorities, \<^verbatim>\<open>RT_DEBUG\<close> on, no signals, no
  modules, no soft timers. The model differs from that file where the sources have a default that it overrides or a choice that it makes: the
  main thread has the priority \<^verbatim>\<open>RT_THREAD_PRIORITY_MAX / 3\<close> of \<^verbatim>\<open>src/components.c\<close> (the file sets 3), the system heap of
  \<^verbatim>\<open>RT_Mem\<close> is \<^verbatim>\<open>src/mem.c\<close> (the file uses \<^verbatim>\<open>src/memheap.c\<close>), and the console buffer of \<^verbatim>\<open>RT_Printf\<close> has the
  default of 128 bytes (the file sets 512).
\<close>

section \<open>Kernel objects\<close>

text \<open>
  A kernel object is designated by the address of its structure. The timer embedded in a thread
  (\<^verbatim>\<open>thread->thread_timer\<close>) has its own object header, designated through the thread.
\<close>

datatype objref = Obj ptr | ThreadTimer ptr

record rt_object =
  o_name :: string
  o_type :: u8
  o_flag :: u8

abbreviation (input) RT_Object_Class_Null :: u8 where "RT_Object_Class_Null \<equiv> 0"
abbreviation (input) RT_Object_Class_Thread :: u8 where "RT_Object_Class_Thread \<equiv> 1"
abbreviation (input) RT_Object_Class_Semaphore :: u8 where "RT_Object_Class_Semaphore \<equiv> 2"
abbreviation (input) RT_Object_Class_Mutex :: u8 where "RT_Object_Class_Mutex \<equiv> 3"
abbreviation (input) RT_Object_Class_Event :: u8 where "RT_Object_Class_Event \<equiv> 4"
abbreviation (input) RT_Object_Class_MailBox :: u8 where "RT_Object_Class_MailBox \<equiv> 5"
abbreviation (input) RT_Object_Class_MessageQueue :: u8 where "RT_Object_Class_MessageQueue \<equiv> 6"
abbreviation (input) RT_Object_Class_MemHeap :: u8 where "RT_Object_Class_MemHeap \<equiv> 7"
abbreviation (input) RT_Object_Class_MemPool :: u8 where "RT_Object_Class_MemPool \<equiv> 8"
abbreviation (input) RT_Object_Class_Device :: u8 where "RT_Object_Class_Device \<equiv> 9"
abbreviation (input) RT_Object_Class_Timer :: u8 where "RT_Object_Class_Timer \<equiv> 10"
abbreviation (input) RT_Object_Class_Unknown :: u8 where "RT_Object_Class_Unknown \<equiv> 12"
abbreviation (input) RT_Object_Class_Static :: u8 where "RT_Object_Class_Static \<equiv> 0x80"

record rt_object_information =
  info_type :: u8
  info_list :: "objref list"
  info_size :: nat

section \<open>Timers and threads\<close>

text \<open>
  A timeout function pointer with its parameter: the kernel's own \<^verbatim>\<open>rt_thread_timeout\<close> on a thread, or
  an application function with an argument.
\<close>

datatype timeout_fn = Thread_Timeout ptr | User_Timeout nat nat

record rt_timer =
  tm_func :: timeout_fn
  tm_init :: u32
  tm_timeout :: u32

abbreviation (input) RT_TIMER_FLAG_ACTIVATED :: u8 where "RT_TIMER_FLAG_ACTIVATED \<equiv> 1"
abbreviation (input) RT_TIMER_FLAG_PERIODIC :: u8 where "RT_TIMER_FLAG_PERIODIC \<equiv> 2"
abbreviation (input) RT_TIMER_FLAG_ONE_SHOT :: u8 where "RT_TIMER_FLAG_ONE_SHOT \<equiv> 0"

record rt_thread =
  th_entry :: nat
  th_parameter :: nat
  th_stack_addr :: ptr
  th_stack_size :: u32
  th_error :: rt_err_t
  th_stat :: u8
  th_current_priority :: u8
  th_init_priority :: u8
  th_number_mask :: u32
  th_event_set :: u32
  th_event_info :: u8
  th_init_tick :: u32
  th_remaining_tick :: u32
  th_cleanup :: nat
  th_user_data :: u32

abbreviation (input) RT_THREAD_INIT :: u8 where "RT_THREAD_INIT \<equiv> 0"
abbreviation (input) RT_THREAD_READY :: u8 where "RT_THREAD_READY \<equiv> 1"
abbreviation (input) RT_THREAD_SUSPEND :: u8 where "RT_THREAD_SUSPEND \<equiv> 2"
abbreviation (input) RT_THREAD_RUNNING :: u8 where "RT_THREAD_RUNNING \<equiv> 3"
abbreviation (input) RT_THREAD_CLOSE :: u8 where "RT_THREAD_CLOSE \<equiv> 4"
abbreviation (input) RT_THREAD_STAT_MASK :: u8 where "RT_THREAD_STAT_MASK \<equiv> 0x0F"

section \<open>Inter-thread communication objects and memory pools\<close>

abbreviation (input) RT_IPC_FLAG_FIFO :: u8 where "RT_IPC_FLAG_FIFO \<equiv> 0"
abbreviation (input) RT_IPC_FLAG_PRIO :: u8 where "RT_IPC_FLAG_PRIO \<equiv> 1"
abbreviation (input) RT_IPC_CMD_RESET :: int where "RT_IPC_CMD_RESET \<equiv> 1"
abbreviation (input) RT_WAITING_FOREVER :: int where "RT_WAITING_FOREVER \<equiv> - 1"
abbreviation (input) RT_EVENT_FLAG_AND :: u8 where "RT_EVENT_FLAG_AND \<equiv> 1"
abbreviation (input) RT_EVENT_FLAG_OR :: u8 where "RT_EVENT_FLAG_OR \<equiv> 2"
abbreviation (input) RT_EVENT_FLAG_CLEAR :: u8 where "RT_EVENT_FLAG_CLEAR \<equiv> 4"

record rt_semaphore =
  sem_value :: u16

record rt_mutex =
  mtx_value :: u16
  mtx_original_priority :: u8
  mtx_hold :: u8
  mtx_owner :: ptr

record rt_event =
  ev_set :: u32

text \<open>The mails of a mailbox are the cells of its message pool, indexed from \<^verbatim>\<open>msg_pool\<close>.\<close>

record rt_mailbox =
  mb_msg_pool :: ptr
  mb_cells :: "nat \<Rightarrow> u32"
  mb_size :: u16
  mb_entry :: u16
  mb_in_offset :: u16
  mb_out_offset :: u16

text \<open>
  A message queue keeps its messages in nodes of its pool: \<open>mq_next\<close> is the \<^verbatim>\<open>next\<close> field of the node at an
  address, \<open>mq_data\<close> the bytes that follow it.
\<close>

record rt_messagequeue =
  mq_msg_pool :: ptr
  mq_msg_size :: u16
  mq_max_msgs :: u16
  mq_entry :: u16
  mq_head :: ptr
  mq_tail :: ptr
  mq_free :: ptr
  mq_next :: "ptr \<Rightarrow> ptr"
  mq_data :: "ptr \<Rightarrow> nat \<Rightarrow> u8"

record rt_mempool =
  mp_start_address :: ptr
  mp_size :: u32
  mp_block_size :: u32
  mp_block_list :: ptr
  mp_block_total_count :: u32
  mp_block_free_count :: u32
  mp_suspend_thread_count :: u32

section \<open>The kernel state\<close>

text \<open>
  The heads of the lists threads are linked into through \<^verbatim>\<open>tlist\<close>: the ready queue of a priority, the defunct
  list, the wait list of an IPC object or memory pool, the sender wait list of a mailbox.
\<close>

datatype qhead = ReadyQ nat | DefunctQ | WaitQ ptr | SenderQ ptr

record 'h kernel =
  objs :: "objref \<Rightarrow> rt_object"
  container :: "rt_object_information list"
  threads :: "ptr \<Rightarrow> rt_thread"
  timers :: "objref \<Rightarrow> rt_timer"
  tlists :: "(qhead, ptr) lists"
  timer_list :: "objref list"
  random_nr :: u32
  ready_group :: u32
  lock_nest :: "16 word"
  cur :: ptr
  cur_prio :: u8
  intr_nest :: u8
  ticks :: u32
  errno_var :: rt_err_t
  start_flg :: u8
  idle_hook_list :: "nat list"
  sems :: "ptr \<Rightarrow> rt_semaphore"
  mutexes :: "ptr \<Rightarrow> rt_mutex"
  events :: "ptr \<Rightarrow> rt_event"
  mailboxes :: "ptr \<Rightarrow> rt_mailbox"
  mqs :: "ptr \<Rightarrow> rt_messagequeue"
  mempools :: "ptr \<Rightarrow> rt_mempool"
  pool_mem :: "ptr \<Rightarrow> ptr"
  heap :: 'h

text \<open>
  The system heap behind \<^verbatim>\<open>RT_KERNEL_MALLOC\<close> and \<^verbatim>\<open>RT_KERNEL_FREE\<close> depends on the configuration
  (\<^verbatim>\<open>mem.c\<close>, \<^verbatim>\<open>memheap.c\<close> or \<^verbatim>\<open>slab.c\<close>); operations that allocate take it as an argument.
\<close>

record 'h heap_ops =
  kmalloc :: "'h \<Rightarrow> nat \<Rightarrow> (ptr \<times> 'h) option"
  kfree :: "'h \<Rightarrow> ptr \<Rightarrow> 'h option"

section \<open>Zeroed memory\<close>

text \<open>The contents of zero-initialised (\<^verbatim>\<open>.bss\<close>) kernel memory, before any initialisation function has run.\<close>

definition zero_object :: rt_object where
  "zero_object = \<lparr>o_name = [], o_type = 0, o_flag = 0\<rparr>"

definition zero_timer :: rt_timer where
  "zero_timer = \<lparr>tm_func = User_Timeout 0 0, tm_init = 0, tm_timeout = 0\<rparr>"

definition zero_thread :: rt_thread where
  "zero_thread = \<lparr>th_entry = 0, th_parameter = 0, th_stack_addr = 0, th_stack_size = 0, th_error = 0, th_stat = 0,
     th_current_priority = 0, th_init_priority = 0, th_number_mask = 0, th_event_set = 0, th_event_info = 0,
     th_init_tick = 0, th_remaining_tick = 0, th_cleanup = 0, th_user_data = 0\<rparr>"

definition zero_mailbox :: rt_mailbox where
  "zero_mailbox = \<lparr>mb_msg_pool = 0, mb_cells = (\<lambda>_. 0), mb_size = 0, mb_entry = 0, mb_in_offset = 0, mb_out_offset = 0\<rparr>"

definition zero_mq :: rt_messagequeue where
  "zero_mq = \<lparr>mq_msg_pool = 0, mq_msg_size = 0, mq_max_msgs = 0, mq_entry = 0, mq_head = 0, mq_tail = 0, mq_free = 0,
     mq_next = (\<lambda>_. 0), mq_data = (\<lambda>_ _. 0)\<rparr>"

definition zero_mempool :: rt_mempool where
  "zero_mempool = \<lparr>mp_start_address = 0, mp_size = 0, mp_block_size = 0, mp_block_list = 0, mp_block_total_count = 0,
     mp_block_free_count = 0, mp_suspend_thread_count = 0\<rparr>"

definition zero_kernel :: "'h \<Rightarrow> 'h kernel" where
  "zero_kernel h = \<lparr>objs = (\<lambda>_. zero_object), container = [], threads = (\<lambda>_. zero_thread), timers = (\<lambda>_. zero_timer),
     tlists = (\<lambda>_. []), timer_list = [], random_nr = 0, ready_group = 0, lock_nest = 0, cur = 0, cur_prio = 0,
     intr_nest = 0, ticks = 0, errno_var = 0, start_flg = 0, idle_hook_list = [0, 0, 0, 0],
     sems = (\<lambda>_. \<lparr>sem_value = 0\<rparr>),
     mutexes = (\<lambda>_. \<lparr>mtx_value = 0, mtx_original_priority = 0, mtx_hold = 0, mtx_owner = 0\<rparr>),
     events = (\<lambda>_. \<lparr>ev_set = 0\<rparr>), mailboxes = (\<lambda>_. zero_mailbox), mqs = (\<lambda>_. zero_mq),
     mempools = (\<lambda>_. zero_mempool), pool_mem = (\<lambda>_. 0), heap = h\<rparr>"

lemmas zero_defs = zero_kernel_def zero_object_def zero_timer_def zero_thread_def zero_mailbox_def zero_mq_def zero_mempool_def

section \<open>Field access\<close>

definition upd_thread :: "ptr \<Rightarrow> (rt_thread \<Rightarrow> rt_thread) \<Rightarrow> 'h kernel \<Rightarrow> 'h kernel" where
  "upd_thread t f s = s\<lparr>threads := (threads s)(t := f (threads s t))\<rparr>"

definition upd_obj :: "objref \<Rightarrow> (rt_object \<Rightarrow> rt_object) \<Rightarrow> 'h kernel \<Rightarrow> 'h kernel" where
  "upd_obj r f s = s\<lparr>objs := (objs s)(r := f (objs s r))\<rparr>"

definition upd_timer :: "objref \<Rightarrow> (rt_timer \<Rightarrow> rt_timer) \<Rightarrow> 'h kernel \<Rightarrow> 'h kernel" where
  "upd_timer r f s = s\<lparr>timers := (timers s)(r := f (timers s r))\<rparr>"

text \<open>\<^verbatim>\<open>thread->stat & RT_THREAD_STAT_MASK\<close> and the assignment that keeps the other bits.\<close>

definition tstat :: "'h kernel \<Rightarrow> ptr \<Rightarrow> u8" where
  "tstat s t = th_stat (threads s t) AND RT_THREAD_STAT_MASK"

definition set_stat :: "ptr \<Rightarrow> u8 \<Rightarrow> 'h kernel \<Rightarrow> 'h kernel" where
  "set_stat t v = upd_thread t (\<lambda>r. r\<lparr>th_stat := v OR (th_stat r AND NOT RT_THREAD_STAT_MASK)\<rparr>)"

definition tprio :: "'h kernel \<Rightarrow> ptr \<Rightarrow> nat" where
  "tprio s t = unat (th_current_priority (threads s t))"

definition set_error :: "ptr \<Rightarrow> rt_err_t \<Rightarrow> 'h kernel \<Rightarrow> 'h kernel" where
  "set_error t e = upd_thread t (\<lambda>r. r\<lparr>th_error := e\<rparr>)"

definition terror :: "'h kernel \<Rightarrow> ptr \<Rightarrow> rt_err_t" where
  "terror s t = th_error (threads s t)"

text \<open>An access the model can follow: an index in range, a pointer to an object, a list node that is free.\<close>

abbreviation (input) mem_ok :: "bool \<Rightarrow> unit option" where
  "mem_ok c \<equiv> RT_ASSERT c"

text \<open>Context checks of \<^verbatim>\<open>rtdebug.h\<close>.\<close>

definition not_in_interrupt :: "'h kernel \<Rightarrow> bool" where
  "not_in_interrupt s \<longleftrightarrow> intr_nest s = 0"

definition in_thread_context :: "'h kernel \<Rightarrow> bool" where
  "in_thread_context s \<longleftrightarrow> cur s \<noteq> RT_NULL \<and> not_in_interrupt s"

section \<open>Interrupt nesting (\<^verbatim>\<open>src/irq.c\<close>)\<close>

definition rt_interrupt_enter :: "'h kernel \<Rightarrow> 'h kernel" where
  "rt_interrupt_enter s = s\<lparr>intr_nest := intr_nest s + 1\<rparr>"

definition rt_interrupt_leave :: "'h kernel \<Rightarrow> 'h kernel" where
  "rt_interrupt_leave s = s\<lparr>intr_nest := intr_nest s - 1\<rparr>"

definition rt_interrupt_get_nest :: "'h kernel \<Rightarrow> u8" where
  "rt_interrupt_get_nest s = intr_nest s"

section \<open>Tick counter (\<^verbatim>\<open>src/clock.c\<close>)\<close>

definition rt_tick_get :: "'h kernel \<Rightarrow> u32" where
  "rt_tick_get s = ticks s"

definition rt_tick_set :: "u32 \<Rightarrow> 'h kernel \<Rightarrow> 'h kernel" where
  "rt_tick_set tick s = s\<lparr>ticks := tick\<rparr>"

text \<open>
  \<^verbatim>\<open>RT_TICK_PER_SECOND\<close> is 1000 on this board. The products are computed in \<^verbatim>\<open>int\<close> and stored in an
  unsigned 32-bit tick; \<^verbatim>\<open>ms / 1000\<close> and \<^verbatim>\<open>ms % 1000\<close> are on a non-negative \<^verbatim>\<open>ms\<close>.
\<close>

definition rt_tick_from_millisecond :: "int \<Rightarrow> u32" where
  "rt_tick_from_millisecond ms =
    (if ms < 0 then word_of_int RT_WAITING_FOREVER
     else word_of_int (1000 * (ms div 1000)) + word_of_int ((1000 * (ms mod 1000) + 999) div 1000))"

section \<open>Current thread and errno (\<^verbatim>\<open>src/thread.c\<close>, \<^verbatim>\<open>src/kservice.c\<close>)\<close>

definition rt_thread_self :: "'h kernel \<Rightarrow> ptr" where
  "rt_thread_self s = cur s"

definition rt_get_errno :: "'h kernel \<Rightarrow> rt_err_t" where
  "rt_get_errno s =
    (if rt_interrupt_get_nest s \<noteq> 0 then errno_var s
     else if rt_thread_self s = RT_NULL then errno_var s
     else terror s (rt_thread_self s))"

definition rt_set_errno :: "rt_err_t \<Rightarrow> 'h kernel \<Rightarrow> 'h kernel" where
  "rt_set_errno e s =
    (if rt_interrupt_get_nest s \<noteq> 0 then s\<lparr>errno_var := e\<rparr>
     else if rt_thread_self s = RT_NULL then s\<lparr>errno_var := e\<rparr>
     else set_error (rt_thread_self s) e s)"

section \<open>Facts about the accessors\<close>

lemma stat_bits:
  "(v OR (x AND NOT 0x0F)) AND 0x0F = v AND 0x0F" for v x :: u8
  by (rule bit_word_eqI) (auto simp: bit_simps)

lemma threads_upd_thread [simp]: "threads (upd_thread t f s) = (threads s)(t := f (threads s t))"
  by (simp add: upd_thread_def)

lemma upd_thread_frame [simp]:
  "objs (upd_thread t f s) = objs s" "container (upd_thread t f s) = container s"
  "timers (upd_thread t f s) = timers s" "tlists (upd_thread t f s) = tlists s"
  "timer_list (upd_thread t f s) = timer_list s" "random_nr (upd_thread t f s) = random_nr s"
  "ready_group (upd_thread t f s) = ready_group s" "lock_nest (upd_thread t f s) = lock_nest s"
  "cur (upd_thread t f s) = cur s" "cur_prio (upd_thread t f s) = cur_prio s"
  "intr_nest (upd_thread t f s) = intr_nest s" "ticks (upd_thread t f s) = ticks s"
  "start_flg (upd_thread t f s) = start_flg s" "idle_hook_list (upd_thread t f s) = idle_hook_list s"
  "errno_var (upd_thread t f s) = errno_var s" "sems (upd_thread t f s) = sems s"
  "mutexes (upd_thread t f s) = mutexes s" "events (upd_thread t f s) = events s"
  "mailboxes (upd_thread t f s) = mailboxes s" "mqs (upd_thread t f s) = mqs s"
  "mempools (upd_thread t f s) = mempools s" "pool_mem (upd_thread t f s) = pool_mem s"
  "heap (upd_thread t f s) = heap s"
  by (simp_all add: upd_thread_def)

lemma upd_obj_frame [simp]:
  "objs (upd_obj r g s) = (objs s)(r := g (objs s r))" "container (upd_obj r g s) = container s"
  "threads (upd_obj r g s) = threads s" "timers (upd_obj r g s) = timers s" "tlists (upd_obj r g s) = tlists s"
  "timer_list (upd_obj r g s) = timer_list s" "random_nr (upd_obj r g s) = random_nr s"
  "ready_group (upd_obj r g s) = ready_group s" "lock_nest (upd_obj r g s) = lock_nest s"
  "cur (upd_obj r g s) = cur s" "cur_prio (upd_obj r g s) = cur_prio s"
  "intr_nest (upd_obj r g s) = intr_nest s" "ticks (upd_obj r g s) = ticks s"
  "start_flg (upd_obj r g s) = start_flg s" "idle_hook_list (upd_obj r g s) = idle_hook_list s"
  "errno_var (upd_obj r g s) = errno_var s" "sems (upd_obj r g s) = sems s"
  "mutexes (upd_obj r g s) = mutexes s" "events (upd_obj r g s) = events s"
  "mailboxes (upd_obj r g s) = mailboxes s" "mqs (upd_obj r g s) = mqs s"
  "mempools (upd_obj r g s) = mempools s" "pool_mem (upd_obj r g s) = pool_mem s" "heap (upd_obj r g s) = heap s"
  by (simp_all add: upd_obj_def)

lemma upd_timer_frame [simp]:
  "timers (upd_timer r g s) = (timers s)(r := g (timers s r))" "container (upd_timer r g s) = container s"
  "threads (upd_timer r g s) = threads s" "objs (upd_timer r g s) = objs s" "tlists (upd_timer r g s) = tlists s"
  "timer_list (upd_timer r g s) = timer_list s" "random_nr (upd_timer r g s) = random_nr s"
  "ready_group (upd_timer r g s) = ready_group s" "lock_nest (upd_timer r g s) = lock_nest s"
  "cur (upd_timer r g s) = cur s" "cur_prio (upd_timer r g s) = cur_prio s"
  "intr_nest (upd_timer r g s) = intr_nest s" "ticks (upd_timer r g s) = ticks s"
  "start_flg (upd_timer r g s) = start_flg s" "idle_hook_list (upd_timer r g s) = idle_hook_list s"
  "errno_var (upd_timer r g s) = errno_var s" "sems (upd_timer r g s) = sems s"
  "mutexes (upd_timer r g s) = mutexes s" "events (upd_timer r g s) = events s"
  "mailboxes (upd_timer r g s) = mailboxes s" "mqs (upd_timer r g s) = mqs s"
  "mempools (upd_timer r g s) = mempools s" "pool_mem (upd_timer r g s) = pool_mem s" "heap (upd_timer r g s) = heap s"
  by (simp_all add: upd_timer_def)

lemma tstat_set_stat: "tstat (set_stat t v s) t' = (if t' = t then v AND 0x0F else tstat s t')"
  using stat_bits [of v "th_stat (threads s t)"] by (simp add: tstat_def set_stat_def)

lemma tprio_set_stat [simp]: "tprio (set_stat t v s) t' = tprio s t'"
  by (simp add: tprio_def set_stat_def)

lemma mask_set_stat [simp]:
  "th_number_mask (threads (set_stat t v s) t') = th_number_mask (threads s t')"
  "th_init_priority (threads (set_stat t v s) t') = th_init_priority (threads s t')"
  by (simp_all add: set_stat_def)

lemma set_error_view [simp]:
  "tstat (set_error t e s) t' = tstat s t'" "tprio (set_error t e s) t' = tprio s t'"
  "th_number_mask (threads (set_error t e s) t') = th_number_mask (threads s t')"
  "th_init_priority (threads (set_error t e s) t') = th_init_priority (threads s t')"
  "terror (set_error t e s) t' = (if t' = t then e else terror s t')"
  by (simp_all add: set_error_def tstat_def tprio_def terror_def)

lemma terror_set_stat [simp]: "terror (set_stat t v s) t' = terror s t'"
  by (simp add: set_stat_def terror_def)

lemmas set_frame [simp] =
  upd_thread_frame [of t "\<lambda>r. r\<lparr>th_stat := v OR (th_stat r AND NOT RT_THREAD_STAT_MASK)\<rparr>" for t v, folded set_stat_def]
  upd_thread_frame [of t "\<lambda>r. r\<lparr>th_error := e\<rparr>" for t e, folded set_error_def]

section \<open>Properties\<close>

text \<open>
  \<^verbatim>\<open>rt_tick_from_millisecond\<close> with \<^verbatim>\<open>RT_TICK_PER_SECOND\<close> of 1000 converts every non-negative 32-bit
  millisecond count to exactly that many ticks, with no overflow, and every negative count to the
  all-ones tick value of \<^verbatim>\<open>RT_WAITING_FOREVER\<close>.
\<close>

theorem rt_tick_from_millisecond_exact:
  assumes "ms < 2 ^ 31"
  shows "uint (rt_tick_from_millisecond ms) = (if ms < 0 then 2 ^ 32 - 1 else ms)"
proof (cases "ms < 0")
  case True
  then show ?thesis
    by (simp add: rt_tick_from_millisecond_def unsigned_minus_1_eq_mask mask_eq_exp_minus_1)
next
  case False
  have "(1000 * (ms mod 1000) + 999) div 1000 = ms mod 1000"
    by simp
  then have "rt_tick_from_millisecond ms = word_of_int (1000 * (ms div 1000)) + word_of_int (ms mod 1000)"
    using False by (simp only: rt_tick_from_millisecond_def if_False)
  also have "\<dots> = word_of_int (1000 * (ms div 1000) + ms mod 1000)"
    by (rule of_int_add [symmetric])
  also have "1000 * (ms div 1000) + ms mod 1000 = ms"
    by simp
  finally show ?thesis
    using False assms by (simp add: uint_word_of_int take_bit_int_eq_self)
qed

theorem rt_tick_from_millisecond_exact_witness:
  "uint (rt_tick_from_millisecond 1500) = 1500 \<and> uint (rt_tick_from_millisecond (- 1)) = 2 ^ 32 - 1"
  using rt_tick_from_millisecond_exact [of 1500] rt_tick_from_millisecond_exact [of "- 1"] by simp

section \<open>Memory blocks linked through their first word\<close>

text \<open>\<^verbatim>\<open>RT_ALIGN(n, 4)\<close> and \<^verbatim>\<open>RT_ALIGN_DOWN(n, 4)\<close>.\<close>

definition rt_align4 :: "u32 \<Rightarrow> u32" where
  "rt_align4 n = (n + 3) AND NOT 3"

definition rt_align_down4 :: "u32 \<Rightarrow> u32" where
  "rt_align_down4 n = n AND NOT 3"

text \<open>The nodes from \<open>p\<close> along \<open>nx\<close> are those of the list, up to a null pointer.\<close>

primrec chain :: "(ptr \<Rightarrow> ptr) \<Rightarrow> ptr \<Rightarrow> ptr list \<Rightarrow> bool" where
  "chain nx p [] \<longleftrightarrow> p = RT_NULL"
| "chain nx p (x # xs) \<longleftrightarrow> p = x \<and> x \<noteq> RT_NULL \<and> chain nx (nx x) xs"

lemma chain_upd [simp]: "x \<notin> set xs \<Longrightarrow> chain (nx(x := y)) p xs = chain nx p xs"
  by (induction xs arbitrary: p) auto

lemma chain_null: "chain nx 0 xs \<longleftrightarrow> xs = []"
  by (cases xs) auto

lemma chain_not_null: "p \<noteq> 0 \<Longrightarrow> chain nx p xs \<Longrightarrow> \<exists>ys. xs = p # ys \<and> chain nx (nx p) ys"
  by (cases xs) auto

lemma chain_snoc:
  "chain nx p (xs @ [z]) \<Longrightarrow> distinct (xs @ [z]) \<Longrightarrow> y \<notin> set (xs @ [z]) \<Longrightarrow> y \<noteq> 0 \<Longrightarrow> nx y = 0 \<Longrightarrow>
   chain (nx(z := y)) p (xs @ [z, y])"
  by (induction xs arbitrary: p) auto

lemma chain_unique: "chain nx p xs \<Longrightarrow> chain nx p ys \<Longrightarrow> xs = ys"
proof (induction xs arbitrary: p ys)
  case (Cons x xs)
  then show ?case by (cases ys) auto
qed (auto simp: chain_null)

end
