(* ===== verification/RT_Scheduler.thy ===== *)
theory RT_Scheduler
  imports RT_State
begin

text \<open>
  The scheduler of \<^verbatim>\<open>src/scheduler.c\<close> (the single-CPU branch): 32 ready queues, the bitmap of non-empty
  queues, the choice of the next thread and the scheduler lock. The predicate \<open>swf\<close> is the invariant
  every kernel operation keeps; the rules collected in \<open>kinv\<close> say so for the primitives.
\<close>

section \<open>Thread list nodes\<close>

text \<open>
  \<^verbatim>\<open>rt_list_insert_before\<close>, \<^verbatim>\<open>rt_list_insert_after\<close> and \<^verbatim>\<open>rt_list_remove\<close> on \<^verbatim>\<open>thread->tlist\<close>, at the level
  of list families (theory \<open>RT_List\<close> shows that the pointer code acts this way). Inserting a node that is
  already linked destroys the list it is in; the model stops there.
\<close>

definition link_back :: "qhead \<Rightarrow> ptr \<Rightarrow> 'h kernel \<Rightarrow> 'h kernel option" where
  "link_back h t s = do {
     mem_ok (\<not> in_some_list t (tlists s));
     Some (s\<lparr>tlists := lists_push_back h t (tlists s)\<rparr>) }"

definition link_front :: "qhead \<Rightarrow> ptr \<Rightarrow> 'h kernel \<Rightarrow> 'h kernel option" where
  "link_front h t s = do {
     mem_ok (\<not> in_some_list t (tlists s));
     Some (s\<lparr>tlists := lists_push_front h t (tlists s)\<rparr>) }"

definition unlink_thread :: "ptr \<Rightarrow> 'h kernel \<Rightarrow> 'h kernel" where
  "unlink_thread t s = s\<lparr>tlists := lists_remove t (tlists s)\<rparr>"

text \<open>\<^verbatim>\<open>rt_list_init\<close> of a list head.\<close>

definition init_queue :: "qhead \<Rightarrow> 'h kernel \<Rightarrow> 'h kernel" where
  "init_queue h s = s\<lparr>tlists := (tlists s)(h := [])\<rparr>"

section \<open>Operations\<close>

text \<open>\<^verbatim>\<open>rt_system_scheduler_init\<close>.\<close>

definition rt_system_scheduler_init :: "'h kernel \<Rightarrow> 'h kernel" where
  "rt_system_scheduler_init s =
    (let s = s\<lparr>lock_nest := 0\<rparr>;
         s = fold (\<lambda>offset. init_queue (ReadyQ offset)) [0..<RT_THREAD_PRIORITY_MAX] s;
         s = s\<lparr>ready_group := 0\<rparr>
     in init_queue DefunctQ s)"

text \<open>The head of the ready queue of the lowest set bit; with no bit set the index is out of range.\<close>

definition get_highest_priority_thread :: "'h kernel \<Rightarrow> (ptr \<times> nat) option" where
  "get_highest_priority_thread s = do {
     mem_ok (ready_group s \<noteq> 0);
     let highest_ready_priority = rt_ffs (ready_group s) - 1;
     mem_ok (tlists s (ReadyQ highest_ready_priority) \<noteq> []);
     Some (hd (tlists s (ReadyQ highest_ready_priority)), highest_ready_priority) }"

definition rt_schedule_insert_thread :: "ptr \<Rightarrow> 'h kernel \<Rightarrow> 'h kernel option" where
  "rt_schedule_insert_thread thread s = do {
     RT_ASSERT (thread \<noteq> RT_NULL);
     if thread = cur s then Some (set_stat thread RT_THREAD_RUNNING s)
     else do {
       let s = set_stat thread RT_THREAD_READY s;
       mem_ok (tprio s thread < RT_THREAD_PRIORITY_MAX);
       s \<leftarrow> link_back (ReadyQ (tprio s thread)) thread s;
       Some (s\<lparr>ready_group := ready_group s OR th_number_mask (threads s thread)\<rparr>) } }"

definition rt_schedule_remove_thread :: "ptr \<Rightarrow> 'h kernel \<Rightarrow> 'h kernel option" where
  "rt_schedule_remove_thread thread s = do {
     RT_ASSERT (thread \<noteq> RT_NULL);
     let s = unlink_thread thread s;
     mem_ok (tprio s thread < RT_THREAD_PRIORITY_MAX);
     Some (if tlists s (ReadyQ (tprio s thread)) = []
           then s\<lparr>ready_group := ready_group s AND NOT (th_number_mask (threads s thread))\<rparr> else s) }"

text \<open>
  \<^verbatim>\<open>rt_system_scheduler_start\<close>, up to the context switch to the first thread. The assignment to \<^verbatim>\<open>stat\<close>
  drops the bits outside the mask.
\<close>

definition rt_system_scheduler_start :: "'h kernel \<Rightarrow> 'h kernel option" where
  "rt_system_scheduler_start s = do {
     (to_thread, _) \<leftarrow> get_highest_priority_thread s;
     let s = s\<lparr>cur := to_thread\<rparr>;
     s \<leftarrow> rt_schedule_remove_thread to_thread s;
     let s = upd_thread to_thread (\<lambda>r. r\<lparr>th_stat := RT_THREAD_RUNNING\<rparr>) s;
     Some (s\<lparr>start_flg := 1\<rparr>) }"

text \<open>
  \<^verbatim>\<open>rt_schedule\<close>. The result state is the one at the context switch: the field \<open>cur\<close> names the thread that
  runs next, and what the calling thread does afterwards happens when it is chosen again. The stack
  check of \<^verbatim>\<open>RT_USING_OVERFLOW_CHECK\<close> reads stack memory, which is not part of the model.
\<close>

definition rt_schedule :: "'h kernel \<Rightarrow> 'h kernel option" where
  "rt_schedule s =
    (if lock_nest s = 0 then
       (if ready_group s \<noteq> 0 then do {
          (to_thread, highest_ready_priority) \<leftarrow> get_highest_priority_thread s;
          mem_ok (cur s \<noteq> RT_NULL);
          let running = (tstat s (cur s) = RT_THREAD_RUNNING);
          let keep = (running \<and> tprio s (cur s) < highest_ready_priority);
          let to_thread = (if keep then cur s else to_thread);
          let need_insert_from_thread = (running \<and> \<not> keep);
          if to_thread \<noteq> cur s then do {
            let from_thread = cur s;
            let s = s\<lparr>cur_prio := of_nat highest_ready_priority, cur := to_thread\<rparr>;
            s \<leftarrow> (if need_insert_from_thread then rt_schedule_insert_thread from_thread s else Some s);
            s \<leftarrow> rt_schedule_remove_thread to_thread s;
            Some (set_stat to_thread RT_THREAD_RUNNING s) }
          else do {
            s \<leftarrow> rt_schedule_remove_thread (cur s) s;
            Some (set_stat (cur s) RT_THREAD_RUNNING s) } }
        else Some s)
     else Some s)"

definition rt_enter_critical :: "'h kernel \<Rightarrow> 'h kernel" where
  "rt_enter_critical s = s\<lparr>lock_nest := lock_nest s + 1\<rparr>"

text \<open>The lock count is \<^verbatim>\<open>rt_int16_t\<close>; the comparison with 0 is signed.\<close>

definition rt_exit_critical :: "'h kernel \<Rightarrow> 'h kernel option" where
  "rt_exit_critical s =
    (let s = s\<lparr>lock_nest := lock_nest s - 1\<rparr>
     in if sint (lock_nest s) \<le> 0 then
          (let s = s\<lparr>lock_nest := 0\<rparr>
           in if cur s \<noteq> RT_NULL then rt_schedule s else Some s)
        else Some s)"

definition rt_critical_level :: "'h kernel \<Rightarrow> u16" where
  "rt_critical_level s = lock_nest s"

section \<open>The scheduler invariant\<close>

text \<open>What membership in a queue says about a thread; \<open>c\<close> is the current thread.\<close>

fun queue_state :: "qhead \<Rightarrow> u8 \<Rightarrow> nat \<Rightarrow> bool" where
  "queue_state (ReadyQ p) st pr \<longleftrightarrow> st = RT_THREAD_READY \<and> pr = p"
| "queue_state DefunctQ st pr \<longleftrightarrow> st = RT_THREAD_CLOSE"
| "queue_state (WaitQ _) st pr \<longleftrightarrow> st = RT_THREAD_SUSPEND"
| "queue_state (SenderQ _) st pr \<longleftrightarrow> st = RT_THREAD_SUSPEND"

definition queues_ok :: "'h kernel \<Rightarrow> bool" where
  "queues_ok s \<longleftrightarrow> lists_disjoint (tlists s) \<and>
     (\<forall>h t. t \<in> set (tlists s h) \<longrightarrow> t \<noteq> RT_NULL \<and> queue_state h (tstat s t) (tprio s t))"

definition bitmap_ok :: "'h kernel \<Rightarrow> bool" where
  "bitmap_ok s \<longleftrightarrow> (\<forall>p < 32. bit (ready_group s) p \<longleftrightarrow> tlists s (ReadyQ p) \<noteq> [])"

text \<open>
  Priorities are in range, and the mask belongs to the priority; a thread that was never started may still
  have the zero mask.
\<close>

definition prio_ok :: "'h kernel \<Rightarrow> ptr \<Rightarrow> bool" where
  "prio_ok s t \<longleftrightarrow> tprio s t < 32 \<and> th_number_mask (threads s t) = bitmask (tprio s t)"

definition masks_ok :: "'h kernel \<Rightarrow> bool" where
  "masks_ok s \<longleftrightarrow> (\<forall>t. tprio s t < 32 \<and> unat (th_init_priority (threads s t)) < 32 \<and>
     (prio_ok s t \<or> th_number_mask (threads s t) = 0 \<and> (tstat s t = RT_THREAD_INIT \<or> tstat s t = RT_THREAD_CLOSE)))"

definition stats_ok :: "ptr set \<Rightarrow> 'h kernel \<Rightarrow> bool" where
  "stats_ok X s \<longleftrightarrow> (\<forall>t. t \<notin> X \<longrightarrow>
     (tstat s t = RT_THREAD_READY \<longrightarrow> t \<in> set (tlists s (ReadyQ (tprio s t))) \<and> t \<noteq> cur s) \<and>
     (tstat s t = RT_THREAD_RUNNING \<longrightarrow> t = cur s))"

text \<open>
  The invariant; \<open>X\<close> are the threads whose state an operation is in the middle of changing, and \<open>swf {}\<close> holds
  between operations.
\<close>

definition swf :: "ptr set \<Rightarrow> 'h kernel \<Rightarrow> bool" where
  "swf X s \<longleftrightarrow> queues_ok s \<and> bitmap_ok s \<and> masks_ok s \<and> stats_ok X s"

section \<open>Evaluation of the primitives\<close>

text \<open>The effect of the two queue operations where they return, as state functions.\<close>

definition dequeued :: "ptr \<Rightarrow> 'h kernel \<Rightarrow> 'h kernel" where
  "dequeued t s = s\<lparr>tlists := lists_remove t (tlists s),
     ready_group := (if lists_remove t (tlists s) (ReadyQ (tprio s t)) = []
       then ready_group s AND NOT (th_number_mask (threads s t)) else ready_group s)\<rparr>"

definition enqueued :: "ptr \<Rightarrow> 'h kernel \<Rightarrow> 'h kernel" where
  "enqueued t s = (if t = cur s then set_stat t RT_THREAD_RUNNING s
     else (set_stat t RT_THREAD_READY s)\<lparr>tlists := lists_push_back (ReadyQ (tprio s t)) t (tlists s),
       ready_group := ready_group s OR th_number_mask (threads s t)\<rparr>)"

lemma dequeued_frame [simp]:
  "tlists (dequeued t s) = lists_remove t (tlists s)" "threads (dequeued t s) = threads s"
  "objs (dequeued t s) = objs s" "container (dequeued t s) = container s" "timers (dequeued t s) = timers s"
  "timer_list (dequeued t s) = timer_list s" "random_nr (dequeued t s) = random_nr s"
  "lock_nest (dequeued t s) = lock_nest s" "cur (dequeued t s) = cur s" "cur_prio (dequeued t s) = cur_prio s"
  "intr_nest (dequeued t s) = intr_nest s" "ticks (dequeued t s) = ticks s" "errno_var (dequeued t s) = errno_var s"
  "start_flg (dequeued t s) = start_flg s" "idle_hook_list (dequeued t s) = idle_hook_list s"
  "sems (dequeued t s) = sems s" "mutexes (dequeued t s) = mutexes s" "events (dequeued t s) = events s"
  "mailboxes (dequeued t s) = mailboxes s" "mqs (dequeued t s) = mqs s" "mempools (dequeued t s) = mempools s"
  "pool_mem (dequeued t s) = pool_mem s" "heap (dequeued t s) = heap s"
  "tstat (dequeued t s) u = tstat s u" "tprio (dequeued t s) u = tprio s u" "terror (dequeued t s) u = terror s u"
  by (simp_all add: dequeued_def tstat_def tprio_def terror_def)

lemma enqueued_frame [simp]:
  "objs (enqueued t s) = objs s" "container (enqueued t s) = container s" "timers (enqueued t s) = timers s"
  "timer_list (enqueued t s) = timer_list s" "random_nr (enqueued t s) = random_nr s"
  "lock_nest (enqueued t s) = lock_nest s" "cur (enqueued t s) = cur s" "cur_prio (enqueued t s) = cur_prio s"
  "intr_nest (enqueued t s) = intr_nest s" "ticks (enqueued t s) = ticks s" "errno_var (enqueued t s) = errno_var s"
  "start_flg (enqueued t s) = start_flg s" "idle_hook_list (enqueued t s) = idle_hook_list s"
  "sems (enqueued t s) = sems s" "mutexes (enqueued t s) = mutexes s" "events (enqueued t s) = events s"
  "mailboxes (enqueued t s) = mailboxes s" "mqs (enqueued t s) = mqs s" "mempools (enqueued t s) = mempools s"
  "pool_mem (enqueued t s) = pool_mem s" "heap (enqueued t s) = heap s"
  "tprio (enqueued t s) u = tprio s u" "terror (enqueued t s) u = terror s u"
  "th_number_mask (threads (enqueued t s) u) = th_number_mask (threads s u)"
  "th_init_priority (threads (enqueued t s) u) = th_init_priority (threads s u)"
  by (simp_all add: enqueued_def tprio_def terror_def set_stat_def)

lemma tstat_enqueued: "tstat (enqueued t s) u = (if u = t then if t = cur s then 3 else 1 else tstat s u)"
  using tstat_set_stat [of t 1 s u] tstat_set_stat [of t 3 s u] by (auto simp: enqueued_def tstat_def)

lemma tlists_enqueued:
  "tlists (enqueued t s) = (if t = cur s then tlists s else lists_push_back (ReadyQ (tprio s t)) t (tlists s))"
  by (simp add: enqueued_def)

lemma rt_schedule_insert_thread_eq:
  "t \<noteq> 0 \<Longrightarrow> (t \<noteq> cur s \<Longrightarrow> tprio s t < 32 \<and> \<not> in_some_list t (tlists s)) \<Longrightarrow>
   rt_schedule_insert_thread t s = Some (enqueued t s)"
  by (simp add: rt_schedule_insert_thread_def enqueued_def link_back_def Let_def)

lemma rt_schedule_insert_thread_Some:
  "rt_schedule_insert_thread t s = Some s' \<Longrightarrow>
   s' = enqueued t s \<and> t \<noteq> 0 \<and> (t \<noteq> cur s \<longrightarrow> tprio s t < 32 \<and> \<not> in_some_list t (tlists s))"
  by (auto simp: rt_schedule_insert_thread_def enqueued_def link_back_def Let_def bind_eq_Some_conv split: if_splits)

lemma rt_schedule_remove_thread_eq:
  "t \<noteq> 0 \<Longrightarrow> tprio s t < 32 \<Longrightarrow> rt_schedule_remove_thread t s = Some (dequeued t s)"
  by (simp add: rt_schedule_remove_thread_def dequeued_def unlink_thread_def Let_def tprio_def)

lemma rt_schedule_remove_thread_Some:
  "rt_schedule_remove_thread t s = Some s' \<Longrightarrow> s' = dequeued t s \<and> t \<noteq> 0 \<and> tprio s t < 32"
  by (auto simp: rt_schedule_remove_thread_def dequeued_def unlink_thread_def Let_def tprio_def bind_eq_Some_conv)

section \<open>The primitives keep the invariant\<close>

lemma view_simps [simp]:
  "tstat (s\<lparr>tlists := L\<rparr>) t = tstat s t" "tprio (s\<lparr>tlists := L\<rparr>) t = tprio s t"
  "tstat (s\<lparr>ready_group := g\<rparr>) t = tstat s t" "tprio (s\<lparr>ready_group := g\<rparr>) t = tprio s t"
  "tstat (s\<lparr>cur := c\<rparr>) t = tstat s t" "tprio (s\<lparr>cur := c\<rparr>) t = tprio s t"
  "tstat (s\<lparr>cur_prio := k\<rparr>) t = tstat s t" "tprio (s\<lparr>cur_prio := k\<rparr>) t = tprio s t"
  "tstat (s\<lparr>lock_nest := n\<rparr>) t = tstat s t" "tprio (s\<lparr>lock_nest := n\<rparr>) t = tprio s t"
  by (simp_all add: tstat_def tprio_def)

lemma swf_cong:
  "tlists s' = tlists s \<Longrightarrow> ready_group s' = ready_group s \<Longrightarrow> cur s' = cur s \<Longrightarrow>
   (\<And>t. tstat s' t = tstat s t \<and> tprio s' t = tprio s t \<and> th_number_mask (threads s' t) = th_number_mask (threads s t) \<and>
      th_init_priority (threads s' t) = th_init_priority (threads s t)) \<Longrightarrow>
   swf X s' \<longleftrightarrow> swf X s"
  by (simp add: swf_def queues_ok_def bitmap_ok_def masks_ok_def stats_ok_def prio_ok_def)

lemma swf_frame [simp]:
  "swf X (s\<lparr>objs := a1\<rparr>) = swf X s" "swf X (s\<lparr>container := a2\<rparr>) = swf X s" "swf X (s\<lparr>timers := a3\<rparr>) = swf X s"
  "swf X (s\<lparr>timer_list := a4\<rparr>) = swf X s" "swf X (s\<lparr>random_nr := a5\<rparr>) = swf X s" "swf X (s\<lparr>lock_nest := a6\<rparr>) = swf X s"
  "swf X (s\<lparr>cur_prio := a7\<rparr>) = swf X s" "swf X (s\<lparr>intr_nest := a8\<rparr>) = swf X s" "swf X (s\<lparr>ticks := a9\<rparr>) = swf X s"
  "swf X (s\<lparr>errno_var := b1\<rparr>) = swf X s" "swf X (s\<lparr>start_flg := b2\<rparr>) = swf X s"
  "swf X (s\<lparr>idle_hook_list := b3\<rparr>) = swf X s" "swf X (s\<lparr>sems := b4\<rparr>) = swf X s" "swf X (s\<lparr>mutexes := b5\<rparr>) = swf X s"
  "swf X (s\<lparr>events := b6\<rparr>) = swf X s" "swf X (s\<lparr>mailboxes := b7\<rparr>) = swf X s" "swf X (s\<lparr>mqs := b8\<rparr>) = swf X s"
  "swf X (s\<lparr>mempools := b9\<rparr>) = swf X s" "swf X (s\<lparr>pool_mem := c1\<rparr>) = swf X s" "swf X (s\<lparr>heap := c2\<rparr>) = swf X s"
  by (rule swf_cong; simp add: tstat_def tprio_def)+

lemma swf_upd_thread:
  "(\<And>r. th_stat (f r) = th_stat r \<and> th_current_priority (f r) = th_current_priority r \<and> th_number_mask (f r) = th_number_mask r \<and>
      th_init_priority (f r) = th_init_priority r) \<Longrightarrow>
   swf X (upd_thread t f s) = swf X s"
  by (rule swf_cong) (simp_all add: tstat_def tprio_def)

lemma swf_upd_obj [simp]: "swf X (upd_obj r f s) = swf X s" "swf X (upd_timer r' g s) = swf X s"
  by (rule swf_cong; simp add: tstat_def tprio_def)+

lemma swf_set_error [simp]: "swf X (set_error t e s) = swf X s"
  unfolding set_error_def by (rule swf_upd_thread) simp

lemma swf_mono: "swf X s \<Longrightarrow> X \<subseteq> Y \<Longrightarrow> swf Y s"
  by (auto simp: swf_def stats_ok_def)

lemma swf_disjoint: "swf X s \<Longrightarrow> lists_disjoint (tlists s)"
  by (simp add: swf_def queues_ok_def)

lemma swf_prio_ok: "swf X s \<Longrightarrow> tstat s t \<noteq> 0 \<Longrightarrow> tstat s t \<noteq> 4 \<Longrightarrow> prio_ok s t"
  by (auto simp: swf_def masks_ok_def)

lemma swf_prio_lt: "swf X s \<Longrightarrow> tprio s t < 32" "swf X s \<Longrightarrow> unat (th_init_priority (threads s t)) < 32"
  by (auto simp: swf_def masks_ok_def)

lemma swf_queue: "swf X s \<Longrightarrow> t \<in> set (tlists s h) \<Longrightarrow> t \<noteq> 0 \<and> queue_state h (tstat s t) (tprio s t)"
  by (simp add: swf_def queues_ok_def)

lemma swf_readyq: "swf X s \<Longrightarrow> u \<in> set (tlists s (ReadyQ p)) \<Longrightarrow> u \<noteq> 0 \<and> tstat s u = 1 \<and> tprio s u = p"
  using swf_queue [of X s u "ReadyQ p"] by simp

text \<open>A thread that is linked is not in state INIT.\<close>

lemma queue_state_not_init: "queue_state h st pr \<Longrightarrow> st \<noteq> 0"
  by (cases h) auto

lemma swf_linked:
  assumes "swf X s" and "in_some_list t (tlists s)"
  shows "t \<noteq> 0" "tstat s t \<noteq> 0" "tstat s t \<noteq> 3"
proof -
  obtain h where h: "t \<in> set (tlists s h)"
    using assms(2) by (auto simp: in_some_list_def)
  then show "t \<noteq> 0" and "tstat s t \<noteq> 0"
    using swf_queue [OF assms(1) h] queue_state_not_init by auto
  show "tstat s t \<noteq> 3"
    using swf_queue [OF assms(1) h] by (cases h) auto
qed

lemma not_in_dequeued: "\<not> in_some_list t (tlists (dequeued t s))"
  by simp

lemma bit_dequeued:
  assumes s: "swf X s" and p: "p < 32"
  shows "bit (ready_group (dequeued t s)) p \<longleftrightarrow> lists_remove t (tlists s) (ReadyQ p) \<noteq> []"
proof -
  have b: "bit (ready_group s) q \<longleftrightarrow> tlists s (ReadyQ q) \<noteq> []" if "q < 32" for q
    using s that by (simp add: swf_def bitmap_ok_def)
  have other: "lists_remove t (tlists s) (ReadyQ p) = tlists s (ReadyQ p)" if "t \<notin> set (tlists s (ReadyQ p))"
    using that by (simp add: lists_remove_def)
  consider "prio_ok s t" | "th_number_mask (threads s t) = 0" "tstat s t \<noteq> 1"
    using s by (fastforce simp: swf_def masks_ok_def)
  then show ?thesis
  proof cases
    case 1
    show ?thesis
    proof (cases "p = tprio s t")
      case True
      then show ?thesis
        using 1 b [OF p] p by (auto simp: dequeued_def bit_andnot_bitmask prio_ok_def lists_remove_def)
    next
      case False
      then have "t \<notin> set (tlists s (ReadyQ p))" using swf_readyq [OF s, of t p] by auto
      from other [OF this] False show ?thesis
        using 1 b [OF p] by (auto simp: dequeued_def bit_andnot_bitmask prio_ok_def)
    qed
  next
    case 2
    then have "t \<notin> set (tlists s (ReadyQ p))" using swf_readyq [OF s, of t p] by auto
    from other [OF this] 2 show ?thesis
      using b [OF p] by (auto simp: dequeued_def)
  qed
qed

lemma swf_dequeued:
  assumes s: "swf X s"
  shows "swf (insert t X) (dequeued t s)"
  unfolding swf_def
proof (intro conjI)
  show "queues_ok (dequeued t s)"
    using s by (auto simp: swf_def queues_ok_def disjoint_remove) (auto simp: lists_remove_def)
  show "bitmap_ok (dequeued t s)"
    using bit_dequeued [OF s] by (simp add: bitmap_ok_def)
  show "masks_ok (dequeued t s)"
    using s by (auto simp: swf_def masks_ok_def prio_ok_def)
  show "stats_ok (insert t X) (dequeued t s)"
    using s by (auto simp: swf_def stats_ok_def lists_remove_def)
qed

text \<open>A thread that is neither ready nor running is not exempted by its removal.\<close>

lemma swf_shrink: "swf (insert t X) s \<Longrightarrow> tstat s t \<noteq> 1 \<Longrightarrow> (tstat s t = 3 \<Longrightarrow> t = cur s) \<Longrightarrow> swf X s"
  unfolding swf_def stats_ok_def by (metis insert_iff)

lemma swf_enqueued:
  assumes s: "swf X s" and t: "t \<noteq> 0" "prio_ok s t" and free: "\<not> in_some_list t (tlists s)"
  shows "swf (X - {t}) (enqueued t s)"
  unfolding swf_def
proof (intro conjI)
  have not_in: "t \<notin> set (tlists s h)" for h
    using free by (simp add: in_some_list_def)
  show "queues_ok (enqueued t s)"
    using s t not_in disjoint_push_back [OF swf_disjoint [OF s] free]
    by (auto simp: swf_def queues_ok_def tlists_enqueued tstat_enqueued lists_push_back_def dest: swf_readyq [OF s] split: if_splits)
  show "bitmap_ok (enqueued t s)"
    using s t by (auto simp: swf_def bitmap_ok_def enqueued_def lists_push_back_def prio_ok_def bit_or_bitmask)
  show "masks_ok (enqueued t s)"
    using s t by (auto simp: swf_def masks_ok_def prio_ok_def tstat_enqueued)
  show "stats_ok (X - {t}) (enqueued t s)"
    using s not_in by (auto simp: swf_def stats_ok_def tstat_enqueued tlists_enqueued lists_push_back_def)
qed

text \<open>Setting the state of a thread that is in no list.\<close>

lemma swf_set_stat_free:
  assumes s: "swf X s" and v: "v = 2 \<and> prio_ok s t \<or> v = 4" and free: "\<not> in_some_list t (tlists s)"
  shows "swf (X - {t}) (set_stat t v s)"
proof -
  have "t \<notin> set (tlists s h)" for h
    using free by (simp add: in_some_list_def)
  moreover have "v AND 15 = v" "v \<noteq> 1" "v \<noteq> 3" using v by auto
  ultimately show ?thesis
    using s v by (auto simp: swf_def queues_ok_def bitmap_ok_def masks_ok_def stats_ok_def prio_ok_def tstat_set_stat)
qed

text \<open>Linking a thread into a list other than the ready queues.\<close>

definition not_ready_queue :: "qhead \<Rightarrow> bool" where
  "not_ready_queue h \<longleftrightarrow> (\<forall>p. h \<noteq> ReadyQ p)"

lemma not_ready_queue_simps [simp]:
  "not_ready_queue DefunctQ" "not_ready_queue (WaitQ o1)" "not_ready_queue (SenderQ o1)" "\<not> not_ready_queue (ReadyQ p)"
  by (simp_all add: not_ready_queue_def)

lemma swf_link:
  assumes s: "swf X s" and free: "\<not> in_some_list t (tlists s)" and "t \<noteq> 0" "not_ready_queue h" "queue_state h (tstat s t) (tprio s t)"
    and L: "set xs = insert t (set (tlists s h))" "distinct xs"
  shows "swf X (s\<lparr>tlists := (tlists s)(h := xs)\<rparr>)"
proof -
  have not_in: "t \<notin> set (tlists s k)" for k
    using free by (simp add: in_some_list_def)
  have "lists_disjoint ((tlists s)(h := xs))"
    using swf_disjoint [OF s] L not_in by (auto simp: lists_disjoint_def split: if_splits)
  then show ?thesis
    using s assms(3-5) L
    by (auto simp: swf_def queues_ok_def bitmap_ok_def masks_ok_def stats_ok_def prio_ok_def not_ready_queue_def)
qed

lemma swf_unlink_nonready:
  assumes s: "swf X s" and "tstat s t \<noteq> 1"
  shows "swf X (unlink_thread t s)"
proof -
  have "lists_remove t (tlists s) (ReadyQ p) = tlists s (ReadyQ p)" for p
  proof -
    have "t \<notin> set (tlists s (ReadyQ p))"
      using swf_queue [OF s, of t "ReadyQ p"] assms(2) by auto
    then show ?thesis by (simp add: lists_remove_def)
  qed
  then show ?thesis
    using s assms(2) by (auto simp: swf_def queues_ok_def bitmap_ok_def masks_ok_def stats_ok_def prio_ok_def unlink_thread_def
      disjoint_remove) (auto simp: lists_remove_def)
qed

section \<open>Choosing the next thread\<close>

lemma swf_highest:
  assumes s: "swf X s" and g: "ready_group s \<noteq> 0"
  defines "p \<equiv> rt_ffs (ready_group s) - 1"
  shows "p < 32" "tlists s (ReadyQ p) \<noteq> []" "\<And>q. q < p \<Longrightarrow> tlists s (ReadyQ q) = []"
    "get_highest_priority_thread s = Some (hd (tlists s (ReadyQ p)), p)"
proof -
  have b: "bit (ready_group s) q \<longleftrightarrow> tlists s (ReadyQ q) \<noteq> []" if "q < 32" for q
    using s that by (simp add: swf_def bitmap_ok_def)
  show p: "p < 32"
    unfolding p_def by (rule ffs.ffs_lt_32 [OF g])
  have "bit (ready_group s) p"
    unfolding p_def using ffs.ffs_bit [OF g] by simp
  with b [OF p] show ne: "tlists s (ReadyQ p) \<noteq> []" by simp
  show "tlists s (ReadyQ q) = []" if "q < p" for q
    using b [of q] ffs.ffs_le [of "ready_group s" q] that p by (auto simp: p_def)
  show "get_highest_priority_thread s = Some (hd (tlists s (ReadyQ p)), p)"
    using g ne by (simp add: get_highest_priority_thread_def p_def Let_def)
qed

lemma swf_ready_thread:
  assumes s: "swf X s" and t: "tstat s t = 1" "t \<notin> X" 
  shows "t \<in> set (tlists s (ReadyQ (tprio s t)))" "bit (ready_group s) (tprio s t)" "tprio s t < 32" "t \<noteq> cur s"
proof -
  show q: "t \<in> set (tlists s (ReadyQ (tprio s t)))" and "t \<noteq> cur s"
    using s t by (auto simp: swf_def stats_ok_def)
  show p: "tprio s t < 32"
    using swf_prio_ok [OF s, of t] t by (simp add: prio_ok_def)
  show "bit (ready_group s) (tprio s t)"
    using s p q by (auto simp: swf_def bitmap_ok_def)
qed

lemma swf_set_cur:
  assumes "swf {} s" shows "swf {cur s, c} (s\<lparr>cur := c\<rparr>)"
  using assms by (auto simp: swf_def queues_ok_def bitmap_ok_def masks_ok_def stats_ok_def prio_ok_def)

lemma swf_set_running:
  assumes s: "swf X s" and free: "\<not> in_some_list t (tlists s)" and t: "prio_ok s t" "t = cur s"
  shows "swf (X - {t}) (set_stat t 3 s)"
proof -
  have "t \<notin> set (tlists s h)" for h
    using free by (simp add: in_some_list_def)
  then show ?thesis
    using s t by (auto simp: swf_def queues_ok_def bitmap_ok_def masks_ok_def stats_ok_def prio_ok_def tstat_set_stat)
qed

lemma swf_running_free: "swf X s \<Longrightarrow> tstat s t = 3 \<Longrightarrow> \<not> in_some_list t (tlists s)"
  using swf_linked(3) by auto

text \<open>The state after \<^verbatim>\<open>rt_schedule\<close> with the scheduler unlocked and some thread ready.\<close>

definition switch_to :: "ptr \<Rightarrow> nat \<Rightarrow> 'h kernel \<Rightarrow> 'h kernel" where
  "switch_to t p s =
    (let s1 = s\<lparr>cur_prio := of_nat p, cur := t\<rparr>;
         s2 = (if tstat s (cur s) = RT_THREAD_RUNNING then enqueued (cur s) s1 else s1)
     in set_stat t RT_THREAD_RUNNING (dequeued t s2))"

lemma swf_switch_to:
  assumes s: "swf {} s" and t: "t \<in> set (tlists s (ReadyQ p))" and c: "cur s \<noteq> 0"
  shows "swf {} (switch_to t p s)"
proof -
  let ?s1 = "s\<lparr>cur_prio := of_nat p, cur := t\<rparr>"
  let ?s2 = "if tstat s (cur s) = 3 then enqueued (cur s) ?s1 else ?s1"
  have rt: "tstat s t = 1" "tprio s t = p" "t \<noteq> 0"
    using swf_readyq [OF s t] by auto
  then have "t \<noteq> cur s" using swf_ready_thread [OF s] by auto
  have s1: "swf {cur s, t} ?s1"
    by (rule iffD1 [OF swf_cong swf_set_cur [OF s, of t]]) (simp_all add: tstat_def tprio_def)
  have s2: "swf {t} ?s2"
  proof (cases "tstat s (cur s) = 3")
    case True
    have "swf ({cur s, t} - {cur s}) (enqueued (cur s) ?s1)"
      using True c swf_running_free [OF s True] swf_prio_ok [OF s, of "cur s"]
      by (intro swf_enqueued [OF s1]) (auto simp: prio_ok_def)
    then show ?thesis using True \<open>t \<noteq> cur s\<close> by (auto elim: swf_mono)
  next
    case False
    have "tstat s (cur s) \<noteq> 1"
      using swf_ready_thread(4) [OF s, of "cur s"] by auto
    then show ?thesis
      using False swf_shrink [OF s1] by simp
  qed
  have pt: "prio_ok ?s2 t"
    using swf_prio_ok [OF s, of t] rt by (simp add: prio_ok_def)
  have "cur ?s2 = t" by simp
  then have "swf (insert t {t} - {t}) (set_stat t 3 (dequeued t ?s2))"
    using pt by (intro swf_set_running [OF swf_dequeued [OF s2]]) (auto simp: prio_ok_def)
  then show ?thesis
    by (simp add: switch_to_def Let_def)
qed

lemma rt_schedule_idle: "lock_nest s \<noteq> 0 \<or> ready_group s = 0 \<Longrightarrow> rt_schedule s = Some s"
  by (auto simp: rt_schedule_def)

lemma rt_schedule_keep:
  assumes s: "swf {} s" and g: "lock_nest s = 0" "ready_group s \<noteq> 0" and c: "cur s \<noteq> 0"
    and r: "tstat s (cur s) = 3" "tprio s (cur s) < rt_ffs (ready_group s) - 1"
  shows "rt_schedule s = Some (set_stat (cur s) 3 (dequeued (cur s) s))"
  using swf_highest [OF s g(2)] assms by (simp add: rt_schedule_def Let_def rt_schedule_remove_thread_eq)

lemma rt_schedule_switch:
  assumes s: "swf {} s" and g: "lock_nest s = 0" "ready_group s \<noteq> 0" and c: "cur s \<noteq> 0"
    and r: "tstat s (cur s) \<noteq> 3 \<or> rt_ffs (ready_group s) - 1 \<le> tprio s (cur s)"
    and p: "p = rt_ffs (ready_group s) - 1"
  shows "rt_schedule s = Some (switch_to (hd (tlists s (ReadyQ p))) p s)"
proof -
  let ?t = "hd (tlists s (ReadyQ p))"
  note h = swf_highest [OF s g(2), folded p]
  have t: "?t \<in> set (tlists s (ReadyQ p))" using h(2) by simp
  then have rt: "tstat s ?t = 1" "tprio s ?t = p" "?t \<noteq> 0" using swf_readyq [OF s] by auto
  then have ne: "?t \<noteq> cur s" using swf_ready_thread [OF s] by auto
  let ?s1 = "s\<lparr>cur_prio := of_nat p, cur := ?t\<rparr>"
  have "rt_schedule_insert_thread (cur s) ?s1 = Some (enqueued (cur s) ?s1)" if "tstat s (cur s) = 3"
    using that c ne swf_running_free [OF s that] swf_prio_ok [OF s, of "cur s"]
    by (intro rt_schedule_insert_thread_eq) (auto simp: prio_ok_def)
  then show ?thesis
    using g c r [folded p] ne rt h by (auto simp: rt_schedule_def switch_to_def Let_def rt_schedule_remove_thread_eq not_less [symmetric])
qed

lemma swf_keep:
  assumes s: "swf {} s" and r: "tstat s (cur s) = 3"
  shows "swf {} (set_stat (cur s) 3 (dequeued (cur s) s))"
proof -
  have "swf {cur s} (dequeued (cur s) s)"
    using swf_dequeued [OF s, of "cur s"] by simp
  then have "swf ({cur s} - {cur s}) (set_stat (cur s) 3 (dequeued (cur s) s))"
    using swf_prio_ok [OF s, of "cur s"] r by (intro swf_set_running) (auto simp: prio_ok_def)
  then show ?thesis by simp
qed

text \<open>The full effect of \<^verbatim>\<open>rt_schedule\<close>: it returns and keeps the invariant.\<close>

lemma rt_schedule_ok [kinv]:
  assumes s: "swf {} s" and c: "ready_group s \<noteq> 0 \<Longrightarrow> cur s \<noteq> 0"
  shows "okt (swf {}) (rt_schedule s)"
proof (cases "lock_nest s = 0 \<and> ready_group s \<noteq> 0")
  case False
  then show ?thesis using s by (simp add: rt_schedule_idle)
next
  case True
  note h = swf_highest [OF s]
  show ?thesis
  proof (cases "tstat s (cur s) = 3 \<and> tprio s (cur s) < rt_ffs (ready_group s) - 1")
    case keep: True
    then show ?thesis
      using True c s by (simp add: rt_schedule_keep swf_keep)
  next
    case False
    then have "rt_schedule s = Some (switch_to (hd (tlists s (ReadyQ (rt_ffs (ready_group s) - 1)))) (rt_ffs (ready_group s) - 1) s)"
      using True c by (intro rt_schedule_switch [OF s]) auto
    moreover have "swf {} (switch_to (hd (tlists s (ReadyQ (rt_ffs (ready_group s) - 1)))) (rt_ffs (ready_group s) - 1) s)"
      using True c h by (intro swf_switch_to [OF s]) auto
    ultimately show ?thesis by simp
  qed
qed

lemma switch_to_view:
  assumes "swf {} s" and "t \<in> set (tlists s (ReadyQ p))"
  shows "cur (switch_to t p s) = t" "tprio (switch_to t p s) u = tprio s u" "lock_nest (switch_to t p s) = lock_nest s"
    "tstat (switch_to t p s) u = (if u = t then 3 else if u = cur s \<and> tstat s u = 3 then 1 else tstat s u)"
    "tlists (switch_to t p s) = lists_remove t (if tstat s (cur s) = 3
       then lists_push_back (ReadyQ (tprio s (cur s))) (cur s) (tlists s) else tlists s)"
proof -
  have t: "tstat s t = 1" using swf_readyq [OF assms] by simp
  then have ne: "t \<noteq> cur s" using swf_ready_thread(4) [OF assms(1)] by auto
  show "tstat (switch_to t p s) u = (if u = t then 3 else if u = cur s \<and> tstat s u = 3 then 1 else tstat s u)"
    using ne t by (auto simp: switch_to_def Let_def tstat_set_stat tstat_enqueued)
  show "tlists (switch_to t p s) = lists_remove t (if tstat s (cur s) = 3
       then lists_push_back (ReadyQ (tprio s (cur s))) (cur s) (tlists s) else tlists s)"
    using ne by (auto simp: switch_to_def Let_def tlists_enqueued)
qed (auto simp: switch_to_def Let_def)

text \<open>Scheduling exchanges READY and RUNNING and moves threads between the ready queues only.\<close>

lemma rt_schedule_cases:
  assumes s: "swf {} s" and r: "rt_schedule s = Some s'"
  obtains "s' = s" | "tstat s (cur s) = 3" "s' = set_stat (cur s) 3 (dequeued (cur s) s)"
    | t p where "t \<in> set (tlists s (ReadyQ p))" "s' = switch_to t p s" "cur s \<noteq> 0"
proof (cases "lock_nest s = 0 \<and> ready_group s \<noteq> 0")
  case False
  then show ?thesis using r that(1) by (simp add: rt_schedule_idle)
next
  case True
  then have c: "cur s \<noteq> 0" using r by (auto simp: rt_schedule_def bind_eq_Some_conv)
  show ?thesis
  proof (cases "tstat s (cur s) = 3 \<and> tprio s (cur s) < rt_ffs (ready_group s) - 1")
    case keep: True
    then show ?thesis using that(2) r True c rt_schedule_keep [OF s] by auto
  next
    case False
    define p where p: "p = rt_ffs (ready_group s) - 1"
    have "rt_schedule s = Some (switch_to (hd (tlists s (ReadyQ p))) p s)"
      using True c False by (intro rt_schedule_switch [OF s _ _ _ _ p]) auto
    moreover have "hd (tlists s (ReadyQ p)) \<in> set (tlists s (ReadyQ p))"
      using swf_highest(2) [OF s] True p by auto
    ultimately show ?thesis using that(3) r c by auto
  qed
qed

lemma rt_schedule_states:
  assumes s: "swf {} s" and r: "rt_schedule s = Some s'"
  shows "tstat s t \<noteq> 1 \<Longrightarrow> tstat s t \<noteq> 3 \<Longrightarrow> tstat s' t = tstat s t"
    and "tstat s t = 1 \<or> tstat s t = 3 \<Longrightarrow> tstat s' t = 1 \<or> tstat s' t = 3"
    and "not_ready_queue h \<Longrightarrow> tlists s' h = tlists s h"
proof -
  have q: "lists_remove t L h = L h" if "t \<notin> set (L h)" for L :: "(qhead, ptr) lists" and t h
    using that by (simp add: lists_remove_def)
  have "(tstat s t \<noteq> 1 \<longrightarrow> tstat s t \<noteq> 3 \<longrightarrow> tstat s' t = tstat s t) \<and> (tstat s t = 1 \<or> tstat s t = 3 \<longrightarrow> tstat s' t = 1 \<or> tstat s' t = 3) \<and>
    (not_ready_queue h \<longrightarrow> tlists s' h = tlists s h)"
    using s r
  proof (cases rule: rt_schedule_cases)
    case 2
    have "cur s \<notin> set (tlists s h)" using swf_running_free [OF s 2(1)] by (auto simp: in_some_list_def)
    then show ?thesis using 2 q by (auto simp: tstat_set_stat)
  next
    case (3 u p)
    note v = switch_to_view [OF s 3(1)]
    have u: "tstat s u = 1" using swf_readyq [OF s 3(1)] by simp
    have "u \<notin> set (tlists s h)" if "not_ready_queue h"
      using disjointD [OF swf_disjoint [OF s] 3(1), of h] that by auto
    then show ?thesis using 3 u q by (auto simp: v lists_push_back_def not_ready_queue_def)
  qed simp
  then show "tstat s t \<noteq> 1 \<Longrightarrow> tstat s t \<noteq> 3 \<Longrightarrow> tstat s' t = tstat s t"
    and "tstat s t = 1 \<or> tstat s t = 3 \<Longrightarrow> tstat s' t = 1 \<or> tstat s' t = 3"
    and "not_ready_queue h \<Longrightarrow> tlists s' h = tlists s h" by auto
qed

section \<open>What scheduling leaves alone\<close>

text \<open>Only the thread states, the queues, the choice of the current thread and the lock count change.\<close>

definition sched_only :: "'h kernel \<Rightarrow> 'h kernel \<Rightarrow> bool" where
  "sched_only s s' \<longleftrightarrow>
     s' = s\<lparr>threads := threads s', tlists := tlists s', ready_group := ready_group s', cur := cur s', cur_prio := cur_prio s',
            lock_nest := lock_nest s'\<rparr> \<and>
     (\<forall>t. threads s' t = (threads s t)\<lparr>th_stat := th_stat (threads s' t)\<rparr>)"

lemma sched_onlyD:
  assumes "sched_only s s'"
  shows "objs s' = objs s" "container s' = container s" "timers s' = timers s" "timer_list s' = timer_list s"
    "random_nr s' = random_nr s" "intr_nest s' = intr_nest s" "ticks s' = ticks s" "errno_var s' = errno_var s"
    "start_flg s' = start_flg s" "idle_hook_list s' = idle_hook_list s" "sems s' = sems s" "mutexes s' = mutexes s"
    "events s' = events s" "mailboxes s' = mailboxes s" "mqs s' = mqs s" "mempools s' = mempools s" "pool_mem s' = pool_mem s"
    "heap s' = heap s" "tprio s' t = tprio s t" "terror s' t = terror s t"
    "th_number_mask (threads s' t) = th_number_mask (threads s t)"
proof -
  obtain a b c d e f where "s' = s\<lparr>threads := a, tlists := b, ready_group := c, cur := d, cur_prio := e, lock_nest := f\<rparr>"
    using assms unfolding sched_only_def by blast
  then show "objs s' = objs s" "container s' = container s" "timers s' = timers s" "timer_list s' = timer_list s"
    "random_nr s' = random_nr s" "intr_nest s' = intr_nest s" "ticks s' = ticks s" "errno_var s' = errno_var s"
    "start_flg s' = start_flg s" "idle_hook_list s' = idle_hook_list s" "sems s' = sems s" "mutexes s' = mutexes s"
    "events s' = events s" "mailboxes s' = mailboxes s" "mqs s' = mqs s" "mempools s' = mempools s" "pool_mem s' = pool_mem s"
    "heap s' = heap s"
    by simp_all
  have th: "\<And>t. threads s' t = (threads s t)\<lparr>th_stat := th_stat (threads s' t)\<rparr>"
    using assms by (auto simp: sched_only_def)
  show "tprio s' t = tprio s t" unfolding tprio_def by (subst th) simp
  show "terror s' t = terror s t" unfolding terror_def by (subst th) simp
  show "th_number_mask (threads s' t) = th_number_mask (threads s t)" by (subst th) simp
qed

lemma sched_only_refl [simp]: "sched_only s s"
  by (simp add: sched_only_def)

lemma sched_only_trans: "sched_only s s1 \<Longrightarrow> sched_only s1 s2 \<Longrightarrow> sched_only s s2"
proof -
  assume a: "sched_only s s1" and b: "sched_only s1 s2"
  have "s1 = s\<lparr>threads := threads s1, tlists := tlists s1, ready_group := ready_group s1, cur := cur s1, cur_prio := cur_prio s1,
            lock_nest := lock_nest s1\<rparr>"
    using a by (simp add: sched_only_def)
  moreover have "s2 = s1\<lparr>threads := threads s2, tlists := tlists s2, ready_group := ready_group s2, cur := cur s2, cur_prio := cur_prio s2,
            lock_nest := lock_nest s2\<rparr>"
    using b by (simp add: sched_only_def)
  moreover have "threads s2 t = (threads s t)\<lparr>th_stat := th_stat (threads s2 t)\<rparr>" for t
  proof -
    have "threads s1 t = (threads s t)\<lparr>th_stat := th_stat (threads s1 t)\<rparr>" using a by (simp add: sched_only_def)
    moreover have "threads s2 t = (threads s1 t)\<lparr>th_stat := th_stat (threads s2 t)\<rparr>" using b by (simp add: sched_only_def)
    ultimately show ?thesis by (metis rt_thread.update_convs(6) rt_thread.surjective)
  qed
  ultimately show ?thesis
    unfolding sched_only_def by (cases s; cases s1; cases s2) simp
qed

lemma sched_only_prims [simp]:
  "sched_only s (dequeued t s)" "sched_only s (enqueued t s)" "sched_only s (set_stat t v s)"
  "sched_only s (s\<lparr>cur_prio := k, cur := c\<rparr>)" "sched_only s (s\<lparr>lock_nest := n\<rparr>)"
  by (simp_all add: sched_only_def dequeued_def enqueued_def set_stat_def upd_thread_def)

lemma rt_schedule_sched_only:
  assumes "rt_schedule s = Some s'" shows "sched_only s s'" "lock_nest s' = lock_nest s"
proof -
  have "sched_only s s' \<and> lock_nest s' = lock_nest s"
    using assms
    by (auto simp: rt_schedule_def Let_def bind_eq_Some_conv split: if_splits
        dest!: rt_schedule_insert_thread_Some rt_schedule_remove_thread_Some
        intro!: sched_only_trans [OF _ sched_only_prims(3)] sched_only_trans [OF _ sched_only_prims(1)]
          sched_only_trans [OF _ sched_only_prims(2)])
  then show "sched_only s s'" "lock_nest s' = lock_nest s" by auto
qed

lemma rt_exit_critical_sched_only: "rt_exit_critical s = Some s' \<Longrightarrow> sched_only s s'"
  by (auto simp: rt_exit_critical_def Let_def split: if_splits
      intro: sched_only_trans [OF sched_only_prims(5) rt_schedule_sched_only(1)])

lemma swf_rt_enter_critical [simp]: "swf X (rt_enter_critical s) = swf X s"
  by (simp add: rt_enter_critical_def)

lemma rt_exit_critical_ok [kinv]: "swf {} s \<Longrightarrow> okt (swf {}) (rt_exit_critical s)"
  by (auto simp: rt_exit_critical_def Let_def intro: rt_schedule_ok)

lemma rt_exit_enter_critical:
  assumes "0 \<le> sint (lock_nest s)" "sint (lock_nest s) < 2 ^ 15 - 1"
  shows "rt_exit_critical (rt_enter_critical s) = (if lock_nest s = 0 \<and> cur s \<noteq> 0 then rt_schedule s else Some s)"
proof -
  have "sint (lock_nest s) \<le> 0 \<longleftrightarrow> lock_nest s = 0"
    using assms by (auto simp: signed_eq_0_iff)
  then show ?thesis
    by (cases s) (auto simp: rt_exit_critical_def rt_enter_critical_def Let_def)
qed

lemma critical_lock_nest:
  assumes "rt_exit_critical (rt_enter_critical s) = Some s'" and "0 \<le> sint (lock_nest s)"
  shows "lock_nest s' = lock_nest s"
proof -
  have "sint (lock_nest s) \<le> 0 \<longleftrightarrow> lock_nest s = 0"
    using assms by (auto simp: signed_eq_0_iff)
  then show ?thesis
    using assms(1) by (auto simp: rt_exit_critical_def rt_enter_critical_def Let_def split: if_splits
      dest!: rt_schedule_sched_only(2))
qed

section \<open>A concrete state\<close>

text \<open>Thread 1 of priority 5 runs; threads 2 and 4 of priority 5 and thread 3 of priority 7 are ready.\<close>

definition sched_demo :: "unit kernel" where
  "sched_demo = (zero_kernel ())\<lparr>
     threads := (\<lambda>_. zero_thread)(
       1 := zero_thread\<lparr>th_stat := 3, th_current_priority := 5, th_number_mask := bitmask 5\<rparr>,
       2 := zero_thread\<lparr>th_stat := 1, th_current_priority := 5, th_number_mask := bitmask 5\<rparr>,
       3 := zero_thread\<lparr>th_stat := 1, th_current_priority := 7, th_number_mask := bitmask 7\<rparr>,
       4 := zero_thread\<lparr>th_stat := 1, th_current_priority := 5, th_number_mask := bitmask 5\<rparr>),
     tlists := (\<lambda>_. [])(ReadyQ 5 := [2, 4], ReadyQ 7 := [3]),
     ready_group := bitmask 5 OR bitmask 7, cur := 1\<rparr>"

lemma swf_zero_kernel: "swf {} (zero_kernel h)"
  by (simp add: swf_def queues_ok_def bitmap_ok_def masks_ok_def stats_ok_def lists_disjoint_def zero_kernel_def
      zero_thread_def tstat_def tprio_def)

lemma sched_demo_view:
  "tstat sched_demo t = (if t = 1 then 3 else if t \<in> {2, 3, 4} then 1 else 0)"
  "tprio sched_demo t = (if t \<in> {1, 2, 4} then 5 else if t = 3 then 7 else 0)"
  "cur sched_demo = 1" "lock_nest sched_demo = 0" "ready_group sched_demo = bitmask 5 OR bitmask 7"
  "tlists sched_demo = (\<lambda>_. [])(ReadyQ 5 := [2, 4], ReadyQ 7 := [3])"
  by (auto simp: sched_demo_def tstat_def tprio_def zero_defs)

lemma swf_sched_demo: "swf {} sched_demo"
  unfolding swf_def
proof (intro conjI)
  have "lists_disjoint (tlists sched_demo)"
    by (auto simp: lists_disjoint_def sched_demo_view split: if_splits)
  then show "queues_ok sched_demo"
    by (auto simp: queues_ok_def sched_demo_view split: if_splits)
  show "bitmap_ok sched_demo"
    by (auto simp: bitmap_ok_def sched_demo_view bit_bitmask bit_or_bitmask)
  show "masks_ok sched_demo"
    by (auto simp: masks_ok_def prio_ok_def sched_demo_view) (auto simp: sched_demo_def zero_defs)
  show "stats_ok {} sched_demo"
    by (auto simp: stats_ok_def sched_demo_view)
qed

section \<open>Properties\<close>

lemma rt_schedule_highest:
  assumes s: "swf {} s" and "lock_nest s = 0" and c: "cur s \<noteq> RT_NULL"
    and r: "tstat s (cur s) = RT_THREAD_RUNNING \<or> ready_group s \<noteq> 0"
  shows "\<exists>s'. rt_schedule s = Some s' \<and> swf {} s' \<and> tstat s' (cur s') = RT_THREAD_RUNNING \<and>
    (\<forall>t. tstat s' t = RT_THREAD_READY \<longrightarrow> tprio s' (cur s') \<le> tprio s' t)"
proof -
  define p where p: "p = rt_ffs (ready_group s) - 1"
  have le: "p \<le> tprio s t" if "tstat s t = 1" for t
    using swf_ready_thread(2) [OF s that] ffs.ffs_le unfolding p by blast
  obtain s' where s': "rt_schedule s = Some s'" "swf {} s'"
    using rt_schedule_ok [OF s] c by (auto simp: okt_def)
  have "tstat s' (cur s') = 3 \<and> (\<forall>t. tstat s' t = 1 \<longrightarrow> tprio s' (cur s') \<le> tprio s' t)"
  proof (cases "ready_group s = 0")
    case True
    then show ?thesis
      using s' r swf_ready_thread(2) [OF s] by (auto simp: rt_schedule_idle)
  next
    case g: False
    show ?thesis
    proof (cases "tstat s (cur s) = 3 \<and> tprio s (cur s) < p")
      case True
      then show ?thesis
        using rt_schedule_keep [OF s assms(2) g c, folded p] s' le by (auto simp: tstat_set_stat intro: less_imp_le order_trans)
    next
      case False
      then have sw: "s' = switch_to (hd (tlists s (ReadyQ p))) p s"
        using rt_schedule_switch [OF s assms(2) g c _ p, folded p] s' by auto
      have t: "hd (tlists s (ReadyQ p)) \<in> set (tlists s (ReadyQ p))"
        using swf_highest(2) [OF s g, folded p] by simp
      show ?thesis
        using swf_readyq [OF s t] False le by (auto simp: sw switch_to_view [OF s t])
    qed
  qed
  with s' show ?thesis by blast
qed

text \<open>
  C8. With the scheduler unlocked, \<^verbatim>\<open>rt_schedule\<close> returns, keeps the scheduler invariant, and afterwards the
  current thread is in state RUNNING and no ready thread has a higher priority (a lower number).
\<close>

theorem rt_schedule_runs_highest:
  assumes s: "swf {} s" and "lock_nest s = 0" and c: "cur s \<noteq> RT_NULL"
    and r: "tstat s (cur s) = RT_THREAD_RUNNING \<or> ready_group s \<noteq> 0"
  shows "\<exists>s'. rt_schedule s = Some s' \<and> swf {} s' \<and> tstat s' (cur s') = RT_THREAD_RUNNING \<and>
    (\<forall>t. tstat s' t = RT_THREAD_READY \<longrightarrow> tprio s' (cur s') \<le> tprio s' t)"
  using assms by (rule rt_schedule_highest)

theorem rt_schedule_runs_highest_witness:
  "\<exists>s'. rt_schedule sched_demo = Some s' \<and> swf {} s' \<and> tstat s' (cur s') = RT_THREAD_RUNNING \<and>
    (\<forall>t. tstat s' t = RT_THREAD_READY \<longrightarrow> tprio s' (cur s') \<le> tprio s' t)"
  by (rule rt_schedule_runs_highest [OF swf_sched_demo]) (simp_all add: sched_demo_view)

lemma rt_schedule_rotate:
  assumes s: "swf {} s" and l: "lock_nest s = 0" and c: "cur s \<noteq> RT_NULL" and r: "tstat s (cur s) = RT_THREAD_RUNNING"
    and q: "tlists s (ReadyQ (tprio s (cur s))) = t # ts" and top: "\<And>q. q < tprio s (cur s) \<Longrightarrow> tlists s (ReadyQ q) = []"
  shows "\<exists>s'. rt_schedule s = Some s' \<and> cur s' = t \<and> tstat s' t = RT_THREAD_RUNNING \<and> tstat s' (cur s) = RT_THREAD_READY \<and>
    tlists s' = (tlists s)(ReadyQ (tprio s (cur s)) := ts @ [cur s])"
proof -
  define p where "p = tprio s (cur s)"
  have p: "p < 32" using swf_prio_ok [OF s, of "cur s"] r by (simp add: prio_ok_def p_def)
  have b: "bit (ready_group s) k \<longleftrightarrow> tlists s (ReadyQ k) \<noteq> []" if "k < 32" for k
    using s that by (simp add: swf_def bitmap_ok_def)
  have "bit (ready_group s) p" using b [OF p] q by (simp add: p_def)
  moreover have "\<not> bit (ready_group s) k" if "k < p" for k
    using b [of k] top [of k] p that by (simp add: p_def)
  ultimately have f: "p = rt_ffs (ready_group s) - 1" and g: "ready_group s \<noteq> 0"
    using ffs.ffs_unique [of "ready_group s" p] by auto
  have t: "t \<in> set (tlists s (ReadyQ p))" "hd (tlists s (ReadyQ p)) = t" using q by (simp_all add: p_def)
  have "t \<noteq> cur s" using swf_readyq [OF s t(1)] r by auto
  have free: "\<not> in_some_list (cur s) (tlists s)" using swf_running_free [OF s r] .
  have "rt_schedule s = Some (switch_to t p s)"
    using rt_schedule_switch [OF s l g c _ f] f t by (simp add: p_def)
  moreover have "lists_remove t (lists_push_back (ReadyQ p) (cur s) (tlists s)) = (tlists s)(ReadyQ p := ts @ [cur s])"
    using lists_remove_split [OF disjoint_push_back [OF swf_disjoint [OF s] free], of "ReadyQ p" "ReadyQ p" "[]" t "ts @ [cur s]"] q
    by (simp add: lists_push_back_def p_def)
  ultimately show ?thesis
    using r \<open>t \<noteq> cur s\<close> by (simp add: switch_to_view [OF s t(1)]) (simp add: p_def)
qed

text \<open>
  Round robin: when the running thread is among the ready threads of the highest priority,
  \<^verbatim>\<open>rt_schedule\<close> switches to the first ready thread of that priority and puts the running thread at the end
  of its queue; no other queue changes.
\<close>

theorem rt_schedule_round_robin:
  assumes s: "swf {} s" and l: "lock_nest s = 0" and c: "cur s \<noteq> RT_NULL" and r: "tstat s (cur s) = RT_THREAD_RUNNING"
    and q: "tlists s (ReadyQ (tprio s (cur s))) = t # ts" and top: "\<And>q. q < tprio s (cur s) \<Longrightarrow> tlists s (ReadyQ q) = []"
  shows "\<exists>s'. rt_schedule s = Some s' \<and> cur s' = t \<and> tstat s' t = RT_THREAD_RUNNING \<and> tstat s' (cur s) = RT_THREAD_READY \<and>
    tlists s' = (tlists s)(ReadyQ (tprio s (cur s)) := ts @ [cur s])"
  using assms by (rule rt_schedule_rotate)

theorem rt_schedule_round_robin_witness:
  "\<exists>s'. rt_schedule sched_demo = Some s' \<and> cur s' = 2 \<and> tstat s' 2 = RT_THREAD_RUNNING \<and> tstat s' 1 = RT_THREAD_READY \<and>
    tlists s' = (tlists sched_demo)(ReadyQ 5 := [4, 1])"
  using rt_schedule_round_robin [OF swf_sched_demo, of 2 "[4]"] by (simp add: sched_demo_view)

text \<open>Repeated \<^verbatim>\<open>rt_exit_critical\<close>.\<close>

fun exits_critical :: "nat \<Rightarrow> 'h kernel \<Rightarrow> 'h kernel option" where
  "exits_critical 0 s = Some s"
| "exits_critical (Suc n) s = do { s \<leftarrow> rt_exit_critical s; exits_critical n s }"

lemma enters_critical: "(rt_enter_critical ^^ n) s = s\<lparr>lock_nest := lock_nest s + of_nat n\<rparr>"
  by (induction n) (auto simp: rt_enter_critical_def algebra_simps)

lemma sint_of_nat_16: "n < 2 ^ 15 \<Longrightarrow> sint (of_nat n :: 16 word) = int n"
  by (simp add: signed_of_nat signed_take_bit_int_eq_self)

lemma of_nat_16_neq_0: "0 < n \<Longrightarrow> n < 2 ^ 15 \<Longrightarrow> (of_nat n :: 16 word) \<noteq> 0"
  using sint_of_nat_16 [of n] by auto

lemma exit_critical_step:
  "n < 2 ^ 15 \<Longrightarrow> 0 < n \<Longrightarrow> rt_exit_critical (s\<lparr>lock_nest := of_nat (Suc n)\<rparr>) = Some (s\<lparr>lock_nest := of_nat n\<rparr>)"
  using sint_of_nat_16 [of n] by (simp add: rt_exit_critical_def Let_def)

lemma exits_critical_steps:
  "k < n \<Longrightarrow> n < 2 ^ 15 \<Longrightarrow> exits_critical k (s\<lparr>lock_nest := of_nat n\<rparr>) = Some (s\<lparr>lock_nest := of_nat (n - k)\<rparr>)"
proof (induction k arbitrary: n)
  case 0
  then show ?case by simp
next
  case (Suc k)
  then obtain m where n: "n = Suc m" by (cases n) auto
  then show ?case
    using Suc exit_critical_step [of m s] by simp
qed

lemma exits_critical_snoc: "exits_critical (Suc n) s = do { s \<leftarrow> exits_critical n s; rt_exit_critical s }"
proof (induction n arbitrary: s)
  case 0
  then show ?case by (cases "rt_exit_critical s") auto
next
  case (Suc n)
  show ?case
  proof (cases "rt_exit_critical s")
    case (Some s')
    then have "exits_critical (Suc (Suc n)) s = exits_critical (Suc n) s'" by simp
    also have "\<dots> = do { s \<leftarrow> exits_critical n s'; rt_exit_critical s }" by (rule Suc.IH)
    finally show ?thesis using Some by simp
  qed simp
qed

text \<open>
  Nested critical sections: after up to 32767 calls of \<^verbatim>\<open>rt_enter_critical\<close> no \<^verbatim>\<open>rt_schedule\<close> switches
  threads until as many calls of \<^verbatim>\<open>rt_exit_critical\<close> have been made, and the last of them performs exactly the
  schedule that was held back.
\<close>

theorem critical_section_nesting:
  assumes "lock_nest s = 0" and "cur s \<noteq> RT_NULL" and "0 < n" and "n < 2 ^ 15"
  shows "(\<forall>k < n. \<exists>s'. exits_critical k ((rt_enter_critical ^^ n) s) = Some s' \<and> rt_schedule s' = Some s' \<and>
            s'\<lparr>lock_nest := 0\<rparr> = s) \<and>
         exits_critical n ((rt_enter_critical ^^ n) s) = rt_schedule s"
proof (intro conjI allI impI)
  fix k assume "k < n"
  then show "\<exists>s'. exits_critical k ((rt_enter_critical ^^ n) s) = Some s' \<and> rt_schedule s' = Some s' \<and> s'\<lparr>lock_nest := 0\<rparr> = s"
    using assms exits_critical_steps [of k n s] of_nat_16_neq_0 [of "n - k"]
    by (simp add: enters_critical rt_schedule_idle)
next
  obtain m where n: "n = Suc m" using assms(3) by (cases n) auto
  have "exits_critical m (s\<lparr>lock_nest := of_nat n\<rparr>) = Some (s\<lparr>lock_nest := 1\<rparr>)"
    using exits_critical_steps [of m n s] assms(4) n by simp
  moreover have "rt_exit_critical (s\<lparr>lock_nest := 1\<rparr>) = rt_schedule s"
    using assms(1,2) by (cases s) (simp add: rt_exit_critical_def Let_def)
  moreover have "(rt_enter_critical ^^ n) s = s\<lparr>lock_nest := of_nat n\<rparr>"
    unfolding enters_critical by (simp add: assms(1))
  moreover have "exits_critical n x = do { s \<leftarrow> exits_critical m x; rt_exit_critical s }" for x :: "'a kernel"
    unfolding n by (rule exits_critical_snoc)
  ultimately show "exits_critical n ((rt_enter_critical ^^ n) s) = rt_schedule s"
    by simp
qed

theorem critical_section_nesting_witness:
  "exits_critical 3 ((rt_enter_critical ^^ 3) sched_demo) = rt_schedule sched_demo"
  using critical_section_nesting [of sched_demo 3] by (simp add: sched_demo_view)

text \<open>
  The comment in \<^verbatim>\<open>rt_enter_critical\<close> allows a nesting of \<^verbatim>\<open>RT_UINT16_MAX\<close>, but the counter is a signed
  16-bit integer: after 32769 nested \<^verbatim>\<open>rt_enter_critical\<close> calls a single \<^verbatim>\<open>rt_exit_critical\<close> unlocks the
  scheduler completely and schedules.
\<close>

theorem critical_section_overflow:
  assumes "lock_nest s = 0" and "cur s \<noteq> RT_NULL"
  shows "rt_exit_critical ((rt_enter_critical ^^ 32769) s) = rt_schedule s"
proof -
  have "sint (of_nat 32769 - 1 :: 16 word) \<le> 0"
    by simp
  then show ?thesis
    unfolding enters_critical using assms by (cases s) (simp add: rt_exit_critical_def Let_def)
qed

theorem critical_section_overflow_witness:
  "rt_exit_critical ((rt_enter_critical ^^ 32769) sched_demo) = rt_schedule sched_demo"
  by (rule critical_section_overflow) (simp_all add: sched_demo_view)

end
