(* ===== verification/RT_Object.thy ===== *)
theory RT_Object
  imports RT_Scheduler
begin

text \<open>
  The object container of \<^verbatim>\<open>src/object.c\<close>: per class a list of the registered objects, registration of static
  and allocated objects, removal, and lookup by name. The predicate \<open>owf\<close> is the container invariant.
\<close>

section \<open>The container\<close>

text \<open>
  The initial table, for a configuration with all object classes but modules. The structure sizes depend on
  the ABI and are an argument.
\<close>

definition rt_object_container :: "(u8 \<Rightarrow> nat) \<Rightarrow> rt_object_information list" where
  "rt_object_container size_of = map (\<lambda>c. \<lparr>info_type = c, info_list = [], info_size = size_of c\<rparr>)
     [RT_Object_Class_Thread, RT_Object_Class_Semaphore, RT_Object_Class_Mutex, RT_Object_Class_Event,
      RT_Object_Class_MailBox, RT_Object_Class_MessageQueue, RT_Object_Class_MemHeap, RT_Object_Class_MemPool,
      RT_Object_Class_Device, RT_Object_Class_Timer]"

fun info_index :: "u8 \<Rightarrow> rt_object_information list \<Rightarrow> nat option" where
  "info_index ty [] = None"
| "info_index ty (i # is) = (if info_type i = ty then Some 0 else map_option Suc (info_index ty is))"

definition rt_object_get_information :: "u8 \<Rightarrow> 'h kernel \<Rightarrow> nat option" where
  "rt_object_get_information ty s = info_index ty (container s)"

definition info_objects :: "'h kernel \<Rightarrow> nat \<Rightarrow> objref list" where
  "info_objects s i = info_list (container s ! i)"

definition obj_linked :: "objref \<Rightarrow> 'h kernel \<Rightarrow> bool" where
  "obj_linked r s \<longleftrightarrow> list_ex (\<lambda>i. r \<in> set (info_list i)) (container s)"

text \<open>\<^verbatim>\<open>rt_list_insert_after(&(information->object_list), &(object->list))\<close> and \<^verbatim>\<open>rt_list_remove(&(object->list))\<close>.\<close>

definition obj_link :: "nat \<Rightarrow> objref \<Rightarrow> 'h kernel \<Rightarrow> 'h kernel option" where
  "obj_link i r s = do {
     mem_ok (\<not> obj_linked r s);
     Some (s\<lparr>container := (container s)[i := (container s ! i)\<lparr>info_list := r # info_objects s i\<rparr>]\<rparr>) }"

definition obj_unlink :: "objref \<Rightarrow> 'h kernel \<Rightarrow> 'h kernel" where
  "obj_unlink r s = s\<lparr>container := map (\<lambda>i. i\<lparr>info_list := removeAll r (info_list i)\<rparr>) (container s)\<rparr>"

section \<open>Operations\<close>

definition rt_object_init :: "objref \<Rightarrow> u8 \<Rightarrow> string \<Rightarrow> 'h kernel \<Rightarrow> 'h kernel option" where
  "rt_object_init object ty name s = do {
     let information = rt_object_get_information ty s;
     RT_ASSERT (information \<noteq> None);
     let s = rt_enter_critical s;
     RT_ASSERT (object \<notin> set (info_objects s (the information)));
     s \<leftarrow> rt_exit_critical s;
     let s = upd_obj object (\<lambda>r. r\<lparr>o_type := ty OR RT_Object_Class_Static\<rparr>) s;
     let s = upd_obj object (\<lambda>r. r\<lparr>o_name := rt_strncpy name RT_NAME_MAX\<rparr>) s;
     obj_link (the information) object s }"

definition rt_object_detach :: "objref \<Rightarrow> 'h kernel \<Rightarrow> 'h kernel option" where
  "rt_object_detach object s = do {
     RT_ASSERT (object \<noteq> Obj RT_NULL);
     let s = upd_obj object (\<lambda>r. r\<lparr>o_type := 0\<rparr>) s;
     Some (obj_unlink object s) }"

text \<open>
  \<^verbatim>\<open>rt_memset(object, 0, size)\<close> over a structure of the class. Clearing a thread that is still linked into a
  list would destroy that list.
\<close>

definition clear_object :: "u8 \<Rightarrow> ptr \<Rightarrow> 'h kernel \<Rightarrow> 'h kernel option" where
  "clear_object ty p s = do {
     let s = upd_obj (Obj p) (\<lambda>_. zero_object) s;
     if ty = RT_Object_Class_Thread then do {
       mem_ok (\<not> in_some_list p (tlists s));
       let s = upd_thread p (\<lambda>_. zero_thread) s;
       let s = upd_obj (ThreadTimer p) (\<lambda>_. zero_object) s;
       Some (upd_timer (ThreadTimer p) (\<lambda>_. zero_timer) s) }
     else if ty = RT_Object_Class_Semaphore then Some (s\<lparr>sems := (sems s)(p := \<lparr>sem_value = 0\<rparr>)\<rparr>)
     else if ty = RT_Object_Class_Mutex then
       Some (s\<lparr>mutexes := (mutexes s)(p := \<lparr>mtx_value = 0, mtx_original_priority = 0, mtx_hold = 0, mtx_owner = 0\<rparr>)\<rparr>)
     else if ty = RT_Object_Class_Event then Some (s\<lparr>events := (events s)(p := \<lparr>ev_set = 0\<rparr>)\<rparr>)
     else if ty = RT_Object_Class_MailBox then Some (s\<lparr>mailboxes := (mailboxes s)(p := zero_mailbox)\<rparr>)
     else if ty = RT_Object_Class_MessageQueue then Some (s\<lparr>mqs := (mqs s)(p := zero_mq)\<rparr>)
     else if ty = RT_Object_Class_MemPool then Some (s\<lparr>mempools := (mempools s)(p := zero_mempool)\<rparr>)
     else if ty = RT_Object_Class_Timer then Some (upd_timer (Obj p) (\<lambda>_. zero_timer) s)
     else Some s }"

definition rt_object_allocate :: "'h heap_ops \<Rightarrow> u8 \<Rightarrow> string \<Rightarrow> 'h kernel \<Rightarrow> (ptr \<times> 'h kernel) option" where
  "rt_object_allocate H ty name s = do {
     RT_ASSERT (not_in_interrupt s);
     let information = rt_object_get_information ty s;
     RT_ASSERT (information \<noteq> None);
     (object, h) \<leftarrow> kmalloc H (heap s) (info_size (container s ! the information));
     let s = s\<lparr>heap := h\<rparr>;
     if object = RT_NULL then Some (RT_NULL, s)
     else do {
       s \<leftarrow> clear_object ty object s;
       let s = upd_obj (Obj object) (\<lambda>r. r\<lparr>o_type := ty, o_flag := 0, o_name := rt_strncpy name RT_NAME_MAX\<rparr>) s;
       s \<leftarrow> obj_link (the information) (Obj object) s;
       Some (object, s) } }"

definition rt_object_delete :: "'h heap_ops \<Rightarrow> ptr \<Rightarrow> 'h kernel \<Rightarrow> 'h kernel option" where
  "rt_object_delete H object s = do {
     RT_ASSERT (object \<noteq> RT_NULL);
     RT_ASSERT (o_type (objs s (Obj object)) AND RT_Object_Class_Static = 0);
     let s = upd_obj (Obj object) (\<lambda>r. r\<lparr>o_type := 0\<rparr>) s;
     let s = obj_unlink (Obj object) s;
     h \<leftarrow> kfree H (heap s) object;
     Some (s\<lparr>heap := h\<rparr>) }"

definition rt_object_is_systemobject :: "objref \<Rightarrow> 'h kernel \<Rightarrow> bool option" where
  "rt_object_is_systemobject object s = do {
     RT_ASSERT (object \<noteq> Obj RT_NULL);
     Some (o_type (objs s object) AND RT_Object_Class_Static \<noteq> 0) }"

definition rt_object_get_type :: "objref \<Rightarrow> 'h kernel \<Rightarrow> u8 option" where
  "rt_object_get_type object s = do {
     RT_ASSERT (object \<noteq> Obj RT_NULL);
     Some (o_type (objs s object) AND NOT RT_Object_Class_Static) }"

text \<open>The search loop of \<^verbatim>\<open>rt_object_find\<close>.\<close>

fun find_named :: "'h kernel \<Rightarrow> string \<Rightarrow> objref list \<Rightarrow> objref option" where
  "find_named s name [] = None"
| "find_named s name (r # rs) =
     (if rt_strncmp (o_name (objs s r)) name RT_NAME_MAX = 0 then Some r else find_named s name rs)"

definition rt_object_find :: "string option \<Rightarrow> u8 \<Rightarrow> 'h kernel \<Rightarrow> (objref option \<times> 'h kernel) option" where
  "rt_object_find name ty s =
    (if name = None \<or> ty > RT_Object_Class_Unknown then Some (None, s)
     else do {
       RT_ASSERT (not_in_interrupt s);
       let s = rt_enter_critical s;
       let information = rt_object_get_information ty s;
       RT_ASSERT (information \<noteq> None);
       let object = find_named s (the name) (info_objects s (the information));
       s \<leftarrow> rt_exit_critical s;
       Some (object, s) })"

section \<open>The container invariant\<close>

definition owf :: "'h kernel \<Rightarrow> bool" where
  "owf s \<longleftrightarrow> distinct (map info_type (container s)) \<and> distinct (concat (map info_list (container s))) \<and>
     (\<forall>i \<in> set (container s). info_type i AND NOT RT_Object_Class_Static = info_type i) \<and>
     (\<forall>i \<in> set (container s). \<forall>r \<in> set (info_list i).
        o_type (objs s r) AND NOT RT_Object_Class_Static = info_type i \<and> length (o_name (objs s r)) = RT_NAME_MAX)"

lemma info_index_Some: "info_index ty is = Some i \<Longrightarrow> i < length is \<and> info_type (is ! i) = ty"
  by (induction "is" arbitrary: i) (auto split: if_splits)

lemma info_index_list_update:
  "info_index ty (is[i := (is ! i)\<lparr>info_list := l\<rparr>]) = info_index ty is"
  by (induction "is" arbitrary: i) (auto split: nat.split)

lemma info_index_map_list: "info_index ty (map (\<lambda>i. i\<lparr>info_list := f i\<rparr>) is) = info_index ty is"
  by (induction "is") auto

lemma obj_linked_iff: "obj_linked r s \<longleftrightarrow> (\<exists>i < length (container s). r \<in> set (info_objects s i))"
  by (auto simp: obj_linked_def list_ex_length info_objects_def)

lemma obj_linked_concat: "obj_linked r s \<longleftrightarrow> r \<in> set (concat (map info_list (container s)))"
  by (auto simp: obj_linked_def list_ex_iff)

lemma owf_cong: "container s' = container s \<Longrightarrow> objs s' = objs s \<Longrightarrow> owf s' = owf s"
  by (simp add: owf_def)

lemma concat_update_split:
  assumes "i < length is"
  obtains as bs where "concat (map info_list is) = as @ info_list (is ! i) @ bs"
    "\<And>l. concat (map info_list (is[i := (is ! i)\<lparr>info_list := l\<rparr>])) = as @ l @ bs"
proof
  show "concat (map info_list is) = concat (map info_list (take i is)) @ info_list (is ! i) @ concat (map info_list (drop (Suc i) is))"
    using assms by (subst id_take_nth_drop [OF assms]) simp
  show "concat (map info_list (is[i := (is ! i)\<lparr>info_list := l\<rparr>])) =
      concat (map info_list (take i is)) @ l @ concat (map info_list (drop (Suc i) is))" for l
    using assms by (simp add: upd_conv_take_nth_drop)
qed

lemma owf_obj_link:
  assumes s: "owf s" and i: "i < length (container s)" and free: "\<not> obj_linked r s"
    and ty: "o_type (objs s r) AND NOT RT_Object_Class_Static = info_type (container s ! i)" "length (o_name (objs s r)) = 8"
    and s': "obj_link i r s = Some s'"
  shows "owf s'"
proof -
  let ?is = "(container s)[i := (container s ! i)\<lparr>info_list := r # info_objects s i\<rparr>]"
  have c: "container s' = ?is" "objs s' = objs s" using s' free by (auto simp: obj_link_def)
  obtain as bs where ab: "concat (map info_list (container s)) = as @ info_list (container s ! i) @ bs"
    "\<And>l. concat (map info_list ((container s)[i := (container s ! i)\<lparr>info_list := l\<rparr>])) = as @ l @ bs"
    using concat_update_split [OF i] by metis
  have upd: "\<forall>x \<in> set ?is. P x" if "\<forall>x \<in> set (container s). P x" "P ((container s ! i)\<lparr>info_list := r # info_objects s i\<rparr>)" for P
    using that set_update_subset_insert [of "container s" i] by blast
  have old: "container s ! i \<in> set (container s)" using i by simp
  show ?thesis
    unfolding owf_def c
  proof (intro conjI)
    have "map info_type ?is = map info_type (container s)"
      using i by (simp add: map_update list_update_same_conv)
    then show "distinct (map info_type ?is)" using s by (simp add: owf_def)
    show "distinct (concat (map info_list ?is))"
      using s free unfolding ab owf_def obj_linked_concat by (auto simp: info_objects_def)
    show "\<forall>x \<in> set ?is. info_type x AND NOT RT_Object_Class_Static = info_type x"
      using s old by (intro upd) (simp_all add: owf_def)
    show "\<forall>x \<in> set ?is. \<forall>r \<in> set (info_list x). o_type (objs s r) AND NOT RT_Object_Class_Static = info_type x \<and>
        length (o_name (objs s r)) = RT_NAME_MAX"
      using s old ty by (intro upd) (simp_all add: owf_def info_objects_def)
  qed
qed

lemma concat_obj_unlink:
  "concat (map (\<lambda>i. removeAll r (info_list i)) is) = removeAll r (concat (map info_list is))"
  by (induction "is") auto

lemma owf_obj_unlink: "owf s \<Longrightarrow> owf (obj_unlink r s)"
proof -
  assume s: "owf s"
  then have "distinct (concat (map info_list (container (obj_unlink r s))))"
    by (simp add: obj_unlink_def comp_def concat_obj_unlink distinct_removeAll owf_def)
  then show ?thesis
    using s by (auto simp: owf_def obj_unlink_def comp_def)
qed

text \<open>Changing the header of an object that is not registered.\<close>

lemma owf_upd_obj_free: "owf s \<Longrightarrow> \<not> obj_linked r s \<Longrightarrow> owf (upd_obj r f s)"
  by (auto simp: owf_def obj_linked_def list_ex_iff)

lemma obj_linked_unlink [simp]: "obj_linked r' (obj_unlink r s) \<longleftrightarrow> r' \<noteq> r \<and> obj_linked r' s"
  by (auto simp: obj_linked_def obj_unlink_def list_ex_iff)

lemma upd_obj_unlink: "obj_unlink r (upd_obj r f s) = upd_obj r f (obj_unlink r s)"
  by (simp add: obj_unlink_def upd_obj_def)

lemma obj_linked_cong: "container s' = container s \<Longrightarrow> obj_linked r s' = obj_linked r s"
  by (simp add: obj_linked_def)

lemma info_objects_cong: "container s' = container s \<Longrightarrow> info_objects s' i = info_objects s i"
  by (simp add: info_objects_def)

lemma unlink_link_container:
  assumes "i < length (container s)" and "\<not> obj_linked r s" and "obj_link i r s = Some s'"
  shows "container (obj_unlink r s') = container s"
proof (rule nth_equalityI)
  show "length (container (obj_unlink r s')) = length (container s)"
    using assms by (auto simp: obj_unlink_def obj_link_def)
  fix j assume "j < length (container (obj_unlink r s'))"
  then have j: "j < length (container s)"
    using assms by (auto simp: obj_unlink_def obj_link_def)
  have "r \<notin> set (info_list (container s ! j))"
    using assms(2) j by (auto simp: obj_linked_iff info_objects_def)
  then show "container (obj_unlink r s') ! j = container s ! j"
    using assms j by (cases "i = j") (auto simp: obj_unlink_def obj_link_def info_objects_def)
qed

section \<open>Registration and lookup\<close>

text \<open>The state in which \<^verbatim>\<open>rt_object_init\<close> leaves the kernel, in terms of the state \<open>u\<close> after its critical section.\<close>

definition registered :: "nat \<Rightarrow> objref \<Rightarrow> u8 \<Rightarrow> string \<Rightarrow> 'h kernel \<Rightarrow> 'h kernel" where
  "registered i r ty name u =
    (upd_obj r (\<lambda>x. x\<lparr>o_type := ty OR RT_Object_Class_Static, o_name := rt_strncpy name RT_NAME_MAX\<rparr>) u)
      \<lparr>container := (container u)[i := (container u ! i)\<lparr>info_list := r # info_objects u i\<rparr>]\<rparr>"

lemma rt_object_init_Some:
  assumes "rt_object_init r ty name s = Some s'"
  obtains i u where "rt_object_get_information ty s = Some i" "rt_exit_critical (rt_enter_critical s) = Some u"
    "\<not> obj_linked r s" "s' = registered i r ty name u" "sched_only s u"
proof -
  obtain i u where iu: "rt_object_get_information ty s = Some i" "rt_exit_critical (rt_enter_critical s) = Some u"
    "\<not> obj_linked r u" "s' = registered i r ty name u"
    using assms by (auto simp: rt_object_init_def obj_link_def registered_def Let_def bind_eq_Some_conv upd_obj_def
      info_objects_def obj_linked_def)
  have so: "sched_only s u"
    using sched_only_trans [OF _ rt_exit_critical_sched_only [OF iu(2)], of s] by (simp add: rt_enter_critical_def)
  show thesis
    using iu so obj_linked_cong [OF sched_onlyD(2) [OF so]] by (intro that) auto
qed

lemma rt_object_init_eq:
  assumes s: "swf {} s" and i: "rt_object_get_information ty s = Some i" and free: "\<not> obj_linked r s"
  obtains u where "rt_object_init r ty name s = Some (registered i r ty name u)" "swf {} u" "sched_only s u"
    "rt_exit_critical (rt_enter_critical s) = Some u"
proof -
  obtain u where u: "rt_exit_critical (rt_enter_critical s) = Some u" "swf {} u"
    using rt_exit_critical_ok [of "rt_enter_critical s"] s by (auto simp: okt_def)
  have so: "sched_only s u"
    using sched_only_trans [OF _ rt_exit_critical_sched_only [OF u(1)], of s] by (simp add: rt_enter_critical_def)
  have il: "i < length (container s)" using info_index_Some i by (auto simp: rt_object_get_information_def)
  then have "r \<notin> set (info_objects (rt_enter_critical s) i)"
    using free by (auto simp: obj_linked_iff rt_enter_critical_def info_objects_def)
  moreover have "\<not> obj_linked r u" using free obj_linked_cong [OF sched_onlyD(2) [OF so]] by simp
  ultimately have "rt_object_init r ty name s = Some (registered i r ty name u)"
    using i u by (auto simp: rt_object_init_def obj_link_def registered_def Let_def upd_obj_def
      info_objects_def obj_linked_def)
  with u so show thesis by (intro that)
qed

lemma registered_view:
  "swf X (registered i r ty name u) = swf X u" "intr_nest (registered i r ty name u) = intr_nest u"
  "lock_nest (registered i r ty name u) = lock_nest u" "cur (registered i r ty name u) = cur u"
  "timers (registered i r ty name u) = timers u" "threads (registered i r ty name u) = threads u"
  "tlists (registered i r ty name u) = tlists u" "timer_list (registered i r ty name u) = timer_list u"
  "rt_object_get_information ty' (registered i r ty name u) = rt_object_get_information ty' u"
  by (simp_all add: registered_def rt_object_get_information_def info_index_list_update)

lemma type_static_bits: "ty AND NOT 0x80 = ty \<Longrightarrow> (ty OR 0x80) AND NOT 0x80 = ty" for ty :: u8
proof (rule bit_word_eqI)
  fix n assume "ty AND NOT 0x80 = ty" and "n < LENGTH(8)"
  then have "bit ty n \<longleftrightarrow> bit ty n \<and> \<not> bit (0x80 :: u8) n"
    by (metis bit_and_iff bit_not_iff_eq)
  then show "bit ((ty OR 0x80) AND NOT 0x80) n = bit ty n"
    using \<open>n < LENGTH(8)\<close> unfolding bit_and_iff bit_or_iff bit_not_iff by auto
qed

lemma owf_registered:
  assumes u: "owf u" and i: "rt_object_get_information ty u = Some i" and free: "\<not> obj_linked r u"
  shows "owf (registered i r ty name u)"
proof -
  let ?v = "upd_obj r (\<lambda>x. x\<lparr>o_type := ty OR RT_Object_Class_Static, o_name := rt_strncpy name RT_NAME_MAX\<rparr>) u"
  have il: "i < length (container u)" "info_type (container u ! i) = ty"
    using info_index_Some i by (auto simp: rt_object_get_information_def)
  then have "ty AND NOT 0x80 = ty"
    using u nth_mem by (fastforce simp: owf_def)
  then have ty: "(ty OR 0x80) AND NOT 0x80 = ty"
    by (rule type_static_bits)
  have v: "owf ?v" "\<not> obj_linked r ?v"
    using owf_upd_obj_free [OF u free] free by (auto simp: obj_linked_def)
  show ?thesis
  proof (rule owf_obj_link [OF v(1) _ v(2)])
    show "obj_link i r ?v = Some (registered i r ty name u)"
      using v(2) by (simp add: obj_link_def registered_def info_objects_def)
    show "o_type (objs ?v r) AND NOT RT_Object_Class_Static = info_type (container ?v ! i)"
      using ty il by simp
  qed (use il in simp_all)
qed

lemma rt_object_find_eq:
  assumes "swf {} s" and "not_in_interrupt s" and "ty \<le> RT_Object_Class_Unknown" and "rt_object_get_information ty s = Some i"
  obtains u where "rt_object_find (Some name) ty s = Some (find_named s name (info_objects s i), u)" "swf {} u" "sched_only s u"
proof -
  obtain u where u: "rt_exit_critical (rt_enter_critical s) = Some u" "swf {} u"
    using rt_exit_critical_ok [of "rt_enter_critical s"] assms(1) by (auto simp: okt_def)
  have so: "sched_only s u"
    using sched_only_trans [OF _ rt_exit_critical_sched_only [OF u(1)], of s] by (simp add: rt_enter_critical_def)
  have "find_named (rt_enter_critical s) name rs = find_named s name rs" for rs
    by (induction rs) (auto simp: rt_enter_critical_def)
  then have "rt_object_find (Some name) ty s = Some (find_named s name (info_objects s i), u)"
    using assms u by (auto simp: rt_object_find_def not_less rt_object_get_information_def rt_enter_critical_def info_objects_def Let_def)
  then show thesis using u so by (intro that)
qed

lemma find_named_in: "find_named s name rs = Some r \<Longrightarrow> r \<in> set rs"
  by (induction rs) (auto split: if_splits)

lemma rt_object_find_linked:
  assumes "rt_object_find n ty s = Some (Some r, s3)"
  shows "obj_linked r s"
proof -
  obtain k where k: "rt_object_get_information ty (rt_enter_critical s) = Some k"
    and "find_named (rt_enter_critical s) (the n) (info_objects (rt_enter_critical s) k) = Some r"
    using assms by (auto simp: rt_object_find_def Let_def bind_eq_Some_conv split: if_splits)
  then have "r \<in> set (info_objects s k)"
    using find_named_in by (fastforce simp: info_objects_def rt_enter_critical_def)
  then show ?thesis
    using info_index_Some [of ty "container s" k] k
    by (auto simp: obj_linked_iff rt_object_get_information_def rt_enter_critical_def)
qed

section \<open>The state at reset\<close>

definition kernel_reset :: "(u8 \<Rightarrow> nat) \<Rightarrow> 'h \<Rightarrow> 'h kernel" where
  "kernel_reset size_of h = (zero_kernel h)\<lparr>container := rt_object_container size_of\<rparr>"

lemma kernel_reset_ok: "swf {} (kernel_reset size_of h)" "owf (kernel_reset size_of h)"
  by (simp_all add: kernel_reset_def swf_zero_kernel) (simp add: owf_def rt_object_container_def)

section \<open>Properties\<close>

text \<open>
  Registering and looking up: on a well-formed kernel \<^verbatim>\<open>rt_object_init\<close> of an object that is not yet
  registered returns, keeps the invariants, and from then on \<^verbatim>\<open>rt_object_find\<close> with any name that agrees on the
  first \<^verbatim>\<open>RT_NAME_MAX\<close> characters returns this object, even when an older object of the same class has the
  same name: uniqueness of names is not enforced.
\<close>

theorem rt_object_init_find:
  assumes s: "swf {} s" "owf s" and i: "rt_object_get_information ty s = Some i" and ty: "ty \<le> RT_Object_Class_Unknown"
    and free: "\<not> obj_linked r s" and irq: "not_in_interrupt s"
  shows "\<exists>s'. rt_object_init r ty name s = Some s' \<and> swf {} s' \<and> owf s' \<and>
    (\<forall>n. take RT_NAME_MAX (cstr n) = take RT_NAME_MAX (cstr name) \<longrightarrow> (\<exists>s''. rt_object_find (Some n) ty s' = Some (Some r, s'')))"
proof -
  obtain u where u: "rt_object_init r ty name s = Some (registered i r ty name u)" "swf {} u" "sched_only s u"
    using rt_object_init_eq [OF s(1) i free] by metis
  let ?v = "registered i r ty name u"
  have iu: "rt_object_get_information ty u = Some i" "\<not> obj_linked r u" "owf u"
    using i free s(2) sched_onlyD [OF u(3)] obj_linked_cong [of u s] owf_cong [of u s]
    by (simp_all add: rt_object_get_information_def)
  have v: "swf {} ?v" "owf ?v" "rt_object_get_information ty ?v = Some i" "not_in_interrupt ?v"
    using u irq iu sched_onlyD(6) [OF u(3)] by (auto simp: registered_view not_in_interrupt_def intro: owf_registered)
  have "i < length (container u)" using info_index_Some iu(1) by (auto simp: rt_object_get_information_def)
  then have ob: "info_objects ?v i = r # info_objects u i" "o_name (objs ?v r) = rt_strncpy name 8"
    by (simp_all add: registered_def info_objects_def)
  have "\<exists>s''. rt_object_find (Some n) ty ?v = Some (Some r, s'')" if "take 8 (cstr n) = take 8 (cstr name)" for n
  proof -
    have "find_named ?v n (info_objects ?v i) = Some r"
      using that by (simp add: ob rt_strncmp_eq_0 cstr_rt_strncpy)
    then show ?thesis
      using rt_object_find_eq [OF v(1,4) ty v(3), of n] by metis
  qed
  then show ?thesis
    using u(1) v by auto
qed

theorem rt_object_init_find_witness:
  "\<exists>s' s''. rt_object_init (Obj 5) RT_Object_Class_Semaphore ''heap_lock'' (kernel_reset (\<lambda>_. 4) ()) = Some s' \<and>
     rt_object_find (Some ''heap_loc'') RT_Object_Class_Semaphore s' = Some (Some (Obj 5), s'')"
proof -
  have "take 8 (cstr ''heap_loc'') = take 8 (cstr ''heap_lock'')" by simp
  then show ?thesis
    using rt_object_init_find [OF kernel_reset_ok, of RT_Object_Class_Semaphore "\<lambda>_. 4" "()" 1 "Obj 5" "''heap_lock''"]
    by (auto simp: kernel_reset_def rt_object_get_information_def rt_object_container_def obj_linked_def not_in_interrupt_def
      zero_kernel_def)
qed

text \<open>
  \<^verbatim>\<open>rt_object_detach\<close> undoes the registration: after \<^verbatim>\<open>rt_object_init\<close> and \<^verbatim>\<open>rt_object_detach\<close> of the same
  object every container list is what it was before, the invariants hold, and no lookup returns the object.
\<close>

theorem rt_object_detach_undo:
  assumes s: "swf {} s" "owf s" and i: "rt_object_get_information ty s = Some i"
    and free: "\<not> obj_linked r s" and r: "r \<noteq> Obj RT_NULL"
  shows "\<exists>s' s''. rt_object_init r ty name s = Some s' \<and> rt_object_detach r s' = Some s'' \<and> container s'' = container s \<and>
    swf {} s'' \<and> owf s'' \<and> (\<forall>n ty' x s3. rt_object_find n ty' s'' = Some (x, s3) \<longrightarrow> x \<noteq> Some r)"
proof -
  obtain u where u: "rt_object_init r ty name s = Some (registered i r ty name u)" "swf {} u" "sched_only s u"
    using rt_object_init_eq [OF s(1) i free] by metis
  let ?v = "registered i r ty name u"
  let ?w = "obj_unlink r (upd_obj r (\<lambda>r. r\<lparr>o_type := 0\<rparr>) ?v)"
  have d: "rt_object_detach r ?v = Some ?w" using r by (simp add: rt_object_detach_def Let_def)
  have iu: "rt_object_get_information ty u = Some i" "\<not> obj_linked r u" "owf u"
    using i free s(2) sched_onlyD [OF u(3)] obj_linked_cong [of u s] owf_cong [of u s]
    by (simp_all add: rt_object_get_information_def)
  have "i < length (container u)" using info_index_Some iu(1) by (auto simp: rt_object_get_information_def)
  then have c: "container ?w = container u"
    using unlink_link_container [of i u r "u\<lparr>container := container ?v\<rparr>"] iu(2)
    by (simp add: obj_link_def registered_def obj_unlink_def info_objects_def)
  have "owf (obj_unlink r ?v)" by (intro owf_obj_unlink owf_registered iu)
  then have w: "owf ?w" "swf {} ?w"
    using u(2) by (auto simp: upd_obj_unlink registered_view intro!: owf_upd_obj_free) (simp add: obj_unlink_def registered_view)
  have "x \<noteq> Some r" if "rt_object_find n ty' ?w = Some (x, s3)" for n ty' x s3
    using rt_object_find_linked [of n ty' ?w r s3] that by auto
  then show ?thesis
    using u(1) d c w sched_onlyD(2) [OF u(3)] by auto
qed

theorem rt_object_detach_undo_witness:
  "\<exists>s' s''. rt_object_init (Obj 5) RT_Object_Class_Event ''ev'' (kernel_reset (\<lambda>_. 4) ()) = Some s' \<and>
     rt_object_detach (Obj 5) s' = Some s'' \<and> container s'' = rt_object_container (\<lambda>_. 4)"
  using rt_object_detach_undo [OF kernel_reset_ok, of RT_Object_Class_Event "\<lambda>_. 4" "()" 3 "Obj 5" "''ev''"]
  by (auto simp: kernel_reset_def rt_object_get_information_def rt_object_container_def obj_linked_def zero_kernel_def)

end
