(* ===== verification/RT_Timer.thy ===== *)
theory RT_Timer
  imports RT_Object
begin

text \<open>
  The hard timers of \<^verbatim>\<open>src/timer.c\<close> with \<^verbatim>\<open>RT_TIMER_SKIP_LIST_LEVEL\<close> 1: one list, sorted by expiry, with
  wrapped tick arithmetic. The loop of \<^verbatim>\<open>rt_timer_check\<close> runs on fuel; the theorems say how much is enough and
  when none is. Timeout functions are called through a parameter \<open>cb\<close>.
\<close>

section \<open>Operations\<close>

definition timer_init :: "objref \<Rightarrow> timeout_fn \<Rightarrow> u32 \<Rightarrow> u8 \<Rightarrow> 'h kernel \<Rightarrow> 'h kernel option" where
  "timer_init timer timeout time flag s = do {
     let s = upd_obj timer (\<lambda>r. r\<lparr>o_flag := flag\<rparr>) s;
     let s = upd_obj timer (\<lambda>r. r\<lparr>o_flag := o_flag r AND NOT RT_TIMER_FLAG_ACTIVATED\<rparr>) s;
     let s = upd_timer timer (\<lambda>r. r\<lparr>tm_func := timeout, tm_timeout := 0, tm_init := time\<rparr>) s;
     mem_ok (timer \<notin> set (timer_list s));
     Some s }"

definition rt_timer_list_next_timeout :: "'h kernel \<Rightarrow> u32" where
  "rt_timer_list_next_timeout s =
    (case timer_list s of [] \<Rightarrow> RT_TICK_MAX | t # _ \<Rightarrow> tm_timeout (timers s t))"

definition timer_remove :: "objref \<Rightarrow> 'h kernel \<Rightarrow> 'h kernel" where
  "timer_remove timer s = s\<lparr>timer_list := removeAll timer (timer_list s)\<rparr>"

definition rt_timer_init :: "objref \<Rightarrow> string \<Rightarrow> timeout_fn \<Rightarrow> u32 \<Rightarrow> u8 \<Rightarrow> 'h kernel \<Rightarrow> 'h kernel option" where
  "rt_timer_init timer name timeout time flag s = do {
     RT_ASSERT (timer \<noteq> Obj RT_NULL);
     s \<leftarrow> rt_object_init timer RT_Object_Class_Timer name s;
     timer_init timer timeout time flag s }"

text \<open>\<^verbatim>\<open>RT_ASSERT(timer != RT_NULL)\<close> and the class check that opens every operation on a timer.\<close>

definition timer_check_type :: "objref \<Rightarrow> 'h kernel \<Rightarrow> unit option" where
  "timer_check_type timer s = do {
     RT_ASSERT (timer \<noteq> Obj RT_NULL);
     ty \<leftarrow> rt_object_get_type timer s;
     RT_ASSERT (ty = RT_Object_Class_Timer) }"

definition rt_timer_detach :: "objref \<Rightarrow> 'h kernel \<Rightarrow> (rt_err_t \<times> 'h kernel) option" where
  "rt_timer_detach timer s = do {
     timer_check_type timer s;
     sys \<leftarrow> rt_object_is_systemobject timer s;
     RT_ASSERT sys;
     let s = timer_remove timer s;
     s \<leftarrow> rt_object_detach timer s;
     Some (RT_EOK, s) }"

definition rt_timer_create ::
    "'h heap_ops \<Rightarrow> string \<Rightarrow> timeout_fn \<Rightarrow> u32 \<Rightarrow> u8 \<Rightarrow> 'h kernel \<Rightarrow> (ptr \<times> 'h kernel) option" where
  "rt_timer_create H name timeout time flag s = do {
     (timer, s) \<leftarrow> rt_object_allocate H RT_Object_Class_Timer name s;
     if timer = RT_NULL then Some (RT_NULL, s)
     else do {
       s \<leftarrow> timer_init (Obj timer) timeout time flag s;
       Some (timer, s) } }"

definition rt_timer_delete :: "'h heap_ops \<Rightarrow> ptr \<Rightarrow> 'h kernel \<Rightarrow> (rt_err_t \<times> 'h kernel) option" where
  "rt_timer_delete H timer s = do {
     timer_check_type (Obj timer) s;
     sys \<leftarrow> rt_object_is_systemobject (Obj timer) s;
     RT_ASSERT (\<not> sys);
     let s = timer_remove (Obj timer) s;
     s \<leftarrow> rt_object_delete H timer s;
     Some (RT_EOK, s) }"

text \<open>
  The search of \<^verbatim>\<open>rt_timer_start\<close> along the list and the insertion after the node where it stops: past timers with
  the same timeout, up to the first timer that expires later.
\<close>

fun timer_insert :: "(objref \<Rightarrow> u32) \<Rightarrow> objref \<Rightarrow> objref list \<Rightarrow> objref list" where
  "timer_insert tick timer [] = [timer]"
| "timer_insert tick timer (t # ts) =
     (if tick t - tick timer = 0 then t # timer_insert tick timer ts
      else if tick t - tick timer < RT_TICK_HALF then timer # t # ts
      else t # timer_insert tick timer ts)"

definition rt_timer_start :: "objref \<Rightarrow> 'h kernel \<Rightarrow> (rt_err_t \<times> 'h kernel) option" where
  "rt_timer_start timer s = do {
     timer_check_type timer s;
     let s = timer_remove timer s;
     let s = upd_obj timer (\<lambda>r. r\<lparr>o_flag := o_flag r AND NOT RT_TIMER_FLAG_ACTIVATED\<rparr>) s;
     RT_ASSERT (tm_init (timers s timer) < RT_TICK_HALF);
     let s = upd_timer timer (\<lambda>r. r\<lparr>tm_timeout := rt_tick_get s + tm_init r\<rparr>) s;
     let s = s\<lparr>random_nr := random_nr s + 1\<rparr>;
     let s = s\<lparr>timer_list := timer_insert (\<lambda>t. tm_timeout (timers s t)) timer (timer_list s)\<rparr>;
     let s = upd_obj timer (\<lambda>r. r\<lparr>o_flag := o_flag r OR RT_TIMER_FLAG_ACTIVATED\<rparr>) s;
     Some (RT_EOK, s) }"

definition rt_timer_stop :: "objref \<Rightarrow> 'h kernel \<Rightarrow> (rt_err_t \<times> 'h kernel) option" where
  "rt_timer_stop timer s = do {
     timer_check_type timer s;
     if o_flag (objs s timer) AND RT_TIMER_FLAG_ACTIVATED = 0 then Some (- RT_ERROR, s)
     else do {
       let s = timer_remove timer s;
       let s = upd_obj timer (\<lambda>r. r\<lparr>o_flag := o_flag r AND NOT RT_TIMER_FLAG_ACTIVATED\<rparr>) s;
       Some (RT_EOK, s) } }"

abbreviation (input) RT_TIMER_CTRL_SET_TIME :: int where "RT_TIMER_CTRL_SET_TIME \<equiv> 0"
abbreviation (input) RT_TIMER_CTRL_GET_TIME :: int where "RT_TIMER_CTRL_GET_TIME \<equiv> 1"
abbreviation (input) RT_TIMER_CTRL_SET_ONESHOT :: int where "RT_TIMER_CTRL_SET_ONESHOT \<equiv> 2"
abbreviation (input) RT_TIMER_CTRL_SET_PERIODIC :: int where "RT_TIMER_CTRL_SET_PERIODIC \<equiv> 3"

text \<open>The value behind \<^verbatim>\<open>arg\<close> is passed in and returned.\<close>

definition rt_timer_control :: "objref \<Rightarrow> int \<Rightarrow> u32 \<Rightarrow> 'h kernel \<Rightarrow> (rt_err_t \<times> u32 \<times> 'h kernel) option" where
  "rt_timer_control timer cmd arg s = do {
     timer_check_type timer s;
     if cmd = RT_TIMER_CTRL_GET_TIME then Some (RT_EOK, tm_init (timers s timer), s)
     else if cmd = RT_TIMER_CTRL_SET_TIME then Some (RT_EOK, arg, upd_timer timer (\<lambda>r. r\<lparr>tm_init := arg\<rparr>) s)
     else if cmd = RT_TIMER_CTRL_SET_ONESHOT then
       Some (RT_EOK, arg, upd_obj timer (\<lambda>r. r\<lparr>o_flag := o_flag r AND NOT RT_TIMER_FLAG_PERIODIC\<rparr>) s)
     else if cmd = RT_TIMER_CTRL_SET_PERIODIC then
       Some (RT_EOK, arg, upd_obj timer (\<lambda>r. r\<lparr>o_flag := o_flag r OR RT_TIMER_FLAG_PERIODIC\<rparr>) s)
     else Some (RT_EOK, arg, s) }"

text \<open>What \<^verbatim>\<open>rt_timer_check\<close> does with the expired timer at the head of the list.\<close>

type_synonym 'h callback = "timeout_fn \<Rightarrow> 'h kernel \<Rightarrow> 'h kernel option"

definition timer_flag :: "objref \<Rightarrow> 'h kernel \<Rightarrow> u8 \<Rightarrow> bool" where
  "timer_flag t s m \<longleftrightarrow> o_flag (objs s t) AND m \<noteq> 0"

definition timer_restart :: "objref \<Rightarrow> 'h kernel \<Rightarrow> 'h kernel option" where
  "timer_restart t s =
    (if timer_flag t s RT_TIMER_FLAG_PERIODIC \<and> timer_flag t s RT_TIMER_FLAG_ACTIVATED then do {
       let s = upd_obj t (\<lambda>r. r\<lparr>o_flag := o_flag r AND NOT RT_TIMER_FLAG_ACTIVATED\<rparr>) s;
       (_, s) \<leftarrow> rt_timer_start t s;
       Some s }
     else Some (upd_obj t (\<lambda>r. r\<lparr>o_flag := o_flag r AND NOT RT_TIMER_FLAG_ACTIVATED\<rparr>) s))"

fun timer_check_loop :: "nat \<Rightarrow> 'h callback \<Rightarrow> u32 \<Rightarrow> 'h kernel \<Rightarrow> 'h kernel option" where
  "timer_check_loop 0 cb current_tick s = None"
| "timer_check_loop (Suc fuel) cb current_tick s =
     (case timer_list s of
        [] \<Rightarrow> Some s
      | t # _ \<Rightarrow>
          if current_tick - tm_timeout (timers s t) < RT_TICK_HALF then do {
            let s = timer_remove t s;
            s \<leftarrow> cb (tm_func (timers s t)) s;
            let current_tick = rt_tick_get s;
            s \<leftarrow> timer_restart t s;
            timer_check_loop fuel cb current_tick s }
          else Some s)"

definition rt_timer_check :: "nat \<Rightarrow> 'h callback \<Rightarrow> 'h kernel \<Rightarrow> 'h kernel option" where
  "rt_timer_check fuel cb s = timer_check_loop fuel cb (rt_tick_get s) s"

definition rt_timer_next_timeout_tick :: "'h kernel \<Rightarrow> u32" where
  "rt_timer_next_timeout_tick s = rt_timer_list_next_timeout s"

definition rt_system_timer_init :: "'h kernel \<Rightarrow> 'h kernel" where
  "rt_system_timer_init s = s\<lparr>timer_list := []\<rparr>"

section \<open>Wrapped ticks\<close>

text \<open>The number of ticks from now to the expiry of a timer.\<close>

definition due :: "'h kernel \<Rightarrow> objref \<Rightarrow> nat" where
  "due s t = unat (tm_timeout (timers s t) - ticks s)"

abbreviation (input) HALF :: nat where "HALF \<equiv> 0x7FFFFFFF"

lemma wrapped_later:
  fixes a b n :: u32
  assumes "unat (a - n) < HALF" and "unat (b - n) < HALF"
  shows "a - b \<noteq> 0 \<and> a - b < RT_TICK_HALF \<longleftrightarrow> unat (b - n) < unat (a - n)"
proof -
  define x y where "x = a - n" and "y = b - n"
  have ab: "a - b = x - y" by (simp add: x_def y_def)
  have x: "unat x < HALF" and y: "unat y < HALF" using assms by (simp_all add: x_def y_def)
  have lt: "x - y < RT_TICK_HALF \<longleftrightarrow> unat (x - y) < HALF" by (simp add: word_less_nat_alt)
  have ne: "x - y \<noteq> 0 \<longleftrightarrow> unat (x - y) \<noteq> 0" by (simp add: unat_eq_0)
  show ?thesis
    unfolding ab lt ne using x y by (auto simp: x_def [symmetric] y_def [symmetric] unat_sub_if' split: if_splits)
qed

lemma wrapped_expired:
  fixes a n :: u32
  assumes "unat (a - n) < HALF"
  shows "n - a < RT_TICK_HALF \<longleftrightarrow> unat (a - n) = 0"
proof -
  define x where "x = a - n"
  have na: "n - a = 0 - x" by (simp add: x_def)
  have x: "unat x < HALF" using assms by (simp add: x_def)
  have lt: "0 - x < RT_TICK_HALF \<longleftrightarrow> unat (0 - x) < HALF" by (simp only: word_less_nat_alt) simp
  have "unat (0 - x) < HALF \<longleftrightarrow> unat x = 0"
    unfolding unat_sub_if' using x by auto
  then show ?thesis
    unfolding na lt by (simp add: x_def)
qed

text \<open>
  The timer list invariant: linked timers are timer objects, marked active, expire within half the tick range,
  and are sorted by expiry.
\<close>

definition timer_obj :: "'h kernel \<Rightarrow> objref \<Rightarrow> bool" where
  "timer_obj s t \<longleftrightarrow> t \<noteq> Obj RT_NULL \<and> o_type (objs s t) AND NOT RT_Object_Class_Static = RT_Object_Class_Timer"

definition timers_ok :: "'h kernel \<Rightarrow> bool" where
  "timers_ok s \<longleftrightarrow> distinct (timer_list s) \<and> sorted (map (due s) (timer_list s)) \<and>
     (\<forall>t \<in> set (timer_list s). due s t < HALF \<and> timer_obj s t \<and> timer_flag t s RT_TIMER_FLAG_ACTIVATED)"

lemma timer_check_type_eq: "timer_check_type t s = (if timer_obj s t then Some () else None)"
  by (auto simp: timer_check_type_def timer_obj_def rt_object_get_type_def RT_ASSERT_def)

lemma timer_insert_split:
  assumes "\<And>t. t \<in> set ts \<Longrightarrow> unat (tick t - n) < HALF" and "unat (tick timer - n) < HALF"
  shows "timer_insert tick timer ts =
    takeWhile (\<lambda>t. unat (tick t - n) \<le> unat (tick timer - n)) ts @ timer # dropWhile (\<lambda>t. unat (tick t - n) \<le> unat (tick timer - n)) ts"
  using assms
proof (induction ts)
  case Nil
  then show ?case by simp
next
  case (Cons t ts)
  have "tick t - tick timer \<noteq> 0 \<and> tick t - tick timer < RT_TICK_HALF \<longleftrightarrow> \<not> unat (tick t - n) \<le> unat (tick timer - n)"
    using wrapped_later [of "tick t" n "tick timer"] Cons.prems by (auto simp: not_le)
  with Cons show ?case by auto
qed

lemma sorted_insert_split:
  assumes "sorted (map f xs)"
  shows "sorted (map f (takeWhile (\<lambda>t. f t \<le> k) xs @ dropWhile (\<lambda>t. f t \<le> k) xs))"
    and "t \<in> set (takeWhile (\<lambda>t. f t \<le> k) xs) \<Longrightarrow> f t \<le> k"
    and "t \<in> set (dropWhile (\<lambda>t. f t \<le> k) xs) \<Longrightarrow> k < f t"
proof -
  show "sorted (map f (takeWhile (\<lambda>t. f t \<le> k) xs @ dropWhile (\<lambda>t. f t \<le> k) xs))" using assms by simp
  show "t \<in> set (takeWhile (\<lambda>t. f t \<le> k) xs) \<Longrightarrow> f t \<le> k" by (auto dest: set_takeWhileD)
  show "t \<in> set (dropWhile (\<lambda>t. f t \<le> k) xs) \<Longrightarrow> k < f t"
    using assms by (induction xs) (auto split: if_splits intro: less_le_trans simp: not_le)
qed

lemma sorted_insert_mid:
  "sorted (map f (as @ bs)) \<Longrightarrow> (\<And>t. t \<in> set as \<Longrightarrow> f t \<le> f x) \<Longrightarrow> (\<And>t. t \<in> set bs \<Longrightarrow> f x \<le> f t) \<Longrightarrow>
   sorted (map f (as @ x # bs))"
  by (auto simp: sorted_append)

lemma sorted_removeAll: "sorted (map f xs) \<Longrightarrow> sorted (map f (removeAll x xs))"
  by (induction xs) auto

section \<open>Starting a timer\<close>

lemma flag_bits:
  "(x AND NOT 1 OR 1) AND 1 \<noteq> (0 :: u8)" "(x OR 1) AND 1 \<noteq> (0 :: u8)" "(x AND NOT 1) AND 1 = (0 :: u8)"
proof -
  have "bit ((x OR 1) AND 1) 0" for x :: u8 by (simp add: bit_simps)
  then show "(x AND NOT 1 OR 1) AND 1 \<noteq> (0 :: u8)" "(x OR 1) AND 1 \<noteq> (0 :: u8)" by (metis bit_0_eq bot_apply bot_bool_def)+
  show "(x AND NOT 1) AND 1 = (0 :: u8)" by (rule bit_word_eqI) (auto simp: bit_simps)
qed

lemma flag_periodic_keep: "((x AND NOT 1) AND NOT 1 OR 1) AND 2 = x AND (2 :: u8)"
proof (rule bit_word_eqI)
  have "bit (2 :: u8) n \<Longrightarrow> n = 1" for n using bit_exp_iff [of 1 n, where ?'a = u8] by simp
  then show "bit (((x AND NOT 1) AND NOT 1 OR 1) AND 2) n = bit (x AND 2) n" if "n < LENGTH(8)" for n
    using that by (auto simp: bit_simps)
qed

text \<open>The state in which \<^verbatim>\<open>rt_timer_start\<close> leaves the kernel.\<close>

definition timer_started :: "objref \<Rightarrow> 'h kernel \<Rightarrow> 'h kernel" where
  "timer_started t s =
    (let u = s\<lparr>timers := (timers s)(t := (timers s t)\<lparr>tm_timeout := ticks s + tm_init (timers s t)\<rparr>), random_nr := random_nr s + 1\<rparr>
     in u\<lparr>timer_list := timer_insert (\<lambda>x. tm_timeout (timers u x)) t (removeAll t (timer_list s)),
          objs := (objs s)(t := (objs s t)\<lparr>o_flag := (o_flag (objs s t) AND NOT RT_TIMER_FLAG_ACTIVATED) OR RT_TIMER_FLAG_ACTIVATED\<rparr>)\<rparr>)"

lemma rt_timer_start_eq:
  "rt_timer_start t s = (if timer_obj s t \<and> tm_init (timers s t) < RT_TICK_HALF then Some (RT_EOK, timer_started t s) else None)"
  by (auto simp: rt_timer_start_def timer_check_type_eq Let_def timer_remove_def timer_started_def upd_obj_def upd_timer_def
      rt_tick_get_def RT_ASSERT_def cong: if_cong)

lemma timer_started_view:
  "tm_timeout (timers (timer_started t s) x) = (if x = t then ticks s + tm_init (timers s t) else tm_timeout (timers s x))"
  "tm_init (timers (timer_started t s) x) = tm_init (timers s x)" "tm_func (timers (timer_started t s) x) = tm_func (timers s x)"
  "ticks (timer_started t s) = ticks s" "threads (timer_started t s) = threads s" "tlists (timer_started t s) = tlists s"
  "ready_group (timer_started t s) = ready_group s" "cur (timer_started t s) = cur s" "container (timer_started t s) = container s"
  "o_type (objs (timer_started t s) x) = o_type (objs s x)" "o_name (objs (timer_started t s) x) = o_name (objs s x)"
  "lock_nest (timer_started t s) = lock_nest s" "intr_nest (timer_started t s) = intr_nest s"
  "timer_flag x (timer_started t s) m = (if x = t then (o_flag (objs s t) AND NOT 1 OR 1) AND m \<noteq> 0 else timer_flag x s m)"
  "x \<noteq> t \<Longrightarrow> objs (timer_started t s) x = objs s x" "x \<noteq> t \<Longrightarrow> timers (timer_started t s) x = timers s x"
  by (simp_all add: timer_started_def Let_def timer_flag_def)

lemma timer_list_started:
  assumes s: "timers_ok s" and i: "tm_init (timers s t) < RT_TICK_HALF"
  defines "d \<equiv> unat (tm_init (timers s t))"
  shows "timer_list (timer_started t s) =
      takeWhile (\<lambda>x. due s x \<le> d) (removeAll t (timer_list s)) @ t # dropWhile (\<lambda>x. due s x \<le> d) (removeAll t (timer_list s))"
proof -
  let ?tick = "\<lambda>x. if x = t then ticks s + tm_init (timers s t) else tm_timeout (timers s x)"
  have d: "unat (?tick t - ticks s) = d" by (simp add: d_def)
  have "timer_insert ?tick t (removeAll t (timer_list s)) =
      takeWhile (\<lambda>x. unat (?tick x - ticks s) \<le> unat (?tick t - ticks s)) (removeAll t (timer_list s)) @ t #
      dropWhile (\<lambda>x. unat (?tick x - ticks s) \<le> unat (?tick t - ticks s)) (removeAll t (timer_list s))"
  proof (rule timer_insert_split)
    show "unat (?tick t - ticks s) < HALF" using i unfolding d d_def by (simp add: word_less_nat_alt)
    show "unat (?tick x - ticks s) < HALF" if "x \<in> set (removeAll t (timer_list s))" for x
      using s that by (auto simp: timers_ok_def due_def)
  qed
  moreover have "takeWhile (\<lambda>x. unat (?tick x - ticks s) \<le> d) (removeAll t (timer_list s)) = takeWhile (\<lambda>x. due s x \<le> d) (removeAll t (timer_list s))"
    by (rule takeWhile_cong) (auto simp: due_def)
  moreover have "dropWhile (\<lambda>x. unat (?tick x - ticks s) \<le> d) (removeAll t (timer_list s)) = dropWhile (\<lambda>x. due s x \<le> d) (removeAll t (timer_list s))"
    by (rule dropWhile_cong) (auto simp: due_def)
  ultimately show ?thesis
    unfolding d by (simp add: timer_started_def Let_def if_distrib cong: if_cong)
qed

lemma due_timer_started: "due (timer_started t s) x = (if x = t then unat (tm_init (timers s t)) else due s x)"
  by (simp add: due_def timer_started_view)

lemma timers_ok_started:
  assumes s: "timers_ok s" and i: "tm_init (timers s t) < RT_TICK_HALF" and t: "timer_obj s t"
  shows "timers_ok (timer_started t s)"
proof -
  let ?d = "unat (tm_init (timers s t))"
  let ?L = "removeAll t (timer_list s)"
  let ?A = "takeWhile (\<lambda>x. due s x \<le> ?d) ?L" and ?B = "dropWhile (\<lambda>x. due s x \<le> ?d) ?L"
  have L: "timer_list (timer_started t s) = ?A @ t # ?B" by (rule timer_list_started [OF s i])
  have ab: "set ?A \<union> set ?B = set (timer_list s) - {t}" "distinct (?A @ ?B)"
  proof -
    have "set (?A @ ?B) = set (timer_list s) - {t}" by (simp only: takeWhile_dropWhile_id set_removeAll)
    then show "set ?A \<union> set ?B = set (timer_list s) - {t}" by (simp only: set_append)
    show "distinct (?A @ ?B)" using s by (simp only: takeWhile_dropWhile_id) (simp add: timers_ok_def distinct_removeAll)
  qed
  have so: "sorted (map (due s) ?L)" using s by (auto simp: timers_ok_def intro: sorted_removeAll)
  have eq: "map (due (timer_started t s)) xs = map (due s) xs" if "t \<notin> set xs" for xs
    using that by (auto simp: due_timer_started)
  have mapL: "map (due (timer_started t s)) ?L = map (due s) ?L" by (rule eq) simp
  have nt: "t \<notin> set ?A" "t \<notin> set ?B" using ab by auto
  have "sorted (map (due (timer_started t s)) (?A @ t # ?B))"
  proof (rule sorted_insert_mid)
    show "sorted (map (due (timer_started t s)) (?A @ ?B))"
      using so by (simp only: takeWhile_dropWhile_id mapL)
    show "due (timer_started t s) x \<le> due (timer_started t s) t" if "x \<in> set ?A" for x
      using that nt sorted_insert_split(2) [OF so that] by (auto simp: due_timer_started)
    show "due (timer_started t s) t \<le> due (timer_started t s) x" if "x \<in> set ?B" for x
      using that nt sorted_insert_split(3) [OF so that] by (auto simp: due_timer_started)
  qed
  moreover have "due (timer_started t s) x < HALF" "timer_obj (timer_started t s) x" "timer_flag x (timer_started t s) 1"
    if "x \<in> set (?A @ t # ?B)" for x
  proof -
    have "x = t \<or> x \<in> set (timer_list s)" using that ab by auto
    then show "due (timer_started t s) x < HALF" "timer_obj (timer_started t s) x" "timer_flag x (timer_started t s) 1"
      using s i t flag_bits(1) by (auto simp: timers_ok_def due_timer_started timer_obj_def timer_started_view word_less_nat_alt)
  qed
  moreover have "distinct (?A @ t # ?B)"
    using ab(2) nt by (simp only: distinct_append distinct.simps list.set) blast
  ultimately show ?thesis
    unfolding timers_ok_def L by blast
qed

section \<open>What timer and object operations leave alone\<close>

text \<open>Only object headers, the container, timers and the heap change.\<close>

definition obj_only :: "'h kernel \<Rightarrow> 'h kernel \<Rightarrow> bool" where
  "obj_only s s' \<longleftrightarrow>
     s' = s\<lparr>objs := objs s', container := container s', timers := timers s', timer_list := timer_list s',
            random_nr := random_nr s', heap := heap s'\<rparr>"

lemma obj_onlyD:
  assumes "obj_only s s'"
  shows "threads s' = threads s" "tlists s' = tlists s" "ready_group s' = ready_group s" "cur s' = cur s"
    "cur_prio s' = cur_prio s" "lock_nest s' = lock_nest s" "intr_nest s' = intr_nest s" "ticks s' = ticks s"
    "errno_var s' = errno_var s" "idle_hook_list s' = idle_hook_list s" "sems s' = sems s" "mutexes s' = mutexes s"
    "events s' = events s" "mailboxes s' = mailboxes s" "mqs s' = mqs s" "mempools s' = mempools s" "pool_mem s' = pool_mem s"
    "tstat s' t = tstat s t" "tprio s' t = tprio s t" "terror s' t = terror s t" "swf X s' = swf X s"
proof -
  obtain a b c d e f where "s' = s\<lparr>objs := a, container := b, timers := c, timer_list := d, random_nr := e, heap := f\<rparr>"
    using assms unfolding obj_only_def by blast
  then show "threads s' = threads s" "tlists s' = tlists s" "ready_group s' = ready_group s" "cur s' = cur s"
    "cur_prio s' = cur_prio s" "lock_nest s' = lock_nest s" "intr_nest s' = intr_nest s" "ticks s' = ticks s"
    "errno_var s' = errno_var s" "idle_hook_list s' = idle_hook_list s" "sems s' = sems s" "mutexes s' = mutexes s"
    "events s' = events s" "mailboxes s' = mailboxes s" "mqs s' = mqs s" "mempools s' = mempools s" "pool_mem s' = pool_mem s"
    "tstat s' t = tstat s t" "tprio s' t = tprio s t" "terror s' t = terror s t" "swf X s' = swf X s"
    by (simp_all add: tstat_def tprio_def terror_def)
qed

lemma obj_only_refl [simp]: "obj_only s s"
  by (simp add: obj_only_def)

lemma obj_only_trans: "obj_only s s1 \<Longrightarrow> obj_only s1 s2 \<Longrightarrow> obj_only s s2"
  unfolding obj_only_def by (cases s; cases s1; cases s2) simp

lemma obj_only_prims:
  "obj_only s (upd_obj r f s)" "obj_only s (upd_timer r g s)" "obj_only s (obj_unlink r s)" "obj_only s (timer_remove r s)"
  "obj_only s (timer_started r s)" "obj_only s (s\<lparr>heap := h\<rparr>)"
  "obj_link i r s = Some s' \<Longrightarrow> obj_only s s'"
  by (auto simp: obj_only_def upd_obj_def upd_timer_def obj_unlink_def timer_remove_def timer_started_def obj_link_def Let_def
      bind_eq_Some_conv)

lemma rt_object_detach_obj_only: "rt_object_detach r s = Some s' \<Longrightarrow> obj_only s s'"
  by (auto simp: rt_object_detach_def Let_def bind_eq_Some_conv intro: obj_only_trans [OF obj_only_prims(1) obj_only_prims(3)])

lemma rt_object_delete_obj_only: "rt_object_delete H p s = Some s' \<Longrightarrow> obj_only s s'"
  by (auto simp: rt_object_delete_def Let_def bind_eq_Some_conv
      intro!: obj_only_trans [OF obj_only_prims(1) obj_only_trans [OF obj_only_prims(3) obj_only_prims(6)]])

lemma timer_obj_only:
  "rt_timer_start t s = Some (e, s') \<Longrightarrow> obj_only s s'"
  "rt_timer_stop t s = Some (e, s') \<Longrightarrow> obj_only s s'"
  "rt_timer_detach t s = Some (e, s') \<Longrightarrow> obj_only s s'"
  "rt_timer_control t cmd arg s = Some (e, a, s') \<Longrightarrow> obj_only s s'"
  "timer_init t tf time flag s = Some s' \<Longrightarrow> obj_only s s'"
proof -
  show "rt_timer_start t s = Some (e, s') \<Longrightarrow> obj_only s s'"
    using obj_only_prims(5) by (auto simp: rt_timer_start_eq split: if_splits)
  show "rt_timer_stop t s = Some (e, s') \<Longrightarrow> obj_only s s'"
    by (auto simp: rt_timer_stop_def Let_def bind_eq_Some_conv split: if_splits
        intro: obj_only_trans [OF obj_only_prims(4) obj_only_prims(1)])
  show "rt_timer_detach t s = Some (e, s') \<Longrightarrow> obj_only s s'"
    by (auto simp: rt_timer_detach_def Let_def bind_eq_Some_conv
        dest!: rt_object_detach_obj_only intro: obj_only_trans [OF obj_only_prims(4)])
  show "rt_timer_control t cmd arg s = Some (e, a, s') \<Longrightarrow> obj_only s s'"
    by (auto simp: rt_timer_control_def bind_eq_Some_conv obj_only_prims split: if_splits)
  show "timer_init t tf time flag s = Some s' \<Longrightarrow> obj_only s s'"
    by (auto simp: timer_init_def Let_def bind_eq_Some_conv
        intro!: obj_only_trans [OF obj_only_prims(1) obj_only_trans [OF obj_only_prims(1) obj_only_prims(2)]])
qed

text \<open>Stopping a thread's timer never fails on a timer object.\<close>

lemma rt_timer_stop_total: "timer_obj s t \<Longrightarrow> \<exists>e s'. rt_timer_stop t s = Some (e, s')"
  by (simp add: rt_timer_stop_def timer_check_type_eq Let_def)

section \<open>The check loop\<close>

text \<open>The reference for \<^verbatim>\<open>rt_timer_check\<close>: handle a given list of timers, once each, in order.\<close>

fun fire_timers :: "'h callback \<Rightarrow> objref list \<Rightarrow> 'h kernel \<Rightarrow> 'h kernel option" where
  "fire_timers cb [] s = Some s"
| "fire_timers cb (t # ts) s = do {
     s \<leftarrow> cb (tm_func (timers s t)) (timer_remove t s);
     s \<leftarrow> timer_restart t s;
     fire_timers cb ts s }"

text \<open>A timeout function that does not itself operate on timers or set the tick.\<close>

definition cb_frame :: "'h callback \<Rightarrow> bool" where
  "cb_frame cb \<longleftrightarrow> (\<forall>f s s'. cb f s = Some s' \<longrightarrow>
     timer_list s' = timer_list s \<and> timers s' = timers s \<and> objs s' = objs s \<and> ticks s' = ticks s)"

lemma timers_ok_cong:
  "timer_list s' = timer_list s \<Longrightarrow> timers s' = timers s \<Longrightarrow> objs s' = objs s \<Longrightarrow> ticks s' = ticks s \<Longrightarrow> timers_ok s' = timers_ok s"
  by (simp add: timers_ok_def due_def[abs_def] timer_obj_def timer_flag_def)

lemma timers_ok_remove: "timers_ok s \<Longrightarrow> timers_ok (timer_remove t s)"
  by (auto simp: timers_ok_def timer_remove_def due_def[abs_def] timer_obj_def timer_flag_def distinct_removeAll intro: sorted_removeAll)

lemma timers_ok_upd_free:
  "timers_ok s \<Longrightarrow> t \<notin> set (timer_list s) \<Longrightarrow> timers_ok (upd_obj t f s)"
  by (auto simp: timers_ok_def due_def[abs_def] timer_obj_def timer_flag_def)

lemma takeWhile_insert_later:
  assumes "t \<notin> set xs" "0 < d"
  shows "takeWhile (\<lambda>x. (if x = t then d else f x) = 0) (takeWhile (\<lambda>x. f x \<le> d) xs @ t # dropWhile (\<lambda>x. f x \<le> d) xs) =
    takeWhile (\<lambda>x. f x = (0::nat)) xs"
  using assms by (induction xs) auto

text \<open>One round of the loop leaves the other expired timers at the front of the list.\<close>

lemma timer_restart_expired:
  assumes s: "timers_ok s" and L: "timer_list s = t # ts"
    and u: "timer_list u = ts" "timers u = timers s" "objs u = objs s" "ticks u = ticks s"
    and i: "timer_flag t s RT_TIMER_FLAG_PERIODIC \<Longrightarrow> 0 < tm_init (timers s t) \<and> tm_init (timers s t) < RT_TICK_HALF"
  shows "\<exists>v. timer_restart t u = Some v \<and> timers_ok v \<and> ticks v = ticks s \<and>
    takeWhile (\<lambda>x. due v x = 0) (timer_list v) = takeWhile (\<lambda>x. due s x = 0) ts \<and>
    (\<forall>x. x \<noteq> t \<longrightarrow> objs v x = objs s x \<and> timers v x = timers s x)"
proof -
  let ?w = "upd_obj t (\<lambda>r. r\<lparr>o_flag := o_flag r AND NOT RT_TIMER_FLAG_ACTIVATED\<rparr>) u"
  have t: "t \<notin> set ts" "timer_obj s t" "timer_flag t s 1" using s L by (auto simp: timers_ok_def)
  have "timers_ok (timer_remove t s)" using s by (rule timers_ok_remove)
  then have "timers_ok u"
    using u L t by (subst timers_ok_cong [of u "timer_remove t s"]) (auto simp: timer_remove_def)
  then have w: "timers_ok ?w" using t u by (intro timers_ok_upd_free) auto
  have dw: "due ?w x = due s x" for x using u by (simp add: due_def)
  show ?thesis
  proof (cases "timer_flag t s RT_TIMER_FLAG_PERIODIC")
    case True
    have iw: "tm_init (timers ?w t) < RT_TICK_HALF" using i True u by simp
    have tw: "timer_obj ?w t" using t u by (simp add: timer_obj_def)
    have r: "timer_restart t u = Some (timer_started t ?w)"
      using True t u iw tw by (simp add: timer_restart_def timer_flag_def rt_timer_start_eq)
    have d0: "0 < unat (tm_init (timers ?w t))" using i True u by (simp add: word_less_nat_alt)
    have "removeAll t (timer_list ?w) = ts" using t u by simp
    note L' = timer_list_started [OF w iw, unfolded this]
    have "takeWhile (\<lambda>x. due (timer_started t ?w) x = 0) (timer_list (timer_started t ?w)) = takeWhile (\<lambda>x. due s x = 0) ts"
      using takeWhile_insert_later [OF t(1) d0, of "due ?w"] by (simp only: L' due_timer_started dw)
    then show ?thesis
      using r timers_ok_started [OF w iw tw] u
      by (intro exI [of _ "timer_started t ?w"] conjI) (simp_all add: timer_started_view)
  next
    case False
    then have "timer_restart t u = Some ?w" using u by (simp add: timer_restart_def timer_flag_def)
    then show ?thesis using w u dw by auto
  qed
qed

lemma timer_check_loop_eq:
  assumes cb: "cb_frame cb"
  shows "timers_ok s \<Longrightarrow> takeWhile (\<lambda>t. due s t = 0) (timer_list s) = es \<Longrightarrow> length es < fuel \<Longrightarrow>
    (\<And>t. t \<in> set es \<Longrightarrow> timer_flag t s RT_TIMER_FLAG_PERIODIC \<Longrightarrow> 0 < tm_init (timers s t) \<and> tm_init (timers s t) < RT_TICK_HALF) \<Longrightarrow>
    timer_check_loop fuel cb (ticks s) s = fire_timers cb es s \<and>
    okp (\<lambda>s'. timers_ok s' \<and> ticks s' = ticks s \<and> (\<forall>t \<in> set (timer_list s'). 0 < due s' t)) (fire_timers cb es s)"
proof (induction es arbitrary: s fuel)
  case Nil
  obtain f where f: "fuel = Suc f" using Nil.prems(3) by (cases fuel) auto
  show ?case
  proof (cases "timer_list s")
    case (Cons t ts)
    have "0 < due s t" and t: "due s t < HALF" using Nil.prems(1,2) Cons by (auto simp: timers_ok_def split: if_splits)
    then have "\<not> ticks s - tm_timeout (timers s t) < RT_TICK_HALF"
      using wrapped_expired [of "tm_timeout (timers s t)" "ticks s"] by (simp add: due_def)
    moreover have "0 < due s x" if "x \<in> set (timer_list s)" for x
      using Nil.prems(1) Cons \<open>0 < due s t\<close> that by (fastforce simp: timers_ok_def)
    ultimately show ?thesis using f Cons Nil.prems(1) by simp
  qed (use f Nil.prems(1) in simp)
next
  case (Cons t es)
  obtain f where f: "fuel = Suc f" "length es < f" using Cons.prems(3) by (cases fuel) auto
  obtain ts where L: "timer_list s = t # ts" and d: "due s t = 0" and es: "takeWhile (\<lambda>t. due s t = 0) ts = es"
    using Cons.prems(2) by (cases "timer_list s") (auto split: if_splits)
  have "ticks s - tm_timeout (timers s t) < RT_TICK_HALF"
    using wrapped_expired [of "tm_timeout (timers s t)" "ticks s"] d by (simp add: due_def)
  moreover have dist: "t \<notin> set ts" using Cons.prems(1) L by (auto simp: timers_ok_def)
  ultimately have step: "timer_check_loop fuel cb (ticks s) s = do {
      u \<leftarrow> cb (tm_func (timers s t)) (timer_remove t s); v \<leftarrow> timer_restart t u; timer_check_loop f cb (rt_tick_get u) v }"
    by (simp add: f L Let_def timer_remove_def)
  show ?case
  proof (cases "cb (tm_func (timers s t)) (timer_remove t s)")
    case (Some u)
    have u: "timer_list u = ts" "timers u = timers s" "objs u = objs s" "ticks u = ticks s"
      using cb Some L dist unfolding cb_frame_def by (auto simp: timer_remove_def)
    obtain v where v: "timer_restart t u = Some v" "timers_ok v" "ticks v = ticks s"
        "takeWhile (\<lambda>x. due v x = 0) (timer_list v) = es"
      and frame: "\<And>x. x \<noteq> t \<Longrightarrow> objs v x = objs s x \<and> timers v x = timers s x"
      using timer_restart_expired [OF Cons.prems(1) L u] Cons.prems(4) [of t] es by auto
    have "x \<noteq> t" if "x \<in> set es" for x using that es dist set_takeWhileD by metis
    then have "timer_check_loop f cb (ticks v) v = fire_timers cb es v \<and>
        okp (\<lambda>s'. timers_ok s' \<and> ticks s' = ticks v \<and> (\<forall>t \<in> set (timer_list s'). 0 < due s' t)) (fire_timers cb es v)"
      using Cons.prems(4) frame f by (intro Cons.IH [OF v(2,4)]) (auto simp: timer_flag_def)
    then show ?thesis
      using step Some v(1,3) u by (simp add: rt_tick_get_def)
  qed (simp add: step)
qed

lemma sorted_takeWhile_filter:
  "sorted (map f xs) \<Longrightarrow> takeWhile (\<lambda>x. f x \<le> k) xs = filter (\<lambda>x. f x \<le> k) xs \<and>
    dropWhile (\<lambda>x. f x \<le> k) xs = filter (\<lambda>x. k < f x) xs"
proof (induction xs)
  case (Cons x xs)
  have "filter (\<lambda>x. f x \<le> k) xs = [] \<and> filter (\<lambda>x. k < f x) xs = xs" if "\<not> f x \<le> k"
    using Cons.prems that by (auto simp: filter_empty_conv filter_id_conv)
  with Cons show ?case by auto
qed simp

text \<open>One tick passes.\<close>

lemma due_tick:
  assumes "0 < due s t"
  shows "due (s\<lparr>ticks := ticks s + 1\<rparr>) t = due s t - 1"
proof -
  let ?x = "tm_timeout (timers s t) - ticks s"
  have "?x \<noteq> 0" using assms by (auto simp: due_def)
  then have "unat (?x - 1) = unat ?x - 1" by (rule unat_minus_one)
  then show ?thesis by (simp add: due_def algebra_simps)
qed

lemma timers_ok_tick:
  assumes s: "timers_ok s" and d: "\<And>t. t \<in> set (timer_list s) \<Longrightarrow> 0 < due s t"
  shows "timers_ok (s\<lparr>ticks := ticks s + 1\<rparr>)"
proof -
  let ?s = "s\<lparr>ticks := ticks s + 1\<rparr>"
  have "map (due ?s) (timer_list s) = map (\<lambda>t. due s t - 1) (timer_list s)"
    using d by (intro map_cong refl due_tick)
  also have "sorted \<dots>"
    using s by (auto simp: timers_ok_def sorted_iff_nth_mono_less intro: diff_le_mono)
  finally have "sorted (map (due ?s) (timer_list s))" .
  moreover have "due ?s t < HALF" if "t \<in> set (timer_list s)" for t
    using s that due_tick [OF d [OF that]] by (fastforce simp: timers_ok_def)
  ultimately show ?thesis
    using s by (simp add: timers_ok_def timer_obj_def timer_flag_def)
qed

section \<open>A concrete state\<close>

text \<open>At tick 10 the periodic timer 3 of period \<open>i\<close> has just expired and the one-shot timer 2 expires in two ticks.\<close>

definition timer_demo :: "u32 \<Rightarrow> unit kernel" where
  "timer_demo i = (zero_kernel ())\<lparr>
     objs := (\<lambda>_. zero_object)(Obj 3 := zero_object\<lparr>o_type := 0x8A, o_flag := 3\<rparr>, Obj 2 := zero_object\<lparr>o_type := 0x8A, o_flag := 1\<rparr>),
     timers := (\<lambda>_. zero_timer)(Obj 3 := \<lparr>tm_func = User_Timeout 0 0, tm_init = i, tm_timeout = 10\<rparr>,
       Obj 2 := \<lparr>tm_func = User_Timeout 0 0, tm_init = 7, tm_timeout = 12\<rparr>),
     timer_list := [Obj 3, Obj 2], ticks := 10\<rparr>"

lemma timer_demo_view:
  "timer_list (timer_demo i) = [Obj 3, Obj 2]" "ticks (timer_demo i) = 10" "due (timer_demo i) (Obj 3) = 0"
  "due (timer_demo i) (Obj 2) = 2" "tm_init (timers (timer_demo i) (Obj 3)) = i"
  "timer_obj (timer_demo i) (Obj 3)" "timer_obj (timer_demo i) (Obj 2)"
  "timer_flag (Obj 3) (timer_demo i) 1" "timer_flag (Obj 2) (timer_demo i) 1"
  "timer_flag (Obj 3) (timer_demo i) 2" "\<not> timer_flag (Obj 2) (timer_demo i) 2"
  by (simp_all add: timer_demo_def due_def timer_obj_def timer_flag_def zero_defs)

lemma timers_ok_demo: "timers_ok (timer_demo i)"
  by (simp add: timers_ok_def timer_demo_view)

lemma cb_frame_errno: "cb_frame (\<lambda>f s. Some (s\<lparr>errno_var := errno_var s + 1\<rparr>))"
  by (auto simp: cb_frame_def)

section \<open>Properties\<close>

text \<open>
  C27. \<^verbatim>\<open>rt_timer_start\<close> with an initial tick below \<^verbatim>\<open>RT_TICK_MAX/2\<close> returns \<^verbatim>\<open>RT_EOK\<close>, sets the expiry to now plus the
  initial tick (wrapping), and puts the timer after exactly those pending timers that expire no later, in
  unchanged order, so the list stays sorted across the wrap-around of the tick counter.
\<close>

theorem rt_timer_start_sorted:
  assumes s: "timers_ok s" and t: "timer_obj s t" and i: "tm_init (timers s t) < RT_TICK_HALF"
  shows "\<exists>s'. rt_timer_start t s = Some (RT_EOK, s') \<and> timers_ok s' \<and> timer_flag t s' RT_TIMER_FLAG_ACTIVATED \<and>
    tm_timeout (timers s' t) = ticks s + tm_init (timers s t) \<and>
    timer_list s' = filter (\<lambda>x. x \<noteq> t \<and> due s x \<le> unat (tm_init (timers s t))) (timer_list s) @ t #
                    filter (\<lambda>x. x \<noteq> t \<and> unat (tm_init (timers s t)) < due s x) (timer_list s)"
proof -
  let ?d = "unat (tm_init (timers s t))"
  have "sorted (map (due s) (removeAll t (timer_list s)))"
    using s by (auto simp: timers_ok_def intro: sorted_removeAll)
  from sorted_takeWhile_filter [OF this, of ?d]
  have "timer_list (timer_started t s) = filter (\<lambda>x. x \<noteq> t \<and> due s x \<le> ?d) (timer_list s) @ t #
                    filter (\<lambda>x. x \<noteq> t \<and> ?d < due s x) (timer_list s)"
    unfolding timer_list_started [OF s i] by (simp add: removeAll_filter_not_eq conj_commute eq_commute cong: conj_cong)
  then show ?thesis
    using timers_ok_started [OF s i t] i t flag_bits(1) by (auto simp: rt_timer_start_eq timer_started_view)
qed

theorem rt_timer_start_sorted_witness:
  "\<exists>s'. rt_timer_start (Obj 3) (timer_demo 5) = Some (RT_EOK, s') \<and> timer_list s' = [Obj 2, Obj 3]"
  using rt_timer_start_sorted [OF timers_ok_demo [of 5], where t = "Obj 3"] by (auto simp: timer_demo_view)

text \<open>
  C26. \<^verbatim>\<open>rt_timer_check\<close> ends and calls exactly the timeout functions of the timers that have expired when it
  starts, once each and in expiry order, restarting the periodic ones; afterwards every pending timer lies in
  the future. The loop needs one round more than there are expired timers, whatever the timeout functions do
  outside the timer list, provided periodic timers have a non-zero period.
\<close>

theorem rt_timer_check_exact:
  assumes "timers_ok s" and "cb_frame cb" and "length (filter (\<lambda>t. due s t = 0) (timer_list s)) < fuel"
    and "\<And>t. t \<in> set (timer_list s) \<Longrightarrow> timer_flag t s RT_TIMER_FLAG_PERIODIC \<Longrightarrow>
      0 < tm_init (timers s t) \<and> tm_init (timers s t) < RT_TICK_HALF"
  shows "rt_timer_check fuel cb s = fire_timers cb (filter (\<lambda>t. due s t = 0) (timer_list s)) s \<and>
    (\<forall>s'. rt_timer_check fuel cb s = Some s' \<longrightarrow> timers_ok s' \<and> (\<forall>t \<in> set (timer_list s'). 0 < due s' t))"
proof -
  let ?es = "filter (\<lambda>t. due s t = 0) (timer_list s)"
  have es: "takeWhile (\<lambda>t. due s t = 0) (timer_list s) = ?es"
    using sorted_takeWhile_filter [of "due s" "timer_list s" 0] assms(1) by (simp add: timers_ok_def)
  have "timer_check_loop fuel cb (ticks s) s = fire_timers cb ?es s \<and>
    okp (\<lambda>s'. timers_ok s' \<and> ticks s' = ticks s \<and> (\<forall>t \<in> set (timer_list s'). 0 < due s' t)) (fire_timers cb ?es s)"
    by (rule timer_check_loop_eq [OF assms(2,1) es assms(3)], rule assms(4)) simp_all
  then show ?thesis
    by (auto simp: rt_timer_check_def rt_tick_get_def okp_iff)
qed

theorem rt_timer_check_exact_witness:
  "rt_timer_check 2 (\<lambda>f s. Some (s\<lparr>errno_var := errno_var s + 1\<rparr>)) (timer_demo 5) =
     fire_timers (\<lambda>f s. Some (s\<lparr>errno_var := errno_var s + 1\<rparr>)) [Obj 3] (timer_demo 5)"
proof -
  have es: "filter (\<lambda>t. due (timer_demo 5) t = 0) (timer_list (timer_demo 5)) = [Obj 3]"
    by (simp add: timer_demo_view)
  have "0 < tm_init (timers (timer_demo 5) t) \<and> tm_init (timers (timer_demo 5) t) < RT_TICK_HALF"
    if "t \<in> set (timer_list (timer_demo 5))" "timer_flag t (timer_demo 5) RT_TIMER_FLAG_PERIODIC" for t
    using that by (auto simp: timer_demo_view)
  then show ?thesis
    using rt_timer_check_exact [OF timers_ok_demo [of 5] cb_frame_errno, where fuel = 2] unfolding es by auto
qed

text \<open>
  \<^verbatim>\<open>rt_timer_check\<close> never returns once a periodic timer with period 0 has expired at the head of the list: the
  timer is restarted with the current tick as its expiry and expires again in the next round, whatever the
  number of rounds. Neither \<^verbatim>\<open>rt_timer_init\<close> nor \<^verbatim>\<open>rt_timer_control\<close> rejects a period of 0.
\<close>

theorem rt_timer_check_diverges:
  assumes "timers_ok s" and "cb_frame cb" and "timer_list s = t # ts" and "due s t = 0" and "tm_init (timers s t) = 0"
    and "timer_flag t s RT_TIMER_FLAG_PERIODIC" and "\<And>x. x \<in> set ts \<Longrightarrow> 0 < due s x"
  shows "rt_timer_check fuel cb s = None"
proof -
  have "timer_check_loop fuel cb (ticks s) s = None"
    using assms(1,3-7)
  proof (induction fuel arbitrary: s)
    case (Suc fuel)
    have t: "t \<notin> set ts" "timer_obj s t" "timer_flag t s 1" using Suc.prems(1,2) by (auto simp: timers_ok_def)
    have e: "ticks s - tm_timeout (timers s t) < RT_TICK_HALF"
      using wrapped_expired [of "tm_timeout (timers s t)" "ticks s"] Suc.prems(3) by (simp add: due_def)
    show ?case
    proof (cases "cb (tm_func (timers s t)) (timer_remove t s)")
      case (Some u)
      have u: "timer_list u = ts" "timers u = timers s" "objs u = objs s" "ticks u = ticks s"
        using assms(2) Some Suc.prems(2) t unfolding cb_frame_def by (auto simp: timer_remove_def)
      let ?w = "upd_obj t (\<lambda>r. r\<lparr>o_flag := o_flag r AND NOT RT_TIMER_FLAG_ACTIVATED\<rparr>) u"
      have "timers_ok u"
        using timers_ok_remove [OF Suc.prems(1), of t] u Suc.prems(2) t
        by (subst timers_ok_cong [of u "timer_remove t s"]) (auto simp: timer_remove_def)
      then have w: "timers_ok ?w" using t u by (intro timers_ok_upd_free) auto
      have iw: "tm_init (timers ?w t) < RT_TICK_HALF" and tw: "timer_obj ?w t"
        using u Suc.prems(4) t by (simp_all add: timer_obj_def)
      let ?v = "timer_started t ?w"
      have r: "timer_restart t u = Some ?v"
        using Suc.prems(5) t u iw tw by (simp add: timer_restart_def timer_flag_def rt_timer_start_eq)
      have du: "due ?w x = due s x" for x using u by (simp add: due_def)
      have rm: "removeAll t (timer_list ?w) = ts" using t u by simp
      have "ts \<noteq> [] \<Longrightarrow> \<not> due s (hd ts) \<le> 0"
        using Suc.prems(6) [of "hd ts"] by simp
      then have "takeWhile (\<lambda>x. due ?w x \<le> 0) ts = []" "dropWhile (\<lambda>x. due ?w x \<le> 0) ts = ts"
        unfolding du takeWhile_eq_Nil_iff dropWhile_eq_self_iff by blast+
      then have L: "timer_list ?v = t # ts"
        using timer_list_started [OF w iw, unfolded rm] u Suc.prems(4) by simp
      have p: "timer_flag t ?v 2"
        using Suc.prems(5) u flag_periodic_keep [of "o_flag (objs s t)"]
        by (simp add: timer_started_def Let_def timer_flag_def)
      have "timer_check_loop fuel cb (ticks ?v) ?v = None"
        using Suc.prems(4) Suc.prems(6) [folded du] u L p t by (intro Suc.IH timers_ok_started [OF w iw tw])
          (auto simp: due_timer_started timer_started_view)
      then show ?thesis
        using e Some r u Suc.prems(2) by (simp add: Let_def timer_remove_def rt_tick_get_def timer_started_view)
    qed (use e Suc.prems(2) in \<open>simp add: Let_def timer_remove_def\<close>)
  qed simp
  then show ?thesis
    by (simp add: rt_timer_check_def rt_tick_get_def)
qed

theorem rt_timer_check_diverges_witness:
  "\<forall>fuel. rt_timer_check fuel (\<lambda>f s. Some (s\<lparr>errno_var := errno_var s + 1\<rparr>)) (timer_demo 0) = None"
  using rt_timer_check_diverges [OF timers_ok_demo [of 0] cb_frame_errno, where t = "Obj 3" and ts = "[Obj 2]"]
  by (auto simp: timer_demo_view)

end
