(* ===== verification/RT_Thread.thy ===== *)
theory RT_Thread
  imports RT_Timer
begin

text \<open>
  Thread management of \<^verbatim>\<open>src/thread.c\<close>, the tick of \<^verbatim>\<open>src/clock.c\<close> and the idle thread's cleanup of
  \<^verbatim>\<open>src/idle.c\<close>. Functions that call \<^verbatim>\<open>rt_schedule\<close> and go on afterwards are split there: the first part ends
  with the schedule, the part named \<open>_resume\<close> is what the thread does when it runs again. Stack contents and
  the saved stack pointer are not part of the model.
\<close>

section \<open>Operations\<close>

text \<open>\<^verbatim>\<open>RT_ASSERT(thread != RT_NULL)\<close> and the class check.\<close>

definition thread_check :: "ptr \<Rightarrow> 'h kernel \<Rightarrow> unit option" where
  "thread_check thread s = do {
     RT_ASSERT (thread \<noteq> RT_NULL);
     ty \<leftarrow> rt_object_get_type (Obj thread) s;
     RT_ASSERT (ty = RT_Object_Class_Thread) }"

definition rt_thread_exit :: "'h kernel \<Rightarrow> 'h kernel option" where
  "rt_thread_exit s = do {
     let thread = rt_thread_self s;
     s \<leftarrow> rt_schedule_remove_thread thread s;
     let s = upd_thread thread (\<lambda>r. r\<lparr>th_stat := RT_THREAD_CLOSE\<rparr>) s;
     (_, s) \<leftarrow> rt_timer_detach (ThreadTimer thread) s;
     sys \<leftarrow> rt_object_is_systemobject (Obj thread) s;
     s \<leftarrow> (if sys \<and> th_cleanup (threads s thread) = RT_NULL then rt_object_detach (Obj thread) s
           else link_front DefunctQ thread s);
     rt_schedule s }"

definition thread_init ::
    "ptr \<Rightarrow> string \<Rightarrow> nat \<Rightarrow> nat \<Rightarrow> ptr \<Rightarrow> u32 \<Rightarrow> u8 \<Rightarrow> u32 \<Rightarrow> 'h kernel \<Rightarrow> (rt_err_t \<times> 'h kernel) option" where
  "thread_init thread name entry parameter stack_start stack_size priority tick s = do {
     mem_ok (\<not> in_some_list thread (tlists s));
     let s = upd_thread thread (\<lambda>r. r\<lparr>th_entry := entry, th_parameter := parameter,
                                 th_stack_addr := stack_start, th_stack_size := stack_size\<rparr>) s;
     RT_ASSERT (unat priority < RT_THREAD_PRIORITY_MAX);
     let s = upd_thread thread (\<lambda>r. r\<lparr>th_init_priority := priority, th_current_priority := priority, th_number_mask := 0,
                                 th_init_tick := tick, th_remaining_tick := tick,
                                 th_error := RT_EOK, th_stat := RT_THREAD_INIT, th_cleanup := 0, th_user_data := 0\<rparr>) s;
     s \<leftarrow> rt_timer_init (ThreadTimer thread) (o_name (objs s (Obj thread))) (Thread_Timeout thread) 0 RT_TIMER_FLAG_ONE_SHOT s;
     Some (RT_EOK, s) }"

definition rt_thread_init ::
    "ptr \<Rightarrow> string \<Rightarrow> nat \<Rightarrow> nat \<Rightarrow> ptr \<Rightarrow> u32 \<Rightarrow> u8 \<Rightarrow> u32 \<Rightarrow> 'h kernel \<Rightarrow> (rt_err_t \<times> 'h kernel) option" where
  "rt_thread_init thread name entry parameter stack_start stack_size priority tick s = do {
     RT_ASSERT (thread \<noteq> RT_NULL);
     RT_ASSERT (stack_start \<noteq> RT_NULL);
     s \<leftarrow> rt_object_init (Obj thread) RT_Object_Class_Thread name s;
     thread_init thread name entry parameter stack_start stack_size priority tick s }"

definition rt_thread_suspend :: "ptr \<Rightarrow> 'h kernel \<Rightarrow> (rt_err_t \<times> 'h kernel) option" where
  "rt_thread_suspend thread s = do {
     thread_check thread s;
     let stat = tstat s thread;
     if stat \<noteq> RT_THREAD_READY \<and> stat \<noteq> RT_THREAD_RUNNING then Some (- RT_ERROR, s)
     else do {
       RT_ASSERT (stat = RT_THREAD_RUNNING \<longrightarrow> thread = rt_thread_self s);
       s \<leftarrow> rt_schedule_remove_thread thread s;
       let s = set_stat thread RT_THREAD_SUSPEND s;
       (_, s) \<leftarrow> rt_timer_stop (ThreadTimer thread) s;
       Some (RT_EOK, s) } }"

definition rt_thread_resume :: "ptr \<Rightarrow> 'h kernel \<Rightarrow> (rt_err_t \<times> 'h kernel) option" where
  "rt_thread_resume thread s = do {
     thread_check thread s;
     if tstat s thread \<noteq> RT_THREAD_SUSPEND then Some (- RT_ERROR, s)
     else do {
       let s = unlink_thread thread s;
       (_, s) \<leftarrow> rt_timer_stop (ThreadTimer thread) s;
       s \<leftarrow> rt_schedule_insert_thread thread s;
       Some (RT_EOK, s) } }"

text \<open>The mask \<^verbatim>\<open>1 << priority\<close>: a shift by 32 or more is undefined.\<close>

definition set_priority :: "ptr \<Rightarrow> u8 \<Rightarrow> 'h kernel \<Rightarrow> 'h kernel option" where
  "set_priority thread priority s = do {
     mem_ok (unat priority < 32);
     Some (upd_thread thread (\<lambda>r. r\<lparr>th_current_priority := priority, th_number_mask := bitmask (unat priority)\<rparr>) s) }"

definition rt_thread_startup :: "ptr \<Rightarrow> 'h kernel \<Rightarrow> (rt_err_t \<times> 'h kernel) option" where
  "rt_thread_startup thread s = do {
     RT_ASSERT (thread \<noteq> RT_NULL);
     RT_ASSERT (tstat s thread = RT_THREAD_INIT);
     thread_check thread s;
     s \<leftarrow> set_priority thread (th_init_priority (threads s thread)) s;
     let s = upd_thread thread (\<lambda>r. r\<lparr>th_stat := RT_THREAD_SUSPEND\<rparr>) s;
     (_, s) \<leftarrow> rt_thread_resume thread s;
     s \<leftarrow> (if rt_thread_self s \<noteq> RT_NULL then rt_schedule s else Some s);
     Some (RT_EOK, s) }"

definition rt_thread_detach :: "ptr \<Rightarrow> 'h kernel \<Rightarrow> (rt_err_t \<times> 'h kernel) option" where
  "rt_thread_detach thread s = do {
     thread_check thread s;
     sys \<leftarrow> rt_object_is_systemobject (Obj thread) s;
     RT_ASSERT sys;
     s \<leftarrow> (if tstat s thread \<noteq> RT_THREAD_INIT then rt_schedule_remove_thread thread s else Some s);
     (_, s) \<leftarrow> rt_timer_detach (ThreadTimer thread) s;
     let s = upd_thread thread (\<lambda>r. r\<lparr>th_stat := RT_THREAD_CLOSE\<rparr>) s;
     sys \<leftarrow> rt_object_is_systemobject (Obj thread) s;
     s \<leftarrow> (if sys \<and> th_cleanup (threads s thread) = RT_NULL then rt_object_detach (Obj thread) s
           else link_front DefunctQ thread s);
     Some (RT_EOK, s) }"

definition rt_thread_create ::
    "'h heap_ops \<Rightarrow> string \<Rightarrow> nat \<Rightarrow> nat \<Rightarrow> u32 \<Rightarrow> u8 \<Rightarrow> u32 \<Rightarrow> 'h kernel \<Rightarrow> (ptr \<times> 'h kernel) option" where
  "rt_thread_create H name entry parameter stack_size priority tick s = do {
     (thread, s) \<leftarrow> rt_object_allocate H RT_Object_Class_Thread name s;
     if thread = RT_NULL then Some (RT_NULL, s)
     else do {
       (stack_start, h) \<leftarrow> kmalloc H (heap s) (unat stack_size);
       let s = s\<lparr>heap := h\<rparr>;
       if stack_start = RT_NULL then do {
         s \<leftarrow> rt_object_delete H thread s;
         Some (RT_NULL, s) }
       else do {
         (_, s) \<leftarrow> thread_init thread name entry parameter stack_start stack_size priority tick s;
         Some (thread, s) } } }"

definition rt_thread_delete :: "ptr \<Rightarrow> 'h kernel \<Rightarrow> (rt_err_t \<times> 'h kernel) option" where
  "rt_thread_delete thread s = do {
     thread_check thread s;
     sys \<leftarrow> rt_object_is_systemobject (Obj thread) s;
     RT_ASSERT (\<not> sys);
     s \<leftarrow> (if tstat s thread \<noteq> RT_THREAD_INIT then rt_schedule_remove_thread thread s else Some s);
     (_, s) \<leftarrow> rt_timer_detach (ThreadTimer thread) s;
     let s = upd_thread thread (\<lambda>r. r\<lparr>th_stat := RT_THREAD_CLOSE\<rparr>) s;
     s \<leftarrow> link_front DefunctQ thread s;
     Some (RT_EOK, s) }"

definition rt_thread_yield :: "'h kernel \<Rightarrow> (rt_err_t \<times> 'h kernel) option" where
  "rt_thread_yield s = do { s \<leftarrow> rt_schedule s; Some (RT_EOK, s) }"

text \<open>\<^verbatim>\<open>rt_thread_sleep\<close> up to its \<^verbatim>\<open>rt_schedule\<close>, with the sleeping thread, and the rest.\<close>

definition rt_thread_sleep :: "u32 \<Rightarrow> 'h kernel \<Rightarrow> (ptr \<times> 'h kernel) option" where
  "rt_thread_sleep tick s = do {
     let thread = rt_thread_self s;
     thread_check thread s;
     (_, s) \<leftarrow> rt_thread_suspend thread s;
     (_, _, s) \<leftarrow> rt_timer_control (ThreadTimer thread) RT_TIMER_CTRL_SET_TIME tick s;
     (_, s) \<leftarrow> rt_timer_start (ThreadTimer thread) s;
     s \<leftarrow> rt_schedule s;
     Some (thread, s) }"

definition rt_thread_sleep_resume :: "ptr \<Rightarrow> 'h kernel \<Rightarrow> rt_err_t \<times> 'h kernel" where
  "rt_thread_sleep_resume thread s =
    (RT_EOK, if terror s thread = - RT_ETIMEOUT then set_error thread RT_EOK s else s)"

definition rt_thread_delay :: "u32 \<Rightarrow> 'h kernel \<Rightarrow> (ptr \<times> 'h kernel) option" where
  "rt_thread_delay tick s = rt_thread_sleep tick s"

definition rt_thread_mdelay :: "int \<Rightarrow> 'h kernel \<Rightarrow> (ptr \<times> 'h kernel) option" where
  "rt_thread_mdelay ms s = rt_thread_sleep (rt_tick_from_millisecond ms) s"

abbreviation (input) RT_THREAD_CTRL_STARTUP :: int where "RT_THREAD_CTRL_STARTUP \<equiv> 0"
abbreviation (input) RT_THREAD_CTRL_CLOSE :: int where "RT_THREAD_CTRL_CLOSE \<equiv> 1"
abbreviation (input) RT_THREAD_CTRL_CHANGE_PRIORITY :: int where "RT_THREAD_CTRL_CHANGE_PRIORITY \<equiv> 2"

definition rt_thread_control :: "ptr \<Rightarrow> int \<Rightarrow> u8 \<Rightarrow> 'h kernel \<Rightarrow> (rt_err_t \<times> 'h kernel) option" where
  "rt_thread_control thread cmd arg s = do {
     thread_check thread s;
     if cmd = RT_THREAD_CTRL_CHANGE_PRIORITY then
       (if tstat s thread = RT_THREAD_READY then do {
          s \<leftarrow> rt_schedule_remove_thread thread s;
          s \<leftarrow> set_priority thread arg s;
          s \<leftarrow> rt_schedule_insert_thread thread s;
          Some (RT_EOK, s) }
        else do {
          s \<leftarrow> set_priority thread arg s;
          Some (RT_EOK, s) })
     else if cmd = RT_THREAD_CTRL_STARTUP then rt_thread_startup thread s
     else if cmd = RT_THREAD_CTRL_CLOSE then rt_thread_delete thread s
     else Some (RT_EOK, s) }"

definition rt_thread_timeout :: "ptr \<Rightarrow> 'h kernel \<Rightarrow> 'h kernel option" where
  "rt_thread_timeout thread s = do {
     RT_ASSERT (thread \<noteq> RT_NULL);
     RT_ASSERT (tstat s thread = RT_THREAD_SUSPEND);
     thread_check thread s;
     let s = set_error thread (- RT_ETIMEOUT) s;
     let s = unlink_thread thread s;
     s \<leftarrow> rt_schedule_insert_thread thread s;
     rt_schedule s }"

definition rt_thread_find :: "string \<Rightarrow> 'h kernel \<Rightarrow> (objref option \<times> 'h kernel) option" where
  "rt_thread_find name s = do {
     let s = (if rt_thread_self s \<noteq> RT_NULL then rt_enter_critical s else s);
     let information = rt_object_get_information RT_Object_Class_Thread s;
     RT_ASSERT (information \<noteq> None);
     let object = find_named s name (info_objects s (the information));
     s \<leftarrow> (if rt_thread_self s \<noteq> RT_NULL then rt_exit_critical s else Some s);
     Some (object, s) }"

section \<open>The tick (\<^verbatim>\<open>src/clock.c\<close>)\<close>

text \<open>Timeout functions: the kernel's own on a thread, and application functions given by \<open>user\<close>.\<close>

definition timeout_call :: "(nat \<Rightarrow> nat \<Rightarrow> 'h kernel \<Rightarrow> 'h kernel option) \<Rightarrow> 'h callback" where
  "timeout_call user f s = (case f of Thread_Timeout t \<Rightarrow> rt_thread_timeout t s | User_Timeout g p \<Rightarrow> user g p s)"

definition rt_tick_increase :: "nat \<Rightarrow> (nat \<Rightarrow> nat \<Rightarrow> 'h kernel \<Rightarrow> 'h kernel option) \<Rightarrow> 'h kernel \<Rightarrow> 'h kernel option" where
  "rt_tick_increase fuel user s = do {
     let s = s\<lparr>ticks := ticks s + 1\<rparr>;
     let thread = rt_thread_self s;
     mem_ok (thread \<noteq> RT_NULL);
     let s = upd_thread thread (\<lambda>r. r\<lparr>th_remaining_tick := th_remaining_tick r - 1\<rparr>) s;
     s \<leftarrow> (if th_remaining_tick (threads s thread) = 0 then do {
             let s = upd_thread thread (\<lambda>r. r\<lparr>th_remaining_tick := th_init_tick r\<rparr>) s;
             (_, s) \<leftarrow> rt_thread_yield s;
             Some s }
           else Some s);
     rt_timer_check fuel (timeout_call user) s }"

section \<open>The idle thread (\<^verbatim>\<open>src/idle.c\<close>)\<close>

text \<open>The loops of \<^verbatim>\<open>rt_thread_idle_sethook\<close> and \<^verbatim>\<open>rt_thread_idle_delhook\<close>: replace the first matching entry.\<close>

fun replace_first :: "nat \<Rightarrow> nat \<Rightarrow> nat list \<Rightarrow> (nat list) option" where
  "replace_first x y [] = None"
| "replace_first x y (z # zs) = (if z = x then Some (y # zs) else map_option ((#) z) (replace_first x y zs))"

definition rt_thread_idle_sethook :: "nat \<Rightarrow> 'h kernel \<Rightarrow> rt_err_t \<times> 'h kernel" where
  "rt_thread_idle_sethook hook s =
    (case replace_first RT_NULL hook (idle_hook_list s) of
       Some l \<Rightarrow> (RT_EOK, s\<lparr>idle_hook_list := l\<rparr>) | None \<Rightarrow> (- RT_EFULL, s))"

definition rt_thread_idle_delhook :: "nat \<Rightarrow> 'h kernel \<Rightarrow> rt_err_t \<times> 'h kernel" where
  "rt_thread_idle_delhook hook s =
    (case replace_first hook RT_NULL (idle_hook_list s) of
       Some l \<Rightarrow> (RT_EOK, s\<lparr>idle_hook_list := l\<rparr>) | None \<Rightarrow> (- RT_ENOSYS, s))"

definition has_defunct_thread :: "'h kernel \<Rightarrow> bool" where
  "has_defunct_thread s \<longleftrightarrow> tlists s DefunctQ \<noteq> []"

text \<open>The loop of \<^verbatim>\<open>rt_thread_idle_excute\<close>; \<open>cleanup\<close> calls a thread's cleanup function.\<close>

fun rt_thread_idle_excute ::
    "nat \<Rightarrow> 'h heap_ops \<Rightarrow> (nat \<Rightarrow> ptr \<Rightarrow> 'h kernel \<Rightarrow> 'h kernel option) \<Rightarrow> 'h kernel \<Rightarrow> 'h kernel option" where
  "rt_thread_idle_excute 0 H cleanup s = None"
| "rt_thread_idle_excute (Suc fuel) H cleanup s =
     (if has_defunct_thread s then do {
        RT_ASSERT (not_in_interrupt s);
        let thread = hd (tlists s DefunctQ);
        let s = unlink_thread thread s;
        let s = rt_enter_critical s;
        s \<leftarrow> (if th_cleanup (threads s thread) \<noteq> RT_NULL then cleanup (th_cleanup (threads s thread)) thread s else Some s);
        sys \<leftarrow> rt_object_is_systemobject (Obj thread) s;
        if sys then do {
          s \<leftarrow> rt_object_detach (Obj thread) s;
          rt_exit_critical s }
        else do {
          s \<leftarrow> rt_exit_critical s;
          h \<leftarrow> kfree H (heap s) (th_stack_addr (threads s thread));
          let s = s\<lparr>heap := h\<rparr>;
          s \<leftarrow> rt_object_delete H thread s;
          rt_thread_idle_excute fuel H cleanup s } }
      else Some s)"

text \<open>\<^verbatim>\<open>rt_thread_idle_init\<close> for one CPU: the idle thread's structure, entry and stack are given by address.\<close>

definition rt_thread_idle_init :: "ptr \<Rightarrow> nat \<Rightarrow> ptr \<Rightarrow> 'h kernel \<Rightarrow> 'h kernel option" where
  "rt_thread_idle_init idle entry stack s = do {
     (_, s) \<leftarrow> rt_thread_init idle ''tidle0'' entry RT_NULL stack 256 31 32 s;
     (_, s) \<leftarrow> rt_thread_startup idle s;
     Some s }"

section \<open>Thread operations keep the scheduler invariant\<close>

lemma thread_check_eq:
  "thread_check t s = (if t \<noteq> 0 \<and> o_type (objs s (Obj t)) AND NOT RT_Object_Class_Static = 1 then Some () else None)"
  by (auto simp: thread_check_def rt_object_get_type_def RT_ASSERT_def)

lemma thread_check_Some [simp]:
  "thread_check t s = Some u \<longleftrightarrow> t \<noteq> 0 \<and> o_type (objs s (Obj t)) AND NOT RT_Object_Class_Static = 1"
  by (simp add: thread_check_eq)

lemma unlink_thread_frame [simp]:
  "tlists (unlink_thread t s) = lists_remove t (tlists s)" "cur (unlink_thread t s) = cur s"
  "threads (unlink_thread t s) = threads s" "tstat (unlink_thread t s) u = tstat s u" "tprio (unlink_thread t s) u = tprio s u"
  "objs (unlink_thread t s) = objs s" "timers (unlink_thread t s) = timers s" "timer_list (unlink_thread t s) = timer_list s"
  "ticks (unlink_thread t s) = ticks s" "lock_nest (unlink_thread t s) = lock_nest s" "intr_nest (unlink_thread t s) = intr_nest s"
  "ready_group (unlink_thread t s) = ready_group s" "container (unlink_thread t s) = container s"
  "terror (unlink_thread t s) u = terror s u"
  by (simp_all add: unlink_thread_def terror_def)

text \<open>A suspended thread leaves its wait list and becomes ready.\<close>

lemma swf_wake:
  assumes s: "swf {} s" and t: "tstat s t = 2" "t \<noteq> 0" and u: "tlists u = lists_remove t (tlists s)" "ready_group u = ready_group s"
    "cur u = cur s" "\<And>x. tstat u x = tstat s x \<and> tprio u x = tprio s x \<and> th_number_mask (threads u x) = th_number_mask (threads s x) \<and>
      th_init_priority (threads u x) = th_init_priority (threads s x)"
  shows "rt_schedule_insert_thread t u = Some (enqueued t u)" "swf {} (enqueued t u)"
proof -
  have "swf {} (unlink_thread t s)" using swf_unlink_nonready [OF s] t by simp
  then have su: "swf {} u" using u by (subst swf_cong [of u "unlink_thread t s"]) auto
  have free: "\<not> in_some_list t (tlists u)" using u by simp
  show "rt_schedule_insert_thread t u = Some (enqueued t u)"
    using t free swf_prio_lt [OF su] by (intro rt_schedule_insert_thread_eq) auto
  have "prio_ok u t" using swf_prio_ok [OF su, of t] t u by simp
  then have "swf ({} - {t}) (enqueued t u)" using swf_enqueued [OF su t(2) _ free] by simp
  then show "swf {} (enqueued t u)" by simp
qed

lemma swf_upd_stat_free:
  assumes s: "swf X s" and free: "\<not> in_some_list t (tlists s)"
    and v: "v = 2 \<and> prio_ok s t \<or> v = 4 \<or> v = 0 \<and> th_number_mask (threads s t) = 0"
  shows "swf (X - {t}) (upd_thread t (\<lambda>r. r\<lparr>th_stat := v\<rparr>) s)"
proof -
  let ?s = "upd_thread t (\<lambda>r. r\<lparr>th_stat := v\<rparr>) s"
  have "t \<notin> set (tlists s h)" for h using free by (simp add: in_some_list_def)
  moreover have "v AND 15 = v" using v by auto
  then have "tstat ?s u = (if u = t then v else tstat s u)" "tprio ?s u = tprio s u"
    "th_number_mask (threads ?s u) = th_number_mask (threads s u)" "th_init_priority (threads ?s u) = th_init_priority (threads s u)" for u
    by (simp_all add: tstat_def tprio_def)
  ultimately show ?thesis
    using s v by (auto simp: swf_def queues_ok_def bitmap_ok_def masks_ok_def stats_ok_def prio_ok_def)
qed

lemma swf_set_priority:
  assumes s: "swf X s" and p: "unat p < 32" and t: "tstat s t \<noteq> 1 \<or> \<not> in_some_list t (tlists s)"
  shows "swf (if tstat s t = 1 then insert t X else X)
    (upd_thread t (\<lambda>r. r\<lparr>th_current_priority := p, th_number_mask := bitmask (unat p)\<rparr>) s)"
proof -
  let ?s = "upd_thread t (\<lambda>r. r\<lparr>th_current_priority := p, th_number_mask := bitmask (unat p)\<rparr>) s"
  have v: "tstat ?s u = tstat s u" "tprio ?s u = (if u = t then unat p else tprio s u)"
    "th_init_priority (threads ?s u) = th_init_priority (threads s u)"
    "th_number_mask (threads ?s u) = (if u = t then bitmask (unat p) else th_number_mask (threads s u))" for u
    by (simp_all add: tstat_def tprio_def)
  have nr: "t \<notin> set (tlists s (ReadyQ q))" for q
    using t swf_readyq [OF s, of t q] by (auto simp: in_some_list_def)
  have "queue_state h (tstat s t) (unat p)" if "t \<in> set (tlists s h)" for h
    using swf_queue [OF s that] nr that by (cases h) auto
  then show ?thesis
    using s p nr by (auto simp: swf_def queues_ok_def bitmap_ok_def masks_ok_def stats_ok_def prio_ok_def v)
qed

lemma link_front_eq: "link_front h t s = Some s' \<longleftrightarrow> \<not> in_some_list t (tlists s) \<and> s' = s\<lparr>tlists := lists_push_front h t (tlists s)\<rparr>"
  by (auto simp: link_front_def bind_eq_Some_conv)

lemma swf_link_defunct:
  assumes s: "swf X s" and t: "t \<noteq> 0" "tstat s t = 4" and l: "link_front DefunctQ t s = Some s'"
  shows "swf X s'"
proof -
  have free: "\<not> in_some_list t (tlists s)" and s': "s' = s\<lparr>tlists := (tlists s)(DefunctQ := t # tlists s DefunctQ)\<rparr>"
    using l by (auto simp: link_front_eq lists_push_front_def)
  have "distinct (t # tlists s DefunctQ)"
    using free disjoint_distinct [OF swf_disjoint [OF s], of DefunctQ] by (auto simp: in_some_list_def)
  then show ?thesis
    unfolding s' using t by (intro swf_link [OF s free]) auto
qed

lemma swf_rt_schedule: "swf {} s \<Longrightarrow> rt_schedule s = Some s' \<Longrightarrow> swf {} s'"
proof -
  assume s: "swf {} s" and r: "rt_schedule s = Some s'"
  show "swf {} s'"
  proof (cases "lock_nest s = 0 \<and> ready_group s \<noteq> 0")
    case True
    then have "cur s \<noteq> 0" using r by (auto simp: rt_schedule_def bind_eq_Some_conv)
    then show ?thesis using rt_schedule_ok [OF s] r by (auto simp: okt_def)
  next
    case False
    then show ?thesis using s r by (simp add: rt_schedule_idle)
  qed
qed

lemma swf_rt_exit_critical: "swf {} s \<Longrightarrow> rt_exit_critical s = Some s' \<Longrightarrow> swf {} s'"
  using rt_exit_critical_ok [of s] by (auto simp: okt_def)

lemma swf_rt_object_init: "swf {} s \<Longrightarrow> rt_object_init r ty name s = Some s' \<Longrightarrow> swf {} s'"
  by (erule rt_object_init_Some) (simp add: registered_view, metis swf_rt_exit_critical swf_rt_enter_critical)

text \<open>The reset of a thread structure that is in no list.\<close>

lemma swf_reset_thread:
  assumes s: "swf {} s" and free: "\<not> in_some_list t (tlists s)"
    and f: "th_stat (f (threads s t)) = 0" "th_number_mask (f (threads s t)) = 0"
      "unat (th_current_priority (f (threads s t))) < 32" "unat (th_init_priority (f (threads s t))) < 32"
  shows "swf {} (upd_thread t f s)"
proof -
  have "t \<notin> set (tlists s h)" for h using free by (simp add: in_some_list_def)
  moreover have "tstat (upd_thread t f s) u = (if u = t then 0 else tstat s u)"
    "tprio (upd_thread t f s) u = (if u = t then unat (th_current_priority (f (threads s t))) else tprio s u)" for u
    using f by (simp_all add: tstat_def tprio_def)
  ultimately show ?thesis
    using s f by (auto simp: swf_def queues_ok_def bitmap_ok_def masks_ok_def stats_ok_def prio_ok_def)
qed

lemma swf_timer_init: "swf {} s \<Longrightarrow> rt_timer_init r name tf time flag s = Some s' \<Longrightarrow> swf {} s'"
  by (auto simp: rt_timer_init_def bind_eq_Some_conv obj_onlyD(21) [OF timer_obj_only(5)] intro: swf_rt_object_init)

lemma swf_thread_init:
  assumes s: "swf {} s" and i: "thread_init t name en pa st sz prio tick s = Some (e, s')"
  shows "swf {} s'"
proof -
  let ?g = "\<lambda>r. r\<lparr>th_entry := en, th_parameter := pa, th_stack_addr := st, th_stack_size := sz\<rparr>"
  let ?f = "\<lambda>r. r\<lparr>th_init_priority := prio, th_current_priority := prio, th_number_mask := 0,
     th_init_tick := tick, th_remaining_tick := tick, th_error := RT_EOK, th_stat := RT_THREAD_INIT, th_cleanup := 0, th_user_data := 0\<rparr>"
  have free: "\<not> in_some_list t (tlists s)" and p: "unat prio < 32"
    and u: "rt_timer_init (ThreadTimer t) (o_name (objs s (Obj t))) (Thread_Timeout t) 0 RT_TIMER_FLAG_ONE_SHOT
        (upd_thread t ?f (upd_thread t ?g s)) = Some s'"
    using i by (auto simp: thread_init_def Let_def bind_eq_Some_conv)
  have g: "swf {} (upd_thread t ?g s)" using s by (subst swf_upd_thread) simp_all
  have "swf {} (upd_thread t ?f (upd_thread t ?g s))"
    by (rule swf_reset_thread [OF g]) (use free p in simp_all)
  then show ?thesis using u by (rule swf_timer_init)
qed

lemma swf_rt_thread_init: "swf {} s \<Longrightarrow> rt_thread_init t name en pa st sz prio tick s = Some (e, s') \<Longrightarrow> swf {} s'"
  by (auto simp: rt_thread_init_def bind_eq_Some_conv intro: swf_thread_init swf_rt_object_init)

lemma swf_clear_object: "swf {} s \<Longrightarrow> clear_object ty p s = Some s' \<Longrightarrow> swf {} s'"
  by (auto simp: clear_object_def Let_def bind_eq_Some_conv zero_thread_def split: if_splits intro!: swf_reset_thread)

lemma swf_rt_object_allocate:
  assumes s: "swf {} s" and r: "rt_object_allocate H ty name s = Some (p, s')"
  shows "swf {} s'"
proof (cases "p = 0")
  case True
  then show ?thesis
    using s r by (auto simp: rt_object_allocate_def Let_def bind_eq_Some_conv split: if_splits)
next
  case False
  then obtain h u i f where u: "clear_object ty p (s\<lparr>heap := h\<rparr>) = Some u" and l: "obj_link i (Obj p) (upd_obj (Obj p) f u) = Some s'"
    using r by (auto simp: rt_object_allocate_def Let_def bind_eq_Some_conv split: if_splits)
  have "swf {} u" using swf_clear_object [OF _ u] s by simp
  then show ?thesis using obj_onlyD(21) [OF obj_only_prims(7) [OF l]] by simp
qed

lemma swf_rt_thread_create:
  assumes s: "swf {} s" and r: "rt_thread_create H name en pa sz prio tick s = Some (p, s')"
  shows "swf {} s'"
proof -
  obtain t u where t: "rt_object_allocate H RT_Object_Class_Thread name s = Some (t, u)"
    using r by (auto simp: rt_thread_create_def bind_eq_Some_conv)
  have u: "swf {} u" using swf_rt_object_allocate [OF s t] .
  show ?thesis
  proof (cases "t = 0")
    case True
    then show ?thesis using r t u by (simp add: rt_thread_create_def)
  next
    case False
    then obtain st h where k: "kmalloc H (heap u) (unat sz) = Some (st, h)"
      using r t by (auto simp: rt_thread_create_def bind_eq_Some_conv)
    show ?thesis
    proof (cases "st = 0")
      case True
      then have "rt_object_delete H t (u\<lparr>heap := h\<rparr>) = Some s'"
        using r t k False by (auto simp: rt_thread_create_def bind_eq_Some_conv)
      from obj_onlyD(21) [OF rt_object_delete_obj_only [OF this]] u show ?thesis by simp
    next
      case st: False
      then obtain e where "thread_init t name en pa st sz prio tick (u\<lparr>heap := h\<rparr>) = Some (e, s')"
        using r t k False by (auto simp: rt_thread_create_def bind_eq_Some_conv)
      from swf_thread_init [OF _ this] u show ?thesis by simp
    qed
  qed
qed

lemma suspend_eq:
  assumes r: "rt_thread_suspend t s = Some (e, s')"
  obtains "e = - RT_ERROR" "s' = s" "tstat s t \<noteq> 1" "tstat s t \<noteq> 3"
    | e1 where "e = RT_EOK" "tstat s t = 1 \<or> tstat s t = 3" "tstat s t = 3 \<Longrightarrow> t = cur s" "t \<noteq> 0"
      "rt_timer_stop (ThreadTimer t) (set_stat t 2 (dequeued t s)) = Some (e1, s')"
  using r by (auto simp: rt_thread_suspend_def Let_def bind_eq_Some_conv rt_thread_self_def split: if_splits
      dest!: rt_schedule_remove_thread_Some)

lemma swf_suspended:
  assumes s: "swf {} s" and t: "tstat s t = 1 \<or> tstat s t = 3"
  shows "swf {} (set_stat t 2 (dequeued t s))"
proof -
  have "prio_ok s t" using swf_prio_ok [OF s, of t] t by auto
  then have "swf (insert t {} - {t}) (set_stat t 2 (dequeued t s))"
    by (intro swf_set_stat_free swf_dequeued [OF s]) (simp_all add: prio_ok_def)
  then show ?thesis by simp
qed

lemma swf_rt_thread_suspend: "swf {} s \<Longrightarrow> rt_thread_suspend t s = Some (e, s') \<Longrightarrow> swf {} s'"
  by (erule suspend_eq) (auto simp: obj_onlyD(21) [OF timer_obj_only(2)] swf_suspended)

lemma resume_eq:
  assumes r: "rt_thread_resume t s = Some (e, s')"
  obtains "e = - RT_ERROR" "s' = s" "tstat s t \<noteq> 2"
    | e1 u where "e = RT_EOK" "tstat s t = 2" "t \<noteq> 0"
      "rt_timer_stop (ThreadTimer t) (unlink_thread t s) = Some (e1, u)" "rt_schedule_insert_thread t u = Some s'"
  using r by (auto simp: rt_thread_resume_def Let_def bind_eq_Some_conv split: if_splits)

lemma swf_rt_thread_resume:
  assumes s: "swf {} s" and r: "rt_thread_resume t s = Some (e, s')"
  shows "swf {} s'"
  using r
proof (cases rule: resume_eq)
  case (2 e1 u)
  note o = obj_onlyD [OF timer_obj_only(2) [OF 2(4)]]
  have "rt_schedule_insert_thread t u = Some (enqueued t u) \<and> swf {} (enqueued t u)"
    using swf_wake [OF s 2(2,3), of u] o by simp
  then show ?thesis using 2 by simp
qed (use s in simp)

lemma swf_rt_thread_startup:
  assumes s: "swf {} s" and r: "rt_thread_startup t s = Some (e, s')"
  shows "swf {} s'"
proof -
  let ?p = "th_init_priority (threads s t)"
  let ?s1 = "upd_thread t (\<lambda>r. r\<lparr>th_current_priority := ?p, th_number_mask := bitmask (unat ?p)\<rparr>) s"
  let ?s2 = "upd_thread t (\<lambda>r. r\<lparr>th_stat := 2\<rparr>) ?s1"
  obtain e1 u where t: "t \<noteq> 0" "tstat s t = 0" and u: "rt_thread_resume t ?s2 = Some (e1, u)"
    and sc: "(if cur u \<noteq> 0 then rt_schedule u else Some u) = Some s'"
    using r by (auto simp: rt_thread_startup_def set_priority_def Let_def bind_eq_Some_conv rt_thread_self_def split: if_splits)
  have free: "\<not> in_some_list t (tlists s)" using swf_linked(2) [OF s] t by auto
  have s1: "swf {} ?s1" using swf_set_priority [OF s swf_prio_lt(2) [OF s, of t], of t] t by simp
  have p: "prio_ok ?s1 t" using swf_prio_lt(2) [OF s, of t] by (simp add: prio_ok_def tprio_def)
  have "swf ({} - {t}) ?s2" using free p by (intro swf_upd_stat_free [OF s1]) auto
  then have "swf {} u" using swf_rt_thread_resume [OF _ u] by simp
  then show ?thesis using sc by (auto split: if_splits intro: swf_rt_schedule)
qed

text \<open>The common end of \<^verbatim>\<open>rt_thread_exit\<close>, \<^verbatim>\<open>rt_thread_detach\<close> and \<^verbatim>\<open>rt_thread_delete\<close>.\<close>

lemma swf_closed:
  assumes s: "swf {t} s" and free: "\<not> in_some_list t (tlists s)"
  shows "swf {} (upd_thread t (\<lambda>r. r\<lparr>th_stat := 4\<rparr>) s)"
  using swf_upd_stat_free [OF s free, of 4] by simp

lemma tstat_closed: "tstat (upd_thread t (\<lambda>r. r\<lparr>th_stat := 4\<rparr>) s) t = 4"
  by (simp add: tstat_def)

lemma swf_bury:
  assumes s: "swf {} s" and t: "t \<noteq> 0" "tstat s t = 4"
    and r: "rt_object_detach (Obj t) s = Some s' \<or> link_front DefunctQ t s = Some s'"
  shows "swf {} s'"
  using r
proof
  assume "rt_object_detach (Obj t) s = Some s'"
  from obj_onlyD(21) [OF rt_object_detach_obj_only [OF this]] s show ?thesis by simp
qed (rule swf_link_defunct [OF s t])

lemma swf_rt_thread_exit:
  assumes s: "swf {} s" and r: "rt_thread_exit s = Some s'"
  shows "swf {} s'"
proof -
  let ?t = "cur s"
  let ?s1 = "upd_thread ?t (\<lambda>r. r\<lparr>th_stat := 4\<rparr>) (dequeued ?t s)"
  obtain s0 where rm: "rt_schedule_remove_thread ?t s = Some s0"
    using r by (auto simp: rt_thread_exit_def Let_def bind_eq_Some_conv rt_thread_self_def)
  then have t: "?t \<noteq> 0" and s0: "s0 = dequeued ?t s" by (auto dest: rt_schedule_remove_thread_Some)
  obtain e u v where u: "rt_timer_detach (ThreadTimer ?t) ?s1 = Some (e, u)"
    and v: "rt_object_detach (Obj ?t) u = Some v \<or> link_front DefunctQ ?t u = Some v" and sc: "rt_schedule v = Some s'"
    using r rm unfolding s0 by (auto simp: rt_thread_exit_def Let_def bind_eq_Some_conv rt_thread_self_def split: if_splits)
  note o = obj_onlyD [OF timer_obj_only(3) [OF u]]
  have "swf {} ?s1" using swf_dequeued [OF s] by (intro swf_closed) auto
  then have "swf {} u" "tstat u ?t = 4" using o tstat_closed by auto
  from swf_bury [OF this(1) t this(2) v] have "swf {} v" .
  then show ?thesis using sc by (rule swf_rt_schedule)
qed

lemma swf_rt_thread_detach_delete:
  assumes s: "swf {} s" and t: "t \<noteq> 0"
    and a: "(if tstat s t \<noteq> 0 then rt_schedule_remove_thread t s else Some s) = Some s1"
    and b: "rt_timer_detach (ThreadTimer t) s1 = Some (e, s2)"
    and c: "rt_object_detach (Obj t) (upd_thread t (\<lambda>r. r\<lparr>th_stat := 4\<rparr>) s2) = Some s' \<or>
      link_front DefunctQ t (upd_thread t (\<lambda>r. r\<lparr>th_stat := 4\<rparr>) s2) = Some s'"
  shows "swf {} s'"
proof -
  note o = obj_onlyD [OF timer_obj_only(3) [OF b]]
  have "swf {t} s1 \<and> \<not> in_some_list t (tlists s1)"
  proof (cases "tstat s t = 0")
    case True
    then show ?thesis using a s swf_linked(2) [OF s, of t] swf_mono [OF s] by auto
  next
    case False
    then show ?thesis using a swf_dequeued [OF s, of t] by (auto dest!: rt_schedule_remove_thread_Some)
  qed
  then have "swf {} (upd_thread t (\<lambda>r. r\<lparr>th_stat := 4\<rparr>) s2)" using o by (intro swf_closed) auto
  then show ?thesis using t c by (intro swf_bury [OF _ t tstat_closed c])
qed

lemma swf_rt_thread_detach:
  assumes s: "swf {} s" and r: "rt_thread_detach t s = Some (e, s')"
  shows "swf {} s'"
proof -
  obtain s1 e1 s2 where t: "t \<noteq> 0" and "(if tstat s t \<noteq> 0 then rt_schedule_remove_thread t s else Some s) = Some s1"
    "rt_timer_detach (ThreadTimer t) s1 = Some (e1, s2)"
    "rt_object_detach (Obj t) (upd_thread t (\<lambda>r. r\<lparr>th_stat := 4\<rparr>) s2) = Some s' \<or>
      link_front DefunctQ t (upd_thread t (\<lambda>r. r\<lparr>th_stat := 4\<rparr>) s2) = Some s'"
    using r by (auto simp: rt_thread_detach_def Let_def bind_eq_Some_conv split: if_splits)
  from swf_rt_thread_detach_delete [OF s this] show ?thesis .
qed

lemma swf_rt_thread_delete:
  assumes s: "swf {} s" and r: "rt_thread_delete t s = Some (e, s')"
  shows "swf {} s'"
proof -
  obtain s1 e1 s2 where t: "t \<noteq> 0" and "(if tstat s t \<noteq> 0 then rt_schedule_remove_thread t s else Some s) = Some s1"
    "rt_timer_detach (ThreadTimer t) s1 = Some (e1, s2)"
    "rt_object_detach (Obj t) (upd_thread t (\<lambda>r. r\<lparr>th_stat := 4\<rparr>) s2) = Some s' \<or>
      link_front DefunctQ t (upd_thread t (\<lambda>r. r\<lparr>th_stat := 4\<rparr>) s2) = Some s'"
    using r by (auto simp: rt_thread_delete_def Let_def bind_eq_Some_conv split: if_splits)
  from swf_rt_thread_detach_delete [OF s this] show ?thesis .
qed

lemma swf_rt_thread_timeout:
  assumes s: "swf {} s" and r: "rt_thread_timeout t s = Some s'"
  shows "swf {} s'"
proof -
  let ?u = "unlink_thread t (set_error t (- RT_ETIMEOUT) s)"
  obtain v where t: "tstat s t = 2" "t \<noteq> 0" and v: "rt_schedule_insert_thread t ?u = Some v" and sc: "rt_schedule v = Some s'"
    using r by (auto simp: rt_thread_timeout_def Let_def bind_eq_Some_conv)
  have "v = enqueued t ?u \<and> swf {} (enqueued t ?u)"
    using swf_wake [OF s t, of ?u] v by simp
  then show ?thesis using sc swf_rt_schedule by auto
qed

lemma swf_rt_thread_control:
  assumes s: "swf {} s" and r: "rt_thread_control t cmd arg s = Some (e, s')"
  shows "swf {} s'"
proof -
  have t: "t \<noteq> 0" using r by (auto simp: rt_thread_control_def bind_eq_Some_conv)
  let ?f = "\<lambda>r. r\<lparr>th_current_priority := arg, th_number_mask := bitmask (unat arg)\<rparr>"
  consider "cmd = 2" "tstat s t = 1" | "cmd = 2" "tstat s t \<noteq> 1" | "cmd \<noteq> 2" by blast
  then show ?thesis
  proof cases
    case 1
    let ?d = "dequeued t s"
    have p: "unat arg < 32" and ins: "rt_schedule_insert_thread t (upd_thread t ?f ?d) = Some s'"
      using r 1 by (auto simp: rt_thread_control_def set_priority_def bind_eq_Some_conv dest!: rt_schedule_remove_thread_Some)
    have "swf (insert t {t}) (upd_thread t ?f ?d)"
      using swf_set_priority [OF swf_dequeued [OF s, of t] p, of t] 1 by simp
    then have "swf (insert t {t} - {t}) (enqueued t (upd_thread t ?f ?d))"
      using t p by (intro swf_enqueued) (auto simp: prio_ok_def tprio_def)
    then show ?thesis using rt_schedule_insert_thread_Some [OF ins] by simp
  next
    case 2
    then have p: "unat arg < 32" and "s' = upd_thread t ?f s"
      using r by (auto simp: rt_thread_control_def set_priority_def bind_eq_Some_conv)
    then show ?thesis using swf_set_priority [OF s p, of t] 2 by simp
  next
    case 3
    then show ?thesis
      using r s by (auto simp: rt_thread_control_def bind_eq_Some_conv split: if_splits
        intro: swf_rt_thread_startup swf_rt_thread_delete)
  qed
qed

lemma rt_thread_sleep_Some:
  assumes "rt_thread_sleep tick s = Some (t, s')"
  obtains e1 s1 e2 a s2 e3 s3 where "t = cur s" "rt_thread_suspend t s = Some (e1, s1)"
    "rt_timer_control (ThreadTimer t) 0 tick s1 = Some (e2, a, s2)" "rt_timer_start (ThreadTimer t) s2 = Some (e3, s3)"
    "rt_schedule s3 = Some s'"
  using assms by (auto simp: rt_thread_sleep_def Let_def bind_eq_Some_conv rt_thread_self_def)

lemma swf_rt_thread_sleep:
  assumes s: "swf {} s" and r: "rt_thread_sleep tick s = Some (t, s')"
  shows "swf {} s'"
  using r
proof (cases rule: rt_thread_sleep_Some)
  case (1 e1 s1 e2 a s2 e3 s3)
  have "swf {} s3"
    using swf_rt_thread_suspend [OF s 1(2)] obj_onlyD(21) [OF timer_obj_only(4) [OF 1(3)]] obj_onlyD(21) [OF timer_obj_only(1) [OF 1(4)]]
    by simp
  then show ?thesis using 1(5) by (rule swf_rt_schedule)
qed

lemma swf_rt_thread_sleep_resume: "swf X s \<Longrightarrow> swf X (snd (rt_thread_sleep_resume t s))"
  by (simp add: rt_thread_sleep_resume_def)

lemma swf_rt_thread_find: "swf {} s \<Longrightarrow> rt_thread_find name s = Some (r, s') \<Longrightarrow> swf {} s'"
  by (auto simp: rt_thread_find_def Let_def bind_eq_Some_conv dest: swf_rt_exit_critical [rotated] split: if_splits)

lemma swf_timer_restart: "swf {} s \<Longrightarrow> timer_restart t s = Some s' \<Longrightarrow> swf {} s'"
  by (auto simp: timer_restart_def Let_def bind_eq_Some_conv obj_onlyD(21) [OF timer_obj_only(1)] split: if_splits)

text \<open>Interrupt handlers and user callbacks are required to keep the invariant.\<close>

definition cb_swf :: "'h callback \<Rightarrow> bool" where
  "cb_swf cb \<longleftrightarrow> (\<forall>f s s'. swf {} s \<longrightarrow> cb f s = Some s' \<longrightarrow> swf {} s')"

lemma swf_timer_check_loop: "cb_swf cb \<Longrightarrow> swf {} s \<Longrightarrow> timer_check_loop fuel cb now s = Some s' \<Longrightarrow> swf {} s'"
proof (induction fuel arbitrary: now s)
  case (Suc fuel)
  show ?case
  proof (cases "timer_list s")
    case (Cons t ts)
    show ?thesis
    proof (cases "now - tm_timeout (timers s t) < RT_TICK_HALF")
      case True
      then obtain u v where u: "cb (tm_func (timers (timer_remove t s) t)) (timer_remove t s) = Some u"
        and v: "timer_restart t u = Some v" and l: "timer_check_loop fuel cb (rt_tick_get u) v = Some s'"
        using Suc.prems(3) Cons by (auto simp: Let_def bind_eq_Some_conv)
      have "swf {} u" using u Suc.prems(1,2) unfolding cb_swf_def by (metis obj_onlyD(21) obj_only_prims(4))
      then have "swf {} v" using v by (rule swf_timer_restart)
      then show ?thesis using Suc.IH [OF Suc.prems(1) _ l] by simp
    qed (use Suc.prems Cons in simp)
  qed (use Suc.prems in simp)
qed simp

lemma cb_swf_timeout_call:
  "(\<And>g p s s'. swf {} s \<Longrightarrow> user g p s = Some s' \<Longrightarrow> swf {} s') \<Longrightarrow> cb_swf (timeout_call user)"
  by (auto simp: cb_swf_def timeout_call_def intro: swf_rt_thread_timeout split: timeout_fn.splits)

lemma swf_rt_tick_increase:
  assumes user: "\<And>g p s s'. swf {} s \<Longrightarrow> user g p s = Some s' \<Longrightarrow> swf {} s'"
    and s: "swf {} s" and r: "rt_tick_increase fuel user s = Some s'"
  shows "swf {} s'"
proof -
  let ?s1 = "upd_thread (cur s) (\<lambda>r. r\<lparr>th_remaining_tick := th_remaining_tick r - 1\<rparr>) (s\<lparr>ticks := ticks s + 1\<rparr>)"
  have s1: "swf {} ?s1" using s by (subst swf_upd_thread) simp_all
  obtain u where u: "u = ?s1 \<or> rt_schedule (upd_thread (cur s) (\<lambda>r. r\<lparr>th_remaining_tick := th_init_tick r\<rparr>) ?s1) = Some u"
    and l: "rt_timer_check fuel (timeout_call user) u = Some s'"
    using r by (auto simp: rt_tick_increase_def Let_def rt_thread_self_def rt_thread_yield_def bind_eq_Some_conv split: if_splits)
  have s2: "swf {} (upd_thread (cur s) (\<lambda>r. r\<lparr>th_remaining_tick := th_init_tick r\<rparr>) ?s1)"
    using s1 by (subst swf_upd_thread) simp_all
  have "swf {} u" using u s1 swf_rt_schedule [OF s2] by auto
  then show ?thesis
    using l swf_timer_check_loop [OF cb_swf_timeout_call] user unfolding rt_timer_check_def by blast
qed

lemma swf_rt_thread_idle_excute:
  assumes cl: "\<And>f t s s'. swf {} s \<Longrightarrow> cleanup f t s = Some s' \<Longrightarrow> swf {} s'"
  shows "swf {} s \<Longrightarrow> rt_thread_idle_excute fuel H cleanup s = Some s' \<Longrightarrow> swf {} s'"
proof (induction fuel arbitrary: s)
  case (Suc fuel)
  show ?case
  proof (cases "has_defunct_thread s")
    case False
    then show ?thesis using Suc.prems by simp
  next
    case True
    let ?t = "hd (tlists s DefunctQ)"
    let ?s1 = "rt_enter_critical (unlink_thread ?t s)"
    have "?t \<in> set (tlists s DefunctQ)" using True by (simp add: has_defunct_thread_def)
    then have "tstat s ?t = 4" using swf_queue [OF Suc.prems(1)] by fastforce
    then have s1: "swf {} ?s1" using swf_unlink_nonready [OF Suc.prems(1), of ?t] by simp
    obtain u where u: "u = ?s1 \<or> cleanup (th_cleanup (threads ?s1 ?t)) ?t ?s1 = Some u"
      and fin: "(\<exists>v. rt_object_detach (Obj ?t) u = Some v \<and> rt_exit_critical v = Some s') \<or>
        (\<exists>v h w. rt_exit_critical u = Some v \<and> rt_object_delete H ?t (v\<lparr>heap := h\<rparr>) = Some w \<and>
           rt_thread_idle_excute fuel H cleanup w = Some s')"
      using Suc.prems(2) True by (simp add: Let_def bind_eq_Some_conv split: if_splits) blast+
    have su: "swf {} u" using u s1 cl [OF s1] by blast
    from fin show ?thesis
    proof (elim disjE exE conjE)
      fix v assume v: "rt_object_detach (Obj ?t) u = Some v" and x: "rt_exit_critical v = Some s'"
      have "swf {} v" using su obj_onlyD(21) [OF rt_object_detach_obj_only [OF v]] by simp
      then show ?thesis using x by (rule swf_rt_exit_critical)
    next
      fix v h w assume v: "rt_exit_critical u = Some v" and w: "rt_object_delete H ?t (v\<lparr>heap := h\<rparr>) = Some w"
        and l: "rt_thread_idle_excute fuel H cleanup w = Some s'"
      have "swf {} w" using swf_rt_exit_critical [OF su v] obj_onlyD(21) [OF rt_object_delete_obj_only [OF w]] by simp
      then show ?thesis using l by (rule Suc.IH)
    qed
  qed
qed simp

section \<open>Total correctness of the thread operations\<close>

text \<open>The thread and its embedded timer carry the right object classes.\<close>

definition thread_ok :: "'h kernel \<Rightarrow> ptr \<Rightarrow> bool" where
  "thread_ok s t \<longleftrightarrow> t \<noteq> RT_NULL \<and> o_type (objs s (Obj t)) AND NOT RT_Object_Class_Static = RT_Object_Class_Thread \<and>
     timer_obj s (ThreadTimer t)"

lemma thread_ok_check [simp]: "thread_ok s t \<Longrightarrow> thread_check t s = Some ()"
  by (simp add: thread_ok_def)

lemma thread_ok_cong: "objs s' = objs s \<Longrightarrow> thread_ok s' t = thread_ok s t"
  by (simp add: thread_ok_def timer_obj_def)

text \<open>Stopping a timer changes nothing but the timer list and the timer's flag.\<close>

lemma rt_timer_stop_obj:
  assumes "timer_obj s r"
  obtains e s' where "rt_timer_stop r s = Some (e, s')" "obj_only s s'" "\<And>x. o_type (objs s' x) = o_type (objs s x)"
    "timers s' = timers s" "timer_list s' = removeAll r (timer_list s) \<or> timer_list s' = timer_list s" 
proof (cases "o_flag (objs s r) AND RT_TIMER_FLAG_ACTIVATED = 0")
  case True
  then have "rt_timer_stop r s = Some (- 1, s)" using assms by (simp add: rt_timer_stop_def timer_check_type_eq)
  then show ?thesis by (rule that) auto
next
  case False
  then have "rt_timer_stop r s = Some (0, upd_obj r (\<lambda>r. r\<lparr>o_flag := o_flag r AND NOT RT_TIMER_FLAG_ACTIVATED\<rparr>) (timer_remove r s))"
    using assms by (simp add: rt_timer_stop_def timer_check_type_eq Let_def)
  then show ?thesis
    by (rule that) (auto simp: timer_remove_def intro: obj_only_trans [OF obj_only_prims(4) [unfolded timer_remove_def] obj_only_prims(1)])
qed

lemma rt_thread_suspend_total:
  assumes s: "swf {} s" and t: "thread_ok s t" "tstat s t = 1 \<or> tstat s t = 3"
  obtains u where "rt_thread_suspend t s = Some (RT_EOK, u)" "obj_only (set_stat t 2 (dequeued t s)) u" "thread_ok u t" "swf {} u"
proof -
  let ?s1 = "set_stat t 2 (dequeued t s)"
  have s1: "swf {} ?s1" using swf_suspended [OF s t(2)] .
  have "timer_obj ?s1 (ThreadTimer t)" using t by (simp add: thread_ok_def timer_obj_def)
  then obtain e u where u: "rt_timer_stop (ThreadTimer t) ?s1 = Some (e, u)" "obj_only ?s1 u"
    "\<And>x. o_type (objs u x) = o_type (objs ?s1 x)" by (rule rt_timer_stop_obj) blast
  have c: "tstat s t = 3 \<Longrightarrow> t = cur s" using s by (simp add: swf_def stats_ok_def)
  have r: "rt_schedule_remove_thread t s = Some (dequeued t s)"
    using t swf_prio_lt(1) [OF s] by (intro rt_schedule_remove_thread_eq) (auto simp: thread_ok_def)
  show thesis
  proof (rule that [OF _ u(2)])
    show "rt_thread_suspend t s = Some (RT_EOK, u)"
      using t c r u(1) by (auto simp: rt_thread_suspend_def Let_def rt_thread_self_def)
    show "thread_ok u t" using t u(3) by (simp add: thread_ok_def timer_obj_def)
    show "swf {} u" using obj_onlyD(21) [OF u(2)] s1 by simp
  qed
qed

lemma rt_thread_resume_total:
  assumes s: "swf {} s" and t: "thread_ok s t" "tstat s t = 2"
  obtains u where "rt_thread_resume t s = Some (RT_EOK, enqueued t u)" "obj_only (unlink_thread t s) u" "swf {} (enqueued t u)"
    "\<And>x. o_type (objs u x) = o_type (objs s x)" "timers u = timers s"
proof -
  have "timer_obj (unlink_thread t s) (ThreadTimer t)" using t by (simp add: thread_ok_def timer_obj_def)
  then obtain e u where u: "rt_timer_stop (ThreadTimer t) (unlink_thread t s) = Some (e, u)" "obj_only (unlink_thread t s) u"
    "\<And>x. o_type (objs u x) = o_type (objs (unlink_thread t s) x)" "timers u = timers (unlink_thread t s)" by (rule rt_timer_stop_obj) blast
  note o = obj_onlyD [OF u(2)]
  have t0: "t \<noteq> 0" using t by (simp add: thread_ok_def)
  have w: "rt_schedule_insert_thread t u = Some (enqueued t u)" "swf {} (enqueued t u)"
    using swf_wake [OF s t(2) t0, of u] o by simp_all
  show thesis
  proof (rule that [OF _ u(2) w(2)])
    show "rt_thread_resume t s = Some (RT_EOK, enqueued t u)"
      using t u(1) w(1) by (simp add: rt_thread_resume_def Let_def)
  qed (use u in simp_all)
qed

lemma rt_thread_startup_total:
  assumes s: "swf {} s" and t: "thread_ok s t" "tstat s t = 0"
  obtains u where "swf {} u" "cur u = cur s" "lock_nest u = lock_nest s" "tprio u t = unat (th_init_priority (threads s t))"
    "\<And>x. x \<noteq> t \<Longrightarrow> tstat u x = tstat s x" "tstat u t = (if t = cur s then 3 else 1)"
    "\<And>v. (if cur s \<noteq> 0 then rt_schedule u else Some u) = Some v \<Longrightarrow> rt_thread_startup t s = Some (RT_EOK, v)"
proof -
  let ?p = "th_init_priority (threads s t)"
  let ?s1 = "upd_thread t (\<lambda>r. r\<lparr>th_current_priority := ?p, th_number_mask := bitmask (unat ?p)\<rparr>) s"
  let ?s2 = "upd_thread t (\<lambda>r. r\<lparr>th_stat := 2\<rparr>) ?s1"
  have p: "unat ?p < 32" using swf_prio_lt(2) [OF s] .
  have free: "\<not> in_some_list t (tlists s)" using swf_linked(2) [OF s] t by auto
  have s1: "swf {} ?s1" using swf_set_priority [OF s p, of t] t by simp
  have "swf ({} - {t}) ?s2" using free p by (intro swf_upd_stat_free [OF s1]) (auto simp: prio_ok_def tprio_def)
  then have s2: "swf {} ?s2" by simp
  have t2: "thread_ok ?s2 t" "tstat ?s2 t = 2" using t thread_ok_cong [of ?s2 s] by (auto simp: tstat_def)
  obtain u where u: "rt_thread_resume t ?s2 = Some (RT_EOK, enqueued t u)" "obj_only (unlink_thread t ?s2) u" "swf {} (enqueued t u)"
    using rt_thread_resume_total [OF s2 t2] by metis
  note o = obj_onlyD [OF u(2)]
  have st: "rt_thread_startup t s = Some (RT_EOK, v)" if "(if cur s \<noteq> 0 then rt_schedule (enqueued t u) else Some (enqueued t u)) = Some v" for v
    using t u(1) p that o by (auto simp: rt_thread_startup_def set_priority_def Let_def rt_thread_self_def thread_ok_def split: if_splits)
  have v: "tstat ?s2 x = (if x = t then 2 else tstat s x)" "tprio ?s2 t = unat ?p" for x
    by (simp_all add: tstat_def tprio_def)
  show thesis
    using u(3) st by (intro that [of "enqueued t u"]) (auto simp: tstat_enqueued o v)
qed

lemma timers_ok_rt_timer_stop:
  assumes s: "timers_ok s" and r: "rt_timer_stop t s = Some (e, s')"
  shows "timers_ok s'" "t \<notin> set (timer_list s')"
proof -
  have t: "timer_obj s t" using r by (auto simp: rt_timer_stop_def timer_check_type_eq bind_eq_Some_conv split: if_splits)
  have "timers_ok s' \<and> t \<notin> set (timer_list s')"
  proof (cases "o_flag (objs s t) AND 1 = 0")
    case True
    then have "s' = s" using r t by (simp add: rt_timer_stop_def timer_check_type_eq)
    moreover have "t \<notin> set (timer_list s)" using s True by (auto simp: timers_ok_def timer_flag_def)
    ultimately show ?thesis using s by simp
  next
    case False
    then have s': "s' = upd_obj t (\<lambda>r. r\<lparr>o_flag := o_flag r AND NOT RT_TIMER_FLAG_ACTIVATED\<rparr>) (timer_remove t s)"
      using r t by (simp add: rt_timer_stop_def timer_check_type_eq Let_def)
    then show ?thesis using timers_ok_upd_free [OF timers_ok_remove [OF s, of t], of t] by (auto simp: timer_remove_def)
  qed
  then show "timers_ok s'" "t \<notin> set (timer_list s')" by auto
qed

lemma timers_ok_upd_timer_free:
  "timers_ok s \<Longrightarrow> t \<notin> set (timer_list s) \<Longrightarrow> timers_ok (upd_timer t f s)"
proof -
  assume s: "timers_ok s" and t: "t \<notin> set (timer_list s)"
  have d: "due (upd_timer t f s) x = due s x" if "x \<in> set (timer_list s)" for x
    using t that by (auto simp: due_def)
  then have m: "map (due (upd_timer t f s)) (timer_list s) = map (due s) (timer_list s)" by simp
  show ?thesis using s d unfolding timers_ok_def by (simp add: m timer_obj_def timer_flag_def)
qed

text \<open>No timer is due: the check returns at once.\<close>

lemma rt_timer_check_idle:
  assumes "timers_ok s" and "\<And>t. t \<in> set (timer_list s) \<Longrightarrow> 0 < due s t"
  shows "rt_timer_check (Suc fuel) cb s = Some s"
proof (cases "timer_list s")
  case (Cons t ts)
  have "0 < due s t" "due s t < HALF" using assms Cons by (auto simp: timers_ok_def)
  then have "\<not> ticks s - tm_timeout (timers s t) < RT_TICK_HALF"
    using wrapped_expired [of "tm_timeout (timers s t)" "ticks s"] by (simp add: due_def)
  then show ?thesis using Cons by (simp add: rt_timer_check_def rt_tick_get_def)
qed (simp add: rt_timer_check_def)

section \<open>A concrete state\<close>

text \<open>The scheduler example with object headers: threads 1 to 4 as before, thread 5 initialised but not started.\<close>

definition thread_demo :: "unit kernel" where
  "thread_demo = sched_demo\<lparr>objs := (\<lambda>r. case r of Obj p \<Rightarrow> zero_object\<lparr>o_type := 0x81\<rparr> | ThreadTimer p \<Rightarrow> zero_object\<lparr>o_type := 0x8A\<rparr>)\<rparr>"

lemma thread_demo_view [simp]:
  "swf {} thread_demo" "t \<noteq> 0 \<Longrightarrow> thread_ok thread_demo t" "lock_nest thread_demo = 0" "cur thread_demo = 1"
  "tstat thread_demo t = tstat sched_demo t" "tprio thread_demo t = tprio sched_demo t" "tlists thread_demo = tlists sched_demo"
  "ready_group thread_demo = ready_group sched_demo" "timer_list thread_demo = []" "ticks thread_demo = 0"
  by (simp_all add: thread_demo_def swf_sched_demo sched_demo_view(3,4) thread_ok_def timer_obj_def)
    (simp_all add: tstat_def tprio_def sched_demo_def zero_defs)

section \<open>Properties\<close>

text \<open>
  \<^verbatim>\<open>rt_thread_suspend\<close> on a ready thread takes it out of the ready queue and makes it SUSPEND, and
  \<^verbatim>\<open>rt_thread_resume\<close> brings it back as the last thread of its priority; both return \<^verbatim>\<open>RT_EOK\<close>, keep the scheduler
  invariant and change no other queue.
\<close>

theorem rt_thread_suspend_resume:
  assumes s: "swf {} s" and t: "thread_ok s t" and r: "tstat s t = RT_THREAD_READY"
  shows "\<exists>s1 s2. rt_thread_suspend t s = Some (RT_EOK, s1) \<and> swf {} s1 \<and> tstat s1 t = RT_THREAD_SUSPEND \<and> \<not> in_some_list t (tlists s1) \<and>
    rt_thread_resume t s1 = Some (RT_EOK, s2) \<and> swf {} s2 \<and> tstat s2 t = RT_THREAD_READY \<and>
    tlists s2 = (tlists s)(ReadyQ (tprio s t) := removeAll t (tlists s (ReadyQ (tprio s t))) @ [t])"
proof -
  obtain s1 where s1: "rt_thread_suspend t s = Some (RT_EOK, s1)" "obj_only (set_stat t 2 (dequeued t s)) s1" "thread_ok s1 t" "swf {} s1"
    using rt_thread_suspend_total [OF s t] r by metis
  note o1 = obj_onlyD [OF s1(2)]
  have t1: "tstat s1 t = 2" by (simp add: o1 tstat_set_stat)
  obtain u where u: "rt_thread_resume t s1 = Some (RT_EOK, enqueued t u)" "obj_only (unlink_thread t s1) u" "swf {} (enqueued t u)"
    using rt_thread_resume_total [OF s1(4,3) t1] by metis
  note o2 = obj_onlyD [OF u(2)]
  have c: "t \<noteq> cur s" using swf_ready_thread(4) [OF s r] by simp
  have mem: "t \<in> set (tlists s (ReadyQ (tprio s t)))" using swf_ready_thread(1) [OF s r] by simp
  have rm: "lists_remove t (lists_remove t (tlists s)) h = (if h = ReadyQ (tprio s t) then removeAll t (tlists s h) else tlists s h)" for h
  proof (cases "h = ReadyQ (tprio s t)")
    case False
    then have "t \<notin> set (tlists s h)" using disjointD [OF swf_disjoint [OF s] mem, of h] by auto
    then show ?thesis using False by (simp add: lists_remove_def)
  qed (simp add: lists_remove_def)
  have "tlists (enqueued t u) = (tlists s)(ReadyQ (tprio s t) := removeAll t (tlists s (ReadyQ (tprio s t))) @ [t])"
    using c by (auto simp: tlists_enqueued o1 o2 lists_push_back_def rm fun_eq_iff)
  moreover have "tstat (enqueued t u) t = 1" using c by (simp add: tstat_enqueued o1 o2)
  moreover have "\<not> in_some_list t (tlists s1)" by (simp add: o1)
  ultimately show ?thesis using s1(1,4) t1 u(1,3) by auto
qed

theorem rt_thread_suspend_resume_witness:
  "\<exists>s1 s2. rt_thread_suspend 2 thread_demo = Some (RT_EOK, s1) \<and> rt_thread_resume 2 s1 = Some (RT_EOK, s2) \<and>
     tlists s2 = (tlists thread_demo)(ReadyQ 5 := [4, 2])"
  using rt_thread_suspend_resume [of thread_demo 2] by (auto simp: sched_demo_view)

text \<open>
  \<^verbatim>\<open>rt_thread_startup\<close> of an initialised thread returns \<^verbatim>\<open>RT_EOK\<close>, gives the thread its initial priority and
  makes it ready or running; if the scheduler is unlocked and a thread is running, the thread that runs
  afterwards has the highest priority, the started thread included.
\<close>

theorem rt_thread_startup_preempts:
  assumes s: "swf {} s" and t: "thread_ok s t" and i: "tstat s t = RT_THREAD_INIT"
    and l: "lock_nest s = 0" and c: "cur s \<noteq> RT_NULL" and r: "tstat s (cur s) = RT_THREAD_RUNNING"
  shows "\<exists>s'. rt_thread_startup t s = Some (RT_EOK, s') \<and> swf {} s' \<and> tprio s' t = unat (th_init_priority (threads s t)) \<and>
    (tstat s' t = RT_THREAD_READY \<or> tstat s' t = RT_THREAD_RUNNING) \<and> tstat s' (cur s') = RT_THREAD_RUNNING \<and>
    (\<forall>x. tstat s' x = RT_THREAD_READY \<longrightarrow> tprio s' (cur s') \<le> tprio s' x)"
proof -
  obtain u where u: "swf {} u" "cur u = cur s" "lock_nest u = lock_nest s" "tprio u t = unat (th_init_priority (threads s t))"
    "\<And>x. x \<noteq> t \<Longrightarrow> tstat u x = tstat s x" "tstat u t = (if t = cur s then 3 else 1)"
    and v: "\<And>v. (if cur s \<noteq> 0 then rt_schedule u else Some u) = Some v \<Longrightarrow> rt_thread_startup t s = Some (RT_EOK, v)"
    using rt_thread_startup_total [OF s t i] by metis
  have "cur s \<noteq> t" using r i by auto
  then have "tstat u (cur u) = 3" using u(2) u(5) r by simp
  then obtain s' where s': "rt_schedule u = Some s'" "swf {} s'" "tstat s' (cur s') = 3"
    "\<forall>x. tstat s' x = 1 \<longrightarrow> tprio s' (cur s') \<le> tprio s' x"
    using rt_schedule_highest [OF u(1)] u(2,3) l c by auto
  have "tprio s' t = tprio u t" using sched_onlyD(19) [OF rt_schedule_sched_only(1) [OF s'(1)]] .
  moreover have "tstat s' t = 1 \<or> tstat s' t = 3" using rt_schedule_states(2) [OF u(1) s'(1), of t] u(6) by (auto split: if_splits)
  ultimately show ?thesis
    using v [of s'] s' c u(4) by auto
qed

theorem rt_thread_startup_preempts_witness:
  "\<exists>s'. rt_thread_startup 5 thread_demo = Some (RT_EOK, s') \<and> tstat s' (cur s') = RT_THREAD_RUNNING"
  using rt_thread_startup_preempts [of thread_demo 5] by (auto simp: sched_demo_view)

text \<open>
  \<^verbatim>\<open>rt_thread_timeout\<close>, the timeout function of a waiting thread: whichever wait list holds the suspended
  thread, it is unlinked, its error is \<^verbatim>\<open>-RT_ETIMEOUT\<close>, it is ready or running, and the invariant holds.
\<close>

theorem rt_thread_timeout_wakes:
  assumes s: "swf {} s" and t: "thread_ok s t" and w: "tstat s t = RT_THREAD_SUSPEND" and c: "cur s \<noteq> RT_NULL"
  shows "\<exists>s'. rt_thread_timeout t s = Some s' \<and> swf {} s' \<and> terror s' t = - RT_ETIMEOUT \<and>
    (tstat s' t = RT_THREAD_READY \<or> tstat s' t = RT_THREAD_RUNNING) \<and>
    (\<forall>o1. t \<notin> set (tlists s' (WaitQ o1)) \<and> t \<notin> set (tlists s' (SenderQ o1)))"
proof -
  let ?u = "unlink_thread t (set_error t (- RT_ETIMEOUT) s)"
  have t0: "t \<noteq> 0" using t by (simp add: thread_ok_def)
  have v: "rt_schedule_insert_thread t ?u = Some (enqueued t ?u)" "swf {} (enqueued t ?u)"
    using swf_wake [OF s w t0, of ?u] by simp_all
  obtain s' where s': "rt_schedule (enqueued t ?u) = Some s'" "swf {} s'"
    using rt_schedule_ok [OF v(2)] c by (auto simp: okt_def)
  have "rt_thread_timeout t s = Some s'" using t t0 w v(1) s' by (simp add: rt_thread_timeout_def Let_def)
  moreover have "terror s' t = - 2"
    using sched_onlyD(20) [OF rt_schedule_sched_only(1) [OF s'(1)], of t] by simp
  moreover have "tstat s' t = 1 \<or> tstat s' t = 3"
    using rt_schedule_states(2) [OF v(2) s'(1), of t] by (simp add: tstat_enqueued split: if_splits)
  ultimately show ?thesis
    using s'(2) swf_queue [OF s'(2), of t] by (intro exI [of _ s']) fastforce
qed

definition wait_demo :: "unit kernel" where
  "wait_demo = thread_demo\<lparr>threads := (threads thread_demo)(6 := zero_thread\<lparr>th_stat := 2, th_current_priority := 3, th_number_mask := bitmask 3\<rparr>),
     tlists := (tlists thread_demo)(WaitQ 9 := [6])\<rparr>"

lemma wait_demo_view [simp]: "thread_ok wait_demo 6" "tstat wait_demo 6 = 2" "cur wait_demo = 1" "lock_nest wait_demo = 0"
  using thread_ok_cong [of wait_demo thread_demo 6] by (simp_all add: wait_demo_def tstat_def)

lemma swf_wait_demo: "swf {} wait_demo"
proof -
  have v: "tstat wait_demo t = (if t = 6 then 2 else tstat sched_demo t)" "tprio wait_demo t = (if t = 6 then 3 else tprio sched_demo t)" for t
    by (auto simp: wait_demo_def thread_demo_def tstat_def tprio_def)
  have L: "tlists wait_demo = (tlists sched_demo)(WaitQ 9 := [6])" by (simp add: wait_demo_def)
  have th: "threads wait_demo t = (if t = 6 then zero_thread\<lparr>th_stat := 2, th_current_priority := 3, th_number_mask := bitmask 3\<rparr> else threads sched_demo t)" for t
    by (simp add: wait_demo_def thread_demo_def)
  have g: "ready_group wait_demo = ready_group sched_demo" "cur wait_demo = cur sched_demo" by (simp_all add: wait_demo_def thread_demo_def)
  have six: "6 \<notin> set (tlists sched_demo h)" for h by (simp add: sched_demo_view)
  show ?thesis
    unfolding swf_def
  proof (intro conjI)
    have "lists_disjoint (tlists wait_demo)"
      by (auto simp: lists_disjoint_def L sched_demo_view split: if_splits)
    then show "queues_ok wait_demo"
      by (auto simp: queues_ok_def L v sched_demo_view split: if_splits)
    show "bitmap_ok wait_demo"
      using swf_sched_demo by (simp add: swf_def bitmap_ok_def L g)
    show "masks_ok wait_demo"
      using swf_sched_demo by (auto simp: swf_def masks_ok_def prio_ok_def v th zero_thread_def)
    show "stats_ok {} wait_demo"
      by (auto simp: stats_ok_def L v g sched_demo_view split: if_splits)
  qed
qed

theorem rt_thread_timeout_wakes_witness:
  "\<exists>s'. rt_thread_timeout 6 wait_demo = Some s' \<and> terror s' 6 = - RT_ETIMEOUT \<and> 6 \<notin> set (tlists s' (WaitQ 9))"
  using rt_thread_timeout_wakes [OF swf_wait_demo, of 6] by auto

text \<open>The state after a change of priority.\<close>

definition reprioritised :: "ptr \<Rightarrow> u8 \<Rightarrow> 'h kernel \<Rightarrow> 'h kernel" where
  "reprioritised t arg s =
    (let f = (\<lambda>r. r\<lparr>th_current_priority := arg, th_number_mask := bitmask (unat arg)\<rparr>)
     in if tstat s t = RT_THREAD_READY then enqueued t (upd_thread t f (dequeued t s)) else upd_thread t f s)"

lemma rt_thread_control_priority:
  assumes s: "swf {} s" and t: "thread_ok s t" and p: "unat arg < RT_THREAD_PRIORITY_MAX"
  shows "rt_thread_control t RT_THREAD_CTRL_CHANGE_PRIORITY arg s = Some (RT_EOK, reprioritised t arg s)" "swf {} (reprioritised t arg s)"
proof -
  let ?f = "\<lambda>r. r\<lparr>th_current_priority := arg, th_number_mask := bitmask (unat arg)\<rparr>"
  have t0: "t \<noteq> 0" using t by (simp add: thread_ok_def)
  show "rt_thread_control t 2 arg s = Some (RT_EOK, reprioritised t arg s)"
  proof (cases "tstat s t = 1")
    case True
    have c: "t \<noteq> cur s" using swf_ready_thread(4) [OF s True] by simp
    have "rt_schedule_insert_thread t (upd_thread t ?f (dequeued t s)) = Some (enqueued t (upd_thread t ?f (dequeued t s)))"
      using t0 p by (intro rt_schedule_insert_thread_eq) (auto simp: tprio_def)
    then show ?thesis
      using True t t0 p c swf_prio_lt(1) [OF s]
      by (simp add: rt_thread_control_def rt_schedule_remove_thread_eq set_priority_def reprioritised_def)
  next
    case False
    then show ?thesis using t p by (simp add: rt_thread_control_def set_priority_def reprioritised_def)
  qed
  then show "swf {} (reprioritised t arg s)" by (rule swf_rt_thread_control [OF s])
qed

lemma tprio_upd_thread: "tprio (upd_thread t f s) x = (if x = t then unat (th_current_priority (f (threads s t))) else tprio s x)"
  by (simp add: tprio_def)

lemma tprio_reprioritised [simp]: "tprio (reprioritised t arg s) x = (if x = t then unat arg else tprio s x)"
  by (simp add: reprioritised_def Let_def tprio_upd_thread)

text \<open>
  \<^verbatim>\<open>rt_thread_control\<close> with \<^verbatim>\<open>RT_THREAD_CTRL_CHANGE_PRIORITY\<close> and a priority below 32 returns \<^verbatim>\<open>RT_EOK\<close>, sets the
  priority of that thread only, keeps the scheduler invariant, and moves a ready thread to the end of the ready
  queue of its new priority.
\<close>

theorem rt_thread_change_priority:
  assumes s: "swf {} s" and t: "thread_ok s t" and p: "unat arg < RT_THREAD_PRIORITY_MAX"
  shows "\<exists>s'. rt_thread_control t RT_THREAD_CTRL_CHANGE_PRIORITY arg s = Some (RT_EOK, s') \<and> swf {} s' \<and>
    (\<forall>x. tprio s' x = (if x = t then unat arg else tprio s x)) \<and>
    (tstat s t = RT_THREAD_READY \<longrightarrow> tlists s' = lists_push_back (ReadyQ (unat arg)) t (lists_remove t (tlists s)))"
proof -
  have "tlists (reprioritised t arg s) = lists_push_back (ReadyQ (unat arg)) t (lists_remove t (tlists s))" if r: "tstat s t = 1"
    using swf_ready_thread(4) [OF s r] r by (simp add: reprioritised_def Let_def tlists_enqueued tprio_upd_thread)
  then show ?thesis using rt_thread_control_priority [OF assms] by simp
qed

theorem rt_thread_change_priority_witness:
  "\<exists>s'. rt_thread_control 4 RT_THREAD_CTRL_CHANGE_PRIORITY 7 thread_demo = Some (RT_EOK, s') \<and> swf {} s' \<and> tlists s' (ReadyQ 7) = [3, 4]"
  using rt_thread_change_priority [of thread_demo 4 7]
  by (auto simp: sched_demo_view lists_push_back_def lists_remove_def)

text \<open>
  Time slices: the tick on which the running thread uses up its slice, with another thread of the same
  (highest) priority ready and no timer expiring, returns with that thread running, the old one at the end of
  the queue with a fresh slice, and the tick counter advanced by one.
\<close>

theorem rt_tick_time_slice:
  assumes s: "swf {} s" and tm: "timers_ok s" "\<And>x. x \<in> set (timer_list s) \<Longrightarrow> 1 < due s x"
    and l: "lock_nest s = 0" and c: "cur s \<noteq> RT_NULL" and r: "tstat s (cur s) = RT_THREAD_RUNNING"
    and slice: "th_remaining_tick (threads s (cur s)) = 1"
    and q: "tlists s (ReadyQ (tprio s (cur s))) = t # ts" and top: "\<And>q. q < tprio s (cur s) \<Longrightarrow> tlists s (ReadyQ q) = []"
  shows "\<exists>s'. rt_tick_increase (Suc fuel) user s = Some s' \<and> cur s' = t \<and> ticks s' = ticks s + 1 \<and>
    tlists s' = (tlists s)(ReadyQ (tprio s (cur s)) := ts @ [cur s]) \<and>
    th_remaining_tick (threads s' (cur s)) = th_init_tick (threads s (cur s))"
proof -
  let ?s0 = "s\<lparr>ticks := ticks s + 1\<rparr>"
  let ?s1 = "upd_thread (cur s) (\<lambda>r. r\<lparr>th_remaining_tick := th_init_tick r\<rparr>)
    (upd_thread (cur s) (\<lambda>r. r\<lparr>th_remaining_tick := th_remaining_tick r - 1\<rparr>) ?s0)"
  have v: "tstat ?s1 x = tstat s x" "tprio ?s1 x = tprio s x" for x by (auto simp: tstat_def tprio_def)
  have s1: "swf {} ?s1" using s by (subst swf_upd_thread, simp)+ simp
  obtain u where u: "rt_schedule ?s1 = Some u" "cur u = t" "tlists u = (tlists s)(ReadyQ (tprio s (cur s)) := ts @ [cur s])"
    using rt_schedule_rotate [OF s1, of t ts] l c r q top unfolding v by auto
  note so = rt_schedule_sched_only(1) [OF u(1)]
  have "timers_ok ?s0" using tm by (intro timers_ok_tick) fastforce+
  moreover have "0 < due ?s0 x" if "x \<in> set (timer_list s)" for x
    using due_tick [of s x] tm(2) [OF that] by simp
  ultimately have chk: "rt_timer_check (Suc fuel) (timeout_call user) u = Some u"
    using sched_onlyD [OF so] timers_ok_cong [of u ?s0] by (intro rt_timer_check_idle) (auto simp: due_def)
  have th: "threads u (cur s) = (threads ?s1 (cur s))\<lparr>th_stat := th_stat (threads u (cur s))\<rparr>"
    using so unfolding sched_only_def by blast
  have "th_remaining_tick (threads u (cur s)) = th_init_tick (threads s (cur s))"
    by (subst th) simp
  then show ?thesis
    using u chk slice c sched_onlyD(7) [OF so]
    by (simp add: rt_tick_increase_def Let_def rt_thread_self_def rt_thread_yield_def)
qed

theorem rt_tick_time_slice_witness:
  "\<exists>s'. rt_tick_increase 1 (\<lambda>f p s. Some s) (thread_demo\<lparr>threads := (threads thread_demo)(1 := (threads thread_demo 1)\<lparr>th_remaining_tick := 1, th_init_tick := 10\<rparr>)\<rparr>) = Some s' \<and>
     cur s' = 2 \<and> tlists s' (ReadyQ 5) = [4, 1] \<and> th_remaining_tick (threads s' 1) = 10"
proof -
  let ?s = "upd_thread 1 (\<lambda>r. r\<lparr>th_remaining_tick := 1, th_init_tick := 10\<rparr>) thread_demo"
  have v: "tstat ?s x = tstat sched_demo x" "tprio ?s x = tprio sched_demo x" for x
    using thread_demo_view(5,6) by (simp_all add: tstat_def tprio_def)
  have "swf {} ?s" by (subst swf_upd_thread) simp_all
  from rt_tick_time_slice [OF this, where t = 2 and ts = "[4]" and fuel = 0 and user = "\<lambda>f p s. Some s"] show ?thesis
    unfolding v by (auto simp: sched_demo_view timers_ok_def upd_thread_def)
qed

text \<open>
  \<^verbatim>\<open>rt_thread_sleep\<close> of the running thread with another thread ready: the sleeper is suspended with its timer
  pending exactly that many ticks ahead, another thread runs, and the scheduler and timer invariants hold.
\<close>

theorem rt_thread_sleep_suspends:
  assumes s: "swf {} s" "timers_ok s" and t: "thread_ok s (cur s)" and r: "tstat s (cur s) = RT_THREAD_RUNNING"
    and tick: "tick < RT_TICK_HALF" and l: "lock_nest s = 0" and g: "ready_group s \<noteq> 0"
  shows "\<exists>s'. rt_thread_sleep tick s = Some (cur s, s') \<and> swf {} s' \<and> timers_ok s' \<and> tstat s' (cur s) = RT_THREAD_SUSPEND \<and>
    cur s' \<noteq> cur s \<and> tstat s' (cur s') = RT_THREAD_RUNNING \<and>
    ThreadTimer (cur s) \<in> set (timer_list s') \<and> due s' (ThreadTimer (cur s)) = unat tick"
proof -
  let ?t = "cur s" and ?r = "ThreadTimer (cur s)"
  have t0: "?t \<noteq> 0" using t by (simp add: thread_ok_def)
  obtain s1 where s1: "rt_thread_suspend ?t s = Some (RT_EOK, s1)" "obj_only (set_stat ?t 2 (dequeued ?t s)) s1" "thread_ok s1 ?t" "swf {} s1"
    using rt_thread_suspend_total [OF s(1) t] r by metis
  note o1 = obj_onlyD [OF s1(2)]
  have tm1: "timers_ok s1" "?r \<notin> set (timer_list s1)"
  proof -
    obtain e where e: "rt_timer_stop ?r (set_stat ?t 2 (dequeued ?t s)) = Some (e, s1)"
      using s1(1) r by (cases rule: suspend_eq) auto
    have "timers_ok (set_stat ?t 2 (dequeued ?t s))" using s(2) by (subst timers_ok_cong [of _ s]) simp_all
    then show "timers_ok s1" "?r \<notin> set (timer_list s1)" using timers_ok_rt_timer_stop [OF _ e] by auto
  qed
  let ?s2 = "upd_timer ?r (\<lambda>r. r\<lparr>tm_init := tick\<rparr>) s1"
  have ob: "timer_obj s1 ?r" "timer_obj ?s2 ?r" using s1(3) by (simp_all add: thread_ok_def timer_obj_def)
  have c2: "rt_timer_control ?r 0 tick s1 = Some (RT_EOK, tick, ?s2)" using ob by (simp add: rt_timer_control_def timer_check_type_eq)
  have tm2: "timers_ok ?s2" using timers_ok_upd_timer_free [OF tm1] .
  let ?s3 = "timer_started ?r ?s2"
  have c3: "rt_timer_start ?r ?s2 = Some (RT_EOK, ?s3)" using ob tick by (simp add: rt_timer_start_eq)
  have tm3: "timers_ok ?s3" using timers_ok_started [OF tm2 _ ob(2)] tick by simp
  note o3 = obj_onlyD [OF obj_only_prims(5) [of ?s2 ?r]]
  have s3: "swf {} ?s3" "lock_nest ?s3 = 0" "cur ?s3 = ?t" "ready_group ?s3 = ready_group (dequeued ?t s)" "tstat ?s3 ?t = 2"
    using s1(4) l by (simp_all add: o3 o1 tstat_set_stat obj_onlyD(18) [OF obj_only_prims(2)])
  have "ready_group (dequeued ?t s) \<noteq> 0"
  proof -
    obtain p where p: "p < 32" "bit (ready_group s) p" using g word_eq_0_bits by blast
    then have "tlists s (ReadyQ p) \<noteq> []" using s(1) by (simp add: swf_def bitmap_ok_def)
    moreover have "?t \<notin> set (tlists s (ReadyQ p))" using swf_running_free [OF s(1) r] by (simp add: in_some_list_def)
    ultimately have "bit (ready_group (dequeued ?t s)) p" using bit_dequeued [OF s(1) p(1), of ?t] by (simp add: lists_remove_def)
    then show ?thesis by auto
  qed
  then obtain s' where s': "rt_schedule ?s3 = Some s'" "swf {} s'" "tstat s' (cur s') = 3"
    using rt_schedule_highest [OF s3(1,2)] s3 t0 by auto
  note so = sched_onlyD [OF rt_schedule_sched_only(1) [OF s'(1)]]
  have "tstat s' ?t = 2" using rt_schedule_states(1) [OF s3(1) s'(1), of ?t] s3(5) by simp
  moreover have "timers_ok s'" using tm3 so by (subst timers_ok_cong [of s' ?s3]) simp_all
  moreover have "?r \<in> set (timer_list s')" using so(4) timer_list_started [OF tm2, of ?r] tick by simp
  moreover have "due s' ?r = unat tick" using so due_timer_started [of ?r ?s2 ?r] by (simp add: due_def)
  moreover have "rt_thread_sleep tick s = Some (?t, s')"
    using t s1(1) c2 c3 s'(1) by (simp add: rt_thread_sleep_def Let_def rt_thread_self_def)
  ultimately show ?thesis using s'(2,3) by auto
qed

theorem rt_thread_sleep_suspends_witness:
  "\<exists>s'. rt_thread_sleep 20 thread_demo = Some (1, s') \<and> tstat s' 1 = RT_THREAD_SUSPEND \<and> due s' (ThreadTimer 1) = 20"
proof -
  have "bit (ready_group sched_demo) 5" by (simp add: sched_demo_view bit_or_bitmask bit_bitmask)
  then have "ready_group thread_demo \<noteq> 0" by auto
  then show ?thesis
    using rt_thread_sleep_suspends [of thread_demo 20] by (auto simp: sched_demo_view timers_ok_def)
qed

text \<open>
  \<^verbatim>\<open>rt_thread_idle_excute\<close> does not do all the cleanups in one call, as its comment says: when the first defunct
  thread is a static one without cleanup function it detaches that thread and returns, with the other defunct
  threads still in the list.
\<close>

theorem rt_thread_idle_leaves_defunct:
  assumes s: "swf {} s" and q: "tlists s DefunctQ = t # u # ts" and irq: "not_in_interrupt s"
    and t: "th_cleanup (threads s t) = RT_NULL" "o_type (objs s (Obj t)) AND RT_Object_Class_Static \<noteq> 0"
  shows "\<exists>s'. rt_thread_idle_excute (Suc fuel) H cleanup s = Some s' \<and> swf {} s' \<and> tlists s' DefunctQ = u # ts"
proof -
  have m: "t \<in> set (tlists s DefunctQ)" using q by simp
  have t0: "t \<noteq> 0" and st: "tstat s t = 4" using swf_queue [OF s m] by auto
  let ?s1 = "rt_enter_critical (unlink_thread t s)"
  let ?s2 = "obj_unlink (Obj t) (upd_obj (Obj t) (\<lambda>r. r\<lparr>o_type := 0\<rparr>) ?s1)"
  have s1: "swf {} ?s1" using swf_unlink_nonready [OF s] st by simp
  have s2: "swf {} ?s2" using s1 by (simp add: obj_onlyD(21) [OF obj_only_prims(3)])
  obtain s' where s': "rt_exit_critical ?s2 = Some s'" "swf {} s'" using rt_exit_critical_ok [OF s2] by (auto simp: okt_def)
  have dq: "tlists ?s2 DefunctQ = u # ts"
    using q disjoint_distinct [OF swf_disjoint [OF s], of DefunctQ]
    by (simp add: rt_enter_critical_def lists_remove_def obj_onlyD(2) [OF obj_only_prims(3)])
  have "tlists s' DefunctQ = tlists ?s2 DefunctQ"
  proof -
    have "\<exists>v. swf {} v \<and> tlists v = tlists ?s2 \<and> (s' = v \<or> rt_schedule v = Some s')"
      using s'(1) s2 by (auto simp: rt_exit_critical_def Let_def split: if_splits
        intro: exI [of _ "?s2\<lparr>lock_nest := 0\<rparr>"] exI [of _ "?s2\<lparr>lock_nest := lock_nest ?s2 - 1\<rparr>"])
    then show ?thesis using rt_schedule_states(3) by (metis not_ready_queue_simps(1))
  qed
  moreover have "rt_thread_idle_excute (Suc fuel) H cleanup s = Some s'"
    using q irq t t0 s'(1) by (simp add: has_defunct_thread_def rt_object_is_systemobject_def rt_object_detach_def Let_def rt_enter_critical_def)
  ultimately show ?thesis using s'(2) dq by auto
qed

definition defunct_demo :: "unit kernel" where
  "defunct_demo = (zero_kernel ())\<lparr>objs := (\<lambda>_. zero_object\<lparr>o_type := 0x81\<rparr>),
     threads := (\<lambda>_. zero_thread)(2 := zero_thread\<lparr>th_stat := 4\<rparr>, 3 := zero_thread\<lparr>th_stat := 4\<rparr>), tlists := (\<lambda>_. [])(DefunctQ := [2, 3])\<rparr>"

lemma swf_defunct_demo: "swf {} defunct_demo"
  by (auto simp: swf_def queues_ok_def bitmap_ok_def masks_ok_def stats_ok_def prio_ok_def lists_disjoint_def defunct_demo_def
      zero_defs tstat_def tprio_def split: if_splits)

lemma defunct_demo_view:
  "tlists defunct_demo DefunctQ = [2, 3]" "not_in_interrupt defunct_demo" "th_cleanup (threads defunct_demo 2) = 0"
  "o_type (objs defunct_demo (Obj 2)) AND 0x80 \<noteq> 0"
  by (simp_all add: defunct_demo_def zero_defs not_in_interrupt_def)

theorem rt_thread_idle_leaves_defunct_witness:
  "\<exists>s'. rt_thread_idle_excute (Suc 4) \<lparr>kmalloc = \<lambda>h n. Some (0, h), kfree = \<lambda>h p. Some h\<rparr> (\<lambda>f t s. Some s) defunct_demo = Some s' \<and>
     tlists s' DefunctQ = [3]"
  using rt_thread_idle_leaves_defunct [OF swf_defunct_demo, where t = 2 and u = 3 and ts = "[]" and fuel = 4 and
      H = "\<lparr>kmalloc = \<lambda>h n. Some (0, h), kfree = \<lambda>h p. Some h\<rparr>" and cleanup = "\<lambda>f t s. Some s"]
  by (auto simp del: rt_thread_idle_excute.simps simp: defunct_demo_view)

end
