(* ===== verification/RT_Ipc.thy ===== *)
theory RT_Ipc
  imports RT_Thread
begin

text \<open>
  The waiting machinery shared by the inter-thread communication objects of \<^verbatim>\<open>src/ipc.c\<close>: suspending a thread
  on a wait list in FIFO or priority order, resuming the first or all waiters. A function that may block
  returns \<open>Done\<close> with its result, or \<open>Blocked\<close> with the local variables that are live across its \<^verbatim>\<open>rt_schedule\<close>;
  the function named \<open>_resume\<close> continues from there when the thread runs again.
\<close>

datatype ('a, 'b) outcome = Done 'a | Blocked 'b

section \<open>Operations\<close>

definition rt_ipc_object_init :: "ptr \<Rightarrow> 'h kernel \<Rightarrow> 'h kernel option" where
  "rt_ipc_object_init ipc s = do {
     mem_ok (tlists s (WaitQ ipc) = []);
     Some (init_queue (WaitQ ipc) s) }"

text \<open>The walk along a priority-ordered wait list: insert before the first thread of lower priority.\<close>

fun prio_insert :: "(ptr \<Rightarrow> nat) \<Rightarrow> ptr \<Rightarrow> ptr list \<Rightarrow> ptr list" where
  "prio_insert pr thread [] = [thread]"
| "prio_insert pr thread (sthread # n) =
     (if pr thread < pr sthread then thread # sthread # n else sthread # prio_insert pr thread n)"

definition rt_ipc_list_suspend :: "qhead \<Rightarrow> ptr \<Rightarrow> u8 \<Rightarrow> 'h kernel \<Rightarrow> 'h kernel option" where
  "rt_ipc_list_suspend list thread flag s = do {
     (_, s) \<leftarrow> rt_thread_suspend thread s;
     if flag = RT_IPC_FLAG_FIFO then link_back list thread s
     else if flag = RT_IPC_FLAG_PRIO then do {
       mem_ok (\<not> in_some_list thread (tlists s));
       Some (s\<lparr>tlists := (tlists s)(list := prio_insert (tprio s) thread (tlists s list))\<rparr>) }
     else Some s }"

definition rt_ipc_list_resume :: "qhead \<Rightarrow> 'h kernel \<Rightarrow> 'h kernel option" where
  "rt_ipc_list_resume list s = do {
     mem_ok (tlists s list \<noteq> []);
     (_, s) \<leftarrow> rt_thread_resume (hd (tlists s list)) s;
     Some s }"

text \<open>
  The loop of \<^verbatim>\<open>rt_ipc_list_resume_all\<close>. A round that does not shorten the list leaves the loop condition as it
  is, so one round per waiting thread and one test more is all a terminating run can take.
\<close>

fun resume_all_loop :: "nat \<Rightarrow> qhead \<Rightarrow> 'h kernel \<Rightarrow> 'h kernel option" where
  "resume_all_loop 0 list s = None"
| "resume_all_loop (Suc fuel) list s =
     (if tlists s list = [] then Some s
      else do {
        let thread = hd (tlists s list);
        let s = set_error thread (- RT_ERROR) s;
        (_, s) \<leftarrow> rt_thread_resume thread s;
        resume_all_loop fuel list s })"

definition rt_ipc_list_resume_all :: "qhead \<Rightarrow> 'h kernel \<Rightarrow> 'h kernel option" where
  "rt_ipc_list_resume_all list s = resume_all_loop (Suc (length (tlists s list))) list s"

text \<open>The check of object class that opens every operation, and the start of a waiting thread's timer.\<close>

definition ipc_check :: "ptr \<Rightarrow> u8 \<Rightarrow> 'h kernel \<Rightarrow> unit option" where
  "ipc_check p cls s = do {
     RT_ASSERT (p \<noteq> RT_NULL);
     ty \<leftarrow> rt_object_get_type (Obj p) s;
     RT_ASSERT (ty = cls) }"

definition start_wait_timer :: "ptr \<Rightarrow> int \<Rightarrow> 'h kernel \<Rightarrow> 'h kernel option" where
  "start_wait_timer thread time s =
    (if time > 0 then do {
       (_, _, s) \<leftarrow> rt_timer_control (ThreadTimer thread) RT_TIMER_CTRL_SET_TIME (word_of_int time) s;
       (_, s) \<leftarrow> rt_timer_start (ThreadTimer thread) s;
       Some s }
     else Some s)"

text \<open>The recomputation of the remaining time after a wait: \<^verbatim>\<open>timeout -= rt_tick_get() - tick_delta\<close> in 32 bits.\<close>

definition remaining_timeout :: "int \<Rightarrow> u32 \<Rightarrow> 'h kernel \<Rightarrow> int" where
  "remaining_timeout timeout tick_delta s =
    (if timeout > 0 then max 0 (sint (word_of_int timeout - (rt_tick_get s - tick_delta) :: u32)) else timeout)"

text \<open>
  What is live across the \<^verbatim>\<open>rt_schedule\<close> of a wait: the thread, the time limit and the tick the wait began at (which
  is only used with a limit).
\<close>

type_synonym waiting = "ptr \<times> int \<times> u32"

section \<open>Priority order\<close>

lemma set_prio_insert [simp]: "set (prio_insert pr t xs) = insert t (set xs)"
  by (induction xs) auto

lemma distinct_prio_insert: "distinct xs \<Longrightarrow> t \<notin> set xs \<Longrightarrow> distinct (prio_insert pr t xs)"
  by (induction xs) auto

lemma sorted_prio_insert: "sorted (map pr xs) \<Longrightarrow> sorted (map pr (prio_insert pr t xs))"
proof (induction xs)
  case (Cons x xs)
  then show ?case by (auto simp: not_less intro: less_imp_le order_trans)
qed simp

lemma prio_insert_split: "prio_insert pr t xs = takeWhile (\<lambda>x. pr x \<le> pr t) xs @ t # dropWhile (\<lambda>x. pr x \<le> pr t) xs"
  by (induction xs) auto

text \<open>Among threads of equal priority the order of arrival is kept.\<close>

lemma prio_insert_stable: "sorted (map pr xs) \<Longrightarrow> prio_insert pr t xs = filter (\<lambda>x. pr x \<le> pr t) xs @ t # filter (\<lambda>x. pr t < pr x) xs"
proof (induction xs)
  case (Cons x xs)
  have "filter (\<lambda>y. pr y \<le> pr t) xs = [] \<and> filter (\<lambda>y. pr t < pr y) xs = xs" if "pr t < pr x"
    using Cons.prems that by (auto simp: filter_empty_conv filter_id_conv)
  with Cons show ?case by auto
qed simp

section \<open>The scheduler invariant\<close>

lemma swf_init_queue: "tlists s h = [] \<Longrightarrow> swf X (init_queue h s) = swf X s"
  by (simp add: init_queue_def fun_upd_idem)

lemma swf_rt_ipc_object_init: "swf X s \<Longrightarrow> rt_ipc_object_init p s = Some s' \<Longrightarrow> swf X s'"
  by (auto simp: rt_ipc_object_init_def bind_eq_Some_conv swf_init_queue)

definition wait_queue :: "qhead \<Rightarrow> bool" where
  "wait_queue h \<longleftrightarrow> (\<exists>p. h = WaitQ p \<or> h = SenderQ p)"

lemma wait_queue_simps [simp]: "wait_queue (WaitQ p)" "wait_queue (SenderQ p)"
  by (simp_all add: wait_queue_def)

lemma wait_queue_state: "wait_queue h \<Longrightarrow> queue_state h st pr \<longleftrightarrow> st = 2"
  by (auto simp: wait_queue_def)

lemma wait_not_ready: "wait_queue h \<Longrightarrow> not_ready_queue h"
  by (auto simp: wait_queue_def)

text \<open>The list after suspension, by the flag of the object.\<close>

definition wait_insert :: "u8 \<Rightarrow> (ptr \<Rightarrow> nat) \<Rightarrow> ptr \<Rightarrow> ptr list \<Rightarrow> ptr list" where
  "wait_insert flag pr t xs = (if flag = RT_IPC_FLAG_FIFO then xs @ [t] else prio_insert pr t xs)"

lemma wait_insert_props:
  "set (wait_insert flag pr t xs) = insert t (set xs)"
  "distinct xs \<Longrightarrow> t \<notin> set xs \<Longrightarrow> distinct (wait_insert flag pr t xs)"
  by (auto simp: wait_insert_def distinct_prio_insert)

lemma rt_ipc_list_suspend_Some:
  assumes r: "rt_ipc_list_suspend h t flag s = Some s'"
  obtains e u where "rt_thread_suspend t s = Some (e, u)" "flag \<noteq> 0" "flag \<noteq> 1" "s' = u"
    | e u where "rt_thread_suspend t s = Some (e, u)" "flag = 0 \<or> flag = 1" "\<not> in_some_list t (tlists u)"
      "s' = u\<lparr>tlists := (tlists u)(h := wait_insert flag (tprio u) t (tlists u h))\<rparr>"
  using r by (auto simp: rt_ipc_list_suspend_def link_back_def lists_push_back_def wait_insert_def bind_eq_Some_conv split: if_splits)

lemma swf_rt_ipc_list_suspend:
  assumes s: "swf {} s" and h: "wait_queue h" and t: "tstat s t = 3 \<or> tstat s t = 1 \<or> tstat s t = 2"
    and r: "rt_ipc_list_suspend h t flag s = Some s'"
  shows "swf {} s'"
  using r
proof (cases rule: rt_ipc_list_suspend_Some)
  case (1 e u)
  then show ?thesis using swf_rt_thread_suspend [OF s 1(1)] by simp
next
  case (2 e u)
  have u: "swf {} u" by (rule swf_rt_thread_suspend [OF s 2(1)])
  have t': "t \<noteq> 0" using 2(1) by (auto simp: rt_thread_suspend_def bind_eq_Some_conv)
  have "tstat u t = 2"
    using 2(1) t by (cases rule: suspend_eq) (auto simp: obj_onlyD(18) [OF timer_obj_only(2)] tstat_set_stat)
  then show ?thesis
    unfolding 2(4) using disjoint_distinct [OF swf_disjoint [OF u], of h] 2(3)
    by (intro swf_link [OF u 2(3) t' wait_not_ready [OF h]]) (auto simp: wait_queue_state [OF h] wait_insert_props in_some_list_def)
qed

lemma swf_rt_ipc_list_resume: "swf {} s \<Longrightarrow> rt_ipc_list_resume h s = Some s' \<Longrightarrow> swf {} s'"
  by (auto simp: rt_ipc_list_resume_def bind_eq_Some_conv intro: swf_rt_thread_resume)

lemma swf_resume_all_loop: "swf {} s \<Longrightarrow> resume_all_loop fuel h s = Some s' \<Longrightarrow> swf {} s'"
proof (induction fuel arbitrary: s)
  case (Suc fuel)
  show ?case
  proof (cases "tlists s h = []")
    case False
    then obtain e u where u: "rt_thread_resume (hd (tlists s h)) (set_error (hd (tlists s h)) (- 1) s) = Some (e, u)"
      and l: "resume_all_loop fuel h u = Some s'"
      using Suc.prems(2) by (auto simp: Let_def bind_eq_Some_conv)
    have "swf {} u" using swf_rt_thread_resume [OF _ u] Suc.prems(1) by simp
    then show ?thesis using l by (rule Suc.IH)
  qed (use Suc.prems in simp)
qed simp

lemma swf_rt_ipc_list_resume_all: "swf {} s \<Longrightarrow> rt_ipc_list_resume_all h s = Some s' \<Longrightarrow> swf {} s'"
  by (auto simp: rt_ipc_list_resume_all_def simp del: resume_all_loop.simps intro: swf_resume_all_loop)

lemma start_wait_timer_obj_only: "start_wait_timer t time s = Some s' \<Longrightarrow> obj_only s s'"
  by (auto simp: start_wait_timer_def bind_eq_Some_conv split: if_splits
      dest!: timer_obj_only(1) timer_obj_only(4) intro: obj_only_trans)

lemma swf_start_wait_timer: "start_wait_timer t time s = Some s' \<Longrightarrow> swf X s' = swf X s"
  using obj_onlyD(21) [OF start_wait_timer_obj_only] .

lemma ipc_check_Some [simp]:
  "ipc_check p cls s = Some u \<longleftrightarrow> p \<noteq> 0 \<and> o_type (objs s (Obj p)) AND NOT RT_Object_Class_Static = cls"
  by (auto simp: ipc_check_def rt_object_get_type_def bind_eq_Some_conv)

text \<open>Registration of a communication object with an empty wait list.\<close>

lemma swf_ipc_register:
  assumes "rt_ipc_object_init p u = Some v" "rt_object_init r ty name s = Some u \<or> rt_object_allocate H ty name s = Some (q, u)" "swf {} s"
  shows "swf {} v"
  using assms swf_rt_ipc_object_init [of "{}" u p v] swf_rt_object_init [of s r ty name u] swf_rt_object_allocate [of s H ty name q u] by auto

text \<open>The common tail of the blocking operations: suspend, start the timer, schedule.\<close>

lemma swf_block:
  assumes a: "rt_ipc_list_suspend h t flag s = Some u" and b: "start_wait_timer t time u = Some v" and c: "rt_schedule v = Some s'"
    and s: "swf {} s" and h: "wait_queue h" and t: "tstat s t = 3 \<or> tstat s t = 1 \<or> tstat s t = 2"
  shows "swf {} s'"
proof -
  have "swf {} u" using swf_rt_ipc_list_suspend [OF s h t a] .
  then have "swf {} v" using swf_start_wait_timer [OF b] by simp
  then show ?thesis using c by (rule swf_rt_schedule)
qed

lemma swf_detach_delete:
  assumes s: "swf {} s" and a: "rt_ipc_list_resume_all h s = Some u" and b: "rt_object_detach r u = Some s' \<or> rt_object_delete H p u = Some s'"
  shows "swf {} s'"
proof -
  have u: "swf {} u" using swf_rt_ipc_list_resume_all [OF s a] .
  from b show ?thesis
  proof
    assume "rt_object_detach r u = Some s'"
    from obj_onlyD(21) [OF rt_object_detach_obj_only [OF this]] u show ?thesis by simp
  next
    assume "rt_object_delete H p u = Some s'"
    from obj_onlyD(21) [OF rt_object_delete_obj_only [OF this]] u show ?thesis by simp
  qed
qed

section \<open>Frames\<close>

text \<open>The contents of the communication objects, the tick and the nesting counts stay the same.\<close>

definition ipc_frame :: "'h kernel \<Rightarrow> 'h kernel \<Rightarrow> bool" where
  "ipc_frame s s' \<longleftrightarrow> sems s' = sems s \<and> mutexes s' = mutexes s \<and> events s' = events s \<and> mailboxes s' = mailboxes s \<and>
     mqs s' = mqs s \<and> mempools s' = mempools s \<and> pool_mem s' = pool_mem s \<and> ticks s' = ticks s \<and>
     intr_nest s' = intr_nest s \<and> lock_nest s' = lock_nest s"

lemma ipc_frame_refl [simp]: "ipc_frame s s"
  by (simp add: ipc_frame_def)

lemma ipc_frame_trans: "ipc_frame s s1 \<Longrightarrow> ipc_frame s1 s2 \<Longrightarrow> ipc_frame s s2"
  by (simp add: ipc_frame_def)

lemma ipc_frame_prims [simp]:
  "ipc_frame s (set_stat t v s)" "ipc_frame s (set_error t e s)" "ipc_frame s (dequeued t s)" "ipc_frame s (enqueued t s)"
  "ipc_frame s (unlink_thread t s)" "ipc_frame s (s\<lparr>tlists := L\<rparr>)" "ipc_frame s (upd_thread t f s)"
  by (simp_all add: ipc_frame_def unlink_thread_def)

lemma ipc_frame_obj_only: "obj_only s s' \<Longrightarrow> ipc_frame s s'"
  using obj_onlyD [of s s'] by (simp add: ipc_frame_def)

lemma ipc_frame_rt_schedule: "rt_schedule s = Some s' \<Longrightarrow> ipc_frame s s'"
  using sched_onlyD [OF rt_schedule_sched_only(1)] rt_schedule_sched_only(2) by (fastforce simp: ipc_frame_def)

lemma rt_schedule_event_fields:
  assumes "rt_schedule s = Some s'"
  shows "th_event_set (threads s' x) = th_event_set (threads s x)" "th_event_info (threads s' x) = th_event_info (threads s x)"
proof -
  have "threads s' x = (threads s x)\<lparr>th_stat := th_stat (threads s' x)\<rparr>"
    using rt_schedule_sched_only(1) [OF assms] unfolding sched_only_def by blast
  from arg_cong [OF this, of th_event_set] arg_cong [OF this, of th_event_info]
  show "th_event_set (threads s' x) = th_event_set (threads s x)" "th_event_info (threads s' x) = th_event_info (threads s x)" by simp_all
qed

lemma ipc_frame_enqueued: "rt_schedule_insert_thread t s = Some s' \<Longrightarrow> ipc_frame s s'"
  by (auto dest!: rt_schedule_insert_thread_Some)

lemma ipc_frame_rt_thread_suspend: "rt_thread_suspend t s = Some (e, s') \<Longrightarrow> ipc_frame s s'"
  by (erule suspend_eq) (auto dest!: timer_obj_only(2) ipc_frame_obj_only intro: ipc_frame_trans [OF ipc_frame_trans [OF ipc_frame_prims(3) ipc_frame_prims(1)]])

lemma ipc_frame_rt_thread_resume: "rt_thread_resume t s = Some (e, s') \<Longrightarrow> ipc_frame s s'"
  by (erule resume_eq) (auto dest!: timer_obj_only(2) ipc_frame_obj_only ipc_frame_enqueued intro: ipc_frame_trans [OF ipc_frame_trans [OF ipc_frame_prims(5)]])

lemma ipc_frame_list_ops:
  "rt_ipc_list_suspend h t flag s = Some s' \<Longrightarrow> ipc_frame s s'"
  "rt_ipc_list_resume h s = Some s' \<Longrightarrow> ipc_frame s s'"
  "start_wait_timer t time s = Some s' \<Longrightarrow> ipc_frame s s'"
proof -
  show "ipc_frame s s'" if "rt_ipc_list_suspend h t flag s = Some s'"
    using that by (cases rule: rt_ipc_list_suspend_Some) (auto dest!: ipc_frame_rt_thread_suspend intro: ipc_frame_trans [OF _ ipc_frame_prims(6)])
  show "ipc_frame s s'" if "rt_ipc_list_resume h s = Some s'"
    using that by (auto simp: rt_ipc_list_resume_def bind_eq_Some_conv dest: ipc_frame_rt_thread_resume)
  show "ipc_frame s s'" if "start_wait_timer t time s = Some s'"
    using ipc_frame_obj_only [OF start_wait_timer_obj_only [OF that]] .
qed

text \<open>A whole wait: suspend, timer, schedule.\<close>

lemma ipc_frame_block:
  "rt_ipc_list_suspend h t flag s = Some u \<Longrightarrow> start_wait_timer t time u = Some v \<Longrightarrow> rt_schedule v = Some s' \<Longrightarrow> ipc_frame s s'"
  by (blast intro: ipc_frame_trans ipc_frame_list_ops ipc_frame_rt_schedule)

lemma rt_schedule_cur:
  assumes s: "swf {} s" and r: "rt_schedule s = Some s'" and c: "cur s \<noteq> 0"
  shows "cur s' \<noteq> 0"
  using s r by (cases rule: rt_schedule_cases) (use c swf_readyq [OF s] in \<open>auto simp: switch_to_def Let_def\<close>)

section \<open>Waking and waiting, in full\<close>

text \<open>The running thread goes to a wait list.\<close>

lemma rt_ipc_list_suspend_total:
  assumes s: "swf {} s" and h: "wait_queue h" and t: "thread_ok s (cur s)" "tstat s (cur s) = 3" and f: "flag = 0 \<or> flag = 1"
  obtains u where "rt_ipc_list_suspend h (cur s) flag s = Some u" "swf {} u" "ipc_frame s u" "cur u = cur s" "thread_ok u (cur s)"
    "tlists u = (tlists s)(h := wait_insert flag (tprio s) (cur s) (tlists s h))"
    "\<And>x. tstat u x = (if x = cur s then 2 else tstat s x)" "\<And>x. tprio u x = tprio s x" "\<And>x. terror u x = terror s x"
    "\<And>x. o_type (objs u x) = o_type (objs s x)" "timers_ok s \<Longrightarrow> timers_ok u" "ready_group u = ready_group s"
    "\<And>x. threads u x = (threads s x)\<lparr>th_stat := th_stat (threads u x)\<rparr>"
proof -
  let ?t = "cur s"
  have free: "\<not> in_some_list ?t (tlists s)" using swf_running_free [OF s t(2)] .
  have L: "tlists (dequeued ?t s) = tlists s" using lists_remove_free [OF free] by simp
  have g: "ready_group (dequeued ?t s) = ready_group s"
  proof (rule bit_word_eqI)
    fix n assume "n < LENGTH(32)"
    then have n: "n < 32" by simp
    have "bit (ready_group s) n \<longleftrightarrow> tlists s (ReadyQ n) \<noteq> []" using s n by (simp add: swf_def bitmap_ok_def)
    then show "bit (ready_group (dequeued ?t s)) n = bit (ready_group s) n"
      using bit_dequeued [OF s n, of ?t] lists_remove_free [OF free] by simp
  qed
  have tob: "timer_obj (set_stat ?t 2 (dequeued ?t s)) (ThreadTimer ?t)" using t(1) by (simp add: thread_ok_def timer_obj_def)
  obtain u where u: "rt_thread_suspend ?t s = Some (RT_EOK, u)" "obj_only (set_stat ?t 2 (dequeued ?t s)) u" "thread_ok u ?t" "swf {} u"
    using rt_thread_suspend_total [OF s t(1)] t(2) by metis
  obtain e where e: "rt_timer_stop (ThreadTimer ?t) (set_stat ?t 2 (dequeued ?t s)) = Some (e, u)"
    using u(1) t(2) by (cases rule: suspend_eq) auto
  obtain e' u' where "rt_timer_stop (ThreadTimer ?t) (set_stat ?t 2 (dequeued ?t s)) = Some (e', u')"
    "\<And>x. o_type (objs u' x) = o_type (objs (set_stat ?t 2 (dequeued ?t s)) x)"
    using tob by (rule rt_timer_stop_obj) blast
  then have ty: "o_type (objs u x) = o_type (objs s x)" for x using e by simp
  note o = obj_onlyD [OF u(2)]
  let ?v = "u\<lparr>tlists := (tlists u)(h := wait_insert flag (tprio u) ?t (tlists u h))\<rparr>"
  have Lu: "tlists u = tlists s" using o(2) L by simp
  have pu: "tprio u x = tprio s x" for x using o(19) by simp
  have susp: "rt_ipc_list_suspend h ?t flag s = Some ?v"
    using u(1) f free Lu by (auto simp: rt_ipc_list_suspend_def link_back_def lists_push_back_def wait_insert_def)
  have tmo: "timers_ok ?v" if "timers_ok s"
  proof -
    have "timers_ok (set_stat ?t 2 (dequeued ?t s))" using that by (subst timers_ok_cong [of _ s]) simp_all
    then have "timers_ok u" using timers_ok_rt_timer_stop(1) [OF _ e] by simp
    then show ?thesis by (subst timers_ok_cong [of _ u]) simp_all
  qed
  have fr: "ipc_frame s ?v"
    using ipc_frame_trans [OF ipc_frame_trans [OF ipc_frame_trans [OF ipc_frame_prims(3) ipc_frame_prims(1)] ipc_frame_obj_only [OF u(2)]] ipc_frame_prims(6)] .
  have pfun: "tprio u = tprio s" using pu by auto
  show thesis
  proof (rule that [OF susp _ fr])
    show "swf {} ?v" using swf_rt_ipc_list_suspend [OF s h _ susp] t(2) by simp
    show "thread_ok ?v ?t" using u(3) thread_ok_cong [of ?v u] by simp
    show "tlists ?v = (tlists s)(h := wait_insert flag (tprio s) ?t (tlists s h))" by (simp add: Lu pfun)
    show "timers_ok s \<Longrightarrow> timers_ok ?v" by (rule tmo)
    show "terror ?v x = terror s x" for x
    proof -
      have "terror u x = terror s x" using o(20) by simp
      then show ?thesis by (simp add: terror_def)
    qed
    show "threads ?v x = (threads s x)\<lparr>th_stat := th_stat (threads ?v x)\<rparr>" for x
      using o(1) by (simp add: set_stat_def)
  qed (simp_all add: o tstat_set_stat g ty)
qed

text \<open>The same for a list that is filled from the front, as that of a memory pool.\<close>

lemma swf_reorder:
  assumes s: "swf X s" and h: "not_ready_queue h" and xs: "set xs = set (tlists s h)" "distinct xs"
  shows "swf X (s\<lparr>tlists := (tlists s)(h := xs)\<rparr>)"
proof -
  have "lists_disjoint ((tlists s)(h := xs))"
    using swf_disjoint [OF s] xs by (auto simp: lists_disjoint_def)
  then show ?thesis
    using s h xs by (auto simp: swf_def queues_ok_def bitmap_ok_def masks_ok_def stats_ok_def prio_ok_def not_ready_queue_def)
qed

lemma suspend_front_total:
  assumes s: "swf {} s" and h: "wait_queue h" and t: "thread_ok s (cur s)" "tstat s (cur s) = 3"
  obtains e v u where "rt_thread_suspend (cur s) s = Some (e, v)" "link_front h (cur s) v = Some u" "swf {} u" "ipc_frame s u" "cur u = cur s"
    "thread_ok u (cur s)" "tlists u = (tlists s)(h := cur s # tlists s h)"
    "\<And>x. tstat u x = (if x = cur s then 2 else tstat s x)" "\<And>x. tprio u x = tprio s x" "\<And>x. terror u x = terror s x"
    "\<And>x. o_type (objs u x) = o_type (objs s x)" "ready_group u = ready_group s"
proof -
  obtain w where w: "rt_ipc_list_suspend h (cur s) 0 s = Some w" "swf {} w" "ipc_frame s w" "cur w = cur s" "thread_ok w (cur s)"
    "tlists w = (tlists s)(h := wait_insert 0 (tprio s) (cur s) (tlists s h))"
    "\<And>x. tstat w x = (if x = cur s then 2 else tstat s x)" "\<And>x. tprio w x = tprio s x" "\<And>x. terror w x = terror s x"
    "\<And>x. o_type (objs w x) = o_type (objs s x)" "ready_group w = ready_group s"
    by (rule rt_ipc_list_suspend_total [OF s h t, of 0]) blast+
  have L: "tlists w = (tlists s)(h := tlists s h @ [cur s])" using w(6) by (simp add: wait_insert_def)
  obtain e v where v: "rt_thread_suspend (cur s) s = Some (e, v)" "link_back h (cur s) v = Some w"
    using w(1) by (auto simp: rt_ipc_list_suspend_def bind_eq_Some_conv)
  have free: "\<not> in_some_list (cur s) (tlists v)" and wv: "w = v\<lparr>tlists := lists_push_back h (cur s) (tlists v)\<rparr>"
    using v(2) by (auto simp: link_back_def bind_eq_Some_conv)
  have lv: "lists_push_back h (cur s) (tlists v) = (tlists s)(h := tlists s h @ [cur s])" using L wv by simp
  have "tlists v h' = tlists s h'" for h' using fun_cong [OF lv, of h'] by (auto simp: lists_push_back_def split: if_splits)
  then have tv: "tlists v = tlists s" by auto
  let ?u = "w\<lparr>tlists := (tlists w)(h := cur s # tlists s h)\<rparr>"
  have d: "distinct (cur s # tlists s h)" using disjoint_distinct [OF swf_disjoint [OF w(2)], of h] by (auto simp: L)
  show thesis
  proof (rule that [OF v(1)])
    show "link_front h (cur s) v = Some ?u" using free wv tv L by (simp add: link_front_eq lists_push_front_def)
    show "swf {} ?u" using swf_reorder [OF w(2) wait_not_ready [OF h] _ d] by (simp add: L)
    show "ipc_frame s ?u" by (rule ipc_frame_trans [OF w(3) ipc_frame_prims(6)])
    show "thread_ok ?u (cur s)" using w(5) thread_ok_cong [of ?u w] by simp
    show "terror ?u x = terror s x" for x using w(9) [of x] by (simp add: terror_def)
  qed (use w L in simp_all)
qed

text \<open>The timeout of a waiting thread, with what it leaves alone.\<close>

lemma rt_thread_timeout_total:
  assumes s: "swf {} s" and t: "thread_ok s t" "tstat s t = 2" and c: "cur s \<noteq> RT_NULL"
  obtains s' where "rt_thread_timeout t s = Some s'" "swf {} s'" "ipc_frame s s'" "terror s' t = - RT_ETIMEOUT" "tstat s' t = 1 \<or> tstat s' t = 3"
    "\<And>h'. not_ready_queue h' \<Longrightarrow> tlists s' h' = removeAll t (tlists s h')"
proof -
  let ?e = "set_error t (- RT_ETIMEOUT) s"
  let ?u = "unlink_thread t ?e"
  have t0: "t \<noteq> 0" using t by (simp add: thread_ok_def)
  have v: "rt_schedule_insert_thread t ?u = Some (enqueued t ?u)" "swf {} (enqueued t ?u)"
    using swf_wake [OF s t(2) t0, of ?u] by simp_all
  obtain s' where s': "rt_schedule (enqueued t ?u) = Some s'" "swf {} s'" using rt_schedule_ok [OF v(2)] c by (auto simp: okt_def)
  have fr: "ipc_frame s s'"
    by (rule ipc_frame_trans [OF ipc_frame_prims(2) ipc_frame_trans [OF ipc_frame_prims(5) ipc_frame_trans [OF ipc_frame_prims(4) ipc_frame_rt_schedule [OF s'(1)]]]])
  show thesis
  proof (rule that [OF _ s'(2) fr])
    show "rt_thread_timeout t s = Some s'" using t t0 v(1) s'(1) by (simp add: rt_thread_timeout_def Let_def)
    show "terror s' t = - RT_ETIMEOUT" using sched_onlyD(20) [OF rt_schedule_sched_only(1) [OF s'(1)], of t] by simp
    show "tstat s' t = 1 \<or> tstat s' t = 3" using rt_schedule_states(2) [OF v(2) s'(1), of t] by (simp add: tstat_enqueued split: if_splits)
    show "tlists s' h' = removeAll t (tlists s h')" if "not_ready_queue h'" for h'
      using rt_schedule_states(3) [OF v(2) s'(1) that] that
      by (simp add: tlists_enqueued lists_push_back_def not_ready_queue_def unlink_thread_def lists_remove_def)
  qed
qed

text \<open>A waiting thread is made ready.\<close>

lemma rt_thread_resume_waiting:
  assumes s: "swf {} s" and q: "tlists s h = xs @ t # ts" "wait_queue h" and t: "thread_ok s t"
  obtains u where "rt_thread_resume t s = Some (RT_EOK, u)" "swf {} u" "ipc_frame s u" "cur u = cur s"
    "\<And>h'. not_ready_queue h' \<Longrightarrow> tlists u h' = ((tlists s)(h := xs @ ts)) h'" "tstat u t = (if t = cur s then 3 else 1)"
    "\<And>x. x \<noteq> t \<Longrightarrow> tstat u x = tstat s x" "\<And>x. tprio u x = tprio s x" "\<And>x. terror u x = terror s x"
    "\<And>x. thread_ok u x = thread_ok s x" "\<And>x. o_type (objs u x) = o_type (objs s x)"
    "\<And>x. threads u x = (threads s x)\<lparr>th_stat := th_stat (threads u x)\<rparr>"
proof -
  have m: "t \<in> set (tlists s h)" using q by simp
  have st: "tstat s t = 2" using swf_queue [OF s m] wait_queue_state [OF q(2)] by auto
  obtain u where u: "rt_thread_resume t s = Some (RT_EOK, enqueued t u)" "obj_only (unlink_thread t s) u" "swf {} (enqueued t u)"
    "\<And>x. o_type (objs u x) = o_type (objs s x)"
    using rt_thread_resume_total [OF s t st] by metis
  note o = obj_onlyD [OF u(2)]
  have L: "lists_remove t (tlists s) = (tlists s)(h := xs @ ts)"
    using lists_remove_split [OF swf_disjoint [OF s], of h xs t ts] q by simp
  have fr: "ipc_frame s (enqueued t u)"
    using ipc_frame_trans [OF ipc_frame_trans [OF ipc_frame_prims(5) ipc_frame_obj_only [OF u(2)]] ipc_frame_prims(4)] .
  show thesis
  proof (rule that [OF u(1,3) fr])
    show "tlists (enqueued t u) h' = ((tlists s)(h := xs @ ts)) h'" if "not_ready_queue h'" for h'
    proof -
      have "tlists (enqueued t u) h' = lists_remove t (tlists s) h'"
        using that by (simp add: tlists_enqueued o lists_push_back_def not_ready_queue_def)
      then show ?thesis by (simp only: L)
    qed
    show "threads (enqueued t u) x = (threads s x)\<lparr>th_stat := th_stat (threads (enqueued t u) x)\<rparr>" for x
      using o(1) by (simp add: enqueued_def set_stat_def unlink_thread_def)
  qed (simp_all add: o tstat_enqueued u(4) thread_ok_def timer_obj_def)
qed

lemmas rt_thread_resume_waiter = rt_thread_resume_waiting [where xs = "[]", unfolded append_Nil]

lemma resume_all_loop_total:
  assumes h: "wait_queue h"
  shows "swf {} s \<Longrightarrow> (\<And>t. t \<in> set (tlists s h) \<Longrightarrow> thread_ok s t) \<Longrightarrow> length (tlists s h) < fuel \<Longrightarrow>
    \<exists>u. resume_all_loop fuel h s = Some u \<and> swf {} u \<and> ipc_frame s u \<and> cur u = cur s \<and>
      (\<forall>h'. not_ready_queue h' \<longrightarrow> tlists u h' = ((tlists s)(h := [])) h') \<and>
      (\<forall>t \<in> set (tlists s h). terror u t = - RT_ERROR \<and> (tstat u t = 1 \<or> tstat u t = 3)) \<and>
      (\<forall>x. x \<notin> set (tlists s h) \<longrightarrow> terror u x = terror s x \<and> tstat u x = tstat s x) \<and>
      (\<forall>x. o_type (objs u x) = o_type (objs s x))"
proof (induction fuel arbitrary: s)
  case (Suc fuel)
  show ?case
  proof (cases "tlists s h")
    case Nil
    then show ?thesis using Suc.prems by (simp add: fun_upd_idem)
  next
    case (Cons t ts)
    let ?s1 = "set_error t (- 1) s"
    have s1: "swf {} ?s1" "tlists ?s1 h = t # ts" "\<And>x. thread_ok ?s1 x = thread_ok s x"
      using Suc.prems(1) Cons thread_ok_cong [of ?s1 s] by simp_all
    have nt: "t \<notin> set ts" using disjoint_distinct [OF swf_disjoint [OF Suc.prems(1)], of h] Cons by simp
    obtain u where u: "rt_thread_resume t ?s1 = Some (RT_EOK, u)" "swf {} u" "ipc_frame ?s1 u" "cur u = cur ?s1"
      "\<And>h'. not_ready_queue h' \<Longrightarrow> tlists u h' = ((tlists ?s1)(h := ts)) h'" "tstat u t = (if t = cur ?s1 then 3 else 1)"
      "\<And>x. x \<noteq> t \<Longrightarrow> tstat u x = tstat ?s1 x" "\<And>x. terror u x = terror ?s1 x" "\<And>x. thread_ok u x = thread_ok ?s1 x"
      "\<And>x. o_type (objs u x) = o_type (objs ?s1 x)"
      using rt_thread_resume_waiter [OF s1(1,2) h] Suc.prems(2) [of t] Cons s1(3) by (metis list.set_intros(1))
    have uh: "tlists u h = ts" using u(5) [OF wait_not_ready [OF h]] by simp
    obtain v where v: "resume_all_loop fuel h u = Some v" "swf {} v" "ipc_frame u v" "cur v = cur u"
      "\<And>h'. not_ready_queue h' \<Longrightarrow> tlists v h' = ((tlists u)(h := [])) h'"
      "\<And>x. x \<in> set ts \<Longrightarrow> terror v x = - 1 \<and> (tstat v x = 1 \<or> tstat v x = 3)"
      "\<And>x. x \<notin> set ts \<Longrightarrow> terror v x = terror u x \<and> tstat v x = tstat u x" "\<And>x. o_type (objs v x) = o_type (objs u x)"
      using Suc.IH [OF u(2)] Suc.prems(2,3) u(9) s1(3) Cons unfolding uh by auto
    have "ipc_frame s v" using ipc_frame_trans [OF ipc_frame_trans [OF ipc_frame_prims(2) u(3)] v(3)] .
    moreover have "resume_all_loop (Suc fuel) h s = Some v" using Cons u(1) v(1) by (simp add: Let_def)
    moreover have "terror v x = - 1 \<and> (tstat v x = 1 \<or> tstat v x = 3)" if "x \<in> set (tlists s h)" for x
      using that Cons v(6,7) u(6,8) nt by (cases "x = t") auto
    moreover have "terror v x = terror s x \<and> tstat v x = tstat s x" if "x \<notin> set (tlists s h)" for x
      using that Cons v(7) u(7,8) by auto
    moreover have "tlists v h' = ((tlists s)(h := [])) h'" if "not_ready_queue h'" for h'
      using v(5) [OF that] u(5) [OF that] by auto
    ultimately show ?thesis using v(2,4,8) u(4,10) by auto
  qed
qed simp

lemma rt_ipc_list_resume_all_total:
  assumes "wait_queue h" "swf {} s" "\<And>t. t \<in> set (tlists s h) \<Longrightarrow> thread_ok s t"
  obtains u where "rt_ipc_list_resume_all h s = Some u" "swf {} u" "ipc_frame s u" "cur u = cur s"
    "\<And>h'. not_ready_queue h' \<Longrightarrow> tlists u h' = ((tlists s)(h := [])) h'"
    "\<And>t. t \<in> set (tlists s h) \<Longrightarrow> terror u t = - RT_ERROR \<and> (tstat u t = 1 \<or> tstat u t = 3)"
    "\<And>x. x \<notin> set (tlists s h) \<Longrightarrow> terror u x = terror s x \<and> tstat u x = tstat s x" "\<And>x. o_type (objs u x) = o_type (objs s x)"
  using resume_all_loop_total [OF assms, of "Suc (length (tlists s h))"]
  by (auto simp: rt_ipc_list_resume_all_def simp del: resume_all_loop.simps)

lemma start_wait_timer_total:
  assumes t: "timer_obj s (ThreadTimer t)" and time: "time < 0x7FFFFFFF"
  obtains u where "start_wait_timer t time s = Some u" "obj_only s u" "\<And>x. o_type (objs u x) = o_type (objs s x)"
    "timers_ok s \<Longrightarrow> ThreadTimer t \<notin> set (timer_list s) \<Longrightarrow> timers_ok u \<and> (0 < time \<longrightarrow> ThreadTimer t \<in> set (timer_list u) \<and> int (due u (ThreadTimer t)) = time)"
proof (cases "time > 0")
  case False
  then show ?thesis by (intro that [of s]) (simp_all add: start_wait_timer_def)
next
  case True
  let ?r = "ThreadTimer t"
  let ?s1 = "upd_timer ?r (\<lambda>r. r\<lparr>tm_init := word_of_int time\<rparr>) s"
  have w: "unat (word_of_int time :: u32) = nat time"
    using True time by (simp add: unat_eq_nat_uint uint_word_of_int take_bit_int_eq_self)
  have lt: "tm_init (timers ?s1 ?r) < RT_TICK_HALF" using w time True by (simp add: word_less_nat_alt)
  have ob: "timer_obj ?s1 ?r" using t by (simp add: timer_obj_def)
  have c: "rt_timer_control ?r 0 (word_of_int time) s = Some (RT_EOK, word_of_int time, ?s1)"
    using t by (simp add: rt_timer_control_def timer_check_type_eq)
  have st: "rt_timer_start ?r ?s1 = Some (RT_EOK, timer_started ?r ?s1)" using lt ob by (simp add: rt_timer_start_eq)
  show ?thesis
  proof (rule that [of "timer_started ?r ?s1"])
    show "start_wait_timer t time s = Some (timer_started ?r ?s1)" using True c st by (simp add: start_wait_timer_def)
    show "obj_only s (timer_started ?r ?s1)" using obj_only_trans [OF obj_only_prims(2) obj_only_prims(5)] .
    show "timers_ok (timer_started ?r ?s1) \<and> (0 < time \<longrightarrow> ?r \<in> set (timer_list (timer_started ?r ?s1)) \<and> int (due (timer_started ?r ?s1) ?r) = time)"
      if s: "timers_ok s" "?r \<notin> set (timer_list s)"
      using timers_ok_started [OF timers_ok_upd_timer_free [OF s] lt ob] timer_list_started [OF timers_ok_upd_timer_free [OF s] lt] w True
      by (simp add: due_timer_started)
  qed (simp add: timer_started_view)
qed

text \<open>A thread that has suspended itself starts its timer, if there is a time limit, and schedules.\<close>

lemma block_total:
  assumes u: "swf {} u" "thread_ok u (cur u)" "tstat u (cur u) = 2" and time: "time < 0x7FFFFFFF"
  obtains v s' where "start_wait_timer (cur u) time u = Some v" "rt_schedule v = Some s'" "swf {} s'" "ipc_frame u s'"
    "\<And>h'. not_ready_queue h' \<Longrightarrow> tlists s' h' = tlists u h'" "tstat s' (cur u) = 2" "\<And>x. terror s' x = terror u x"
    "\<And>x. o_type (objs s' x) = o_type (objs u x)" "lock_nest u \<noteq> 0 \<Longrightarrow> cur s' = cur u"
    "lock_nest u = 0 \<Longrightarrow> ready_group u \<noteq> 0 \<Longrightarrow> cur s' \<noteq> cur u \<and> tstat s' (cur s') = 3" "cur s' \<noteq> 0"
    "\<And>x. tprio s' x = tprio u x" "\<And>x. threads s' x = (threads u x)\<lparr>th_stat := th_stat (threads s' x)\<rparr>"
proof -
  have t0: "cur u \<noteq> 0" using u(2) by (simp add: thread_ok_def)
  have "timer_obj u (ThreadTimer (cur u))" using u(2) by (simp add: thread_ok_def)
  then obtain v where v: "start_wait_timer (cur u) time u = Some v" "obj_only u v" "\<And>x. o_type (objs v x) = o_type (objs u x)"
    using start_wait_timer_total [OF _ time] by metis
  note o = obj_onlyD [OF v(2)]
  have sv: "swf {} v" "cur v = cur u" "tstat v (cur u) = 2" using o u by simp_all
  obtain s' where s': "rt_schedule v = Some s'" "swf {} s'" using rt_schedule_ok [OF sv(1)] sv(2) t0 by (auto simp: okt_def)
  note so = sched_onlyD [OF rt_schedule_sched_only(1) [OF s'(1)]]
  have st: "tstat s' (cur u) = 2" using rt_schedule_states(1) [OF sv(1) s'(1), of "cur u"] sv(3) by simp
  show thesis
  proof (rule that [OF v(1) s' ipc_frame_trans [OF ipc_frame_obj_only [OF v(2)] ipc_frame_rt_schedule [OF s'(1)]]])
    show "tlists s' h' = tlists u h'" if "not_ready_queue h'" for h' using rt_schedule_states(3) [OF sv(1) s'(1) that] o by simp
    show "o_type (objs s' r) = o_type (objs u r)" for r using so v(3) by simp
    show "cur s' = cur u" if "lock_nest u \<noteq> 0" using s'(1) that o(6) sv(2) by (simp add: rt_schedule_idle)
    show "cur s' \<noteq> cur u \<and> tstat s' (cur s') = 3" if "lock_nest u = 0" "ready_group u \<noteq> 0"
    proof -
      have "tstat s' (cur s') = 3" using rt_schedule_highest [OF sv(1)] o(3,6) that sv(2) t0 s'(1) by auto
      then show ?thesis using st by auto
    qed
    show "threads s' x = (threads u x)\<lparr>th_stat := th_stat (threads s' x)\<rparr>" for x
      using rt_schedule_sched_only(1) [OF s'(1)] o(1) unfolding sched_only_def by metis
    show "cur s' \<noteq> 0" using rt_schedule_cur [OF sv(1) s'(1)] sv(2) t0 by simp
  qed (use so o st in simp_all)
qed

text \<open>
  A running thread waits on an object: suspend, start the timer if there is a time limit, schedule.
\<close>

lemma wait_total:
  assumes s: "swf {} s" and h: "wait_queue h" and t: "thread_ok s (cur s)" "tstat s (cur s) = 3" and f: "flag = 0 \<or> flag = 1"
    and time: "time < 0x7FFFFFFF"
  obtains u v s' where "rt_ipc_list_suspend h (cur s) flag s = Some u" "start_wait_timer (cur s) time u = Some v" "rt_schedule v = Some s'"
    "swf {} s'" "ipc_frame s s'" "\<And>h'. not_ready_queue h' \<Longrightarrow> tlists s' h' = ((tlists s)(h := wait_insert flag (tprio s) (cur s) (tlists s h))) h'"
    "tstat s' (cur s) = 2" "\<And>x. terror s' x = terror s x" "\<And>x. o_type (objs s' x) = o_type (objs s x)"
    "lock_nest s \<noteq> 0 \<Longrightarrow> cur s' = cur s" "lock_nest s = 0 \<Longrightarrow> ready_group s \<noteq> 0 \<Longrightarrow> cur s' \<noteq> cur s \<and> tstat s' (cur s') = 3" "cur s' \<noteq> 0"
    "\<And>x. tprio s' x = tprio s x" "\<And>x. threads s' x = (threads s x)\<lparr>th_stat := th_stat (threads s' x)\<rparr>"
proof -
  obtain u where u: "rt_ipc_list_suspend h (cur s) flag s = Some u" "swf {} u" "ipc_frame s u" "cur u = cur s" "thread_ok u (cur s)"
    "tlists u = (tlists s)(h := wait_insert flag (tprio s) (cur s) (tlists s h))"
    "\<And>x. tstat u x = (if x = cur s then 2 else tstat s x)" "\<And>x. terror u x = terror s x" "\<And>x. o_type (objs u x) = o_type (objs s x)"
    "ready_group u = ready_group s" "\<And>x. tprio u x = tprio s x" "\<And>x. threads u x = (threads s x)\<lparr>th_stat := th_stat (threads u x)\<rparr>"
    by (rule rt_ipc_list_suspend_total [OF s h t f]) blast
  have u': "thread_ok u (cur u)" "tstat u (cur u) = 2" "lock_nest u = lock_nest s" using u(3,4,5,7) by (simp_all add: ipc_frame_def)
  obtain v s' where v: "start_wait_timer (cur u) time u = Some v" "rt_schedule v = Some s'" "swf {} s'" "ipc_frame u s'"
    "\<And>h'. not_ready_queue h' \<Longrightarrow> tlists s' h' = tlists u h'" "tstat s' (cur u) = 2" "\<And>x. terror s' x = terror u x"
    "\<And>x. o_type (objs s' x) = o_type (objs u x)" "lock_nest u \<noteq> 0 \<Longrightarrow> cur s' = cur u"
    "lock_nest u = 0 \<Longrightarrow> ready_group u \<noteq> 0 \<Longrightarrow> cur s' \<noteq> cur u \<and> tstat s' (cur s') = 3" "cur s' \<noteq> 0"
    "\<And>x. tprio s' x = tprio u x" "\<And>x. threads s' x = (threads u x)\<lparr>th_stat := th_stat (threads s' x)\<rparr>"
    by (rule block_total [OF u(2) u'(1,2) time]) blast
  show thesis
  proof (rule that [OF u(1) v(1)[unfolded u(4)] v(2,3) ipc_frame_trans [OF u(3) v(4)]])
    show "threads s' x = (threads s x)\<lparr>th_stat := th_stat (threads s' x)\<rparr>" for x
      by (subst v(13)) (subst u(12), simp)
  qed (use u u' v(5-12) in simp_all)
qed

text \<open>The first waiter is resumed and the scheduler runs.\<close>

lemma wake_total:
  assumes s: "swf {} s" and q: "tlists s h = t # ts" "wait_queue h" and t: "thread_ok s t" and c: "cur s \<noteq> RT_NULL"
  obtains u s' where "rt_ipc_list_resume h s = Some u" "rt_schedule u = Some s'" "swf {} s'" "ipc_frame s s'"
    "\<And>h'. not_ready_queue h' \<Longrightarrow> tlists s' h' = ((tlists s)(h := ts)) h'" "tstat s' t = 1 \<or> tstat s' t = 3"
    "\<And>x. tprio s' x = tprio s x" "\<And>x. terror s' x = terror s x" "\<And>r. o_type (objs s' r) = o_type (objs s r)"
    "lock_nest s = 0 \<Longrightarrow> tstat s (cur s) = 3 \<Longrightarrow> tstat s' (cur s') = 3 \<and> (\<forall>x. tstat s' x = 1 \<longrightarrow> tprio s' (cur s') \<le> tprio s' x)"
proof -
  obtain u where u: "rt_thread_resume t s = Some (RT_EOK, u)" "swf {} u" "ipc_frame s u" "cur u = cur s"
    "\<And>h'. not_ready_queue h' \<Longrightarrow> tlists u h' = ((tlists s)(h := ts)) h'" "tstat u t = (if t = cur s then 3 else 1)"
    "\<And>x. x \<noteq> t \<Longrightarrow> tstat u x = tstat s x" "\<And>x. tprio u x = tprio s x" "\<And>x. terror u x = terror s x"
    "\<And>x. o_type (objs u x) = o_type (objs s x)"
    using rt_thread_resume_waiter [OF s q t] by metis
  obtain s' where s': "rt_schedule u = Some s'" "swf {} s'" using rt_schedule_ok [OF u(2)] u(4) c by (auto simp: okt_def)
  note so = sched_onlyD [OF rt_schedule_sched_only(1) [OF s'(1)]]
  show thesis
  proof (rule that [OF _ s'])
    show "rt_ipc_list_resume h s = Some u" using q(1) u(1) by (simp add: rt_ipc_list_resume_def)
    show "ipc_frame s s'" by (rule ipc_frame_trans [OF u(3) ipc_frame_rt_schedule [OF s'(1)]])
    show "tlists s' h' = ((tlists s)(h := ts)) h'" if "not_ready_queue h'" for h'
      using rt_schedule_states(3) [OF u(2) s'(1) that] u(5) [OF that] by simp
    show "tstat s' t = 1 \<or> tstat s' t = 3" using rt_schedule_states(2) [OF u(2) s'(1), of t] u(6) by (simp split: if_splits)
    show "tstat s' (cur s') = 3 \<and> (\<forall>x. tstat s' x = 1 \<longrightarrow> tprio s' (cur s') \<le> tprio s' x)"
      if "lock_nest s = 0" "tstat s (cur s) = 3"
    proof -
      have "lock_nest u = 0" using u(3) that by (simp add: ipc_frame_def)
      moreover have "tstat u (cur u) = 3" using u(4,6) u(7) [of "cur s"] that by (cases "cur s = t") simp_all
      ultimately show ?thesis using rt_schedule_highest [OF u(2)] u(4) c s'(1) by auto
    qed
  qed (use so u(8,9,10) in simp_all)
qed

section \<open>Waiting threads and objects\<close>

text \<open>The object at \<open>p\<close> is of class \<open>cls\<close>; the running thread may block; every thread on a wait list is a thread object.\<close>

definition ipc_obj :: "u8 \<Rightarrow> ptr \<Rightarrow> 'h kernel \<Rightarrow> bool" where
  "ipc_obj cls p s \<longleftrightarrow> p \<noteq> RT_NULL \<and> o_type (objs s (Obj p)) AND NOT RT_Object_Class_Static = cls"

definition running :: "'h kernel \<Rightarrow> bool" where
  "running s \<longleftrightarrow> swf {} s \<and> thread_ok s (cur s) \<and> tstat s (cur s) = RT_THREAD_RUNNING \<and> intr_nest s = 0"

definition waiters_ok :: "qhead \<Rightarrow> 'h kernel \<Rightarrow> bool" where
  "waiters_ok h s \<longleftrightarrow> (\<forall>t \<in> set (tlists s h). thread_ok s t)"

lemma ipc_obj_check [simp]: "ipc_obj cls p s \<Longrightarrow> ipc_check p cls s = Some ()"
  by (simp add: ipc_obj_def)

lemma runningD:
  assumes "running s"
  shows "swf {} s" "thread_ok s (cur s)" "tstat s (cur s) = 3" "in_thread_context s" "not_in_interrupt s" "cur s \<noteq> 0"
  using assms by (auto simp: running_def in_thread_context_def not_in_interrupt_def thread_ok_def)

lemma running_set_error [simp]: "running (set_error t e s) = running s"
  using thread_ok_cong [of "set_error t e s" s] by (simp add: running_def)

lemma ipc_obj_cong: "o_type (objs s' (Obj p)) = o_type (objs s (Obj p)) \<Longrightarrow> ipc_obj cls p s' = ipc_obj cls p s"
  by (simp add: ipc_obj_def)

lemma thread_ok_types: "(\<And>r. o_type (objs s' r) = o_type (objs s r)) \<Longrightarrow> thread_ok s' t = thread_ok s t"
  by (simp add: thread_ok_def timer_obj_def)

lemma ipc_obj_set_error [simp]: "ipc_obj cls p (set_error t e s) = ipc_obj cls p s"
  by (rule ipc_obj_cong) simp

text \<open>
  Detaching is the same for the five classes but for the lists woken; \<open>ipc_detach\<close> states what it promises to the
  threads that wait and to the object container.
\<close>

locale ipc_detach =
  fixes cls :: u8 and detach :: "ptr \<Rightarrow> 'h kernel \<Rightarrow> (rt_err_t \<times> 'h kernel) option"
  assumes detach_eq: "ipc_obj cls p s \<Longrightarrow> o_type (objs s (Obj p)) AND RT_Object_Class_Static \<noteq> 0 \<Longrightarrow>
    rt_ipc_list_resume_all (WaitQ p) s = Some u \<Longrightarrow> rt_object_detach (Obj p) u = Some s' \<Longrightarrow> detach p s = Some (RT_EOK, s')"
begin

lemma detach_wakes_all:
  assumes s: "swf {} s" and p: "ipc_obj cls p s" "o_type (objs s (Obj p)) AND RT_Object_Class_Static \<noteq> 0" and w: "waiters_ok (WaitQ p) s"
  shows "\<exists>s'. detach p s = Some (RT_EOK, s') \<and> swf {} s' \<and> tlists s' (WaitQ p) = [] \<and> \<not> obj_linked (Obj p) s' \<and>
    (\<forall>t \<in> set (tlists s (WaitQ p)). terror s' t = - RT_ERROR \<and> (tstat s' t = RT_THREAD_READY \<or> tstat s' t = RT_THREAD_RUNNING)) \<and>
    (\<forall>t. t \<notin> set (tlists s (WaitQ p)) \<longrightarrow> terror s' t = terror s t \<and> tstat s' t = tstat s t)"
proof -
  have w': "thread_ok s t" if "t \<in> set (tlists s (WaitQ p))" for t using w that by (simp add: waiters_ok_def)
  obtain u where u: "rt_ipc_list_resume_all (WaitQ p) s = Some u" "swf {} u"
    "\<And>h'. not_ready_queue h' \<Longrightarrow> tlists u h' = ((tlists s)(WaitQ p := [])) h'"
    "\<And>t. t \<in> set (tlists s (WaitQ p)) \<Longrightarrow> terror u t = - RT_ERROR \<and> (tstat u t = 1 \<or> tstat u t = 3)"
    "\<And>x. x \<notin> set (tlists s (WaitQ p)) \<Longrightarrow> terror u x = terror s x \<and> tstat u x = tstat s x"
    by (rule rt_ipc_list_resume_all_total [OF wait_queue_simps(1) s w']) blast+
  let ?v = "obj_unlink (Obj p) (upd_obj (Obj p) (\<lambda>r. r\<lparr>o_type := 0\<rparr>) u)"
  have d: "rt_object_detach (Obj p) u = Some ?v" using p(1) by (simp add: rt_object_detach_def Let_def ipc_obj_def)
  note o = obj_onlyD [OF rt_object_detach_obj_only [OF d]]
  have l: "tlists ?v (WaitQ p) = []" using u(3) [of "WaitQ p"] by (simp add: o wait_not_ready)
  have n: "\<not> obj_linked (Obj p) ?v" by (simp add: obj_linked_def obj_unlink_def list_ex_iff)
  show ?thesis
  proof (intro exI [of _ ?v] conjI)
    show "detach p s = Some (RT_EOK, ?v)" by (rule detach_eq [OF p u(1) d])
    show "swf {} ?v" using o(21) u(2) by blast
  qed (use l n u(4,5) o(18,20) in auto)
qed

end

section \<open>A concrete state\<close>

text \<open>Thread 1 runs and thread 6 waits on the object 9; nothing waits on the object 8 of the same class.\<close>

definition ipc_demo :: "u8 \<Rightarrow> unit kernel" where
  "ipc_demo cls = wait_demo\<lparr>objs := (objs wait_demo)(Obj 9 := zero_object\<lparr>o_type := cls OR RT_Object_Class_Static\<rparr>,
     Obj 8 := zero_object\<lparr>o_type := cls OR RT_Object_Class_Static, o_flag := RT_IPC_FLAG_PRIO\<rparr>)\<rparr>"

lemma ipc_demo_thread:
  assumes "x \<noteq> 0" "x \<noteq> 8" "x \<noteq> 9"
  shows "thread_ok (ipc_demo cls) x"
proof -
  have "thread_ok wait_demo x" using assms(1) thread_ok_cong [of wait_demo thread_demo x] by (simp add: wait_demo_def)
  then show ?thesis using assms by (simp add: ipc_demo_def thread_ok_def timer_obj_def)
qed

lemma ipc_demo_view:
  "swf {} (ipc_demo cls)" "running (ipc_demo cls)" "cur (ipc_demo cls) = 1" "lock_nest (ipc_demo cls) = 0"
  "tlists (ipc_demo cls) (WaitQ 9) = [6]" "tlists (ipc_demo cls) (WaitQ 8) = []" "thread_ok (ipc_demo cls) 6" "thread_ok (ipc_demo cls) 1"
  "ready_group (ipc_demo cls) \<noteq> 0" "timer_list (ipc_demo cls) = []" "ticks (ipc_demo cls) = 0"
  "objs (ipc_demo cls) (Obj 9) = zero_object\<lparr>o_type := cls OR RT_Object_Class_Static\<rparr>"
  "objs (ipc_demo cls) (Obj 8) = zero_object\<lparr>o_type := cls OR RT_Object_Class_Static, o_flag := RT_IPC_FLAG_PRIO\<rparr>"
  "waiters_ok (WaitQ 9) (ipc_demo cls)" "waiters_ok (WaitQ 8) (ipc_demo cls)" "terror (ipc_demo cls) 6 = 0"
  "tprio (ipc_demo cls) 1 = 5" "tprio (ipc_demo cls) 6 = 3"
proof -
  have "bit (ready_group sched_demo) 5" by (simp add: sched_demo_view bit_or_bitmask bit_bitmask)
  then show g: "ready_group (ipc_demo cls) \<noteq> 0" by (auto simp: ipc_demo_def wait_demo_def)
  show s: "swf {} (ipc_demo cls)" using swf_wait_demo by (simp add: ipc_demo_def)
  show c: "cur (ipc_demo cls) = 1" "lock_nest (ipc_demo cls) = 0" "timer_list (ipc_demo cls) = []" "ticks (ipc_demo cls) = 0"
    and l: "tlists (ipc_demo cls) (WaitQ 9) = [6]" "tlists (ipc_demo cls) (WaitQ 8) = []"
    by (simp_all add: ipc_demo_def wait_demo_def sched_demo_view)
  show t': "thread_ok (ipc_demo cls) 6" "thread_ok (ipc_demo cls) 1" by (simp_all add: ipc_demo_thread)
  show "waiters_ok (WaitQ 9) (ipc_demo cls)" "waiters_ok (WaitQ 8) (ipc_demo cls)" using l t' by (simp_all add: waiters_ok_def)
  have "tstat (ipc_demo cls) 1 = 3" "intr_nest (ipc_demo cls) = 0"
    by (simp_all add: ipc_demo_def wait_demo_def thread_demo_def tstat_def sched_demo_def zero_defs)
  then show "running (ipc_demo cls)" using s c t'(2) by (simp add: running_def)
qed (simp_all add: ipc_demo_def wait_demo_def thread_demo_def terror_def tprio_def sched_demo_def zero_defs)

end
