(* ===== verification/RT_Semaphore.thy ===== *)
theory RT_Semaphore
  imports RT_Ipc
begin

text \<open>
  Semaphores of \<^verbatim>\<open>src/ipc.c\<close>. The abstract view of a semaphore is its value with the list of waiting threads;
  the theorems give the effect of each operation on that view.
\<close>

section \<open>Operations\<close>

definition set_sem :: "ptr \<Rightarrow> u16 \<Rightarrow> 'h kernel \<Rightarrow> 'h kernel" where
  "set_sem sem v s = s\<lparr>sems := (sems s)(sem := (sems s sem)\<lparr>sem_value := v\<rparr>)\<rparr>"

definition set_flag :: "ptr \<Rightarrow> u8 \<Rightarrow> 'h kernel \<Rightarrow> 'h kernel" where
  "set_flag p flag s = upd_obj (Obj p) (\<lambda>r. r\<lparr>o_flag := flag\<rparr>) s"

definition rt_sem_init :: "ptr \<Rightarrow> string \<Rightarrow> u32 \<Rightarrow> u8 \<Rightarrow> 'h kernel \<Rightarrow> (rt_err_t \<times> 'h kernel) option" where
  "rt_sem_init sem name value flag s = do {
     RT_ASSERT (sem \<noteq> RT_NULL);
     RT_ASSERT (value < 0x10000);
     s \<leftarrow> rt_object_init (Obj sem) RT_Object_Class_Semaphore name s;
     s \<leftarrow> rt_ipc_object_init sem s;
     let s = set_sem sem (ucast value) s;
     Some (RT_EOK, set_flag sem flag s) }"

definition rt_sem_detach :: "ptr \<Rightarrow> 'h kernel \<Rightarrow> (rt_err_t \<times> 'h kernel) option" where
  "rt_sem_detach sem s = do {
     ipc_check sem RT_Object_Class_Semaphore s;
     sys \<leftarrow> rt_object_is_systemobject (Obj sem) s;
     RT_ASSERT sys;
     s \<leftarrow> rt_ipc_list_resume_all (WaitQ sem) s;
     s \<leftarrow> rt_object_detach (Obj sem) s;
     Some (RT_EOK, s) }"

definition rt_sem_create :: "'h heap_ops \<Rightarrow> string \<Rightarrow> u32 \<Rightarrow> u8 \<Rightarrow> 'h kernel \<Rightarrow> (ptr \<times> 'h kernel) option" where
  "rt_sem_create H name value flag s = do {
     RT_ASSERT (not_in_interrupt s);
     RT_ASSERT (value < 0x10000);
     (sem, s) \<leftarrow> rt_object_allocate H RT_Object_Class_Semaphore name s;
     if sem = RT_NULL then Some (sem, s)
     else do {
       s \<leftarrow> rt_ipc_object_init sem s;
       let s = set_sem sem (ucast value) s;
       Some (sem, set_flag sem flag s) } }"

definition rt_sem_delete :: "'h heap_ops \<Rightarrow> ptr \<Rightarrow> 'h kernel \<Rightarrow> (rt_err_t \<times> 'h kernel) option" where
  "rt_sem_delete H sem s = do {
     RT_ASSERT (not_in_interrupt s);
     ipc_check sem RT_Object_Class_Semaphore s;
     sys \<leftarrow> rt_object_is_systemobject (Obj sem) s;
     RT_ASSERT (\<not> sys);
     s \<leftarrow> rt_ipc_list_resume_all (WaitQ sem) s;
     s \<leftarrow> rt_object_delete H sem s;
     Some (RT_EOK, s) }"

definition rt_sem_take :: "ptr \<Rightarrow> int \<Rightarrow> 'h kernel \<Rightarrow> ((rt_err_t, ptr) outcome \<times> 'h kernel) option" where
  "rt_sem_take sem time s = do {
     ipc_check sem RT_Object_Class_Semaphore s;
     if sem_value (sems s sem) > 0 then Some (Done RT_EOK, set_sem sem (sem_value (sems s sem) - 1) s)
     else if time = 0 then Some (Done (- RT_ETIMEOUT), s)
     else do {
       RT_ASSERT (in_thread_context s);
       let thread = rt_thread_self s;
       let s = set_error thread RT_EOK s;
       s \<leftarrow> rt_ipc_list_suspend (WaitQ sem) thread (o_flag (objs s (Obj sem))) s;
       s \<leftarrow> start_wait_timer thread time s;
       s \<leftarrow> rt_schedule s;
       Some (Blocked thread, s) } }"

definition rt_sem_take_resume :: "ptr \<Rightarrow> 'h kernel \<Rightarrow> rt_err_t" where
  "rt_sem_take_resume thread s = (if terror s thread \<noteq> RT_EOK then terror s thread else RT_EOK)"

definition rt_sem_trytake :: "ptr \<Rightarrow> 'h kernel \<Rightarrow> ((rt_err_t, ptr) outcome \<times> 'h kernel) option" where
  "rt_sem_trytake sem s = rt_sem_take sem 0 s"

definition rt_sem_release :: "ptr \<Rightarrow> 'h kernel \<Rightarrow> (rt_err_t \<times> 'h kernel) option" where
  "rt_sem_release sem s = do {
     ipc_check sem RT_Object_Class_Semaphore s;
     if tlists s (WaitQ sem) \<noteq> [] then do {
       s \<leftarrow> rt_ipc_list_resume (WaitQ sem) s;
       s \<leftarrow> rt_schedule s;
       Some (RT_EOK, s) }
     else Some (RT_EOK, set_sem sem (sem_value (sems s sem) + 1) s) }"

definition rt_sem_control :: "ptr \<Rightarrow> int \<Rightarrow> u32 \<Rightarrow> 'h kernel \<Rightarrow> (rt_err_t \<times> 'h kernel) option" where
  "rt_sem_control sem cmd arg s = do {
     ipc_check sem RT_Object_Class_Semaphore s;
     if cmd = RT_IPC_CMD_RESET then do {
       s \<leftarrow> rt_ipc_list_resume_all (WaitQ sem) s;
       let s = set_sem sem (ucast arg) s;
       s \<leftarrow> rt_schedule s;
       Some (RT_EOK, s) }
     else Some (- RT_ERROR, s) }"

section \<open>The scheduler invariant\<close>

lemma swf_set_sem [simp]: "swf X (set_sem sem v s) = swf X s" "swf X (set_flag p flag s) = swf X s"
  by (simp_all add: set_sem_def set_flag_def)

lemma swf_rt_sem_init: "swf {} s \<Longrightarrow> rt_sem_init sem name v flag s = Some (e, s') \<Longrightarrow> swf {} s'"
  by (auto simp: rt_sem_init_def Let_def bind_eq_Some_conv elim: swf_ipc_register)

lemma swf_rt_sem_detach: "swf {} s \<Longrightarrow> rt_sem_detach sem s = Some (e, s') \<Longrightarrow> swf {} s'"
  by (auto simp: rt_sem_detach_def bind_eq_Some_conv dest: swf_detach_delete)

lemma swf_rt_sem_delete: "swf {} s \<Longrightarrow> rt_sem_delete H sem s = Some (e, s') \<Longrightarrow> swf {} s'"
  by (auto simp: rt_sem_delete_def bind_eq_Some_conv dest: swf_detach_delete)

lemma swf_rt_sem_create: "swf {} s \<Longrightarrow> rt_sem_create H name v flag s = Some (p, s') \<Longrightarrow> swf {} s'"
  by (auto simp: rt_sem_create_def Let_def bind_eq_Some_conv split: if_splits dest: swf_rt_object_allocate elim: swf_ipc_register)

lemma swf_rt_sem_take:
  assumes s: "swf {} s" and t: "tstat s (cur s) = 3" and r: "rt_sem_take sem time s = Some (e, s')"
  shows "swf {} s'"
  using r s t by (auto simp: rt_sem_take_def Let_def bind_eq_Some_conv rt_thread_self_def split: if_splits elim!: swf_block)

lemma swf_rt_sem_release: "swf {} s \<Longrightarrow> rt_sem_release sem s = Some (e, s') \<Longrightarrow> swf {} s'"
  by (auto simp: rt_sem_release_def bind_eq_Some_conv split: if_splits intro: swf_rt_schedule swf_rt_ipc_list_resume)

lemma swf_rt_sem_control:
  assumes s: "swf {} s" and r: "rt_sem_control sem cmd arg s = Some (e, s')"
  shows "swf {} s'"
proof (cases "cmd = 1")
  case True
  then obtain u where u: "rt_ipc_list_resume_all (WaitQ sem) s = Some u" "rt_schedule (set_sem sem (ucast arg) u) = Some s'"
    using r by (auto simp: rt_sem_control_def Let_def bind_eq_Some_conv)
  have "swf {} (set_sem sem (ucast arg) u)" using swf_rt_ipc_list_resume_all [OF s u(1)] by simp
  then show ?thesis using u(2) by (rule swf_rt_schedule)
qed (use r s in \<open>auto simp: rt_sem_control_def bind_eq_Some_conv\<close>)

section \<open>Properties\<close>

lemma sem_value_set_sem [simp]: "sem_value (sems (set_sem sem v s) x) = (if x = sem then v else sem_value (sems s x))"
  by (simp add: set_sem_def)

lemma set_sem_frame [simp]: "tlists (set_sem sem v s) = tlists s" "threads (set_sem sem v s) = threads s" "cur (set_sem sem v s) = cur s"
  by (simp_all add: set_sem_def)

lemma rt_sem_take_blocked:
  assumes s: "running s" and o: "ipc_obj RT_Object_Class_Semaphore sem s" "o_flag (objs s (Obj sem)) \<in> {RT_IPC_FLAG_FIFO, RT_IPC_FLAG_PRIO}"
    and v: "sem_value (sems s sem) = 0" and time: "time \<noteq> 0" "time < 0x7FFFFFFF"
  obtains s' where "rt_sem_take sem time s = Some (Blocked (cur s), s')" "swf {} s'" "ipc_frame s s'"
    "\<And>h'. not_ready_queue h' \<Longrightarrow> tlists s' h' = ((tlists s)(WaitQ sem := wait_insert (o_flag (objs s (Obj sem))) (tprio s) (cur s) (tlists s (WaitQ sem)))) h'"
    "tstat s' (cur s) = 2" "terror s' (cur s) = RT_EOK" "\<And>r. o_type (objs s' r) = o_type (objs s r)"
    "lock_nest s \<noteq> 0 \<Longrightarrow> cur s' = cur s" "lock_nest s = 0 \<Longrightarrow> ready_group s \<noteq> 0 \<Longrightarrow> cur s' \<noteq> cur s \<and> tstat s' (cur s') = 3" "cur s' \<noteq> 0"
proof -
  define s0 where "s0 = set_error (cur s) RT_EOK s"
  have s0: "swf {} s0" "thread_ok s0 (cur s0)" "tstat s0 (cur s0) = 3" "cur s0 = cur s" "objs s0 = objs s" "tlists s0 = tlists s"
    "tprio s0 = tprio s" "terror s0 (cur s) = 0" "ipc_frame s s0" "lock_nest s0 = lock_nest s" "ready_group s0 = ready_group s"
    using runningD(1-3) [of s0] s by (auto simp: s0_def)
  have f: "o_flag (objs s0 (Obj sem)) = 0 \<or> o_flag (objs s0 (Obj sem)) = 1" using o(2) s0(5) by simp
  obtain u w s' where w: "rt_ipc_list_suspend (WaitQ sem) (cur s0) (o_flag (objs s0 (Obj sem))) s0 = Some u" "start_wait_timer (cur s0) time u = Some w"
    "rt_schedule w = Some s'" "swf {} s'" "ipc_frame s0 s'"
    "\<And>h'. not_ready_queue h' \<Longrightarrow> tlists s' h' = ((tlists s0)(WaitQ sem := wait_insert (o_flag (objs s0 (Obj sem))) (tprio s0) (cur s0) (tlists s0 (WaitQ sem)))) h'"
    "tstat s' (cur s0) = 2" "\<And>x. terror s' x = terror s0 x" "\<And>x. o_type (objs s' x) = o_type (objs s0 x)"
    "lock_nest s0 \<noteq> 0 \<Longrightarrow> cur s' = cur s0" "lock_nest s0 = 0 \<Longrightarrow> ready_group s0 \<noteq> 0 \<Longrightarrow> cur s' \<noteq> cur s0 \<and> tstat s' (cur s') = 3" "cur s' \<noteq> 0"
    by (rule wait_total [OF s0(1) wait_queue_simps(1) s0(2,3) f time(2)]) blast
  show thesis
  proof (rule that [OF _ w(4) ipc_frame_trans [OF s0(9) w(5)]])
    show "rt_sem_take sem time s = Some (Blocked (cur s), s')"
      using o v time runningD(4) [OF s] w(1-3) s0(4) by (simp add: rt_sem_take_def Let_def rt_thread_self_def s0_def)
  qed (use w(6-12) s0 in simp_all)
qed

text \<open>
  C28. \<^verbatim>\<open>rt_sem_take\<close> by the running thread on a semaphore object whose flag is \<^verbatim>\<open>RT_IPC_FLAG_FIFO\<close> or \<^verbatim>\<open>RT_IPC_FLAG_PRIO\<close>
  comes to an end in one of three ways: with a positive value it takes one and returns \<^verbatim>\<open>RT_EOK\<close>; with value 0 and time 0 it
  returns \<^verbatim>\<open>-RT_ETIMEOUT\<close> and changes nothing; otherwise, for a time below \<^verbatim>\<open>0x7FFFFFFF\<close> ticks (the timer module takes no longer
  timeout, and \<^verbatim>\<open>RT_WAITING_FOREVER\<close> is negative), the thread is suspended on the semaphore's wait list and the value stays 0. With
  \<^verbatim>\<open>RT_IPC_FLAG_FIFO\<close> it goes to the end of that list, whatever the list is. With \<^verbatim>\<open>RT_IPC_FLAG_PRIO\<close> it goes before the first waiter of
  lower priority; so in a list that is in the order of the priorities it is behind all waiters of the same or higher priority and
  before all others.
\<close>

theorem rt_sem_take_cases:
  assumes s: "running s" and o: "ipc_obj RT_Object_Class_Semaphore sem s" "o_flag (objs s (Obj sem)) \<in> {RT_IPC_FLAG_FIFO, RT_IPC_FLAG_PRIO}"
  shows "if sem_value (sems s sem) > 0
    then \<exists>s'. rt_sem_take sem time s = Some (Done RT_EOK, s') \<and> unat (sem_value (sems s' sem)) + 1 = unat (sem_value (sems s sem)) \<and> tlists s' = tlists s
    else if time = 0 then rt_sem_take sem time s = Some (Done (- RT_ETIMEOUT), s)
    else time < 0x7FFFFFFF \<longrightarrow> (\<exists>s'. rt_sem_take sem time s = Some (Blocked (cur s), s') \<and> swf {} s' \<and> sems s' = sems s \<and>
      tstat s' (cur s) = RT_THREAD_SUSPEND \<and> terror s' (cur s) = RT_EOK \<and>
      (let waiting = tlists s (WaitQ sem); p = tprio s (cur s) in
       if o_flag (objs s (Obj sem)) = RT_IPC_FLAG_FIFO then tlists s' (WaitQ sem) = waiting @ [cur s]
       else tlists s' (WaitQ sem) = takeWhile (\<lambda>t. tprio s t \<le> p) waiting @ cur s # dropWhile (\<lambda>t. tprio s t \<le> p) waiting \<and>
         (sorted (map (tprio s) waiting) \<longrightarrow>
           tlists s' (WaitQ sem) = filter (\<lambda>t. tprio s t \<le> p) waiting @ cur s # filter (\<lambda>t. p < tprio s t) waiting)))"
proof (cases "sem_value (sems s sem) > 0")
  case True
  then have "unat (sem_value (sems s sem) - 1) + 1 = unat (sem_value (sems s sem))"
    using unat_minus_one [of "sem_value (sems s sem)"] unat_gt_0 [of "sem_value (sems s sem)"] by auto
  then show ?thesis using True o by (simp add: rt_sem_take_def)
next
  case False
  then have z: "sem_value (sems s sem) = 0" by (simp add: word_gt_0)
  show ?thesis
  proof (cases "time = 0")
    case True
    then show ?thesis using z o by (simp add: rt_sem_take_def)
  next
    case nz: False
    show ?thesis
    proof (cases "time < 0x7FFFFFFF")
      case True
      obtain s' where "rt_sem_take sem time s = Some (Blocked (cur s), s')" "swf {} s'" "ipc_frame s s'"
        "\<And>h'. not_ready_queue h' \<Longrightarrow> tlists s' h' = ((tlists s)(WaitQ sem := wait_insert (o_flag (objs s (Obj sem))) (tprio s) (cur s) (tlists s (WaitQ sem)))) h'"
        "tstat s' (cur s) = 2" "terror s' (cur s) = RT_EOK"
        by (rule rt_sem_take_blocked [OF s o z nz True]) blast
      then show ?thesis using z nz prio_insert_split [of "tprio s" "cur s" "tlists s (WaitQ sem)"] prio_insert_stable [of "tprio s" "tlists s (WaitQ sem)" "cur s"]
        by (simp add: ipc_frame_def wait_insert_def)
    qed (use z nz in simp)
  qed
qed

theorem rt_sem_take_cases_witness:
  "\<exists>s'. rt_sem_take 8 100 (ipc_demo RT_Object_Class_Semaphore) = Some (Blocked 1, s') \<and> tlists s' (WaitQ 8) = [1]"
  using rt_sem_take_cases [OF ipc_demo_view(2) [of 2], of 8 100]
  by (auto simp: ipc_demo_view ipc_obj_def zero_object_def) (auto simp: ipc_demo_def wait_demo_def thread_demo_def sched_demo_def zero_defs)

text \<open>
  \<^verbatim>\<open>rt_sem_release\<close> always returns \<^verbatim>\<open>RT_EOK\<close>. With waiters it hands the token to the first of them: that thread
  leaves the list ready to run, the value does not change, and the highest priority thread runs next. Without waiters
  it adds one to the 16-bit value, which wraps from 65535 to 0.
\<close>

theorem rt_sem_release_hands_over:
  assumes s: "running s" "lock_nest s = 0" and o: "ipc_obj RT_Object_Class_Semaphore sem s" and w: "waiters_ok (WaitQ sem) s"
  shows "\<exists>s'. rt_sem_release sem s = Some (RT_EOK, s') \<and> swf {} s' \<and> tlists s' (WaitQ sem) = tl (tlists s (WaitQ sem)) \<and>
    tstat s' (cur s') = RT_THREAD_RUNNING \<and>
    (if tlists s (WaitQ sem) = [] then unat (sem_value (sems s' sem)) = (unat (sem_value (sems s sem)) + 1) mod 65536 \<and> cur s' = cur s
     else sems s' = sems s \<and> tstat s' (hd (tlists s (WaitQ sem))) \<in> {RT_THREAD_READY, RT_THREAD_RUNNING} \<and>
       terror s' (hd (tlists s (WaitQ sem))) = terror s (hd (tlists s (WaitQ sem))) \<and>
       (\<forall>t. tstat s' t = RT_THREAD_READY \<longrightarrow> tprio s' (cur s') \<le> tprio s' t))"
proof (cases "tlists s (WaitQ sem)")
  case Nil
  let ?s' = "set_sem sem (sem_value (sems s sem) + 1) s"
  have "rt_sem_release sem s = Some (RT_EOK, ?s')" using o Nil by (simp add: rt_sem_release_def)
  moreover have "tstat ?s' (cur ?s') = 3" using runningD(3) [OF s(1)] by (simp add: tstat_def)
  moreover have "unat (sem_value (sems s sem) + 1) = (unat (sem_value (sems s sem)) + 1) mod 65536" by (simp add: unat_word_ariths)
  ultimately show ?thesis using Nil runningD(1) [OF s(1)] by simp
next
  case (Cons t ts)
  have t: "thread_ok s t" using w Cons by (simp add: waiters_ok_def)
  obtain u s' where u: "rt_ipc_list_resume (WaitQ sem) s = Some u" "rt_schedule u = Some s'" "swf {} s'" "ipc_frame s s'"
    "\<And>h'. not_ready_queue h' \<Longrightarrow> tlists s' h' = ((tlists s)(WaitQ sem := ts)) h'" "tstat s' t = 1 \<or> tstat s' t = 3"
    "\<And>x. terror s' x = terror s x"
    "lock_nest s = 0 \<Longrightarrow> tstat s (cur s) = 3 \<Longrightarrow> tstat s' (cur s') = 3 \<and> (\<forall>x. tstat s' x = 1 \<longrightarrow> tprio s' (cur s') \<le> tprio s' x)"
    by (rule wake_total [OF runningD(1) [OF s(1)] Cons wait_queue_simps(1) t runningD(6) [OF s(1)]]) blast
  have "rt_sem_release sem s = Some (RT_EOK, s')" using o u Cons by (simp add: rt_sem_release_def)
  then show ?thesis using u(3-7) u(8) [OF s(2) runningD(3) [OF s(1)]] Cons by (auto simp: ipc_frame_def)
qed

theorem rt_sem_release_hands_over_witness:
  "\<exists>s'. rt_sem_release 9 (ipc_demo RT_Object_Class_Semaphore) = Some (RT_EOK, s') \<and> tlists s' (WaitQ 9) = [] \<and> tstat s' 6 \<in> {RT_THREAD_READY, RT_THREAD_RUNNING}"
  using rt_sem_release_hands_over [OF ipc_demo_view(2,4) [of 2], of 9] by (auto simp: ipc_demo_view ipc_obj_def)

text \<open>
  A blocked \<^verbatim>\<open>rt_sem_take\<close> is completed by the next \<^verbatim>\<open>rt_sem_release\<close>: when a thread blocks on a semaphore nobody
  waits for and the thread that runs next releases it, the first thread is made ready, its \<^verbatim>\<open>rt_sem_take\<close> returns
  \<^verbatim>\<open>RT_EOK\<close>, and the value is 0 as before.
\<close>

theorem rt_sem_handoff:
  assumes s: "running s" "lock_nest s = 0" "ready_group s \<noteq> 0"
    and o: "ipc_obj RT_Object_Class_Semaphore sem s" "o_flag (objs s (Obj sem)) \<in> {RT_IPC_FLAG_FIFO, RT_IPC_FLAG_PRIO}"
    and v: "sem_value (sems s sem) = 0" "tlists s (WaitQ sem) = []" and time: "time \<noteq> 0" "time < 0x7FFFFFFF"
  shows "\<exists>s1 s2. rt_sem_take sem time s = Some (Blocked (cur s), s1) \<and> cur s1 \<noteq> cur s \<and>
    rt_sem_release sem s1 = Some (RT_EOK, s2) \<and> swf {} s2 \<and> tstat s2 (cur s) \<in> {RT_THREAD_READY, RT_THREAD_RUNNING} \<and>
    rt_sem_take_resume (cur s) s2 = RT_EOK \<and> sem_value (sems s2 sem) = 0 \<and> tlists s2 (WaitQ sem) = []"
proof -
  obtain s1 where s1: "rt_sem_take sem time s = Some (Blocked (cur s), s1)" "swf {} s1" "ipc_frame s s1"
    "\<And>h'. not_ready_queue h' \<Longrightarrow> tlists s1 h' = ((tlists s)(WaitQ sem := wait_insert (o_flag (objs s (Obj sem))) (tprio s) (cur s) (tlists s (WaitQ sem)))) h'"
    "terror s1 (cur s) = RT_EOK" "\<And>r. o_type (objs s1 r) = o_type (objs s r)" "cur s1 \<noteq> cur s \<and> tstat s1 (cur s1) = 3" "cur s1 \<noteq> 0"
    by (rule rt_sem_take_blocked [OF s(1) o v(1) time]) (use s in blast)
  have q: "tlists s1 (WaitQ sem) = [cur s]" using s1(4) [of "WaitQ sem"] v(2) by (simp add: wait_insert_def)
  have t: "thread_ok s1 (cur s)" using thread_ok_types [OF s1(6)] runningD(2) [OF s(1)] by simp
  obtain u s2 where s2: "rt_ipc_list_resume (WaitQ sem) s1 = Some u" "rt_schedule u = Some s2" "swf {} s2" "ipc_frame s1 s2"
    "\<And>h'. not_ready_queue h' \<Longrightarrow> tlists s2 h' = ((tlists s1)(WaitQ sem := [])) h'" "tstat s2 (cur s) = 1 \<or> tstat s2 (cur s) = 3"
    "\<And>x. terror s2 x = terror s1 x"
    by (rule wake_total [OF s1(2) q wait_queue_simps(1) t s1(8)]) blast
  have "ipc_obj RT_Object_Class_Semaphore sem s1" using o(1) ipc_obj_cong [of s1 sem s] s1(6) by simp
  then have "rt_sem_release sem s1 = Some (RT_EOK, s2)" using s2 q by (simp add: rt_sem_release_def)
  moreover have "sem_value (sems s2 sem) = 0" using s1(3) s2(4) v(1) by (simp add: ipc_frame_def)
  ultimately show ?thesis using s1(1,5,7) s2(3,5,6,7) by (auto simp: rt_sem_take_resume_def)
qed

theorem rt_sem_handoff_witness:
  "\<exists>s1 s2. rt_sem_take 8 100 (ipc_demo RT_Object_Class_Semaphore) = Some (Blocked 1, s1) \<and>
     rt_sem_release 8 s1 = Some (RT_EOK, s2) \<and> rt_sem_take_resume 1 s2 = RT_EOK"
proof -
  have "sem_value (sems (ipc_demo 2) 8) = 0" by (simp add: ipc_demo_def wait_demo_def thread_demo_def sched_demo_def zero_defs)
  then show ?thesis
    using rt_sem_handoff [OF ipc_demo_view(2,4,9) [of 2], of 8 100] by (auto simp: ipc_demo_view ipc_obj_def zero_object_def)
qed

interpretation sem_close: ipc_detach RT_Object_Class_Semaphore rt_sem_detach
  by unfold_locales (simp add: rt_sem_detach_def rt_object_is_systemobject_def ipc_obj_def)

text \<open>
  \<^verbatim>\<open>rt_sem_detach\<close> wakes every waiting thread, each with error \<^verbatim>\<open>-RT_ERROR\<close> so that its \<^verbatim>\<open>rt_sem_take\<close> returns
  \<^verbatim>\<open>-RT_ERROR\<close>, leaves the other threads as they were, and unregisters the semaphore.
\<close>

theorem rt_sem_detach_wakes_all:
  assumes "swf {} s" "ipc_obj RT_Object_Class_Semaphore sem s" "o_type (objs s (Obj sem)) AND RT_Object_Class_Static \<noteq> 0"
    "waiters_ok (WaitQ sem) s"
  shows "\<exists>s'. rt_sem_detach sem s = Some (RT_EOK, s') \<and> swf {} s' \<and> tlists s' (WaitQ sem) = [] \<and> \<not> obj_linked (Obj sem) s' \<and>
    (\<forall>t \<in> set (tlists s (WaitQ sem)). rt_sem_take_resume t s' = - RT_ERROR \<and> tstat s' t \<in> {RT_THREAD_READY, RT_THREAD_RUNNING}) \<and>
    (\<forall>t. t \<notin> set (tlists s (WaitQ sem)) \<longrightarrow> terror s' t = terror s t \<and> tstat s' t = tstat s t)"
  using sem_close.detach_wakes_all [OF assms] by (auto simp: rt_sem_take_resume_def)

theorem rt_sem_detach_wakes_all_witness:
  "\<exists>s'. rt_sem_detach 9 (ipc_demo RT_Object_Class_Semaphore) = Some (RT_EOK, s') \<and> rt_sem_take_resume 6 s' = - RT_ERROR"
  using rt_sem_detach_wakes_all [OF ipc_demo_view(1) [of 2], of 9] by (auto simp: ipc_demo_view ipc_obj_def)

text \<open>
  With the scheduler locked, a blocking \<^verbatim>\<open>rt_sem_take\<close> on an unavailable semaphore does not wait: the same thread
  goes on, marked suspended and linked into the wait list, and the call returns \<^verbatim>\<open>RT_EOK\<close> although no token was taken.
\<close>

theorem rt_sem_take_locked:
  assumes s: "running s" "lock_nest s \<noteq> 0"
    and o: "ipc_obj RT_Object_Class_Semaphore sem s" "o_flag (objs s (Obj sem)) \<in> {RT_IPC_FLAG_FIFO, RT_IPC_FLAG_PRIO}"
    and v: "sem_value (sems s sem) = 0" and time: "time \<noteq> 0" "time < 0x7FFFFFFF"
  shows "\<exists>s'. rt_sem_take sem time s = Some (Blocked (cur s), s') \<and> cur s' = cur s \<and> tstat s' (cur s') = RT_THREAD_SUSPEND \<and>
    cur s \<in> set (tlists s' (WaitQ sem)) \<and> rt_sem_take_resume (cur s) s' = RT_EOK"
proof -
  obtain s' where s': "rt_sem_take sem time s = Some (Blocked (cur s), s')"
    "\<And>h'. not_ready_queue h' \<Longrightarrow> tlists s' h' = ((tlists s)(WaitQ sem := wait_insert (o_flag (objs s (Obj sem))) (tprio s) (cur s) (tlists s (WaitQ sem)))) h'"
    "tstat s' (cur s) = 2" "terror s' (cur s) = RT_EOK" "cur s' = cur s"
    by (rule rt_sem_take_blocked [OF s(1) o v time]) (use s in blast)
  have "tlists s' (WaitQ sem) = wait_insert (o_flag (objs s (Obj sem))) (tprio s) (cur s) (tlists s (WaitQ sem))"
    using s'(2) [of "WaitQ sem"] by simp
  then show ?thesis using s'(1,3-5) by (auto simp: wait_insert_props rt_sem_take_resume_def)
qed

theorem rt_sem_take_locked_witness:
  "\<exists>s'. rt_sem_take 8 100 ((ipc_demo RT_Object_Class_Semaphore)\<lparr>lock_nest := 1\<rparr>) = Some (Blocked 1, s') \<and> rt_sem_take_resume 1 s' = RT_EOK"
proof -
  let ?s = "(ipc_demo 2)\<lparr>lock_nest := 1\<rparr>"
  have "running ?s" using ipc_demo_view(2) [of 2] thread_ok_cong [of ?s "ipc_demo 2"] by (simp add: running_def tstat_def)
  moreover have "sem_value (sems ?s 8) = 0" by (simp add: ipc_demo_def wait_demo_def thread_demo_def sched_demo_def zero_defs)
  ultimately show ?thesis
    using rt_sem_take_locked [of ?s 8 100] by (auto simp: ipc_demo_view ipc_obj_def zero_object_def)
qed

end
