(* ===== verification/RT_Mutex.thy ===== *)
theory RT_Mutex
  imports RT_Semaphore
begin

text \<open>
  Mutexes of \<^verbatim>\<open>src/ipc.c\<close>: recursive locking by the owner, priority inheritance by the owner while a thread of
  higher priority waits, hand-over to the first waiter on release.
\<close>

section \<open>Operations\<close>

definition upd_mutex :: "ptr \<Rightarrow> (rt_mutex \<Rightarrow> rt_mutex) \<Rightarrow> 'h kernel \<Rightarrow> 'h kernel" where
  "upd_mutex mutex f s = s\<lparr>mutexes := (mutexes s)(mutex := f (mutexes s mutex))\<rparr>"

definition unlocked_mutex :: rt_mutex where
  "unlocked_mutex = \<lparr>mtx_value = 1, mtx_original_priority = 0xFF, mtx_hold = 0, mtx_owner = RT_NULL\<rparr>"

definition rt_mutex_init :: "ptr \<Rightarrow> string \<Rightarrow> u8 \<Rightarrow> 'h kernel \<Rightarrow> (rt_err_t \<times> 'h kernel) option" where
  "rt_mutex_init mutex name flag s = do {
     RT_ASSERT (mutex \<noteq> RT_NULL);
     s \<leftarrow> rt_object_init (Obj mutex) RT_Object_Class_Mutex name s;
     s \<leftarrow> rt_ipc_object_init mutex s;
     let s = upd_mutex mutex (\<lambda>_. unlocked_mutex) s;
     Some (RT_EOK, set_flag mutex flag s) }"

definition rt_mutex_detach :: "ptr \<Rightarrow> 'h kernel \<Rightarrow> (rt_err_t \<times> 'h kernel) option" where
  "rt_mutex_detach mutex s = do {
     ipc_check mutex RT_Object_Class_Mutex s;
     sys \<leftarrow> rt_object_is_systemobject (Obj mutex) s;
     RT_ASSERT sys;
     s \<leftarrow> rt_ipc_list_resume_all (WaitQ mutex) s;
     s \<leftarrow> rt_object_detach (Obj mutex) s;
     Some (RT_EOK, s) }"

definition rt_mutex_create :: "'h heap_ops \<Rightarrow> string \<Rightarrow> u8 \<Rightarrow> 'h kernel \<Rightarrow> (ptr \<times> 'h kernel) option" where
  "rt_mutex_create H name flag s = do {
     RT_ASSERT (not_in_interrupt s);
     (mutex, s) \<leftarrow> rt_object_allocate H RT_Object_Class_Mutex name s;
     if mutex = RT_NULL then Some (mutex, s)
     else do {
       s \<leftarrow> rt_ipc_object_init mutex s;
       let s = upd_mutex mutex (\<lambda>_. unlocked_mutex) s;
       Some (mutex, set_flag mutex flag s) } }"

definition rt_mutex_delete :: "'h heap_ops \<Rightarrow> ptr \<Rightarrow> 'h kernel \<Rightarrow> (rt_err_t \<times> 'h kernel) option" where
  "rt_mutex_delete H mutex s = do {
     RT_ASSERT (not_in_interrupt s);
     ipc_check mutex RT_Object_Class_Mutex s;
     sys \<leftarrow> rt_object_is_systemobject (Obj mutex) s;
     RT_ASSERT (\<not> sys);
     s \<leftarrow> rt_ipc_list_resume_all (WaitQ mutex) s;
     s \<leftarrow> rt_object_delete H mutex s;
     Some (RT_EOK, s) }"

text \<open>
  \<^verbatim>\<open>rt_mutex_take\<close> from the label \<^verbatim>\<open>__again\<close> on. The owner's priority is read through \<^verbatim>\<open>mutex->owner\<close>, which is a
  thread whenever the value is 0.
\<close>

definition mutex_take_again :: "ptr \<Rightarrow> ptr \<Rightarrow> int \<Rightarrow> 'h kernel \<Rightarrow> ((rt_err_t, ptr) outcome \<times> 'h kernel) option" where
  "mutex_take_again mutex thread time s =
    (let m = mutexes s mutex in
     if mtx_value m > 0 then
       Some (Done RT_EOK, upd_mutex mutex (\<lambda>m. m\<lparr>mtx_value := mtx_value m - 1, mtx_owner := thread,
         mtx_original_priority := th_current_priority (threads s thread), mtx_hold := mtx_hold m + 1\<rparr>) s)
     else if time = 0 then Some (Done (- RT_ETIMEOUT), set_error thread (- RT_ETIMEOUT) s)
     else do {
       mem_ok (mtx_owner m \<noteq> RT_NULL);
       (_, s) \<leftarrow> (if tprio s thread < tprio s (mtx_owner m)
         then rt_thread_control (mtx_owner m) RT_THREAD_CTRL_CHANGE_PRIORITY (th_current_priority (threads s thread)) s
         else Some (RT_EOK, s));
       s \<leftarrow> rt_ipc_list_suspend (WaitQ mutex) thread (o_flag (objs s (Obj mutex))) s;
       s \<leftarrow> start_wait_timer thread time s;
       s \<leftarrow> rt_schedule s;
       Some (Blocked thread, s) })"

definition rt_mutex_take :: "ptr \<Rightarrow> int \<Rightarrow> 'h kernel \<Rightarrow> ((rt_err_t, ptr) outcome \<times> 'h kernel) option" where
  "rt_mutex_take mutex time s = do {
     RT_ASSERT (in_thread_context s);
     ipc_check mutex RT_Object_Class_Mutex s;
     let thread = rt_thread_self s;
     let s = set_error thread RT_EOK s;
     if mtx_owner (mutexes s mutex) = thread
     then Some (Done RT_EOK, upd_mutex mutex (\<lambda>m. m\<lparr>mtx_hold := mtx_hold m + 1\<rparr>) s)
     else mutex_take_again mutex thread time s }"

definition rt_mutex_take_resume :: "ptr \<Rightarrow> ptr \<Rightarrow> int \<Rightarrow> 'h kernel \<Rightarrow> ((rt_err_t, ptr) outcome \<times> 'h kernel) option" where
  "rt_mutex_take_resume mutex thread time s =
    (if terror s thread \<noteq> RT_EOK then
       (if terror s thread = - RT_EINTR then mutex_take_again mutex thread time s
        else Some (Done (terror s thread), s))
     else Some (Done RT_EOK, s))"

text \<open>The two parts of \<^verbatim>\<open>rt_mutex_release\<close> after the last hold: the owner's priority, and the next owner.\<close>

definition mutex_restore_priority :: "ptr \<Rightarrow> 'h kernel \<Rightarrow> 'h kernel option" where
  "mutex_restore_priority mutex s =
    (let owner = mtx_owner (mutexes s mutex) in
     if mtx_original_priority (mutexes s mutex) \<noteq> th_current_priority (threads s owner)
     then do { (_, s) \<leftarrow> rt_thread_control owner RT_THREAD_CTRL_CHANGE_PRIORITY (mtx_original_priority (mutexes s mutex)) s; Some s }
     else Some s)"

definition mutex_hand_over :: "ptr \<Rightarrow> 'h kernel \<Rightarrow> (rt_err_t \<times> 'h kernel) option" where
  "mutex_hand_over mutex s =
    (if tlists s (WaitQ mutex) \<noteq> [] then do {
       let thread = hd (tlists s (WaitQ mutex));
       let s = upd_mutex mutex (\<lambda>m. m\<lparr>mtx_owner := thread,
         mtx_original_priority := th_current_priority (threads s thread), mtx_hold := mtx_hold m + 1\<rparr>) s;
       s \<leftarrow> rt_ipc_list_resume (WaitQ mutex) s;
       s \<leftarrow> rt_schedule s;
       Some (RT_EOK, s) }
     else Some (RT_EOK, upd_mutex mutex (\<lambda>m. m\<lparr>mtx_value := mtx_value m + 1, mtx_owner := RT_NULL, mtx_original_priority := 0xFF\<rparr>) s))"

definition rt_mutex_release :: "ptr \<Rightarrow> 'h kernel \<Rightarrow> (rt_err_t \<times> 'h kernel) option" where
  "rt_mutex_release mutex s = do {
     ipc_check mutex RT_Object_Class_Mutex s;
     RT_ASSERT (in_thread_context s);
     let thread = rt_thread_self s;
     if thread \<noteq> mtx_owner (mutexes s mutex) then Some (- RT_ERROR, set_error thread (- RT_ERROR) s)
     else do {
       let s = upd_mutex mutex (\<lambda>m. m\<lparr>mtx_hold := mtx_hold m - 1\<rparr>) s;
       if mtx_hold (mutexes s mutex) = 0 then do {
         s \<leftarrow> mutex_restore_priority mutex s;
         mutex_hand_over mutex s }
       else Some (RT_EOK, s) } }"

lemmas mutex_release_defs = rt_mutex_release_def mutex_restore_priority_def mutex_hand_over_def

definition rt_mutex_control :: "ptr \<Rightarrow> int \<Rightarrow> u32 \<Rightarrow> 'h kernel \<Rightarrow> (rt_err_t \<times> 'h kernel) option" where
  "rt_mutex_control mutex cmd arg s = do {
     ipc_check mutex RT_Object_Class_Mutex s;
     Some (- RT_ERROR, s) }"

section \<open>The scheduler invariant\<close>

lemma swf_upd_mutex [simp]: "swf X (upd_mutex m f s) = swf X s"
  by (simp add: upd_mutex_def)

lemma upd_mutex_frame [simp]:
  "tlists (upd_mutex m f s) = tlists s" "threads (upd_mutex m f s) = threads s" "cur (upd_mutex m f s) = cur s"
  "objs (upd_mutex m f s) = objs s" "lock_nest (upd_mutex m f s) = lock_nest s" "ready_group (upd_mutex m f s) = ready_group s"
  "intr_nest (upd_mutex m f s) = intr_nest s" "tstat (upd_mutex m f s) t = tstat s t" "tprio (upd_mutex m f s) t = tprio s t"
  "terror (upd_mutex m f s) t = terror s t" "mutexes (upd_mutex m f s) = (mutexes s)(m := f (mutexes s m))"
  by (simp_all add: upd_mutex_def tstat_def tprio_def terror_def)

lemma prio_set_error: "th_current_priority (threads (set_error t e s) x) = th_current_priority (threads s x)"
  by (simp add: set_error_def)

lemma thread_ok_upd_mutex [simp]: "thread_ok (upd_mutex m f s) t = thread_ok s t"
  by (rule thread_ok_cong) simp

lemma swf_rt_mutex_init: "swf {} s \<Longrightarrow> rt_mutex_init m name flag s = Some (e, s') \<Longrightarrow> swf {} s'"
  by (auto simp: rt_mutex_init_def Let_def bind_eq_Some_conv elim: swf_ipc_register)

lemma swf_rt_mutex_detach: "swf {} s \<Longrightarrow> rt_mutex_detach m s = Some (e, s') \<Longrightarrow> swf {} s'"
  by (auto simp: rt_mutex_detach_def bind_eq_Some_conv dest: swf_detach_delete)

lemma swf_rt_mutex_delete: "swf {} s \<Longrightarrow> rt_mutex_delete H m s = Some (e, s') \<Longrightarrow> swf {} s'"
  by (auto simp: rt_mutex_delete_def bind_eq_Some_conv dest: swf_detach_delete)

lemma swf_rt_mutex_create: "swf {} s \<Longrightarrow> rt_mutex_create H name flag s = Some (p, s') \<Longrightarrow> swf {} s'"
  by (auto simp: rt_mutex_create_def Let_def bind_eq_Some_conv split: if_splits dest: swf_rt_object_allocate elim: swf_ipc_register)

lemma rt_thread_control_priority_stat:
  "rt_thread_control t 2 arg s = Some (e, s') \<Longrightarrow> tstat s x = 3 \<or> tstat s x = 1 \<or> tstat s x = 2 \<Longrightarrow> tstat s' x = 3 \<or> tstat s' x = 1 \<or> tstat s' x = 2"
  by (auto simp: rt_thread_control_def set_priority_def bind_eq_Some_conv tstat_enqueued split: if_splits
      dest!: rt_schedule_remove_thread_Some rt_schedule_insert_thread_Some) (auto simp: tstat_def split: if_splits)

lemma swf_mutex_take_again:
  assumes s: "swf {} s" and t: "tstat s t = 3 \<or> tstat s t = 1 \<or> tstat s t = 2" and r: "mutex_take_again m t time s = Some (e, s')"
  shows "swf {} s'"
proof -
  have "swf {} s'" if c: "rt_thread_control o' 2 arg s = Some (e', u)" and "rt_ipc_list_suspend (WaitQ m) t flag u = Some v"
    "start_wait_timer t time v = Some w" "rt_schedule w = Some s'" for o' arg e' u v w flag
    using swf_block [OF that(2-4) swf_rt_thread_control [OF s c]] rt_thread_control_priority_stat [OF c t] by simp
  then show ?thesis
    using r s t by (auto simp: mutex_take_again_def Let_def bind_eq_Some_conv split: if_splits elim: swf_block)
qed

lemma swf_rt_mutex_take:
  assumes "swf {} s" "tstat s (cur s) = 3" "rt_mutex_take m time s = Some (e, s')"
  shows "swf {} s'"
  using assms swf_mutex_take_again [of "set_error (cur s) 0 s" "cur s" m time e s']
  by (auto simp: rt_mutex_take_def Let_def bind_eq_Some_conv rt_thread_self_def split: if_splits)

lemma swf_rt_mutex_take_resume:
  assumes "swf {} s" "tstat s t = 3" "rt_mutex_take_resume m t time s = Some (e, s')"
  shows "swf {} s'"
  using assms swf_mutex_take_again [of s t m time e s'] by (auto simp: rt_mutex_take_resume_def split: if_splits)

lemma swf_rt_mutex_release:
  assumes s: "swf {} s" and r: "rt_mutex_release m s = Some (e, s')"
  shows "swf {} s'"
proof -
  have c: "swf {} u" if "rt_thread_control o' 2 arg (upd_mutex m f s) = Some (e', u)" for o' arg e' u f
    using swf_rt_thread_control [OF _ that] s by simp
  have w: "swf {} s'" if "rt_ipc_list_resume h (upd_mutex m f u) = Some v" "rt_schedule v = Some s'" "swf {} u" for h f u v
    using swf_rt_schedule [OF swf_rt_ipc_list_resume [OF _ that(1)] that(2)] that(3) by simp
  show ?thesis
    using r s by (auto simp: mutex_release_defs Let_def bind_eq_Some_conv split: if_splits intro: c w)
qed

lemma swf_rt_mutex_control: "rt_mutex_control m cmd arg s = Some (e, s') \<Longrightarrow> s' = s \<and> e = - RT_ERROR"
  by (auto simp: rt_mutex_control_def bind_eq_Some_conv)

section \<open>The state of a mutex\<close>

text \<open>
  A mutex is either free, with value 1 and no owner, or locked, with value 0 and an owner that holds it at least once.
  Nobody waits for a free mutex.
\<close>

definition mutex_ok :: "ptr \<Rightarrow> 'h kernel \<Rightarrow> bool" where
  "mutex_ok m s \<longleftrightarrow>
     (if mtx_value (mutexes s m) = 0 then mtx_owner (mutexes s m) \<noteq> RT_NULL \<and> mtx_hold (mutexes s m) \<noteq> 0
      else mutexes s m = unlocked_mutex \<and> tlists s (WaitQ m) = [])"

text \<open>What the priority change leaves alone.\<close>

lemma reprioritised_view:
  assumes s: "swf {} s"
  shows "cur (reprioritised t arg s) = cur s" "objs (reprioritised t arg s) = objs s" "ipc_frame s (reprioritised t arg s)"
    "tstat (reprioritised t arg s) x = tstat s x" "terror (reprioritised t arg s) x = terror s x"
    "not_ready_queue h \<Longrightarrow> tlists (reprioritised t arg s) h = tlists s h"
proof -
  let ?f = "\<lambda>r. r\<lparr>th_current_priority := arg, th_number_mask := bitmask (unat arg)\<rparr>"
  show "cur (reprioritised t arg s) = cur s" "objs (reprioritised t arg s) = objs s"
    by (simp_all add: reprioritised_def Let_def)
  show "ipc_frame s (reprioritised t arg s)"
    by (auto simp: reprioritised_def Let_def intro: ipc_frame_trans [OF ipc_frame_trans [OF ipc_frame_prims(3) ipc_frame_prims(7)] ipc_frame_prims(4)])
  have st: "tstat (upd_thread t ?f u) x = tstat u x" "terror (upd_thread t ?f u) x = terror u x" for u :: "'a kernel" and x
    by (simp_all add: tstat_def terror_def)
  show "tstat (reprioritised t arg s) x = tstat s x"
    using swf_ready_thread(4) [OF s, of t] by (auto simp: reprioritised_def Let_def tstat_enqueued st)
  show "terror (reprioritised t arg s) x = terror s x"
    by (simp add: reprioritised_def Let_def st)
  show "tlists (reprioritised t arg s) h = tlists s h" if h: "not_ready_queue h"
  proof (cases "tstat s t = 1")
    case True
    have "t \<notin> set (tlists s h)" using swf_queue [OF s, of t h] h True by (cases h) auto
    then have "lists_remove t (tlists s) h = tlists s h" by (simp add: lists_remove_def)
    then show ?thesis using h by (auto simp: reprioritised_def Let_def tlists_enqueued lists_push_back_def not_ready_queue_def)
  qed (simp add: reprioritised_def Let_def)
qed

text \<open>
  The running thread blocks on a locked mutex. The owner's priority becomes the higher one of the two.
\<close>

definition inherited :: "ptr \<Rightarrow> 'h kernel \<Rightarrow> ptr \<Rightarrow> nat" where
  "inherited m s x = (if x = mtx_owner (mutexes s m) then min (tprio s x) (tprio s (cur s)) else tprio s x)"

lemma rt_mutex_take_blocked:
  assumes s: "running s" and o: "ipc_obj RT_Object_Class_Mutex m s" "o_flag (objs s (Obj m)) \<in> {RT_IPC_FLAG_FIFO, RT_IPC_FLAG_PRIO}"
    and v: "mtx_value (mutexes s m) = 0" "mtx_owner (mutexes s m) \<noteq> cur s" "thread_ok s (mtx_owner (mutexes s m))"
    and time: "time \<noteq> 0" "time < 0x7FFFFFFF"
  obtains s' where "rt_mutex_take m time s = Some (Blocked (cur s), s')" "swf {} s'" "ipc_frame s s'"
    "\<And>h'. not_ready_queue h' \<Longrightarrow> tlists s' h' = ((tlists s)(WaitQ m := wait_insert (o_flag (objs s (Obj m))) (inherited m s) (cur s) (tlists s (WaitQ m)))) h'"
    "\<And>x. tprio s' x = inherited m s x" "tstat s' (cur s) = 2" "terror s' (cur s) = RT_EOK" "\<And>r. o_type (objs s' r) = o_type (objs s r)"
proof -
  define ow where "ow = mtx_owner (mutexes s m)"
  define s0 where "s0 = set_error (cur s) RT_EOK s"
  define s1 where "s1 = (if tprio s (cur s) < tprio s ow then reprioritised ow (th_current_priority (threads s0 (cur s))) s0 else s0)"
  have s0: "swf {} s0" "thread_ok s0 (cur s)" "tstat s0 (cur s) = 3" "thread_ok s0 ow" "cur s0 = cur s" "tprio s0 = tprio s"
    using runningD(1-3) [OF s] v(3) thread_ok_cong [of s0 s] by (auto simp: s0_def ow_def)
  have p: "unat (th_current_priority (threads s0 (cur s))) = tprio s (cur s)" using s0(6) by (simp add: tprio_def fun_eq_iff)
  have lt: "tprio s (cur s) < 32" using swf_prio_lt(1) [OF runningD(1) [OF s]] .
  have ctl: "rt_thread_control ow 2 (th_current_priority (threads s0 (cur s))) s0 = Some (RT_EOK, reprioritised ow (th_current_priority (threads s0 (cur s))) s0)"
    "swf {} (reprioritised ow (th_current_priority (threads s0 (cur s))) s0)"
    using rt_thread_control_priority [OF s0(1,4)] p lt by simp_all
  note rv = reprioritised_view [OF s0(1), where t = ow and arg = "th_current_priority (threads s0 (cur s))"]
  have s1: "swf {} s1" "thread_ok s1 (cur s1)" "tstat s1 (cur s1) = 3" "cur s1 = cur s" "objs s1 = objs s" "ipc_frame s s1"
    "\<And>h. not_ready_queue h \<Longrightarrow> tlists s1 h = tlists s h" "tprio s1 = inherited m s" "terror s1 (cur s) = RT_EOK"
    using s0 ctl(2) rv thread_ok_cong [of s1 s0] p ipc_frame_trans [OF ipc_frame_prims(2) rv(3) [unfolded s0_def]]
    by (auto simp: s1_def inherited_def ow_def s0_def fun_eq_iff)
  have f: "o_flag (objs s1 (Obj m)) = 0 \<or> o_flag (objs s1 (Obj m)) = 1" using o(2) s1(5) by simp
  obtain u w s' where w: "rt_ipc_list_suspend (WaitQ m) (cur s1) (o_flag (objs s1 (Obj m))) s1 = Some u" "start_wait_timer (cur s1) time u = Some w"
    "rt_schedule w = Some s'" "swf {} s'" "ipc_frame s1 s'"
    "\<And>h'. not_ready_queue h' \<Longrightarrow> tlists s' h' = ((tlists s1)(WaitQ m := wait_insert (o_flag (objs s1 (Obj m))) (tprio s1) (cur s1) (tlists s1 (WaitQ m)))) h'"
    "tstat s' (cur s1) = 2" "\<And>x. terror s' x = terror s1 x" "\<And>x. o_type (objs s' x) = o_type (objs s1 x)" "\<And>x. tprio s' x = tprio s1 x"
    by (rule wait_total [OF s1(1) wait_queue_simps(1) s1(2,3) f time(2)]) blast
  show thesis
  proof (rule that [OF _ w(4) ipc_frame_trans [OF s1(6) w(5)]])
    have "mutex_take_again m (cur s) time s0 = Some (Blocked (cur s), s')"
      using v time w(1-3) ctl(1) s1(4) s0(4,6) unfolding mutex_take_again_def Let_def s1_def ow_def
      by (auto simp: s0_def thread_ok_def split: if_splits)
    then show "rt_mutex_take m time s = Some (Blocked (cur s), s')"
      using o(1) v(2) runningD(4) [OF s] by (simp add: rt_mutex_take_def Let_def rt_thread_self_def s0_def)
    show "tlists s' h' = ((tlists s)(WaitQ m := wait_insert (o_flag (objs s (Obj m))) (inherited m s) (cur s) (tlists s (WaitQ m)))) h'"
      if "not_ready_queue h'" for h'
      using w(6) [OF that] s1(4,5,7,8) that by simp
  qed (use w(7-10) s1(4,5,8,9) in simp_all)
qed

section \<open>Properties\<close>

text \<open>
  C15. \<^verbatim>\<open>rt_mutex_take\<close> by the running thread: a free mutex becomes owned by it, held once, with its priority recorded;
  the owner's own nested take only counts; a mutex owned by another thread gives \<^verbatim>\<open>-RT_ETIMEOUT\<close> at once for time 0,
  and otherwise suspends the caller on the wait list and raises the owner to at least the caller's priority, while
  every other thread keeps its own.
\<close>

theorem rt_mutex_take_cases:
  assumes s: "running s" and o: "ipc_obj RT_Object_Class_Mutex m s" "o_flag (objs s (Obj m)) \<in> {RT_IPC_FLAG_FIFO, RT_IPC_FLAG_PRIO}"
    and m: "mutex_ok m s" "mtx_owner (mutexes s m) \<noteq> RT_NULL \<longrightarrow> thread_ok s (mtx_owner (mutexes s m))" and time: "time < 0x7FFFFFFF"
  shows "\<exists>r s'. rt_mutex_take m time s = Some (r, s') \<and> swf {} s' \<and>
    (if mtx_owner (mutexes s m) = RT_NULL then r = Done RT_EOK \<and> tlists s' = tlists s \<and>
       mutexes s' m = \<lparr>mtx_value = 0, mtx_original_priority = th_current_priority (threads s (cur s)), mtx_hold = 1, mtx_owner = cur s\<rparr>
     else if mtx_owner (mutexes s m) = cur s then r = Done RT_EOK \<and> tlists s' = tlists s \<and>
       mutexes s' m = (mutexes s m)\<lparr>mtx_hold := mtx_hold (mutexes s m) + 1\<rparr>
     else if time = 0 then r = Done (- RT_ETIMEOUT) \<and> mutexes s' = mutexes s \<and> tlists s' = tlists s
     else r = Blocked (cur s) \<and> mutexes s' = mutexes s \<and> tstat s' (cur s) = RT_THREAD_SUSPEND \<and> cur s \<in> set (tlists s' (WaitQ m)) \<and>
       tprio s' (mtx_owner (mutexes s m)) = min (tprio s (mtx_owner (mutexes s m))) (tprio s (cur s)) \<and>
       (\<forall>t. t \<noteq> mtx_owner (mutexes s m) \<longrightarrow> tprio s' t = tprio s t))"
proof -
  let ?m = "mutexes s m"
  note rs = runningD [OF s]
  have take: "rt_mutex_take m time s = (if mtx_owner ?m = cur s
      then Some (Done RT_EOK, upd_mutex m (\<lambda>m. m\<lparr>mtx_hold := mtx_hold m + 1\<rparr>) (set_error (cur s) RT_EOK s))
      else mutex_take_again m (cur s) time (set_error (cur s) RT_EOK s))"
    using o(1) rs(4) by (simp add: rt_mutex_take_def Let_def rt_thread_self_def)
  consider "mtx_owner ?m = 0" | "mtx_owner ?m = cur s" "mtx_owner ?m \<noteq> 0" | "mtx_owner ?m \<noteq> cur s" "mtx_owner ?m \<noteq> 0" "time = 0"
    | "mtx_owner ?m \<noteq> cur s" "mtx_owner ?m \<noteq> 0" "time \<noteq> 0" by blast
  then show ?thesis
  proof cases
    case 1
    then have u: "?m = unlocked_mutex" using m(1) by (simp add: mutex_ok_def split: if_splits)
    show ?thesis using 1 rs(1,6) unfolding take mutex_take_again_def by (simp add: u unlocked_mutex_def prio_set_error)
  next
    case 2
    then show ?thesis using rs(1) unfolding take by simp
  next
    case 3
    then have v: "mtx_value ?m = 0" using m(1) by (auto simp: mutex_ok_def unlocked_mutex_def split: if_splits)
    show ?thesis using 3 v rs(1) unfolding take mutex_take_again_def by (simp add: Let_def)
  next
    case 4
    then have v: "mtx_value ?m = 0" using m(1) by (auto simp: mutex_ok_def unlocked_mutex_def split: if_splits)
    have ow: "thread_ok s (mtx_owner ?m)" using 4(2) m(2) by blast
    obtain s' where s': "rt_mutex_take m time s = Some (Blocked (cur s), s')" "swf {} s'" "ipc_frame s s'"
      "\<And>h'. not_ready_queue h' \<Longrightarrow> tlists s' h' = ((tlists s)(WaitQ m := wait_insert (o_flag (objs s (Obj m))) (inherited m s) (cur s) (tlists s (WaitQ m)))) h'"
      "\<And>x. tprio s' x = inherited m s x" "tstat s' (cur s) = 2"
      by (rule rt_mutex_take_blocked [OF s o v 4(1) ow 4(3) time]) blast
    have "cur s \<in> set (tlists s' (WaitQ m))" using s'(4) [of "WaitQ m"] by (simp add: wait_insert_props)
    then show ?thesis using 4 s' by (simp add: ipc_frame_def inherited_def)
  qed
qed

definition mutex_demo :: "unit kernel" where
  "mutex_demo = (ipc_demo RT_Object_Class_Mutex)\<lparr>mutexes := (\<lambda>_. unlocked_mutex)
     (8 := \<lparr>mtx_value = 0, mtx_original_priority = 7, mtx_hold = 1, mtx_owner = 3\<rparr>,
      9 := \<lparr>mtx_value = 0, mtx_original_priority = 6, mtx_hold = 1, mtx_owner = 1\<rparr>)\<rparr>"

lemma mutex_demo_view:
  "running mutex_demo" "cur mutex_demo = 1" "lock_nest mutex_demo = 0" "tlists mutex_demo (WaitQ 9) = [6]" "tlists mutex_demo (WaitQ 8) = []"
  "t \<in> {1, 2, 3, 6} \<Longrightarrow> thread_ok mutex_demo t" "objs mutex_demo (Obj 9) = zero_object\<lparr>o_type := 0x83\<rparr>"
  "objs mutex_demo (Obj 8) = zero_object\<lparr>o_type := 0x83, o_flag := RT_IPC_FLAG_PRIO\<rparr>"
  "mutexes mutex_demo 8 = \<lparr>mtx_value = 0, mtx_original_priority = 7, mtx_hold = 1, mtx_owner = 3\<rparr>"
  "mutexes mutex_demo 9 = \<lparr>mtx_value = 0, mtx_original_priority = 6, mtx_hold = 1, mtx_owner = 1\<rparr>"
  "tprio mutex_demo 3 = 7" "tprio mutex_demo 1 = 5" "terror mutex_demo 6 = 0" "tprio mutex_demo 6 = 3"
proof -
  let ?s = "ipc_demo RT_Object_Class_Mutex"
  have r: "running mutex_demo = running ?s" "thread_ok mutex_demo t = thread_ok ?s t" for t
    using thread_ok_cong [of mutex_demo ?s] by (simp_all add: running_def mutex_demo_def tstat_def)
  then show "running mutex_demo" using ipc_demo_view(2) by simp
  show "thread_ok mutex_demo t" if "t \<in> {1, 2, 3, 6}" using that by (auto simp: r ipc_demo_thread)
  show "tprio mutex_demo 3 = 7" by (simp add: mutex_demo_def ipc_demo_def wait_demo_def thread_demo_def tprio_def sched_demo_def)
  have t: "tprio mutex_demo x = tprio ?s x" "terror mutex_demo x = terror ?s x" for x by (simp_all add: mutex_demo_def tprio_def terror_def)
  then show "tprio mutex_demo 1 = 5" "terror mutex_demo 6 = 0" "tprio mutex_demo 6 = 3" using ipc_demo_view by simp_all
qed (simp_all add: mutex_demo_def ipc_demo_view)

theorem rt_mutex_take_cases_witness:
  "\<exists>s'. rt_mutex_take 8 100 mutex_demo = Some (Blocked 1, s') \<and> tprio s' 3 = 5"
  using rt_mutex_take_cases [OF mutex_demo_view(1), of 8 100]
  by (auto simp: mutex_demo_view mutex_ok_def ipc_obj_def zero_object_def simp del: One_nat_def)

text \<open>
  C14. \<^verbatim>\<open>rt_mutex_release\<close> by the owner's last hold, with threads waiting, passes the mutex to the first of them: it becomes
  the owner, held once, with its own priority recorded; the releasing thread gets its original priority back; the new
  owner leaves the wait list and its \<^verbatim>\<open>rt_mutex_take\<close> returns \<^verbatim>\<open>RT_EOK\<close>; the highest priority ready thread runs.
\<close>

theorem rt_mutex_release_hands_over:
  assumes s: "running s" "lock_nest s = 0" and o: "ipc_obj RT_Object_Class_Mutex m s"
    and m: "mtx_owner (mutexes s m) = cur s" "mtx_hold (mutexes s m) = 1" "unat (mtx_original_priority (mutexes s m)) < RT_THREAD_PRIORITY_MAX"
    and q: "tlists s (WaitQ m) = t # ts" and t: "thread_ok s t" "terror s t = RT_EOK"
  shows "\<exists>s'. rt_mutex_release m s = Some (RT_EOK, s') \<and> swf {} s' \<and>
    mutexes s' m = (mutexes s m)\<lparr>mtx_owner := t, mtx_original_priority := th_current_priority (threads s t)\<rparr> \<and>
    tprio s' (cur s) = unat (mtx_original_priority (mutexes s m)) \<and> tlists s' (WaitQ m) = ts \<and>
    tstat s' t \<in> {RT_THREAD_READY, RT_THREAD_RUNNING} \<and> rt_mutex_take_resume m t time s' = Some (Done RT_EOK, s') \<and>
    tstat s' (cur s') = RT_THREAD_RUNNING \<and> (\<forall>x. tstat s' x = RT_THREAD_READY \<longrightarrow> tprio s' (cur s') \<le> tprio s' x)"
proof -
  note rs = runningD [OF s(1)]
  define og where "og = mtx_original_priority (mutexes s m)"
  define s0 where "s0 = upd_mutex m (\<lambda>m. m\<lparr>mtx_hold := mtx_hold m - 1\<rparr>) s"
  define s1 where "s1 = (if og \<noteq> th_current_priority (threads s (cur s)) then reprioritised (cur s) og s0 else s0)"
  define f where "f = (\<lambda>x::rt_mutex. x\<lparr>mtx_owner := t, mtx_original_priority := th_current_priority (threads s1 t), mtx_hold := mtx_hold x + 1\<rparr>)"
  have tc: "t \<noteq> cur s" using swf_queue [OF rs(1), of t "WaitQ m"] q rs(3) by auto
  have s0: "swf {} s0" "thread_ok s0 (cur s)" using rs(1,2) by (simp_all add: s0_def)
  note ctl = rt_thread_control_priority [OF s0, of og] and rv = reprioritised_view [OF s0(1), where t = "cur s" and arg = og]
  have s1: "swf {} s1" "cur s1 = cur s" "objs s1 = objs s" "tstat s1 (cur s) = 3" "terror s1 x = terror s x" "lock_nest s1 = 0"
    "tlists s1 (WaitQ m) = t # ts" "mutexes s1 = mutexes s0" for x
    using s0 ctl(2) rv rs m(3) s(2) q by (auto simp: s1_def s0_def og_def ipc_frame_def)
  have p: "tprio s1 x = (if x = cur s then unat og else tprio s x)" for x
    using tprio_def [of s "cur s"] by (simp add: s1_def s0_def)
  then have th: "th_current_priority (threads s1 t) = th_current_priority (threads s t)"
    using tc by (metis tprio_def word_unat_eq_iff)
  have v: "swf {} (upd_mutex m f s1)" "tlists (upd_mutex m f s1) (WaitQ m) = t # ts" "thread_ok (upd_mutex m f s1) t" "cur (upd_mutex m f s1) \<noteq> 0"
    using s1 rs(6) t(1) thread_ok_cong [of s1 s] by simp_all
  obtain u s' where w: "rt_ipc_list_resume (WaitQ m) (upd_mutex m f s1) = Some u" "rt_schedule u = Some s'" "swf {} s'" "ipc_frame (upd_mutex m f s1) s'"
    "\<And>h'. not_ready_queue h' \<Longrightarrow> tlists s' h' = ((tlists (upd_mutex m f s1))(WaitQ m := ts)) h'" "tstat s' t = 1 \<or> tstat s' t = 3"
    "\<And>x. tprio s' x = tprio (upd_mutex m f s1) x" "\<And>x. terror s' x = terror (upd_mutex m f s1) x"
    "lock_nest (upd_mutex m f s1) = 0 \<Longrightarrow> tstat (upd_mutex m f s1) (cur (upd_mutex m f s1)) = 3 \<Longrightarrow>
       tstat s' (cur s') = 3 \<and> (\<forall>x. tstat s' x = 1 \<longrightarrow> tprio s' (cur s') \<le> tprio s' x)"
    by (rule wake_total [OF v(1,2) wait_queue_simps(1) v(3,4)]) blast
  have "rt_mutex_release m s = Some (RT_EOK, s')"
    using o rs(4) m ctl(1) w(1,2) s1(7)
    by (auto simp: mutex_release_defs Let_def rt_thread_self_def og_def s0_def s1_def f_def split: if_splits)
  moreover have "mutexes s' m = (mutexes s m)\<lparr>mtx_owner := t, mtx_original_priority := th_current_priority (threads s t)\<rparr>"
    using w(4) m(2) by (simp add: ipc_frame_def f_def s1(8) s0_def th)
  ultimately show ?thesis
    using w(3,5-9) s1 p t(2) tc by (auto simp: rt_mutex_take_resume_def og_def)
qed

theorem rt_mutex_release_hands_over_witness:
  "\<exists>s'. rt_mutex_release 9 mutex_demo = Some (RT_EOK, s') \<and> mtx_owner (mutexes s' 9) = 6 \<and> tprio s' 1 = 6"
  using rt_mutex_release_hands_over [OF mutex_demo_view(1,3), of 9 6 "[]" 0]
  by (auto simp: mutex_demo_view ipc_obj_def simp del: One_nat_def)

text \<open>
  The remaining branches of \<^verbatim>\<open>rt_mutex_release\<close>: a thread that is not the owner gets \<^verbatim>\<open>-RT_ERROR\<close> and the mutex
  is untouched; a hold that is not the last is only counted down; the last hold with nobody waiting frees the
  mutex and gives the owner its original priority back.
\<close>

theorem rt_mutex_release_cases:
  assumes s: "running s" and o: "ipc_obj RT_Object_Class_Mutex m s"
    and m: "mutex_ok m s" "unat (mtx_original_priority (mutexes s m)) < RT_THREAD_PRIORITY_MAX" and q: "tlists s (WaitQ m) = []"
  shows "\<exists>e s'. rt_mutex_release m s = Some (e, s') \<and> swf {} s' \<and> cur s' = cur s \<and>
    (if mtx_owner (mutexes s m) \<noteq> cur s then e = - RT_ERROR \<and> mutexes s' = mutexes s \<and> terror s' (cur s) = - RT_ERROR
     else if mtx_hold (mutexes s m) \<noteq> 1 then e = RT_EOK \<and> mutexes s' = (mutexes s)(m := (mutexes s m)\<lparr>mtx_hold := mtx_hold (mutexes s m) - 1\<rparr>)
     else e = RT_EOK \<and> mutexes s' = (mutexes s)(m := unlocked_mutex) \<and> tprio s' (cur s) = unat (mtx_original_priority (mutexes s m)))"
proof -
  note rs = runningD [OF s]
  let ?m = "mutexes s m"
  define og where "og = mtx_original_priority ?m"
  define s0 where "s0 = upd_mutex m (\<lambda>m. m\<lparr>mtx_hold := mtx_hold m - 1\<rparr>) s"
  define s1 where "s1 = (if og \<noteq> th_current_priority (threads s (cur s)) then reprioritised (cur s) og s0 else s0)"
  have s0: "swf {} s0" "thread_ok s0 (cur s)" using rs(1,2) by (simp_all add: s0_def)
  note ctl = rt_thread_control_priority [OF s0, of og] and rv = reprioritised_view [OF s0(1), where t = "cur s" and arg = og]
  have s1: "swf {} s1" "cur s1 = cur s" "tlists s1 (WaitQ m) = []" "mutexes s1 = mutexes s0"
    using s0 ctl(2) rv m(2) q by (auto simp: s1_def s0_def og_def ipc_frame_def)
  have p: "tprio s1 (cur s) = unat og" using tprio_def [of s "cur s"] by (simp add: s1_def s0_def)
  consider "mtx_owner ?m \<noteq> cur s" | "mtx_owner ?m = cur s" "mtx_hold ?m \<noteq> 1" | "mtx_owner ?m = cur s" "mtx_hold ?m = 1" by blast
  then show ?thesis
  proof cases
    case 1
    then show ?thesis using o rs by (simp add: mutex_release_defs Let_def rt_thread_self_def)
  next
    case 2
    have "mtx_hold ?m - 1 \<noteq> 0" using 2(2) by simp
    then show ?thesis using 2 o rs by (simp add: mutex_release_defs Let_def rt_thread_self_def)
  next
    case 3
    let ?s' = "upd_mutex m (\<lambda>m. m\<lparr>mtx_value := mtx_value m + 1, mtx_owner := RT_NULL, mtx_original_priority := 0xFF\<rparr>) s1"
    have v: "mtx_value ?m = 0" using 3 rs(6) m(1) by (auto simp: mutex_ok_def unlocked_mutex_def split: if_splits)
    have "rt_mutex_release m s = Some (RT_EOK, ?s')"
      using o rs(4) 3 m(2) ctl(1) s1(3) by (auto simp: mutex_release_defs Let_def rt_thread_self_def og_def s0_def s1_def split: if_splits)
    moreover have "mutexes ?s' = (mutexes s)(m := unlocked_mutex)" using 3 v by (cases ?m) (simp add: s1(4) s0_def unlocked_mutex_def)
    ultimately show ?thesis using 3 s1(1,2) p by (simp add: og_def)
  qed
qed

theorem rt_mutex_release_cases_witness: "\<exists>s'. rt_mutex_release 8 mutex_demo = Some (- RT_ERROR, s') \<and> terror s' 1 = - RT_ERROR"
  using rt_mutex_release_cases [OF mutex_demo_view(1), of 8] by (auto simp: mutex_demo_view ipc_obj_def mutex_ok_def simp del: One_nat_def)

section \<open>The mutex invariant\<close>

lemma rt_thread_control_priority_frame:
  assumes "rt_thread_control t 2 arg s = Some (e, s')"
  shows "ipc_frame s s'"
proof -
  let ?f = "\<lambda>r. r\<lparr>th_current_priority := arg, th_number_mask := bitmask (unat arg)\<rparr>"
  have "s' = enqueued t (upd_thread t ?f (dequeued t s)) \<or> s' = upd_thread t ?f s"
    using assms by (auto simp: rt_thread_control_def set_priority_def bind_eq_Some_conv split: if_splits
        dest!: rt_schedule_remove_thread_Some rt_schedule_insert_thread_Some)
  then show ?thesis
    by (auto intro: ipc_frame_trans [OF ipc_frame_trans [OF ipc_frame_prims(3) ipc_frame_prims(7)] ipc_frame_prims(4)])
qed

lemma mutex_ok_locked: "mtx_value (mutexes s m) = 0 \<Longrightarrow> mtx_owner (mutexes s m) \<noteq> 0 \<Longrightarrow> mtx_hold (mutexes s m) \<noteq> 0 \<Longrightarrow> mutex_ok m s"
  by (simp add: mutex_ok_def)

lemma mutex_ok_take_again:
  assumes m: "mutex_ok m s" and t: "t \<noteq> 0" and r: "mutex_take_again m t time s = Some (r, s')"
  shows "mutex_ok m s'"
proof (cases "mtx_value (mutexes s m) = 0")
  case False
  then show ?thesis using m t r by (auto simp: mutex_ok_def mutex_take_again_def unlocked_mutex_def word_gt_0)
next
  case True
  then have "mutexes s' m = mutexes s m"
    using r by (auto simp: mutex_take_again_def Let_def bind_eq_Some_conv ipc_frame_def split: if_splits
        dest!: rt_thread_control_priority_frame ipc_frame_block)
  then show ?thesis using m True by (simp add: mutex_ok_def)
qed

lemma mutex_ok_release:
  assumes m: "mutex_ok m s" and r: "rt_mutex_release m s = Some (e, s')"
  shows "mutex_ok m s'"
proof (cases "cur s = mtx_owner (mutexes s m)")
  case False
  then show ?thesis using m r by (auto simp: mutex_release_defs Let_def bind_eq_Some_conv rt_thread_self_def mutex_ok_def)
next
  case own: True
  define s0 where "s0 = upd_mutex m (\<lambda>m. m\<lparr>mtx_hold := mtx_hold m - 1\<rparr>) s"
  have c: "mtx_owner (mutexes s m) \<noteq> 0" using r own by (auto simp: rt_mutex_release_def in_thread_context_def bind_eq_Some_conv)
  have v: "mtx_value (mutexes s m) = 0" using m c by (auto simp: mutex_ok_def unlocked_mutex_def split: if_splits)
  show ?thesis
  proof (cases "mtx_hold (mutexes s m) = 1")
    case False
    then show ?thesis using r own c v
      by (auto simp: mutex_release_defs Let_def bind_eq_Some_conv rt_thread_self_def mutex_ok_def)
  next
    case True
    then obtain s1 where s1: "mutex_restore_priority m s0 = Some s1" and rest: "mutex_hand_over m s1 = Some (e, s')"
      using r own by (auto simp: rt_mutex_release_def Let_def bind_eq_Some_conv rt_thread_self_def s0_def)
    have "ipc_frame s0 s1"
      using s1 by (auto simp: mutex_restore_priority_def Let_def bind_eq_Some_conv split: if_splits dest: rt_thread_control_priority_frame)
    then have ms: "mutexes s1 m = (mutexes s m)\<lparr>mtx_hold := 0\<rparr>" using True by (simp add: ipc_frame_def s0_def)
    show ?thesis
    proof (cases "tlists s1 (WaitQ m) = []")
      case e: True
      then have "s' = upd_mutex m (\<lambda>m. m\<lparr>mtx_value := mtx_value m + 1, mtx_owner := RT_NULL, mtx_original_priority := 0xFF\<rparr>) s1"
        using rest by (simp add: mutex_hand_over_def)
      then show ?thesis using e ms v by (cases "mutexes s m") (simp add: mutex_ok_def unlocked_mutex_def)
    next
      case w: False
      then obtain u where u: "rt_ipc_list_resume (WaitQ m) (upd_mutex m (\<lambda>x. x\<lparr>mtx_owner := hd (tlists s1 (WaitQ m)),
          mtx_original_priority := th_current_priority (threads s1 (hd (tlists s1 (WaitQ m)))), mtx_hold := mtx_hold x + 1\<rparr>) s1) = Some u" "rt_schedule u = Some s'"
        using rest by (auto simp: mutex_hand_over_def Let_def bind_eq_Some_conv)
      have "hd (tlists s1 (WaitQ m)) \<noteq> 0"
        using u(1) w by (auto simp: rt_ipc_list_resume_def rt_thread_resume_def bind_eq_Some_conv)
      moreover have "mutexes s' = mutexes (upd_mutex m (\<lambda>x. x\<lparr>mtx_owner := hd (tlists s1 (WaitQ m)),
          mtx_original_priority := th_current_priority (threads s1 (hd (tlists s1 (WaitQ m)))), mtx_hold := mtx_hold x + 1\<rparr>) s1)"
        using ipc_frame_list_ops(2) [OF u(1)] ipc_frame_rt_schedule [OF u(2)] by (simp add: ipc_frame_def)
      ultimately show ?thesis using ms v by (intro mutex_ok_locked) simp_all
    qed
  qed
qed

text \<open>
  C30. The mutex invariant: a mutex is either free and unwanted or owned by a thread that holds it at least once.
  \<^verbatim>\<open>rt_mutex_take\<close>, its continuation after a wait, and \<^verbatim>\<open>rt_mutex_release\<close> keep it on every path, as long as the
  hold count is not at its maximum of 255.
\<close>

theorem mutex_ok_preserved:
  assumes m: "mutex_ok m s" and h: "mtx_hold (mutexes s m) \<noteq> 255"
  shows "(\<forall>r s'. rt_mutex_take m time s = Some (r, s') \<longrightarrow> mutex_ok m s') \<and>
    (\<forall>r s'. t \<noteq> RT_NULL \<longrightarrow> rt_mutex_take_resume m t time s = Some (r, s') \<longrightarrow> mutex_ok m s') \<and>
    (\<forall>e s'. rt_mutex_release m s = Some (e, s') \<longrightarrow> mutex_ok m s')"
proof (intro conjI allI impI)
  have "(255 :: u8) = - 1" by simp
  then have k: "mtx_hold (mutexes s m) + 1 \<noteq> 0" using h by (metis add_eq_0_iff2)
  show "mutex_ok m s'" if r: "rt_mutex_take m time s = Some (r, s')" for r s'
  proof (cases "mtx_owner (mutexes s m) = cur s")
    case True
    have "cur s \<noteq> 0" using r by (auto simp: rt_mutex_take_def in_thread_context_def bind_eq_Some_conv)
    moreover have "mtx_value (mutexes s m) = 0" using m True \<open>cur s \<noteq> 0\<close> by (auto simp: mutex_ok_def unlocked_mutex_def split: if_splits)
    ultimately show ?thesis
      using r True k by (intro mutex_ok_locked) (auto simp: rt_mutex_take_def Let_def bind_eq_Some_conv rt_thread_self_def)
  next
    case False
    have "mutex_ok m (set_error (cur s) RT_EOK s)" using m by (simp add: mutex_ok_def)
    moreover have "cur s \<noteq> 0" "mutex_take_again m (cur s) time (set_error (cur s) RT_EOK s) = Some (r, s')"
      using r False by (auto simp: rt_mutex_take_def in_thread_context_def Let_def bind_eq_Some_conv rt_thread_self_def)
    ultimately show ?thesis by (rule mutex_ok_take_again)
  qed
  show "mutex_ok m s'" if "t \<noteq> 0" "rt_mutex_take_resume m t time s = Some (r, s')" for r s'
    using that m mutex_ok_take_again [OF m that(1)] by (auto simp: rt_mutex_take_resume_def split: if_splits)
  show "mutex_ok m s'" if "rt_mutex_release m s = Some (e, s')" for e s' by (rule mutex_ok_release [OF m that])
qed

theorem mutex_ok_preserved_witness: "\<exists>s'. rt_mutex_release 8 mutex_demo = Some (- RT_ERROR, s') \<and> mutex_ok 8 s'"
proof -
  have "rt_mutex_release 8 mutex_demo = Some (- RT_ERROR, set_error 1 (- RT_ERROR) mutex_demo)"
    using runningD(4) [OF mutex_demo_view(1)] by (simp add: rt_mutex_release_def ipc_check_def rt_object_get_type_def rt_thread_self_def mutex_demo_view Let_def)
  moreover have "mutex_ok 8 mutex_demo" "mtx_hold (mutexes mutex_demo 8) \<noteq> 255" by (simp_all add: mutex_ok_def mutex_demo_view)
  ultimately show ?thesis using mutex_ok_preserved [of 8 mutex_demo 0 1] by blast
qed

section \<open>Nesting\<close>

text \<open>The running thread takes, or releases, the same mutex \<open>n\<close> times; each call must return \<^verbatim>\<open>RT_EOK\<close> at once.\<close>

primrec mutex_takes :: "nat \<Rightarrow> ptr \<Rightarrow> 'h kernel \<Rightarrow> 'h kernel option" where
  "mutex_takes 0 m s = Some s"
| "mutex_takes (Suc n) m s = do { s \<leftarrow> mutex_takes n m s; (r, s) \<leftarrow> rt_mutex_take m 0 s; RT_ASSERT (r = Done RT_EOK); Some s }"

primrec mutex_releases :: "nat \<Rightarrow> ptr \<Rightarrow> 'h kernel \<Rightarrow> 'h kernel option" where
  "mutex_releases 0 m s = Some s"
| "mutex_releases (Suc n) m s = do { s \<leftarrow> mutex_releases n m s; (r, s) \<leftarrow> rt_mutex_release m s; RT_ASSERT (r = RT_EOK); Some s }"

definition locked :: "ptr \<Rightarrow> u8 \<Rightarrow> 'h kernel \<Rightarrow> 'h kernel" where
  "locked m h s = upd_mutex m (\<lambda>_. \<lparr>mtx_value = 0, mtx_original_priority = th_current_priority (threads s (cur s)), mtx_hold = h, mtx_owner = cur s\<rparr>)
     (set_error (cur s) RT_EOK s)"

lemma locked_frame [simp]:
  "cur (locked m h s) = cur s" "tlists (locked m h s) = tlists s" "in_thread_context (locked m h s) = in_thread_context s"
  "ipc_obj cls p (locked m h s) = ipc_obj cls p s" "threads (locked m h s) = threads (set_error (cur s) RT_EOK s)"
  "mutexes (locked m h s) m = \<lparr>mtx_value = 0, mtx_original_priority = th_current_priority (threads s (cur s)), mtx_hold = h, mtx_owner = cur s\<rparr>"
  by (simp_all add: locked_def in_thread_context_def not_in_interrupt_def ipc_obj_def set_error_def)

lemma locked_upd: "upd_mutex m (\<lambda>x. x\<lparr>mtx_hold := g (mtx_hold x)\<rparr>) (locked m h s) = locked m (g h) s"
  "set_error (cur s) RT_EOK (locked m h s) = locked m h s"
  by (simp_all add: locked_def upd_mutex_def set_error_def upd_thread_def)

lemma mutex_take_locked:
  assumes "running s" "ipc_obj RT_Object_Class_Mutex m s"
  shows "rt_mutex_take m 0 (locked m h s) = Some (Done RT_EOK, locked m (h + 1) s)"
    and "mutexes s m = unlocked_mutex \<Longrightarrow> rt_mutex_take m 0 s = Some (Done RT_EOK, locked m 1 s)"
    and "h \<noteq> 1 \<Longrightarrow> rt_mutex_release m (locked m h s) = Some (RT_EOK, locked m (h - 1) s)"
    and "tlists s (WaitQ m) = [] \<Longrightarrow> rt_mutex_release m (locked m 1 s) = Some (RT_EOK, upd_mutex m (\<lambda>_. unlocked_mutex) (set_error (cur s) RT_EOK s))"
proof -
  note rs = runningD [OF assms(1)]
  show "rt_mutex_take m 0 (locked m h s) = Some (Done RT_EOK, locked m (h + 1) s)"
    using assms(2) rs(4) locked_upd(1) [of m "\<lambda>h. h + 1" h s] by (simp add: rt_mutex_take_def rt_thread_self_def Let_def locked_upd(2))
  show "rt_mutex_release m (locked m h s) = Some (RT_EOK, locked m (h - 1) s)" if "h \<noteq> 1"
    using assms(2) rs(4) that locked_upd(1) [of m "\<lambda>h. h - 1" h s] by (simp add: mutex_release_defs rt_thread_self_def Let_def)
  show "rt_mutex_take m 0 s = Some (Done RT_EOK, locked m 1 s)" if "mutexes s m = unlocked_mutex"
    using assms(2) rs(4,6) that
    by (simp add: rt_mutex_take_def mutex_take_again_def rt_thread_self_def Let_def unlocked_mutex_def locked_def upd_mutex_def set_error_def)
  show "rt_mutex_release m (locked m 1 s) = Some (RT_EOK, upd_mutex m (\<lambda>_. unlocked_mutex) (set_error (cur s) RT_EOK s))" if "tlists s (WaitQ m) = []"
    using assms(2) rs(4) that locked_upd(1) [of m "\<lambda>h. h - 1" 1 s]
    by (simp add: mutex_release_defs rt_thread_self_def Let_def prio_set_error) (simp add: locked_def upd_mutex_def unlocked_mutex_def)
qed

lemma mutex_takes_eq:
  assumes "running s" "ipc_obj RT_Object_Class_Mutex m s" "mutexes s m = unlocked_mutex"
  shows "mutex_takes (Suc n) m s = Some (locked m (of_nat (Suc n)) s)"
  by (induction n) (simp_all add: mutex_take_locked [OF assms(1,2)] assms(3) add.commute)

lemma mutex_releases_eq:
  assumes "running s" "ipc_obj RT_Object_Class_Mutex m s" "n < k" "k < 256"
  shows "mutex_releases n m (locked m (of_nat k) s) = Some (locked m (of_nat (k - n)) s)"
  using assms(3)
proof (induction n)
  case (Suc n)
  have "unat (of_nat (k - n) :: u8) = k - n" using assms(4) by (simp add: unat_of_nat)
  moreover have "k - n \<noteq> 1" using Suc.prems by simp
  ultimately have "(of_nat (k - n) :: u8) \<noteq> 1" by (metis unat_1)
  moreover have "(of_nat (k - n) :: u8) - 1 = of_nat (k - Suc n)" using Suc.prems by (simp add: of_nat_diff)
  ultimately show ?case using Suc mutex_take_locked(3) [OF assms(1,2)] by (simp add: algebra_simps)
qed simp

text \<open>
  Nested locking is balanced: up to 255 takes of a free mutex by one thread, followed by as many releases, give
  back the free mutex; the thread owns it in between with the count of its takes.
\<close>

theorem rt_mutex_recursive:
  assumes s: "running s" "ipc_obj RT_Object_Class_Mutex m s" "mutexes s m = unlocked_mutex" "tlists s (WaitQ m) = []" and n: "0 < n" "n < 256"
  shows "\<exists>s1 s2. mutex_takes n m s = Some s1 \<and> mtx_owner (mutexes s1 m) = cur s \<and> unat (mtx_hold (mutexes s1 m)) = n \<and>
    mutex_releases n m s1 = Some s2 \<and> mutexes s2 = mutexes s \<and> tlists s2 = tlists s \<and> cur s2 = cur s"
proof -
  obtain k where k: "n = Suc k" using n(1) by (cases n) auto
  have t: "mutex_takes n m s = Some (locked m (of_nat n) s)" using mutex_takes_eq [OF s(1-3), of k] k by simp
  have "mutex_releases k m (locked m (of_nat n) s) = Some (locked m 1 s)" using mutex_releases_eq [OF s(1,2), of k n] k n by simp
  then have r: "mutex_releases n m (locked m (of_nat n) s) = Some (upd_mutex m (\<lambda>_. unlocked_mutex) (set_error (cur s) RT_EOK s))"
    using mutex_take_locked(4) [OF s(1,2,4)] k by simp
  have "unat (of_nat n :: u8) = n" using n(2) by (simp add: unat_of_nat)
  then show ?thesis using t r s(3) by (auto simp: fun_upd_idem)
qed

theorem rt_mutex_recursive_witness:
  "\<exists>s1 s2. mutex_takes 2 8 (mutex_demo\<lparr>mutexes := \<lambda>_. unlocked_mutex\<rparr>) = Some s1 \<and> unat (mtx_hold (mutexes s1 8)) = 2 \<and>
     mutex_releases 2 8 s1 = Some s2 \<and> mutexes s2 8 = unlocked_mutex"
proof -
  let ?s = "mutex_demo\<lparr>mutexes := \<lambda>_. unlocked_mutex\<rparr>"
  have "running ?s" using mutex_demo_view(1) thread_ok_cong [of ?s mutex_demo] by (simp add: running_def tstat_def)
  then show ?thesis using rt_mutex_recursive [of ?s 8 2] by (auto simp: mutex_demo_view ipc_obj_def)
qed

text \<open>
  The hold count is eight bits wide: after 257 nested takes a single release already frees the mutex, with 256 takes
  not yet released.
\<close>

theorem rt_mutex_hold_wraps:
  assumes "running s" "ipc_obj RT_Object_Class_Mutex m s" "mutexes s m = unlocked_mutex" "tlists s (WaitQ m) = []"
  shows "\<exists>s1 s2. mutex_takes 257 m s = Some s1 \<and> rt_mutex_release m s1 = Some (RT_EOK, s2) \<and> mutexes s2 m = unlocked_mutex"
proof -
  have w: "(257 :: u8) = 1" by simp
  have "mutex_takes (Suc 256) m s = Some (locked m 1 s)" using mutex_takes_eq [OF assms(1-3), of 256] w by (simp del: mutex_takes.simps)
  then show ?thesis using mutex_take_locked(4) [OF assms(1,2,4)] by (auto simp del: mutex_takes.simps)
qed

theorem rt_mutex_hold_wraps_witness:
  "\<exists>s1 s2. mutex_takes 257 8 (mutex_demo\<lparr>mutexes := \<lambda>_. unlocked_mutex\<rparr>) = Some s1 \<and> rt_mutex_release 8 s1 = Some (RT_EOK, s2)"
proof -
  let ?s = "mutex_demo\<lparr>mutexes := \<lambda>_. unlocked_mutex\<rparr>"
  have "running ?s" using mutex_demo_view(1) thread_ok_cong [of ?s mutex_demo] by (simp add: running_def tstat_def)
  then show ?thesis using rt_mutex_hold_wraps [of ?s 8] by (auto simp: mutex_demo_view ipc_obj_def simp del: mutex_takes.simps)
qed

interpretation mutex_close: ipc_detach RT_Object_Class_Mutex rt_mutex_detach
  by unfold_locales (simp add: rt_mutex_detach_def rt_object_is_systemobject_def ipc_obj_def)

end
