(* ===== verification/RT_Event.thy ===== *)
theory RT_Event
  imports RT_Semaphore
begin

text \<open>
  Event sets of \<^verbatim>\<open>src/ipc.c\<close>: 32 flags; a thread waits for all (\<^verbatim>\<open>RT_EVENT_FLAG_AND\<close>) or any (\<^verbatim>\<open>RT_EVENT_FLAG_OR\<close>) of
  a set of flags and may clear what it received. \<^verbatim>\<open>rt_event_send\<close> is shown to implement the function \<open>wake_list\<close>
  on the list of waiting threads.
\<close>

section \<open>Operations\<close>

definition set_event :: "ptr \<Rightarrow> u32 \<Rightarrow> 'h kernel \<Rightarrow> 'h kernel" where
  "set_event event v s = s\<lparr>events := (events s)(event := (events s event)\<lparr>ev_set := v\<rparr>)\<rparr>"

definition rt_event_init :: "ptr \<Rightarrow> string \<Rightarrow> u8 \<Rightarrow> 'h kernel \<Rightarrow> (rt_err_t \<times> 'h kernel) option" where
  "rt_event_init event name flag s = do {
     RT_ASSERT (event \<noteq> RT_NULL);
     s \<leftarrow> rt_object_init (Obj event) RT_Object_Class_Event name s;
     let s = set_flag event flag s;
     s \<leftarrow> rt_ipc_object_init event s;
     Some (RT_EOK, set_event event 0 s) }"

definition rt_event_detach :: "ptr \<Rightarrow> 'h kernel \<Rightarrow> (rt_err_t \<times> 'h kernel) option" where
  "rt_event_detach event s = do {
     ipc_check event RT_Object_Class_Event s;
     sys \<leftarrow> rt_object_is_systemobject (Obj event) s;
     RT_ASSERT sys;
     s \<leftarrow> rt_ipc_list_resume_all (WaitQ event) s;
     s \<leftarrow> rt_object_detach (Obj event) s;
     Some (RT_EOK, s) }"

definition rt_event_create :: "'h heap_ops \<Rightarrow> string \<Rightarrow> u8 \<Rightarrow> 'h kernel \<Rightarrow> (ptr \<times> 'h kernel) option" where
  "rt_event_create H name flag s = do {
     RT_ASSERT (not_in_interrupt s);
     (event, s) \<leftarrow> rt_object_allocate H RT_Object_Class_Event name s;
     if event = RT_NULL then Some (event, s)
     else do {
       let s = set_flag event flag s;
       s \<leftarrow> rt_ipc_object_init event s;
       Some (event, set_event event 0 s) } }"

definition rt_event_delete :: "'h heap_ops \<Rightarrow> ptr \<Rightarrow> 'h kernel \<Rightarrow> (rt_err_t \<times> 'h kernel) option" where
  "rt_event_delete H event s = do {
     ipc_check event RT_Object_Class_Event s;
     sys \<leftarrow> rt_object_is_systemobject (Obj event) s;
     RT_ASSERT (\<not> sys);
     RT_ASSERT (not_in_interrupt s);
     s \<leftarrow> rt_ipc_list_resume_all (WaitQ event) s;
     s \<leftarrow> rt_object_delete H event s;
     Some (RT_EOK, s) }"

text \<open>
  The loop of \<^verbatim>\<open>rt_event_send\<close> over the wait list. \<^verbatim>\<open>n\<close> is advanced before the thread is resumed, and resuming unlinks
  only that thread, so the walk visits the threads that were in the list when it began. The first
  component is \<^verbatim>\<open>need_schedule\<close>.
\<close>

fun event_send_loop :: "ptr \<Rightarrow> bool \<Rightarrow> ptr list \<Rightarrow> 'h kernel \<Rightarrow> (bool \<times> 'h kernel) option" where
  "event_send_loop event need [] s = Some (need, s)"
| "event_send_loop event need (thread # n) s = do {
     let info = th_event_info (threads s thread);
     let (status, s) =
       (if info AND RT_EVENT_FLAG_AND \<noteq> 0 then
          (th_event_set (threads s thread) AND ev_set (events s event) = th_event_set (threads s thread), s)
        else if info AND RT_EVENT_FLAG_OR \<noteq> 0 then
          (if th_event_set (threads s thread) AND ev_set (events s event) \<noteq> 0
           then (True, upd_thread thread (\<lambda>r. r\<lparr>th_event_set := th_event_set r AND ev_set (events s event)\<rparr>) s)
           else (False, s))
        else (False, s));
     if status then do {
       let s = (if info AND RT_EVENT_FLAG_CLEAR \<noteq> 0
         then set_event event (ev_set (events s event) AND NOT (th_event_set (threads s thread))) s else s);
       (_, s) \<leftarrow> rt_thread_resume thread s;
       event_send_loop event True n s }
     else event_send_loop event need n s }"

definition rt_event_send :: "ptr \<Rightarrow> u32 \<Rightarrow> 'h kernel \<Rightarrow> (rt_err_t \<times> 'h kernel) option" where
  "rt_event_send event want s = do {
     ipc_check event RT_Object_Class_Event s;
     if want = 0 then Some (- RT_ERROR, s)
     else do {
       let s = set_event event (ev_set (events s event) OR want) s;
       (need, s) \<leftarrow> event_send_loop event False (tlists s (WaitQ event)) s;
       s \<leftarrow> (if need then rt_schedule s else Some s);
       Some (RT_EOK, s) } }"

text \<open>
  \<open>recved\<close> says whether the caller passed a non-null \<^verbatim>\<open>recved\<close>; the value stored through it is returned with the
  error code.
\<close>

definition rt_event_recv ::
    "ptr \<Rightarrow> u32 \<Rightarrow> u8 \<Rightarrow> int \<Rightarrow> bool \<Rightarrow> 'h kernel \<Rightarrow> ((rt_err_t \<times> u32 option, ptr) outcome \<times> 'h kernel) option" where
  "rt_event_recv event want opt timeout recved s = do {
     RT_ASSERT (in_thread_context s);
     ipc_check event RT_Object_Class_Event s;
     if want = 0 then Some (Done (- RT_ERROR, None), s)
     else do {
       let thread = rt_thread_self s;
       let s = set_error thread RT_EOK s;
       let eset = ev_set (events s event);
       RT_ASSERT (opt AND RT_EVENT_FLAG_AND \<noteq> 0 \<or> opt AND RT_EVENT_FLAG_OR \<noteq> 0);
       let status = (if opt AND RT_EVENT_FLAG_AND \<noteq> 0 then eset AND want = want else eset AND want \<noteq> 0);
       if status then
         Some (Done (terror s thread, if recved then Some (eset AND want) else None),
               if opt AND RT_EVENT_FLAG_CLEAR \<noteq> 0 then set_event event (eset AND NOT want) s else s)
       else if timeout = 0 then Some (Done (- RT_ETIMEOUT, None), set_error thread (- RT_ETIMEOUT) s)
       else do {
         let s = upd_thread thread (\<lambda>r. r\<lparr>th_event_set := want, th_event_info := opt\<rparr>) s;
         s \<leftarrow> rt_ipc_list_suspend (WaitQ event) thread (o_flag (objs s (Obj event))) s;
         s \<leftarrow> start_wait_timer thread timeout s;
         s \<leftarrow> rt_schedule s;
         Some (Blocked thread, s) } } }"

definition rt_event_recv_resume :: "ptr \<Rightarrow> bool \<Rightarrow> 'h kernel \<Rightarrow> rt_err_t \<times> u32 option" where
  "rt_event_recv_resume thread recved s =
    (if terror s thread \<noteq> RT_EOK then (terror s thread, None)
     else (terror s thread, if recved then Some (th_event_set (threads s thread)) else None))"

definition rt_event_control :: "ptr \<Rightarrow> int \<Rightarrow> u32 \<Rightarrow> 'h kernel \<Rightarrow> (rt_err_t \<times> 'h kernel) option" where
  "rt_event_control event cmd arg s = do {
     ipc_check event RT_Object_Class_Event s;
     if cmd = RT_IPC_CMD_RESET then do {
       s \<leftarrow> rt_ipc_list_resume_all (WaitQ event) s;
       let s = set_event event 0 s;
       s \<leftarrow> rt_schedule s;
       Some (RT_EOK, s) }
     else Some (- RT_ERROR, s) }"

section \<open>The scheduler invariant\<close>

lemma swf_set_event [simp]: "swf X (set_event e v s) = swf X s"
  by (simp add: set_event_def)

lemma set_event_frame [simp]:
  "tlists (set_event e v s) = tlists s" "threads (set_event e v s) = threads s" "cur (set_event e v s) = cur s" "objs (set_event e v s) = objs s"
  "lock_nest (set_event e v s) = lock_nest s" "tstat (set_event e v s) t = tstat s t" "tprio (set_event e v s) t = tprio s t"
  "terror (set_event e v s) t = terror s t" "ev_set (events (set_event e v s) x) = (if x = e then v else ev_set (events s x))"
  by (simp_all add: set_event_def tstat_def tprio_def terror_def)

lemma swf_event_fields [simp]:
  "swf X (upd_thread t (\<lambda>r. r\<lparr>th_event_set := f r\<rparr>) s) = swf X s"
  "swf X (upd_thread t (\<lambda>r. r\<lparr>th_event_set := f r, th_event_info := g r\<rparr>) s) = swf X s"
  by (rule swf_cong; simp add: tstat_def tprio_def)+

lemma swf_flag_register:
  assumes "rt_ipc_object_init p (set_flag p flag u) = Some v" "rt_object_init r ty name s = Some u \<or> rt_object_allocate H ty name s = Some (q, u)" "swf {} s"
  shows "swf {} v"
  using assms(2,3) swf_rt_ipc_object_init [OF _ assms(1), of "{}"] swf_rt_object_init [of s r ty name u] swf_rt_object_allocate [of s H ty name q u] by auto

lemma event_fields_view [simp]:
  "tstat (upd_thread t (\<lambda>r. r\<lparr>th_event_set := f r\<rparr>) s) x = tstat s x" "tprio (upd_thread t (\<lambda>r. r\<lparr>th_event_set := f r\<rparr>) s) x = tprio s x"
  "terror (upd_thread t (\<lambda>r. r\<lparr>th_event_set := f r\<rparr>) s) x = terror s x"
  "tstat (upd_thread t (\<lambda>r. r\<lparr>th_event_set := f r, th_event_info := g r\<rparr>) s) x = tstat s x"
  "tprio (upd_thread t (\<lambda>r. r\<lparr>th_event_set := f r, th_event_info := g r\<rparr>) s) x = tprio s x"
  "terror (upd_thread t (\<lambda>r. r\<lparr>th_event_set := f r, th_event_info := g r\<rparr>) s) x = terror s x"
  by (simp_all add: tstat_def tprio_def terror_def)

lemma swf_rt_event_init: "swf {} s \<Longrightarrow> rt_event_init ev name flag s = Some (e, s') \<Longrightarrow> swf {} s'"
  by (auto simp: rt_event_init_def Let_def bind_eq_Some_conv elim: swf_flag_register)

lemma swf_rt_event_create: "swf {} s \<Longrightarrow> rt_event_create H name flag s = Some (p, s') \<Longrightarrow> swf {} s'"
  by (auto simp: rt_event_create_def Let_def bind_eq_Some_conv split: if_splits dest: swf_rt_object_allocate elim: swf_flag_register)

lemma swf_rt_event_detach: "swf {} s \<Longrightarrow> rt_event_detach ev s = Some (e, s') \<Longrightarrow> swf {} s'"
  by (auto simp: rt_event_detach_def bind_eq_Some_conv dest: swf_detach_delete)

lemma swf_rt_event_delete: "swf {} s \<Longrightarrow> rt_event_delete H ev s = Some (e, s') \<Longrightarrow> swf {} s'"
  by (auto simp: rt_event_delete_def bind_eq_Some_conv dest: swf_detach_delete)

lemma swf_event_send_loop: "swf {} s \<Longrightarrow> event_send_loop ev need ts s = Some (b, s') \<Longrightarrow> swf {} s'"
proof (induction ts arbitrary: need s)
  case (Cons t ts)
  then show ?case
    by (auto simp: Let_def bind_eq_Some_conv split: if_splits prod.splits elim!: Cons.IH [rotated] dest: swf_rt_thread_resume [rotated])
qed simp

lemma swf_rt_event_send:
  assumes "swf {} s" "rt_event_send ev want s = Some (e, s')"
  shows "swf {} s'"
  using assms by (auto simp: rt_event_send_def Let_def bind_eq_Some_conv split: if_splits dest!: swf_event_send_loop [rotated] dest: swf_rt_schedule [rotated])

lemma swf_rt_event_recv:
  assumes s: "swf {} s" "tstat s (cur s) = 3" and r: "rt_event_recv ev want opt time rc s = Some (e, s')"
  shows "swf {} s'"
proof -
  have t: "tstat (upd_thread (cur s) (\<lambda>r. r\<lparr>th_event_set := want, th_event_info := opt\<rparr>) (set_error (cur s) 0 s)) (cur s) = 3"
    using s(2) by (simp add: tstat_def set_error_def)
  show ?thesis
    using r s(1) t by (auto simp: rt_event_recv_def Let_def bind_eq_Some_conv rt_thread_self_def split: if_splits elim!: swf_block)
qed

lemma swf_rt_event_control:
  assumes s: "swf {} s" and r: "rt_event_control ev cmd arg s = Some (e, s')"
  shows "swf {} s'"
proof (cases "cmd = 1")
  case True
  then obtain u where u: "rt_ipc_list_resume_all (WaitQ ev) s = Some u" "rt_schedule (set_event ev 0 u) = Some s'"
    using r by (auto simp: rt_event_control_def Let_def bind_eq_Some_conv)
  have "swf {} (set_event ev 0 u)" using swf_rt_ipc_list_resume_all [OF s u(1)] by simp
  then show ?thesis using u(2) by (rule swf_rt_schedule)
qed (use r s in \<open>auto simp: rt_event_control_def bind_eq_Some_conv\<close>)

section \<open>The abstract wake-up\<close>

definition event_matches :: "u8 \<Rightarrow> u32 \<Rightarrow> u32 \<Rightarrow> bool" where
  "event_matches info want eset \<longleftrightarrow>
    (if info AND RT_EVENT_FLAG_AND \<noteq> 0 then want AND eset = want else info AND RT_EVENT_FLAG_OR \<noteq> 0 \<and> want AND eset \<noteq> 0)"

text \<open>The threads woken, each with the flags it receives; the threads left waiting; the flags left set.\<close>

fun wake_list :: "(ptr \<Rightarrow> rt_thread) \<Rightarrow> ptr list \<Rightarrow> u32 \<Rightarrow> (ptr \<times> u32) list \<times> ptr list \<times> u32" where
  "wake_list th [] eset = ([], [], eset)"
| "wake_list th (t # ts) eset =
    (let info = th_event_info (th t); want = th_event_set (th t) in
     if event_matches info want eset then
       (let (woken, rest, z) = wake_list th ts (if info AND RT_EVENT_FLAG_CLEAR \<noteq> 0 then eset AND NOT want else eset)
        in ((t, want AND eset) # woken, rest, z))
     else (let (woken, rest, z) = wake_list th ts eset in (woken, t # rest, z)))"

abbreviation (input) woken :: "(ptr \<Rightarrow> rt_thread) \<Rightarrow> ptr list \<Rightarrow> u32 \<Rightarrow> (ptr \<times> u32) list" where
  "woken th ts eset \<equiv> fst (wake_list th ts eset)"
abbreviation (input) still_waiting :: "(ptr \<Rightarrow> rt_thread) \<Rightarrow> ptr list \<Rightarrow> u32 \<Rightarrow> ptr list" where
  "still_waiting th ts eset \<equiv> fst (snd (wake_list th ts eset))"
abbreviation (input) flags_left :: "(ptr \<Rightarrow> rt_thread) \<Rightarrow> ptr list \<Rightarrow> u32 \<Rightarrow> u32" where
  "flags_left th ts eset \<equiv> snd (snd (wake_list th ts eset))"

lemma wake_list_cong:
  "(\<And>t. t \<in> set ts \<Longrightarrow> th_event_set (f t) = th_event_set (g t) \<and> th_event_info (f t) = th_event_info (g t)) \<Longrightarrow>
   wake_list f ts eset = wake_list g ts eset"
  by (induction ts arbitrary: eset) (auto simp: Let_def)

lemma woken_subset: "fst ` set (woken th ts eset) \<subseteq> set ts"
  by (induction ts arbitrary: eset) (auto simp: Let_def case_prod_unfold)

lemma still_waiting_subset: "set (still_waiting th ts eset) \<subseteq> set ts"
  by (induction ts arbitrary: eset) (auto simp: Let_def case_prod_unfold intro: subsetD)

lemma woken_not_waiting: "distinct ts \<Longrightarrow> t \<in> set (still_waiting th ts eset) \<Longrightarrow> t \<notin> fst ` set (woken th ts eset)"
proof (induction ts arbitrary: eset)
  case (Cons x ts)
  have x: "x \<notin> fst ` set (woken th ts e)" "x \<notin> set (still_waiting th ts e)" for e
    using Cons.prems(1) woken_subset [of th ts e] still_waiting_subset [of th ts e] by auto
  show ?case
  proof (cases "event_matches (th_event_info (th x)) (th_event_set (th x)) eset")
    case True
    define e where "e = (if th_event_info (th x) AND RT_EVENT_FLAG_CLEAR \<noteq> 0 then eset AND NOT (th_event_set (th x)) else eset)"
    have w: "wake_list th (x # ts) eset = ((x, th_event_set (th x) AND eset) # woken th ts e, still_waiting th ts e, flags_left th ts e)"
      using True by (simp add: Let_def case_prod_unfold e_def)
    show ?thesis using Cons.IH [of e] Cons.prems x(2) [of e] unfolding w by auto
  next
    case False
    then show ?thesis using Cons.IH [of eset] Cons.prems x(1) [of eset] by (auto simp: Let_def case_prod_unfold)
  qed
qed simp

text \<open>Clearing flags never satisfies a condition that was not satisfied.\<close>

definition subflags :: "u32 \<Rightarrow> u32 \<Rightarrow> bool" where
  "subflags a b \<longleftrightarrow> (\<forall>n. bit a n \<longrightarrow> bit b n)"

lemma event_matches_bits:
  "event_matches info want eset \<longleftrightarrow>
    (if info AND RT_EVENT_FLAG_AND \<noteq> 0 then subflags want eset else info AND RT_EVENT_FLAG_OR \<noteq> 0 \<and> (\<exists>n. bit want n \<and> bit eset n))"
proof -
  have "want AND eset = want \<longleftrightarrow> subflags want eset"
  proof
    assume z: "want AND eset = want"
    show "subflags want eset"
      unfolding subflags_def
    proof (intro allI impI)
      fix n assume "bit want n"
      then have "bit (want AND eset) n" using z by simp
      then show "bit eset n" by (simp add: bit_and_iff)
    qed
  qed (auto intro!: bit_word_eqI simp: bit_and_iff subflags_def)
  moreover have "want AND eset = 0 \<longleftrightarrow> (\<forall>n. \<not> (bit want n \<and> bit eset n))"
  proof
    assume z: "want AND eset = 0"
    show "\<forall>n. \<not> (bit want n \<and> bit eset n)"
    proof
      fix n
      have "bit (want AND eset) n = bit (0 :: u32) n" using z by simp
      then show "\<not> (bit want n \<and> bit eset n)" by (simp add: bit_and_iff)
    qed
  qed (auto intro!: bit_word_eqI simp: bit_and_iff)
  ultimately show ?thesis by (simp add: event_matches_def)
qed

lemma event_matches_mono: "subflags a b \<Longrightarrow> event_matches info want a \<Longrightarrow> event_matches info want b"
  by (auto simp: event_matches_bits subflags_def split: if_splits)

lemma flags_left_sub: "subflags (flags_left th ts eset) eset"
proof (induction ts arbitrary: eset)
  case (Cons t ts)
  have "subflags (flags_left th ts (eset AND NOT x)) eset" for x
    using Cons.IH [of "eset AND NOT x"] by (auto simp: subflags_def bit_and_iff)
  then show ?case using Cons.IH by (simp add: Let_def case_prod_unfold)
qed (simp add: subflags_def)

lemma still_waiting_unmatched:
  "t \<in> set (still_waiting th ts eset) \<Longrightarrow> \<not> event_matches (th_event_info (th t)) (th_event_set (th t)) (flags_left th ts eset)"
proof (induction ts arbitrary: eset)
  case (Cons x ts)
  have "\<not> event_matches (th_event_info (th x)) (th_event_set (th x)) (flags_left th ts eset)"
    if "\<not> event_matches (th_event_info (th x)) (th_event_set (th x)) eset"
    using that event_matches_mono [OF flags_left_sub] by blast
  then show ?case using Cons by (auto simp: Let_def case_prod_unfold split: if_splits)
qed simp

section \<open>The loop implements the abstract wake-up\<close>

lemma event_send_loop_total:
  assumes "swf {} s" "tlists s (WaitQ ev) = xs @ ts" "\<And>t. t \<in> set ts \<Longrightarrow> thread_ok s t"
  shows "\<exists>s'. event_send_loop ev need ts s = Some (need \<or> woken (threads s) ts (ev_set (events s ev)) \<noteq> [], s') \<and> swf {} s' \<and> cur s' = cur s \<and>
    lock_nest s' = lock_nest s \<and> tlists s' (WaitQ ev) = xs @ still_waiting (threads s) ts (ev_set (events s ev)) \<and>
    ev_set (events s' ev) = flags_left (threads s) ts (ev_set (events s ev)) \<and>
    (\<forall>(t, got) \<in> set (woken (threads s) ts (ev_set (events s ev))). th_event_set (threads s' t) = got \<and> (tstat s' t = 1 \<or> tstat s' t = 3)) \<and>
    (\<forall>x. terror s' x = terror s x \<and> tprio s' x = tprio s x) \<and>
    (\<forall>x. x \<notin> fst ` set (woken (threads s) ts (ev_set (events s ev))) \<longrightarrow>
       th_event_set (threads s' x) = th_event_set (threads s x) \<and> th_event_info (threads s' x) = th_event_info (threads s x) \<and> tstat s' x = tstat s x)"
  using assms
proof (induction ts arbitrary: xs need s)
  case (Cons t ts)
  let ?info = "th_event_info (threads s t)" and ?want = "th_event_set (threads s t)" and ?set = "ev_set (events s ev)"
  show ?case
  proof (cases "event_matches ?info ?want ?set")
    case False
    then have "event_send_loop ev need (t # ts) s = event_send_loop ev need ts s"
      by (auto simp: Let_def event_matches_def)
    then show ?thesis using Cons.IH [of s "xs @ [t]" need] Cons.prems False by (simp add: Let_def case_prod_unfold)
  next
    case True
    define got where "got = ?want AND ?set"
    define s1 where "s1 = upd_thread t (\<lambda>r. r\<lparr>th_event_set := got\<rparr>) s"
    define z where "z = (if ?info AND RT_EVENT_FLAG_CLEAR \<noteq> 0 then ?set AND NOT ?want else ?set)"
    define s2 where "s2 = set_event ev z s1"
    have g: "?set AND NOT got = ?set AND NOT ?want" unfolding got_def by (auto simp: bit_eq_iff bit_simps)
    have same: "upd_thread t (\<lambda>r. r\<lparr>th_event_set := ?want\<rparr>) s = s" "set_event ev ?set s1 = s1"
      by (simp_all add: upd_thread_def s1_def set_event_def)
    have step: "event_send_loop ev need (t # ts) s = do { (_, s) \<leftarrow> rt_thread_resume t s2; event_send_loop ev True ts s }"
    proof -
      have "(if ?info AND RT_EVENT_FLAG_AND \<noteq> 0 then (?want AND ?set = ?want, s)
        else if ?info AND RT_EVENT_FLAG_OR \<noteq> 0 then
          (if ?want AND ?set \<noteq> 0 then (True, upd_thread t (\<lambda>r. r\<lparr>th_event_set := th_event_set r AND ?set\<rparr>) s) else (False, s))
        else (False, s)) = (True, s1)"
        using True same(1) by (auto simp: event_matches_def s1_def got_def upd_thread_def)
      moreover have "th_event_set (threads s1 t) = got" "events s1 = events s" by (simp_all add: s1_def)
      ultimately show ?thesis by (simp add: Let_def g s2_def z_def same(2))
    qed
    have s2: "swf {} s2" "tlists s2 (WaitQ ev) = xs @ t # ts" "thread_ok s2 t" "\<And>x. thread_ok s2 x = thread_ok s x"
      using Cons.prems thread_ok_cong [of s2 s] by (simp_all add: s2_def s1_def)
    obtain u where u: "rt_thread_resume t s2 = Some (RT_EOK, u)" "swf {} u" "ipc_frame s2 u" "cur u = cur s2"
      "\<And>h'. not_ready_queue h' \<Longrightarrow> tlists u h' = ((tlists s2)(WaitQ ev := xs @ ts)) h'" "tstat u t = (if t = cur s2 then 3 else 1)"
      "\<And>x. x \<noteq> t \<Longrightarrow> tstat u x = tstat s2 x" "\<And>x. tprio u x = tprio s2 x" "\<And>x. terror u x = terror s2 x"
      "\<And>x. thread_ok u x = thread_ok s2 x" "\<And>x. threads u x = (threads s2 x)\<lparr>th_stat := th_stat (threads u x)\<rparr>"
      by (rule rt_thread_resume_waiting [OF s2(1,2) wait_queue_simps(1) s2(3)]) blast
    have ev: "ev_set (events u ev) = z" using u(3) by (simp add: ipc_frame_def s2_def)
    have th: "th_event_set (threads u x) = (if x = t then got else th_event_set (threads s x))" "th_event_info (threads u x) = th_event_info (threads s x)" for x
      using arg_cong [OF u(11) [of x], of th_event_set] arg_cong [OF u(11) [of x], of th_event_info] by (simp_all add: s2_def s1_def)
    have nt: "t \<notin> set ts" using disjoint_distinct [OF swf_disjoint [OF Cons.prems(1)], of "WaitQ ev"] Cons.prems(2) by simp
    have wl: "wake_list (threads u) ts z = wake_list (threads s) ts z" using th nt by (intro wake_list_cong) auto
    obtain s' where s': "event_send_loop ev True ts u = Some (True, s')" "swf {} s'" "cur s' = cur u" "lock_nest s' = lock_nest u"
      "tlists s' (WaitQ ev) = xs @ still_waiting (threads s) ts z" "ev_set (events s' ev) = flags_left (threads s) ts z"
      "\<forall>(x, g) \<in> set (woken (threads s) ts z). th_event_set (threads s' x) = g \<and> (tstat s' x = 1 \<or> tstat s' x = 3)"
      "\<And>x. terror s' x = terror u x \<and> tprio s' x = tprio u x"
      "\<And>x. x \<notin> fst ` set (woken (threads s) ts z) \<Longrightarrow>
         th_event_set (threads s' x) = th_event_set (threads u x) \<and> th_event_info (threads s' x) = th_event_info (threads u x) \<and> tstat s' x = tstat u x"
      using Cons.IH [of u xs True] u(2,5,10) Cons.prems(3) s2(4) unfolding ev wl by auto
    have wk: "wake_list (threads s) (t # ts) ?set = ((t, got) # woken (threads s) ts z, still_waiting (threads s) ts z, flags_left (threads s) ts z)"
      using True by (simp add: Let_def case_prod_unfold got_def z_def)
    have tw: "t \<notin> fst ` set (woken (threads s) ts z)" using woken_subset [of "threads s" ts z] nt by blast
    have t': "th_event_set (threads s' t) = got" "tstat s' t = 1 \<or> tstat s' t = 3" using s'(9) [OF tw] th(1) u(6) by (auto split: if_splits)
    have fr: "cur s' = cur s" "lock_nest s' = lock_nest s" "terror s' x = terror s x" "tprio s' x = tprio s x" for x
      using s'(3,4,8) u(3,4,8,9) by (simp_all add: ipc_frame_def s2_def s1_def)
    have oth: "th_event_set (threads s' x) = th_event_set (threads s x) \<and> th_event_info (threads s' x) = th_event_info (threads s x) \<and> tstat s' x = tstat s x"
      if "x \<noteq> t" "x \<notin> fst ` set (woken (threads s) ts z)" for x
      using s'(9) [OF that(2)] th [of x] u(7) [OF that(1)] that(1) by (simp add: s2_def s1_def)
    show ?thesis
      unfolding step wk using u(1) s'(1,2,5,6,7) t' fr oth by (intro exI [of _ s']) auto
  qed
qed simp

section \<open>Properties\<close>

lemma rt_event_send_eq:
  assumes s: "running s" "lock_nest s = 0" and o: "ipc_obj RT_Object_Class_Event ev s" and w: "waiters_ok (WaitQ ev) s" and z: "want \<noteq> 0"
  obtains s' where "rt_event_send ev want s = Some (RT_EOK, s')" "swf {} s'" "tstat s' (cur s') = 3"
    "tlists s' (WaitQ ev) = still_waiting (threads s) (tlists s (WaitQ ev)) (ev_set (events s ev) OR want)"
    "ev_set (events s' ev) = flags_left (threads s) (tlists s (WaitQ ev)) (ev_set (events s ev) OR want)"
    "\<forall>(t, got) \<in> set (woken (threads s) (tlists s (WaitQ ev)) (ev_set (events s ev) OR want)).
       th_event_set (threads s' t) = got \<and> (tstat s' t = 1 \<or> tstat s' t = 3)"
    "\<And>x. terror s' x = terror s x"
    "\<And>x. x \<notin> fst ` set (woken (threads s) (tlists s (WaitQ ev)) (ev_set (events s ev) OR want)) \<Longrightarrow>
       th_event_set (threads s' x) = th_event_set (threads s x) \<and> th_event_info (threads s' x) = th_event_info (threads s x)"
proof -
  note rs = runningD [OF s(1)]
  define s0 where "s0 = set_event ev (ev_set (events s ev) OR want) s"
  let ?q = "tlists s (WaitQ ev)" and ?e = "ev_set (events s ev) OR want"
  let ?w = "woken (threads s) ?q ?e"
  have s0: "swf {} s0" "tlists s0 (WaitQ ev) = [] @ ?q" "\<And>t. t \<in> set ?q \<Longrightarrow> thread_ok s0 t"
    using rs(1) w thread_ok_cong [of s0 s] by (simp_all add: s0_def waiters_ok_def)
  obtain u where u: "event_send_loop ev False ?q s0 = Some (?w \<noteq> [], u)" "swf {} u" "cur u = cur s" "lock_nest u = 0"
    "tlists u (WaitQ ev) = still_waiting (threads s) ?q ?e" "ev_set (events u ev) = flags_left (threads s) ?q ?e"
    "\<forall>(t, got) \<in> set ?w. th_event_set (threads u t) = got \<and> (tstat u t = 1 \<or> tstat u t = 3)"
    "\<And>x. terror u x = terror s x"
    "\<And>x. x \<notin> fst ` set ?w \<Longrightarrow> th_event_set (threads u x) = th_event_set (threads s x) \<and> th_event_info (threads u x) = th_event_info (threads s x) \<and> tstat u x = tstat s x"
    using event_send_loop_total [OF s0, of False] s(2) by (auto simp: s0_def)
  have nw: "cur s \<notin> fst ` set ?w"
  proof
    assume "cur s \<in> fst ` set ?w"
    then have "cur s \<in> set ?q" using woken_subset by blast
    then show False using swf_queue [OF rs(1), of "cur s" "WaitQ ev"] rs(3) by simp
  qed
  then have cu: "tstat u (cur u) = 3" "cur u \<noteq> 0" using u(3,9) rs(3,6) by simp_all
  obtain s' where s': "rt_schedule u = Some s'" "swf {} s'" "tstat s' (cur s') = 3"
    using rt_schedule_highest [OF u(2,4) cu(2)] cu(1) by blast
  note so = sched_onlyD [OF rt_schedule_sched_only(1) [OF s'(1)]] and st = rt_schedule_states [OF u(2) s'(1)] and ef = rt_schedule_event_fields [OF s'(1)]
  show thesis
  proof (cases "?w = []")
    case True
    then show thesis
      using o z u cu(1) that [of u] by (simp add: rt_event_send_def s0_def Let_def)
  next
    case False
    then have "rt_event_send ev want s = Some (RT_EOK, s')" using o z u(1) s'(1) by (simp add: rt_event_send_def s0_def Let_def)
    moreover have "\<forall>(t, got) \<in> set ?w. th_event_set (threads s' t) = got \<and> (tstat s' t = 1 \<or> tstat s' t = 3)"
    proof clarify
      fix t got assume "(t, got) \<in> set ?w"
      then have "th_event_set (threads u t) = got" "tstat u t = 1 \<or> tstat u t = 3" using u(7) by auto
      then show "th_event_set (threads s' t) = got \<and> (tstat s' t = 1 \<or> tstat s' t = 3)" using st(2) [of t] ef(1) by simp
    qed
    ultimately show thesis using s'(2,3) u(5,6,8,9) so(13,20) st(3) ef by (intro that [of s']) simp_all
  qed
qed

text \<open>
  C2. \<^verbatim>\<open>rt_event_send\<close> implements the abstract wake-up on the list of waiting threads: exactly the threads whose condition
  holds when they are reached, in list order, are made ready, each \<^verbatim>\<open>rt_event_recv\<close> returning \<^verbatim>\<open>RT_EOK\<close> with the flags it
  received, flags are cleared between one thread and the next as the threads ask, and the others go on waiting in the
  same order.
\<close>

theorem rt_event_send_refines:
  assumes s: "running s" "lock_nest s = 0" and o: "ipc_obj RT_Object_Class_Event ev s" and w: "waiters_ok (WaitQ ev) s" and z: "want \<noteq> 0"
    and e: "\<forall>t \<in> set (tlists s (WaitQ ev)). terror s t = RT_EOK"
  shows "\<exists>s'. rt_event_send ev want s = Some (RT_EOK, s') \<and> swf {} s' \<and>
    (case wake_list (threads s) (tlists s (WaitQ ev)) (ev_set (events s ev) OR want) of (ws, rest, eset) \<Rightarrow>
      tlists s' (WaitQ ev) = rest \<and> ev_set (events s' ev) = eset \<and>
      (\<forall>(t, got) \<in> set ws. tstat s' t \<in> {RT_THREAD_READY, RT_THREAD_RUNNING} \<and> rt_event_recv_resume t True s' = (RT_EOK, Some got)))"
proof -
  let ?w = "woken (threads s) (tlists s (WaitQ ev)) (ev_set (events s ev) OR want)"
  obtain s' where s': "rt_event_send ev want s = Some (RT_EOK, s')" "swf {} s'"
    "tlists s' (WaitQ ev) = still_waiting (threads s) (tlists s (WaitQ ev)) (ev_set (events s ev) OR want)"
    "ev_set (events s' ev) = flags_left (threads s) (tlists s (WaitQ ev)) (ev_set (events s ev) OR want)"
    "\<forall>(t, got) \<in> set ?w. th_event_set (threads s' t) = got \<and> (tstat s' t = 1 \<or> tstat s' t = 3)"
    "\<And>x. terror s' x = terror s x"
    by (rule rt_event_send_eq [OF s o w z]) blast
  have "terror s' t = RT_EOK" if "(t, got) \<in> set ?w" for t got
  proof -
    have "t \<in> set (tlists s (WaitQ ev))" using that woken_subset [of "threads s" "tlists s (WaitQ ev)" "ev_set (events s ev) OR want"] by force
    then show ?thesis using e s'(6) by simp
  qed
  then show ?thesis using s'(1-5) by (fastforce simp: rt_event_recv_resume_def case_prod_unfold)
qed

text \<open>
  C31. No lost wake-up: after \<^verbatim>\<open>rt_event_send\<close> no thread that still waits has its condition satisfied by the flags that
  are set.
\<close>

theorem rt_event_no_lost_wakeup:
  assumes s: "running s" "lock_nest s = 0" and o: "ipc_obj RT_Object_Class_Event ev s" and w: "waiters_ok (WaitQ ev) s" and z: "want \<noteq> 0"
  shows "\<exists>s'. rt_event_send ev want s = Some (RT_EOK, s') \<and>
    (\<forall>t \<in> set (tlists s' (WaitQ ev)). \<not> event_matches (th_event_info (threads s' t)) (th_event_set (threads s' t)) (ev_set (events s' ev)))"
proof -
  let ?q = "tlists s (WaitQ ev)" and ?e = "ev_set (events s ev) OR want"
  obtain s' where s': "rt_event_send ev want s = Some (RT_EOK, s')"
    "tlists s' (WaitQ ev) = still_waiting (threads s) ?q ?e" "ev_set (events s' ev) = flags_left (threads s) ?q ?e"
    "\<And>x. x \<notin> fst ` set (woken (threads s) ?q ?e) \<Longrightarrow>
       th_event_set (threads s' x) = th_event_set (threads s x) \<and> th_event_info (threads s' x) = th_event_info (threads s x)"
    by (rule rt_event_send_eq [OF s o w z]) blast
  have "t \<notin> fst ` set (woken (threads s) ?q ?e)" if "t \<in> set (still_waiting (threads s) ?q ?e)" for t
    using that disjoint_distinct [OF swf_disjoint [OF runningD(1) [OF s(1)]], of "WaitQ ev"] woken_not_waiting by blast
  then show ?thesis using s' still_waiting_unmatched [of _ "threads s" ?q ?e] by auto
qed

text \<open>Thread 6 waits for both flags 1 and 2 of the event set 9, in which flag 1 is already set.\<close>

definition event_demo :: "unit kernel" where
  "event_demo = upd_thread 6 (\<lambda>r. r\<lparr>th_event_set := 3, th_event_info := RT_EVENT_FLAG_AND OR RT_EVENT_FLAG_CLEAR\<rparr>)
     (set_event 9 1 (ipc_demo RT_Object_Class_Event))"

lemma event_demo_view:
  "running event_demo" "lock_nest event_demo = 0" "ipc_obj RT_Object_Class_Event 9 event_demo" "ipc_obj RT_Object_Class_Event 8 event_demo"
  "tlists event_demo (WaitQ 9) = [6]" "tlists event_demo (WaitQ 8) = []" "waiters_ok (WaitQ 9) event_demo" "cur event_demo = 1"
  "o_flag (objs event_demo (Obj 8)) = 1" "terror event_demo 6 = 0" "th_event_set (threads event_demo 6) = 3"
  "th_event_info (threads event_demo 6) = RT_EVENT_FLAG_AND OR RT_EVENT_FLAG_CLEAR" "ev_set (events event_demo 9) = 1" "ev_set (events event_demo 8) = 0"
proof -
  let ?s = "ipc_demo RT_Object_Class_Event"
  have t: "thread_ok event_demo t = thread_ok ?s t" for t by (rule thread_ok_cong) (simp add: event_demo_def)
  have "intr_nest event_demo = intr_nest ?s" by (simp add: event_demo_def set_event_def)
  then show "running event_demo" using ipc_demo_view(2) [of 4] t by (simp add: running_def) (simp add: event_demo_def)
  show "waiters_ok (WaitQ 9) event_demo" using ipc_demo_view(14) [of 4] t by (simp add: waiters_ok_def) (simp add: event_demo_def)
  show "ev_set (events event_demo 8) = 0"
    by (simp add: event_demo_def ipc_demo_def wait_demo_def thread_demo_def sched_demo_def zero_defs)
  show "ipc_obj RT_Object_Class_Event 9 event_demo" "ipc_obj RT_Object_Class_Event 8 event_demo" "o_flag (objs event_demo (Obj 8)) = 1"
    by (simp_all add: event_demo_def ipc_obj_def ipc_demo_view)
  show "terror event_demo 6 = 0" using ipc_demo_view(16) [of 4] by (simp add: event_demo_def)
qed (simp_all add: event_demo_def ipc_demo_view)

theorem rt_event_send_refines_witness:
  "\<exists>s'. rt_event_send 9 2 event_demo = Some (RT_EOK, s') \<and> tlists s' (WaitQ 9) = [] \<and> ev_set (events s' 9) = 0 \<and>
     rt_event_recv_resume 6 True s' = (RT_EOK, Some 3)"
  using rt_event_send_refines [OF event_demo_view(1-3,7), of 2] by (auto simp: event_demo_view event_matches_def)

theorem rt_event_no_lost_wakeup_witness:
  "\<exists>s'. rt_event_send 9 4 event_demo = Some (RT_EOK, s') \<and>
    (\<forall>t \<in> set (tlists s' (WaitQ 9)). \<not> event_matches (th_event_info (threads s' t)) (th_event_set (threads s' t)) (ev_set (events s' 9)))"
  by (rule rt_event_no_lost_wakeup [OF event_demo_view(1-3,7)]) simp

text \<open>
  \<^verbatim>\<open>rt_event_recv\<close> for a non-empty set of flags: when the condition holds it returns \<^verbatim>\<open>RT_EOK\<close> with the flags received
  and clears the requested ones if asked to; otherwise time 0 gives \<^verbatim>\<open>-RT_ETIMEOUT\<close> and leaves the event alone, and any
  other time records the condition in the thread and suspends it on the wait list.
\<close>

theorem rt_event_recv_cases:
  assumes s: "running s" and o: "ipc_obj RT_Object_Class_Event ev s" "o_flag (objs s (Obj ev)) \<in> {RT_IPC_FLAG_FIFO, RT_IPC_FLAG_PRIO}"
    and opt: "opt AND RT_EVENT_FLAG_AND \<noteq> 0 \<or> opt AND RT_EVENT_FLAG_OR \<noteq> 0" and w: "want \<noteq> 0" and time: "time < 0x7FFFFFFF"
  shows "\<exists>r s'. rt_event_recv ev want opt time True s = Some (r, s') \<and> swf {} s' \<and>
    (if event_matches opt want (ev_set (events s ev)) then r = Done (RT_EOK, Some (ev_set (events s ev) AND want)) \<and> tlists s' = tlists s \<and>
       ev_set (events s' ev) = (if opt AND RT_EVENT_FLAG_CLEAR \<noteq> 0 then ev_set (events s ev) AND NOT want else ev_set (events s ev))
     else if time = 0 then r = Done (- RT_ETIMEOUT, None) \<and> events s' = events s \<and> tlists s' = tlists s
     else r = Blocked (cur s) \<and> events s' = events s \<and> tstat s' (cur s) = RT_THREAD_SUSPEND \<and>
       th_event_set (threads s' (cur s)) = want \<and> th_event_info (threads s' (cur s)) = opt \<and>
       tlists s' (WaitQ ev) = wait_insert (o_flag (objs s (Obj ev))) (tprio s) (cur s) (tlists s (WaitQ ev)))"
proof -
  note rs = runningD [OF s]
  define s0 where "s0 = set_error (cur s) RT_EOK s"
  define s1 where "s1 = upd_thread (cur s) (\<lambda>r. r\<lparr>th_event_set := want, th_event_info := opt\<rparr>) s0"
  have m: "event_matches opt want x = (if opt AND RT_EVENT_FLAG_AND \<noteq> 0 then x AND want = want else x AND want \<noteq> 0)" for x
    using opt by (auto simp: event_matches_def and.commute)
  consider "event_matches opt want (ev_set (events s ev))" | "\<not> event_matches opt want (ev_set (events s ev))" "time = 0"
    | "\<not> event_matches opt want (ev_set (events s ev))" "time \<noteq> 0" by blast
  then show ?thesis
  proof cases
    case 1
    then show ?thesis using o(1) opt w rs by (auto simp: rt_event_recv_def rt_thread_self_def Let_def m)
  next
    case 2
    then show ?thesis using o(1) opt w rs by (auto simp: rt_event_recv_def rt_thread_self_def Let_def m)
  next
    case 3
    have s1: "swf {} s1" "thread_ok s1 (cur s1)" "tstat s1 (cur s1) = 3" "cur s1 = cur s" "objs s1 = objs s" "tlists s1 = tlists s" "tprio s1 = tprio s"
      "ipc_frame s s1" "th_event_set (threads s1 (cur s)) = want" "th_event_info (threads s1 (cur s)) = opt"
      using rs(1-3) thread_ok_cong [of s1 s] ipc_frame_trans [OF ipc_frame_prims(2) ipc_frame_prims(7)] by (auto simp: s1_def s0_def)
    have f: "o_flag (objs s1 (Obj ev)) = 0 \<or> o_flag (objs s1 (Obj ev)) = 1" using o(2) s1(5) by simp
    obtain u v s' where b: "rt_ipc_list_suspend (WaitQ ev) (cur s1) (o_flag (objs s1 (Obj ev))) s1 = Some u" "start_wait_timer (cur s1) time u = Some v"
      "rt_schedule v = Some s'" "swf {} s'" "ipc_frame s1 s'"
      "\<And>h'. not_ready_queue h' \<Longrightarrow> tlists s' h' = ((tlists s1)(WaitQ ev := wait_insert (o_flag (objs s1 (Obj ev))) (tprio s1) (cur s1) (tlists s1 (WaitQ ev)))) h'"
      "tstat s' (cur s1) = 2" "\<And>x. threads s' x = (threads s1 x)\<lparr>th_stat := th_stat (threads s' x)\<rparr>"
      by (rule wait_total [OF s1(1) wait_queue_simps(1) s1(2,3) f time]) blast
    have "rt_event_recv ev want opt time True s = Some (Blocked (cur s), s')"
      using 3 o(1) opt w rs(4) b(1-3) s1(4) by (auto simp: rt_event_recv_def rt_thread_self_def Let_def m s1_def s0_def split: if_splits)
    moreover have "events s' = events s" using b(5) s1(8) by (simp add: ipc_frame_def)
    moreover have "th_event_set (threads s' (cur s)) = want" "th_event_info (threads s' (cur s)) = opt"
      using arg_cong [OF b(8) [of "cur s"], of th_event_set] arg_cong [OF b(8) [of "cur s"], of th_event_info] s1(9,10) by simp_all
    ultimately show ?thesis using 3 b(4,7) b(6) [of "WaitQ ev"] s1(4-7) by simp
  qed
qed

theorem rt_event_recv_cases_witness:
  "\<exists>s'. rt_event_recv 8 5 RT_EVENT_FLAG_OR 10 True event_demo = Some (Blocked 1, s') \<and> tlists s' (WaitQ 8) = [1]"
  using rt_event_recv_cases [OF event_demo_view(1,4), of RT_EVENT_FLAG_OR 5 10] by (auto simp: event_demo_view event_matches_def wait_insert_def)

interpretation event_close: ipc_detach RT_Object_Class_Event rt_event_detach
  by unfold_locales (simp add: rt_event_detach_def rt_object_is_systemobject_def ipc_obj_def)

end
