(* ===== verification/RT_Fifo.thy ===== *)
theory RT_Fifo
  imports RT_Prelude "HOL-Library.Extended_Nat"
begin

text \<open>
  The interface of the bounded first-in first-out stores: the mailbox, the message queue, the data queue of drivers. The locale
  \<open>limited_fifo\<close> says what storing and fetching do to the contents of a store that works for a limited number of stores, its
  budget; the lemmas proved in it, above all that any session within the budget gives the answers of a list of bounded length, hold for
  every provider. \<open>bounded_fifo\<close> is the interface of a store without such a limit, an instance of the other with an infinite budget.
\<close>

section \<open>Sessions\<close>

datatype 'a fifo_op = Put 'a | Get

datatype 'a fifo_res = Accepted | Refused | Got 'a | Nothing

text \<open>The answers of a list that holds at most \<open>cap\<close> elements.\<close>

fun list_session :: "nat \<Rightarrow> 'a fifo_op list \<Rightarrow> 'a list \<Rightarrow> 'a fifo_res list" where
  "list_session cap [] xs = []"
| "list_session cap (Put x # ops) xs =
     (if length xs < cap then Accepted # list_session cap ops (xs @ [x]) else Refused # list_session cap ops xs)"
| "list_session cap (Get # ops) [] = Nothing # list_session cap ops []"
| "list_session cap (Get # ops) (x # xs) = Got x # list_session cap ops xs"

text \<open>The answers of an implementation; \<open>None\<close> for an operation that refuses.\<close>

fun fifo_session :: "('a \<Rightarrow> 'q \<Rightarrow> 'q option) \<Rightarrow> ('q \<Rightarrow> ('a \<times> 'q) option) \<Rightarrow> 'a fifo_op list \<Rightarrow> 'q \<Rightarrow> 'a fifo_res list" where
  "fifo_session push pop [] q = []"
| "fifo_session push pop (Put x # ops) q =
     (case push x q of Some q' \<Rightarrow> Accepted # fifo_session push pop ops q' | None \<Rightarrow> Refused # fifo_session push pop ops q)"
| "fifo_session push pop (Get # ops) q =
     (case pop q of Some (x, q') \<Rightarrow> Got x # fifo_session push pop ops q' | None \<Rightarrow> Nothing # fifo_session push pop ops q)"

lemma list_session_fill:
  "length xs + length ys \<le> cap \<Longrightarrow>
   list_session cap (map Put ys @ ops) xs = replicate (length ys) Accepted @ list_session cap ops (xs @ ys)"
  by (induction ys arbitrary: xs) auto

lemma list_session_drain: "list_session cap (replicate (length xs) Get) xs = map Got xs"
  by (induction xs) auto

section \<open>The interface\<close>

fun puts :: "'a fifo_op list \<Rightarrow> nat" where
  "puts [] = 0"
| "puts (Put x # ops) = Suc (puts ops)"
| "puts (Get # ops) = puts ops"

lemma puts_append [simp]: "puts (xs @ ys) = puts xs + puts ys"
  by (induction xs rule: puts.induct) simp_all

lemma puts_fill_drain [simp]: "puts (map Put xs) = length xs" "puts (replicate n Get) = 0"
proof -
  show "puts (map Put xs) = length xs" by (induction xs) simp_all
  show "puts (replicate n Get) = 0" by (induction n) simp_all
qed

locale limited_fifo =
  fixes inv :: "'q \<Rightarrow> bool" and contents :: "'q \<Rightarrow> 'a list" and cap :: "'q \<Rightarrow> nat" and budget :: "'q \<Rightarrow> enat"
    and push :: "'a \<Rightarrow> 'q \<Rightarrow> 'q option" and pop :: "'q \<Rightarrow> ('a \<times> 'q) option" and item :: "'a \<Rightarrow> 'q \<Rightarrow> bool"
  assumes bounded: "inv q \<Longrightarrow> length (contents q) \<le> cap q"
    and push_room: "inv q \<Longrightarrow> item x q \<Longrightarrow> length (contents q) < cap q \<Longrightarrow> 0 < budget q \<Longrightarrow>
      \<exists>q'. push x q = Some q' \<and> inv q' \<and> contents q' = contents q @ [x] \<and> cap q' = cap q \<and> budget q \<le> eSuc (budget q') \<and> item y q' = item y q"
    and push_full: "inv q \<Longrightarrow> item x q \<Longrightarrow> length (contents q) = cap q \<Longrightarrow> push x q = None"
    and pop_empty: "inv q \<Longrightarrow> contents q = [] \<Longrightarrow> pop q = None"
    and pop_first: "inv q \<Longrightarrow> contents q = x # xs \<Longrightarrow>
      \<exists>q'. pop q = Some (x, q') \<and> inv q' \<and> contents q' = xs \<and> cap q' = cap q \<and> budget q \<le> budget q' \<and> item y q' = item y q"
begin

text \<open>The implementation is indistinguishable from the list.\<close>

lemma session_refines:
  assumes "inv q" "\<And>x. Put x \<in> set ops \<Longrightarrow> item x q" "enat (puts ops) \<le> budget q"
  shows "fifo_session push pop ops q = list_session (cap q) ops (contents q)"
  using assms
proof (induction ops arbitrary: q)
  case (Cons op ops)
  show ?case
  proof (cases op)
    case (Put x)
    then have ix: "item x q" and b: "eSuc (enat (puts ops)) \<le> budget q" using Cons.prems by (simp_all add: eSuc_enat)
    have b': "0 < budget q" "enat (puts ops) \<le> budget q" using b by (cases "budget q"; simp add: eSuc_enat zero_enat_def)+
    show ?thesis
    proof (cases "length (contents q) < cap q")
      case True
      obtain q' where q': "push x q = Some q'" "inv q'" "contents q' = contents q @ [x]" "cap q' = cap q" "budget q \<le> eSuc (budget q')"
        using push_room [OF Cons.prems(1) ix True b'(1)] by blast
      have "item y q' = item y q" for y using push_room [OF Cons.prems(1) ix True b'(1), of y] q'(1) by auto
      moreover have "enat (puts ops) \<le> budget q'" using order_trans [OF b q'(5)] by simp
      ultimately show ?thesis using Put q' True Cons.IH [OF q'(2)] Cons.prems(2) by simp
    next
      case False
      then have "length (contents q) = cap q" using bounded [OF Cons.prems(1)] by simp
      then show ?thesis using Put push_full [OF Cons.prems(1) ix] Cons.IH [OF Cons.prems(1)] Cons.prems(2) b'(2) by simp
    qed
  next
    case Get
    show ?thesis
    proof (cases "contents q")
      case Nil
      then show ?thesis using Get pop_empty [OF Cons.prems(1)] Cons.IH [OF Cons.prems(1)] Cons.prems(2,3) by simp
    next
      case c: (Cons x xs)
      obtain q' where q': "pop q = Some (x, q')" "inv q'" "contents q' = xs" "cap q' = cap q" "budget q \<le> budget q'"
        using pop_first [OF Cons.prems(1) c] by blast
      have "item y q' = item y q" for y using pop_first [OF Cons.prems(1) c, of y] q'(1) by auto
      moreover have "enat (puts ops) \<le> budget q'" using order_trans [OF _ q'(5)] Get Cons.prems(3) by simp
      ultimately show ?thesis using Get c q' Cons.IH [OF q'(2)] Cons.prems(2) by simp
    qed
  qed
qed simp

text \<open>What is stored is fetched, once, in order.\<close>

lemma fill_drain:
  assumes "inv q" "contents q = []" "length xs \<le> cap q" "\<And>x. x \<in> set xs \<Longrightarrow> item x q" "enat (length xs) \<le> budget q"
  shows "fifo_session push pop (map Put xs @ replicate (length xs) Get) q = replicate (length xs) Accepted @ map Got xs"
  using session_refines [OF assms(1), of "map Put xs @ replicate (length xs) Get"] assms list_session_fill [of "[]" xs "cap q"]
  by (auto simp: list_session_drain)

end

locale bounded_fifo =
  fixes inv :: "'q \<Rightarrow> bool" and contents :: "'q \<Rightarrow> 'a list" and cap :: "'q \<Rightarrow> nat"
    and push :: "'a \<Rightarrow> 'q \<Rightarrow> 'q option" and pop :: "'q \<Rightarrow> ('a \<times> 'q) option" and item :: "'a \<Rightarrow> 'q \<Rightarrow> bool"
  assumes bounded: "inv q \<Longrightarrow> length (contents q) \<le> cap q"
    and push_room: "inv q \<Longrightarrow> item x q \<Longrightarrow> length (contents q) < cap q \<Longrightarrow>
      \<exists>q'. push x q = Some q' \<and> inv q' \<and> contents q' = contents q @ [x] \<and> cap q' = cap q \<and> item y q' = item y q"
    and push_full: "inv q \<Longrightarrow> item x q \<Longrightarrow> length (contents q) = cap q \<Longrightarrow> push x q = None"
    and pop_empty: "inv q \<Longrightarrow> contents q = [] \<Longrightarrow> pop q = None"
    and pop_first: "inv q \<Longrightarrow> contents q = x # xs \<Longrightarrow>
      \<exists>q'. pop q = Some (x, q') \<and> inv q' \<and> contents q' = xs \<and> cap q' = cap q \<and> item y q' = item y q"

sublocale bounded_fifo \<subseteq> limited: limited_fifo inv contents cap "\<lambda>_. \<infinity>" push pop item
  by unfold_locales (use bounded push_room push_full pop_empty pop_first in simp_all)

context bounded_fifo
begin

lemma session_refines:
  assumes "inv q" "\<And>x. Put x \<in> set ops \<Longrightarrow> item x q"
  shows "fifo_session push pop ops q = list_session (cap q) ops (contents q)"
  by (rule limited.session_refines [OF assms]) simp_all

lemma fill_drain:
  assumes "inv q" "contents q = []" "length xs \<le> cap q" "\<And>x. x \<in> set xs \<Longrightarrow> item x q"
  shows "fifo_session push pop (map Put xs @ replicate (length xs) Get) q = replicate (length xs) Accepted @ map Got xs"
  by (rule limited.fill_drain [OF assms]) simp_all

end

end
