(* ===== verification/RT_Mailbox.thy ===== *)
theory RT_Mailbox
  imports RT_Event RT_Fifo
begin

text \<open>
  Mailboxes of \<^verbatim>\<open>src/ipc.c\<close>: a ring of one-word mails with a list of threads waiting to receive and one of threads
  waiting to send. A sender or receiver that blocked tests again when it runs, with the time that remains.
\<close>

section \<open>Operations\<close>

definition upd_mb :: "ptr \<Rightarrow> (rt_mailbox \<Rightarrow> rt_mailbox) \<Rightarrow> 'h kernel \<Rightarrow> 'h kernel" where
  "upd_mb mb f s = s\<lparr>mailboxes := (mailboxes s)(mb := f (mailboxes s mb))\<rparr>"

definition sender_list_init :: "ptr \<Rightarrow> 'h kernel \<Rightarrow> 'h kernel option" where
  "sender_list_init mb s = do {
     mem_ok (tlists s (SenderQ mb) = []);
     Some (init_queue (SenderQ mb) s) }"

definition rt_mb_init :: "ptr \<Rightarrow> string \<Rightarrow> ptr \<Rightarrow> u32 \<Rightarrow> u8 \<Rightarrow> 'h kernel \<Rightarrow> (rt_err_t \<times> 'h kernel) option" where
  "rt_mb_init mb name msgpool size' flag s = do {
     RT_ASSERT (mb \<noteq> RT_NULL);
     s \<leftarrow> rt_object_init (Obj mb) RT_Object_Class_MailBox name s;
     let s = set_flag mb flag s;
     s \<leftarrow> rt_ipc_object_init mb s;
     let s = upd_mb mb (\<lambda>m. m\<lparr>mb_msg_pool := msgpool, mb_size := ucast size', mb_entry := 0, mb_in_offset := 0, mb_out_offset := 0\<rparr>) s;
     s \<leftarrow> sender_list_init mb s;
     Some (RT_EOK, s) }"

definition rt_mb_detach :: "ptr \<Rightarrow> 'h kernel \<Rightarrow> (rt_err_t \<times> 'h kernel) option" where
  "rt_mb_detach mb s = do {
     ipc_check mb RT_Object_Class_MailBox s;
     sys \<leftarrow> rt_object_is_systemobject (Obj mb) s;
     RT_ASSERT sys;
     s \<leftarrow> rt_ipc_list_resume_all (WaitQ mb) s;
     s \<leftarrow> rt_ipc_list_resume_all (SenderQ mb) s;
     s \<leftarrow> rt_object_detach (Obj mb) s;
     Some (RT_EOK, s) }"

text \<open>\<^verbatim>\<open>sizeof(rt_ubase_t)\<close> is 4 on this board.\<close>

definition rt_mb_create :: "'h heap_ops \<Rightarrow> string \<Rightarrow> u32 \<Rightarrow> u8 \<Rightarrow> 'h kernel \<Rightarrow> (ptr \<times> 'h kernel) option" where
  "rt_mb_create H name size' flag s = do {
     RT_ASSERT (not_in_interrupt s);
     (mb, s) \<leftarrow> rt_object_allocate H RT_Object_Class_MailBox name s;
     if mb = RT_NULL then Some (mb, s)
     else do {
       let s = set_flag mb flag s;
       s \<leftarrow> rt_ipc_object_init mb s;
       let s = upd_mb mb (\<lambda>m. m\<lparr>mb_size := ucast size'\<rparr>) s;
       (pool, h) \<leftarrow> kmalloc H (heap s) (unat (mb_size (mailboxes s mb)) * 4);
       let s = upd_mb mb (\<lambda>m. m\<lparr>mb_msg_pool := pool\<rparr>) (s\<lparr>heap := h\<rparr>);
       if pool = RT_NULL then do {
         s \<leftarrow> rt_object_delete H mb s;
         Some (RT_NULL, s) }
       else do {
         let s = upd_mb mb (\<lambda>m. m\<lparr>mb_entry := 0, mb_in_offset := 0, mb_out_offset := 0\<rparr>) s;
         s \<leftarrow> sender_list_init mb s;
         Some (mb, s) } } }"

definition rt_mb_delete :: "'h heap_ops \<Rightarrow> ptr \<Rightarrow> 'h kernel \<Rightarrow> (rt_err_t \<times> 'h kernel) option" where
  "rt_mb_delete H mb s = do {
     RT_ASSERT (not_in_interrupt s);
     ipc_check mb RT_Object_Class_MailBox s;
     sys \<leftarrow> rt_object_is_systemobject (Obj mb) s;
     RT_ASSERT (\<not> sys);
     s \<leftarrow> rt_ipc_list_resume_all (WaitQ mb) s;
     s \<leftarrow> rt_ipc_list_resume_all (SenderQ mb) s;
     h \<leftarrow> kfree H (heap s) (mb_msg_pool (mailboxes s mb));
     s \<leftarrow> rt_object_delete H mb (s\<lparr>heap := h\<rparr>);
     Some (RT_EOK, s) }"

text \<open>
  Storing and fetching a mail. The pool has \<^verbatim>\<open>size\<close> cells; an offset outside it is an access outside the pool.
\<close>

definition mb_push :: "u32 \<Rightarrow> rt_mailbox \<Rightarrow> rt_mailbox option" where
  "mb_push value m = do {
     mem_ok (mb_in_offset m < mb_size m);
     let m = m\<lparr>mb_cells := (mb_cells m)(unat (mb_in_offset m) := value)\<rparr>;
     let m = m\<lparr>mb_in_offset := mb_in_offset m + 1\<rparr>;
     let m = (if mb_in_offset m \<ge> mb_size m then m\<lparr>mb_in_offset := 0\<rparr> else m);
     Some (m\<lparr>mb_entry := mb_entry m + 1\<rparr>) }"

definition mb_pop :: "rt_mailbox \<Rightarrow> (u32 \<times> rt_mailbox) option" where
  "mb_pop m = do {
     mem_ok (mb_out_offset m < mb_size m);
     let value = mb_cells m (unat (mb_out_offset m));
     let m = m\<lparr>mb_out_offset := mb_out_offset m + 1\<rparr>;
     let m = (if mb_out_offset m \<ge> mb_size m then m\<lparr>mb_out_offset := 0\<rparr> else m);
     Some (value, m\<lparr>mb_entry := mb_entry m - 1\<rparr>) }"

text \<open>The rest of a sender or receiver once the mailbox is not full or not empty: store or fetch, wake one thread.\<close>

definition wake_one :: "qhead \<Rightarrow> 'h kernel \<Rightarrow> 'h kernel option" where
  "wake_one h s =
    (if tlists s h \<noteq> [] then do {
       s \<leftarrow> rt_ipc_list_resume h s;
       rt_schedule s }
     else Some s)"

definition mb_put :: "ptr \<Rightarrow> u32 \<Rightarrow> 'h kernel \<Rightarrow> (rt_err_t \<times> 'h kernel) option" where
  "mb_put mb value s = do {
     m \<leftarrow> mb_push value (mailboxes s mb);
     s \<leftarrow> wake_one (WaitQ mb) (upd_mb mb (\<lambda>_. m) s);
     Some (RT_EOK, s) }"

definition mb_get :: "ptr \<Rightarrow> 'h kernel \<Rightarrow> (rt_err_t \<times> u32 \<times> 'h kernel) option" where
  "mb_get mb s = do {
     (value, m) \<leftarrow> mb_pop (mailboxes s mb);
     s \<leftarrow> wake_one (SenderQ mb) (upd_mb mb (\<lambda>_. m) s);
     Some (RT_EOK, value, s) }"

definition wait_on :: "qhead \<Rightarrow> ptr \<Rightarrow> ptr \<Rightarrow> int \<Rightarrow> 'h kernel \<Rightarrow> (waiting \<times> 'h kernel) option" where
  "wait_on h p thread timeout s = do {
     RT_ASSERT (in_thread_context s);
     s \<leftarrow> rt_ipc_list_suspend h thread (o_flag (objs s (Obj p))) s;
     let tick_delta = (if timeout > 0 then rt_tick_get s else 0);
     s \<leftarrow> start_wait_timer thread timeout s;
     s \<leftarrow> rt_schedule s;
     Some ((thread, timeout, tick_delta), s) }"

text \<open>The \<^verbatim>\<open>while\<close> loop of \<^verbatim>\<open>rt_mb_send_wait\<close>, up to its \<^verbatim>\<open>rt_schedule\<close>, and what follows it.\<close>

definition mb_send_loop :: "ptr \<Rightarrow> u32 \<Rightarrow> ptr \<Rightarrow> int \<Rightarrow> 'h kernel \<Rightarrow> ((rt_err_t, waiting) outcome \<times> 'h kernel) option" where
  "mb_send_loop mb value thread timeout s =
    (if mb_entry (mailboxes s mb) = mb_size (mailboxes s mb) then do {
       let s = set_error thread RT_EOK s;
       if timeout = 0 then Some (Done (- RT_EFULL), s)
       else do {
         (w, s) \<leftarrow> wait_on (SenderQ mb) mb thread timeout s;
         Some (Blocked w, s) } }
     else do {
       (e, s) \<leftarrow> mb_put mb value s;
       Some (Done e, s) })"

definition rt_mb_send_wait :: "ptr \<Rightarrow> u32 \<Rightarrow> int \<Rightarrow> 'h kernel \<Rightarrow> ((rt_err_t, waiting) outcome \<times> 'h kernel) option" where
  "rt_mb_send_wait mb value timeout s = do {
     ipc_check mb RT_Object_Class_MailBox s;
     let thread = rt_thread_self s;
     if mb_entry (mailboxes s mb) = mb_size (mailboxes s mb) \<and> timeout = 0 then Some (Done (- RT_EFULL), s)
     else mb_send_loop mb value thread timeout s }"

definition rt_mb_send_wait_resume :: "ptr \<Rightarrow> u32 \<Rightarrow> waiting \<Rightarrow> 'h kernel \<Rightarrow> ((rt_err_t, waiting) outcome \<times> 'h kernel) option" where
  "rt_mb_send_wait_resume mb value w s =
    (case w of (thread, timeout, tick_delta) \<Rightarrow>
     if terror s thread \<noteq> RT_EOK then Some (Done (terror s thread), s)
     else mb_send_loop mb value thread (remaining_timeout timeout tick_delta s) s)"

definition rt_mb_send :: "ptr \<Rightarrow> u32 \<Rightarrow> 'h kernel \<Rightarrow> ((rt_err_t, waiting) outcome \<times> 'h kernel) option" where
  "rt_mb_send mb value s = rt_mb_send_wait mb value 0 s"

text \<open>The value stored through \<^verbatim>\<open>value\<close> is returned with the error code.\<close>

definition mb_recv_loop :: "ptr \<Rightarrow> ptr \<Rightarrow> int \<Rightarrow> 'h kernel \<Rightarrow> ((rt_err_t \<times> u32 option, waiting) outcome \<times> 'h kernel) option" where
  "mb_recv_loop mb thread timeout s =
    (if mb_entry (mailboxes s mb) = 0 then do {
       let s = set_error thread RT_EOK s;
       if timeout = 0 then Some (Done (- RT_ETIMEOUT, None), set_error thread (- RT_ETIMEOUT) s)
       else do {
         (w, s) \<leftarrow> wait_on (WaitQ mb) mb thread timeout s;
         Some (Blocked w, s) } }
     else do {
       (e, value, s) \<leftarrow> mb_get mb s;
       Some (Done (e, Some value), s) })"

definition rt_mb_recv :: "ptr \<Rightarrow> int \<Rightarrow> 'h kernel \<Rightarrow> ((rt_err_t \<times> u32 option, waiting) outcome \<times> 'h kernel) option" where
  "rt_mb_recv mb timeout s = do {
     ipc_check mb RT_Object_Class_MailBox s;
     let thread = rt_thread_self s;
     if mb_entry (mailboxes s mb) = 0 \<and> timeout = 0 then Some (Done (- RT_ETIMEOUT, None), s)
     else mb_recv_loop mb thread timeout s }"

definition rt_mb_recv_resume :: "ptr \<Rightarrow> waiting \<Rightarrow> 'h kernel \<Rightarrow> ((rt_err_t \<times> u32 option, waiting) outcome \<times> 'h kernel) option" where
  "rt_mb_recv_resume mb w s =
    (case w of (thread, timeout, tick_delta) \<Rightarrow>
     if terror s thread \<noteq> RT_EOK then Some (Done (terror s thread, None), s)
     else mb_recv_loop mb thread (remaining_timeout timeout tick_delta s) s)"

definition rt_mb_control :: "ptr \<Rightarrow> int \<Rightarrow> u32 \<Rightarrow> 'h kernel \<Rightarrow> (rt_err_t \<times> 'h kernel) option" where
  "rt_mb_control mb cmd arg s = do {
     ipc_check mb RT_Object_Class_MailBox s;
     if cmd = RT_IPC_CMD_RESET then do {
       s \<leftarrow> rt_ipc_list_resume_all (WaitQ mb) s;
       s \<leftarrow> rt_ipc_list_resume_all (SenderQ mb) s;
       let s = upd_mb mb (\<lambda>m. m\<lparr>mb_entry := 0, mb_in_offset := 0, mb_out_offset := 0\<rparr>) s;
       s \<leftarrow> rt_schedule s;
       Some (RT_EOK, s) }
     else Some (- RT_ERROR, s) }"

section \<open>The scheduler invariant\<close>

lemma swf_upd_mb [simp]: "swf X (upd_mb mb f s) = swf X s"
  by (simp add: upd_mb_def)

lemma upd_mb_frame [simp]:
  "tlists (upd_mb m f s) = tlists s" "threads (upd_mb m f s) = threads s" "cur (upd_mb m f s) = cur s" "objs (upd_mb m f s) = objs s"
  "lock_nest (upd_mb m f s) = lock_nest s" "intr_nest (upd_mb m f s) = intr_nest s" "ready_group (upd_mb m f s) = ready_group s"
  "tstat (upd_mb m f s) t = tstat s t" "tprio (upd_mb m f s) t = tprio s t" "terror (upd_mb m f s) t = terror s t"
  "mailboxes (upd_mb m f s) = (mailboxes s)(m := f (mailboxes s m))" "heap (upd_mb m f s) = heap s"
  by (simp_all add: upd_mb_def tstat_def tprio_def terror_def)

lemma swf_sender_list_init: "sender_list_init mb s = Some s' \<Longrightarrow> swf X s' = swf X s"
  by (auto simp: sender_list_init_def bind_eq_Some_conv swf_init_queue)

lemma swf_rt_mb_init:
  assumes "swf {} s" "rt_mb_init mb name pool n flag s = Some (e, s')"
  shows "swf {} s'"
proof -
  obtain u v w where "rt_object_init (Obj mb) RT_Object_Class_MailBox name s = Some u" "rt_ipc_object_init mb (set_flag mb flag u) = Some v"
    "sender_list_init mb (upd_mb mb (\<lambda>m. m\<lparr>mb_msg_pool := pool, mb_size := ucast n, mb_entry := 0, mb_in_offset := 0, mb_out_offset := 0\<rparr>) v) = Some w" "s' = w"
    using assms(2) by (auto simp: rt_mb_init_def Let_def bind_eq_Some_conv)
  then show ?thesis using swf_flag_register [of mb flag u v "Obj mb"] swf_sender_list_init assms(1) by fastforce
qed

lemma swf_resume_two:
  assumes "swf {} s" "rt_ipc_list_resume_all h s = Some u" "rt_ipc_list_resume_all h' u = Some v"
  shows "swf {} v"
  using swf_rt_ipc_list_resume_all [OF swf_rt_ipc_list_resume_all [OF assms(1,2)] assms(3)] .

lemma swf_rt_mb_detach:
  assumes s: "swf {} s" and r: "rt_mb_detach mb s = Some (e, s')"
  shows "swf {} s'"
proof -
  obtain u v where u: "rt_ipc_list_resume_all (WaitQ mb) s = Some u" "rt_ipc_list_resume_all (SenderQ mb) u = Some v" "rt_object_detach (Obj mb) v = Some s'"
    using r by (auto simp: rt_mb_detach_def bind_eq_Some_conv)
  have "swf {} v" by (rule swf_resume_two [OF s u(1,2)])
  then show ?thesis using obj_onlyD(21) [OF rt_object_detach_obj_only [OF u(3)]] by simp
qed

lemma swf_rt_mb_delete:
  assumes s: "swf {} s" and r: "rt_mb_delete H mb s = Some (e, s')"
  shows "swf {} s'"
proof -
  obtain u v h where u: "rt_ipc_list_resume_all (WaitQ mb) s = Some u" "rt_ipc_list_resume_all (SenderQ mb) u = Some v"
      "rt_object_delete H mb (v\<lparr>heap := h\<rparr>) = Some s'"
    using r by (auto simp: rt_mb_delete_def bind_eq_Some_conv)
  have "swf {} (v\<lparr>heap := h\<rparr>)" using swf_resume_two [OF s u(1,2)] by simp
  then show ?thesis using obj_onlyD(21) [OF rt_object_delete_obj_only [OF u(3)]] by simp
qed

lemma swf_rt_mb_create:
  assumes s: "swf {} s" and r: "rt_mb_create H name n flag s = Some (p, s')"
  shows "swf {} s'"
proof -
  obtain mb u where u: "rt_object_allocate H RT_Object_Class_MailBox name s = Some (mb, u)" "mb = 0 \<Longrightarrow> s' = u"
    using r by (auto simp: rt_mb_create_def bind_eq_Some_conv split: if_splits)
  show ?thesis
  proof (cases "mb = 0")
    case True
    then show ?thesis using u swf_rt_object_allocate [OF s u(1)] by simp
  next
    case False
    define v' where "v' v = upd_mb mb (\<lambda>m. m\<lparr>mb_size := ucast n\<rparr>) v" for v :: "'a kernel"
    obtain v pool h where v: "rt_ipc_object_init mb (set_flag mb flag u) = Some v"
      and c: "rt_object_delete H mb (upd_mb mb (\<lambda>m. m\<lparr>mb_msg_pool := pool\<rparr>) ((v' v)\<lparr>heap := h\<rparr>)) = Some s' \<or>
        sender_list_init mb (upd_mb mb (\<lambda>m. m\<lparr>mb_entry := 0, mb_in_offset := 0, mb_out_offset := 0\<rparr>) (upd_mb mb (\<lambda>m. m\<lparr>mb_msg_pool := pool\<rparr>) ((v' v)\<lparr>heap := h\<rparr>))) = Some s'"
      using r u(1) False by (auto simp: rt_mb_create_def Let_def bind_eq_Some_conv v'_def split: if_splits)
    have v': "swf {} (v' v)" using swf_flag_register [OF v disjI2 [OF u(1)] s] by (simp add: v'_def)
    from c show ?thesis
    proof
      assume d: "rt_object_delete H mb (upd_mb mb (\<lambda>m. m\<lparr>mb_msg_pool := pool\<rparr>) ((v' v)\<lparr>heap := h\<rparr>)) = Some s'"
      show ?thesis using obj_onlyD(21) [OF rt_object_delete_obj_only [OF d]] v' by simp
    next
      assume d: "sender_list_init mb (upd_mb mb (\<lambda>m. m\<lparr>mb_entry := 0, mb_in_offset := 0, mb_out_offset := 0\<rparr>) (upd_mb mb (\<lambda>m. m\<lparr>mb_msg_pool := pool\<rparr>) ((v' v)\<lparr>heap := h\<rparr>))) = Some s'"
      show ?thesis using swf_sender_list_init [OF d] v' by simp
    qed
  qed
qed

lemma swf_wake_one:
  assumes "swf {} s" "wake_one h s = Some s'"
  shows "swf {} s'"
  using assms by (auto simp: wake_one_def bind_eq_Some_conv split: if_splits intro: swf_rt_schedule [OF swf_rt_ipc_list_resume])

lemma swf_wait_on:
  assumes s: "swf {} s" and h: "wait_queue h" and t: "tstat s t = 3" and r: "wait_on h p t time s = Some (w, s')"
  shows "swf {} s'"
  using r s h t by (auto simp: wait_on_def Let_def bind_eq_Some_conv elim!: swf_block)

lemma swf_mb_loops:
  assumes s: "swf {} s" and t: "tstat s t = 3"
  shows "mb_send_loop mb v t time s = Some (r, s') \<Longrightarrow> swf {} s'" and "mb_recv_loop mb t time s = Some (r', s') \<Longrightarrow> swf {} s'"
proof -
  have a: "swf {} (set_error t e s)" "tstat (set_error t e s) t = 3" "swf {} (upd_mb mb f s)" for e f using s t by simp_all
  show "swf {} s'" if "mb_send_loop mb v t time s = Some (r, s')"
    using that a(1) swf_wait_on [OF a(1) wait_queue_simps(2) a(2)] swf_wake_one [OF a(3)]
    by (auto simp: mb_send_loop_def mb_put_def Let_def bind_eq_Some_conv split: if_splits)
  show "swf {} s'" if "mb_recv_loop mb t time s = Some (r', s')"
    using that s swf_wait_on [OF a(1) wait_queue_simps(1) a(2)] swf_wake_one [OF a(3)]
    by (auto simp: mb_recv_loop_def mb_get_def Let_def bind_eq_Some_conv split: if_splits)
qed

lemma swf_rt_mb_send_recv:
  assumes s: "swf {} s" "tstat s (cur s) = 3"
  shows "rt_mb_send_wait mb v time s = Some (r, s') \<Longrightarrow> swf {} s'" "rt_mb_recv mb time s = Some (r', s') \<Longrightarrow> swf {} s'"
  using swf_mb_loops [OF s] s(1) by (auto simp: rt_mb_send_wait_def rt_mb_recv_def Let_def bind_eq_Some_conv rt_thread_self_def split: if_splits)

lemma swf_rt_mb_resume:
  assumes "swf {} s" "tstat s (fst w) = 3"
  shows "rt_mb_send_wait_resume mb v w s = Some (r, s') \<Longrightarrow> swf {} s'" "rt_mb_recv_resume mb w s = Some (r', s') \<Longrightarrow> swf {} s'"
  using swf_mb_loops [OF assms] assms(1) by (auto simp: rt_mb_send_wait_resume_def rt_mb_recv_resume_def split: if_splits prod.splits)

lemma swf_rt_mb_control:
  assumes s: "swf {} s" and r: "rt_mb_control mb cmd arg s = Some (e, s')"
  shows "swf {} s'"
proof (cases "cmd = 1")
  case True
  then obtain u v where u: "rt_ipc_list_resume_all (WaitQ mb) s = Some u" "rt_ipc_list_resume_all (SenderQ mb) u = Some v"
    "rt_schedule (upd_mb mb (\<lambda>m. m\<lparr>mb_entry := 0, mb_in_offset := 0, mb_out_offset := 0\<rparr>) v) = Some s'"
    using r by (auto simp: rt_mb_control_def Let_def bind_eq_Some_conv)
  show ?thesis using swf_rt_schedule [OF _ u(3)] swf_resume_two [OF s u(1,2)] by simp
qed (use r s in \<open>auto simp: rt_mb_control_def bind_eq_Some_conv\<close>)

section \<open>The ring as a queue\<close>

definition mb_contents :: "rt_mailbox \<Rightarrow> u32 list" where
  "mb_contents m = map (\<lambda>i. mb_cells m ((unat (mb_out_offset m) + i) mod unat (mb_size m))) [0..<unat (mb_entry m)]"

definition mb_ok :: "rt_mailbox \<Rightarrow> bool" where
  "mb_ok m \<longleftrightarrow> unat (mb_entry m) \<le> unat (mb_size m) \<and>
     (mb_size m \<noteq> 0 \<longrightarrow> mb_out_offset m < mb_size m \<and>
        unat (mb_in_offset m) = (unat (mb_out_offset m) + unat (mb_entry m)) mod unat (mb_size m))"

text \<open>The guards of the operations: a mail is stored when the mailbox is not full, fetched when it is not empty.\<close>

definition mb_store :: "u32 \<Rightarrow> rt_mailbox \<Rightarrow> rt_mailbox option" where
  "mb_store value m = (if mb_entry m = mb_size m then None else mb_push value m)"

definition mb_fetch :: "rt_mailbox \<Rightarrow> (u32 \<times> rt_mailbox) option" where
  "mb_fetch m = (if mb_entry m = 0 then None else mb_pop m)"

lemma length_mb_contents [simp]: "length (mb_contents m) = unat (mb_entry m)"
  by (simp add: mb_contents_def)

text \<open>One step round the ring in 16 bits.\<close>

lemma ring_step:
  fixes off n :: u16
  assumes "off < n"
  shows "unat (if n \<le> off + 1 then 0 else off + 1) = (unat off + 1) mod unat n"
proof -
  have lt: "unat off < unat n" using assms by (simp add: word_less_nat_alt)
  have u: "unat (off + 1) = unat off + 1" using unat_inc [OF assms] .
  show ?thesis
  proof (cases "n \<le> off + 1")
    case True
    then have "unat off + 1 = unat n" using u lt by (simp add: word_le_nat_alt)
    then show ?thesis using True by simp
  next
    case False
    then show ?thesis using u by (simp add: word_le_nat_alt not_le)
  qed
qed

lemma mb_push_ok:
  assumes m: "mb_ok m" and f: "mb_entry m \<noteq> mb_size m"
  obtains m' where "mb_push v m = Some m'" "mb_ok m'" "mb_contents m' = mb_contents m @ [v]" "mb_size m' = mb_size m"
proof -
  define n e out where "n = unat (mb_size m)" "e = unat (mb_entry m)" "out = unat (mb_out_offset m)"
  have lt: "e < n" using m f by (simp add: mb_ok_def n_e_out_def le_less word_unat_eq_iff)
  then have z: "mb_size m \<noteq> 0" by (auto simp: n_e_out_def)
  have i: "unat (mb_in_offset m) = (out + e) mod n" "out < n" using m z by (simp_all add: mb_ok_def n_e_out_def word_less_nat_alt)
  have il: "mb_in_offset m < mb_size m" using i(1) lt by (simp add: word_less_nat_alt n_e_out_def [symmetric])
  define m' where "m' = m\<lparr>mb_cells := (mb_cells m)(unat (mb_in_offset m) := v),
    mb_in_offset := (if mb_size m \<le> mb_in_offset m + 1 then 0 else mb_in_offset m + 1), mb_entry := mb_entry m + 1\<rparr>"
  have p: "mb_push v m = Some m'" using il by (simp add: mb_push_def Let_def m'_def)
  have e': "unat (mb_entry m + 1) = e + 1"
    using lt unat_inc [of "mb_entry m" "mb_size m"] by (simp add: n_e_out_def word_less_nat_alt)
  have "mb_ok m'"
    using e' lt i ring_step [OF il] by (simp add: mb_ok_def m'_def n_e_out_def [symmetric] word_less_nat_alt mod_Suc_eq)
  moreover have "mb_contents m' = mb_contents m @ [v]"
  proof -
    have ne: "(out + k) mod n \<noteq> (out + e) mod n" if "k < e" for k
      using that lt i(2) ring_mod [of "out + k" n] ring_mod [of "out + e" n] by (auto split: if_splits)
    have "map (\<lambda>k. mb_cells m' ((out + k) mod n)) [0..<e] = map (\<lambda>k. mb_cells m ((out + k) mod n)) [0..<e]"
      using ne i(1) by (simp add: m'_def)
    then show ?thesis using e' i(1) by (simp add: mb_contents_def m'_def n_e_out_def [symmetric])
  qed
  ultimately show thesis using that [OF p] by (simp add: m'_def)
qed

lemma mb_pop_ok:
  assumes m: "mb_ok m" and c: "mb_contents m = v # vs"
  obtains m' where "mb_pop m = Some (v, m')" "mb_ok m'" "mb_contents m' = vs" "mb_size m' = mb_size m"
proof -
  define n e out where "n = unat (mb_size m)" "e = unat (mb_entry m)" "out = unat (mb_out_offset m)"
  have e: "e = Suc (length vs)" using arg_cong [OF c, of length] by (simp add: n_e_out_def)
  have le: "e \<le> n" using m by (simp add: mb_ok_def n_e_out_def)
  then have z: "mb_size m \<noteq> 0" using e by (auto simp: n_e_out_def)
  have i: "unat (mb_in_offset m) = (out + e) mod n" "out < n" using m z by (simp_all add: mb_ok_def n_e_out_def word_less_nat_alt)
  have ol: "mb_out_offset m < mb_size m" using m z by (simp add: mb_ok_def)
  define m' where "m' = m\<lparr>mb_out_offset := (if mb_size m \<le> mb_out_offset m + 1 then 0 else mb_out_offset m + 1), mb_entry := mb_entry m - 1\<rparr>"
  have "mb_entry m \<noteq> 0" using e by (auto simp: n_e_out_def)
  then have e': "unat (mb_entry m - 1) = length vs" using unat_minus_one [of "mb_entry m"] e by (simp add: n_e_out_def)
  have o': "unat (mb_out_offset m') = (out + 1) mod n" using ring_step [OF ol] by (simp add: m'_def n_e_out_def)
  have up: "[0..<e] = 0 # [1..<e]" using e upt_rec [of 0 e] by (simp del: upt_Suc)
  have hd: "v = mb_cells m out" using c i(2) unfolding mb_contents_def n_e_out_def [symmetric] up by simp
  have tl: "vs = map (\<lambda>k. mb_cells m ((out + k) mod n)) [1..<e]"
    using c unfolding mb_contents_def n_e_out_def [symmetric] up by simp
  have "mb_contents m' = map (\<lambda>k. mb_cells m (((out + 1) mod n + k) mod n)) [0..<length vs]"
    using o' e' by (simp add: mb_contents_def m'_def n_e_out_def [symmetric])
  also have "\<dots> = map ((\<lambda>k. mb_cells m ((out + k) mod n)) \<circ> Suc) [0..<length vs]" by (simp add: mod_add_left_eq)
  also have "\<dots> = map (\<lambda>k. mb_cells m ((out + k) mod n)) [1..<e]" unfolding e map_map [symmetric] map_Suc_upt by simp
  also have "\<dots> = vs" by (rule tl [symmetric])
  finally have "mb_contents m' = vs" .
  moreover have "mb_ok m'"
    using e' le e i o' mod_less_divisor [of n "out + 1"] unfolding mb_ok_def
    by (simp add: m'_def n_e_out_def [symmetric] word_less_nat_alt mod_add_left_eq)
  moreover have "mb_pop m = Some (v, m')" using ol hd by (simp add: mb_pop_def Let_def m'_def n_e_out_def)
  ultimately show thesis using that by (simp add: m'_def)
qed

interpretation mb_fifo: bounded_fifo mb_ok mb_contents "\<lambda>m. unat (mb_size m)" mb_store mb_fetch "\<lambda>_ _. True"
proof
  fix m assume "mb_ok m"
  then show "length (mb_contents m) \<le> unat (mb_size m)" by (simp add: mb_ok_def)
next
  fix m v assume m: "mb_ok m" and f: "length (mb_contents m) < unat (mb_size m)"
  then have "mb_entry m \<noteq> mb_size m" by auto
  then show "\<exists>m'. mb_store v m = Some m' \<and> mb_ok m' \<and> mb_contents m' = mb_contents m @ [v] \<and> unat (mb_size m') = unat (mb_size m) \<and> True = True"
    using mb_push_ok [OF m, of v] by (metis mb_store_def)
next
  fix m x assume "length (mb_contents m) = unat (mb_size m)"
  then show "mb_store x m = None" by (simp add: mb_store_def word_unat_eq_iff)
next
  fix m assume "mb_contents m = []"
  then have "unat (mb_entry m) = 0" by (metis length_mb_contents list.size(3))
  then show "mb_fetch m = None" by (simp add: mb_fetch_def unat_eq_0)
next
  fix m x xs assume m: "mb_ok m" and c: "mb_contents m = x # xs"
  have "unat (mb_entry m) = Suc (length xs)" using arg_cong [OF c, of length] by simp
  then have "mb_entry m \<noteq> 0" by auto
  then show "\<exists>m'. mb_fetch m = Some (x, m') \<and> mb_ok m' \<and> mb_contents m' = xs \<and> unat (mb_size m') = unat (mb_size m) \<and> True = True"
    using mb_pop_ok [OF m c] by (metis mb_fetch_def)
qed

section \<open>Properties\<close>

text \<open>A session of non-blocking sends and receives by the running thread.\<close>

fun mb_session :: "ptr \<Rightarrow> u32 fifo_op list \<Rightarrow> 'h kernel \<Rightarrow> (u32 fifo_res list \<times> 'h kernel) option" where
  "mb_session mb [] s = Some ([], s)"
| "mb_session mb (Put v # ops) s = do {
     (r, s) \<leftarrow> rt_mb_send mb v s;
     RT_ASSERT (r = Done RT_EOK \<or> r = Done (- RT_EFULL));
     (rs, s) \<leftarrow> mb_session mb ops s;
     Some ((if r = Done RT_EOK then Accepted else Refused) # rs, s) }"
| "mb_session mb (Get # ops) s = do {
     (r, s) \<leftarrow> rt_mb_recv mb 0 s;
     a \<leftarrow> (case r of Done (e, Some v) \<Rightarrow> if e = RT_EOK then Some (Got v) else None
       | Done (e, None) \<Rightarrow> if e = - RT_ETIMEOUT then Some Nothing else None | Blocked w \<Rightarrow> None);
     (rs, s) \<leftarrow> mb_session mb ops s;
     Some (a # rs, s) }"

lemma rt_mb_send_idle:
  assumes "ipc_obj RT_Object_Class_MailBox mb s" "tlists s (WaitQ mb) = []" "mb_ok (mailboxes s mb)"
  shows "rt_mb_send mb v s = (case mb_store v (mailboxes s mb) of Some m \<Rightarrow> Some (Done RT_EOK, upd_mb mb (\<lambda>_. m) s) | None \<Rightarrow> Some (Done (- RT_EFULL), s))"
proof (cases "mb_entry (mailboxes s mb) = mb_size (mailboxes s mb)")
  case True
  then show ?thesis using assms(1) by (simp add: rt_mb_send_def rt_mb_send_wait_def mb_store_def Let_def)
next
  case False
  then obtain m' where "mb_push v (mailboxes s mb) = Some m'" using mb_push_ok [OF assms(3)] by blast
  then show ?thesis using assms(1,2) False
    by (simp add: rt_mb_send_def rt_mb_send_wait_def mb_send_loop_def mb_put_def wake_one_def mb_store_def Let_def)
qed

lemma rt_mb_recv_idle:
  assumes "ipc_obj RT_Object_Class_MailBox mb s" "tlists s (SenderQ mb) = []" "mb_ok (mailboxes s mb)"
  shows "rt_mb_recv mb 0 s = (case mb_fetch (mailboxes s mb) of Some (v, m) \<Rightarrow> Some (Done (RT_EOK, Some v), upd_mb mb (\<lambda>_. m) s)
    | None \<Rightarrow> Some (Done (- RT_ETIMEOUT, None), s))"
proof (cases "mb_entry (mailboxes s mb) = 0")
  case True
  then show ?thesis using assms(1) by (simp add: rt_mb_recv_def mb_fetch_def Let_def)
next
  case False
  then obtain v vs where "mb_contents (mailboxes s mb) = v # vs"
    by (metis length_mb_contents list.exhaust list.size(3) unat_eq_0)
  then obtain m' where "mb_pop (mailboxes s mb) = Some (v, m')" using mb_pop_ok [OF assms(3)] by blast
  then show ?thesis using assms(1,2) False
    by (simp add: rt_mb_recv_def mb_recv_loop_def mb_get_def wake_one_def mb_fetch_def Let_def)
qed

lemma mb_session_eq:
  assumes "ipc_obj RT_Object_Class_MailBox mb s" "tlists s (WaitQ mb) = []" "tlists s (SenderQ mb) = []" "mb_ok (mailboxes s mb)"
  shows "\<exists>s'. mb_session mb ops s = Some (fifo_session mb_store mb_fetch ops (mailboxes s mb), s') \<and> tlists s' = tlists s \<and> mb_ok (mailboxes s' mb)"
  using assms
proof (induction ops arbitrary: s)
  case (Cons op ops)
  have ok: "mb_ok m'" if "mb_store v (mailboxes s mb) = Some m' \<or> mb_fetch (mailboxes s mb) = Some (v, m')" for v m'
    using that mb_fifo.push_room [OF Cons.prems(4)] mb_fifo.push_full [OF Cons.prems(4)] mb_fifo.bounded [OF Cons.prems(4)]
      mb_fifo.pop_first [OF Cons.prems(4)] mb_fifo.pop_empty [OF Cons.prems(4)]
    by (metis le_neq_implies_less list.exhaust option.distinct(1) option.inject prod.inject)
  have up: "ipc_obj RT_Object_Class_MailBox mb (upd_mb mb f s)" for f using Cons.prems(1) by (simp add: ipc_obj_def)
  show ?case
  proof (cases op)
    case (Put v)
    show ?thesis
    proof (cases "mb_store v (mailboxes s mb)")
      case None
      then show ?thesis using Put Cons.IH [OF Cons.prems] rt_mb_send_idle [OF Cons.prems(1,2,4), of v] by auto
    next
      case (Some m')
      then show ?thesis
        using Put Cons.IH [of "upd_mb mb (\<lambda>_. m') s"] up Cons.prems ok [of v m'] rt_mb_send_idle [OF Cons.prems(1,2,4), of v] by auto
    qed
  next
    case Get
    show ?thesis
    proof (cases "mb_fetch (mailboxes s mb)")
      case None
      then show ?thesis using Get Cons.IH [OF Cons.prems] rt_mb_recv_idle [OF Cons.prems(1,3,4)] by auto
    next
      case (Some p)
      obtain v m' where p: "p = (v, m')" by (cases p)
      then show ?thesis
        using Get Some Cons.IH [of "upd_mb mb (\<lambda>_. m') s"] up Cons.prems ok [of v m'] rt_mb_recv_idle [OF Cons.prems(1,3,4)] by auto
    qed
  qed
qed simp

text \<open>
  C16. A mailbox is a first-in first-out queue of its size: any session of \<^verbatim>\<open>rt_mb_send\<close> and non-blocking \<^verbatim>\<open>rt_mb_recv\<close> on a
  mailbox nobody waits for gives, call by call, the answers of a list bounded by the size of the mailbox, with
  \<^verbatim>\<open>-RT_EFULL\<close> when the list is full and \<^verbatim>\<open>-RT_ETIMEOUT\<close> when it is empty, and keeps the ring well formed.
\<close>

theorem rt_mb_session_refines:
  assumes "ipc_obj RT_Object_Class_MailBox mb s" "tlists s (WaitQ mb) = []" "tlists s (SenderQ mb) = []" "mb_ok (mailboxes s mb)"
  shows "\<exists>s'. mb_session mb ops s = Some (list_session (unat (mb_size (mailboxes s mb))) ops (mb_contents (mailboxes s mb)), s') \<and>
    mb_ok (mailboxes s' mb) \<and> tlists s' = tlists s"
  using mb_session_eq [OF assms, of ops] mb_fifo.session_refines [OF assms(4), of ops] by auto

definition mb_demo :: "unit kernel" where
  "mb_demo = upd_mb 8 (\<lambda>m. m\<lparr>mb_size := 2\<rparr>) (ipc_demo RT_Object_Class_MailBox)"

lemma mb_demo_view:
  "running mb_demo" "cur mb_demo = 1" "lock_nest mb_demo = 0" "ready_group mb_demo \<noteq> 0" "ipc_obj RT_Object_Class_MailBox 8 mb_demo"
  "tlists mb_demo (WaitQ 8) = []" "tlists mb_demo (SenderQ 8) = []" "o_flag (objs mb_demo (Obj 8)) = 1"
  "mailboxes mb_demo 8 = zero_mailbox\<lparr>mb_size := 2\<rparr>" "mb_ok (mailboxes mb_demo 8)" "mb_contents (mailboxes mb_demo 8) = []"
proof -
  let ?s = "ipc_demo RT_Object_Class_MailBox"
  show z: "mailboxes mb_demo 8 = zero_mailbox\<lparr>mb_size := 2\<rparr>"
    by (simp add: mb_demo_def ipc_demo_def wait_demo_def thread_demo_def sched_demo_def zero_kernel_def)
  show "running mb_demo"
    using ipc_demo_view(2) [of 5] thread_ok_cong [of mb_demo ?s] by (simp add: running_def) (simp add: mb_demo_def)
  show "mb_ok (mailboxes mb_demo 8)" "mb_contents (mailboxes mb_demo 8) = []" by (simp_all add: z mb_ok_def mb_contents_def zero_mailbox_def)
  show "tlists mb_demo (SenderQ 8) = []"
    by (simp add: mb_demo_def ipc_demo_def wait_demo_def sched_demo_view)
qed (simp_all add: mb_demo_def ipc_demo_view ipc_obj_def)

theorem rt_mb_session_refines_witness:
  "\<exists>s'. mb_session 8 [Get, Put 5, Put 6, Put 7, Get, Get] mb_demo = Some ([Nothing, Accepted, Accepted, Refused, Got 5, Got 6], s')"
  using rt_mb_session_refines [OF mb_demo_view(5-7,10), of "[Get, Put 5, Put 6, Put 7, Get, Get]"]
  by (simp only: mb_demo_view(11)) (auto simp: mb_demo_view(9) simp del: mb_session.simps)

lemma wait_on_total:
  assumes s: "running s" and h: "wait_queue h" and f: "o_flag (objs s (Obj p)) \<in> {RT_IPC_FLAG_FIFO, RT_IPC_FLAG_PRIO}" and time: "time < 0x7FFFFFFF"
  obtains s' where "wait_on h p (cur s) time s = Some ((cur s, time, if time > 0 then ticks s else 0), s')" "swf {} s'" "ipc_frame s s'"
    "\<And>h'. not_ready_queue h' \<Longrightarrow> tlists s' h' = ((tlists s)(h := wait_insert (o_flag (objs s (Obj p))) (tprio s) (cur s) (tlists s h))) h'"
    "tstat s' (cur s) = 2" "\<And>x. terror s' x = terror s x" "\<And>x. o_type (objs s' x) = o_type (objs s x)"
    "lock_nest s = 0 \<Longrightarrow> ready_group s \<noteq> 0 \<Longrightarrow> cur s' \<noteq> cur s \<and> tstat s' (cur s') = 3" "cur s' \<noteq> 0"
proof -
  note rs = runningD [OF s]
  have f': "o_flag (objs s (Obj p)) = 0 \<or> o_flag (objs s (Obj p)) = 1" using f by simp
  obtain u v s' where w: "rt_ipc_list_suspend h (cur s) (o_flag (objs s (Obj p))) s = Some u" "start_wait_timer (cur s) time u = Some v" "rt_schedule v = Some s'"
    "swf {} s'" "ipc_frame s s'" "\<And>h'. not_ready_queue h' \<Longrightarrow> tlists s' h' = ((tlists s)(h := wait_insert (o_flag (objs s (Obj p))) (tprio s) (cur s) (tlists s h))) h'"
    "tstat s' (cur s) = 2" "\<And>x. terror s' x = terror s x" "\<And>x. o_type (objs s' x) = o_type (objs s x)"
    "lock_nest s = 0 \<Longrightarrow> ready_group s \<noteq> 0 \<Longrightarrow> cur s' \<noteq> cur s \<and> tstat s' (cur s') = 3" "cur s' \<noteq> 0"
    by (rule wait_total [OF rs(1) h rs(2,3) f' time]) blast
  have "ticks u = ticks s" using ipc_frame_list_ops(1) [OF w(1)] by (simp add: ipc_frame_def)
  then have "wait_on h p (cur s) time s = Some ((cur s, time, if time > 0 then ticks s else 0), s')"
    using rs(4) w(1-3) by (simp add: wait_on_def rt_tick_get_def Let_def)
  then show thesis using w(4-11) by (rule that)
qed

text \<open>
  A receiver that blocks on an empty mailbox gets the mail that is sent next: the receiver is suspended and another
  thread runs; that thread's \<^verbatim>\<open>rt_mb_send\<close> returns \<^verbatim>\<open>RT_EOK\<close> and makes the receiver ready; when the receiver goes on, its
  \<^verbatim>\<open>rt_mb_recv\<close> returns \<^verbatim>\<open>RT_EOK\<close> with that mail and the mailbox is empty again.
\<close>

theorem rt_mb_blocked_recv:
  assumes s: "running s" "lock_nest s = 0" "ready_group s \<noteq> 0"
    and o: "ipc_obj RT_Object_Class_MailBox mb s" "o_flag (objs s (Obj mb)) \<in> {RT_IPC_FLAG_FIFO, RT_IPC_FLAG_PRIO}"
    and m: "mb_ok (mailboxes s mb)" "mb_contents (mailboxes s mb) = []" "mb_size (mailboxes s mb) \<noteq> 0"
    and q: "tlists s (WaitQ mb) = []" "tlists s (SenderQ mb) = []" and time: "time \<noteq> 0" "time < 0x7FFFFFFF"
  shows "\<exists>w s1 s2 s3. rt_mb_recv mb time s = Some (Blocked w, s1) \<and> cur s1 \<noteq> cur s \<and> tstat s1 (cur s) = RT_THREAD_SUSPEND \<and>
    rt_mb_send mb v s1 = Some (Done RT_EOK, s2) \<and> tstat s2 (cur s) \<in> {RT_THREAD_READY, RT_THREAD_RUNNING} \<and>
    rt_mb_recv_resume mb w s2 = Some (Done (RT_EOK, Some v), s3) \<and> swf {} s3 \<and> mb_contents (mailboxes s3 mb) = []"
proof -
  have e: "mb_entry (mailboxes s mb) = 0" using m(2) by (metis length_mb_contents list.size(3) unat_eq_0)
  define s0 where "s0 = set_error (cur s) RT_EOK s"
  have s0: "running s0" "objs s0 = objs s" "cur s0 = cur s" "tlists s0 = tlists s" "mailboxes s0 = mailboxes s" "lock_nest s0 = 0"
    "ready_group s0 \<noteq> 0" "terror s0 (cur s) = 0" "thread_ok s0 (cur s)"
    using s runningD(2) [OF s(1)] thread_ok_cong [of s0 s] by (simp_all add: s0_def)
  have f: "o_flag (objs s0 (Obj mb)) \<in> {0, 1}" using o(2) s0(2) by simp
  define w where "w = (cur s, time, if time > 0 then ticks s0 else 0)"
  obtain s1 where s1: "wait_on (WaitQ mb) mb (cur s0) time s0 = Some ((cur s0, time, if time > 0 then ticks s0 else 0), s1)" "swf {} s1" "ipc_frame s0 s1"
    "\<And>h'. not_ready_queue h' \<Longrightarrow> tlists s1 h' = ((tlists s0)(WaitQ mb := wait_insert (o_flag (objs s0 (Obj mb))) (tprio s0) (cur s0) (tlists s0 (WaitQ mb)))) h'"
    "tstat s1 (cur s0) = 2" "\<And>x. terror s1 x = terror s0 x" "\<And>x. o_type (objs s1 x) = o_type (objs s0 x)"
    "lock_nest s0 = 0 \<Longrightarrow> ready_group s0 \<noteq> 0 \<Longrightarrow> cur s1 \<noteq> cur s0 \<and> tstat s1 (cur s1) = 3" "cur s1 \<noteq> 0"
    by (rule wait_on_total [OF s0(1) wait_queue_simps(1) f time(2)]) blast
  have recv: "rt_mb_recv mb time s = Some (Blocked w, s1)"
    using o(1) e time(1) s1(1) s0(3) by (simp add: rt_mb_recv_def mb_recv_loop_def Let_def rt_thread_self_def s0_def w_def)
  have q1: "tlists s1 (WaitQ mb) = [cur s]" "tlists s1 (SenderQ mb) = []"
    using s1(4) [of "WaitQ mb"] s1(4) [of "SenderQ mb"] q s0(3,4) by (simp_all add: wait_insert_def)
  have t1: "thread_ok s1 (cur s)" using thread_ok_types [OF s1(7)] s0(9) by simp
  have mb1: "mailboxes s1 mb = mailboxes s mb" using s1(3) s0(5) by (simp add: ipc_frame_def)
  have ne: "mb_entry (mailboxes s mb) \<noteq> mb_size (mailboxes s mb)" using e m(3) by simp
  obtain m' where m': "mb_push v (mailboxes s mb) = Some m'" "mb_ok m'" "mb_contents m' = [v]" "mb_size m' = mb_size (mailboxes s mb)"
    using mb_push_ok [OF m(1) ne, of v] m(2) by (metis append_Nil)
  let ?u = "upd_mb mb (\<lambda>_. m') s1"
  have u: "swf {} ?u" "tlists ?u (WaitQ mb) = [cur s]" "thread_ok ?u (cur s)" "cur ?u \<noteq> 0"
    using s1(2,9) q1(1) t1 thread_ok_cong [of ?u s1] by simp_all
  obtain u' s2 where s2: "rt_ipc_list_resume (WaitQ mb) ?u = Some u'" "rt_schedule u' = Some s2" "swf {} s2" "ipc_frame ?u s2"
    "\<And>h'. not_ready_queue h' \<Longrightarrow> tlists s2 h' = ((tlists ?u)(WaitQ mb := [])) h'" "tstat s2 (cur s) = 1 \<or> tstat s2 (cur s) = 3"
    "\<And>x. terror s2 x = terror ?u x"
    by (rule wake_total [OF u(1,2) wait_queue_simps(1) u(3,4)]) blast
  have "ipc_obj RT_Object_Class_MailBox mb s1" using o(1) ipc_obj_cong [of s1 mb s] s1(7) s0(2) by simp
  then have send: "rt_mb_send mb v s1 = Some (Done RT_EOK, s2)"
    using ne m'(1) q1(1) s2(1,2) by (simp add: rt_mb_send_def rt_mb_send_wait_def mb_send_loop_def mb_put_def wake_one_def mb1 Let_def)
  have mb2: "mailboxes s2 mb = m'" using s2(4) by (simp add: ipc_frame_def)
  obtain m'' where m'': "mb_pop m' = Some (v, m'')" "mb_contents m'' = []" using mb_pop_ok [OF m'(2,3)] by metis
  have q2: "tlists s2 (SenderQ mb) = []" using s2(5) [of "SenderQ mb"] q1(2) by simp
  have "unat (mb_entry m') = 1" using arg_cong [OF m'(3), of length] by simp
  then have "mb_entry m' \<noteq> 0" by auto
  moreover have "terror s2 (cur s) = RT_EOK" using s2(7) s1(6) s0(8) by simp
  ultimately have "rt_mb_recv_resume mb w s2 = Some (Done (RT_EOK, Some v), upd_mb mb (\<lambda>_. m'') s2)"
    using m''(1) q2 by (simp add: rt_mb_recv_resume_def mb_recv_loop_def mb_get_def wake_one_def w_def mb2)
  then show ?thesis using recv send s1(5,8) s0(3,6,7) s2(3,6) m''(2) by fastforce
qed

theorem rt_mb_blocked_recv_witness:
  "\<exists>w s1 s2 s3. rt_mb_recv 8 20 mb_demo = Some (Blocked w, s1) \<and> rt_mb_send 8 77 s1 = Some (Done RT_EOK, s2) \<and>
     rt_mb_recv_resume 8 w s2 = Some (Done (RT_EOK, Some 77), s3)"
  using rt_mb_blocked_recv [OF mb_demo_view(1,3-5), of 20 77] mb_demo_view(6-11) by (auto simp: zero_mailbox_def)

end
