(* ===== verification/RT_Msgqueue.thy ===== *)
theory RT_Msgqueue
  imports RT_Mailbox
begin

text \<open>
  Message queues of \<^verbatim>\<open>src/ipc.c\<close>: the pool is cut into nodes, each a \<^verbatim>\<open>next\<close> pointer with a message behind it; a node is on
  the queue, on the free list, or held by a sender or receiver that copies its message with interrupts enabled.
  A message is a list of bytes, its length the \<^verbatim>\<open>size\<close> passed with the buffer.
\<close>

section \<open>Operations\<close>

definition upd_mq :: "ptr \<Rightarrow> (rt_messagequeue \<Rightarrow> rt_messagequeue) \<Rightarrow> 'h kernel \<Rightarrow> 'h kernel" where
  "upd_mq mq f s = s\<lparr>mqs := (mqs s)(mq := f (mqs s mq))\<rparr>"

text \<open>\<^verbatim>\<open>sizeof(struct rt_mq_message)\<close> with 32-bit pointers.\<close>

definition msg_header :: nat where
  "msg_header = 4"

text \<open>The loop that strings the nodes of the pool into the free list; the argument is the number of rounds done.\<close>

primrec mq_init_pool :: "nat \<Rightarrow> rt_messagequeue \<Rightarrow> rt_messagequeue" where
  "mq_init_pool 0 m = m"
| "mq_init_pool (Suc temp) m =
    (let m = mq_init_pool temp m;
         head = mq_msg_pool m + temp * (unat (mq_msg_size m) + msg_header)
     in m\<lparr>mq_next := (mq_next m)(head := mq_free m), mq_free := head\<rparr>)"

definition mq_init_lists :: "rt_messagequeue \<Rightarrow> rt_messagequeue" where
  "mq_init_lists m =
    (let m = m\<lparr>mq_head := RT_NULL, mq_tail := RT_NULL, mq_free := RT_NULL\<rparr>;
         m = mq_init_pool (unat (mq_max_msgs m)) m
     in m\<lparr>mq_entry := 0\<rparr>)"

definition rt_mq_init :: "ptr \<Rightarrow> string \<Rightarrow> ptr \<Rightarrow> u32 \<Rightarrow> u32 \<Rightarrow> u8 \<Rightarrow> 'h kernel \<Rightarrow> (rt_err_t \<times> 'h kernel) option" where
  "rt_mq_init mq name msgpool msg_size pool_size flag s = do {
     RT_ASSERT (mq \<noteq> RT_NULL);
     s \<leftarrow> rt_object_init (Obj mq) RT_Object_Class_MessageQueue name s;
     let s = set_flag mq flag s;
     s \<leftarrow> rt_ipc_object_init mq s;
     let s = upd_mq mq (\<lambda>m. m\<lparr>mq_msg_pool := msgpool, mq_msg_size := ucast (rt_align4 msg_size)\<rparr>) s;
     let s = upd_mq mq (\<lambda>m. m\<lparr>mq_max_msgs := of_nat (unat pool_size div (unat (mq_msg_size m) + msg_header))\<rparr>) s;
     Some (RT_EOK, upd_mq mq mq_init_lists s) }"

definition rt_mq_detach :: "ptr \<Rightarrow> 'h kernel \<Rightarrow> (rt_err_t \<times> 'h kernel) option" where
  "rt_mq_detach mq s = do {
     ipc_check mq RT_Object_Class_MessageQueue s;
     sys \<leftarrow> rt_object_is_systemobject (Obj mq) s;
     RT_ASSERT sys;
     s \<leftarrow> rt_ipc_list_resume_all (WaitQ mq) s;
     s \<leftarrow> rt_object_detach (Obj mq) s;
     Some (RT_EOK, s) }"

definition rt_mq_delete :: "'h heap_ops \<Rightarrow> ptr \<Rightarrow> 'h kernel \<Rightarrow> (rt_err_t \<times> 'h kernel) option" where
  "rt_mq_delete H mq s = do {
     RT_ASSERT (not_in_interrupt s);
     ipc_check mq RT_Object_Class_MessageQueue s;
     sys \<leftarrow> rt_object_is_systemobject (Obj mq) s;
     RT_ASSERT (\<not> sys);
     s \<leftarrow> rt_ipc_list_resume_all (WaitQ mq) s;
     h \<leftarrow> kfree H (heap s) (mq_msg_pool (mqs s mq));
     s \<leftarrow> rt_object_delete H mq (s\<lparr>heap := h\<rparr>);
     Some (RT_EOK, s) }"

definition rt_mq_create :: "'h heap_ops \<Rightarrow> string \<Rightarrow> u32 \<Rightarrow> u32 \<Rightarrow> u8 \<Rightarrow> 'h kernel \<Rightarrow> (ptr \<times> 'h kernel) option" where
  "rt_mq_create H name msg_size max_msgs flag s = do {
     RT_ASSERT (not_in_interrupt s);
     (mq, s) \<leftarrow> rt_object_allocate H RT_Object_Class_MessageQueue name s;
     if mq = RT_NULL then Some (mq, s)
     else do {
       let s = set_flag mq flag s;
       s \<leftarrow> rt_ipc_object_init mq s;
       let s = upd_mq mq (\<lambda>m. m\<lparr>mq_msg_size := ucast (rt_align4 msg_size), mq_max_msgs := ucast max_msgs\<rparr>) s;
       (pool, h) \<leftarrow> kmalloc H (heap s) ((unat (mq_msg_size (mqs s mq)) + msg_header) * unat (mq_max_msgs (mqs s mq)));
       let s = upd_mq mq (\<lambda>m. m\<lparr>mq_msg_pool := pool\<rparr>) (s\<lparr>heap := h\<rparr>);
       if pool = RT_NULL then do {
         (_, s) \<leftarrow> rt_mq_delete H mq s;
         Some (RT_NULL, s) }
       else Some (mq, upd_mq mq mq_init_lists s) } }"

text \<open>
  The steps on the lists of nodes. A sender takes a node off the free list, fills it, and links it in; a receiver unlinks
  the first node, reads it, and puts it back on the free list.
\<close>

definition mq_take_free :: "rt_messagequeue \<Rightarrow> (ptr \<times> rt_messagequeue) option" where
  "mq_take_free m = (if mq_free m = RT_NULL then None else Some (mq_free m, m\<lparr>mq_free := mq_next m (mq_free m)\<rparr>))"

definition mq_copy_in :: "ptr \<Rightarrow> u8 list \<Rightarrow> rt_messagequeue \<Rightarrow> rt_messagequeue" where
  "mq_copy_in msg buffer m =
    m\<lparr>mq_data := (mq_data m)(msg := (\<lambda>i. if i < length buffer then buffer ! i else mq_data m msg i))\<rparr>"

definition mq_link_tail :: "ptr \<Rightarrow> rt_messagequeue \<Rightarrow> rt_messagequeue" where
  "mq_link_tail msg m =
    (let m = (if mq_tail m \<noteq> RT_NULL then m\<lparr>mq_next := (mq_next m)(mq_tail m := msg)\<rparr> else m);
         m = m\<lparr>mq_tail := msg\<rparr>;
         m = (if mq_head m = RT_NULL then m\<lparr>mq_head := msg\<rparr> else m)
     in m\<lparr>mq_entry := mq_entry m + 1\<rparr>)"

definition mq_link_head :: "ptr \<Rightarrow> rt_messagequeue \<Rightarrow> rt_messagequeue" where
  "mq_link_head msg m =
    (let m = m\<lparr>mq_next := (mq_next m)(msg := mq_head m)\<rparr>;
         m = m\<lparr>mq_head := msg\<rparr>;
         m = (if mq_tail m = RT_NULL then m\<lparr>mq_tail := msg\<rparr> else m)
     in m\<lparr>mq_entry := mq_entry m + 1\<rparr>)"

definition mq_unlink_head :: "rt_messagequeue \<Rightarrow> rt_messagequeue" where
  "mq_unlink_head m =
    (let msg = mq_head m;
         m = m\<lparr>mq_head := mq_next m msg\<rparr>
     in if mq_tail m = msg then m\<lparr>mq_tail := RT_NULL\<rparr> else m)"

definition mq_give_back :: "ptr \<Rightarrow> rt_messagequeue \<Rightarrow> rt_messagequeue" where
  "mq_give_back msg m = m\<lparr>mq_next := (mq_next m)(msg := mq_free m), mq_free := msg\<rparr>"

definition mq_read :: "ptr \<Rightarrow> nat \<Rightarrow> rt_messagequeue \<Rightarrow> u8 list" where
  "mq_read msg n m = map (mq_data m msg) [0..<n]"

text \<open>The two critical sections of a sender with the copy between them, for \<^verbatim>\<open>rt_mq_send\<close> and \<^verbatim>\<open>rt_mq_urgent\<close>.\<close>

definition mq_push :: "u8 list \<Rightarrow> rt_messagequeue \<Rightarrow> rt_messagequeue option" where
  "mq_push buffer m = do {
     (msg, m) \<leftarrow> mq_take_free m;
     let m = m\<lparr>mq_next := (mq_next m)(msg := RT_NULL)\<rparr>;
     let m = mq_copy_in msg buffer m;
     Some (mq_link_tail msg m) }"

definition mq_push_front :: "u8 list \<Rightarrow> rt_messagequeue \<Rightarrow> rt_messagequeue option" where
  "mq_push_front buffer m = do {
     (msg, m) \<leftarrow> mq_take_free m;
     let m = mq_copy_in msg buffer m;
     Some (mq_link_head msg m) }"

text \<open>\<open>buffer\<close> is \<open>None\<close> for a null pointer.\<close>

definition rt_mq_send :: "ptr \<Rightarrow> u8 list option \<Rightarrow> 'h kernel \<Rightarrow> (rt_err_t \<times> 'h kernel) option" where
  "rt_mq_send mq buffer s = do {
     ipc_check mq RT_Object_Class_MessageQueue s;
     b \<leftarrow> buffer;
     RT_ASSERT (length b \<noteq> 0);
     if length b > unat (mq_msg_size (mqs s mq)) then Some (- RT_ERROR, s)
     else (case mq_push b (mqs s mq) of
       None \<Rightarrow> Some (- RT_EFULL, s)
     | Some m \<Rightarrow> do {
         s \<leftarrow> wake_one (WaitQ mq) (upd_mq mq (\<lambda>_. m) s);
         Some (RT_EOK, s) }) }"

definition rt_mq_urgent :: "ptr \<Rightarrow> u8 list option \<Rightarrow> 'h kernel \<Rightarrow> (rt_err_t \<times> 'h kernel) option" where
  "rt_mq_urgent mq buffer s = do {
     ipc_check mq RT_Object_Class_MessageQueue s;
     b \<leftarrow> buffer;
     RT_ASSERT (length b \<noteq> 0);
     if length b > unat (mq_msg_size (mqs s mq)) then Some (- RT_ERROR, s)
     else (case mq_push_front b (mqs s mq) of
       None \<Rightarrow> Some (- RT_EFULL, s)
     | Some m \<Rightarrow> do {
         s \<leftarrow> wake_one (WaitQ mq) (upd_mq mq (\<lambda>_. m) s);
         Some (RT_EOK, s) }) }"

text \<open>
  Receiving \<open>n\<close> bytes at most. \<^verbatim>\<open>msg->next\<close> is read through the head of the queue, which is a node when the entry
  count is positive.
\<close>

definition mq_pop :: "nat \<Rightarrow> rt_messagequeue \<Rightarrow> (u8 list \<times> rt_messagequeue) option" where
  "mq_pop n m = do {
     let msg = mq_head m;
     mem_ok (msg \<noteq> RT_NULL);
     let m = mq_unlink_head m;
     let m = m\<lparr>mq_entry := mq_entry m - 1\<rparr>;
     let bytes = mq_read msg (min n (unat (mq_msg_size m))) m;
     Some (bytes, mq_give_back msg m) }"

definition mq_recv_loop :: "ptr \<Rightarrow> ptr \<Rightarrow> nat \<Rightarrow> int \<Rightarrow> 'h kernel \<Rightarrow> ((rt_err_t \<times> u8 list option, waiting) outcome \<times> 'h kernel) option" where
  "mq_recv_loop mq thread n timeout s =
    (if mq_entry (mqs s mq) = 0 then do {
       RT_ASSERT (in_thread_context s);
       let s = set_error thread RT_EOK s;
       if timeout = 0 then Some (Done (- RT_ETIMEOUT, None), set_error thread (- RT_ETIMEOUT) s)
       else do {
         (w, s) \<leftarrow> wait_on (WaitQ mq) mq thread timeout s;
         Some (Blocked w, s) } }
     else do {
       (bytes, m) \<leftarrow> mq_pop n (mqs s mq);
       Some (Done (RT_EOK, Some bytes), upd_mq mq (\<lambda>_. m) s) })"

definition rt_mq_recv :: "ptr \<Rightarrow> bool \<Rightarrow> nat \<Rightarrow> int \<Rightarrow> 'h kernel \<Rightarrow> ((rt_err_t \<times> u8 list option, waiting) outcome \<times> 'h kernel) option" where
  "rt_mq_recv mq buffer n timeout s = do {
     ipc_check mq RT_Object_Class_MessageQueue s;
     RT_ASSERT buffer;
     RT_ASSERT (n \<noteq> 0);
     let thread = rt_thread_self s;
     if mq_entry (mqs s mq) = 0 \<and> timeout = 0 then Some (Done (- RT_ETIMEOUT, None), s)
     else mq_recv_loop mq thread n timeout s }"

definition rt_mq_recv_resume :: "ptr \<Rightarrow> nat \<Rightarrow> waiting \<Rightarrow> 'h kernel \<Rightarrow> ((rt_err_t \<times> u8 list option, waiting) outcome \<times> 'h kernel) option" where
  "rt_mq_recv_resume mq n w s =
    (case w of (thread, timeout, tick_delta) \<Rightarrow>
     if terror s thread \<noteq> RT_EOK then Some (Done (terror s thread, None), s)
     else mq_recv_loop mq thread n (remaining_timeout timeout tick_delta s) s)"

text \<open>
  The loop of \<^verbatim>\<open>rt_mq_control\<close> that empties the queue, one node a round; the fuel is one more than the number of
  messages, which is what a well-formed queue needs.
\<close>

fun mq_flush :: "nat \<Rightarrow> rt_messagequeue \<Rightarrow> rt_messagequeue option" where
  "mq_flush 0 m = None"
| "mq_flush (Suc fuel) m =
    (if mq_head m = RT_NULL then Some m
     else mq_flush fuel (mq_give_back (mq_head m) (mq_unlink_head m)))"

definition rt_mq_control :: "ptr \<Rightarrow> int \<Rightarrow> u32 \<Rightarrow> 'h kernel \<Rightarrow> (rt_err_t \<times> 'h kernel) option" where
  "rt_mq_control mq cmd arg s = do {
     ipc_check mq RT_Object_Class_MessageQueue s;
     if cmd = RT_IPC_CMD_RESET then do {
       s \<leftarrow> rt_ipc_list_resume_all (WaitQ mq) s;
       m \<leftarrow> mq_flush (Suc (unat (mq_max_msgs (mqs s mq)))) (mqs s mq);
       let s = upd_mq mq (\<lambda>_. m\<lparr>mq_entry := 0\<rparr>) s;
       s \<leftarrow> rt_schedule s;
       Some (RT_EOK, s) }
     else Some (- RT_ERROR, s) }"

section \<open>The scheduler invariant\<close>

lemma swf_upd_mq [simp]: "swf X (upd_mq mq f s) = swf X s"
  by (simp add: upd_mq_def)

lemma upd_mq_frame [simp]:
  "tlists (upd_mq m f s) = tlists s" "threads (upd_mq m f s) = threads s" "cur (upd_mq m f s) = cur s" "objs (upd_mq m f s) = objs s"
  "lock_nest (upd_mq m f s) = lock_nest s" "intr_nest (upd_mq m f s) = intr_nest s" "ready_group (upd_mq m f s) = ready_group s"
  "tstat (upd_mq m f s) t = tstat s t" "tprio (upd_mq m f s) t = tprio s t" "terror (upd_mq m f s) t = terror s t"
  "mqs (upd_mq m f s) = (mqs s)(m := f (mqs s m))" "heap (upd_mq m f s) = heap s"
  by (simp_all add: upd_mq_def tstat_def tprio_def terror_def)

lemma swf_rt_mq_init:
  assumes "swf {} s" "rt_mq_init mq name pool n k flag s = Some (e, s')"
  shows "swf {} s'"
  using assms by (auto simp: rt_mq_init_def Let_def bind_eq_Some_conv elim: swf_flag_register)

lemma swf_rt_mq_detach: "swf {} s \<Longrightarrow> rt_mq_detach mq s = Some (e, s') \<Longrightarrow> swf {} s'"
  by (auto simp: rt_mq_detach_def bind_eq_Some_conv dest: swf_detach_delete)

lemma swf_rt_mq_delete:
  assumes s: "swf {} s" and r: "rt_mq_delete H mq s = Some (e, s')"
  shows "swf {} s'"
proof -
  obtain u h where u: "rt_ipc_list_resume_all (WaitQ mq) s = Some u" "rt_object_delete H mq (u\<lparr>heap := h\<rparr>) = Some s'"
    using r by (auto simp: rt_mq_delete_def bind_eq_Some_conv)
  have "swf {} (u\<lparr>heap := h\<rparr>)" using swf_rt_ipc_list_resume_all [OF s u(1)] by simp
  then show ?thesis using obj_onlyD(21) [OF rt_object_delete_obj_only [OF u(2)]] by simp
qed

lemma swf_rt_mq_create:
  assumes s: "swf {} s" and r: "rt_mq_create H name n k flag s = Some (p, s')"
  shows "swf {} s'"
proof -
  obtain mq u where u: "rt_object_allocate H RT_Object_Class_MessageQueue name s = Some (mq, u)" "mq = 0 \<Longrightarrow> s' = u"
    using r by (auto simp: rt_mq_create_def bind_eq_Some_conv split: if_splits)
  show ?thesis
  proof (cases "mq = 0")
    case True
    then show ?thesis using u swf_rt_object_allocate [OF s u(1)] by simp
  next
    case False
    define g where "g = (\<lambda>m::rt_messagequeue. m\<lparr>mq_msg_size := ucast (rt_align4 n), mq_max_msgs := ucast k\<rparr>)"
    define f where "f pool = (\<lambda>m::rt_messagequeue. m\<lparr>mq_msg_pool := pool\<rparr>)" for pool
    obtain v pool h where v: "rt_ipc_object_init mq (set_flag mq flag u) = Some v"
      and c: "(\<exists>e. rt_mq_delete H mq (upd_mq mq (f pool) ((upd_mq mq g v)\<lparr>heap := h\<rparr>)) = Some (e, s')) \<or>
        s' = upd_mq mq mq_init_lists (upd_mq mq (f pool) ((upd_mq mq g v)\<lparr>heap := h\<rparr>))"
      using r u(1) False by (auto simp: rt_mq_create_def Let_def bind_eq_Some_conv g_def f_def split: if_splits)
    have "swf {} v" using swf_flag_register [OF v disjI2 [OF u(1)] s] .
    then show ?thesis using c swf_rt_mq_delete [of "upd_mq mq (f pool) ((upd_mq mq g v)\<lparr>heap := h\<rparr>)" H mq] by auto
  qed
qed

lemma swf_rt_mq_send:
  assumes s: "swf {} s" and r: "rt_mq_send mq b s = Some (e, s') \<or> rt_mq_urgent mq b s = Some (e, s')"
  shows "swf {} s'"
proof -
  have "swf {} s'" if "wake_one (WaitQ mq) (upd_mq mq f s) = Some s'" for f using swf_wake_one [OF _ that] s by simp
  then show ?thesis using r s by (auto simp: rt_mq_send_def rt_mq_urgent_def bind_eq_Some_conv split: if_splits option.splits)
qed

lemma swf_mq_recv_loop:
  assumes s: "swf {} s" "tstat s t = 3" and r: "mq_recv_loop mq t n time s = Some (e, s')"
  shows "swf {} s'"
proof -
  have a: "swf {} (set_error t e s)" "tstat (set_error t e s) t = 3" for e using s by simp_all
  show ?thesis
    using r s(1) swf_wait_on [OF a(1) wait_queue_simps(1) a(2)]
    by (auto simp: mq_recv_loop_def Let_def bind_eq_Some_conv split: if_splits)
qed

lemma swf_rt_mq_recv:
  assumes s: "swf {} s" "tstat s (cur s) = 3" and r: "rt_mq_recv mq b n time s = Some (e, s')"
  shows "swf {} s'"
  using r s swf_mq_recv_loop [OF s] by (auto simp: rt_mq_recv_def Let_def bind_eq_Some_conv rt_thread_self_def split: if_splits)

lemma swf_rt_mq_recv_resume:
  assumes "swf {} s" "tstat s (fst w) = 3" "rt_mq_recv_resume mq n w s = Some (e, s')"
  shows "swf {} s'"
  using assms swf_mq_recv_loop [OF assms(1,2)] by (auto simp: rt_mq_recv_resume_def split: if_splits prod.splits)

lemma swf_rt_mq_control:
  assumes s: "swf {} s" and r: "rt_mq_control mq cmd arg s = Some (e, s')"
  shows "swf {} s'"
proof (cases "cmd = 1")
  case True
  then obtain u m where u: "rt_ipc_list_resume_all (WaitQ mq) s = Some u" "rt_schedule (upd_mq mq (\<lambda>_. m) u) = Some s'"
    using r by (auto simp: rt_mq_control_def Let_def bind_eq_Some_conv)
  show ?thesis using swf_rt_schedule [OF _ u(2)] swf_rt_ipc_list_resume_all [OF s u(1)] by simp
qed (use r s in \<open>auto simp: rt_mq_control_def bind_eq_Some_conv\<close>)

section \<open>The nodes as two lists\<close>

text \<open>\<open>us\<close> are the nodes on the queue, first message first, \<open>fs\<close> those on the free list.\<close>

definition mq_rep :: "rt_messagequeue \<Rightarrow> ptr list \<Rightarrow> ptr list \<Rightarrow> bool" where
  "mq_rep m us fs \<longleftrightarrow> chain (mq_next m) (mq_head m) us \<and> chain (mq_next m) (mq_free m) fs \<and> distinct (us @ fs) \<and>
     mq_tail m = (if us = [] then RT_NULL else last us) \<and> unat (mq_entry m) = length us \<and>
     length us + length fs = unat (mq_max_msgs m)"

definition mq_ok :: "rt_messagequeue \<Rightarrow> bool" where
  "mq_ok m \<longleftrightarrow> (\<exists>us fs. mq_rep m us fs)"

fun mq_walk :: "nat \<Rightarrow> (ptr \<Rightarrow> ptr) \<Rightarrow> ptr \<Rightarrow> ptr list" where
  "mq_walk 0 nx p = []"
| "mq_walk (Suc n) nx p = p # mq_walk n nx (nx p)"

definition mq_contents :: "rt_messagequeue \<Rightarrow> u8 list list" where
  "mq_contents m = map (\<lambda>p. mq_read p (unat (mq_msg_size m)) m) (mq_walk (unat (mq_entry m)) (mq_next m) (mq_head m))"

lemma mq_walk_chain: "chain nx p xs \<Longrightarrow> mq_walk (length xs) nx p = xs"
  by (induction xs arbitrary: p) auto

lemma mq_contents_rep: "mq_rep m us fs \<Longrightarrow> mq_contents m = map (\<lambda>p. mq_read p (unat (mq_msg_size m)) m) us"
  using mq_walk_chain [of "mq_next m" "mq_head m" us] by (simp add: mq_contents_def mq_rep_def)

lemma mq_rep_nonzero: "mq_rep m us fs \<Longrightarrow> 0 \<notin> set us \<and> 0 \<notin> set fs"
proof -
  have "chain nx p xs \<Longrightarrow> 0 \<notin> set xs" for nx p xs by (induction xs arbitrary: p) auto
  then show "mq_rep m us fs \<Longrightarrow> ?thesis" by (auto simp: mq_rep_def)
qed

lemma entry_inc:
  fixes e :: u16
  assumes "unat e < unat (n :: u16)"
  shows "unat (e + 1) = unat e + 1"
  using unat_inc [of e n] assms by (simp add: word_less_nat_alt)

text \<open>A message stored at the end, or at the front, goes into the first free node.\<close>

definition stored :: "u8 list \<Rightarrow> ptr \<Rightarrow> rt_messagequeue \<Rightarrow> rt_messagequeue" where
  "stored b f m = mq_copy_in f b (m\<lparr>mq_free := mq_next m f\<rparr>)"

lemma mq_read_stored:
  assumes "length b \<le> n"
  shows "mq_read f n (stored b f m) = b @ map (mq_data m f) [length b..<n]"
proof -
  have "[0..<n] = [0..<length b] @ [length b..<n]" using assms by (metis le_add_diff_inverse upt_add_eq_append zero_le)
  moreover have "map (\<lambda>i. if i < length b then b ! i else g i) [0..<length b] = b" for g by (rule nth_equalityI) auto
  ultimately show ?thesis by (simp add: mq_read_def stored_def mq_copy_in_def)
qed

lemma mq_push_rep:
  assumes r: "mq_rep m us (f # fs)"
  shows "\<exists>m'. mq_push b m = Some m' \<and> mq_rep m' (us @ [f]) fs \<and> mq_msg_size m' = mq_msg_size m \<and> mq_max_msgs m' = mq_max_msgs m \<and>
    (\<forall>p n. mq_read p n m' = mq_read p n (stored b f m))"
proof -
  have fr: "mq_free m = f" "f \<noteq> 0" "f \<notin> set us" "f \<notin> set fs" using r by (auto simp: mq_rep_def)
  let ?m1 = "mq_copy_in f b (m\<lparr>mq_free := mq_next m f, mq_next := (mq_next m)(f := RT_NULL)\<rparr>)"
  let ?m' = "mq_link_tail f ?m1"
  have p: "mq_push b m = Some ?m'" using fr by (simp add: mq_push_def mq_take_free_def Let_def)
  have ent: "unat (mq_entry m + 1) = length us + 1" using entry_inc [of "mq_entry m" "mq_max_msgs m"] r by (simp add: mq_rep_def)
  have "mq_rep ?m' (us @ [f]) fs"
  proof (cases "us = []")
    case True
    then show ?thesis using r fr ent by (auto simp: mq_rep_def mq_link_tail_def mq_copy_in_def Let_def chain_null)
  next
    case False
    then obtain vs z where us: "us = vs @ [z]" by (metis rev_exhaust)
    have z: "mq_tail m = z" "z \<noteq> 0" "mq_head m \<noteq> 0" "z \<notin> set fs" "z \<noteq> f"
      using r us fr mq_rep_nonzero [OF r] by (auto simp: mq_rep_def chain_null)
    have c: "chain ((mq_next m)(f := 0, z := f)) (mq_head m) (vs @ [z, f])"
      using r us fr by (intro chain_snoc) (auto simp: mq_rep_def)
    have "chain ((mq_next m)(f := 0, z := f)) (mq_next m f) fs" using r fr z(4) by (auto simp: mq_rep_def)
    then show ?thesis using r fr ent us z c by (auto simp: mq_rep_def mq_link_tail_def mq_copy_in_def Let_def)
  qed
  then show ?thesis
    using p by (auto simp: mq_link_tail_def mq_copy_in_def mq_read_def stored_def Let_def)
qed

lemma mq_push_front_rep:
  assumes r: "mq_rep m us (f # fs)"
  shows "\<exists>m'. mq_push_front b m = Some m' \<and> mq_rep m' (f # us) fs \<and> mq_msg_size m' = mq_msg_size m \<and> mq_max_msgs m' = mq_max_msgs m \<and>
    (\<forall>p n. mq_read p n m' = mq_read p n (stored b f m))"
proof -
  have fr: "mq_free m = f" "f \<noteq> 0" "f \<notin> set us" "f \<notin> set fs" using r by (auto simp: mq_rep_def)
  let ?m1 = "mq_copy_in f b (m\<lparr>mq_free := mq_next m f\<rparr>)"
  let ?m' = "mq_link_head f ?m1"
  have p: "mq_push_front b m = Some ?m'" using fr by (simp add: mq_push_front_def mq_take_free_def Let_def)
  have ent: "unat (mq_entry m + 1) = length us + 1" using entry_inc [of "mq_entry m" "mq_max_msgs m"] r by (simp add: mq_rep_def)
  have "us \<noteq> [] \<Longrightarrow> last us \<noteq> 0" using mq_rep_nonzero [OF r] by (metis last_in_set)
  then have "mq_rep ?m' (f # us) fs" using r fr ent by (auto simp: mq_rep_def mq_link_head_def mq_copy_in_def Let_def)
  then show ?thesis using p by (auto simp: mq_link_head_def mq_copy_in_def mq_read_def stored_def Let_def)
qed

lemma mq_pop_rep:
  assumes r: "mq_rep m (u # us) fs"
  shows "\<exists>m'. mq_pop n m = Some (mq_read u (min n (unat (mq_msg_size m))) m, m') \<and> mq_rep m' us (u # fs) \<and>
    mq_msg_size m' = mq_msg_size m \<and> mq_max_msgs m' = mq_max_msgs m \<and> (\<forall>p k. mq_read p k m' = mq_read p k m)"
proof -
  have h: "mq_head m = u" "u \<noteq> 0" "u \<notin> set us" "u \<notin> set fs" using r by (auto simp: mq_rep_def)
  define m1 where "m1 = (mq_unlink_head m)\<lparr>mq_entry := mq_entry m - 1\<rparr>"
  have e: "mq_entry (mq_unlink_head m) = mq_entry m" by (simp add: mq_unlink_head_def Let_def)
  have p: "mq_pop n m = Some (mq_read u (min n (unat (mq_msg_size m))) m, mq_give_back u m1)"
    using h e by (simp add: mq_pop_def Let_def m1_def mq_read_def) (simp add: mq_unlink_head_def Let_def)
  have "mq_entry m \<noteq> 0" using r by (auto simp: mq_rep_def)
  then have ent: "unat (mq_entry m - 1) = length us" using unat_minus_one [of "mq_entry m"] r by (simp add: mq_rep_def)
  have "us \<noteq> [] \<Longrightarrow> last us \<noteq> u" using h(3) last_in_set by metis
  then have "mq_rep (mq_give_back u m1) us (u # fs)"
    using r h ent by (auto simp: mq_rep_def m1_def mq_unlink_head_def mq_give_back_def Let_def)
  then show ?thesis using p by (simp add: m1_def mq_unlink_head_def mq_give_back_def mq_read_def Let_def)
qed

text \<open>A receiver of whole messages.\<close>

definition mq_fetch :: "rt_messagequeue \<Rightarrow> (u8 list \<times> rt_messagequeue) option" where
  "mq_fetch m = (if mq_entry m = 0 then None else mq_pop (unat (mq_msg_size m)) m)"

definition whole_message :: "u8 list \<Rightarrow> rt_messagequeue \<Rightarrow> bool" where
  "whole_message b m \<longleftrightarrow> length b = unat (mq_msg_size m)"

lemma read_other:
  assumes "f \<notin> set us" "\<forall>p n. mq_read p n m' = mq_read p n (stored b f m)"
  shows "map (\<lambda>p. mq_read p n m') us = map (\<lambda>p. mq_read p n m) us"
proof -
  have "mq_read p n (stored b f m) = mq_read p n m" if "p \<noteq> f" for p using that by (simp add: mq_read_def stored_def mq_copy_in_def)
  then show ?thesis using assms by (intro map_cong refl) metis
qed

lemma mq_push_ok:
  assumes r: "mq_rep m us (f # fs)" and b: "length b \<le> unat (mq_msg_size m)"
  obtains m' old where "mq_push b m = Some m'" "mq_rep m' (us @ [f]) fs" "mq_contents m' = mq_contents m @ [b @ old]"
    "mq_msg_size m' = mq_msg_size m" "mq_max_msgs m' = mq_max_msgs m" "length (b @ old) = unat (mq_msg_size m)"
proof -
  let ?n = "unat (mq_msg_size m)"
  have fr: "f \<notin> set us" using r by (auto simp: mq_rep_def)
  obtain m' where m': "mq_push b m = Some m'" "mq_rep m' (us @ [f]) fs" "mq_msg_size m' = mq_msg_size m" "mq_max_msgs m' = mq_max_msgs m"
    "\<forall>p n. mq_read p n m' = mq_read p n (stored b f m)" using mq_push_rep [OF r] by blast
  have "mq_contents m' = mq_contents m @ [b @ map (mq_data m f) [length b..<?n]]"
    using mq_contents_rep [OF m'(2)] mq_contents_rep [OF r] read_other [OF fr m'(5), of ?n] m'(3,5) mq_read_stored [OF b] by simp
  then show thesis using that [OF m'(1,2)] m'(3,4) b by simp
qed

lemma mq_ok_pop:
  assumes m: "mq_ok m" and c: "mq_contents m = x # xs"
  obtains m' where "mq_pop n m = Some (take n x, m')" "mq_ok m'" "mq_contents m' = xs" "mq_msg_size m' = mq_msg_size m" "mq_max_msgs m' = mq_max_msgs m"
proof -
  obtain us fs where r: "mq_rep m us fs" using m by (auto simp: mq_ok_def)
  obtain u vs where us: "us = u # vs" using mq_contents_rep [OF r] c by (cases us) auto
  obtain m' where m': "mq_pop n m = Some (mq_read u (min n (unat (mq_msg_size m))) m, m')" "mq_rep m' vs (u # fs)"
    "mq_msg_size m' = mq_msg_size m" "mq_max_msgs m' = mq_max_msgs m" "\<forall>p k. mq_read p k m' = mq_read p k m"
    using mq_pop_rep r us by blast
  have x: "x = mq_read u (unat (mq_msg_size m)) m" and xs: "xs = map (\<lambda>p. mq_read p (unat (mq_msg_size m)) m) vs"
    using mq_contents_rep [OF r] c us by simp_all
  have "mq_contents m' = xs" using mq_contents_rep [OF m'(2)] m'(3,5) xs by simp
  moreover have "mq_read u (min n (unat (mq_msg_size m))) m = take n x" by (cases "n \<le> unat (mq_msg_size m)") (simp_all add: x mq_read_def take_map min_def)
  ultimately show thesis using that m' by (auto simp: mq_ok_def)
qed

lemma mq_entry_contents: "mq_ok m \<Longrightarrow> unat (mq_entry m) = length (mq_contents m)"
  using mq_contents_rep by (auto simp: mq_ok_def mq_rep_def)

interpretation mq_fifo: bounded_fifo mq_ok mq_contents "\<lambda>m. unat (mq_max_msgs m)" mq_push mq_fetch whole_message
proof
  fix m assume "mq_ok m"
  then show "length (mq_contents m) \<le> unat (mq_max_msgs m)" using mq_contents_rep by (auto simp: mq_ok_def mq_rep_def)
next
  fix m x y assume m: "mq_ok m" and i: "whole_message x m" and l: "length (mq_contents m) < unat (mq_max_msgs m)"
  obtain us fs where r: "mq_rep m us fs" using m by (auto simp: mq_ok_def)
  then obtain f gs where fs: "fs = f # gs" using l mq_contents_rep [OF r] by (cases fs) (auto simp: mq_rep_def)
  have le: "length x \<le> unat (mq_msg_size m)" using i by (simp add: whole_message_def)
  obtain m' old where "mq_push x m = Some m'" "mq_rep m' (us @ [f]) gs" "mq_contents m' = mq_contents m @ [x @ old]"
    "mq_msg_size m' = mq_msg_size m" "mq_max_msgs m' = mq_max_msgs m" "length (x @ old) = unat (mq_msg_size m)"
    using mq_push_ok [OF r [unfolded fs] le] by blast
  then show "\<exists>m'. mq_push x m = Some m' \<and> mq_ok m' \<and> mq_contents m' = mq_contents m @ [x] \<and>
      unat (mq_max_msgs m') = unat (mq_max_msgs m) \<and> whole_message y m' = whole_message y m"
    using i by (auto simp: whole_message_def mq_ok_def)
next
  fix m x assume m: "mq_ok m" and l: "length (mq_contents m) = unat (mq_max_msgs m)"
  obtain us fs where r: "mq_rep m us fs" using m by (auto simp: mq_ok_def)
  then have "fs = []" using l mq_contents_rep [OF r] by (simp add: mq_rep_def)
  then have "mq_free m = 0" using r by (simp add: mq_rep_def)
  then show "mq_push x m = None" by (simp add: mq_push_def mq_take_free_def)
next
  fix m assume "mq_ok m" "mq_contents m = []"
  then show "mq_fetch m = None" using mq_entry_contents [of m] by (simp add: mq_fetch_def unat_eq_0)
next
  fix m x xs y assume m: "mq_ok m" and c: "mq_contents m = x # xs"
  obtain us fs where r: "mq_rep m us fs" using m by (auto simp: mq_ok_def)
  have l: "length x = unat (mq_msg_size m)" using mq_contents_rep [OF r] c by (cases us) (auto simp: mq_read_def)
  have "mq_entry m \<noteq> 0" using mq_entry_contents [OF m] c by auto
  then show "\<exists>m'. mq_fetch m = Some (x, m') \<and> mq_ok m' \<and> mq_contents m' = xs \<and> unat (mq_max_msgs m') = unat (mq_max_msgs m) \<and>
      whole_message y m' = whole_message y m"
    using mq_ok_pop [OF m c, of "unat (mq_msg_size m)"] l unfolding mq_fetch_def whole_message_def by (metis order_refl take_all)
qed

section \<open>The pool\<close>

definition mq_node :: "rt_messagequeue \<Rightarrow> nat \<Rightarrow> ptr" where
  "mq_node m k = mq_msg_pool m + k * (unat (mq_msg_size m) + msg_header)"

lemma mq_init_pool_frame [simp]:
  "mq_msg_pool (mq_init_pool k m) = mq_msg_pool m" "mq_msg_size (mq_init_pool k m) = mq_msg_size m" "mq_max_msgs (mq_init_pool k m) = mq_max_msgs m"
  "mq_head (mq_init_pool k m) = mq_head m" "mq_tail (mq_init_pool k m) = mq_tail m"
  by (induction k) (simp_all add: Let_def)

lemma mq_node_init_pool [simp]: "mq_node (mq_init_pool k m) j = mq_node m j"
  by (simp add: mq_node_def)

lemma mq_node_inj: "mq_node m j = mq_node m k \<longleftrightarrow> j = k"
  by (simp add: mq_node_def msg_header_def)

lemma mq_init_pool_chain:
  assumes "mq_msg_pool m \<noteq> 0" "mq_free m = RT_NULL"
  shows "chain (mq_next (mq_init_pool k m)) (mq_free (mq_init_pool k m)) (map (mq_node m) (rev [0..<k]))"
proof (induction k)
  case (Suc k)
  have "mq_node m k \<notin> set (map (mq_node m) (rev [0..<k]))" by (auto simp: mq_node_inj)
  moreover have "mq_node m k \<noteq> 0" using assms(1) by (simp add: mq_node_def)
  moreover have "mq_next (mq_init_pool (Suc k) m) = (mq_next (mq_init_pool k m))(mq_node m k := mq_free (mq_init_pool k m))"
    "mq_free (mq_init_pool (Suc k) m) = mq_node m k" by (simp_all add: Let_def mq_node_def)
  ultimately show ?case using Suc chain_upd [of "mq_node m k" "map (mq_node m) (rev [0..<k])"] by (simp add: fun_upd_same del: mq_init_pool.simps chain_upd fun_upd_apply)
qed (simp add: assms(2))

section \<open>Properties\<close>

text \<open>
  Cutting the pool of a message queue into nodes gives a well-formed, empty queue: all \<^verbatim>\<open>max_msgs\<close> nodes are on the free
  list, each of them once, and each lies inside the pool with its message behind it, whatever the pool held before.
\<close>

theorem mq_init_lists_ok:
  assumes "mq_msg_pool m \<noteq> RT_NULL"
  shows "mq_ok (mq_init_lists m) \<and> mq_contents (mq_init_lists m) = [] \<and>
    (\<exists>fs. mq_rep (mq_init_lists m) [] fs \<and> length fs = unat (mq_max_msgs m) \<and>
      (\<forall>p \<in> set fs. mq_msg_pool m \<le> p \<and> p + msg_header + unat (mq_msg_size m) \<le>
        mq_msg_pool m + unat (mq_max_msgs m) * (unat (mq_msg_size m) + msg_header)))"
proof -
  define m0 where "m0 = m\<lparr>mq_head := RT_NULL, mq_tail := RT_NULL, mq_free := RT_NULL\<rparr>"
  define k where "k = unat (mq_max_msgs m)"
  let ?fs = "map (mq_node m0) (rev [0..<k])"
  have i: "mq_init_lists m = (mq_init_pool k m0)\<lparr>mq_entry := 0\<rparr>" by (simp add: mq_init_lists_def m0_def k_def Let_def)
  have "distinct ?fs" by (auto simp: distinct_map inj_on_def mq_node_inj)
  then have r: "mq_rep (mq_init_lists m) [] ?fs"
    using mq_init_pool_chain [of m0 k] assms by (simp add: i mq_rep_def m0_def k_def)
  have "p + msg_header + unat (mq_msg_size m) \<le> mq_msg_pool m + k * (unat (mq_msg_size m) + msg_header) \<and> mq_msg_pool m \<le> p"
    if p: "p \<in> set ?fs" for p
  proof -
    obtain j where "j < k" "p = mq_node m0 j" using p by auto
    then have j: "j < k" "p = mq_msg_pool m + j * (unat (mq_msg_size m) + msg_header)" by (simp_all add: mq_node_def m0_def)
    have "Suc j * (unat (mq_msg_size m) + msg_header) \<le> k * (unat (mq_msg_size m) + msg_header)" using j(1) by (intro mult_le_mono1) simp
    then show ?thesis using j(2) by simp
  qed
  moreover have "length ?fs = unat (mq_max_msgs m)" by (simp add: k_def)
  moreover have "mq_ok (mq_init_lists m)" using r by (auto simp: mq_ok_def)
  moreover have "mq_contents (mq_init_lists m) = []" using mq_contents_rep [OF r] by simp
  ultimately show ?thesis using r by (intro conjI exI [of _ ?fs] ballI) (simp_all add: k_def)
qed

definition mq_demo_mq :: rt_messagequeue where
  "mq_demo_mq = mq_init_lists (zero_mq\<lparr>mq_msg_pool := 100, mq_msg_size := 4, mq_max_msgs := 2\<rparr>)"

theorem mq_init_lists_ok_witness: "mq_ok mq_demo_mq \<and> mq_contents mq_demo_mq = []"
  using mq_init_lists_ok [of "zero_mq\<lparr>mq_msg_pool := 100, mq_msg_size := 4, mq_max_msgs := 2\<rparr>"] by (simp add: mq_demo_mq_def)

text \<open>A session of sends and non-blocking receives of whole messages by the running thread.\<close>

fun mq_session :: "ptr \<Rightarrow> u8 list fifo_op list \<Rightarrow> 'h kernel \<Rightarrow> (u8 list fifo_res list \<times> 'h kernel) option" where
  "mq_session mq [] s = Some ([], s)"
| "mq_session mq (Put b # ops) s = do {
     (e, s) \<leftarrow> rt_mq_send mq (Some b) s;
     RT_ASSERT (e = RT_EOK \<or> e = - RT_EFULL);
     (rs, s) \<leftarrow> mq_session mq ops s;
     Some ((if e = RT_EOK then Accepted else Refused) # rs, s) }"
| "mq_session mq (Get # ops) s = do {
     (r, s) \<leftarrow> rt_mq_recv mq True (unat (mq_msg_size (mqs s mq))) 0 s;
     a \<leftarrow> (case r of Done (e, Some b) \<Rightarrow> if e = RT_EOK then Some (Got b) else None
       | Done (e, None) \<Rightarrow> if e = - RT_ETIMEOUT then Some Nothing else None | Blocked w \<Rightarrow> None);
     (rs, s) \<leftarrow> mq_session mq ops s;
     Some (a # rs, s) }"

lemma rt_mq_send_idle:
  assumes "ipc_obj RT_Object_Class_MessageQueue mq s" "tlists s (WaitQ mq) = []" "b \<noteq> []" "length b \<le> unat (mq_msg_size (mqs s mq))"
  shows "rt_mq_send mq (Some b) s = (case mq_push b (mqs s mq) of Some m \<Rightarrow> Some (RT_EOK, upd_mq mq (\<lambda>_. m) s) | None \<Rightarrow> Some (- RT_EFULL, s))"
  using assms by (simp add: rt_mq_send_def wake_one_def split: option.splits)

lemma rt_mq_recv_idle:
  assumes "ipc_obj RT_Object_Class_MessageQueue mq s" "mq_msg_size (mqs s mq) \<noteq> 0" "mq_ok (mqs s mq)"
  shows "rt_mq_recv mq True (unat (mq_msg_size (mqs s mq))) 0 s = (case mq_fetch (mqs s mq) of Some (b, m) \<Rightarrow> Some (Done (RT_EOK, Some b), upd_mq mq (\<lambda>_. m) s)
    | None \<Rightarrow> Some (Done (- RT_ETIMEOUT, None), s))"
proof (cases "mq_entry (mqs s mq) = 0")
  case True
  then show ?thesis using assms(1,2) by (simp add: rt_mq_recv_def mq_fetch_def unat_eq_0)
next
  case False
  then have "unat (mq_entry (mqs s mq)) \<noteq> 0" by (simp add: unat_eq_0)
  then have "length (mq_contents (mqs s mq)) \<noteq> 0" using mq_entry_contents [OF assms(3)] by simp
  then obtain x xs where "mq_contents (mqs s mq) = x # xs" by (cases "mq_contents (mqs s mq)") auto
  then obtain b m' where "mq_pop (unat (mq_msg_size (mqs s mq))) (mqs s mq) = Some (b, m')" using mq_ok_pop [OF assms(3)] by metis
  then show ?thesis using assms(1,2) False by (simp add: rt_mq_recv_def mq_recv_loop_def mq_fetch_def unat_eq_0)
qed

lemma mq_ops_ok:
  assumes m: "mq_ok m"
  shows "whole_message b m \<Longrightarrow> mq_push b m = Some m' \<Longrightarrow> mq_ok m' \<and> mq_msg_size m' = mq_msg_size m"
    and "mq_fetch m = Some (b', m') \<Longrightarrow> mq_ok m' \<and> mq_msg_size m' = mq_msg_size m"
proof -
  obtain us fs where r: "mq_rep m us fs" using m by (auto simp: mq_ok_def)
  show "mq_ok m' \<and> mq_msg_size m' = mq_msg_size m" if "mq_push b m = Some m'"
  proof (cases fs)
    case Nil
    then show ?thesis using r that by (simp add: mq_rep_def mq_push_def mq_take_free_def)
  next
    case (Cons f gs)
    then show ?thesis using mq_push_rep [OF r [unfolded Cons], of b] that by (auto simp: mq_ok_def)
  qed
  show "mq_ok m' \<and> mq_msg_size m' = mq_msg_size m" if "mq_fetch m = Some (b', m')"
  proof (cases us)
    case Nil
    then show ?thesis using r that by (simp add: mq_rep_def mq_fetch_def unat_eq_0 split: if_splits)
  next
    case (Cons u vs)
    then show ?thesis using mq_pop_rep [OF r [unfolded Cons], of "unat (mq_msg_size m)"] that by (auto simp: mq_ok_def mq_fetch_def split: if_splits)
  qed
qed

lemma mq_session_eq:
  assumes "ipc_obj RT_Object_Class_MessageQueue mq s" "tlists s (WaitQ mq) = []" "mq_msg_size (mqs s mq) \<noteq> 0" "mq_ok (mqs s mq)"
    "\<And>b. Put b \<in> set ops \<Longrightarrow> whole_message b (mqs s mq)"
  shows "\<exists>s'. mq_session mq ops s = Some (fifo_session mq_push mq_fetch ops (mqs s mq), s') \<and> tlists s' = tlists s \<and> mq_ok (mqs s' mq)"
  using assms
proof (induction ops arbitrary: s)
  case (Cons op ops)
  have up: "ipc_obj RT_Object_Class_MessageQueue mq (upd_mq mq f s)" for f using Cons.prems(1) by (simp add: ipc_obj_def)
  have ih: "\<exists>s'. mq_session mq ops (upd_mq mq (\<lambda>_. m') s) = Some (fifo_session mq_push mq_fetch ops m', s') \<and> tlists s' = tlists s \<and> mq_ok (mqs s' mq)"
    if "mq_ok m'" "mq_msg_size m' = mq_msg_size (mqs s mq)" for m'
    using Cons.IH [of "upd_mq mq (\<lambda>_. m') s"] up Cons.prems that by (simp add: whole_message_def)
  have ih0: "\<exists>s'. mq_session mq ops s = Some (fifo_session mq_push mq_fetch ops (mqs s mq), s') \<and> tlists s' = tlists s \<and> mq_ok (mqs s' mq)"
    using Cons by simp
  show ?case
  proof (cases op)
    case (Put b)
    then have wb: "whole_message b (mqs s mq)" using Cons.prems(5) by simp
    then have b: "b \<noteq> []" "length b \<le> unat (mq_msg_size (mqs s mq))" using Cons.prems(3) by (auto simp: whole_message_def unat_eq_0)
    show ?thesis
    proof (cases "mq_push b (mqs s mq)")
      case None
      then show ?thesis using Put ih0 rt_mq_send_idle [OF Cons.prems(1,2) b] by auto
    next
      case (Some m')
      then show ?thesis using Put ih [of m'] mq_ops_ok(1) [OF Cons.prems(4) wb Some] rt_mq_send_idle [OF Cons.prems(1,2) b] by auto
    qed
  next
    case Get
    show ?thesis
    proof (cases "mq_fetch (mqs s mq)")
      case None
      then show ?thesis using Get ih0 rt_mq_recv_idle [OF Cons.prems(1,3,4)] by auto
    next
      case (Some p)
      obtain b m' where p: "p = (b, m')" by (cases p)
      then show ?thesis using Get Some ih [of m'] mq_ops_ok(2) [OF Cons.prems(4)] rt_mq_recv_idle [OF Cons.prems(1,3,4)] by auto
    qed
  qed
qed simp

text \<open>
  C5. A message queue is a first-in first-out queue of \<^verbatim>\<open>max_msgs\<close> messages: any session of \<^verbatim>\<open>rt_mq_send\<close> and non-blocking
  \<^verbatim>\<open>rt_mq_recv\<close> of whole messages gives, call by call, the answers of a list bounded by \<^verbatim>\<open>max_msgs\<close>, byte for byte, and
  keeps the two lists of nodes well formed.
\<close>

theorem rt_mq_session_refines:
  assumes "ipc_obj RT_Object_Class_MessageQueue mq s" "tlists s (WaitQ mq) = []" "mq_msg_size (mqs s mq) \<noteq> 0" "mq_ok (mqs s mq)"
    and "\<And>b. Put b \<in> set ops \<Longrightarrow> length b = unat (mq_msg_size (mqs s mq))"
  shows "\<exists>s'. mq_session mq ops s = Some (list_session (unat (mq_max_msgs (mqs s mq))) ops (mq_contents (mqs s mq)), s') \<and>
    mq_ok (mqs s' mq) \<and> tlists s' = tlists s"
proof -
  have w: "whole_message b (mqs s mq)" if "Put b \<in> set ops" for b using assms(5) that by (simp add: whole_message_def)
  show ?thesis using mq_session_eq [OF assms(1-4) w] mq_fifo.session_refines [OF assms(4) w] by auto
qed

definition mq_demo :: "unit kernel" where
  "mq_demo = upd_mq 8 (\<lambda>_. mq_demo_mq) (ipc_demo RT_Object_Class_MessageQueue)"

lemma mq_demo_view:
  "ipc_obj RT_Object_Class_MessageQueue 8 mq_demo" "tlists mq_demo (WaitQ 8) = []" "mqs mq_demo 8 = mq_demo_mq"
  "mq_msg_size mq_demo_mq = 4" "mq_max_msgs mq_demo_mq = 2"
  by (simp_all add: mq_demo_def ipc_obj_def ipc_demo_view) (simp_all add: mq_demo_mq_def mq_init_lists_def Let_def)

lemma mq_demo_rep: "mq_rep mq_demo_mq [] [108, 100]"
proof -
  have two: "mq_init_pool 2 m = mq_init_pool (Suc (Suc 0)) m" for m by (simp only: numeral_2_eq_2)
  show ?thesis by (simp add: mq_demo_mq_def mq_init_lists_def mq_rep_def zero_mq_def msg_header_def Let_def two)
qed

theorem rt_mq_session_refines_witness:
  "\<exists>s'. mq_session 8 [Put [1, 2, 3, 4], Put [5, 6, 7, 8], Put [9, 9, 9, 9], Get, Get, Get] mq_demo =
     Some ([Accepted, Accepted, Refused, Got [1, 2, 3, 4], Got [5, 6, 7, 8], Nothing], s')"
proof -
  have "mq_ok mq_demo_mq" "mq_contents mq_demo_mq = []" using mq_demo_rep mq_contents_rep [OF mq_demo_rep] by (auto simp: mq_ok_def)
  moreover have "length b = unat (mq_msg_size (mqs mq_demo 8))"
    if "Put b \<in> set [Put [1, 2, 3, 4], Put [5, 6, 7, 8], Put [9, 9, 9, 9], Get, Get, Get]" for b :: "u8 list"
    using that by (auto simp: mq_demo_view(3,4))
  ultimately show ?thesis
    using rt_mq_session_refines [OF mq_demo_view(1,2), of "[Put [1, 2, 3, 4], Put [5, 6, 7, 8], Put [9, 9, 9, 9], Get, Get, Get]"]
    by (simp add: mq_demo_view(3-5) del: mq_session.simps) blast
qed

text \<open>
  \<^verbatim>\<open>rt_mq_urgent\<close> puts a message in front: with a node free it returns \<^verbatim>\<open>RT_EOK\<close>, the next \<^verbatim>\<open>rt_mq_recv\<close> of that many bytes
  returns exactly the message, however short it is, and what was queued before is queued as before.
\<close>

theorem rt_mq_urgent_first:
  assumes o: "ipc_obj RT_Object_Class_MessageQueue mq s" "tlists s (WaitQ mq) = []" and m: "mq_ok (mqs s mq)"
    and room: "length (mq_contents (mqs s mq)) < unat (mq_max_msgs (mqs s mq))" and b: "b \<noteq> []" "length b \<le> unat (mq_msg_size (mqs s mq))"
  shows "\<exists>s1 s2. rt_mq_urgent mq (Some b) s = Some (RT_EOK, s1) \<and> rt_mq_recv mq True (length b) 0 s1 = Some (Done (RT_EOK, Some b), s2) \<and>
    mq_contents (mqs s2 mq) = mq_contents (mqs s mq) \<and> mq_ok (mqs s2 mq)"
proof -
  let ?m = "mqs s mq"
  obtain us fs where r: "mq_rep ?m us fs" using m by (auto simp: mq_ok_def)
  then obtain f gs where fs: "fs = f # gs" using room mq_contents_rep [OF r] by (cases fs) (auto simp: mq_rep_def)
  have fr: "f \<notin> set us" using r fs by (auto simp: mq_rep_def)
  obtain m' where m': "mq_push_front b ?m = Some m'" "mq_rep m' (f # us) gs" "mq_msg_size m' = mq_msg_size ?m" "mq_max_msgs m' = mq_max_msgs ?m"
    "\<forall>p n. mq_read p n m' = mq_read p n (stored b f ?m)" using mq_push_front_rep [OF r [unfolded fs]] by blast
  have c: "mq_contents m' = (b @ map (mq_data ?m f) [length b..<unat (mq_msg_size ?m)]) # mq_contents ?m"
    using mq_contents_rep [OF m'(2)] mq_contents_rep [OF r] read_other [OF fr m'(5)] m'(3,5) mq_read_stored [OF b(2)] by simp
  have ok: "mq_ok m'" using m'(2) by (auto simp: mq_ok_def)
  obtain m'' where m'': "mq_pop (length b) m' = Some (b, m'')" "mq_ok m''" "mq_contents m'' = mq_contents ?m"
    using mq_ok_pop [OF ok c, of "length b"] by auto
  have "mq_entry m' \<noteq> 0" using mq_entry_contents [OF ok] c by auto
  then have "rt_mq_recv mq True (length b) 0 (upd_mq mq (\<lambda>_. m') s) = Some (Done (RT_EOK, Some b), upd_mq mq (\<lambda>_. m'') (upd_mq mq (\<lambda>_. m') s))"
    using o(1) b(1) m''(1) by (simp add: rt_mq_recv_def mq_recv_loop_def Let_def ipc_obj_def)
  moreover have "rt_mq_urgent mq (Some b) s = Some (RT_EOK, upd_mq mq (\<lambda>_. m') s)"
    using o b m'(1) by (simp add: rt_mq_urgent_def wake_one_def)
  ultimately show ?thesis using m''(2,3) by auto
qed

theorem rt_mq_urgent_first_witness:
  "\<exists>s1 s2. rt_mq_urgent 8 (Some [7, 8]) mq_demo = Some (RT_EOK, s1) \<and> rt_mq_recv 8 True 2 0 s1 = Some (Done (RT_EOK, Some [7, 8]), s2)"
proof -
  have "mq_ok mq_demo_mq" "mq_contents mq_demo_mq = []" using mq_demo_rep mq_contents_rep [OF mq_demo_rep] by (auto simp: mq_ok_def)
  moreover have "length [7 :: u8, 8] = 2" by simp
  ultimately show ?thesis using rt_mq_urgent_first [OF mq_demo_view(1,2), of "[7, 8]"] unfolding \<open>length [7, 8] = 2\<close>
    by (auto simp: mq_demo_view(3-5))
qed

interpretation mq_close: ipc_detach RT_Object_Class_MessageQueue rt_mq_detach
  by unfold_locales (simp add: rt_mq_detach_def rt_object_is_systemobject_def ipc_obj_def)

end
