(* ===== verification/RT_Alloc.thy ===== *)
theory RT_Alloc
  imports RT_Prelude
begin

text \<open>
  The interface of an allocator of equal blocks. The locale \<open>block_allocator\<close> says what taking and giving back a
  block do to the set of blocks in use; in it, any session is shown to hand out blocks that are not in use, and to
  refuse exactly when all are.
\<close>

section \<open>Sessions\<close>

text \<open>A client takes a block, or gives back the \<open>n\<close>-th of the blocks it holds.\<close>

datatype block_op = Take | Give nat

datatype block_res = Taken nat | No_Block | Given

text \<open>The blocks held afterwards, with the answers; \<open>None\<close> when an operation on a block that is held fails.\<close>

fun block_session :: "('s \<Rightarrow> (nat option \<times> 's) option) \<Rightarrow> (nat \<Rightarrow> 's \<Rightarrow> 's option) \<Rightarrow> block_op list \<Rightarrow> nat list \<Rightarrow> 's \<Rightarrow>
    (block_res list \<times> nat list \<times> 's) option" where
  "block_session tk gv [] held s = Some ([], held, s)"
| "block_session tk gv (Take # ops) held s =
     (case tk s of
        Some (Some p, s) \<Rightarrow> map_option (\<lambda>(rs, r). (Taken p # rs, r)) (block_session tk gv ops (held @ [p]) s)
      | Some (None, s) \<Rightarrow> map_option (\<lambda>(rs, r). (No_Block # rs, r)) (block_session tk gv ops held s)
      | None \<Rightarrow> None)"
| "block_session tk gv (Give n # ops) held s =
     (if n < length held then
        (case gv (held ! n) s of
           Some s \<Rightarrow> map_option (\<lambda>(rs, r). (Given # rs, r)) (block_session tk gv ops (take n held @ drop (Suc n) held) s)
         | None \<Rightarrow> None)
      else block_session tk gv ops held s)"

text \<open>The number of blocks in use after each answer of a counter, and whether it may refuse.\<close>

fun counts_ok :: "nat \<Rightarrow> nat \<Rightarrow> block_res list \<Rightarrow> bool" where
  "counts_ok cap n [] \<longleftrightarrow> True"
| "counts_ok cap n (Taken p # rs) \<longleftrightarrow> n < cap \<and> counts_ok cap (Suc n) rs"
| "counts_ok cap n (No_Block # rs) \<longleftrightarrow> n = cap \<and> counts_ok cap n rs"
| "counts_ok cap n (Given # rs) \<longleftrightarrow> 0 < n \<and> counts_ok cap (n - 1) rs"

section \<open>The interface\<close>

locale block_allocator =
  fixes inv :: "'s \<Rightarrow> nat set \<Rightarrow> bool" and cap :: "'s \<Rightarrow> nat"
    and take_block :: "'s \<Rightarrow> (nat option \<times> 's) option" and give_block :: "nat \<Rightarrow> 's \<Rightarrow> 's option"
  assumes bounded: "inv s A \<Longrightarrow> finite A \<and> card A \<le> cap s"
    and take_room: "inv s A \<Longrightarrow> card A < cap s \<Longrightarrow>
      \<exists>p s'. take_block s = Some (Some p, s') \<and> p \<notin> A \<and> inv s' (insert p A) \<and> cap s' = cap s"
    and take_full: "inv s A \<Longrightarrow> card A = cap s \<Longrightarrow> \<exists>s'. take_block s = Some (None, s') \<and> inv s' A \<and> cap s' = cap s"
    and give_back: "inv s A \<Longrightarrow> p \<in> A \<Longrightarrow> \<exists>s'. give_block p s = Some s' \<and> inv s' (A - {p}) \<and> cap s' = cap s"
begin

lemma session_distinct:
  assumes "inv s (set held)" "distinct held"
  shows "\<exists>rs held' s'. block_session take_block give_block ops held s = Some (rs, held', s') \<and> distinct held' \<and>
    inv s' (set held') \<and> cap s' = cap s \<and> counts_ok (cap s) (length held) rs"
  using assms
proof (induction ops arbitrary: held s)
  case (Cons op ops)
  have b: "length held \<le> cap s" using bounded [OF Cons.prems(1)] distinct_card [OF Cons.prems(2)] by simp
  show ?case
  proof (cases op)
    case Take
    show ?thesis
    proof (cases "length held < cap s")
      case True
      then obtain p s1 where p: "take_block s = Some (Some p, s1)" "p \<notin> set held" "inv s1 (insert p (set held))" "cap s1 = cap s"
        using take_room [OF Cons.prems(1)] distinct_card [OF Cons.prems(2)] by auto
      have "inv s1 (set (held @ [p]))" "distinct (held @ [p])" using p Cons.prems(2) by simp_all
      from Cons.IH [OF this] show ?thesis using Take p True by (auto simp: eval_nat_numeral)
    next
      case False
      then obtain s1 where p: "take_block s = Some (None, s1)" "inv s1 (set held)" "cap s1 = cap s"
        using take_full [OF Cons.prems(1)] distinct_card [OF Cons.prems(2)] b by auto
      from Cons.IH [OF p(2) Cons.prems(2)] show ?thesis using Take p False b by auto
    qed
  next
    case (Give n)
    show ?thesis
    proof (cases "n < length held")
      case True
      let ?h = "take n held @ drop (Suc n) held"
      have split: "held = take n held @ held ! n # drop (Suc n) held" using True by (simp add: id_take_nth_drop)
      have d: "distinct ?h \<and> held ! n \<notin> set ?h \<and> set held = insert (held ! n) (set ?h)"
        using Cons.prems(2) by (subst (asm) split, subst (5) split) auto
      have S: "set held - {held ! n} = set ?h" using d by auto
      obtain s1 where p: "give_block (held ! n) s = Some s1" "inv s1 (set ?h)" "cap s1 = cap s"
        using give_back [OF Cons.prems(1), of "held ! n"] True S by auto
      have l: "length ?h = length held - 1" using True by simp
      from Cons.IH [OF p(2)] d show ?thesis using Give p True l by auto
    next
      case False
      then show ?thesis using Give Cons.IH [OF Cons.prems] by simp
    qed
  qed
qed simp

end

end
