(* ===== verification/RT_Mempool.thy ===== *)
theory RT_Mempool
  imports RT_Ipc RT_Alloc
begin

text \<open>
  Memory pools of \<^verbatim>\<open>src/mempool.c\<close>: blocks of one size, each behind a header word. The header of a free block links it
  to the next free block, that of an allocated one points to its pool. A thread may wait for a block.
\<close>

section \<open>Operations\<close>

definition upd_mp :: "ptr \<Rightarrow> (rt_mempool \<Rightarrow> rt_mempool) \<Rightarrow> 'h kernel \<Rightarrow> 'h kernel" where
  "upd_mp mp f s = s\<lparr>mempools := (mempools s)(mp := f (mempools s mp))\<rparr>"

text \<open>The size of a header, \<^verbatim>\<open>sizeof(rt_uint8_t *)\<close>, and the address of a block's header.\<close>

definition mp_header :: nat where
  "mp_header = 4"

definition mp_block :: "rt_mempool \<Rightarrow> nat \<Rightarrow> ptr" where
  "mp_block m k = mp_start_address m + k * (unat (mp_block_size m) + mp_header)"

text \<open>
  The loop that links the blocks, and the last header. A pool without a single block would have a null pointer written in front of it.
\<close>

primrec mp_link_blocks :: "nat \<Rightarrow> rt_mempool \<Rightarrow> (ptr \<Rightarrow> ptr) \<Rightarrow> (ptr \<Rightarrow> ptr)" where
  "mp_link_blocks 0 m w = w"
| "mp_link_blocks (Suc offset) m w = (mp_link_blocks offset m w)(mp_block m offset := mp_block m (offset + 1))"

definition mp_init_blocks :: "ptr \<Rightarrow> 'h kernel \<Rightarrow> 'h kernel option" where
  "mp_init_blocks mp s = do {
     let m = mempools s mp;
     let n = unat (mp_block_total_count m);
     let w = mp_link_blocks n m (pool_mem s);
     mem_ok (n > 0);
     let w = w(mp_block m (n - 1) := RT_NULL);
     Some (upd_mp mp (\<lambda>m. m\<lparr>mp_block_list := mp_start_address m\<rparr>) (s\<lparr>pool_mem := w\<rparr>)) }"

definition mp_list_init :: "ptr \<Rightarrow> 'h kernel \<Rightarrow> 'h kernel option" where
  "mp_list_init mp s = do {
     mem_ok (tlists s (WaitQ mp) = []);
     Some (upd_mp mp (\<lambda>m. m\<lparr>mp_suspend_thread_count := 0\<rparr>) (init_queue (WaitQ mp) s)) }"

definition rt_mp_init :: "ptr \<Rightarrow> string \<Rightarrow> ptr \<Rightarrow> u32 \<Rightarrow> u32 \<Rightarrow> 'h kernel \<Rightarrow> (rt_err_t \<times> 'h kernel) option" where
  "rt_mp_init mp name start pool_size block_size s = do {
     RT_ASSERT (mp \<noteq> RT_NULL);
     s \<leftarrow> rt_object_init (Obj mp) RT_Object_Class_MemPool name s;
     let s = upd_mp mp (\<lambda>m. m\<lparr>mp_start_address := start, mp_size := rt_align_down4 pool_size\<rparr>) s;
     let block_size = rt_align4 block_size;
     let s = upd_mp mp (\<lambda>m. m\<lparr>mp_block_size := block_size\<rparr>) s;
     mem_ok (block_size + of_nat mp_header \<noteq> 0);
     let s = upd_mp mp (\<lambda>m. m\<lparr>mp_block_total_count := mp_size m div (mp_block_size m + of_nat mp_header)\<rparr>) s;
     let s = upd_mp mp (\<lambda>m. m\<lparr>mp_block_free_count := mp_block_total_count m\<rparr>) s;
     s \<leftarrow> mp_list_init mp s;
     s \<leftarrow> mp_init_blocks mp s;
     Some (RT_EOK, s) }"

text \<open>The loop of \<^verbatim>\<open>rt_mp_detach\<close> and \<^verbatim>\<open>rt_mp_delete\<close> that wakes all waiting threads, one unit of fuel per thread.\<close>

fun mp_wake_loop :: "nat \<Rightarrow> ptr \<Rightarrow> 'h kernel \<Rightarrow> 'h kernel option" where
  "mp_wake_loop 0 mp s = None"
| "mp_wake_loop (Suc fuel) mp s =
     (if tlists s (WaitQ mp) = [] then Some s
      else do {
        let thread = hd (tlists s (WaitQ mp));
        let s = set_error thread (- RT_ERROR) s;
        (_, s) \<leftarrow> rt_thread_resume thread s;
        let s = upd_mp mp (\<lambda>m. m\<lparr>mp_suspend_thread_count := mp_suspend_thread_count m - 1\<rparr>) s;
        mp_wake_loop fuel mp s })"

definition mp_wake_all :: "ptr \<Rightarrow> 'h kernel \<Rightarrow> 'h kernel option" where
  "mp_wake_all mp s = mp_wake_loop (Suc (length (tlists s (WaitQ mp)))) mp s"

definition rt_mp_detach :: "ptr \<Rightarrow> 'h kernel \<Rightarrow> (rt_err_t \<times> 'h kernel) option" where
  "rt_mp_detach mp s = do {
     ipc_check mp RT_Object_Class_MemPool s;
     sys \<leftarrow> rt_object_is_systemobject (Obj mp) s;
     RT_ASSERT sys;
     s \<leftarrow> mp_wake_all mp s;
     s \<leftarrow> rt_object_detach (Obj mp) s;
     Some (RT_EOK, s) }"

definition rt_mp_create :: "'h heap_ops \<Rightarrow> string \<Rightarrow> u32 \<Rightarrow> u32 \<Rightarrow> 'h kernel \<Rightarrow> (ptr \<times> 'h kernel) option" where
  "rt_mp_create H name block_count block_size s = do {
     RT_ASSERT (not_in_interrupt s);
     (mp, s) \<leftarrow> rt_object_allocate H RT_Object_Class_MemPool name s;
     if mp = RT_NULL then Some (RT_NULL, s)
     else do {
       let block_size = rt_align4 block_size;
       let s = upd_mp mp (\<lambda>m. m\<lparr>mp_block_size := block_size, mp_size := (block_size + of_nat mp_header) * block_count\<rparr>) s;
       (start, h) \<leftarrow> kmalloc H (heap s) (unat ((block_size + of_nat mp_header) * block_count));
       let s = s\<lparr>heap := h\<rparr>;
       let s = upd_mp mp (\<lambda>m. m\<lparr>mp_start_address := start\<rparr>) s;
       if start = RT_NULL then do {
         s \<leftarrow> rt_object_delete H mp s;
         Some (RT_NULL, s) }
       else do {
         let s = upd_mp mp (\<lambda>m. m\<lparr>mp_block_total_count := block_count, mp_block_free_count := block_count\<rparr>) s;
         s \<leftarrow> mp_list_init mp s;
         s \<leftarrow> mp_init_blocks mp s;
         Some (mp, s) } } }"

definition rt_mp_delete :: "'h heap_ops \<Rightarrow> ptr \<Rightarrow> 'h kernel \<Rightarrow> (rt_err_t \<times> 'h kernel) option" where
  "rt_mp_delete H mp s = do {
     RT_ASSERT (not_in_interrupt s);
     ipc_check mp RT_Object_Class_MemPool s;
     sys \<leftarrow> rt_object_is_systemobject (Obj mp) s;
     RT_ASSERT (\<not> sys);
     s \<leftarrow> mp_wake_all mp s;
     h \<leftarrow> kfree H (heap s) (mp_start_address (mempools s mp));
     s \<leftarrow> rt_object_delete H mp (s\<lparr>heap := h\<rparr>);
     Some (RT_EOK, s) }"

text \<open>Taking the first free block: the address behind its header is returned.\<close>

definition mp_take_block :: "ptr \<Rightarrow> 'h kernel \<Rightarrow> (ptr \<times> 'h kernel) option" where
  "mp_take_block mp s = do {
     let s = upd_mp mp (\<lambda>m. m\<lparr>mp_block_free_count := mp_block_free_count m - 1\<rparr>) s;
     let block_ptr = mp_block_list (mempools s mp);
     RT_ASSERT (block_ptr \<noteq> RT_NULL);
     let s = upd_mp mp (\<lambda>m. m\<lparr>mp_block_list := pool_mem s block_ptr\<rparr>) s;
     let s = s\<lparr>pool_mem := (pool_mem s)(block_ptr := mp)\<rparr>;
     Some (block_ptr + mp_header, s) }"

text \<open>The suspension in the loop of \<^verbatim>\<open>rt_mp_alloc\<close>: the thread is put in front of the threads that wait already.\<close>

definition mp_wait :: "ptr \<Rightarrow> ptr \<Rightarrow> int \<Rightarrow> 'h kernel \<Rightarrow> (waiting \<times> 'h kernel) option" where
  "mp_wait mp thread time s = do {
     RT_ASSERT (not_in_interrupt s);
     let s = set_error thread RT_EOK s;
     (_, s) \<leftarrow> rt_thread_suspend thread s;
     s \<leftarrow> link_front (WaitQ mp) thread s;
     let s = upd_mp mp (\<lambda>m. m\<lparr>mp_suspend_thread_count := mp_suspend_thread_count m + 1\<rparr>) s;
     let before_sleep = (if time > 0 then rt_tick_get s else 0);
     s \<leftarrow> start_wait_timer thread time s;
     s \<leftarrow> rt_schedule s;
     Some ((thread, time, before_sleep), s) }"

definition mp_alloc_loop :: "ptr \<Rightarrow> ptr \<Rightarrow> int \<Rightarrow> 'h kernel \<Rightarrow> ((ptr, waiting) outcome \<times> 'h kernel) option" where
  "mp_alloc_loop mp thread time s =
    (if mp_block_free_count (mempools s mp) = 0 then
       (if time = 0 then Some (Done RT_NULL, rt_set_errno (- RT_ETIMEOUT) s)
        else do {
          (w, s) \<leftarrow> mp_wait mp thread time s;
          Some (Blocked w, s) })
     else do {
       (p, s) \<leftarrow> mp_take_block mp s;
       Some (Done p, s) })"

definition rt_mp_alloc :: "ptr \<Rightarrow> int \<Rightarrow> 'h kernel \<Rightarrow> ((ptr, waiting) outcome \<times> 'h kernel) option" where
  "rt_mp_alloc mp time s = mp_alloc_loop mp (rt_thread_self s) time s"

definition rt_mp_alloc_resume :: "ptr \<Rightarrow> waiting \<Rightarrow> 'h kernel \<Rightarrow> ((ptr, waiting) outcome \<times> 'h kernel) option" where
  "rt_mp_alloc_resume mp w s =
    (case w of (thread, time, before_sleep) \<Rightarrow>
     if terror s thread \<noteq> RT_EOK then Some (Done RT_NULL, s)
     else mp_alloc_loop mp thread (remaining_timeout time before_sleep s) s)"

text \<open>The pool is found through the header. The list of waiting threads is trusted to be as long as its count.\<close>

definition rt_mp_free :: "ptr \<Rightarrow> 'h kernel \<Rightarrow> 'h kernel option" where
  "rt_mp_free block s = do {
     mem_ok (mp_header \<le> block);
     let block_ptr = block - mp_header;
     let mp = pool_mem s block_ptr;
     let s = upd_mp mp (\<lambda>m. m\<lparr>mp_block_free_count := mp_block_free_count m + 1\<rparr>) s;
     let s = s\<lparr>pool_mem := (pool_mem s)(block_ptr := mp_block_list (mempools s mp))\<rparr>;
     let s = upd_mp mp (\<lambda>m. m\<lparr>mp_block_list := block_ptr\<rparr>) s;
     if mp_suspend_thread_count (mempools s mp) > 0 then do {
       mem_ok (tlists s (WaitQ mp) \<noteq> []);
       let thread = hd (tlists s (WaitQ mp));
       let s = set_error thread RT_EOK s;
       (_, s) \<leftarrow> rt_thread_resume thread s;
       let s = upd_mp mp (\<lambda>m. m\<lparr>mp_suspend_thread_count := mp_suspend_thread_count m - 1\<rparr>) s;
       rt_schedule s }
     else Some s }"

section \<open>The scheduler invariant\<close>

lemma swf_upd_mp [simp]: "swf X (upd_mp mp f s) = swf X s"
  by (simp add: upd_mp_def)

lemma upd_mp_frame [simp]:
  "tlists (upd_mp m f s) = tlists s" "threads (upd_mp m f s) = threads s" "cur (upd_mp m f s) = cur s" "objs (upd_mp m f s) = objs s"
  "lock_nest (upd_mp m f s) = lock_nest s" "intr_nest (upd_mp m f s) = intr_nest s" "ready_group (upd_mp m f s) = ready_group s"
  "tstat (upd_mp m f s) t = tstat s t" "tprio (upd_mp m f s) t = tprio s t" "terror (upd_mp m f s) t = terror s t"
  "mempools (upd_mp m f s) = (mempools s)(m := f (mempools s m))" "pool_mem (upd_mp m f s) = pool_mem s" "heap (upd_mp m f s) = heap s"
  "ticks (upd_mp m f s) = ticks s"
  by (simp_all add: upd_mp_def tstat_def tprio_def terror_def)

lemma pool_mem_frame [simp]:
  "tstat (s\<lparr>pool_mem := w\<rparr>) t = tstat s t" "tprio (s\<lparr>pool_mem := w\<rparr>) t = tprio s t" "terror (s\<lparr>pool_mem := w\<rparr>) t = terror s t"
  by (simp_all add: tstat_def tprio_def terror_def)

lemma swf_mp_list_init: "mp_list_init mp s = Some s' \<Longrightarrow> swf X s' = swf X s"
  by (auto simp: mp_list_init_def bind_eq_Some_conv swf_init_queue)

lemma swf_mp_init_blocks: "mp_init_blocks mp s = Some s' \<Longrightarrow> swf X s' = swf X s"
  by (auto simp: mp_init_blocks_def Let_def bind_eq_Some_conv)

lemma swf_rt_mp_init: "swf {} s \<Longrightarrow> rt_mp_init mp name st sz bs s = Some (e, s') \<Longrightarrow> swf {} s'"
  by (auto simp: rt_mp_init_def Let_def bind_eq_Some_conv swf_mp_list_init swf_mp_init_blocks swf_rt_object_init)

lemma swf_mp_wake_loop: "swf {} s \<Longrightarrow> mp_wake_loop fuel mp s = Some s' \<Longrightarrow> swf {} s'"
proof (induction fuel arbitrary: s)
  case (Suc fuel)
  show ?case
  proof (cases "tlists s (WaitQ mp)")
    case Nil
    then show ?thesis using Suc.prems by simp
  next
    case (Cons t ts)
    obtain e u where u: "rt_thread_resume t (set_error t (- 1) s) = Some (e, u)"
      "mp_wake_loop fuel mp (upd_mp mp (\<lambda>m. m\<lparr>mp_suspend_thread_count := mp_suspend_thread_count m - 1\<rparr>) u) = Some s'"
      using Suc.prems(2) Cons by (auto simp: Let_def bind_eq_Some_conv)
    have "swf {} u" using swf_rt_thread_resume [OF _ u(1)] Suc.prems(1) by simp
    then show ?thesis using Suc.IH [OF _ u(2)] by simp
  qed
qed simp

lemma swf_mp_wake_all: "swf {} s \<Longrightarrow> mp_wake_all mp s = Some s' \<Longrightarrow> swf {} s'"
  unfolding mp_wake_all_def by (rule swf_mp_wake_loop)

lemma swf_rt_mp_detach: "swf {} s \<Longrightarrow> rt_mp_detach mp s = Some (e, s') \<Longrightarrow> swf {} s'"
  by (auto simp: rt_mp_detach_def bind_eq_Some_conv obj_onlyD(21) [OF rt_object_detach_obj_only] swf_mp_wake_all)

lemma swf_rt_mp_delete: "swf {} s \<Longrightarrow> rt_mp_delete H mp s = Some (e, s') \<Longrightarrow> swf {} s'"
  by (auto simp: rt_mp_delete_def bind_eq_Some_conv obj_onlyD(21) [OF rt_object_delete_obj_only] swf_mp_wake_all)

lemma swf_rt_mp_create:
  assumes s: "swf {} s" and r: "rt_mp_create H name n bs s = Some (p, s')"
  shows "swf {} s'"
proof -
  obtain mp u where u: "rt_object_allocate H RT_Object_Class_MemPool name s = Some (mp, u)"
    using r by (auto simp: rt_mp_create_def bind_eq_Some_conv)
  have "swf {} u" using swf_rt_object_allocate [OF s u] .
  then show ?thesis
    using r u by (auto simp: rt_mp_create_def Let_def bind_eq_Some_conv swf_mp_list_init swf_mp_init_blocks
        obj_onlyD(21) [OF rt_object_delete_obj_only] split: if_splits)
qed

lemma swf_mp_take_block: "mp_take_block mp s = Some (p, s') \<Longrightarrow> swf X s' = swf X s"
  by (auto simp: mp_take_block_def Let_def bind_eq_Some_conv)

lemma swf_link_front_wait:
  assumes s: "swf {} s" and t: "tstat s t = 2" "t \<noteq> 0" and l: "link_front (WaitQ p) t s = Some s'"
  shows "swf {} s'"
proof -
  have free: "\<not> in_some_list t (tlists s)" and s': "s' = s\<lparr>tlists := (tlists s)(WaitQ p := t # tlists s (WaitQ p))\<rparr>"
    using l by (auto simp: link_front_eq lists_push_front_def)
  have "distinct (t # tlists s (WaitQ p))"
    using free disjoint_distinct [OF swf_disjoint [OF s], of "WaitQ p"] by (auto simp: in_some_list_def)
  then show ?thesis unfolding s' using t by (intro swf_link [OF s free]) auto
qed

lemma swf_mp_wait:
  assumes s: "swf {} s" "tstat s t = 3" and r: "mp_wait mp t time s = Some (w, s')"
  shows "swf {} s'"
proof -
  let ?s1 = "set_error t RT_EOK s"
  obtain e u v x where u: "rt_thread_suspend t ?s1 = Some (e, u)" "link_front (WaitQ mp) t u = Some v"
    "start_wait_timer t time (upd_mp mp (\<lambda>m. m\<lparr>mp_suspend_thread_count := mp_suspend_thread_count m + 1\<rparr>) v) = Some x" "rt_schedule x = Some s'"
    using r by (auto simp: mp_wait_def Let_def bind_eq_Some_conv)
  have su: "swf {} u" using swf_rt_thread_suspend [OF _ u(1)] s by simp
  have t0: "t \<noteq> 0" using u(1) by (auto simp: rt_thread_suspend_def bind_eq_Some_conv)
  have "tstat u t = 2"
    using u(1) s(2) by (cases rule: suspend_eq) (auto simp: obj_onlyD(18) [OF timer_obj_only(2)] tstat_set_stat)
  then have "swf {} v" using swf_link_front_wait [OF su _ t0 u(2)] by simp
  then have "swf {} x" using swf_start_wait_timer [OF u(3)] by simp
  then show ?thesis using u(4) by (rule swf_rt_schedule)
qed

lemma swf_rt_set_errno [simp]: "swf X (rt_set_errno e s) = swf X s"
  by (simp add: rt_set_errno_def)

lemma swf_mp_alloc_loop:
  assumes s: "swf {} s" "tstat s t = 3" and r: "mp_alloc_loop mp t time s = Some (e, s')"
  shows "swf {} s'"
  using r s(1) swf_mp_wait [OF s] by (auto simp: mp_alloc_loop_def bind_eq_Some_conv swf_mp_take_block split: if_splits)

lemma swf_rt_mp_alloc: "swf {} s \<Longrightarrow> tstat s (cur s) = 3 \<Longrightarrow> rt_mp_alloc mp time s = Some (e, s') \<Longrightarrow> swf {} s'"
  unfolding rt_mp_alloc_def rt_thread_self_def by (rule swf_mp_alloc_loop)

lemma swf_rt_mp_alloc_resume: "swf {} s \<Longrightarrow> tstat s (fst w) = 3 \<Longrightarrow> rt_mp_alloc_resume mp w s = Some (e, s') \<Longrightarrow> swf {} s'"
  by (auto simp: rt_mp_alloc_resume_def intro: swf_mp_alloc_loop split: if_splits prod.splits)

lemma swf_rt_mp_free:
  assumes s: "swf {} s" and r: "rt_mp_free p s = Some s'"
  shows "swf {} s'"
proof -
  have w: "swf {} s'" if "swf {} u" "rt_thread_resume t (set_error t RT_EOK u) = Some (e, v)"
    "rt_schedule (upd_mp mp f v) = Some s'" for u t e v mp f
    using swf_rt_thread_resume [OF _ that(2)] that(1) swf_rt_schedule [OF _ that(3)] by simp
  show ?thesis
    using r s by (auto simp: rt_mp_free_def Let_def bind_eq_Some_conv split: if_splits elim!: w [rotated])
qed

section \<open>The pool invariant\<close>

definition mp_blocks :: "rt_mempool \<Rightarrow> ptr set" where
  "mp_blocks m = mp_block m ` {..<unat (mp_block_total_count m)}"

text \<open>
  The free list holds distinct blocks of the pool, and as many as are counted; \<open>A\<close> are the addresses given out, one per remaining
  block, whose header points to the pool. No thread waits.
\<close>

definition mp_rep :: "ptr \<Rightarrow> 'h kernel \<Rightarrow> nat set \<Rightarrow> ptr list \<Rightarrow> bool" where
  "mp_rep mp s A fs \<longleftrightarrow>
    (let m = mempools s mp in
     chain (pool_mem s) (mp_block_list m) fs \<and> distinct fs \<and> set fs \<subseteq> mp_blocks m \<and> unat (mp_block_free_count m) = length fs \<and>
     A = (\<lambda>b. b + mp_header) ` (mp_blocks m - set fs) \<and> (\<forall>b \<in> mp_blocks m - set fs. pool_mem s b = mp) \<and> mp_start_address m \<noteq> RT_NULL)"

definition mp_inv :: "ptr \<Rightarrow> 'h kernel \<Rightarrow> nat set \<Rightarrow> bool" where
  "mp_inv mp s A \<longleftrightarrow> (\<exists>fs. mp_rep mp s A fs) \<and> mp_suspend_thread_count (mempools s mp) = 0"

definition mp_cap :: "ptr \<Rightarrow> 'h kernel \<Rightarrow> nat" where
  "mp_cap mp s = unat (mp_block_total_count (mempools s mp))"

lemma mp_block_inj: "mp_block m j = mp_block m k \<longleftrightarrow> j = k"
  by (simp add: mp_block_def mp_header_def)

lemma mp_blocks_card: "finite (mp_blocks m)" "card (mp_blocks m) = unat (mp_block_total_count m)"
  by (simp_all add: mp_blocks_def card_image inj_on_def mp_block_inj)

lemma mp_blocks_pos: "mp_start_address m \<noteq> 0 \<Longrightarrow> b \<in> mp_blocks m \<Longrightarrow> b \<noteq> 0"
  by (auto simp: mp_blocks_def mp_block_def)

lemma mp_rep_card:
  assumes "mp_rep mp s A fs"
  shows "finite A" "card A + length fs = mp_cap mp s"
proof -
  let ?B = "mp_blocks (mempools s mp)"
  have r: "A = (\<lambda>b. b + mp_header) ` (?B - set fs)" "set fs \<subseteq> ?B" "distinct fs" using assms by (simp_all add: mp_rep_def Let_def)
  show "finite A" using r mp_blocks_card by simp
  have "card A = card (?B - set fs)" using r by (simp add: card_image)
  then show "card A + length fs = mp_cap mp s"
    using r mp_blocks_card [of "mempools s mp"] card_mono [of ?B "set fs"] by (simp add: card_Diff_subset distinct_card mp_cap_def)
qed

text \<open>Taking and giving back on the representation; threads that wait play no part here.\<close>

lemma mp_take_rep:
  assumes r: "mp_rep mp s A (f # fs)"
  obtains s' where "mp_take_block mp s = Some (f + mp_header, s')" "mp_rep mp s' (insert (f + mp_header) A) fs" "f + mp_header \<notin> A"
    "mempools s' mp = (mempools s mp)\<lparr>mp_block_free_count := mp_block_free_count (mempools s mp) - 1, mp_block_list := pool_mem s f\<rparr>"
    "tlists s' = tlists s" "threads s' = threads s" "cur s' = cur s" "f \<noteq> 0"
proof -
  let ?m = "mempools s mp"
  have m: "mp_block_list ?m = f" "f \<noteq> 0" "chain (pool_mem s) (pool_mem s f) fs" "f \<notin> set fs" "distinct fs" "f \<in> mp_blocks ?m"
    "set fs \<subseteq> mp_blocks ?m" "unat (mp_block_free_count ?m) = Suc (length fs)" "A = (\<lambda>b. b + mp_header) ` (mp_blocks ?m - set (f # fs))"
    "\<forall>b \<in> mp_blocks ?m - set (f # fs). pool_mem s b = mp" "mp_start_address ?m \<noteq> 0"
    using r by (simp_all add: mp_rep_def Let_def)
  let ?n = "?m\<lparr>mp_block_free_count := mp_block_free_count ?m - 1, mp_block_list := pool_mem s f\<rparr>"
  let ?s = "s\<lparr>mempools := (mempools s)(mp := ?n), pool_mem := (pool_mem s)(f := mp)\<rparr>"
  have t: "mp_take_block mp s = Some (f + mp_header, ?s)"
    using m(1,2) by (simp add: mp_take_block_def upd_mp_def Let_def)
  have "mp_block_free_count ?m \<noteq> 0" using m(8) by auto
  then have c: "unat (mp_block_free_count ?m - 1) = length fs" using unat_minus_one [of "mp_block_free_count ?m"] m(8) by simp
  have B: "mp_blocks ?n = mp_blocks ?m" by (simp add: mp_blocks_def mp_block_def [abs_def])
  have i: "insert (f + mp_header) A = (\<lambda>b. b + mp_header) ` (mp_blocks ?m - set fs)"
    using m(4,6,9) by auto
  have "mp_rep mp ?s (insert (f + mp_header) A) fs"
    unfolding mp_rep_def Let_def using m c B i by auto
  moreover have "f + mp_header \<notin> A" using m(9) by auto
  ultimately show thesis using t m(2) by (intro that [of ?s]) simp_all
qed

text \<open>The pool after the block at \<open>p\<close> is linked in front of the free list.\<close>

definition mp_given :: "ptr \<Rightarrow> ptr \<Rightarrow> 'h kernel \<Rightarrow> 'h kernel" where
  "mp_given mp p s = upd_mp mp (\<lambda>m. m\<lparr>mp_block_free_count := mp_block_free_count m + 1, mp_block_list := p - mp_header\<rparr>)
     (s\<lparr>pool_mem := (pool_mem s)(p - mp_header := mp_block_list (mempools s mp))\<rparr>)"

lemma rt_mp_free_eq:
  assumes "mp_header \<le> p" "pool_mem s (p - mp_header) = mp"
  shows "rt_mp_free p s = (let s = mp_given mp p s in
    if mp_suspend_thread_count (mempools s mp) > 0 then do {
      mem_ok (tlists s (WaitQ mp) \<noteq> []);
      let thread = hd (tlists s (WaitQ mp));
      let s = set_error thread RT_EOK s;
      (_, s) \<leftarrow> rt_thread_resume thread s;
      let s = upd_mp mp (\<lambda>m. m\<lparr>mp_suspend_thread_count := mp_suspend_thread_count m - 1\<rparr>) s;
      rt_schedule s }
    else Some s)"
  using assms by (simp add: rt_mp_free_def mp_given_def upd_mp_def Let_def)

lemma mp_given_frame [simp]:
  "tlists (mp_given mp p s) = tlists s" "threads (mp_given mp p s) = threads s" "cur (mp_given mp p s) = cur s" "objs (mp_given mp p s) = objs s"
  "lock_nest (mp_given mp p s) = lock_nest s" "intr_nest (mp_given mp p s) = intr_nest s" "ready_group (mp_given mp p s) = ready_group s"
  "tstat (mp_given mp p s) t = tstat s t" "tprio (mp_given mp p s) t = tprio s t" "terror (mp_given mp p s) t = terror s t"
  "swf X (mp_given mp p s) = swf X s"
  "mempools (mp_given mp p s) = (mempools s)(mp := (mempools s mp)\<lparr>mp_block_free_count := mp_block_free_count (mempools s mp) + 1, mp_block_list := p - mp_header\<rparr>)"
  "pool_mem (mp_given mp p s) = (pool_mem s)(p - mp_header := mp_block_list (mempools s mp))"
  by (simp_all add: mp_given_def)

lemma mp_give_rep:
  assumes r: "mp_rep mp s A fs" and p: "p \<in> A"
  shows "p - mp_header \<in> mp_blocks (mempools s mp)" "pool_mem s (p - mp_header) = mp" "mp_header \<le> p" "p - mp_header + mp_header = p"
    "mp_rep mp (mp_given mp p s) (A - {p}) ((p - mp_header) # fs)"
proof -
  let ?m = "mempools s mp"
  have m: "chain (pool_mem s) (mp_block_list ?m) fs" "distinct fs" "set fs \<subseteq> mp_blocks ?m" "unat (mp_block_free_count ?m) = length fs"
    "A = (\<lambda>b. b + mp_header) ` (mp_blocks ?m - set fs)" "\<forall>b \<in> mp_blocks ?m - set fs. pool_mem s b = mp" "mp_start_address ?m \<noteq> 0"
    using r by (simp_all add: mp_rep_def Let_def)
  obtain b where b: "p = b + mp_header" "b \<in> mp_blocks ?m" "b \<notin> set fs" using p m(5) by auto
  let ?n = "?m\<lparr>mp_block_free_count := mp_block_free_count ?m + 1, mp_block_list := b\<rparr>"
  have "length (b # fs) \<le> unat (mp_block_total_count ?m)"
    using b m(2,3) mp_blocks_card [of ?m] card_mono [of "mp_blocks ?m" "set (b # fs)"] by (simp add: distinct_card)
  then have c: "unat (mp_block_free_count ?m + 1) = length (b # fs)"
    using m(4) unat_inc [of "mp_block_free_count ?m" "mp_block_total_count ?m"] by (simp add: word_less_nat_alt)
  have B: "mp_blocks ?n = mp_blocks ?m" by (simp add: mp_blocks_def mp_block_def [abs_def])
  have i: "A - {p} = (\<lambda>b. b + mp_header) ` (mp_blocks ?m - set (b # fs))" using m(5) b by auto
  have b0: "b \<noteq> 0" using mp_blocks_pos [OF m(7) b(2)] .
  have "mp_rep mp (mp_given mp p s) (A - {p}) (b # fs)"
    unfolding mp_rep_def Let_def using m b b0 B c i by auto
  then show "p - mp_header \<in> mp_blocks (mempools s mp)" "pool_mem s (p - mp_header) = mp" "mp_header \<le> p" "p - mp_header + mp_header = p"
    "mp_rep mp (mp_given mp p s) (A - {p}) ((p - mp_header) # fs)"
    using b m(6) by simp_all
qed

lemma critical_lists:
  assumes s: "swf {} s" and u: "rt_exit_critical (rt_enter_critical s) = Some u" and h: "not_ready_queue h"
  shows "tlists u h = tlists s h"
proof -
  have "u = s \<or> (\<exists>k. u = s\<lparr>lock_nest := k\<rparr>) \<or> (\<exists>k. rt_schedule (s\<lparr>lock_nest := k\<rparr>) = Some u)"
    using u by (auto simp: rt_exit_critical_def rt_enter_critical_def Let_def split: if_splits)
  then show ?thesis
  proof (elim disjE exE)
    fix k assume r: "rt_schedule (s\<lparr>lock_nest := k\<rparr>) = Some u"
    have "swf {} (s\<lparr>lock_nest := k\<rparr>)" using s by simp
    from rt_schedule_states(3) [OF this r h] show ?thesis by simp
  qed simp_all
qed

text \<open>The blocks linked by the initialisation.\<close>

lemma mp_link_blocks_at: "mp_link_blocks n m w (mp_block m k) = (if k < n then mp_block m (k + 1) else w (mp_block m k))"
  by (induction n) (auto simp: mp_block_inj)

lemma mp_link_blocks_chain:
  assumes "mp_start_address m \<noteq> 0" "0 < n" "j \<le> n"
  shows "chain ((mp_link_blocks n m w)(mp_block m (n - 1) := 0)) (if j = n then 0 else mp_block m j) (map (mp_block m) [j..<n])"
  using assms(3)
proof (induction rule: inc_induct)
  case (step j)
  have "mp_block m j \<noteq> 0" using assms(1) by (simp add: mp_block_def)
  moreover have "[j..<n] = j # [Suc j..<n]" using step(2) by (rule upt_conv_Cons)
  moreover have "((mp_link_blocks n m w)(mp_block m (n - 1) := 0)) (mp_block m j) = (if Suc j = n then 0 else mp_block m (Suc j))"
    using step(2) by (auto simp: mp_block_inj mp_link_blocks_at)
  ultimately show ?case using step(2,3) by (simp only: list.map chain.simps if_False less_irrefl_nat nat_neq_iff) simp
qed simp

lemma mp_init_blocks_rep:
  assumes "mp_start_address (mempools s mp) \<noteq> RT_NULL" "mp_block_total_count (mempools s mp) \<noteq> 0"
    "mp_block_free_count (mempools s mp) = mp_block_total_count (mempools s mp)"
  obtains s' where "mp_init_blocks mp s = Some s'" "mp_rep mp s' {} (map (mp_block (mempools s mp)) [0..<unat (mp_block_total_count (mempools s mp))])"
    "mempools s' mp = (mempools s mp)\<lparr>mp_block_list := mp_start_address (mempools s mp)\<rparr>"
proof -
  let ?m = "mempools s mp" let ?n = "unat (mp_block_total_count ?m)"
  let ?w = "(mp_link_blocks ?n ?m (pool_mem s))(mp_block ?m (?n - 1) := RT_NULL)"
  let ?s' = "upd_mp mp (\<lambda>m. m\<lparr>mp_block_list := mp_start_address m\<rparr>) (s\<lparr>pool_mem := ?w\<rparr>)"
  have n: "0 < ?n" using assms(2) by (simp add: unat_gt_0)
  have c: "chain ?w (mp_start_address ?m) (map (mp_block ?m) [0..<?n])"
    using mp_link_blocks_chain [OF assms(1) n, of 0 "pool_mem s"] n by (simp add: mp_block_def)
  have B: "mp_blocks (?m\<lparr>mp_block_list := x\<rparr>) = set (map (mp_block ?m) [0..<?n])" for x
    by (auto simp: mp_blocks_def mp_block_def)
  have d: "distinct (map (mp_block ?m) [0..<?n])" by (simp add: distinct_map inj_on_def mp_block_inj)
  show thesis
  proof (rule that)
    show "mp_init_blocks mp s = Some ?s'" using n by (simp add: mp_init_blocks_def Let_def)
    show "mp_rep mp ?s' {} (map (mp_block ?m) [0..<?n])"
      unfolding mp_rep_def Let_def using c d assms by (simp add: B del: set_map)
  qed simp
qed

text \<open>One step of a client that does not wait.\<close>

definition mp_take :: "ptr \<Rightarrow> 'h kernel \<Rightarrow> (nat option \<times> 'h kernel) option" where
  "mp_take mp s = (case rt_mp_alloc mp 0 s of
     Some (Done p, s) \<Rightarrow> Some (if p = RT_NULL then None else Some p, s) | _ \<Rightarrow> None)"

lemma mp_rep_set_errno: "mp_rep mp (rt_set_errno e s) A fs = mp_rep mp s A fs" "mempools (rt_set_errno e s) = mempools s"
  by (simp_all add: mp_rep_def rt_set_errno_def)

text \<open>Where the blocks of a pool are, which no operation changes.\<close>

definition mp_geometry :: "ptr \<Rightarrow> 'h kernel \<Rightarrow> ptr \<times> u32 \<times> u32" where
  "mp_geometry mp s = (let m = mempools s mp in (mp_start_address m, mp_block_size m, mp_block_total_count m))"

interpretation pool: block_allocator "\<lambda>s A. mp_inv mp s A \<and> mp_geometry mp s = g" "mp_cap mp" "mp_take mp" rt_mp_free for mp :: ptr and g
proof
  fix s :: "'a kernel" and A
  assume i': "mp_inv mp s A \<and> mp_geometry mp s = g"
  then obtain fs where r: "mp_rep mp s A fs" and z: "mp_suspend_thread_count (mempools s mp) = 0" and i: "mp_inv mp s A" and g: "mp_geometry mp s = g"
    by (auto simp: mp_inv_def)
  show "finite A \<and> card A \<le> mp_cap mp s" using mp_rep_card [OF r] by simp
  have fc: "unat (mp_block_free_count (mempools s mp)) = length fs" using r by (simp add: mp_rep_def Let_def)
  show "\<exists>p s'. mp_take mp s = Some (Some p, s') \<and> p \<notin> A \<and> (mp_inv mp s' (insert p A) \<and> mp_geometry mp s' = g) \<and> mp_cap mp s' = mp_cap mp s" if less: "card A < mp_cap mp s"
  proof -
    obtain f gs where fs: "fs = f # gs" using mp_rep_card(2) [OF r] less by (cases fs) auto
    obtain s' where s': "mp_take_block mp s = Some (f + mp_header, s')" "mp_rep mp s' (insert (f + mp_header) A) gs" "f + mp_header \<notin> A"
      "mempools s' mp = (mempools s mp)\<lparr>mp_block_free_count := mp_block_free_count (mempools s mp) - 1, mp_block_list := pool_mem s f\<rparr>"
      by (rule mp_take_rep [OF r [unfolded fs]]) blast
    have "mp_block_free_count (mempools s mp) \<noteq> 0" using fc fs by auto
    then show ?thesis using s' z g by (auto simp: mp_take_def rt_mp_alloc_def mp_alloc_loop_def mp_inv_def mp_cap_def mp_header_def mp_geometry_def Let_def)
  qed
  show "\<exists>s'. mp_take mp s = Some (None, s') \<and> (mp_inv mp s' A \<and> mp_geometry mp s' = g) \<and> mp_cap mp s' = mp_cap mp s" if "card A = mp_cap mp s"
  proof -
    have "mp_block_free_count (mempools s mp) = 0" using mp_rep_card(2) [OF r] that fc by (simp add: unat_eq_0)
    moreover have "mp_inv mp (rt_set_errno e s) A" for e
      unfolding mp_inv_def using r z by (auto simp: mp_rep_set_errno)
    ultimately show ?thesis using g
      by (simp add: mp_take_def rt_mp_alloc_def mp_alloc_loop_def mp_cap_def mp_rep_set_errno mp_geometry_def)
  qed
  show "\<exists>s'. rt_mp_free p s = Some s' \<and> (mp_inv mp s' (A - {p}) \<and> mp_geometry mp s' = g) \<and> mp_cap mp s' = mp_cap mp s" if "p \<in> A" for p
  proof -
    note g = mp_give_rep [OF r that]
    then have "rt_mp_free p s = Some (mp_given mp p s)" using z rt_mp_free_eq [OF g(3,2)] by simp
    then show ?thesis using g(5) z i' by (auto simp: mp_inv_def mp_cap_def mp_geometry_def Let_def)
  qed
qed

section \<open>Waiting for a block\<close>

text \<open>The running thread finds no block and waits; it is counted, and first in the list.\<close>

lemma rt_mp_alloc_blocked:
  assumes s: "running s" and f: "mp_block_free_count (mempools s mp) = 0" and time: "time \<noteq> 0" "time < 0x7FFFFFFF"
  obtains w s' where "rt_mp_alloc mp time s = Some (Blocked w, s')" "fst w = cur s" "swf {} s'" "tlists s' (WaitQ mp) = cur s # tlists s (WaitQ mp)"
    "mempools s' = (mempools s)(mp := (mempools s mp)\<lparr>mp_suspend_thread_count := mp_suspend_thread_count (mempools s mp) + 1\<rparr>)"
    "pool_mem s' = pool_mem s" "tstat s' (cur s) = 2" "terror s' (cur s) = RT_EOK" "thread_ok s' (cur s)" "cur s' \<noteq> 0" "lock_nest s' = lock_nest s"
    "lock_nest s = 0 \<Longrightarrow> ready_group s \<noteq> 0 \<Longrightarrow> cur s' \<noteq> cur s \<and> tstat s' (cur s') = 3"
proof -
  note t = runningD [OF s]
  let ?s0 = "set_error (cur s) RT_EOK s"
  have s0: "swf {} ?s0" "thread_ok ?s0 (cur ?s0)" "tstat ?s0 (cur ?s0) = 3" using t runningD(2) [of ?s0] s by simp_all
  obtain e v u where u: "rt_thread_suspend (cur ?s0) ?s0 = Some (e, v)" "link_front (WaitQ mp) (cur ?s0) v = Some u" "swf {} u" "ipc_frame ?s0 u"
    "cur u = cur ?s0" "thread_ok u (cur ?s0)" "tlists u = (tlists ?s0)(WaitQ mp := cur ?s0 # tlists ?s0 (WaitQ mp))"
    "\<And>x. tstat u x = (if x = cur ?s0 then 2 else tstat ?s0 x)" "\<And>x. terror u x = terror ?s0 x" "ready_group u = ready_group ?s0"
    by (rule suspend_front_total [OF s0(1) wait_queue_simps(1) s0(2,3)]) blast
  let ?u = "upd_mp mp (\<lambda>m. m\<lparr>mp_suspend_thread_count := mp_suspend_thread_count m + 1\<rparr>) u"
  have uu: "swf {} ?u" "thread_ok ?u (cur ?u)" "tstat ?u (cur ?u) = 2" using u(3,5,6,8) thread_ok_cong [of ?u u] by simp_all
  obtain y s' where y: "start_wait_timer (cur ?u) time ?u = Some y" "rt_schedule y = Some s'" "swf {} s'" "ipc_frame ?u s'"
    "\<And>h'. not_ready_queue h' \<Longrightarrow> tlists s' h' = tlists ?u h'" "tstat s' (cur ?u) = 2" "\<And>x. terror s' x = terror ?u x"
    "\<And>x. o_type (objs s' x) = o_type (objs ?u x)" "lock_nest ?u = 0 \<Longrightarrow> ready_group ?u \<noteq> 0 \<Longrightarrow> cur s' \<noteq> cur ?u \<and> tstat s' (cur s') = 3"
    "cur s' \<noteq> 0"
    by (rule block_total [OF uu time(2)]) blast
  let ?w = "(cur s, time, if time > 0 then rt_tick_get ?u else 0)"
  have n: "not_in_interrupt ?s0" using t(5) by (simp add: not_in_interrupt_def)
  have fr: "mempools u = mempools s" "pool_mem u = pool_mem s" "lock_nest u = lock_nest s" using u(4) by (simp_all add: ipc_frame_def)
  show thesis
  proof (rule that)
    show "rt_mp_alloc mp time s = Some (Blocked ?w, s')"
      using f time(1) n t(5) u(1,2,5) y(1,2) by (simp add: rt_mp_alloc_def mp_alloc_loop_def mp_wait_def rt_thread_self_def Let_def)
    show "mempools s' = (mempools s)(mp := (mempools s mp)\<lparr>mp_suspend_thread_count := mp_suspend_thread_count (mempools s mp) + 1\<rparr>)"
      "pool_mem s' = pool_mem s" "lock_nest s' = lock_nest s"
      using y(4) fr by (simp_all add: ipc_frame_def)
    show "tlists s' (WaitQ mp) = cur s # tlists s (WaitQ mp)" using y(5) [of "WaitQ mp"] u(7) by simp
    show "thread_ok s' (cur s)" using thread_ok_types [OF y(8)] uu(2) u(5) by simp
    show "lock_nest s = 0 \<Longrightarrow> ready_group s \<noteq> 0 \<Longrightarrow> cur s' \<noteq> cur s \<and> tstat s' (cur s') = 3"
      using y(9) u(5,10) fr(3) by simp
  qed (use y u in simp_all)
qed

section \<open>A concrete pool\<close>

text \<open>The pool at 8 has one block, with its header at 100, and it is in use.\<close>

definition mp_demo :: "unit kernel" where
  "mp_demo = (ipc_demo RT_Object_Class_MemPool)\<lparr>mempools := (\<lambda>_. zero_mempool)(8 := zero_mempool\<lparr>mp_start_address := 100, mp_size := 8,
     mp_block_size := 4, mp_block_total_count := 1\<rparr>), pool_mem := (\<lambda>_. 0)(100 := 8)\<rparr>"

lemma mp_demo_view:
  "running mp_demo" "lock_nest mp_demo = 0" "ready_group mp_demo \<noteq> 0" "tlists mp_demo (WaitQ 8) = []" "cur mp_demo = 1"
  "mp_inv 8 mp_demo {104}" "mp_block_free_count (mempools mp_demo 8) = 0" "mp_geometry 8 mp_demo = (100, 4, 1)"
proof -
  let ?s = "ipc_demo RT_Object_Class_MemPool"
  have e: "running ?s" "lock_nest ?s = 0" "ready_group ?s \<noteq> 0" "tlists ?s (WaitQ 8) = []" "cur ?s = 1"
    using ipc_demo_view [of RT_Object_Class_MemPool] by simp_all
  have "thread_ok mp_demo 1 = thread_ok ?s 1" by (rule thread_ok_cong) (simp add: mp_demo_def)
  then show "running mp_demo" using e by (simp add: running_def mp_demo_def tstat_def)
  show "lock_nest mp_demo = 0" "ready_group mp_demo \<noteq> 0" "tlists mp_demo (WaitQ 8) = []" "cur mp_demo = 1"
    using e by (simp_all add: mp_demo_def)
  show "mp_block_free_count (mempools mp_demo 8) = 0" "mp_geometry 8 mp_demo = (100, 4, 1)"
    by (simp_all add: mp_demo_def zero_mempool_def mp_geometry_def Let_def)
  have "mp_rep 8 mp_demo {104} []"
    by (simp add: mp_rep_def mp_demo_def zero_mempool_def mp_blocks_def mp_block_def mp_header_def Let_def lessThan_Suc)
  then show "mp_inv 8 mp_demo {104}" by (auto simp: mp_inv_def mp_demo_def zero_mempool_def)
qed

section \<open>Properties\<close>

lemma mp_inv_address:
  assumes "mp_inv mp s A" "p \<in> A" and g: "mp_geometry mp s = (start, bs, n)"
  shows "\<exists>k < unat n. p = start + k * (unat bs + mp_header) + mp_header"
proof -
  have "p \<in> (\<lambda>b. b + mp_header) ` mp_blocks (mempools s mp)" using assms(1,2) by (auto simp: mp_inv_def mp_rep_def Let_def)
  then show ?thesis using g by (auto simp: mp_blocks_def mp_block_def mp_geometry_def Let_def)
qed

lemma mp_addresses_apart:
  fixes j k b :: nat
  assumes "j < k"
  shows "j * (b + mp_header) + (mp_header + b) \<le> k * (b + mp_header)"
proof -
  have "Suc j * (b + mp_header) \<le> k * (b + mp_header)" using assms by (intro mult_le_mono1) simp
  then show ?thesis by (simp add: mp_header_def)
qed

text \<open>
  C17. A memory pool is an allocator: in any session of \<^verbatim>\<open>rt_mp_alloc\<close> without waiting and \<^verbatim>\<open>rt_mp_free\<close> of blocks that are
  held, on a pool nobody waits for, every call returns, an allocation fails exactly when all blocks are held, and at every end
  the blocks held lie inside the pool and do not overlap, headers included.
\<close>

theorem rt_mp_session_disjoint:
  assumes i: "mp_inv mp s (set held)" "distinct held" and g: "mp_geometry mp s = (start, bs, n)"
  shows "\<exists>rs held' s'. block_session (mp_take mp) rt_mp_free ops held s = Some (rs, held', s') \<and> mp_inv mp s' (set held') \<and>
    counts_ok (unat n) (length held) rs \<and>
    (\<forall>p \<in> set held'. start + mp_header \<le> p \<and> p + unat bs \<le> start + unat n * (unat bs + mp_header)) \<and>
    (\<forall>a < length held'. \<forall>b < length held'. a \<noteq> b \<longrightarrow>
      held' ! a + unat bs \<le> held' ! b - mp_header \<or> held' ! b + unat bs \<le> held' ! a - mp_header)"
proof -
  have cap: "mp_cap mp s = unat n" using g by (simp add: mp_cap_def mp_geometry_def Let_def)
  obtain rs held' s' where r: "block_session (mp_take mp) rt_mp_free ops held s = Some (rs, held', s')" "distinct held'"
    "mp_inv mp s' (set held')" "mp_geometry mp s' = (start, bs, n)" "counts_ok (unat n) (length held) rs"
    using pool.session_distinct [of mp s held "(start, bs, n)" ops] i g cap by auto
  have inside: "start + mp_header \<le> p \<and> p + unat bs \<le> start + unat n * (unat bs + mp_header)" if p: "p \<in> set held'" for p
  proof -
    obtain k where k: "k < unat n" "p = start + k * (unat bs + mp_header) + mp_header"
      using mp_inv_address [OF r(3) p r(4)] by blast
    have "Suc k * (unat bs + mp_header) \<le> unat n * (unat bs + mp_header)" using k(1) by (intro mult_le_mono1) simp
    then show ?thesis using k(2) by simp
  qed
  have apart: "held' ! a + unat bs \<le> held' ! b - mp_header \<or> held' ! b + unat bs \<le> held' ! a - mp_header"
    if ab: "a < length held'" "b < length held'" "a \<noteq> b" for a b
  proof -
    obtain j where j: "held' ! a = start + j * (unat bs + mp_header) + mp_header"
      using mp_inv_address [OF r(3) nth_mem [OF ab(1)] r(4)] by blast
    obtain k where k: "held' ! b = start + k * (unat bs + mp_header) + mp_header"
      using mp_inv_address [OF r(3) nth_mem [OF ab(2)] r(4)] by blast
    have "held' ! a \<noteq> held' ! b" using r(2) ab by (simp add: nth_eq_iff_index_eq)
    then have "j \<noteq> k" using j k by auto
    then show ?thesis
      using mp_addresses_apart [of j k "unat bs"] mp_addresses_apart [of k j "unat bs"] j k by (cases "j < k") (auto simp: mp_header_def)
  qed
  show ?thesis using r inside apart by blast
qed

theorem rt_mp_session_disjoint_witness:
  "\<exists>rs held s'. block_session (mp_take 8) rt_mp_free [Take, Give 0, Take] [104] mp_demo = Some (rs, held, s') \<and> counts_ok 1 1 rs"
  using rt_mp_session_disjoint [of 8 mp_demo "[104]" 100 4 1 "[Take, Give 0, Take]"] mp_demo_view by auto

text \<open>
  \<^verbatim>\<open>rt_mp_init\<close> on memory for at least one block returns \<^verbatim>\<open>RT_EOK\<close> with a well-formed pool of which no block is in use: it has
  as many blocks as fit into the rounded size, each with its header, so that every block lies inside the memory given.
\<close>

theorem rt_mp_init_ok:
  assumes s: "swf {} s" "rt_object_get_information RT_Object_Class_MemPool s = Some i" "\<not> obj_linked (Obj mp) s" "tlists s (WaitQ mp) = []"
    and nn: "mp \<noteq> RT_NULL" "start \<noteq> RT_NULL" and fit: "unat (rt_align4 bs) + mp_header \<le> unat (rt_align_down4 pool_size)"
  shows "\<exists>s' n. rt_mp_init mp name start pool_size bs s = Some (RT_EOK, s') \<and> swf {} s' \<and> mp_inv mp s' {} \<and>
    mp_geometry mp s' = (start, rt_align4 bs, n) \<and> unat n = unat (rt_align_down4 pool_size) div (unat (rt_align4 bs) + mp_header)"
proof -
  obtain u where u: "rt_object_init (Obj mp) RT_Object_Class_MemPool name s = Some (registered i (Obj mp) RT_Object_Class_MemPool name u)"
    "swf {} u" "sched_only s u" "rt_exit_critical (rt_enter_critical s) = Some u"
    by (rule rt_object_init_eq [OF s(1-3)]) blast
  let ?u = "registered i (Obj mp) RT_Object_Class_MemPool name u"
  have "tlists u (WaitQ mp) = []"
    using s(4) critical_lists [OF s(1) u(4), of "WaitQ mp"] by simp
  then have q: "tlists ?u (WaitQ mp) = []" by (simp add: registered_view)
  define a where "a = rt_align4 bs"
  define z where "z = rt_align_down4 pool_size"
  have fit': "unat a + mp_header \<le> unat z" using fit by (simp add: a_def z_def)
  have ad: "unat (a + of_nat mp_header) = unat a + mp_header"
    using fit' unsigned_less [of z, where ?'a = nat] by (simp add: mp_header_def unat_word_ariths)
  have dv: "unat (z div (a + of_nat mp_header)) = unat z div (unat a + mp_header)" by (simp add: unat_div ad)
  have nz: "a + of_nat mp_header \<noteq> 0" using ad by (auto simp: mp_header_def)
  have "0 < unat z div (unat a + mp_header)" using fit' by (simp add: div_greater_zero_iff mp_header_def)
  then have tz: "z div (a + of_nat mp_header) \<noteq> 0" using dv by auto
  define n where "n = z div (a + of_nat mp_header)"
  define v where "v = upd_mp mp (\<lambda>m. m\<lparr>mp_suspend_thread_count := 0\<rparr>) (init_queue (WaitQ mp)
     (upd_mp mp (\<lambda>m. m\<lparr>mp_block_free_count := n\<rparr>) (upd_mp mp (\<lambda>m. m\<lparr>mp_block_total_count := n\<rparr>)
       (upd_mp mp (\<lambda>m. m\<lparr>mp_block_size := a\<rparr>) (upd_mp mp (\<lambda>m. m\<lparr>mp_start_address := start, mp_size := z\<rparr>) ?u)))))"
  have mv: "mempools v mp = (mempools ?u mp)\<lparr>mp_start_address := start, mp_size := z, mp_block_size := a, mp_block_total_count := n,
      mp_block_free_count := n, mp_suspend_thread_count := 0\<rparr>"
    by (simp add: v_def init_queue_def)
  obtain s' where s': "mp_init_blocks mp v = Some s'" "mp_rep mp s' {} (map (mp_block (mempools v mp)) [0..<unat n])"
    "mempools s' mp = (mempools v mp)\<lparr>mp_block_list := start\<rparr>"
    using mp_init_blocks_rep [of v mp] nn tz unfolding mv by (auto simp: n_def)
  have i: "rt_mp_init mp name start pool_size bs s = Some (RT_EOK, s')"
    using u(1) nn q nz s'(1)
    by (simp add: rt_mp_init_def mp_list_init_def Let_def v_def upd_mp_def n_def a_def z_def init_queue_def)
  have "mp_inv mp s' {}" using s'(2,3) by (auto simp: mp_inv_def mv)
  moreover have "mp_geometry mp s' = (start, a, n)" by (simp add: mp_geometry_def s'(3) mv Let_def)
  ultimately show ?thesis using i swf_rt_mp_init [OF s(1) i] dv by (auto simp: a_def z_def n_def)
qed

theorem rt_mp_init_ok_witness:
  "\<exists>s' n. rt_mp_init 8 ''mp'' 100 22 3 (kernel_reset (\<lambda>_. 4) ()) = Some (RT_EOK, s') \<and> mp_geometry 8 s' = (100, 4, n) \<and> unat n = 2"
proof -
  have a: "rt_align4 3 = 4" "rt_align_down4 22 = 20" by (simp_all add: rt_align4_def rt_align_down4_def)
  have "rt_object_get_information RT_Object_Class_MemPool (kernel_reset (\<lambda>_. 4) ()) = Some 7"
    by (simp add: kernel_reset_def rt_object_get_information_def rt_object_container_def)
  from rt_mp_init_ok [OF kernel_reset_ok(1) this, of 8 100 3 22 "''mp''"] show ?thesis
    by (auto simp: a mp_header_def kernel_reset_def zero_kernel_def obj_linked_def rt_object_container_def)
qed

text \<open>
  A thread that waits for a block gets the next one freed: when the pool is exhausted and nobody waits, \<^verbatim>\<open>rt_mp_alloc\<close>
  suspends the running thread; the thread that runs next frees a block, which makes the first ready again; and when that goes on, its
  \<^verbatim>\<open>rt_mp_alloc\<close> returns this block, and the pool is well formed with the same blocks in use as before.
\<close>

theorem rt_mp_blocked_alloc:
  assumes s: "running s" "lock_nest s = 0" "ready_group s \<noteq> 0" and m: "mp_inv mp s A" "mp_block_free_count (mempools s mp) = 0"
    and q: "tlists s (WaitQ mp) = []" and p: "p \<in> A" and time: "time \<noteq> 0" "time < 0x7FFFFFFF"
  shows "\<exists>w s1 s2 s3. rt_mp_alloc mp time s = Some (Blocked w, s1) \<and> cur s1 \<noteq> cur s \<and>
    rt_mp_free p s1 = Some s2 \<and> swf {} s2 \<and> tstat s2 (cur s) \<in> {RT_THREAD_READY, RT_THREAD_RUNNING} \<and>
    rt_mp_alloc_resume mp w s2 = Some (Done p, s3) \<and> mp_inv mp s3 A \<and> tlists s3 (WaitQ mp) = []"
proof -
  obtain fs where r: "mp_rep mp s A fs" and z: "mp_suspend_thread_count (mempools s mp) = 0" using m(1) by (auto simp: mp_inv_def)
  obtain w s1 where w: "rt_mp_alloc mp time s = Some (Blocked w, s1)" "fst w = cur s" "swf {} s1" "tlists s1 (WaitQ mp) = [cur s]"
    "mempools s1 = (mempools s)(mp := (mempools s mp)\<lparr>mp_suspend_thread_count := 1\<rparr>)" "pool_mem s1 = pool_mem s"
    "terror s1 (cur s) = RT_EOK" "thread_ok s1 (cur s)" "cur s1 \<noteq> 0" "cur s1 \<noteq> cur s"
    by (rule rt_mp_alloc_blocked [OF s(1) m(2) time]) (use s q z in simp_all)
  have r1: "mp_rep mp s1 A fs"
    using r by (simp add: mp_rep_def w(5,6) mp_blocks_def mp_block_def [abs_def] Let_def)
  note g = mp_give_rep [OF r1 p]
  let ?g = "set_error (cur s) RT_EOK (mp_given mp p s1)"
  have G: "swf {} ?g" "tlists ?g (WaitQ mp) = [cur s]" "thread_ok ?g (cur s)"
    using w thread_ok_cong [of ?g s1] by simp_all
  obtain u where u: "rt_thread_resume (cur s) ?g = Some (RT_EOK, u)" "swf {} u" "ipc_frame ?g u" "cur u = cur ?g"
    "\<And>h'. not_ready_queue h' \<Longrightarrow> tlists u h' = ((tlists ?g)(WaitQ mp := [])) h'" "tstat u (cur s) = (if cur s = cur ?g then 3 else 1)"
    "\<And>x. terror u x = terror ?g x"
    by (rule rt_thread_resume_waiter [OF G(1,2) wait_queue_simps(1) G(3)]) blast
  let ?u = "upd_mp mp (\<lambda>m. m\<lparr>mp_suspend_thread_count := mp_suspend_thread_count m - 1\<rparr>) u"
  have su: "swf {} ?u" using u(2) by simp
  obtain s2 where s2: "rt_schedule ?u = Some s2" "swf {} s2" using rt_schedule_ok [OF su] u(4) w(9) by (auto simp: okt_def)
  have mu: "mempools u = mempools (mp_given mp p s1)" "pool_mem u = pool_mem (mp_given mp p s1)" using u(3) by (simp_all add: ipc_frame_def)
  have m2: "mempools s2 = mempools ?u" "pool_mem s2 = pool_mem ?u" using ipc_frame_rt_schedule [OF s2(1)] by (simp_all add: ipc_frame_def)
  have r2: "mp_rep mp s2 (A - {p}) ((p - mp_header) # fs)"
    using g(5) by (simp add: mp_rep_def m2 mu mp_blocks_def mp_block_def [abs_def] Let_def)
  obtain s3 where s3: "mp_take_block mp s2 = Some (p, s3)" "mp_rep mp s3 (insert p (A - {p})) fs"
    "mempools s3 mp = (mempools s2 mp)\<lparr>mp_block_free_count := mp_block_free_count (mempools s2 mp) - 1, mp_block_list := pool_mem s2 (p - mp_header)\<rparr>"
    "tlists s3 = tlists s2"
    by (rule mp_take_rep [OF r2]) (simp only: g(4))
  have fr: "rt_mp_free p s1 = Some s2" using rt_mp_free_eq [OF g(3,2)] w(4) u(1) s2(1) by (simp add: w(5))
  have st: "tstat s2 (cur s) = 1 \<or> tstat s2 (cur s) = 3" using rt_schedule_states(2) [OF su s2(1), of "cur s"] u(6) by (simp split: if_splits)
  have te: "terror s2 (cur s) = RT_EOK" using sched_onlyD(20) [OF rt_schedule_sched_only(1) [OF s2(1)], of "cur s"] u(7) by simp
  have c2: "mp_suspend_thread_count (mempools s2 mp) = 0" "mp_block_free_count (mempools s2 mp) = 1" using m2 mu m(2) by (simp_all add: w(5))
  have al: "rt_mp_alloc_resume mp w s2 = Some (Done p, s3)"
    using te w(2) c2 s3(1) by (auto simp: rt_mp_alloc_resume_def mp_alloc_loop_def split: prod.splits)
  have i3: "mp_inv mp s3 A" using s3(2,3) c2(1) p by (auto simp: mp_inv_def insert_absorb)
  have "tlists s2 (WaitQ mp) = []" using rt_schedule_states(3) [OF su s2(1), of "WaitQ mp"] u(5) [of "WaitQ mp"] by simp
  then show ?thesis using w(1,10) fr s2(2) st al i3 s3(4) by auto
qed

theorem rt_mp_blocked_alloc_witness:
  "\<exists>w s1 s2 s3. rt_mp_alloc 8 50 mp_demo = Some (Blocked w, s1) \<and> rt_mp_free 104 s1 = Some s2 \<and>
     rt_mp_alloc_resume 8 w s2 = Some (Done 104, s3)"
  using rt_mp_blocked_alloc [OF mp_demo_view(1-3,6,7,4), of 104 50] by auto

text \<open>
  A waiting time that runs out leaves the count of waiting threads behind: \<^verbatim>\<open>rt_mp_alloc\<close> on an exhausted pool blocks, its timer expires, and
  the call returns a null pointer as it should; but \<^verbatim>\<open>suspend_thread_count\<close> still is 1 with an empty list, so the next
  \<^verbatim>\<open>rt_mp_free\<close> takes the list head for a thread.
\<close>

theorem rt_mp_alloc_timeout_stale_count:
  assumes s: "running s" and m: "mp_inv mp s A" "mp_block_free_count (mempools s mp) = 0"
    and q: "tlists s (WaitQ mp) = []" and p: "p \<in> A" and time: "0 < time" "time < 0x7FFFFFFF"
  shows "\<exists>w s1 s2. rt_mp_alloc mp time s = Some (Blocked w, s1) \<and> rt_thread_timeout (cur s) s1 = Some s2 \<and>
    rt_mp_alloc_resume mp w s2 = Some (Done RT_NULL, s2) \<and> mp_suspend_thread_count (mempools s2 mp) = 1 \<and> tlists s2 (WaitQ mp) = [] \<and>
    rt_mp_free p s2 = None"
proof -
  obtain fs where r: "mp_rep mp s A fs" and z: "mp_suspend_thread_count (mempools s mp) = 0" using m(1) by (auto simp: mp_inv_def)
  obtain w s1 where w: "rt_mp_alloc mp time s = Some (Blocked w, s1)" "fst w = cur s" "swf {} s1" "tlists s1 (WaitQ mp) = [cur s]"
    "mempools s1 = (mempools s)(mp := (mempools s mp)\<lparr>mp_suspend_thread_count := 1\<rparr>)" "pool_mem s1 = pool_mem s"
    "tstat s1 (cur s) = 2" "thread_ok s1 (cur s)" "cur s1 \<noteq> 0"
    by (rule rt_mp_alloc_blocked [OF s m(2) _ time(2)]) (use s q z time in simp_all)
  obtain s2 where s2: "rt_thread_timeout (cur s) s1 = Some s2" "ipc_frame s1 s2" "terror s2 (cur s) = - RT_ETIMEOUT"
    "\<And>h'. not_ready_queue h' \<Longrightarrow> tlists s2 h' = removeAll (cur s) (tlists s1 h')"
    by (rule rt_thread_timeout_total [OF w(3,8,7,9)]) blast
  have e: "tlists s2 (WaitQ mp) = []" using s2(4) [of "WaitQ mp"] w(4) by simp
  have f2: "mempools s2 = mempools s1" "pool_mem s2 = pool_mem s1" using s2(2) by (simp_all add: ipc_frame_def)
  have r2: "mp_rep mp s2 A fs"
    using r by (simp add: mp_rep_def f2 w(5,6) mp_blocks_def mp_block_def [abs_def] Let_def)
  note g = mp_give_rep [OF r2 p]
  have "rt_mp_free p s2 = None" using rt_mp_free_eq [OF g(3,2)] e by (simp add: f2 w(5))
  moreover have "rt_mp_alloc_resume mp w s2 = Some (Done RT_NULL, s2)"
    using s2(3) w(2) by (auto simp: rt_mp_alloc_resume_def split: prod.splits)
  moreover have "mp_suspend_thread_count (mempools s2 mp) = 1" by (simp add: f2 w(5))
  ultimately show ?thesis using w(1) s2(1) e by blast
qed

theorem rt_mp_alloc_timeout_stale_count_witness:
  "\<exists>w s1 s2. rt_mp_alloc 8 50 mp_demo = Some (Blocked w, s1) \<and> rt_thread_timeout 1 s1 = Some s2 \<and> rt_mp_free 104 s2 = None"
  using rt_mp_alloc_timeout_stale_count [OF mp_demo_view(1,6,7,4), of 104 50] by (auto simp: mp_demo_view(5) simp del: One_nat_def)

end
