(* ===== verification/RT_System.thy ===== *)
theory RT_System
  imports RT_Mutex RT_Event RT_Mailbox RT_Msgqueue RT_Mempool
begin

text \<open>
  The kernel as a state machine: a step is one call into the kernel that terminates, by the running thread or by an interrupt handler, or
  the continuation of a call that had blocked, once its thread runs again. Every reachable state satisfies the
  scheduler invariant.
\<close>

section \<open>Steps\<close>

text \<open>
  The parameters are the system heap, the application's timeout functions, the application's cleanup functions. A call
  that may block is made by the running thread. The scheduler is started once, when no thread runs yet; no thread lives
  at the null address.
\<close>

definition runs :: "ptr \<Rightarrow> 'h kernel \<Rightarrow> bool" where
  "runs t s \<longleftrightarrow> t = cur s \<and> tstat s t = RT_THREAD_RUNNING"

inductive thread_step ::
    "'h heap_ops \<Rightarrow> (nat \<Rightarrow> ptr \<Rightarrow> 'h kernel \<Rightarrow> 'h kernel option) \<Rightarrow> 'h kernel \<Rightarrow> 'h kernel \<Rightarrow> bool"
  for H cleanup where
  thread_init: "rt_thread_init t name en pa st sz prio tick s = Some (e, s') \<Longrightarrow> thread_step H cleanup s s'"
| thread_create: "rt_thread_create H name en pa sz prio tick s = Some (t, s') \<Longrightarrow> thread_step H cleanup s s'"
| thread_startup: "rt_thread_startup t s = Some (e, s') \<Longrightarrow> thread_step H cleanup s s'"
| thread_detach: "rt_thread_detach t s = Some (e, s') \<Longrightarrow> thread_step H cleanup s s'"
| thread_delete: "rt_thread_delete t s = Some (e, s') \<Longrightarrow> thread_step H cleanup s s'"
| thread_exit: "rt_thread_exit s = Some s' \<Longrightarrow> thread_step H cleanup s s'"
| thread_suspend: "rt_thread_suspend t s = Some (e, s') \<Longrightarrow> thread_step H cleanup s s'"
| thread_resume: "rt_thread_resume t s = Some (e, s') \<Longrightarrow> thread_step H cleanup s s'"
| thread_control: "rt_thread_control t cmd arg s = Some (e, s') \<Longrightarrow> thread_step H cleanup s s'"
| thread_sleep: "rt_thread_sleep tick s = Some (t, s') \<Longrightarrow> thread_step H cleanup s s'"
| thread_sleep_resume: "runs t s \<Longrightarrow> thread_step H cleanup s (snd (rt_thread_sleep_resume t s))"
| thread_yield: "rt_thread_yield s = Some (e, s') \<Longrightarrow> thread_step H cleanup s s'"
| thread_find: "rt_thread_find name s = Some (r, s') \<Longrightarrow> thread_step H cleanup s s'"
| idle: "rt_thread_idle_excute fuel H cleanup s = Some s' \<Longrightarrow> thread_step H cleanup s s'"
| enter_critical: "thread_step H cleanup s (rt_enter_critical s)"
| exit_critical: "rt_exit_critical s = Some s' \<Longrightarrow> thread_step H cleanup s s'"
| scheduler_start: "cur s = RT_NULL \<Longrightarrow> tstat s RT_NULL = RT_THREAD_INIT \<Longrightarrow> rt_system_scheduler_start s = Some s' \<Longrightarrow>
    thread_step H cleanup s s'"
| timer_init: "rt_timer_init r name tf time flag s = Some s' \<Longrightarrow> thread_step H cleanup s s'"
| timer_create: "rt_timer_create H name tf time flag s = Some (t, s') \<Longrightarrow> thread_step H cleanup s s'"
| timer_delete: "rt_timer_delete H t s = Some (e, s') \<Longrightarrow> thread_step H cleanup s s'"
| timer_start: "rt_timer_start r s = Some (e, s') \<Longrightarrow> thread_step H cleanup s s'"
| timer_stop: "rt_timer_stop r s = Some (e, s') \<Longrightarrow> thread_step H cleanup s s'"
| timer_detach: "rt_timer_detach r s = Some (e, s') \<Longrightarrow> thread_step H cleanup s s'"
| timer_control: "rt_timer_control r cmd arg s = Some (e, a, s') \<Longrightarrow> thread_step H cleanup s s'"

inductive sem_step :: "'h heap_ops \<Rightarrow> 'h kernel \<Rightarrow> 'h kernel \<Rightarrow> bool" for H where
  sem_init: "rt_sem_init p name v flag s = Some (e, s') \<Longrightarrow> sem_step H s s'"
| sem_detach: "rt_sem_detach p s = Some (e, s') \<Longrightarrow> sem_step H s s'"
| sem_create: "rt_sem_create H name v flag s = Some (p, s') \<Longrightarrow> sem_step H s s'"
| sem_delete: "rt_sem_delete H p s = Some (e, s') \<Longrightarrow> sem_step H s s'"
| sem_take: "runs (cur s) s \<Longrightarrow> rt_sem_take p time s = Some (r, s') \<Longrightarrow> sem_step H s s'"
| sem_release: "rt_sem_release p s = Some (e, s') \<Longrightarrow> sem_step H s s'"
| sem_control: "rt_sem_control p cmd arg s = Some (e, s') \<Longrightarrow> sem_step H s s'"

inductive mutex_step :: "'h heap_ops \<Rightarrow> 'h kernel \<Rightarrow> 'h kernel \<Rightarrow> bool" for H where
  mutex_init: "rt_mutex_init p name flag s = Some (e, s') \<Longrightarrow> mutex_step H s s'"
| mutex_detach: "rt_mutex_detach p s = Some (e, s') \<Longrightarrow> mutex_step H s s'"
| mutex_create: "rt_mutex_create H name flag s = Some (p, s') \<Longrightarrow> mutex_step H s s'"
| mutex_delete: "rt_mutex_delete H p s = Some (e, s') \<Longrightarrow> mutex_step H s s'"
| mutex_take: "runs (cur s) s \<Longrightarrow> rt_mutex_take p time s = Some (r, s') \<Longrightarrow> mutex_step H s s'"
| mutex_take_resume: "runs t s \<Longrightarrow> rt_mutex_take_resume p t time s = Some (r, s') \<Longrightarrow> mutex_step H s s'"
| mutex_release: "rt_mutex_release p s = Some (e, s') \<Longrightarrow> mutex_step H s s'"

inductive event_step :: "'h heap_ops \<Rightarrow> 'h kernel \<Rightarrow> 'h kernel \<Rightarrow> bool" for H where
  event_init: "rt_event_init p name flag s = Some (e, s') \<Longrightarrow> event_step H s s'"
| event_detach: "rt_event_detach p s = Some (e, s') \<Longrightarrow> event_step H s s'"
| event_create: "rt_event_create H name flag s = Some (p, s') \<Longrightarrow> event_step H s s'"
| event_delete: "rt_event_delete H p s = Some (e, s') \<Longrightarrow> event_step H s s'"
| event_send: "rt_event_send p want s = Some (e, s') \<Longrightarrow> event_step H s s'"
| event_recv: "runs (cur s) s \<Longrightarrow> rt_event_recv p want opt time rc s = Some (r, s') \<Longrightarrow> event_step H s s'"
| event_control: "rt_event_control p cmd arg s = Some (e, s') \<Longrightarrow> event_step H s s'"

inductive mb_step :: "'h heap_ops \<Rightarrow> 'h kernel \<Rightarrow> 'h kernel \<Rightarrow> bool" for H where
  mb_init: "rt_mb_init p name pool n flag s = Some (e, s') \<Longrightarrow> mb_step H s s'"
| mb_detach: "rt_mb_detach p s = Some (e, s') \<Longrightarrow> mb_step H s s'"
| mb_create: "rt_mb_create H name n flag s = Some (p, s') \<Longrightarrow> mb_step H s s'"
| mb_delete: "rt_mb_delete H p s = Some (e, s') \<Longrightarrow> mb_step H s s'"
| mb_send: "runs (cur s) s \<Longrightarrow> rt_mb_send_wait p v time s = Some (r, s') \<Longrightarrow> mb_step H s s'"
| mb_send_resume: "runs (fst w) s \<Longrightarrow> rt_mb_send_wait_resume p v w s = Some (r, s') \<Longrightarrow> mb_step H s s'"
| mb_recv: "runs (cur s) s \<Longrightarrow> rt_mb_recv p time s = Some (r', s') \<Longrightarrow> mb_step H s s'"
| mb_recv_resume: "runs (fst w) s \<Longrightarrow> rt_mb_recv_resume p w s = Some (r', s') \<Longrightarrow> mb_step H s s'"
| mb_control: "rt_mb_control p cmd arg s = Some (e, s') \<Longrightarrow> mb_step H s s'"

inductive mq_step :: "'h heap_ops \<Rightarrow> 'h kernel \<Rightarrow> 'h kernel \<Rightarrow> bool" for H where
  mq_init: "rt_mq_init p name pool n k flag s = Some (e, s') \<Longrightarrow> mq_step H s s'"
| mq_detach: "rt_mq_detach p s = Some (e, s') \<Longrightarrow> mq_step H s s'"
| mq_create: "rt_mq_create H name n k flag s = Some (p, s') \<Longrightarrow> mq_step H s s'"
| mq_delete: "rt_mq_delete H p s = Some (e, s') \<Longrightarrow> mq_step H s s'"
| mq_send: "rt_mq_send p b s = Some (e, s') \<Longrightarrow> mq_step H s s'"
| mq_urgent: "rt_mq_urgent p b s = Some (e, s') \<Longrightarrow> mq_step H s s'"
| mq_recv: "runs (cur s) s \<Longrightarrow> rt_mq_recv p rc k time s = Some (r'', s') \<Longrightarrow> mq_step H s s'"
| mq_recv_resume: "runs (fst w) s \<Longrightarrow> rt_mq_recv_resume p k w s = Some (r'', s') \<Longrightarrow> mq_step H s s'"
| mq_control: "rt_mq_control p cmd arg s = Some (e, s') \<Longrightarrow> mq_step H s s'"

inductive mp_step :: "'h heap_ops \<Rightarrow> 'h kernel \<Rightarrow> 'h kernel \<Rightarrow> bool" for H where
  mp_init: "rt_mp_init p name start n k s = Some (e, s') \<Longrightarrow> mp_step H s s'"
| mp_detach: "rt_mp_detach p s = Some (e, s') \<Longrightarrow> mp_step H s s'"
| mp_create: "rt_mp_create H name n k s = Some (p, s') \<Longrightarrow> mp_step H s s'"
| mp_delete: "rt_mp_delete H p s = Some (e, s') \<Longrightarrow> mp_step H s s'"
| mp_alloc: "runs (cur s) s \<Longrightarrow> rt_mp_alloc p time s = Some (r, s') \<Longrightarrow> mp_step H s s'"
| mp_alloc_resume: "runs (fst w) s \<Longrightarrow> rt_mp_alloc_resume p w s = Some (r, s') \<Longrightarrow> mp_step H s s'"
| mp_free: "rt_mp_free b s = Some s' \<Longrightarrow> mp_step H s s'"

text \<open>\<open>user\<close> are the application's timeout functions, called from the tick interrupt.\<close>

inductive kernel_step ::
    "'h heap_ops \<Rightarrow> (nat \<Rightarrow> nat \<Rightarrow> 'h kernel \<Rightarrow> 'h kernel option) \<Rightarrow> (nat \<Rightarrow> ptr \<Rightarrow> 'h kernel \<Rightarrow> 'h kernel option) \<Rightarrow>
     'h kernel \<Rightarrow> 'h kernel \<Rightarrow> bool"
  for H user cleanup where
  thread: "thread_step H cleanup s s' \<Longrightarrow> kernel_step H user cleanup s s'"
| sem: "sem_step H s s' \<Longrightarrow> kernel_step H user cleanup s s'"
| mutex: "mutex_step H s s' \<Longrightarrow> kernel_step H user cleanup s s'"
| event: "event_step H s s' \<Longrightarrow> kernel_step H user cleanup s s'"
| mb: "mb_step H s s' \<Longrightarrow> kernel_step H user cleanup s s'"
| mq: "mq_step H s s' \<Longrightarrow> kernel_step H user cleanup s s'"
| mp: "mp_step H s s' \<Longrightarrow> kernel_step H user cleanup s s'"
| tick: "rt_tick_increase fuel user s = Some s' \<Longrightarrow> kernel_step H user cleanup s s'"
| interrupt_enter: "kernel_step H user cleanup s (rt_interrupt_enter s)"
| interrupt_leave: "kernel_step H user cleanup s (rt_interrupt_leave s)"

inductive reachable ::
    "'h heap_ops \<Rightarrow> (nat \<Rightarrow> nat \<Rightarrow> 'h kernel \<Rightarrow> 'h kernel option) \<Rightarrow> (nat \<Rightarrow> ptr \<Rightarrow> 'h kernel \<Rightarrow> 'h kernel option) \<Rightarrow>
     'h kernel \<Rightarrow> 'h kernel \<Rightarrow> bool"
  for H user cleanup s0 where
  start: "reachable H user cleanup s0 s0"
| step: "reachable H user cleanup s0 s \<Longrightarrow> kernel_step H user cleanup s s' \<Longrightarrow> reachable H user cleanup s0 s'"

section \<open>The invariant\<close>

lemma runsD: "runs t s \<Longrightarrow> tstat s t = 3" "runs t s \<Longrightarrow> tstat s (cur s) = 3"
  by (auto simp: runs_def)

lemma swf_rt_timer_create: "swf {} s \<Longrightarrow> rt_timer_create H name tf time flag s = Some (t, s') \<Longrightarrow> swf {} s'"
  by (auto simp: rt_timer_create_def bind_eq_Some_conv obj_onlyD(21) [OF timer_obj_only(5)] intro: swf_rt_object_allocate
    split: if_splits)

lemma swf_rt_timer_delete: "swf {} s \<Longrightarrow> rt_timer_delete H t s = Some (e, s') \<Longrightarrow> swf {} s'"
  by (auto simp: rt_timer_delete_def bind_eq_Some_conv obj_onlyD(21) [OF rt_object_delete_obj_only] timer_remove_def)

text \<open>Starting the scheduler sets the state of the first thread without the mask.\<close>

lemma swf_rt_system_scheduler_start:
  assumes s: "swf {} s" and c: "tstat s (cur s) \<noteq> 3" and r: "rt_system_scheduler_start s = Some s'"
  shows "swf {} s'"
proof -
  have g: "ready_group s \<noteq> 0"
    using r by (auto simp: rt_system_scheduler_start_def get_highest_priority_thread_def bind_eq_Some_conv split: if_splits)
  define p where "p = rt_ffs (ready_group s) - 1"
  define t where "t = hd (tlists s (ReadyQ p))"
  note h = swf_highest [OF s g, folded p_def]
  have t: "t \<in> set (tlists s (ReadyQ p))" using h(2) by (simp add: t_def)
  have rt: "tstat s t = 1" "tprio s t = p" "t \<noteq> 0" using swf_readyq [OF s t] by auto
  have "tstat s (cur s) \<noteq> 1" using swf_ready_thread(4) [OF s, of "cur s"] by auto
  then have s1: "swf {t} (s\<lparr>cur := t\<rparr>)"
    using c by (intro swf_shrink [OF swf_set_cur [OF s, of t]]) auto
  have "prio_ok s t" using swf_prio_ok [OF s, of t] rt by simp
  then have s2: "swf {} (set_stat t 3 (dequeued t (s\<lparr>cur := t\<rparr>)))"
    using swf_set_running [OF swf_dequeued [OF s1, of t] not_in_dequeued] by (auto simp: prio_ok_def)
  have "s' = upd_thread t (\<lambda>r. r\<lparr>th_stat := 3\<rparr>) (dequeued t (s\<lparr>cur := t\<rparr>))\<lparr>start_flg := 1\<rparr>"
    using r h(1,4) rt
    by (simp add: rt_system_scheduler_start_def t_def [symmetric] rt_schedule_remove_thread_eq)
  moreover have "swf {} (upd_thread t (\<lambda>r. r\<lparr>th_stat := 3\<rparr>) (dequeued t (s\<lparr>cur := t\<rparr>))) =
      swf {} (set_stat t 3 (dequeued t (s\<lparr>cur := t\<rparr>)))"
    by (rule swf_cong) (simp_all add: tstat_set_stat, simp_all add: tstat_def tprio_def set_stat_def)
  ultimately show ?thesis using s2 by simp
qed

lemma swf_thread_step:
  assumes st: "thread_step H cleanup s s'" and cl: "\<And>f t s s'. swf {} s \<Longrightarrow> cleanup f t s = Some s' \<Longrightarrow> swf {} s'" and s: "swf {} s"
  shows "swf {} s'"
  using st
proof cases
  case (idle fuel)
  show ?thesis by (rule swf_rt_thread_idle_excute [OF cl s idle]) assumption+
next
  case (thread_yield e)
  then show ?thesis using swf_rt_schedule [OF s] by (auto simp: rt_thread_yield_def bind_eq_Some_conv)
next
  case (thread_sleep_resume t)
  then show ?thesis using swf_rt_thread_sleep_resume [OF s] by simp
next
  case scheduler_start
  then show ?thesis using swf_rt_system_scheduler_start [OF s] by simp
next
  case enter_critical
  then show ?thesis using s by simp
next
  case (timer_start r e)
  then show ?thesis using obj_onlyD(21) [OF timer_obj_only(1)] s by blast
next
  case (timer_stop r e)
  then show ?thesis using obj_onlyD(21) [OF timer_obj_only(2)] s by blast
next
  case (timer_detach r e)
  then show ?thesis using obj_onlyD(21) [OF timer_obj_only(3)] s by blast
next
  case (timer_control r cmd arg e a)
  then show ?thesis using obj_onlyD(21) [OF timer_obj_only(4)] s by blast
qed (rule swf_rt_thread_init [OF s] swf_rt_thread_create [OF s] swf_rt_thread_startup [OF s] swf_rt_thread_detach [OF s]
    swf_rt_thread_delete [OF s] swf_rt_thread_exit [OF s] swf_rt_thread_suspend [OF s] swf_rt_thread_resume [OF s]
    swf_rt_thread_control [OF s] swf_rt_thread_sleep [OF s] swf_rt_thread_find [OF s] swf_rt_exit_critical [OF s]
    swf_timer_init [OF s] swf_rt_timer_create [OF s] swf_rt_timer_delete [OF s], assumption+)+

lemma swf_sem_step:
  assumes st: "sem_step H s s'" and s: "swf {} s"
  shows "swf {} s'"
  using st by cases (rule swf_rt_sem_init [OF s] swf_rt_sem_detach [OF s] swf_rt_sem_create [OF s] swf_rt_sem_delete [OF s] swf_rt_sem_take [OF s runsD(2)] swf_rt_sem_release [OF s] swf_rt_sem_control [OF s], assumption+)+

lemma swf_mutex_step:
  assumes st: "mutex_step H s s'" and s: "swf {} s"
  shows "swf {} s'"
  using st by cases (rule swf_rt_mutex_init [OF s] swf_rt_mutex_detach [OF s] swf_rt_mutex_create [OF s] swf_rt_mutex_delete [OF s] swf_rt_mutex_take [OF s runsD(2)] swf_rt_mutex_take_resume [OF s runsD(1)] swf_rt_mutex_release [OF s], assumption+)+

lemma swf_event_step:
  assumes st: "event_step H s s'" and s: "swf {} s"
  shows "swf {} s'"
  using st by cases (rule swf_rt_event_init [OF s] swf_rt_event_detach [OF s] swf_rt_event_create [OF s] swf_rt_event_delete [OF s] swf_rt_event_send [OF s] swf_rt_event_recv [OF s runsD(2)] swf_rt_event_control [OF s], assumption+)+

lemma swf_mb_step:
  assumes st: "mb_step H s s'" and s: "swf {} s"
  shows "swf {} s'"
  using st by cases (rule swf_rt_mb_init [OF s] swf_rt_mb_detach [OF s] swf_rt_mb_create [OF s] swf_rt_mb_delete [OF s] swf_rt_mb_control [OF s] swf_rt_mb_send_recv [OF s runsD(2)] swf_rt_mb_resume [OF s runsD(1)], assumption+)+

lemma swf_mq_step:
  assumes st: "mq_step H s s'" and s: "swf {} s"
  shows "swf {} s'"
  using st by cases (rule swf_rt_mq_init [OF s] swf_rt_mq_detach [OF s] swf_rt_mq_create [OF s] swf_rt_mq_delete [OF s] swf_rt_mq_control [OF s] swf_rt_mq_send [OF s disjI1] swf_rt_mq_send [OF s disjI2] swf_rt_mq_recv [OF s runsD(2)] swf_rt_mq_recv_resume [OF s runsD(1)], assumption+)+

lemma swf_mp_step:
  assumes st: "mp_step H s s'" and s: "swf {} s"
  shows "swf {} s'"
  using st by cases (rule swf_rt_mp_init [OF s] swf_rt_mp_detach [OF s] swf_rt_mp_create [OF s] swf_rt_mp_delete [OF s] swf_rt_mp_alloc [OF s runsD(2)] swf_rt_mp_alloc_resume [OF s runsD(1)] swf_rt_mp_free [OF s], assumption+)+

lemma swf_kernel_step:
  assumes st: "kernel_step H user cleanup s s'" and s: "swf {} s"
    and us: "\<And>g p s s'. swf {} s \<Longrightarrow> user g p s = Some s' \<Longrightarrow> swf {} s'"
    and cl: "\<And>f t s s'. swf {} s \<Longrightarrow> cleanup f t s = Some s' \<Longrightarrow> swf {} s'"
  shows "swf {} s'"
  using st
proof cases
  case thread
  show ?thesis by (rule swf_thread_step [OF thread cl s]) assumption+
next
  case (tick fuel)
  show ?thesis by (rule swf_rt_tick_increase [OF us s tick]) assumption+
qed (use s in \<open>auto simp: rt_interrupt_enter_def rt_interrupt_leave_def
    intro: swf_sem_step swf_mutex_step swf_event_step swf_mb_step swf_mq_step swf_mp_step\<close>)

lemma swf_reachable:
  assumes "reachable H user cleanup s0 s" and "swf {} s0"
    and us: "\<And>g p s s'. swf {} s \<Longrightarrow> user g p s = Some s' \<Longrightarrow> swf {} s'"
    and cl: "\<And>f t s s'. swf {} s \<Longrightarrow> cleanup f t s = Some s' \<Longrightarrow> swf {} s'"
  shows "swf {} s"
  using assms(1,2)
proof induction
  case (step s s')
  show ?case by (rule swf_kernel_step [OF step.hyps(2) step.IH [OF step.prems] us cl]) assumption+
qed

end
