(* ===== verification/RT_Boot.thy ===== *)
theory RT_Boot
  imports RT_System
begin

text \<open>
  The boot sequence of \<^verbatim>\<open>src/components.c\<close>: from the state at reset to the first context switch. Before that no
  thread runs (\<open>cur\<close> is null), so registering objects and starting threads never switches. The main thread has the default priority
  \<^verbatim>\<open>RT_THREAD_PRIORITY_MAX / 3\<close>, which stands in \<^verbatim>\<open>src/components.c\<close> for configurations without \<^verbatim>\<open>RT_MAIN_THREAD_PRIORITY\<close>.
\<close>

section \<open>The boot sequence\<close>

definition rt_application_init :: "'h heap_ops \<Rightarrow> nat \<Rightarrow> 'h kernel \<Rightarrow> 'h kernel option" where
  "rt_application_init H main_thread_entry s = do {
     (tid, s) \<leftarrow> rt_thread_create H ''main'' main_thread_entry RT_NULL 2048 (of_nat (RT_THREAD_PRIORITY_MAX div 3)) 20 s;
     RT_ASSERT (tid \<noteq> RT_NULL);
     (_, s) \<leftarrow> rt_thread_startup tid s;
     Some s }"

text \<open>
  \<^verbatim>\<open>rtthread_startup\<close> up to the context switch into the first thread; \<open>board\<close> is the board's \<^verbatim>\<open>rt_hw_board_init\<close>.
  With soft timers not configured \<^verbatim>\<open>rt_system_timer_thread_init\<close> does nothing.
\<close>

definition rtthread_startup ::
    "'h heap_ops \<Rightarrow> ('h kernel \<Rightarrow> 'h kernel option) \<Rightarrow> nat \<Rightarrow> ptr \<Rightarrow> nat \<Rightarrow> ptr \<Rightarrow> 'h kernel \<Rightarrow> 'h kernel option" where
  "rtthread_startup H board main_thread_entry idle idle_entry idle_stack s = do {
     s \<leftarrow> board s;
     let s = rt_system_timer_init s;
     let s = rt_system_scheduler_init s;
     s \<leftarrow> rt_application_init H main_thread_entry s;
     s \<leftarrow> rt_thread_idle_init idle idle_entry idle_stack s;
     rt_system_scheduler_start s }"

section \<open>Operations before the scheduler starts\<close>

definition booting :: "'h kernel \<Rightarrow> bool" where
  "booting s \<longleftrightarrow> swf {} s \<and> cur s = RT_NULL \<and> lock_nest s = 0 \<and> intr_nest s = 0 \<and> timer_list s = [] \<and>
     rt_object_get_information RT_Object_Class_Thread s = Some 0 \<and> rt_object_get_information RT_Object_Class_Timer s = Some 9"

lemma rt_system_scheduler_init_reset:
  assumes "tlists s = (\<lambda>_. [])" "lock_nest s = 0" "ready_group s = 0"
  shows "rt_system_scheduler_init s = s"
proof -
  have q: "init_queue h s = s" for h
    using assms(1) by (cases s) (simp add: init_queue_def fun_upd_idem)
  have "fold (\<lambda>offset. init_queue (ReadyQ offset)) xs s = s" for xs
    by (induction xs) (simp_all add: q)
  moreover have "s\<lparr>lock_nest := 0\<rparr> = s" "s\<lparr>ready_group := 0\<rparr> = s"
    using assms(2,3) by (cases s; simp)+
  ultimately show ?thesis
    by (simp add: rt_system_scheduler_init_def Let_def q)
qed

lemma obj_linked_registered:
  assumes "i < length (container u)"
  shows "obj_linked x (registered i r ty name u) \<longleftrightarrow> x = r \<or> obj_linked x u"
proof -
  have "info_objects (registered i r ty name u) j = (if j = i then r # info_objects u i else info_objects u j)"
    if "j < length (container u)" for j
    using assms that by (simp add: registered_def info_objects_def)
  then show ?thesis
    using assms unfolding obj_linked_iff by (auto simp: registered_def split: if_splits)
qed

lemma info_lt_container: "rt_object_get_information ty s = Some i \<Longrightarrow> i < length (container s)"
  using info_index_Some by (auto simp: rt_object_get_information_def)

lemma boot_object_init:
  assumes b: "booting s" and ty: "rt_object_get_information ty s = Some i" and free: "\<not> obj_linked r s"
  shows "rt_object_init r ty name s = Some (registered i r ty name s)" "booting (registered i r ty name s)"
proof -
  have s: "swf {} s" "lock_nest s = 0" "cur s = 0" using b by (simp_all add: booting_def)
  obtain u where u: "rt_object_init r ty name s = Some (registered i r ty name u)" "rt_exit_critical (rt_enter_critical s) = Some u"
    by (rule rt_object_init_eq [OF s(1) ty free]) blast
  have "u = s" using rt_exit_enter_critical [of s] s u(2) by simp
  then show "rt_object_init r ty name s = Some (registered i r ty name s)" using u by simp
  show "booting (registered i r ty name s)" using b by (simp add: booting_def registered_view)
qed

text \<open>A thread structure whose object is registered is initialised and registers its timer.\<close>

lemma boot_thread_init:
  assumes b: "booting s" and t: "t \<noteq> RT_NULL" "o_type (objs s (Obj t)) AND NOT RT_Object_Class_Static = RT_Object_Class_Thread"
    and free: "\<not> in_some_list t (tlists s)" "\<not> obj_linked (ThreadTimer t) s" and p: "unat prio < 32"
  obtains u where "thread_init t name en pa st sz prio tick s = Some (RT_EOK, u)" "booting u" "thread_ok u t" "tstat u t = RT_THREAD_INIT"
    "th_init_priority (threads u t) = prio" "\<And>x. x \<noteq> t \<Longrightarrow> threads u x = threads s x" "tlists u = tlists s" "heap u = heap s"
    "\<And>r. obj_linked r u \<longleftrightarrow> r = ThreadTimer t \<or> obj_linked r s" "o_flag (objs u (ThreadTimer t)) AND RT_TIMER_FLAG_ACTIVATED = 0"
proof -
  let ?g = "\<lambda>r. r\<lparr>th_init_priority := prio, th_current_priority := prio, th_number_mask := 0,
     th_init_tick := tick, th_remaining_tick := tick, th_error := RT_EOK, th_stat := RT_THREAD_INIT, th_cleanup := 0, th_user_data := 0\<rparr>"
  define v where "v = upd_thread t ?g (upd_thread t (\<lambda>r. r\<lparr>th_entry := en, th_parameter := pa, th_stack_addr := st, th_stack_size := sz\<rparr>) s)"
  let ?r = "registered 9 (ThreadTimer t) RT_Object_Class_Timer (o_name (objs s (Obj t))) v"
  define u where "u = upd_timer (ThreadTimer t) (\<lambda>r. r\<lparr>tm_func := Thread_Timeout t, tm_timeout := 0, tm_init := 0\<rparr>)
     (upd_obj (ThreadTimer t) (\<lambda>r. r\<lparr>o_flag := o_flag r AND NOT RT_TIMER_FLAG_ACTIVATED\<rparr>)
        (upd_obj (ThreadTimer t) (\<lambda>r. r\<lparr>o_flag := RT_TIMER_FLAG_ONE_SHOT\<rparr>) ?r))"
  have s: "swf {} s" using b by (simp add: booting_def)
  have v: "objs v = objs s" "tlists v = tlists s" "container v = container s" "timer_list v = timer_list s" "heap v = heap s"
    "cur v = cur s" "lock_nest v = lock_nest s" "intr_nest v = intr_nest s"
    by (simp_all add: v_def)
  have th: "threads v t = ?g ((threads s t)\<lparr>th_entry := en, th_parameter := pa, th_stack_addr := st, th_stack_size := sz\<rparr>)"
    "x \<noteq> t \<Longrightarrow> threads v x = threads s x" for x
    by (simp_all add: v_def)
  have "swf {} v"
    unfolding v_def by (rule swf_reset_thread) (use s free p in \<open>simp_all add: swf_upd_thread\<close>)
  then have bv: "booting v"
    using b by (simp add: booting_def v rt_object_get_information_def)
  have ot: "\<not> obj_linked (ThreadTimer t) v" using free obj_linked_cong [OF v(3)] by simp
  have i9: "rt_object_get_information RT_Object_Class_Timer v = Some 9" using bv by (simp add: booting_def)
  note r = boot_object_init [OF bv i9 ot, of "o_name (objs s (Obj t))"]
  show thesis
  proof (rule that)
    have "rt_timer_init (ThreadTimer t) (o_name (objs s (Obj t))) (Thread_Timeout t) 0 RT_TIMER_FLAG_ONE_SHOT v = Some u"
      using r(2) by (simp add: rt_timer_init_def r(1) timer_init_def Let_def u_def booting_def)
    then show "thread_init t name en pa st sz prio tick s = Some (RT_EOK, u)"
      using free(1) p by (simp add: thread_init_def Let_def v_def)
    show "booting u"
      using r(2) by (simp add: booting_def u_def rt_object_get_information_def)
    have k: "objs u x = objs s x" if "x \<noteq> ThreadTimer t" for x
      using that by (simp add: u_def registered_def v)
    have ty: "o_type (objs u (ThreadTimer t)) = 0x8A" by (simp add: u_def registered_def)
    show "thread_ok u t"
      using t k [of "Obj t"] ty by (simp add: thread_ok_def timer_obj_def)
    show "tstat u t = RT_THREAD_INIT" "th_init_priority (threads u t) = prio" "\<And>x. x \<noteq> t \<Longrightarrow> threads u x = threads s x"
      "tlists u = tlists s" "heap u = heap s"
      by (simp_all add: u_def tstat_def registered_def th v)
    show "obj_linked x u \<longleftrightarrow> x = ThreadTimer t \<or> obj_linked x s" for x
      using obj_linked_registered [OF info_lt_container [OF i9], of x "ThreadTimer t" RT_Object_Class_Timer "o_name (objs s (Obj t))"]
        obj_linked_cong [OF v(3), of x]
      by (simp add: u_def obj_linked_def)
    show "o_flag (objs u (ThreadTimer t)) AND RT_TIMER_FLAG_ACTIVATED = 0"
      by (simp add: u_def)
  qed
qed

text \<open>Starting a thread links it to its ready queue.\<close>

lemma boot_thread_startup:
  assumes b: "booting s" and t: "thread_ok s t" "tstat s t = RT_THREAD_INIT"
    and f: "o_flag (objs s (ThreadTimer t)) AND RT_TIMER_FLAG_ACTIVATED = 0"
  defines "p \<equiv> unat (th_init_priority (threads s t))"
  obtains u where "rt_thread_startup t s = Some (RT_EOK, u)" "booting u" "tstat u t = RT_THREAD_READY" "tprio u t = p"
    "\<And>x. x \<noteq> t \<Longrightarrow> threads u x = threads s x" "tlists u = lists_push_back (ReadyQ p) t (tlists s)"
    "objs u = objs s" "container u = container s" "heap u = heap s" "p < 32"
proof -
  let ?p = "th_init_priority (threads s t)"
  let ?s1 = "upd_thread t (\<lambda>r. r\<lparr>th_current_priority := ?p, th_number_mask := bitmask (unat ?p)\<rparr>) s"
  let ?s2 = "upd_thread t (\<lambda>r. r\<lparr>th_stat := 2\<rparr>) ?s1"
  have s: "swf {} s" and c: "cur s = 0" using b by (simp_all add: booting_def)
  have t0: "t \<noteq> 0" using t by (simp add: thread_ok_def)
  have p: "unat ?p < 32" using swf_prio_lt(2) [OF s] .
  have free: "\<not> in_some_list t (tlists s)" using swf_linked(2) [OF s] t by auto
  have s1: "swf {} ?s1" using swf_set_priority [OF s p, of t] t by simp
  have "swf ({} - {t}) ?s2" using free p by (intro swf_upd_stat_free [OF s1]) (auto simp: prio_ok_def tprio_def)
  then have s2: "swf {} ?s2" by simp
  have t2: "thread_ok ?s2 t" "tstat ?s2 t = 2" "tprio ?s2 t = p"
    using t thread_ok_cong [of ?s2 s] by (auto simp: tstat_def tprio_def p_def)
  have "lists_remove t (tlists s) = tlists s"
    using free by (auto simp: fun_eq_iff lists_remove_def in_some_list_def)
  then have un: "unlink_thread t ?s2 = ?s2"
    by (simp add: unlink_thread_def upd_thread_def)
  have w: "rt_schedule_insert_thread t ?s2 = Some (enqueued t ?s2)" "swf {} (enqueued t ?s2)"
    using swf_wake [OF s2 t2(2) t0, of ?s2] \<open>lists_remove t (tlists s) = tlists s\<close> by simp_all
  have stop: "rt_timer_stop (ThreadTimer t) ?s2 = Some (- RT_ERROR, ?s2)"
    using t2(1) f by (simp add: rt_timer_stop_def timer_check_type_eq thread_ok_def)
  have "rt_thread_resume t ?s2 = Some (RT_EOK, enqueued t ?s2)"
    using t2 un stop w(1) by (simp add: rt_thread_resume_def Let_def)
  then have "rt_thread_startup t s = Some (RT_EOK, enqueued t ?s2)"
    using t t0 p c by (simp add: rt_thread_startup_def set_priority_def Let_def rt_thread_self_def)
  then show thesis
  proof (rule that)
    show "booting (enqueued t ?s2)"
      using b w(2) by (simp add: booting_def rt_object_get_information_def)
    show "tstat (enqueued t ?s2) t = RT_THREAD_READY" "tlists (enqueued t ?s2) = lists_push_back (ReadyQ p) t (tlists s)"
      using t0 c t2(3) by (simp_all add: tstat_enqueued tlists_enqueued)
    show "threads (enqueued t ?s2) x = threads s x" if "x \<noteq> t" for x
      using that by (simp add: enqueued_def set_stat_def)
  qed (use t2(3) p in \<open>simp_all add: p_def\<close>)
qed

text \<open>A thread object from the heap: the structure is cleared, registered and initialised.\<close>

lemma boot_object_allocate:
  assumes b: "booting s" and k: "kmalloc H (heap s) (info_size (container s ! 0)) = Some (t, h)" "t \<noteq> RT_NULL"
    and free: "\<not> in_some_list t (tlists s)" "\<not> obj_linked (Obj t) s"
  obtains u where "rt_object_allocate H RT_Object_Class_Thread name s = Some (t, u)" "booting u"
    "o_type (objs u (Obj t)) = RT_Object_Class_Thread" "tlists u = tlists s" "heap u = h"
    "\<And>x. x \<noteq> t \<Longrightarrow> threads u x = threads s x" "\<And>r. obj_linked r u \<longleftrightarrow> r = Obj t \<or> obj_linked r s"
proof -
  define v where "v = upd_timer (ThreadTimer t) (\<lambda>_. zero_timer) (upd_obj (ThreadTimer t) (\<lambda>_. zero_object)
     (upd_thread t (\<lambda>_. zero_thread) (upd_obj (Obj t) (\<lambda>_. zero_object) (s\<lparr>heap := h\<rparr>))))"
  define w where "w = upd_obj (Obj t) (\<lambda>r. r\<lparr>o_type := RT_Object_Class_Thread, o_flag := 0, o_name := rt_strncpy name RT_NAME_MAX\<rparr>) v"
  define u where "u = w\<lparr>container := (container w)[0 := (container w ! 0)\<lparr>info_list := Obj t # info_objects w 0\<rparr>]\<rparr>"
  have i: "rt_object_get_information RT_Object_Class_Thread s = Some 0" using b by (simp add: booting_def)
  have c: "clear_object RT_Object_Class_Thread t (s\<lparr>heap := h\<rparr>) = Some v"
    using free(1) by (simp add: clear_object_def Let_def v_def)
  have cw: "container w = container s" by (simp add: w_def v_def)
  then have l: "obj_link 0 (Obj t) w = Some u"
    using free(2) obj_linked_cong [of w s] by (simp add: obj_link_def u_def)
  have a: "rt_object_allocate H RT_Object_Class_Thread name s = Some (t, u)"
    using b k c l i by (simp add: rt_object_allocate_def booting_def not_in_interrupt_def w_def [symmetric])
  have ln: "0 < length (container s)" using info_lt_container [OF i] .
  show thesis
  proof (rule that [OF a])
    have "swf {} u" using swf_rt_object_allocate [OF _ a] b by (simp add: booting_def)
    moreover have "rt_object_get_information ty u = rt_object_get_information ty s" for ty
      by (simp add: u_def cw rt_object_get_information_def info_index_list_update)
    ultimately show "booting u" using b by (simp add: booting_def) (simp add: u_def w_def v_def)
    show "obj_linked r u \<longleftrightarrow> r = Obj t \<or> obj_linked r s" for r
      using ln cw by (cases "container s") (auto simp: u_def obj_linked_def info_objects_def)
  qed (simp_all add: u_def w_def v_def)
qed

lemma boot_thread_create:
  assumes b: "booting s" and k: "kmalloc H (heap s) (info_size (container s ! 0)) = Some (t, h1)" "t \<noteq> RT_NULL"
      "kmalloc H h1 (unat sz) = Some (st, h2)" "st \<noteq> RT_NULL"
    and free: "\<not> in_some_list t (tlists s)" "\<not> obj_linked (Obj t) s" "\<not> obj_linked (ThreadTimer t) s" and p: "unat prio < 32"
  obtains u where "rt_thread_create H name en pa sz prio tick s = Some (t, u)" "booting u" "thread_ok u t" "tstat u t = RT_THREAD_INIT"
    "th_init_priority (threads u t) = prio" "\<And>x. x \<noteq> t \<Longrightarrow> threads u x = threads s x" "tlists u = tlists s"
    "\<And>r. obj_linked r u \<longleftrightarrow> r = Obj t \<or> r = ThreadTimer t \<or> obj_linked r s"
    "o_flag (objs u (ThreadTimer t)) AND RT_TIMER_FLAG_ACTIVATED = 0"
proof -
  obtain v where v: "rt_object_allocate H RT_Object_Class_Thread name s = Some (t, v)" "booting v"
    "o_type (objs v (Obj t)) = RT_Object_Class_Thread" "tlists v = tlists s" "heap v = h1"
    "\<And>x. x \<noteq> t \<Longrightarrow> threads v x = threads s x" "\<And>r. obj_linked r v \<longleftrightarrow> r = Obj t \<or> obj_linked r s"
    by (rule boot_object_allocate [OF b k(1,2) free(1,2)]) blast
  let ?v = "v\<lparr>heap := h2\<rparr>"
  have bv: "booting ?v" "\<And>r. obj_linked r ?v \<longleftrightarrow> obj_linked r v"
    using v(2) by (simp_all add: booting_def rt_object_get_information_def obj_linked_def)
  have t: "o_type (objs ?v (Obj t)) AND NOT RT_Object_Class_Static = RT_Object_Class_Thread" using v(3) by simp
  have f: "\<not> in_some_list t (tlists ?v)" "\<not> obj_linked (ThreadTimer t) ?v" using free v(4,7) bv(2) by simp_all
  obtain u where u: "thread_init t name en pa st sz prio tick ?v = Some (RT_EOK, u)" "booting u" "thread_ok u t" "tstat u t = RT_THREAD_INIT"
    "th_init_priority (threads u t) = prio" "\<And>x. x \<noteq> t \<Longrightarrow> threads u x = threads ?v x" "tlists u = tlists ?v"
    "\<And>r. obj_linked r u \<longleftrightarrow> r = ThreadTimer t \<or> obj_linked r ?v" "o_flag (objs u (ThreadTimer t)) AND RT_TIMER_FLAG_ACTIVATED = 0"
    by (rule boot_thread_init [OF bv(1) k(2) t f p]) blast
  show thesis
  proof (rule that [OF _ u(2-5) _ _ _ u(9)])
    show "rt_thread_create H name en pa sz prio tick s = Some (t, u)"
      using v(1,5) k u(1) by (simp add: rt_thread_create_def)
  qed (use u(6,7,8) v(4,6,7) bv(2) in auto)
qed

lemma boot_thread_static:
  assumes b: "booting s" and t: "t \<noteq> RT_NULL" "st \<noteq> RT_NULL"
    and free: "\<not> in_some_list t (tlists s)" "\<not> obj_linked (Obj t) s" "\<not> obj_linked (ThreadTimer t) s" and p: "unat prio < 32"
  obtains u where "rt_thread_init t name en pa st sz prio tick s = Some (RT_EOK, u)" "booting u" "thread_ok u t" "tstat u t = RT_THREAD_INIT"
    "th_init_priority (threads u t) = prio" "\<And>x. x \<noteq> t \<Longrightarrow> threads u x = threads s x" "tlists u = tlists s"
    "o_flag (objs u (ThreadTimer t)) AND RT_TIMER_FLAG_ACTIVATED = 0"
proof -
  have i: "rt_object_get_information RT_Object_Class_Thread s = Some 0" using b by (simp add: booting_def)
  let ?v = "registered 0 (Obj t) RT_Object_Class_Thread name s"
  note r = boot_object_init [OF b i free(2), of name]
  have ty: "o_type (objs ?v (Obj t)) AND NOT RT_Object_Class_Static = RT_Object_Class_Thread"
    by (simp add: registered_def)
  have f: "\<not> in_some_list t (tlists ?v)" "\<not> obj_linked (ThreadTimer t) ?v"
    using free obj_linked_registered [OF info_lt_container [OF i]] by (simp_all add: registered_view)
  obtain u where u: "thread_init t name en pa st sz prio tick ?v = Some (RT_EOK, u)" "booting u" "thread_ok u t" "tstat u t = RT_THREAD_INIT"
    "th_init_priority (threads u t) = prio" "\<And>x. x \<noteq> t \<Longrightarrow> threads u x = threads ?v x" "tlists u = tlists ?v"
    "o_flag (objs u (ThreadTimer t)) AND RT_TIMER_FLAG_ACTIVATED = 0"
    by (rule boot_thread_init [OF r(2) t(1) ty f p]) blast
  show thesis
  proof (rule that [OF _ u(2-5) _ _ u(8)])
    show "rt_thread_init t name en pa st sz prio tick s = Some (RT_EOK, u)"
      using r(1) t u(1) by (simp add: rt_thread_init_def)
  qed (use u(6,7) in \<open>simp_all add: registered_view\<close>)
qed

text \<open>The scheduler starts the first thread of the highest non-empty ready queue.\<close>

lemma rt_system_scheduler_start_highest:
  assumes s: "swf {} s" and p: "p < 32" "tlists s (ReadyQ p) = t # ts" "\<And>q. q < p \<Longrightarrow> tlists s (ReadyQ q) = []" and c: "cur s = RT_NULL"
  obtains s' where "rt_system_scheduler_start s = Some s'" "cur s' = t" "tstat s' t = RT_THREAD_RUNNING"
    "\<And>x. x \<noteq> t \<Longrightarrow> tstat s' x = tstat s x" "\<And>x. tprio s' x = tprio s x" "lock_nest s' = lock_nest s"
proof -
  have "bit (ready_group s) p" using s p by (simp add: swf_def bitmap_ok_def)
  then have g: "ready_group s \<noteq> 0" by auto
  note h = swf_highest [OF s g]
  have e: "rt_ffs (ready_group s) - 1 = p"
    using h(1,2) h(3) [of p] p by (metis list.distinct(1) nat_neq_iff)
  have "tlists s (ReadyQ p) \<noteq> []" "t \<in> set (tlists s (ReadyQ p))" using p by simp_all
  then have t: "t \<noteq> 0" "tprio s t = p" "tstat s t = 1" using swf_readyq [OF s] by auto
  have r: "rt_schedule_remove_thread t (s\<lparr>cur := t\<rparr>) = Some (dequeued t (s\<lparr>cur := t\<rparr>))"
    using t p by (intro rt_schedule_remove_thread_eq) auto
  let ?s = "upd_thread t (\<lambda>r. r\<lparr>th_stat := 3\<rparr>) (dequeued t (s\<lparr>cur := t\<rparr>))\<lparr>start_flg := 1\<rparr>"
  show thesis
  proof (rule that)
    show "rt_system_scheduler_start s = Some ?s"
      using h(4) p(2) r by (simp add: rt_system_scheduler_start_def e del: One_nat_def)
    show "tstat ?s x = tstat s x" if "x \<noteq> t" for x
      using that by (simp add: tstat_def dequeued_def)
    show "tprio ?s x = tprio s x" for x
      by (simp add: tprio_def dequeued_def)
  qed (simp_all add: tstat_def)
qed

lemma booting_reset: "booting (kernel_reset size_of h)"
  by (simp add: booting_def kernel_reset_ok) (simp add: kernel_reset_def zero_kernel_def rt_object_get_information_def rt_object_container_def)

lemma reset_view:
  "tlists (kernel_reset size_of h) = (\<lambda>_. [])" "heap (kernel_reset size_of h) = h" "\<not> obj_linked r (kernel_reset size_of h)"
  "info_size (container (kernel_reset size_of h) ! 0) = size_of RT_Object_Class_Thread"
  "rt_system_scheduler_init (rt_system_timer_init (kernel_reset size_of h)) = kernel_reset size_of h"
proof -
  let ?s = "kernel_reset size_of h"
  show "tlists ?s = (\<lambda>_. [])" "heap ?s = h" "\<not> obj_linked r ?s" "info_size (container ?s ! 0) = size_of RT_Object_Class_Thread"
    by (simp_all add: kernel_reset_def zero_kernel_def obj_linked_def rt_object_container_def)
  have "rt_system_timer_init ?s = ?s" by (simp add: rt_system_timer_init_def kernel_reset_def zero_kernel_def)
  moreover have "rt_system_scheduler_init ?s = ?s"
    by (rule rt_system_scheduler_init_reset) (simp_all add: kernel_reset_def zero_kernel_def)
  ultimately show "rt_system_scheduler_init (rt_system_timer_init ?s) = ?s" by simp
qed

section \<open>The boot sequence as kernel steps\<close>

lemma boot_sequence:
  assumes board: "board (kernel_reset size_of h0) = Some (kernel_reset size_of h)"
    and k: "kmalloc H h (size_of RT_Object_Class_Thread) = Some (t, h1)" "t \<noteq> RT_NULL" "kmalloc H h1 2048 = Some (st, h2)" "st \<noteq> RT_NULL"
    and i: "idle \<noteq> RT_NULL" "idle \<noteq> t" "stack \<noteq> RT_NULL"
  obtains s' where "rtthread_startup H board main idle en stack (kernel_reset size_of h0) = Some s'"
    "reachable H user cleanup (kernel_reset size_of h) s'" "swf {} s'" "cur s' = t" "tstat s' t = RT_THREAD_RUNNING" "tprio s' t = 10"
    "tstat s' idle = RT_THREAD_READY" "tprio s' idle = 31" "lock_nest s' = 0"
proof -
  let ?s = "kernel_reset size_of h"
  have k': "kmalloc H (heap ?s) (info_size (container ?s ! 0)) = Some (t, h1)" "kmalloc H h1 (unat (2048 :: u32)) = Some (st, h2)"
    using k by (simp_all add: reset_view)
  have free: "\<not> in_some_list x (tlists ?s)" for x by (simp add: reset_view in_some_list_def)
  obtain a where a: "rt_thread_create H ''main'' main RT_NULL 2048 10 20 ?s = Some (t, a)" "booting a" "thread_ok a t"
    "tstat a t = RT_THREAD_INIT" "th_init_priority (threads a t) = 10" "\<And>x. x \<noteq> t \<Longrightarrow> threads a x = threads ?s x" "tlists a = tlists ?s"
    "\<And>r. obj_linked r a \<longleftrightarrow> r = Obj t \<or> r = ThreadTimer t \<or> obj_linked r ?s"
    "o_flag (objs a (ThreadTimer t)) AND RT_TIMER_FLAG_ACTIVATED = 0"
    by (rule boot_thread_create [OF booting_reset k'(1) k(2) k'(2) k(4) free reset_view(3) reset_view(3),
        where prio = 10 and name = "''main''" and en = main and pa = 0 and tick = 20]) simp_all
  obtain b where b: "rt_thread_startup t a = Some (RT_EOK, b)" "booting b" "tstat b t = RT_THREAD_READY" "tprio b t = 10"
    "\<And>x. x \<noteq> t \<Longrightarrow> threads b x = threads a x" "tlists b = lists_push_back (ReadyQ 10) t (tlists a)" "objs b = objs a" "container b = container a"
    by (rule boot_thread_startup [OF a(2,3,4,9)]) (use a(5) in simp)
  have tl: "tlists b = (\<lambda>_. [])(ReadyQ 10 := [t])" using b(6) a(7) by (simp add: reset_view lists_push_back_def)
  have f: "\<not> in_some_list idle (tlists b)" "\<not> obj_linked (Obj idle) b" "\<not> obj_linked (ThreadTimer idle) b"
    using i a(8) obj_linked_cong [OF b(8)] by (simp_all add: tl in_some_list_def reset_view)
  obtain c where c: "rt_thread_init idle ''tidle0'' en RT_NULL stack 256 31 32 b = Some (RT_EOK, c)" "booting c" "thread_ok c idle"
    "tstat c idle = RT_THREAD_INIT" "th_init_priority (threads c idle) = 31" "\<And>x. x \<noteq> idle \<Longrightarrow> threads c x = threads b x"
    "tlists c = tlists b" "o_flag (objs c (ThreadTimer idle)) AND RT_TIMER_FLAG_ACTIVATED = 0"
    by (rule boot_thread_static [OF b(2) i(1,3) f, where prio = 31 and name = "''tidle0''" and en = en and pa = 0 and sz = 256 and tick = 32]) simp_all
  obtain d where d: "rt_thread_startup idle c = Some (RT_EOK, d)" "booting d" "tstat d idle = RT_THREAD_READY" "tprio d idle = 31"
    "\<And>x. x \<noteq> idle \<Longrightarrow> threads d x = threads c x" "tlists d = lists_push_back (ReadyQ 31) idle (tlists c)"
    by (rule boot_thread_startup [OF c(2,3,4,8)]) (use c(5) in simp)
  have td: "tlists d (ReadyQ 10) = [t]" "\<And>q. q < 10 \<Longrightarrow> tlists d (ReadyQ q) = []"
    by (auto simp: d(6) c(7) tl lists_push_back_def)
  have sd: "swf {} d" "cur d = 0" "lock_nest d = 0" using d(2) by (simp_all add: booting_def)
  have "threads d RT_NULL = zero_thread"
    using i(1) k(2) by (simp add: d(5) c(6) b(5) a(6)) (simp add: kernel_reset_def zero_kernel_def)
  then have d0: "tstat d RT_NULL = RT_THREAD_INIT" by (simp add: tstat_def zero_thread_def)
  obtain s' where s': "rt_system_scheduler_start d = Some s'" "cur s' = t" "tstat s' t = RT_THREAD_RUNNING"
    "\<And>x. x \<noteq> t \<Longrightarrow> tstat s' x = tstat d x" "\<And>x. tprio s' x = tprio d x" "lock_nest s' = lock_nest d"
    by (rule rt_system_scheduler_start_highest [OF sd(1) _ td sd(2)]) simp_all
  show thesis
  proof (rule that)
    have "rt_application_init H main ?s = Some b"
      using a(1) b(1) k by (simp add: rt_application_init_def)
    moreover have "rt_thread_idle_init idle en stack b = Some d"
      using c(1) d(1) by (simp add: rt_thread_idle_init_def)
    ultimately show "rtthread_startup H board main idle en stack (kernel_reset size_of h0) = Some s'"
      using board s'(1) by (simp add: rtthread_startup_def reset_view)
    show "reachable H user cleanup ?s s'"
      by (intro reachable.step [OF reachable.step [OF reachable.step [OF reachable.step [OF reachable.step [OF reachable.start]]]]]
        kernel_step.thread)
        (rule thread_step.thread_create [OF a(1)] thread_step.thread_startup [OF b(1)] thread_step.thread_init [OF c(1)]
          thread_step.thread_startup [OF d(1)] thread_step.scheduler_start [OF sd(2) d0 s'(1)])+
    show "swf {} s'" by (rule swf_rt_system_scheduler_start [OF sd(1) _ s'(1)]) (simp add: d0 sd(2))
    have "tprio d t = tprio b t" using d(5) c(6) i by (simp add: tprio_def)
    then show "tprio s' t = 10" using s'(5) b(4) by simp
  qed (use s' d i sd in simp_all)
qed

end
