(* ===== verification/RT_Ringbuffer.thy ===== *)
theory RT_Ringbuffer
  imports RT_State RT_Fifo
begin

text \<open>
  The byte ring buffer of \<^verbatim>\<open>components/drivers/src/ringbuffer.c\<close>, which serial drivers and pipes fill and drain. Its two
  indices have a mirror bit each: equal indices mean empty with equal mirror bits and full with different ones. The bytes
  that a buffer holds are a list; the operations are described by what they do to it.
\<close>

section \<open>Operations\<close>

text \<open>\<^verbatim>\<open>struct rt_ringbuffer\<close>: indices are bit fields of 15 bits, mirrors of one; \<open>rb_cells\<close> is the memory at
  \<^verbatim>\<open>buffer_ptr\<close>. The signed \<^verbatim>\<open>buffer_size\<close> is read as a natural number: \<^verbatim>\<open>rt_ringbuffer_init\<close> lets only positive sizes through.\<close>

record rt_ringbuffer =
  rb_buffer_ptr :: ptr
  rb_cells :: "nat \<Rightarrow> u8"
  rb_read_mirror :: bool
  rb_read_index :: "15 word"
  rb_write_mirror :: bool
  rb_write_index :: "15 word"
  rb_buffer_size :: u16

datatype rt_ringbuffer_state = RT_RINGBUFFER_EMPTY | RT_RINGBUFFER_FULL | RT_RINGBUFFER_HALFFULL

text \<open>Indices and size as numbers.\<close>

definition rd :: "rt_ringbuffer \<Rightarrow> nat" where "rd rb = unat (rb_read_index rb)"
definition wr :: "rt_ringbuffer \<Rightarrow> nat" where "wr rb = unat (rb_write_index rb)"
definition rt_ringbuffer_get_size :: "rt_ringbuffer \<Rightarrow> nat" where "rt_ringbuffer_get_size rb = unat (rb_buffer_size rb)"

abbreviation (input) bsize :: "rt_ringbuffer \<Rightarrow> nat" where "bsize \<equiv> rt_ringbuffer_get_size"

definition rt_ringbuffer_status :: "rt_ringbuffer \<Rightarrow> rt_ringbuffer_state" where
  "rt_ringbuffer_status rb =
    (if rb_read_index rb = rb_write_index rb then
       (if rb_read_mirror rb = rb_write_mirror rb then RT_RINGBUFFER_EMPTY else RT_RINGBUFFER_FULL)
     else RT_RINGBUFFER_HALFFULL)"

definition rt_ringbuffer_data_len :: "rt_ringbuffer \<Rightarrow> nat" where
  "rt_ringbuffer_data_len rb =
    (case rt_ringbuffer_status rb of
       RT_RINGBUFFER_EMPTY \<Rightarrow> 0
     | RT_RINGBUFFER_FULL \<Rightarrow> bsize rb
     | RT_RINGBUFFER_HALFFULL \<Rightarrow> if wr rb > rd rb then wr rb - rd rb else bsize rb - (rd rb - wr rb))"

definition rt_ringbuffer_space_len :: "rt_ringbuffer \<Rightarrow> nat" where
  "rt_ringbuffer_space_len rb = bsize rb - rt_ringbuffer_data_len rb"

definition rt_ringbuffer_init :: "ptr \<Rightarrow> u16 \<Rightarrow> rt_ringbuffer \<Rightarrow> rt_ringbuffer option" where
  "rt_ringbuffer_init pool size16 rb = do {
     RT_ASSERT (sint size16 > 0);
     Some (rb\<lparr>rb_read_mirror := False, rb_read_index := 0, rb_write_mirror := False, rb_write_index := 0,
       rb_buffer_ptr := pool, rb_buffer_size := size16 AND NOT 3\<rparr>) }"

definition rt_ringbuffer_reset :: "rt_ringbuffer \<Rightarrow> rt_ringbuffer" where
  "rt_ringbuffer_reset rb = rb\<lparr>rb_read_mirror := False, rb_read_index := 0, rb_write_mirror := False, rb_write_index := 0\<rparr>"

text \<open>\<^verbatim>\<open>memcpy\<close> into and out of the buffer, from offset \<open>i\<close>.\<close>

definition rb_copy_in :: "nat \<Rightarrow> u8 list \<Rightarrow> rt_ringbuffer \<Rightarrow> rt_ringbuffer option" where
  "rb_copy_in i bs rb = do {
     mem_ok (i + length bs \<le> bsize rb);
     Some (rb\<lparr>rb_cells := (\<lambda>k. if i \<le> k \<and> k < i + length bs then bs ! (k - i) else rb_cells rb k)\<rparr>) }"

definition rb_copy_out :: "nat \<Rightarrow> nat \<Rightarrow> rt_ringbuffer \<Rightarrow> u8 list option" where
  "rb_copy_out i n rb = do {
     mem_ok (i + n \<le> bsize rb);
     Some (map (rb_cells rb) [i..<i + n]) }"

text \<open>
  The common part of \<^verbatim>\<open>rt_ringbuffer_put\<close> and \<^verbatim>\<open>rt_ringbuffer_put_force\<close>: \<open>bs\<close> are stored from the write index on, in one
  piece or in two. The result tells whether the write index went into the other mirror.
\<close>

definition rb_store :: "u8 list \<Rightarrow> rt_ringbuffer \<Rightarrow> (bool \<times> rt_ringbuffer) option" where
  "rb_store bs rb =
    (if int (bsize rb) - int (wr rb) > int (length bs) then do {
       rb \<leftarrow> rb_copy_in (wr rb) bs rb;
       Some (False, rb\<lparr>rb_write_index := rb_write_index rb + of_nat (length bs)\<rparr>) }
     else do {
       mem_ok (wr rb \<le> bsize rb);
       let k = bsize rb - wr rb;
       rb \<leftarrow> rb_copy_in (wr rb) (take k bs) rb;
       rb \<leftarrow> rb_copy_in 0 (drop k bs) rb;
       let rb = rb\<lparr>rb_write_mirror := \<not> rb_write_mirror rb\<rparr>;
       Some (True, rb\<lparr>rb_write_index := of_nat (length bs - k)\<rparr>) })"

text \<open>The arguments \<^verbatim>\<open>ptr\<close> and \<^verbatim>\<open>length\<close> are the list of bytes; the number of bytes stored is returned.\<close>

definition rt_ringbuffer_put :: "u8 list \<Rightarrow> rt_ringbuffer \<Rightarrow> (nat \<times> rt_ringbuffer) option" where
  "rt_ringbuffer_put bs rb =
    (let space = rt_ringbuffer_space_len rb in
     if space = 0 then Some (0, rb)
     else do {
       let bs = (if space < length bs then take space bs else bs);
       (_, rb) \<leftarrow> rb_store bs rb;
       Some (length bs, rb) })"

definition rt_ringbuffer_put_force :: "u8 list \<Rightarrow> rt_ringbuffer \<Rightarrow> (nat \<times> rt_ringbuffer) option" where
  "rt_ringbuffer_put_force bs rb = do {
     let space_length = rt_ringbuffer_space_len rb;
     let bs = (if length bs > bsize rb then drop (length bs - bsize rb) bs else bs);
     (wrapped, rb) \<leftarrow> rb_store bs rb;
     let rb = (if length bs > space_length
       then (if wrapped then rb\<lparr>rb_read_mirror := \<not> rb_read_mirror rb, rb_read_index := rb_write_index rb\<rparr>
             else rb\<lparr>rb_read_index := rb_write_index rb\<rparr>)
       else rb);
     Some (length bs, rb) }"

definition rt_ringbuffer_get :: "nat \<Rightarrow> rt_ringbuffer \<Rightarrow> (u8 list \<times> rt_ringbuffer) option" where
  "rt_ringbuffer_get len rb =
    (let avail = rt_ringbuffer_data_len rb in
     if avail = 0 then Some ([], rb)
     else do {
       let len = (if avail < len then avail else len);
       if int (bsize rb) - int (rd rb) > int len then do {
         bs \<leftarrow> rb_copy_out (rd rb) len rb;
         Some (bs, rb\<lparr>rb_read_index := rb_read_index rb + of_nat len\<rparr>) }
       else do {
         mem_ok (rd rb \<le> bsize rb);
         let k = bsize rb - rd rb;
         bs1 \<leftarrow> rb_copy_out (rd rb) k rb;
         bs2 \<leftarrow> rb_copy_out 0 (len - k) rb;
         let rb = rb\<lparr>rb_read_mirror := \<not> rb_read_mirror rb\<rparr>;
         Some (bs1 @ bs2, rb\<lparr>rb_read_index := of_nat (len - k)\<rparr>) } })"

definition rt_ringbuffer_putchar :: "u8 \<Rightarrow> rt_ringbuffer \<Rightarrow> (nat \<times> rt_ringbuffer) option" where
  "rt_ringbuffer_putchar ch rb =
    (if rt_ringbuffer_space_len rb = 0 then Some (0, rb)
     else do {
       rb \<leftarrow> rb_copy_in (wr rb) [ch] rb;
       let rb = (if int (wr rb) = int (bsize rb) - 1
         then rb\<lparr>rb_write_mirror := \<not> rb_write_mirror rb, rb_write_index := 0\<rparr>
         else rb\<lparr>rb_write_index := rb_write_index rb + 1\<rparr>);
       Some (1, rb) })"

definition rt_ringbuffer_putchar_force :: "u8 \<Rightarrow> rt_ringbuffer \<Rightarrow> (nat \<times> rt_ringbuffer) option" where
  "rt_ringbuffer_putchar_force ch rb = do {
     let old_state = rt_ringbuffer_status rb;
     rb \<leftarrow> rb_copy_in (wr rb) [ch] rb;
     let rb = (if int (wr rb) = int (bsize rb) - 1
       then (let rb = rb\<lparr>rb_write_mirror := \<not> rb_write_mirror rb, rb_write_index := 0\<rparr>
             in if old_state = RT_RINGBUFFER_FULL
                then rb\<lparr>rb_read_mirror := \<not> rb_read_mirror rb, rb_read_index := rb_write_index rb\<rparr> else rb)
       else (let rb = rb\<lparr>rb_write_index := rb_write_index rb + 1\<rparr>
             in if old_state = RT_RINGBUFFER_FULL then rb\<lparr>rb_read_index := rb_write_index rb\<rparr> else rb));
     Some (1, rb) }"

definition rt_ringbuffer_getchar :: "rt_ringbuffer \<Rightarrow> (u8 option \<times> rt_ringbuffer) option" where
  "rt_ringbuffer_getchar rb =
    (if rt_ringbuffer_data_len rb = 0 then Some (None, rb)
     else do {
       bs \<leftarrow> rb_copy_out (rd rb) 1 rb;
       let rb = (if int (rd rb) = int (bsize rb) - 1
         then rb\<lparr>rb_read_mirror := \<not> rb_read_mirror rb, rb_read_index := 0\<rparr>
         else rb\<lparr>rb_read_index := rb_read_index rb + 1\<rparr>);
       Some (Some (hd bs), rb) })"

text \<open>
  Creation from the heap: the structure (12 bytes) and the memory for the bytes. A size that rounds down to 0 or is negative as a
  16-bit number stops at the assertion of \<^verbatim>\<open>rt_ringbuffer_init\<close>.
\<close>

definition rt_ringbuffer_create :: "'h heap_ops \<Rightarrow> u16 \<Rightarrow> rt_ringbuffer \<Rightarrow> 'h \<Rightarrow> ((ptr \<times> rt_ringbuffer) option \<times> 'h) option" where
  "rt_ringbuffer_create H size16 fresh h = do {
     RT_ASSERT (size16 > 0);
     let size16 = size16 AND NOT 3;
     (rb, h) \<leftarrow> kmalloc H h 12;
     if rb = RT_NULL then Some (None, h)
     else do {
       (pool, h) \<leftarrow> kmalloc H h (unat size16);
       if pool = RT_NULL then do {
         h \<leftarrow> kfree H h rb;
         Some (None, h) }
       else do {
         r \<leftarrow> rt_ringbuffer_init pool size16 fresh;
         Some (Some (rb, r), h) } } }"

definition rt_ringbuffer_destroy :: "'h heap_ops \<Rightarrow> ptr \<Rightarrow> rt_ringbuffer \<Rightarrow> 'h \<Rightarrow> 'h option" where
  "rt_ringbuffer_destroy H rb r h = do {
     RT_ASSERT (rb \<noteq> RT_NULL);
     h \<leftarrow> kfree H h (rb_buffer_ptr r);
     kfree H h rb }"

section \<open>The bytes in the buffer\<close>

text \<open>
  \<open>len\<close> bytes are in the buffer, from the read index on; the mirror bits differ when they go round the end.
\<close>

definition rb_at :: "rt_ringbuffer \<Rightarrow> nat \<Rightarrow> bool" where
  "rb_at rb len \<longleftrightarrow> 0 < bsize rb \<and> bsize rb < 2 ^ 15 \<and> rd rb < bsize rb \<and> len \<le> bsize rb \<and>
     wr rb = (rd rb + len) mod bsize rb \<and> (rb_write_mirror rb = rb_read_mirror rb \<longleftrightarrow> rd rb + len < bsize rb)"

definition rb_ok :: "rt_ringbuffer \<Rightarrow> bool" where
  "rb_ok rb \<longleftrightarrow> rb_at rb (rt_ringbuffer_data_len rb)"

definition rb_contents :: "rt_ringbuffer \<Rightarrow> u8 list" where
  "rb_contents rb = map (\<lambda>i. rb_cells rb ((rd rb + i) mod bsize rb)) [0..<rt_ringbuffer_data_len rb]"

text \<open>Which fields the size and the indices depend on.\<close>

lemma bsize_update [simp]:
  "bsize (rb\<lparr>rb_cells := c\<rparr>) = bsize rb" "bsize (rb\<lparr>rb_read_mirror := m\<rparr>) = bsize rb"
  "bsize (rb\<lparr>rb_write_mirror := m\<rparr>) = bsize rb" "bsize (rb\<lparr>rb_read_index := i\<rparr>) = bsize rb" "bsize (rb\<lparr>rb_write_index := i\<rparr>) = bsize rb"
  by (simp_all add: rt_ringbuffer_get_size_def)

lemma rd_update [simp]:
  "rd (rb\<lparr>rb_cells := c\<rparr>) = rd rb" "rd (rb\<lparr>rb_read_mirror := m\<rparr>) = rd rb" "rd (rb\<lparr>rb_write_mirror := m\<rparr>) = rd rb"
  "rd (rb\<lparr>rb_write_index := j\<rparr>) = rd rb" "rd (rb\<lparr>rb_read_index := i\<rparr>) = unat i"
  by (simp_all add: rd_def)

lemma wr_update [simp]:
  "wr (rb\<lparr>rb_cells := c\<rparr>) = wr rb" "wr (rb\<lparr>rb_read_mirror := m\<rparr>) = wr rb" "wr (rb\<lparr>rb_write_mirror := m\<rparr>) = wr rb"
  "wr (rb\<lparr>rb_read_index := j\<rparr>) = wr rb" "wr (rb\<lparr>rb_write_index := i\<rparr>) = unat i"
  by (simp_all add: wr_def)

lemma unat_15: "x < 2 ^ 15 \<Longrightarrow> unat (of_nat x :: 15 word) = x"
  by (simp add: unat_of_nat)

lemma unat_add_15: "unat a + k < 2 ^ 15 \<Longrightarrow> unat (a + of_nat k) = unat a + k" for a :: "15 word"
  by (simp add: unat_word_ariths unat_of_nat)

lemma index_eq: "rb_read_index rb = rb_write_index rb \<longleftrightarrow> rd rb = wr rb"
  by (simp add: rd_def wr_def word_unat_eq_iff)

lemma rb_at_data_len:
  assumes "rb_at rb len"
  shows "rt_ringbuffer_data_len rb = len"
proof -
  have a: "rd rb < bsize rb" "len \<le> bsize rb" "wr rb = (if rd rb + len < bsize rb then rd rb + len else rd rb + len - bsize rb)"
    "rb_write_mirror rb = rb_read_mirror rb \<longleftrightarrow> rd rb + len < bsize rb"
    using assms ring_mod [of "rd rb + len" "bsize rb"] by (auto simp: rb_at_def)
  then show ?thesis
    by (cases "rd rb + len < bsize rb"; cases "len = bsize rb"; cases "len = 0")
      (auto simp: rt_ringbuffer_data_len_def rt_ringbuffer_status_def index_eq)
qed

lemma rb_okI: "rb_at rb len \<Longrightarrow> rb_ok rb"
  by (simp add: rb_ok_def rb_at_data_len)

lemma rb_atD:
  assumes "rb_at rb len"
  shows "0 < bsize rb" "bsize rb < 2 ^ 15" "rd rb < bsize rb" "wr rb < bsize rb" "len \<le> bsize rb" "wr rb = (rd rb + len) mod bsize rb"
    "rb_contents rb = map (\<lambda>i. rb_cells rb ((rd rb + i) mod bsize rb)) [0..<len]" "rt_ringbuffer_space_len rb = bsize rb - len"
  using assms by (simp_all add: rb_at_def rb_contents_def rb_at_data_len [OF assms] rt_ringbuffer_space_len_def)

text \<open>Storing: the bytes go to the cells from the write index on, round the end.\<close>

lemma rb_store_eq:
  assumes w: "wr rb < bsize rb" "bsize rb < 2 ^ 15" and b: "length bs \<le> bsize rb"
  obtains rb' where "rb_store bs rb = Some (bsize rb \<le> wr rb + length bs, rb')" "wr rb' = (wr rb + length bs) mod bsize rb"
    "rb_read_index rb' = rb_read_index rb" "rb_read_mirror rb' = rb_read_mirror rb" "rb_buffer_size rb' = rb_buffer_size rb"
    "rb_write_mirror rb' = (if bsize rb \<le> wr rb + length bs then \<not> rb_write_mirror rb else rb_write_mirror rb)"
    "\<And>j. j < bsize rb \<Longrightarrow> rb_cells rb' j = (if (j + bsize rb - wr rb) mod bsize rb < length bs then bs ! ((j + bsize rb - wr rb) mod bsize rb) else rb_cells rb j)"
proof -
  let ?n = "bsize rb"
  have mod: "(j + ?n - wr rb) mod ?n = (if j < wr rb then j + ?n - wr rb else j - wr rb)" if "j < ?n" for j
    using that w ring_mod [of "j + ?n - wr rb" ?n] by auto
  show thesis
  proof (cases "?n \<le> wr rb + length bs")
    case False
    let ?rb = "rb\<lparr>rb_cells := (\<lambda>k. if wr rb \<le> k \<and> k < wr rb + length bs then bs ! (k - wr rb) else rb_cells rb k),
      rb_write_index := rb_write_index rb + of_nat (length bs)\<rparr>"
    have wi: "wr ?rb = wr rb + length bs" using unat_add_15 [of "rb_write_index rb" "length bs"] False w by (simp add: wr_def)
    have c: "int ?n - int (wr rb) > int (length bs)" using False by simp
    have "rb_store bs rb = Some (False, ?rb)"
      using c False by (simp add: rb_store_def rb_copy_in_def)
    then show thesis using False wi mod
      by (intro that [of ?rb]) (auto)
  next
    case True
    let ?k = "?n - wr rb"
    let ?rb = "rb\<lparr>rb_cells := (\<lambda>j. if j < length bs - ?k then bs ! (?k + j)
        else if wr rb \<le> j \<and> j < ?n then bs ! (j - wr rb) else rb_cells rb j),
      rb_write_mirror := \<not> rb_write_mirror rb, rb_write_index := of_nat (length bs - ?k)\<rparr>"
    have wi: "wr ?rb = (wr rb + length bs) mod ?n"
      using unat_15 [of "length bs - ?k"] b w True ring_mod [of "wr rb + length bs" ?n] by (simp add: wr_def)
    have c: "\<not> int ?n - int (wr rb) > int (length bs)" using True by simp
    have one: "rb_copy_in (wr rb) (take ?k bs) rb =
        Some (rb\<lparr>rb_cells := (\<lambda>j. if wr rb \<le> j \<and> j < ?n then bs ! (j - wr rb) else rb_cells rb j)\<rparr>)"
      using True w by (auto simp: rb_copy_in_def fun_eq_iff min_absorb2 intro!: arg_cong [where f = "\<lambda>c. rb_cells_update (\<lambda>_. c) rb"])
    have le: "length bs + wr rb - ?n \<le> ?n" using w b by linarith
    have two: "rb_copy_in 0 (drop ?k bs) (rb\<lparr>rb_cells := c\<rparr>) =
        Some (rb\<lparr>rb_cells := (\<lambda>j. if j < length bs - ?k then bs ! (?k + j) else c j)\<rparr>)" for c
      using True w b le by (simp add: rb_copy_in_def fun_eq_iff cong: if_cong)
    have "rb_store bs rb = Some (?n \<le> wr rb + length bs, ?rb)"
      using c w True by (simp add: rb_store_def one two)
    then show thesis
    proof (rule that)
      show "wr ?rb = (wr rb + length bs) mod ?n" by (rule wi)
      show "rb_cells ?rb j = (if (j + ?n - wr rb) mod ?n < length bs then bs ! ((j + ?n - wr rb) mod ?n) else rb_cells rb j)"
        if "j < ?n" for j
        using that True w b by (auto simp: mod [OF that] ac_simps)
    qed (use True in simp_all)
  qed
qed

text \<open>The distance from the cell at offset \<open>l\<close> of the read index to the one at offset \<open>i\<close>, going forward.\<close>

lemma ring_dist:
  fixes r i l n :: nat
  assumes "l \<le> n" "i < n"
  shows "((r + i) mod n + n - (r + l) mod n) mod n = (if i < l then n - l + i else i - l)"
proof -
  let ?b = "(r + l) mod n"
  have b: "?b \<le> (r + i) mod n + n" using assms mod_less_divisor [of n "r + l"] by linarith
  have "int (((r + i) mod n + n - ?b) mod n) = ((int r + int i) mod int n + int n - (int r + int l) mod int n) mod int n"
    using b by (simp add: of_nat_mod of_nat_diff)
  also have "\<dots> = ((int r + int i) mod int n - (int r + int l) mod int n + int n) mod int n"
    by (simp only: diff_add_eq)
  also have "\<dots> = (int i - int l) mod int n"
    by (simp only: mod_add_self2 mod_diff_eq add_diff_cancel_left)
  also have "\<dots> = int ((if i < l then n - l + i else i - l) mod n)"
  proof (cases "i < l")
    case True
    then have "int (n - l + i) = int i - int l + int n" using assms by linarith
    then show ?thesis using True by (simp only: if_True zmod_int mod_add_self2)
  qed (simp add: zmod_int of_nat_diff)
  finally show ?thesis using assms by (auto split: if_splits)
qed

lemma rb_store_room:
  assumes at: "rb_at rb len" and room: "len + length bs \<le> bsize rb"
  obtains rb' where "rb_store bs rb = Some (bsize rb \<le> wr rb + length bs, rb')" "rb_at rb' (len + length bs)"
    "rb_contents rb' = rb_contents rb @ bs" "bsize rb' = bsize rb"
proof -
  note r = rb_atD [OF at]
  obtain rb' where st: "rb_store bs rb = Some (bsize rb \<le> wr rb + length bs, rb')" and w: "wr rb' = (wr rb + length bs) mod bsize rb"
    and i: "rb_read_index rb' = rb_read_index rb" and m: "rb_read_mirror rb' = rb_read_mirror rb" and z: "rb_buffer_size rb' = rb_buffer_size rb"
    and wm: "rb_write_mirror rb' = (if bsize rb \<le> wr rb + length bs then \<not> rb_write_mirror rb else rb_write_mirror rb)"
    and c: "\<And>j. j < bsize rb \<Longrightarrow> rb_cells rb' j =
      (if (j + bsize rb - wr rb) mod bsize rb < length bs then bs ! ((j + bsize rb - wr rb) mod bsize rb) else rb_cells rb j)"
    by (rule rb_store_eq [OF r(4,2)]) (use room in auto)
  have e: "rd rb' = rd rb" "bsize rb' = bsize rb" by (simp_all add: rd_def rt_ringbuffer_get_size_def i z)
  have wr: "wr rb = (if rd rb + len < bsize rb then rd rb + len else rd rb + len - bsize rb)"
    using r(3,5,6) ring_mod [of "rd rb + len" "bsize rb"] by simp
  have w': "wr rb' = (rd rb + (len + length bs)) mod bsize rb"
    unfolding w by (subst r(6)) (simp add: mod_add_left_eq add.assoc)
  have "rb_write_mirror rb' = rb_read_mirror rb' \<longleftrightarrow> rd rb + (len + length bs) < bsize rb"
    using at room wr r(3) by (auto simp: rb_at_def m wm)
  then have at': "rb_at rb' (len + length bs)" using r room w' by (simp add: rb_at_def e)
  have cell: "rb_cells rb' ((rd rb + k) mod bsize rb) =
      (if len \<le> k then bs ! (k - len) else rb_cells rb ((rd rb + k) mod bsize rb))" if "k < len + length bs" for k
    using that room r(1) c [of "(rd rb + k) mod bsize rb"] ring_dist [OF r(5), of k "rd rb"] by (auto simp: r(6) [symmetric])
  have "rb_contents rb' = rb_contents rb @ bs"
    by (rule nth_equalityI) (auto simp: rb_atD(7) [OF at] rb_atD(7) [OF at'] e cell nth_append)
  then show thesis using st at' e by (intro that)
qed

lemma rb_ok_at: "rb_ok rb \<Longrightarrow> rb_at rb (length (rb_contents rb))"
  by (simp add: rb_ok_def rb_contents_def)

lemma rb_space: "rb_ok rb \<Longrightarrow> rt_ringbuffer_space_len rb = bsize rb - length (rb_contents rb)"
  by (simp add: rt_ringbuffer_space_len_def rb_contents_def)

lemma rb_okD:
  assumes "rb_ok rb"
  shows "length (rb_contents rb) \<le> bsize rb" "0 < bsize rb" "rd rb < bsize rb" "wr rb < bsize rb" "bsize rb < 2 ^ 15"
  using rb_atD [OF rb_ok_at [OF assms]] by auto

lemma rb_put_ok:
  assumes ok: "rb_ok rb"
  obtains rb' where "rt_ringbuffer_put bs rb = Some (min (length bs) (rt_ringbuffer_space_len rb), rb')" "rb_ok rb'"
    "rb_contents rb' = rb_contents rb @ take (rt_ringbuffer_space_len rb) bs" "bsize rb' = bsize rb"
proof (cases "rt_ringbuffer_space_len rb = 0")
  case True
  then show thesis using ok by (intro that [of rb]) (simp_all add: rt_ringbuffer_put_def)
next
  case False
  let ?b = "take (rt_ringbuffer_space_len rb) bs"
  have e: "(if rt_ringbuffer_space_len rb < length bs then ?b else bs) = ?b" by simp
  have "length (rb_contents rb) + length ?b \<le> bsize rb" using rb_space [OF ok] rb_okD(1) [OF ok] by simp
  then obtain rb' where "rb_store ?b rb = Some (bsize rb \<le> wr rb + length ?b, rb')"
    "rb_at rb' (length (rb_contents rb) + length ?b)" "rb_contents rb' = rb_contents rb @ ?b" "bsize rb' = bsize rb"
    by (rule rb_store_room [OF rb_ok_at [OF ok]]) blast
  then show thesis using False by (intro that [of rb']) (simp_all add: rt_ringbuffer_put_def Let_def e rb_okI del: take_all_iff)
qed

text \<open>Fetching: the first bytes, round the end.\<close>

lemma rb_get_ok:
  assumes ok: "rb_ok rb"
  obtains rb' where "rt_ringbuffer_get n rb = Some (take n (rb_contents rb), rb')" "rb_ok rb'"
    "rb_contents rb' = drop n (rb_contents rb)" "bsize rb' = bsize rb"
proof (cases "rb_contents rb = []")
  case True
  then show thesis using ok by (intro that [of rb]) (simp_all add: rt_ringbuffer_get_def rb_contents_def)
next
  case False
  let ?len = "length (rb_contents rb)" let ?n = "bsize rb"
  define m where "m = min n ?len"
  have ml: "m \<le> ?len" and td: "take n (rb_contents rb) = take m (rb_contents rb)" "drop n (rb_contents rb) = drop m (rb_contents rb)"
    by (simp_all add: m_def min_def)
  have dl: "rt_ringbuffer_data_len rb = ?len" by (simp add: rb_contents_def)
  have at: "rb_at rb ?len" by (rule rb_ok_at [OF ok])
  note r = rb_atD [OF at]
  have m: "(if ?len < n then ?len else n) = m" by (simp add: m_def)
  have nth: "rb_contents rb ! i = rb_cells rb ((rd rb + i) mod ?n)" if "i < ?len" for i
    using that by (simp add: rb_contents_def)
  show thesis
  proof (cases "?n - rd rb > m")
    case one: True
    let ?rb = "rb\<lparr>rb_read_index := rb_read_index rb + of_nat m\<rparr>"
    have ri: "unat (rb_read_index rb + of_nat m) = rd rb + m" using unat_add_15 [of "rb_read_index rb" m] one r(2) by (simp add: rd_def)
    have at': "rb_at ?rb (?len - m)"
      using at ri one ml by (auto simp: rb_at_def)
    have bs: "map (rb_cells rb) [rd rb..<rd rb + m] = take m (rb_contents rb)"
      using one r(3) ml by (intro nth_equalityI) (auto simp: nth mod_less)
    have "rb_contents ?rb = drop m (rb_contents rb)"
      using one ml by (intro nth_equalityI) (auto simp: rb_atD(7) [OF at'] nth ri add.assoc)
    moreover have "rt_ringbuffer_get n rb = Some (take m (rb_contents rb), ?rb)"
      using one False r(3) ml by (simp add: rt_ringbuffer_get_def dl m Let_def rb_copy_out_def bs)
    ultimately show thesis using rb_okI [OF at'] by (intro that [of ?rb]) (simp_all add: td)
  next
    case two: False
    define k where "k = ?n - rd rb"
    define q where "q = m - k"
    let ?rb = "rb\<lparr>rb_read_mirror := \<not> rb_read_mirror rb, rb_read_index := of_nat q\<rparr>"
    have kn: "?n = rd rb + k" "0 < k" using r(3) by (simp_all add: k_def)
    have mk: "k \<le> m" using two k_def by simp
    have qk: "m = k + q" using mk by (simp add: q_def)
    have ri: "unat (of_nat q :: 15 word) = q" using unat_15 [of q] r(2,5) ml by (simp add: q_def)
    have at': "rb_at ?rb (?len - m)"
      using at ri qk ml by (auto simp: rb_at_def kn(1) ring_mod)
    have bs: "map (rb_cells rb) [rd rb..<?n] @ map (rb_cells rb) [0..<q] = take m (rb_contents rb)"
      using qk r(3,5) ml kn by (intro nth_equalityI) (auto simp: nth nth_append ring_mod)
    have wrap: "(rd rb + (k + q + i)) mod (rd rb + k) = (q + i) mod (rd rb + k)" for i
      using mod_add_self1 [of "rd rb + k" "q + i"] by (simp only: add.assoc)
    have "rb_contents ?rb = drop m (rb_contents rb)"
      using qk kn ml by (intro nth_equalityI) (auto simp: rb_atD(7) [OF at'] nth ri wrap)
    moreover have cond: "\<not> int m < int ?n - int (rd rb)" "q \<le> ?n" "?n = rd rb + k" using mk kn qk r(5) ml by linarith+
    have "rt_ringbuffer_get n rb = Some (take m (rb_contents rb), ?rb)"
      using cond(1,2) cond(3) [symmetric] False bs by (simp add: rt_ringbuffer_get_def dl m Let_def rb_copy_out_def k_def [symmetric] q_def [symmetric])
    ultimately show thesis using rb_okI [OF at'] by (intro that [of ?rb]) (simp_all add: td)
  qed
qed

text \<open>The operations on one byte are the operations on blocks of one byte.\<close>

lemma rb_store_one:
  "wr rb < bsize rb \<Longrightarrow> rb_store [ch] rb = do {
     rb \<leftarrow> rb_copy_in (wr rb) [ch] rb;
     Some (int (wr rb) = int (bsize rb) - 1, if int (wr rb) = int (bsize rb) - 1
       then rb\<lparr>rb_write_mirror := \<not> rb_write_mirror rb, rb_write_index := 0\<rparr>
       else rb\<lparr>rb_write_index := rb_write_index rb + 1\<rparr>) }"
proof (cases "int (wr rb) = int (bsize rb) - 1")
  case True
  then have "bsize rb - wr rb = 1" "bsize rb = Suc (wr rb)" by linarith+
  then show ?thesis by (simp add: rb_store_def rb_copy_in_def cong: if_cong)
qed (auto simp: rb_store_def rb_copy_in_def)

lemma rt_ringbuffer_putchar_put: "rb_ok rb \<Longrightarrow> rt_ringbuffer_putchar ch rb = rt_ringbuffer_put [ch] rb"
  using rb_store_one [of rb ch] rb_okD(4) [of rb]
  by (auto simp: rt_ringbuffer_putchar_def rt_ringbuffer_put_def Let_def rb_copy_in_def)

lemma rt_ringbuffer_status_full: "rb_ok rb \<Longrightarrow> rt_ringbuffer_status rb = RT_RINGBUFFER_FULL \<longleftrightarrow> rt_ringbuffer_space_len rb = 0"
  using rb_okD [of rb]
  by (auto simp: rt_ringbuffer_space_len_def rt_ringbuffer_data_len_def rt_ringbuffer_status_def index_eq split: if_splits)

lemma rt_ringbuffer_putchar_force_put: "rb_ok rb \<Longrightarrow> rt_ringbuffer_putchar_force ch rb = rt_ringbuffer_put_force [ch] rb"
  using rb_store_one [of rb ch] rb_okD [of rb] rt_ringbuffer_status_full [of rb]
  by (auto simp: rt_ringbuffer_putchar_force_def rt_ringbuffer_put_force_def Let_def rb_copy_in_def)

lemma rt_ringbuffer_getchar_get:
  "rb_ok rb \<Longrightarrow> rt_ringbuffer_getchar rb =
    map_option (\<lambda>(bs, rb). (case bs of [] \<Rightarrow> None | b # _ \<Rightarrow> Some b, rb)) (rt_ringbuffer_get 1 rb)"
  using rb_okD [of rb]
  by (auto simp: rt_ringbuffer_getchar_def rt_ringbuffer_get_def Let_def rb_copy_out_def upt_rec)

lemma ring_over_dist: "w < n \<Longrightarrow> ((w + k) mod n + n - w) mod n = k mod n" for w n k :: nat
  using ring_dist [of 0 n "k mod n" w] by (simp add: mod_add_right_eq)

lemma ring_over_cell:
  fixes w r n l b k :: nat
  assumes "w = (r + l) mod n" "n \<le> l + b"
  shows "(w + (b + k)) mod n = (r + (l + b - n + k)) mod n"
proof -
  have "(w + (b + k)) mod n = (r + l + (b + k)) mod n" by (simp add: assms(1) mod_add_left_eq)
  also have "\<dots> = (r + (l + b - n + k) + n) mod n" using assms(2) by (simp add: add_ac)
  finally show ?thesis by simp
qed

text \<open>
  Storing more than there is room for leaves the buffer either full or, when the bytes in it did not go round the end, empty: both
  mirror bits flip.
\<close>

lemma rb_store_over:
  assumes ok: "rb_ok rb" and n: "length bs \<le> bsize rb" "rt_ringbuffer_space_len rb < length bs"
  obtains rb' where "rt_ringbuffer_put_force bs rb = Some (length bs, rb')" "rb_ok rb'" "bsize rb' = bsize rb"
    "rb_contents rb' = (if rb_read_mirror rb = rb_write_mirror rb then []
       else drop (length (rb_contents rb) + length bs - bsize rb) (rb_contents rb @ bs))"
proof -
  let ?n = "bsize rb" let ?len = "length (rb_contents rb)"
  have at: "rb_at rb ?len" by (rule rb_ok_at [OF ok])
  note r = rb_atD [OF at]
  have over: "?n < ?len + length bs" using n rb_space [OF ok] r(5) by simp
  obtain rb1 where st: "rb_store bs rb = Some (?n \<le> wr rb + length bs, rb1)" and w: "wr rb1 = (wr rb + length bs) mod ?n"
    and i: "rb_read_index rb1 = rb_read_index rb" and m: "rb_read_mirror rb1 = rb_read_mirror rb" and z: "rb_buffer_size rb1 = rb_buffer_size rb"
    and wm: "rb_write_mirror rb1 = (if ?n \<le> wr rb + length bs then \<not> rb_write_mirror rb else rb_write_mirror rb)"
    and c: "\<And>j. j < ?n \<Longrightarrow> rb_cells rb1 j =
      (if (j + ?n - wr rb) mod ?n < length bs then bs ! ((j + ?n - wr rb) mod ?n) else rb_cells rb j)"
    by (rule rb_store_eq [OF r(4,2) n(1)]) auto
  let ?rb = "(if ?n \<le> wr rb + length bs then rb1\<lparr>rb_read_mirror := \<not> rb_read_mirror rb1, rb_read_index := rb_write_index rb1\<rparr>
    else rb1\<lparr>rb_read_index := rb_write_index rb1\<rparr>)"
  let ?l = "if rb_read_mirror rb = rb_write_mirror rb then 0 else ?n"
  have pf: "rt_ringbuffer_put_force bs rb = Some (length bs, ?rb)"
    using st n by (simp add: rt_ringbuffer_put_force_def)
  have b1: "bsize rb1 = ?n" by (simp add: rt_ringbuffer_get_size_def z)
  have wr1: "wr rb1 < ?n" using w r(1) by simp
  have f: "bsize ?rb = ?n" "rd ?rb = wr rb1" "wr ?rb = wr rb1" "rb_cells ?rb = rb_cells rb1"
    "rb_write_mirror ?rb = rb_read_mirror ?rb \<longleftrightarrow> rb_write_mirror rb = rb_read_mirror rb"
    by (auto simp: b1 wm m wr_def)
  have at': "rb_at ?rb ?l" unfolding rb_at_def f using r(1,2) wr1 by auto
  have cell: "rb_cells rb1 ((wr rb1 + k) mod ?n) =
      (if k < ?n - length bs then rb_cells rb ((rd rb + (?len + length bs - ?n + k)) mod ?n) else bs ! (length bs + k - ?n))" if k: "k < ?n" for k
  proof -
    have e: "(wr rb1 + k) mod ?n = (wr rb + (length bs + k)) mod ?n" by (simp add: w mod_add_left_eq add.assoc)
    have c': "rb_cells rb1 ((wr rb + (length bs + k)) mod ?n) =
        (if (length bs + k) mod ?n < length bs then bs ! ((length bs + k) mod ?n) else rb_cells rb ((wr rb + (length bs + k)) mod ?n))"
      using c [of "(wr rb + (length bs + k)) mod ?n"] r(1) by (simp add: ring_over_dist [OF r(4)])
    show ?thesis
      unfolding e c' using k n(1) ring_mod [of "length bs + k" ?n] ring_over_cell [OF r(6), of "length bs" k] over by auto
  qed
  have "rb_contents ?rb = drop (?len + length bs - ?n) (rb_contents rb @ bs)" if "rb_read_mirror rb \<noteq> rb_write_mirror rb"
  proof (rule nth_equalityI)
    show l: "length (rb_contents ?rb) = length (drop (?len + length bs - ?n) (rb_contents rb @ bs))"
      using that over by (simp only: rb_atD(7) [OF at']) simp
    fix k assume "k < length (rb_contents ?rb)"
    then have k: "k < ?n" using l over by simp
    have "rb_contents ?rb ! k = rb_cells rb1 ((wr rb1 + k) mod ?n)"
      using that k by (simp only: rb_atD(7) [OF at'] f) simp
    also have "\<dots> = (rb_contents rb @ bs) ! (?len + length bs - ?n + k)"
      using k over n(1) r(5) by (auto simp: cell nth_append rb_contents_def intro!: arg_cong [where f = "nth bs"])
    finally show "rb_contents ?rb ! k = drop (?len + length bs - ?n) (rb_contents rb @ bs) ! k"
      using over by (simp del: drop_append)
  qed
  moreover have "rb_contents ?rb = []" if "rb_read_mirror rb = rb_write_mirror rb"
    using that by (simp only: rb_atD(7) [OF at']) simp
  ultimately show thesis using pf rb_okI [OF at'] f(1) by (intro that [of ?rb]) auto
qed

section \<open>Sessions\<close>

text \<open>The operations of a producer and a consumer, their answers, and what a list of at most \<open>cap\<close> bytes answers.\<close>

datatype rb_op = Put_Block "u8 list" | Put_Char u8 | Get_Block nat | Get_Char | Reset

datatype rb_res = Stored nat | Fetched "u8 list" | Emptied

fun rb_step :: "rb_op \<Rightarrow> rt_ringbuffer \<Rightarrow> (rb_res \<times> rt_ringbuffer) option" where
  "rb_step (Put_Block bs) rb = map_option (\<lambda>(n, rb). (Stored n, rb)) (rt_ringbuffer_put bs rb)"
| "rb_step (Put_Char b) rb = map_option (\<lambda>(n, rb). (Stored n, rb)) (rt_ringbuffer_putchar b rb)"
| "rb_step (Get_Block n) rb = map_option (\<lambda>(bs, rb). (Fetched bs, rb)) (rt_ringbuffer_get n rb)"
| "rb_step Get_Char rb = map_option (\<lambda>(r, rb). (Fetched (case r of None \<Rightarrow> [] | Some b \<Rightarrow> [b]), rb)) (rt_ringbuffer_getchar rb)"
| "rb_step Reset rb = Some (Emptied, rt_ringbuffer_reset rb)"

fun rb_session :: "rb_op list \<Rightarrow> rt_ringbuffer \<Rightarrow> (rb_res list \<times> rt_ringbuffer) option" where
  "rb_session [] rb = Some ([], rb)"
| "rb_session (op # ops) rb = do {
     (r, rb) \<leftarrow> rb_step op rb;
     (rs, rb) \<leftarrow> rb_session ops rb;
     Some (r # rs, rb) }"

fun bytes_step :: "nat \<Rightarrow> rb_op \<Rightarrow> u8 list \<Rightarrow> rb_res \<times> u8 list" where
  "bytes_step cap (Put_Block bs) xs = (Stored (min (length bs) (cap - length xs)), xs @ take (cap - length xs) bs)"
| "bytes_step cap (Put_Char b) xs = (if length xs < cap then (Stored 1, xs @ [b]) else (Stored 0, xs))"
| "bytes_step cap (Get_Block n) xs = (Fetched (take n xs), drop n xs)"
| "bytes_step cap Get_Char xs = (Fetched (take 1 xs), drop 1 xs)"
| "bytes_step cap Reset xs = (Emptied, [])"

fun bytes_session :: "nat \<Rightarrow> rb_op list \<Rightarrow> u8 list \<Rightarrow> rb_res list \<times> u8 list" where
  "bytes_session cap [] xs = ([], xs)"
| "bytes_session cap (op # ops) xs =
     (let (r, xs) = bytes_step cap op xs; (rs, xs) = bytes_session cap ops xs in (r # rs, xs))"

lemma rb_reset_ok:
  assumes "rb_ok rb"
  shows "rb_ok (rt_ringbuffer_reset rb)" "rb_contents (rt_ringbuffer_reset rb) = []" "bsize (rt_ringbuffer_reset rb) = bsize rb"
proof -
  have "rb_at (rt_ringbuffer_reset rb) 0" using rb_okD [OF assms] by (simp add: rb_at_def rt_ringbuffer_reset_def)
  then show "rb_ok (rt_ringbuffer_reset rb)" "rb_contents (rt_ringbuffer_reset rb) = []" using rb_atD(7) rb_okI by auto
qed (simp add: rt_ringbuffer_reset_def)

lemma rb_step_bytes:
  assumes ok: "rb_ok rb"
  shows "\<exists>rb'. rb_step op rb = Some (fst (bytes_step (bsize rb) op (rb_contents rb)), rb') \<and> rb_ok rb' \<and> bsize rb' = bsize rb \<and>
    rb_contents rb' = snd (bytes_step (bsize rb) op (rb_contents rb))"
proof (cases op)
  case (Put_Block bs)
  obtain rb' where p: "rt_ringbuffer_put bs rb = Some (min (length bs) (rt_ringbuffer_space_len rb), rb')" "rb_ok rb'"
    "rb_contents rb' = rb_contents rb @ take (rt_ringbuffer_space_len rb) bs" "bsize rb' = bsize rb" by (rule rb_put_ok [OF ok])
  then show ?thesis using Put_Block by (simp add: rb_space [OF ok])
next
  case (Put_Char b)
  obtain rb' where p: "rt_ringbuffer_put [b] rb = Some (min (length [b]) (rt_ringbuffer_space_len rb), rb')" "rb_ok rb'"
    "rb_contents rb' = rb_contents rb @ take (rt_ringbuffer_space_len rb) [b]" "bsize rb' = bsize rb" by (rule rb_put_ok [OF ok])
  then show ?thesis using Put_Char rb_space [OF ok] by (auto simp: rt_ringbuffer_putchar_put [OF ok] take_Cons' min_def)
next
  case (Get_Block n)
  obtain rb' where p: "rt_ringbuffer_get n rb = Some (take n (rb_contents rb), rb')" "rb_ok rb'" "rb_contents rb' = drop n (rb_contents rb)"
    "bsize rb' = bsize rb" by (rule rb_get_ok [OF ok])
  then show ?thesis using Get_Block by simp
next
  case Get_Char
  obtain rb' where p: "rt_ringbuffer_get 1 rb = Some (take 1 (rb_contents rb), rb')" "rb_ok rb'" "rb_contents rb' = drop 1 (rb_contents rb)"
    "bsize rb' = bsize rb" by (rule rb_get_ok [OF ok])
  then show ?thesis using Get_Char by (cases "rb_contents rb") (auto simp: rt_ringbuffer_getchar_get [OF ok])
next
  case Reset
  then show ?thesis using rb_reset_ok [OF ok] by simp
qed

lemma rb_session_bytes:
  assumes "rb_ok rb"
  shows "\<exists>rb'. rb_session ops rb = Some (fst (bytes_session (bsize rb) ops (rb_contents rb)), rb') \<and> rb_ok rb' \<and> bsize rb' = bsize rb \<and>
    rb_contents rb' = snd (bytes_session (bsize rb) ops (rb_contents rb))"
  using assms
proof (induction ops arbitrary: rb)
  case (Cons op ops)
  obtain rb1 where 1: "rb_step op rb = Some (fst (bytes_step (bsize rb) op (rb_contents rb)), rb1)" "rb_ok rb1" "bsize rb1 = bsize rb"
    "rb_contents rb1 = snd (bytes_step (bsize rb) op (rb_contents rb))" using rb_step_bytes [OF Cons.prems] by blast
  then show ?case using Cons.IH [OF 1(2)] by (auto simp: Let_def split: prod.splits)
qed simp

text \<open>Byte by byte, a ring buffer is another bounded queue.\<close>

definition rb_push :: "u8 \<Rightarrow> rt_ringbuffer \<Rightarrow> rt_ringbuffer option" where
  "rb_push ch rb = (case rt_ringbuffer_putchar ch rb of Some (n, rb) \<Rightarrow> if n = 1 then Some rb else None | None \<Rightarrow> None)"

definition rb_pop :: "rt_ringbuffer \<Rightarrow> (u8 \<times> rt_ringbuffer) option" where
  "rb_pop rb = (case rt_ringbuffer_getchar rb of Some (Some b, rb) \<Rightarrow> Some (b, rb) | _ \<Rightarrow> None)"

lemma rb_push_eq:
  assumes "rb_step (Put_Char ch) rb = Some (Stored n, rb')"
  shows "rb_push ch rb = (if n = 1 then Some rb' else None)"
  using assms by (auto simp: rb_push_def)

lemma rb_pop_eq:
  assumes "rb_step Get_Char rb = Some (Fetched bs, rb')"
  shows "rb_pop rb = (case bs of [] \<Rightarrow> None | b # _ \<Rightarrow> Some (b, rb'))"
  using assms by (auto simp: rb_pop_def split: option.splits)

interpretation rb_fifo: bounded_fifo rb_ok rb_contents rt_ringbuffer_get_size rb_push rb_pop "\<lambda>_ _. True"
proof
  fix rb assume ok: "rb_ok rb"
  then show "length (rb_contents rb) \<le> bsize rb" by (rule rb_okD(1))
next
  fix rb x assume ok: "rb_ok rb" and l: "length (rb_contents rb) < bsize rb"
  obtain rb' where "rb_step (Put_Char x) rb = Some (Stored 1, rb')" "rb_ok rb'" "bsize rb' = bsize rb" "rb_contents rb' = rb_contents rb @ [x]"
    using rb_step_bytes [OF ok, of "Put_Char x"] l by (simp del: rb_step.simps) blast
  then show "\<exists>rb'. rb_push x rb = Some rb' \<and> rb_ok rb' \<and> rb_contents rb' = rb_contents rb @ [x] \<and> bsize rb' = bsize rb \<and> True = True"
    using rb_push_eq by simp
next
  fix rb x assume ok: "rb_ok rb" and l: "length (rb_contents rb) = bsize rb"
  then show "rb_push x rb = None" using rb_step_bytes [OF ok, of "Put_Char x"] rb_push_eq [of x rb 0] by (auto simp del: rb_step.simps)
next
  fix rb assume ok: "rb_ok rb" and l: "rb_contents rb = []"
  then show "rb_pop rb = None" using rb_step_bytes [OF ok, of Get_Char] rb_pop_eq [of rb "[]"] by (auto simp del: rb_step.simps)
next
  fix rb x xs assume ok: "rb_ok rb" and l: "rb_contents rb = x # xs"
  obtain rb' where "rb_step Get_Char rb = Some (Fetched [x], rb')" "rb_ok rb'" "bsize rb' = bsize rb" "rb_contents rb' = xs"
    using rb_step_bytes [OF ok, of Get_Char] l by (simp del: rb_step.simps) blast
  then show "\<exists>rb'. rb_pop rb = Some (x, rb') \<and> rb_ok rb' \<and> rb_contents rb' = xs \<and> bsize rb' = bsize rb \<and> True = True"
    using rb_pop_eq by simp
qed

section \<open>Creation\<close>

lemma sint_pos16:
  fixes x :: "16 word" 
  assumes "0 < sint x" 
  shows "unat x < 2 ^ 15 \<and> sint x = int (unat x)"
proof -
  have t: "take_bit 16 (uint x) = uint x" using uint_lt2p [of x] by (simp add: take_bit_int_eq_self)
  have "sint x = uint x" using assms uint_lt2p [of x] by (cases "bit (uint x) 15") (simp_all add: sint_uint signed_take_bit_eq_take_bit_minus t)
  moreover have "int (unat x) = uint x" by simp
  ultimately have "int (unat x) < 2 ^ 15 \<and> sint x = int (unat x)" using sint_lt [of x] by simp
  then show ?thesis by (simp only: of_nat_less_numeral_power_cancel_iff simp_thms)
qed
lemma sint_small16: "unat x < 2 ^ 15 \<Longrightarrow> sint x = int (unat x)" for x :: "16 word"
proof -
  assume "unat x < 2 ^ 15"
  then have "int (unat x) < 2 ^ 15" by (simp only: of_nat_less_numeral_power_cancel_iff)
  then have "uint x < 2 ^ 15" by simp
  moreover have "- (2 ^ 15) \<le> uint x" by (rule order_trans [OF _ uint_ge_0]) simp
  ultimately show ?thesis using signed_take_bit_int_eq_self [of 15 "uint x"] by (simp add: sint_uint)
qed

lemma rt_ringbuffer_init_ok:
  assumes "4 \<le> sint n"
  obtains rb' where "rt_ringbuffer_init p n rb = Some rb'" "rb_ok rb'" "rb_contents rb' = []" "bsize rb' = unat n - unat n mod 4" "rb_buffer_ptr rb' = p"
proof -
  let ?rb = "rb\<lparr>rb_read_mirror := False, rb_read_index := 0, rb_write_mirror := False, rb_write_index := 0, rb_buffer_ptr := p, rb_buffer_size := n AND NOT 3\<rparr>"
  have i: "rt_ringbuffer_init p n rb = Some ?rb" using assms by (simp add: rt_ringbuffer_init_def)
  have "0 < sint n" using assms by simp
  note sn = sint_pos16 [OF this]
  have n: "unat n < 2 ^ 15" "4 \<le> unat n" using sn assms by (blast, linarith)
  have "bsize ?rb = unat (n AND NOT 3)" by (simp add: rt_ringbuffer_get_size_def)
  then have z: "bsize ?rb = unat n - unat n mod 4" by (simp only: unat_align_down)
  have "unat n mod 4 < 4" by simp
  then have b: "0 < bsize ?rb" "bsize ?rb < 2 ^ 15" unfolding z using n by linarith+
  have "rd ?rb = 0" "wr ?rb = 0" by (simp_all add: rd_def wr_def)
  then have at: "rb_at ?rb 0" using b by (simp add: rb_at_def)
  show thesis using i rb_okI [OF at] rb_atD(7) [OF at] z by (intro that [of ?rb]) simp_all
qed

section \<open>Properties\<close>

text \<open>
  C18. A ring buffer is a bounded byte queue: after \<^verbatim>\<open>rt_ringbuffer_init\<close> with a size of at least 4, any sequence of block and single-byte
  writes, block and single-byte reads and resets is answered exactly as by a list of at most \<^verbatim>\<open>size & ~3\<close> bytes. A write stores as
  many bytes as there is room for, a read returns the oldest bytes, and neither ever leaves the buffer.
\<close>

theorem rt_ringbuffer_session_refines:
  assumes "4 \<le> sint n"
  shows "\<exists>rb rb'. rt_ringbuffer_init pool n rb0 = Some rb \<and>
    rb_session ops rb = Some (fst (bytes_session (unat n - unat n mod 4) ops []), rb') \<and>
    rb_contents rb' = snd (bytes_session (unat n - unat n mod 4) ops []) \<and> rb_ok rb' \<and> length (rb_contents rb') \<le> unat n - unat n mod 4"
proof -
  obtain rb where rb: "rt_ringbuffer_init pool n rb0 = Some rb" "rb_ok rb" "rb_contents rb = []" "bsize rb = unat n - unat n mod 4"
    by (rule rt_ringbuffer_init_ok [OF assms])
  then show ?thesis using rb_session_bytes [OF rb(2), of ops] rb_okD(1) by metis
qed

definition zero_ringbuffer :: rt_ringbuffer where
  "zero_ringbuffer = \<lparr>rb_buffer_ptr = 0, rb_cells = (\<lambda>_. 0), rb_read_mirror = False, rb_read_index = 0, rb_write_mirror = False,
     rb_write_index = 0, rb_buffer_size = 0\<rparr>"

theorem rt_ringbuffer_session_refines_witness:
  "\<exists>rb rb'. rt_ringbuffer_init 64 6 zero_ringbuffer = Some rb \<and>
     rb_session [Put_Block [1, 2, 3], Get_Char, Put_Block [4, 5, 6], Put_Char 7, Get_Block 9] rb =
       Some ([Stored 3, Fetched [1], Stored 2, Stored 0, Fetched [2, 3, 4, 5]], rb')"
  using rt_ringbuffer_session_refines [of 6 64 zero_ringbuffer "[Put_Block [1, 2, 3], Get_Char, Put_Block [4, 5, 6], Put_Char 7, Get_Block 9]"]
  by (auto simp: Let_def)

text \<open>
  \<^verbatim>\<open>rt_ringbuffer_put_force\<close> is meant to keep the newest bytes. It does when they fit, and when the bytes in the buffer go
  round its end: then the buffer holds the last \<^verbatim>\<open>buffer_size\<close> bytes of the old and the new ones together. But when the bytes in the
  buffer do not go round the end and the new ones do not fit, both mirror bits flip together, and the full buffer counts as empty: the
  old and the new bytes are all lost.
\<close>

theorem rt_ringbuffer_put_force_cases:
  assumes ok: "rb_ok rb"
  shows "\<exists>rb'. rt_ringbuffer_put_force bs rb = Some (min (length bs) (rt_ringbuffer_get_size rb), rb') \<and> rb_ok rb' \<and>
    rb_contents rb' =
      (if length bs \<le> rt_ringbuffer_space_len rb then rb_contents rb @ bs
       else if rb_contents rb = [] \<or> rb_read_mirror rb \<noteq> rb_write_mirror rb
         then drop (length (rb_contents rb @ bs) - rt_ringbuffer_get_size rb) (rb_contents rb @ bs)
       else [])"
proof (cases "length bs \<le> rt_ringbuffer_space_len rb")
  case True
  have "length (rb_contents rb) + length bs \<le> bsize rb" using True rb_space [OF ok] rb_okD(1) [OF ok] by simp
  then obtain rb' where "rb_store bs rb = Some (bsize rb \<le> wr rb + length bs, rb')" "rb_at rb' (length (rb_contents rb) + length bs)"
    "rb_contents rb' = rb_contents rb @ bs" "bsize rb' = bsize rb"
    by (rule rb_store_room [OF rb_ok_at [OF ok]]) blast
  then show ?thesis using True rb_space [OF ok] by (auto simp: rt_ringbuffer_put_force_def rb_okI min_def)
next
  case False
  let ?b = "drop (length bs - bsize rb) bs"
  have b: "length ?b = min (length bs) (bsize rb)" "rt_ringbuffer_put_force bs rb = rt_ringbuffer_put_force ?b rb"
    by (simp_all add: rt_ringbuffer_put_force_def Let_def min_def)
  have d: "drop (length (rb_contents rb) + length ?b - bsize rb) (rb_contents rb @ ?b) =
      drop (length (rb_contents rb @ bs) - bsize rb) (rb_contents rb @ bs)"
    using rb_okD(1) [OF ok] by (cases "length bs \<le> bsize rb") auto
  show ?thesis
  proof (cases "rb_contents rb = []")
    case True
    then have "length (rb_contents rb) + length ?b \<le> bsize rb" by (simp add: b)
    then obtain rb' where "rb_store ?b rb = Some (bsize rb \<le> wr rb + length ?b, rb')" "rb_at rb' (length (rb_contents rb) + length ?b)"
      "rb_contents rb' = rb_contents rb @ ?b" "bsize rb' = bsize rb"
      by (rule rb_store_room [OF rb_ok_at [OF ok]]) blast
    then show ?thesis using True False rb_space [OF ok] by (auto simp: rt_ringbuffer_put_force_def rb_okI min_def)
  next
    case c: False
    then have "rt_ringbuffer_space_len rb < length ?b" using False rb_space [OF ok] rb_okD(1,2) [OF ok] unfolding b(1) by auto
    moreover have "length ?b \<le> bsize rb" by (simp add: b(1))
    ultimately obtain rb' where "rt_ringbuffer_put_force ?b rb = Some (length ?b, rb')" "rb_ok rb'"
      "rb_contents rb' = (if rb_read_mirror rb = rb_write_mirror rb then []
         else drop (length (rb_contents rb @ bs) - bsize rb) (rb_contents rb @ bs))"
      using rb_store_over [OF ok, of ?b, unfolded d] by metis
    then show ?thesis using c False by (intro exI [of _ rb']) (simp add: b del: drop_append length_drop)
  qed
qed

theorem rt_ringbuffer_put_force_cases_witness:
  "\<exists>rb rb' rb''. rt_ringbuffer_init 64 4 zero_ringbuffer = Some rb \<and> rt_ringbuffer_put [1, 2, 3] rb = Some (3, rb') \<and>
     rt_ringbuffer_put_force [4, 5] rb' = Some (2, rb'') \<and> rb_contents rb'' = []"
proof -
  obtain rb where rb: "rt_ringbuffer_init 64 4 zero_ringbuffer = Some rb" "rb_ok rb" "rb_contents rb = []" "bsize rb = 4"
    by (rule rt_ringbuffer_init_ok [of 4 64 zero_ringbuffer]) auto
  obtain rb' where p: "rt_ringbuffer_put [1, 2, 3] rb = Some (3, rb')" "rb_ok rb'" "rb_contents rb' = [1, 2, 3]" "bsize rb' = 4"
    by (rule rb_put_ok [OF rb(2), of "[1, 2, 3]"]) (simp add: rb_space [OF rb(2)] rb)
  have "rb_read_mirror rb' = rb_write_mirror rb'"
    using rb(1) p(1) by (auto simp: rt_ringbuffer_init_def rt_ringbuffer_put_def zero_ringbuffer_def rt_ringbuffer_space_len_def
      rt_ringbuffer_data_len_def rt_ringbuffer_status_def rb_store_def rb_copy_in_def rt_ringbuffer_get_size_def rd_def wr_def)
  then show ?thesis using rb(1) p(1) rt_ringbuffer_put_force_cases [OF p(2), of "[4, 5]"] rb_space [OF p(2)] p(3,4) by auto
qed

text \<open>
  \<^verbatim>\<open>rt_ringbuffer_create\<close> gives an empty buffer of the size rounded down to a multiple of 4 in fresh memory, or the null pointer
  when the heap has none, and then it gives the structure back. A size below 4 or from 32768 on is not refused but runs into
  the assertion of \<^verbatim>\<open>rt_ringbuffer_init\<close>, although the check of \<^verbatim>\<open>rt_ringbuffer_create\<close> itself only excludes 0.
\<close>

theorem rt_ringbuffer_create_cases:
  assumes k: "kmalloc H h 12 = Some (a, h1)" "kmalloc H h1 (unat n - unat n mod 4) = Some (p, h2)" and n: "n \<noteq> 0"
  shows "\<exists>rb. (unat n < 2 ^ 15 \<longrightarrow> 4 \<le> unat n \<longrightarrow> rb_ok rb \<and> rb_contents rb = [] \<and> rt_ringbuffer_get_size rb = unat n - unat n mod 4 \<and> rb_buffer_ptr rb = p) \<and>
    rt_ringbuffer_create H n rb0 h =
      (if a = RT_NULL then Some (None, h1)
       else if p = RT_NULL then map_option (\<lambda>h. (None, h)) (kfree H h2 a)
       else if unat n < 2 ^ 15 \<and> 4 \<le> unat n then Some (Some (a, rb), h2)
       else None)"
proof -
  have c: "rt_ringbuffer_create H n rb0 h =
      (if a = RT_NULL then Some (None, h1) else if p = RT_NULL then map_option (\<lambda>h. (None, h)) (kfree H h2 a)
       else map_option (\<lambda>r. (Some (a, r), h2)) (rt_ringbuffer_init p (n AND NOT 3) rb0))"
    using n k by (cases "kfree H h2 a"; cases "rt_ringbuffer_init p (n AND NOT 3) rb0")
      (simp_all only: rt_ringbuffer_create_def word_neq_0_conv RT_ASSERT_simps Let_def unat_align_down bind.simps split if_True if_False
        refl option.simps split: if_splits)
  let ?m = "n AND NOT 3"
  have m: "unat ?m = unat n - unat n mod 4" by (rule unat_align_down)
  show ?thesis
  proof (cases "4 \<le> unat n \<and> unat n < 2 ^ 15")
    case True
    then have "4 \<le> unat ?m" "unat ?m < 2 ^ 15" "unat ?m mod 4 = 0" unfolding m by presburger+
    then obtain rb where "rt_ringbuffer_init p ?m rb0 = Some rb" "rb_ok rb" "rb_contents rb = []" "bsize rb = unat ?m - unat ?m mod 4" "rb_buffer_ptr rb = p"
      using rt_ringbuffer_init_ok [of ?m p rb0] sint_small16 [of ?m] by (metis of_nat_le_iff of_nat_numeral)
    then show ?thesis using True \<open>unat ?m mod 4 = 0\<close> unfolding c m by auto
  next
    case False
    have "\<not> 0 < sint ?m"
    proof
      assume pos: "0 < sint ?m"
      note sm = sint_pos16 [OF pos]
      have "0 < unat ?m" using pos conjunct2 [OF sm] by linarith
      then show False using conjunct1 [OF sm] False unfolding m by simp presburger
    qed
    then have "rt_ringbuffer_init p ?m rb0 = None" by (simp add: rt_ringbuffer_init_def)
    then show ?thesis using False unfolding c by auto
  qed
qed

theorem rt_ringbuffer_create_cases_witness:
  "(let H = \<lparr>kmalloc = (\<lambda>h n. Some (1000 + h, h + n)), kfree = (\<lambda>h p. Some h)\<rparr> in
     rt_ringbuffer_create H 3 zero_ringbuffer (0::nat) = None \<and>
     (\<exists>rb. rt_ringbuffer_create H 7 zero_ringbuffer 0 = Some (Some (1000, rb), 16) \<and> rb_ok rb \<and> rb_buffer_ptr rb = 1012))"
  using rt_ringbuffer_create_cases [of "\<lparr>kmalloc = (\<lambda>h n. Some (1000 + h, h + n)), kfree = (\<lambda>h p. Some h)\<rparr>" "0::nat" 1000 12 3 1012 12]
    rt_ringbuffer_create_cases [of "\<lparr>kmalloc = (\<lambda>h n. Some (1000 + h, h + n)), kfree = (\<lambda>h p. Some h)\<rparr>" "0::nat" 1000 12 7 1012 16 zero_ringbuffer]
  by (auto simp: Let_def)

end
