(* ===== verification/RT_Heap.thy ===== *)
theory RT_Heap
  imports RT_Prelude
begin

text \<open>
  The interface of an allocator of blocks of any size, with bytes in them. The locale \<open>heap_allocator\<close> says what the operations do to
  the set of blocks in use; in it, the blocks a client holds are shown to be independent arrays: what has been stored in one
  is there until it is released, whatever happens to the others.
\<close>

section \<open>Sessions\<close>

text \<open>A client allocates, releases the \<open>i\<close>-th of the blocks it holds, or stores a byte at an offset in it.\<close>

datatype 'b heap_op = Alloc nat | Release nat | Store nat nat 'b

text \<open>For each block held: its address, the size asked for and what has been stored in it.\<close>

type_synonym 'b held = "(nat \<times> nat \<times> (nat \<Rightarrow> 'b option)) list"

fun heap_session :: "(nat \<Rightarrow> 'h \<Rightarrow> (nat \<times> 'h) option) \<Rightarrow> (nat \<Rightarrow> 'h \<Rightarrow> 'h option) \<Rightarrow> (nat \<Rightarrow> 'b \<Rightarrow> 'h \<Rightarrow> 'h) \<Rightarrow>
    'b heap_op list \<Rightarrow> 'b held \<Rightarrow> 'h \<Rightarrow> ('b held \<times> 'h) option" where
  "heap_session al fr st [] held h = Some (held, h)"
| "heap_session al fr st (Alloc n # ops) held h =
     (case al n h of
        Some (p, h) \<Rightarrow> heap_session al fr st ops (if p = 0 then held else held @ [(p, n, \<lambda>_. None)]) h
      | None \<Rightarrow> None)"
| "heap_session al fr st (Release i # ops) held h =
     (if i < length held then
        (case fr (fst (held ! i)) h of
           Some h \<Rightarrow> heap_session al fr st ops (take i held @ drop (Suc i) held) h
         | None \<Rightarrow> None)
      else heap_session al fr st ops held h)"
| "heap_session al fr st (Store i j b # ops) held h =
     (if i < length held then
        (case held ! i of (p, n, a) \<Rightarrow>
           if j < n then heap_session al fr st ops (held[i := (p, n, a(j \<mapsto> b))]) (st (p + j) b h)
           else heap_session al fr st ops held h)
      else heap_session al fr st ops held h)"

fun small_requests :: "nat \<Rightarrow> 'b heap_op list \<Rightarrow> bool" where
  "small_requests lim ops \<longleftrightarrow> (\<forall>n. Alloc n \<in> set ops \<longrightarrow> n < lim)"

text \<open>The blocks held are blocks in use, at least as long as asked for, and hold what has been stored.\<close>

definition held_ok :: "(nat \<Rightarrow> 'b) \<Rightarrow> (nat \<times> nat) set \<Rightarrow> nat \<times> nat \<times> (nat \<Rightarrow> 'b option) \<Rightarrow> bool" where
  "held_ok c A = (\<lambda>(p, n, a). (\<exists>m \<ge> n. (p, m) \<in> A) \<and> (\<forall>j b. a j = Some b \<longrightarrow> j < n \<and> c (p + j) = b))"

definition owns :: "('h \<Rightarrow> (nat \<times> nat) set \<Rightarrow> bool) \<Rightarrow> ('h \<Rightarrow> nat \<Rightarrow> 'b) \<Rightarrow> 'h \<Rightarrow> (nat \<times> nat) set \<Rightarrow> 'b held \<Rightarrow> bool" where
  "owns I content h A held \<longleftrightarrow> I h A \<and> distinct (map fst held) \<and> (\<forall>x \<in> set held. held_ok (content h) A x)"

lemma ownsD:
  assumes "owns I content h A held"
  shows "I h A" "distinct (map fst held)" "x \<in> set held \<Longrightarrow> held_ok (content h) A x"
  using assms by (auto simp: owns_def)

lemma held_ok_mono: "held_ok c A x \<Longrightarrow> A \<subseteq> B \<Longrightarrow> held_ok c B x"
  unfolding held_ok_def by (auto 0 3 split: prod.splits)

section \<open>The interface\<close>

locale heap_allocator =
  fixes inv :: "'h \<Rightarrow> (nat \<times> nat) set \<Rightarrow> bool" and content :: "'h \<Rightarrow> nat \<Rightarrow> 'b" and limit :: nat
    and alloc :: "nat \<Rightarrow> 'h \<Rightarrow> (nat \<times> 'h) option" and release :: "nat \<Rightarrow> 'h \<Rightarrow> 'h option" and poke :: "nat \<Rightarrow> 'b \<Rightarrow> 'h \<Rightarrow> 'h"
  assumes separate: "inv h A \<Longrightarrow> (p, n) \<in> A \<Longrightarrow> (q, m) \<in> A \<Longrightarrow> (p, n) \<noteq> (q, m) \<Longrightarrow> p \<noteq> q \<and> (p + n \<le> q \<or> q + m \<le> p)"
    and alloc_fresh: "inv h A \<Longrightarrow> n < limit \<Longrightarrow> \<exists>p h'. alloc n h = Some (p, h') \<and> content h' = content h \<and>
      (p = 0 \<and> inv h' A \<or> (\<exists>m \<ge> n. (\<forall>k. (p, k) \<notin> A) \<and> inv h' (insert (p, m) A)))"
    and release_back: "inv h A \<Longrightarrow> (p, n) \<in> A \<Longrightarrow> \<exists>h'. release p h = Some h' \<and> content h' = content h \<and> inv h' (A - {(p, n)})"
    and poke_byte: "inv h A \<Longrightarrow> inv (poke a b h) A \<and> content (poke a b h) = (content h)(a := b)"
begin

lemma owns_alloc:
  assumes own: "owns inv content h A held" and n: "n < limit"
  shows "\<exists>p h' A'. alloc n h = Some (p, h') \<and> owns inv content h' A' (if p = 0 then held else held @ [(p, n, \<lambda>_. None)])"
proof -
  obtain p h' where a: "alloc n h = Some (p, h')" "content h' = content h"
    "p = 0 \<and> inv h' A \<or> (\<exists>m \<ge> n. (\<forall>k. (p, k) \<notin> A) \<and> inv h' (insert (p, m) A))"
    using alloc_fresh [OF ownsD(1) [OF own] n] by blast
  show ?thesis
  proof (cases "p = 0 \<and> inv h' A")
    case True
    then show ?thesis using a own by (auto simp: owns_def)
  next
    case False
    then obtain m where m: "n \<le> m" "\<And>k. (p, k) \<notin> A" "inv h' (insert (p, m) A)" using a(3) by blast
    have "fst x \<noteq> p" if "x \<in> set held" for x
      using ownsD(3) [OF own that] m(2) by (auto simp: held_ok_def)
    then have "p \<notin> fst ` set held" by blast
    moreover have "\<forall>x \<in> set held. held_ok (content h') (insert (p, m) A) x"
      using ownsD(3) [OF own] held_ok_mono [OF _ subset_insertI] a(2) by metis
    moreover have "held_ok (content h') (insert (p, m) A) (p, n, \<lambda>_. None)" using m(1) by (auto simp: held_ok_def)
    ultimately have "owns inv content h' (insert (p, m) A) (if p = 0 then held else held @ [(p, n, \<lambda>_. None)])"
      using m(3) ownsD(2) [OF own] by (cases "p = 0") (auto simp: owns_def)
    then show ?thesis using a(1) by blast
  qed
qed

lemma owns_release:
  assumes own: "owns inv content h A held" and i: "i < length held"
  shows "\<exists>h' A'. release (fst (held ! i)) h = Some h' \<and> owns inv content h' A' (take i held @ drop (Suc i) held)"
proof -
  obtain p n a where e: "held ! i = (p, n, a)" by (cases "held ! i")
  then have "held_ok (content h) A (p, n, a)" using ownsD(3) [OF own] nth_mem [OF i] by simp
  then obtain m where m: "(p, m) \<in> A" by (auto simp: held_ok_def)
  obtain h' where h': "release p h = Some h'" "content h' = content h" "inv h' (A - {(p, m)})"
    using release_back [OF ownsD(1) [OF own] m] by blast
  have split: "held = take i held @ (p, n, a) # drop (Suc i) held" using id_take_nth_drop [OF i] e by simp
  have d: "distinct (map fst (take i held @ (p, n, a) # drop (Suc i) held))" using ownsD(2) [OF own] split by simp
  have "held_ok (content h') (A - {(p, m)}) x" if "x \<in> set (take i held @ drop (Suc i) held)" for x
  proof -
    have "fst x \<noteq> p" using d that by (auto simp: image_iff)
    moreover have "held_ok (content h) A x"
      by (rule ownsD(3) [OF own]) (use that in \<open>auto dest: in_set_takeD in_set_dropD\<close>)
    ultimately show ?thesis using h'(2) by (auto simp: held_ok_def)
  qed
  then show ?thesis using h' d e by (intro exI [of _ h'] exI [of _ "A - {(p, m)}"]) (simp add: owns_def)
qed

lemma owns_store:
  assumes own: "owns inv content h A held" and i: "i < length held" "held ! i = (p, n, a)" and j: "j < n"
  shows "owns inv content (poke (p + j) b h) A (held[i := (p, n, a(j \<mapsto> b))])"
proof -
  have inv: "inv h A" and d: "distinct (map fst held)" using ownsD [OF own] by auto
  have c: "inv (poke (p + j) b h) A" "content (poke (p + j) b h) = (content h)(p + j := b)" using poke_byte [OF inv] by auto
  have ok: "held_ok (content h) A (p, n, a)" using ownsD(3) [OF own] nth_mem [OF i(1)] i(2) by simp
  then obtain m where m: "n \<le> m" "(p, m) \<in> A" by (auto simp: held_ok_def)
  have "held_ok (content (poke (p + j) b h)) A (held[i := (p, n, a(j \<mapsto> b))] ! l)" if l: "l < length held" for l
  proof (cases "l = i")
    case True
    then show ?thesis using ok j l c(2) by (auto simp: held_ok_def)
  next
    case False
    obtain q k e where x: "held ! l = (q, k, e)" by (cases "held ! l")
    have qp: "q \<noteq> p" using nth_eq_iff_index_eq [OF d, of l i] l i x False by simp
    have okl: "held_ok (content h) A (q, k, e)" using ownsD(3) [OF own] nth_mem [OF l] x by simp
    then obtain m' where m': "k \<le> m'" "(q, m') \<in> A" by (auto simp: held_ok_def)
    have "q + m' \<le> p \<or> p + m \<le> q" using separate [OF inv m(2) m'(2)] qp by auto
    then have "q + j' \<noteq> p + j" if "j' < k" for j' using that j m(1) m'(1) by linarith
    then show ?thesis using okl x False c(2) by (auto simp: held_ok_def)
  qed
  then have "\<forall>x \<in> set (held[i := (p, n, a(j \<mapsto> b))]). held_ok (content (poke (p + j) b h)) A x"
    by (metis in_set_conv_nth length_list_update)
  moreover have "map fst (held[i := (p, n, a(j \<mapsto> b))]) = map fst held" using i by (simp add: map_update list_update_same_conv)
  ultimately show ?thesis using c(1) d by (simp add: owns_def)
qed

text \<open>Any session returns, and leaves each block with what was stored in it.\<close>

lemma session_owns:
  assumes "owns inv content h A held" "small_requests limit ops"
  shows "\<exists>held' h' A'. heap_session alloc release poke ops held h = Some (held', h') \<and> owns inv content h' A' held'"
  using assms
proof (induction ops arbitrary: h A held)
  case (Cons op ops)
  have ops: "small_requests limit ops" using Cons.prems(2) by simp
  show ?case
  proof (cases op)
    case (Alloc n)
    then show ?thesis using owns_alloc [OF Cons.prems(1), of n] Cons.prems(2) Cons.IH [OF _ ops] by fastforce
  next
    case (Release i)
    then show ?thesis using owns_release [OF Cons.prems(1), of i] Cons.prems(1) Cons.IH [OF _ ops] by fastforce
  next
    case (Store i j b)
    show ?thesis
    proof (cases "i < length held \<and> j < fst (snd (held ! i))")
      case True
      then show ?thesis using Store owns_store [OF Cons.prems(1), of i "fst (held ! i)" "fst (snd (held ! i))" "snd (snd (held ! i))" j b]
          Cons.IH [OF _ ops] by (auto simp: split_beta)
    next
      case False
      then show ?thesis using Store Cons.prems(1) Cons.IH [OF _ ops] by (auto simp: split_beta)
    qed
  qed
qed auto

lemma owns_nothing: "inv h A \<Longrightarrow> owns inv content h A []"
  by (simp add: owns_def)

lemma owned_separate:
  assumes own: "owns inv content h A held" and i: "i < length held" "j < length held" "i \<noteq> j"
  shows "fst (held ! i) + fst (snd (held ! i)) \<le> fst (held ! j) \<or> fst (held ! j) + fst (snd (held ! j)) \<le> fst (held ! i)"
proof -
  obtain p n a where x: "held ! i = (p, n, a)" by (cases "held ! i")
  obtain q k c where y: "held ! j = (q, k, c)" by (cases "held ! j")
  have pq: "p \<noteq> q" using nth_eq_iff_index_eq [OF ownsD(2) [OF own], of i j] i x y by simp
  have "held_ok (content h) A (p, n, a)" "held_ok (content h) A (q, k, c)"
    using ownsD(3) [OF own nth_mem [OF i(1)]] ownsD(3) [OF own nth_mem [OF i(2)]] x y by simp_all
  then obtain m m' where "n \<le> m" "(p, m) \<in> A" "k \<le> m'" "(q, m') \<in> A" by (auto simp: held_ok_def)
  moreover from this have "p + m \<le> q \<or> q + m' \<le> p" using separate [OF ownsD(1) [OF own], of p m q m'] pq by simp
  ultimately show ?thesis unfolding x y by auto
qed

end

end
