(* ===== verification/RT_Bytes.thy ===== *)
theory RT_Bytes
  imports RT_Prelude "HOL-Library.Sublist"
begin

text \<open>
  The memory and string functions of \<^verbatim>\<open>src/kservice.c\<close>, on a memory of bytes. Those that work a machine word at a time
  are shown to do what the loop over bytes does. Pointers are numbers and do not wrap around; a plain \<^verbatim>\<open>char\<close> is unsigned, as on ARM.
\<close>

section \<open>Memory\<close>

type_synonym memory = "ptr \<Rightarrow> u8"

text \<open>Access to a 32-bit \<^verbatim>\<open>long\<close>, lowest byte first.\<close>

definition load32 :: "memory \<Rightarrow> ptr \<Rightarrow> u32" where
  "load32 m a = ucast (m a) OR push_bit 8 (ucast (m (a + 1))) OR push_bit 16 (ucast (m (a + 2))) OR push_bit 24 (ucast (m (a + 3)))"

definition store32 :: "ptr \<Rightarrow> u32 \<Rightarrow> memory \<Rightarrow> memory" where
  "store32 a w m = m(a := ucast w, a + 1 := ucast (drop_bit 8 w), a + 2 := ucast (drop_bit 16 w), a + 3 := ucast (drop_bit 24 w))"

section \<open>\<^verbatim>\<open>rt_memset\<close>, \<^verbatim>\<open>rt_memcpy\<close>, \<^verbatim>\<open>rt_memmove\<close>, \<^verbatim>\<open>rt_memcmp\<close>\<close>

text \<open>The loops of four words, of one word and of one byte; they leave the address and the count for the next one.\<close>

fun set_blocks :: "u32 \<Rightarrow> ptr \<Rightarrow> nat \<Rightarrow> memory \<Rightarrow> ptr \<times> nat \<times> memory" where
  "set_blocks w a n m =
    (if n \<ge> 16 then
       (let m = store32 a w m; m = store32 (a + 4) w m; m = store32 (a + 8) w m; m = store32 (a + 12) w m
        in set_blocks w (a + 16) (n - 16) m)
     else (a, n, m))"

fun set_words :: "u32 \<Rightarrow> ptr \<Rightarrow> nat \<Rightarrow> memory \<Rightarrow> ptr \<times> nat \<times> memory" where
  "set_words w a n m = (if n \<ge> 4 then set_words w (a + 4) (n - 4) (store32 a w m) else (a, n, m))"

fun set_bytes :: "u8 \<Rightarrow> ptr \<Rightarrow> nat \<Rightarrow> memory \<Rightarrow> memory" where
  "set_bytes d a 0 m = m"
| "set_bytes d a (Suc n) m = set_bytes d (a + 1) n (m(a := d))"

definition rt_memset :: "ptr \<Rightarrow> u32 \<Rightarrow> nat \<Rightarrow> memory \<Rightarrow> memory" where
  "rt_memset s c count m =
    (let d = c AND 0xff in
     if \<not> count < 4 \<and> s mod 4 = 0 then
       (let buffer = push_bit 8 d OR d; buffer = buffer OR push_bit 16 buffer;
            (a, n, m) = set_blocks buffer s count m;
            (a, n, m) = set_words buffer a n m
        in set_bytes (ucast d) a n m)
     else set_bytes (ucast d) s count m)"

fun copy_blocks :: "ptr \<Rightarrow> ptr \<Rightarrow> nat \<Rightarrow> memory \<Rightarrow> ptr \<times> ptr \<times> nat \<times> memory" where
  "copy_blocks d s n m =
    (if n \<ge> 16 then
       (let m = store32 d (load32 m s) m; m = store32 (d + 4) (load32 m (s + 4)) m;
            m = store32 (d + 8) (load32 m (s + 8)) m; m = store32 (d + 12) (load32 m (s + 12)) m
        in copy_blocks (d + 16) (s + 16) (n - 16) m)
     else (d, s, n, m))"

fun copy_words :: "ptr \<Rightarrow> ptr \<Rightarrow> nat \<Rightarrow> memory \<Rightarrow> ptr \<times> ptr \<times> nat \<times> memory" where
  "copy_words d s n m = (if n \<ge> 4 then copy_words (d + 4) (s + 4) (n - 4) (store32 d (load32 m s) m) else (d, s, n, m))"

fun copy_up :: "ptr \<Rightarrow> ptr \<Rightarrow> nat \<Rightarrow> memory \<Rightarrow> memory" where
  "copy_up d s 0 m = m"
| "copy_up d s (Suc n) m = copy_up (d + 1) (s + 1) n (m(d := m s))"

definition rt_memcpy :: "ptr \<Rightarrow> ptr \<Rightarrow> nat \<Rightarrow> memory \<Rightarrow> memory" where
  "rt_memcpy dst src count m =
    (if \<not> count < 16 \<and> src mod 4 = 0 \<and> dst mod 4 = 0 then
       (let (d, s, n, m) = copy_blocks dst src count m;
            (d, s, n, m) = copy_words d s n m
        in copy_up d s n m)
     else copy_up dst src count m)"

text \<open>The loop of \<^verbatim>\<open>rt_memmove\<close> from the last byte down; \<open>d\<close> and \<open>s\<close> point behind the bytes left.\<close>

fun copy_down :: "ptr \<Rightarrow> ptr \<Rightarrow> nat \<Rightarrow> memory \<Rightarrow> memory" where
  "copy_down d s 0 m = m"
| "copy_down d s (Suc n) m = copy_down (d - 1) (s - 1) n (m(d - 1 := m (s - 1)))"

definition rt_memmove :: "ptr \<Rightarrow> ptr \<Rightarrow> nat \<Rightarrow> memory \<Rightarrow> memory" where
  "rt_memmove dest src n m =
    (if src < dest \<and> dest < src + n then copy_down (dest + n) (src + n) n m else copy_up dest src n m)"

fun rt_memcmp :: "memory \<Rightarrow> ptr \<Rightarrow> ptr \<Rightarrow> nat \<Rightarrow> int" where
  "rt_memcmp m cs ct 0 = 0"
| "rt_memcmp m cs ct (Suc n) = (let res = uint (m cs) - uint (m ct) in if res \<noteq> 0 then res else rt_memcmp m (cs + 1) (ct + 1) n)"

section \<open>Strings in memory\<close>

text \<open>A loop over a string that is not terminated has the value \<open>None\<close>.\<close>

partial_function (option) strlen_loop :: "memory \<Rightarrow> ptr \<Rightarrow> ptr option" where
  "strlen_loop m sc = (if m sc \<noteq> 0 then strlen_loop m (sc + 1) else Some sc)"

definition rt_strlen :: "memory \<Rightarrow> ptr \<Rightarrow> nat option" where
  "rt_strlen m s = do { sc \<leftarrow> strlen_loop m s; Some (sc - s) }"

partial_function (option) rt_strcmp :: "memory \<Rightarrow> ptr \<Rightarrow> ptr \<Rightarrow> int option" where
  "rt_strcmp m cs ct = (if m cs \<noteq> 0 \<and> m cs = m ct then rt_strcmp m (cs + 1) (ct + 1) else Some (uint (m cs) - uint (m ct)))"

definition lower :: "u8 \<Rightarrow> int" where
  "lower c = (let ca = uint c in if ca \<ge> 65 \<and> ca \<le> 90 then ca + 32 else ca)"

partial_function (option) rt_strcasecmp :: "memory \<Rightarrow> ptr \<Rightarrow> ptr \<Rightarrow> u32 option" where
  "rt_strcasecmp m a b =
    (let ca = lower (m a); cb = lower (m b) in
     if ca = cb \<and> ca \<noteq> 0 then rt_strcasecmp m (a + 1) (b + 1) else Some (word_of_int (ca - cb)))"

fun strstr_loop :: "memory \<Rightarrow> ptr \<Rightarrow> ptr \<Rightarrow> nat \<Rightarrow> nat \<Rightarrow> ptr" where
  "strstr_loop m s1 s2 l1 l2 =
    (if l1 \<ge> l2 \<and> l1 > 0 then
       (if rt_memcmp m s1 s2 l2 = 0 then s1 else strstr_loop m (s1 + 1) s2 (l1 - 1) l2)
     else RT_NULL)"

definition rt_strstr :: "memory \<Rightarrow> ptr \<Rightarrow> ptr \<Rightarrow> ptr option" where
  "rt_strstr m s1 s2 = do {
     l2 \<leftarrow> rt_strlen m s2;
     if l2 = 0 then Some s1
     else do { l1 \<leftarrow> rt_strlen m s1; Some (strstr_loop m s1 s2 l1 l2) } }"

declare set_blocks.simps [simp del] set_words.simps [simp del] copy_blocks.simps [simp del] copy_words.simps [simp del]
  strstr_loop.simps [simp del]

section \<open>Filling\<close>

definition fill :: "ptr \<Rightarrow> nat \<Rightarrow> u8 \<Rightarrow> memory \<Rightarrow> memory" where
  "fill a n b m = (\<lambda>x. if a \<le> x \<and> x < a + n then b else m x)"

lemma fill_0 [simp]: "fill a 0 b m = m"
  by (auto simp: fill_def fun_eq_iff)

lemma fill_add: "fill (a + k) n b (fill a k b m) = fill a (k + n) b m"
  by (auto simp: fill_def)

lemma set_bytes_fill: "set_bytes d a n m = fill a n d m"
proof (induction n arbitrary: a m)
  case (Suc n)
  have "m(a := d) = fill a 1 d m" by (auto simp: fill_def)
  then show ?case using Suc fill_add [of a 1 n d m] by simp
qed simp

text \<open>A word whose four bytes are the same.\<close>

definition word_of_bytes :: "u32 \<Rightarrow> u8 \<Rightarrow> bool" where
  "word_of_bytes w b \<longleftrightarrow> (\<forall>k < 4. ucast (drop_bit (8 * k) w) = b)"

lemma store32_fill:
  assumes "word_of_bytes w b"
  shows "store32 a w m = fill a 4 b m"
proof -
  have "(ucast (drop_bit 0 w) :: u8) = b" "(ucast (drop_bit 8 w) :: u8) = b" "(ucast (drop_bit 16 w) :: u8) = b" "(ucast (drop_bit 24 w) :: u8) = b"
    using assms [unfolded word_of_bytes_def, THEN spec, of 0] assms [unfolded word_of_bytes_def, THEN spec, of 1]
      assms [unfolded word_of_bytes_def, THEN spec, of 2] assms [unfolded word_of_bytes_def, THEN spec, of 3] by simp_all
  moreover have "x = a \<or> x = a + 1 \<or> x = a + 2 \<or> x = a + 3" if "a \<le> x" "x < a + 4" for x using that by presburger
  ultimately show ?thesis by (auto simp: store32_def fill_def fun_eq_iff)
qed

lemma low_byte: "bit (c AND 0xff) n \<longleftrightarrow> bit c n \<and> n < 8" for c :: u32
proof -
  have "(0xff :: u32) = mask 8" by (simp add: mask_eq_exp_minus_1)
  then have "bit (0xff :: u32) n \<longleftrightarrow> n < 8" by (simp only: bit_mask_iff) auto
  then show ?thesis by (simp only: bit_and_iff)
qed

lemma memset_buffer:
  fixes d :: u32
  assumes "\<And>n. bit d n \<Longrightarrow> n < 8"
  shows "word_of_bytes ((push_bit 8 d OR d) OR push_bit 16 (push_bit 8 d OR d)) (ucast d)"
  unfolding word_of_bytes_def
proof (intro allI impI bit_word_eqI)
  fix k n :: nat assume k: "k < 4" and "n < LENGTH(8)"
  then have n: "n < 8" by simp
  have b: "\<not> bit d (n + i)" if "8 \<le> i" for i using assms [of "n + i"] that by auto
  consider "k = 0" | "k = 1" | "k = 2" | "k = 3" using k by linarith
  then show "bit (ucast (drop_bit (8 * k) ((push_bit 8 d OR d) OR push_bit 16 (push_bit 8 d OR d))) :: u8) n = bit (ucast d :: u8) n"
    using n b [of 8] b [of 16] b [of 24] by cases (simp_all add: bit_simps add.commute)
qed

lemma set_words_fill:
  "word_of_bytes w b \<Longrightarrow> \<exists>k \<le> n. set_words w a n m = (a + k, n - k, fill a k b m)"
proof (induction w a n m rule: set_words.induct)
  case (1 w a n m)
  show ?case
  proof (cases "n \<ge> 4")
    case True
    then obtain k where "k \<le> n - 4" "set_words w (a + 4) (n - 4) (store32 a w m) = (a + 4 + k, n - 4 - k, fill (a + 4) k b (store32 a w m))"
      using 1 by blast
    then show ?thesis using True fill_add [of a 4 k b m] store32_fill [OF 1(2)]
      by (intro exI [of _ "4 + k"]) (simp add: set_words.simps [of w a n])
  next
    case False
    then show ?thesis by (intro exI [of _ 0]) (simp add: set_words.simps)
  qed
qed

lemma store32_four_fill:
  assumes "word_of_bytes w b"
  shows "store32 (a + 12) w (store32 (a + 8) w (store32 (a + 4) w (store32 a w m))) = fill a 16 b m"
  unfolding store32_fill [OF assms] by (auto simp: fill_def fun_eq_iff)

lemma set_blocks_fill:
  "word_of_bytes w b \<Longrightarrow> \<exists>k \<le> n. set_blocks w a n m = (a + k, n - k, fill a k b m)"
proof (induction n arbitrary: a m rule: less_induct)
  case (less n)
  show ?case
  proof (cases "n \<ge> 16")
    case True
    then obtain k where "k \<le> n - 16" "set_blocks w (a + 16) (n - 16) (fill a 16 b m) = (a + 16 + k, n - 16 - k, fill (a + 16) k b (fill a 16 b m))"
      using less.IH [of "n - 16" "a + 16" "fill a 16 b m"] less.prems by auto
    then show ?thesis using True fill_add [of a 16 k b m] store32_four_fill [OF less.prems]
      by (intro exI [of _ "16 + k"]) (simp add: set_blocks.simps [of w a n] Let_def)
  next
    case False
    then show ?thesis by (intro exI [of _ 0]) (simp add: set_blocks.simps)
  qed
qed

lemma rt_memset_fills: "rt_memset s c n m = fill s n (ucast c) m"
proof -
  let ?b = "ucast (c AND 0xff) :: u8"
  have e: "?b = ucast c"
    by (rule bit_word_eqI) (auto simp: bit_unsigned_iff low_byte)
  show ?thesis
  proof (cases "\<not> n < 4 \<and> s mod 4 = 0")
    case True
    define d where "d = c AND 0xff"
    define w where "w = (push_bit 8 d OR d) OR push_bit 16 (push_bit 8 d OR d)"
    have w: "word_of_bytes w ?b" unfolding w_def d_def by (rule memset_buffer) (simp add: low_byte)
    obtain k where k: "k \<le> n" "set_blocks w s n m = (s + k, n - k, fill s k ?b m)" using set_blocks_fill [OF w] by blast
    obtain j where j: "j \<le> n - k" "set_words w (s + k) (n - k) (fill s k ?b m) = (s + k + j, n - k - j, fill (s + k) j ?b (fill s k ?b m))"
      using set_words_fill [OF w] by blast
    have "rt_memset s c n m = set_bytes ?b (s + k + j) (n - k - j) (fill (s + k) j ?b (fill s k ?b m))"
      using True k(2) j(2) unfolding rt_memset_def Let_def d_def [symmetric] w_def [symmetric] by (simp only: if_P simp_thms prod.case)
    also have "\<dots> = fill s n ?b m"
      using k(1) j(1) fill_add [of s "k + j" "n - k - j" ?b m] by (simp add: set_bytes_fill fill_add add.assoc)
    finally show ?thesis by (simp only: e)
  next
    case False
    then show ?thesis unfolding rt_memset_def Let_def set_bytes_fill e by auto
  qed
qed

section \<open>Copying\<close>

text \<open>All bytes at once, as if through a buffer.\<close>

definition transfer :: "ptr \<Rightarrow> ptr \<Rightarrow> nat \<Rightarrow> memory \<Rightarrow> memory" where
  "transfer d s n m = (\<lambda>x. if d \<le> x \<and> x < d + n then m (s + (x - d)) else m x)"

text \<open>The destination does not begin inside the source: going up never reads a byte already overwritten.\<close>

definition up_ok :: "ptr \<Rightarrow> ptr \<Rightarrow> nat \<Rightarrow> bool" where
  "up_ok d s n \<longleftrightarrow> \<not> (s < d \<and> d < s + n)"

lemma transfer_0 [simp]: "transfer d s 0 m = m"
  by (auto simp: transfer_def fun_eq_iff)

lemma transfer_add: "up_ok d s (k + n) \<Longrightarrow> transfer (d + k) (s + k) n (transfer d s k m) = transfer d s (k + n) m"
  by (auto simp: transfer_def up_ok_def fun_eq_iff)

lemma up_ok_rest: "up_ok d s (k + n) \<Longrightarrow> up_ok (d + k) (s + k) n"
  by (auto simp: up_ok_def)

lemma copy_up_transfer: "up_ok d s n \<Longrightarrow> copy_up d s n m = transfer d s n m"
proof (induction n arbitrary: d s m)
  case (Suc n)
  have "m(d := m s) = transfer d s 1 m" by (auto simp: transfer_def fun_eq_iff)
  moreover have "up_ok (d + 1) (s + 1) n" "up_ok d s (1 + n)" using Suc.prems up_ok_rest [of d s 1 n] by simp_all
  ultimately show ?case using Suc.IH [of "d + 1" "s + 1"] transfer_add [of d s 1 n m] by simp
qed simp

lemma byte_of_load32:
  "(ucast (load32 m a) :: u8) = m a" "(ucast (drop_bit 8 (load32 m a)) :: u8) = m (a + 1)"
  "(ucast (drop_bit 16 (load32 m a)) :: u8) = m (a + 2)" "(ucast (drop_bit 24 (load32 m a)) :: u8) = m (a + 3)"
proof -
  have far: "\<not> bit (m b) (n + i)" if "8 \<le> i" for b n i using that bit_imp_le_length [of "m b" "n + i"] by auto
  note simps = load32_def bit_simps far add.commute
  show "(ucast (load32 m a) :: u8) = m a" "(ucast (drop_bit 8 (load32 m a)) :: u8) = m (a + 1)"
    "(ucast (drop_bit 16 (load32 m a)) :: u8) = m (a + 2)" "(ucast (drop_bit 24 (load32 m a)) :: u8) = m (a + 3)"
    by (rule bit_word_eqI; use far [of 8] far [of 16] far [of 24] in \<open>simp add: load32_def bit_simps add.commute\<close>)+
qed

lemma word_transfer: "store32 d (load32 m s) m = transfer d s 4 m"
proof
  fix x
  have "d \<le> x \<and> x < d + 4 \<longleftrightarrow> x = d \<or> x = d + 1 \<or> x = d + 2 \<or> x = d + 3" by presburger
  then show "store32 d (load32 m s) m x = transfer d s 4 m x"
    by (auto simp: store32_def transfer_def byte_of_load32)
qed

lemma copy_words_transfer:
  "up_ok d s n \<Longrightarrow> \<exists>k \<le> n. copy_words d s n m = (d + k, s + k, n - k, transfer d s k m)"
proof (induction n arbitrary: d s m rule: less_induct)
  case (less n)
  show ?case
  proof (cases "n \<ge> 4")
    case True
    then have "up_ok (d + 4) (s + 4) (n - 4)" using up_ok_rest [of d s 4 "n - 4"] less.prems by simp
    then obtain k where k: "k \<le> n - 4" "copy_words (d + 4) (s + 4) (n - 4) (transfer d s 4 m)
        = (d + 4 + k, s + 4 + k, n - 4 - k, transfer (d + 4) (s + 4) k (transfer d s 4 m))"
      using less.IH [of "n - 4" "d + 4" "s + 4" "transfer d s 4 m"] True by auto
    have "up_ok d s (4 + k)" using less.prems k(1) True by (auto simp: up_ok_def)
    then show ?thesis using True k transfer_add [of d s 4 k m] word_transfer
      by (intro exI [of _ "4 + k"]) (simp add: copy_words.simps [of d s n])
  next
    case False
    then show ?thesis by (intro exI [of _ 0]) (simp add: copy_words.simps)
  qed
qed

lemma copy_block_transfer:
  assumes "up_ok d s 16"
  shows "(let m = store32 d (load32 m s) m; m = store32 (d + 4) (load32 m (s + 4)) m;
            m = store32 (d + 8) (load32 m (s + 8)) m in store32 (d + 12) (load32 m (s + 12)) m) = transfer d s 16 m"
proof -
  have u: "up_ok d s (4 + 4)" "up_ok d s (8 + 4)" "up_ok d s (12 + 4)" using assms by (auto simp: up_ok_def)
  show ?thesis
    using transfer_add [OF u(1), of m] transfer_add [OF u(2), of m] transfer_add [OF u(3), of m] by (simp add: Let_def word_transfer)
qed

lemma copy_blocks_transfer:
  "up_ok d s n \<Longrightarrow> \<exists>k \<le> n. copy_blocks d s n m = (d + k, s + k, n - k, transfer d s k m)"
proof (induction n arbitrary: d s m rule: less_induct)
  case (less n)
  show ?case
  proof (cases "n \<ge> 16")
    case True
    then have "up_ok (d + 16) (s + 16) (n - 16)" and u: "up_ok d s 16"
      using up_ok_rest [of d s 16 "n - 16"] less.prems by (auto simp: up_ok_def)
    then obtain k where k: "k \<le> n - 16" "copy_blocks (d + 16) (s + 16) (n - 16) (transfer d s 16 m)
        = (d + 16 + k, s + 16 + k, n - 16 - k, transfer (d + 16) (s + 16) k (transfer d s 16 m))"
      using less.IH [of "n - 16" "d + 16" "s + 16" "transfer d s 16 m"] True by auto
    have "up_ok d s (16 + k)" using less.prems k(1) True by (auto simp: up_ok_def)
    then show ?thesis using True k transfer_add [of d s 16 k m] copy_block_transfer [OF u, of m]
      by (intro exI [of _ "16 + k"]) (simp add: copy_blocks.simps [of d s n] Let_def)
  next
    case False
    then show ?thesis by (intro exI [of _ 0]) (simp add: copy_blocks.simps)
  qed
qed

text \<open>
  \<^verbatim>\<open>rt_memcpy\<close> copies the bytes as they were before, also where it copies words, unless the destination begins inside the source;
  nothing else changes.
\<close>

lemma rt_memcpy_transfers:
  assumes "\<not> (src < dst \<and> dst < src + n)"
  shows "rt_memcpy dst src n m = transfer dst src n m"
proof (cases "\<not> n < 16 \<and> src mod 4 = 0 \<and> dst mod 4 = 0")
  case True
  have u: "up_ok dst src n" using assms by (simp add: up_ok_def)
  obtain k where k: "k \<le> n" "copy_blocks dst src n m = (dst + k, src + k, n - k, transfer dst src k m)" using copy_blocks_transfer [OF u] by blast
  have uk: "up_ok (dst + k) (src + k) (n - k)" using up_ok_rest [of dst src k "n - k"] u k(1) by simp
  obtain j where j: "j \<le> n - k" "copy_words (dst + k) (src + k) (n - k) (transfer dst src k m)
      = (dst + k + j, src + k + j, n - k - j, transfer (dst + k) (src + k) j (transfer dst src k m))"
    using copy_words_transfer [OF uk] by blast
  have uj: "up_ok (dst + k + j) (src + k + j) (n - k - j)" using uk j(1) by (auto simp: up_ok_def)
  have ukj: "up_ok dst src (k + j)" "up_ok dst src (k + j + (n - k - j))" using u k(1) j(1) by (auto simp: up_ok_def)
  have "rt_memcpy dst src n m = transfer (dst + k + j) (src + k + j) (n - k - j) (transfer (dst + k) (src + k) j (transfer dst src k m))"
    using True k(2) j(2) copy_up_transfer [OF uj] by (simp add: rt_memcpy_def)
  also have "\<dots> = transfer dst src n m"
    using transfer_add [OF ukj(1), of m] transfer_add [OF ukj(2), of m] k(1) j(1) by (simp add: add.assoc)
  finally show ?thesis .
next
  case False
  then show ?thesis using copy_up_transfer [of dst src n m] assms by (auto simp: rt_memcpy_def up_ok_def)
qed

lemma copy_down_transfer: "s < d \<Longrightarrow> copy_down (d + n) (s + n) n m = transfer d s n m"
proof (induction n arbitrary: m)
  case (Suc n)
  then have "copy_down (d + Suc n) (s + Suc n) (Suc n) m = transfer d s n (m(d + n := m (s + n)))" by simp
  also have "\<dots> = transfer d s (Suc n) m"
  proof
    fix x show "transfer d s n (m(d + n := m (s + n))) x = transfer d s (Suc n) m x"
      using Suc.prems by (cases "x = d + n") (auto simp: transfer_def)
  qed
  finally show ?case .
qed simp

lemma rt_memmove_transfers: "rt_memmove dst src n m = transfer dst src n m"
  using copy_down_transfer [of src dst n m] copy_up_transfer [of dst src n m] by (auto simp: rt_memmove_def up_ok_def)

text \<open>
  C25. The word-wise loops of \<^verbatim>\<open>rt_memcpy\<close> and \<^verbatim>\<open>rt_memset\<close> do what loops over bytes do, for every address and length: \<^verbatim>\<open>rt_memset\<close>
  fills, \<^verbatim>\<open>rt_memmove\<close> transfers all bytes as they were before, and so does \<^verbatim>\<open>rt_memcpy\<close> unless the destination begins inside the source;
  no other byte changes.
\<close>

theorem rt_memory_operations:
  assumes "\<not> (src < dst \<and> dst < src + n)"
  shows "rt_memcpy dst src n m = transfer dst src n m \<and> rt_memmove d s k m = transfer d s k m \<and> rt_memset d c k m = fill d k (ucast c) m"
  using assms by (simp add: rt_memcpy_transfers rt_memmove_transfers rt_memset_fills)

theorem rt_memory_operations_witness: "rt_memcpy 8 12 23 (\<lambda>a. of_nat a) = transfer 8 12 23 (\<lambda>a. of_nat a)"
  using rt_memory_operations [of 12 8 23 "\<lambda>a. of_nat a"] by simp

section \<open>Comparing and searching\<close>

lemma rt_memcmp_0: "rt_memcmp m p q n = 0 \<longleftrightarrow> (\<forall>i < n. m (p + i) = m (q + i))"
proof (induction n arbitrary: p q)
  case (Suc n)
  have "(\<forall>i < Suc n. m (p + i) = m (q + i)) \<longleftrightarrow> m p = m q \<and> (\<forall>i < n. m (p + 1 + i) = m (q + 1 + i))"
    by (auto simp: All_less_Suc2)
  then show ?case using Suc.IH [of "p + 1" "q + 1"] by (auto simp: Let_def word_uint_eq_iff)
qed simp

lemma rt_memcmp_neg:
  "rt_memcmp m p q n < 0 \<longleftrightarrow> (\<exists>i < n. m (p + i) < m (q + i) \<and> (\<forall>j < i. m (p + j) = m (q + j)))"
proof (induction n arbitrary: p q)
  case (Suc n)
  have "(\<exists>i < Suc n. m (p + i) < m (q + i) \<and> (\<forall>j < i. m (p + j) = m (q + j))) \<longleftrightarrow>
    m p < m q \<or> m p = m q \<and> (\<exists>i < n. m (p + 1 + i) < m (q + 1 + i) \<and> (\<forall>j < i. m (p + 1 + j) = m (q + 1 + j)))"
    by (auto simp: Ex_less_Suc2 All_less_Suc2)
  then show ?case using Suc.IH [of "p + 1" "q + 1"] by (auto simp: Let_def word_uint_eq_iff word_less_def)
qed simp

definition str_at :: "memory \<Rightarrow> ptr \<Rightarrow> u8 list \<Rightarrow> bool" where
  "str_at m p s \<longleftrightarrow> (\<forall>i < length s. m (p + i) = s ! i \<and> s ! i \<noteq> 0) \<and> m (p + length s) = 0"

lemma str_at_Nil [simp]: "str_at m p [] \<longleftrightarrow> m p = 0"
  by (simp add: str_at_def)

lemma str_at_Cons [simp]: "str_at m p (c # s) \<longleftrightarrow> m p = c \<and> c \<noteq> 0 \<and> str_at m (p + 1) s"
  by (auto simp: str_at_def All_less_Suc2)

lemma strlen_loop_str: "str_at m p s \<Longrightarrow> strlen_loop m p = Some (p + length s)"
  by (induction s arbitrary: p) (simp_all add: strlen_loop.simps)

lemma rt_strlen_str: "str_at m p s \<Longrightarrow> rt_strlen m p = Some (length s)"
  by (simp add: rt_strlen_def strlen_loop_str)

text \<open>\<^verbatim>\<open>rt_strcmp\<close> is 0 for equal strings, and its sign tells which is the lesser in the order of dictionaries.\<close>

fun dict_less :: "u8 list \<Rightarrow> u8 list \<Rightarrow> bool" where
  "dict_less xs [] = False"
| "dict_less [] (y # ys) = True"
| "dict_less (x # xs) (y # ys) = (x < y \<or> x = y \<and> dict_less xs ys)"

theorem rt_strcmp_order:
  assumes "str_at m p a" "str_at m q b"
  shows "\<exists>r. rt_strcmp m p q = Some r \<and> (r = 0 \<longleftrightarrow> a = b) \<and> (r < 0 \<longleftrightarrow> dict_less a b)"
  using assms
proof (induction a b arbitrary: p q rule: dict_less.induct)
  case (1 xs)
  then show ?case by (cases xs) (auto simp: rt_strcmp.simps [of m p q] word_uint_eq_iff)
next
  case (2 y ys)
  then have "y \<noteq> 0" by simp
  then have "0 < uint y" by (simp add: word_uint_eq_iff order_less_le)
  then show ?case using 2 by (auto simp: rt_strcmp.simps [of m p q] word_uint_eq_iff word_less_def)
next
  case (3 x xs y ys)
  then show ?case by (cases "x = y") (auto simp: rt_strcmp.simps [of m p q] word_uint_eq_iff word_less_def)
qed

lemma lower_eq_0 [simp]: "lower c = 0 \<longleftrightarrow> c = 0"
  by (auto simp: lower_def Let_def word_uint_eq_iff split: if_splits)

lemma lower_0 [simp]: "lower 0 = 0"
  by (simp add: lower_def)

lemma lower_range: "0 \<le> lower c \<and> lower c < 288"
proof -
  have "0 \<le> uint c" "uint c < 256" using uint_bounded [of c] by simp_all
  then show ?thesis by (simp add: lower_def Let_def)
qed

text \<open>\<^verbatim>\<open>rt_strcasecmp\<close> is 0 exactly for strings that are equal up to the case of letters.\<close>

theorem rt_strcasecmp_equal:
  assumes "str_at m p a" "str_at m q b"
  shows "\<exists>r. rt_strcasecmp m p q = Some r \<and> (r = 0 \<longleftrightarrow> map lower a = map lower b)"
proof -
  have z: "(word_of_int (lower c - lower d) :: u32) = 0 \<longleftrightarrow> lower c = lower d" for c d
  proof -
    have "\<bar>lower c - lower d\<bar> < 2 ^ 32" using lower_range [of c] lower_range [of d] by (simp add: abs_less_iff)
    then show ?thesis using dvd_imp_le_int [of "lower c - lower d" "2 ^ 32"] unfolding word_of_int_eq_0_iff by auto
  qed
  show ?thesis
    using assms
  proof (induction a b arbitrary: p q rule: dict_less.induct)
    case (1 xs)
    then show ?case using z [of "m p" "m q"] by (cases xs) (auto simp: rt_strcasecmp.simps [of m p q] Let_def)
  next
    case (2 y ys)
    then show ?case using z [of "m p" "m q"] by (auto simp: rt_strcasecmp.simps [of m p q] Let_def)
  next
    case (3 x xs y ys)
    then show ?case using z [of x y] by (cases "lower x = lower y") (auto simp: rt_strcasecmp.simps [of m p q] Let_def)
  qed
qed

definition occurs_at :: "u8 list \<Rightarrow> u8 list \<Rightarrow> nat \<Rightarrow> bool" where
  "occurs_at b a i \<longleftrightarrow> i \<le> length a \<and> prefix b (drop i a)"

lemma memcmp_prefix:
  assumes "str_at m p a" "str_at m q b" "length b \<le> length a"
  shows "rt_memcmp m p q (length b) = 0 \<longleftrightarrow> prefix b a"
proof -
  have "rt_memcmp m p q (length b) = 0 \<longleftrightarrow> (\<forall>i < length b. a ! i = b ! i)"
    using assms by (auto simp: rt_memcmp_0 str_at_def)
  also have "\<dots> \<longleftrightarrow> take (length b) a = b"
    using assms(3) by (auto simp: list_eq_iff_nth_eq)
  also have "\<dots> \<longleftrightarrow> prefix b a"
    by (metis append_eq_conv_conj prefix_def take_is_prefix)
  finally show ?thesis .
qed

lemma strstr_loop_first:
  assumes "str_at m p a" "str_at m q b" "b \<noteq> []"
  shows "(\<forall>i. \<not> occurs_at b a i) \<and> strstr_loop m p q (length a) (length b) = RT_NULL \<or>
    (\<exists>i. occurs_at b a i \<and> (\<forall>j < i. \<not> occurs_at b a j) \<and> strstr_loop m p q (length a) (length b) = p + i)"
  using assms(1)
proof (induction a arbitrary: p)
  case Nil
  then show ?case using assms(3) by (auto simp: occurs_at_def strstr_loop.simps)
next
  case (Cons c a)
  have p: "str_at m (p + 1) a" using Cons.prems by simp
  have oc: "occurs_at b (c # a) i \<longleftrightarrow> (if i = 0 then prefix b (c # a) else occurs_at b a (i - 1))" for i
    by (cases i) (auto simp: occurs_at_def)
  show ?case
  proof (cases "length b \<le> length (c # a)")
    case False
    then have "\<not> occurs_at b (c # a) i" for i by (auto simp: occurs_at_def dest: prefix_length_le)
    then show ?thesis using False by (auto simp: strstr_loop.simps)
  next
    case True
    note mp = memcmp_prefix [OF Cons.prems assms(2) True]
    show ?thesis
    proof (cases "prefix b (c # a)")
      case pre: True
      then have "strstr_loop m p q (length (c # a)) (length b) = p + 0" using True mp by (simp add: strstr_loop.simps)
      then show ?thesis using pre oc by (intro disjI2 exI [of _ 0]) simp
    next
      case pre: False
      then have e: "strstr_loop m p q (length (c # a)) (length b) = strstr_loop m (p + 1) q (length a) (length b)"
        using True mp by (simp add: strstr_loop.simps [of m p])
      from Cons.IH [OF p] show ?thesis
      proof
        assume "(\<forall>i. \<not> occurs_at b a i) \<and> strstr_loop m (p + 1) q (length a) (length b) = RT_NULL"
        then show ?thesis unfolding e using oc pre by auto
      next
        assume "\<exists>i. occurs_at b a i \<and> (\<forall>j < i. \<not> occurs_at b a j) \<and> strstr_loop m (p + 1) q (length a) (length b) = p + 1 + i"
        then obtain i where i: "occurs_at b a i" "\<And>j. j < i \<Longrightarrow> \<not> occurs_at b a j" "strstr_loop m (p + 1) q (length a) (length b) = p + 1 + i" by blast
        have "\<not> occurs_at b (c # a) j" if "j < Suc i" for j using that i(2) [of "j - 1"] pre by (auto simp: oc)
        then show ?thesis unfolding e using i(1,3) by (intro disjI2 exI [of _ "Suc i"]) (simp add: oc)
      qed
    qed
  qed
qed

text \<open>\<^verbatim>\<open>rt_strstr\<close> returns the first occurrence of the second string in the first, and the null pointer when there is none.\<close>

theorem rt_strstr_first:
  assumes "str_at m p a" "str_at m q b"
  shows "(\<forall>i. \<not> occurs_at b a i) \<and> rt_strstr m p q = Some RT_NULL \<or>
    (\<exists>i. occurs_at b a i \<and> (\<forall>j < i. \<not> occurs_at b a j) \<and> rt_strstr m p q = Some (p + i))"
proof (cases "b = []")
  case True
  then show ?thesis using rt_strlen_str [OF assms(2)] by (intro disjI2 exI [of _ 0]) (simp add: rt_strstr_def occurs_at_def)
next
  case False
  then show ?thesis
    using strstr_loop_first [OF assms False] by (auto simp: rt_strstr_def rt_strlen_str [OF assms(1)] rt_strlen_str [OF assms(2)])
qed

end
