(* ===== verification/RT_Mem.thy ===== *)
theory RT_Mem
  imports RT_State RT_Heap RT_Bytes
begin

text \<open>
  The small memory heap of \<^verbatim>\<open>src/mem.c\<close>: first fit over a doubly linked list of blocks that lie one behind the other. Each
  block starts with a header of 12 bytes; headers are kept as one map from addresses, the bytes that clients store as another.
  Every operation runs with \<^verbatim>\<open>heap_sem\<close> taken, so operations of different threads do not overlap. The debug messages, the hooks and the thread
  names of \<^verbatim>\<open>RT_USING_MEMTRACE\<close> are not configured. The model is of a configuration with \<^verbatim>\<open>RT_USING_SMALL_MEM\<close>. It is apart from the kernel's
  state: the semaphore of the heap is the number \<open>heap_sem\<close> only, which \<^verbatim>\<open>rt_system_heap_init\<close> sets without entering it as an object into the container, and the
  checks \<^verbatim>\<open>RT_DEBUG_NOT_IN_INTERRUPT\<close> at the heads of the functions are left out; callers in a thread pass them. Headers cannot be damaged by stores of
  clients, as they are in a map of their own; that the headers lie outside of the blocks in use is part of \<open>heap_rep\<close>.
\<close>

section \<open>The heap\<close>

text \<open>\<^verbatim>\<open>struct heap_mem\<close>; \<open>hm_next\<close> and \<open>hm_prev\<close> are offsets from the start of the heap.\<close>

record heap_mem =
  hm_magic :: u16
  hm_used :: u16
  hm_next :: u32
  hm_prev :: u32

record mem_heap =
  heap_ptr :: ptr
  heap_end :: ptr
  lfree :: ptr
  heap_sem :: u16
  mem_size_aligned :: u32
  used_mem :: u32
  max_mem :: u32
  headers :: "ptr \<Rightarrow> heap_mem"
  heap_bytes :: "ptr \<Rightarrow> u8"

abbreviation (input) HEAP_MAGIC :: u16 where "HEAP_MAGIC \<equiv> 0x1ea0"
abbreviation (input) SIZEOF_STRUCT_MEM :: nat where "SIZEOF_STRUCT_MEM \<equiv> 12"
abbreviation (input) MIN_SIZE_ALIGNED :: u32 where "MIN_SIZE_ALIGNED \<equiv> 12"

text \<open>\<^verbatim>\<open>&heap_ptr[off]\<close>, and the offset \<^verbatim>\<open>(rt_uint8_t *)mem - heap_ptr\<close> of a header.\<close>

definition heap_at :: "mem_heap \<Rightarrow> u32 \<Rightarrow> ptr" where "heap_at h off = heap_ptr h + unat off"
definition heap_off :: "mem_heap \<Rightarrow> ptr \<Rightarrow> u32" where "heap_off h mem = of_nat (mem - heap_ptr h)"

definition upd_header :: "ptr \<Rightarrow> (heap_mem \<Rightarrow> heap_mem) \<Rightarrow> mem_heap \<Rightarrow> mem_heap" where
  "upd_header mem f h = h\<lparr>headers := (headers h)(mem := f (headers h mem))\<rparr>"

text \<open>\<^verbatim>\<open>rt_sem_take\<close> and \<^verbatim>\<open>rt_sem_release\<close> of the heap semaphore when no other thread is inside the heap.\<close>

definition heap_lock :: "mem_heap \<Rightarrow> mem_heap option" where
  "heap_lock h = do { mem_ok (heap_sem h > 0); Some (h\<lparr>heap_sem := heap_sem h - 1\<rparr>) }"

definition heap_unlock :: "mem_heap \<Rightarrow> mem_heap" where
  "heap_unlock h = h\<lparr>heap_sem := heap_sem h + 1\<rparr>"

section \<open>Operations\<close>

definition plug_forward :: "ptr \<Rightarrow> mem_heap \<Rightarrow> mem_heap" where
  "plug_forward mem h =
    (let nmem = heap_at h (hm_next (headers h mem)) in
     if mem \<noteq> nmem \<and> hm_used (headers h nmem) = 0 \<and> nmem \<noteq> heap_end h then
       (let h = (if lfree h = nmem then h\<lparr>lfree := mem\<rparr> else h);
            h = upd_header mem (\<lambda>m. m\<lparr>hm_next := hm_next (headers h nmem)\<rparr>) h
        in upd_header (heap_at h (hm_next (headers h nmem))) (\<lambda>m. m\<lparr>hm_prev := heap_off h mem\<rparr>) h)
     else h)"

definition plug_backward :: "ptr \<Rightarrow> mem_heap \<Rightarrow> mem_heap" where
  "plug_backward mem h =
    (let pmem = heap_at h (hm_prev (headers h mem)) in
     if pmem \<noteq> mem \<and> hm_used (headers h pmem) = 0 then
       (let h = (if lfree h = mem then h\<lparr>lfree := pmem\<rparr> else h);
            h = upd_header pmem (\<lambda>m. m\<lparr>hm_next := hm_next (headers h mem)\<rparr>) h
        in upd_header (heap_at h (hm_next (headers h mem))) (\<lambda>m. m\<lparr>hm_prev := heap_off h pmem\<rparr>) h)
     else h)"

definition plug_holes :: "ptr \<Rightarrow> mem_heap \<Rightarrow> mem_heap option" where
  "plug_holes mem h = do {
     RT_ASSERT (mem \<ge> heap_ptr h);
     RT_ASSERT (mem < heap_end h);
     RT_ASSERT (hm_used (headers h mem) = 0);
     Some (plug_backward mem (plug_forward mem h)) }"

text \<open>Addresses too small for two headers are reported and leave the heap as it is.\<close>

definition rt_system_heap_init :: "u32 \<Rightarrow> u32 \<Rightarrow> mem_heap \<Rightarrow> mem_heap" where
  "rt_system_heap_init begin_addr end_addr h =
    (let begin_align = rt_align4 begin_addr; end_align = rt_align_down4 end_addr in
     if end_align > 24 \<and> end_align - 24 \<ge> begin_align then
       (let h = h\<lparr>mem_size_aligned := end_align - begin_align - 24\<rparr>;
            h = h\<lparr>heap_ptr := unat begin_align\<rparr>;
            h = upd_header (heap_ptr h) (\<lambda>m. m\<lparr>hm_magic := HEAP_MAGIC, hm_next := mem_size_aligned h + 12, hm_prev := 0, hm_used := 0\<rparr>) h;
            h = h\<lparr>heap_end := heap_at h (hm_next (headers h (heap_ptr h)))\<rparr>;
            h = upd_header (heap_end h) (\<lambda>m. m\<lparr>hm_magic := HEAP_MAGIC, hm_used := 1, hm_next := mem_size_aligned h + 12,
              hm_prev := mem_size_aligned h + 12\<rparr>) h;
            h = h\<lparr>heap_sem := 1\<rparr>
        in h\<lparr>lfree := heap_ptr h\<rparr>)
     else h)"

text \<open>The search of \<^verbatim>\<open>rt_malloc\<close>: the offset of the first free block that fits. It may run forever on a malformed heap.\<close>

partial_function (option) malloc_find :: "mem_heap \<Rightarrow> u32 \<Rightarrow> u32 \<Rightarrow> u32 option option" where
  "malloc_find h sz ptr =
    (if ptr < mem_size_aligned h - sz then
       (let mem = heap_at h ptr in
        if hm_used (headers h mem) = 0 \<and> hm_next (headers h mem) - (ptr + 12) \<ge> sz then Some (Some ptr)
        else malloc_find h sz (hm_next (headers h mem)))
     else Some None)"

text \<open>The search for the next lowest free block.\<close>

partial_function (option) next_free :: "mem_heap \<Rightarrow> ptr \<Rightarrow> ptr option" where
  "next_free h p =
    (if hm_used (headers h p) \<noteq> 0 \<and> p \<noteq> heap_end h then next_free h (heap_at h (hm_next (headers h p))) else Some p)"

definition count_used :: "u32 \<Rightarrow> mem_heap \<Rightarrow> mem_heap" where
  "count_used n h =
    (let h = h\<lparr>used_mem := used_mem h + n\<rparr> in if max_mem h < used_mem h then h\<lparr>max_mem := used_mem h\<rparr> else h)"

text \<open>A new free block at offset \<open>ptr2\<close> between \<open>mem\<close> at offset \<open>ptr\<close> and its successor.\<close>

definition insert_block :: "u32 \<Rightarrow> u32 \<Rightarrow> mem_heap \<Rightarrow> mem_heap" where
  "insert_block ptr ptr2 h =
    (let mem = heap_at h ptr; mem2 = heap_at h ptr2;
         h = upd_header mem2 (\<lambda>m. m\<lparr>hm_magic := HEAP_MAGIC, hm_used := 0, hm_next := hm_next (headers h mem), hm_prev := ptr\<rparr>) h;
         h = upd_header mem (\<lambda>m. m\<lparr>hm_next := ptr2\<rparr>) h
     in if hm_next (headers h mem2) \<noteq> mem_size_aligned h + 12
        then upd_header (heap_at h (hm_next (headers h mem2))) (\<lambda>m. m\<lparr>hm_prev := ptr2\<rparr>) h else h)"

definition malloc_use :: "u32 \<Rightarrow> u32 \<Rightarrow> mem_heap \<Rightarrow> mem_heap" where
  "malloc_use sz ptr h =
    (let mem = heap_at h ptr in
     if hm_next (headers h mem) - (ptr + 12) \<ge> sz + 12 + MIN_SIZE_ALIGNED
     then count_used (sz + 12) (upd_header mem (\<lambda>m. m\<lparr>hm_used := 1\<rparr>) (insert_block ptr (ptr + 12 + sz) h))
     else count_used (hm_next (headers h mem) - heap_off h mem) (upd_header mem (\<lambda>m. m\<lparr>hm_used := 1\<rparr>) h))"

text \<open>When the lowest free block has been taken, the lowest-free pointer moves on.\<close>

definition malloc_lfree :: "ptr \<Rightarrow> mem_heap \<Rightarrow> mem_heap option" where
  "malloc_lfree mem h =
    (if mem = lfree h then do {
       l \<leftarrow> next_free h (lfree h);
       let h = h\<lparr>lfree := l\<rparr>;
       RT_ASSERT (lfree h = heap_end h \<or> hm_used (headers h (lfree h)) = 0);
       Some h }
     else Some h)"

definition rt_malloc :: "u32 \<Rightarrow> mem_heap \<Rightarrow> (ptr \<times> mem_heap) option" where
  "rt_malloc sz h =
    (if sz = 0 then Some (RT_NULL, h)
     else let sz = rt_align4 sz in
     if sz > mem_size_aligned h then Some (RT_NULL, h)
     else do {
       let sz = (if sz < MIN_SIZE_ALIGNED then MIN_SIZE_ALIGNED else sz);
       h \<leftarrow> heap_lock h;
       found \<leftarrow> malloc_find h sz (heap_off h (lfree h));
       case found of
         None \<Rightarrow> Some (RT_NULL, heap_unlock h)
       | Some ptr \<Rightarrow> do {
           let mem = heap_at h ptr;
           let h = malloc_use sz ptr h;
           let h = upd_header mem (\<lambda>m. m\<lparr>hm_magic := HEAP_MAGIC\<rparr>) h;
           h \<leftarrow> malloc_lfree mem h;
           let h = heap_unlock h;
           RT_ASSERT (mem + 12 + unat sz \<le> heap_end h);
           RT_ASSERT ((mem + 12) mod 4 = 0);
           RT_ASSERT (mem mod 4 = 0);
           Some (mem + 12, h) } })"

definition rt_free :: "ptr \<Rightarrow> mem_heap \<Rightarrow> mem_heap option" where
  "rt_free rmem h =
    (if rmem = RT_NULL then Some h
     else do {
       RT_ASSERT (rmem mod 4 = 0);
       RT_ASSERT (rmem \<ge> heap_ptr h \<and> rmem < heap_end h);
       mem_ok (heap_ptr h + 12 \<le> rmem);
       let mem = rmem - 12;
       h \<leftarrow> heap_lock h;
       RT_ASSERT (hm_used (headers h mem) \<noteq> 0);
       RT_ASSERT (hm_magic (headers h mem) = HEAP_MAGIC);
       let h = upd_header mem (\<lambda>m. m\<lparr>hm_used := 0, hm_magic := HEAP_MAGIC\<rparr>) h;
       let h = (if mem < lfree h then h\<lparr>lfree := mem\<rparr> else h);
       let h = h\<lparr>used_mem := used_mem h - (hm_next (headers h mem) - heap_off h mem)\<rparr>;
       h \<leftarrow> plug_holes mem h;
       Some (heap_unlock h) })"

text \<open>\<^verbatim>\<open>rt_memcpy\<close> and \<^verbatim>\<open>rt_memset\<close> on the bytes of clients.\<close>

definition heap_memcpy :: "ptr \<Rightarrow> ptr \<Rightarrow> nat \<Rightarrow> mem_heap \<Rightarrow> mem_heap" where
  "heap_memcpy dst src n h = h\<lparr>heap_bytes := rt_memcpy dst src n (heap_bytes h)\<rparr>"

definition heap_memset :: "ptr \<Rightarrow> u32 \<Rightarrow> nat \<Rightarrow> mem_heap \<Rightarrow> mem_heap" where
  "heap_memset dst c n h = h\<lparr>heap_bytes := rt_memset dst c n (heap_bytes h)\<rparr>"

definition rt_realloc :: "ptr \<Rightarrow> u32 \<Rightarrow> mem_heap \<Rightarrow> (ptr \<times> mem_heap) option" where
  "rt_realloc rmem newsize h =
    (let newsize = rt_align4 newsize in
     if newsize > mem_size_aligned h then Some (RT_NULL, h)
     else if newsize = 0 then do { h \<leftarrow> rt_free rmem h; Some (RT_NULL, h) }
     else if rmem = RT_NULL then rt_malloc newsize h
     else do {
       h \<leftarrow> heap_lock h;
       if rmem < heap_ptr h \<or> rmem \<ge> heap_end h then Some (rmem, heap_unlock h)
       else do {
         mem_ok (heap_ptr h + 12 \<le> rmem);
         let mem = rmem - 12;
         let ptr = heap_off h mem;
         let size = hm_next (headers h mem) - ptr - 12;
         if size = newsize then Some (rmem, heap_unlock h)
         else if newsize + 12 + MIN_SIZE_ALIGNED < size then do {
           let h = h\<lparr>used_mem := used_mem h - (size - newsize)\<rparr>;
           let ptr2 = ptr + 12 + newsize;
           let h = insert_block ptr ptr2 h;
           h \<leftarrow> plug_holes (heap_at h ptr2) h;
           Some (rmem, heap_unlock h) }
         else do {
           let h = heap_unlock h;
           (nmem, h) \<leftarrow> rt_malloc newsize h;
           if nmem \<noteq> RT_NULL then do {
             let h = heap_memcpy nmem rmem (unat (if size < newsize then size else newsize)) h;
             h \<leftarrow> rt_free rmem h;
             Some (nmem, h) }
           else Some (nmem, h) } } })"

definition rt_calloc :: "u32 \<Rightarrow> u32 \<Rightarrow> mem_heap \<Rightarrow> (ptr \<times> mem_heap) option" where
  "rt_calloc count sz h = do {
     (p, h) \<leftarrow> rt_malloc (count * sz) h;
     Some (p, if p \<noteq> RT_NULL then heap_memset p 0 (unat (count * sz)) h else h) }"

definition rt_memory_info :: "mem_heap \<Rightarrow> u32 \<times> u32 \<times> u32" where
  "rt_memory_info h = (mem_size_aligned h, used_mem h, max_mem h)"

section \<open>The list of blocks\<close>

text \<open>
  A heap is described by the list of its blocks, each an offset with a flag for blocks in use; they lie one behind the other up to
  the end marker. The data of a block begins 12 bytes behind its offset.
\<close>

definition hdr :: "mem_heap \<Rightarrow> nat \<Rightarrow> heap_mem" where "hdr h a = headers h (heap_ptr h + a)"

definition heap_size :: "mem_heap \<Rightarrow> nat" where "heap_size h = unat (mem_size_aligned h) + 12"

fun first :: "(nat \<times> bool) list \<Rightarrow> nat \<Rightarrow> nat" where
  "first [] e = e"
| "first ((x, u) # bs) e = x"

fun blks :: "(nat \<Rightarrow> heap_mem) \<Rightarrow> nat \<Rightarrow> (nat \<times> bool) list \<Rightarrow> nat \<Rightarrow> bool" where
  "blks H p [] e \<longleftrightarrow> True"
| "blks H p ((x, u) # bs) e \<longleftrightarrow> hm_magic (H x) = HEAP_MAGIC \<and> (hm_used (H x) \<noteq> 0 \<longleftrightarrow> u) \<and> unat (hm_prev (H x)) = p \<and>
     unat (hm_next (H x)) = first bs e \<and> x + 16 \<le> first bs e \<and> 4 dvd x \<and> blks H x bs e"

text \<open>The blocks in use: address offset of the data and its length.\<close>

fun live :: "(nat \<times> bool) list \<Rightarrow> nat \<Rightarrow> (nat \<times> nat) list" where
  "live [] e = []"
| "live ((x, u) # bs) e = (if u then [(x + 12, first bs e - x - 12)] else []) @ live bs e"

definition last_of :: "nat \<Rightarrow> (nat \<times> bool) list \<Rightarrow> nat" where
  "last_of p bs = (if bs = [] then p else fst (last bs))"

lemma first_append [simp]: "first (xs @ ys) e = first xs (first ys e)"
  by (cases "(xs, e)" rule: first.cases) auto

lemma last_of_simps [simp]: "last_of p [] = p" "last_of p (xs @ [(x, u)]) = x" "last_of p ((x, u) # bs) = last_of x bs"
  by (auto simp: last_of_def)

lemma blks_append: "blks H p (xs @ ys) e \<longleftrightarrow> blks H p xs (first ys e) \<and> blks H (last_of p xs) ys e"
  by (induction xs arbitrary: p) auto

lemma live_append: "live (xs @ ys) e = live xs (first ys e) @ live ys e"
  by (induction xs) auto

lemma blks_cong: "(\<And>x. x \<in> fst ` set bs \<Longrightarrow> H x = H' x) \<Longrightarrow> blks H p bs e = blks H' p bs e"
  by (induction bs arbitrary: p) auto

lemma blks_upd [simp]: "x \<notin> fst ` set bs \<Longrightarrow> blks (H(x := m)) p bs e = blks H p bs e"
  by (rule blks_cong) auto

lemma blks_le: "blks H p bs e \<Longrightarrow> first bs e \<le> e"
proof (induction bs arbitrary: p)
  case (Cons b bs)
  then show ?case by (cases b) force
qed simp

lemma blks_bounds: "blks H p bs e \<Longrightarrow> (x, u) \<in> set bs \<Longrightarrow> first bs e \<le> x \<and> x + 16 \<le> e \<and> 4 dvd x"
proof (induction bs arbitrary: p)
  case (Cons b bs)
  then show ?case using blks_le [of H _ bs e] by (cases b) force
qed simp

lemma blks_notin: "blks H p bs e \<Longrightarrow> x < first bs e \<or> e \<le> x \<Longrightarrow> x \<notin> fst ` set bs"
  using blks_bounds by fastforce

text \<open>The link back of the first block.\<close>

lemma blks_prev:
  assumes "blks H p ((y, v) # bs) e" "q < 2 ^ 32"
  shows "blks (H(y := (H y)\<lparr>hm_prev := of_nat q\<rparr>)) q ((y, v) # bs) e"
proof -
  have "y \<notin> fst ` set bs" using assms(1) blks_notin [of H y bs e y] by auto
  then show ?thesis using assms by (simp add: unat_of_nat)
qed

definition heap_rep :: "mem_heap \<Rightarrow> (nat \<times> bool) list \<Rightarrow> bool" where
  "heap_rep h bs \<longleftrightarrow> blks (hdr h) 0 bs (heap_size h) \<and> first bs (heap_size h) = 0 \<and> hm_used (hdr h (heap_size h)) \<noteq> 0 \<and>
     24 \<le> heap_size h \<and> heap_end h = heap_ptr h + heap_size h \<and> heap_ptr h + heap_size h + 12 < 2 ^ 32 \<and>
     4 dvd heap_ptr h \<and> 4 dvd heap_size h"

text \<open>The lowest-free pointer is the end marker or a free block.\<close>

definition lfree_ok :: "mem_heap \<Rightarrow> (nat \<times> bool) list \<Rightarrow> bool" where
  "lfree_ok h bs \<longleftrightarrow> (\<exists>l. lfree h = heap_ptr h + l \<and> (l = heap_size h \<or> (l, False) \<in> set bs))"

text \<open>No two free blocks are neighbours.\<close>

definition coalesced :: "(nat \<times> bool) list \<Rightarrow> bool" where
  "coalesced = successively (\<lambda>x y. snd x \<or> snd y)"

text \<open>The three changes of the list: a flag, a new block, two blocks that become one.\<close>

lemma blks_split_notin:
  assumes "blks H p (xs @ (x, u) # ys) e"
  shows "x \<notin> fst ` set xs" "x \<notin> fst ` set ys" "first ys e \<notin> fst ` set xs" "first ys e \<noteq> x" "e \<notin> fst ` set xs" "e \<notin> fst ` set ys" "e \<noteq> x"
    "x < first ys e" "first ys e \<le> e"
proof -
  have s: "blks H p xs x" "blks H (last_of p xs) ((x, u) # ys) e" using assms by (simp_all add: blks_append)
  then have l: "x < first ys e" "first ys e \<le> e" "blks H x ys e" using blks_le by auto
  show "x \<notin> fst ` set xs" "first ys e \<notin> fst ` set xs" "e \<notin> fst ` set xs" using blks_notin [OF s(1)] l by auto
  show "x \<notin> fst ` set ys" "e \<notin> fst ` set ys" using blks_notin [OF l(3)] l by auto
  show "x < first ys e" "first ys e \<le> e" "first ys e \<noteq> x" "e \<noteq> x" using l by auto
qed

lemma blks_flag:
  assumes "blks H p (xs @ (x, u) # ys) e"
  shows "blks (H(x := (H x)\<lparr>hm_used := c, hm_magic := HEAP_MAGIC\<rparr>)) p (xs @ (x, c \<noteq> 0) # ys) e"
  using assms blks_split_notin(1,2) [OF assms] by (simp add: blks_append)

lemma blks_link:
  assumes s: "blks H p ys e" and z: "z = first ys e" and q: "q < 2 ^ 32"
  shows "blks (H(z := (H z)\<lparr>hm_prev := of_nat q\<rparr>)) q ys e"
proof (cases ys)
  case (Cons y zs)
  then show ?thesis using blks_prev [of H p "fst y" "snd y" zs e q] s z q by (cases y) simp
qed simp

lemma blks_merge:
  assumes s: "blks H p (xs @ (x, u) # (y, v) # ys) e" and e: "e < 2 ^ 32" and z: "z = first ys e"
  shows "blks (H(x := (H x)\<lparr>hm_next := hm_next (H y)\<rparr>, z := (H z)\<lparr>hm_prev := of_nat x\<rparr>)) p (xs @ (x, u) # ys) e"
proof -
  let ?H = "H(x := (H x)\<lparr>hm_next := hm_next (H y)\<rparr>)"
  note n = blks_split_notin [OF s]
  have s2: "blks H p ((xs @ [(x, u)]) @ (y, v) # ys) e" using s by simp
  note m = blks_split_notin [OF s2]
  have sy: "blks H y ys e" "blks H p xs x" using s by (simp_all add: blks_append)
  have zx: "z \<noteq> x" "z \<notin> fst ` set xs" using m(3) z by auto
  have "blks ?H y ys e" using sy n(2) by simp
  then have "blks (?H(z := (?H z)\<lparr>hm_prev := of_nat x\<rparr>)) x ys e" by (rule blks_link [OF _ z]) (use n e in simp)
  moreover have "x + 16 \<le> z" using s z by (simp add: blks_append)
  ultimately show ?thesis using s zx sy n(1) z by (simp add: blks_append)
qed

lemma blks_insert:
  assumes s: "blks H p (xs @ (x, u) # ys) e" and e: "e < 2 ^ 32" and m: "x + 16 \<le> m" "m + 16 \<le> first ys e" "4 dvd m" and z: "z = first ys e"
    and new: "hm_magic M = HEAP_MAGIC" "hm_used M = 0" "hm_next M = hm_next (H x)" "hm_prev M = of_nat x"
  shows "blks (H(m := M, x := (H x)\<lparr>hm_next := of_nat m\<rparr>, z := (H z)\<lparr>hm_prev := of_nat m\<rparr>)) p (xs @ (x, u) # (m, False) # ys) e"
    "ys = [] \<Longrightarrow> blks (H(m := M, x := (H x)\<lparr>hm_next := of_nat m\<rparr>)) p (xs @ (x, u) # (m, False) # ys) e"
proof -
  let ?H = "H(m := M, x := (H x)\<lparr>hm_next := of_nat m\<rparr>)"
  note n = blks_split_notin [OF s]
  have sy: "blks H x ys e" "blks H p xs x" using s by (simp_all add: blks_append)
  have mn: "m \<notin> fst ` set xs" "m \<notin> fst ` set ys" using blks_notin [OF sy(2)] blks_notin [OF sy(1)] m by auto
  have zx: "z \<noteq> x" "z \<noteq> m" "z \<notin> fst ` set xs" using n z m by auto
  have u: "unat (of_nat m :: u32) = m" "unat (of_nat x :: u32) = x" using m n(9) e by (simp_all add: unat_of_nat)
  have sm: "blks ?H x ys e" using sy(1) mn n by simp
  then have "blks (?H(z := (?H z)\<lparr>hm_prev := of_nat m\<rparr>)) m ys e" by (rule blks_link [OF _ z]) (use m n e in simp)
  then show "blks (H(m := M, x := (H x)\<lparr>hm_next := of_nat m\<rparr>, z := (H z)\<lparr>hm_prev := of_nat m\<rparr>)) p (xs @ (x, u) # (m, False) # ys) e"
    using s zx sy n(1) z mn m u new by (simp add: blks_append)
  show "blks ?H p (xs @ (x, u) # (m, False) # ys) e" if "ys = []"
    using that s sy n(1) z mn m u new by (simp add: blks_append)
qed

section \<open>The operations on the list of blocks\<close>

lemma upd_header_simps [simp]:
  "heap_ptr (upd_header a f h) = heap_ptr h" "heap_end (upd_header a f h) = heap_end h" "lfree (upd_header a f h) = lfree h"
  "heap_sem (upd_header a f h) = heap_sem h" "mem_size_aligned (upd_header a f h) = mem_size_aligned h"
  "used_mem (upd_header a f h) = used_mem h" "max_mem (upd_header a f h) = max_mem h" "heap_bytes (upd_header a f h) = heap_bytes h"
  "headers (upd_header a f h) b = (if b = a then f (headers h a) else headers h b)"
  by (simp_all add: upd_header_def)

lemma hdr_simps [simp]:
  "heap_ptr h = p \<Longrightarrow> hdr (upd_header (p + x) f h) = (hdr h)(x := f (hdr h x))"
  "hdr (h\<lparr>lfree := l\<rparr>) = hdr h" "hdr (h\<lparr>used_mem := n\<rparr>) = hdr h" "hdr (h\<lparr>max_mem := n\<rparr>) = hdr h" "hdr (h\<lparr>heap_sem := c\<rparr>) = hdr h"
  "hdr (h\<lparr>heap_bytes := b\<rparr>) = hdr h"
  by (auto simp: hdr_def upd_header_def)

lemma heap_size_simps [simp]:
  "heap_size (upd_header a f h) = heap_size h" "heap_size (h\<lparr>lfree := l\<rparr>) = heap_size h" "heap_size (h\<lparr>used_mem := n\<rparr>) = heap_size h"
  "heap_size (h\<lparr>max_mem := n\<rparr>) = heap_size h" "heap_size (h\<lparr>heap_sem := c\<rparr>) = heap_size h" "heap_size (h\<lparr>heap_bytes := b\<rparr>) = heap_size h"
  by (simp_all add: heap_size_def)

lemma heap_off_at [simp]: "heap_off h (heap_ptr h + x) = of_nat x"
  by (simp add: heap_off_def)

lemma heap_off_frame [simp]:
  "heap_off (upd_header a f h) = heap_off h" "heap_off (h\<lparr>lfree := l\<rparr>) = heap_off h"
  "heap_off (h\<lparr>heap_sem := c\<rparr>) = heap_off h" "heap_off (h\<lparr>used_mem := n\<rparr>) = heap_off h"
  by (simp_all add: heap_off_def fun_eq_iff)

lemma headers_hdr: "headers h (heap_ptr h + x) = hdr h x"
  by (simp add: hdr_def)

text \<open>What an operation on the list leaves alone.\<close>

definition same_area :: "mem_heap \<Rightarrow> mem_heap \<Rightarrow> bool" where
  "same_area h h' \<longleftrightarrow> heap_ptr h' = heap_ptr h \<and> heap_end h' = heap_end h \<and> mem_size_aligned h' = mem_size_aligned h"

lemma same_area_size: "same_area h h' \<Longrightarrow> heap_size h' = heap_size h"
  by (simp add: same_area_def heap_size_def)

lemma heap_rep_change:
  assumes "heap_rep h bs" "same_area h h'" "blks (hdr h') 0 bs' (heap_size h)" "first bs' (heap_size h) = 0"
    "hm_used (hdr h' (heap_size h)) \<noteq> 0"
  shows "heap_rep h' bs'"
  using assms same_area_size [OF assms(2)] by (simp add: heap_rep_def same_area_def)

lemma heap_rep_mid:
  assumes "heap_rep h (xs @ (x, u) # ys)"
  shows "unat (of_nat x :: u32) = x" "hm_used (hdr h x) \<noteq> 0 \<longleftrightarrow> u" "unat (hm_next (hdr h x)) = first ys (heap_size h)"
    "unat (hm_prev (hdr h x)) = last_of 0 xs" "x + 16 \<le> first ys (heap_size h)" "first ys (heap_size h) \<le> heap_size h" "4 dvd x" "4 dvd heap_ptr h"
    "heap_end h = heap_ptr h + heap_size h" "heap_size h < 2 ^ 32" "hm_magic (hdr h x) = HEAP_MAGIC" "heap_ptr h + heap_size h + 12 < 2 ^ 32"
    "24 \<le> heap_size h"
  using assms blks_le [of "hdr h" x ys "heap_size h"] by (auto simp: heap_rep_def blks_append unat_of_nat)

definition merge_blocks :: "nat \<Rightarrow> nat \<Rightarrow> mem_heap \<Rightarrow> mem_heap" where
  "merge_blocks x y h =
    (let h = (if lfree h = heap_ptr h + y then h\<lparr>lfree := heap_ptr h + x\<rparr> else h);
         h = upd_header (heap_ptr h + x) (\<lambda>m. m\<lparr>hm_next := hm_next (hdr h y)\<rparr>) h
     in upd_header (heap_ptr h + unat (hm_next (hdr h y))) (\<lambda>m. m\<lparr>hm_prev := of_nat x\<rparr>) h)"

lemma plug_forward_merge:
  "plug_forward (heap_ptr h + x) h =
    (let y = unat (hm_next (hdr h x)) in
     if x \<noteq> y \<and> hm_used (hdr h y) = 0 \<and> heap_ptr h + y \<noteq> heap_end h then merge_blocks x y h else h)"
  by (simp add: plug_forward_def merge_blocks_def heap_at_def headers_hdr Let_def)

lemma plug_backward_merge:
  "plug_backward (heap_ptr h + y) h =
    (let x = unat (hm_prev (hdr h y)) in if x \<noteq> y \<and> hm_used (hdr h x) = 0 then merge_blocks x y h else h)"
  by (simp add: plug_backward_def merge_blocks_def heap_at_def headers_hdr Let_def)

lemma merge_blocks_simps [simp]:
  "heap_ptr (merge_blocks x y h) = heap_ptr h" "heap_end (merge_blocks x y h) = heap_end h"
  "mem_size_aligned (merge_blocks x y h) = mem_size_aligned h" "heap_sem (merge_blocks x y h) = heap_sem h"
  "used_mem (merge_blocks x y h) = used_mem h" "max_mem (merge_blocks x y h) = max_mem h" "heap_bytes (merge_blocks x y h) = heap_bytes h"
  "lfree (merge_blocks x y h) = (if lfree h = heap_ptr h + y then heap_ptr h + x else lfree h)"
  by (simp_all add: merge_blocks_def Let_def)

lemma merge_blocks_rep:
  assumes r: "heap_rep h (xs @ (x, u) # (y, v) # ys)"
  shows "heap_rep (merge_blocks x y h) (xs @ (x, u) # ys)"
proof -
  let ?e = "heap_size h" let ?z = "first ys ?e"
  have b: "blks (hdr h) 0 (xs @ (x, u) # (y, v) # ys) ?e" and e: "?e < 2 ^ 32" using r by (simp_all add: heap_rep_def)
  have n: "unat (hm_next (hdr h y)) = ?z" "y \<noteq> x" "?e \<noteq> x"
    using heap_rep_mid(3) [of h "xs @ [(x, u)]" y v ys] r blks_split_notin(4,7) [OF b] by auto
  define H' where "H' = (hdr h)(x := (hdr h x)\<lparr>hm_next := hm_next (hdr h y)\<rparr>, ?z := (hdr h ?z)\<lparr>hm_prev := of_nat x\<rparr>)"
  have z: "?z \<noteq> x" using blks_split_notin(3) [of "hdr h" 0 "xs @ [(x, u)]" y v ys ?e] b by auto
  have "hdr (merge_blocks x y h) = H'"
    using n z by (auto simp: merge_blocks_def Let_def H'_def)
  then show ?thesis
    using heap_rep_change [OF r, of "merge_blocks x y h" "xs @ (x, u) # ys"] blks_merge [OF b e refl] r n
    by (auto simp: same_area_def H'_def heap_rep_def)
qed

text \<open>\<^verbatim>\<open>plug_holes\<close> takes in the free blocks on both sides.\<close>

fun absorb :: "(nat \<times> bool) list \<Rightarrow> (nat \<times> bool) list" where
  "absorb ((y, False) # ys) = ys"
| "absorb ys = ys"

lemma absorb_subset: "set (absorb ys) \<subseteq> set ys"
  by (induction ys rule: absorb.induct) auto

lemma live_absorb [simp]: "live (absorb ys) e = live ys e"
  by (induction ys rule: absorb.induct) auto

text \<open>The fields that merging leaves alone, and the lowest-free pointer, which only goes down.\<close>

definition merge_frame :: "mem_heap \<Rightarrow> mem_heap \<Rightarrow> bool" where
  "merge_frame h h' \<longleftrightarrow> same_area h h' \<and> heap_sem h' = heap_sem h \<and> used_mem h' = used_mem h \<and> max_mem h' = max_mem h \<and>
     heap_bytes h' = heap_bytes h \<and> lfree h' \<le> lfree h"

lemma merge_frame_refl: "merge_frame h h"
  by (simp add: merge_frame_def same_area_def)

lemma merge_frame_trans: "merge_frame h h' \<Longrightarrow> merge_frame h' h'' \<Longrightarrow> merge_frame h h''"
  by (auto simp: merge_frame_def same_area_def)

lemma merge_blocks_frame: "x \<le> y \<Longrightarrow> merge_frame h (merge_blocks x y h)"
  by (simp add: merge_frame_def same_area_def)

lemma merge_blocks_lfree:
  assumes r: "heap_rep h (xs @ (x, False) # (y, v) # ys)" and l: "lfree_ok h (xs @ (x, False) # (y, v) # ys)"
  shows "lfree_ok (merge_blocks x y h) (xs @ (x, False) # ys)"
proof -
  have "heap_size (merge_blocks x y h) = heap_size h" by (simp add: heap_size_def)
  then show ?thesis using l by (auto simp: lfree_ok_def)
qed

lemma plug_forward_rep:
  assumes r: "heap_rep h (xs @ (x, False) # ys)" and l: "lfree_ok h (xs @ (x, False) # ys)"
  shows "heap_rep (plug_forward (heap_ptr h + x) h) (xs @ (x, False) # absorb ys) \<and>
    lfree_ok (plug_forward (heap_ptr h + x) h) (xs @ (x, False) # absorb ys) \<and> merge_frame h (plug_forward (heap_ptr h + x) h)"
proof (cases ys)
  case Nil
  then show ?thesis using r l heap_rep_mid(3,9) [OF r] by (simp add: plug_forward_merge Let_def merge_frame_refl)
next
  case (Cons b zs)
  obtain y v where b: "b = (y, v)" by (cases b)
  have r': "heap_rep h ((xs @ [(x, False)]) @ (y, v) # zs)" using r Cons b by simp
  note m = heap_rep_mid(2,5,6) [OF r'] heap_rep_mid(3,5,9) [OF r]
  have y: "unat (hm_next (hdr h x)) = y" "x < y" "y < heap_size h" using m Cons b by auto
  show ?thesis
  proof (cases v)
    case True
    then show ?thesis using r l m y Cons b by (simp add: plug_forward_merge Let_def merge_frame_refl)
  next
    case False
    then have "plug_forward (heap_ptr h + x) h = merge_blocks x y h" using m y by (simp add: plug_forward_merge Let_def)
    then show ?thesis using False Cons b y merge_blocks_rep [of h xs x False y v zs] merge_blocks_lfree [of h xs x y v zs] r l
        merge_blocks_frame [of x y h] by simp
  qed
qed

definition absorb_back :: "(nat \<times> bool) list \<Rightarrow> nat \<Rightarrow> (nat \<times> bool) list \<Rightarrow> (nat \<times> bool) list" where
  "absorb_back xs x ys = (if xs \<noteq> [] \<and> \<not> snd (last xs) then xs @ ys else xs @ (x, False) # ys)"

lemma plug_backward_rep:
  assumes r: "heap_rep h (xs @ (x, False) # ys)" and l: "lfree_ok h (xs @ (x, False) # ys)"
  shows "heap_rep (plug_backward (heap_ptr h + x) h) (absorb_back xs x ys) \<and>
    lfree_ok (plug_backward (heap_ptr h + x) h) (absorb_back xs x ys) \<and> merge_frame h (plug_backward (heap_ptr h + x) h)"
proof (cases xs rule: rev_cases)
  case Nil
  then have "unat (hm_prev (hdr h x)) = x" using r heap_rep_mid(4) [OF r] by (simp add: heap_rep_def)
  then show ?thesis using Nil r l by (simp add: plug_backward_merge Let_def absorb_back_def merge_frame_refl)
next
  case (snoc zs b)
  obtain w u where b: "b = (w, u)" by (cases b)
  have r': "heap_rep h (zs @ (w, u) # (x, False) # ys)" using r snoc b by simp
  have w: "unat (hm_prev (hdr h x)) = w" using heap_rep_mid(4) [OF r] snoc b by simp
  have m: "hm_used (hdr h w) \<noteq> 0 \<longleftrightarrow> u" "w < x" using heap_rep_mid(2,5) [OF r'] by auto
  show ?thesis
  proof (cases u)
    case True
    then show ?thesis using r l m w snoc b by (simp add: plug_backward_merge Let_def absorb_back_def merge_frame_refl)
  next
    case False
    then have "plug_backward (heap_ptr h + x) h = merge_blocks w x h" using m w by (simp add: plug_backward_merge Let_def)
    then show ?thesis using False snoc b merge_blocks_rep [OF r'] merge_blocks_lfree [of h zs w x False ys] r' l m(2)
        merge_blocks_frame [of w x h] by (simp add: absorb_back_def)
  qed
qed

lemma absorb_used: "coalesced ys \<Longrightarrow> coalesced (absorb ys) \<and> (absorb ys = [] \<or> snd (hd (absorb ys)))"
  by (induction ys rule: absorb.induct) (auto simp: coalesced_def successively_Cons)

lemma absorb_back_coalesced:
  "coalesced xs \<Longrightarrow> coalesced ys \<Longrightarrow> coalesced (absorb_back xs x (absorb ys))"
  using absorb_used [of ys] by (auto simp: absorb_back_def coalesced_def successively_append_iff successively_Cons)

lemma live_last_free: "xs \<noteq> [] \<Longrightarrow> \<not> snd (last xs) \<Longrightarrow> live xs a = live xs b"
  by (cases xs rule: rev_cases) (auto simp: live_append)

lemma absorb_back_live: "live (absorb_back xs x (absorb ys)) e = live (xs @ (x, False) # ys) e"
  using live_last_free [of xs "first (absorb ys) e" x] by (auto simp: absorb_back_def live_append)

lemma absorb_back_subset: "set (absorb_back xs x (absorb ys)) \<subseteq> set (xs @ (x, False) # ys)"
  using absorb_subset [of ys] by (auto simp: absorb_back_def)

lemma plug_holes_rep:
  assumes r: "heap_rep h (xs @ (x, False) # ys)" and l: "lfree_ok h (xs @ (x, False) # ys)"
  shows "\<exists>h'. plug_holes (heap_ptr h + x) h = Some h' \<and> heap_rep h' (absorb_back xs x (absorb ys)) \<and>
    lfree_ok h' (absorb_back xs x (absorb ys)) \<and> merge_frame h h'"
proof -
  have u: "hm_used (headers h (heap_ptr h + x)) = 0" "x < heap_size h" "heap_end h = heap_ptr h + heap_size h"
    using heap_rep_mid(2,5,6,9) [OF r] by (auto simp: headers_hdr)
  let ?h = "plug_forward (heap_ptr h + x) h"
  have f: "heap_rep ?h (xs @ (x, False) # absorb ys)" "lfree_ok ?h (xs @ (x, False) # absorb ys)" "merge_frame h ?h"
    using plug_forward_rep [OF r l] by auto
  have "heap_ptr ?h = heap_ptr h" using f(3) by (simp add: merge_frame_def same_area_def)
  then show ?thesis using u plug_backward_rep [OF f(1,2)] merge_frame_trans [OF f(3)] by (simp add: plug_holes_def)
qed

section \<open>Searching\<close>

text \<open>The first free block that is large enough and does not begin too near to the end.\<close>

fun first_fit :: "nat \<Rightarrow> (nat \<times> bool) list \<Rightarrow> nat \<Rightarrow> nat option" where
  "first_fit k [] e = None"
| "first_fit k ((x, u) # bs) e =
     (if \<not> u \<and> x + 12 + k \<le> first bs e \<and> x + 12 + k < e then Some x else first_fit k bs e)"

lemma first_fit_far: "blks H p bs e \<Longrightarrow> e \<le> first bs e + 12 + k \<Longrightarrow> first_fit k bs e = None"
proof (induction bs arbitrary: p)
  case (Cons b bs)
  then show ?case using blks_le by (cases b) force
qed simp

text \<open>The length of the data of a block, as the code computes it.\<close>

lemma unat_u32_less: "unat x < 2 ^ 32" for x :: u32
  using unsigned_less [of x] by simp

lemma data_length:
  fixes ptr n :: u32
  assumes "unat ptr + 16 \<le> unat n"
  shows "unat (n - (ptr + 12)) = unat n - unat ptr - 12"
proof -
  have "unat (ptr + 12) = unat ptr + 12" using assms unat_u32_less [of n] by (simp add: unat_word_ariths)
  then show ?thesis using assms by (simp add: unat_sub word_le_nat_alt)
qed

lemma malloc_find_first_fit:
  assumes "blks (hdr h) p bs (heap_size h)" "heap_size h < 2 ^ 32" "unat k + 12 \<le> heap_size h" "unat ptr = first bs (heap_size h)"
  shows "malloc_find h k ptr = Some (map_option of_nat (first_fit (unat k) bs (heap_size h)))"
  using assms(1,4)
proof (induction bs arbitrary: p ptr)
  case Nil
  have "\<not> ptr < mem_size_aligned h - k"
    using Nil assms(3) by (simp add: word_less_nat_alt unat_sub word_le_nat_alt heap_size_def)
  then show ?case by (simp add: malloc_find.simps)
next
  case (Cons b bs)
  obtain x u where b: "b = (x, u)" by (cases b)
  let ?e = "heap_size h" let ?n = "hm_next (hdr h x)"
  have x: "unat ptr = x" and n: "unat ?n = first bs ?e" "x + 16 \<le> first bs ?e" and u: "hm_used (hdr h x) \<noteq> 0 \<longleftrightarrow> u"
    using Cons.prems b by auto
  have le: "first bs ?e \<le> ?e" using Cons.prems(1) b blks_le by auto
  have c1: "ptr < mem_size_aligned h - k \<longleftrightarrow> x + 12 + unat k < ?e"
    using assms(3) x by (simp add: word_less_nat_alt unat_sub word_le_nat_alt heap_size_def) linarith
  have c2: "k \<le> ?n - (ptr + 12) \<longleftrightarrow> x + 12 + unat k \<le> first bs ?e"
    using data_length [of ptr ?n] n x by (simp add: word_le_nat_alt) linarith
  have p: "of_nat x = ptr" by (simp flip: x)
  have at: "headers h (heap_at h ptr) = hdr h x" by (simp add: heap_at_def hdr_def x)
  have IH: "malloc_find h k ?n = Some (map_option of_nat (first_fit (unat k) bs ?e))"
    using Cons.IH [of x ?n] Cons.prems(1) b n(1) by simp
  show ?case
  proof (cases "x + 12 + unat k < ?e")
    case True
    then show ?thesis using c1 c2 u IH unfolding b by (cases u; simp add: malloc_find.simps [of h k ptr] Let_def at p)
  next
    case False
    then have "first_fit (unat k) (b # bs) ?e = None" using first_fit_far [OF Cons.prems(1), of "unat k"] b by simp
    then show ?thesis using c1 False by (simp add: malloc_find.simps)
  qed
qed

lemma first_fit_Some:
  "first_fit k bs e = Some x \<Longrightarrow> \<exists>xs ys. bs = xs @ (x, False) # ys \<and> x + 12 + k \<le> first ys e \<and> x + 12 + k < e"
proof (induction bs)
  case (Cons b bs)
  obtain y u where b: "b = (y, u)" by (cases b)
  show ?case
  proof (cases "\<not> u \<and> y + 12 + k \<le> first bs e \<and> y + 12 + k < e")
    case True
    then have "x = y" "\<not> u" using Cons.prems b by simp_all
    then show ?thesis using True b by (intro exI [of _ "[]"] exI [of _ bs]) simp
  next
    case False
    then obtain xs ys where "bs = xs @ (x, False) # ys" "x + 12 + k \<le> first ys e" "x + 12 + k < e" using Cons b by auto
    then show ?thesis by (intro exI [of _ "b # xs"] exI [of _ ys]) auto
  qed
qed simp

fun lowest_free :: "(nat \<times> bool) list \<Rightarrow> nat \<Rightarrow> nat" where
  "lowest_free [] e = e"
| "lowest_free ((x, u) # bs) e = (if u then lowest_free bs e else x)"

lemma next_free_lowest:
  assumes "blks (hdr h) p bs (heap_size h)" "heap_end h = heap_ptr h + heap_size h"
  shows "next_free h (heap_ptr h + first bs (heap_size h)) = Some (heap_ptr h + lowest_free bs (heap_size h))"
  using assms(1)
proof (induction bs arbitrary: p)
  case Nil
  then show ?case using assms(2) by (simp add: next_free.simps)
next
  case (Cons b bs)
  obtain x u where b: "b = (x, u)" by (cases b)
  have x: "x < heap_size h" using Cons.prems b blks_le [of "hdr h" x bs "heap_size h"] by auto
  show ?case
    using Cons b x assms(2) by (subst next_free.simps) (auto simp: headers_hdr heap_at_def)
qed

lemma lowest_free_cases: "lowest_free bs e = e \<or> (lowest_free bs e, False) \<in> set bs"
  by (induction bs) auto

lemma lowest_free_le: "blks H p bs e \<Longrightarrow> (l, False) \<in> set bs \<Longrightarrow> lowest_free bs e \<le> l"
proof (induction bs arbitrary: p)
  case (Cons b bs)
  then show ?case using blks_bounds [of H _ bs e l False] by (cases b) fastforce
qed simp

section \<open>Taking a block\<close>

lemma insert_block_rep:
  assumes r: "heap_rep h (xs @ (x, u) # ys)" and m: "x + 16 \<le> m" "m + 16 \<le> first ys (heap_size h)" "4 dvd m"
  shows "heap_rep (insert_block (of_nat x) (of_nat m) h) (xs @ (x, u) # (m, False) # ys)"
proof -
  let ?e = "heap_size h" let ?z = "first ys ?e" let ?h = "insert_block (of_nat x) (of_nat m) h"
  have b: "blks (hdr h) 0 (xs @ (x, u) # ys) ?e" and e: "?e < 2 ^ 32" using r by (simp_all add: heap_rep_def)
  note n = heap_rep_mid [OF r]
  have um: "unat (of_nat m :: u32) = m" using m n(6,10) by (simp add: unat_of_nat)
  have E: "unat (mem_size_aligned h + 12) = ?e" using e by (simp add: heap_size_def unat_word_ariths)
  define M where "M = (hdr h m)\<lparr>hm_magic := HEAP_MAGIC, hm_used := 0, hm_next := hm_next (hdr h x), hm_prev := of_nat x\<rparr>"
  have z: "?z \<noteq> x" "?z \<noteq> m" "m \<noteq> x" "?e \<noteq> m" "?e \<noteq> x" using m n(5,6) by auto
  have last: "hm_next (hdr h x) = mem_size_aligned h + 12 \<longleftrightarrow> ?z = ?e" using n(3) E by (metis word_unat_eq_iff)
  have H: "hdr ?h = (if ?z = ?e then (hdr h)(m := M, x := (hdr h x)\<lparr>hm_next := of_nat m\<rparr>)
      else (hdr h)(m := M, x := (hdr h x)\<lparr>hm_next := of_nat m\<rparr>, ?z := (hdr h ?z)\<lparr>hm_prev := of_nat m\<rparr>))"
    using z last n(3) by (simp add: insert_block_def heap_at_def n(1) um headers_hdr Let_def M_def)
  have ze: "?z = ?e \<longleftrightarrow> ys = []"
  proof (cases ys)
    case (Cons y zs)
    then show ?thesis using b blks_le [of "hdr h" "fst y" zs ?e] by (cases y) (auto simp: blks_append)
  qed simp
  note i = blks_insert [OF b e m refl, of M]
  have "blks (hdr ?h) 0 (xs @ (x, u) # (m, False) # ys) ?e"
    using i ze unfolding H by (simp add: M_def)
  moreover have "hm_used (hdr ?h ?e) \<noteq> 0" using r z unfolding H by (auto simp: heap_rep_def)
  moreover have "same_area h ?h" by (simp add: same_area_def insert_block_def Let_def)
  ultimately show ?thesis using heap_rep_change [OF r, of ?h "xs @ (x, u) # (m, False) # ys"] r by (simp add: heap_rep_def)
qed

text \<open>The blocks behind a block of which the first \<open>k\<close> bytes are taken: the rest is a block of its own when it is long enough.\<close>

definition split_tail :: "nat \<Rightarrow> nat \<Rightarrow> (nat \<times> bool) list \<Rightarrow> nat \<Rightarrow> (nat \<times> bool) list" where
  "split_tail k x ys e = (if x + 12 + k + 24 \<le> first ys e then (x + 12 + k, False) # ys else ys)"

lemma live_split_tail [simp]: "live (split_tail k x ys e) e = live ys e"
  by (simp add: split_tail_def)

lemma first_split_tail: "x + 12 + k \<le> first ys e \<Longrightarrow> x + 12 + k \<le> first (split_tail k x ys e) e \<and> first (split_tail k x ys e) e \<le> first ys e"
  by (simp add: split_tail_def)

lemma count_used_simps [simp]:
  "heap_ptr (count_used n h) = heap_ptr h" "heap_end (count_used n h) = heap_end h" "lfree (count_used n h) = lfree h"
  "heap_sem (count_used n h) = heap_sem h" "mem_size_aligned (count_used n h) = mem_size_aligned h"
  "heap_bytes (count_used n h) = heap_bytes h" "hdr (count_used n h) = hdr h" "used_mem (count_used n h) = used_mem h + n"
  "max_mem (count_used n h) = max (max_mem h) (used_mem h + n)" "heap_size (count_used n h) = heap_size h"
  by (auto simp: count_used_def Let_def max_def heap_size_def)

lemma insert_block_simps [simp]:
  "heap_ptr (insert_block p q h) = heap_ptr h" "heap_end (insert_block p q h) = heap_end h" "lfree (insert_block p q h) = lfree h"
  "heap_sem (insert_block p q h) = heap_sem h" "mem_size_aligned (insert_block p q h) = mem_size_aligned h"
  "heap_bytes (insert_block p q h) = heap_bytes h" "used_mem (insert_block p q h) = used_mem h" "max_mem (insert_block p q h) = max_mem h"
  "heap_size (insert_block p q h) = heap_size h"
  by (simp_all add: insert_block_def Let_def)

lemma heap_rep_flag:
  assumes r: "heap_rep h (xs @ (x, u) # ys)" and s: "same_area h h'"
    and H: "hdr h' = (hdr h)(x := (hdr h x)\<lparr>hm_used := c, hm_magic := HEAP_MAGIC\<rparr>)"
  shows "heap_rep h' (xs @ (x, c \<noteq> 0) # ys)"
proof (rule heap_rep_change [OF r s])
  have b: "blks (hdr h) 0 (xs @ (x, u) # ys) (heap_size h)" using r by (simp add: heap_rep_def)
  show "blks (hdr h') 0 (xs @ (x, c \<noteq> 0) # ys) (heap_size h)" unfolding H by (rule blks_flag [OF b])
  show "hm_used (hdr h' (heap_size h)) \<noteq> 0" using r blks_split_notin(7) [OF b] by (simp add: heap_rep_def H)
qed (use r in \<open>simp add: heap_rep_def\<close>)

lemma malloc_use_rep:
  assumes r: "heap_rep h (xs @ (x, False) # ys)" and k: "x + 12 + k \<le> first ys (heap_size h)" "4 dvd k" "12 \<le> k"
    and h': "h' = upd_header (heap_ptr h + x) (\<lambda>m. m\<lparr>hm_magic := HEAP_MAGIC\<rparr>) (malloc_use (of_nat k) (of_nat x) h)"
  shows "heap_rep h' (xs @ (x, True) # split_tail k x ys (heap_size h)) \<and> same_area h h' \<and> lfree h' = lfree h \<and> heap_sem h' = heap_sem h \<and>
    heap_bytes h' = heap_bytes h \<and> used_mem h' = used_mem h + of_nat (first (split_tail k x ys (heap_size h)) (heap_size h) - x) \<and>
    max_mem h' = max (max_mem h) (used_mem h')"
proof -
  let ?e = "heap_size h" let ?z = "first ys ?e"
  note n = heap_rep_mid [OF r]
  have uk: "unat (of_nat k :: u32) = k" "unat (of_nat k + 12 + 12 :: u32) = k + 24"
    using k n(6,12) by (simp_all add: unat_of_nat unat_word_ariths)
  have len: "unat (hm_next (hdr h x) - (of_nat x + 12)) = ?z - x - 12"
    using data_length [of "of_nat x" "hm_next (hdr h x)"] n(1,3,5) by simp
  have c: "hm_next (hdr h x) - (of_nat x + 12) \<ge> of_nat k + 12 + MIN_SIZE_ALIGNED \<longleftrightarrow> x + 12 + k + 24 \<le> ?z"
    unfolding word_le_nat_alt len uk(2) using k(1) by linarith
  have at: "heap_at h (of_nat x) = heap_ptr h + x" by (simp add: heap_at_def n(1))
  show ?thesis
  proof (cases "x + 12 + k + 24 \<le> ?z")
    case True
    let ?m = "x + 12 + k" let ?h = "insert_block (of_nat x) (of_nat ?m) h"
    have ir: "heap_rep ?h (xs @ (x, False) # (?m, False) # ys)"
      by (rule insert_block_rep [OF r]) (use True k n(7) in auto)
    have w: "of_nat x + 12 + of_nat k = (of_nat ?m :: u32)" by simp
    have h1: "h' = upd_header (heap_ptr h + x) (\<lambda>m. m\<lparr>hm_magic := HEAP_MAGIC\<rparr>)
        (count_used (of_nat k + 12) (upd_header (heap_ptr h + x) (\<lambda>m. m\<lparr>hm_used := 1\<rparr>) ?h))"
      unfolding h' malloc_use_def Let_def at headers_hdr w using c True by simp
    have H: "hdr h' = (hdr ?h)(x := (hdr ?h x)\<lparr>hm_used := 1, hm_magic := HEAP_MAGIC\<rparr>)" by (simp add: h1)
    show ?thesis using heap_rep_flag [OF ir _ H] True by (simp add: h1 same_area_def split_tail_def add.commute)
  next
    case False
    have off: "hm_next (hdr h x) - of_nat x = of_nat (?z - x)"
    proof -
      have "hm_next (hdr h x) = of_nat ?z" by (simp flip: n(3))
      then show ?thesis using n(5) by (simp add: of_nat_diff)
    qed
    have h1: "h' = upd_header (heap_ptr h + x) (\<lambda>m. m\<lparr>hm_magic := HEAP_MAGIC\<rparr>)
        (count_used (of_nat (?z - x)) (upd_header (heap_ptr h + x) (\<lambda>m. m\<lparr>hm_used := 1\<rparr>) h))"
      unfolding h' malloc_use_def Let_def at headers_hdr heap_off_at off using c False by simp
    have H: "hdr h' = (hdr h)(x := (hdr h x)\<lparr>hm_used := 1, hm_magic := HEAP_MAGIC\<rparr>)" by (simp add: h1)
    show ?thesis using heap_rep_flag [OF r _ H] False by (simp add: h1 same_area_def split_tail_def del: of_nat_diff)
  qed
qed

section \<open>The heap invariant\<close>

text \<open>The number of bytes in use, headers included.\<close>

definition in_use :: "(nat \<times> nat) list \<Rightarrow> nat" where
  "in_use ls = sum_list (map (\<lambda>(p, n). n + 12) ls)"

lemma in_use_simps [simp]: "in_use [] = 0" "in_use ((p, n) # ls) = n + 12 + in_use ls" "in_use (xs @ ys) = in_use xs + in_use ys"
  by (simp_all add: in_use_def)

definition heap_inv :: "mem_heap \<Rightarrow> (nat \<times> bool) list \<Rightarrow> bool" where
  "heap_inv h bs \<longleftrightarrow> heap_rep h bs \<and> lfree_ok h bs \<and> coalesced bs \<and> heap_sem h = 1 \<and>
     unat (used_mem h) = in_use (live bs (heap_size h)) \<and> used_mem h \<le> max_mem h"

text \<open>The lowest-free pointer is not above any free block.\<close>

definition lowest :: "mem_heap \<Rightarrow> (nat \<times> bool) list \<Rightarrow> bool" where
  "lowest h bs \<longleftrightarrow> (\<forall>l. (l, False) \<in> set bs \<longrightarrow> lfree h \<le> heap_ptr h + l)"

lemma blks_in_use: "blks H p bs e \<Longrightarrow> first bs e + in_use (live bs e) \<le> e"
proof (induction bs arbitrary: p)
  case (Cons b bs)
  then show ?case by (cases b) fastforce
qed simp

lemma coalesced_take:
  assumes "coalesced (xs @ (x, False) # ys)"
  shows "coalesced (xs @ (x, True) # split_tail k x ys e)"
  using assms by (auto simp: coalesced_def split_tail_def successively_append_iff successively_Cons)

lemma heap_inv_suffix:
  assumes "heap_inv h bs"
  obtains pre suf where "bs = pre @ suf" "lfree h = heap_ptr h + first suf (heap_size h)" "suf = [] \<or> \<not> snd (hd suf)"
proof -
  obtain l where l: "lfree h = heap_ptr h + l" "l = heap_size h \<or> (l, False) \<in> set bs"
    using assms by (auto simp: heap_inv_def lfree_ok_def)
  show thesis
  proof (cases "l = heap_size h")
    case True
    then show thesis using l(1) that [of bs "[]"] by simp
  next
    case False
    then obtain pre suf where "bs = pre @ (l, False) # suf" using l(2) split_list by fast
    then show thesis using l(1) that [of pre "(l, False) # suf"] by simp
  qed
qed

lemma align_size:
  assumes "unat n + 3 < 2 ^ 32"
  shows "unat (rt_align4 n) = unat n + 3 - (unat n + 3) mod 4" "unat n \<le> unat (rt_align4 n)" "unat (rt_align4 n) < unat n + 4"
proof -
  have "unat (n + 3) = unat n + 3" using assms by (simp add: unat_word_ariths)
  then show e: "unat (rt_align4 n) = unat n + 3 - (unat n + 3) mod 4" unfolding rt_align4_def unat_align_down by simp
  show "unat n \<le> unat (rt_align4 n)" "unat (rt_align4 n) < unat n + 4" unfolding e by presburger+
qed

lemma align_dvd: "4 dvd unat (rt_align4 n)"
  unfolding rt_align4_def unat_align_down by presburger

text \<open>The data length that a request is rounded up to.\<close>

definition rounded :: "u32 \<Rightarrow> nat" where "rounded n = max 12 (unat (rt_align4 n))"

lemma rounded_simps: "4 dvd rounded n" "12 \<le> rounded n" "unat n + 3 < 2 ^ 32 \<Longrightarrow> unat n \<le> rounded n"
  using align_dvd [of n] align_size [of n] by (auto simp: rounded_def max_def)

lemma lowest_free_unused:
  assumes "heap_rep h (xs @ (x, u) # ys)"
  shows "lowest_free ys (heap_size h) = heap_size h \<or> hm_used (hdr h (lowest_free ys (heap_size h))) = 0"
proof -
  consider "lowest_free ys (heap_size h) = heap_size h" | "(lowest_free ys (heap_size h), False) \<in> set ys" using lowest_free_cases by blast
  then show ?thesis
  proof cases
    case 2
    then obtain as cs where "ys = as @ (lowest_free ys (heap_size h), False) # cs" by (meson split_list)
    then show ?thesis using heap_rep_mid(2) [of h "xs @ (x, u) # as" "lowest_free ys (heap_size h)" False cs] assms by simp
  qed simp
qed

lemma lfree_ok_take:
  assumes l: "lfree_ok h (xs @ (x, False) # ys)" and a: "heap_ptr h' = heap_ptr h" "heap_size h' = heap_size h"
    and l': "lfree h' = (if heap_ptr h + x = lfree h then heap_ptr h + lowest_free (split_tail k x ys (heap_size h)) (heap_size h) else lfree h)"
  shows "lfree_ok h' (xs @ (x, True) # split_tail k x ys (heap_size h))"
proof (cases "heap_ptr h + x = lfree h")
  case True
  then show ?thesis using lowest_free_cases [of "split_tail k x ys (heap_size h)" "heap_size h"] a l' by (auto simp: lfree_ok_def)
next
  case False
  obtain q where q: "lfree h = heap_ptr h + q" "q = heap_size h \<or> (q, False) \<in> set (xs @ (x, False) # ys)"
    using l by (auto simp: lfree_ok_def)
  then have "q = heap_size h \<or> (q, False) \<in> set (xs @ (x, True) # split_tail k x ys (heap_size h))" using False by (auto simp: split_tail_def)
  then show ?thesis using False q(1) a l' by (auto simp: lfree_ok_def)
qed

lemma rt_malloc_take:
  assumes inv: "heap_inv h (xs @ (x, False) # ys)" and k: "x + 12 + k \<le> first ys (heap_size h)" "4 dvd k" "12 \<le> k" "unat sz = k"
    and h1: "h1 = upd_header (heap_ptr h + x) (\<lambda>m. m\<lparr>hm_magic := HEAP_MAGIC\<rparr>) (malloc_use sz (of_nat x) (h\<lparr>heap_sem := 0\<rparr>))"
  shows "\<exists>h'. map_option heap_unlock (malloc_lfree (heap_ptr h + x) h1) = Some h' \<and>
    heap_inv h' (xs @ (x, True) # split_tail k x ys (heap_size h)) \<and> same_area h h' \<and> heap_bytes h' = heap_bytes h \<and>
    (lowest h (xs @ (x, False) # ys) \<longrightarrow> lowest h' (xs @ (x, True) # split_tail k x ys (heap_size h)))"
proof -
  let ?e = "heap_size h" let ?ys = "split_tail k x ys (heap_size h)" let ?bs = "xs @ (x, True) # ?ys"
  have r0: "heap_rep (h\<lparr>heap_sem := 0\<rparr>) (xs @ (x, False) # ys)" using inv by (simp add: heap_inv_def heap_rep_def)
  have sz: "sz = of_nat k" using k(4) by (simp flip: k(4))
  have h1': "h1 = upd_header (heap_ptr (h\<lparr>heap_sem := 0\<rparr>) + x) (\<lambda>m. m\<lparr>hm_magic := HEAP_MAGIC\<rparr>)
      (malloc_use (of_nat k) (of_nat x) (h\<lparr>heap_sem := 0\<rparr>))" by (simp add: h1 sz)
  have u: "heap_rep h1 ?bs" "same_area h h1" "lfree h1 = lfree h" "heap_sem h1 = 0" "heap_bytes h1 = heap_bytes h"
    "used_mem h1 = used_mem h + of_nat (first ?ys ?e - x)" "max_mem h1 = max (max_mem h) (used_mem h1)"
    using malloc_use_rep [OF r0 _ k(2,3) h1'] k(1) by (auto simp: same_area_def)
  have b: "blks (hdr h1) 0 ?bs ?e" and e1: "heap_size h1 = ?e" using u(1) same_area_size [OF u(2)] by (simp_all add: heap_rep_def)
  note n = heap_rep_mid [OF u(1)]
  have hp: "heap_ptr h1 = heap_ptr h" "heap_end h1 = heap_ptr h + ?e" using u(2) n(9) e1 by (simp_all add: same_area_def)
  have tot: "in_use (live ?bs ?e) = unat (used_mem h) + (first ?ys ?e - x)"
    using inv n(5) e1 by (simp add: heap_inv_def live_append)
  have "in_use (live ?bs ?e) \<le> ?e" using blks_in_use [OF b] by linarith
  then have "unat (used_mem h1) = in_use (live ?bs ?e)"
    using tot n(10) e1 unfolding u(6) by (simp add: unat_word_ariths unat_of_nat del: of_nat_diff)
  then have acc: "unat (used_mem h1) = in_use (live ?bs ?e) \<and> used_mem h1 \<le> max_mem h1" using u(7) by simp
  have co: "coalesced ?bs" using inv coalesced_take by (simp add: heap_inv_def)
  define l where "l = (if heap_ptr h + x = lfree h then heap_ptr h + lowest_free ?ys ?e else lfree h)"
  let ?h = "heap_unlock (h1\<lparr>lfree := l\<rparr>)"
  have nf: "next_free h1 (heap_ptr h + x) = Some (heap_ptr h + lowest_free ?ys ?e)"
    using next_free_lowest [of h1 "last_of 0 xs" "(x, True) # ?ys"] b hp e1 by (simp add: blks_append)
  have lf: "lfree_ok ?h ?bs"
    using lfree_ok_take [of h xs x ys ?h k] inv hp e1 by (auto simp: heap_inv_def l_def heap_unlock_def)
  have free: "l = heap_end h1 \<or> hm_used (headers h1 l) = 0" if "heap_ptr h + x = lfree h"
    using lowest_free_unused [OF u(1)] that hp e1 by (auto simp: l_def simp flip: headers_hdr)
  have keep: "h1\<lparr>lfree := lfree h\<rparr> = h1" by (simp flip: u(3))
  have low: "lowest ?h ?bs" if low: "lowest h (xs @ (x, False) # ys)"
  proof -
    have "l \<le> heap_ptr h + q" if q: "(q, False) \<in> set ?bs" for q
      using q low b hp e1 n(5) lowest_free_le [of "hdr h1" x ?ys ?e q] blks_bounds [of "hdr h1" 0 xs x q False]
      by (auto simp: lowest_def l_def blks_append split_tail_def split: if_splits)
    then show ?thesis using hp by (simp add: lowest_def heap_unlock_def)
  qed
  have "heap_inv ?h ?bs"
    using u(1) u(4) lf co acc e1 by (simp add: heap_inv_def heap_rep_def heap_unlock_def)
  moreover have "map_option heap_unlock (malloc_lfree (heap_ptr h + x) h1) = Some ?h"
  proof (cases "heap_ptr h + x = lfree h")
    case True
    then show ?thesis using nf free hp u(3) by (auto simp: l_def malloc_lfree_def Let_def)
  next
    case False
    then have "?h = heap_unlock h1" by (simp only: l_def if_False keep)
    then show ?thesis using False u(3) by (simp add: malloc_lfree_def)
  qed
  ultimately show ?thesis using low u(2,5) by (intro exI [of _ ?h]) (simp add: same_area_def heap_unlock_def)
qed

lemma first_fit_used: "(\<And>l. (l, False) \<notin> set pre) \<Longrightarrow> first_fit k (pre @ suf) e = first_fit k suf e"
proof (induction pre)
  case (Cons b pre)
  then show ?case by (cases b; cases "snd b") auto
qed simp

lemma lowest_prefix:
  assumes "lowest h (pre @ suf)" "heap_rep h (pre @ suf)" "lfree h = heap_ptr h + first suf (heap_size h)"
  shows "(l, False) \<notin> set pre"
proof
  assume l: "(l, False) \<in> set pre"
  then have "l + 16 \<le> first suf (heap_size h)"
    using assms(2) blks_bounds [of "hdr h" 0 pre "first suf (heap_size h)" l False] by (simp add: heap_rep_def blks_append)
  then show False using assms(1,3) l by (auto simp: lowest_def)
qed

lemma rt_malloc_cases:
  assumes inv: "heap_inv h bs"
  obtains (null) "rt_malloc n h = Some (RT_NULL, h)" "lowest h bs \<Longrightarrow> n \<noteq> 0 \<Longrightarrow> first_fit (rounded n) bs (heap_size h) = None"
  | (block) xs x ys h' where "bs = xs @ (x, False) # ys" "rt_malloc n h = Some (heap_ptr h + x + 12, h')"
      "heap_inv h' (xs @ (x, True) # split_tail (rounded n) x ys (heap_size h))"
      "x + 12 + rounded n \<le> first (split_tail (rounded n) x ys (heap_size h)) (heap_size h)"
      "same_area h h'" "heap_bytes h' = heap_bytes h" "n \<noteq> 0"
      "lowest h bs \<Longrightarrow> lowest h' (xs @ (x, True) # split_tail (rounded n) x ys (heap_size h)) \<and> first_fit (rounded n) bs (heap_size h) = Some x"
proof -
  let ?e = "heap_size h" let ?k = "rounded n"
  have r: "heap_rep h bs" "heap_sem h = 1" using inv by (simp_all add: heap_inv_def)
  then have e: "?e < 2 ^ 32" "24 \<le> ?e" "blks (hdr h) 0 bs ?e" "first bs ?e = 0" "4 dvd heap_ptr h" "heap_end h = heap_ptr h + ?e"
    by (auto simp: heap_rep_def)
  have far: "first_fit ?k bs ?e = None" if "rt_align4 n > mem_size_aligned h"
    using that first_fit_far [OF e(3), of ?k] e(4) by (simp add: rounded_def heap_size_def word_less_nat_alt max_def)
  show thesis
  proof (cases "n = 0 \<or> rt_align4 n > mem_size_aligned h")
    case True
    then show thesis using far by (intro null) (auto simp: rt_malloc_def)
  next
    case False
    define sz where "sz = (if rt_align4 n < 12 then 12 else rt_align4 n)"
    have sz: "unat sz = ?k" by (auto simp: sz_def rounded_def word_less_nat_alt max_def)
    have kle: "?k + 12 \<le> ?e" using False e(2) by (auto simp: rounded_def heap_size_def word_less_nat_alt max_def)
    obtain pre suf where p: "bs = pre @ suf" "lfree h = heap_ptr h + first suf ?e" by (rule heap_inv_suffix [OF inv])
    let ?h = "h\<lparr>heap_sem := 0\<rparr>"
    have bsuf: "blks (hdr ?h) (last_of 0 pre) suf (heap_size ?h)" using e(3) p(1) by (simp add: blks_append)
    then have fs: "unat (of_nat (first suf ?e) :: u32) = first suf ?e" using blks_le [OF bsuf] e(1) by (simp add: unat_of_nat)
    have "malloc_find ?h sz (of_nat (first suf ?e)) = Some (map_option of_nat (first_fit ?k suf ?e))"
      using malloc_find_first_fit [OF bsuf, of sz "of_nat (first suf ?e)"] e(1) kle sz fs by simp
    then have find: "malloc_find ?h sz (heap_off ?h (lfree ?h)) = Some (map_option of_nat (first_fit ?k suf ?e))"
      using p(2) by (simp add: heap_off_def)
    have low: "lowest h bs \<Longrightarrow> first_fit ?k bs ?e = first_fit ?k suf ?e"
      unfolding p(1) by (rule first_fit_used) (use lowest_prefix r(1) p in blast)
    have restore: "heap_unlock ?h = h" using r(2) by (simp add: heap_unlock_def)
    show thesis
    proof (cases "first_fit ?k suf ?e")
      case None
      then have "rt_malloc n h = Some (RT_NULL, h)"
        using False r(2) find restore by (simp add: rt_malloc_def heap_lock_def Let_def flip: sz_def)
      then show thesis using None low by (intro null) simp_all
    next
      case (Some x)
      obtain xs ys where x: "suf = xs @ (x, False) # ys" "x + 12 + ?k \<le> first ys ?e"
        using first_fit_Some [OF Some] by blast
      let ?bs = "(pre @ xs) @ (x, False) # ys" let ?bs' = "(pre @ xs) @ (x, True) # split_tail ?k x ys ?e"
      have i: "heap_inv h ?bs" using inv p(1) x(1) by simp
      define h1 where "h1 = upd_header (heap_ptr h + x) (\<lambda>m. m\<lparr>hm_magic := HEAP_MAGIC\<rparr>) (malloc_use sz (of_nat x) ?h)"
      obtain h2 h' where h2: "malloc_lfree (heap_ptr h + x) h1 = Some h2" "h' = heap_unlock h2"
        and h': "heap_inv h' ?bs'" "same_area h h'" "heap_bytes h' = heap_bytes h" "lowest h ?bs \<Longrightarrow> lowest h' ?bs'"
        using rt_malloc_take [OF i x(2) rounded_simps(1,2) sz h1_def] by auto
      have ux: "heap_at ?h (of_nat x) = heap_ptr h + x"
        using heap_rep_mid(1) [of h "pre @ xs" x False ys] r(1) p(1) x(1) by (simp add: heap_at_def)
      have m: "4 dvd x" "heap_ptr h + x + 12 + ?k \<le> heap_ptr h + ?e" "heap_end h' = heap_ptr h + ?e"
        using heap_rep_mid(6,7) [of h "pre @ xs" x False ys] r(1) p(1) x h'(2) e(6) by (auto simp: same_area_def)
      have "rt_malloc n h = Some (heap_ptr h + x + 12, h')"
        using False r(2) find Some h2 m e(5) by (simp add: rt_malloc_def heap_lock_def ux h1_def [symmetric] sz_def [symmetric] sz Let_def)
      then show thesis
        using h' low Some first_split_tail [OF x(2)] False p(1) x(1) by (intro block [of "pre @ xs" x ys h']) simp_all
    qed
  qed
qed

section \<open>Giving a block back\<close>

lemma coalesced_parts: "coalesced (xs @ b # ys) \<Longrightarrow> coalesced xs \<and> coalesced ys"
  by (cases ys) (auto simp: coalesced_def successively_append_iff successively_Cons)

lemma block_span:
  assumes r: "heap_rep h (xs @ (x, u) # ys)"
  shows "hm_next (hdr h x) - of_nat x = of_nat (first ys (heap_size h) - x)"
proof -
  note n = heap_rep_mid [OF r]
  have "hm_next (hdr h x) = of_nat (first ys (heap_size h))" by (simp flip: n(3))
  then show ?thesis using n(5) by (simp add: of_nat_diff)
qed

text \<open>A lower total, as the code subtracts it from \<^verbatim>\<open>used_mem\<close>.\<close>

lemma unat_sub_nat: "d \<le> unat a \<Longrightarrow> unat (a - of_nat d) = unat a - d" for a :: u32
  using unat_u32_less [of a] by (simp add: unat_sub unat_of_nat word_le_nat_alt)

lemma plug_holes_inv:
  assumes r: "heap_rep h (xs @ (x, False) # ys)" and l: "lfree_ok h (xs @ (x, False) # ys)" and c: "coalesced xs" "coalesced ys"
    and s: "heap_sem h = 0" and u: "unat (used_mem h) = in_use (live (xs @ (x, False) # ys) (heap_size h))" "used_mem h \<le> max_mem h"
  shows "\<exists>h'. plug_holes (heap_ptr h + x) h = Some h' \<and> heap_inv (heap_unlock h') (absorb_back xs x (absorb ys)) \<and> merge_frame h h' \<and>
    (lowest h (xs @ (x, False) # ys) \<longrightarrow> lowest (heap_unlock h') (absorb_back xs x (absorb ys)))"
proof -
  let ?bs = "absorb_back xs x (absorb ys)"
  obtain h' where h': "plug_holes (heap_ptr h + x) h = Some h'" "heap_rep h' ?bs" "lfree_ok h' ?bs" "merge_frame h h'"
    using plug_holes_rep [OF r l] by blast
  have f: "heap_size h' = heap_size h" "heap_sem h' = 0" "used_mem h' = used_mem h" "max_mem h' = max_mem h" "lfree h' \<le> lfree h" "heap_ptr h' = heap_ptr h"
    using h'(4) s by (auto simp: merge_frame_def same_area_def heap_size_def)
  have "heap_inv (heap_unlock h') ?bs"
    using h'(2,3) f u absorb_back_coalesced [OF c] absorb_back_live [of xs x ys "heap_size h"]
    by (simp add: heap_inv_def heap_unlock_def heap_rep_def lfree_ok_def)
  moreover have "lowest (heap_unlock h') ?bs" if "lowest h (xs @ (x, False) # ys)"
    using that subsetD [OF absorb_back_subset [of xs x ys]] f(5,6) unfolding lowest_def heap_unlock_def
    by (simp del: set_append) (metis order_trans)
  ultimately show ?thesis using h'(1,4) by blast
qed

lemma rt_free_rep:
  assumes inv: "heap_inv h (xs @ (x, True) # ys)"
  shows "\<exists>h'. rt_free (heap_ptr h + x + 12) h = Some h' \<and> heap_inv h' (absorb_back xs x (absorb ys)) \<and> same_area h h' \<and>
    heap_bytes h' = heap_bytes h \<and> lfree h' \<le> heap_ptr h + x \<and>
    (lowest h (xs @ (x, True) # ys) \<longrightarrow> lowest h' (absorb_back xs x (absorb ys)))"
proof -
  let ?e = "heap_size h" let ?mem = "heap_ptr h + x"
  have r: "heap_rep h (xs @ (x, True) # ys)" and sem: "heap_sem h = 1" and l: "lfree_ok h (xs @ (x, True) # ys)" and c: "coalesced xs" "coalesced ys"
    and u: "unat (used_mem h) = in_use (live (xs @ (x, True) # ys) ?e)" "used_mem h \<le> max_mem h"
    using inv coalesced_parts [of xs "(x, True)" ys] by (simp_all add: heap_inv_def)
  note n = heap_rep_mid [OF r]
  let ?h1 = "upd_header ?mem (\<lambda>m. m\<lparr>hm_used := 0, hm_magic := HEAP_MAGIC\<rparr>) (h\<lparr>heap_sem := 0\<rparr>)"
  define h2 where "h2 = (if ?mem < lfree h then ?h1\<lparr>lfree := ?mem\<rparr> else ?h1)\<lparr>used_mem := used_mem h - of_nat (first ys ?e - x)\<rparr>"
  have f: "hdr h2 = (hdr h)(x := (hdr h x)\<lparr>hm_used := 0, hm_magic := HEAP_MAGIC\<rparr>)" "same_area h h2" "heap_size h2 = ?e" "heap_sem h2 = 0"
    "heap_bytes h2 = heap_bytes h" "lfree h2 = (if ?mem < lfree h then ?mem else lfree h)" "heap_ptr h2 = heap_ptr h" "max_mem h2 = max_mem h"
    "used_mem h2 = used_mem h - of_nat (first ys ?e - x)"
    by (simp_all add: h2_def same_area_def)
  have r2: "heap_rep h2 (xs @ (x, False) # ys)" using heap_rep_flag [OF r f(2,1)] by simp
  have l2: "lfree_ok h2 (xs @ (x, False) # ys)" using l f(3,6,7) by (auto simp: lfree_ok_def)
  have d: "first ys ?e - x \<le> unat (used_mem h)" and t: "unat (used_mem h) - (first ys ?e - x) = in_use (live (xs @ (x, False) # ys) ?e)"
    using u(1) n(5) by (simp_all add: live_append)
  have u2: "unat (used_mem h2) = in_use (live (xs @ (x, False) # ys) (heap_size h2))"
    unfolding f(3,9) using unat_sub_nat [OF d] t by simp
  have m2: "used_mem h2 \<le> max_mem h2"
    using u(2) unfolding f(8,9) word_le_nat_alt unat_sub_nat [OF d] by simp
  obtain h' where h': "plug_holes (heap_ptr h2 + x) h2 = Some h'" "heap_inv (heap_unlock h') (absorb_back xs x (absorb ys))" "merge_frame h2 h'"
    "lowest h2 (xs @ (x, False) # ys) \<longrightarrow> lowest (heap_unlock h') (absorb_back xs x (absorb ys))"
    using plug_holes_inv [OF r2 l2 c f(4) u2 m2] by blast
  have mod: "(heap_ptr h + x + 12) mod 4 = 0" using n(7,8) by presburger
  have h2: "(let h = if ?mem < lfree ?h1 then ?h1\<lparr>lfree := ?mem\<rparr> else ?h1 in
      h\<lparr>used_mem := used_mem h - (hm_next (headers h ?mem) - heap_off h ?mem)\<rparr>) = h2"
    using block_span [OF r] by (simp add: h2_def headers_hdr Let_def del: of_nat_diff)
  have "rt_free (heap_ptr h + x + 12) h = Some (heap_unlock h')"
    using mod n(2,5,6,9,11) sem h'(1) h2 f(7) by (simp add: rt_free_def heap_lock_def headers_hdr Let_def)
  moreover have "lowest h2 (xs @ (x, False) # ys)" if "lowest h (xs @ (x, True) # ys)"
    using that f(6,7) by (auto simp: lowest_def)
  moreover have "lfree h2 \<le> heap_ptr h + x" using f(6) by simp
  ultimately show ?thesis using h' f(2,5) by (auto simp: merge_frame_def same_area_def heap_unlock_def)
qed

section \<open>Blocks in use\<close>

lemma live_bounds: "blks H p bs e \<Longrightarrow> (q, n) \<in> set (live bs e) \<Longrightarrow> first bs e + 12 \<le> q \<and> q + n \<le> e \<and> 4 \<le> n"
proof (induction bs arbitrary: p)
  case (Cons b bs)
  then show ?case using blks_le [of H _ bs e] by (cases b) (fastforce split: if_splits)
qed simp

text \<open>Blocks in use do not overlap, nor do they reach into the header of another one.\<close>

lemma live_separate: "blks H p bs e \<Longrightarrow> sorted_wrt (\<lambda>(q, n) (r, m). q + n + 12 \<le> r) (live bs e)"
proof (induction bs arbitrary: p)
  case (Cons b bs)
  then show ?case using live_bounds [of H _ bs e] by (cases b) (fastforce split: if_splits)
qed simp

lemma live_split:
  "(q, n) \<in> set (live bs e) \<Longrightarrow> \<exists>xs x ys. bs = xs @ (x, True) # ys \<and> q = x + 12 \<and> n = first ys e - x - 12"
proof (induction bs)
  case (Cons b bs)
  obtain x u where b: "b = (x, u)" by (cases b)
  show ?case
  proof (cases "u \<and> (q, n) = (x + 12, first bs e - x - 12)")
    case True
    then show ?thesis using b by (intro exI [of _ "[]"] exI [of _ x] exI [of _ bs]) simp
  next
    case False
    then have "(q, n) \<in> set (live bs e)" using Cons.prems b by (auto split: if_splits)
    then obtain xs y ys where "bs = xs @ (y, True) # ys" "q = y + 12" "n = first ys e - y - 12" using Cons.IH by blast
    then show ?thesis by (intro exI [of _ "b # xs"]) auto
  qed
qed simp

lemma live_mid:
  assumes "heap_rep h (xs @ (x, True) # ys)"
  shows "set (live (xs @ (x, False) # ys) (heap_size h)) =
      set (live (xs @ (x, True) # ys) (heap_size h)) - {(x + 12, first ys (heap_size h) - x - 12)}"
proof -
  let ?e = "heap_size h"
  have b: "blks (hdr h) 0 xs x" "blks (hdr h) x ys ?e" "x + 16 \<le> first ys ?e" using assms by (simp_all add: heap_rep_def blks_append)
  have "(x + 12, n) \<notin> set (live xs x)" "(x + 12, n) \<notin> set (live ys ?e)" for n
    using live_bounds [OF b(1), of "x + 12" n] live_bounds [OF b(2), of "x + 12" n] b(3) by auto
  then show ?thesis by (auto simp: live_append)
qed

lemma live_use:
  assumes "heap_rep h (xs @ (x, u) # ys)"
  shows "(x + 12, n) \<notin> set (live (xs @ (x, False) # ys) (heap_size h))"
proof -
  let ?e = "heap_size h"
  have b: "blks (hdr h) 0 xs x" "blks (hdr h) x ys ?e" "x + 16 \<le> first ys ?e" using assms by (simp_all add: heap_rep_def blks_append)
  show ?thesis
    using live_bounds [OF b(1), of "x + 12" n] live_bounds [OF b(2), of "x + 12" n] b(3) by (auto simp: live_append)
qed

text \<open>What malloc and free do to the set of blocks in use.\<close>

lemma rt_malloc_live:
  assumes inv: "heap_inv h bs" and n: "unat n + 3 < 2 ^ 32"
  obtains (null) "rt_malloc n h = Some (RT_NULL, h)" "lowest h bs \<Longrightarrow> n \<noteq> 0 \<Longrightarrow> first_fit (rounded n) bs (heap_size h) = None"
  | (block) q m h' bs' where "rt_malloc n h = Some (heap_ptr h + q, h')" "heap_inv h' bs'" "unat n \<le> m" "12 \<le> q"
      "set (live bs' (heap_size h)) = insert (q, m) (set (live bs (heap_size h)))" "(\<And>k. (q, k) \<notin> set (live bs (heap_size h)))"
      "same_area h h'" "heap_bytes h' = heap_bytes h" "lowest h bs \<Longrightarrow> lowest h' bs'"
proof (rule rt_malloc_cases [OF inv, of n])
  assume "rt_malloc n h = Some (RT_NULL, h)" "lowest h bs \<Longrightarrow> n \<noteq> 0 \<Longrightarrow> first_fit (rounded n) bs (heap_size h) = None"
  then show thesis by (rule null)
next
  fix xs x ys h'
  let ?e = "heap_size h" let ?ys = "split_tail (rounded n) x ys ?e"
  assume a: "bs = xs @ (x, False) # ys" "rt_malloc n h = Some (heap_ptr h + x + 12, h')" "heap_inv h' (xs @ (x, True) # ?ys)"
    "x + 12 + rounded n \<le> first ?ys ?e" "same_area h h'" "heap_bytes h' = heap_bytes h"
    "lowest h bs \<Longrightarrow> lowest h' (xs @ (x, True) # ?ys) \<and> first_fit (rounded n) bs ?e = Some x"
  have r: "heap_rep h (xs @ (x, False) # ys)" using inv a(1) by (simp add: heap_inv_def)
  have "unat n \<le> first ?ys ?e - x - 12" using a(4) rounded_simps(3) [OF n] by linarith
  moreover have "set (live (xs @ (x, True) # ?ys) ?e) = insert (x + 12, first ?ys ?e - x - 12) (set (live bs ?e))"
    by (auto simp: live_append a(1))
  ultimately show thesis
    using a live_use [OF r] by (intro block [of "x + 12" h' "xs @ (x, True) # ?ys" "first ?ys ?e - x - 12"]) (simp_all add: add.assoc)
qed

lemma rt_free_live:
  assumes inv: "heap_inv h bs" and q: "(q, n) \<in> set (live bs (heap_size h))"
  obtains h' bs' where "rt_free (heap_ptr h + q) h = Some h'" "heap_inv h' bs'" "set (live bs' (heap_size h)) = set (live bs (heap_size h)) - {(q, n)}"
    "same_area h h'" "heap_bytes h' = heap_bytes h" "lowest h bs \<Longrightarrow> lowest h' bs'" "lfree h' < heap_ptr h + heap_size h"
proof -
  obtain xs x ys where x: "bs = xs @ (x, True) # ys" "q = x + 12" "n = first ys (heap_size h) - x - 12" using live_split [OF q] by blast
  obtain h' where h': "rt_free (heap_ptr h + x + 12) h = Some h'" "heap_inv h' (absorb_back xs x (absorb ys))" "same_area h h'"
    "heap_bytes h' = heap_bytes h" "lowest h bs \<Longrightarrow> lowest h' (absorb_back xs x (absorb ys))" "lfree h' \<le> heap_ptr h + x"
    using rt_free_rep [of h xs x ys] inv x(1) by auto
  have "heap_rep h (xs @ (x, True) # ys)" using inv x(1) by (simp add: heap_inv_def)
  then have low: "lfree h' < heap_ptr h + heap_size h" using h'(6) heap_rep_mid(5,6) [of h xs x True ys] by linarith
  have "set (live (absorb_back xs x (absorb ys)) (heap_size h)) = set (live bs (heap_size h)) - {(q, n)}"
    unfolding absorb_back_live x using live_mid [of h xs x ys] inv x(1) by (simp add: heap_inv_def)
  then show thesis using h' x(2) low by (intro that [of h' "absorb_back xs x (absorb ys)"]) (simp_all add: add.assoc)
qed

section \<open>Changing the size of a block\<close>

lemma realloc_shrink:
  assumes inv: "heap_inv h (xs @ (x, True) # ys)" and k: "0 < k" "4 dvd k" "x + 12 + k + 24 < first ys (heap_size h)" "unat sz = k"
  shows "\<exists>h'. map_option heap_unlock (plug_holes (heap_ptr h + (x + 12 + k)) (insert_block (of_nat x) (of_nat x + 12 + sz)
      (h\<lparr>heap_sem := 0, used_mem := used_mem h - of_nat (first ys (heap_size h) - x - 12 - k)\<rparr>))) = Some h' \<and>
    heap_inv h' (xs @ (x, True) # (x + 12 + k, False) # absorb ys) \<and> same_area h h' \<and> heap_bytes h' = heap_bytes h"
proof -
  let ?e = "heap_size h" let ?m = "x + 12 + k" let ?d = "first ys ?e - x - 12 - k"
  let ?h = "h\<lparr>heap_sem := 0, used_mem := used_mem h - of_nat ?d\<rparr>"
  let ?h1 = "insert_block (of_nat x) (of_nat ?m) ?h"
  have r: "heap_rep ?h (xs @ (x, True) # ys)" and c: "coalesced xs" "coalesced ys" and cc: "coalesced (xs @ (x, True) # ys)"
    using inv coalesced_parts [of xs "(x, True)" ys] by (simp_all add: heap_inv_def heap_rep_def)
  note n = heap_rep_mid [OF r]
  have w: "of_nat x + 12 + sz = (of_nat ?m :: u32)" using k(4) by (simp flip: k(4))
  have r1: "heap_rep ?h1 ((xs @ [(x, True)]) @ (?m, False) # ys)"
    using insert_block_rep [OF r, of ?m] k n(7) dvd_imp_le [OF k(2,1)] by simp
  have l1: "lfree_ok ?h1 ((xs @ [(x, True)]) @ (?m, False) # ys)" using inv by (auto simp: heap_inv_def lfree_ok_def)
  have c1: "coalesced (xs @ [(x, True)])" using cc by (auto simp: coalesced_def successively_append_iff)
  have u: "unat (used_mem h) = in_use (live xs x) + (first ys ?e - x) + in_use (live ys ?e)" using inv n(5) by (simp add: heap_inv_def live_append)
  then have d: "?d \<le> unat (used_mem h)" by simp
  have u1: "unat (used_mem ?h1) = in_use (live ((xs @ [(x, True)]) @ (?m, False) # ys) (heap_size ?h1))"
    using unat_sub_nat [OF d] u k(3) by (simp add: live_append del: of_nat_diff)
  have m1: "used_mem ?h1 \<le> max_mem ?h1"
  proof -
    have "unat (used_mem h - of_nat ?d) \<le> unat (max_mem h)"
      unfolding unat_sub_nat [OF d] using inv by (auto simp: heap_inv_def word_le_nat_alt intro: order_trans [OF diff_le_self])
    then show ?thesis by (simp add: word_le_nat_alt del: of_nat_diff)
  qed
  have s1: "heap_sem ?h1 = 0" by simp
  obtain h' where "plug_holes (heap_ptr ?h1 + ?m) ?h1 = Some h'" "heap_inv (heap_unlock h') (absorb_back (xs @ [(x, True)]) ?m (absorb ys))"
    "merge_frame ?h1 h'"
    using plug_holes_inv [OF r1 l1 c1 c(2) s1 u1 m1] by blast
  then show ?thesis unfolding w by (auto simp: absorb_back_def merge_frame_def same_area_def heap_unlock_def)
qed

lemma map_option_as_bind: "map_option f m = Option.bind m (\<lambda>x. Some (f x))"
  by (cases m) simp_all

text \<open>The branches of \<^verbatim>\<open>rt_realloc\<close> for a block in use.\<close>

lemma rt_realloc_in_use:
  assumes inv: "heap_inv h (xs @ (x, True) # ys)" and len: "len = first ys (heap_size h) - x - 12"
    and n: "unat (rt_align4 n) = k" "0 < k" "k \<le> unat (mem_size_aligned h)"
  shows "rt_realloc (heap_ptr h + x + 12) n h =
    (if len = k then Some (heap_ptr h + x + 12, h)
     else if k + 24 < len then
       map_option (\<lambda>h'. (heap_ptr h + x + 12, heap_unlock h')) (plug_holes (heap_ptr h + (x + 12 + k))
         (insert_block (of_nat x) (of_nat x + 12 + rt_align4 n) (h\<lparr>heap_sem := 0, used_mem := used_mem h - of_nat (len - k)\<rparr>)))
     else do {
       (nmem, h') \<leftarrow> rt_malloc (rt_align4 n) h;
       if nmem \<noteq> RT_NULL then do {
         h' \<leftarrow> rt_free (heap_ptr h + x + 12) (heap_memcpy nmem (heap_ptr h + x + 12) (min len k) h');
         Some (nmem, h') }
       else Some (nmem, h') })"
proof -
  let ?e = "heap_size h" let ?al = "rt_align4 n" let ?S = "hm_next (hdr h x) - of_nat x - 12 :: u32"
  have r: "heap_rep h (xs @ (x, True) # ys)" and sem: "heap_sem h = 1" using inv by (simp_all add: heap_inv_def)
  note m = heap_rep_mid [OF r]
  have S: "unat ?S = len" using data_length [of "of_nat x" "hm_next (hdr h x)"] m(1,3,5) len by (simp add: diff_diff_eq)
  have al: "unat (?al + 12 + 12) = k + 24" using n(1,3) m(12) by (simp add: unat_word_ariths heap_size_def)
  have c: "\<not> ?al > mem_size_aligned h" "?al \<noteq> 0" "?S = ?al \<longleftrightarrow> len = k" "?al + 12 + 12 < ?S \<longleftrightarrow> k + 24 < len"
    "unat (if ?S < ?al then ?S else ?al) = min len k"
    using n S al by (auto simp: word_less_nat_alt word_unat_eq_iff)
  have locked: "heap_lock h = Some (h\<lparr>heap_sem := 0\<rparr>)" "heap_unlock (h\<lparr>heap_sem := 0\<rparr>) = h"
    using sem by (simp_all add: heap_lock_def heap_unlock_def)
  have rm: "heap_ptr h + x + 12 \<noteq> RT_NULL" "\<not> heap_ptr h + x + 12 < heap_ptr h" "\<not> heap_ptr h + x + 12 \<ge> heap_end h" "heap_ptr h + 12 \<le> heap_ptr h + x + 12"
    "heap_ptr h + x + 12 - 12 = heap_ptr h + x"
    using m(5,6,9) by auto
  have split: "?S - ?al = of_nat (len - k)" "heap_ptr h + unat (of_nat x + 12 + ?al) = heap_ptr h + (x + 12 + k)" if "k + 24 < len"
  proof -
    have "?S = of_nat len" "?al = of_nat k" by (simp_all flip: S n(1))
    then show "?S - ?al = of_nat (len - k)" using that by (simp add: of_nat_diff)
    have "x + 12 + k < 2 ^ 32" using that len m(5,6,10) by linarith
    then show "heap_ptr h + unat (of_nat x + 12 + ?al) = heap_ptr h + (x + 12 + k)" using n(1) m(1) by (simp add: unat_word_ariths)
  qed
  show ?thesis
  proof (cases "len = k")
    case True
    then show ?thesis using c rm locked by (simp add: rt_realloc_def Let_def headers_hdr)
  next
    case ne: False
    show ?thesis
    proof (cases "k + 24 < len")
      case True
      then show ?thesis using ne c rm locked split
        by (simp add: rt_realloc_def Let_def headers_hdr heap_at_def del: of_nat_diff) (simp add: map_option_as_bind)
    next
      case False
      have less: "?S < ?al \<longleftrightarrow> len < k" using S n(1) by (simp add: word_less_nat_alt)
      show ?thesis
        using False ne c(1-4) rm locked S n(1) less
        by (cases "rt_malloc ?al h"; cases "len < k") (simp_all add: rt_realloc_def Let_def headers_hdr split: prod.split)
    qed
  qed
qed

lemma rounded_align: "rounded (rt_align4 n) = rounded n"
proof -
  have "unat (rt_align4 n) + 3 < 2 ^ 32"
  proof -
    obtain c where c: "unat (rt_align4 n) = 4 * c" using align_dvd [of n] by (rule dvdE)
    then have "c < 2 ^ 30" using unat_u32_less [of "rt_align4 n"] by simp
    then show ?thesis using c by simp
  qed
  then have "unat (rt_align4 (rt_align4 n)) = unat (rt_align4 n)"
    using align_size(1) [of "rt_align4 n"] align_dvd [of n] by presburger
  then show ?thesis by (simp add: rounded_def)
qed

lemma memcpy_simps [simp]:
  "heap_ptr (heap_memcpy d s n h) = heap_ptr h" "hdr (heap_memcpy d s n h) = hdr h" "heap_size (heap_memcpy d s n h) = heap_size h"
  "same_area h' (heap_memcpy d s n h) = same_area h' h"
  by (simp_all add: heap_memcpy_def same_area_def)

lemma heap_inv_bytes: "heap_inv (h\<lparr>heap_bytes := c\<rparr>) bs = heap_inv h bs"
  by (simp add: heap_inv_def heap_rep_def lfree_ok_def)

text \<open>A block that keeps its place when it shrinks, and one that is moved.\<close>

definition realloc_ok :: "mem_heap \<Rightarrow> (nat \<times> bool) list \<Rightarrow> nat \<Rightarrow> nat \<Rightarrow> nat \<Rightarrow> nat \<Rightarrow> nat \<Rightarrow> mem_heap \<Rightarrow> (nat \<times> bool) list \<Rightarrow> bool" where
  "realloc_ok h bs q len n q' m h' bs' \<longleftrightarrow> heap_inv h' bs' \<and> same_area h h' \<and> n \<le> m \<and> 12 \<le> q' \<and>
     set (live bs' (heap_size h)) = insert (q', m) (set (live bs (heap_size h)) - {(q, len)}) \<and>
     (\<forall>j < min len n. heap_bytes h' (heap_ptr h + q' + j) = heap_bytes h (heap_ptr h + q + j)) \<and>
     (\<forall>(r, k) \<in> set (live bs (heap_size h)) - {(q, len)}. \<forall>j < k. heap_bytes h' (heap_ptr h + r + j) = heap_bytes h (heap_ptr h + r + j))"

lemma live_apart:
  assumes "heap_rep h bs" "(q, n) \<in> set (live bs (heap_size h))" "(r, m) \<in> set (live bs (heap_size h))" "(q, n) \<noteq> (r, m)"
  shows "q \<noteq> r \<and> (q + n + 12 \<le> r \<or> r + m + 12 \<le> q)"
proof -
  let ?ls = "live bs (heap_size h)"
  have s: "sorted_wrt (\<lambda>(q, n) (r, m). q + n + 12 \<le> r) ?ls" using assms(1) live_separate by (auto simp: heap_rep_def)
  obtain i j where i: "i < length ?ls" "?ls ! i = (q, n)" and j: "j < length ?ls" "?ls ! j = (r, m)"
    using assms(2,3) by (metis in_set_conv_nth)
  have "i \<noteq> j" using i j assms(4) by auto
  then show ?thesis using sorted_wrt_nth_less [OF s, of i j] sorted_wrt_nth_less [OF s, of j i] i j by (cases "i < j") auto
qed

lemma live_set_split:
  assumes "heap_rep h (xs @ (x, True) # ys)"
  shows "set (live (xs @ (x, True) # zs) e) = insert (x + 12, first zs e - x - 12) (set (live xs x) \<union> set (live zs e))"
    "set (live (xs @ (x, True) # ys) (heap_size h)) - {(x + 12, first ys (heap_size h) - x - 12)} = set (live xs x) \<union> set (live ys (heap_size h))"
  using live_mid [OF assms] by (auto simp: live_append)

text \<open>Moving: a new block, a copy, the old block given back.\<close>

lemma realloc_move:
  assumes inv: "heap_inv h bs" and q: "(q, len) \<in> set (live bs (heap_size h))" and n: "unat n + 3 < 2 ^ 32" and k: "unat n \<le> k"
    and m: "rt_malloc sz h = Some (heap_ptr h + q', h1)" "heap_inv h1 bs1" "unat n \<le> m" "12 \<le> q'" "k \<le> m"
      "set (live bs1 (heap_size h)) = insert (q', m) (set (live bs (heap_size h)))" "\<And>k. (q', k) \<notin> set (live bs (heap_size h))"
      "same_area h h1" "heap_bytes h1 = heap_bytes h"
  shows "\<exists>h' bs'. rt_free (heap_ptr h + q) (heap_memcpy (heap_ptr h + q') (heap_ptr h + q) (min len k) h1) = Some h' \<and>
    realloc_ok h bs q len (unat n) q' m h' bs'"
proof -
  let ?e = "heap_size h" let ?h2 = "heap_memcpy (heap_ptr h + q') (heap_ptr h + q) (min len k) h1"
  have i2: "heap_inv ?h2 bs1" using m(2) by (simp add: heap_memcpy_def heap_inv_bytes)
  have e: "heap_size h1 = ?e" "heap_ptr h1 = heap_ptr h" using same_area_size [OF m(8)] m(8) by (simp_all add: same_area_def)
  have q2: "(q, len) \<in> set (live bs1 (heap_size ?h2))" using q m(6) e by simp
  obtain h' bs' where f: "rt_free (heap_ptr ?h2 + q) ?h2 = Some h'" "heap_inv h' bs'"
    "set (live bs' (heap_size ?h2)) = set (live bs1 (heap_size ?h2)) - {(q, len)}" "same_area ?h2 h'" "heap_bytes h' = heap_bytes ?h2"
    by (rule rt_free_live [OF i2 q2]) (rule that, assumption+)
  have r1: "heap_rep h1 bs1" using m(2) by (simp add: heap_inv_def)
  have apart: "q' + m + 12 \<le> r \<or> r + l + 12 \<le> q'" if "(r, l) \<in> set (live bs ?e)" for r l
    using live_apart [OF r1, of q' m r l] m(6,7) that e by auto
  have ne: "(q', m) \<noteq> (q, len)" using q m(7) by auto
  have h2: "heap_bytes ?h2 = transfer (heap_ptr h + q') (heap_ptr h + q) (min len k) (heap_bytes h1)"
    using apart [OF q] m(5) rt_memcpy_transfers [of "heap_ptr h + q" "heap_ptr h + q'" "min len k" "heap_bytes h1"] by (auto simp: heap_memcpy_def)
  have bytes: "heap_bytes h' (heap_ptr h + r + j) = heap_bytes h (heap_ptr h + r + j)" if "(r, l) \<in> set (live bs ?e)" "j < l" for r l j
    using apart [OF that(1)] that(2) m(5,9) by (auto simp: f(5) h2 transfer_def)
  have copy: "heap_bytes h' (heap_ptr h + q' + j) = heap_bytes h (heap_ptr h + q + j)" if "j < min len (unat n)" for j
    using that k m(9) by (simp add: f(5) h2 transfer_def)
  have live: "set (live bs' ?e) = insert (q', m) (set (live bs ?e) - {(q, len)})" using f(3) m(6) e ne by auto
  have "same_area h h'" using f(4) m(8) by (auto simp: heap_memcpy_def same_area_def)
  moreover have "\<forall>(r, k) \<in> set (live bs ?e) - {(q, len)}. \<forall>j < k. heap_bytes h' (heap_ptr h + r + j) = heap_bytes h (heap_ptr h + r + j)"
    using bytes by blast
  ultimately have "realloc_ok h bs q len (unat n) q' m h' bs'"
    unfolding realloc_ok_def using f(2) live copy m(3,4) by (intro conjI allI impI)
  then show ?thesis using f(1) e by (intro exI [of _ h'] exI [of _ bs']) simp
qed

end
