(* ===== verification/RT_Mem_Spec.thy ===== *)
theory RT_Mem_Spec
  imports RT_Mem
begin

text \<open>
  The properties of the heap of \<^verbatim>\<open>src/mem.c\<close>: it provides the interface \<open>heap_allocator\<close>, keeps its invariant in every
  session, finds a free block when there is one that fits, and merges all free memory again.
\<close>

section \<open>Initialisation\<close>

text \<open>The heap as it is before \<^verbatim>\<open>rt_system_heap_init\<close>: all variables are zero; the memory may hold anything.\<close>

definition fresh_heap :: "(ptr \<Rightarrow> heap_mem) \<Rightarrow> (ptr \<Rightarrow> u8) \<Rightarrow> mem_heap" where
  "fresh_heap hm bm = \<lparr>heap_ptr = 0, heap_end = 0, lfree = 0, heap_sem = 0, mem_size_aligned = 0, used_mem = 0, max_mem = 0,
     headers = hm, heap_bytes = bm\<rparr>"

text \<open>The addresses that \<^verbatim>\<open>rt_system_heap_init\<close> rounds the bounds to, and those that leave room for a block.\<close>

definition area_ok :: "u32 \<Rightarrow> u32 \<Rightarrow> bool" where
  "area_ok b e \<longleftrightarrow> unat b + 3 < 2 ^ 32 \<and> unat (rt_align4 b) + 36 \<le> unat (rt_align_down4 e)"

lemma heap_init_inv:
  assumes "area_ok b e"
  shows "heap_inv (rt_system_heap_init b e (fresh_heap hm bm)) [(0, False)] \<and> lowest (rt_system_heap_init b e (fresh_heap hm bm)) [(0, False)] \<and>
    heap_ptr (rt_system_heap_init b e (fresh_heap hm bm)) = unat (rt_align4 b) \<and>
    heap_size (rt_system_heap_init b e (fresh_heap hm bm)) + 12 + unat (rt_align4 b) = unat (rt_align_down4 e)"
proof -
  let ?b = "rt_align4 b" let ?e = "rt_align_down4 e" let ?h = "rt_system_heap_init b e (fresh_heap hm bm)"
  have ok: "unat ?b + 36 \<le> unat ?e" using assms by (simp add: area_ok_def)
  have d: "4 dvd unat ?b" "4 dvd unat ?e" using align_dvd by (simp_all only: rt_align_down4_def unat_align_down) presburger
  have lt: "unat ?e < 2 ^ 32" by (rule unat_u32_less)
  have sz: "unat (?e - ?b - 24) = unat ?e - unat ?b - 24"
    using ok by (simp add: unat_sub word_le_nat_alt)
  have c: "?e > 24" "?e - 24 \<ge> ?b" using ok by (simp_all add: word_less_nat_alt word_le_nat_alt unat_sub)
  have n: "unat (?e - ?b - 12) = unat ?e - unat ?b - 12"
    using ok by (simp add: unat_sub word_le_nat_alt)
  let ?s = "unat ?e - unat ?b - 12"
  have hs: "heap_size ?h = ?s" using c sz ok by (simp add: rt_system_heap_init_def heap_size_def Let_def)
  have H: "hm_magic (hdr ?h 0) = HEAP_MAGIC" "hm_used (hdr ?h 0) = 0" "hm_prev (hdr ?h 0) = 0" "unat (hm_next (hdr ?h 0)) = ?s" "hm_used (hdr ?h ?s) = 1"
    and P: "heap_ptr ?h = unat ?b" "heap_end ?h = unat ?b + ?s" "lfree ?h = unat ?b" "heap_sem ?h = 1" "used_mem ?h = 0"
    using c n ok by (auto simp: rt_system_heap_init_def hdr_def heap_at_def Let_def fresh_heap_def upd_header_def)
  have "4 dvd ?s" using d ok by (simp add: dvd_diff_nat)
  moreover have "16 \<le> ?s" "24 \<le> ?s" using ok by linarith+
  ultimately have "heap_rep ?h [(0, False)]"
    using H P hs d ok lt by (simp add: heap_rep_def)
  then show ?thesis
    using P hs ok by (simp add: heap_inv_def lfree_ok_def lowest_def coalesced_def)
qed

section \<open>The interface\<close>

text \<open>The blocks in use, as addresses of data with their lengths.\<close>

definition mem_view :: "mem_heap \<Rightarrow> (nat \<times> nat) set \<Rightarrow> bool" where
  "mem_view h A \<longleftrightarrow> (\<exists>bs. heap_inv h bs \<and> A = (\<lambda>(q, n). (heap_ptr h + q, n)) ` set (live bs (heap_size h)))"

definition poke_heap :: "nat \<Rightarrow> u8 \<Rightarrow> mem_heap \<Rightarrow> mem_heap" where
  "poke_heap a b h = h\<lparr>heap_bytes := (heap_bytes h)(a := b)\<rparr>"

interpretation small_mem: heap_allocator mem_view heap_bytes "2 ^ 32 - 3" "\<lambda>n. rt_malloc (of_nat n)" rt_free poke_heap
proof
  fix h A p n q m
  assume "mem_view h A" and a: "(p, n) \<in> A" "(q, m) \<in> A" "(p, n) \<noteq> (q, m)"
  then obtain bs where bs: "heap_inv h bs" "A = (\<lambda>(q, n). (heap_ptr h + q, n)) ` set (live bs (heap_size h))" by (auto simp: mem_view_def)
  obtain p' q' where e: "p = heap_ptr h + p'" "q = heap_ptr h + q'" "(p', n) \<in> set (live bs (heap_size h))" "(q', m) \<in> set (live bs (heap_size h))"
    using a bs(2) by auto
  then show "p \<noteq> q \<and> (p + n \<le> q \<or> q + m \<le> p)" using live_apart [of h bs p' n q' m] bs(1) a(3) by (auto simp: heap_inv_def)
next
  fix h A n assume "mem_view h A" and n: "n < 2 ^ 32 - (3::nat)"
  then obtain bs where bs: "heap_inv h bs" "A = (\<lambda>(q, n). (heap_ptr h + q, n)) ` set (live bs (heap_size h))" by (auto simp: mem_view_def)
  have u: "unat (of_nat n :: u32) = n" "unat (of_nat n :: u32) + 3 < 2 ^ 32" using n by (simp_all add: unat_of_nat)
  show "\<exists>p h'. rt_malloc (of_nat n) h = Some (p, h') \<and> heap_bytes h' = heap_bytes h \<and>
      (p = 0 \<and> mem_view h' A \<or> (\<exists>m\<ge>n. (\<forall>k. (p, k) \<notin> A) \<and> mem_view h' (insert (p, m) A)))"
  proof (rule rt_malloc_live [OF bs(1) u(2)])
    assume "rt_malloc (of_nat n) h = Some (RT_NULL, h)"
    then show ?thesis using \<open>mem_view h A\<close> by simp
  next
    fix q m h' bs'
    assume a: "rt_malloc (of_nat n) h = Some (heap_ptr h + q, h')" "heap_inv h' bs'" "unat (of_nat n :: u32) \<le> m"
      "set (live bs' (heap_size h)) = insert (q, m) (set (live bs (heap_size h)))" "\<And>k. (q, k) \<notin> set (live bs (heap_size h))"
      "same_area h h'" "heap_bytes h' = heap_bytes h"
    have e: "heap_ptr h' = heap_ptr h" "heap_size h' = heap_size h" using a(6) same_area_size [OF a(6)] by (simp_all add: same_area_def)
    have "mem_view h' (insert (heap_ptr h + q, m) A)" unfolding mem_view_def using a(2,4) bs(2) e by (intro exI [of _ bs']) auto
    moreover have "(heap_ptr h + q, k) \<notin> A" for k using a(5) bs(2) by auto
    ultimately show ?thesis using a(1,3,7) u(1) by auto
  qed
next
  fix h A p n assume "mem_view h A" and p: "(p, n) \<in> A"
  then obtain bs where bs: "heap_inv h bs" "A = (\<lambda>(q, n). (heap_ptr h + q, n)) ` set (live bs (heap_size h))" by (auto simp: mem_view_def)
  obtain q where q: "p = heap_ptr h + q" "(q, n) \<in> set (live bs (heap_size h))" using p bs(2) by auto
  show "\<exists>h'. rt_free p h = Some h' \<and> heap_bytes h' = heap_bytes h \<and> mem_view h' (A - {(p, n)})"
  proof (rule rt_free_live [OF bs(1) q(2)])
    fix h' bs'
    assume a: "rt_free (heap_ptr h + q) h = Some h'" "heap_inv h' bs'" "set (live bs' (heap_size h)) = set (live bs (heap_size h)) - {(q, n)}"
      "same_area h h'" "heap_bytes h' = heap_bytes h"
    have e: "heap_ptr h' = heap_ptr h" "heap_size h' = heap_size h" using a(4) same_area_size [OF a(4)] by (simp_all add: same_area_def)
    have "A - {(p, n)} = (\<lambda>(q, n). (heap_ptr h' + q, n)) ` set (live bs' (heap_size h'))"
      unfolding e a(3) bs(2) q(1) by auto
    then show ?thesis using a(1,2,5) q(1) by (auto simp: mem_view_def)
  qed
next
  fix h A a b assume "mem_view h A"
  then show "mem_view (poke_heap a b h) A \<and> heap_bytes (poke_heap a b h) = (heap_bytes h)(a := b)"
    by (auto simp: mem_view_def poke_heap_def heap_inv_bytes)
qed

section \<open>\<^verbatim>\<open>rt_realloc\<close>\<close>

lemma rt_realloc_total:
  assumes inv: "heap_inv h bs" and q: "(q, len) \<in> set (live bs (heap_size h))" and n: "0 < n" "unat n + 3 < 2 ^ 32"
  shows "rt_realloc (heap_ptr h + q) n h = Some (RT_NULL, h) \<or>
    (\<exists>q' m h' bs'. rt_realloc (heap_ptr h + q) n h = Some (heap_ptr h + q', h') \<and> realloc_ok h bs q len (unat n) q' m h' bs')"
proof -
  obtain xs x ys where x: "bs = xs @ (x, True) # ys" "q = x + 12" "len = first ys (heap_size h) - x - 12" using live_split [OF q] by blast
  have inv': "heap_inv h (xs @ (x, True) # ys)" and r: "heap_rep h (xs @ (x, True) # ys)" using inv x(1) by (simp_all add: heap_inv_def)
  define k where "k = unat (rt_align4 n)"
  have k: "unat n \<le> k" "0 < k" "4 dvd k" using align_size(2) [OF n(2)] n(1) align_dvd [of n] by (auto simp: k_def word_less_nat_alt)
  have hq: "heap_ptr h + q = heap_ptr h + x + 12" using x(2) by simp
  show ?thesis
  proof (cases "k \<le> unat (mem_size_aligned h)")
    case False
    then show ?thesis by (simp add: rt_realloc_def k_def word_less_nat_alt)
  next
    case True
    note ru = rt_realloc_in_use [OF inv' x(3) k_def [symmetric] k(2) True]
    have keep: "realloc_ok h bs q len (unat n) q len h bs" if "unat n \<le> len"
      using inv that q x(2) by (auto simp: realloc_ok_def same_area_def)
    consider "len = k" | "len \<noteq> k" "k + 24 < len" | "len \<noteq> k" "\<not> k + 24 < len" by blast
    then show ?thesis
    proof cases
      case 1
      then have "rt_realloc (heap_ptr h + q) n h = Some (heap_ptr h + q, h)" unfolding hq ru by simp
      then show ?thesis using keep k(1) 1 by blast
    next
      case 2
      have far: "x + 12 + k + 24 < first ys (heap_size h)" using 2(2) x(3) by linarith
      have d: "first ys (heap_size h) - x - 12 - k = len - k" by (simp add: x(3))
      obtain h' where h': "map_option heap_unlock (plug_holes (heap_ptr h + (x + 12 + k)) (insert_block (of_nat x) (of_nat x + 12 + rt_align4 n)
            (h\<lparr>heap_sem := 0, used_mem := used_mem h - of_nat (len - k)\<rparr>))) = Some h'"
        "heap_inv h' (xs @ (x, True) # (x + 12 + k, False) # absorb ys)" "same_area h h'" "heap_bytes h' = heap_bytes h"
        using realloc_shrink [OF inv' k(2,3) far k_def [symmetric]] unfolding d by blast
      let ?bs' = "xs @ (x, True) # (x + 12 + k, False) # absorb ys"
      have "rt_realloc (heap_ptr h + q) n h = Some (heap_ptr h + q, h')"
        unfolding hq ru using 2 h'(1) by (auto simp: option.map_comp)
      moreover have "realloc_ok h bs q len (unat n) q k h' ?bs'"
        unfolding realloc_ok_def
      proof (intro conjI)
        show "set (live ?bs' (heap_size h)) = insert (q, k) (set (live bs (heap_size h)) - {(q, len)})"
          unfolding live_set_split(1) [OF r, of "(x + 12 + k, False) # absorb ys" "heap_size h"] unfolding x(1-3) live_set_split(2) [OF r] by simp
      qed (use h'(2-4) k(1) x(2) in auto)
      ultimately show ?thesis by blast
    next
      case 3
      have al: "unat (rt_align4 n) + 3 < 2 ^ 32"
        using True heap_rep_mid(12) [OF r] by (simp add: k_def heap_size_def)
      show ?thesis
      proof (rule rt_malloc_live [OF inv al])
        assume "rt_malloc (rt_align4 n) h = Some (RT_NULL, h)"
        then show ?thesis unfolding hq ru using 3 by simp
      next
        fix q' m h1 bs1
        assume a: "rt_malloc (rt_align4 n) h = Some (heap_ptr h + q', h1)" "heap_inv h1 bs1" "unat (rt_align4 n) \<le> m" "12 \<le> q'"
          "set (live bs1 (heap_size h)) = insert (q', m) (set (live bs (heap_size h)))" "\<And>k. (q', k) \<notin> set (live bs (heap_size h))"
          "same_area h h1" "heap_bytes h1 = heap_bytes h"
        have m: "unat n \<le> m" "k \<le> m" using a(3) k(1) by (auto simp: k_def)
        obtain h' bs' where "rt_free (heap_ptr h + q) (heap_memcpy (heap_ptr h + q') (heap_ptr h + q) (min len k) h1) = Some h'"
          "realloc_ok h bs q len (unat n) q' m h' bs'"
          using realloc_move [OF inv q n(2) k(1) a(1,2) m(1) a(4) m(2) a(5-8)] by blast
        then show ?thesis unfolding hq ru using 3 a(1,4) by auto
      qed
    qed
  qed
qed

text \<open>Sizes that are rounded to 0: 0 itself, and the last three below \<^verbatim>\<open>2^32\<close>, for which the rounding wraps around.\<close>

lemma align_to_zero: "rt_align4 n = 0 \<longleftrightarrow> n = 0 \<or> 2 ^ 32 \<le> unat n + 3"
proof
  assume "rt_align4 n = 0"
  then show "n = 0 \<or> 2 ^ 32 \<le> unat n + 3" using align_size(2) [of n] by (auto simp: unat_eq_0 not_le)
next
  have "unat n < 2 ^ 32" by (rule unat_u32_less)
  moreover assume "n = 0 \<or> 2 ^ 32 \<le> unat n + 3"
  ultimately have "unat n \<in> {0, 2 ^ 32 - 3, 2 ^ 32 - 2, 2 ^ 32 - 1}" by auto
  moreover have "n = of_nat m" if "unat n = m" for m using that by (simp flip: that)
  ultimately have "n = 0 \<or> n = 0xFFFFFFFD \<or> n = 0xFFFFFFFE \<or> n = 0xFFFFFFFF" by fastforce
  then show "rt_align4 n = 0" by (auto simp: rt_align4_def)
qed

lemma rt_malloc_wraps:
  assumes "heap_inv h bs" "2 ^ 32 \<le> unat n + 3"
  shows "rt_malloc n h = rt_malloc 12 h"
proof -
  have z: "rt_align4 n = 0" "n \<noteq> 0" using assms(2) by (auto simp: align_to_zero)
  have t: "rt_align4 12 = 12" by (simp add: rt_align4_def)
  have "12 \<le> mem_size_aligned h" using assms(1) by (auto simp: heap_inv_def heap_rep_def heap_size_def word_le_nat_alt)
  then have "\<not> mem_size_aligned h < 12" by simp
  then show ?thesis using z t by (simp add: rt_malloc_def Let_def)
qed

lemma rt_realloc_to_zero: "rt_align4 n = 0 \<Longrightarrow> rt_realloc p n h = map_option (\<lambda>h'. (RT_NULL, h')) (rt_free p h)"
  by (simp add: rt_realloc_def map_option_as_bind)

section \<open>Reachable heaps\<close>

text \<open>
  What clients may do: allocate, and free or change the size of blocks in use. \<open>resize\<close> says whether \<^verbatim>\<open>rt_realloc\<close> of a block in use
  is among the calls. All sizes may be asked for, but not a total of \<^verbatim>\<open>2^32 - 3\<close> bytes or more from \<^verbatim>\<open>rt_calloc\<close>: it would get 12 bytes, and
  clear all of the memory.
\<close>

inductive mem_step :: "bool \<Rightarrow> mem_heap \<Rightarrow> mem_heap \<Rightarrow> bool" for resize where
  malloc: "rt_malloc n h = Some (p, h') \<Longrightarrow> mem_step resize h h'"
| calloc: "rt_calloc n k h = Some (p, h') \<Longrightarrow> unat (n * k) + 3 < 2 ^ 32 \<Longrightarrow> mem_step resize h h'"
| free: "mem_view h A \<Longrightarrow> (p, n) \<in> A \<Longrightarrow> rt_free p h = Some h' \<Longrightarrow> mem_step resize h h'"
| realloc: "resize \<Longrightarrow> mem_view h A \<Longrightarrow> (p, n) \<in> A \<Longrightarrow> rt_realloc p k h = Some (q, h') \<Longrightarrow> mem_step resize h h'"
| poke: "mem_view h A \<Longrightarrow> (p, n) \<in> A \<Longrightarrow> j < n \<Longrightarrow> mem_step resize h (poke_heap (p + j) b h)"

inductive mem_reach :: "bool \<Rightarrow> mem_heap \<Rightarrow> mem_heap \<Rightarrow> bool" for resize h0 where
  start: "mem_reach resize h0 h0"
| step: "mem_reach resize h0 h \<Longrightarrow> mem_step resize h h' \<Longrightarrow> mem_reach resize h0 h'"

text \<open>What a step does to the blocks in use; the lowest-free pointer stays right as long as no block changes its size.\<close>

lemma mem_view_inv: "heap_inv h bs \<Longrightarrow> mem_view h ((\<lambda>(q, n). (heap_ptr h + q, n)) ` set (live bs (heap_size h)))"
  by (auto simp: mem_view_def)

lemma heap_rep_unique: "heap_rep h bs \<Longrightarrow> heap_rep h cs \<Longrightarrow> bs = cs"
proof -
  have u: "blks H p bs e \<Longrightarrow> blks H p cs e \<Longrightarrow> first bs e = first cs e \<Longrightarrow> bs = cs" for H p e bs cs
  proof (induction bs arbitrary: p cs)
    case Nil
    then show ?case using blks_le [of H _ "tl cs" e] by (cases cs) force+
  next
    case (Cons b bs)
    obtain x u where b: "b = (x, u)" by (cases b)
    show ?case
    proof (cases cs)
      case Nil
      then show ?thesis using Cons.prems b blks_le [of H x bs e] by auto
    next
      case c: (Cons c cs')
      obtain y v where y: "c = (y, v)" by (cases c)
      have xy: "x = y" using Cons.prems b c y by simp
      then have "bs = cs'" using Cons.prems b c y by (intro Cons.IH) auto
      then show ?thesis using Cons.prems b c y xy by auto
    qed
  qed
  assume "heap_rep h bs" "heap_rep h cs"
  then show ?thesis using u by (auto simp: heap_rep_def)
qed

definition idle_low :: "mem_heap \<Rightarrow> (nat \<times> bool) list \<Rightarrow> bool" where
  "idle_low h bs \<longleftrightarrow> (live bs (heap_size h) = [] \<longrightarrow> lfree h < heap_ptr h + heap_size h)"

lemma malloc_inv:
  assumes "rt_malloc n h = Some (p, h')" "heap_inv h bs" "low \<Longrightarrow> lowest h bs" "idle_low h bs"
  shows "\<exists>bs'. heap_inv h' bs' \<and> (low \<longrightarrow> lowest h' bs') \<and> idle_low h' bs' \<and> same_area h h'"
proof -
  have *: ?thesis if "rt_malloc m h = Some (p, h')" "unat m + 3 < 2 ^ 32" for m
  proof (rule rt_malloc_live [OF assms(2) that(2)])
    assume "rt_malloc m h = Some (RT_NULL, h)"
    then show ?thesis using that(1) assms(2-4) by (auto simp: same_area_def)
  next
    fix q k h1 bs1
    assume "rt_malloc m h = Some (heap_ptr h + q, h1)" "heap_inv h1 bs1" "same_area h h1" "lowest h bs \<Longrightarrow> lowest h1 bs1"
      "set (live bs1 (heap_size h)) = insert (q, k) (set (live bs (heap_size h)))"
    then show ?thesis using that(1) assms(3) same_area_size [of h h1] by (auto simp: idle_low_def intro!: exI [of _ bs1])
  qed
  show ?thesis
  proof (cases "unat n + 3 < 2 ^ 32")
    case False
    then show ?thesis using * [of 12] assms(1) rt_malloc_wraps [OF assms(2), of n] by simp
  qed (use * assms(1) in blast)
qed

lemma free_inv:
  assumes "mem_view h A" "(p, n) \<in> A" "rt_free p h = Some h'" "heap_inv h bs" "low \<Longrightarrow> lowest h bs"
  shows "\<exists>bs'. heap_inv h' bs' \<and> (low \<longrightarrow> lowest h' bs') \<and> idle_low h' bs' \<and> same_area h h'"
proof -
  obtain cs where cs: "heap_inv h cs" "A = (\<lambda>(q, n). (heap_ptr h + q, n)) ` set (live cs (heap_size h))"
    using assms(1) by (auto simp: mem_view_def)
  have "cs = bs" using cs(1) assms(4) by (auto simp: heap_inv_def intro: heap_rep_unique)
  then obtain q where q: "p = heap_ptr h + q" "(q, n) \<in> set (live bs (heap_size h))" using assms(2) cs(2) by auto
  show ?thesis
  proof (rule rt_free_live [OF assms(4) q(2)])
    fix h1 bs1
    assume f: "rt_free (heap_ptr h + q) h = Some h1" "heap_inv h1 bs1" "same_area h h1" "lowest h bs \<Longrightarrow> lowest h1 bs1"
      "lfree h1 < heap_ptr h + heap_size h"
    have "idle_low h1 bs1" using f(3,5) same_area_size [OF f(3)] by (simp add: idle_low_def same_area_def)
    then show ?thesis using f assms(3,5) q(1) by auto
  qed
qed

lemma mem_step_inv:
  assumes "mem_step resize h h'" "heap_inv h bs" "\<not> resize \<Longrightarrow> lowest h bs" "idle_low h bs"
  shows "\<exists>bs'. heap_inv h' bs' \<and> (\<not> resize \<longrightarrow> lowest h' bs') \<and> idle_low h' bs' \<and> same_area h h'"
  using assms(1)
proof cases
  case (malloc n p)
  then show ?thesis by (rule malloc_inv [OF _ assms(2-4)])
next
  case (calloc n k p)
  obtain h1 where m: "rt_malloc (n * k) h = Some (p, h1)" "h' = (if p \<noteq> RT_NULL then heap_memset p 0 (unat (n * k)) h1 else h1)"
    using calloc(1) by (auto simp: rt_calloc_def bind_eq_Some_conv)
  have ms: "heap_inv (heap_memset p 0 l h1) cs = heap_inv h1 cs" "lowest (heap_memset p 0 l h1) cs = lowest h1 cs"
    "idle_low (heap_memset p 0 l h1) cs = idle_low h1 cs" "same_area h (heap_memset p 0 l h1) = same_area h h1" for l cs
    by (simp_all add: heap_memset_def heap_inv_bytes lowest_def idle_low_def heap_size_def same_area_def)
  show ?thesis using malloc_inv [OF m(1) assms(2-4)] by (simp add: m(2) ms)
next
  case (free A p n)
  then show ?thesis by (rule free_inv [OF _ _ _ assms(2,3)])
next
  case (realloc A p n k q)
  show ?thesis
  proof (cases "rt_align4 k = 0")
    case True
    then have "rt_free p h = Some h'" using realloc(4) by (simp add: rt_realloc_to_zero)
    then show ?thesis using free_inv [OF realloc(2,3) _ assms(2,3)] by simp
  next
    case False
    then have k: "0 < k" "unat k + 3 < 2 ^ 32" by (auto simp: align_to_zero word_gt_0)
    obtain cs where cs: "heap_inv h cs" "A = (\<lambda>(q, n). (heap_ptr h + q, n)) ` set (live cs (heap_size h))"
      using realloc(2) by (auto simp: mem_view_def)
    have "cs = bs" using cs(1) assms(2) by (auto simp: heap_inv_def intro: heap_rep_unique)
    then obtain r where r: "p = heap_ptr h + r" "(r, n) \<in> set (live bs (heap_size h))" using realloc(3) cs(2) by auto
    consider "h' = h" | q' m bs' where "realloc_ok h bs r n (unat k) q' m h' bs'"
      using rt_realloc_total [OF assms(2) r(2) k] realloc(4) r(1) by auto
    then show ?thesis
    proof cases
      case 1
      then show ?thesis using assms by (auto simp: same_area_def)
    next
      case 2
      then have "heap_inv h' bs'" "same_area h h'" "live bs' (heap_size h) \<noteq> []" by (auto simp: realloc_ok_def)
      then show ?thesis using realloc(1) same_area_size [of h h'] by (auto simp: idle_low_def)
    qed
  qed
next
  case (poke A p n j b)
  then show ?thesis using assms(2-4) by (intro exI [of _ bs]) (simp add: poke_heap_def heap_inv_bytes lowest_def idle_low_def heap_size_def same_area_def)
qed

lemma mem_reach_idle:
  assumes "mem_reach resize h0 h" "heap_inv h0 bs0" "lowest h0 bs0" "idle_low h0 bs0"
  shows "\<exists>bs. heap_inv h bs \<and> (\<not> resize \<longrightarrow> lowest h bs) \<and> idle_low h bs \<and> same_area h0 h"
  using assms(1)
proof induction
  case start
  then show ?case using assms(2-4) by (auto simp: same_area_def)
next
  case (step h h')
  then obtain bs where bs: "heap_inv h bs" "\<not> resize \<longrightarrow> lowest h bs" "idle_low h bs" "same_area h0 h" by blast
  obtain bs' where "heap_inv h' bs'" "\<not> resize \<longrightarrow> lowest h' bs'" "idle_low h' bs'" "same_area h h'"
    using mem_step_inv [OF step.hyps(2) bs(1) _ bs(3)] bs(2) by blast
  then show ?case using bs(4) by (auto simp: same_area_def)
qed

lemma fresh_idle_low:
  assumes "area_ok b e"
  shows "idle_low (rt_system_heap_init b e (fresh_heap hm bm)) [(0, False)]"
  using heap_init_inv [OF assms, of hm bm] by (auto simp: idle_low_def lowest_def heap_inv_def heap_rep_def)

lemma mem_reach_inv:
  assumes "area_ok b e" "mem_reach resize (rt_system_heap_init b e (fresh_heap hm bm)) h"
  shows "\<exists>bs. heap_inv h bs \<and> (\<not> resize \<longrightarrow> lowest h bs) \<and> idle_low h bs \<and> same_area (rt_system_heap_init b e (fresh_heap hm bm)) h"
  by (rule mem_reach_idle [OF assms(2) _ _ fresh_idle_low [OF assms(1)]]) (use heap_init_inv [OF assms(1)] in auto)

section \<open>Properties\<close>

lemma fresh_view:
  assumes "area_ok b e"
  shows "mem_view (rt_system_heap_init b e (fresh_heap hm bm)) {}"
  using mem_view_inv [of "rt_system_heap_init b e (fresh_heap hm bm)" "[(0, False)]"] heap_init_inv [OF assms] by simp

text \<open>
  C6. The blocks that \<^verbatim>\<open>rt_malloc\<close> hands out are independent arrays: in any session of allocations of less than \<^verbatim>\<open>2^32 - 3\<close> bytes, frees and
  byte stores on a heap with room for at least one block (\<open>area_ok\<close>; for the excluded cases see \<open>rt_malloc_overflow\<close> and \<open>rt_malloc_tiny_heap\<close>), every call
  returns, the blocks held at the end do not overlap, and every byte that was stored in a block that is still held is there, whatever
  was done to other blocks in between.
\<close>

theorem rt_malloc_independent:
  assumes "area_ok b e" "small_requests (2 ^ 32 - 3) ops"
  shows "\<exists>held h. heap_session (\<lambda>n. rt_malloc (of_nat n)) rt_free poke_heap ops [] (rt_system_heap_init b e (fresh_heap hm bm)) = Some (held, h) \<and>
    (\<forall>(p, n, a) \<in> set held. \<forall>j c. a j = Some c \<longrightarrow> j < n \<and> heap_bytes h (p + j) = c) \<and>
    (\<forall>i < length held. \<forall>j < length held. i \<noteq> j \<longrightarrow>
      fst (held ! i) + fst (snd (held ! i)) \<le> fst (held ! j) \<or> fst (held ! j) + fst (snd (held ! j)) \<le> fst (held ! i))"
proof -
  obtain held h A where s: "heap_session (\<lambda>n. rt_malloc (of_nat n)) rt_free poke_heap ops [] (rt_system_heap_init b e (fresh_heap hm bm)) = Some (held, h)"
    "owns mem_view heap_bytes h A held"
    using small_mem.session_owns [OF small_mem.owns_nothing [OF fresh_view [OF assms(1)]] assms(2)] by blast
  have "\<forall>(p, n, a) \<in> set held. \<forall>j c. a j = Some c \<longrightarrow> j < n \<and> heap_bytes h (p + j) = c"
    using ownsD(3) [OF s(2)] by (auto simp: held_ok_def)
  then show ?thesis using s(1) small_mem.owned_separate [OF s(2)] by blast
qed

theorem rt_malloc_independent_witness:
  "\<exists>held h. heap_session (\<lambda>n. rt_malloc (of_nat n)) rt_free poke_heap [Alloc 5, Alloc 30, Store 0 4 7, Store 1 29 8, Release 0, Alloc 9]
     [] (rt_system_heap_init 1001 5003 (fresh_heap (\<lambda>_. undefined) (\<lambda>_. 0))) = Some (held, h) \<and>
     (\<forall>(p, n, a) \<in> set held. \<forall>j c. a j = Some c \<longrightarrow> j < n \<and> heap_bytes h (p + j) = c)"
proof -
  have a: "area_ok 1001 5003" by (simp add: area_ok_def rt_align4_def rt_align_down4_def)
  show ?thesis
    using rt_malloc_independent [OF a, of "[Alloc 5, Alloc 30, Store 0 4 7, Store 1 29 8, Release 0, Alloc 9]" "\<lambda>_. undefined" "\<lambda>_. 0"]
    by (simp del: heap_session.simps) blast
qed

text \<open>
  C7. In every heap that allocations, reallocations, frees (of blocks in use, of any size; \<^verbatim>\<open>rt_calloc\<close> below \<^verbatim>\<open>2^32 - 3\<close> bytes) and stores lead
  to, the blocks lie one behind the other and cover the heap, no two free
  blocks are neighbours, the links in the headers agree with the blocks, the lowest-free pointer is a free block or the end, and
  \<^verbatim>\<open>used_mem\<close> is the number of bytes in use and never above \<^verbatim>\<open>max_mem\<close>.
\<close>

theorem mem_heap_invariant:
  assumes "area_ok b e" "mem_reach True (rt_system_heap_init b e (fresh_heap hm bm)) h"
  shows "\<exists>bs. heap_rep h bs \<and> coalesced bs \<and> lfree_ok h bs \<and> unat (used_mem h) = in_use (live bs (heap_size h)) \<and> used_mem h \<le> max_mem h \<and> heap_sem h = 1"
  using mem_reach_inv [OF assms(1,2)] by (metis heap_inv_def)

theorem mem_heap_invariant_witness:
  "\<exists>h bs. mem_reach True (rt_system_heap_init 1001 5003 (fresh_heap (\<lambda>_. undefined) (\<lambda>_. 0))) h \<and> heap_rep h bs \<and> coalesced bs"
proof -
  have a: "area_ok 1001 5003" by (simp add: area_ok_def rt_align4_def rt_align_down4_def)
  show ?thesis using mem_heap_invariant [OF a mem_reach.start] mem_reach.start by blast
qed

text \<open>
  C21. \<^verbatim>\<open>rt_malloc\<close> is first fit: as long as no block has changed its size, it takes the lowest free block that fits, and returns the null
  pointer exactly when there is none. A block that would be filled up to the end of the heap is not taken though it fits.
\<close>

theorem rt_malloc_first_fit:
  assumes "area_ok b e" "mem_reach False (rt_system_heap_init b e (fresh_heap hm bm)) h" "n \<noteq> 0" "unat n + 3 < 2 ^ 32"
  shows "\<exists>bs. heap_rep h bs \<and>
    (case first_fit (rounded n) bs (heap_size h) of
       None \<Rightarrow> rt_malloc n h = Some (RT_NULL, h)
     | Some x \<Rightarrow> \<exists>h'. rt_malloc n h = Some (heap_ptr h + x + 12, h'))"
proof -
  obtain bs where bs: "heap_inv h bs" "lowest h bs" using mem_reach_inv [OF assms(1,2)] by blast
  then have "case first_fit (rounded n) bs (heap_size h) of None \<Rightarrow> rt_malloc n h = Some (RT_NULL, h)
     | Some x \<Rightarrow> \<exists>h'. rt_malloc n h = Some (heap_ptr h + x + 12, h')"
    by (rule_tac rt_malloc_cases [OF bs(1), of n]) (use assms(3) bs(2) in auto)
  then show ?thesis using bs(1) by (auto simp: heap_inv_def)
qed

theorem rt_malloc_first_fit_witness:
  "\<exists>h'. rt_malloc 100 (rt_system_heap_init 1001 5003 (fresh_heap (\<lambda>_. undefined) (\<lambda>_. 0))) = Some (1016, h')"
proof -
  let ?h = "rt_system_heap_init 1001 5003 (fresh_heap (\<lambda>_. undefined) (\<lambda>_. 0))"
  have a: "area_ok 1001 5003" by (simp add: area_ok_def rt_align4_def rt_align_down4_def)
  note i = heap_init_inv [OF a, of "\<lambda>_. undefined" "\<lambda>_. 0"]
  have r: "heap_rep ?h [(0, False)]" "heap_ptr ?h = 1004" "heap_size ?h = 3984" using i by (auto simp: heap_inv_def rt_align4_def rt_align_down4_def)
  have "rounded 100 = 100" by (simp add: rounded_def rt_align4_def)
  obtain bs where bs: "heap_rep ?h bs" and m: "case first_fit (rounded 100) bs (heap_size ?h) of None \<Rightarrow> rt_malloc 100 ?h = Some (RT_NULL, ?h)
     | Some x \<Rightarrow> \<exists>h'. rt_malloc 100 ?h = Some (heap_ptr ?h + x + 12, h')"
    using rt_malloc_first_fit [OF a mem_reach.start, of 100] by auto
  have "bs = [(0, False)]" by (rule heap_rep_unique [OF bs r(1)])
  then show ?thesis using m r \<open>rounded 100 = 100\<close> by simp
qed

lemma live_nil: "live bs e = [] \<Longrightarrow> \<forall>x \<in> set bs. \<not> snd x"
  by (induction bs) (fastforce split: if_splits)+

text \<open>
  C23. Freed memory is merged again: whatever calls of \<^verbatim>\<open>rt_malloc\<close>, \<^verbatim>\<open>rt_calloc\<close>, \<^verbatim>\<open>rt_realloc\<close> and \<^verbatim>\<open>rt_free\<close> and stores went before, when
  no block is in use, the heap is one free block, \<^verbatim>\<open>used_mem\<close> is 0, and the whole heap can be had again: a request for \<open>n\<close> bytes, with
  \<open>n > 0\<close> and \<open>n + 3 < 2 ^ 32\<close>, gets the block at the start of the heap if \<open>n\<close>, as rounded by \<^verbatim>\<open>rt_malloc\<close>, and 12 bytes for the header are less than the
  size of the heap. So the memory that a shrinking \<^verbatim>\<open>rt_realloc\<close> hides is found again
  once all blocks are freed.
\<close>

theorem rt_free_restores:
  assumes "area_ok b e" "mem_reach resize (rt_system_heap_init b e (fresh_heap hm bm)) h" "mem_view h {}"
  shows "used_mem h = 0 \<and> heap_rep h [(0, False)] \<and>
    (\<forall>n. n \<noteq> 0 \<and> unat n + 3 < 2 ^ 32 \<and> rounded n + 12 < heap_size h \<longrightarrow> (\<exists>h'. rt_malloc n h = Some (heap_ptr h + 12, h')))"
proof -
  obtain bs where bs: "heap_inv h bs" "idle_low h bs" using mem_reach_inv [OF assms(1,2)] by blast
  obtain cs where cs: "heap_inv h cs" "live cs (heap_size h) = []" using assms(3) by (auto simp: mem_view_def)
  have eq: "cs = bs" using cs(1) bs(1) by (auto simp: heap_inv_def intro: heap_rep_unique)
  have free: "\<forall>x \<in> set bs. \<not> snd x" using live_nil [of bs "heap_size h"] cs(2) eq by simp
  have r: "heap_rep h bs" "coalesced bs" "lfree_ok h bs" using bs(1) by (simp_all add: heap_inv_def)
  then have b: "bs = [(0, False)]" using free
    by (cases bs rule: remdups_adj.cases) (auto simp: heap_rep_def coalesced_def)
  have low: "lowest h bs" using bs(2) cs(2) eq r(3) b by (auto simp: idle_low_def lfree_ok_def lowest_def)
  have "\<exists>h'. rt_malloc n h = Some (heap_ptr h + 12, h')" if n: "n \<noteq> 0" "unat n + 3 < 2 ^ 32" "rounded n + 12 < heap_size h" for n
  proof -
    have "first_fit (rounded n) bs (heap_size h) = Some 0" using n(3) b by simp
    then show ?thesis by (rule_tac rt_malloc_cases [OF bs(1), of n]) (use n(1) low in auto)
  qed
  moreover have "used_mem h = 0" using bs(1) cs(2) eq by (simp add: heap_inv_def unat_eq_0)
  ultimately show ?thesis using r(1) b by simp
qed

theorem rt_free_restores_witness:
  "\<exists>p h1 h2 h3. rt_malloc 100 (rt_system_heap_init 1001 5003 (fresh_heap (\<lambda>_. undefined) (\<lambda>_. 0))) = Some (p, h1) \<and>
     rt_free p h1 = Some h2 \<and> used_mem h2 = 0 \<and> rt_malloc 3900 h2 = Some (1016, h3)"
proof -
  let ?h = "rt_system_heap_init 1001 5003 (fresh_heap (\<lambda>_. undefined) (\<lambda>_. 0))"
  have a: "area_ok 1001 5003" by (simp add: area_ok_def rt_align4_def rt_align_down4_def)
  obtain p h1 where m: "rt_malloc 100 ?h = Some (p, h1)" "p = 0 \<and> mem_view h1 {} \<or> (\<exists>m. mem_view h1 {(p, m)})"
    using small_mem.alloc_fresh [OF fresh_view [OF a], of 100 "\<lambda>_. undefined" "\<lambda>_. 0"] by auto
  have r1: "mem_reach False ?h h1" by (rule mem_reach.step [OF mem_reach.start mem_step.malloc [OF m(1)]])
  obtain h2 where f: "rt_free p h1 = Some h2" "mem_view h2 {}" "mem_reach False ?h h2"
  proof (cases "p = 0 \<and> mem_view h1 {}")
    case True
    then show thesis using that [of h1] r1 by (simp add: rt_free_def)
  next
    case False
    then obtain m' where v: "mem_view h1 {(p, m')}" using m(2) by blast
    obtain h2 where "rt_free p h1 = Some h2" "mem_view h2 ({(p, m')} - {(p, m')})" using small_mem.release_back [OF v, of p m'] by auto
    then show thesis using that [of h2] mem_reach.step [OF r1 mem_step.free [OF v, of p m']] by simp
  qed
  have same: "heap_size h2 = 3984" "heap_ptr h2 = 1004"
  proof -
    have "same_area ?h h2" using mem_reach_inv [OF a f(3)] by blast
    then show "heap_size h2 = 3984" "heap_ptr h2 = 1004"
      using same_area_size [of ?h h2] heap_init_inv [OF a, of "\<lambda>_. undefined" "\<lambda>_. 0"] by (auto simp: same_area_def rt_align4_def rt_align_down4_def)
  qed
  have "rounded 3900 = 3900" by (simp add: rounded_def rt_align4_def)
  then show ?thesis using rt_free_restores [OF a f(3,2)] m(1) f(1) same by auto
qed

lemma realloc_view:
  assumes "mem_view h A" "(p, len) \<in> A" and n: "0 < n" "unat n + 3 < 2 ^ 32"
  shows "rt_realloc p n h = Some (RT_NULL, h) \<or>
    (\<exists>p' m h'. rt_realloc p n h = Some (p', h') \<and> unat n \<le> m \<and> mem_view h' (insert (p', m) (A - {(p, len)})) \<and>
       (\<forall>j < min len (unat n). heap_bytes h' (p' + j) = heap_bytes h (p + j)) \<and>
       (\<forall>(r, k) \<in> A - {(p, len)}. \<forall>j < k. heap_bytes h' (r + j) = heap_bytes h (r + j)))"
proof -
  obtain bs where bs: "heap_inv h bs" "A = (\<lambda>(q, n). (heap_ptr h + q, n)) ` set (live bs (heap_size h))" using assms(1) by (auto simp: mem_view_def)
  obtain q where q: "p = heap_ptr h + q" "(q, len) \<in> set (live bs (heap_size h))" using assms(2) bs(2) by auto
  consider "rt_realloc p n h = Some (RT_NULL, h)"
    | q' m h' bs' where "rt_realloc p n h = Some (heap_ptr h + q', h')" "realloc_ok h bs q len (unat n) q' m h' bs'"
    using rt_realloc_total [OF bs(1) q(2) n] q(1) by blast
  then show ?thesis
  proof cases
    case 2
    have s: "heap_ptr h' = heap_ptr h" "heap_size h' = heap_size h"
      using 2(2) same_area_size [of h h'] by (simp_all add: realloc_ok_def same_area_def)
    have A': "A - {(p, len)} = (\<lambda>(q, n). (heap_ptr h + q, n)) ` (set (live bs (heap_size h)) - {(q, len)})"
      unfolding bs(2) q(1) by auto
    have "mem_view h' (insert (heap_ptr h + q', m) (A - {(p, len)}))"
      unfolding A' using mem_view_inv [of h' bs'] 2(2) s by (simp add: realloc_ok_def)
    moreover have "\<forall>(r, k) \<in> A - {(p, len)}. \<forall>j < k. heap_bytes h' (r + j) = heap_bytes h (r + j)"
    proof -
      have "\<forall>(r, k) \<in> set (live bs (heap_size h)) - {(q, len)}. \<forall>j < k. heap_bytes h' (heap_ptr h + r + j) = heap_bytes h (heap_ptr h + r + j)"
        using 2(2) by (simp add: realloc_ok_def)
      then show ?thesis unfolding A' by (simp add: split_beta)
    qed
    ultimately show ?thesis using 2 q(1) by (auto simp: realloc_ok_def)
  qed simp
qed

text \<open>
  C22. \<^verbatim>\<open>rt_realloc\<close> of a block in use always returns. For a size of 0, and for the last three below \<^verbatim>\<open>2^32\<close>, which are rounded up to 0, it frees the
  block and returns the null pointer. For every other size it either finds no memory, returns the null pointer and leaves the heap as it is,
  or gives a block of at least the new size that holds the bytes of the old one as far as both reach. In all cases every other block in
  use is untouched.
\<close>

theorem rt_realloc_keeps:
  assumes "area_ok b e" "mem_reach True (rt_system_heap_init b e (fresh_heap hm bm)) h" "mem_view h A" "(p, len) \<in> A"
  shows "if n = 0 \<or> 2 ^ 32 \<le> unat n + 3
    then \<exists>h'. rt_realloc p n h = Some (RT_NULL, h') \<and> rt_free p h = Some h' \<and> mem_view h' (A - {(p, len)}) \<and> heap_bytes h' = heap_bytes h
    else rt_realloc p n h = Some (RT_NULL, h) \<or>
    (\<exists>p' m h'. rt_realloc p n h = Some (p', h') \<and> unat n \<le> m \<and> mem_view h' (insert (p', m) (A - {(p, len)})) \<and>
       (\<forall>j < min len (unat n). heap_bytes h' (p' + j) = heap_bytes h (p + j)) \<and>
       (\<forall>(r, k) \<in> A - {(p, len)}. \<forall>j < k. heap_bytes h' (r + j) = heap_bytes h (r + j)))"
proof (cases "n = 0 \<or> 2 ^ 32 \<le> unat n + 3")
  case True
  then show ?thesis using small_mem.release_back [OF assms(3,4)] rt_realloc_to_zero [of n p h] by (auto simp: align_to_zero)
next
  case False
  then have n: "0 < n" "unat n + 3 < 2 ^ 32" by (auto simp: word_gt_0)
  have "rt_realloc p n h = Some (RT_NULL, h) \<or>
    (\<exists>p' m h'. rt_realloc p n h = Some (p', h') \<and> unat n \<le> m \<and> mem_view h' (insert (p', m) (A - {(p, len)})) \<and>
       (\<forall>j < min len (unat n). heap_bytes h' (p' + j) = heap_bytes h (p + j)) \<and>
       (\<forall>(r, k) \<in> A - {(p, len)}. \<forall>j < k. heap_bytes h' (r + j) = heap_bytes h (r + j)))"
    by (rule realloc_view [OF assms(3,4) n])
  then show ?thesis using False by simp
qed

text \<open>A heap of about 4000 bytes, and the first allocation from it.\<close>

definition demo_heap :: mem_heap where
  "demo_heap = rt_system_heap_init 1001 5003 (fresh_heap (\<lambda>_. undefined) (\<lambda>_. 0))"

lemma demo_heap: "area_ok 1001 5003" "heap_inv demo_heap [(0, False)]" "lowest demo_heap [(0, False)]" "heap_ptr demo_heap = 1004" "heap_size demo_heap = 3984"
proof -
  show a: "area_ok 1001 5003" by (simp add: area_ok_def rt_align4_def rt_align_down4_def)
  show "heap_inv demo_heap [(0, False)]" "lowest demo_heap [(0, False)]" "heap_ptr demo_heap = 1004" "heap_size demo_heap = 3984"
    using heap_init_inv [OF a, of "\<lambda>_. undefined" "\<lambda>_. 0"] by (auto simp: demo_heap_def rt_align4_def rt_align_down4_def)
qed

lemma malloc_one_block:
  assumes "heap_inv h [(0, False)]" "lowest h [(0, False)]" "n \<noteq> 0" "12 + rounded n < heap_size h"
  obtains h' where "rt_malloc n h = Some (heap_ptr h + 12, h')" "heap_inv h' ((0, True) # split_tail (rounded n) 0 [] (heap_size h))"
    "lowest h' ((0, True) # split_tail (rounded n) 0 [] (heap_size h))" "same_area h h'"
proof (rule rt_malloc_cases [OF assms(1), of n])
  assume "lowest h [(0, False)] \<Longrightarrow> n \<noteq> 0 \<Longrightarrow> first_fit (rounded n) [(0, False)] (heap_size h) = None"
  then show thesis using assms by simp
next
  fix xs x ys h'
  assume a: "[(0, False)] = xs @ (x, False) # ys" "rt_malloc n h = Some (heap_ptr h + x + 12, h')"
    "heap_inv h' (xs @ (x, True) # split_tail (rounded n) x ys (heap_size h))" "same_area h h'"
    "lowest h [(0, False)] \<Longrightarrow> lowest h' (xs @ (x, True) # split_tail (rounded n) x ys (heap_size h)) \<and> first_fit (rounded n) [(0, False)] (heap_size h) = Some x"
  then have "xs = []" "x = 0" "ys = []" by (cases xs; simp)+
  then show thesis using a assms(2) by (intro that [of h']) auto
qed

theorem rt_realloc_keeps_witness:
  "\<exists>p h m. rt_malloc 100 demo_heap = Some (p, h) \<and> mem_view h {(p, m)} \<and>
     (rt_realloc p 200 h = Some (RT_NULL, h) \<or>
      (\<exists>p' m' h'. rt_realloc p 200 h = Some (p', h') \<and> (200::nat) \<le> m' \<and> (\<forall>j < min m 200. heap_bytes h' (p' + j) = heap_bytes h (p + j))))"
proof -
  have k: "rounded 100 = 100" by (simp add: rounded_def rt_align4_def)
  obtain h where h: "rt_malloc 100 demo_heap = Some (1016, h)" "heap_inv h [(0, True), (112, False)]" "same_area demo_heap h"
    using malloc_one_block [OF demo_heap(2,3), of 100] demo_heap(4,5) by (auto simp: k split_tail_def)
  have e: "heap_size h = 3984" "heap_ptr h = 1004" using same_area_size [OF h(3)] h(3) demo_heap(4,5) by (simp_all add: same_area_def)
  have v: "mem_view h {(1016, 100)}" using mem_view_inv [OF h(2)] e by simp
  have r: "mem_reach True demo_heap h" by (rule mem_reach.step [OF mem_reach.start mem_step.malloc [OF h(1)]])
  show ?thesis
    using rt_realloc_keeps [OF demo_heap(1) r [unfolded demo_heap_def] v, of 1016 100 200] h(1) v
    by (intro exI [of _ 1016] exI [of _ h] exI [of _ 100]) auto
qed

lemma plug_holes_none:
  assumes r: "heap_rep h (xs @ (x, False) # ys)" and n: "\<forall>y \<in> set (xs @ ys). snd y"
  shows "plug_holes (heap_ptr h + x) h = Some h"
proof -
  note m = heap_rep_mid [OF r]
  have nx: "hm_used (hdr h (first ys (heap_size h))) \<noteq> 0"
  proof (cases ys)
    case Nil
    then show ?thesis using r by (simp add: heap_rep_def)
  next
    case (Cons y zs)
    then show ?thesis using heap_rep_mid(2) [of h "xs @ [(x, False)]" "fst y" "snd y" zs] r n by (cases y) simp
  qed
  have pv: "last_of 0 xs = x \<or> hm_used (hdr h (last_of 0 xs)) \<noteq> 0"
  proof (cases xs rule: rev_cases)
    case Nil
    then show ?thesis using r by (simp add: heap_rep_def)
  next
    case (snoc zs y)
    then show ?thesis using heap_rep_mid(2) [of h zs "fst y" "snd y" "(x, False) # ys"] r n by (cases y) simp
  qed
  have "plug_forward (heap_ptr h + x) h = h" using nx m(3) by (simp add: plug_forward_merge Let_def)
  moreover have "plug_backward (heap_ptr h + x) h = h" using pv m(4) by (auto simp: plug_backward_merge Let_def)
  ultimately show ?thesis using m(2,5,6,9) by (simp add: plug_holes_def headers_hdr)
qed

text \<open>
  C32. When all memory is in use and a block is made smaller by \<^verbatim>\<open>rt_realloc\<close>, the memory it gives up is a free block of the heap, but the
  lowest-free pointer is left at the end of the heap: no allocation succeeds, however small and however much has become free.
\<close>

theorem rt_realloc_hides_memory:
  assumes inv: "heap_inv h (xs @ (x, True) # ys)" and full: "\<forall>y \<in> set (xs @ ys). snd y"
    and n: "0 < unat (rt_align4 n)" "x + 12 + unat (rt_align4 n) + 24 < first ys (heap_size h)"
  shows "\<exists>h'. rt_realloc (heap_ptr h + x + 12) n h = Some (heap_ptr h + x + 12, h') \<and>
    heap_rep h' (xs @ (x, True) # (x + 12 + unat (rt_align4 n), False) # ys) \<and> (\<forall>m. rt_malloc m h' = Some (RT_NULL, h'))"
proof -
  define k where "k = unat (rt_align4 n)"
  let ?e = "heap_size h" let ?m = "x + 12 + k"
  have k: "0 < k" "4 dvd k" "x + 12 + k + 24 < first ys ?e" using n align_dvd by (simp_all add: k_def)
  have r: "heap_rep h (xs @ (x, True) # ys)" and sem: "heap_sem h = 1" using inv by (simp_all add: heap_inv_def)
  note md = heap_rep_mid [OF r]
  have lf: "lfree h = heap_ptr h + ?e" 
  proof -
    have "(l, False) \<notin> set (xs @ (x, True) # ys)" for l
    proof
      assume "(l, False) \<in> set (xs @ (x, True) # ys)"
      then have "(l, False) \<in> set (xs @ ys)" by simp
      then show False using bspec [OF full] by fastforce
    qed
    then show ?thesis using inv by (auto simp: heap_inv_def lfree_ok_def)
  qed
  let ?u = "used_mem h - of_nat (first ys ?e - x - 12 - k)"
  let ?h = "h\<lparr>heap_sem := 0, used_mem := ?u\<rparr>" let ?h1 = "insert_block (of_nat x) (of_nat ?m) ?h"
  have r0: "heap_rep ?h (xs @ (x, True) # ys)" using r by (simp add: heap_rep_def)
  have r1: "heap_rep ?h1 ((xs @ [(x, True)]) @ (?m, False) # ys)"
    using insert_block_rep [OF r0, of ?m] k md(7) dvd_imp_le [OF k(2,1)] by simp
  have plug: "plug_holes (heap_ptr ?h1 + ?m) ?h1 = Some ?h1" by (rule plug_holes_none [OF r1]) (use full in auto)
  have w: "of_nat x + 12 + rt_align4 n = (of_nat ?m :: u32)" by (simp add: k_def)
  have "rt_realloc (heap_ptr h + x + 12) n h = Some (heap_ptr h + x + 12, heap_unlock ?h1)"
  proof -
    have len: "first ys ?e - x - 12 \<noteq> k" "k + 24 < first ys ?e - x - 12" "k \<le> unat (mem_size_aligned h)"
      using k(3) md(6) by (linarith, linarith, simp add: heap_size_def)
    have "plug_holes (heap_ptr h + ?m) ?h1 = Some ?h1" using plug by simp
    then show ?thesis unfolding rt_realloc_in_use [OF inv refl k_def [symmetric] k(1) len(3)] w using len by simp
  qed
  moreover have "heap_rep (heap_unlock ?h1) (xs @ (x, True) # (?m, False) # ys)" using r1 by (simp add: heap_rep_def heap_unlock_def)
  moreover have "rt_malloc m (heap_unlock ?h1) = Some (RT_NULL, heap_unlock ?h1)" for m
  proof -
    let ?h2 = "heap_unlock ?h1" let ?h3 = "?h2\<lparr>heap_sem := 0\<rparr>"
    have f: "lfree ?h2 = heap_ptr ?h2 + ?e" "heap_sem ?h2 = 1" "mem_size_aligned ?h2 = mem_size_aligned h" "heap_size ?h3 = ?e"
      using lf by (simp_all add: heap_unlock_def)
    have locked: "heap_lock ?h2 = Some ?h3" "heap_unlock ?h3 = ?h2" using f(2) by (simp_all add: heap_lock_def) (simp add: heap_unlock_def)
    have none: "malloc_find ?h3 sz (heap_off ?h3 (lfree ?h3)) = Some None" if "sz \<le> mem_size_aligned h" for sz
    proof -
      have "\<not> (of_nat ?e :: u32) < mem_size_aligned h - sz"
        using that md(10) by (simp add: word_less_nat_alt word_le_nat_alt unat_sub unat_of_nat) (simp add: heap_size_def)
      then show ?thesis using f(1,3) by (subst malloc_find.simps) simp
    qed
    have "12 \<le> mem_size_aligned h" using md(13) by (simp add: heap_size_def word_le_nat_alt)
    then show ?thesis using none f(3) locked by (auto simp: rt_malloc_def Let_def not_less)
  qed
  ultimately show ?thesis unfolding k_def by blast
qed

theorem rt_realloc_hides_memory_witness:
  "\<exists>h h'. rt_malloc 3968 demo_heap = Some (1016, h) \<and> rt_realloc 1016 100 h = Some (1016, h') \<and>
     heap_rep h' [(0, True), (112, False)] \<and> rt_malloc 8 h' = Some (RT_NULL, h')"
proof -
  have k: "rounded 3968 = 3968" "unat (rt_align4 100) = 100" by (simp_all add: rounded_def rt_align4_def)
  obtain h where h: "rt_malloc 3968 demo_heap = Some (1016, h)" "heap_inv h ([] @ (0, True) # [])" "same_area demo_heap h"
    using malloc_one_block [OF demo_heap(2,3), of 3968] demo_heap(4,5) by (auto simp: k split_tail_def)
  have e: "heap_size h = 3984" "heap_ptr h = 1004" using same_area_size [OF h(3)] h(3) demo_heap(4,5) by (simp_all add: same_area_def)
  show ?thesis using rt_realloc_hides_memory [OF h(2), of 100] h(1) e k(2) by auto
qed

text \<open>
  A request for the last three sizes below \<^verbatim>\<open>2^32\<close> bytes is rounded up to 0 and treated as one for 12 bytes, so it may succeed; and
  \<^verbatim>\<open>rt_realloc\<close> to such a size frees the block.
\<close>

theorem rt_malloc_overflow:
  assumes "heap_inv h bs" "2 ^ 32 \<le> unat n + 3" "p \<noteq> RT_NULL"
  shows "rt_malloc n h = rt_malloc 12 h \<and> rt_realloc p n h = map_option (\<lambda>h'. (RT_NULL, h')) (rt_free p h)"
  using assms rt_malloc_wraps [OF assms(1,2)] by (simp add: rt_realloc_to_zero align_to_zero)

theorem rt_malloc_overflow_witness:
  "\<exists>h h'. rt_malloc 0xFFFFFFFF demo_heap = Some (1016, h) \<and> rt_realloc 1016 0xFFFFFFFE h = Some (RT_NULL, h')"
proof -
  have k: "rounded 12 = 12" by (simp add: rounded_def rt_align4_def)
  obtain h where h: "rt_malloc 12 demo_heap = Some (1016, h)" "heap_inv h [(0, True), (24, False)]" "same_area demo_heap h"
    using malloc_one_block [OF demo_heap(2,3), of 12] demo_heap(4,5) by (auto simp: k split_tail_def)
  have e: "heap_size h = 3984" "heap_ptr h = 1004" using same_area_size [OF h(3)] h(3) demo_heap(4,5) by (simp_all add: same_area_def)
  obtain h' where "rt_free 1016 h = Some h'" using rt_free_live [OF h(2), of 12 12] e by auto
  then show ?thesis
    using rt_malloc_overflow [OF demo_heap(2), where n = "0xFFFFFFFF" and p = 1016] rt_malloc_overflow [OF h(2), where n = "0xFFFFFFFE" and p = 1016] h(1) by simp
qed

lemma malloc_find_stuck:
  assumes "e < mem_size_aligned h - k" "hm_used (headers h (heap_at h e)) \<noteq> 0" "hm_next (headers h (heap_at h e)) = e"
  shows "malloc_find h k e = None"
proof (rule ccontr)
  assume "malloc_find h k e \<noteq> None"
  then obtain r where "malloc_find h k e = Some r" by blast
  then have "(h, k, e) \<noteq> (h, k, e)"
  proof (rule malloc_find.raw_induct [rotated, where P = "\<lambda>h' k' e' r. (h', k', e') \<noteq> (h, k, e)"], goal_cases)
    case (1 f h' k' e' r')
    then show ?case using assms by (auto simp: Let_def split: if_splits)
  qed
  then show False by simp
qed

text \<open>
  A heap area that \<^verbatim>\<open>rt_system_heap_init\<close> accepts may leave 4 or 8 bytes besides the two headers. Then \<^verbatim>\<open>rt_malloc\<close> does not return for a
  request that is not larger: the size is raised to 12, \<^verbatim>\<open>mem_size_aligned - size\<close> wraps around, and the search turns at the end marker for ever.
\<close>

theorem rt_malloc_tiny_heap:
  assumes b: "unat b + 3 < 2 ^ 32" "unat (rt_align4 b) + 28 \<le> unat (rt_align_down4 e)" "unat (rt_align_down4 e) < unat (rt_align4 b) + 36"
    and n: "n \<noteq> 0" "unat n + 3 < 2 ^ 32" "unat (rt_align4 n) + 24 + unat (rt_align4 b) \<le> unat (rt_align_down4 e)"
  shows "rt_malloc n (rt_system_heap_init b e (fresh_heap hm bm)) = None"
proof -
  let ?b = "rt_align4 b" let ?e = "rt_align_down4 e" let ?h = "rt_system_heap_init b e (fresh_heap hm bm)"
  define M where "M = ?e - ?b - 24"
  have d: "4 dvd unat ?b" "4 dvd unat ?e" using align_dvd by (simp_all only: rt_align_down4_def unat_align_down) presburger
  have uM: "unat M = unat ?e - unat ?b - 24" using b(2) by (simp add: M_def unat_sub word_le_nat_alt)
  have "4 dvd unat M" unfolding uM by (intro dvd_diff_nat) (use d in simp_all)
  moreover have "4 \<le> unat M" "unat M < 12" using b unfolding uM by linarith+
  ultimately have "unat M = 4 \<or> unat M = 8" by presburger
  then have M: "M = 4 \<or> M = 8" by (auto simp: word_unat_eq_iff)
  have c: "?e > 24" "?e - 24 \<ge> ?b" using b by (simp_all add: word_less_nat_alt word_le_nat_alt unat_sub)
  have h: "mem_size_aligned ?h = M" "lfree ?h = heap_ptr ?h" "heap_sem ?h = 1"
    "hm_used (headers ?h (heap_ptr ?h)) = 0" "hm_next (headers ?h (heap_ptr ?h)) = M + 12"
    "hm_used (headers ?h (heap_ptr ?h + unat (M + 12))) = 1" "hm_next (headers ?h (heap_ptr ?h + unat (M + 12))) = M + 12"
    using c M by (auto simp: rt_system_heap_init_def heap_at_def Let_def fresh_heap_def M_def [symmetric] upd_header_def)
  let ?h1 = "?h\<lparr>heap_sem := 0\<rparr>"
  have "malloc_find ?h1 12 (M + 12) = None"
    by (rule malloc_find_stuck) (use h M in \<open>auto simp: heap_at_def\<close>)
  then have "malloc_find ?h1 12 0 = None"
    using h M by (subst malloc_find.simps) (auto simp: heap_at_def Let_def word_gt_0)
  moreover have "heap_lock ?h = Some ?h1" using h by (simp add: heap_lock_def)
  moreover have "\<not> mem_size_aligned ?h < rt_align4 n" "rt_align4 n < 12"
    using n(3) b uM unfolding h(1) word_less_nat_alt by simp_all
  ultimately show ?thesis using n(1) h(2) by (simp add: rt_malloc_def heap_off_def)
qed

theorem rt_malloc_tiny_heap_witness:
  "rt_malloc 4 (rt_system_heap_init 1000 1028 (fresh_heap (\<lambda>_. undefined) (\<lambda>_. 0))) = None"
  by (rule rt_malloc_tiny_heap) (simp_all add: rt_align4_def rt_align_down4_def)

end
