(* ===== verification/RT_Mem_Align.thy ===== *)
theory RT_Mem_Align
  imports RT_Mem_Spec
begin

text \<open>
  The functions of \<^verbatim>\<open>src/kservice.c\<close> that rest on the heap: copies of strings, and blocks at an aligned address, whose real
  address is kept in the word in front of them.
\<close>

section \<open>Operations\<close>

definition rt_strdup :: "ptr \<Rightarrow> mem_heap \<Rightarrow> (ptr \<times> mem_heap) option" where
  "rt_strdup s h = do {
     l \<leftarrow> rt_strlen (heap_bytes h) s;
     let len = l + 1;
     (tmp, h) \<leftarrow> rt_malloc (of_nat len) h;
     if tmp = RT_NULL then Some (RT_NULL, h)
     else Some (tmp, heap_memcpy tmp s len h) }"

definition rt_malloc_align :: "u32 \<Rightarrow> u32 \<Rightarrow> mem_heap \<Rightarrow> (ptr \<times> mem_heap) option" where
  "rt_malloc_align sz align h =
    (let align = (align + 3) AND NOT 3;
         align_size = ((sz + 3) AND NOT 3) + align in do {
       (ptr, h) \<leftarrow> rt_malloc align_size h;
       if ptr \<noteq> RT_NULL then
         (let p = of_nat ptr :: u32;
              align_ptr = (if p AND (align - 1) = 0 then p + align else (p + (align - 1)) AND NOT (align - 1))
          in Some (unat align_ptr, h\<lparr>heap_bytes := store32 (unat align_ptr - 4) p (heap_bytes h)\<rparr>))
       else Some (RT_NULL, h) })"

definition rt_free_align :: "ptr \<Rightarrow> mem_heap \<Rightarrow> mem_heap option" where
  "rt_free_align ptr h = do {
     mem_ok (4 \<le> ptr);
     rt_free (unat (load32 (heap_bytes h) (ptr - 4))) h }"

section \<open>Blocks in use\<close>

lemma view_bounds:
  assumes "mem_view h A" "(p, n) \<in> A"
  shows "4 dvd p" "12 \<le> p" "p + n < 2 ^ 32"
proof -
  obtain bs where bs: "heap_inv h bs" "A = (\<lambda>(q, n). (heap_ptr h + q, n)) ` set (live bs (heap_size h))" using assms(1) by (auto simp: mem_view_def)
  obtain q where q: "p = heap_ptr h + q" "(q, n) \<in> set (live bs (heap_size h))" using assms(2) bs(2) by auto
  obtain xs x ys where x: "bs = xs @ (x, True) # ys" "q = x + 12" "n = first ys (heap_size h) - x - 12" using live_split [OF q(2)] by blast
  have r: "heap_rep h (xs @ (x, True) # ys)" using bs(1) x(1) by (simp add: heap_inv_def)
  then have b: "blks (hdr h) 0 (xs @ (x, True) # ys) (heap_size h)" "4 dvd heap_ptr h" "heap_ptr h + heap_size h + 12 < 2 ^ 32"
    by (simp_all add: heap_rep_def)
  have "4 dvd x" using blks_bounds [OF b(1), of x True] by simp
  then show "4 dvd p" using b(2) q(1) x(2) by simp
  show "12 \<le> p" using q(1) x(2) by simp
  have "q + n \<le> heap_size h" using live_bounds [of "hdr h" 0 bs "heap_size h" q n] q(2) b(1) x(1) by simp
  then show "p + n < 2 ^ 32" using b(3) q(1) by simp
qed

lemma mem_view_bytes: "mem_view h A \<Longrightarrow> mem_view (h\<lparr>heap_bytes := c\<rparr>) A"
  by (auto simp: mem_view_def heap_inv_bytes)

text \<open>An allocation, in terms of the blocks in use.\<close>

lemma malloc_view:
  assumes "mem_view h A" "unat n + 3 < 2 ^ 32"
  obtains "rt_malloc n h = Some (RT_NULL, h)"
  | p m h' where "rt_malloc n h = Some (p, h')" "unat n \<le> m" "\<And>k. (p, k) \<notin> A" "mem_view h' (insert (p, m) A)" "heap_bytes h' = heap_bytes h" "p \<noteq> RT_NULL"
proof -
  obtain bs where bs: "heap_inv h bs" "A = (\<lambda>(q, n). (heap_ptr h + q, n)) ` set (live bs (heap_size h))" using assms(1) by (auto simp: mem_view_def)
  show thesis
  proof (rule rt_malloc_live [OF bs(1) assms(2)])
    assume "rt_malloc n h = Some (RT_NULL, h)"
    then show thesis by (rule that(1))
  next
    fix q m h' bs'
    assume a: "rt_malloc n h = Some (heap_ptr h + q, h')" "heap_inv h' bs'" "unat n \<le> m" "12 \<le> q"
      "set (live bs' (heap_size h)) = insert (q, m) (set (live bs (heap_size h)))" "\<And>k. (q, k) \<notin> set (live bs (heap_size h))"
      "same_area h h'" "heap_bytes h' = heap_bytes h"
    have e: "heap_ptr h' = heap_ptr h" "heap_size h' = heap_size h" using a(7) same_area_size [OF a(7)] by (simp_all add: same_area_def)
    have "mem_view h' (insert (heap_ptr h + q, m) A)" using mem_view_inv [OF a(2)] a(5) bs(2) e by simp
    moreover have "(heap_ptr h + q, k) \<notin> A" for k using a(6) bs(2) by auto
    ultimately show thesis using that(2) [of "heap_ptr h + q" h' m] a(1,3,4,8) by auto
  qed
qed

lemma free_view:
  assumes "mem_view h A" "(p, n) \<in> A"
  obtains h' where "rt_free p h = Some h'" "heap_bytes h' = heap_bytes h" "mem_view h' (A - {(p, n)})"
  using small_mem.release_back [OF assms] by blast

section \<open>Words in memory\<close>

lemma load32_store32: "load32 (store32 a w m) a = w"
proof (rule bit_word_eqI)
  fix n assume "n < LENGTH(32)"
  then have "n < 32" by simp
  then consider "n < 8" | "8 \<le> n" "n < 16" | "16 \<le> n" "n < 24" | "24 \<le> n" "n < 32" by linarith
  then show "bit (load32 (store32 a w m) a) n = bit w n"
    by cases (auto simp: load32_def store32_def bit_simps)
qed

lemma load32_cong:
  assumes "\<And>j. j < 4 \<Longrightarrow> m (a + j) = m' (a + j)"
  shows "load32 m a = load32 m' a"
  using assms [of 0] assms [of 1] assms [of 2] assms [of 3] by (simp add: load32_def)

section \<open>Properties\<close>

lemma str_at_cong: "(\<And>i. i \<le> length s \<Longrightarrow> m (p + i) = m' (q + i)) \<Longrightarrow> str_at m p s = str_at m' q s"
  by (auto simp: str_at_def)

text \<open>
  \<^verbatim>\<open>rt_calloc\<close> finds no memory, or returns a new block that begins with as many zero bytes as the product of its arguments says (modulo \<open>2^32\<close>);
  the bytes of other blocks stay.
\<close>

theorem rt_calloc_zeroes:
  assumes v: "mem_view h A" and n: "unat (n * k) + 3 < 2 ^ 32"
  shows "rt_calloc n k h = Some (RT_NULL, h) \<or>
    (\<exists>p m h'. rt_calloc n k h = Some (p, h') \<and> mem_view h' (insert (p, m) A) \<and> (p, m) \<notin> A \<and> unat (n * k) \<le> m \<and>
       (\<forall>j < unat (n * k). heap_bytes h' (p + j) = 0) \<and> (\<forall>(q, l) \<in> A. \<forall>j < l. heap_bytes h' (q + j) = heap_bytes h (q + j)))"
proof (rule malloc_view [OF v n])
  assume "rt_malloc (n * k) h = Some (RT_NULL, h)"
  then show ?thesis by (simp add: rt_calloc_def)
next
  fix p m h'
  assume a: "rt_malloc (n * k) h = Some (p, h')" "unat (n * k) \<le> m" "\<And>l. (p, l) \<notin> A" "mem_view h' (insert (p, m) A)" "heap_bytes h' = heap_bytes h" "p \<noteq> RT_NULL"
  let ?h = "heap_memset p 0 (unat (n * k)) h'"
  have b: "heap_bytes ?h = fill p (unat (n * k)) 0 (heap_bytes h)" by (simp add: heap_memset_def rt_memset_fills a(5))
  have "heap_bytes ?h (q + j) = heap_bytes h (q + j)" if "(q, l) \<in> A" "j < l" for q l j
  proof -
    have "(p, m) \<noteq> (q, l)" using that(1) a(3) by blast
    then have "p + m \<le> q \<or> q + l \<le> p" using small_mem.separate [OF a(4) insertI1 insertI2 [OF that(1)]] by blast
    then have "\<not> (p \<le> q + j \<and> q + j < p + unat (n * k))" using that(2) a(2) by linarith
    then show ?thesis unfolding b fill_def by (rule if_not_P)
  qed
  moreover have "mem_view ?h (insert (p, m) A)" using mem_view_bytes [OF a(4)] by (simp add: heap_memset_def)
  moreover have "rt_calloc n k h = Some (p, ?h)" using a(1,6) by (simp add: rt_calloc_def)
  moreover have "\<forall>j < unat (n * k). heap_bytes ?h (p + j) = 0" by (simp add: b fill_def)
  ultimately show ?thesis using a(2,3) by blast
qed

text \<open>
  \<^verbatim>\<open>rt_strdup\<close> of a string in a block in use finds no memory, or returns a new block with the same string, and the old one is as it was.
\<close>

theorem rt_strdup_copies:
  assumes v: "mem_view h A" "(p, n) \<in> A" and s: "str_at (heap_bytes h) s str" "p \<le> s" "s + length str < p + n" "length str + 4 < 2 ^ 32"
  shows "rt_strdup s h = Some (RT_NULL, h) \<or>
    (\<exists>q m h'. rt_strdup s h = Some (q, h') \<and> mem_view h' (insert (q, m) A) \<and> length str < m \<and> (q, m) \<notin> A \<and>
       str_at (heap_bytes h') q str \<and> str_at (heap_bytes h') s str)"
proof -
  have u: "unat (of_nat (length str + 1) :: u32) = length str + 1" using s(4) by (subst unat_of_nat) simp
  note d = rt_strdup_def [of s h] rt_strlen_str [OF s(1)]
  show ?thesis
  proof (rule malloc_view [OF v(1), of "of_nat (length str + 1)"])
    show "unat (of_nat (length str + 1) :: u32) + 3 < 2 ^ 32" unfolding u using s(4) by simp
  next
    assume "rt_malloc (of_nat (length str + 1)) h = Some (RT_NULL, h)"
    then show ?thesis using d by simp
  next
    fix q m h'
    assume a: "rt_malloc (of_nat (length str + 1)) h = Some (q, h')" "unat (of_nat (length str + 1) :: u32) \<le> m" "\<And>k. (q, k) \<notin> A"
      "mem_view h' (insert (q, m) A)" "heap_bytes h' = heap_bytes h" "q \<noteq> RT_NULL"
    have m: "length str + 1 \<le> m" using a(2) u by simp
    have apart: "p + n \<le> q \<or> q + m \<le> p" using small_mem.separate [OF a(4), of p n q m] v(2) a(3) by auto
    let ?h = "heap_memcpy q s (length str + 1) h'"
    have b: "heap_bytes ?h = transfer q s (length str + 1) (heap_bytes h)"
      using apart m s(2,3) a(5) rt_memcpy_transfers [of s q "length str + 1" "heap_bytes h"] by (auto simp: heap_memcpy_def)
    have "rt_strdup s h = Some (q, ?h)" using d a(1,6) by simp
    moreover have "mem_view ?h (insert (q, m) A)" using mem_view_bytes [OF a(4)] by (simp add: heap_memcpy_def)
    moreover have "str_at (heap_bytes ?h) q str"
      using s(1) unfolding b by (subst str_at_cong [where m' = "heap_bytes h" and q = s]) (auto simp: transfer_def)
    moreover have "str_at (heap_bytes ?h) s str"
      using s apart m unfolding b by (subst str_at_cong [where m' = "heap_bytes h" and q = s]) (auto simp: transfer_def)
    ultimately show ?thesis using m a(3) by (intro disjI2 exI [of _ q] exI [of _ m] exI [of _ ?h]) auto
  qed
qed

lemma demo_block:
  obtains h where "rt_malloc 100 demo_heap = Some (1016, h)" "mem_view h {(1016, 100)}"
proof -
  have k: "rounded 100 = 100" by (simp add: rounded_def rt_align4_def)
  obtain h where h: "rt_malloc 100 demo_heap = Some (1016, h)" "heap_inv h [(0, True), (112, False)]" "same_area demo_heap h"
    using malloc_one_block [OF demo_heap(2,3), of 100] demo_heap(4,5) by (auto simp: k split_tail_def)
  have "heap_size h = 3984" "heap_ptr h = 1004" using same_area_size [OF h(3)] h(3) demo_heap(4,5) by (simp_all add: same_area_def)
  then have "mem_view h {(1016, 100)}" using mem_view_inv [OF h(2)] by simp
  with h(1) show thesis by (rule that)
qed

theorem rt_strdup_copies_witness:
  "\<exists>h A. mem_view h A \<and> str_at (heap_bytes h) 1020 [82, 84] \<and> (rt_strdup 1020 h = Some (RT_NULL, h) \<or>
     (\<exists>q m h'. rt_strdup 1020 h = Some (q, h') \<and> mem_view h' (insert (q, m) A) \<and> str_at (heap_bytes h') q [82, 84]))"
proof -
  obtain h where "mem_view h {(1016, 100)}" using demo_block by blast
  then have v: "mem_view (h\<lparr>heap_bytes := (\<lambda>_. 0)(1020 := 82, 1021 := 84)\<rparr>) {(1016, 100)}" by (rule mem_view_bytes)
  then show ?thesis using rt_strdup_copies [OF v, of 1016 100 1020 "[82, 84]"]
    by (intro exI [of _ "h\<lparr>heap_bytes := (\<lambda>_. 0)(1020 := 82, 1021 := 84)\<rparr>"] exI [of _ "{(1016, 100)}"]) auto
qed

lemma unat_pow2: "k < 32 \<Longrightarrow> unat ((2 :: u32) ^ k) = 2 ^ k"
proof -
  assume "k < 32"
  then have "(2 :: nat) ^ k < 2 ^ 32" by (intro power_strict_increasing) simp_all
  then have "unat (of_nat (2 ^ k) :: u32) = 2 ^ k" by (subst unat_of_nat) simp
  then show ?thesis by simp
qed

lemma unat_mask_u32: "k < 32 \<Longrightarrow> unat (mask k :: u32) = 2 ^ k - 1"
proof -
  assume k: "k < 32"
  then have "(1 :: u32) \<le> 2 ^ k" using unat_pow2 [OF k] by (simp add: word_le_nat_alt)
  then show ?thesis using unat_pow2 [OF k] by (simp add: mask_eq_exp_minus_1 unat_sub)
qed

text \<open>The address that \<^verbatim>\<open>rt_malloc_align\<close> returns for a block at \<open>q\<close>: the next multiple of \<open>2^k\<close> behind \<open>q\<close>.\<close>

definition aligned_up :: "nat \<Rightarrow> nat \<Rightarrow> nat" where
  "aligned_up k q = (q div 2 ^ k + 1) * 2 ^ k"

lemma aligned_up: "2 ^ k dvd aligned_up k q" "q < aligned_up k q" "aligned_up k q \<le> q + 2 ^ k"
proof -
  have d: "q div 2 ^ k * 2 ^ k + q mod 2 ^ k = q" "q mod 2 ^ k < 2 ^ k" by (rule div_mult_mod_eq) simp
  show "2 ^ k dvd aligned_up k q" by (simp add: aligned_up_def)
  have "aligned_up k q = q div 2 ^ k * 2 ^ k + 2 ^ k" by (simp add: aligned_up_def)
  then show "q < aligned_up k q" "aligned_up k q \<le> q + 2 ^ k" using d by linarith+
qed

lemma align_ptr:
  assumes k: "k < 32" and q: "q + 2 ^ k < 2 ^ 32"
  shows "unat (if of_nat q AND (mask k :: u32) = 0 then of_nat q + 2 ^ k else (of_nat q + mask k :: u32) AND NOT (mask k)) = aligned_up k q"
proof -
  let ?p = "of_nat q :: u32"
  have u: "unat ?p = q" using q by (simp add: unat_of_nat)
  have t: "unat (?p AND mask k) = q mod 2 ^ k"
    unfolding take_bit_eq_mask [symmetric] unsigned_take_bit_eq u by (simp add: take_bit_eq_mod)
  have d: "q div 2 ^ k * 2 ^ k + q mod 2 ^ k = q" "q mod 2 ^ k < 2 ^ k" by (rule div_mult_mod_eq) simp
  show ?thesis
  proof (cases "q mod 2 ^ k = 0")
    case True
    then have "?p AND mask k = 0" using t by (simp add: unat_eq_0)
    moreover have "unat (?p + 2 ^ k) = q + 2 ^ k" using q u unat_pow2 [OF k] by (simp add: unat_word_ariths)
    ultimately show ?thesis using d(1) True by (simp add: aligned_up_def add.commute)
  next
    case False
    have "unat (?p + mask k) = q + (2 ^ k - 1)" using q u unat_mask_u32 [OF k] by (simp add: unat_word_ariths)
    then have "unat ((?p + mask k) AND NOT (mask k)) = (q + (2 ^ k - 1)) div 2 ^ k * 2 ^ k"
      by (simp add: unat_align_mask minus_mod_eq_div_mult)
    also have "(q + (2 ^ k - 1)) div 2 ^ k = q div 2 ^ k + 1"
    proof -
      have "(q div 2 ^ k + 1) * 2 ^ k = q div 2 ^ k * 2 ^ k + 2 ^ k" "(1 :: nat) \<le> 2 ^ k" by simp_all
      then have "q + (2 ^ k - 1) = (q div 2 ^ k + 1) * 2 ^ k + (q mod 2 ^ k - 1)" using d(1) False by linarith
      moreover have "q mod 2 ^ k - 1 < 2 ^ k" using d(2) by linarith
      ultimately show ?thesis by (metis add.commute div_mult_self3 div_less add_0 power_not_zero zero_neq_numeral)
    qed
    moreover have "?p AND mask k \<noteq> 0" using t False by auto
    ultimately show ?thesis by (simp add: aligned_up_def)
  qed
qed

text \<open>
  C10. \<^verbatim>\<open>rt_malloc_align\<close> for an alignment of \<open>2^k\<close>, at least 4, returns an address with this alignment inside a new block that reaches to the
  end of the bytes asked for, and \<^verbatim>\<open>rt_free_align\<close> gives exactly this block back, as long as the word in front of the address is left alone.
\<close>

theorem rt_malloc_align_free:
  assumes v: "mem_view h A" and k: "2 \<le> k" "k < 32" and sz: "unat sz + 2 ^ k + 6 < 2 ^ 32"
  shows "rt_malloc_align sz (2 ^ k) h = Some (RT_NULL, h) \<or>
    (\<exists>p q m h'. rt_malloc_align sz (2 ^ k) h = Some (p, h') \<and> 2 ^ k dvd p \<and> q + 4 \<le> p \<and> p + unat sz \<le> q + m \<and> (\<forall>n. (q, n) \<notin> A) \<and>
       mem_view h' (insert (q, m) A) \<and>
       (\<forall>h2 B. mem_view h2 B \<and> (q, m) \<in> B \<and> (\<forall>j < 4. heap_bytes h2 (p - 4 + j) = heap_bytes h' (p - 4 + j)) \<longrightarrow>
         (\<exists>h3. rt_free_align p h2 = Some h3 \<and> mem_view h3 (B - {(q, m)}))))"
proof -
  have p4: "(4 :: nat) \<le> 2 ^ k" "4 dvd (2 :: nat) ^ k" using power_increasing [of 2 k "2 :: nat"] le_imp_power_dvd [of 2 k "2 :: nat"] k(1) by simp_all
  have p2: "unat ((2 :: u32) ^ k) = 2 ^ k" by (rule unat_pow2 [OF k(2)])
  have al: "((2 :: u32) ^ k + 3) AND NOT 3 = 2 ^ k"
  proof -
    have "unat ((2 :: u32) ^ k + 3) = 2 ^ k + 3" using p2 sz by (simp add: unat_word_ariths)
    then have "unat (((2 :: u32) ^ k + 3) AND NOT 3) = 2 ^ k + 3 - (2 ^ k + 3) mod 4" by (simp only: unat_align_down)
    then have "unat (((2 :: u32) ^ k + 3) AND NOT 3) = unat ((2 :: u32) ^ k)" using p2 p4 by presburger
    then show ?thesis by (simp only: word_unat_eq_iff)
  qed
  have "unat (sz + 3) = unat sz + 3" using sz by (simp add: unat_word_ariths)
  then have "unat ((sz + 3) AND NOT 3) = unat sz + 3 - (unat sz + 3) mod 4" by (simp only: unat_align_down)
  then have s4: "unat sz \<le> unat ((sz + 3) AND NOT 3)" "unat ((sz + 3) AND NOT 3) \<le> unat sz + 3" by presburger+
  define n where "n = ((sz + 3) AND NOT 3) + 2 ^ k"
  have n: "unat n = unat ((sz + 3) AND NOT 3) + 2 ^ k" using s4 sz p2 unfolding n_def by (subst unat_plus_if') simp
  have d: "rt_malloc_align sz (2 ^ k) h = do {
       (ptr, h) \<leftarrow> rt_malloc n h;
       if ptr \<noteq> RT_NULL then
         (let align_ptr = (if of_nat ptr AND (mask k :: u32) = 0 then of_nat ptr + 2 ^ k else (of_nat ptr + mask k :: u32) AND NOT (mask k))
          in Some (unat align_ptr, h\<lparr>heap_bytes := store32 (unat align_ptr - 4) (of_nat ptr) (heap_bytes h)\<rparr>))
       else Some (RT_NULL, h) }"
    unfolding rt_malloc_align_def al Let_def n_def mask_eq_exp_minus_1 ..
  show ?thesis
  proof (rule malloc_view [OF v, of n])
    show "unat n + 3 < 2 ^ 32" using n s4 sz by simp
  next
    assume "rt_malloc n h = Some (RT_NULL, h)"
    then show ?thesis unfolding d by simp
  next
    fix q m h'
    assume a: "rt_malloc n h = Some (q, h')" "unat n \<le> m" "\<And>k. (q, k) \<notin> A" "mem_view h' (insert (q, m) A)" "heap_bytes h' = heap_bytes h" "q \<noteq> RT_NULL"
    note b = view_bounds [OF a(4), of q m]
    let ?p = "aligned_up k q" let ?h = "h'\<lparr>heap_bytes := store32 (?p - 4) (of_nat q) (heap_bytes h')\<rparr>"
    have q: "4 dvd q" "q + m < 2 ^ 32" using b by simp_all
    have uq: "unat (of_nat q :: u32) = q" using q(2) by (subst unat_of_nat) simp
    have q2: "q + 2 ^ k < 2 ^ 32" using q(2) a(2) n by linarith
    have e: "rt_malloc_align sz (2 ^ k) h = Some (?p, ?h)"
      unfolding d using a(1,6) align_ptr [OF k(2) q2] by (simp add: Let_def)
    note u = aligned_up [where k = k and q = q]
    have "4 dvd ?p" using u(1) p4(2) by (rule dvd_trans [rotated])
    then have p: "q + 4 \<le> ?p" using u(2) q(1) by presburger
    moreover have "?p + unat sz \<le> q + m" using u(3) a(2) n s4(1) by linarith
    moreover have "mem_view ?h (insert (q, m) A)" by (rule mem_view_bytes [OF a(4)])
    moreover have "\<exists>h3. rt_free_align ?p h2 = Some h3 \<and> mem_view h3 (B - {(q, m)})"
      if "mem_view h2 B" "(q, m) \<in> B" "\<forall>j < 4. heap_bytes h2 (?p - 4 + j) = heap_bytes ?h (?p - 4 + j)" for h2 B
    proof -
      have "load32 (heap_bytes h2) (?p - 4) = load32 (heap_bytes ?h) (?p - 4)" using that(3) by (intro load32_cong) auto
      then have "unat (load32 (heap_bytes h2) (?p - 4)) = q" by (simp add: load32_store32 uq)
      then show ?thesis using p free_view [OF that(1,2)] by (auto simp: rt_free_align_def)
    qed
    ultimately show ?thesis using e u(1) a(3) by (intro disjI2 exI [of _ ?p] exI [of _ q] exI [of _ m] exI [of _ ?h]) auto
  qed
qed

theorem rt_malloc_align_free_witness:
  "\<exists>p h' q m. rt_malloc_align 100 16 demo_heap = Some (p, h') \<and> p \<noteq> RT_NULL \<and> 16 dvd p \<and> mem_view h' {(q, m)} \<and>
     (\<exists>h3. rt_free_align p h' = Some h3 \<and> mem_view h3 {})"
proof -
  have v: "mem_view demo_heap {}" using fresh_view [OF demo_heap(1)] by (simp add: demo_heap_def)
  have k: "rounded 116 = 116" by (simp add: rounded_def rt_align4_def)
  obtain h where "rt_malloc 116 demo_heap = Some (1016, h)"
    using malloc_one_block [OF demo_heap(2,3), of 116] demo_heap(4,5) by (auto simp: k)
  then have nn: "\<not> rt_malloc_align 100 16 demo_heap = Some (RT_NULL, demo_heap)" by (simp add: rt_malloc_align_def)
  then obtain p q m h' where a: "rt_malloc_align 100 16 demo_heap = Some (p, h')" "16 dvd p" "q + 4 \<le> p" "mem_view h' {(q, m)}"
    "\<forall>h2 B. mem_view h2 B \<and> (q, m) \<in> B \<and> (\<forall>j < 4. heap_bytes h2 (p - 4 + j) = heap_bytes h' (p - 4 + j)) \<longrightarrow>
         (\<exists>h3. rt_free_align p h2 = Some h3 \<and> mem_view h3 (B - {(q, m)}))"
    using rt_malloc_align_free [OF v, of 4 100] by auto
  have "\<exists>h3. rt_free_align p h' = Some h3 \<and> mem_view h3 ({(q, m)} - {(q, m)})" using a(5) a(4) by blast
  then show ?thesis using a by auto
qed

end
