(* ===== verification/RT_Printf.thy ===== *)
theory RT_Printf
  imports RT_Kservice
begin

text \<open>
  The formatted output of \<^verbatim>\<open>src/kservice.c\<close>: \<^verbatim>\<open>print_number\<close>, \<^verbatim>\<open>rt_vsnprintf\<close> and the functions on top of it, with \<^verbatim>\<open>RT_PRINTF_PRECISION\<close> and
  without \<^verbatim>\<open>RT_PRINTF_LONGLONG\<close> and \<^verbatim>\<open>RT_PRINTF_SPECIAL\<close>, as in this source. The code writes through a pointer that runs on behind the end of
  the buffer; it is compared with the text that a format stands for (\<open>format_text\<close>). The text shares with the code how a directive is split into flags,
  width, precision and qualifier (\<open>scan_directive\<close>, \<open>number_format\<close>, \<open>number_sign\<close>); what it specifies apart from the code is the output: digits, sign, padding and the
  bounds of the buffer. The strings that \<^verbatim>\<open>%s\<close> arguments point to are a map of their own, so the buffer does not overlap them.
\<close>

section \<open>Output\<close>

text \<open>The pointer \<^verbatim>\<open>str\<close> and the memory it points to; a character is stored only in front of \<^verbatim>\<open>end\<close>.\<close>

type_synonym out = "ptr \<times> (ptr \<Rightarrow> char)"

fun put_char :: "ptr \<Rightarrow> char \<Rightarrow> out \<Rightarrow> out" where
  "put_char e c (p, m) = (p + 1, if p < e then m(p := c) else m)"

text \<open>The three forms of padding loop: \<^verbatim>\<open>while (size-- > 0)\<close>, \<^verbatim>\<open>while (--width > 0)\<close> and \<^verbatim>\<open>while (len < width--)\<close>.\<close>

function pad_loop :: "ptr \<Rightarrow> char \<Rightarrow> int \<Rightarrow> out \<Rightarrow> int \<times> out" where
  "pad_loop e c sz out = (if sz > 0 then pad_loop e c (sz - 1) (put_char e c out) else (sz - 1, out))"
  by pat_completeness auto
termination by (relation "measure (\<lambda>(e, c, sz, out). nat sz)") auto

function pad_char_loop :: "ptr \<Rightarrow> int \<Rightarrow> out \<Rightarrow> int \<times> out" where
  "pad_char_loop e width out =
    (let width = width - 1 in if width > 0 then pad_char_loop e width (put_char e CHR '' '' out) else (width, out))"
  by pat_completeness auto
termination by (relation "measure (\<lambda>(e, width, out). nat width)") auto

function pad_string_loop :: "ptr \<Rightarrow> int \<Rightarrow> int \<Rightarrow> out \<Rightarrow> int \<times> out" where
  "pad_string_loop e len width out =
    (if len < width then pad_string_loop e len (width - 1) (put_char e CHR '' '' out) else (width - 1, out))"
  by pat_completeness auto
termination by (relation "measure (\<lambda>(e, len, width, out). nat (width - len))") auto

declare pad_loop.simps [simp del] pad_char_loop.simps [simp del] pad_string_loop.simps [simp del]

fun put_chars :: "ptr \<Rightarrow> string \<Rightarrow> out \<Rightarrow> out" where
  "put_chars e [] out = out"
| "put_chars e (c # s) out = put_chars e s (put_char e c out)"

section \<open>Numbers\<close>

abbreviation (input) ZEROPAD :: u8 where "ZEROPAD \<equiv> 1"
abbreviation (input) SIGN :: u8 where "SIGN \<equiv> 2"
abbreviation (input) PLUS :: u8 where "PLUS \<equiv> 4"
abbreviation (input) SPACE :: u8 where "SPACE \<equiv> 8"
abbreviation (input) LEFT :: u8 where "LEFT \<equiv> 16"
abbreviation (input) SPECIAL :: u8 where "SPECIAL \<equiv> 32"
abbreviation (input) LARGE :: u8 where "LARGE \<equiv> 64"

text \<open>\<^verbatim>\<open>divide\<close>: the remainder, and the quotient that it leaves in \<^verbatim>\<open>*n\<close>.\<close>

definition divide :: "nat \<Rightarrow> nat \<Rightarrow> nat \<times> nat" where
  "divide n base = (if base = 10 then (n mod 10, n div 10) else (n mod 16, n div 16))"

definition digits_of :: "u8 \<Rightarrow> string" where
  "digits_of flags = (if flags AND LARGE \<noteq> 0 then ''0123456789ABCDEF'' else ''0123456789abcdef'')"

text \<open>The buffer \<^verbatim>\<open>tmp\<close>, lowest digit first.\<close>

function tmp_digits :: "string \<Rightarrow> nat \<Rightarrow> nat \<Rightarrow> string" where
  "tmp_digits digits base n =
    (if n \<noteq> 0 then digits ! fst (divide n base) # tmp_digits digits base (snd (divide n base)) else [])"
  by pat_completeness auto
termination by (relation "measure (\<lambda>(digits, base, n). n)") (auto simp: divide_def)

declare tmp_digits.simps [simp del]

fun put_tmp :: "ptr \<Rightarrow> string \<Rightarrow> nat \<Rightarrow> out \<Rightarrow> out" where
  "put_tmp e tmp 0 out = out"
| "put_tmp e tmp (Suc i) out = put_tmp e tmp i (put_char e (tmp ! i) out)"

definition number_sign :: "u8 \<Rightarrow> u32 \<Rightarrow> char \<times> u32" where
  "number_sign type num =
    (if type AND SIGN \<noteq> 0 then
       (if sint num < 0 then (CHR ''-'', - num)
        else if type AND PLUS \<noteq> 0 then (CHR ''+'', num)
        else if type AND SPACE \<noteq> 0 then (CHR '' '', num)
        else (NUL, num))
     else (NUL, num))"

definition print_number :: "ptr \<Rightarrow> u32 \<Rightarrow> nat \<Rightarrow> int \<Rightarrow> int \<Rightarrow> u8 \<Rightarrow> out \<Rightarrow> out" where
  "print_number e num base s precision type out =
    (let precision_bak = precision; sz = s;
         digits = digits_of type;
         type = (if type AND LEFT \<noteq> 0 then type AND NOT ZEROPAD else type);
         c = (if type AND ZEROPAD \<noteq> 0 then CHR ''0'' else CHR '' '');
         (sign, num) = number_sign type num;
         tmp = (if num = 0 then ''0'' else tmp_digits digits base (unat num));
         i = int (length tmp);
         precision = (if i > precision then i else precision);
         sz = sz - precision;
         (sz, out) = (if type AND (ZEROPAD OR LEFT) = 0
           then pad_loop e CHR '' '' (if sign \<noteq> NUL \<and> sz > 0 then sz - 1 else sz) out else (sz, out));
         (sz, out) = (if sign \<noteq> NUL then (sz - 1, put_char e sign out) else (sz, out));
         (sz, out) = (if type AND LEFT = 0 then pad_loop e c sz out else (sz, out));
         (_, out) = pad_loop e CHR ''0'' (precision - i) out;
         out = (if precision_bak \<noteq> 0 then put_tmp e tmp (length tmp) out else out);
         (_, out) = pad_loop e CHR '' '' sz out
     in out)"

section \<open>Formats\<close>

definition isdigit :: "char \<Rightarrow> bool" where
  "isdigit c \<longleftrightarrow> 48 \<le> (of_char c :: nat) \<and> (of_char c :: nat) < 58"

fun skip_atoi :: "string \<Rightarrow> int \<Rightarrow> int \<times> string" where
  "skip_atoi [] i = (i, [])"
| "skip_atoi (c # fmt) i = (if isdigit c then skip_atoi fmt (i * 10 + of_char c - 48) else (i, c # fmt))"

fun scan_flags :: "string \<Rightarrow> u8 \<Rightarrow> u8 \<times> string" where
  "scan_flags [] flags = (flags, [])"
| "scan_flags (c # fmt) flags =
    (if c = CHR ''-'' then scan_flags fmt (flags OR LEFT)
     else if c = CHR ''+'' then scan_flags fmt (flags OR PLUS)
     else if c = CHR '' '' then scan_flags fmt (flags OR SPACE)
     else if c = CHR ''#'' then scan_flags fmt (flags OR SPECIAL)
     else if c = CHR ''0'' then scan_flags fmt (flags OR ZEROPAD)
     else (flags, c # fmt))"

text \<open>The arguments are 32-bit words; to take one that was not passed has no defined result.\<close>

fun va_arg :: "u32 list \<Rightarrow> (u32 \<times> u32 list) option" where
  "va_arg [] = None"
| "va_arg (a # args) = Some (a, args)"

definition scan_width :: "string \<Rightarrow> u8 \<Rightarrow> u32 list \<Rightarrow> (int \<times> u8 \<times> string \<times> u32 list) option" where
  "scan_width fmt flags args =
    (if isdigit (cchar fmt) then (let (width, fmt) = skip_atoi fmt 0 in Some (width, flags, fmt, args))
     else if cchar fmt = CHR ''*'' then do {
       (a, args) \<leftarrow> va_arg args;
       let width = sint a;
       if width < 0 then Some (- width, flags OR LEFT, tl fmt, args) else Some (width, flags, tl fmt, args) }
     else Some (-1, flags, fmt, args))"

definition scan_precision :: "string \<Rightarrow> u32 list \<Rightarrow> (int \<times> string \<times> u32 list) option" where
  "scan_precision fmt args =
    (if cchar fmt = CHR ''.'' then
       (let fmt = tl fmt in do {
         (precision, fmt, args) \<leftarrow>
           (if isdigit (cchar fmt) then (let (precision, fmt) = skip_atoi fmt 0 in Some (precision, fmt, args))
            else if cchar fmt = CHR ''*'' then do { (a, args) \<leftarrow> va_arg args; Some (sint a, tl fmt, args) }
            else Some (-1, fmt, args));
         Some (if precision < 0 then 0 else precision, fmt, args) })
     else Some (-1, fmt, args))"

definition scan_qualifier :: "string \<Rightarrow> char \<times> string" where
  "scan_qualifier fmt = (if cchar fmt = CHR ''h'' \<or> cchar fmt = CHR ''l'' then (cchar fmt, tl fmt) else (NUL, fmt))"

definition scan_directive :: "string \<Rightarrow> u32 list \<Rightarrow> (u8 \<times> int \<times> int \<times> char \<times> string \<times> u32 list) option" where
  "scan_directive fmt args = do {
     let (flags, fmt) = scan_flags fmt 0;
     (width, flags, fmt, args) \<leftarrow> scan_width fmt flags args;
     (precision, fmt, args) \<leftarrow> scan_precision fmt args;
     let (qualifier, fmt) = scan_qualifier fmt;
     Some (flags, width, precision, qualifier, fmt, args) }"

text \<open>The argument of an integer conversion.\<close>

definition number_arg :: "char \<Rightarrow> u8 \<Rightarrow> u32 \<Rightarrow> u32" where
  "number_arg qualifier flags a =
    (if qualifier = CHR ''h'' then
       (let num = ucast a :: u16 in if flags AND SIGN \<noteq> 0 then word_of_int (sint num) else ucast num)
     else a)"

text \<open>What the \<^verbatim>\<open>switch\<close> finds for the conversion character: base and flags of an integer conversion.\<close>

definition number_format :: "char \<Rightarrow> u8 \<Rightarrow> (nat \<times> u8) option" where
  "number_format c flags =
    (if c = CHR ''o'' then Some (8, flags)
     else if c = CHR ''X'' then Some (16, flags OR LARGE)
     else if c = CHR ''x'' then Some (16, flags)
     else if c = CHR ''d'' \<or> c = CHR ''i'' then Some (10, flags OR SIGN)
     else if c = CHR ''u'' then Some (10, flags)
     else None)"

definition convert_char :: "ptr \<Rightarrow> u8 \<Rightarrow> int \<Rightarrow> u32 \<Rightarrow> out \<Rightarrow> out" where
  "convert_char e flags width a out =
    (let (width, out) = (if flags AND LEFT = 0 then pad_char_loop e width out else (width, out));
         out = put_char e (char_of (unat a mod 256)) out;
         (_, out) = pad_char_loop e width out
     in out)"

definition convert_string :: "(ptr \<Rightarrow> string) \<Rightarrow> ptr \<Rightarrow> u8 \<Rightarrow> int \<Rightarrow> int \<Rightarrow> u32 \<Rightarrow> out \<Rightarrow> out" where
  "convert_string strings e flags width precision a out =
    (let s = (if a = 0 then ''(NULL)'' else strings (unat a));
         len = int (length s);
         len = (if precision > 0 \<and> len > precision then precision else len);
         (width, out) = (if flags AND LEFT = 0 then pad_string_loop e len width out else (width, out));
         out = put_chars e (take (nat len) s) out;
         (_, out) = pad_string_loop e len width out
     in out)"

definition convert :: "(ptr \<Rightarrow> string) \<Rightarrow> ptr \<Rightarrow> char \<Rightarrow> u8 \<Rightarrow> int \<Rightarrow> int \<Rightarrow> char \<Rightarrow> u32 list \<Rightarrow> out \<Rightarrow> (u32 list \<times> out) option" where
  "convert strings e c flags width precision qualifier args out =
    (if c = CHR ''c'' then do { (a, args) \<leftarrow> va_arg args; Some (args, convert_char e flags width a out) }
     else if c = CHR ''s'' then do { (a, args) \<leftarrow> va_arg args; Some (args, convert_string strings e flags width precision a out) }
     else if c = CHR ''p'' then do {
       let (width, flags) = (if width = -1 then (8, flags OR ZEROPAD) else (width, flags));
       (a, args) \<leftarrow> va_arg args;
       Some (args, print_number e a 16 width precision flags out) }
     else if c = CHR ''%'' then Some (args, put_char e CHR ''%'' out)
     else case number_format c flags of
       Some (base, flags) \<Rightarrow> do {
         (a, args) \<leftarrow> va_arg args;
         Some (args, print_number e (number_arg qualifier flags a) base width precision flags out) }
     | None \<Rightarrow> Some (args, let out = put_char e CHR ''%'' out in if c \<noteq> NUL then put_char e c out else out))"

lemma skip_atoi_length: "length (snd (skip_atoi fmt i)) \<le> length fmt"
  by (induction fmt i rule: skip_atoi.induct) (simp_all add: le_SucI)

lemma scan_flags_length: "length (snd (scan_flags fmt flags)) \<le> length fmt"
  by (induction fmt flags rule: scan_flags.induct) (simp_all add: le_SucI)

lemma scan_width_length: "scan_width fmt flags args = Some (w, f, fmt', args') \<Longrightarrow> length fmt' \<le> length fmt"
  using skip_atoi_length [of fmt 0] by (auto simp: scan_width_def bind_eq_Some_conv Let_def split: prod.splits if_splits)

lemma scan_precision_length: "scan_precision fmt args = Some (p, fmt', args') \<Longrightarrow> length fmt' \<le> length fmt"
  using skip_atoi_length [of "tl fmt" 0]
  by (auto simp: scan_precision_def bind_eq_Some_conv Let_def split: prod.splits if_splits)

lemma scan_directive_length:
  assumes "scan_directive fmt args = Some (flags, width, precision, qualifier, fmt', args')"
  shows "length fmt' \<le> length fmt"
proof -
  obtain f2 fmt2 args2 p fmt3 args3 where s: "scan_width (snd (scan_flags fmt 0)) (fst (scan_flags fmt 0)) args = Some (width, f2, fmt2, args2)"
    "scan_precision fmt2 args2 = Some (p, fmt3, args3)" "fmt' = snd (scan_qualifier fmt3)"
    using assms unfolding scan_directive_def by (auto simp: bind_eq_Some_conv Let_def split_beta)
  have "length fmt2 \<le> length (snd (scan_flags fmt 0))" by (rule scan_width_length [OF s(1)])
  also note scan_flags_length
  finally have "length fmt2 \<le> length fmt" .
  moreover have "length fmt3 \<le> length fmt2" by (rule scan_precision_length [OF s(2)])
  moreover have "length fmt' \<le> length fmt3" using s(3) by (simp add: scan_qualifier_def)
  ultimately show ?thesis by simp
qed

text \<open>The loop over the format; behind the \<^verbatim>\<open>switch\<close> the conversion character is passed, except at the end of the format.\<close>

function format_loop :: "(ptr \<Rightarrow> string) \<Rightarrow> ptr \<Rightarrow> string \<Rightarrow> u32 list \<Rightarrow> out \<Rightarrow> out option" where
  "format_loop strings e fmt args out =
    (if cchar fmt = NUL then Some out
     else if cchar fmt \<noteq> CHR ''%'' then format_loop strings e (tl fmt) args (put_char e (cchar fmt) out)
     else case scan_directive (tl fmt) args of
       None \<Rightarrow> None
     | Some (flags, width, precision, qualifier, fmt, args) \<Rightarrow>
         (case convert strings e (cchar fmt) flags width precision qualifier args out of
            None \<Rightarrow> None
          | Some (args, out) \<Rightarrow> format_loop strings e (tl fmt) args out))"
  by pat_completeness auto
termination
proof (relation "measure (\<lambda>(strings, e, fmt, args, out). length fmt)", goal_cases)
  case (2 strings e fmt args out)
  then show ?case by (cases fmt) simp_all
next
  case (3 strings e fmt args out)
  then show ?case using scan_directive_length [of "tl fmt" args] by (cases fmt) fastforce+
qed simp

definition rt_vsnprintf :: "(ptr \<Rightarrow> string) \<Rightarrow> ptr \<Rightarrow> nat \<Rightarrow> string \<Rightarrow> u32 list \<Rightarrow> (ptr \<Rightarrow> char) \<Rightarrow> (nat \<times> (ptr \<Rightarrow> char)) option" where
  "rt_vsnprintf strings buf sz fmt args m =
    (let e = (buf + sz) mod 2 ^ 32;
         (e, sz) = (if e < buf then (2 ^ 32 - 1, 2 ^ 32 - 1 - buf) else (e, sz)) in do {
       (str, m) \<leftarrow> format_loop strings e fmt args (buf, m);
       let m = (if sz > 0 then (if str < e then m(str := NUL) else m(e - 1 := NUL)) else m);
       Some (str - buf, m) })"

definition rt_snprintf :: "(ptr \<Rightarrow> string) \<Rightarrow> ptr \<Rightarrow> nat \<Rightarrow> string \<Rightarrow> u32 list \<Rightarrow> (ptr \<Rightarrow> char) \<Rightarrow> (nat \<times> (ptr \<Rightarrow> char)) option" where
  "rt_snprintf strings buf sz fmt args m = rt_vsnprintf strings buf sz fmt args m"

definition rt_vsprintf :: "(ptr \<Rightarrow> string) \<Rightarrow> ptr \<Rightarrow> string \<Rightarrow> u32 list \<Rightarrow> (ptr \<Rightarrow> char) \<Rightarrow> (nat \<times> (ptr \<Rightarrow> char)) option" where
  "rt_vsprintf strings buf fmt args m = rt_vsnprintf strings buf (2 ^ 32 - 1) fmt args m"

definition rt_sprintf :: "(ptr \<Rightarrow> string) \<Rightarrow> ptr \<Rightarrow> string \<Rightarrow> u32 list \<Rightarrow> (ptr \<Rightarrow> char) \<Rightarrow> (nat \<times> (ptr \<Rightarrow> char)) option" where
  "rt_sprintf strings buf fmt args m = rt_vsprintf strings buf fmt args m"

text \<open>\<^verbatim>\<open>rt_kprintf\<close> with a console device: the bytes of \<^verbatim>\<open>rt_log_buf\<close> that \<^verbatim>\<open>rt_device_write\<close> is given. The size of the buffer is the default of the source.\<close>

abbreviation (input) RT_CONSOLEBUF_SIZE :: nat where "RT_CONSOLEBUF_SIZE \<equiv> 128"

definition rt_kprintf :: "(ptr \<Rightarrow> string) \<Rightarrow> ptr \<Rightarrow> string \<Rightarrow> u32 list \<Rightarrow> (ptr \<Rightarrow> char) \<Rightarrow> (string \<times> (ptr \<Rightarrow> char)) option" where
  "rt_kprintf strings rt_log_buf fmt args m = do {
     (len, m) \<leftarrow> rt_vsnprintf strings rt_log_buf (RT_CONSOLEBUF_SIZE - 1) fmt args m;
     let len = (if len > RT_CONSOLEBUF_SIZE - 1 then RT_CONSOLEBUF_SIZE - 1 else len);
     Some (map (\<lambda>i. m (rt_log_buf + i)) [0..<len], m) }"

section \<open>The text of a format\<close>

text \<open>The digits of a number, highest first.\<close>

fun radix_text :: "string \<Rightarrow> nat \<Rightarrow> nat \<Rightarrow> string" where
  "radix_text digits b n = (if n < b \<or> b < 2 then [digits ! n] else radix_text digits b (n div b) @ [digits ! (n mod b)])"

declare radix_text.simps [simp del]

definition spaces :: "int \<Rightarrow> string" where "spaces n = replicate (nat n) CHR '' ''"
definition zeros :: "int \<Rightarrow> string" where "zeros n = replicate (nat n) CHR ''0''"

definition number_text :: "u32 \<Rightarrow> nat \<Rightarrow> int \<Rightarrow> int \<Rightarrow> u8 \<Rightarrow> string" where
  "number_text num base width precision flags =
    (let (sign, num) = number_sign flags num;
         sgn = (if sign = NUL then [] else [sign]);
         ds = radix_text (digits_of flags) (if base = 10 then 10 else 16) (unat num);
         body = zeros (precision - int (length ds)) @ (if precision = 0 then [] else ds);
         gap = width - max (int (length ds)) precision - int (length sgn)
     in if flags AND LEFT \<noteq> 0 then sgn @ body @ spaces gap
        else if flags AND ZEROPAD \<noteq> 0 then sgn @ zeros gap @ body
        else spaces gap @ sgn @ body)"

definition char_text :: "u8 \<Rightarrow> int \<Rightarrow> u32 \<Rightarrow> string" where
  "char_text flags width a =
    (if flags AND LEFT = 0 then spaces (width - 1) @ [char_of (unat a mod 256)] else [char_of (unat a mod 256)] @ spaces (width - 1))"

definition string_text :: "(ptr \<Rightarrow> string) \<Rightarrow> u8 \<Rightarrow> int \<Rightarrow> int \<Rightarrow> u32 \<Rightarrow> string" where
  "string_text strings flags width precision a =
    (let s = (if a = 0 then ''(NULL)'' else strings (unat a)); s = (if precision > 0 then take (nat precision) s else s);
         gap = width - int (length s)
     in if flags AND LEFT = 0 then spaces gap @ s else s @ spaces gap)"

definition directive_text :: "(ptr \<Rightarrow> string) \<Rightarrow> char \<Rightarrow> u8 \<Rightarrow> int \<Rightarrow> int \<Rightarrow> char \<Rightarrow> u32 list \<Rightarrow> (string \<times> u32 list) option" where
  "directive_text strings c flags width precision qualifier args =
    (if c = CHR ''c'' then map_option (\<lambda>(a, args). (char_text flags width a, args)) (va_arg args)
     else if c = CHR ''s'' then map_option (\<lambda>(a, args). (string_text strings flags width precision a, args)) (va_arg args)
     else if c = CHR ''p'' then map_option (\<lambda>(a, args).
       (if width = -1 then number_text a 16 8 precision (flags OR ZEROPAD) else number_text a 16 width precision flags, args)) (va_arg args)
     else if c = CHR ''%'' then Some (''%'', args)
     else case number_format c flags of
       Some (base, flags) \<Rightarrow> map_option (\<lambda>(a, args). (number_text (number_arg qualifier flags a) base width precision flags, args)) (va_arg args)
     | None \<Rightarrow> Some (if c = NUL then ''%'' else [CHR ''%'', c], args))"

function format_text :: "(ptr \<Rightarrow> string) \<Rightarrow> string \<Rightarrow> u32 list \<Rightarrow> string option" where
  "format_text strings fmt args =
    (if cchar fmt = NUL then Some []
     else if cchar fmt \<noteq> CHR ''%'' then map_option ((#) (cchar fmt)) (format_text strings (tl fmt) args)
     else case scan_directive (tl fmt) args of
       None \<Rightarrow> None
     | Some (flags, width, precision, qualifier, fmt, args) \<Rightarrow>
         (case directive_text strings (cchar fmt) flags width precision qualifier args of
            None \<Rightarrow> None
          | Some (t, args) \<Rightarrow> map_option ((@) t) (format_text strings (tl fmt) args)))"
  by pat_completeness auto
termination
proof (relation "measure (\<lambda>(strings, fmt, args). length fmt)", goal_cases)
  case (2 strings fmt args)
  then show ?case by (cases fmt) simp_all
next
  case (3 strings fmt args)
  then show ?case using scan_directive_length [of "tl fmt" args] by (cases fmt) fastforce+
qed simp

declare format_loop.simps [simp del] format_text.simps [simp del]

section \<open>What is written\<close>

lemma put_chars_append [simp]: "put_chars e (s @ t) out = put_chars e t (put_chars e s out)"
  by (induction s arbitrary: out) simp_all

text \<open>Characters at and behind \<^verbatim>\<open>end\<close> are counted but not stored.\<close>

lemma put_chars_eq:
  "put_chars e s (p, m) = (p + length s, \<lambda>a. if p \<le> a \<and> a < p + length s \<and> a < e then s ! (a - p) else m a)"
proof (induction s arbitrary: p m)
  case (Cons c s)
  have "put_chars e (c # s) (p, m) = put_chars e s (p + 1, if p < e then m(p := c) else m)" by simp
  also have "\<dots> = (p + length (c # s), \<lambda>a. if p \<le> a \<and> a < p + length (c # s) \<and> a < e then (c # s) ! (a - p) else m a)"
  proof -
    have "(if p + 1 \<le> a \<and> a < p + 1 + length s \<and> a < e then s ! (a - (p + 1)) else (if p < e then m(p := c) else m) a) =
      (if p \<le> a \<and> a < p + length (c # s) \<and> a < e then (c # s) ! (a - p) else m a)" for a
      by (cases "a = p") (auto simp: nth_Cons' le_eq_less_or_eq)
    then show ?thesis unfolding Cons.IH by (auto simp: fun_eq_iff)
  qed
  finally show ?case .
qed (auto simp: fun_eq_iff)

lemma pad_loop_eq: "pad_loop e c sz out = (if sz > 0 then -1 else sz - 1, put_chars e (replicate (nat sz) c) out)"
proof (induction e c sz out rule: pad_loop.induct)
  case (1 e c sz out)
  show ?case
  proof (cases "sz > 0")
    case True
    then have "nat sz = Suc (nat (sz - 1))" by simp
    then have r: "replicate (nat sz) c = c # replicate (nat (sz - 1)) c" by (simp only: replicate_Suc)
    show ?thesis using 1 True by (simp add: pad_loop.simps [of e c sz] r del: replicate_Suc)
  qed (simp add: pad_loop.simps)
qed

lemma pad_char_loop_eq: "pad_char_loop e w out = (if w > 0 then 0 else w - 1, put_chars e (spaces (w - 1)) out)"
proof (induction e w out rule: pad_char_loop.induct)
  case (1 e w out)
  show ?case
  proof (cases "w > 1")
    case True
    then have "nat (w - 1) = Suc (nat (w - 1 - 1))" by simp
    then have r: "spaces (w - 1) = CHR '' '' # spaces (w - 1 - 1)" by (simp only: spaces_def replicate_Suc)
    show ?thesis unfolding r using 1 True by (simp add: pad_char_loop.simps [of e w] Let_def)
  qed (simp add: pad_char_loop.simps spaces_def)
qed

lemma pad_string_loop_eq: "pad_string_loop e l w out = (if l < w then l - 1 else w - 1, put_chars e (spaces (w - l)) out)"
proof (induction e l w out rule: pad_string_loop.induct)
  case (1 e l w out)
  show ?case
  proof (cases "l < w")
    case True
    then have "nat (w - l) = Suc (nat (w - 1 - l))" by simp
    then have r: "spaces (w - l) = CHR '' '' # spaces (w - 1 - l)" by (simp only: spaces_def replicate_Suc)
    show ?thesis unfolding r using 1 True by (simp add: pad_string_loop.simps [of e l w])
  qed (simp add: pad_string_loop.simps spaces_def)
qed

lemma put_tmp_eq: "i \<le> length tmp \<Longrightarrow> put_tmp e tmp i out = put_chars e (rev (take i tmp)) out"
  by (induction e tmp i out rule: put_tmp.induct) (simp_all add: take_Suc_conv_app_nth)

section \<open>Numbers\<close>

lemma tmp_digits_text:
  "n \<noteq> 0 \<Longrightarrow> rev (tmp_digits digits base n) = radix_text digits (if base = 10 then 10 else 16) n"
proof (induction digits base n rule: tmp_digits.induct)
  case (1 digits base n)
  let ?b = "if base = 10 then 10 else 16 :: nat"
  have d: "divide n base = (n mod ?b, n div ?b)" by (simp add: divide_def)
  show ?case
  proof (cases "n < ?b")
    case True
    then have "n div ?b = 0" "n mod ?b = n" by auto
    then show ?thesis using 1(2) True
      by (subst tmp_digits.simps, subst radix_text.simps) (simp add: d tmp_digits.simps [of digits base 0] del: if_split)
  next
    case False
    then have "n div ?b \<noteq> 0" by (auto simp: div_eq_0_iff)
    then show ?thesis using 1 False by (subst tmp_digits.simps, subst radix_text.simps) (simp add: d)
  qed
qed

lemma mask_or_0: "x AND (a OR b) = 0 \<longleftrightarrow> x AND a = 0 \<and> x AND b = 0" for x :: u8
  by (auto simp: bit_eq_iff bit_simps)

lemma no_zeropad: "(x AND NOT 1) AND 1 = 0" "(x AND NOT 1) AND 16 = x AND 16" "number_sign (x AND NOT 1) n = number_sign x n" for x :: u8
proof -
  have m: "(x AND NOT 1) AND k = x AND (NOT 1 AND k)" for k by (simp only: and.assoc)
  show "(x AND NOT 1) AND 1 = 0" "(x AND NOT 1) AND 16 = x AND 16" unfolding m by simp_all
  show "number_sign (x AND NOT 1) n = number_sign x n" unfolding number_sign_def m by simp
qed

lemma print_number_text: "print_number e num base w p flags out = put_chars e (number_text num base w p flags) out"
proof -
  obtain sg n where sg: "number_sign flags num = (sg, n)" by (cases "number_sign flags num")
  define tmp where "tmp = (if n = 0 then ''0'' else tmp_digits (digits_of flags) base (unat n))"
  let ?ds = "radix_text (digits_of flags) (if base = 10 then 10 else 16) (unat n)"
  have ds: "rev tmp = ?ds"
  proof (cases "n = 0")
    case True
    have "digits_of flags ! 0 = CHR ''0''" by (simp add: digits_of_def)
    then show ?thesis using True by (subst radix_text.simps) (simp add: tmp_def)
  next
    case False
    then show ?thesis using tmp_digits_text [of "unat n" "digits_of flags" base] by (simp add: tmp_def unat_eq_0)
  qed
  then have len: "length tmp = length ?ds" by (metis length_rev)
  define ty where "ty = (if flags AND LEFT \<noteq> 0 then flags AND NOT ZEROPAD else flags)"
  have ty: "number_sign ty num = (sg, n)" "ty AND LEFT = flags AND LEFT"
    "ty AND ZEROPAD = (if flags AND LEFT \<noteq> 0 then 0 else flags AND ZEROPAD)"
    using sg no_zeropad by (simp_all only: ty_def split: if_split) simp_all
  note unfolds = print_number_def number_text_def Let_def ty_def [symmetric] ty(1) sg prod.case tmp_def [symmetric] mask_or_0 ty(2,3) ds [symmetric]
  consider "flags AND LEFT \<noteq> 0" | "flags AND LEFT = 0" "flags AND ZEROPAD \<noteq> 0" | "flags AND LEFT = 0" "flags AND ZEROPAD = 0" by blast
  then show ?thesis
  proof cases
    case 1
    then show ?thesis using len unfolding unfolds by (auto simp: pad_loop_eq put_tmp_eq spaces_def zeros_def)
  next
    case 2
    then show ?thesis using len unfolding unfolds by (auto simp: pad_loop_eq put_tmp_eq spaces_def zeros_def)
  next
    case 3
    then show ?thesis using len unfolding unfolds by (auto simp: pad_loop_eq put_tmp_eq spaces_def zeros_def)
  qed
qed

section \<open>Formats\<close>

lemma convert_char_text: "convert_char e flags width a out = put_chars e (char_text flags width a) out"
  by (simp add: convert_char_def char_text_def pad_char_loop_eq) (simp add: spaces_def)

lemma convert_string_text:
  "convert_string strings e flags width precision a out = put_chars e (string_text strings flags width precision a) out"
proof -
  define s where "s = (if a = 0 then ''(NULL)'' else strings (unat a))"
  define t where "t = (if precision > 0 then take (nat precision) s else s)"
  have len: "(if precision > 0 \<and> int (length s) > precision then precision else int (length s)) = int (length t)"
    by (auto simp: t_def)
  have t: "take (length t) s = t" by (auto simp: t_def min_def)
  show ?thesis
    unfolding convert_string_def string_text_def Let_def s_def [symmetric] t_def [symmetric] len nat_int t
    by (simp add: pad_string_loop_eq spaces_def)
qed

lemma convert_text:
  "convert strings e c flags width precision qualifier args out =
    map_option (\<lambda>(t, args). (args, put_chars e t out)) (directive_text strings c flags width precision qualifier args)"
proof -
  have va: "Option.bind (va_arg args) (\<lambda>(a, args). Some (args, put_chars e (g a) out)) =
      map_option (\<lambda>(t, args). (args, put_chars e t out)) (map_option (\<lambda>(a, args). (g a, args)) (va_arg args))" for g
    by (cases args) simp_all
  have vp: "do { let (width, flags) = (if width = -1 then (8, flags OR ZEROPAD) else (width, flags));
         (a, args) \<leftarrow> va_arg args; Some (args, print_number e a 16 width precision flags out) } =
      map_option (\<lambda>(t, args). (args, put_chars e t out)) (map_option (\<lambda>(a, args).
         (if width = -1 then number_text a 16 8 precision (flags OR ZEROPAD) else number_text a 16 width precision flags, args)) (va_arg args))"
    by (cases args) (simp_all add: print_number_text)
  show ?thesis
    unfolding convert_def directive_text_def convert_char_text convert_string_text print_number_text va vp
    by (cases "number_format c flags") (simp_all add: Let_def va [unfolded print_number_text] print_number_text split_beta)
qed

lemma format_loop_text:
  "format_loop strings e fmt args out = map_option (\<lambda>t. put_chars e t out) (format_text strings fmt args)"
proof (induction strings e fmt args out rule: format_loop.induct)
  case (1 strings e fmt args out)
  show ?case
  proof (cases "cchar fmt = NUL \<or> cchar fmt \<noteq> CHR ''%''")
    case True
    then show ?thesis using 1(1) by (subst format_loop.simps, subst format_text.simps) (auto simp: option.map_comp comp_def)
  next
    case False
    then show ?thesis using 1(2)
      by (subst format_loop.simps, subst format_text.simps)
        (auto simp: convert_text option.map_comp comp_def split: option.split)
  qed
qed

text \<open>A string written over the memory from an address on.\<close>

definition write_at :: "ptr \<Rightarrow> string \<Rightarrow> (ptr \<Rightarrow> char) \<Rightarrow> ptr \<Rightarrow> char" where
  "write_at p s m = (\<lambda>a. if p \<le> a \<and> a < p + length s then s ! (a - p) else m a)"

lemma terminated_write:
  assumes "0 < n" "put_chars (p + n) t (p, m) = (q, m')"
  shows "q = p + length t" "(if q < p + n then m'(q := NUL) else m'(p + n - 1 := NUL)) = write_at p (take (n - 1) t @ [NUL]) m"
proof -
  have e: "q = p + length t" "m' = (\<lambda>a. if p \<le> a \<and> a < p + length t \<and> a < p + n then t ! (a - p) else m a)"
    using assms(2) by (auto simp: put_chars_eq)
  show "q = p + length t" by (rule e(1))
  show "(if q < p + n then m'(q := NUL) else m'(p + n - 1 := NUL)) = write_at p (take (n - 1) t @ [NUL]) m"
    using assms(1) unfolding e by (auto simp: write_at_def fun_eq_iff nth_append min_def)
qed

text \<open>
  C24. \<^verbatim>\<open>rt_vsnprintf\<close> writes the text of the format, cut so that it fits with a terminating NUL, and returns the length of the whole text; no byte
  outside of the buffer changes. It fails only when an argument is missing.
\<close>

theorem rt_vsnprintf_refines:
  assumes "buf + sz < 2 ^ 32"
  shows "rt_vsnprintf strings buf sz fmt args m =
    map_option (\<lambda>t. (length t, if sz = 0 then m else write_at buf (take (sz - 1) t @ [NUL]) m)) (format_text strings fmt args)"
proof (cases "format_text strings fmt args")
  case None
  then show ?thesis using assms by (simp add: rt_vsnprintf_def format_loop_text)
next
  case (Some t)
  obtain q m' where p: "put_chars (buf + sz) t (buf, m) = (q, m')" by (cases "put_chars (buf + sz) t (buf, m)")
  then have mm: "m' = (\<lambda>a. if buf \<le> a \<and> a < buf + length t \<and> a < buf + sz then t ! (a - buf) else m a)" by (auto simp: put_chars_eq)
  have z: "sz = 0 \<Longrightarrow> m' = m" unfolding mm by (auto simp: fun_eq_iff)
  have q: "q = buf + length t" using p by (simp add: put_chars_eq)
  show ?thesis using Some assms p z q terminated_write [OF _ p]
    by (cases "sz = 0") (auto simp: rt_vsnprintf_def format_loop_text Let_def)
qed

text \<open>\<^verbatim>\<open>rt_sprintf\<close> and \<^verbatim>\<open>rt_vsprintf\<close> trust the buffer to be large enough.\<close>

lemma rt_sprintf_text:
  assumes "0 < buf" "buf < 2 ^ 32 - 1" "format_text strings fmt args = Some t" "buf + length t < 2 ^ 32 - 1"
  shows "rt_sprintf strings buf fmt args m = Some (length t, write_at buf (t @ [NUL]) m)"
proof -
  have e: "(buf + (2 ^ 32 - 1)) mod 2 ^ 32 = buf - 1" using assms(1,2) by (subst mod_if) simp
  define n where "n = 2 ^ 32 - 1 - buf"
  have n: "0 < n" "buf + n = 2 ^ 32 - 1" "length t < n" using assms(2,4) by (simp_all add: n_def)
  obtain q m' where p: "put_chars (buf + n) t (buf, m) = (q, m')" by (cases "put_chars (buf + n) t (buf, m)")
  have w: "q = buf + length t" "m'(q := NUL) = write_at buf (t @ [NUL]) m"
    using terminated_write [OF n(1) p] n(3) by simp_all
  have "rt_sprintf strings buf fmt args m = do {
      (str, m) \<leftarrow> Some (put_chars (buf + n) t (buf, m));
      Some (str - buf, if str < buf + n then m(str := NUL) else m(buf + n - 1 := NUL)) }"
    using assms(1,2,3) n(1) unfolding rt_sprintf_def rt_vsprintf_def rt_vsnprintf_def e n(2) n_def [symmetric]
    by (simp add: format_loop_text Let_def n_def split: prod.split)
  also have "\<dots> = Some (length t, write_at buf (t @ [NUL]) m)" using p w n(3) by simp
  finally show ?thesis .
qed

lemma read_write_at: "k \<le> length u \<Longrightarrow> map (\<lambda>i. write_at p u m (p + i)) [0..<k] = take k u"
  by (auto simp: write_at_def list_eq_iff_nth_eq)

text \<open>
  \<^verbatim>\<open>rt_kprintf\<close> hands the text to the console when it is shorter than 127 characters; a longer one is cut to 126, and the
  terminating NUL is sent as the last of 127 characters.
\<close>

theorem rt_kprintf_text:
  assumes "buf + 127 < 2 ^ 32" "format_text strings fmt args = Some t"
  shows "\<exists>m'. rt_kprintf strings buf fmt args m = Some (if length t < 127 then t else take 126 t @ [NUL], m')"
proof -
  let ?m = "write_at buf (take 126 t @ [NUL]) m"
  have v: "rt_vsnprintf strings buf 127 fmt args m = Some (length t, ?m)"
    using rt_vsnprintf_refines [OF assms(1), of strings fmt args m] assms(2) by simp
  have "map (\<lambda>i. ?m (buf + i)) [0..<min (length t) 127] = take (min (length t) 127) (take 126 t @ [NUL])"
    by (rule read_write_at) simp
  then have "map (\<lambda>i. ?m (buf + i)) [0..<min (length t) 127] = (if length t < 127 then t else take 126 t @ [NUL])"
    by (auto simp: min_def not_less split: if_splits)
  moreover have "(if length t > 127 then 127 else length t) = min (length t) 127" by simp
  moreover have "rt_kprintf strings buf fmt args m = Some (map (\<lambda>i. ?m (buf + i)) [0..<if length t > 127 then 127 else length t], ?m)"
    unfolding rt_kprintf_def using v by (simp add: Let_def)
  ultimately show ?thesis by simp
qed

section \<open>Reading numbers back\<close>

lemma radix_digits: "(\<And>i. i < b \<Longrightarrow> P (ds ! i)) \<Longrightarrow> 2 \<le> b \<Longrightarrow> c \<in> set (radix_text ds b n) \<Longrightarrow> P c"
proof (induction ds b n rule: radix_text.induct)
  case (1 ds b n)
  then have "n mod b < b" by simp
  then show ?case using 1 by (cases "n < b") (auto simp: radix_text.simps [of ds b n])
qed

text \<open>A string of digits followed by something else is read as the number it stands for.\<close>

lemma isdigit_digit: "i < 10 \<Longrightarrow> isdigit (''0123456789abcdef'' ! i) \<and> (of_char (''0123456789abcdef'' ! i) :: int) = 48 + int i"
proof -
  assume "i < 10"
  then have "i \<in> {0, 1, 2, 3, 4, 5, 6, 7, 8, 9}" by auto
  then show ?thesis by (auto simp: isdigit_def)
qed

lemma skip_atoi_append:
  "(\<And>c. c \<in> set s \<Longrightarrow> isdigit c) \<Longrightarrow> skip_atoi (s @ t) i = skip_atoi t (fst (skip_atoi s i))"
  by (induction s i rule: skip_atoi.induct) simp_all

lemma skip_atoi_radix: "skip_atoi (radix_text ''0123456789abcdef'' 10 n) 0 = (int n, [])"
proof (induction n rule: less_induct)
  case (less n)
  show ?case
  proof (cases "n < 10")
    case True
    then show ?thesis using isdigit_digit [OF True] by (subst radix_text.simps) simp
  next
    case False
    then have "n div 10 < n" by simp
    note ih = less.IH [OF this]
    have "isdigit c" if "c \<in> set (radix_text ''0123456789abcdef'' 10 (n div 10))" for c
      using radix_digits [where P = isdigit, OF _ _ that] isdigit_digit by simp
    note app = skip_atoi_append [OF this, of _ "[''0123456789abcdef'' ! (n mod 10)]" 0]
    have m: "n mod 10 < 10" by simp
    have "int (n div 10) * 10 + int (n mod 10) = int n" by (metis div_mult_mod_eq of_nat_add of_nat_mult of_nat_numeral)
    then show ?thesis
      using False isdigit_digit [OF m] app ih by (subst radix_text.simps) simp
  qed
qed

text \<open>Formats that consist of one directive.\<close>

lemma format_one:
  assumes "scan_directive fmt args = Some (flags, width, precision, qualifier, [c], args1)" "c \<noteq> NUL"
    "directive_text strings c flags width precision qualifier args1 = Some (t, args2)"
  shows "format_text strings (CHR ''%'' # fmt) args = Some t"
  using assms by (simp add: format_text.simps [of strings "CHR ''%'' # fmt"] format_text.simps [of strings "[]"])

lemmas scan_simps = scan_directive_def scan_width_def scan_precision_def scan_qualifier_def isdigit_def

lemma format_numbers:
  "format_text strings ''%d'' [n] = Some (number_text n 10 (-1) (-1) SIGN)"
  "format_text strings ''%u'' [n] = Some (number_text n 10 (-1) (-1) 0)"
  "format_text strings ''%x'' [n] = Some (number_text n 16 (-1) (-1) 0)"
  "format_text strings ''%o'' [n] = Some (number_text n 8 (-1) (-1) 0)"
  "format_text strings ''%.0u'' [n] = Some (number_text n 10 (-1) 0 0)"
  by (rule format_one, simp add: scan_simps, simp, simp add: directive_text_def number_format_def number_arg_def)+

lemma number_text_plain:
  "number_text n base (-1) (-1) 0 = radix_text ''0123456789abcdef'' (if base = 10 then 10 else 16) (unat n)"
  "number_text n base (-1) (-1) SIGN = (if sint n < 0 then CHR ''-'' # radix_text ''0123456789abcdef'' (if base = 10 then 10 else 16) (unat (- n))
     else radix_text ''0123456789abcdef'' (if base = 10 then 10 else 16) (unat n))"
  by (auto simp: number_text_def number_sign_def digits_of_def zeros_def spaces_def max_def)

lemma radix_length: "n < b ^ k \<Longrightarrow> 0 < k \<Longrightarrow> 2 \<le> b \<Longrightarrow> length (radix_text ds b n) \<le> k"
proof (induction ds b n arbitrary: k rule: radix_text.induct)
  case (1 ds b n)
  show ?case
  proof (cases "n < b")
    case True
    then show ?thesis using 1 by (simp add: radix_text.simps)
  next
    case False
    obtain j where j: "k = Suc j" using 1 by (cases k) auto
    have "0 < j" using False 1 j by (cases j) auto
    moreover have "n div b < b ^ j" using 1 j by (simp add: div_less_iff_less_mult mult.commute)
    ultimately show ?thesis using 1 False j by (simp add: radix_text.simps [of ds b n])
  qed
qed

text \<open>The buffer of 16 characters in \<^verbatim>\<open>print_number\<close> is large enough.\<close>

lemma tmp_digits_length: "length (tmp_digits digits base (unat n)) \<le> 10" for n :: u32
proof (cases "unat n = 0")
  case True
  then show ?thesis by (simp add: tmp_digits.simps)
next
  case False
  let ?b = "if base = 10 then 10 else 16 :: nat"
  have "unat n < 2 ^ 32" using unsigned_less [of n] by simp
  then have "unat n < ?b ^ 10" by (auto split: if_split)
  then have "length (rev (tmp_digits digits base (unat n))) \<le> 10"
    unfolding tmp_digits_text [OF False] by (intro radix_length) simp_all
  then show ?thesis by simp
qed

lemma sint_cases: "sint n = (if uint n < 2 ^ 31 then uint n else uint n - 2 ^ 32)" for n :: u32
proof -
  have u: "0 \<le> uint n" "uint n < 2 ^ 32" using uint_bounded [of n] by simp_all
  have b: "bit (uint n) 31 \<longleftrightarrow> \<not> uint n < 2 ^ 31"
  proof (cases "uint n < 2 ^ 31")
    case True
    then have "take_bit 31 (uint n) = uint n" using u by (simp add: take_bit_int_eq_self)
    moreover have "\<not> bit (take_bit 31 (uint n)) 31" by (simp add: bit_take_bit_iff)
    ultimately show ?thesis using True by simp
  next
    case False
    have "uint n div 2 ^ 31 = 1" by (rule int_div_pos_eq [where r = "uint n - 2 ^ 31"]) (use False u in simp_all)
    then show ?thesis using False unfolding bit_iff_odd by simp
  qed
  have "take_bit (Suc 31) (uint n) = uint n" using u by (intro take_bit_int_eq_self) simp_all
  then show ?thesis unfolding sint_uint using b by (simp add: signed_take_bit_eq_take_bit_minus)
qed

lemma sint_abs:
  fixes n :: u32
  shows "sint n < 0 \<Longrightarrow> int (unat (- n)) = - sint n" "\<not> sint n < 0 \<Longrightarrow> int (unat n) = sint n"
proof -
  have u: "0 \<le> uint n" "uint n < 2 ^ 32" using uint_bounded [of n] by simp_all
  show "int (unat (- n)) = - sint n" if "sint n < 0"
  proof -
    have "\<not> uint n < 2 ^ 31" using that u(1) by (auto simp: sint_cases split: if_splits)
    moreover from this have "uint (0 - n) = 2 ^ 32 - uint n" by (subst uint_sub_if') simp
    ultimately show ?thesis by (simp add: sint_cases)
  qed
  show "int (unat n) = sint n" if "\<not> sint n < 0"
    using that u by (auto simp: sint_cases split: if_splits)
qed

lemma text_12345: "format_text strings ''%u'' [12345] = Some ''12345''"
  unfolding format_numbers number_text_plain by (simp add: radix_text.simps)

theorem rt_vsnprintf_refines_witness:
  "\<exists>m. rt_vsnprintf (\<lambda>_. []) 100 4 ''%u'' [12345] (\<lambda>_. NUL) = Some (5, m) \<and> map (\<lambda>i. m (100 + i)) [0..<4] = ''123'' @ [NUL]"
proof -
  have "rt_vsnprintf (\<lambda>_. []) 100 4 ''%u'' [12345] (\<lambda>_. NUL) = Some (5, write_at 100 (''123'' @ [NUL]) (\<lambda>_. NUL))"
    using rt_vsnprintf_refines [of 100 4 "\<lambda>_. []" "''%u''" "[12345]" "\<lambda>_. NUL"] by (simp add: text_12345)
  then show ?thesis using read_write_at [of 4 "''123'' @ [NUL]" 100] by simp
qed

theorem rt_kprintf_text_witness: "\<exists>m. rt_kprintf (\<lambda>_. []) 100 ''%u'' [12345] (\<lambda>_. NUL) = Some (''12345'', m)"
  using rt_kprintf_text [of 100 "\<lambda>_. []" "''%u''" "[12345]" "''12345''" "\<lambda>_. NUL"] by (simp add: text_12345)

text \<open>
  C11. A number printed by \<^verbatim>\<open>rt_snprintf\<close> with \<^verbatim>\<open>%d\<close> fits in 12 bytes, and read by the digits it is the signed number printed.
\<close>

theorem rt_snprintf_decimal:
  assumes "buf + 12 < 2 ^ 32"
  shows "\<exists>t. rt_snprintf strings buf 12 ''%d'' [n] m = Some (length t, write_at buf (t @ [NUL]) m) \<and>
    (if sint n < 0 then hd t = CHR ''-'' \<and> skip_atoi (tl t) 0 = (- sint n, []) else skip_atoi t 0 = (sint n, []))"
proof -
  define t where "t = number_text n 10 (-1) (-1) SIGN"
  have l: "length (radix_text ''0123456789abcdef'' 10 (unat k)) \<le> 10" for k :: u32
  proof -
    have "unat k < 2 ^ 32" using unsigned_less [of k] by simp
    then show ?thesis by (intro radix_length) simp_all
  qed
  have "length t \<le> 11" using l [of n] l [of "- n"] by (simp add: t_def number_text_plain)
  then have "rt_snprintf strings buf 12 ''%d'' [n] m = Some (length t, write_at buf (t @ [NUL]) m)"
    using rt_vsnprintf_refines [OF assms, of strings "''%d''" "[n]" m] unfolding rt_snprintf_def format_numbers t_def [symmetric] by simp
  moreover have "if sint n < 0 then hd t = CHR ''-'' \<and> skip_atoi (tl t) 0 = (- sint n, []) else skip_atoi t 0 = (sint n, [])"
    by (simp add: t_def number_text_plain skip_atoi_radix sint_abs del: of_nat_unat)
  ultimately show ?thesis by blast
qed

theorem rt_snprintf_decimal_witness:
  "\<exists>t. rt_snprintf (\<lambda>_. []) 100 12 ''%d'' [-42] (\<lambda>_. NUL) = Some (length t, write_at 100 (t @ [NUL]) (\<lambda>_. NUL)) \<and>
     hd t = CHR ''-'' \<and> skip_atoi (tl t) 0 = (42, [])"
  using rt_snprintf_decimal [of 100 "\<lambda>_. []" "-42" "\<lambda>_. NUL"] by simp

text \<open>
  \<^verbatim>\<open>%o\<close> does not print octal digits: \<^verbatim>\<open>divide\<close> knows the bases 10 and 16 only, and the output is that of \<^verbatim>\<open>%x\<close>. And with a
  precision of 0 no digits of any number are printed.
\<close>

theorem rt_snprintf_octal:
  "rt_snprintf strings buf sz ''%o'' [n] m = rt_snprintf strings buf sz ''%x'' [n] m \<and>
   format_text strings ''%o'' [8] = Some ''8'' \<and> format_text strings ''%.0u'' [n] = Some []"
proof -
  have "format_text strings ''%o'' [k] = format_text strings ''%x'' [k]" for k
    unfolding format_numbers number_text_plain by simp
  then have "rt_snprintf strings buf sz ''%o'' [n] m = rt_snprintf strings buf sz ''%x'' [n] m"
    by (simp add: rt_snprintf_def rt_vsnprintf_def format_loop_text Let_def)
  moreover have "format_text strings ''%o'' [8] = Some ''8''" unfolding format_numbers number_text_plain by (simp add: radix_text.simps)
  moreover have "format_text strings ''%.0u'' [n] = Some []"
    unfolding format_numbers by (simp add: number_text_def number_sign_def zeros_def spaces_def)
  ultimately show ?thesis by blast
qed

end
