(* ===== verification/RT_Completion.thy ===== *)
theory RT_Completion
  imports RT_Mailbox
begin

text \<open>
  Completions of \<^verbatim>\<open>components/drivers/src/completion.c\<close>, with which a driver waits for an interrupt, and the state of the services for
  drivers (completions, data queues, work queues): their structures beside the kernel. Their wait lists belong to the family of lists of the kernel, under the address of the structure.
\<close>

section \<open>The structures\<close>

record rt_completion =
  comp_flag :: u32

abbreviation (input) RT_COMPLETED :: u32 where "RT_COMPLETED \<equiv> 1"
abbreviation (input) RT_UNCOMPLETED :: u32 where "RT_UNCOMPLETED \<equiv> 0"

text \<open>The items of a data queue are the cells of its memory, indexed from \<^verbatim>\<open>queue\<close>; \<^verbatim>\<open>waiting_lwm\<close> is not used by the code.\<close>

record rt_data_item =
  item_ptr :: ptr
  item_size :: u32

record rt_data_queue =
  dq_size :: u16
  dq_lwm :: u16
  dq_get_index :: u16
  dq_put_index :: u16
  dq_queue :: ptr
  dq_items :: "nat \<Rightarrow> rt_data_item"
  dq_evt_notify :: nat

text \<open>
  Work items and work queues. The nodes \<^verbatim>\<open>work->list\<close> form a family of lists of their own, one list per queue; \<open>delayed_queue\<close> is the field
  \<^verbatim>\<open>workqueue\<close> of the \<^verbatim>\<open>struct rt_delayed_work\<close> that starts with the work item.
\<close>

record rt_work =
  work_func :: nat
  work_data :: nat
  work_flags :: u16
  work_type :: u16

record rt_workqueue =
  work_current :: ptr
  work_thread :: ptr

record 'h drivers =
  completions :: "ptr \<Rightarrow> rt_completion"
  data_queues :: "ptr \<Rightarrow> rt_data_queue"
  workqueues :: "ptr \<Rightarrow> rt_workqueue"
  works :: "ptr \<Rightarrow> rt_work"
  delayed_queue :: "ptr \<Rightarrow> ptr"
  work_lists :: "(ptr, ptr) lists"
  kern :: "'h kernel"

section \<open>Operations\<close>

definition set_completion :: "ptr \<Rightarrow> u32 \<Rightarrow> 'h drivers \<Rightarrow> 'h drivers" where
  "set_completion c v d = d\<lparr>completions := (completions d)(c := (completions d c)\<lparr>comp_flag := v\<rparr>)\<rparr>"

definition wait_list_init :: "qhead \<Rightarrow> 'h kernel \<Rightarrow> 'h kernel option" where
  "wait_list_init h s = do {
     mem_ok (tlists s h = []);
     Some (init_queue h s) }"

definition rt_completion_init :: "ptr \<Rightarrow> 'h drivers \<Rightarrow> 'h drivers option" where
  "rt_completion_init c d = do {
     RT_ASSERT (c \<noteq> RT_NULL);
     let d = set_completion c RT_UNCOMPLETED d;
     s \<leftarrow> wait_list_init (WaitQ c) (kern d);
     Some (d\<lparr>kern := s\<rparr>) }"

definition rt_completion_wait :: "ptr \<Rightarrow> int \<Rightarrow> 'h drivers \<Rightarrow> ((rt_err_t, ptr) outcome \<times> 'h drivers) option" where
  "rt_completion_wait c timeout d = do {
     RT_ASSERT (c \<noteq> RT_NULL);
     let s = kern d;
     let thread = rt_thread_self s;
     if comp_flag (completions d c) \<noteq> RT_COMPLETED then do {
       RT_ASSERT (tlists s (WaitQ c) = []);
       if timeout = 0 then Some (Done (- RT_ETIMEOUT), d)
       else do {
         let s = set_error thread RT_EOK s;
         (_, s) \<leftarrow> rt_thread_suspend thread s;
         s \<leftarrow> link_back (WaitQ c) thread s;
         RT_ASSERT (not_in_interrupt s);
         s \<leftarrow> start_wait_timer thread timeout s;
         s \<leftarrow> rt_schedule s;
         Some (Blocked thread, d\<lparr>kern := s\<rparr>) } }
     else Some (Done RT_EOK, set_completion c RT_UNCOMPLETED d) }"

definition rt_completion_wait_resume :: "ptr \<Rightarrow> ptr \<Rightarrow> 'h drivers \<Rightarrow> rt_err_t \<times> 'h drivers" where
  "rt_completion_wait_resume c thread d = (terror (kern d) thread, set_completion c RT_UNCOMPLETED d)"

definition rt_completion_done :: "ptr \<Rightarrow> 'h drivers \<Rightarrow> 'h drivers option" where
  "rt_completion_done c d = do {
     RT_ASSERT (c \<noteq> RT_NULL);
     if comp_flag (completions d c) = RT_COMPLETED then Some d
     else do {
       let d = set_completion c RT_COMPLETED d;
       s \<leftarrow> wake_one (WaitQ c) (kern d);
       Some (d\<lparr>kern := s\<rparr>) } }"

section \<open>The scheduler invariant\<close>

lemma set_completion_view [simp]:
  "kern (set_completion c v d) = kern d" "data_queues (set_completion c v d) = data_queues d"
  "completions (set_completion c v d) = (completions d)(c := (completions d c)\<lparr>comp_flag := v\<rparr>)"
  by (simp_all add: set_completion_def)

text \<open>Suspending on a list in order of arrival is \<^verbatim>\<open>rt_ipc_list_suspend\<close> for a FIFO object.\<close>

lemma suspend_fifo_eq: "do { (_, s) \<leftarrow> rt_thread_suspend t s; link_back h t s } = rt_ipc_list_suspend h t RT_IPC_FLAG_FIFO s"
  by (simp add: rt_ipc_list_suspend_def)

lemma suspend_fifo_Some:
  "rt_thread_suspend t s = Some (e, u) \<Longrightarrow> link_back h t u = Some v \<Longrightarrow> rt_ipc_list_suspend h t RT_IPC_FLAG_FIFO s = Some v"
  by (simp add: rt_ipc_list_suspend_def)

lemma swf_wait_list_init: "wait_list_init h s = Some s' \<Longrightarrow> swf X s' = swf X s"
  by (auto simp: wait_list_init_def bind_eq_Some_conv swf_init_queue)

lemma swf_rt_completion:
  assumes s: "swf {} (kern d)"
  shows "rt_completion_init c d = Some d' \<Longrightarrow> swf {} (kern d')"
    and "tstat (kern d) (cur (kern d)) = 3 \<Longrightarrow> rt_completion_wait c time d = Some (r, d') \<Longrightarrow> swf {} (kern d')"
    and "swf {} (kern (snd (rt_completion_wait_resume c t d)))"
    and "rt_completion_done c d = Some d' \<Longrightarrow> swf {} (kern d')"
proof -
  show "swf {} (kern d')" if "rt_completion_init c d = Some d'"
    using that s by (auto simp: rt_completion_init_def Let_def bind_eq_Some_conv swf_wait_list_init)
  show "swf {} (kern d')" if t: "tstat (kern d) (cur (kern d)) = 3" and r: "rt_completion_wait c time d = Some (r, d')"
  proof (cases "d' = d \<or> d' = set_completion c RT_UNCOMPLETED d")
    case False
    let ?t = "cur (kern d)" let ?s = "set_error ?t RT_EOK (kern d)"
    obtain e u v w x where b: "rt_thread_suspend ?t ?s = Some (e, u)" "link_back (WaitQ c) ?t u = Some v"
      "start_wait_timer ?t time v = Some w" "rt_schedule w = Some x" "d' = d\<lparr>kern := x\<rparr>"
      using r False by (auto simp: rt_completion_wait_def Let_def bind_eq_Some_conv rt_thread_self_def split: if_splits)
    then show ?thesis using swf_block [OF suspend_fifo_Some [OF b(1,2)] b(3,4)] s t by simp
  qed (use s in auto)
  show "swf {} (kern d')" if "rt_completion_done c d = Some d'"
    using that s by (auto simp: rt_completion_done_def Let_def bind_eq_Some_conv split: if_splits intro: swf_wake_one)
qed (use s in \<open>simp add: rt_completion_wait_resume_def\<close>)

section \<open>Waiting and completing\<close>

text \<open>The running thread waits on a list in order of arrival, as in completions and data queues.\<close>

lemma fifo_wait_total:
  assumes s: "running s" and h: "wait_queue h" and time: "time < 0x7FFFFFFF"
  obtains e u v w s' where "rt_thread_suspend (cur s) (set_error (cur s) RT_EOK s) = Some (e, u)" "link_back h (cur s) u = Some v" "not_in_interrupt v"
    "start_wait_timer (cur s) time v = Some w" "rt_schedule w = Some s'" "swf {} s'" "ipc_frame s s'"
    "\<And>h'. not_ready_queue h' \<Longrightarrow> tlists s' h' = ((tlists s)(h := tlists s h @ [cur s])) h'" "tstat s' (cur s) = 2"
    "\<And>x. terror s' x = (if x = cur s then RT_EOK else terror s x)" "\<And>x. o_type (objs s' x) = o_type (objs s x)"
    "lock_nest s = 0 \<Longrightarrow> ready_group s \<noteq> 0 \<Longrightarrow> cur s' \<noteq> cur s \<and> tstat s' (cur s') = 3" "cur s' \<noteq> 0"
proof -
  let ?s = "set_error (cur s) RT_EOK s"
  note rs = runningD [OF s]
  have r: "swf {} ?s" "thread_ok ?s (cur ?s)" "tstat ?s (cur ?s) = 3"
    using rs thread_ok_cong [of ?s s] by simp_all
  obtain v w s' where w: "rt_ipc_list_suspend h (cur ?s) RT_IPC_FLAG_FIFO ?s = Some v" "start_wait_timer (cur ?s) time v = Some w" "rt_schedule w = Some s'"
    "swf {} s'" "ipc_frame ?s s'" "\<And>h'. not_ready_queue h' \<Longrightarrow> tlists s' h' = ((tlists ?s)(h := wait_insert RT_IPC_FLAG_FIFO (tprio ?s) (cur ?s) (tlists ?s h))) h'"
    "tstat s' (cur ?s) = 2" "\<And>x. terror s' x = terror ?s x" "\<And>x. o_type (objs s' x) = o_type (objs ?s x)"
    "lock_nest ?s = 0 \<Longrightarrow> ready_group ?s \<noteq> 0 \<Longrightarrow> cur s' \<noteq> cur ?s \<and> tstat s' (cur s') = 3" "cur s' \<noteq> 0"
    by (rule wait_total [OF r(1) h r(2,3) _ time, of RT_IPC_FLAG_FIFO]) blast+
  obtain e u where u: "rt_thread_suspend (cur s) ?s = Some (e, u)" "link_back h (cur s) u = Some v"
    using w(1) by (auto simp: rt_ipc_list_suspend_def bind_eq_Some_conv)
  have "ipc_frame ?s v" by (rule ipc_frame_list_ops(1) [OF w(1)])
  then have n: "not_in_interrupt v" using rs(5) by (simp add: not_in_interrupt_def ipc_frame_def)
  have f: "ipc_frame s s'" using ipc_frame_trans [OF ipc_frame_prims(2) w(5)] .
  show thesis
  proof (rule that [OF u n _ w(3,4) f])
    show "tlists s' h' = ((tlists s)(h := tlists s h @ [cur s])) h'" if "not_ready_queue h'" for h'
      using w(6) [OF that] by (simp add: wait_insert_def)
  qed (use w in simp_all)
qed

text \<open>A wait that blocks, and what the call that completes it does.\<close>

lemma rt_completion_wait_blocks:
  assumes s: "running (kern d)" and c: "c \<noteq> RT_NULL" "comp_flag (completions d c) \<noteq> RT_COMPLETED" "tlists (kern d) (WaitQ c) = []"
    and time: "time \<noteq> 0" "time < 0x7FFFFFFF"
  obtains d' where "rt_completion_wait c time d = Some (Blocked (cur (kern d)), d')" "swf {} (kern d')" "completions d' = completions d"
    "tlists (kern d') (WaitQ c) = [cur (kern d)]" "tstat (kern d') (cur (kern d)) = RT_THREAD_SUSPEND" "terror (kern d') (cur (kern d)) = RT_EOK"
    "thread_ok (kern d') (cur (kern d))" "cur (kern d') \<noteq> RT_NULL" "ipc_frame (kern d) (kern d')"
    "lock_nest (kern d) = 0 \<Longrightarrow> ready_group (kern d) \<noteq> 0 \<Longrightarrow> cur (kern d') \<noteq> cur (kern d)"
proof -
  let ?s = "kern d"
  obtain e u v w s' where w: "rt_thread_suspend (cur ?s) (set_error (cur ?s) RT_EOK ?s) = Some (e, u)" "link_back (WaitQ c) (cur ?s) u = Some v" "not_in_interrupt v"
    "start_wait_timer (cur ?s) time v = Some w" "rt_schedule w = Some s'" "swf {} s'" "ipc_frame ?s s'"
    "\<And>h'. not_ready_queue h' \<Longrightarrow> tlists s' h' = ((tlists ?s)(WaitQ c := tlists ?s (WaitQ c) @ [cur ?s])) h'" "tstat s' (cur ?s) = 2"
    "\<And>x. terror s' x = (if x = cur ?s then RT_EOK else terror ?s x)" "\<And>x. o_type (objs s' x) = o_type (objs ?s x)"
    "lock_nest ?s = 0 \<Longrightarrow> ready_group ?s \<noteq> 0 \<Longrightarrow> cur s' \<noteq> cur ?s \<and> tstat s' (cur s') = 3" "cur s' \<noteq> 0"
    by (rule fifo_wait_total [OF s wait_queue_simps(1) time(2)]) blast
  show thesis
  proof (rule that [of "d\<lparr>kern := s'\<rparr>"])
    show "rt_completion_wait c time d = Some (Blocked (cur ?s), d\<lparr>kern := s'\<rparr>)"
      using c time(1) w(1-5) by (simp add: rt_completion_wait_def Let_def rt_thread_self_def)
    show "thread_ok (kern (d\<lparr>kern := s'\<rparr>)) (cur ?s)" using thread_ok_types [OF w(11)] runningD(2) [OF s] by simp
    show "tlists (kern (d\<lparr>kern := s'\<rparr>)) (WaitQ c) = [cur ?s]" using w(8) [of "WaitQ c"] c(3) by simp
  qed (use w in simp_all)
qed

lemma rt_completion_done_wakes:
  assumes s: "swf {} (kern d)" "cur (kern d) \<noteq> RT_NULL" and c: "c \<noteq> RT_NULL" "comp_flag (completions d c) \<noteq> RT_COMPLETED"
    and q: "tlists (kern d) (WaitQ c) = [t]" and t: "thread_ok (kern d) t"
  obtains d' where "rt_completion_done c d = Some d'" "swf {} (kern d')" "completions d' = (completions d)(c := \<lparr>comp_flag = RT_COMPLETED\<rparr>)"
    "tlists (kern d') (WaitQ c) = []" "tstat (kern d') t = RT_THREAD_READY \<or> tstat (kern d') t = RT_THREAD_RUNNING"
    "terror (kern d') t = terror (kern d) t"
proof -
  let ?s = "kern d"
  obtain u s' where w: "rt_ipc_list_resume (WaitQ c) ?s = Some u" "rt_schedule u = Some s'" "swf {} s'"
    "\<And>h'. not_ready_queue h' \<Longrightarrow> tlists s' h' = ((tlists ?s)(WaitQ c := [])) h'" "tstat s' t = 1 \<or> tstat s' t = 3" "\<And>x. terror s' x = terror ?s x"
    by (rule wake_total [OF s(1) q wait_queue_simps(1) t s(2)]) blast
  show thesis
  proof (rule that [of "(set_completion c RT_COMPLETED d)\<lparr>kern := s'\<rparr>"])
    show "rt_completion_done c d = Some ((set_completion c RT_COMPLETED d)\<lparr>kern := s'\<rparr>)"
      using c q w(1,2) by (simp add: rt_completion_done_def wake_one_def Let_def)
    show "tlists (kern ((set_completion c RT_COMPLETED d)\<lparr>kern := s'\<rparr>)) (WaitQ c) = []" using w(4) [of "WaitQ c"] by simp
  qed (use w in \<open>simp_all add: fun_eq_iff\<close>)
qed

lemma rt_completion_done_idle:
  assumes "c \<noteq> RT_NULL" "comp_flag (completions d c) \<noteq> RT_COMPLETED" "tlists (kern d) (WaitQ c) = []"
  shows "rt_completion_done c d = Some (set_completion c RT_COMPLETED d)"
  using assms by (simp add: rt_completion_done_def wake_one_def Let_def set_completion_def)

section \<open>Properties\<close>

text \<open>
  A completion passes one signal. If \<^verbatim>\<open>rt_completion_done\<close> comes first, a wait returns \<^verbatim>\<open>RT_EOK\<close> at once and takes the flag; if the wait
  comes first, it blocks, \<^verbatim>\<open>rt_completion_done\<close> makes the waiting thread ready, and the wait returns \<^verbatim>\<open>RT_EOK\<close>, with the flag taken, when the
  thread runs again.
\<close>

theorem rt_completion_signals:
  assumes s: "running (kern d)" and c: "c \<noteq> RT_NULL" "comp_flag (completions d c) \<noteq> RT_COMPLETED" "tlists (kern d) (WaitQ c) = []"
    and time: "time \<noteq> 0" "time < 0x7FFFFFFF"
  shows "(\<exists>d1. rt_completion_done c d = Some d1 \<and> rt_completion_wait c time d1 = Some (Done RT_EOK, set_completion c RT_UNCOMPLETED d)) \<and>
    (\<exists>t d1 d2 d3. rt_completion_wait c time d = Some (Blocked t, d1) \<and> t = cur (kern d) \<and> tstat (kern d1) t = RT_THREAD_SUSPEND \<and>
      rt_completion_done c d1 = Some d2 \<and> (tstat (kern d2) t = RT_THREAD_READY \<or> tstat (kern d2) t = RT_THREAD_RUNNING) \<and>
      rt_completion_wait_resume c t d2 = (RT_EOK, d3) \<and> comp_flag (completions d3 c) = RT_UNCOMPLETED \<and> tlists (kern d3) (WaitQ c) = [])"
proof (rule conjI)
  have z: "set_completion c RT_UNCOMPLETED (set_completion c RT_COMPLETED d) = set_completion c RT_UNCOMPLETED d"
    by (simp add: set_completion_def)
  show "\<exists>d1. rt_completion_done c d = Some d1 \<and> rt_completion_wait c time d1 = Some (Done RT_EOK, set_completion c RT_UNCOMPLETED d)"
    using rt_completion_done_idle [OF c] c(1) z by (simp add: rt_completion_wait_def Let_def)
  obtain d1 where d1: "rt_completion_wait c time d = Some (Blocked (cur (kern d)), d1)" "swf {} (kern d1)" "completions d1 = completions d"
    "tlists (kern d1) (WaitQ c) = [cur (kern d)]" "tstat (kern d1) (cur (kern d)) = RT_THREAD_SUSPEND" "terror (kern d1) (cur (kern d)) = RT_EOK"
    "thread_ok (kern d1) (cur (kern d))" "cur (kern d1) \<noteq> RT_NULL"
    by (rule rt_completion_wait_blocks [OF s c time]) blast
  have f: "comp_flag (completions d1 c) \<noteq> RT_COMPLETED" using c(2) d1(3) by simp
  obtain d2 where "rt_completion_done c d1 = Some d2" "tlists (kern d2) (WaitQ c) = []"
    "tstat (kern d2) (cur (kern d)) = RT_THREAD_READY \<or> tstat (kern d2) (cur (kern d)) = RT_THREAD_RUNNING" "terror (kern d2) (cur (kern d)) = terror (kern d1) (cur (kern d))"
    by (rule rt_completion_done_wakes [OF d1(2,8) c(1) f d1(4,7)]) blast
  then show "\<exists>t d1 d2 d3. rt_completion_wait c time d = Some (Blocked t, d1) \<and> t = cur (kern d) \<and> tstat (kern d1) t = RT_THREAD_SUSPEND \<and>
      rt_completion_done c d1 = Some d2 \<and> (tstat (kern d2) t = RT_THREAD_READY \<or> tstat (kern d2) t = RT_THREAD_RUNNING) \<and>
      rt_completion_wait_resume c t d2 = (RT_EOK, d3) \<and> comp_flag (completions d3 c) = RT_UNCOMPLETED \<and> tlists (kern d3) (WaitQ c) = []"
    using d1(1,5,6) by (auto simp: rt_completion_wait_resume_def)
qed

text \<open>A driver state: thread 1 runs, the completion at 8 is in its initial state.\<close>

definition drivers_demo :: "unit drivers" where
  "drivers_demo = \<lparr>completions = (\<lambda>_. \<lparr>comp_flag = RT_UNCOMPLETED\<rparr>),
     data_queues = (\<lambda>_. \<lparr>dq_size = 0, dq_lwm = 0, dq_get_index = 0, dq_put_index = 0, dq_queue = RT_NULL,
       dq_items = (\<lambda>_. \<lparr>item_ptr = RT_NULL, item_size = 0\<rparr>), dq_evt_notify = 0\<rparr>),
     workqueues = (\<lambda>_. \<lparr>work_current = RT_NULL, work_thread = RT_NULL\<rparr>),
     works = (\<lambda>_. \<lparr>work_func = 0, work_data = 0, work_flags = 0, work_type = 0\<rparr>), delayed_queue = (\<lambda>_. RT_NULL), work_lists = (\<lambda>_. []),
     kern = ipc_demo 0\<rparr>"

lemma drivers_demo_view:
  "kern drivers_demo = ipc_demo 0" "completions drivers_demo 8 = \<lparr>comp_flag = RT_UNCOMPLETED\<rparr>"
  by (simp_all add: drivers_demo_def)

theorem rt_completion_signals_witness:
  "\<exists>d1 d2. rt_completion_wait 8 20 drivers_demo = Some (Blocked 1, d1) \<and> rt_completion_done 8 d1 = Some d2 \<and> fst (rt_completion_wait_resume 8 1 d2) = RT_EOK"
proof -
  have "running (kern drivers_demo)" "tlists (kern drivers_demo) (WaitQ 8) = []" "comp_flag (completions drivers_demo 8) \<noteq> RT_COMPLETED"
    by (simp_all add: drivers_demo_view ipc_demo_view)
  from rt_completion_signals [OF this(1) _ this(3,2), of 20] show ?thesis by (auto simp: drivers_demo_view ipc_demo_view)
qed

text \<open>
  C40. Two races of completions. A signal that comes after the time limit of a waiting thread, but before the thread runs, is lost: the
  wait returns \<^verbatim>\<open>-RT_ETIMEOUT\<close> and clears the flag all the same. And one signal can serve two waits: as the flag stays set until the thread
  that was woken runs, a wait by another thread in between returns \<^verbatim>\<open>RT_EOK\<close> too.
\<close>

theorem rt_completion_races:
  assumes s: "running (kern d)" and c: "c \<noteq> RT_NULL" "comp_flag (completions d c) \<noteq> RT_COMPLETED" "tlists (kern d) (WaitQ c) = []"
    and time: "time \<noteq> 0" "time < 0x7FFFFFFF"
  shows "\<exists>t d1. rt_completion_wait c time d = Some (Blocked t, d1) \<and>
    (\<exists>s2 d3 d4. rt_thread_timeout t (kern d1) = Some s2 \<and> rt_completion_done c (d1\<lparr>kern := s2\<rparr>) = Some d3 \<and>
       rt_completion_wait_resume c t d3 = (- RT_ETIMEOUT, d4) \<and> comp_flag (completions d4 c) = RT_UNCOMPLETED) \<and>
    (\<exists>d2 d3 d4. rt_completion_done c d1 = Some d2 \<and> rt_completion_wait c time' d2 = Some (Done RT_EOK, d3) \<and>
       rt_completion_wait_resume c t d3 = (RT_EOK, d4))"
proof -
  let ?t = "cur (kern d)"
  obtain d1 where d1: "rt_completion_wait c time d = Some (Blocked ?t, d1)" "swf {} (kern d1)" "completions d1 = completions d"
    "tlists (kern d1) (WaitQ c) = [?t]" "tstat (kern d1) ?t = RT_THREAD_SUSPEND" "terror (kern d1) ?t = RT_EOK"
    "thread_ok (kern d1) ?t" "cur (kern d1) \<noteq> RT_NULL"
    by (rule rt_completion_wait_blocks [OF s c time]) blast
  have f: "comp_flag (completions d1 c) \<noteq> RT_COMPLETED" using c(2) d1(3) by simp
  obtain s2 where s2: "rt_thread_timeout ?t (kern d1) = Some s2" "terror s2 ?t = - RT_ETIMEOUT"
    "\<And>h'. not_ready_queue h' \<Longrightarrow> tlists s2 h' = removeAll ?t (tlists (kern d1) h')"
    by (rule rt_thread_timeout_total [OF d1(2,7,5,8)]) blast
  let ?d2 = "d1\<lparr>kern := s2\<rparr>"
  have "comp_flag (completions ?d2 c) \<noteq> RT_COMPLETED" "tlists (kern ?d2) (WaitQ c) = []" using f s2(3) [of "WaitQ c"] d1(4) by simp_all
  then have lost: "rt_completion_done c ?d2 = Some (set_completion c RT_COMPLETED ?d2)" using rt_completion_done_idle [OF c(1)] by blast
  obtain d2 where d2: "rt_completion_done c d1 = Some d2" "completions d2 = (completions d1)(c := \<lparr>comp_flag = RT_COMPLETED\<rparr>)"
    "terror (kern d2) ?t = terror (kern d1) ?t"
    by (rule rt_completion_done_wakes [OF d1(2,8) c(1) f d1(4,7)]) blast
  then have "rt_completion_wait c time' d2 = Some (Done RT_EOK, set_completion c RT_UNCOMPLETED d2)"
    using c(1) by (simp add: rt_completion_wait_def Let_def)
  then show ?thesis using d1(1,6) s2(1,2) lost d2(1,3) by (simp add: rt_completion_wait_resume_def)
qed

theorem rt_completion_races_witness:
  "\<exists>d1 d2 d3. rt_completion_wait 8 20 drivers_demo = Some (Blocked 1, d1) \<and> rt_completion_done 8 d1 = Some d2 \<and>
     rt_completion_wait 8 0 d2 = Some (Done RT_EOK, d3) \<and> fst (rt_completion_wait_resume 8 1 d3) = RT_EOK"
proof -
  have v: "running (kern drivers_demo)" "tlists (kern drivers_demo) (WaitQ 8) = []" "comp_flag (completions drivers_demo 8) \<noteq> RT_COMPLETED" "cur (kern drivers_demo) = 1"
    by (simp_all add: drivers_demo_view ipc_demo_view)
  obtain d1 where "rt_completion_wait 8 20 drivers_demo = Some (Blocked (cur (kern drivers_demo)), d1)"
    by (rule rt_completion_wait_blocks [OF v(1) _ v(3,2), of 20]) simp_all
  with rt_completion_races [OF v(1) _ v(3,2), of 20 0] v(4) show ?thesis by fastforce
qed

end
