(* ===== verification/RT_Dataqueue.thy ===== *)
theory RT_Dataqueue
  imports RT_Completion
begin

text \<open>
  The data queues of \<^verbatim>\<open>components/drivers/src/dataqueue.c\<close>: a ring of pointers with their sizes, with a list of threads that wait to push
  and one of threads that wait to pop. The two indices count all pushes and pops in 16 bits; the ring is indexed by their remainders.
\<close>

section \<open>Operations\<close>

abbreviation (input) RT_DATAQUEUE_EVENT_POP :: nat where "RT_DATAQUEUE_EVENT_POP \<equiv> 1"
abbreviation (input) RT_DATAQUEUE_EVENT_PUSH :: nat where "RT_DATAQUEUE_EVENT_PUSH \<equiv> 2"
abbreviation (input) RT_DATAQUEUE_EVENT_LWM :: nat where "RT_DATAQUEUE_EVENT_LWM \<equiv> 3"

definition upd_dq :: "ptr \<Rightarrow> (rt_data_queue \<Rightarrow> rt_data_queue) \<Rightarrow> 'h drivers \<Rightarrow> 'h drivers" where
  "upd_dq q f d = d\<lparr>data_queues := (data_queues d)(q := f (data_queues d q))\<rparr>"

text \<open>\<^verbatim>\<open>sizeof(struct rt_data_item)\<close> is 8 on this board.\<close>

definition rt_data_queue_init :: "'h heap_ops \<Rightarrow> ptr \<Rightarrow> u16 \<Rightarrow> u16 \<Rightarrow> nat \<Rightarrow> 'h drivers \<Rightarrow> (rt_err_t \<times> 'h drivers) option" where
  "rt_data_queue_init H q sz lwm evt_notify d = do {
     RT_ASSERT (q \<noteq> RT_NULL);
     let d = upd_dq q (\<lambda>r. r\<lparr>dq_evt_notify := evt_notify, dq_size := sz, dq_lwm := lwm, dq_get_index := 0, dq_put_index := 0\<rparr>) d;
     s \<leftarrow> wait_list_init (SenderQ q) (kern d);
     s \<leftarrow> wait_list_init (WaitQ q) s;
     (p, h) \<leftarrow> kmalloc H (heap s) (8 * unat sz);
     let d = upd_dq q (\<lambda>r. r\<lparr>dq_queue := p\<rparr>) (d\<lparr>kern := s\<lparr>heap := h\<rparr>\<rparr>);
     Some (if p = RT_NULL then - RT_ENOMEM else RT_EOK, d) }"

text \<open>The tests compute in \<^verbatim>\<open>int\<close>, to which the 16-bit fields are promoted.\<close>

definition dq_full :: "rt_data_queue \<Rightarrow> bool" where
  "dq_full r \<longleftrightarrow> uint (dq_put_index r) - uint (dq_get_index r) = uint (dq_size r)"

definition dq_empty :: "rt_data_queue \<Rightarrow> bool" where
  "dq_empty r \<longleftrightarrow> dq_get_index r = dq_put_index r"

definition dq_store :: "rt_data_item \<Rightarrow> rt_data_queue \<Rightarrow> rt_data_queue option" where
  "dq_store x r = do {
     mem_ok (dq_size r \<noteq> 0);
     let r = r\<lparr>dq_items := (dq_items r)(unat (dq_put_index r) mod unat (dq_size r) := x)\<rparr>;
     Some (r\<lparr>dq_put_index := dq_put_index r + 1\<rparr>) }"

definition dq_front :: "rt_data_queue \<Rightarrow> rt_data_item option" where
  "dq_front r = do {
     mem_ok (dq_size r \<noteq> 0);
     Some (dq_items r (unat (dq_get_index r) mod unat (dq_size r))) }"

definition dq_fetch :: "rt_data_queue \<Rightarrow> (rt_data_item \<times> rt_data_queue) option" where
  "dq_fetch r = do {
     x \<leftarrow> dq_front r;
     Some (x, r\<lparr>dq_get_index := dq_get_index r + 1\<rparr>) }"

text \<open>The callback \<^verbatim>\<open>evt_notify\<close> is an application function, numbered from 1; \<open>user\<close> says what it does to the state.\<close>

type_synonym 'h evt_fns = "nat \<Rightarrow> ptr \<Rightarrow> nat \<Rightarrow> 'h drivers \<Rightarrow> 'h drivers option"

definition dq_notify :: "'h evt_fns \<Rightarrow> ptr \<Rightarrow> nat \<Rightarrow> 'h drivers \<Rightarrow> 'h drivers option" where
  "dq_notify user q event d =
    (let f = dq_evt_notify (data_queues d q) in if f \<noteq> 0 then user f q event d else Some d)"

text \<open>One round of the waiting loop of push and pop: up to \<^verbatim>\<open>rt_schedule\<close>.\<close>

definition dq_wait :: "qhead \<Rightarrow> ptr \<Rightarrow> int \<Rightarrow> 'h drivers \<Rightarrow> 'h drivers option" where
  "dq_wait h thread timeout d = do {
     let s = kern d;
     RT_ASSERT (not_in_interrupt s);
     let s = set_error thread RT_EOK s;
     (_, s) \<leftarrow> rt_thread_suspend thread s;
     s \<leftarrow> link_back h thread s;
     s \<leftarrow> start_wait_timer thread timeout s;
     s \<leftarrow> rt_schedule s;
     Some (d\<lparr>kern := s\<rparr>) }"

definition data_queue_push_loop ::
    "'h evt_fns \<Rightarrow> ptr \<Rightarrow> rt_data_item \<Rightarrow> ptr \<Rightarrow> int \<Rightarrow> 'h drivers \<Rightarrow> ((rt_err_t, ptr) outcome \<times> 'h drivers) option" where
  "data_queue_push_loop user q x thread timeout d =
    (if dq_full (data_queues d q) then
       if timeout = 0 then Some (Done (- RT_ETIMEOUT), d)
       else do {
         d \<leftarrow> dq_wait (SenderQ q) thread timeout d;
         Some (Blocked thread, d) }
     else do {
       r \<leftarrow> dq_store x (data_queues d q);
       let d = upd_dq q (\<lambda>_. r) d;
       if tlists (kern d) (WaitQ q) \<noteq> [] then do {
         s \<leftarrow> wake_one (WaitQ q) (kern d);
         Some (Done RT_EOK, d\<lparr>kern := s\<rparr>) }
       else do {
         d \<leftarrow> dq_notify user q RT_DATAQUEUE_EVENT_PUSH d;
         Some (Done RT_EOK, d) } })"

definition rt_data_queue_push ::
    "'h evt_fns \<Rightarrow> ptr \<Rightarrow> rt_data_item \<Rightarrow> int \<Rightarrow> 'h drivers \<Rightarrow> ((rt_err_t, ptr) outcome \<times> 'h drivers) option" where
  "rt_data_queue_push user q x timeout d = do {
     RT_ASSERT (q \<noteq> RT_NULL);
     data_queue_push_loop user q x (rt_thread_self (kern d)) timeout d }"

definition rt_data_queue_push_resume ::
    "'h evt_fns \<Rightarrow> ptr \<Rightarrow> rt_data_item \<Rightarrow> ptr \<Rightarrow> int \<Rightarrow> 'h drivers \<Rightarrow> ((rt_err_t, ptr) outcome \<times> 'h drivers) option" where
  "rt_data_queue_push_resume user q x thread timeout d =
    (let result = terror (kern d) thread in
     if result \<noteq> RT_EOK then Some (Done result, d)
     else data_queue_push_loop user q x thread timeout d)"

text \<open>The item stored through \<^verbatim>\<open>data_ptr\<close> and \<^verbatim>\<open>size\<close> is returned with the error code.\<close>

definition data_queue_pop_loop ::
    "'h evt_fns \<Rightarrow> ptr \<Rightarrow> ptr \<Rightarrow> int \<Rightarrow> 'h drivers \<Rightarrow> ((rt_err_t \<times> rt_data_item option, ptr) outcome \<times> 'h drivers) option" where
  "data_queue_pop_loop user q thread timeout d =
    (if dq_empty (data_queues d q) then
       if timeout = 0 then Some (Done (- RT_ETIMEOUT, None), d)
       else do {
         d \<leftarrow> dq_wait (WaitQ q) thread timeout d;
         Some (Blocked thread, d) }
     else do {
       (x, r) \<leftarrow> dq_fetch (data_queues d q);
       let d = upd_dq q (\<lambda>_. r) d;
       if uint (dq_put_index r) - uint (dq_get_index r) \<le> uint (dq_lwm r) then do {
         s \<leftarrow> wake_one (SenderQ q) (kern d);
         d \<leftarrow> dq_notify user q RT_DATAQUEUE_EVENT_LWM (d\<lparr>kern := s\<rparr>);
         Some (Done (RT_EOK, Some x), d) }
       else do {
         d \<leftarrow> dq_notify user q RT_DATAQUEUE_EVENT_POP d;
         Some (Done (RT_EOK, Some x), d) } })"

definition rt_data_queue_pop ::
    "'h evt_fns \<Rightarrow> ptr \<Rightarrow> int \<Rightarrow> 'h drivers \<Rightarrow> ((rt_err_t \<times> rt_data_item option, ptr) outcome \<times> 'h drivers) option" where
  "rt_data_queue_pop user q timeout d = do {
     RT_ASSERT (q \<noteq> RT_NULL);
     data_queue_pop_loop user q (rt_thread_self (kern d)) timeout d }"

definition rt_data_queue_pop_resume ::
    "'h evt_fns \<Rightarrow> ptr \<Rightarrow> ptr \<Rightarrow> int \<Rightarrow> 'h drivers \<Rightarrow> ((rt_err_t \<times> rt_data_item option, ptr) outcome \<times> 'h drivers) option" where
  "rt_data_queue_pop_resume user q thread timeout d =
    (let result = terror (kern d) thread in
     if result \<noteq> RT_EOK then Some (Done (result, None), d)
     else data_queue_pop_loop user q thread timeout d)"

definition rt_data_queue_peak :: "ptr \<Rightarrow> 'h drivers \<Rightarrow> (rt_err_t \<times> rt_data_item option) option" where
  "rt_data_queue_peak q d = do {
     RT_ASSERT (q \<noteq> RT_NULL);
     if dq_empty (data_queues d q) then Some (- RT_EEMPTY, None)
     else do {
       x \<leftarrow> dq_front (data_queues d q);
       Some (RT_EOK, Some x) } }"

definition rt_data_queue_reset :: "ptr \<Rightarrow> 'h drivers \<Rightarrow> 'h drivers option" where
  "rt_data_queue_reset q d = do {
     let s = rt_enter_critical (kern d);
     s \<leftarrow> rt_ipc_list_resume_all (WaitQ q) s;
     s \<leftarrow> rt_ipc_list_resume_all (SenderQ q) s;
     s \<leftarrow> rt_exit_critical s;
     s \<leftarrow> rt_schedule s;
     Some (d\<lparr>kern := s\<rparr>) }"

lemma upd_dq_view [simp]:
  "kern (upd_dq q f d) = kern d" "completions (upd_dq q f d) = completions d" "data_queues (upd_dq q f d) = (data_queues d)(q := f (data_queues d q))"
  by (simp_all add: upd_dq_def)

section \<open>The ring as a queue\<close>

text \<open>As long as the push index has not gone round, it is not behind the pop index.\<close>

definition dq_count :: "rt_data_queue \<Rightarrow> nat" where
  "dq_count r = unat (dq_put_index r) - unat (dq_get_index r)"

definition dq_contents :: "rt_data_queue \<Rightarrow> rt_data_item list" where
  "dq_contents r = map (\<lambda>i. dq_items r (i mod unat (dq_size r))) [unat (dq_get_index r)..<unat (dq_put_index r)]"

definition dq_ok :: "rt_data_queue \<Rightarrow> bool" where
  "dq_ok r \<longleftrightarrow> unat (dq_get_index r) \<le> unat (dq_put_index r) \<and> unat (dq_put_index r) \<le> unat (dq_get_index r) + unat (dq_size r)"

text \<open>Push and pop without waiting, with their guards; the pushes left until the index goes round.\<close>

definition dq_push :: "rt_data_item \<Rightarrow> rt_data_queue \<Rightarrow> rt_data_queue option" where
  "dq_push x r = (if dq_full r then None else dq_store x r)"

definition dq_pop :: "rt_data_queue \<Rightarrow> (rt_data_item \<times> rt_data_queue) option" where
  "dq_pop r = (if dq_empty r then None else dq_fetch r)"

definition dq_budget :: "rt_data_queue \<Rightarrow> enat" where
  "dq_budget r = enat (2 ^ 16 - 1 - unat (dq_put_index r))"

lemma dq_full_eq: "dq_ok r \<Longrightarrow> dq_full r \<longleftrightarrow> length (dq_contents r) = unat (dq_size r)"
  unfolding dq_full_def dq_ok_def uint_nat by (auto simp: dq_contents_def simp del: of_nat_unat)

lemma unat_index_inc: "unat i < 2 ^ 16 - 1 \<Longrightarrow> unat (i + 1) = unat i + 1" for i :: u16
  by (simp add: unat_word_ariths)

lemma mod_distinct:
  fixes a b n :: nat
  assumes "a < b" "b < a + n"
  shows "a mod n \<noteq> b mod n"
proof
  assume "a mod n = b mod n"
  then have "n dvd b - a" using assms(1) mod_eq_dvd_iff_nat [of a b n] by simp
  then show False using assms by (auto dest: dvd_imp_le)
qed

lemma dq_push_ok:
  assumes r: "dq_ok r" and room: "length (dq_contents r) < unat (dq_size r)" and b: "0 < dq_budget r"
  obtains r' where "dq_push x r = Some r'" "dq_ok r'" "dq_contents r' = dq_contents r @ [x]" "dq_size r' = dq_size r" "dq_budget r \<le> eSuc (dq_budget r')"
proof -
  let ?n = "unat (dq_size r)" let ?g = "unat (dq_get_index r)" let ?p = "unat (dq_put_index r)"
  let ?r = "r\<lparr>dq_items := (dq_items r)(?p mod ?n := x), dq_put_index := dq_put_index r + 1\<rparr>"
  have le: "?g \<le> ?p" "?p < ?g + ?n" using r room by (auto simp: dq_ok_def dq_contents_def)
  have p: "?p < 2 ^ 16 - 1" using b by (simp add: dq_budget_def zero_enat_def)
  have u: "unat (dq_put_index r + 1) = ?p + 1" by (rule unat_index_inc [OF p])
  have z: "dq_size r \<noteq> 0" using le by auto
  have nf: "\<not> dq_full r" using dq_full_eq [OF r] room by simp
  have c: "i mod ?n \<noteq> ?p mod ?n" if "i \<in> {?g..<?p}" for i using mod_distinct [of i ?p ?n] that le by auto
  have "map (\<lambda>i. ((dq_items r)(?p mod ?n := x)) (i mod ?n)) [?g..<?p] = map (\<lambda>i. dq_items r (i mod ?n)) [?g..<?p]"
    using c by simp
  then have "dq_contents ?r = dq_contents r @ [x]" using le u by (simp add: dq_contents_def)
  moreover have "dq_push x r = Some ?r" using nf z by (simp add: dq_push_def dq_store_def Let_def)
  moreover have "dq_ok ?r" using r le u by (simp add: dq_ok_def)
  moreover have "dq_budget r \<le> eSuc (dq_budget ?r)" using u p by (simp add: dq_budget_def eSuc_enat)
  ultimately show thesis using that by simp
qed

lemma dq_pop_ok:
  assumes r: "dq_ok r" and c: "dq_contents r = x # xs"
  obtains r' where "dq_pop r = Some (x, r')" "dq_ok r'" "dq_contents r' = xs" "dq_size r' = dq_size r" "dq_budget r' = dq_budget r"
proof -
  let ?n = "unat (dq_size r)" let ?g = "unat (dq_get_index r)" let ?p = "unat (dq_put_index r)"
  let ?r = "r\<lparr>dq_get_index := dq_get_index r + 1\<rparr>"
  have lt: "?g < ?p" using arg_cong [OF c, of length] by (simp add: dq_contents_def)
  have "?p \<le> ?g + ?n" using r by (simp add: dq_ok_def)
  then have z: "dq_size r \<noteq> 0" using lt by auto
  have u: "unat (dq_get_index r + 1) = ?g + 1" using lt unsigned_less [where 'a = nat and w = "dq_put_index r"] by (intro unat_index_inc) simp
  have up: "[?g..<?p] = ?g # [?g + 1..<?p]" using lt by (simp add: upt_rec)
  have x: "x = dq_items r (?g mod ?n)" and "xs = map (\<lambda>i. dq_items r (i mod ?n)) [?g + 1..<?p]"
    using c unfolding dq_contents_def up by simp_all
  then have "dq_contents ?r = xs" using u by (simp add: dq_contents_def)
  moreover have "dq_pop r = Some (x, ?r)" using x z lt by (auto simp: dq_pop_def dq_empty_def dq_fetch_def dq_front_def)
  moreover have "dq_ok ?r" using r lt u by (simp add: dq_ok_def)
  ultimately show thesis using that by (simp add: dq_budget_def)
qed

interpretation dq_fifo: limited_fifo dq_ok dq_contents "\<lambda>r. unat (dq_size r)" dq_budget dq_push dq_pop "\<lambda>_ _. True"
proof
  fix r assume "dq_ok r"
  then show "length (dq_contents r) \<le> unat (dq_size r)" by (auto simp: dq_ok_def dq_contents_def)
next
  fix r x y assume "dq_ok r" "length (dq_contents r) < unat (dq_size r)" "0 < dq_budget r"
  then show "\<exists>r'. dq_push x r = Some r' \<and> dq_ok r' \<and> dq_contents r' = dq_contents r @ [x] \<and> unat (dq_size r') = unat (dq_size r) \<and>
      dq_budget r \<le> eSuc (dq_budget r') \<and> True = True"
    by (metis dq_push_ok)
next
  fix r x assume "dq_ok r" "length (dq_contents r) = unat (dq_size r)"
  then show "dq_push x r = None" by (simp add: dq_push_def dq_full_eq)
next
  fix r assume "dq_ok r" "dq_contents r = []"
  then show "dq_pop r = None" by (auto simp: dq_ok_def dq_contents_def dq_pop_def dq_empty_def word_unat_eq_iff)
next
  fix r x xs assume "dq_ok r" "dq_contents r = x # xs"
  then show "\<exists>r'. dq_pop r = Some (x, r') \<and> dq_ok r' \<and> dq_contents r' = xs \<and> unat (dq_size r') = unat (dq_size r) \<and> dq_budget r \<le> dq_budget r' \<and> True = True"
    by (metis dq_pop_ok order_refl)
qed

section \<open>The scheduler invariant\<close>

text \<open>A callback keeps the invariant as long as it is built from kernel calls.\<close>

definition evt_ok :: "'h evt_fns \<Rightarrow> bool" where
  "evt_ok user \<longleftrightarrow> (\<forall>f q ev d d'. swf {} (kern d) \<longrightarrow> user f q ev d = Some d' \<longrightarrow> swf {} (kern d'))"

lemma swf_dq_notify: "evt_ok user \<Longrightarrow> dq_notify user q ev d = Some d' \<Longrightarrow> swf {} (kern d) \<Longrightarrow> swf {} (kern d')"
  by (auto simp: dq_notify_def Let_def evt_ok_def split: if_splits)

lemma swf_dq_wait:
  assumes s: "swf {} (kern d)" "wait_queue h" "tstat (kern d) t = 3" and r: "dq_wait h t time d = Some d'"
  shows "swf {} (kern d')"
proof -
  obtain e u v w x where b: "rt_thread_suspend t (set_error t RT_EOK (kern d)) = Some (e, u)" "link_back h t u = Some v"
    "start_wait_timer t time v = Some w" "rt_schedule w = Some x" "d' = d\<lparr>kern := x\<rparr>"
    using r by (auto simp: dq_wait_def Let_def bind_eq_Some_conv)
  show ?thesis using swf_block [OF suspend_fifo_Some [OF b(1,2)] b(3,4)] s b(5) by simp
qed

lemma swf_data_queue_loops:
  assumes e: "evt_ok user" and s: "swf {} (kern d)" "tstat (kern d) t = 3"
  shows "data_queue_push_loop user q x t time d = Some (r, d') \<Longrightarrow> swf {} (kern d')"
    and "data_queue_pop_loop user q t time d = Some (r', d') \<Longrightarrow> swf {} (kern d')"
proof -
  note n = swf_dq_notify [OF e]
  show "swf {} (kern d')" if "data_queue_push_loop user q x t time d = Some (r, d')"
    using that s swf_dq_wait [OF s(1) wait_queue_simps(2) s(2)]
    by (auto simp: data_queue_push_loop_def Let_def bind_eq_Some_conv split: if_splits intro: swf_wake_one n)
  show "swf {} (kern d')" if "data_queue_pop_loop user q t time d = Some (r', d')"
    using that s swf_dq_wait [OF s(1) wait_queue_simps(1) s(2)] swf_wake_one [of "kern d"]
    by (auto simp: data_queue_pop_loop_def Let_def bind_eq_Some_conv split: if_splits intro: n)
qed

lemma swf_rt_data_queue:
  assumes e: "evt_ok user" and s: "swf {} (kern d)"
  shows "tstat (kern d) (cur (kern d)) = 3 \<Longrightarrow> rt_data_queue_push user q x time d = Some (r, d') \<Longrightarrow> swf {} (kern d')"
    and "tstat (kern d) t = 3 \<Longrightarrow> rt_data_queue_push_resume user q x t time d = Some (r, d') \<Longrightarrow> swf {} (kern d')"
    and "tstat (kern d) (cur (kern d)) = 3 \<Longrightarrow> rt_data_queue_pop user q time d = Some (r', d') \<Longrightarrow> swf {} (kern d')"
    and "tstat (kern d) t = 3 \<Longrightarrow> rt_data_queue_pop_resume user q t time d = Some (r', d') \<Longrightarrow> swf {} (kern d')"
    and "rt_data_queue_init H q sz lwm ev d = Some (c, d') \<Longrightarrow> swf {} (kern d')"
    and "rt_data_queue_reset q d = Some d' \<Longrightarrow> swf {} (kern d')"
proof -
  show "swf {} (kern d')" if "rt_data_queue_init H q sz lwm ev d = Some (c, d')"
    using that s by (auto simp: rt_data_queue_init_def Let_def bind_eq_Some_conv swf_wait_list_init)
  show "swf {} (kern d')" if r: "rt_data_queue_reset q d = Some d'"
  proof -
    obtain u v w x where "rt_ipc_list_resume_all (WaitQ q) (rt_enter_critical (kern d)) = Some u" "rt_ipc_list_resume_all (SenderQ q) u = Some v"
      "rt_exit_critical v = Some w" "rt_schedule w = Some x" "d' = d\<lparr>kern := x\<rparr>"
      using r by (auto simp: rt_data_queue_reset_def bind_eq_Some_conv)
    then show ?thesis
      using swf_rt_schedule [OF swf_rt_exit_critical [OF swf_resume_two [of "rt_enter_critical (kern d)"]]] s by auto
  qed
qed (use s swf_data_queue_loops [OF e s] in \<open>auto simp: rt_data_queue_push_def rt_data_queue_pop_def rt_data_queue_push_resume_def
    rt_data_queue_pop_resume_def rt_thread_self_def bind_eq_Some_conv Let_def split: if_splits\<close>)

section \<open>Properties\<close>

text \<open>A session of pushes and pops that do not wait.\<close>

fun dq_session :: "'h evt_fns \<Rightarrow> ptr \<Rightarrow> rt_data_item fifo_op list \<Rightarrow> 'h drivers \<Rightarrow> (rt_data_item fifo_res list \<times> 'h drivers) option" where
  "dq_session user q [] d = Some ([], d)"
| "dq_session user q (Put x # ops) d = do {
     (r, d) \<leftarrow> rt_data_queue_push user q x 0 d;
     RT_ASSERT (r = Done RT_EOK \<or> r = Done (- RT_ETIMEOUT));
     (rs, d) \<leftarrow> dq_session user q ops d;
     Some ((if r = Done RT_EOK then Accepted else Refused) # rs, d) }"
| "dq_session user q (Get # ops) d = do {
     (r, d) \<leftarrow> rt_data_queue_pop user q 0 d;
     a \<leftarrow> (case r of Done (e, Some x) \<Rightarrow> if e = RT_EOK then Some (Got x) else None
       | Done (e, None) \<Rightarrow> if e = - RT_ETIMEOUT then Some Nothing else None | Blocked w \<Rightarrow> None);
     (rs, d) \<leftarrow> dq_session user q ops d;
     Some (a # rs, d) }"

text \<open>A queue nobody waits for and whose events nobody wants.\<close>

definition dq_idle :: "ptr \<Rightarrow> 'h drivers \<Rightarrow> bool" where
  "dq_idle q d \<longleftrightarrow> q \<noteq> RT_NULL \<and> tlists (kern d) (WaitQ q) = [] \<and> tlists (kern d) (SenderQ q) = [] \<and> dq_evt_notify (data_queues d q) = 0"

lemma dq_fields:
  "dq_push x r = Some r' \<Longrightarrow> dq_evt_notify r' = dq_evt_notify r \<and> dq_size r' = dq_size r"
  "dq_pop r = Some (y, r') \<Longrightarrow> dq_evt_notify r' = dq_evt_notify r \<and> dq_size r' = dq_size r"
  by (auto simp: dq_push_def dq_pop_def dq_store_def dq_fetch_def Let_def bind_eq_Some_conv split: if_splits)

lemma rt_data_queue_push_idle:
  assumes "dq_idle q d" "dq_size (data_queues d q) \<noteq> 0"
  shows "rt_data_queue_push user q x 0 d = (case dq_push x (data_queues d q) of Some r \<Rightarrow> Some (Done RT_EOK, upd_dq q (\<lambda>_. r) d)
    | None \<Rightarrow> Some (Done (- RT_ETIMEOUT), d))"
  using assms by (simp add: rt_data_queue_push_def data_queue_push_loop_def dq_push_def dq_store_def dq_idle_def dq_notify_def Let_def)

lemma rt_data_queue_pop_idle:
  assumes "dq_idle q d" "dq_size (data_queues d q) \<noteq> 0"
  shows "rt_data_queue_pop user q 0 d = (case dq_pop (data_queues d q) of Some (x, r) \<Rightarrow> Some (Done (RT_EOK, Some x), upd_dq q (\<lambda>_. r) d)
    | None \<Rightarrow> Some (Done (- RT_ETIMEOUT, None), d))"
proof -
  have "(upd_dq q f d)\<lparr>kern := kern d\<rparr> = upd_dq q f d" for f by (simp add: upd_dq_def)
  with assms show ?thesis
    by (simp add: rt_data_queue_pop_def data_queue_pop_loop_def dq_pop_def dq_fetch_def dq_front_def dq_idle_def dq_notify_def wake_one_def Let_def)
qed

lemma dq_session_eq:
  assumes "dq_idle q d" "dq_size (data_queues d q) \<noteq> 0"
  shows "\<exists>d'. dq_session user q ops d = Some (fifo_session dq_push dq_pop ops (data_queues d q), d')"
  using assms
proof (induction ops arbitrary: d)
  case (Cons op ops)
  have up: "dq_idle q (upd_dq q (\<lambda>_. r) d)" if "dq_evt_notify r = dq_evt_notify (data_queues d q)" for r
    using Cons.prems(1) that by (simp add: dq_idle_def)
  show ?case
  proof (cases op)
    case (Put x)
    show ?thesis
    proof (cases "dq_push x (data_queues d q)")
      case None
      then show ?thesis using Put Cons.IH [OF Cons.prems] rt_data_queue_push_idle [OF Cons.prems, of user x] by auto
    next
      case (Some r)
      then show ?thesis
        using Put Cons.IH [of "upd_dq q (\<lambda>_. r) d"] up dq_fields(1) [OF Some] Cons.prems rt_data_queue_push_idle [OF Cons.prems, of user x] by auto
    qed
  next
    case Get
    show ?thesis
    proof (cases "dq_pop (data_queues d q)")
      case None
      then show ?thesis using Get Cons.IH [OF Cons.prems] rt_data_queue_pop_idle [OF Cons.prems] by auto
    next
      case (Some p)
      obtain x r where p: "p = (x, r)" by (cases p)
      then show ?thesis
        using Get Some Cons.IH [of "upd_dq q (\<lambda>_. r) d"] up dq_fields(2) [of "data_queues d q" x r] Cons.prems rt_data_queue_pop_idle [OF Cons.prems] by auto
    qed
  qed
qed simp

text \<open>
  C20. A data queue is a first-in first-out queue of its size for its first 65535 pushes: any session of non-blocking pushes and pops that
  stays within this number gives, call by call, the answers of a list bounded by the size of the queue.
\<close>

theorem rt_data_queue_session_refines:
  assumes d: "dq_idle q d" "dq_ok (data_queues d q)" "dq_size (data_queues d q) \<noteq> 0"
    and n: "unat (dq_put_index (data_queues d q)) + puts ops < 2 ^ 16"
  shows "\<exists>d'. dq_session user q ops d = Some (list_session (unat (dq_size (data_queues d q))) ops (dq_contents (data_queues d q)), d')"
proof -
  have "enat (puts ops) \<le> dq_budget (data_queues d q)" using n by (simp add: dq_budget_def)
  then show ?thesis using dq_session_eq [OF d(1,3), of user ops] dq_fifo.session_refines [OF d(2), of ops] by simp
qed

definition dq_demo :: "u16 \<Rightarrow> unit drivers" where
  "dq_demo n = upd_dq 8 (\<lambda>r. r\<lparr>dq_size := n\<rparr>) drivers_demo"

lemma dq_demo_view:
  "kern (dq_demo n) = ipc_demo 0" "dq_size (data_queues (dq_demo n) 8) = n" "dq_get_index (data_queues (dq_demo n) 8) = 0"
  "dq_put_index (data_queues (dq_demo n) 8) = 0" "dq_evt_notify (data_queues (dq_demo n) 8) = 0" "dq_ok (data_queues (dq_demo n) 8)"
  "dq_contents (data_queues (dq_demo n) 8) = []" "dq_lwm (data_queues (dq_demo n) 8) = 0"
  by (simp_all add: dq_demo_def drivers_demo_def dq_ok_def dq_contents_def)

lemma dq_demo_idle: "dq_idle 8 (dq_demo n)"
proof -
  have "tlists (ipc_demo 0) (SenderQ 8) = []" by (simp add: ipc_demo_def wait_demo_def sched_demo_view)
  then show ?thesis by (simp add: dq_idle_def dq_demo_view ipc_demo_view)
qed

theorem rt_data_queue_session_refines_witness:
  "\<exists>d'. dq_session (\<lambda>_ _ _. Some) 8 [Get, Put \<lparr>item_ptr = 100, item_size = 5\<rparr>, Put \<lparr>item_ptr = 200, item_size = 6\<rparr>, Get, Get] (dq_demo 1) =
     Some ([Nothing, Accepted, Refused, Got \<lparr>item_ptr = 100, item_size = 5\<rparr>, Nothing], d')"
  using rt_data_queue_session_refines [OF dq_demo_idle dq_demo_view(6), of 1 "[Get, Put \<lparr>item_ptr = 100, item_size = 5\<rparr>, Put \<lparr>item_ptr = 200, item_size = 6\<rparr>, Get, Get]" "\<lambda>_ _ _. Some"]
  by (simp add: dq_demo_view del: dq_session.simps)

text \<open>Pushing and popping in turn moves both indices; behind the wrap of the push index no push finds the queue full.\<close>

lemma dq_pairs:
  assumes "dq_size r \<noteq> 0" "dq_get_index r = w" "dq_put_index r = w"
  shows "\<exists>r'. fifo_session dq_push dq_pop (concat (replicate n [Put x, Get]) @ ops) r = concat (replicate n [Accepted, Got x]) @ fifo_session dq_push dq_pop ops r' \<and>
    dq_size r' = dq_size r \<and> dq_get_index r' = w + of_nat n \<and> dq_put_index r' = w + of_nat n"
  using assms
proof (induction n arbitrary: r w)
  case (Suc n)
  let ?i = "unat w mod unat (dq_size r)"
  let ?r = "r\<lparr>dq_items := (dq_items r)(?i := x), dq_get_index := w + 1, dq_put_index := w + 1\<rparr>"
  have "uint (dq_size r) \<noteq> 0" using Suc.prems(1) by (simp add: uint_0_iff)
  then have nf: "\<not> dq_full r" using Suc.prems by (simp add: dq_full_def)
  have p: "dq_push x r = Some (r\<lparr>dq_items := (dq_items r)(?i := x), dq_put_index := w + 1\<rparr>)"
    using nf Suc.prems by (simp add: dq_push_def dq_store_def Let_def)
  have g: "dq_pop (r\<lparr>dq_items := (dq_items r)(?i := x), dq_put_index := w + 1\<rparr>) = Some (x, ?r)"
    using Suc.prems by (simp add: dq_pop_def dq_empty_def dq_fetch_def dq_front_def)
  show ?case using Suc.IH [of ?r "w + 1"] Suc.prems p g by (simp add: algebra_simps)
qed auto

lemma dq_full_never:
  assumes "dq_size r \<noteq> 0" "dq_get_index r = - 1"
  shows "fifo_session dq_push dq_pop (replicate k (Put x)) r = replicate k Accepted"
  using assms
proof (induction k arbitrary: r)
  case (Suc k)
  have "uint (dq_size r) > 0" using Suc.prems(1) by (simp add: uint_0_iff order_less_le)
  moreover have "uint (dq_put_index r) \<le> uint (dq_get_index r)"
    using word_n1_ge [of "dq_put_index r"] Suc.prems(2) by (simp only: word_le_def)
  ultimately have nf: "\<not> dq_full r" by (simp add: dq_full_def)
  obtain r' where p: "dq_push x r = Some r'" "dq_size r' = dq_size r" "dq_get_index r' = dq_get_index r"
    using nf Suc.prems(1) by (simp add: dq_push_def dq_store_def Let_def)
  then show ?case using Suc by simp
qed simp

text \<open>
  C38. After 65535 pushes a data queue is broken: with as many items pushed as popped it accepts any number of pushes, whatever its size, and
  writes over items that have not been popped. The push index goes round to 0, and the difference of the indices, computed in \<^verbatim>\<open>int\<close>,
  is negative and never equal to the size.
\<close>

theorem rt_data_queue_never_full:
  assumes "dq_idle q d" "dq_size (data_queues d q) \<noteq> 0" "dq_get_index (data_queues d q) = 0" "dq_put_index (data_queues d q) = 0"
  shows "\<exists>d'. dq_session user q (concat (replicate 65535 [Put x, Get]) @ replicate k (Put y)) d =
    Some (concat (replicate 65535 [Accepted, Got x]) @ replicate k Accepted, d')"
proof -
  obtain r' where r': "fifo_session dq_push dq_pop (concat (replicate 65535 [Put x, Get]) @ replicate k (Put y)) (data_queues d q) =
      concat (replicate 65535 [Accepted, Got x]) @ fifo_session dq_push dq_pop (replicate k (Put y)) r'"
    "dq_size r' = dq_size (data_queues d q)" "dq_get_index r' = 0 + of_nat 65535"
    using dq_pairs [OF assms(2-4), of 65535 x "replicate k (Put y)"] by blast
  have "fifo_session dq_push dq_pop (replicate k (Put y)) r' = replicate k Accepted"
    using r'(2,3) assms(2) by (intro dq_full_never) simp_all
  then show ?thesis using dq_session_eq [OF assms(1,2), of user "concat (replicate 65535 [Put x, Get]) @ replicate k (Put y)"] r'(1) by simp
qed

theorem rt_data_queue_never_full_witness:
  "\<exists>d'. dq_session (\<lambda>_ _ _. Some) 8 (concat (replicate 65535 [Put \<lparr>item_ptr = 100, item_size = 5\<rparr>, Get]) @ replicate 3 (Put \<lparr>item_ptr = 200, item_size = 6\<rparr>)) (dq_demo 1) =
    Some (concat (replicate 65535 [Accepted, Got \<lparr>item_ptr = 100, item_size = 5\<rparr>]) @ replicate 3 Accepted, d')"
  by (rule rt_data_queue_never_full [OF dq_demo_idle]) (simp_all add: dq_demo_view)

text \<open>
  A thread that pops from an empty queue and waits gets the next item pushed: \<^verbatim>\<open>rt_data_queue_pop\<close> blocks it, \<^verbatim>\<open>rt_data_queue_push\<close> stores
  the item and makes the thread ready, and when it runs again the call returns this item and leaves the queue empty.
\<close>

theorem rt_data_queue_blocked_pop:
  assumes s: "running (kern d)" and d: "dq_idle q d" "dq_ok (data_queues d q)" "dq_size (data_queues d q) \<noteq> 0" "dq_contents (data_queues d q) = []"
    and w: "unat (dq_put_index (data_queues d q)) < 2 ^ 16 - 1" and time: "time \<noteq> 0" "time < 0x7FFFFFFF"
  shows "\<exists>t d1 d2 d3. rt_data_queue_pop user q time d = Some (Blocked t, d1) \<and> t = cur (kern d) \<and> tstat (kern d1) t = RT_THREAD_SUSPEND \<and>
    rt_data_queue_push user q x time' d1 = Some (Done RT_EOK, d2) \<and> (tstat (kern d2) t = RT_THREAD_READY \<or> tstat (kern d2) t = RT_THREAD_RUNNING) \<and>
    rt_data_queue_pop_resume user q t time d2 = Some (Done (RT_EOK, Some x), d3) \<and> dq_contents (data_queues d3 q) = []"
proof -
  let ?s = "kern d" let ?r = "data_queues d q"
  have q: "q \<noteq> 0" "tlists ?s (WaitQ q) = []" "tlists ?s (SenderQ q) = []" "dq_evt_notify ?r = 0" using d(1) by (simp_all add: dq_idle_def)
  have "unat (dq_put_index ?r) \<le> unat (dq_get_index ?r)" using arg_cong [OF d(4), of length] by (simp add: dq_contents_def)
  then have e: "dq_empty ?r" using d(2) by (simp add: dq_empty_def dq_ok_def word_unat_eq_iff)
  obtain u0 u v w s1 where w: "rt_thread_suspend (cur ?s) (set_error (cur ?s) RT_EOK ?s) = Some (u0, u)" "link_back (WaitQ q) (cur ?s) u = Some v" "not_in_interrupt v"
    "start_wait_timer (cur ?s) time v = Some w" "rt_schedule w = Some s1" "swf {} s1" "ipc_frame ?s s1"
    "\<And>h'. not_ready_queue h' \<Longrightarrow> tlists s1 h' = ((tlists ?s)(WaitQ q := tlists ?s (WaitQ q) @ [cur ?s])) h'" "tstat s1 (cur ?s) = 2"
    "\<And>x. terror s1 x = (if x = cur ?s then RT_EOK else terror ?s x)" "\<And>x. o_type (objs s1 x) = o_type (objs ?s x)" "cur s1 \<noteq> 0"
    by (rule fifo_wait_total [OF s wait_queue_simps(1) time(2)]) blast
  let ?d1 = "d\<lparr>kern := s1\<rparr>"
  have pop: "rt_data_queue_pop user q time d = Some (Blocked (cur ?s), ?d1)"
    using q(1) e time(1) w(1,2,4,5) runningD(5) [OF s] by (simp add: rt_data_queue_pop_def data_queue_pop_loop_def dq_wait_def rt_thread_self_def Let_def)
  have l1: "tlists s1 (WaitQ q) = [cur ?s]" "tlists s1 (SenderQ q) = []" using w(8) [of "WaitQ q"] w(8) [of "SenderQ q"] q by simp_all
  have t1: "thread_ok s1 (cur ?s)" using thread_ok_types [OF w(11)] runningD(2) [OF s] by simp
  have "length (dq_contents ?r) < unat (dq_size ?r)" using d(3,4) by (simp add: unat_gt_0)
  then obtain r' where r': "dq_push x ?r = Some r'" "dq_ok r'" "dq_contents r' = [x]" "dq_size r' = dq_size ?r"
    using dq_push_ok [OF d(2), of x] \<open>unat (dq_put_index ?r) < 2 ^ 16 - 1\<close> d(4) by (auto simp: dq_budget_def zero_enat_def)
  have nf: "\<not> dq_full ?r" "dq_store x ?r = Some r'" using r'(1) by (simp_all add: dq_push_def split: if_splits)
  obtain u2 s2 where s2: "rt_ipc_list_resume (WaitQ q) s1 = Some u2" "rt_schedule u2 = Some s2" "swf {} s2" "ipc_frame s1 s2"
    "\<And>h'. not_ready_queue h' \<Longrightarrow> tlists s2 h' = ((tlists s1)(WaitQ q := [])) h'" "tstat s2 (cur ?s) = 1 \<or> tstat s2 (cur ?s) = 3"
    "\<And>x. terror s2 x = terror s1 x"
    by (rule wake_total [OF w(6) l1(1) wait_queue_simps(1) t1 w(12)]) blast
  let ?d2 = "(upd_dq q (\<lambda>_. r') ?d1)\<lparr>kern := s2\<rparr>"
  have push: "rt_data_queue_push user q x time' ?d1 = Some (Done RT_EOK, ?d2)"
    using q(1) nf l1(1) s2(1,2) by (simp add: rt_data_queue_push_def data_queue_push_loop_def wake_one_def Let_def)
  obtain r'' where r'': "dq_pop r' = Some (x, r'')" "dq_contents r'' = []" using dq_pop_ok [OF r'(2,3)] by metis
  have p: "\<not> dq_empty r'" "dq_fetch r' = Some (x, r'')" using r''(1) by (simp_all add: dq_pop_def split: if_splits)
  have n: "dq_evt_notify r'' = 0" using dq_fields(1) [OF r'(1)] dq_fields(2) [OF r''(1)] q(4) by simp
  have "tlists s2 (SenderQ q) = []" "terror s2 (cur ?s) = RT_EOK" using s2(5) [of "SenderQ q"] l1(2) s2(7) w(10) by simp_all
  then have "\<exists>d3. rt_data_queue_pop_resume user q (cur ?s) time ?d2 = Some (Done (RT_EOK, Some x), d3) \<and> dq_contents (data_queues d3 q) = []"
    using p n r''(2) by (simp add: rt_data_queue_pop_resume_def data_queue_pop_loop_def wake_one_def dq_notify_def Let_def)
  then show ?thesis using pop push w(9) s2(6) by auto
qed

theorem rt_data_queue_blocked_pop_witness:
  "\<exists>d1 d2 d3. rt_data_queue_pop (\<lambda>_ _ _. Some) 8 20 (dq_demo 1) = Some (Blocked 1, d1) \<and>
     rt_data_queue_push (\<lambda>_ _ _. Some) 8 \<lparr>item_ptr = 100, item_size = 5\<rparr> 0 d1 = Some (Done RT_EOK, d2) \<and>
     rt_data_queue_pop_resume (\<lambda>_ _ _. Some) 8 1 20 d2 = Some (Done (RT_EOK, Some \<lparr>item_ptr = 100, item_size = 5\<rparr>), d3)"
  using rt_data_queue_blocked_pop [OF _ dq_demo_idle, of 1 20 "\<lambda>_ _ _. Some" "\<lparr>item_ptr = 100, item_size = 5\<rparr>" 0] dq_demo_view [of 1]
  by (auto simp: ipc_demo_view)

end
