(* ===== verification/RT_Workqueue.thy ===== *)
theory RT_Workqueue
  imports RT_Completion
begin

text \<open>
  The work queues of \<^verbatim>\<open>components/drivers/src/workqueue.c\<close>: a thread that runs the work items submitted to its queue. The function of a work
  item is an application function, given by a number, like the timeout function of a timer.
\<close>

section \<open>Operations\<close>

abbreviation (input) RT_WORK_STATE_PENDING :: u16 where "RT_WORK_STATE_PENDING \<equiv> 1"
abbreviation (input) RT_WORK_STATE_SUBMITTING :: u16 where "RT_WORK_STATE_SUBMITTING \<equiv> 2"
abbreviation (input) RT_WORK_TYPE_DELAYED :: u16 where "RT_WORK_TYPE_DELAYED \<equiv> 1"
abbreviation (input) EINVAL :: rt_err_t where "EINVAL \<equiv> 22"
abbreviation (input) RT_TIMER_FLAG_SOFT_TIMER :: u8 where "RT_TIMER_FLAG_SOFT_TIMER \<equiv> 4"

text \<open>The semaphore embedded in a queue, the timer embedded in a delayed work item.\<close>

definition wq_sem :: "ptr \<Rightarrow> ptr" where "wq_sem q = q + 12"

definition work_timer :: "ptr \<Rightarrow> objref" where "work_timer w = Obj (w + 20)"

definition upd_work :: "ptr \<Rightarrow> (rt_work \<Rightarrow> rt_work) \<Rightarrow> 'h drivers \<Rightarrow> 'h drivers" where
  "upd_work w f d = d\<lparr>works := (works d)(w := f (works d w))\<rparr>"

definition set_current :: "ptr \<Rightarrow> ptr \<Rightarrow> 'h drivers \<Rightarrow> 'h drivers" where
  "set_current q w d = d\<lparr>workqueues := (workqueues d)(q := (workqueues d q)\<lparr>work_current := w\<rparr>)\<rparr>"

definition set_delayed_queue :: "ptr \<Rightarrow> ptr \<Rightarrow> 'h drivers \<Rightarrow> 'h drivers" where
  "set_delayed_queue w q d = d\<lparr>delayed_queue := (delayed_queue d)(w := q)\<rparr>"

definition work_unlink :: "ptr \<Rightarrow> 'h drivers \<Rightarrow> 'h drivers" where
  "work_unlink w d = d\<lparr>work_lists := lists_remove w (work_lists d)\<rparr>"

definition work_append :: "ptr \<Rightarrow> ptr \<Rightarrow> 'h drivers \<Rightarrow> 'h drivers" where
  "work_append q w d = d\<lparr>work_lists := lists_push_back q w (work_lists d)\<rparr>"

definition rt_work_init :: "ptr \<Rightarrow> nat \<Rightarrow> nat \<Rightarrow> 'h drivers \<Rightarrow> 'h drivers option" where
  "rt_work_init w func data d = do {
     mem_ok (\<not> in_some_list w (work_lists d));
     Some (upd_work w (\<lambda>_. \<lparr>work_func = func, work_data = data, work_flags = 0, work_type = 0\<rparr>) d) }"

definition rt_delayed_work_init :: "ptr \<Rightarrow> nat \<Rightarrow> nat \<Rightarrow> 'h drivers \<Rightarrow> 'h drivers option" where
  "rt_delayed_work_init w func data d = do {
     d \<leftarrow> rt_work_init w func data d;
     Some (upd_work w (\<lambda>r. r\<lparr>work_type := RT_WORK_TYPE_DELAYED\<rparr>) d) }"

text \<open>The loop that wakes all threads waiting for the end of a work item; it leaves the semaphore at 0.\<close>

partial_function (option) work_completion_loop :: "ptr \<Rightarrow> 'h kernel \<Rightarrow> (rt_err_t \<times> 'h kernel) option" where
  "work_completion_loop sem s = do {
     (result, s) \<leftarrow> rt_sem_trytake sem s;
     if result = Done (- RT_ETIMEOUT) then do {
       (_, s) \<leftarrow> rt_sem_release sem s;
       work_completion_loop sem s }
     else if result = Done RT_EOK then Some (RT_EOK, s)
     else Some (- RT_ERROR, s) }"

definition workqueue_work_completion :: "ptr \<Rightarrow> 'h drivers \<Rightarrow> (rt_err_t \<times> 'h drivers) option" where
  "workqueue_work_completion q d = do {
     let s = rt_enter_critical (kern d);
     (result, s) \<leftarrow> work_completion_loop (wq_sem q) s;
     s \<leftarrow> rt_exit_critical s;
     Some (result, d\<lparr>kern := s\<rparr>) }"

text \<open>
  The loop of the work thread, in the pieces an interrupt can come between: the test of the list, the suspension, the take-over of the first
  work item, the call of its function, the acknowledgement.
\<close>

definition workqueue_idle :: "ptr \<Rightarrow> 'h drivers \<Rightarrow> bool" where
  "workqueue_idle q d \<longleftrightarrow> work_lists d q = []"

definition workqueue_sleep :: "'h drivers \<Rightarrow> 'h drivers option" where
  "workqueue_sleep d = do {
     (_, s) \<leftarrow> rt_thread_suspend (rt_thread_self (kern d)) (kern d);
     s \<leftarrow> rt_schedule s;
     Some (d\<lparr>kern := s\<rparr>) }"

definition workqueue_next :: "ptr \<Rightarrow> 'h drivers \<Rightarrow> (ptr \<times> 'h drivers) option" where
  "workqueue_next q d = do {
     mem_ok (work_lists d q \<noteq> []);
     let work = hd (work_lists d q);
     let d = set_current q work (work_unlink work d);
     Some (work, upd_work work (\<lambda>r. r\<lparr>work_flags := work_flags r AND NOT RT_WORK_STATE_PENDING\<rparr>) d) }"

definition workqueue_finish :: "ptr \<Rightarrow> 'h drivers \<Rightarrow> 'h drivers option" where
  "workqueue_finish q d = do {
     (_, d) \<leftarrow> workqueue_work_completion q (set_current q RT_NULL d);
     Some d }"

type_synonym 'h work_fns = "nat \<Rightarrow> ptr \<Rightarrow> nat \<Rightarrow> 'h drivers \<Rightarrow> 'h drivers option"

text \<open>One round for a queue that is not empty.\<close>

definition workqueue_round :: "'h work_fns \<Rightarrow> ptr \<Rightarrow> 'h drivers \<Rightarrow> (ptr \<times> 'h drivers) option" where
  "workqueue_round user q d = do {
     (work, d) \<leftarrow> workqueue_next q d;
     d \<leftarrow> user (work_func (works d work)) work (work_data (works d work)) d;
     d \<leftarrow> workqueue_finish q d;
     Some (work, d) }"

definition wake_work_thread :: "ptr \<Rightarrow> 'h drivers \<Rightarrow> 'h drivers option" where
  "wake_work_thread q d = do {
     (_, s) \<leftarrow> rt_thread_resume (work_thread (workqueues d q)) (kern d);
     s \<leftarrow> rt_schedule s;
     Some (d\<lparr>kern := s\<rparr>) }"

definition workqueue_submit_work :: "ptr \<Rightarrow> ptr \<Rightarrow> 'h drivers \<Rightarrow> (rt_err_t \<times> 'h drivers) option" where
  "workqueue_submit_work q w d =
    (if work_flags (works d w) AND RT_WORK_STATE_PENDING \<noteq> 0 then Some (- RT_EBUSY, d)
     else if work_current (workqueues d q) = w then Some (- RT_EBUSY, d)
     else do {
       let d = work_append q w (work_unlink w d);
       let d = upd_work w (\<lambda>r. r\<lparr>work_flags := work_flags r OR RT_WORK_STATE_PENDING\<rparr>) d;
       d \<leftarrow> (if work_current (workqueues d q) = RT_NULL then wake_work_thread q d else Some d);
       Some (RT_EOK, d) })"

definition workqueue_cancel_work :: "ptr \<Rightarrow> ptr \<Rightarrow> 'h drivers \<Rightarrow> rt_err_t \<times> 'h drivers" where
  "workqueue_cancel_work q w d =
    (if work_current (workqueues d q) = w then (- RT_EBUSY, d)
     else (RT_EOK, upd_work w (\<lambda>r. r\<lparr>work_flags := work_flags r AND NOT RT_WORK_STATE_PENDING\<rparr>) (work_unlink w d)))"

text \<open>
  \<^verbatim>\<open>_workqueue_cancel_delayed_work\<close> and \<^verbatim>\<open>rt_workqueue_cancel_work\<close> call each other; the second is written into the first here and given
  its own definition below.
\<close>

partial_function (option) workqueue_cancel_delayed_work :: "ptr \<Rightarrow> 'h drivers \<Rightarrow> (rt_err_t \<times> 'h drivers) option" where
  "workqueue_cancel_delayed_work w d =
    (let q = delayed_queue d w in
     if q = RT_NULL then Some (- EINVAL, d)
     else do {
       (ret, d) \<leftarrow>
         (if work_flags (works d w) AND RT_WORK_STATE_PENDING \<noteq> 0 then do {
            RT_ASSERT (w \<noteq> RT_NULL);
            if work_type (works d w) AND RT_WORK_TYPE_DELAYED \<noteq> 0 then workqueue_cancel_delayed_work w d
            else Some (workqueue_cancel_work q w d) }
          else if work_flags (works d w) AND RT_WORK_STATE_SUBMITTING \<noteq> 0 then do {
            (_, s) \<leftarrow> rt_timer_stop (work_timer w) (kern d);
            (_, s) \<leftarrow> rt_timer_detach (work_timer w) s;
            Some (RT_EOK, upd_work w (\<lambda>r. r\<lparr>work_flags := work_flags r AND NOT RT_WORK_STATE_SUBMITTING\<rparr>) (d\<lparr>kern := s\<rparr>)) }
          else Some (RT_EOK, d));
       if ret \<noteq> 0 then Some (ret, d)
       else Some (ret, upd_work w (\<lambda>r. r\<lparr>work_flags := work_flags r AND NOT RT_WORK_STATE_PENDING\<rparr>) (set_delayed_queue w RT_NULL d)) })"

definition rt_workqueue_cancel_work :: "ptr \<Rightarrow> ptr \<Rightarrow> 'h drivers \<Rightarrow> (rt_err_t \<times> 'h drivers) option" where
  "rt_workqueue_cancel_work q w d = do {
     RT_ASSERT (q \<noteq> RT_NULL);
     RT_ASSERT (w \<noteq> RT_NULL);
     if work_type (works d w) AND RT_WORK_TYPE_DELAYED \<noteq> 0 then workqueue_cancel_delayed_work w d
     else Some (workqueue_cancel_work q w d) }"

text \<open>\<open>tmo\<close> is the number of \<^verbatim>\<open>_delayed_work_timeout_handler\<close> among the timeout functions.\<close>

definition workqueue_submit_delayed_work :: "nat \<Rightarrow> ptr \<Rightarrow> ptr \<Rightarrow> u32 \<Rightarrow> 'h drivers \<Rightarrow> (rt_err_t \<times> 'h drivers) option" where
  "workqueue_submit_delayed_work tmo q w time d =
    (if delayed_queue d w \<noteq> RT_NULL \<and> delayed_queue d w \<noteq> q then Some (- RT_EINVAL, d)
     else do {
       (ret, d) \<leftarrow> (if delayed_queue d w = q then workqueue_cancel_delayed_work w d else Some (RT_EOK, d));
       if ret < 0 then Some (ret, d)
       else do {
         let d = set_delayed_queue w q d;
         if time = 0 then do {
           (_, d) \<leftarrow> workqueue_submit_work (delayed_queue d w) w d;
           Some (ret, d) }
         else do {
           let d = upd_work w (\<lambda>r. r\<lparr>work_flags := work_flags r OR RT_WORK_STATE_SUBMITTING\<rparr>) d;
           s \<leftarrow> rt_timer_init (work_timer w) ''work'' (User_Timeout tmo w) time (RT_TIMER_FLAG_ONE_SHOT OR RT_TIMER_FLAG_SOFT_TIMER) (kern d);
           (_, s) \<leftarrow> rt_timer_start (work_timer w) s;
           Some (ret, d\<lparr>kern := s\<rparr>) } } })"

definition delayed_work_timeout_handler :: "ptr \<Rightarrow> 'h drivers \<Rightarrow> 'h drivers option" where
  "delayed_work_timeout_handler w d = do {
     (_, s) \<leftarrow> rt_timer_stop (work_timer w) (kern d);
     (_, s) \<leftarrow> rt_timer_detach (work_timer w) s;
     let d = upd_work w (\<lambda>r. r\<lparr>work_flags := work_flags r AND NOT RT_WORK_STATE_SUBMITTING\<rparr>) (d\<lparr>kern := s\<rparr>);
     (_, d) \<leftarrow> workqueue_submit_work (delayed_queue d w) w d;
     Some d }"

text \<open>\<^verbatim>\<open>sizeof(struct rt_workqueue)\<close> is 48 on this board; \<open>entry\<close> is the number of \<^verbatim>\<open>_workqueue_thread_entry\<close> among the thread functions.\<close>

definition rt_workqueue_create :: "'h heap_ops \<Rightarrow> nat \<Rightarrow> string \<Rightarrow> u16 \<Rightarrow> u8 \<Rightarrow> 'h drivers \<Rightarrow> (ptr \<times> 'h drivers) option" where
  "rt_workqueue_create H entry name stack_size priority d = do {
     (q, h) \<leftarrow> kmalloc H (heap (kern d)) 48;
     let d = d\<lparr>kern := (kern d)\<lparr>heap := h\<rparr>\<rparr>;
     if q = RT_NULL then Some (RT_NULL, d)
     else do {
       mem_ok (work_lists d q = []);
       let d = set_current q RT_NULL d;
       (_, s) \<leftarrow> rt_sem_init (wq_sem q) ''wqueue'' 0 RT_IPC_FLAG_FIFO (kern d);
       (thread, s) \<leftarrow> rt_thread_create H name entry q (ucast stack_size) priority 10 s;
       let d = d\<lparr>workqueues := (workqueues d)(q := (workqueues d q)\<lparr>work_thread := thread\<rparr>)\<rparr>;
       if thread = RT_NULL then do {
         h \<leftarrow> kfree H (heap s) q;
         Some (RT_NULL, d\<lparr>kern := s\<lparr>heap := h\<rparr>\<rparr>) }
       else do {
         (_, s) \<leftarrow> rt_thread_startup thread s;
         Some (q, d\<lparr>kern := s\<rparr>) } } }"

definition rt_workqueue_destroy :: "'h heap_ops \<Rightarrow> ptr \<Rightarrow> 'h drivers \<Rightarrow> (rt_err_t \<times> 'h drivers) option" where
  "rt_workqueue_destroy H q d = do {
     RT_ASSERT (q \<noteq> RT_NULL);
     (_, s) \<leftarrow> rt_thread_delete (work_thread (workqueues d q)) (kern d);
     h \<leftarrow> kfree H (heap s) q;
     Some (RT_EOK, d\<lparr>kern := s\<lparr>heap := h\<rparr>\<rparr>) }"

definition rt_workqueue_dowork :: "ptr \<Rightarrow> ptr \<Rightarrow> 'h drivers \<Rightarrow> (rt_err_t \<times> 'h drivers) option" where
  "rt_workqueue_dowork q w d = do {
     RT_ASSERT (q \<noteq> RT_NULL);
     RT_ASSERT (w \<noteq> RT_NULL);
     workqueue_submit_work q w d }"

definition rt_workqueue_submit_work :: "nat \<Rightarrow> ptr \<Rightarrow> ptr \<Rightarrow> u32 \<Rightarrow> 'h drivers \<Rightarrow> (rt_err_t \<times> 'h drivers) option" where
  "rt_workqueue_submit_work tmo q w time d = do {
     RT_ASSERT (q \<noteq> RT_NULL);
     RT_ASSERT (w \<noteq> RT_NULL);
     if work_type (works d w) AND RT_WORK_TYPE_DELAYED \<noteq> 0 then workqueue_submit_delayed_work tmo q w time d
     else workqueue_submit_work q w d }"

definition rt_workqueue_critical_work :: "ptr \<Rightarrow> ptr \<Rightarrow> 'h drivers \<Rightarrow> (rt_err_t \<times> 'h drivers) option" where
  "rt_workqueue_critical_work q w d = do {
     RT_ASSERT (q \<noteq> RT_NULL);
     RT_ASSERT (w \<noteq> RT_NULL);
     if work_current (workqueues d q) = w then Some (- RT_EBUSY, d)
     else do {
       let d = work_append q w (work_unlink w d);
       d \<leftarrow> (if work_current (workqueues d q) = RT_NULL then wake_work_thread q d else Some d);
       Some (RT_EOK, d) } }"

text \<open>\<^verbatim>\<open>rt_workqueue_cancel_work_sync\<close> waits when the work item is being run.\<close>

definition cancel_work_sync_end :: "ptr \<Rightarrow> 'h drivers \<Rightarrow> rt_err_t \<times> 'h drivers" where
  "cancel_work_sync_end w d = (RT_EOK, upd_work w (\<lambda>r. r\<lparr>work_flags := work_flags r AND NOT RT_WORK_STATE_PENDING\<rparr>) d)"

definition rt_workqueue_cancel_work_sync :: "ptr \<Rightarrow> ptr \<Rightarrow> 'h drivers \<Rightarrow> ((rt_err_t, ptr) outcome \<times> 'h drivers) option" where
  "rt_workqueue_cancel_work_sync q w d = do {
     RT_ASSERT (q \<noteq> RT_NULL);
     RT_ASSERT (w \<noteq> RT_NULL);
     if work_current (workqueues d q) = w then do {
       (r, s) \<leftarrow> rt_sem_take (wq_sem q) RT_WAITING_FOREVER (kern d);
       let d = d\<lparr>kern := s\<rparr>;
       case r of Blocked t \<Rightarrow> Some (Blocked t, d)
       | Done _ \<Rightarrow> let (e, d) = cancel_work_sync_end w d in Some (Done e, d) }
     else let (e, d) = cancel_work_sync_end w (work_unlink w d) in Some (Done e, d) }"

definition rt_workqueue_cancel_work_sync_resume :: "ptr \<Rightarrow> 'h drivers \<Rightarrow> rt_err_t \<times> 'h drivers" where
  "rt_workqueue_cancel_work_sync_resume w d = cancel_work_sync_end w d"

definition rt_workqueue_cancel_all_work :: "ptr \<Rightarrow> 'h drivers \<Rightarrow> (rt_err_t \<times> 'h drivers) option" where
  "rt_workqueue_cancel_all_work q d = do {
     RT_ASSERT (q \<noteq> RT_NULL);
     let s = rt_enter_critical (kern d);
     let d = d\<lparr>work_lists := (work_lists d)(q := [])\<rparr>;
     s \<leftarrow> rt_exit_critical s;
     Some (RT_EOK, d\<lparr>kern := s\<rparr>) }"

text \<open>The system work queue.\<close>

definition rt_work_submit :: "nat \<Rightarrow> ptr \<Rightarrow> ptr \<Rightarrow> u32 \<Rightarrow> 'h drivers \<Rightarrow> (rt_err_t \<times> 'h drivers) option" where
  "rt_work_submit tmo sys_workq w time d = rt_workqueue_submit_work tmo sys_workq w time d"

definition rt_work_cancel :: "ptr \<Rightarrow> ptr \<Rightarrow> 'h drivers \<Rightarrow> (rt_err_t \<times> 'h drivers) option" where
  "rt_work_cancel sys_workq w d = rt_workqueue_cancel_work sys_workq w d"

section \<open>Frames and the scheduler invariant\<close>

lemma work_view [simp]:
  "kern (upd_work w f d) = kern d" "kern (set_current q w d) = kern d" "kern (set_delayed_queue w q d) = kern d"
  "kern (work_unlink w d) = kern d" "kern (work_append q w d) = kern d"
  "works (upd_work w f d) = (works d)(w := f (works d w))" "works (set_current q w d) = works d" "works (set_delayed_queue w q d) = works d"
  "works (work_unlink w d) = works d" "works (work_append q w d) = works d"
  "workqueues (upd_work w f d) = workqueues d" "workqueues (set_current q w d) = (workqueues d)(q := (workqueues d q)\<lparr>work_current := w\<rparr>)"
  "workqueues (set_delayed_queue w q d) = workqueues d" "workqueues (work_unlink w d) = workqueues d" "workqueues (work_append q w d) = workqueues d"
  "work_lists (upd_work w f d) = work_lists d" "work_lists (set_current q w d) = work_lists d" "work_lists (set_delayed_queue w q d) = work_lists d"
  "work_lists (work_unlink w d) = lists_remove w (work_lists d)" "work_lists (work_append q w d) = lists_push_back q w (work_lists d)"
  "delayed_queue (upd_work w f d) = delayed_queue d" "delayed_queue (set_current q w d) = delayed_queue d"
  "delayed_queue (set_delayed_queue w q d) = (delayed_queue d)(w := q)" "delayed_queue (work_unlink w d) = delayed_queue d"
  "delayed_queue (work_append q w d) = delayed_queue d"
  by (simp_all add: upd_work_def set_current_def set_delayed_queue_def work_unlink_def work_append_def)

lemma swf_wake_work_thread: "swf {} (kern d) \<Longrightarrow> wake_work_thread q d = Some d' \<Longrightarrow> swf {} (kern d')"
  by (auto simp: wake_work_thread_def bind_eq_Some_conv intro: swf_rt_schedule swf_rt_thread_resume)

lemma swf_workqueue_submit_work: "swf {} (kern d) \<Longrightarrow> workqueue_submit_work q w d = Some (e, d') \<Longrightarrow> swf {} (kern d')"
  by (auto simp: workqueue_submit_work_def Let_def bind_eq_Some_conv split: if_splits dest: swf_wake_work_thread [rotated])

lemma swf_workqueue_sleep: "swf {} (kern d) \<Longrightarrow> workqueue_sleep d = Some d' \<Longrightarrow> swf {} (kern d')"
  by (auto simp: workqueue_sleep_def bind_eq_Some_conv intro: swf_rt_schedule swf_rt_thread_suspend)

lemma pending_bits [simp]:
  "(x OR 1) AND 1 \<noteq> 0" "(x AND NOT 1) AND 1 = 0" "(x AND - 2) AND 1 = 0" "(x OR 2) AND 1 = x AND 1" for x :: u16
proof -
  have "bit ((x OR 1) AND 1) 0" by (simp add: bit_simps)
  then show "(x OR 1) AND 1 \<noteq> 0" by auto
  show z: "(x AND NOT 1) AND 1 = 0" by (rule bit_word_eqI) (auto simp: bit_simps)
  show "(x AND - 2) AND 1 = 0" using z by simp
  show "(x OR 2) AND 1 = x AND 1" by (rule bit_word_eqI) (auto simp: bit_simps bit_1_iff)
qed

section \<open>The end of a work item\<close>

text \<open>With the scheduler locked every waiting thread is made ready, and the semaphore is 0 again.\<close>

lemma work_completion_loop_total:
  assumes "swf {} s" "ipc_obj RT_Object_Class_Semaphore sem s" "sem_value (sems s sem) = 0" "lock_nest s \<noteq> 0" "waiters_ok (WaitQ sem) s"
  shows "\<exists>s'. work_completion_loop sem s = Some (RT_EOK, s') \<and> swf {} s' \<and> tlists s' (WaitQ sem) = [] \<and> sem_value (sems s' sem) = 0 \<and>
    lock_nest s' = lock_nest s \<and> cur s' = cur s \<and> (\<forall>r. o_type (objs s' r) = o_type (objs s r)) \<and> (\<forall>x. terror s' x = terror s x) \<and>
    (\<forall>x. (x \<in> set (tlists s (WaitQ sem)) \<longrightarrow> tstat s' x = 1 \<or> tstat s' x = 3) \<and> (x \<notin> set (tlists s (WaitQ sem)) \<longrightarrow> tstat s' x = tstat s x))"
  using assms
proof (induction "tlists s (WaitQ sem)" arbitrary: s)
  case Nil
  let ?u = "set_sem sem 1 s" let ?v = "set_sem sem 0 ?u"
  have u: "ipc_obj RT_Object_Class_Semaphore sem ?u" using Nil.prems(2) ipc_obj_cong [of ?u sem s] by (simp add: set_sem_def)
  have "work_completion_loop sem s = Some (RT_EOK, ?v)"
  proof -
    have "rt_sem_trytake sem s = Some (Done (- RT_ETIMEOUT), s)" "rt_sem_release sem s = Some (RT_EOK, ?u)" "rt_sem_trytake sem ?u = Some (Done RT_EOK, ?v)"
      using Nil u by (simp_all add: rt_sem_trytake_def rt_sem_take_def rt_sem_release_def)
    then show ?thesis by (subst work_completion_loop.simps) (simp, subst work_completion_loop.simps, simp)
  qed
  then show ?case using Nil by (simp add: tstat_def terror_def) (simp add: set_sem_def)
next
  case (Cons t ts)
  have q: "tlists s (WaitQ sem) = t # ts" using Cons.hyps(2) by simp
  have t: "thread_ok s t" using Cons.prems(5) q by (simp add: waiters_ok_def)
  obtain u where u: "rt_thread_resume t s = Some (RT_EOK, u)" "swf {} u" "ipc_frame s u" "cur u = cur s"
    "\<And>h'. not_ready_queue h' \<Longrightarrow> tlists u h' = ((tlists s)(WaitQ sem := ts)) h'" "tstat u t = (if t = cur s then 3 else 1)"
    "\<And>x. x \<noteq> t \<Longrightarrow> tstat u x = tstat s x" "\<And>x. terror u x = terror s x" "\<And>x. thread_ok u x = thread_ok s x" "\<And>x. o_type (objs u x) = o_type (objs s x)"
    using rt_thread_resume_waiter [OF Cons.prems(1) q wait_queue_simps(1) t] by metis
  have l: "lock_nest u = lock_nest s" "sems u = sems s" using u(3) by (simp_all add: ipc_frame_def)
  have uq: "tlists u (WaitQ sem) = ts" using u(5) [of "WaitQ sem"] by simp
  have o: "ipc_obj RT_Object_Class_Semaphore sem u" using Cons.prems(2) ipc_obj_cong [of u sem s] u(10) by simp
  have w: "waiters_ok (WaitQ sem) u" using Cons.prems(5) u(9) uq q by (simp add: waiters_ok_def)
  have v: "sem_value (sems u sem) = 0" "lock_nest u \<noteq> 0" using l Cons.prems(3,4) by simp_all
  obtain s' where s': "work_completion_loop sem u = Some (RT_EOK, s')" "swf {} s'" "tlists s' (WaitQ sem) = []" "sem_value (sems s' sem) = 0"
    "lock_nest s' = lock_nest u" "cur s' = cur u" "\<forall>r. o_type (objs s' r) = o_type (objs u r)" "\<forall>x. terror s' x = terror u x"
    "\<And>x. x \<in> set ts \<Longrightarrow> tstat s' x = 1 \<or> tstat s' x = 3" "\<And>x. x \<notin> set ts \<Longrightarrow> tstat s' x = tstat u x"
    using Cons.hyps(1) [OF uq [symmetric] u(2) o v w] uq by auto
  have "rt_sem_trytake sem s = Some (Done (- RT_ETIMEOUT), s)" using Cons.prems(2,3) by (simp add: rt_sem_trytake_def rt_sem_take_def)
  moreover have "rt_sem_release sem s = Some (RT_EOK, u)"
    using Cons.prems(2) q u(1) v(2) by (simp add: rt_sem_release_def rt_ipc_list_resume_def rt_schedule_idle)
  ultimately have "work_completion_loop sem s = Some (RT_EOK, s')" using s'(1) by (subst work_completion_loop.simps) simp
  moreover have "tstat s' t = 1 \<or> tstat s' t = 3" using s'(9,10) u(6) by (cases "t \<in> set ts") auto
  ultimately show ?case using s' u(4,7,8,10) l q by auto
qed

lemma workqueue_finish_total:
  assumes s: "swf {} (kern d)" "cur (kern d) \<noteq> RT_NULL" "lock_nest (kern d) = 0"
    and o: "ipc_obj RT_Object_Class_Semaphore (wq_sem q) (kern d)" "sem_value (sems (kern d) (wq_sem q)) = 0" "waiters_ok (WaitQ (wq_sem q)) (kern d)"
  obtains s' where "workqueue_finish q d = Some ((set_current q RT_NULL d)\<lparr>kern := s'\<rparr>)" "swf {} s'" "cur s' \<noteq> RT_NULL" "lock_nest s' = 0"
    "tlists s' (WaitQ (wq_sem q)) = []" "sem_value (sems s' (wq_sem q)) = 0" "\<And>r. o_type (objs s' r) = o_type (objs (kern d) r)"
    "\<And>x. terror s' x = terror (kern d) x" "\<And>x. x \<in> set (tlists (kern d) (WaitQ (wq_sem q))) \<Longrightarrow> tstat s' x = 1 \<or> tstat s' x = 3"
proof -
  let ?s = "kern d" let ?sem = "wq_sem q" let ?e = "rt_enter_critical ?s"
  have e: "swf {} ?e" "tlists ?e = tlists ?s" "sems ?e = sems ?s" "objs ?e = objs ?s" "cur ?e = cur ?s" "lock_nest ?e = 1" "\<And>x. tstat ?e x = tstat ?s x" "\<And>x. terror ?e x = terror ?s x"
    using s by (simp_all add: rt_enter_critical_def tstat_def terror_def)
  have o': "ipc_obj RT_Object_Class_Semaphore ?sem ?e" "waiters_ok (WaitQ ?sem) ?e"
    using o thread_ok_cong [of ?e ?s] e by (simp_all add: ipc_obj_def waiters_ok_def)
  obtain u where u: "work_completion_loop ?sem ?e = Some (RT_EOK, u)" "swf {} u" "tlists u (WaitQ ?sem) = []" "sem_value (sems u ?sem) = 0"
    "lock_nest u = 1" "cur u = cur ?s" "\<And>r. o_type (objs u r) = o_type (objs ?s r)" "\<And>x. terror u x = terror ?s x"
    "\<And>x. x \<in> set (tlists ?s (WaitQ ?sem)) \<Longrightarrow> tstat u x = 1 \<or> tstat u x = 3"
    using work_completion_loop_total [OF e(1) o'(1) _ _ o'(2)] o(2) e by auto
  let ?u = "u\<lparr>lock_nest := 0\<rparr>"
  have x: "rt_exit_critical u = rt_schedule ?u" using u(5,6) s(2) by (simp add: rt_exit_critical_def Let_def)
  have su: "swf {} ?u" "cur ?u \<noteq> 0" using u(2,6) s(2) by simp_all
  obtain s' where s': "rt_schedule ?u = Some s'" "swf {} s'" using rt_schedule_ok [OF su(1)] su(2) by (auto simp: okt_def)
  have f: "ipc_frame ?u s'" by (rule ipc_frame_rt_schedule [OF s'(1)])
  note so = sched_onlyD [OF rt_schedule_sched_only(1) [OF s'(1)]]
  show thesis
  proof (rule that [OF _ s'(2)])
    show "workqueue_finish q d = Some ((set_current q RT_NULL d)\<lparr>kern := s'\<rparr>)"
      using u(1) x s'(1) by (simp add: workqueue_finish_def workqueue_work_completion_def Let_def)
    show "cur s' \<noteq> RT_NULL" by (rule rt_schedule_cur [OF su(1) s'(1) su(2)])
    show "tlists s' (WaitQ ?sem) = []" using rt_schedule_states(3) [OF su(1) s'(1), of "WaitQ ?sem"] u(3) by simp
    show "tstat s' y = 1 \<or> tstat s' y = 3" if "y \<in> set (tlists ?s (WaitQ ?sem))" for y
      using rt_schedule_states(2) [OF su(1) s'(1), of y] u(9) [OF that] by (simp add: tstat_def)
    show "terror s' y = terror ?s y" for y using so(20) [of y] u(8) [of y] by (simp add: terror_def)
  qed (use f so u(4,7) in \<open>simp_all add: ipc_frame_def\<close>)
qed

section \<open>Submitting and running\<close>

text \<open>A kernel in which the semaphore of the queue is at rest; a work function that leaves the work queues alone and comes back to such a kernel.\<close>

definition wq_quiet :: "ptr \<Rightarrow> 'h kernel \<Rightarrow> bool" where
  "wq_quiet q s \<longleftrightarrow> swf {} s \<and> cur s \<noteq> RT_NULL \<and> lock_nest s = 0 \<and> ipc_obj RT_Object_Class_Semaphore (wq_sem q) s \<and>
     sem_value (sems s (wq_sem q)) = 0 \<and> tlists s (WaitQ (wq_sem q)) = []"

definition work_ok :: "'h work_fns \<Rightarrow> ptr \<Rightarrow> bool" where
  "work_ok user q \<longleftrightarrow> (\<forall>f w x d. wq_quiet q (kern d) \<longrightarrow> (\<exists>s'. user f w x d = Some (d\<lparr>kern := s'\<rparr>) \<and> wq_quiet q s'))"

fun submit_all :: "ptr \<Rightarrow> ptr list \<Rightarrow> 'h drivers \<Rightarrow> 'h drivers option" where
  "submit_all q [] d = Some d"
| "submit_all q (w # ws) d = do {
     (e, d) \<leftarrow> rt_workqueue_dowork q w d;
     RT_ASSERT (e = RT_EOK);
     submit_all q ws d }"

fun workqueue_rounds :: "'h work_fns \<Rightarrow> ptr \<Rightarrow> nat \<Rightarrow> 'h drivers \<Rightarrow> (ptr list \<times> 'h drivers) option" where
  "workqueue_rounds user q 0 d = Some ([], d)"
| "workqueue_rounds user q (Suc n) d = do {
     (w, d) \<leftarrow> workqueue_round user q d;
     (ws, d) \<leftarrow> workqueue_rounds user q n d;
     Some (w # ws, d) }"

definition pending :: "'h drivers \<Rightarrow> ptr \<Rightarrow> bool" where
  "pending d w \<longleftrightarrow> work_flags (works d w) AND RT_WORK_STATE_PENDING \<noteq> 0"

lemma workqueue_finish_quiet:
  assumes "wq_quiet q (kern d)"
  obtains s' where "workqueue_finish q d = Some ((set_current q RT_NULL d)\<lparr>kern := s'\<rparr>)" "wq_quiet q s'"
proof -
  have k: "swf {} (kern d)" "cur (kern d) \<noteq> RT_NULL" "lock_nest (kern d) = 0" "ipc_obj RT_Object_Class_Semaphore (wq_sem q) (kern d)"
    "sem_value (sems (kern d) (wq_sem q)) = 0" "waiters_ok (WaitQ (wq_sem q)) (kern d)"
    using assms by (simp_all add: wq_quiet_def waiters_ok_def)
  obtain s' where s': "workqueue_finish q d = Some ((set_current q RT_NULL d)\<lparr>kern := s'\<rparr>)" "swf {} s'" "cur s' \<noteq> RT_NULL" "lock_nest s' = 0"
    "tlists s' (WaitQ (wq_sem q)) = []" "sem_value (sems s' (wq_sem q)) = 0" "\<And>r. o_type (objs s' r) = o_type (objs (kern d) r)"
    by (rule workqueue_finish_total [OF k]) blast
  have "ipc_obj RT_Object_Class_Semaphore (wq_sem q) s'" using k(4) ipc_obj_cong [of s' "wq_sem q" "kern d"] s'(7) by simp
  then show thesis using that [OF s'(1)] s' by (simp add: wq_quiet_def)
qed

lemma submit_all_busy:
  assumes "q \<noteq> RT_NULL" "work_current (workqueues d q) \<noteq> RT_NULL" "distinct ws"
    "\<And>w. w \<in> set ws \<Longrightarrow> w \<noteq> RT_NULL \<and> \<not> pending d w \<and> w \<noteq> work_current (workqueues d q) \<and> \<not> in_some_list w (work_lists d)"
  shows "\<exists>d'. submit_all q ws d = Some d' \<and> work_lists d' = (work_lists d)(q := work_lists d q @ ws) \<and> workqueues d' = workqueues d \<and> kern d' = kern d \<and>
    (\<forall>w. pending d' w \<longleftrightarrow> w \<in> set ws \<or> pending d w)"
  using assms
proof (induction ws arbitrary: d)
  case (Cons w ws)
  let ?d = "upd_work w (\<lambda>r. r\<lparr>work_flags := work_flags r OR RT_WORK_STATE_PENDING\<rparr>) (work_append q w (work_unlink w d))"
  have w: "w \<noteq> RT_NULL" "\<not> pending d w" "w \<noteq> work_current (workqueues d q)" "\<not> in_some_list w (work_lists d)" using Cons.prems(4) [of w] by simp_all
  have r: "rt_workqueue_dowork q w d = Some (RT_EOK, ?d)"
    using Cons.prems(1,2) w by (simp add: rt_workqueue_dowork_def workqueue_submit_work_def pending_def Let_def)
  have l: "work_lists ?d = (work_lists d)(q := work_lists d q @ [w])" using lists_remove_free [OF w(4)] by (simp add: lists_push_back_def)
  have p: "pending ?d x \<longleftrightarrow> x = w \<or> pending d x" for x by (simp add: pending_def)
  have nx: "x \<noteq> RT_NULL \<and> \<not> pending ?d x \<and> x \<noteq> work_current (workqueues ?d q) \<and> \<not> in_some_list x (work_lists ?d)" if "x \<in> set ws" for x
    using Cons.prems(3) Cons.prems(4) [of x] that p by (auto simp: in_some_list_push_back)
  have cn: "work_current (workqueues ?d q) \<noteq> RT_NULL" and dn: "distinct ws" using Cons.prems(2,3) by simp_all
  obtain d' where "submit_all q ws ?d = Some d'" "work_lists d' = (work_lists ?d)(q := work_lists ?d q @ ws)" "workqueues d' = workqueues ?d"
    "kern d' = kern ?d" "\<forall>x. pending d' x \<longleftrightarrow> x \<in> set ws \<or> pending ?d x"
    using Cons.IH [OF Cons.prems(1) cn dn nx] by blast
  then show ?case using r l p by auto
qed simp

lemma workqueue_rounds_run:
  assumes "work_ok user q" "wq_quiet q (kern d)" "lists_disjoint (work_lists d)" "work_lists d q = ws"
  shows "\<exists>d'. workqueue_rounds user q (length ws) d = Some (ws, d') \<and> work_lists d' q = [] \<and> wq_quiet q (kern d') \<and>
    (\<forall>w. pending d' w \<longleftrightarrow> w \<notin> set ws \<and> pending d w)"
  using assms
proof (induction ws arbitrary: d)
  case (Cons w ws)
  let ?d = "upd_work w (\<lambda>r. r\<lparr>work_flags := work_flags r AND NOT RT_WORK_STATE_PENDING\<rparr>) (set_current q w (work_unlink w d))"
  have n: "workqueue_next q d = Some (w, ?d)" using Cons.prems(4) by (simp add: workqueue_next_def Let_def)
  have "wq_quiet q (kern ?d)" using Cons.prems(2) by simp
  then obtain s1 where s1: "user (work_func (works ?d w)) w (work_data (works ?d w)) ?d = Some (?d\<lparr>kern := s1\<rparr>)" "wq_quiet q s1"
    using Cons.prems(1) unfolding work_ok_def by blast
  have "wq_quiet q (kern (?d\<lparr>kern := s1\<rparr>))" using s1(2) by simp
  then obtain s2 where s2: "workqueue_finish q (?d\<lparr>kern := s1\<rparr>) = Some ((set_current q RT_NULL (?d\<lparr>kern := s1\<rparr>))\<lparr>kern := s2\<rparr>)" "wq_quiet q s2"
    by (rule workqueue_finish_quiet)
  let ?e = "(set_current q RT_NULL (?d\<lparr>kern := s1\<rparr>))\<lparr>kern := s2\<rparr>"
  have r: "workqueue_round user q d = Some (w, ?e)" using n s1(1) s2(1) by (simp add: workqueue_round_def)
  have nw: "w \<notin> set ws" using disjoint_distinct [OF Cons.prems(3), of q] Cons.prems(4) by simp
  have "lists_remove w (work_lists d) q = ws" using nw Cons.prems(4) by (simp add: lists_remove_def)
  then have l: "work_lists ?e q = ws" "lists_disjoint (work_lists ?e)" using disjoint_remove [OF Cons.prems(3)] by simp_all
  have p: "pending ?e x \<longleftrightarrow> x \<noteq> w \<and> pending d x" for x by (simp add: pending_def)
  have "wq_quiet q (kern ?e)" using s2(2) by simp
  then obtain d' where "workqueue_rounds user q (length ws) ?e = Some (ws, d')" "work_lists d' q = []" "wq_quiet q (kern d')"
    "\<forall>x. pending d' x \<longleftrightarrow> x \<notin> set ws \<and> pending ?e x"
    using Cons.IH [OF Cons.prems(1) _ l(2,1)] by blast
  then show ?case using r p by auto
qed simp

section \<open>Properties\<close>

text \<open>
  C19. Work items submitted while the work thread runs another one are run in the order of submission, each once: the submissions return
  \<^verbatim>\<open>RT_EOK\<close>, a second one of the same item before its turn is refused with \<^verbatim>\<open>-RT_EBUSY\<close>, and when the running item ends the work
  thread runs exactly these items in order, after which the queue is empty and all of them can be submitted again.
\<close>

theorem workqueue_runs_in_order:
  assumes u: "work_ok user q" and q: "q \<noteq> RT_NULL" "wq_quiet q (kern d)" and c: "work_current (workqueues d q) \<noteq> RT_NULL" "work_lists d q = []"
    and l: "lists_disjoint (work_lists d)"
    and ws: "distinct ws" "\<And>w. w \<in> set ws \<Longrightarrow> w \<noteq> RT_NULL \<and> \<not> pending d w \<and> w \<noteq> work_current (workqueues d q) \<and> \<not> in_some_list w (work_lists d)"
  shows "\<exists>d1 d2 d3. submit_all q ws d = Some d1 \<and> (\<forall>w \<in> set ws. rt_workqueue_dowork q w d1 = Some (- RT_EBUSY, d1)) \<and>
    workqueue_finish q d1 = Some d2 \<and> workqueue_rounds user q (length ws) d2 = Some (ws, d3) \<and> work_lists d3 q = [] \<and> (\<forall>w \<in> set ws. \<not> pending d3 w)"
proof -
  obtain d1 where d1: "submit_all q ws d = Some d1" "work_lists d1 = (work_lists d)(q := ws)" "workqueues d1 = workqueues d" "kern d1 = kern d"
    "\<And>w. pending d1 w \<longleftrightarrow> w \<in> set ws \<or> pending d w"
    using submit_all_busy [OF q(1) c(1) ws] c(2) by auto
  have b: "rt_workqueue_dowork q w d1 = Some (- RT_EBUSY, d1)" if "w \<in> set ws" for w
    using that d1(5) [of w] ws(2) q(1) by (simp add: rt_workqueue_dowork_def workqueue_submit_work_def pending_def)
  have "wq_quiet q (kern d1)" using q(2) d1(4) by simp
  then obtain s2 where s2: "workqueue_finish q d1 = Some ((set_current q RT_NULL d1)\<lparr>kern := s2\<rparr>)" "wq_quiet q s2" by (rule workqueue_finish_quiet)
  let ?d2 = "(set_current q RT_NULL d1)\<lparr>kern := s2\<rparr>"
  have "lists_disjoint ((work_lists d)(q := ws))"
    using l ws c(2) unfolding lists_disjoint_def in_some_list_def by auto
  then have d2: "wq_quiet q (kern ?d2)" "lists_disjoint (work_lists ?d2)" "work_lists ?d2 q = ws" using s2(2) d1(2) by simp_all
  obtain d3 where "workqueue_rounds user q (length ws) ?d2 = Some (ws, d3)" "work_lists d3 q = []" "\<And>w. pending d3 w \<longleftrightarrow> w \<notin> set ws \<and> pending ?d2 w"
    using workqueue_rounds_run [OF u d2] by blast
  then show ?thesis using d1(1) b s2(1) by blast
qed

text \<open>Queue 8 with its semaphore at 20; it runs the work item 40.\<close>

definition wq_demo :: "unit drivers" where
  "wq_demo = drivers_demo\<lparr>workqueues := (\<lambda>_. \<lparr>work_current = 40, work_thread = 6\<rparr>),
     kern := (ipc_demo 0)\<lparr>objs := (objs (ipc_demo 0))(Obj 20 := zero_object\<lparr>o_type := RT_Object_Class_Semaphore OR RT_Object_Class_Static\<rparr>)\<rparr>\<rparr>"

lemma wq_demo_view:
  "wq_quiet 8 (kern wq_demo)" "running (kern wq_demo)" "ready_group (kern wq_demo) \<noteq> 0" "cur (kern wq_demo) = 1" "o_flag (objs (kern wq_demo) (Obj 20)) = 0"
  "work_current (workqueues wq_demo 8) = 40" "work_thread (workqueues wq_demo 8) = 6" "work_lists wq_demo = (\<lambda>_. [])" "\<not> pending wq_demo w"
  "delayed_queue wq_demo w = RT_NULL" "work_type (works wq_demo w) = 0"
proof -
  have o: "objs (kern wq_demo) (Obj 20) = zero_object\<lparr>o_type := 0x82\<rparr>" by (simp add: wq_demo_def)
  show "o_flag (objs (kern wq_demo) (Obj 20)) = 0" by (simp add: o zero_object_def)
  have k: "tlists (kern wq_demo) = tlists (ipc_demo 0)" "sems (kern wq_demo) = sems (ipc_demo 0)" "\<And>X. swf X (kern wq_demo) = swf X (ipc_demo 0)"
    "lock_nest (kern wq_demo) = 0" "intr_nest (kern wq_demo) = intr_nest (ipc_demo 0)" "tstat (kern wq_demo) 1 = tstat (ipc_demo 0) 1"
    by (simp_all add: wq_demo_def ipc_demo_view tstat_def)
  show c: "cur (kern wq_demo) = 1" "ready_group (kern wq_demo) \<noteq> 0" by (simp_all add: wq_demo_def ipc_demo_view)
  have "tlists (ipc_demo 0) (WaitQ 20) = []" by (simp add: ipc_demo_def wait_demo_def sched_demo_view)
  moreover have "sem_value (sems (ipc_demo 0) 20) = 0" by (simp add: ipc_demo_def wait_demo_def thread_demo_def sched_demo_def zero_defs)
  ultimately show "wq_quiet 8 (kern wq_demo)" using k c ipc_demo_view(1) [of 0] o by (simp add: wq_quiet_def wq_sem_def ipc_obj_def)
  have "thread_ok (kern wq_demo) 1" using ipc_demo_view(8) [of 0] by (simp add: thread_ok_def timer_obj_def wq_demo_def)
  then show "running (kern wq_demo)" using ipc_demo_view(2) [of 0] k c by (simp add: running_def ipc_demo_view)
qed (simp_all add: wq_demo_def drivers_demo_def pending_def)

theorem workqueue_runs_in_order_witness:
  "\<exists>d1 d2 d3. submit_all 8 [100, 50, 200] wq_demo = Some d1 \<and> workqueue_finish 8 d1 = Some d2 \<and>
     workqueue_rounds (\<lambda>_ _ _. Some) 8 3 d2 = Some ([100, 50, 200], d3) \<and> work_lists d3 8 = []"
proof -
  have u: "work_ok (\<lambda>_ _ _. Some) 8" by (auto simp: work_ok_def) (metis drivers.surjective drivers.update_convs(7))
  have l: "lists_disjoint (work_lists wq_demo)" by (simp add: wq_demo_view lists_disjoint_def)
  have n: "w \<noteq> RT_NULL \<and> \<not> pending wq_demo w \<and> w \<noteq> work_current (workqueues wq_demo 8) \<and> \<not> in_some_list w (work_lists wq_demo)" if "w \<in> set [100, 50, 200]" for w :: ptr
    using that by (auto simp: wq_demo_view in_some_list_def)
  show ?thesis
    using workqueue_runs_in_order [where ws = "[100, 50, 200]", OF u _ wq_demo_view(1) _ _ l _ n] by (auto simp: wq_demo_view numeral_3_eq_3 simp del: submit_all.simps workqueue_rounds.simps)
qed

text \<open>
  C29. \<^verbatim>\<open>rt_workqueue_cancel_work_sync\<close> on the work item that is being run waits until it ends: the caller is suspended, the end of the work
  item makes it ready, and then the call returns \<^verbatim>\<open>RT_EOK\<close>, when the item is neither run nor pending. The queue's semaphore is back at 0.
\<close>

theorem rt_workqueue_cancel_work_sync_waits:
  assumes s: "running (kern d)" "wq_quiet q (kern d)" "o_flag (objs (kern d) (Obj (wq_sem q))) \<in> {RT_IPC_FLAG_FIFO, RT_IPC_FLAG_PRIO}"
    and q: "q \<noteq> RT_NULL" "w \<noteq> RT_NULL" "work_current (workqueues d q) = w"
  shows "\<exists>t d1 d2 d3. rt_workqueue_cancel_work_sync q w d = Some (Blocked t, d1) \<and> t = cur (kern d) \<and> tstat (kern d1) t = RT_THREAD_SUSPEND \<and>
    workqueue_finish q d1 = Some d2 \<and> (tstat (kern d2) t = RT_THREAD_READY \<or> tstat (kern d2) t = RT_THREAD_RUNNING) \<and>
    sem_value (sems (kern d2) (wq_sem q)) = 0 \<and> work_current (workqueues d2 q) \<noteq> w \<and>
    rt_workqueue_cancel_work_sync_resume w d2 = (RT_EOK, d3) \<and> \<not> pending d3 w"
proof -
  let ?sem = "wq_sem q" let ?t = "cur (kern d)"
  have k: "ipc_obj RT_Object_Class_Semaphore ?sem (kern d)" "sem_value (sems (kern d) ?sem) = 0" "tlists (kern d) (WaitQ ?sem) = []" "lock_nest (kern d) = 0"
    using s(2) by (simp_all add: wq_quiet_def)
  obtain s1 where s1: "rt_sem_take ?sem RT_WAITING_FOREVER (kern d) = Some (Blocked ?t, s1)" "swf {} s1" "ipc_frame (kern d) s1"
    "\<And>h'. not_ready_queue h' \<Longrightarrow> tlists s1 h' = ((tlists (kern d))(WaitQ ?sem := wait_insert (o_flag (objs (kern d) (Obj ?sem))) (tprio (kern d)) ?t (tlists (kern d) (WaitQ ?sem)))) h'"
    "tstat s1 ?t = 2" "\<And>r. o_type (objs s1 r) = o_type (objs (kern d) r)" "cur s1 \<noteq> 0"
    by (rule rt_sem_take_blocked [OF s(1) k(1) s(3) k(2), of RT_WAITING_FOREVER]) simp_all
  let ?d1 = "d\<lparr>kern := s1\<rparr>"
  have c: "rt_workqueue_cancel_work_sync q w d = Some (Blocked ?t, ?d1)"
    using q s1(1) by (simp add: rt_workqueue_cancel_work_sync_def)
  have l: "tlists s1 (WaitQ ?sem) = [?t]" using s1(4) [of "WaitQ ?sem"] k(3) by (simp add: wait_insert_def)
  have "thread_ok s1 ?t" using thread_ok_types [OF s1(6)] runningD(2) [OF s(1)] by simp
  then have w1: "waiters_ok (WaitQ ?sem) (kern ?d1)" using l by (simp add: waiters_ok_def)
  have o1: "ipc_obj RT_Object_Class_Semaphore ?sem (kern ?d1)" using k(1) ipc_obj_cong [of s1 ?sem "kern d"] s1(6) by simp
  have v1: "swf {} (kern ?d1)" "cur (kern ?d1) \<noteq> RT_NULL" "lock_nest (kern ?d1) = 0" "sem_value (sems (kern ?d1) ?sem) = 0"
    using s1(2,3,7) k(2,4) by (simp_all add: ipc_frame_def)
  obtain s2 where s2: "workqueue_finish q ?d1 = Some ((set_current q RT_NULL ?d1)\<lparr>kern := s2\<rparr>)" "sem_value (sems s2 ?sem) = 0"
    "\<And>x. x \<in> set (tlists (kern ?d1) (WaitQ ?sem)) \<Longrightarrow> tstat s2 x = 1 \<or> tstat s2 x = 3"
    by (rule workqueue_finish_total [OF v1(1-3) o1 v1(4) w1]) blast
  show ?thesis using c s1(5) s2 l q(2)
    by (auto simp: rt_workqueue_cancel_work_sync_resume_def cancel_work_sync_end_def pending_def)
qed

theorem rt_workqueue_cancel_work_sync_waits_witness:
  "\<exists>d1 d2 d3. rt_workqueue_cancel_work_sync 8 40 wq_demo = Some (Blocked 1, d1) \<and> workqueue_finish 8 d1 = Some d2 \<and>
     rt_workqueue_cancel_work_sync_resume 40 d2 = (RT_EOK, d3)"
  using rt_workqueue_cancel_work_sync_waits [OF wq_demo_view(2,1), of 40] by (auto simp: wq_demo_view wq_sem_def)

text \<open>A pending delayed work item: the two cancel functions call each other without end.\<close>

lemma workqueue_cancel_delayed_work_result:
  "workqueue_cancel_delayed_work w d = Some r \<Longrightarrow>
   \<not> (delayed_queue d w \<noteq> RT_NULL \<and> pending d w \<and> work_type (works d w) AND RT_WORK_TYPE_DELAYED \<noteq> 0)"
proof (rule workqueue_cancel_delayed_work.raw_induct
    [of "\<lambda>w d r. \<not> (delayed_queue d w \<noteq> RT_NULL \<and> pending d w \<and> work_type (works d w) AND RT_WORK_TYPE_DELAYED \<noteq> 0)"], goal_cases)
  case (1 f w d r)
  show ?case
  proof
    assume a: "delayed_queue d w \<noteq> RT_NULL \<and> pending d w \<and> work_type (works d w) AND RT_WORK_TYPE_DELAYED \<noteq> 0"
    then obtain r' where "f w d = Some r'" using 1(3) by (auto simp: Let_def pending_def bind_eq_Some_conv)
    then show False using 1(2) a by blast
  qed
qed

text \<open>
  C37. A delayed work item that is pending cannot be cancelled: \<^verbatim>\<open>rt_workqueue_cancel_work\<close> and \<^verbatim>\<open>_workqueue_cancel_delayed_work\<close> call each
  other with the same arguments and never return. So after a delayed work item has been submitted without delay while the work thread is
  busy, neither cancelling it nor submitting it once more returns.
\<close>

theorem rt_workqueue_cancel_delayed_diverges:
  assumes q: "q \<noteq> RT_NULL" "w \<noteq> RT_NULL" and w: "work_type (works d w) AND RT_WORK_TYPE_DELAYED \<noteq> 0" "\<not> pending d w" "delayed_queue d w = RT_NULL"
    and c: "work_current (workqueues d q) \<noteq> w" "work_current (workqueues d q) \<noteq> RT_NULL"
  shows "\<exists>d'. rt_workqueue_submit_work tmo q w 0 d = Some (RT_EOK, d') \<and> w \<in> set (work_lists d' q) \<and>
    rt_workqueue_cancel_work q w d' = None \<and> rt_workqueue_submit_work tmo q w time d' = None"
proof -
  let ?d = "upd_work w (\<lambda>r. r\<lparr>work_flags := work_flags r OR RT_WORK_STATE_PENDING\<rparr>) (work_append q w (work_unlink w (set_delayed_queue w q d)))"
  have s: "rt_workqueue_submit_work tmo q w 0 d = Some (RT_EOK, ?d)"
    using q w c by (simp add: rt_workqueue_submit_work_def workqueue_submit_delayed_work_def workqueue_submit_work_def pending_def Let_def)
  have n: "workqueue_cancel_delayed_work w ?d = None"
  proof (rule ccontr)
    assume "workqueue_cancel_delayed_work w ?d \<noteq> None"
    then obtain r where "workqueue_cancel_delayed_work w ?d = Some r" by blast
    from workqueue_cancel_delayed_work_result [OF this] show False using q(1) w(1) by (simp add: pending_def)
  qed
  have "rt_workqueue_cancel_work q w ?d = None" "rt_workqueue_submit_work tmo q w time ?d = None"
    using q w(1) n by (simp_all add: rt_workqueue_cancel_work_def rt_workqueue_submit_work_def workqueue_submit_delayed_work_def)
  then show ?thesis using s by (auto simp: lists_push_back_def)
qed

theorem rt_workqueue_cancel_delayed_diverges_witness:
  "\<exists>d d'. rt_delayed_work_init 100 1 0 wq_demo = Some d \<and> rt_workqueue_submit_work 1 8 100 0 d = Some (RT_EOK, d') \<and> rt_workqueue_cancel_work 8 100 d' = None"
proof -
  let ?d = "upd_work 100 (\<lambda>r. r\<lparr>work_type := 1\<rparr>) (upd_work 100 (\<lambda>_. \<lparr>work_func = 1, work_data = 0, work_flags = 0, work_type = 0\<rparr>) wq_demo)"
  have "rt_delayed_work_init 100 1 0 wq_demo = Some ?d"
    by (simp add: rt_delayed_work_init_def rt_work_init_def wq_demo_view in_some_list_def)
  moreover have "\<exists>d'. rt_workqueue_submit_work 1 8 100 0 ?d = Some (RT_EOK, d') \<and> 100 \<in> set (work_lists d' 8) \<and>
      rt_workqueue_cancel_work 8 100 d' = None \<and> rt_workqueue_submit_work 1 8 100 5 d' = None"
    by (rule rt_workqueue_cancel_delayed_diverges) (simp_all add: wq_demo_view pending_def)
  ultimately show ?thesis by blast
qed

text \<open>
  \<^verbatim>\<open>rt_workqueue_cancel_all_work\<close> leaves the cancelled work items marked as pending: they are in no list and will not be run, but every
  later attempt to submit one of them is refused with \<^verbatim>\<open>-RT_EBUSY\<close>.
\<close>

theorem rt_workqueue_cancel_all_keeps_pending:
  assumes s: "swf {} (kern d)" "cur (kern d) \<noteq> RT_NULL" "lock_nest (kern d) = 0" and q: "q \<noteq> RT_NULL" and l: "lists_disjoint (work_lists d)"
    and w: "w \<in> set (work_lists d q)" "w \<noteq> RT_NULL" "pending d w"
  shows "\<exists>d'. rt_workqueue_cancel_all_work q d = Some (RT_EOK, d') \<and> \<not> in_some_list w (work_lists d') \<and> rt_workqueue_dowork q w d' = Some (- RT_EBUSY, d')"
proof -
  obtain s' where s': "rt_exit_critical (rt_enter_critical (kern d)) = Some s'"
    using rt_exit_enter_critical [of "kern d"] rt_schedule_ok [OF s(1)] s by (auto simp: okt_def)
  have "\<not> in_some_list w ((work_lists d)(q := []))" using l w(1) by (auto simp: in_some_list_def lists_disjoint_def)
  then show ?thesis
    using q s' w(2,3) by (simp add: rt_workqueue_cancel_all_work_def rt_workqueue_dowork_def workqueue_submit_work_def pending_def Let_def)
qed

theorem rt_workqueue_cancel_all_keeps_pending_witness:
  "\<exists>d d'. submit_all 8 [100, 50] wq_demo = Some d \<and> rt_workqueue_cancel_all_work 8 d = Some (RT_EOK, d') \<and> work_lists d' 8 = [] \<and>
     rt_workqueue_dowork 8 50 d' = Some (- RT_EBUSY, d')"
proof -
  have n: "w \<noteq> RT_NULL \<and> \<not> pending wq_demo w \<and> w \<noteq> work_current (workqueues wq_demo 8) \<and> \<not> in_some_list w (work_lists wq_demo)" if "w \<in> set [100, 50]" for w :: ptr
    using that by (auto simp: wq_demo_view in_some_list_def)
  obtain d where d: "submit_all 8 [100, 50] wq_demo = Some d" "work_lists d = (work_lists wq_demo)(8 := work_lists wq_demo 8 @ [100, 50])"
    "kern d = kern wq_demo" "\<And>w. pending d w \<longleftrightarrow> w \<in> set [100, 50] \<or> pending wq_demo w"
    using submit_all_busy [where ws = "[100, 50]", of 8 wq_demo, OF _ _ _ n] by (auto simp: wq_demo_view simp del: submit_all.simps)
  have "lists_disjoint (work_lists d)" by (auto simp: d(2) wq_demo_view lists_disjoint_def)
  moreover have "swf {} (kern d)" "cur (kern d) \<noteq> RT_NULL" "lock_nest (kern d) = 0" using wq_demo_view(1) d(3) by (simp_all add: wq_quiet_def)
  ultimately obtain d' where "rt_workqueue_cancel_all_work 8 d = Some (RT_EOK, d')" "rt_workqueue_dowork 8 50 d' = Some (- RT_EBUSY, d')"
    using rt_workqueue_cancel_all_keeps_pending [of d 8 50] d(2,4) by auto
  then show ?thesis using d(1) by (auto simp: rt_workqueue_cancel_all_work_def Let_def bind_eq_Some_conv simp del: submit_all.simps)
qed

text \<open>
  C39. Two races of the work thread. If a work item is submitted, by an interrupt, after the thread has found its list empty and before it has
  suspended itself, \<^verbatim>\<open>rt_thread_resume\<close> has no effect and the thread goes to sleep with the item in its list and no item being run. And if
  the item that has woken the thread is cancelled before the thread runs, the thread takes the head of the empty list for a work item.
\<close>

theorem workqueue_races:
  assumes q: "q \<noteq> RT_NULL" "w \<noteq> RT_NULL" "swf {} (kern d)" "thread_ok (kern d) t" "work_thread (workqueues d q) = t"
    and w: "\<not> pending d w" "\<not> in_some_list w (work_lists d)" "work_type (works d w) = 0" "work_current (workqueues d q) = RT_NULL" "workqueue_idle q d"
  shows "(tstat (kern d) t = RT_THREAD_RUNNING \<and> cur (kern d) = t \<and> (\<forall>x. tstat (kern d) x = RT_THREAD_READY \<longrightarrow> tprio (kern d) t < tprio (kern d) x) \<longrightarrow>
      (\<exists>d1 d2. rt_workqueue_dowork q w d = Some (RT_EOK, d1) \<and> workqueue_sleep d1 = Some d2 \<and>
         tstat (kern d2) t = RT_THREAD_SUSPEND \<and> work_lists d2 q = [w] \<and> work_current (workqueues d2 q) = RT_NULL)) \<and>
    (tstat (kern d) t = RT_THREAD_SUSPEND \<and> cur (kern d) \<noteq> RT_NULL \<longrightarrow>
      (\<exists>d1 d2. rt_workqueue_dowork q w d = Some (RT_EOK, d1) \<and> (tstat (kern d1) t = RT_THREAD_READY \<or> tstat (kern d1) t = RT_THREAD_RUNNING) \<and>
         rt_workqueue_cancel_work q w d1 = Some (RT_EOK, d2) \<and> workqueue_next q d2 = None))"
proof (intro conjI impI; elim conjE)
  let ?d = "upd_work w (\<lambda>r. r\<lparr>work_flags := work_flags r OR RT_WORK_STATE_PENDING\<rparr>) (work_append q w (work_unlink w d))"
  have sub: "rt_workqueue_dowork q w d = do { d \<leftarrow> wake_work_thread q ?d; Some (RT_EOK, d) }"
    using q(1,2) w(1,4) by (simp add: rt_workqueue_dowork_def workqueue_submit_work_def pending_def Let_def)
  have l: "work_lists ?d = (work_lists d)(q := [w])" using lists_remove_free [OF w(2)] w(5) by (simp add: lists_push_back_def workqueue_idle_def)
  show "\<exists>d1 d2. rt_workqueue_dowork q w d = Some (RT_EOK, d1) \<and> workqueue_sleep d1 = Some d2 \<and>
      tstat (kern d2) t = RT_THREAD_SUSPEND \<and> work_lists d2 q = [w] \<and> work_current (workqueues d2 q) = RT_NULL"
    if r: "tstat (kern d) t = RT_THREAD_RUNNING" "cur (kern d) = t" and p: "\<forall>x. tstat (kern d) x = RT_THREAD_READY \<longrightarrow> tprio (kern d) t < tprio (kern d) x"
  proof -
    let ?s = "kern d"
    have rs: "tstat ?s (cur ?s) = 3" "cur ?s \<noteq> 0" using r q(4) by (simp_all add: thread_ok_def)
    have res: "rt_thread_resume t ?s = Some (- RT_ERROR, ?s)" using q(4) rs(1) r(2) by (simp add: rt_thread_resume_def)
    have "\<exists>s'. rt_schedule ?s = Some s' \<and> swf {} s' \<and> cur s' = t \<and> tstat s' t = 3 \<and> objs s' = objs ?s"
    proof (cases "lock_nest ?s = 0 \<and> ready_group ?s \<noteq> 0")
      case True
      note h = swf_highest [OF q(3) conjunct2 [OF True]]
      have "hd (tlists ?s (ReadyQ (rt_ffs (ready_group ?s) - 1))) \<in> set (tlists ?s (ReadyQ (rt_ffs (ready_group ?s) - 1)))" using h(2) by simp
      from swf_readyq [OF q(3) this] p have lt: "tprio ?s (cur ?s) < rt_ffs (ready_group ?s) - 1" using r(2) by auto
      have "rt_schedule ?s = Some (set_stat (cur ?s) 3 (dequeued (cur ?s) ?s))" using rt_schedule_keep [OF q(3)] True rs lt by simp
      moreover from this obtain s' where "rt_schedule ?s = Some s'" "swf {} s'" using rt_schedule_ok [OF q(3)] rs(2) by (auto simp: okt_def)
      ultimately show ?thesis using r(2) by (auto simp: tstat_set_stat)
    qed (use q(3) r(2) rs(1) in \<open>auto simp: rt_schedule_idle\<close>)
    then obtain s1 where s1: "rt_schedule ?s = Some s1" "swf {} s1" "cur s1 = t" "tstat s1 t = 3" "objs s1 = objs ?s" by blast
    let ?d1 = "?d\<lparr>kern := s1\<rparr>"
    have d1: "rt_workqueue_dowork q w d = Some (RT_EOK, ?d1)" using sub res s1(1) q(5) by (simp add: wake_work_thread_def)
    have "thread_ok s1 t" using q(4) thread_ok_cong [OF s1(5)] by simp
    then obtain u where u: "rt_thread_suspend t s1 = Some (RT_EOK, u)" "obj_only (set_stat t 2 (dequeued t s1)) u" "swf {} u"
      using rt_thread_suspend_total [OF s1(2), of t] s1(4) by metis
    note o = obj_onlyD [OF u(2)]
    have cu: "cur u = t" "tstat u t = 2" "t \<noteq> 0" using o(18) s1(3) q(4) by (simp_all add: o tstat_set_stat thread_ok_def)
    obtain s2 where s2: "rt_schedule u = Some s2" using rt_schedule_ok [OF u(3)] cu by (auto simp: okt_def)
    have "tstat s2 t = 2" using rt_schedule_states(1) [OF u(3) s2, of t] cu(2) by simp
    then show ?thesis using d1 u(1) s2 l s1(3) w(4) by (auto simp: workqueue_sleep_def rt_thread_self_def)
  qed
  show "\<exists>d1 d2. rt_workqueue_dowork q w d = Some (RT_EOK, d1) \<and> (tstat (kern d1) t = RT_THREAD_READY \<or> tstat (kern d1) t = RT_THREAD_RUNNING) \<and>
      rt_workqueue_cancel_work q w d1 = Some (RT_EOK, d2) \<and> workqueue_next q d2 = None"
    if t: "tstat (kern d) t = RT_THREAD_SUSPEND" and c: "cur (kern d) \<noteq> RT_NULL"
  proof -
    obtain u where u: "rt_thread_resume t (kern d) = Some (RT_EOK, enqueued t u)" "obj_only (unlink_thread t (kern d)) u" "swf {} (enqueued t u)"
      using rt_thread_resume_total [OF q(3,4) t] by metis
    note o = obj_onlyD [OF u(2)]
    have "cur (enqueued t u) \<noteq> 0" using c o by simp
    then obtain s1 where s1: "rt_schedule (enqueued t u) = Some s1" using rt_schedule_ok [OF u(3)] by (auto simp: okt_def)
    have st: "tstat s1 t = 1 \<or> tstat s1 t = 3" using rt_schedule_states(2) [OF u(3) s1, of t] by (simp add: tstat_enqueued split: if_splits)
    let ?d1 = "?d\<lparr>kern := s1\<rparr>"
    have d1: "rt_workqueue_dowork q w d = Some (RT_EOK, ?d1)" using sub u(1) s1 q(5) by (simp add: wake_work_thread_def)
    have "work_lists (work_unlink w ?d1) q = removeAll w (work_lists ?d q)" by (simp add: lists_remove_def)
    also have "\<dots> = []" unfolding l by simp
    finally have e: "work_lists (work_unlink w ?d1) q = []" .
    let ?d2 = "upd_work w (\<lambda>r. r\<lparr>work_flags := work_flags r AND NOT RT_WORK_STATE_PENDING\<rparr>) (work_unlink w ?d1)"
    have "rt_workqueue_cancel_work q w ?d1 = Some (RT_EOK, ?d2)"
      using q(1,2) w(3,4) by (simp add: rt_workqueue_cancel_work_def workqueue_cancel_work_def)
    moreover have "workqueue_next q ?d2 = None" unfolding workqueue_next_def work_view(16) e by simp
    moreover have "tstat (kern ?d1) t = RT_THREAD_READY \<or> tstat (kern ?d1) t = RT_THREAD_RUNNING" using st by simp
    ultimately show ?thesis using d1 by blast
  qed
qed

theorem workqueue_races_witness:
  "\<exists>d1 d2. rt_workqueue_dowork 8 100 (set_current 8 RT_NULL wq_demo) = Some (RT_EOK, d1) \<and>
     rt_workqueue_cancel_work 8 100 d1 = Some (RT_EOK, d2) \<and> workqueue_next 8 d2 = None"
proof -
  let ?d = "set_current 8 RT_NULL wq_demo"
  have "thread_ok (kern wq_demo) 6" using ipc_demo_view(7) [of 0] by (simp add: thread_ok_def timer_obj_def wq_demo_def)
  moreover have "tstat (kern wq_demo) 6 = RT_THREAD_SUSPEND"
    by (simp add: wq_demo_def ipc_demo_def wait_demo_def thread_demo_def tstat_def sched_demo_def zero_defs)
  moreover have "\<not> pending ?d 100" using wq_demo_view(9) [of 100] by (simp add: pending_def)
  ultimately show ?thesis
    using workqueue_races [of 8 100 ?d 6] wq_demo_view(1,8,9) by (auto simp: wq_demo_view wq_quiet_def workqueue_idle_def in_some_list_def)
qed

end
