(* ===== verification/RT_Finsh_Vm.thy ===== *)
theory RT_Finsh_Vm
  imports RT_Bytes "HOL-Library.Signed_Division"
begin

text \<open>
  The finsh shell, part one: its data (\<^verbatim>\<open>finsh.h\<close>, \<^verbatim>\<open>finsh_var.h\<close>) and its virtual machine (\<^verbatim>\<open>finsh_vm.c\<close>, \<^verbatim>\<open>finsh_ops.c\<close>), a stack
  machine that runs byte code. It is compared with a machine that works on a list of instructions and splits the stack at its top
  (\<open>exec\<close>). A command, its variables and what its pointers refer to live in the memory of bytes of \<open>RT_Bytes\<close>, which does not hold the
  stack and the code themselves. Values are 32 bits wide, a \<^verbatim>\<open>char\<close> is unsigned, and sums, differences and products of \<^verbatim>\<open>long\<close>s wrap
  around; a division by zero or an overflowing one and a shift by a negative amount or by 32 or more have no result.
\<close>

section \<open>Types, variables, state\<close>

datatype finsh_type = finsh_type_unknown | finsh_type_void | finsh_type_voidp | finsh_type_char | finsh_type_uchar | finsh_type_charp
  | finsh_type_short | finsh_type_ushort | finsh_type_shortp | finsh_type_int | finsh_type_uint | finsh_type_intp
  | finsh_type_long | finsh_type_ulong | finsh_type_longp

abbreviation (input) FINSH_NAME_MAX :: nat where "FINSH_NAME_MAX \<equiv> 16"
abbreviation (input) FINSH_NODE_MAX :: nat where "FINSH_NODE_MAX \<equiv> 16"
abbreviation (input) FINSH_VARIABLE_MAX :: nat where "FINSH_VARIABLE_MAX \<equiv> 8"
abbreviation (input) FINSH_STACK_MAX :: nat where "FINSH_STACK_MAX \<equiv> 64"
abbreviation (input) FINSH_TEXT_MAX :: nat where "FINSH_TEXT_MAX \<equiv> 128"

abbreviation (input) FINSH_ERROR_OK :: u8 where "FINSH_ERROR_OK \<equiv> 0"
abbreviation (input) FINSH_ERROR_INVALID_TOKEN :: u8 where "FINSH_ERROR_INVALID_TOKEN \<equiv> 1"
abbreviation (input) FINSH_ERROR_EXPECT_TYPE :: u8 where "FINSH_ERROR_EXPECT_TYPE \<equiv> 2"
abbreviation (input) FINSH_ERROR_UNKNOWN_TYPE :: u8 where "FINSH_ERROR_UNKNOWN_TYPE \<equiv> 3"
abbreviation (input) FINSH_ERROR_VARIABLE_EXIST :: u8 where "FINSH_ERROR_VARIABLE_EXIST \<equiv> 4"
abbreviation (input) FINSH_ERROR_EXPECT_OPERATOR :: u8 where "FINSH_ERROR_EXPECT_OPERATOR \<equiv> 5"
abbreviation (input) FINSH_ERROR_MEMORY_FULL :: u8 where "FINSH_ERROR_MEMORY_FULL \<equiv> 6"
abbreviation (input) FINSH_ERROR_UNKNOWN_NODE :: u8 where "FINSH_ERROR_UNKNOWN_NODE \<equiv> 8"
abbreviation (input) FINSH_ERROR_EXPECT_CHAR :: u8 where "FINSH_ERROR_EXPECT_CHAR \<equiv> 9"
abbreviation (input) FINSH_ERROR_UNEXPECT_END :: u8 where "FINSH_ERROR_UNEXPECT_END \<equiv> 10"
abbreviation (input) FINSH_ERROR_UNKNOWN_TOKEN :: u8 where "FINSH_ERROR_UNKNOWN_TOKEN \<equiv> 11"
abbreviation (input) FINSH_ERROR_UNKNOWN_SYMBOL :: u8 where "FINSH_ERROR_UNKNOWN_SYMBOL \<equiv> 13"
abbreviation (input) FINSH_ERROR_NULL_NODE :: u8 where "FINSH_ERROR_NULL_NODE \<equiv> 14"

text \<open>The name and type of a variable; its value is in memory.\<close>

record finsh_var =
  var_name :: string
  var_type :: finsh_type

record finsh_sysvar =
  sysvar_name :: string
  sysvar_type :: finsh_type
  sysvar_var :: u32

record finsh_syscall =
  syscall_name :: string
  syscall_func :: u32

text \<open>
  The global variables of the shell. The tables of system variables and calls, and the lists of those added at run time, give each entry
  with its address; \<open>global_variable_addr\<close> and \<open>finsh_heap_addr\<close> are where the arrays lie in memory. Of the table of nodes only the
  number in use matters, as a node is never given back alone.
\<close>

record finsh =
  finsh_vm_stack :: "u32 list"
  finsh_sp :: nat
  text_segment :: "u8 list"
  finsh_pc :: nat
  finsh_compile_pc :: nat
  global_errno :: u8
  fmem :: memory
  global_variable :: "finsh_var list"
  global_variable_addr :: ptr
  sysvar_table :: "(ptr \<times> finsh_sysvar) list"
  global_sysvar_list :: "(ptr \<times> finsh_sysvar) list"
  syscall_table :: "(ptr \<times> finsh_syscall) list"
  global_syscall_list :: "(ptr \<times> finsh_syscall) list"
  nodes_used :: nat
  finsh_heap_addr :: ptr
  free_list :: ptr
  allocate_list :: ptr

definition finsh_error_set :: "u8 \<Rightarrow> finsh \<Rightarrow> finsh" where
  "finsh_error_set type s = s\<lparr>global_errno := type\<rparr>"

text \<open>A function called by a command: from the argument words and the memory to the result and the memory, or it does not return.\<close>

type_synonym syscalls = "u32 \<Rightarrow> u32 list \<Rightarrow> memory \<Rightarrow> (u32 \<times> memory) option"

section \<open>Stack cells\<close>

text \<open>
  A cell is a \<^verbatim>\<open>union finsh_value\<close>: \<open>get_value\<close> reads a member and promotes it to \<^verbatim>\<open>int\<close>, \<open>put_value\<close> writes one and leaves the
  remaining bytes of the cell.
\<close>

datatype width = W8 | W16 | W32

fun get_value :: "width \<Rightarrow> u32 \<Rightarrow> u32" where
  "get_value W8 c = ucast (ucast c :: u8)"
| "get_value W16 c = scast (ucast c :: u16)"
| "get_value W32 c = c"

fun put_value :: "width \<Rightarrow> u32 \<Rightarrow> u32 \<Rightarrow> u32" where
  "put_value W8 c v = (c AND 0xFFFFFF00) OR (v AND 0xFF)"
| "put_value W16 c v = (c AND 0xFFFF0000) OR (v AND 0xFFFF)"
| "put_value W32 c v = v"

text \<open>The same for a \<^verbatim>\<open>char\<close>, \<^verbatim>\<open>short\<close> or \<^verbatim>\<open>long\<close> in memory.\<close>

fun load_value :: "width \<Rightarrow> memory \<Rightarrow> u32 \<Rightarrow> u32" where
  "load_value W8 m a = ucast (m (unat a))"
| "load_value W16 m a = ucast (m (unat a)) OR push_bit 8 (ucast (m (unat a + 1)))"
| "load_value W32 m a = load32 m (unat a)"

fun store_value :: "width \<Rightarrow> u32 \<Rightarrow> u32 \<Rightarrow> memory \<Rightarrow> memory" where
  "store_value W8 a v m = m(unat a := ucast v)"
| "store_value W16 a v m = m(unat a := ucast v, unat a + 1 := ucast (drop_bit 8 v))"
| "store_value W32 a v m = store32 (unat a) v m"

datatype bin_op = Add | Sub | Div | Mod | Mul | And | Or | Xor | Shl | Shr

fun c_operator :: "bin_op \<Rightarrow> u32 \<Rightarrow> u32 \<Rightarrow> u32 option" where
  "c_operator Add a b = Some (a + b)"
| "c_operator Sub a b = Some (a - b)"
| "c_operator Mul a b = Some (a * b)"
| "c_operator Div a b = (if b = 0 \<or> a = 0x80000000 \<and> b = 0xFFFFFFFF then None else Some (word_of_int (sint a sdiv sint b)))"
| "c_operator Mod a b = (if b = 0 \<or> a = 0x80000000 \<and> b = 0xFFFFFFFF then None else Some (word_of_int (sint a smod sint b)))"
| "c_operator And a b = Some (a AND b)"
| "c_operator Or a b = Some (a OR b)"
| "c_operator Xor a b = Some (a XOR b)"
| "c_operator Shl a b = (if b < 32 then Some (push_bit (unat b) a) else None)"
| "c_operator Shr a b = (if b < 32 then Some (signed_drop_bit (unat b) a) else None)"

text \<open>Cell \<open>finsh_sp - k\<close> and access to it; the array has no other cells.\<close>

definition cell :: "nat \<Rightarrow> finsh \<Rightarrow> u32 option" where
  "cell k s = (if k \<le> finsh_sp s \<and> finsh_sp s - k < FINSH_STACK_MAX then Some (finsh_vm_stack s ! (finsh_sp s - k)) else None)"

definition set_cell :: "nat \<Rightarrow> u32 \<Rightarrow> finsh \<Rightarrow> finsh option" where
  "set_cell k v s = (if k \<le> finsh_sp s \<and> finsh_sp s - k < FINSH_STACK_MAX
     then Some (s\<lparr>finsh_vm_stack := (finsh_vm_stack s)[finsh_sp s - k := v]\<rparr>) else None)"

definition sp_up :: "finsh \<Rightarrow> finsh" where
  "sp_up s = s\<lparr>finsh_sp := finsh_sp s + 1\<rparr>"

definition sp_down :: "finsh \<Rightarrow> finsh option" where
  "sp_down s = (if 0 < finsh_sp s then Some (s\<lparr>finsh_sp := finsh_sp s - 1\<rparr>) else None)"

text \<open>The next \<open>n\<close> bytes of the code, as a number, lowest byte first.\<close>

fun bytes_value :: "u8 list \<Rightarrow> u32" where
  "bytes_value [] = 0"
| "bytes_value (b # bs) = ucast b OR push_bit 8 (bytes_value bs)"

definition get_code :: "nat \<Rightarrow> finsh \<Rightarrow> u32 option" where
  "get_code n s = (if finsh_pc s + n \<le> FINSH_TEXT_MAX then Some (bytes_value (take n (drop (finsh_pc s) (text_segment s)))) else None)"

definition pc_up :: "nat \<Rightarrow> finsh \<Rightarrow> finsh" where
  "pc_up n s = s\<lparr>finsh_pc := finsh_pc s + n\<rparr>"

section \<open>Operations\<close>

definition OP_no_op :: "finsh \<Rightarrow> finsh option" where
  "OP_no_op s = Some s"

definition OP_BIN :: "bin_op \<Rightarrow> width \<Rightarrow> finsh \<Rightarrow> finsh option" where
  "OP_BIN x w s = do {
     a \<leftarrow> cell 2 s;
     b \<leftarrow> cell 1 s;
     r \<leftarrow> c_operator x (get_value w a) (get_value w b);
     s \<leftarrow> set_cell 2 (put_value w a r) s;
     sp_down s }"

text \<open>One function for each width, with the suffixes \<^verbatim>\<open>_byte\<close>, \<^verbatim>\<open>_word\<close> and \<^verbatim>\<open>_dword\<close>.\<close>

definition OP_add :: "width \<Rightarrow> finsh \<Rightarrow> finsh option" where "OP_add = OP_BIN Add"
definition OP_sub :: "width \<Rightarrow> finsh \<Rightarrow> finsh option" where "OP_sub = OP_BIN Sub"
definition OP_div :: "width \<Rightarrow> finsh \<Rightarrow> finsh option" where "OP_div = OP_BIN Div"
definition OP_mod :: "width \<Rightarrow> finsh \<Rightarrow> finsh option" where "OP_mod = OP_BIN Mod"
definition OP_mul :: "width \<Rightarrow> finsh \<Rightarrow> finsh option" where "OP_mul = OP_BIN Mul"
definition OP_and :: "width \<Rightarrow> finsh \<Rightarrow> finsh option" where "OP_and = OP_BIN And"
definition OP_or :: "width \<Rightarrow> finsh \<Rightarrow> finsh option" where "OP_or = OP_BIN Or"
definition OP_xor :: "width \<Rightarrow> finsh \<Rightarrow> finsh option" where "OP_xor = OP_BIN Xor"
definition OP_shl :: "width \<Rightarrow> finsh \<Rightarrow> finsh option" where "OP_shl = OP_BIN Shl"
definition OP_shr :: "width \<Rightarrow> finsh \<Rightarrow> finsh option" where "OP_shr = OP_BIN Shr"

definition OP_bw :: "width \<Rightarrow> finsh \<Rightarrow> finsh option" where
  "OP_bw w s = do {
     a \<leftarrow> cell 1 s;
     set_cell 1 (put_value w a (NOT (get_value w a))) s }"

fun width_bytes :: "width \<Rightarrow> nat" where
  "width_bytes W8 = 1" | "width_bytes W16 = 2" | "width_bytes W32 = 4"

definition OP_ld :: "width \<Rightarrow> finsh \<Rightarrow> finsh option" where
  "OP_ld w s = do {
     c \<leftarrow> cell 0 s;
     v \<leftarrow> get_code (width_bytes w) s;
     s \<leftarrow> set_cell 0 (put_value w c v) s;
     Some (pc_up (width_bytes w) (sp_up s)) }"

definition OP_ld_value :: "width \<Rightarrow> finsh \<Rightarrow> finsh option" where
  "OP_ld_value w s = do {
     a \<leftarrow> get_code 4 s;
     c \<leftarrow> cell 0 s;
     s \<leftarrow> set_cell 0 (put_value w c (load_value w (fmem s) a)) s;
     Some (pc_up 4 (sp_up s)) }"

definition OP_ld_value_stack :: "width \<Rightarrow> finsh \<Rightarrow> finsh option" where
  "OP_ld_value_stack w s = do {
     a \<leftarrow> cell 1 s;
     set_cell 1 (put_value w a (load_value w (fmem s) a)) s }"

definition OP_st :: "width \<Rightarrow> finsh \<Rightarrow> finsh option" where
  "OP_st w s = do {
     a \<leftarrow> cell 2 s;
     v \<leftarrow> cell 1 s;
     sp_down (s\<lparr>fmem := store_value w a v (fmem s)\<rparr>) }"

definition OP_pop :: "finsh \<Rightarrow> finsh option" where
  "OP_pop s = sp_down s"

text \<open>The parameters, fetched from the last one; \<^verbatim>\<open>parameterv\<close> has room for 16.\<close>

fun call_parameters :: "nat \<Rightarrow> u32 list \<Rightarrow> finsh \<Rightarrow> (u32 list \<times> finsh) option" where
  "call_parameters 0 parameterv s = Some (parameterv, s)"
| "call_parameters (Suc n) parameterv s = do {
     v \<leftarrow> cell 0 s;
     s \<leftarrow> sp_down s;
     call_parameters n (v # parameterv) s }"

definition OP_call :: "syscalls \<Rightarrow> finsh \<Rightarrow> finsh option" where
  "OP_call sys s = do {
     parameters \<leftarrow> get_code 1 s;
     let s = pc_up 1 s;
     s \<leftarrow> sp_down s;
     (parameterv, s) \<leftarrow> (if parameters \<le> 16 then call_parameters (unat parameters) [] s else None);
     f \<leftarrow> cell 0 s;
     (r, m) \<leftarrow> sys f (if parameters = 0 then [0] else parameterv) (fmem s);
     s \<leftarrow> set_cell 0 r (s\<lparr>fmem := m\<rparr>);
     Some (sp_up s) }"

definition op_table :: "syscalls \<Rightarrow> (finsh \<Rightarrow> finsh option) list" where
  "op_table sys =
    [OP_no_op,
     OP_add W8, OP_add W16, OP_add W32, OP_sub W8, OP_sub W16, OP_sub W32,
     OP_div W8, OP_div W16, OP_div W32, OP_mod W8, OP_mod W16, OP_mod W32,
     OP_mul W8, OP_mul W16, OP_mul W32, OP_and W8, OP_and W16, OP_and W32,
     OP_or W8, OP_or W16, OP_or W32, OP_xor W8, OP_xor W16, OP_xor W32,
     OP_bw W8, OP_bw W16, OP_bw W32, OP_shl W8, OP_shl W16, OP_shl W32, OP_shr W8, OP_shr W16, OP_shr W32,
     OP_ld W8, OP_ld W16, OP_ld W32, OP_ld_value W8, OP_ld_value W16, OP_ld_value W32,
     OP_st W8, OP_st W16, OP_st W32, OP_pop, OP_call sys,
     OP_ld_value_stack W8, OP_ld_value_stack W16, OP_ld_value_stack W32]"

section \<open>\<^verbatim>\<open>finsh_vm_run\<close>\<close>

text \<open>One round of the loop: fetch an operation code and call the function; the table ends with a null pointer.\<close>

definition vm_step :: "syscalls \<Rightarrow> finsh \<Rightarrow> finsh option" where
  "vm_step sys s =
    (let op = unat (text_segment s ! finsh_pc s); s = pc_up 1 s
     in if op < length (op_table sys) then (op_table sys ! op) s else None)"

lemmas op_defs = OP_no_op_def OP_add_def OP_sub_def OP_div_def OP_mod_def OP_mul_def OP_and_def OP_or_def OP_xor_def OP_shl_def OP_shr_def
  OP_BIN_def OP_bw_def OP_ld_def OP_ld_value_def OP_ld_value_stack_def OP_st_def OP_pop_def OP_call_def

lemmas cell_defs = cell_def set_cell_def sp_up_def sp_down_def get_code_def pc_up_def

lemma call_parameters_pc: "call_parameters n vs s = Some (vs', s') \<Longrightarrow> finsh_pc s' = finsh_pc s"
  by (induction n vs s rule: call_parameters.induct) (auto simp: cell_defs split: bind_splits if_splits)

lemma op_pc:
  assumes "f \<in> set (op_table sys)" and "f s = Some s'"
  shows "finsh_pc s \<le> finsh_pc s'"
proof -
  have bin: "OP_BIN x w s = Some s' \<Longrightarrow> finsh_pc s \<le> finsh_pc s'" for x w
    by (auto simp: OP_BIN_def cell_defs split: bind_splits if_splits)
  have un: "OP_bw w s = Some s' \<Longrightarrow> finsh_pc s \<le> finsh_pc s'" "OP_ld w s = Some s' \<Longrightarrow> finsh_pc s \<le> finsh_pc s'"
    "OP_ld_value w s = Some s' \<Longrightarrow> finsh_pc s \<le> finsh_pc s'" "OP_ld_value_stack w s = Some s' \<Longrightarrow> finsh_pc s \<le> finsh_pc s'"
    "OP_st w s = Some s' \<Longrightarrow> finsh_pc s \<le> finsh_pc s'" "OP_pop s = Some s' \<Longrightarrow> finsh_pc s \<le> finsh_pc s'"
    "OP_no_op s = Some s' \<Longrightarrow> finsh_pc s \<le> finsh_pc s'" for w
    by (auto simp: OP_bw_def OP_ld_def OP_ld_value_def OP_ld_value_stack_def OP_st_def OP_pop_def OP_no_op_def cell_defs
        split: bind_splits if_splits)
  have call: "OP_call sys s = Some s' \<Longrightarrow> finsh_pc s \<le> finsh_pc s'"
    by (auto simp: OP_call_def Let_def cell_defs split: bind_splits if_splits dest!: call_parameters_pc)
  show ?thesis
    using assms unfolding op_table_def OP_add_def OP_sub_def OP_div_def OP_mod_def OP_mul_def OP_and_def OP_or_def OP_xor_def OP_shl_def OP_shr_def
    by (auto intro: bin un call)
qed

lemma vm_step_pc: "vm_step sys s = Some s' \<Longrightarrow> finsh_pc s < finsh_pc s'"
  unfolding vm_step_def Let_def
  by (auto simp: pc_up_def split: if_splits dest!: op_pc [OF nth_mem])

function vm_loop :: "syscalls \<Rightarrow> finsh \<Rightarrow> finsh option" where
  "vm_loop sys s =
    (if finsh_pc s < FINSH_TEXT_MAX then
       (case vm_step sys s of None \<Rightarrow> None | Some s \<Rightarrow> vm_loop sys s)
     else Some s)"
  by pat_completeness auto
termination by (relation "measure (\<lambda>(sys, s). FINSH_TEXT_MAX - finsh_pc s)") (auto dest: vm_step_pc)

declare vm_loop.simps [simp del]

definition finsh_vm_run :: "syscalls \<Rightarrow> finsh \<Rightarrow> finsh option" where
  "finsh_vm_run sys s = vm_loop sys (s\<lparr>finsh_sp := 0, finsh_pc := 0\<rparr>)"

section \<open>The machine on instructions\<close>

text \<open>
  Instructions with their operands, and what they are in bytes. The configuration of the machine is the stack from its top down, the
  cells above the top, which still hold what was there before, and the memory.
\<close>

datatype instr = NOOP | BIN bin_op width | BW width | LD width u32 | LDV width u32 | ST width | POP | SYSCALL u8 | LDVS width

type_synonym config = "u32 list \<times> u32 list \<times> memory"

fun op_code :: "bin_op \<Rightarrow> u8" where
  "op_code Add = 0x01" | "op_code Sub = 0x04" | "op_code Div = 0x07" | "op_code Mod = 0x0A" | "op_code Mul = 0x0D"
| "op_code And = 0x10" | "op_code Or = 0x13" | "op_code Xor = 0x16" | "op_code Shl = 0x1C" | "op_code Shr = 0x1F"

fun width_code :: "width \<Rightarrow> u8" where
  "width_code W8 = 0" | "width_code W16 = 1" | "width_code W32 = 2"

fun le_bytes :: "nat \<Rightarrow> u32 \<Rightarrow> u8 list" where
  "le_bytes 0 v = []"
| "le_bytes (Suc n) v = ucast v # le_bytes n (drop_bit 8 v)"

fun encode :: "instr \<Rightarrow> u8 list" where
  "encode NOOP = [0]"
| "encode (BIN x w) = [op_code x + width_code w]"
| "encode (BW w) = [0x19 + width_code w]"
| "encode (LD w v) = (0x22 + width_code w) # le_bytes (width_bytes w) v"
| "encode (LDV w a) = (0x25 + width_code w) # le_bytes 4 a"
| "encode (ST w) = [0x28 + width_code w]"
| "encode POP = [0x2B]"
| "encode (SYSCALL n) = [0x2C, n]"
| "encode (LDVS w) = [0x2D + width_code w]"

fun exec1 :: "syscalls \<Rightarrow> instr \<Rightarrow> config \<Rightarrow> config option" where
  "exec1 sys NOOP c = Some c"
| "exec1 sys (BIN x w) (b # a # xs, ys, m) = map_option (\<lambda>r. (put_value w a r # xs, b # ys, m)) (c_operator x (get_value w a) (get_value w b))"
| "exec1 sys (BW w) (a # xs, ys, m) = Some (put_value w a (NOT (get_value w a)) # xs, ys, m)"
| "exec1 sys (LD w v) (xs, c # ys, m) = Some (put_value w c v # xs, ys, m)"
| "exec1 sys (LDV w a) (xs, c # ys, m) = Some (put_value w c (load_value w m a) # xs, ys, m)"
| "exec1 sys (ST w) (v # a # xs, ys, m) = Some (a # xs, v # ys, store_value w a v m)"
| "exec1 sys POP (a # xs, ys, m) = Some (xs, a # ys, m)"
| "exec1 sys (SYSCALL n) (xs, ys, m) =
    (let k = unat n; args = rev (take k xs) in
     if k \<le> 16 \<and> k < length xs
     then map_option (\<lambda>(r, m). (r # drop (Suc k) xs, args @ ys, m)) (sys (xs ! k) (if k = 0 then [0] else args) m)
     else None)"
| "exec1 sys (LDVS w) (a # xs, ys, m) = Some (put_value w a (load_value w m a) # xs, ys, m)"
| "exec1 sys _ _ = None"

fun exec :: "syscalls \<Rightarrow> instr list \<Rightarrow> config \<Rightarrow> config option" where
  "exec sys [] c = Some c"
| "exec sys (i # is) c = Option.bind (exec1 sys i c) (exec sys is)"

lemma exec_append [simp]: "exec sys (is @ js) c = Option.bind (exec sys is c) (exec sys js)"
proof (induction "is" arbitrary: c)
  case (Cons i "is")
  then show ?case by (cases "exec1 sys i c") simp_all
qed simp

abbreviation "assemble is \<equiv> concat (map encode is)"

text \<open>The state of the byte machine that a configuration stands for.\<close>

fun conf :: "finsh \<Rightarrow> nat \<Rightarrow> config \<Rightarrow> finsh" where
  "conf s pc (xs, ys, m) = s\<lparr>finsh_vm_stack := rev xs @ ys, finsh_sp := length xs, finsh_pc := pc, fmem := m\<rparr>"

fun conf_ok :: "config \<Rightarrow> bool" where
  "conf_ok (xs, ys, m) \<longleftrightarrow> length xs + length ys = FINSH_STACK_MAX"

lemma conf_text [simp]: "text_segment (conf s pc c) = text_segment s" "finsh_pc (conf s pc c) = pc"
  by (cases c; simp)+

lemma exec1_ok: "conf_ok c \<Longrightarrow> exec1 sys i c = Some c' \<Longrightarrow> conf_ok c'"
  by (induction sys i c rule: exec1.induct) (auto simp: Let_def split: if_splits)

lemma exec_ok: "conf_ok c \<Longrightarrow> exec sys is c = Some c' \<Longrightarrow> conf_ok c'"
proof (induction "is" arbitrary: c)
  case (Cons i "is")
  then show ?case using exec1_ok [of c sys i] by (cases "exec1 sys i c") (auto simp del: conf_ok.simps)
qed simp

subsection \<open>Bytes of operands\<close>

lemma length_le_bytes [simp]: "length (le_bytes n v) = n"
  by (induction n arbitrary: v) auto

lemma high_byte_bit: "n < 32 \<Longrightarrow> n - 16 < 8 \<or> bit v (24 + (n - 24)) = bit v n"
  by (cases "n < 24") auto

lemma le_bytes_4: "le_bytes 4 v = [ucast v, ucast (drop_bit 8 v), ucast (drop_bit 16 v), ucast (drop_bit 24 v)]"
proof -
  have 4: "4 = Suc (Suc (Suc (Suc 0)))" by simp
  show ?thesis unfolding 4 by simp
qed

lemma bytes_value_4: "bytes_value (le_bytes 4 v) = v"
  unfolding le_bytes_4 using high_byte_bit [of _ v] by (intro bit_word_eqI) (auto simp: bit_simps)

lemma put_bytes_value: "put_value w c (bytes_value (le_bytes (width_bytes w) v)) = put_value w c v"
proof (cases w)
  case W8
  have "bytes_value (le_bytes 1 v) AND 0xFF = v AND 0xFF"
    by (intro bit_word_eqI) (simp only: low_byte, auto simp: bit_simps)
  then show ?thesis using W8 by simp
next
  case W16
  have 2: "2 = Suc (Suc 0)" by simp
  have "(0xFFFF :: u32) = mask 16" by (simp add: mask_eq_exp_minus_1)
  then have m: "bit (0xFFFF :: u32) n \<longleftrightarrow> n < 16" for n by (simp only: bit_mask_iff) auto
  have "bytes_value (le_bytes 2 v) AND 0xFFFF = v AND 0xFFFF"
    unfolding 2 by (intro bit_word_eqI) (simp only: bit_and_iff m, auto simp: bit_simps)
  then show ?thesis using W16 by simp
qed (simp add: bytes_value_4)

subsection \<open>One instruction of the byte machine\<close>

text \<open>The bytes \<open>bs\<close> stand at position \<open>pc\<close> of the code.\<close>

definition code_at :: "finsh \<Rightarrow> nat \<Rightarrow> u8 list \<Rightarrow> bool" where
  "code_at s pc bs \<longleftrightarrow> pc + length bs \<le> FINSH_TEXT_MAX \<and> length (text_segment s) = FINSH_TEXT_MAX \<and> take (length bs) (drop pc (text_segment s)) = bs"

lemma code_at_append: "code_at s pc (bs @ cs) \<longleftrightarrow> code_at s pc bs \<and> code_at s (pc + length bs) cs"
  unfolding code_at_def by (auto simp: take_add add.commute add.left_commute append_eq_append_conv)

lemma code_at_Cons: "code_at s pc (b # bs) \<longleftrightarrow> pc < FINSH_TEXT_MAX \<and> text_segment s ! pc = b \<and> code_at s (Suc pc) bs"
proof -
  have "pc < length (text_segment s) \<Longrightarrow> drop pc (text_segment s) = text_segment s ! pc # drop (Suc pc) (text_segment s)"
    by (simp add: Cons_nth_drop_Suc)
  then show ?thesis unfolding code_at_def by auto
qed

lemma get_code_at: "code_at s pc bs \<Longrightarrow> get_code (length bs) (conf s pc c) = Some (bytes_value bs)"
  by (simp add: code_at_def get_code_def)

lemma pc_up_conf: "pc_up n (conf s pc c) = conf s (pc + n) c"
  by (cases c) (simp add: pc_up_def)

lemma below_top: "k < length xs \<Longrightarrow> length xs - Suc k < length xs"
  by linarith

lemma cell_conf:
  assumes "length xs + length ys = FINSH_STACK_MAX"
  shows "cell 0 (conf s pc (xs, ys, m)) = (case ys of [] \<Rightarrow> None | c # _ \<Rightarrow> Some c)"
    and "cell (Suc k) (conf s pc (xs, ys, m)) = (if k < length xs then Some (xs ! k) else None)"
proof -
  have "k < length xs \<Longrightarrow> (rev xs @ ys) ! (length xs - Suc k) = xs ! k"
    using below_top [of k xs] by (simp add: nth_append rev_nth)
  then show "cell (Suc k) (conf s pc (xs, ys, m)) = (if k < length xs then Some (xs ! k) else None)"
    using assms by (auto simp: cell_def)
qed (use assms in \<open>auto simp: cell_def nth_append split: list.splits\<close>)

lemma push_conf:
  assumes "length xs + length (c # ys) = FINSH_STACK_MAX"
  shows "map_option sp_up (set_cell 0 v (conf s pc (xs, c # ys, m))) = Some (conf s pc (v # xs, ys, m))"
  using assms list_update_length [of "rev xs" c ys v] by (auto simp: set_cell_def sp_up_def)

lemma set_cell_conf:
  assumes "length xs + length ys = FINSH_STACK_MAX" "k < length xs"
  shows "set_cell (Suc k) v (conf s pc (xs, ys, m)) = Some (conf s pc (xs[k := v], ys, m))"
proof -
  have "(rev xs @ ys)[length xs - Suc k := v] = rev (xs[k := v]) @ ys"
    using assms below_top [of k xs] by (simp add: list_update_append rev_update)
  then show ?thesis using assms by (simp add: set_cell_def)
qed

lemma sp_conf:
  "sp_down (conf s pc (v # xs, ys, m)) = Some (conf s pc (xs, v # ys, m))"
  "sp_down (conf s pc ([], ys, m)) = None"
  by (simp_all add: sp_down_def)

lemma op_table_nth:
  "op_table sys ! 0 = OP_no_op" "op_table sys ! unat (op_code x + width_code w) = OP_BIN x w" "op_table sys ! unat (0x19 + width_code w) = OP_bw w"
  "op_table sys ! unat (0x22 + width_code w) = OP_ld w" "op_table sys ! unat (0x25 + width_code w) = OP_ld_value w"
  "op_table sys ! unat (0x28 + width_code w) = OP_st w" "op_table sys ! 0x2B = OP_pop" "op_table sys ! 0x2C = OP_call sys"
  "op_table sys ! unat (0x2D + width_code w) = OP_ld_value_stack w"
  subgoal by (simp add: op_table_def)
  subgoal by (cases x; cases w; simp add: op_table_def OP_add_def OP_sub_def OP_div_def OP_mod_def OP_mul_def OP_and_def OP_or_def OP_xor_def OP_shl_def OP_shr_def)
  by (cases w; simp add: op_table_def)+

lemma op_code_less:
  "unat (op_code x + width_code w) < 48" "unat (0x19 + width_code w) < 48" "unat (0x22 + width_code w) < 48" "unat (0x25 + width_code w) < 48"
  "unat (0x28 + width_code w) < 48" "unat (0x2D + width_code w) < 48"
  by (cases x; cases w; simp) (cases w; simp)+

lemma length_op_table: "length (op_table sys) = 48"
  by (simp add: op_table_def)

lemma list_2_cases: obtains "xs = []" | b where "xs = [b]" | b a zs where "xs = b # a # zs"
  by (cases xs; cases "tl xs") auto

lemma fmem_conf: "fmem (conf s pc (xs, ys, m)) = m" "(conf s pc (xs, ys, m))\<lparr>fmem := m'\<rparr> = conf s pc (xs, ys, m')"
  by simp_all

lemmas conf_rules = cell_conf set_cell_conf sp_conf fmem_conf numeral_2_eq_2 One_nat_def

lemma OP_stack_conf:
  assumes "conf_ok (xs, ys, m)"
  shows "OP_BIN x w (conf s pc (xs, ys, m)) = map_option (conf s pc) (exec1 sys (BIN x w) (xs, ys, m))"
    and "OP_bw w (conf s pc (xs, ys, m)) = map_option (conf s pc) (exec1 sys (BW w) (xs, ys, m))"
    and "OP_ld_value_stack w (conf s pc (xs, ys, m)) = map_option (conf s pc) (exec1 sys (LDVS w) (xs, ys, m))"
    and "OP_st w (conf s pc (xs, ys, m)) = map_option (conf s pc) (exec1 sys (ST w) (xs, ys, m))"
    and "OP_pop (conf s pc (xs, ys, m)) = map_option (conf s pc) (exec1 sys POP (xs, ys, m))"
proof -
  note l = assms [unfolded conf_ok.simps]
  show "OP_BIN x w (conf s pc (xs, ys, m)) = map_option (conf s pc) (exec1 sys (BIN x w) (xs, ys, m))"
    using l by (cases rule: list_2_cases [of xs])
      (simp_all add: OP_BIN_def conf_rules option.map_comp comp_def del: conf.simps split: option.split bind_split)
  show "OP_st w (conf s pc (xs, ys, m)) = map_option (conf s pc) (exec1 sys (ST w) (xs, ys, m))"
    using l by (cases rule: list_2_cases [of xs]) (simp_all add: OP_st_def conf_rules del: conf.simps)
qed (use assms in \<open>cases xs; simp add: OP_bw_def OP_ld_value_stack_def OP_pop_def conf_rules del: conf.simps\<close>)+

lemma OP_ld_conf:
  assumes "conf_ok (xs, ys, m)" "code_at s pc (le_bytes (width_bytes w) v)"
  shows "OP_ld w (conf s pc (xs, ys, m)) = map_option (conf s (pc + width_bytes w)) (exec1 sys (LD w v) (xs, ys, m))"
proof (cases ys)
  case Nil
  then show ?thesis using assms by (simp add: OP_ld_def conf_rules del: conf.simps)
next
  case (Cons c zs)
  then obtain s1 where "set_cell 0 (put_value w c v) (conf s pc (xs, c # zs, m)) = Some s1" "sp_up s1 = conf s pc (put_value w c v # xs, zs, m)"
    using push_conf [of xs c zs "put_value w c v" s pc m] assms by (auto simp del: conf.simps)
  then show ?thesis using Cons assms get_code_at [OF assms(2), of "(xs, ys, m)"]
    by (simp add: OP_ld_def conf_rules(1) put_bytes_value pc_up_conf del: conf.simps)
qed

lemma OP_ld_value_conf:
  assumes "conf_ok (xs, ys, m)" "code_at s pc (le_bytes 4 a)"
  shows "OP_ld_value w (conf s pc (xs, ys, m)) = map_option (conf s (pc + 4)) (exec1 sys (LDV w a) (xs, ys, m))"
proof (cases ys)
  case Nil
  then show ?thesis using assms get_code_at [OF assms(2), of "(xs, ys, m)"]
    by (simp add: OP_ld_value_def conf_rules(1) del: conf.simps)
next
  case (Cons c zs)
  then obtain s1 where "set_cell 0 (put_value w c (load_value w m a)) (conf s pc (xs, c # zs, m)) = Some s1"
      "sp_up s1 = conf s pc (put_value w c (load_value w m a) # xs, zs, m)"
    using push_conf [of xs c zs "put_value w c (load_value w m a)" s pc m] assms by (auto simp del: conf.simps)
  then show ?thesis using Cons assms get_code_at [OF assms(2), of "(xs, ys, m)"]
    by (simp add: OP_ld_value_def conf_rules(1) fmem_conf bytes_value_4 pc_up_conf del: conf.simps)
qed

lemma call_parameters_conf:
  assumes "length xs + length (x # ys) = FINSH_STACK_MAX"
  shows "call_parameters n vs (conf s pc (xs, x # ys, m)) =
    (if n \<le> length xs
     then Some (rev (take n (x # xs)) @ vs, conf s pc (drop n xs, ((x # xs) ! n) # rev (take n (x # xs)) @ ys, m)) else None)"
  using assms
proof (induction n arbitrary: vs x xs ys)
  case (Suc n)
  show ?case
  proof (cases xs)
    case (Cons a zs)
    then show ?thesis using Suc by (simp add: conf_rules del: conf.simps)
  qed (use Suc.prems in \<open>simp add: conf_rules del: conf.simps\<close>)
qed simp

lemma OP_call_conf:
  assumes "conf_ok (xs, ys, m)" "code_at s pc [n]"
  shows "OP_call sys (conf s pc (xs, ys, m)) = map_option (conf s (pc + 1)) (exec1 sys (SYSCALL n) (xs, ys, m))"
proof (cases xs)
  case Nil
  then show ?thesis using assms get_code_at [OF assms(2), of "(xs, ys, m)"]
    by (simp add: OP_call_def conf_rules pc_up_conf del: conf.simps)
next
  case (Cons x zs)
  let ?k = "unat n" and ?n = "ucast n :: u32"
  have n: "unat ?n = ?k" "?n \<le> 16 \<longleftrightarrow> ?k \<le> 16" "?n = 0 \<longleftrightarrow> ?k = 0"
    using unsigned_less [of n, where ?'a = nat] by (auto simp: word_le_nat_alt unsigned_ucast_eq take_bit_nat_eq_self simp flip: unat_eq_0)
  have p: "get_code (Suc 0) (conf s pc (x # zs, ys, m)) = Some ?n"
    using get_code_at [OF assms(2), of "(xs, ys, m)"] Cons by simp
  have l: "length zs + length (x # ys) = FINSH_STACK_MAX" using assms(1) Cons by simp
  show ?thesis
  proof (cases "?k \<le> 16 \<and> ?k \<le> length zs")
    case True
    let ?v = "if ?k = 0 then [0] else rev (take ?k (x # zs))"
    have l2: "length (drop ?k zs) + length ((x # zs) ! ?k # rev (take ?k (x # zs)) @ ys) = FINSH_STACK_MAX" using l True by simp
    have r: "OP_call sys (conf s pc (x # zs, ys, m)) =
      Option.bind (sys ((x # zs) ! ?k) ?v m) (\<lambda>(r, m').
        Option.bind (set_cell 0 r (conf s (pc + 1) (drop ?k zs, (x # zs) ! ?k # rev (take ?k (x # zs)) @ ys, m'))) (\<lambda>s. Some (sp_up s)))"
      using True n l2 by (simp add: OP_call_def p pc_up_conf sp_conf call_parameters_conf [OF l] cell_conf(1) [OF l2] fmem_conf del: conf.simps)
    show ?thesis
    proof (cases "sys ((x # zs) ! ?k) ?v m")
      case None
      then show ?thesis using r True Cons by (simp add: Let_def)
    next
      case (Some rm)
      obtain r' m' where rm: "rm = (r', m')" by (cases rm)
      show ?thesis using push_conf [OF l2, of r' s "pc + 1" m'] Some r True Cons
        by (auto simp: Let_def rm simp del: conf.simps)
    qed
  next
    case False
    then show ?thesis using n Cons by (auto simp: OP_call_def p pc_up_conf sp_conf call_parameters_conf [OF l] Let_def simp del: conf.simps)
  qed
qed

lemma vm_step_conf:
  assumes c: "conf_ok c" and code: "code_at s pc (encode i)"
  shows "vm_step sys (conf s pc c) = map_option (conf s (pc + length (encode i))) (exec1 sys i c)"
proof -
  obtain xs ys m where e: "c = (xs, ys, m)" by (cases c)
  note ok = c [unfolded e]
  obtain b bs where i: "encode i = b # bs" by (cases i) auto
  then have b: "text_segment s ! pc = b" "code_at s (Suc pc) bs" using code by (simp_all add: code_at_Cons)
  have step: "vm_step sys (conf s pc (xs, ys, m)) = (if unat b < 48 then (op_table sys ! unat b) (conf s (Suc pc) (xs, ys, m)) else None)"
    by (simp add: vm_step_def Let_def b(1) pc_up_conf length_op_table del: conf.simps)
  show ?thesis
  proof (cases i)
    case (LD w v)
    then show ?thesis using i b(2) OP_ld_conf [OF ok, of s "Suc pc" w v sys] by (auto simp: e step op_table_nth op_code_less simp del: conf.simps exec1.simps)
  next
    case (LDV w a)
    then show ?thesis using i b(2) OP_ld_value_conf [OF ok, of s "Suc pc" a w sys]
      by (auto simp: e step op_table_nth op_code_less simp del: conf.simps exec1.simps)
  qed (use i b(2) in \<open>auto simp: e step op_table_nth op_code_less OP_no_op_def OP_stack_conf [OF ok, where sys = sys] OP_call_conf [OF ok]
      simp del: conf.simps exec1.simps(2-)\<close>)
qed

subsection \<open>The loop\<close>

lemma vm_loop_exec:
  assumes "conf_ok c" "code_at s pc (assemble is)"
  shows "vm_loop sys (conf s pc c) = Option.bind (exec sys is c) (\<lambda>c'. vm_loop sys (conf s (pc + length (assemble is)) c'))"
  using assms
proof (induction "is" arbitrary: pc c)
  case (Cons i "is")
  have i: "code_at s pc (encode i)" "code_at s (pc + length (encode i)) (assemble is)"
    using Cons.prems(2) by (simp_all add: code_at_append)
  have "pc < FINSH_TEXT_MAX" using i(1) by (cases i) (simp_all add: code_at_Cons)
  then have "vm_loop sys (conf s pc c) = Option.bind (vm_step sys (conf s pc c)) (vm_loop sys)"
    by (subst vm_loop.simps) (simp split: option.split)
  also have "\<dots> = Option.bind (exec1 sys i c) (\<lambda>c'. vm_loop sys (conf s (pc + length (encode i)) c'))"
    by (subst vm_step_conf [OF Cons.prems(1) i(1)]) (cases "exec1 sys i c"; simp)
  also have "\<dots> = Option.bind (exec sys (i # is) c) (\<lambda>c'. vm_loop sys (conf s (pc + length (assemble (i # is))) c'))"
    using Cons.IH [OF exec1_ok [OF Cons.prems(1)] i(2)]
    by (cases "exec1 sys i c") (auto simp: add.assoc)
  finally show ?case .
qed simp

lemma exec_NOOP [simp]: "exec sys (replicate n NOOP) c = Some c"
  by (induction n) auto

lemma assemble_NOOP [simp]: "assemble (replicate n NOOP) = replicate n 0"
  by (induction n) auto

text \<open>The code is \<open>is\<close> and the rest of the text segment is clear.\<close>

definition holds_code :: "finsh \<Rightarrow> instr list \<Rightarrow> bool" where
  "holds_code s is \<longleftrightarrow> length (assemble is) \<le> FINSH_TEXT_MAX \<and> text_segment s = assemble is @ replicate (FINSH_TEXT_MAX - length (assemble is)) 0"

lemma vm_run_code:
  assumes "holds_code s is" "length (finsh_vm_stack s) = FINSH_STACK_MAX"
  shows "finsh_vm_run sys s = map_option (conf s FINSH_TEXT_MAX) (exec sys is ([], finsh_vm_stack s, fmem s))"
proof -
  let ?c = "([], finsh_vm_stack s, fmem s)" and ?is = "is @ replicate (FINSH_TEXT_MAX - length (assemble is)) NOOP"
  have c: "conf_ok ?c" using assms(2) by simp
  have start: "s\<lparr>finsh_sp := 0, finsh_pc := 0\<rparr> = conf s 0 ?c" by simp
  have code: "text_segment s = assemble ?is" "length (assemble ?is) = FINSH_TEXT_MAX"
    using assms(1) by (simp_all add: holds_code_def)
  then have "code_at s 0 (assemble ?is)" by (simp only: code_at_def) simp
  then have "vm_loop sys (conf s 0 ?c) = Option.bind (exec sys is ?c) (\<lambda>c'. vm_loop sys (conf s FINSH_TEXT_MAX c'))"
    using vm_loop_exec [OF c, of s 0 ?is sys] code(2) by simp
  then show ?thesis unfolding finsh_vm_run_def start
    by (cases "exec sys is ?c") (simp_all add: vm_loop.simps del: conf.simps)
qed

text \<open>
  C13. The byte machine runs code as the machine on instructions does: a run over the assembled bytes of any instruction list,
  including stack over- and underflow and calls that do not return, ends in the state that belongs to the configuration reached.
\<close>

theorem finsh_vm_run_exec:
  assumes "holds_code s is" "length (finsh_vm_stack s) = FINSH_STACK_MAX"
  shows "finsh_vm_run sys s = map_option (conf s FINSH_TEXT_MAX) (exec sys is ([], finsh_vm_stack s, fmem s))"
  by (rule vm_run_code [OF assms])

theorem finsh_vm_run_exec_witness:
  "\<exists>s. text_segment s = [0x22, 7, 0x24, 2, 1, 0, 0, 0x25, 0x10, 0, 0, 0, 0x2E, 3, 0x2B] @ replicate 113 0 \<and>
    map_option finsh_vm_stack (finsh_vm_run (\<lambda>_ _ _. None) s) =
      map_option (finsh_vm_stack \<circ> conf s 128) (exec (\<lambda>_ _ _. None) [LD W8 7, LD W32 0x102, LDV W8 0x10, LDVS W16, BIN Add W32, POP] ([], replicate 64 0, \<lambda>a. of_nat a))"
proof -
  let ?is = "[LD W8 7, LD W32 0x102, LDV W8 0x10, LDVS W16, BIN Add W32, POP]"
  have a: "assemble ?is = [0x22, 7, 0x24, 2, 1, 0, 0, 0x25, 0x10, 0, 0, 0, 0x2E, 3, 0x2B]" by (simp add: le_bytes_4)
  obtain s :: finsh where s: "text_segment s = assemble ?is @ replicate 113 0" "finsh_vm_stack s = replicate 64 0" "fmem s = (\<lambda>a. of_nat a)"
    by (rule that [of "undefined\<lparr>text_segment := assemble ?is @ replicate 113 0, finsh_vm_stack := replicate 64 0, fmem := \<lambda>a. of_nat a\<rparr>"]) simp_all
  then have "holds_code s ?is" by (simp only: holds_code_def a) simp
  from finsh_vm_run_exec [OF this, of "\<lambda>_ _ _. None"] s show ?thesis
    by (intro exI [of _ s]) (simp only: a, simp add: option.map_comp del: exec.simps)
qed

end
