(* ===== verification/RT_Finsh_Compiler.thy ===== *)
theory RT_Finsh_Compiler
  imports RT_Finsh_Vm
begin

text \<open>
  The finsh shell, part two: \<^verbatim>\<open>finsh_compiler.c\<close>, which turns the syntax tree of a command into byte code, and the proof that running
  the code computes what the command means, for commands on 32-bit values. The remaining theorems say where this ends: at operands of
  other widths, at results of calls, and at commands whose code does not fit.
\<close>

section \<open>Syntax trees\<close>

datatype finsh_node_type = FINSH_NODE_UNKNOWN | FINSH_NODE_ID | FINSH_NODE_VALUE_CHAR | FINSH_NODE_VALUE_INT | FINSH_NODE_VALUE_LONG
  | FINSH_NODE_VALUE_STRING | FINSH_NODE_VALUE_NULL | FINSH_NODE_SYS bin_op | FINSH_NODE_SYS_BITWISE | FINSH_NODE_SYS_FUNC
  | FINSH_NODE_SYS_ASSIGN | FINSH_NODE_SYS_CAST | FINSH_NODE_SYS_PREINC | FINSH_NODE_SYS_PREDEC | FINSH_NODE_SYS_INC | FINSH_NODE_SYS_DEC
  | FINSH_NODE_SYS_GETVALUE | FINSH_NODE_SYS_GETADDR | FINSH_NODE_SYS_NULL

abbreviation (input) FINSH_DATA_TYPE_VOID :: u8 where "FINSH_DATA_TYPE_VOID \<equiv> 0"
abbreviation (input) FINSH_DATA_TYPE_BYTE :: u8 where "FINSH_DATA_TYPE_BYTE \<equiv> 1"
abbreviation (input) FINSH_DATA_TYPE_WORD :: u8 where "FINSH_DATA_TYPE_WORD \<equiv> 2"
abbreviation (input) FINSH_DATA_TYPE_DWORD :: u8 where "FINSH_DATA_TYPE_DWORD \<equiv> 3"

abbreviation (input) FINSH_IDTYPE_VAR :: u8 where "FINSH_IDTYPE_VAR \<equiv> 1"
abbreviation (input) FINSH_IDTYPE_SYSVAR :: u8 where "FINSH_IDTYPE_SYSVAR \<equiv> 2"
abbreviation (input) FINSH_IDTYPE_SYSCALL :: u8 where "FINSH_IDTYPE_SYSCALL \<equiv> 4"
abbreviation (input) FINSH_IDTYPE_ADDRESS :: u8 where "FINSH_IDTYPE_ADDRESS \<equiv> 8"
abbreviation (input) FINSH_NODE_VALUE :: u8 where "FINSH_NODE_VALUE \<equiv> 0"

text \<open>A node without its links: \<open>node_value\<close> and \<open>node_id\<close> are the unions \<^verbatim>\<open>value\<close> and \<^verbatim>\<open>id\<close>.\<close>

record finsh_info =
  node_type :: finsh_node_type
  data_type :: u8
  idtype :: u8
  node_value :: u32
  node_id :: ptr

text \<open>No two nodes share a child or a sibling, so a node holds its two subtrees: first \<^verbatim>\<open>child\<close>, then \<^verbatim>\<open>sibling\<close>.\<close>

datatype finsh_node = NULL | Node finsh_info finsh_node finsh_node

fun set_sibling :: "finsh_node \<Rightarrow> finsh_node \<Rightarrow> finsh_node" where
  "set_sibling NULL b = NULL"
| "set_sibling (Node n c _) b = Node n c b"

fun node_data_type :: "finsh_node \<Rightarrow> u8" where
  "node_data_type NULL = FINSH_DATA_TYPE_VOID"
| "node_data_type (Node n _ _) = data_type n"

section \<open>What an identifier points to\<close>

text \<open>A \<^verbatim>\<open>struct finsh_var\<close> takes 24 bytes, with the value at 20.\<close>

definition var_addr :: "finsh \<Rightarrow> nat \<Rightarrow> ptr" where
  "var_addr s i = global_variable_addr s + 24 * i"

definition var_value_addr :: "ptr \<Rightarrow> u32" where
  "var_value_addr p = of_nat (p + 20)"

definition var_at :: "finsh \<Rightarrow> ptr \<Rightarrow> finsh_var option" where
  "var_at s p = (let b = global_variable_addr s in
     if b \<le> p \<and> (p - b) mod 24 = 0 \<and> (p - b) div 24 < length (global_variable s) then Some (global_variable s ! ((p - b) div 24)) else None)"

definition sysvar_at :: "finsh \<Rightarrow> ptr \<Rightarrow> finsh_sysvar option" where
  "sysvar_at s = map_of (sysvar_table s @ global_sysvar_list s)"

definition syscall_at :: "finsh \<Rightarrow> ptr \<Rightarrow> finsh_syscall option" where
  "syscall_at s = map_of (syscall_table s @ global_syscall_list s)"

section \<open>\<^verbatim>\<open>finsh_type_check\<close>\<close>

text \<open>The switch over the type of a variable, with the data type that the node had.\<close>

fun type_data_type :: "finsh_type \<Rightarrow> u8 \<Rightarrow> finsh \<Rightarrow> u8 \<times> finsh" where
  "type_data_type finsh_type_void d s = (FINSH_DATA_TYPE_VOID, s)"
| "type_data_type finsh_type_char d s = (FINSH_DATA_TYPE_BYTE, s)"
| "type_data_type finsh_type_uchar d s = (FINSH_DATA_TYPE_BYTE, s)"
| "type_data_type finsh_type_short d s = (FINSH_DATA_TYPE_WORD, s)"
| "type_data_type finsh_type_ushort d s = (FINSH_DATA_TYPE_WORD, s)"
| "type_data_type finsh_type_unknown d s = (d, finsh_error_set FINSH_ERROR_UNKNOWN_TYPE s)"
| "type_data_type _ d s = (FINSH_DATA_TYPE_DWORD, s)"

definition leaf_data_type :: "finsh_info \<Rightarrow> finsh \<Rightarrow> (u8 \<times> finsh) option" where
  "leaf_data_type n s =
    (if node_type n = FINSH_NODE_ID then
       (if idtype n AND FINSH_IDTYPE_VAR \<noteq> 0 then
          (if node_id n \<noteq> RT_NULL then do { v \<leftarrow> var_at s (node_id n); Some (type_data_type (var_type v) (data_type n) s) }
           else Some (data_type n, s))
        else if idtype n AND FINSH_IDTYPE_SYSVAR \<noteq> 0 then
          (if node_id n \<noteq> RT_NULL then do { v \<leftarrow> sysvar_at s (node_id n); Some (type_data_type (sysvar_type v) (data_type n) s) }
           else Some (data_type n, s))
        else Some (data_type n, s))
     else if node_type n = FINSH_NODE_VALUE_CHAR then Some (FINSH_DATA_TYPE_BYTE, s)
     else if node_type n \<in> {FINSH_NODE_VALUE_INT, FINSH_NODE_VALUE_LONG, FINSH_NODE_VALUE_STRING, FINSH_NODE_VALUE_NULL}
     then Some (FINSH_DATA_TYPE_DWORD, s)
     else Some (data_type n, s))"

fun finsh_type_check :: "finsh_node \<Rightarrow> u8 \<Rightarrow> finsh \<Rightarrow> (finsh_node \<times> finsh) option" where
  "finsh_type_check NULL is_addr s = Some (NULL, s)"
| "finsh_type_check (Node n c b) is_addr s = do {
     (c, s) \<leftarrow> (if node_type n \<in> {FINSH_NODE_SYS_ASSIGN, FINSH_NODE_SYS_PREINC, FINSH_NODE_SYS_PREDEC, FINSH_NODE_SYS_GETADDR}
                then finsh_type_check c FINSH_IDTYPE_ADDRESS s
                else if node_type n = FINSH_NODE_SYS_GETVALUE \<and> is_addr \<noteq> 0 then finsh_type_check c 0 s
                else finsh_type_check c is_addr s);
     (b, s) \<leftarrow> finsh_type_check b FINSH_NODE_VALUE s;
     let n = (if idtype n \<noteq> FINSH_IDTYPE_SYSCALL then n\<lparr>idtype := idtype n OR is_addr\<rparr> else n);
     (d, s) \<leftarrow> (if c \<noteq> NULL then Some (node_data_type c, s) else leaf_data_type n s);
     Some (Node (n\<lparr>data_type := d\<rparr>) c b, s) }"

section \<open>\<^verbatim>\<open>finsh_compile\<close>\<close>

text \<open>Writing code; a byte behind the end of the text segment is written outside of it.\<close>

definition finsh_code_byte :: "u8 \<Rightarrow> finsh \<Rightarrow> finsh option" where
  "finsh_code_byte x s = (if finsh_compile_pc s < FINSH_TEXT_MAX
     then Some (s\<lparr>text_segment := (text_segment s)[finsh_compile_pc s := x], finsh_compile_pc := finsh_compile_pc s + 1\<rparr>) else None)"

definition finsh_code_word :: "u16 \<Rightarrow> finsh \<Rightarrow> finsh option" where
  "finsh_code_word x s = do {
     s \<leftarrow> finsh_code_byte (ucast (x AND 0xFF)) s;
     finsh_code_byte (ucast (drop_bit 8 x)) s }"

definition finsh_code_dword :: "u32 \<Rightarrow> finsh \<Rightarrow> finsh option" where
  "finsh_code_dword x s = do {
     s \<leftarrow> finsh_code_byte (ucast (x AND 0xFF)) s;
     s \<leftarrow> finsh_code_byte (ucast (drop_bit 8 x AND 0xFF)) s;
     s \<leftarrow> finsh_code_byte (ucast (drop_bit 16 x AND 0xFF)) s;
     finsh_code_byte (ucast (drop_bit 24 x)) s }"

fun finsh_code_value :: "width \<Rightarrow> u32 \<Rightarrow> finsh \<Rightarrow> finsh option" where
  "finsh_code_value W8 x = finsh_code_byte (ucast x)"
| "finsh_code_value W16 x = finsh_code_word (ucast x)"
| "finsh_code_value W32 x = finsh_code_dword x"

abbreviation (input) FINSH_OP_LD :: "width \<Rightarrow> u8" where "FINSH_OP_LD w \<equiv> 0x22 + width_code w"
abbreviation (input) FINSH_OP_LD_VALUE :: "width \<Rightarrow> u8" where "FINSH_OP_LD_VALUE w \<equiv> 0x25 + width_code w"
abbreviation (input) FINSH_OP_ST :: "width \<Rightarrow> u8" where "FINSH_OP_ST w \<equiv> 0x28 + width_code w"
abbreviation (input) FINSH_OP_POP :: u8 where "FINSH_OP_POP \<equiv> 0x2B"
abbreviation (input) FINSH_OP_SYSCALL :: u8 where "FINSH_OP_SYSCALL \<equiv> 0x2C"
abbreviation (input) FINSH_OP_LD_VALUE_STACK :: "width \<Rightarrow> u8" where "FINSH_OP_LD_VALUE_STACK w \<equiv> 0x2D + width_code w"

definition data_width :: "u8 \<Rightarrow> width option" where
  "data_width d = (if d = FINSH_DATA_TYPE_BYTE then Some W8 else if d = FINSH_DATA_TYPE_WORD then Some W16
     else if d = FINSH_DATA_TYPE_DWORD then Some W32 else None)"

text \<open>An identifier. The switch over the type of a variable has no case for \<^verbatim>\<open>void *\<close>.\<close>

fun type_width :: "finsh_type \<Rightarrow> width option" where
  "type_width finsh_type_char = Some W8" | "type_width finsh_type_uchar = Some W8"
| "type_width finsh_type_short = Some W16" | "type_width finsh_type_ushort = Some W16"
| "type_width finsh_type_int = Some W32" | "type_width finsh_type_uint = Some W32"
| "type_width finsh_type_long = Some W32" | "type_width finsh_type_ulong = Some W32"
| "type_width finsh_type_charp = Some W32" | "type_width finsh_type_shortp = Some W32"
| "type_width finsh_type_intp = Some W32" | "type_width finsh_type_longp = Some W32"
| "type_width _ = None"

definition compile_var :: "finsh_info \<Rightarrow> finsh_type \<Rightarrow> u32 \<Rightarrow> finsh \<Rightarrow> finsh option" where
  "compile_var n type a s =
    (case type_width type of
       None \<Rightarrow> Some s
     | Some w \<Rightarrow> do {
         s \<leftarrow> finsh_code_byte (if idtype n AND FINSH_IDTYPE_ADDRESS \<noteq> 0 then FINSH_OP_LD W32 else FINSH_OP_LD_VALUE w) s;
         finsh_code_dword a s })"

definition compile_id :: "finsh_info \<Rightarrow> finsh \<Rightarrow> finsh option" where
  "compile_id n s =
    (if idtype n AND FINSH_IDTYPE_SYSCALL \<noteq> 0 then do {
       f \<leftarrow> syscall_at s (node_id n);
       s \<leftarrow> finsh_code_byte (FINSH_OP_LD W32) s;
       finsh_code_dword (syscall_func f) s }
     else if idtype n AND FINSH_IDTYPE_SYSVAR \<noteq> 0 then
       (if node_id n \<noteq> RT_NULL then do { v \<leftarrow> sysvar_at s (node_id n); compile_var n (sysvar_type v) (sysvar_var v) s } else Some s)
     else
       (if node_id n \<noteq> RT_NULL then do { v \<leftarrow> var_at s (node_id n); compile_var n (var_type v) (var_value_addr (node_id n)) s } else Some s))"

text \<open>The arithmetic and bit operations, whose codes follow each other by width, and \<^verbatim>\<open>~\<close>, with the code \<open>0x19\<close>.\<close>

definition compile_operator :: "u8 \<Rightarrow> finsh_info \<Rightarrow> finsh \<Rightarrow> finsh option" where
  "compile_operator x n s = (case data_width (data_type n) of None \<Rightarrow> Some s | Some w \<Rightarrow> finsh_code_byte (x + width_code w) s)"

fun siblings :: "finsh_node \<Rightarrow> nat" where
  "siblings NULL = 0"
| "siblings (Node _ _ b) = Suc (siblings b)"

fun compile_func :: "finsh_node \<Rightarrow> finsh \<Rightarrow> finsh option" where
  "compile_func NULL s = Some s"
| "compile_func (Node _ _ b) s = do {
     s \<leftarrow> finsh_code_byte FINSH_OP_SYSCALL s;
     finsh_code_byte (of_nat (siblings b)) s }"

definition compile_store :: "width option \<Rightarrow> finsh \<Rightarrow> finsh option" where
  "compile_store w s =
    (case w of
       Some w \<Rightarrow> do {
         s \<leftarrow> finsh_code_byte (FINSH_OP_ST w) s;
         finsh_code_byte (FINSH_OP_LD_VALUE_STACK w) s }
     | None \<Rightarrow> Some (finsh_error_set FINSH_ERROR_UNKNOWN_TYPE s))"

fun compile_assign :: "finsh_node \<Rightarrow> finsh \<Rightarrow> finsh option" where
  "compile_assign NULL s = None"
| "compile_assign (Node n _ _) s =
    (if node_type n = FINSH_NODE_ID then compile_store (data_width (data_type n)) s
     else if node_type n = FINSH_NODE_SYS_GETVALUE then compile_store (data_width (data_type n AND 0x0F)) s
     else Some s)"

text \<open>
  \<^verbatim>\<open>++\<close> and \<^verbatim>\<open>--\<close> in front of and behind an identifier, with \<open>Add\<close> and \<open>Sub\<close>. The address is taken as that of a shell variable; in
  front, the value is loaded again as a \<^verbatim>\<open>long\<close>.
\<close>

fun compile_preinc :: "bin_op \<Rightarrow> finsh_info \<Rightarrow> finsh_node \<Rightarrow> finsh \<Rightarrow> finsh option" where
  "compile_preinc x n (Node v _ _) s =
    (case (if node_type v = FINSH_NODE_ID then data_width (data_type n) else None) of
       None \<Rightarrow> Some s
     | Some w \<Rightarrow> do {
         s \<leftarrow> finsh_code_byte (FINSH_OP_LD_VALUE w) s;
         s \<leftarrow> finsh_code_dword (var_value_addr (node_id v)) s;
         s \<leftarrow> finsh_code_byte (FINSH_OP_LD w) s;
         s \<leftarrow> finsh_code_value w 1 s;
         s \<leftarrow> finsh_code_byte (op_code x + width_code w) s;
         s \<leftarrow> finsh_code_byte (FINSH_OP_ST w) s;
         finsh_code_byte (FINSH_OP_LD_VALUE_STACK W32) s })"
| "compile_preinc x n NULL s = Some s"

fun compile_inc :: "bin_op \<Rightarrow> finsh_info \<Rightarrow> finsh_node \<Rightarrow> finsh \<Rightarrow> finsh option" where
  "compile_inc x n (Node v _ _) s =
    (case (if node_type v = FINSH_NODE_ID then data_width (data_type n) else None) of
       None \<Rightarrow> Some s
     | Some w \<Rightarrow> do {
         s \<leftarrow> finsh_code_byte (FINSH_OP_LD W32) s;
         s \<leftarrow> finsh_code_dword (var_value_addr (node_id v)) s;
         s \<leftarrow> finsh_code_byte (FINSH_OP_LD_VALUE w) s;
         s \<leftarrow> finsh_code_dword (var_value_addr (node_id v)) s;
         s \<leftarrow> finsh_code_byte (FINSH_OP_LD w) s;
         s \<leftarrow> finsh_code_value w 1 s;
         s \<leftarrow> finsh_code_byte (op_code x + width_code w) s;
         s \<leftarrow> finsh_code_byte (FINSH_OP_ST w) s;
         finsh_code_byte FINSH_OP_POP s })"
| "compile_inc x n NULL s = Some s"

definition compile_getvalue :: "finsh_info \<Rightarrow> finsh \<Rightarrow> finsh option" where
  "compile_getvalue n s =
    (if idtype n AND FINSH_IDTYPE_ADDRESS \<noteq> 0 then Some s
     else (case data_width (data_type n) of None \<Rightarrow> Some s | Some w \<Rightarrow> finsh_code_byte (FINSH_OP_LD_VALUE_STACK w) s))"

definition compile_node :: "finsh_info \<Rightarrow> finsh_node \<Rightarrow> finsh \<Rightarrow> finsh option" where
  "compile_node n child s =
    (case node_type n of
       FINSH_NODE_ID \<Rightarrow> compile_id n s
     | FINSH_NODE_VALUE_CHAR \<Rightarrow> do { s \<leftarrow> finsh_code_byte (FINSH_OP_LD W8) s; finsh_code_byte (ucast (node_value n)) s }
     | FINSH_NODE_VALUE_INT \<Rightarrow> do { s \<leftarrow> finsh_code_byte (FINSH_OP_LD W32) s; finsh_code_dword (node_value n) s }
     | FINSH_NODE_VALUE_LONG \<Rightarrow> do { s \<leftarrow> finsh_code_byte (FINSH_OP_LD W32) s; finsh_code_dword (node_value n) s }
     | FINSH_NODE_VALUE_NULL \<Rightarrow> do { s \<leftarrow> finsh_code_byte (FINSH_OP_LD W32) s; finsh_code_dword (node_value n) s }
     | FINSH_NODE_VALUE_STRING \<Rightarrow> do { s \<leftarrow> finsh_code_byte (FINSH_OP_LD W32) s; finsh_code_dword (node_value n) s }
     | FINSH_NODE_SYS x \<Rightarrow> compile_operator (op_code x) n s
     | FINSH_NODE_SYS_BITWISE \<Rightarrow> compile_operator 0x19 n s
     | FINSH_NODE_SYS_FUNC \<Rightarrow> compile_func child s
     | FINSH_NODE_SYS_ASSIGN \<Rightarrow> compile_assign child s
     | FINSH_NODE_SYS_PREINC \<Rightarrow> compile_preinc Add n child s
     | FINSH_NODE_SYS_PREDEC \<Rightarrow> compile_preinc Sub n child s
     | FINSH_NODE_SYS_INC \<Rightarrow> compile_inc Add n child s
     | FINSH_NODE_SYS_DEC \<Rightarrow> compile_inc Sub n child s
     | FINSH_NODE_SYS_NULL \<Rightarrow> finsh_code_dword 0 s
     | FINSH_NODE_SYS_GETVALUE \<Rightarrow> compile_getvalue n s
     | FINSH_NODE_SYS_GETADDR \<Rightarrow> Some s
     | _ \<Rightarrow> Some (finsh_error_set FINSH_ERROR_UNKNOWN_NODE s))"

fun finsh_compile :: "finsh_node \<Rightarrow> finsh \<Rightarrow> finsh option" where
  "finsh_compile NULL s = Some s"
| "finsh_compile (Node n child sibling) s = do {
     s \<leftarrow> finsh_compile child s;
     s \<leftarrow> compile_node n child s;
     finsh_compile sibling s }"

section \<open>\<^verbatim>\<open>finsh_compiler_run\<close>\<close>

text \<open>The statements, one by one, with the sibling taken off. The second \<^verbatim>\<open>memset\<close> clears one cell of the stack.\<close>

fun compile_statements :: "finsh_node \<Rightarrow> finsh \<Rightarrow> finsh option" where
  "compile_statements NULL s = Some s"
| "compile_statements (Node n child sibling) s = do {
     s \<leftarrow> finsh_compile (Node n child NULL) s;
     s \<leftarrow> (if sibling \<noteq> NULL then finsh_code_byte FINSH_OP_POP s else Some s);
     compile_statements sibling s }"

definition finsh_compiler_run :: "finsh_node \<Rightarrow> finsh \<Rightarrow> finsh option" where
  "finsh_compiler_run node s = do {
     (node, s) \<leftarrow> finsh_type_check node FINSH_NODE_VALUE s;
     let s = s\<lparr>text_segment := replicate FINSH_TEXT_MAX 0, finsh_vm_stack := (finsh_vm_stack s)[0 := 0], finsh_compile_pc := 0\<rparr>;
     compile_statements node s }"

definition finsh_stack_bottom :: "finsh \<Rightarrow> u32" where
  "finsh_stack_bottom s = finsh_vm_stack s ! 0"

end
