(* ===== verification/RT_Finsh_Correct.thy ===== *)
theory RT_Finsh_Correct
  imports RT_Finsh_Compiler
begin

text \<open>
  What the commands of the finsh shell mean (\<open>eval\<close>), and the proof that the compiler and the virtual machine compute it, for the
  commands on values of 32 bits.
\<close>

section \<open>Commands\<close>

text \<open>
  Places are the variables of the shell and the system variables. \<open>Pre\<close> and \<open>Post\<close> are \<^verbatim>\<open>++\<close> and \<^verbatim>\<open>--\<close> (with \<open>Add\<close> and \<open>Sub\<close>) in front of
  and behind a shell variable, \<open>Deref\<close> and \<open>Store\<close> are \<^verbatim>\<open>*e\<close> and \<^verbatim>\<open>*p = e\<close>; a function is given by the address of its entry in the table.
\<close>

datatype place = Global nat | System ptr

datatype expr = Lit finsh_node_type u32 | Var place | AddrOf place | Deref expr | Binary bin_op expr expr | Compl expr
  | Assign place expr | Store expr expr | Pre bin_op nat | Post bin_op nat | Call ptr "expr list"

fun place_addr :: "finsh \<Rightarrow> place \<Rightarrow> u32" where
  "place_addr s (Global i) = var_value_addr (var_addr s i)"
| "place_addr s (System p) = (case sysvar_at s p of Some v \<Rightarrow> sysvar_var v | None \<Rightarrow> 0)"

definition function_of :: "finsh \<Rightarrow> ptr \<Rightarrow> u32" where
  "function_of s f = (case syscall_at s f of Some c \<Rightarrow> syscall_func c | None \<Rightarrow> 0)"

text \<open>The value of a command and the memory behind it; \<open>None\<close> if an operation has no result or a function does not return.\<close>

fun eval :: "syscalls \<Rightarrow> finsh \<Rightarrow> expr \<Rightarrow> memory \<Rightarrow> (u32 \<times> memory) option"
  and eval_args :: "syscalls \<Rightarrow> finsh \<Rightarrow> expr list \<Rightarrow> memory \<Rightarrow> (u32 list \<times> memory) option" where
  "eval sys s (Lit t v) m = Some (v, m)"
| "eval sys s (Var x) m = Some (load32 m (unat (place_addr s x)), m)"
| "eval sys s (AddrOf x) m = Some (place_addr s x, m)"
| "eval sys s (Deref e) m = do { (a, m) \<leftarrow> eval sys s e m; Some (load32 m (unat a), m) }"
| "eval sys s (Binary x e1 e2) m = do {
     (a, m) \<leftarrow> eval sys s e1 m;
     (b, m) \<leftarrow> eval sys s e2 m;
     r \<leftarrow> c_operator x a b;
     Some (r, m) }"
| "eval sys s (Compl e) m = do { (a, m) \<leftarrow> eval sys s e m; Some (NOT a, m) }"
| "eval sys s (Assign x e) m = do { (v, m) \<leftarrow> eval sys s e m; Some (v, store32 (unat (place_addr s x)) v m) }"
| "eval sys s (Store p e) m = do {
     (a, m) \<leftarrow> eval sys s p m;
     (v, m) \<leftarrow> eval sys s e m;
     Some (v, store32 (unat a) v m) }"
| "eval sys s (Pre x i) m = do {
     let a = unat (place_addr s (Global i));
     v \<leftarrow> c_operator x (load32 m a) 1;
     Some (v, store32 a v m) }"
| "eval sys s (Post x i) m = do {
     let a = unat (place_addr s (Global i));
     v \<leftarrow> c_operator x (load32 m a) 1;
     Some (load32 m a, store32 a v m) }"
| "eval sys s (Call f es) m = do {
     (vs, m) \<leftarrow> eval_args sys s es m;
     sys (function_of s f) (if es = [] then [0] else vs) m }"
| "eval_args sys s [] m = Some ([], m)"
| "eval_args sys s (e # es) m = do {
     (v, m) \<leftarrow> eval sys s e m;
     (vs, m) \<leftarrow> eval_args sys s es m;
     Some (v # vs, m) }"

text \<open>A command is a list of them, and its value that of the last.\<close>

fun eval_list :: "syscalls \<Rightarrow> finsh \<Rightarrow> expr list \<Rightarrow> memory \<Rightarrow> (u32 \<times> memory) option" where
  "eval_list sys s [] m = None"
| "eval_list sys s [e] m = eval sys s e m"
| "eval_list sys s (e # es) m = do { (_, m) \<leftarrow> eval sys s e m; eval_list sys s es m }"

text \<open>
  The commands in question: literals and variables of 32 bits, and no call where the compiler needs the width of an operand, as it gives
  calls no width.
\<close>

fun place_ok :: "finsh \<Rightarrow> place \<Rightarrow> bool" where
  "place_ok s (Global i) \<longleftrightarrow> i < length (global_variable s) \<and> type_width (var_type (global_variable s ! i)) = Some W32 \<and> var_addr s i \<noteq> RT_NULL"
| "place_ok s (System p) \<longleftrightarrow> p \<noteq> RT_NULL \<and> (case sysvar_at s p of Some v \<Rightarrow> type_width (sysvar_type v) = Some W32 | None \<Rightarrow> False)"

fun has_width :: "expr \<Rightarrow> bool" where
  "has_width (Call f es) \<longleftrightarrow> False"
| "has_width _ \<longleftrightarrow> True"

fun wt :: "finsh \<Rightarrow> expr \<Rightarrow> bool" where
  "wt s (Lit t v) \<longleftrightarrow> t \<in> {FINSH_NODE_VALUE_INT, FINSH_NODE_VALUE_LONG, FINSH_NODE_VALUE_STRING, FINSH_NODE_VALUE_NULL}"
| "wt s (Var x) \<longleftrightarrow> place_ok s x"
| "wt s (AddrOf x) \<longleftrightarrow> place_ok s x"
| "wt s (Deref e) \<longleftrightarrow> wt s e \<and> has_width e"
| "wt s (Binary x e1 e2) \<longleftrightarrow> wt s e1 \<and> has_width e1 \<and> wt s e2"
| "wt s (Compl e) \<longleftrightarrow> wt s e \<and> has_width e"
| "wt s (Assign x e) \<longleftrightarrow> place_ok s x \<and> wt s e"
| "wt s (Store p e) \<longleftrightarrow> wt s p \<and> has_width p \<and> wt s e"
| "wt s (Pre x i) \<longleftrightarrow> x \<in> {Add, Sub} \<and> place_ok s (Global i)"
| "wt s (Post x i) \<longleftrightarrow> x \<in> {Add, Sub} \<and> place_ok s (Global i)"
| "wt s (Call f es) \<longleftrightarrow> syscall_at s f \<noteq> None \<and> length es \<le> 16 \<and> list_all (wt s) es"

section \<open>Their trees\<close>

definition new_info :: "finsh_node_type \<Rightarrow> finsh_info" where
  "new_info t = \<lparr>node_type = t, data_type = 0, idtype = 0, node_value = 0, node_id = 0\<rparr>"

abbreviation "sys_node t a b \<equiv> Node (new_info t) (set_sibling a b) NULL"

fun place_info :: "finsh \<Rightarrow> place \<Rightarrow> finsh_info" where
  "place_info s (Global i) = (new_info FINSH_NODE_ID)\<lparr>idtype := FINSH_IDTYPE_VAR, node_id := var_addr s i\<rparr>"
| "place_info s (System p) = (new_info FINSH_NODE_ID)\<lparr>idtype := FINSH_IDTYPE_SYSVAR, node_id := p\<rparr>"

fun chain :: "finsh_node list \<Rightarrow> finsh_node" where
  "chain [] = NULL"
| "chain (t # ts) = set_sibling t (chain ts)"

fun pre_type :: "bin_op \<Rightarrow> finsh_node_type" where
  "pre_type Add = FINSH_NODE_SYS_PREINC" | "pre_type _ = FINSH_NODE_SYS_PREDEC"

fun post_type :: "bin_op \<Rightarrow> finsh_node_type" where
  "post_type Add = FINSH_NODE_SYS_INC" | "post_type _ = FINSH_NODE_SYS_DEC"

abbreviation "call_info f \<equiv> (new_info FINSH_NODE_ID)\<lparr>idtype := FINSH_IDTYPE_SYSCALL, node_id := f\<rparr>"

text \<open>The tree that the parser makes.\<close>

fun tree :: "finsh \<Rightarrow> expr \<Rightarrow> finsh_node" where
  "tree s (Lit t v) = Node ((new_info t)\<lparr>node_value := v\<rparr>) NULL NULL"
| "tree s (Var x) = Node (place_info s x) NULL NULL"
| "tree s (AddrOf x) = sys_node FINSH_NODE_SYS_GETADDR (Node (place_info s x) NULL NULL) NULL"
| "tree s (Deref e) = sys_node FINSH_NODE_SYS_GETVALUE (tree s e) NULL"
| "tree s (Binary x e1 e2) = sys_node (FINSH_NODE_SYS x) (tree s e1) (tree s e2)"
| "tree s (Compl e) = sys_node FINSH_NODE_SYS_BITWISE (tree s e) NULL"
| "tree s (Assign x e) = sys_node FINSH_NODE_SYS_ASSIGN (Node (place_info s x) NULL NULL) (tree s e)"
| "tree s (Store p e) = sys_node FINSH_NODE_SYS_ASSIGN (sys_node FINSH_NODE_SYS_GETVALUE (tree s p) NULL) (tree s e)"
| "tree s (Pre x i) = sys_node (pre_type x) (Node (place_info s (Global i)) NULL NULL) NULL"
| "tree s (Post x i) = sys_node (post_type x) (Node (place_info s (Global i)) NULL NULL) NULL"
| "tree s (Call f es) = sys_node FINSH_NODE_SYS_FUNC (Node (call_info f) NULL NULL) (chain (map (tree s) es))"

text \<open>The same after the type check.\<close>

definition typed_place :: "finsh \<Rightarrow> u8 \<Rightarrow> place \<Rightarrow> finsh_node" where
  "typed_place s is_addr x = (let n = place_info s x in Node (n\<lparr>idtype := idtype n OR is_addr, data_type := FINSH_DATA_TYPE_DWORD\<rparr>) NULL NULL)"

abbreviation "typed_info t \<equiv> (new_info t)\<lparr>data_type := FINSH_DATA_TYPE_DWORD\<rparr>"
abbreviation "typed_node t a b \<equiv> Node (typed_info t) (set_sibling a b) NULL"

fun typed_tree :: "finsh \<Rightarrow> expr \<Rightarrow> finsh_node" where
  "typed_tree s (Lit t v) = Node ((typed_info t)\<lparr>node_value := v\<rparr>) NULL NULL"
| "typed_tree s (Var x) = typed_place s 0 x"
| "typed_tree s (AddrOf x) = typed_node FINSH_NODE_SYS_GETADDR (typed_place s FINSH_IDTYPE_ADDRESS x) NULL"
| "typed_tree s (Deref e) = typed_node FINSH_NODE_SYS_GETVALUE (typed_tree s e) NULL"
| "typed_tree s (Binary x e1 e2) = typed_node (FINSH_NODE_SYS x) (typed_tree s e1) (typed_tree s e2)"
| "typed_tree s (Compl e) = typed_node FINSH_NODE_SYS_BITWISE (typed_tree s e) NULL"
| "typed_tree s (Assign x e) = typed_node FINSH_NODE_SYS_ASSIGN (typed_place s FINSH_IDTYPE_ADDRESS x) (typed_tree s e)"
| "typed_tree s (Store p e) = typed_node FINSH_NODE_SYS_ASSIGN
     (Node ((typed_info FINSH_NODE_SYS_GETVALUE)\<lparr>idtype := FINSH_IDTYPE_ADDRESS\<rparr>) (typed_tree s p) NULL) (typed_tree s e)"
| "typed_tree s (Pre x i) = typed_node (pre_type x) (typed_place s FINSH_IDTYPE_ADDRESS (Global i)) NULL"
| "typed_tree s (Post x i) = typed_node (post_type x) (typed_place s 0 (Global i)) NULL"
| "typed_tree s (Call f es) = sys_node FINSH_NODE_SYS_FUNC (Node (call_info f) NULL NULL) (chain (map (typed_tree s) es))"

section \<open>The type check\<close>

lemma set_sibling_idem [simp]: "set_sibling (set_sibling t a) b = set_sibling t b"
  by (cases t) auto

lemma tree_sibling [simp]: "set_sibling (tree s e) NULL = tree s e" "set_sibling (typed_tree s e) NULL = typed_tree s e"
    "set_sibling (typed_place s f x) NULL = typed_place s f x"
  by (cases e; simp add: typed_place_def Let_def)+

lemma tree_not_NULL [simp]: "set_sibling (tree s e) b \<noteq> NULL" "set_sibling (typed_tree s e) b \<noteq> NULL" "set_sibling (typed_place s f x) b \<noteq> NULL"
  by (cases e; simp add: typed_place_def Let_def)+

lemma data_type_tree: "node_data_type (set_sibling (typed_tree s e) b) = (if has_width e then FINSH_DATA_TYPE_DWORD else FINSH_DATA_TYPE_VOID)"
  "node_data_type (set_sibling (typed_place s f x) b) = FINSH_DATA_TYPE_DWORD"
  by (cases e; simp add: typed_place_def Let_def new_info_def) (simp add: typed_place_def Let_def)

lemma tree_not_NULL' [simp]: "tree s e \<noteq> NULL" "typed_tree s e \<noteq> NULL" "typed_place s f x \<noteq> NULL"
  using tree_not_NULL [where b = NULL] by simp_all

lemma data_type_tree': "node_data_type (typed_tree s e) = (if has_width e then FINSH_DATA_TYPE_DWORD else FINSH_DATA_TYPE_VOID)"
  "node_data_type (typed_place s f x) = FINSH_DATA_TYPE_DWORD"
  using data_type_tree [where b = NULL] by simp_all

lemma W32_data_type: "type_width t = Some W32 \<Longrightarrow> type_data_type t d s = (FINSH_DATA_TYPE_DWORD, s)"
  by (cases t) auto

lemma var_at_var_addr: "i < length (global_variable s) \<Longrightarrow> var_at s (var_addr s i) = Some (global_variable s ! i)"
  by (simp add: var_at_def var_addr_def Let_def)

lemma type_check_place:
  assumes "place_ok s x" "f = 0 \<or> f = FINSH_IDTYPE_ADDRESS" "finsh_type_check b 0 s = Some (b', s)"
  shows "finsh_type_check (Node (place_info s x) NULL b) f s = Some (set_sibling (typed_place s f x) b', s)"
proof (cases x)
  case (Global i)
  then show ?thesis using assms
    by (auto simp: leaf_data_type_def new_info_def typed_place_def Let_def var_at_var_addr W32_data_type)
next
  case (System p)
  then show ?thesis using assms
    by (auto simp: leaf_data_type_def new_info_def typed_place_def Let_def W32_data_type split: option.splits)
qed

lemmas type_check_defs = leaf_data_type_def new_info_def Let_def

lemma type_check_node:
  assumes "finsh_type_check c f s = Some (c', s)" "c' \<noteq> NULL" "finsh_type_check b 0 s = Some (b', s)"
    "f = (if t \<in> {FINSH_NODE_SYS_ASSIGN, FINSH_NODE_SYS_PREINC, FINSH_NODE_SYS_PREDEC, FINSH_NODE_SYS_GETADDR} then FINSH_IDTYPE_ADDRESS else 0)"
  shows "finsh_type_check (Node (new_info t) c b) 0 s = Some (Node ((new_info t)\<lparr>data_type := node_data_type c'\<rparr>) c' b', s)"
  using assms by (auto simp: new_info_def)

lemma type_check_tree:
  "wt s e \<Longrightarrow> finsh_type_check b 0 s = Some (b', s) \<Longrightarrow>
    finsh_type_check (set_sibling (tree s e) b) 0 s = Some (set_sibling (typed_tree s e) b', s)"
proof (induction s e arbitrary: b b' rule: tree.induct)
  case (1 s t v)
  then show ?case by (auto simp: type_check_defs)
next
  case (2 s x)
  then show ?case using type_check_place [of s x 0 b b'] by simp
next
  case (3 s x)
  then show ?case
    using type_check_node [OF type_check_place [of s x FINSH_IDTYPE_ADDRESS NULL NULL] _ 3(2), of FINSH_NODE_SYS_GETADDR] by (simp add: data_type_tree data_type_tree' del: finsh_type_check.simps(2))
next
  case (4 s e)
  then show ?case
    using type_check_node [OF 4(1) [of NULL NULL] _ 4(3), of FINSH_NODE_SYS_GETVALUE] by (simp add: data_type_tree data_type_tree' del: finsh_type_check.simps(2))
next
  case (5 s x e1 e2)
  then show ?case
    using type_check_node [OF 5(1) [OF _ 5(2) [of NULL NULL]] _ 5(4), of "FINSH_NODE_SYS x"] by (simp add: data_type_tree data_type_tree' del: finsh_type_check.simps(2))
next
  case (6 s e)
  then show ?case
    using type_check_node [OF 6(1) [of NULL NULL] _ 6(3), of FINSH_NODE_SYS_BITWISE] by (simp add: data_type_tree data_type_tree' del: finsh_type_check.simps(2))
next
  case (7 s x e)
  then show ?case
    using type_check_node [OF type_check_place [of s x FINSH_IDTYPE_ADDRESS "set_sibling (tree s e) NULL", OF _ _ 7(1) [of NULL NULL]] _ 7(3), of FINSH_NODE_SYS_ASSIGN]
    by (simp add: data_type_tree data_type_tree' del: finsh_type_check.simps(2))
next
  case (8 s p e)
  note e = 8(2) [of NULL NULL]
  have "finsh_type_check (Node (new_info FINSH_NODE_SYS_GETVALUE) (set_sibling (tree s p) NULL) (set_sibling (tree s e) NULL)) FINSH_IDTYPE_ADDRESS s =
     Some (Node ((typed_info FINSH_NODE_SYS_GETVALUE)\<lparr>idtype := FINSH_IDTYPE_ADDRESS\<rparr>) (set_sibling (typed_tree s p) NULL) (set_sibling (typed_tree s e) NULL), s)"
    using 8(1) [of NULL NULL] e 8(3) by (simp add: data_type_tree') (simp add: new_info_def)
  then show ?case using type_check_node [OF _ _ 8(4), of _ FINSH_IDTYPE_ADDRESS _ FINSH_NODE_SYS_ASSIGN] 8(3)
    by (simp add: data_type_tree data_type_tree' del: finsh_type_check.simps(2))
next
  case (9 s x i)
  then have "pre_type x \<in> {FINSH_NODE_SYS_PREINC, FINSH_NODE_SYS_PREDEC}" by auto
  then show ?case
    using type_check_node [OF type_check_place [of s "Global i" FINSH_IDTYPE_ADDRESS NULL NULL] _ 9(2), of "pre_type x"] 9(1) by (auto simp: data_type_tree data_type_tree' simp del: finsh_type_check.simps(2))
next
  case (10 s x i)
  then have "post_type x \<in> {FINSH_NODE_SYS_INC, FINSH_NODE_SYS_DEC}" by auto
  then show ?case
    using type_check_node [OF type_check_place [of s "Global i" 0 NULL NULL] _ 10(2), of "post_type x"] 10(1) by (auto simp: data_type_tree data_type_tree' simp del: finsh_type_check.simps(2))
next
  case (11 s f es)
  have "finsh_type_check (chain (map (tree s) es)) 0 s = Some (chain (map (typed_tree s) es), s)"
    using 11(1) 11(2) by (induction es) (auto simp: list_all_iff)
  then show ?case using 11(3) by (simp add: type_check_defs)
qed

section \<open>The code\<close>

fun code_of :: "finsh \<Rightarrow> expr \<Rightarrow> instr list" where
  "code_of s (Lit t v) = [LD W32 v]"
| "code_of s (Var x) = [LDV W32 (place_addr s x)]"
| "code_of s (AddrOf x) = [LD W32 (place_addr s x)]"
| "code_of s (Deref e) = code_of s e @ [LDVS W32]"
| "code_of s (Binary x e1 e2) = code_of s e1 @ code_of s e2 @ [BIN x W32]"
| "code_of s (Compl e) = code_of s e @ [BW W32]"
| "code_of s (Assign x e) = [LD W32 (place_addr s x)] @ code_of s e @ [ST W32, LDVS W32]"
| "code_of s (Store p e) = code_of s p @ code_of s e @ [ST W32, LDVS W32]"
| "code_of s (Pre x i) = (let a = place_addr s (Global i) in [LD W32 a, LDV W32 a, LD W32 1, BIN x W32, ST W32, LDVS W32])"
| "code_of s (Post x i) = (let a = place_addr s (Global i) in [LDV W32 a, LD W32 a, LDV W32 a, LD W32 1, BIN x W32, ST W32, POP])"
| "code_of s (Call f es) = [LD W32 (function_of s f)] @ concat (map (code_of s) es) @ [SYSCALL (of_nat (length es))]"

text \<open>Writing a list of bytes.\<close>

fun emit :: "u8 list \<Rightarrow> finsh \<Rightarrow> finsh option" where
  "emit [] s = Some s"
| "emit (b # bs) s = Option.bind (finsh_code_byte b s) (emit bs)"

lemma emit_eqs: "emit [] = Some" "emit (b # bs) = (\<lambda>s. Option.bind (finsh_code_byte b s) (emit bs))"
  by auto

lemma emit_append [simp]: "emit (bs @ cs) s = Option.bind (emit bs s) (emit cs)"
proof (induction bs arbitrary: s)
  case (Cons b bs)
  then show ?case by (cases "finsh_code_byte b s") simp_all
qed simp

lemma low_byte_ucast: "(ucast (x AND 0xFF) :: u8) = ucast x" for x :: u32
  by (intro bit_word_eqI) (simp only: bit_unsigned_iff low_byte, auto)

lemma code_dword_emit: "finsh_code_dword x = emit (le_bytes 4 x)"
proof
  fix s
  have 4: "4 = Suc (Suc (Suc (Suc 0)))" by simp
  show "finsh_code_dword x s = emit (le_bytes 4 x) s" unfolding 4
    by (simp add: finsh_code_dword_def low_byte_ucast emit_eqs)
qed

lemma code_byte_emit: "finsh_code_byte x = emit [x]"
  by (simp add: fun_eq_iff emit_eqs)

text \<open>The identifiers mean the same in the two states.\<close>

definition same_env :: "finsh \<Rightarrow> finsh \<Rightarrow> bool" where
  "same_env s s' \<longleftrightarrow> var_at s' = var_at s \<and> sysvar_at s' = sysvar_at s \<and> syscall_at s' = syscall_at s"

lemma same_env_refl [simp]: "same_env s s"
  by (simp add: same_env_def)

lemma emit_frame: "emit bs s = Some s' \<Longrightarrow> s' = s\<lparr>text_segment := text_segment s', finsh_compile_pc := finsh_compile_pc s'\<rparr>"
proof (induction bs arbitrary: s)
  case (Cons b bs)
  then obtain s1 where 1: "finsh_code_byte b s = Some s1" "emit bs s1 = Some s'" by (auto split: bind_splits)
  show ?case using Cons.IH [OF 1(2)] 1(1) by (cases s; cases s'; cases s1) (auto simp: finsh_code_byte_def split: if_splits)
qed simp

lemma emit_env: assumes "same_env s st" "emit bs st = Some st'" shows "same_env s st'"
proof -
  have "same_env st (st\<lparr>text_segment := t, finsh_compile_pc := p\<rparr>)" for t p
    by (simp add: same_env_def fun_eq_iff var_at_def sysvar_at_def syscall_at_def Let_def)
  then have "same_env st st'" using emit_frame [OF assms(2)] by metis
  then show ?thesis using assms(1) by (simp add: same_env_def)
qed

lemma bind_env: "same_env s st \<Longrightarrow> (\<And>st'. same_env s st' \<Longrightarrow> f st' = g st') \<Longrightarrow> Option.bind (emit bs st) f = Option.bind (emit bs st) g"
  by (cases "emit bs st") (auto dest: emit_env)

text \<open>From here on, a list of bytes is written piece by piece.\<close>

declare emit.simps [simp del]

lemma emit_pieces:
  "emit (bs @ cs) = (\<lambda>s. Option.bind (emit bs s) (emit cs))"
  "emit (b # le_bytes n x) = (\<lambda>s. Option.bind (emit [b] s) (emit (le_bytes n x)))"
  "emit (b # (bs @ cs)) = (\<lambda>s. Option.bind (emit [b] s) (emit (bs @ cs)))"
  "emit (b # c # bs) = (\<lambda>s. Option.bind (emit [b] s) (emit (c # bs)))"
  by (simp_all add: emit_eqs fun_eq_iff)

lemmas compile_defs = compile_node_def compile_id_def compile_var_def code_byte_emit code_dword_emit emit_pieces emit_eqs(1)

lemma compile_place:
  assumes "place_ok s x" "f = 0 \<or> f = FINSH_IDTYPE_ADDRESS" "same_env s st"
  shows "finsh_compile (set_sibling (typed_place s f x) b) st =
    Option.bind (emit (encode (if f = 0 then LDV W32 (place_addr s x) else LD W32 (place_addr s x))) st) (finsh_compile b)"
proof (cases x)
  case (Global i)
  then show ?thesis using assms
    by (auto simp: typed_place_def new_info_def Let_def same_env_def var_at_var_addr compile_defs)
next
  case (System p)
  then show ?thesis using assms
    by (auto simp: typed_place_def new_info_def Let_def same_env_def compile_defs split: option.splits)
qed

lemma siblings_chain: "siblings (chain (map (typed_tree s) es)) = length es"
proof (induction es)
  case (Cons e es)
  then show ?case by (cases "typed_tree s e") auto
qed simp

lemma finsh_compile_NULL: "finsh_compile NULL = Some"
  by auto

lemma compile_node_step:
  assumes "finsh_compile c st = emit bs st" "\<And>st'. same_env s st' \<Longrightarrow> compile_node n c st' = emit cs st'" "same_env s st"
  shows "finsh_compile (Node n c b) st = Option.bind (emit (bs @ cs) st) (finsh_compile b)"
proof -
  have "finsh_compile (Node n c b) st = Option.bind (emit bs st) (\<lambda>st. Option.bind (compile_node n c st) (finsh_compile b))"
    using assms(1) by simp
  also have "\<dots> = Option.bind (emit bs st) (\<lambda>st. Option.bind (emit cs st) (finsh_compile b))"
    using assms(2) by (intro bind_env [OF assms(3)]) simp
  finally show ?thesis by simp
qed

lemma compile_two:
  assumes "\<And>b. finsh_compile (set_sibling t1 b) st = Option.bind (emit bs st) (finsh_compile b)"
    "\<And>st'. same_env s st' \<Longrightarrow> finsh_compile t2 st' = emit cs st'" "same_env s st"
  shows "finsh_compile (set_sibling t1 t2) st = emit (bs @ cs) st"
  unfolding assms(1) emit_append by (rule bind_env [OF assms(3)]) (rule assms(2))

lemma emit_runit: "Option.bind (emit bs s) (finsh_compile NULL) = emit bs s"
  by (simp add: finsh_compile_NULL)

lemmas compile_place' = compile_place [where b = NULL, unfolded emit_runit tree_sibling]

lemma typed_node_cases:
  obtains n where "typed_place s f x = Node n NULL NULL" "node_type n = FINSH_NODE_ID" "data_type n = FINSH_DATA_TYPE_DWORD"
    "\<And>i. x = Global i \<Longrightarrow> node_id n = var_addr s i" "\<And>p. x = System p \<Longrightarrow> node_id n = p"
  by (cases x) (auto simp: typed_place_def Let_def new_info_def)

lemma compile_tree:
  "wt s e \<Longrightarrow> same_env s st \<Longrightarrow>
    finsh_compile (set_sibling (typed_tree s e) b) st = Option.bind (emit (assemble (code_of s e)) st) (finsh_compile b)"
proof (induction s e arbitrary: st b rule: tree.induct)
  case (1 s t v)
  then show ?case by (auto simp: compile_defs new_info_def)
next
  case (2 s x)
  then show ?case using compile_place [of s x 0 st b] by simp
next
  case (3 s x)
  then have c: "finsh_compile (typed_place s FINSH_IDTYPE_ADDRESS x) st = emit (encode (LD W32 (place_addr s x))) st"
    using compile_place' [of s x FINSH_IDTYPE_ADDRESS st] by simp
  have "compile_node (typed_info FINSH_NODE_SYS_GETADDR) (typed_place s FINSH_IDTYPE_ADDRESS x) st' = emit [] st'" for st'
    by (simp add: compile_defs new_info_def)
  from compile_node_step [OF c this 3(2)] show ?case by simp
next
  case (4 s e)
  then have c: "finsh_compile (typed_tree s e) st = emit (assemble (code_of s e)) st"
    using 4(1) [of st NULL] by (simp add: emit_runit)
  have "compile_node (typed_info FINSH_NODE_SYS_GETVALUE) (typed_tree s e) st' = emit [0x2D + 2] st'" for st'
    by (simp add: compile_defs compile_getvalue_def data_width_def new_info_def)
  from compile_node_step [OF c this 4(3)] show ?case by simp
next
  case (5 s x e1 e2)
  have c: "finsh_compile (set_sibling (typed_tree s e1) (typed_tree s e2)) st = emit (assemble (code_of s e1) @ assemble (code_of s e2)) st"
    using 5 5(2) [of _ NULL] by (intro compile_two [OF _ _ 5(4)]) (simp_all add: emit_runit)
  have "compile_node (typed_info (FINSH_NODE_SYS x)) (set_sibling (typed_tree s e1) (typed_tree s e2)) st' = emit [op_code x + 2] st'" for st'
    by (simp add: compile_defs compile_operator_def data_width_def new_info_def)
  from compile_node_step [OF c this 5(4)] show ?case by simp
next
  case (6 s e)
  then have c: "finsh_compile (typed_tree s e) st = emit (assemble (code_of s e)) st"
    using 6(1) [of st NULL] by (simp add: emit_runit)
  have "compile_node (typed_info FINSH_NODE_SYS_BITWISE) (typed_tree s e) st' = emit [0x19 + 2] st'" for st'
    by (simp add: compile_defs compile_operator_def data_width_def new_info_def)
  from compile_node_step [OF c this 6(3)] show ?case by simp
next
  case (7 s x e)
  let ?c = "set_sibling (typed_place s FINSH_IDTYPE_ADDRESS x) (typed_tree s e)"
  have c: "finsh_compile ?c st = emit (encode (LD W32 (place_addr s x)) @ assemble (code_of s e)) st"
    using 7 7(1) [of _ NULL] compile_place [of s x FINSH_IDTYPE_ADDRESS st] by (intro compile_two [OF _ _ 7(3)]) (simp_all add: emit_runit)
  obtain n where n: "?c = Node n NULL (typed_tree s e)" "node_type n = FINSH_NODE_ID" "data_type n = FINSH_DATA_TYPE_DWORD"
    by (rule typed_node_cases [of s FINSH_IDTYPE_ADDRESS x]) simp
  have "compile_node (typed_info FINSH_NODE_SYS_ASSIGN) ?c st' = emit [0x28 + 2, 0x2D + 2] st'" for st'
    unfolding n(1) by (simp add: n(2,3) compile_defs compile_store_def data_width_def new_info_def)
  from compile_node_step [OF c this 7(3)] show ?case by simp
next
  case (8 s p e)
  let ?n = "(typed_info FINSH_NODE_SYS_GETVALUE)\<lparr>idtype := FINSH_IDTYPE_ADDRESS\<rparr>"
  let ?c = "Node ?n (typed_tree s p) (typed_tree s e)"
  have p: "finsh_compile (typed_tree s p) st = emit (assemble (code_of s p)) st"
    using 8(1) [of st NULL] 8(3,4) by (simp add: emit_runit)
  have "compile_node ?n (typed_tree s p) st' = emit [] st'" for st'
    by (simp add: compile_defs compile_getvalue_def new_info_def)
  from compile_node_step [OF p this 8(4)]
  have "finsh_compile (set_sibling (Node ?n (typed_tree s p) NULL) b) st = Option.bind (emit (assemble (code_of s p)) st) (finsh_compile b)" for b by simp
  then have c: "finsh_compile ?c st = emit (assemble (code_of s p) @ assemble (code_of s e)) st"
    using compile_two [OF _ _ 8(4), of "Node ?n (typed_tree s p) NULL" "assemble (code_of s p)" "typed_tree s e"] 8(2) [of _ NULL] 8(3)
    by (simp add: emit_runit)
  have "compile_node (typed_info FINSH_NODE_SYS_ASSIGN) ?c st' = emit [0x28 + 2, 0x2D + 2] st'" for st'
    by (simp add: compile_defs compile_store_def data_width_def new_info_def)
  from compile_node_step [OF c this 8(4)] show ?case by simp
next
  case (9 s x i)
  let ?c = "typed_place s FINSH_IDTYPE_ADDRESS (Global i)"
  have c: "finsh_compile ?c st = emit (encode (LD W32 (place_addr s (Global i)))) st"
    using compile_place' [of s "Global i" FINSH_IDTYPE_ADDRESS st] 9 by simp
  obtain n where n: "?c = Node n NULL NULL" "node_type n = FINSH_NODE_ID" "node_id n = var_addr s i"
    by (rule typed_node_cases [of s FINSH_IDTYPE_ADDRESS "Global i"]) simp
  have "compile_node (typed_info (pre_type x)) ?c st' =
      emit (assemble [LDV W32 (place_addr s (Global i)), LD W32 1, BIN x W32, ST W32, LDVS W32]) st'" for st'
    unfolding n(1) using 9(1) by (auto simp: n(2,3) compile_defs data_width_def new_info_def)
  from compile_node_step [OF c this 9(2)] show ?case by (simp add: Let_def)
next
  case (10 s x i)
  let ?c = "typed_place s 0 (Global i)"
  have c: "finsh_compile ?c st = emit (encode (LDV W32 (place_addr s (Global i)))) st"
    using compile_place' [of s "Global i" 0 st] 10 by simp
  obtain n where n: "?c = Node n NULL NULL" "node_type n = FINSH_NODE_ID" "node_id n = var_addr s i"
    by (rule typed_node_cases [of s 0 "Global i"]) simp
  have "compile_node (typed_info (post_type x)) ?c st' =
      emit (assemble [LD W32 (place_addr s (Global i)), LDV W32 (place_addr s (Global i)), LD W32 1, BIN x W32, ST W32, POP]) st'" for st'
    unfolding n(1) using 10(1) by (auto simp: n(2,3) compile_defs data_width_def new_info_def)
  from compile_node_step [OF c this 10(2)] show ?case by (simp add: Let_def)
next
  case (11 s f es)
  let ?c = "Node (call_info f) NULL (chain (map (typed_tree s) es))"
  have args: "same_env s st \<Longrightarrow> finsh_compile (chain (map (typed_tree s) es)) st = emit (assemble (concat (map (code_of s) es))) st" for st
    using 11(1,2)
  proof (induction es arbitrary: st)
    case (Cons e es)
    have "finsh_compile (set_sibling (typed_tree s e) (chain (map (typed_tree s) es))) st =
        emit (assemble (code_of s e) @ assemble (concat (map (code_of s) es))) st"
      using Cons.IH Cons.prems by (intro compile_two [OF _ _ Cons.prems(1)]) auto
    then show ?case by simp
  qed (simp add: emit_eqs)
  obtain fn where fn: "syscall_at s f = Some fn" using 11(2) by auto
  have "finsh_compile (set_sibling (Node (call_info f) NULL NULL) b) st = Option.bind (emit (encode (LD W32 (function_of s f))) st) (finsh_compile b)" for b
    using 11(3) fn by (simp add: compile_defs same_env_def new_info_def function_of_def)
  then have c: "finsh_compile ?c st = emit (encode (LD W32 (function_of s f)) @ assemble (concat (map (code_of s) es))) st"
    using compile_two [OF _ args 11(3), of "Node (call_info f) NULL NULL" "encode (LD W32 (function_of s f))"] by simp
  have "compile_node (new_info FINSH_NODE_SYS_FUNC) ?c st' = emit (encode (SYSCALL (of_nat (length es)))) st'" for st'
    by (simp add: compile_defs siblings_chain new_info_def)
  from compile_node_step [OF c this 11(3)] show ?case by simp
qed

section \<open>Running the code\<close>

text \<open>The cells that the code of a command takes at most, and the nodes of its tree.\<close>

fun depth :: "expr \<Rightarrow> nat" and depth_args :: "expr list \<Rightarrow> nat" where
  "depth (Lit t v) = 1" | "depth (Var x) = 1" | "depth (AddrOf x) = 1" | "depth (Deref e) = depth e"
| "depth (Binary x e1 e2) = max (depth e1) (Suc (depth e2))" | "depth (Compl e) = depth e" | "depth (Assign x e) = Suc (depth e)"
| "depth (Store p e) = max (depth p) (Suc (depth e))" | "depth (Pre x i) = 3" | "depth (Post x i) = 4"
| "depth (Call f es) = Suc (depth_args es)"
| "depth_args [] = 0" | "depth_args (e # es) = max (depth e) (Suc (depth_args es))"

fun nodes :: "expr \<Rightarrow> nat" where
  "nodes (Lit t v) = 1" | "nodes (Var x) = 1" | "nodes (AddrOf x) = 2" | "nodes (Deref e) = Suc (nodes e)"
| "nodes (Binary x e1 e2) = Suc (nodes e1 + nodes e2)" | "nodes (Compl e) = Suc (nodes e)" | "nodes (Assign x e) = nodes e + 2"
| "nodes (Store p e) = nodes p + nodes e + 2" | "nodes (Pre x i) = 2" | "nodes (Post x i) = 2"
| "nodes (Call f es) = sum_list (map nodes es) + 2"

lemma nodes_pos: "0 < nodes e"
  by (cases e) auto

lemma depth_nodes: "depth e \<le> nodes e + 2" "depth_args es \<le> sum_list (map nodes es) + 2"
proof (induction e and es rule: depth_depth_args.induct)
  case (13 e es)
  then show ?case using nodes_pos [of e] by simp
qed auto

text \<open>
  The code ran as the command says: it pushed the values \<open>vs\<close>, or both have no result. \<open>n\<close> cells were free before.
\<close>

fun pushed :: "config option \<Rightarrow> u32 list \<Rightarrow> nat \<Rightarrow> (u32 list \<times> memory) option \<Rightarrow> bool" where
  "pushed c xs n None \<longleftrightarrow> c = None"
| "pushed c xs n (Some (vs, m)) \<longleftrightarrow> (\<exists>ys. c = Some (rev vs @ xs, ys, m) \<and> n = length vs + length ys)"

abbreviation "single \<equiv> map_option (\<lambda>(v :: u32, m :: memory). ([v], m))"

lemma load_store32: "load32 (store32 a v m) a = v"
  using high_byte_bit [of _ v] by (intro bit_word_eqI) (auto simp: load32_def store32_def bit_simps)

lemma eval_args_length: "eval_args sys s es m = Some (vs, m') \<Longrightarrow> length vs = length es"
  by (induction es arbitrary: m vs) (auto split: bind_splits)

lemma pushed_oneE:
  assumes "pushed c xs n (single r)"
  obtains "r = None" "c = None" | v m ys where "r = Some (v, m)" "c = Some (v # xs, ys, m)" "n = Suc (length ys)"
  using assms by (cases r) auto

lemma exec_code_of:
  "wt s e \<Longrightarrow> depth e \<le> length ys \<Longrightarrow> pushed (exec sys (code_of s e) (xs, ys, m)) xs (length ys) (single (eval sys s e m))"
  "list_all (wt s) es \<Longrightarrow> depth_args es \<le> length ys \<Longrightarrow> pushed (exec sys (concat (map (code_of s) es)) (xs, ys, m)) xs (length ys) (eval_args sys s es m)"
proof (induction sys s e m and sys s es m arbitrary: xs ys and xs ys rule: eval_eval_args.induct)
  case (4 sys s e m)
  then have "pushed (exec sys (code_of s e) (xs, ys, m)) xs (length ys) (single (eval sys s e m))" by simp
  then show ?case by (cases rule: pushed_oneE) auto
next
  case (5 sys s x e1 e2 m)
  then have 1: "pushed (exec sys (code_of s e1) (xs, ys, m)) xs (length ys) (single (eval sys s e1 m))" by simp
  show ?case
  proof (cases "eval sys s e1 m")
    case (Some r)
    obtain a m1 where r: "r = (a, m1)" by (cases r)
    obtain ys1 where ys1: "exec sys (code_of s e1) (xs, ys, m) = Some (a # xs, ys1, m1)" "length ys = Suc (length ys1)"
      using 1 Some r by auto
    then have "pushed (exec sys (code_of s e2) (a # xs, ys1, m1)) (a # xs) (length ys1) (single (eval sys s e2 m1))"
      using 5(2) [OF Some r [symmetric], of ys1 "a # xs"] 5(3,4) by simp
    then show ?thesis
    proof (cases rule: pushed_oneE)
      case (2 b m2 ys2)
      then show ?thesis using Some r ys1 by (cases "c_operator x a b") auto
    qed (simp add: Some r ys1)
  qed (use 1 in simp)
next
  case (6 sys s e m)
  then have "pushed (exec sys (code_of s e) (xs, ys, m)) xs (length ys) (single (eval sys s e m))" by simp
  then show ?case by (cases rule: pushed_oneE) auto
next
  case (7 sys s x e m)
  then obtain c zs where ys: "ys = c # zs" by (cases ys) auto
  then have "pushed (exec sys (code_of s e) (place_addr s x # xs, zs, m)) (place_addr s x # xs) (length zs) (single (eval sys s e m))" using 7 by simp
  then show ?case by (cases rule: pushed_oneE) (auto simp: ys load_store32)
next
  case (8 sys s p e m)
  then have 1: "pushed (exec sys (code_of s p) (xs, ys, m)) xs (length ys) (single (eval sys s p m))" by simp
  show ?case
  proof (cases "eval sys s p m")
    case (Some r)
    obtain a m1 where r: "r = (a, m1)" by (cases r)
    obtain ys1 where ys1: "exec sys (code_of s p) (xs, ys, m) = Some (a # xs, ys1, m1)" "length ys = Suc (length ys1)"
      using 1 Some r by auto
    then have "pushed (exec sys (code_of s e) (a # xs, ys1, m1)) (a # xs) (length ys1) (single (eval sys s e m1))"
      using 8(2) [OF Some r [symmetric], of ys1 "a # xs"] 8(3,4) by simp
    then show ?thesis by (cases rule: pushed_oneE) (simp_all add: Some r ys1 load_store32)
  qed (use 1 in simp)
next
  case (9 sys s x i m)
  then have "3 \<le> length ys" by simp
  then obtain c1 c2 c3 zs where "ys = c1 # c2 # c3 # zs" by (auto simp: numeral_3_eq_3 Suc_le_length_iff)
  then show ?case by (auto simp: Let_def load_store32 split: bind_split option.split)
next
  case (10 sys s x i m)
  then have "4 \<le> length ys" by simp
  then have "Suc (Suc (Suc (Suc 0))) \<le> length ys" by simp
  then obtain c1 c2 c3 c4 zs where "ys = c1 # c2 # c3 # c4 # zs" by (auto simp: Suc_le_length_iff)
  then show ?case by (auto simp: Let_def split: bind_split option.split)
next
  case (11 sys s f es m)
  then obtain c zs where ys: "ys = c # zs" by (cases ys) auto
  let ?f = "function_of s f"
  have p: "pushed (exec sys (concat (map (code_of s) es)) (?f # xs, zs, m)) (?f # xs) (length zs) (eval_args sys s es m)"
    using 11 ys by simp
  have n: "unat (of_nat (length es) :: u8) = length es" using 11(2) by (simp add: unat_of_nat)
  show ?case
  proof (cases "eval_args sys s es m")
    case None
    then show ?thesis using p by (simp add: ys)
  next
    case (Some r)
    obtain vs m1 where r: "r = (vs, m1)" by (cases r)
    then obtain zs1 where e: "exec sys (concat (map (code_of s) es)) (?f # xs, zs, m) = Some (rev vs @ ?f # xs, zs1, m1)" "length zs = length vs + length zs1"
      using p Some by auto
    have l: "length es = length vs" using eval_args_length Some r by metis
    show ?thesis using Some r e 11(2) n l
      by (cases "sys ?f (if es = [] then [0] else vs) m1") (auto simp: ys Let_def nth_append split: if_splits)
  qed
next
  case (13 sys s e es m)
  then have 1: "pushed (exec sys (code_of s e) (xs, ys, m)) xs (length ys) (single (eval sys s e m))" by simp
  show ?case
  proof (cases "eval sys s e m")
    case (Some r)
    obtain a m1 where r: "r = (a, m1)" by (cases r)
    obtain ys1 where ys1: "exec sys (code_of s e) (xs, ys, m) = Some (a # xs, ys1, m1)" "length ys = Suc (length ys1)"
      using 1 Some r by auto
    then have "pushed (exec sys (concat (map (code_of s) es)) (a # xs, ys1, m1)) (a # xs) (length ys1) (eval_args sys s es m1)"
      using 13(2) [OF Some r [symmetric], of ys1 "a # xs"] 13(3,4) by simp
    then show ?thesis by (cases "eval_args sys s es m1") (auto simp: Some r ys1)
  qed (use 1 in simp)
qed (auto simp: neq_Nil_conv Suc_le_length_iff)

section \<open>Lists of commands\<close>

fun code_list :: "finsh \<Rightarrow> expr list \<Rightarrow> instr list" where
  "code_list s [] = []"
| "code_list s [e] = code_of s e"
| "code_list s (e # es) = code_of s e @ POP # code_list s es"

abbreviation "program s es \<equiv> chain (map (tree s) es)"

lemma compile_statements_tree:
  assumes "wt s e" "same_env s st"
  shows "compile_statements (set_sibling (typed_tree s e) b) st = Option.bind (emit (assemble (code_of s e)) st)
    (\<lambda>st. Option.bind (if b \<noteq> NULL then finsh_code_byte FINSH_OP_POP st else Some st) (compile_statements b))"
proof -
  obtain n c d where t: "typed_tree s e = Node n c d" by (cases "typed_tree s e") auto
  have "finsh_compile (Node n c NULL) st = emit (assemble (code_of s e)) st"
    using compile_tree [OF assms, of NULL] by (simp only: t set_sibling.simps emit_runit)
  then show ?thesis by (simp add: t del: finsh_compile.simps)
qed

lemma chain_typed_NULL [simp]: "chain (map (typed_tree s) (e # es)) \<noteq> NULL"
  by simp

lemma compile_statements_chain:
  "list_all (wt s) es \<Longrightarrow> same_env s st \<Longrightarrow>
    compile_statements (chain (map (typed_tree s) es)) st = emit (assemble (code_list s es)) st"
proof (induction s es arbitrary: st rule: code_list.induct)
  case (2 s e)
  have "compile_statements NULL = Some" by auto
  then show ?case using compile_statements_tree [of s e st NULL] 2 by simp
next
  case (3 s e e' es)
  have "compile_statements (chain (map (typed_tree s) (e # e' # es))) st = Option.bind (emit (assemble (code_of s e) @ [FINSH_OP_POP]) st)
      (compile_statements (chain (map (typed_tree s) (e' # es))))"
    using compile_statements_tree [of s e st "chain (map (typed_tree s) (e' # es))"] 3(2,3)
    by (simp add: code_byte_emit)
  also have "\<dots> = Option.bind (emit (assemble (code_of s e) @ [FINSH_OP_POP]) st) (emit (assemble (code_list s (e' # es))))"
    using 3(1,2) by (intro bind_env [OF 3(3)]) simp
  finally show ?case using emit_append [of "assemble (code_of s e) @ [FINSH_OP_POP]"] by simp
qed (simp add: emit_eqs)

lemma emit_closed:
  assumes "text_segment s = pre @ replicate k 0" "length pre + k = FINSH_TEXT_MAX" "finsh_compile_pc s = length pre"
  shows "emit bs s = (if length bs \<le> k then Some (s\<lparr>text_segment := pre @ bs @ replicate (k - length bs) 0, finsh_compile_pc := length pre + length bs\<rparr>) else None)"
  using assms
proof (induction bs arbitrary: s pre k)
  case (Cons b bs)
  show ?case
  proof (cases k)
    case 0
    then show ?thesis using Cons.prems by (simp add: emit_eqs finsh_code_byte_def)
  next
    case (Suc j)
    then have "finsh_code_byte b s = Some (s\<lparr>text_segment := (pre @ [b]) @ replicate j 0, finsh_compile_pc := length (pre @ [b])\<rparr>)"
      using Cons.prems by (simp add: finsh_code_byte_def)
    then show ?thesis
      using Cons.IH [of "s\<lparr>text_segment := (pre @ [b]) @ replicate j 0, finsh_compile_pc := length (pre @ [b])\<rparr>" "pre @ [b]" j] Cons.prems Suc
      by (simp add: emit_eqs)
  qed
qed (simp add: emit_eqs)

text \<open>The program after the type check.\<close>

lemma type_check_program:
  "list_all (wt s) es \<Longrightarrow> finsh_type_check (program s es) 0 s = Some (chain (map (typed_tree s) es), s)"
  by (induction es) (auto intro: type_check_tree)

lemma compiler_run_code:
  assumes "list_all (wt s) es"
  shows "finsh_compiler_run (program s es) s =
    (let bs = assemble (code_list s es) in
     if length bs \<le> FINSH_TEXT_MAX
     then Some (s\<lparr>text_segment := bs @ replicate (FINSH_TEXT_MAX - length bs) 0, finsh_vm_stack := (finsh_vm_stack s)[0 := 0],
       finsh_compile_pc := length bs\<rparr>)
     else None)"
proof -
  let ?s = "s\<lparr>text_segment := replicate FINSH_TEXT_MAX 0, finsh_vm_stack := (finsh_vm_stack s)[0 := 0], finsh_compile_pc := 0\<rparr>"
  have "same_env s ?s" by (simp add: same_env_def fun_eq_iff var_at_def sysvar_at_def syscall_at_def Let_def)
  then have "finsh_compiler_run (program s es) s = emit (assemble (code_list s es)) ?s"
    using type_check_program [OF assms] compile_statements_chain [OF assms] by (simp add: finsh_compiler_run_def)
  then show ?thesis using emit_closed [of ?s "[]" FINSH_TEXT_MAX "assemble (code_list s es)"]
    by (simp add: Let_def)
qed

lemma exec_code_list:
  "es \<noteq> [] \<Longrightarrow> list_all (wt s) es \<Longrightarrow> list_all (\<lambda>e. depth e \<le> length ys) es \<Longrightarrow>
    pushed (exec sys (code_list s es) ([], ys, m)) [] (length ys) (single (eval_list sys s es m))"
proof (induction sys s es m arbitrary: ys rule: eval_list.induct)
  case (2 sys s e m)
  then show ?case by (simp add: exec_code_of(1))
next
  case (3 sys s e e' es m)
  then have 1: "pushed (exec sys (code_of s e) ([], ys, m)) [] (length ys) (single (eval sys s e m))" by (simp add: exec_code_of(1))
  show ?case
  proof (cases "eval sys s e m")
    case (Some r)
    obtain a m1 where r: "r = (a, m1)" by (cases r)
    obtain ys1 where ys1: "exec sys (code_of s e) ([], ys, m) = Some ([a], ys1, m1)" "length ys = length (a # ys1)"
      using 1 Some r by auto
    then show ?thesis using 3(1) [OF Some r [symmetric], of "a # ys1"] 3(3,4) Some r by simp
  qed (use 1 in simp)
qed simp

section \<open>Where the compiler goes wrong\<close>

text \<open>The run of a command whose code is known.\<close>

definition run_command :: "syscalls \<Rightarrow> finsh_node \<Rightarrow> finsh \<Rightarrow> (u32 \<times> memory) option" where
  "run_command sys node s = do {
     s \<leftarrow> finsh_compiler_run node s;
     s \<leftarrow> finsh_vm_run sys s;
     Some (finsh_stack_bottom s, fmem s) }"

lemma run_tree:
  assumes "finsh_type_check t 0 s = Some (t', s)" "\<And>st. same_env s st \<Longrightarrow> compile_statements t' st = emit (assemble is) st"
    "length (assemble is) \<le> FINSH_TEXT_MAX" "length (finsh_vm_stack s) = FINSH_STACK_MAX"
  shows "run_command sys t s = map_option (\<lambda>(xs, ys, m). ((rev xs @ ys) ! 0, m)) (exec sys is ([], (finsh_vm_stack s)[0 := 0], fmem s))"
proof -
  let ?bs = "assemble is"
  let ?clear = "s\<lparr>text_segment := replicate FINSH_TEXT_MAX 0, finsh_vm_stack := (finsh_vm_stack s)[0 := 0], finsh_compile_pc := 0\<rparr>"
  let ?s = "s\<lparr>text_segment := ?bs @ replicate (FINSH_TEXT_MAX - length ?bs) 0, finsh_vm_stack := (finsh_vm_stack s)[0 := 0], finsh_compile_pc := length ?bs\<rparr>"
  have "same_env s ?clear" by (simp add: same_env_def fun_eq_iff var_at_def sysvar_at_def syscall_at_def Let_def)
  then have "finsh_compiler_run t s = emit ?bs ?clear" using assms(1,2) by (simp add: finsh_compiler_run_def)
  then have "finsh_compiler_run t s = Some ?s" using emit_closed [of ?clear "[]" FINSH_TEXT_MAX ?bs] assms(3) by simp
  moreover have "finsh_vm_run sys ?s = map_option (conf ?s FINSH_TEXT_MAX) (exec sys is ([], finsh_vm_stack ?s, fmem s))"
    using vm_run_code [of ?s "is" sys] assms(3,4) by (simp add: holds_code_def)
  ultimately show ?thesis
    by (cases "exec sys is ([], (finsh_vm_stack s)[0 := 0], fmem s)") (auto simp: run_command_def finsh_stack_bottom_def)
qed

text \<open>A stack of 64 cells, of which the first two matter.\<close>

lemma stack_two:
  assumes "length st = FINSH_STACK_MAX"
  obtains c zs where "st[0 := 0] = 0 # c # zs" "c = st ! 1"
  using assms by (cases st; cases "tl st") auto

abbreviation "char_node c b \<equiv> Node ((new_info FINSH_NODE_VALUE_CHAR)\<lparr>node_value := ucast (c :: u8)\<rparr>) NULL b"
abbreviation "int_node v b \<equiv> Node ((new_info FINSH_NODE_VALUE_INT)\<lparr>node_value := v\<rparr>) NULL b"

lemma char_right_operand:
  assumes "length (finsh_vm_stack s) = FINSH_STACK_MAX"
  shows "run_command sys (sys_node (FINSH_NODE_SYS x) (int_node v NULL) (char_node c NULL)) s =
    map_option (\<lambda>r. (r, fmem s)) (c_operator x v (put_value W8 (finsh_vm_stack s ! 1) (ucast c)))"
proof -
  let ?is = "[LD W32 v, LD W8 (ucast c), BIN x W32]"
  obtain d zs where z: "(finsh_vm_stack s)[0 := 0] = 0 # d # zs" "d = finsh_vm_stack s ! 1" by (rule stack_two [OF assms])
  have "run_command sys (sys_node (FINSH_NODE_SYS x) (int_node v NULL) (char_node c NULL)) s =
      map_option (\<lambda>(xs, ys, m). ((rev xs @ ys) ! 0, m)) (exec sys ?is ([], (finsh_vm_stack s)[0 := 0], fmem s))"
    by (rule run_tree [OF _ _ _ assms, where t' = "Node ((new_info (FINSH_NODE_SYS x))\<lparr>data_type := 3\<rparr>)
          (Node ((new_info FINSH_NODE_VALUE_INT)\<lparr>node_value := v, data_type := 3\<rparr>) NULL
            (Node ((new_info FINSH_NODE_VALUE_CHAR)\<lparr>node_value := ucast c, data_type := 1\<rparr>) NULL NULL)) NULL"])
      (simp_all add: type_check_defs compile_defs compile_operator_def data_width_def finsh_compile_NULL)
  then show ?thesis by (cases "c_operator x v (put_value W8 d (ucast c))") (simp_all add: z)
qed

lemma char_left_operand:
  assumes "length (finsh_vm_stack s) = FINSH_STACK_MAX"
  shows "run_command sys (sys_node (FINSH_NODE_SYS x) (char_node c NULL) (int_node v NULL)) s =
    map_option (\<lambda>r. (r AND 0xFF, fmem s)) (c_operator x (ucast c) (v AND 0xFF))"
proof -
  let ?is = "[LD W8 (ucast c), LD W32 v, BIN x W8]"
  obtain d zs where z: "(finsh_vm_stack s)[0 := 0] = 0 # d # zs" "d = finsh_vm_stack s ! 1" by (rule stack_two [OF assms])
  have "run_command sys (sys_node (FINSH_NODE_SYS x) (char_node c NULL) (int_node v NULL)) s =
      map_option (\<lambda>(xs, ys, m). ((rev xs @ ys) ! 0, m)) (exec sys ?is ([], (finsh_vm_stack s)[0 := 0], fmem s))"
    by (rule run_tree [OF _ _ _ assms, where t' = "Node ((new_info (FINSH_NODE_SYS x))\<lparr>data_type := 1\<rparr>)
          (Node ((new_info FINSH_NODE_VALUE_CHAR)\<lparr>node_value := ucast c, data_type := 1\<rparr>) NULL
            (Node ((new_info FINSH_NODE_VALUE_INT)\<lparr>node_value := v, data_type := 3\<rparr>) NULL NULL)) NULL"])
      (simp_all add: type_check_defs compile_defs compile_operator_def data_width_def finsh_compile_NULL)
  moreover have "(ucast (ucast v :: u8) :: u32) = v AND 0xFF" "(ucast (ucast (ucast c :: u32) :: u8) :: u32) = ucast c"
    by (intro bit_word_eqI; simp only: bit_unsigned_iff low_byte; auto dest: bit_imp_le_length)+
  moreover have "(ucast c AND 255) AND 4294967040 = (0 :: u32)" by (simp add: and.assoc)
  ultimately show ?thesis by (cases "c_operator x (ucast c) (v AND 0xFF)") (simp_all add: z low_byte_ucast)
qed

lemma exec_two:
  assumes "wt s e1" "wt s e2" "max (depth e1) (Suc (depth e2)) \<le> length ys"
  shows "pushed (exec sys (code_of s e1 @ code_of s e2) (xs, ys, m)) xs (length ys)
    (do { (v, m) \<leftarrow> eval sys s e1 m; (w, m) \<leftarrow> eval sys s e2 m; Some ([v, w], m) })"
proof -
  have 1: "pushed (exec sys (code_of s e1) (xs, ys, m)) xs (length ys) (single (eval sys s e1 m))"
    using assms by (intro exec_code_of(1)) simp_all
  show ?thesis
  proof (cases "eval sys s e1 m")
    case (Some r)
    obtain a m1 where r: "r = (a, m1)" by (cases r)
    obtain ys1 where ys1: "exec sys (code_of s e1) (xs, ys, m) = Some (a # xs, ys1, m1)" "length ys = Suc (length ys1)"
      using 1 Some r by auto
    then have "pushed (exec sys (code_of s e2) (a # xs, ys1, m1)) (a # xs) (length ys1) (single (eval sys s e2 m1))"
      using assms by (intro exec_code_of(1)) simp_all
    then show ?thesis by (cases rule: pushed_oneE) (auto simp: Some r ys1)
  qed (use 1 in simp)
qed

lemma call_operand:
  assumes wt: "wt s (Call f es)" "wt s e" and n: "nodes (Call f es) + nodes e < FINSH_NODE_MAX"
    and l: "length (assemble (code_of s (Call f es) @ code_of s e)) \<le> FINSH_TEXT_MAX" "length (finsh_vm_stack s) = FINSH_STACK_MAX"
  shows "run_command sys (tree s (Binary x (Call f es) e)) s =
    do { (v, m) \<leftarrow> eval sys s (Call f es) (fmem s); (w, m) \<leftarrow> eval sys s e m; Some (v, m) }"
proof -
  let ?is = "code_of s (Call f es) @ code_of s e"
  let ?c = "set_sibling (typed_tree s (Call f es)) (typed_tree s e)"
  have e: "finsh_type_check (tree s e) 0 s = Some (typed_tree s e, s)" using type_check_tree [of s e NULL NULL] wt(2) by simp
  have c: "finsh_type_check (set_sibling (tree s (Call f es)) (tree s e)) 0 s = Some (?c, s)" by (rule type_check_tree [OF wt(1) e])
  have t: "finsh_type_check (tree s (Binary x (Call f es) e)) 0 s = Some (Node (new_info (FINSH_NODE_SYS x)) ?c NULL, s)"
    using type_check_node [OF c, of NULL NULL "FINSH_NODE_SYS x"] data_type_tree(1) [of s "Call f es"]
    by (simp del: finsh_type_check.simps(2)) (simp add: new_info_def)
  have code: "compile_statements (Node (new_info (FINSH_NODE_SYS x)) ?c NULL) st = emit (assemble ?is) st" if st: "same_env s st" for st
  proof -
    have "finsh_compile ?c st = emit (assemble (code_of s (Call f es)) @ assemble (code_of s e)) st"
      using compile_tree [OF wt(1)] compile_tree [OF wt(2), of _ NULL] st by (intro compile_two [OF _ _ st]) (simp_all add: emit_runit del: finsh_compile.simps)
    moreover have "compile_node (new_info (FINSH_NODE_SYS x)) ?c st' = emit [] st'" for st'
      by (simp add: compile_defs compile_operator_def data_width_def new_info_def)
    ultimately have "finsh_compile (Node (new_info (FINSH_NODE_SYS x)) ?c NULL) st = emit (assemble ?is) st"
      using compile_node_step [OF _ _ st, of ?c "assemble ?is" "new_info (FINSH_NODE_SYS x)" "[]" NULL]
      by (simp add: finsh_compile_NULL del: finsh_compile.simps)
    moreover have "compile_statements NULL = Some" by auto
    ultimately show ?thesis by (simp del: finsh_compile.simps)
  qed
  have d: "max (depth (Call f es)) (Suc (depth e)) \<le> 64" using depth_nodes(1) [of e] depth_nodes(1) [of "Call f es"] n by simp
  show ?thesis
    using run_tree [OF t code l(1,2), of sys] exec_two [OF wt, of "(finsh_vm_stack s)[0 := 0]" sys "[]" "fmem s"] d l(2)
    by (cases "eval sys s (Call f es) (fmem s)"; cases "eval sys s e (snd (the (eval sys s (Call f es) (fmem s))))")
      (auto simp del: tree.simps code_of.simps eval.simps depth.simps)
qed

text \<open>\<^verbatim>\<open>++v\<close> and \<^verbatim>\<open>v++\<close> for a system variable: one of the two addresses in the code is that of the entry of \<open>v\<close> in the table, plus 20.\<close>

definition sysvar_node :: "finsh \<Rightarrow> finsh_node_type \<Rightarrow> ptr \<Rightarrow> finsh_node" where
  "sysvar_node s t p = sys_node t (Node (place_info s (System p)) NULL NULL) NULL"

lemma sysvar_increment:
  assumes p: "place_ok s (System p)" and l: "length (finsh_vm_stack s) = FINSH_STACK_MAX"
    and x: "(t, x) \<in> {(FINSH_NODE_SYS_PREINC, Add), (FINSH_NODE_SYS_PREDEC, Sub)}"
  shows "run_command sys (sysvar_node s t p) s =
    (let a = unat (place_addr s (System p)); b = unat (var_value_addr p) in
     map_option (\<lambda>v. (v, store32 a v (fmem s))) (c_operator x (load32 (fmem s) b) 1))"
proof -
  let ?c = "typed_place s FINSH_IDTYPE_ADDRESS (System p)"
  let ?is = "[LD W32 (place_addr s (System p)), LDV W32 (var_value_addr p), LD W32 1, BIN x W32, ST W32, LDVS W32]"
  have t: "finsh_type_check (sysvar_node s t p) 0 s = Some (typed_node t ?c NULL, s)"
    using type_check_node [OF type_check_place [of s "System p" FINSH_IDTYPE_ADDRESS NULL NULL], of NULL NULL t] p x
    unfolding sysvar_node_def by (auto simp: data_type_tree' simp del: finsh_type_check.simps(2))
  obtain n where n: "?c = Node n NULL NULL" "node_type n = FINSH_NODE_ID" "node_id n = p"
    by (rule typed_node_cases [of s FINSH_IDTYPE_ADDRESS "System p"]) simp
  have code: "compile_statements (typed_node t ?c NULL) st = emit (assemble ?is) st" if st: "same_env s st" for st
  proof -
    have c: "finsh_compile ?c st = emit (encode (LD W32 (place_addr s (System p)))) st"
      using compile_place' [of s "System p" FINSH_IDTYPE_ADDRESS st] p st by simp
    have "compile_node (typed_info t) ?c st' = emit (assemble (tl ?is)) st'" for st'
      unfolding n(1) using x by (auto simp: n(2,3) compile_defs data_width_def new_info_def)
    from compile_node_step [OF c this st, of NULL] have "finsh_compile (typed_node t ?c NULL) st = emit (assemble ?is) st"
      by (simp add: finsh_compile_NULL del: finsh_compile.simps)
    moreover have "compile_statements NULL = Some" by auto
    ultimately show ?thesis by (simp del: finsh_compile.simps)
  qed
  obtain c0 c1 c2 zs where "(finsh_vm_stack s)[0 := 0] = c0 # c1 # c2 # zs"
    using l by (cases "(finsh_vm_stack s)[0 := 0]"; cases "tl ((finsh_vm_stack s)[0 := 0])"; cases "tl (tl ((finsh_vm_stack s)[0 := 0]))") (auto dest: arg_cong [of _ _ length])
  then show ?thesis using run_tree [OF t code _ l, of sys] x
    by (auto simp: Let_def load_store32)
qed

lemma void_pointer_assign:
  assumes v: "i < length (global_variable s)" "var_type (global_variable s ! i) = finsh_type_voidp" "var_addr s i \<noteq> RT_NULL"
    and e: "wt s e" "nodes e < FINSH_NODE_MAX" "length (assemble (code_of s e)) + 2 \<le> FINSH_TEXT_MAX"
    and l: "length (finsh_vm_stack s) = FINSH_STACK_MAX"
  shows "run_command sys (tree s (Assign (Global i) e)) s = None"
proof -
  let ?c = "set_sibling (typed_place s FINSH_IDTYPE_ADDRESS (Global i)) (typed_tree s e)"
  let ?is = "code_of s e @ [ST W32, LDVS W32]"
  have te: "finsh_type_check (tree s e) 0 s = Some (typed_tree s e, s)" using type_check_tree [of s e NULL NULL] e(1) by simp
  have "finsh_type_check (Node (place_info s (Global i)) NULL (tree s e)) FINSH_IDTYPE_ADDRESS s = Some (?c, s)"
    using v te by (auto simp: leaf_data_type_def new_info_def typed_place_def Let_def var_at_var_addr)
  then have t: "finsh_type_check (tree s (Assign (Global i) e)) 0 s = Some (typed_node FINSH_NODE_SYS_ASSIGN (typed_place s FINSH_IDTYPE_ADDRESS (Global i)) (typed_tree s e), s)"
    using type_check_node [of _ FINSH_IDTYPE_ADDRESS s ?c NULL NULL FINSH_NODE_SYS_ASSIGN] by (simp add: data_type_tree del: finsh_type_check.simps(2))
  obtain n where n: "?c = Node n NULL (typed_tree s e)" "node_type n = FINSH_NODE_ID" "data_type n = FINSH_DATA_TYPE_DWORD"
    by (rule typed_node_cases [of s FINSH_IDTYPE_ADDRESS "Global i"]) simp
  have code: "compile_statements (typed_node FINSH_NODE_SYS_ASSIGN (typed_place s FINSH_IDTYPE_ADDRESS (Global i)) (typed_tree s e)) st = emit (assemble ?is) st"
    if st: "same_env s st" for st
  proof -
    have "finsh_compile (set_sibling (typed_place s FINSH_IDTYPE_ADDRESS (Global i)) b) st = Option.bind (emit [] st) (finsh_compile b)" for b
      using v st by (simp add: typed_place_def new_info_def Let_def compile_defs same_env_def var_at_var_addr)
    then have c: "finsh_compile ?c st = emit ([] @ assemble (code_of s e)) st"
      using compile_tree [OF e(1), of _ NULL] by (intro compile_two [OF _ _ st]) (simp_all add: emit_runit emit_eqs)
    have "compile_node (typed_info FINSH_NODE_SYS_ASSIGN) ?c st' = emit [0x28 + 2, 0x2D + 2] st'" for st'
      unfolding n(1) by (simp add: n(2,3) compile_defs compile_store_def data_width_def new_info_def)
    from compile_node_step [OF c this st, of NULL] have "finsh_compile (typed_node FINSH_NODE_SYS_ASSIGN (typed_place s FINSH_IDTYPE_ADDRESS (Global i)) (typed_tree s e)) st = emit (assemble ?is) st"
      by (simp add: finsh_compile_NULL del: finsh_compile.simps)
    moreover have "compile_statements NULL = Some" by auto
    ultimately show ?thesis by (simp del: finsh_compile.simps)
  qed
  have "pushed (exec sys (code_of s e) ([], (finsh_vm_stack s)[0 := 0], fmem s)) [] 64 (single (eval sys s e (fmem s)))"
    using exec_code_of(1) [OF e(1), of "(finsh_vm_stack s)[0 := 0]" sys "[]" "fmem s"] depth_nodes(1) [of e] e(2) l by simp
  then have "exec sys ?is ([], (finsh_vm_stack s)[0 := 0], fmem s) = None" by (cases rule: pushed_oneE) auto
  then show ?thesis using run_tree [OF t code _ l, of sys] e(3) by simp
qed

section \<open>Commands are computed\<close>

lemma command_correct:
  assumes "es \<noteq> []" "list_all (wt s) es" "sum_list (map nodes es) \<le> FINSH_NODE_MAX"
    "length (assemble (code_list s es)) \<le> FINSH_TEXT_MAX" "length (finsh_vm_stack s) = FINSH_STACK_MAX"
  shows "\<exists>s1. finsh_compiler_run (program s es) s = Some s1 \<and> global_errno s1 = global_errno s \<and>
    map_option (\<lambda>s2. (finsh_stack_bottom s2, fmem s2)) (finsh_vm_run sys s1) = eval_list sys s es (fmem s)"
proof -
  let ?bs = "assemble (code_list s es)"
  let ?s = "s\<lparr>text_segment := ?bs @ replicate (FINSH_TEXT_MAX - length ?bs) 0, finsh_vm_stack := (finsh_vm_stack s)[0 := 0], finsh_compile_pc := length ?bs\<rparr>"
  have d: "depth e \<le> 64" if "e \<in> set es" for e
    using depth_nodes(1) [of e] member_le_sum_list [of "nodes e" "map nodes es"] that assms(3) by simp
  have "finsh_compiler_run (program s es) s = Some ?s"
    using compiler_run_code [OF assms(2)] assms(4) by (simp add: Let_def)
  moreover have "finsh_vm_run sys ?s = map_option (conf ?s FINSH_TEXT_MAX) (exec sys (code_list s es) ([], finsh_vm_stack ?s, fmem s))"
    using vm_run_code [of ?s "code_list s es" sys] assms(4,5) by (simp add: holds_code_def)
  moreover have "pushed (exec sys (code_list s es) ([], finsh_vm_stack ?s, fmem s)) [] 64 (single (eval_list sys s es (fmem s)))"
    using exec_code_list [of es s "finsh_vm_stack ?s" sys "fmem s"] assms(1,2,5) d by (simp add: list_all_iff)
  then have "map_option (\<lambda>s2. (finsh_stack_bottom s2, fmem s2)) (map_option (conf ?s FINSH_TEXT_MAX) (exec sys (code_list s es) ([], finsh_vm_stack ?s, fmem s)))
      = eval_list sys s es (fmem s)"
    by (cases "eval_list sys s es (fmem s)") (auto simp: finsh_stack_bottom_def)
  ultimately show ?thesis by (intro exI [of _ ?s]) simp
qed

section \<open>A shell to try it on\<close>

text \<open>A shell with the variables \<^verbatim>\<open>int a\<close> and \<^verbatim>\<open>void *p\<close>, the system variable \<^verbatim>\<open>v\<close> and the function \<^verbatim>\<open>f\<close>, which adds its arguments.\<close>

definition demo_finsh :: finsh where
  "demo_finsh = \<lparr>finsh_vm_stack = replicate 64 0, finsh_sp = 0, text_segment = replicate 128 0, finsh_pc = 0, finsh_compile_pc = 0,
     global_errno = FINSH_ERROR_OK, fmem = (\<lambda>_. 0),
     global_variable = \<lparr>var_name = ''a'', var_type = finsh_type_int\<rparr> # \<lparr>var_name = ''p'', var_type = finsh_type_voidp\<rparr> #
       replicate 6 \<lparr>var_name = [], var_type = finsh_type_unknown\<rparr>,
     global_variable_addr = 0x1000,
     sysvar_table = [(0x2000, \<lparr>sysvar_name = ''v'', sysvar_type = finsh_type_long, sysvar_var = 0x3000\<rparr>)], global_sysvar_list = [],
     syscall_table = [(0x4000, \<lparr>syscall_name = ''f'', syscall_func = 0x5000\<rparr>)], global_syscall_list = [],
     nodes_used = 0, finsh_heap_addr = 0x6000, free_list = 0, allocate_list = 0\<rparr>"

definition demo_calls :: syscalls where
  "demo_calls f args m = (if f = 0x5000 then Some (sum_list args, m) else None)"

lemmas demo_defs = demo_finsh_def demo_calls_def var_addr_def var_value_addr_def sysvar_at_def syscall_at_def function_of_def

text \<open>
  C4. The shell computes what a command means: if its code fits, then compiling its tree and running the machine leaves its value
  at the bottom of the stack and the memory as it should be, without an error; and the run has no result if the command has none.
\<close>

theorem finsh_command_correct:
  assumes "es \<noteq> []" "list_all (wt s) es" "sum_list (map nodes es) \<le> FINSH_NODE_MAX"
    "length (assemble (code_list s es)) \<le> FINSH_TEXT_MAX" "length (finsh_vm_stack s) = FINSH_STACK_MAX"
  shows "\<exists>s1. finsh_compiler_run (program s es) s = Some s1 \<and> global_errno s1 = global_errno s \<and>
    map_option (\<lambda>s2. (finsh_stack_bottom s2, fmem s2)) (finsh_vm_run sys s1) = eval_list sys s es (fmem s)"
  by (rule command_correct [OF assms])

text \<open>\<^verbatim>\<open>a = f(40, 2); a++ * 2\<close> is 84, and leaves 43 in \<^verbatim>\<open>a\<close>.\<close>

theorem finsh_command_correct_witness:
  "\<exists>s1. finsh_compiler_run (program demo_finsh [Assign (Global 0) (Call 0x4000 [Lit FINSH_NODE_VALUE_INT 40, Lit FINSH_NODE_VALUE_INT 2]),
      Binary Mul (Post Add 0) (Lit FINSH_NODE_VALUE_INT 2)]) demo_finsh = Some s1 \<and>
    map_option (\<lambda>s2. (finsh_stack_bottom s2, load32 (fmem s2) 0x1014)) (finsh_vm_run demo_calls s1) = Some (84, 43)"
proof -
  let ?es = "[Assign (Global 0) (Call 0x4000 [Lit FINSH_NODE_VALUE_INT 40, Lit FINSH_NODE_VALUE_INT 2]), Binary Mul (Post Add 0) (Lit FINSH_NODE_VALUE_INT 2)]"
  have wt: "list_all (wt demo_finsh) ?es" by (simp add: demo_defs)
  have len: "length (assemble (code_list demo_finsh ?es)) \<le> FINSH_TEXT_MAX" by (simp add: Let_def)
  have ev: "eval_list demo_calls demo_finsh ?es (fmem demo_finsh) = Some (84, store32 0x1014 43 (store32 0x1014 42 (\<lambda>_. 0)))"
    by (simp add: demo_defs Let_def load_store32)
  obtain s1 where s1: "finsh_compiler_run (program demo_finsh ?es) demo_finsh = Some s1"
    "map_option (\<lambda>s2. (finsh_stack_bottom s2, fmem s2)) (finsh_vm_run demo_calls s1) = Some (84, store32 0x1014 43 (store32 0x1014 42 (\<lambda>_. 0)))"
    using finsh_command_correct [OF _ wt _ len, of demo_calls] ev by (auto simp: demo_finsh_def)
  then show ?thesis by (intro exI [of _ s1]) (auto simp: load_store32)
qed

text \<open>
  C36. What the compiler writes, and when it writes too much: from a well-formed command it makes the code of its statements with a
  \<^verbatim>\<open>POP\<close> between them if that takes at most \<^verbatim>\<open>FINSH_TEXT_MAX\<close> bytes, and otherwise it writes behind the end of \<^verbatim>\<open>text_segment\<close>. The
  latter happens within the limit on nodes: six increments of a variable take 12 of the 16 nodes and 143 bytes.
\<close>

theorem finsh_compiler_run_code:
  assumes "list_all (wt s) es"
  shows "finsh_compiler_run (program s es) s =
    (let bs = assemble (code_list s es) in
     if length bs \<le> FINSH_TEXT_MAX
     then Some (s\<lparr>text_segment := bs @ replicate (FINSH_TEXT_MAX - length bs) 0, finsh_vm_stack := (finsh_vm_stack s)[0 := 0],
       finsh_compile_pc := length bs\<rparr>)
     else None)"
  by (rule compiler_run_code [OF assms])

theorem finsh_compiler_run_code_witness:
  "sum_list (map nodes (replicate 6 (Post Add 0))) \<le> FINSH_NODE_MAX \<and>
    finsh_compiler_run (program demo_finsh (replicate 6 (Post Add 0))) demo_finsh = None"
proof -
  have "wt demo_finsh (Post Add 0)" by (simp add: demo_defs)
  then show ?thesis using finsh_compiler_run_code [of demo_finsh "replicate 6 (Post Add 0)"]
    by (simp add: eval_nat_numeral Let_def)
qed

text \<open>
  C35. Operands whose width the compiler gets wrong: an operator behind a call is left out, as the type check gives calls no data type;
  a \<^verbatim>\<open>char\<close> as right operand brings along what an earlier command left in the upper bytes of its stack cell; and with a \<^verbatim>\<open>char\<close> on the
  left, the result is that of the lowest bytes.
\<close>

theorem finsh_operand_widths:
  assumes "wt s (Call f es)" "wt s e" "nodes (Call f es) + nodes e < FINSH_NODE_MAX"
    "length (assemble (code_of s (Call f es) @ code_of s e)) \<le> FINSH_TEXT_MAX" "length (finsh_vm_stack s) = FINSH_STACK_MAX"
  shows "run_command sys (tree s (Binary x (Call f es) e)) s =
      do { (v, m) \<leftarrow> eval sys s (Call f es) (fmem s); (w, m) \<leftarrow> eval sys s e m; Some (v, m) } \<and>
    run_command sys (sys_node (FINSH_NODE_SYS x) (int_node v NULL) (char_node c NULL)) s =
      map_option (\<lambda>r. (r, fmem s)) (c_operator x v (put_value W8 (finsh_vm_stack s ! 1) (ucast c))) \<and>
    run_command sys (sys_node (FINSH_NODE_SYS x) (char_node c NULL) (int_node v NULL)) s =
      map_option (\<lambda>r. (r AND 0xFF, fmem s)) (c_operator x (ucast c) (v AND 0xFF))"
  using call_operand [OF assms] char_right_operand [OF assms(5)] char_left_operand [OF assms(5)] by blast

text \<open>\<^verbatim>\<open>f(40, 2) + 100\<close> is 42, \<^verbatim>\<open>1 + 'a'\<close> is not 98 if cell 1 held \<open>0x100\<close>, and \<^verbatim>\<open>'a' + 1000\<close> is 73.\<close>

theorem finsh_operand_widths_witness:
  "run_command demo_calls (tree demo_finsh (Binary Add (Call 0x4000 [Lit FINSH_NODE_VALUE_INT 40, Lit FINSH_NODE_VALUE_INT 2]) (Lit FINSH_NODE_VALUE_INT 100))) demo_finsh
      = Some (42, fmem demo_finsh) \<and>
   run_command demo_calls (sys_node (FINSH_NODE_SYS Add) (int_node 1 NULL) (char_node 97 NULL)) (demo_finsh\<lparr>finsh_vm_stack := replicate 64 0x100\<rparr>)
      = Some (354, fmem demo_finsh) \<and>
   run_command demo_calls (sys_node (FINSH_NODE_SYS Add) (char_node 97 NULL) (int_node 1000 NULL)) demo_finsh = Some (73, fmem demo_finsh)"
proof -
  let ?s = "demo_finsh\<lparr>finsh_vm_stack := replicate 64 0x100\<rparr>"
  let ?es = "[Lit FINSH_NODE_VALUE_INT 40, Lit FINSH_NODE_VALUE_INT 2]" and ?e = "Lit FINSH_NODE_VALUE_INT 100"
  have s: "length (finsh_vm_stack demo_finsh) = FINSH_STACK_MAX" "wt demo_finsh (Call 0x4000 ?es)" "wt demo_finsh ?e"
    "wt ?s (Call 0x4000 ?es)" "wt ?s ?e"
    by (simp_all add: demo_defs)
  show ?thesis
    using finsh_operand_widths [OF s(2,3), of demo_calls Add 1 97] finsh_operand_widths [OF s(4,5), of demo_calls Add 1 97]
      finsh_operand_widths [OF s(2,3), of demo_calls Add 1000 97] s(1)
    by (simp add: demo_defs)
qed

text \<open>
  Places that the compiler gets wrong: \<^verbatim>\<open>++\<close> and \<^verbatim>\<open>--\<close> in front of a system variable compute the new value from a word behind its entry in
  the table instead of from the variable, and an assignment to a variable of type \<^verbatim>\<open>void *\<close> stores through the cell below the stack.
\<close>

theorem finsh_place_errors:
  assumes "place_ok s (System q)" "(t, x) \<in> {(FINSH_NODE_SYS_PREINC, Add), (FINSH_NODE_SYS_PREDEC, Sub)}"
    "i < length (global_variable s)" "var_type (global_variable s ! i) = finsh_type_voidp" "var_addr s i \<noteq> RT_NULL"
    "wt s e" "nodes e < FINSH_NODE_MAX" "length (assemble (code_of s e)) + 2 \<le> FINSH_TEXT_MAX"
    "length (finsh_vm_stack s) = FINSH_STACK_MAX"
  shows "run_command sys (sysvar_node s t q) s =
      map_option (\<lambda>v. (v, store32 (unat (place_addr s (System q))) v (fmem s))) (c_operator x (load32 (fmem s) (unat (var_value_addr q))) 1) \<and>
    run_command sys (tree s (Assign (Global i) e)) s = None"
  using sysvar_increment [OF assms(1,9,2)] void_pointer_assign [OF assms(3-9)] by (simp only: Let_def simp_thms)

theorem finsh_place_errors_witness:
  "run_command demo_calls (sysvar_node demo_finsh FINSH_NODE_SYS_PREINC 0x2000) (demo_finsh\<lparr>fmem := store32 0x3000 41 (\<lambda>_. 0)\<rparr>) \<noteq>
     Some (42, store32 0x3000 42 (\<lambda>_. 0)) \<and>
   run_command demo_calls (tree demo_finsh (Assign (Global 1) (Lit FINSH_NODE_VALUE_INT 1))) demo_finsh = None"
proof -
  let ?s = "demo_finsh\<lparr>fmem := store32 0x3000 41 (\<lambda>_. 0)\<rparr>" and ?e = "Lit FINSH_NODE_VALUE_INT 1"
  have s: "place_ok demo_finsh (System 0x2000)" "place_ok ?s (System 0x2000)" "wt demo_finsh ?e" "wt ?s ?e"
    by (simp_all add: demo_defs)
  have n: "sysvar_node ?s FINSH_NODE_SYS_PREINC 0x2000 = sysvar_node demo_finsh FINSH_NODE_SYS_PREINC 0x2000" by (simp add: sysvar_node_def)
  show ?thesis
    using finsh_place_errors [OF s(2), of FINSH_NODE_SYS_PREINC Add 1 ?e demo_calls] s(4)
      finsh_place_errors [OF s(1), of FINSH_NODE_SYS_PREINC Add 1 ?e demo_calls] s(3)
    unfolding n by (simp add: demo_defs load32_def store32_def)
qed

end
