(* ===== verification/RT_Finsh_Node.thy ===== *)
theory RT_Finsh_Node
  imports RT_Finsh_Correct
begin

text \<open>
  The finsh shell, part three: the tables of variables (\<^verbatim>\<open>finsh_var.c\<close>), system variables and system calls, the heap for the string constants of
  a command (\<^verbatim>\<open>finsh_heap.c\<close>) and the making of nodes (\<^verbatim>\<open>finsh_node.c\<close>).
\<close>

section \<open>Variables\<close>

abbreviation (input) no_var :: finsh_var where "no_var \<equiv> \<lparr>var_name = [], var_type = finsh_type_unknown\<rparr>"

text \<open>Names are compared by \<^verbatim>\<open>strncmp\<close> with at most 16 characters.\<close>

definition same_name :: "string \<Rightarrow> string \<Rightarrow> bool" where
  "same_name a b \<longleftrightarrow> take FINSH_NAME_MAX a = take FINSH_NAME_MAX b"

definition finsh_var_init :: "finsh \<Rightarrow> finsh" where
  "finsh_var_init s = s\<lparr>global_variable := replicate FINSH_VARIABLE_MAX no_var,
     fmem := (\<lambda>a. if global_variable_addr s \<le> a \<and> a < global_variable_addr s + 24 * FINSH_VARIABLE_MAX then 0 else fmem s a)\<rparr>"

text \<open>The loop over the table: either the name occurs, or it finds the first free entry, if any.\<close>

fun var_insert_loop :: "finsh_var list \<Rightarrow> string \<Rightarrow> nat \<Rightarrow> nat option \<Rightarrow> nat option" where
  "var_insert_loop [] name i slot = slot"
| "var_insert_loop (v # vs) name i slot =
    (if same_name (var_name v) name then None
     else var_insert_loop vs name (i + 1) (if var_type v = finsh_type_unknown \<and> slot = None then Some i else slot))"

definition finsh_var_insert :: "string \<Rightarrow> finsh_type \<Rightarrow> finsh \<Rightarrow> int \<times> finsh" where
  "finsh_var_insert name type s =
    (case var_insert_loop (global_variable s) name 0 None of
       None \<Rightarrow> (-1, s)
     | Some slot \<Rightarrow> (int slot, s\<lparr>global_variable := (global_variable s)[slot := \<lparr>var_name = take FINSH_NAME_MAX name, var_type = type\<rparr>]\<rparr>))"

fun var_find :: "finsh_var list \<Rightarrow> string \<Rightarrow> nat \<Rightarrow> nat" where
  "var_find [] name i = i"
| "var_find (v # vs) name i = (if same_name (var_name v) name then i else var_find vs name (i + 1))"

definition finsh_var_delete :: "string \<Rightarrow> finsh \<Rightarrow> int \<times> finsh" where
  "finsh_var_delete name s =
    (let i = var_find (global_variable s) name 0 in
     if i = FINSH_VARIABLE_MAX then (-1, s)
     else (0, s\<lparr>global_variable := (global_variable s)[i := no_var],
       fmem := (\<lambda>a. if var_addr s i \<le> a \<and> a < var_addr s i + 24 then 0 else fmem s a)\<rparr>))"

definition finsh_var_lookup :: "string \<Rightarrow> finsh \<Rightarrow> ptr" where
  "finsh_var_lookup name s =
    (let i = var_find (global_variable s) name 0 in if i = FINSH_VARIABLE_MAX then RT_NULL else var_addr s i)"

section \<open>System variables and calls\<close>

text \<open>The address that \<^verbatim>\<open>rt_malloc\<close> gave for the item is an argument.\<close>

definition finsh_sysvar_append :: "string \<Rightarrow> finsh_type \<Rightarrow> u32 \<Rightarrow> ptr \<Rightarrow> finsh \<Rightarrow> finsh" where
  "finsh_sysvar_append name type addr item s =
    (if item \<noteq> RT_NULL
     then s\<lparr>global_sysvar_list := (item, \<lparr>sysvar_name = name, sysvar_type = type, sysvar_var = addr\<rparr>) # global_sysvar_list s\<rparr> else s)"

definition finsh_syscall_append :: "string \<Rightarrow> u32 \<Rightarrow> ptr \<Rightarrow> finsh \<Rightarrow> finsh" where
  "finsh_syscall_append name func item s =
    (if item \<noteq> RT_NULL then s\<lparr>global_syscall_list := (item, \<lparr>syscall_name = name, syscall_func = func\<rparr>) # global_syscall_list s\<rparr> else s)"

text \<open>In the tables the whole name counts (\<^verbatim>\<open>strcmp\<close>), in the lists the name is compared up to its own length (\<^verbatim>\<open>strncmp\<close>).\<close>

fun table_find :: "('a \<Rightarrow> string) \<Rightarrow> (ptr \<times> 'a) list \<Rightarrow> string \<Rightarrow> ptr option" where
  "table_find f [] name = None"
| "table_find f ((p, e) # es) name = (if f e = name then Some p else table_find f es name)"

fun list_find :: "('a \<Rightarrow> string) \<Rightarrow> (ptr \<times> 'a) list \<Rightarrow> string \<Rightarrow> ptr" where
  "list_find f [] name = RT_NULL"
| "list_find f ((p, e) # es) name = (if take (length name) (f e) = name then p else list_find f es name)"

definition finsh_sysvar_lookup :: "string \<Rightarrow> finsh \<Rightarrow> ptr" where
  "finsh_sysvar_lookup name s =
    (case table_find sysvar_name (sysvar_table s) name of Some p \<Rightarrow> p | None \<Rightarrow> list_find sysvar_name (global_sysvar_list s) name)"

definition finsh_syscall_lookup :: "string \<Rightarrow> finsh \<Rightarrow> ptr" where
  "finsh_syscall_lookup name s =
    (case table_find syscall_name (syscall_table s) name of Some p \<Rightarrow> p | None \<Rightarrow> list_find syscall_name (global_syscall_list s) name)"

section \<open>The heap of the shell\<close>

text \<open>A block starts with \<^verbatim>\<open>length\<close> and \<^verbatim>\<open>next\<close>, of four bytes each.\<close>

abbreviation (input) FINSH_HEAP_MAX :: nat where "FINSH_HEAP_MAX \<equiv> 128"

definition block_length :: "finsh \<Rightarrow> ptr \<Rightarrow> nat" where
  "block_length s h = unat (load32 (fmem s) h)"

definition block_next :: "finsh \<Rightarrow> ptr \<Rightarrow> ptr" where
  "block_next s h = unat (load32 (fmem s) (h + 4))"

definition set_block_length :: "ptr \<Rightarrow> nat \<Rightarrow> finsh \<Rightarrow> finsh" where
  "set_block_length h n s = s\<lparr>fmem := store32 h (of_nat n) (fmem s)\<rparr>"

definition set_block_next :: "ptr \<Rightarrow> ptr \<Rightarrow> finsh \<Rightarrow> finsh" where
  "set_block_next h n s = s\<lparr>fmem := store32 (h + 4) (of_nat n) (fmem s)\<rparr>"

definition finsh_heap_init :: "finsh \<Rightarrow> finsh" where
  "finsh_heap_init s =
    (let h = finsh_heap_addr s; s = s\<lparr>fmem := fill h FINSH_HEAP_MAX 0 (fmem s), free_list := h\<rparr>;
         s = set_block_length h (FINSH_HEAP_MAX - 8) s; s = set_block_next h RT_NULL s
     in s\<lparr>allocate_list := RT_NULL\<rparr>)"

text \<open>
  The two lists are changed through a pointer to their head; here the head is passed and returned. The loops follow \<^verbatim>\<open>next\<close>.
\<close>

partial_function (option) insert_point :: "ptr \<Rightarrow> ptr \<Rightarrow> finsh \<Rightarrow> ptr option" where
  [code]: "insert_point node header s =
    (if node = RT_NULL then None
     else if header < block_next s node \<or> block_next s node = RT_NULL then Some node
     else insert_point (block_next s node) header s)"

definition finsh_block_insert :: "ptr \<Rightarrow> ptr \<Rightarrow> finsh \<Rightarrow> (ptr \<times> finsh) option" where
  "finsh_block_insert list header s =
    (if list = RT_NULL then Some (header, s)
     else if header < list then Some (header, set_block_next header list s)
     else do {
       node \<leftarrow> insert_point list header s;
       let s = (if block_next s node \<noteq> RT_NULL then set_block_next header (block_next s node) s else s);
       Some (list, set_block_next node header s) })"

text \<open>The node in front of \<open>header\<close>, or \<^verbatim>\<open>NULL\<close>.\<close>

partial_function (option) previous_block :: "ptr \<Rightarrow> ptr \<Rightarrow> finsh \<Rightarrow> ptr option" where
  [code]: "previous_block node header s =
    (if node = RT_NULL then Some RT_NULL
     else if block_next s node = header then Some node
     else previous_block (block_next s node) header s)"

definition finsh_block_remove :: "ptr \<Rightarrow> ptr \<Rightarrow> finsh \<Rightarrow> (ptr \<times> finsh) option" where
  "finsh_block_remove list header s =
    (if list = header then Some (block_next s header, set_block_next header RT_NULL s)
     else do {
       node \<leftarrow> previous_block list header s;
       Some (list, if node \<noteq> RT_NULL then set_block_next node (block_next s header) s else s) })"

definition finsh_block_split :: "ptr \<Rightarrow> nat \<Rightarrow> finsh \<Rightarrow> finsh" where
  "finsh_block_split header n s =
    (let nxt = header + 8 + n;
         s = set_block_length nxt (block_length s header - 8 - n) s;
         s = set_block_length header n s;
         s = set_block_next nxt (block_next s header) s
     in set_block_next header nxt s)"

definition finsh_block_merge :: "ptr \<Rightarrow> ptr \<Rightarrow> finsh \<Rightarrow> finsh option" where
  "finsh_block_merge list header s = do {
     let next_node = block_next s header;
     prev_node \<leftarrow> (if list = header then Some RT_NULL else previous_block list header s);
     if prev_node \<noteq> RT_NULL \<and> prev_node + block_length s prev_node + 8 = header then
       (if next_node \<noteq> RT_NULL \<and> header + block_length s header + 8 = next_node then
          (let s = set_block_length prev_node (block_length s prev_node + (block_length s header + block_length s next_node + 16)) s
           in Some (set_block_next prev_node (block_next s next_node) s))
        else
          (let s = set_block_length prev_node (block_length s prev_node + (block_length s header + 8)) s
           in Some (set_block_next prev_node (block_next s header) s)))
     else if next_node \<noteq> RT_NULL \<and> header + block_length s header + 8 = next_node then
       (let s = set_block_length header (block_length s header + (block_length s next_node + 8)) s
        in Some (set_block_next header (block_next s next_node) s))
     else Some s }"

definition finsh_heap_free :: "ptr \<Rightarrow> finsh \<Rightarrow> finsh option" where
  "finsh_heap_free p s = do {
     let header = p - 8;
     (l, s) \<leftarrow> finsh_block_remove (allocate_list s) header s;
     let s = s\<lparr>allocate_list := l\<rparr>;
     (l, s) \<leftarrow> finsh_block_insert (free_list s) header s;
     let s = s\<lparr>free_list := l\<rparr>;
     finsh_block_merge (free_list s) header s }"

text \<open>A block is kept while a variable holds the address of its data.\<close>

definition referenced :: "finsh \<Rightarrow> ptr \<Rightarrow> bool" where
  "referenced s p \<longleftrightarrow> list_ex (\<lambda>i. var_type (global_variable s ! i) \<noteq> finsh_type_unknown \<and>
     unat (load32 (fmem s) (var_addr s i + 20)) = p) [0..<FINSH_VARIABLE_MAX]"

partial_function (option) heap_gc_loop :: "ptr \<Rightarrow> finsh \<Rightarrow> finsh option" where
  [code]: "heap_gc_loop header s =
    (if header = RT_NULL then Some s
     else do {
       let temp = header;
       let header = block_next s header;
       s \<leftarrow> (if referenced s (temp + 8) then Some s else finsh_heap_free (temp + 8) s);
       heap_gc_loop header s })"

definition finsh_heap_gc :: "finsh \<Rightarrow> finsh option" where
  "finsh_heap_gc s = heap_gc_loop (allocate_list s) s"

text \<open>The search for a block that is too small in the sense of \<open>small\<close>.\<close>

partial_function (option) find_block :: "(nat \<Rightarrow> bool) \<Rightarrow> ptr \<Rightarrow> finsh \<Rightarrow> ptr option" where
  [code]: "find_block small header s =
    (if header \<noteq> RT_NULL \<and> small (block_length s header) then find_block small (block_next s header) s else Some header)"

definition take_block :: "ptr \<Rightarrow> nat \<Rightarrow> finsh \<Rightarrow> (ptr \<times> finsh) option" where
  "take_block header n s = do {
     let s = finsh_block_split header n s;
     (l, s) \<leftarrow> finsh_block_remove (free_list s) header s;
     let s = set_block_next header RT_NULL (s\<lparr>free_list := l\<rparr>);
     (l, s) \<leftarrow> finsh_block_insert (allocate_list s) header s;
     Some (header + 8, s\<lparr>allocate_list := l, fmem := fill (header + 8) n 0 (fmem s)\<rparr>) }"

definition finsh_heap_allocate :: "nat \<Rightarrow> finsh \<Rightarrow> (ptr \<times> finsh) option" where
  "finsh_heap_allocate sz s = do {
     let n = RT_ALIGN sz 4;
     header \<leftarrow> find_block (\<lambda>l. l \<le> n + 8) (free_list s) s;
     if header = RT_NULL then do {
       s \<leftarrow> finsh_heap_gc s;
       header \<leftarrow> find_block (\<lambda>l. l < n + 8) (free_list s) s;
       if header = RT_NULL then Some (RT_NULL, s) else take_block header n s }
     else take_block header n s }"

section \<open>Nodes\<close>

definition finsh_node_init :: "finsh \<Rightarrow> finsh" where
  "finsh_node_init s = s\<lparr>nodes_used := 0\<rparr>"

text \<open>A new node has no links and, but for its type, only zeros in it; \<open>None\<close> inside the result is \<^verbatim>\<open>NULL\<close>.\<close>

definition finsh_node_allocate :: "finsh_node_type \<Rightarrow> finsh \<Rightarrow> finsh_info option \<times> finsh" where
  "finsh_node_allocate type s =
    (if nodes_used s = FINSH_NODE_MAX then (None, s) else (Some (new_info type), s\<lparr>nodes_used := nodes_used s + 1\<rparr>))"

definition finsh_node_new_id :: "string \<Rightarrow> finsh \<Rightarrow> finsh_node \<times> finsh" where
  "finsh_node_new_id name s =
    (let (symbol, type) =
       (let p = finsh_var_lookup name s in
        if p = RT_NULL then
          (let p = finsh_sysvar_lookup name s in
           if p = RT_NULL then
             (let p = finsh_syscall_lookup name s in (p, if p \<noteq> RT_NULL then FINSH_IDTYPE_SYSCALL else 0))
           else (p, FINSH_IDTYPE_SYSVAR))
        else (p, FINSH_IDTYPE_VAR)) in
     if symbol \<noteq> RT_NULL then
       (case finsh_node_allocate FINSH_NODE_ID s of
          (None, s) \<Rightarrow> (NULL, finsh_error_set FINSH_ERROR_MEMORY_FULL s)
        | (Some n, s) \<Rightarrow> (Node (n\<lparr>idtype := type, node_id := symbol\<rparr>) NULL NULL, s))
     else (NULL, finsh_error_set FINSH_ERROR_UNKNOWN_SYMBOL s))"

text \<open>\<^verbatim>\<open>finsh_node_new_char\<close>, \<^verbatim>\<open>finsh_node_new_int\<close>, \<^verbatim>\<open>finsh_node_new_long\<close> and \<^verbatim>\<open>finsh_node_new_ptr\<close>.\<close>

definition finsh_node_new_value :: "finsh_node_type \<Rightarrow> u32 \<Rightarrow> finsh \<Rightarrow> finsh_node \<times> finsh" where
  "finsh_node_new_value type v s =
    (case finsh_node_allocate type s of
       (None, s) \<Rightarrow> (NULL, finsh_error_set FINSH_ERROR_MEMORY_FULL s)
     | (Some n, s) \<Rightarrow> (Node (n\<lparr>node_value := v\<rparr>) NULL NULL, s))"

text \<open>The characters of a string and a zero, into memory; the code does not test whether \<^verbatim>\<open>finsh_heap_allocate\<close> returned \<^verbatim>\<open>NULL\<close>.\<close>

fun put_string :: "ptr \<Rightarrow> string \<Rightarrow> memory \<Rightarrow> memory" where
  "put_string p [] m = m(p := 0)"
| "put_string p (c # cs) m = put_string (p + 1) cs (m(p := of_char c))"

definition finsh_node_new_string :: "string \<Rightarrow> finsh \<Rightarrow> (finsh_node \<times> finsh) option" where
  "finsh_node_new_string str s =
    (case finsh_node_allocate FINSH_NODE_VALUE_STRING s of
       (None, s) \<Rightarrow> Some (NULL, finsh_error_set FINSH_ERROR_MEMORY_FULL s)
     | (Some n, s) \<Rightarrow> do {
         (p, s) \<leftarrow> finsh_heap_allocate (length str + 1) s;
         if p = RT_NULL then None
         else Some (Node (n\<lparr>node_value := of_nat p\<rparr>) NULL NULL, s\<lparr>fmem := put_string p str (fmem s)\<rparr>) })"

end
