(* ===== verification/RT_Finsh_Token.thy ===== *)
theory RT_Finsh_Token
  imports RT_Finsh_Node RT_Kservice
begin

text \<open>
  The finsh shell, part four: \<^verbatim>\<open>finsh_token.c\<close>, which takes a command line apart into tokens. The buffers of the code are checked: to
  write behind the end of one has no result, and so has an endless loop.
\<close>

section \<open>State\<close>

datatype finsh_token_type = finsh_token_type_0 | finsh_token_type_left_paren | finsh_token_type_right_paren | finsh_token_type_comma
  | finsh_token_type_semicolon | finsh_token_type_mul | finsh_token_type_add | finsh_token_type_inc | finsh_token_type_sub
  | finsh_token_type_dec | finsh_token_type_div | finsh_token_type_mod | finsh_token_type_assign | finsh_token_type_and
  | finsh_token_type_or | finsh_token_type_xor | finsh_token_type_bitwise | finsh_token_type_shl | finsh_token_type_shr
  | finsh_token_type_comments | finsh_token_type_void | finsh_token_type_char | finsh_token_type_short | finsh_token_type_int
  | finsh_token_type_long | finsh_token_type_unsigned | finsh_token_type_value_char | finsh_token_type_value_int
  | finsh_token_type_value_long | finsh_token_type_value_string | finsh_token_type_value_null | finsh_token_type_identifier
  | finsh_token_type_bad | finsh_token_type_eof

abbreviation (input) FINSH_STRING_MAX :: nat where "FINSH_STRING_MAX \<equiv> 128"

text \<open>\<^verbatim>\<open>struct finsh_token\<close>, together with the rest of the shell. \<open>tok_string\<close> is the whole buffer.\<close>

record finsh_parser =
  tok_eof :: bool
  tok_replay :: bool
  tok_position :: nat
  tok_current :: finsh_token_type
  tok_value :: u32
  tok_string :: string
  tok_line :: string
  shell :: finsh

definition finsh_token_init :: "string \<Rightarrow> finsh_parser \<Rightarrow> finsh_parser" where
  "finsh_token_init line p = p\<lparr>tok_eof := False, tok_replay := False, tok_position := 0, tok_current := finsh_token_type_0, tok_value := 0,
     tok_string := replicate FINSH_STRING_MAX NUL, tok_line := line\<rparr>"

definition set_error :: "u8 \<Rightarrow> finsh_parser \<Rightarrow> finsh_parser" where
  "set_error e p = p\<lparr>shell := finsh_error_set e (shell p)\<rparr>"

definition set_token :: "finsh_token_type \<Rightarrow> finsh_parser \<Rightarrow> finsh_parser" where
  "set_token t p = p\<lparr>tok_current := t\<rparr>"

text \<open>The string in a buffer.\<close>

definition c_string :: "string \<Rightarrow> string" where
  "c_string = takeWhile (\<lambda>c. c \<noteq> NUL)"

definition put_string_at :: "nat \<Rightarrow> char \<Rightarrow> finsh_parser \<Rightarrow> finsh_parser option" where
  "put_string_at i c p = (if i < FINSH_STRING_MAX then Some (p\<lparr>tok_string := (tok_string p)[i := c]\<rparr>) else None)"

section \<open>Characters\<close>

definition is_digit :: "char \<Rightarrow> bool" where
  "is_digit c \<longleftrightarrow> 48 \<le> (of_char c :: nat) \<and> (of_char c :: nat) \<le> 57"

definition is_alpha :: "char \<Rightarrow> bool" where
  "is_alpha c \<longleftrightarrow> ((of_char c :: u32) OR 0x20) - 97 < 26"

definition is_xdigit :: "char \<Rightarrow> bool" where
  "is_xdigit c \<longleftrightarrow> is_digit c \<or> ((of_char c :: u32) OR 0x20) - 97 < 6"

definition is_separator :: "char \<Rightarrow> bool" where
  "is_separator c \<longleftrightarrow> (let n = of_char c :: nat in \<not> (97 \<le> n \<and> n \<le> 122 \<or> 65 \<le> n \<and> n \<le> 90 \<or> 48 \<le> n \<and> n \<le> 57 \<or> c = CHR ''_''))"

definition token_next_char :: "finsh_parser \<Rightarrow> char \<times> finsh_parser" where
  "token_next_char p =
    (if tok_eof p then (NUL, p)
     else if length (tok_line p) \<le> tok_position p \<or> tok_line p ! tok_position p = CHR 0x0A
     then (NUL, p\<lparr>tok_eof := True, tok_position := 0\<rparr>)
     else (tok_line p ! tok_position p, p\<lparr>tok_position := tok_position p + 1\<rparr>))"

definition token_prev_char :: "finsh_parser \<Rightarrow> finsh_parser" where
  "token_prev_char p = (if tok_eof p then p else p\<lparr>tok_position := tok_position p - 1\<rparr>)"

partial_function (option) trim_loop :: "finsh_parser \<Rightarrow> finsh_parser option" where
  [code]: "trim_loop p =
    (let (ch, p) = token_next_char p
     in if ch = CHR '' '' \<or> ch = CHR 0x09 \<or> ch = CHR 0x0D then trim_loop p else Some p)"

definition token_trim_space :: "finsh_parser \<Rightarrow> finsh_parser option" where
  "token_trim_space p = map_option token_prev_char (trim_loop p)"

section \<open>Names\<close>

partial_function (option) name_loop :: "char \<Rightarrow> nat \<Rightarrow> finsh_parser \<Rightarrow> (nat \<times> finsh_parser) option" where
  [code]: "name_loop ch i p =
    (if \<not> is_separator ch \<and> \<not> tok_eof p then do {
       p \<leftarrow> put_string_at i ch p;
       let (ch, p) = token_next_char p;
       name_loop ch (i + 1) p }
     else Some (i, p))"

definition token_get_string :: "finsh_parser \<Rightarrow> finsh_parser option" where
  "token_get_string p = do {
     let (ch, p) = token_next_char p;
     if tok_eof p then Some p
     else do {
       p \<leftarrow> put_string_at 0 NUL p;
       if is_digit ch then Some (token_prev_char p)
       else do {
         (i, p) \<leftarrow> name_loop ch 0 p;
         put_string_at i NUL (token_prev_char (p\<lparr>tok_eof := False\<rparr>)) } } }"

definition finsh_name_table :: "(string \<times> finsh_token_type) list" where
  "finsh_name_table =
    [(''void'', finsh_token_type_void), (''char'', finsh_token_type_char), (''short'', finsh_token_type_short),
     (''int'', finsh_token_type_int), (''long'', finsh_token_type_long), (''unsigned'', finsh_token_type_unsigned),
     (''NULL'', finsh_token_type_value_null), (''null'', finsh_token_type_value_null)]"

definition token_match_name :: "string \<Rightarrow> finsh_token_type option" where
  "token_match_name = map_of finsh_name_table"

section \<open>Characters and strings\<close>

text \<open>The digits of \<^verbatim>\<open>'\113'\<close> go into \<^verbatim>\<open>buf[4]\<close>, at the index \<open>i\<close>.\<close>

partial_function (option) char_digits_loop :: "char \<Rightarrow> nat \<Rightarrow> finsh_parser \<Rightarrow> (nat \<times> finsh_parser) option" where
  [code]: "char_digits_loop ch i p =
    (if is_digit ch then
       (let (ch, p) = token_next_char p in if i < 4 then char_digits_loop ch (i + 1) p else None)
     else Some (i, p))"

definition token_proc_char :: "finsh_parser \<Rightarrow> (char \<times> finsh_parser) option" where
  "token_proc_char p = do {
     let (ch, p) = token_next_char p;
     (ch, p) \<leftarrow>
       (if ch = CHR 0x5C then
          (let (ch, p) = token_next_char p in
           if ch = CHR ''n'' then Some (CHR 0x0A, p)
           else if ch = CHR ''t'' then Some (CHR 0x09, p)
           else if ch = CHR ''v'' then Some (CHR 0x0B, p)
           else if ch = CHR ''b'' then Some (CHR 0x08, p)
           else if ch = CHR ''r'' then Some (CHR 0x0D, p)
           else if ch = CHR 0x5C then Some (ch, p)
           else if ch = CHR 0x27 then Some (ch, p)
           else do {
             (i, p) \<leftarrow> char_digits_loop ch 0 p;
             if i < 4 then Some (NUL, token_prev_char p) else None })
        else Some (ch, p));
     let (c, p) = token_next_char p;
     if c \<noteq> CHR 0x27 then Some (ch, set_error FINSH_ERROR_EXPECT_CHAR (token_prev_char p))
     else Some (ch, p) }"

definition hex_digit :: "char \<Rightarrow> u32" where
  "hex_digit c = (if of_char c < (65 :: nat) then of_char c - 48 else (of_char c OR 0x20) - 97 + 10)"

partial_function (option) escape_loop :: "u32 \<Rightarrow> char \<Rightarrow> u32 \<Rightarrow> finsh_parser \<Rightarrow> (u32 \<times> finsh_parser) option" where
  [code]: "escape_loop base ch result p =
    (if (if base = 16 then is_xdigit ch else (of_char ch :: u32) - 48 < 8) then
       (let result = (if base = 16 then result * 16 + hex_digit ch else result * 8 + of_char ch - 48);
            (ch, p) = token_next_char p
        in escape_loop base ch result p)
     else Some (result, p))"

definition token_proc_escape :: "finsh_parser \<Rightarrow> (u32 \<times> finsh_parser) option" where
  "token_proc_escape p =
    (let (ch, p) = token_next_char p in
     if ch = CHR ''n'' then Some (10, p)
     else if ch = CHR ''t'' then Some (9, p)
     else if ch = CHR ''v'' then Some (11, p)
     else if ch = CHR ''b'' then Some (8, p)
     else if ch = CHR ''r'' then Some (13, p)
     else if ch = CHR ''f'' then Some (12, p)
     else if ch = CHR ''a'' then Some (7, p)
     else if ch = CHR 0x22 then Some (34, p)
     else if ch = CHR ''x'' \<or> ch = CHR ''X'' then
       (let (ch, p) = token_next_char p in map_option (\<lambda>(r, p). (r, token_prev_char p)) (escape_loop 16 ch 0 p))
     else if (of_char ch :: u32) - 48 < 8 then map_option (\<lambda>(r, p). (r, token_prev_char p)) (escape_loop 8 ch 0 p)
     else Some (0, p))"

partial_function (option) string_loop :: "nat \<Rightarrow> finsh_parser \<Rightarrow> finsh_parser option" where
  [code]: "string_loop i p =
    (if i < FINSH_STRING_MAX then
       (let (ch, p) = token_next_char p in
        if tok_eof p then Some (set_error FINSH_ERROR_UNEXPECT_END p)
        else if ch = CHR 0x5C then do {
          (r, p) \<leftarrow> token_proc_escape p;
          p \<leftarrow> put_string_at i (char_of (unat (r AND 0xFF))) p;
          string_loop (i + 1) p }
        else if ch = CHR 0x22 then put_string_at i NUL p
        else do {
          p \<leftarrow> put_string_at i ch p;
          string_loop (i + 1) p })
     else Some p)"

definition token_proc_string :: "finsh_parser \<Rightarrow> finsh_parser option" where
  "token_proc_string p = string_loop 0 p"

section \<open>Numbers\<close>

text \<open>The two words of the number, the lower one first; the second is not used in the end.\<close>

definition number_digit :: "char \<Rightarrow> u32" where
  "number_digit c = (let t = of_char c :: u32 in
     if 97 \<le> t \<and> t \<le> 102 then t - 97 + 10 else if 65 \<le> t \<and> t \<le> 70 then t - 65 + 10 else t - 48)"

fun spec_loop :: "nat \<Rightarrow> string \<Rightarrow> u32 \<times> u32 \<Rightarrow> u32 \<times> u32" where
  "spec_loop shift [] bn = bn"
| "spec_loop shift (c # cs) (b0, b1) =
    (let t = number_digit c; t' = drop_bit (32 - shift) b0
     in spec_loop shift cs (push_bit shift b0 OR t, push_bit shift b1 OR t'))"

definition token_spec_number :: "string \<Rightarrow> nat \<Rightarrow> u32" where
  "token_spec_number str b = fst (spec_loop (if b = 16 then 4 else if b = 8 then 3 else 1) str (0, 0))"

text \<open>The digits of a number that starts with \<open>0\<close>, which go into \<^verbatim>\<open>buf[128]\<close> with a zero behind them.\<close>

partial_function (option) digits_loop :: "(char \<Rightarrow> bool) \<Rightarrow> char \<Rightarrow> string \<Rightarrow> finsh_parser \<Rightarrow> (string \<times> char \<times> finsh_parser) option" where
  [code]: "digits_loop digit ch buf p =
    (if digit ch then
       (if length buf < 127 then (let buf = buf @ [ch]; (ch, p) = token_next_char p in digits_loop digit ch buf p) else None)
     else Some (buf, ch, p))"

partial_function (option) decimal_loop :: "char \<Rightarrow> u32 \<Rightarrow> finsh_parser \<Rightarrow> (u32 \<times> char \<times> finsh_parser) option" where
  [code]: "decimal_loop ch value p =
    (if is_digit ch then
       (let value = value * 10 + (of_char ch - 48); (ch, p) = token_next_char p in decimal_loop ch value p)
     else Some (value, ch, p))"

text \<open>What follows the digits.\<close>

definition number_suffix :: "char \<Rightarrow> u32 \<Rightarrow> finsh_parser \<Rightarrow> finsh_parser" where
  "number_suffix ch v p =
    (let p = p\<lparr>tok_value := v, tok_current := finsh_token_type_value_int\<rparr> in
     if ch = CHR ''l'' \<or> ch = CHR ''L'' then set_token finsh_token_type_value_long p else token_prev_char p)"

definition token_proc_number :: "finsh_parser \<Rightarrow> finsh_parser option" where
  "token_proc_number p =
    (let (ch, p) = token_next_char p in
     if ch = CHR ''0'' then
       (let (ch, p) = token_next_char p in
        if ch = CHR ''x'' \<or> ch = CHR ''X'' then
          (let (ch, p) = token_next_char p in
           do { (buf, ch, p) \<leftarrow> digits_loop (\<lambda>c. is_digit c \<or> is_alpha c) ch [] p; Some (number_suffix ch (token_spec_number buf 16) p) })
        else if ch = CHR ''b'' \<or> ch = CHR ''B'' then
          (let (ch, p) = token_next_char p in
           do { (buf, ch, p) \<leftarrow> digits_loop (\<lambda>c. c = CHR ''0'' \<or> c = CHR ''1'') ch [] p; Some (number_suffix ch (token_spec_number buf 2) p) })
        else if 48 \<le> (of_char ch :: nat) \<and> (of_char ch :: nat) \<le> 55 then
          do { (buf, ch, p) \<leftarrow> digits_loop (\<lambda>c. 48 \<le> (of_char c :: nat) \<and> (of_char c :: nat) \<le> 55) ch [] p;
               Some (number_suffix ch (token_spec_number buf 8) p) }
        else Some ((token_prev_char p)\<lparr>tok_value := 0, tok_current := finsh_token_type_value_int\<rparr>))
     else do {
       (value, ch, p) \<leftarrow> decimal_loop ch 0 p;
       Some (number_suffix ch value p) })"

section \<open>Tokens\<close>

text \<open>A token of one character, or of two if the second is \<open>c\<close>.\<close>

definition one_or_two :: "char \<Rightarrow> finsh_token_type \<Rightarrow> finsh_token_type \<Rightarrow> finsh_parser \<Rightarrow> finsh_parser" where
  "one_or_two c t2 t1 p =
    (let (ch, p) = token_next_char p in if ch = c then set_token t2 p else set_token t1 (token_prev_char p))"

definition token_operator :: "finsh_parser \<Rightarrow> finsh_parser option" where
  "token_operator p =
    (let (ch, p) = token_next_char p in
     if ch = CHR ''('' then Some (set_token finsh_token_type_left_paren p)
     else if ch = CHR '')'' then Some (set_token finsh_token_type_right_paren p)
     else if ch = CHR '','' then Some (set_token finsh_token_type_comma p)
     else if ch = CHR '';'' then Some (set_token finsh_token_type_semicolon p)
     else if ch = CHR ''&'' then Some (set_token finsh_token_type_and p)
     else if ch = CHR ''*'' then Some (set_token finsh_token_type_mul p)
     else if ch = CHR ''+'' then Some (one_or_two CHR ''+'' finsh_token_type_inc finsh_token_type_add p)
     else if ch = CHR ''-'' then Some (one_or_two CHR ''-'' finsh_token_type_dec finsh_token_type_sub p)
     else if ch = CHR ''/'' then Some (one_or_two CHR ''/'' finsh_token_type_eof finsh_token_type_div p)
     else if ch = CHR ''<'' then Some (one_or_two CHR ''<'' finsh_token_type_shl finsh_token_type_bad p)
     else if ch = CHR ''>'' then Some (one_or_two CHR ''>'' finsh_token_type_shr finsh_token_type_bad p)
     else if ch = CHR ''|'' then Some (set_token finsh_token_type_or p)
     else if ch = CHR ''%'' then Some (set_token finsh_token_type_mod p)
     else if ch = CHR ''~'' then Some (set_token finsh_token_type_bitwise p)
     else if ch = CHR ''^'' then Some (set_token finsh_token_type_xor p)
     else if ch = CHR ''='' then Some (set_token finsh_token_type_assign p)
     else if ch = CHR 0x27 then do {
       (c, p) \<leftarrow> token_proc_char p;
       Some (set_token finsh_token_type_value_char (p\<lparr>tok_value := put_value W8 (tok_value p) (of_char c)\<rparr>)) }
     else if ch = CHR 0x22 then map_option (set_token finsh_token_type_value_string) (token_proc_string p)
     else if is_digit ch then token_proc_number (token_prev_char p)
     else Some (set_token finsh_token_type_bad (set_error FINSH_ERROR_UNKNOWN_TOKEN p)))"

definition token_run :: "finsh_parser \<Rightarrow> finsh_parser option" where
  "token_run p = do {
     p \<leftarrow> token_trim_space p;
     p \<leftarrow> token_get_string p;
     if tok_eof p then Some (set_token finsh_token_type_eof p)
     else if tok_string p ! 0 \<noteq> NUL then
       (case token_match_name (c_string (tok_string p)) of
          Some t \<Rightarrow> Some (set_token t p)
        | None \<Rightarrow> Some (set_token finsh_token_type_identifier p))
     else token_operator p }"

definition finsh_token_token :: "finsh_parser \<Rightarrow> (finsh_token_type \<times> finsh_parser) option" where
  "finsh_token_token p = do {
     p \<leftarrow> (if tok_replay p then Some (p\<lparr>tok_replay := False\<rparr>) else token_run p);
     Some (tok_current p, p) }"

definition finsh_token_replay :: "finsh_parser \<Rightarrow> finsh_parser" where
  "finsh_token_replay p = p\<lparr>tok_replay := True\<rparr>"

end
