(* ===== verification/RT_Finsh_Parser.thy ===== *)
theory RT_Finsh_Parser
  imports RT_Finsh_Token
begin

text \<open>
  The finsh shell, part five: the recursive descent parser (\<^verbatim>\<open>finsh_parser.c\<close>) and the run of a command line (\<^verbatim>\<open>finsh_init.c\<close>,
  \<^verbatim>\<open>finsh_run_line\<close> of \<^verbatim>\<open>shell.c\<close>). The functions of the parser call each other and loop over tokens; every call and every round takes one unit
  of fuel.
\<close>

section \<open>Tokens and nodes\<close>

text \<open>\<^verbatim>\<open>check_token\<close> and \<^verbatim>\<open>match_token\<close>.\<close>

definition check_token :: "finsh_token_type \<Rightarrow> finsh_token_type \<Rightarrow> finsh_parser \<Rightarrow> finsh_parser" where
  "check_token t type p = (if t \<noteq> type then finsh_token_replay (set_error FINSH_ERROR_INVALID_TOKEN p) else p)"

definition match_token :: "finsh_token_type \<Rightarrow> finsh_parser \<Rightarrow> finsh_parser option" where
  "match_token type p = do { (t, p) \<leftarrow> finsh_token_token p; Some (check_token t type p) }"

text \<open>An operation of the tables in \<open>RT_Finsh_Node\<close> on the shell of the parser.\<close>

definition with_shell :: "(finsh \<Rightarrow> 'a \<times> finsh) \<Rightarrow> finsh_parser \<Rightarrow> 'a \<times> finsh_parser" where
  "with_shell f p = (let (x, s) = f (shell p) in (x, p\<lparr>shell := s\<rparr>))"

definition make_sys_node :: "finsh_node_type \<Rightarrow> finsh_node \<Rightarrow> finsh_node \<Rightarrow> finsh_parser \<Rightarrow> finsh_node \<times> finsh_parser" where
  "make_sys_node type node1 node2 p =
    (case with_shell (finsh_node_allocate type) p of
       (None, p) \<Rightarrow> (NULL, set_error FINSH_ERROR_NULL_NODE p)
     | (Some n, p) \<Rightarrow>
         if node1 \<noteq> NULL then (Node n (set_sibling node1 node2) NULL, p)
         else (Node n NULL NULL, set_error FINSH_ERROR_NULL_NODE p))"

section \<open>Types and identifiers\<close>

definition base_type :: "finsh_token_type \<Rightarrow> finsh_type option" where
  "base_type t = (case t of
     finsh_token_type_void \<Rightarrow> Some finsh_type_void | finsh_token_type_char \<Rightarrow> Some finsh_type_char
   | finsh_token_type_short \<Rightarrow> Some finsh_type_short | finsh_token_type_int \<Rightarrow> Some finsh_type_int
   | finsh_token_type_long \<Rightarrow> Some finsh_type_long | _ \<Rightarrow> None)"

definition unsigned_type :: "finsh_token_type \<Rightarrow> finsh_type option" where
  "unsigned_type t = (case t of
     finsh_token_type_char \<Rightarrow> Some finsh_type_uchar | finsh_token_type_short \<Rightarrow> Some finsh_type_ushort
   | finsh_token_type_int \<Rightarrow> Some finsh_type_uint | finsh_token_type_long \<Rightarrow> Some finsh_type_ulong | _ \<Rightarrow> None)"

fun pointer_type :: "finsh_type \<Rightarrow> finsh_type" where
  "pointer_type finsh_type_char = finsh_type_charp" | "pointer_type finsh_type_uchar = finsh_type_charp"
| "pointer_type finsh_type_short = finsh_type_shortp" | "pointer_type finsh_type_ushort = finsh_type_shortp"
| "pointer_type finsh_type_int = finsh_type_intp" | "pointer_type finsh_type_uint = finsh_type_intp"
| "pointer_type finsh_type_long = finsh_type_longp" | "pointer_type finsh_type_ulong = finsh_type_longp"
| "pointer_type _ = finsh_type_voidp"

definition type_pointer :: "finsh_type \<Rightarrow> finsh_parser \<Rightarrow> (finsh_type \<times> finsh_parser) option" where
  "type_pointer type p = do {
     (t, p) \<leftarrow> finsh_token_token p;
     if t = finsh_token_type_mul then Some (pointer_type type, p) else Some (type, finsh_token_replay p) }"

definition type_fail :: "finsh_parser \<Rightarrow> finsh_type \<times> finsh_parser" where
  "type_fail p = (finsh_type_unknown, set_error FINSH_ERROR_UNKNOWN_TYPE (finsh_token_replay p))"

definition proc_type :: "finsh_parser \<Rightarrow> (finsh_type \<times> finsh_parser) option" where
  "proc_type p = do {
     (t, p) \<leftarrow> finsh_token_token p;
     case base_type t of
       Some type \<Rightarrow> type_pointer type p
     | None \<Rightarrow>
         if t = finsh_token_type_unsigned then do {
           (t, p) \<leftarrow> finsh_token_token p;
           if base_type t \<noteq> None then
             (case unsigned_type t of Some type \<Rightarrow> type_pointer type p | None \<Rightarrow> Some (type_fail p))
           else type_pointer finsh_type_unknown (set_error FINSH_ERROR_EXPECT_TYPE (finsh_token_replay p)) }
         else Some (type_fail p) }"

text \<open>The last byte of \<^verbatim>\<open>id\<close>, which \<^verbatim>\<open>strncpy\<close> does not write for a name of 16 characters, is taken to be zero.\<close>

definition proc_identifier :: "finsh_parser \<Rightarrow> (string \<times> finsh_parser) option" where
  "proc_identifier p = do {
     p \<leftarrow> match_token finsh_token_type_identifier p;
     Some (take FINSH_NAME_MAX (c_string (tok_string p)), p) }"

text \<open>An identifier in a declaration, entered in the table of variables.\<close>

definition proc_declarator :: "finsh_type \<Rightarrow> finsh_parser \<Rightarrow> (string \<times> finsh_parser) option" where
  "proc_declarator type p = do {
     (name, p) \<leftarrow> proc_identifier p;
     let (i, p) = with_shell (finsh_var_insert name type) p;
     Some (name, if i < 0 then set_error FINSH_ERROR_VARIABLE_EXIST p else p) }"

text \<open>The number of a type in the enumeration; it is stored as data type by a cast.\<close>

fun type_number :: "finsh_type \<Rightarrow> u8" where
  "type_number finsh_type_unknown = 0" | "type_number finsh_type_void = 1" | "type_number finsh_type_voidp = 2"
| "type_number finsh_type_char = 3" | "type_number finsh_type_uchar = 4" | "type_number finsh_type_charp = 5"
| "type_number finsh_type_short = 6" | "type_number finsh_type_ushort = 7" | "type_number finsh_type_shortp = 8"
| "type_number finsh_type_int = 9" | "type_number finsh_type_uint = 10" | "type_number finsh_type_intp = 11"
| "type_number finsh_type_long = 12" | "type_number finsh_type_ulong = 13" | "type_number finsh_type_longp = 14"

fun set_data_type :: "u8 \<Rightarrow> finsh_node \<Rightarrow> finsh_node" where
  "set_data_type d NULL = NULL"
| "set_data_type d (Node n c b) = Node (n\<lparr>data_type := d\<rparr>) c b"

section \<open>Expressions\<close>

text \<open>
  The binary operators by level, from \<^verbatim>\<open>|\<close> up to the multiplicative ones. The six functions for the levels are the same but for the
  operators and the function for the operands.
\<close>

definition level_op :: "nat \<Rightarrow> finsh_token_type \<Rightarrow> bin_op option" where
  "level_op k t =
    (if k = 1 \<and> t = finsh_token_type_or then Some Or
     else if k = 2 \<and> t = finsh_token_type_xor then Some Xor
     else if k = 3 \<and> t = finsh_token_type_and then Some And
     else if k = 4 \<and> t = finsh_token_type_shl then Some Shl
     else if k = 4 \<and> t = finsh_token_type_shr then Some Shr
     else if k = 5 \<and> t = finsh_token_type_sub then Some Sub
     else if k = 5 \<and> t = finsh_token_type_add then Some Add
     else if k = 6 \<and> t = finsh_token_type_mul then Some Mul
     else if k = 6 \<and> t = finsh_token_type_div then Some Div
     else if k = 6 \<and> t = finsh_token_type_mod then Some Mod
     else None)"

type_synonym 'a parser = "finsh_parser \<Rightarrow> ('a \<times> finsh_parser) option"

text \<open>What the loop of a level does with the operand that it has parsed.\<close>

definition add_operand :: "bin_op \<Rightarrow> finsh_node \<Rightarrow> finsh_node \<Rightarrow> finsh_parser \<Rightarrow> finsh_node \<times> finsh_parser" where
  "add_operand x left right p =
    (if right = NULL then (left, set_error FINSH_ERROR_EXPECT_OPERATOR p) else make_sys_node (FINSH_NODE_SYS x) left right p)"

text \<open>Literals, and identifiers.\<close>

definition proc_literal :: "finsh_token_type \<Rightarrow> finsh_parser \<Rightarrow> (finsh_node \<times> finsh_parser) option" where
  "proc_literal t p = (case t of
     finsh_token_type_identifier \<Rightarrow> do {
       (name, p) \<leftarrow> proc_identifier (finsh_token_replay p);
       Some (with_shell (finsh_node_new_id name) p) }
   | finsh_token_type_value_int \<Rightarrow> Some (with_shell (finsh_node_new_value FINSH_NODE_VALUE_INT (tok_value p)) p)
   | finsh_token_type_value_long \<Rightarrow> Some (with_shell (finsh_node_new_value FINSH_NODE_VALUE_LONG (tok_value p)) p)
   | finsh_token_type_value_char \<Rightarrow> Some (with_shell (finsh_node_new_value FINSH_NODE_VALUE_CHAR (tok_value p AND 0xFF)) p)
   | finsh_token_type_value_string \<Rightarrow>
       if NUL \<in> set (tok_string p) then do {
         (n, s) \<leftarrow> finsh_node_new_string (c_string (tok_string p)) (shell p);
         Some (n, p\<lparr>shell := s\<rparr>) }
       else None
   | finsh_token_type_value_null \<Rightarrow> Some (with_shell (finsh_node_new_value FINSH_NODE_VALUE_NULL 0) p)
   | _ \<Rightarrow> Some (NULL, set_error FINSH_ERROR_INVALID_TOKEN p))"

text \<open>
  The functions below are given as far as they do not call back: \<open>expr\<close> stands for \<^verbatim>\<open>proc_assign_expr\<close> and \<open>cast\<close> for \<^verbatim>\<open>proc_cast_expr\<close>, with the fuel
  that is left, and \<open>k\<close> bounds the rounds of a loop.
\<close>

primrec param_loop :: "finsh_node parser \<Rightarrow> nat \<Rightarrow> finsh_node list \<Rightarrow> finsh_token_type \<Rightarrow> (finsh_node list) parser" where
  "param_loop expr 0 ns t p = None"
| "param_loop expr (Suc k) ns t p =
     (if t = finsh_token_type_comma then do {
        (assign, p) \<leftarrow> expr p;
        let (ns, p) = (if assign \<noteq> NULL then (ns @ [assign], p) else (ns, set_error FINSH_ERROR_EXPECT_OPERATOR p));
        (t, p) \<leftarrow> finsh_token_token p;
        param_loop expr k ns t p }
      else Some (ns, finsh_token_replay p))"

definition proc_param_list :: "finsh_node parser \<Rightarrow> nat \<Rightarrow> finsh_node parser" where
  "proc_param_list expr k p = do {
     (assign, p) \<leftarrow> expr p;
     if assign = NULL then Some (NULL, p)
     else do {
       (t, p) \<leftarrow> finsh_token_token p;
       (ns, p) \<leftarrow> param_loop expr k [assign] t p;
       Some (chain ns, p) } }"

definition proc_primary_expr :: "finsh_node parser \<Rightarrow> finsh_node parser" where
  "proc_primary_expr expr p = do {
     (t, p) \<leftarrow> finsh_token_token p;
     if t = finsh_token_type_left_paren then do {
       (e, p) \<leftarrow> expr p;
       p \<leftarrow> match_token finsh_token_type_right_paren p;
       Some (e, p) }
     else proc_literal t p }"

text \<open>The parameters of a call, behind its opening parenthesis.\<close>

definition proc_call :: "finsh_node parser \<Rightarrow> nat \<Rightarrow> finsh_node parser" where
  "proc_call expr k p = do {
     (t, p) \<leftarrow> finsh_token_token p;
     if t \<noteq> finsh_token_type_right_paren then do {
       (params, p) \<leftarrow> proc_param_list expr k (finsh_token_replay p);
       p \<leftarrow> match_token finsh_token_type_right_paren p;
       Some (params, p) }
     else Some (NULL, p) }"

primrec postfix_loop :: "finsh_node parser \<Rightarrow> nat \<Rightarrow> finsh_node \<Rightarrow> finsh_token_type \<Rightarrow> finsh_node parser" where
  "postfix_loop expr 0 postfix t p = None"
| "postfix_loop expr (Suc k) postfix t p =
     (if t \<in> {finsh_token_type_inc, finsh_token_type_dec, finsh_token_type_left_paren} then do {
        (postfix, p) \<leftarrow>
          (if t = finsh_token_type_inc then Some (make_sys_node FINSH_NODE_SYS_INC postfix NULL p)
           else if t = finsh_token_type_dec then Some (make_sys_node FINSH_NODE_SYS_DEC postfix NULL p)
           else do { (params, p) \<leftarrow> proc_call expr k p; Some (make_sys_node FINSH_NODE_SYS_FUNC postfix params p) });
        (t, p) \<leftarrow> finsh_token_token p;
        postfix_loop expr k postfix t p }
      else Some (postfix, finsh_token_replay p))"

definition proc_postfix_expr :: "finsh_node parser \<Rightarrow> nat \<Rightarrow> finsh_node parser" where
  "proc_postfix_expr expr k p = do {
     (postfix, p) \<leftarrow> proc_primary_expr expr p;
     (t, p) \<leftarrow> finsh_token_token p;
     postfix_loop expr k postfix t p }"

definition proc_unary_expr :: "finsh_node parser \<Rightarrow> finsh_node parser \<Rightarrow> nat \<Rightarrow> finsh_node parser" where
  "proc_unary_expr expr cast k p = do {
     (t, p) \<leftarrow> finsh_token_token p;
     if t = finsh_token_type_add then cast p
     else if t = finsh_token_type_inc then do { (c, p) \<leftarrow> cast p; Some (make_sys_node FINSH_NODE_SYS_PREINC c NULL p) }
     else if t = finsh_token_type_sub then do {
       (c, p) \<leftarrow> cast p;
       let (zero, p) = with_shell (finsh_node_new_value FINSH_NODE_VALUE_LONG 0) p;
       Some (make_sys_node (FINSH_NODE_SYS Sub) zero c p) }
     else if t = finsh_token_type_dec then do { (c, p) \<leftarrow> cast p; Some (make_sys_node FINSH_NODE_SYS_PREDEC c NULL p) }
     else if t = finsh_token_type_bitwise then do { (c, p) \<leftarrow> cast p; Some (make_sys_node FINSH_NODE_SYS_BITWISE c NULL p) }
     else if t = finsh_token_type_mul then do { (c, p) \<leftarrow> cast p; Some (make_sys_node FINSH_NODE_SYS_GETVALUE c NULL p) }
     else if t = finsh_token_type_and then do { (c, p) \<leftarrow> cast p; Some (make_sys_node FINSH_NODE_SYS_GETADDR c NULL p) }
     else proc_postfix_expr expr k (finsh_token_replay p) }"

primrec proc_cast_expr :: "finsh_node parser \<Rightarrow> nat \<Rightarrow> finsh_node parser" where
  "proc_cast_expr expr 0 p = None"
| "proc_cast_expr expr (Suc k) p = do {
     (t, p) \<leftarrow> finsh_token_token p;
     if t = finsh_token_type_left_paren then do {
       (type, p) \<leftarrow> proc_type p;
       p \<leftarrow> match_token finsh_token_type_right_paren p;
       (c, p) \<leftarrow> proc_cast_expr expr k p;
       if c \<noteq> NULL then Some (set_data_type (type_number type) c, p)
       else proc_unary_expr expr (proc_cast_expr expr k) k (finsh_token_replay p) }
     else proc_unary_expr expr (proc_cast_expr expr k) k (finsh_token_replay p) }"

text \<open>
  The six functions for binary operators are alike but for their operators and the function for their operands; \<open>proc_level\<close> is what they have in
  common, with the operators of each in \<open>level_op\<close>.
\<close>

primrec level_loop :: "nat \<Rightarrow> finsh_node parser \<Rightarrow> nat \<Rightarrow> finsh_node \<Rightarrow> finsh_token_type \<Rightarrow> finsh_node parser" where
  "level_loop l operand 0 left t p = None"
| "level_loop l operand (Suc k) left t p = (case level_op l t of
     None \<Rightarrow> Some (left, finsh_token_replay p)
   | Some x \<Rightarrow> do {
       (right, p) \<leftarrow> operand p;
       let (left, p) = add_operand x left right p;
       (t, p) \<leftarrow> finsh_token_token p;
       level_loop l operand k left t p })"

definition proc_level :: "nat \<Rightarrow> finsh_node parser \<Rightarrow> nat \<Rightarrow> finsh_node parser" where
  "proc_level l operand k p = do {
     (left, p) \<leftarrow> operand p;
     (t, p) \<leftarrow> finsh_token_token p;
     level_loop l operand k left t p }"

definition proc_multiplicative_expr :: "finsh_node parser \<Rightarrow> nat \<Rightarrow> finsh_node parser" where
  "proc_multiplicative_expr cast k = proc_level 6 cast k"

definition proc_additive_expr :: "finsh_node parser \<Rightarrow> nat \<Rightarrow> finsh_node parser" where
  "proc_additive_expr cast k = proc_level 5 (proc_multiplicative_expr cast k) k"

definition proc_shift_expr :: "finsh_node parser \<Rightarrow> nat \<Rightarrow> finsh_node parser" where
  "proc_shift_expr cast k = proc_level 4 (proc_additive_expr cast k) k"

definition proc_and_expr :: "finsh_node parser \<Rightarrow> nat \<Rightarrow> finsh_node parser" where
  "proc_and_expr cast k = proc_level 3 (proc_shift_expr cast k) k"

definition proc_exclusive_or_expr :: "finsh_node parser \<Rightarrow> nat \<Rightarrow> finsh_node parser" where
  "proc_exclusive_or_expr cast k = proc_level 2 (proc_and_expr cast k) k"

definition proc_inclusive_or_expr :: "finsh_node parser \<Rightarrow> nat \<Rightarrow> finsh_node parser" where
  "proc_inclusive_or_expr cast k = proc_level 1 (proc_exclusive_or_expr cast k) k"

primrec proc_assign_expr :: "nat \<Rightarrow> finsh_node parser" where
  "proc_assign_expr 0 p = None"
| "proc_assign_expr (Suc k) p = do {
     (left, p) \<leftarrow> proc_inclusive_or_expr (proc_cast_expr (proc_assign_expr k) k) k p;
     (t, p) \<leftarrow> finsh_token_token p;
     if t = finsh_token_type_assign then do {
       (assign, p) \<leftarrow> proc_assign_expr k p;
       Some (make_sys_node FINSH_NODE_SYS_ASSIGN left assign p) }
     else Some (left, finsh_token_replay p) }"

section \<open>Statements\<close>

definition proc_expr_statement :: "nat \<Rightarrow> finsh_node parser" where
  "proc_expr_statement k p = do {
     (t, p) \<leftarrow> finsh_token_token p;
     if t \<noteq> finsh_token_type_semicolon then do {
       (e, p) \<leftarrow> proc_assign_expr k (finsh_token_replay p);
       p \<leftarrow> match_token finsh_token_type_semicolon p;
       Some (e, p) }
     else Some (NULL, p) }"

text \<open>
  A declarator with a value: its assignment is put behind \<open>ns\<close>, the assignments so far; \<open>lost\<close> tells that \<^verbatim>\<open>end\<close> is \<^verbatim>\<open>NULL\<close> as the last of
  them could not be made.
\<close>

definition decl_assign :: "nat \<Rightarrow> string \<Rightarrow> finsh_node list \<Rightarrow> bool \<Rightarrow> finsh_token_type \<Rightarrow> finsh_parser \<Rightarrow>
    (finsh_node list \<times> bool \<times> finsh_token_type \<times> finsh_parser) option" where
  "decl_assign k name ns lost t p = do {
     (assign, p) \<leftarrow> proc_assign_expr k p;
     if assign \<noteq> NULL then
       (let (idnode, p) = with_shell (finsh_node_new_id name) p;
            (new, p) = make_sys_node FINSH_NODE_SYS_ASSIGN idnode assign p
        in if ns \<noteq> [] \<and> lost then None
        else do {
          (t, p) \<leftarrow> finsh_token_token p;
          if new = NULL then Some (ns, True, t, p) else Some (ns @ [new], False, t, p) })
     else Some (ns, lost, t, p) }"

primrec decl_loop :: "nat \<Rightarrow> finsh_type \<Rightarrow> finsh_node list \<Rightarrow> bool \<Rightarrow> finsh_token_type \<Rightarrow> (finsh_node list) parser" where
  "decl_loop 0 type ns lost t p = None"
| "decl_loop (Suc k) type ns lost t p =
     (if t = finsh_token_type_comma then do {
        (name, p) \<leftarrow> proc_declarator type p;
        (t, p) \<leftarrow> finsh_token_token p;
        (ns, lost, t, p) \<leftarrow> (if t = finsh_token_type_assign then decl_assign k name ns lost t p else Some (ns, lost, t, p));
        decl_loop k type ns lost t p }
      else Some (ns, check_token t finsh_token_type_semicolon p))"

definition proc_variable_decl :: "nat \<Rightarrow> (finsh_node list) parser" where
  "proc_variable_decl k p = do {
     (type, p) \<leftarrow> proc_type p;
     (name, p) \<leftarrow> proc_declarator type p;
     (t, p) \<leftarrow> finsh_token_token p;
     if t = finsh_token_type_comma then do {
       (name, p) \<leftarrow> proc_declarator type p;
       (t, p) \<leftarrow> finsh_token_token p;
       (ns, lost, t, p) \<leftarrow> (if t = finsh_token_type_assign then decl_assign k name [] False t p else Some ([], False, t, p));
       decl_loop k type ns lost t p }
     else if t = finsh_token_type_assign then do {
       (ns, lost, t, p) \<leftarrow> decl_assign k name [] False t p;
       decl_loop k type ns lost t p }
     else if t = finsh_token_type_semicolon then Some ([], p)
     else Some ([], set_error FINSH_ERROR_EXPECT_TYPE p) }"

text \<open>
  A statement in the loop of \<^verbatim>\<open>finsh_parser_run\<close>. \<open>root\<close> is the chain of statements and \<open>i\<close> the position of \<^verbatim>\<open>node\<close> in it: what is parsed
  becomes the sibling of that node.
\<close>

definition add_statement :: "finsh_node list \<Rightarrow> nat \<Rightarrow> finsh_node list \<Rightarrow> finsh_node list \<times> nat" where
  "add_statement root i ns = (if root \<noteq> [] then (take (i + 1) root @ ns, if ns \<noteq> [] then i + 1 else i) else (ns, 0))"

definition as_list :: "finsh_node \<Rightarrow> finsh_node list" where
  "as_list n = (if n = NULL then [] else [n])"

definition parser_statement :: "nat \<Rightarrow> finsh_node list \<Rightarrow> nat \<Rightarrow> finsh_token_type \<Rightarrow> finsh_parser \<Rightarrow>
    ((finsh_node list \<times> nat) \<times> finsh_parser) option" where
  "parser_statement k root i t p =
    (if t = finsh_token_type_identifier then do {
       (e, p) \<leftarrow> proc_expr_statement k (finsh_token_replay p);
       Some (add_statement root i (as_list e), p) }
     else if base_type t \<noteq> None \<or> t = finsh_token_type_unsigned then do {
       (ns, p) \<leftarrow> proc_variable_decl k (finsh_token_replay p);
       Some (add_statement root i ns, p) }
     else do {
       (e, p) \<leftarrow> proc_expr_statement k (finsh_token_replay p);
       if root \<noteq> [] \<and> e = NULL then do {
         (_, p) \<leftarrow> finsh_token_token p;
         Some (add_statement root i (as_list e), p) }
       else Some (add_statement root i (as_list e), p) })"

primrec parser_loop :: "nat \<Rightarrow> finsh_node list \<Rightarrow> nat \<Rightarrow> finsh_token_type \<Rightarrow> (finsh_node list) parser" where
  "parser_loop 0 root i t p = None"
| "parser_loop (Suc k) root i t p =
     (if t \<noteq> finsh_token_type_eof \<and> t \<noteq> finsh_token_type_bad then do {
        ((root, i), p) \<leftarrow> parser_statement k root i t p;
        if root = [] then Some (root, p)
        else do {
          (t, p) \<leftarrow> finsh_token_token p;
          parser_loop k root i t p } }
      else Some (root, p))"

text \<open>
  \<open>None\<close> is the result when the fuel \<open>k\<close> is used up, and for what C does not define; the theorems on whole lines say how much fuel is enough.
\<close>

definition finsh_parser_run :: "nat \<Rightarrow> string \<Rightarrow> (finsh_node list) parser" where
  "finsh_parser_run k line p = do {
     (t, p) \<leftarrow> finsh_token_token (finsh_token_init line p);
     parser_loop k [] 0 t p }"

section \<open>A command line\<close>

text \<open>
  The parser and its token are cleared; no line is the empty one. The functions for the shell that follow go with it: \<^verbatim>\<open>finsh_init\<close> and
  \<^verbatim>\<open>finsh_flush\<close> clear the parser too.
\<close>

definition finsh_parser_init :: "finsh_parser \<Rightarrow> finsh_parser" where
  "finsh_parser_init p = finsh_token_init [] p"

lemma parser_init_shell [simp]: "shell (finsh_parser_init p) = shell p"
  by (simp add: finsh_parser_init_def finsh_token_init_def)

definition finsh_init :: "finsh \<Rightarrow> finsh" where
  "finsh_init s = finsh_heap_init (finsh_error_set FINSH_ERROR_OK (finsh_var_init (finsh_node_init s)))"

definition finsh_reset :: "finsh \<Rightarrow> finsh" where
  "finsh_reset s = finsh_heap_init (finsh_error_set FINSH_ERROR_OK (finsh_var_init (finsh_node_init s)))"

definition finsh_flush :: "finsh \<Rightarrow> finsh" where
  "finsh_flush s = finsh_error_set FINSH_ERROR_OK (finsh_node_init s)"

text \<open>The shell prints the message for an error, or the value at the bottom of the stack.\<close>

datatype shell_output = Message u8 | Value u32

text \<open>
  \<^verbatim>\<open>finsh_run_line\<close> of \<^verbatim>\<open>shell.c\<close>. The newline for the echo is left out; the two formats of a value (in decimal and hexadecimal, with the character in front where its low
  byte is a printable one) are one \<open>Value\<close>, and the text of an error is one \<open>Message\<close> with its number.
\<close>

definition finsh_run_line :: "nat \<Rightarrow> syscalls \<Rightarrow> string \<Rightarrow> finsh_parser \<Rightarrow> (shell_output list \<times> finsh_parser) option" where
  "finsh_run_line k sys line p = do {
     (root, p) \<leftarrow> finsh_parser_run k line p;
     (out, s) \<leftarrow>
       (if global_errno (shell p) = FINSH_ERROR_OK then do { s \<leftarrow> finsh_compiler_run (chain root) (shell p); Some ([], s) }
        else Some ([Message (global_errno (shell p))], shell p));
     (out, s) \<leftarrow>
       (if global_errno s = FINSH_ERROR_OK then do { s \<leftarrow> finsh_vm_run sys s; Some (out @ [Value (finsh_stack_bottom s)], s) }
        else Some (out, s));
     Some (out, finsh_parser_init (p\<lparr>shell := finsh_flush s\<rparr>)) }"

end
