(* ===== verification/RT_Finsh_Line.thy ===== *)
theory RT_Finsh_Line
  imports RT_Finsh_Parser
begin

text \<open>
  Command lines of the finsh shell: the text of a list of commands (\<open>line_of\<close>), and the proof that the parser makes their trees from it, and so
  that the shell prints the value of the command.
\<close>

section \<open>The lexer\<close>

datatype lexeme = Name string | Keyword string | Number nat | Sym finsh_token_type

fun sym_text :: "finsh_token_type \<Rightarrow> string" where
  "sym_text finsh_token_type_left_paren = ''(''" | "sym_text finsh_token_type_right_paren = '')''" | "sym_text finsh_token_type_comma = '',''"
| "sym_text finsh_token_type_semicolon = '';''" | "sym_text finsh_token_type_mul = ''*''" | "sym_text finsh_token_type_add = ''+''"
| "sym_text finsh_token_type_inc = ''++''" | "sym_text finsh_token_type_sub = ''-''" | "sym_text finsh_token_type_dec = ''--''"
| "sym_text finsh_token_type_div = ''/''" | "sym_text finsh_token_type_mod = ''%''" | "sym_text finsh_token_type_assign = ''=''"
| "sym_text finsh_token_type_and = ''&''" | "sym_text finsh_token_type_or = ''|''" | "sym_text finsh_token_type_xor = ''^''"
| "sym_text finsh_token_type_bitwise = ''~''" | "sym_text finsh_token_type_shl = ''<<''" | "sym_text finsh_token_type_shr = ''>>''"
| "sym_text _ = []"

definition digit_char :: "nat \<Rightarrow> char" where
  "digit_char d = char_of (48 + d)"

fun decimal :: "nat \<Rightarrow> string" where
  "decimal n = (if n < 10 then [digit_char n] else decimal (n div 10) @ [digit_char (n mod 10)])"

declare decimal.simps [simp del]

fun lexeme_text :: "lexeme \<Rightarrow> string" where
  "lexeme_text (Name w) = w"
| "lexeme_text (Keyword w) = w"
| "lexeme_text (Number n) = decimal n"
| "lexeme_text (Sym t) = sym_text t"

definition is_name :: "string \<Rightarrow> bool" where
  "is_name w \<longleftrightarrow> w \<noteq> [] \<and> list_all (\<lambda>c. \<not> is_separator c) w \<and> \<not> is_digit (hd w) \<and> token_match_name w = None \<and> length w \<le> FINSH_NAME_MAX"

definition is_word :: "string \<Rightarrow> bool" where
  "is_word w \<longleftrightarrow> w \<noteq> [] \<and> list_all (\<lambda>c. \<not> is_separator c) w \<and> \<not> is_digit (hd w) \<and> length w \<le> FINSH_NAME_MAX"

lemma is_name_word: "is_name w \<longleftrightarrow> is_word w \<and> token_match_name w = None"
  by (auto simp: is_name_def is_word_def)

fun lexeme_ok :: "lexeme \<Rightarrow> bool" where
  "lexeme_ok (Name w) \<longleftrightarrow> is_name w"
| "lexeme_ok (Keyword w) \<longleftrightarrow> is_word w \<and> token_match_name w \<noteq> None"
| "lexeme_ok (Number n) \<longleftrightarrow> True"
| "lexeme_ok (Sym t) \<longleftrightarrow> sym_text t \<noteq> []"

text \<open>Every lexeme has a blank in front of it.\<close>

definition text_of :: "lexeme list \<Rightarrow> string" where
  "text_of ls = concat (map (\<lambda>l. CHR '' '' # lexeme_text l) ls)"

fun lexeme_token :: "lexeme \<Rightarrow> finsh_token_type" where
  "lexeme_token (Name w) = finsh_token_type_identifier"
| "lexeme_token (Keyword w) = the (token_match_name w)"
| "lexeme_token (Number n) = finsh_token_type_value_int"
| "lexeme_token (Sym t) = t"

fun current :: "finsh_parser \<Rightarrow> lexeme \<Rightarrow> bool" where
  "current p (Name w) \<longleftrightarrow> tok_current p = finsh_token_type_identifier \<and> c_string (tok_string p) = w"
| "current p (Keyword w) \<longleftrightarrow> tok_current p = the (token_match_name w)"
| "current p (Number n) \<longleftrightarrow> tok_current p = finsh_token_type_value_int \<and> tok_value p = of_nat n"
| "current p (Sym t) \<longleftrightarrow> tok_current p = t"

text \<open>The text that the lexer has in front of it.\<close>

definition ahead :: "finsh_parser \<Rightarrow> string \<Rightarrow> bool" where
  "ahead p cs \<longleftrightarrow> \<not> tok_eof p \<and> tok_position p \<le> length (tok_line p) \<and> drop (tok_position p) (tok_line p) = cs \<and> length (tok_string p) = FINSH_STRING_MAX"

definition adv :: "nat \<Rightarrow> finsh_parser \<Rightarrow> finsh_parser" where
  "adv n p = p\<lparr>tok_position := tok_position p + n\<rparr>"

lemma adv_simps [simp]: "adv n (adv m p) = adv (m + n) p" "adv 0 p = p" "tok_string (adv n p) = tok_string p" "tok_eof (adv n p) = tok_eof p"
    "shell (adv n p) = shell p" "tok_replay (adv n p) = tok_replay p" "tok_position (adv n p) = tok_position p + n" "tok_line (adv n p) = tok_line p"
  by (simp_all add: adv_def add.assoc)

lemma adv_frame [simp]: "adv n (p\<lparr>tok_string := b\<rparr>) = (adv n p)\<lparr>tok_string := b\<rparr>"
  by (simp add: adv_def)

lemma ahead_frame [simp]:
  "ahead (p\<lparr>shell := s\<rparr>) cs = ahead p cs" "ahead (p\<lparr>tok_replay := r\<rparr>) cs = ahead p cs" "ahead (p\<lparr>tok_current := t\<rparr>) cs = ahead p cs"
  "ahead (p\<lparr>tok_value := v\<rparr>) cs = ahead p cs"
  "length b = FINSH_STRING_MAX \<Longrightarrow> ahead p cs \<Longrightarrow> ahead (p\<lparr>tok_string := b\<rparr>) cs"
  by (simp_all add: ahead_def)

lemma ahead_adv:
  assumes "ahead p (cs @ ds)"
  shows "ahead (adv (length cs) p) ds"
proof -
  have d: "drop (tok_position p) (tok_line p) = cs @ ds" "tok_position p \<le> length (tok_line p)" using assms by (simp_all add: ahead_def)
  have "length (tok_line p) - tok_position p = length cs + length ds" using arg_cong [OF d(1), of length] by simp
  moreover have "drop (tok_position p + length cs) (tok_line p) = ds"
    by (simp add: add.commute [of "tok_position p"] drop_drop [symmetric] d(1) del: drop_drop)
  ultimately show ?thesis using assms d(2) by (simp add: ahead_def)
qed

lemma ahead_Cons: "ahead p (c # cs) \<Longrightarrow> ahead (adv 1 p) cs"
  using ahead_adv [of p "[c]" cs] by simp

lemma next_char:
  assumes "ahead p (c # cs)" "c \<noteq> CHR 0x0A"
  shows "token_next_char p = (c, adv 1 p)"
proof -
  have "drop (tok_position p) (tok_line p) = c # cs" using assms by (simp add: ahead_def)
  then have "tok_line p ! tok_position p = c" "tok_position p < length (tok_line p)"
    by (metis nth_via_drop, metis drop_eq_Nil list.distinct(1) not_le)
  then show ?thesis using assms by (simp add: ahead_def token_next_char_def adv_def)
qed

lemma next_char_end: "ahead p [] \<Longrightarrow> token_next_char p = (NUL, p\<lparr>tok_eof := True, tok_position := 0\<rparr>)"
  by (auto simp: ahead_def token_next_char_def)

lemma prev_char: "\<not> tok_eof p \<Longrightarrow> token_prev_char (adv (Suc n) p) = adv n p"
  by (simp add: token_prev_char_def adv_def)

lemma ahead_eof: "ahead p cs \<Longrightarrow> \<not> tok_eof p"
  by (simp add: ahead_def)

definition blank :: "char \<Rightarrow> bool" where
  "blank c \<longleftrightarrow> c = CHR '' '' \<or> c = CHR 0x09 \<or> c = CHR 0x0D"

lemma trim_blank:
  assumes "ahead p (CHR '' '' # c # cs)" "\<not> blank c" "c \<noteq> CHR 0x0A"
  shows "token_trim_space p = Some (adv 1 p)"
proof -
  have a: "ahead (adv 1 p) (c # cs)" by (rule ahead_Cons [OF assms(1)])
  have 1: "token_next_char p = (CHR '' '', adv 1 p)" using next_char [OF assms(1)] by simp
  have 2: "token_next_char (adv 1 p) = (c, adv 2 p)" using next_char [OF a assms(3)] by (simp add: numeral_2_eq_2)
  have "trim_loop p = Some (adv 2 p)"
    using assms(2) by (subst trim_loop.simps) (simp add: 1 blank_def, subst trim_loop.simps, simp add: 2 [simplified] blank_def)
  then show ?thesis using prev_char [of p 1] ahead_eof [OF assms(1)] by (simp add: token_trim_space_def numeral_2_eq_2)
qed

lemma trim_end:
  assumes "ahead p []"
  shows "token_trim_space p = Some (p\<lparr>tok_eof := True, tok_position := 0\<rparr>)"
  unfolding token_trim_space_def by (subst trim_loop.simps) (simp add: next_char_end [OF assms] token_prev_char_def)

subsection \<open>Names\<close>

fun put_all :: "nat \<Rightarrow> string \<Rightarrow> string \<Rightarrow> string" where
  "put_all i [] b = b"
| "put_all i (c # cs) b = put_all (Suc i) cs (b[i := c])"

lemma length_put_all [simp]: "length (put_all i cs b) = length b"
  by (induction i cs b rule: put_all.induct) auto

lemma put_all_take: "i + length cs \<le> length b \<Longrightarrow> take (i + length cs) (put_all i cs b) = take i b @ cs"
proof (induction i cs b rule: put_all.induct)
  case (2 i c cs b)
  then show ?case by (simp add: take_Suc_conv_app_nth)
qed simp

lemma name_loop_run:
  assumes "ahead p (w @ c # cs)" "list_all (\<lambda>c. \<not> is_separator c) (ch # w)" "is_separator c" "c \<noteq> CHR 0x0A" "i + length w < FINSH_STRING_MAX"
  shows "name_loop ch i p = Some (i + Suc (length w), (adv (Suc (length w)) p)\<lparr>tok_string := put_all i (ch # w) (tok_string p)\<rparr>)"
  using assms
proof (induction w arbitrary: ch i p)
  case Nil
  have n: "token_next_char (p\<lparr>tok_string := (tok_string p)[i := ch]\<rparr>) = (c, (adv 1 p)\<lparr>tok_string := (tok_string p)[i := ch]\<rparr>)"
    using Nil.prems by (subst next_char [of _ c cs]) (auto simp: ahead_def)
  show ?case using Nil.prems
    by (subst name_loop.simps) (simp add: ahead_eof put_string_at_def n, subst name_loop.simps, simp)
next
  case (Cons d w)
  let ?p = "p\<lparr>tok_string := (tok_string p)[i := ch]\<rparr>"
  have a: "ahead ?p (d # (w @ c # cs))" using Cons.prems(1) by (simp add: ahead_def)
  have d: "d \<noteq> CHR 0x0A" using Cons.prems(2) by (auto simp: is_separator_def)
  have n: "token_next_char ?p = (d, adv 1 ?p)" by (rule next_char [OF a d])
  have "name_loop d (Suc i) (adv 1 ?p) = Some (Suc i + Suc (length w), (adv (Suc (length w)) (adv 1 ?p))\<lparr>tok_string := put_all (Suc i) (d # w) (tok_string (adv 1 ?p))\<rparr>)"
    using Cons.prems by (intro Cons.IH [OF ahead_Cons [OF a]]) simp_all
  then show ?case using Cons.prems
    by (subst name_loop.simps) (simp add: ahead_eof put_string_at_def n)
qed

lemma get_name:
  assumes "ahead p (w @ c # cs)" "is_word w" "is_separator c" "c \<noteq> CHR 0x0A"
  shows "\<exists>b. token_get_string p = Some ((adv (length w) p)\<lparr>tok_string := b\<rparr>) \<and> length b = FINSH_STRING_MAX \<and> c_string b = w \<and> b ! 0 \<noteq> NUL"
proof -
  obtain ch v where w: "w = ch # v" using assms(2) by (cases w) (auto simp: is_word_def)
  have n: "list_all (\<lambda>c. \<not> is_separator c) (ch # v)" "\<not> is_digit ch" "length v < 16" using assms(2) w by (auto simp: is_word_def)
  have p: "ahead p (ch # (v @ c # cs))" "length (tok_string p) = FINSH_STRING_MAX" using assms(1) w by (simp_all add: ahead_def)
  have nl: "ch \<noteq> CHR 0x0A" using n(1) by (auto simp: is_separator_def)
  let ?buf = "(tok_string p)[0 := NUL]" and ?p = "(adv 1 p)\<lparr>tok_string := (tok_string p)[0 := NUL]\<rparr>"
  have "ahead ?p (v @ c # cs)" using ahead_Cons [OF p(1)] p(2) by simp
  then have l: "name_loop ch 0 ?p = Some (Suc (length v), (adv (Suc (length v)) ?p)\<lparr>tok_string := put_all 0 w ?buf\<rparr>)"
    using name_loop_run [of ?p v c cs ch 0] assms n w by simp
  let ?b = "(put_all 0 w ?buf)[length w := NUL]"
  have e: "token_prev_char ((adv (Suc (Suc (length v))) p)\<lparr>tok_string := b, tok_eof := False\<rparr>) = (adv (length w) p)\<lparr>tok_string := b\<rparr>" for b
    using ahead_eof [OF p(1)] w by (cases p) (simp add: adv_def token_prev_char_def)
  have "token_get_string p = Some ((adv (length w) p)\<lparr>tok_string := ?b\<rparr>)"
    using ahead_eof [OF p(1)] n(2,3) l w
    by (simp add: token_get_string_def next_char [OF p(1) nl] put_string_at_def e prev_char)
  moreover have t: "take (length w) (put_all 0 w ?buf) = w" using put_all_take [of 0 w ?buf] n(3) p(2) w by simp
  moreover have "c_string ?b = w"
  proof -
    have "length w < length (put_all 0 w ?buf)" using n(3) p(2) w by simp
    then have "?b = w @ NUL # drop (Suc (length w)) (put_all 0 w ?buf)" by (simp only: upd_conv_take_nth_drop t)
    moreover have "list_all (\<lambda>c. c \<noteq> NUL) w" using n(1) w by (auto simp: list_all_iff is_separator_def)
    ultimately show ?thesis by (simp only: c_string_def) (simp add: list_all_iff takeWhile_append)
  qed
  moreover have "?b ! 0 \<noteq> NUL"
  proof -
    have "?b ! 0 = put_all 0 w ?buf ! 0" using w by simp
    also have "\<dots> = ch" using arg_cong [OF t, of "\<lambda>l. l ! 0"] w by simp
    finally show ?thesis using n(1) by (auto simp: is_separator_def)
  qed
  ultimately show ?thesis using p(2) by (intro exI [of _ ?b]) simp
qed

lemma get_no_name:
  assumes "ahead p (c # cs)" "is_separator c \<or> is_digit c" "c \<noteq> CHR 0x0A"
  shows "token_get_string p = Some (p\<lparr>tok_string := (tok_string p)[0 := NUL]\<rparr>)"
proof -
  have e: "\<not> tok_eof p" by (rule ahead_eof [OF assms(1)])
  have eq: "token_prev_char ((adv (Suc 0) p)\<lparr>tok_string := b, tok_eof := False\<rparr>) = p\<lparr>tok_string := b\<rparr>" for b
    using e by (cases p) (simp add: token_prev_char_def adv_def)
  have eq': "token_prev_char ((adv (Suc 0) p)\<lparr>tok_string := b\<rparr>) = p\<lparr>tok_string := b\<rparr>" for b
    using e by (cases p) (simp add: token_prev_char_def adv_def)
  show ?thesis using assms e
    by (auto simp: token_get_string_def next_char [OF assms(1,3)] put_string_at_def name_loop.simps eq eq')
qed

subsection \<open>Numbers\<close>

lemma of_digit_char: "d < 10 \<Longrightarrow> of_char (digit_char d) = (48 + d :: nat)"
  by (simp add: digit_char_def)

lemma is_digit_char: "d < 10 \<Longrightarrow> is_digit (digit_char d)"
  by (simp add: is_digit_def of_digit_char)

lemma decimal_digits: "list_all is_digit (decimal n)" "decimal n \<noteq> []"
  by (induction n rule: decimal.induct; subst decimal.simps; simp add: is_digit_char)+

fun dec_value :: "u32 \<Rightarrow> string \<Rightarrow> u32" where
  "dec_value v [] = v"
| "dec_value v (c # cs) = dec_value (v * 10 + (of_char c - 48)) cs"

lemma dec_value_append: "dec_value v (cs @ ds) = dec_value (dec_value v cs) ds"
  by (induction v cs rule: dec_value.induct) auto

lemma of_char_u32: "(of_char c :: u32) = of_nat (of_char c)"
  by (simp add: of_char_def)

lemma dec_value_decimal: "dec_value 0 (decimal n) = of_nat n"
proof (induction n rule: decimal.induct)
  case (1 n)
  have d: "(of_char (digit_char d) :: u32) - 48 = of_nat d" if "d < 10" for d
    using that by (simp add: of_char_u32 of_digit_char)
  show ?case
  proof (cases "n < 10")
    case True
    then show ?thesis by (subst decimal.simps) (simp add: d)
  next
    case False
    have "(of_nat n :: u32) = of_nat (n div 10 * 10 + n mod 10)" by simp
    also have "\<dots> = of_nat (n div 10) * 10 + of_nat (n mod 10)" by (simp only: of_nat_add of_nat_mult) simp
    finally show ?thesis using False 1 by (subst decimal.simps) (simp add: dec_value_append d)
  qed
qed

lemma decimal_head: "hd (decimal n) = CHR ''0'' \<longleftrightarrow> n = 0"
proof (induction n rule: decimal.induct)
  case (1 n)
  have z: "digit_char d = CHR ''0'' \<longleftrightarrow> d = 0" if "d < 10" for d
  proof
    assume "digit_char d = CHR ''0''"
    then show "d = 0" using of_digit_char [OF that] by simp
  qed (simp add: digit_char_def char_of_eq_iff)
  show ?case
  proof (cases "n < 10")
    case False
    then have "hd (decimal n) = hd (decimal (n div 10))" by (subst decimal.simps) (simp add: decimal_digits)
    then show ?thesis using 1 False by auto
  qed (subst decimal.simps, simp add: z)
qed

lemma decimal_0: "decimal 0 = ''0''"
  by (simp add: decimal.simps digit_char_def char_of_eq_iff)

lemma decimal_loop_run:
  assumes "ahead p (ds @ c # cs)" "list_all is_digit (ch # ds)" "\<not> is_digit c" "c \<noteq> CHR 0x0A"
  shows "decimal_loop ch v p = Some (dec_value v (ch # ds), c, adv (Suc (length ds)) p)"
  using assms
proof (induction ds arbitrary: ch v p)
  case Nil
  then show ?case using next_char [of p c cs]
    by (subst decimal_loop.simps) (simp, subst decimal_loop.simps, simp)
next
  case (Cons d ds)
  have d: "d \<noteq> CHR 0x0A" using Cons.prems(2) by (auto simp: is_digit_def)
  have a: "ahead p (d # (ds @ c # cs))" using Cons.prems(1) by simp
  have "decimal_loop d (v * 10 + (of_char ch - 48)) (adv 1 p) = Some (dec_value (v * 10 + (of_char ch - 48)) (d # ds), c, adv (Suc (length ds)) (adv 1 p))"
    using Cons.prems by (intro Cons.IH [OF ahead_Cons [OF a]]) simp_all
  then show ?case using Cons.prems by (subst decimal_loop.simps) (simp add: next_char [OF a d])
qed

subsection \<open>Tokens\<close>

text \<open>What may follow a lexeme: a blank, or nothing after the last semicolon.\<close>

fun followed :: "lexeme \<Rightarrow> string \<Rightarrow> bool" where
  "followed l [] \<longleftrightarrow> l = Sym finsh_token_type_semicolon"
| "followed l (c # cs) \<longleftrightarrow> c = CHR '' ''"

text \<open>The lexer has read the lexeme \<open>l\<close> and has \<open>cs\<close> ahead; nothing else of the shell has changed.\<close>

definition lexed :: "finsh_parser \<Rightarrow> lexeme \<Rightarrow> string \<Rightarrow> finsh_parser \<Rightarrow> bool" where
  "lexed p l cs p' \<longleftrightarrow> current p' l \<and> ahead p' cs \<and> shell p' = shell p \<and> tok_replay p' = tok_replay p"

lemma number_run:
  assumes "ahead p (decimal n @ CHR '' '' # cs)"
  shows "\<exists>p'. token_proc_number p = Some p' \<and> lexed p (Number n) (CHR '' '' # cs) p'"
proof -
  obtain ch ds where d: "decimal n = ch # ds" using decimal_digits(2) [of n] by (cases "decimal n") auto
  have dig: "is_digit ch" "list_all is_digit (ch # ds)" using decimal_digits(1) [of n] d by simp_all
  have a: "ahead p (ch # (ds @ CHR '' '' # cs))" using assms d by simp
  have nl: "ch \<noteq> CHR 0x0A" using dig(1) by (auto simp: is_digit_def)
  have b: "\<not> is_digit CHR '' ''" by (simp add: is_digit_def)
  show ?thesis
  proof (cases "n = 0")
    case True
    then have z: "ch = CHR ''0''" "ds = []" using d by (simp_all add: decimal_0)
    have "token_next_char (adv (Suc 0) p) = (CHR '' '', adv (Suc (Suc 0)) p)"
      using next_char [OF ahead_Cons [OF a, unfolded z(2) append_Nil]] by simp
    moreover have "ahead (adv 1 p) (CHR '' '' # cs)" using ahead_Cons [OF a] z(2) by simp
    ultimately show ?thesis using next_char [OF a nl] z True prev_char [OF ahead_eof [OF a], of "Suc 0"]
      by (simp add: token_proc_number_def lexed_def)
  next
    case False
    then have "ch \<noteq> CHR ''0''" using decimal_head [of n] d by simp
    then have "token_proc_number p = Some (number_suffix CHR '' '' (of_nat n) (adv (Suc (Suc (length ds))) p))"
      using decimal_loop_run [OF ahead_Cons [OF a] dig(2) b, of 0] dec_value_decimal [of n] d
      by (simp add: token_proc_number_def next_char [OF a nl])
    moreover have "ahead (adv (Suc (length ds)) p) (CHR '' '' # cs)" using ahead_adv [OF assms] d by simp
    moreover have "number_suffix CHR '' '' v (adv (Suc (Suc (length ds))) p) = (adv (Suc (length ds)) p)\<lparr>tok_value := v, tok_current := finsh_token_type_value_int\<rparr>" for v
      using ahead_eof [OF a] by (cases p) (simp add: number_suffix_def token_prev_char_def adv_def)
    ultimately show ?thesis by (simp add: lexed_def)
  qed
qed

lemma one_or_two_run:
  assumes "ahead p (CHR '' '' # cs)" "c \<noteq> CHR '' ''"
  shows "one_or_two c t2 t1 p = set_token t1 p"
  using next_char [OF assms(1)] prev_char [OF ahead_eof [OF assms(1)], of 0] assms(2) by (simp add: one_or_two_def)

lemma one_or_two_run2: "ahead p (c # cs) \<Longrightarrow> c \<noteq> CHR 0x0A \<Longrightarrow> one_or_two c t2 t1 p = set_token t2 (adv 1 p)"
  using next_char [of p c cs] by (simp add: one_or_two_def)

lemma lexed_set_token: "ahead p cs \<Longrightarrow> lexed p (Sym t) cs (set_token t p)"
  by (simp add: lexed_def set_token_def)

lemma operator_run:
  assumes "ahead p (sym_text t @ cs)" "sym_text t \<noteq> []" "followed (Sym t) cs"
  shows "\<exists>p'. token_operator p = Some p' \<and> lexed p (Sym t) cs p'"
proof -
  obtain c ds where c: "sym_text t = c # ds" using assms(2) by (cases "sym_text t") auto
  have a: "ahead p (c # (ds @ cs))" using assms(1) c by simp
  have nl: "c \<noteq> CHR 0x0A" using c by (cases t) auto
  note n = next_char [OF a nl] ahead_Cons [OF a]
  have l: "lexed p l cs p'" if "lexed (adv k p) l cs p'" for l p' k using that by (simp add: lexed_def)
  show ?thesis
  proof (cases "ds = []")
    case True
    then have a1: "ahead (adv 1 p) cs" using n(2) by simp
    have o: "one_or_two x t2 t1 (adv 1 p) = set_token t1 (adv 1 p)" if "t \<noteq> finsh_token_type_semicolon" "x \<noteq> CHR '' ''" for x t2 t1
      using assms(3) a1 that by (cases cs) (simp_all add: one_or_two_run)
    have "token_operator p = Some (set_token t (adv 1 p))"
    proof (cases "t = finsh_token_type_semicolon")
      case True
      then show ?thesis using c n(1) by (auto simp: token_operator_def)
    next
      case not_semicolon: False
      have "c = hd (sym_text t)" "tl (sym_text t) = []" using c True by simp_all
      then show ?thesis unfolding token_operator_def n(1) prod.case
        using not_semicolon assms(2) by (cases t; simp add: o [OF not_semicolon] del: One_nat_def)
    qed
    then show ?thesis using l [OF lexed_set_token [OF a1]] by simp
  next
    case False
    then obtain d where d: "ds = [d]" "d \<noteq> CHR 0x0A" using c by (cases t) auto
    have a1: "ahead (adv 1 p) (d # cs)" using n(2) d by simp
    have a2: "ahead (adv 2 p) cs" using ahead_Cons [OF a1] by (simp add: numeral_2_eq_2)
    have "token_operator p = Some (set_token t (adv 2 p))"
    proof -
      have "c = hd (sym_text t)" "tl (sym_text t) \<noteq> []" "d = hd (tl (sym_text t))" using c d(1) by simp_all
      then show ?thesis unfolding token_operator_def n(1) prod.case
        using one_or_two_run2 [OF a1 d(2)] by (cases t; simp add: numeral_2_eq_2)
    qed
    then show ?thesis using l [OF lexed_set_token [OF a2]] by simp
  qed
qed

lemma digit_no_operator: "is_digit c \<Longrightarrow> c \<notin> set ''(),;&*+-/<>|%~^='' \<and> c \<noteq> CHR 0x27 \<and> c \<noteq> CHR 0x22"
  by (auto simp: is_digit_def)

lemma lexeme_start:
  assumes "lexeme_ok l"
  obtains c ds where "lexeme_text l = c # ds" "\<not> blank c" "c \<noteq> CHR 0x0A" "(\<exists>w. l = Name w \<or> l = Keyword w) \<or> is_separator c \<or> is_digit c"
proof (cases l)
  case (Name w)
  then obtain c v where w: "w = c # v" "\<not> is_separator c" using assms by (cases w) (auto simp: is_name_def)
  have "\<not> blank c" "c \<noteq> CHR 0x0A" using w(2) by (auto simp: blank_def is_separator_def)
  then show ?thesis using that [of c v] Name w by simp
next
  case (Keyword w)
  then obtain c v where w: "w = c # v" "\<not> is_separator c" using assms by (cases w) (auto simp: is_word_def)
  have "\<not> blank c" "c \<noteq> CHR 0x0A" using w(2) by (auto simp: blank_def is_separator_def)
  then show ?thesis using that [of c v] Keyword w by simp
next
  case (Number n)
  then obtain c v where d: "decimal n = c # v" "is_digit c" using decimal_digits [of n] by (cases "decimal n") auto
  then have "\<not> blank c" "c \<noteq> CHR 0x0A" by (auto simp: blank_def is_digit_def)
  then show ?thesis using that [of c v] Number d by simp
next
  case (Sym t)
  then show ?thesis using assms that by (cases t) (auto simp: blank_def is_separator_def Let_def)
qed

lemma token_run_lexeme:
  assumes "ahead p (CHR '' '' # lexeme_text l @ cs)" "lexeme_ok l" "followed l cs"
  shows "\<exists>p'. token_run p = Some p' \<and> lexed p l cs p'"
proof -
  obtain c ds where c: "lexeme_text l = c # ds" "\<not> blank c" "c \<noteq> CHR 0x0A" "(\<exists>w. l = Name w \<or> l = Keyword w) \<or> is_separator c \<or> is_digit c"
    by (rule lexeme_start [OF assms(2)])
  have trim: "token_trim_space p = Some (adv 1 p)" using trim_blank [of p c "ds @ cs"] assms(1) c by simp
  have a: "ahead (adv 1 p) (lexeme_text l @ cs)" by (rule ahead_Cons [OF assms(1)])
  show ?thesis
  proof (cases "\<exists>w. l = Name w \<or> l = Keyword w")
    case True
    then obtain w where w: "l = Name w \<or> l = Keyword w" "is_word w" "lexeme_text l = w" using assms(2) by (auto simp: is_name_word)
    then obtain es where e: "cs = CHR '' '' # es" using assms(3) by (cases cs) auto
    obtain b where b: "token_get_string (adv 1 p) = Some ((adv (length w) (adv 1 p))\<lparr>tok_string := b\<rparr>)" "length b = FINSH_STRING_MAX" "c_string b = w" "b ! 0 \<noteq> NUL"
      using get_name [of "adv 1 p" w "CHR '' ''" es] a w e by (auto simp: is_separator_def)
    have "ahead (adv (length w) (adv 1 p)) cs" using ahead_adv [of "adv 1 p" w cs] a w by simp
    then show ?thesis using trim b w(1) assms(2) ahead_eof [OF a]
      by (auto simp: token_run_def lexed_def set_token_def is_name_word)
  next
    case False
    let ?p = "(adv 1 p)\<lparr>tok_string := (tok_string p)[0 := NUL]\<rparr>"
    have len: "length (tok_string p) = FINSH_STRING_MAX" using assms(1) by (simp add: ahead_def)
    have g: "token_get_string (adv 1 p) = Some ?p" using get_no_name [of "adv 1 p" c "ds @ cs"] a c False by simp
    have ap: "ahead ?p (lexeme_text l @ cs)" using a len by simp
    have run: "token_run p = token_operator ?p" using trim g ahead_eof [OF assms(1)] len by (simp add: token_run_def)
    have l: "lexed p l cs p'" if "lexed ?p l cs p'" for p' using that by (simp add: lexed_def)
    show ?thesis
    proof (cases l)
      case (Sym t)
      then show ?thesis using operator_run [of ?p t cs] ap assms(2,3) run l by auto
    next
      case (Number n)
      then obtain es where e: "cs = CHR '' '' # es" using assms(3) by (cases cs) auto
      have dig: "is_digit c" using decimal_digits(1) [of n] c(1) Number by simp
      have ap': "ahead ?p (c # (ds @ cs))" using ap c by simp
      have again: "token_prev_char (adv 1 ?p) = ?p" using prev_char [OF ahead_eof [OF ap], of 0] by simp
      have "token_operator ?p = token_proc_number (token_prev_char (adv 1 ?p))"
        unfolding token_operator_def next_char [OF ap' c(3)] prod.case using dig digit_no_operator [OF dig] by simp
      then have r: "token_run p = token_proc_number ?p" unfolding again run .
      from number_run [OF ap [unfolded Number lexeme_text.simps e]]
      obtain p' where "token_proc_number ?p = Some p' \<and> lexed ?p (Number n) (CHR '' '' # es) p'" ..
      then show ?thesis unfolding r using l [unfolded e Number, of p'] unfolding e Number by blast
    qed (use False in auto)
  qed
qed

lemma token_run_end:
  assumes "ahead p []"
  shows "\<exists>p'. token_run p = Some p' \<and> tok_current p' = finsh_token_type_eof \<and> shell p' = shell p"
  using assms by (simp add: token_run_def trim_end token_get_string_def token_next_char_def set_token_def)

section \<open>The stream of lexemes\<close>

text \<open>The lexemes that \<^verbatim>\<open>finsh_token_token\<close> will deliver; the first one may have been put back.\<close>

fun line_ok :: "lexeme list \<Rightarrow> bool" where
  "line_ok [] \<longleftrightarrow> True"
| "line_ok [l] \<longleftrightarrow> l = Sym finsh_token_type_semicolon"
| "line_ok (l # ls) \<longleftrightarrow> lexeme_ok l \<and> line_ok ls"

definition stream :: "finsh_parser \<Rightarrow> lexeme list \<Rightarrow> bool" where
  "stream p ls \<longleftrightarrow> (if tok_replay p then (case ls of [] \<Rightarrow> False | l # ls \<Rightarrow> current p l \<and> ahead p (text_of ls) \<and> line_ok ls)
     else ahead p (text_of ls) \<and> line_ok ls)"

text \<open>The lexeme \<open>l\<close> has just been delivered.\<close>

definition taken :: "finsh_parser \<Rightarrow> lexeme \<Rightarrow> lexeme list \<Rightarrow> bool" where
  "taken p l ls \<longleftrightarrow> \<not> tok_replay p \<and> current p l \<and> ahead p (text_of ls) \<and> line_ok ls"

lemma current_frame [simp]: "current (p\<lparr>shell := s\<rparr>) l = current p l" "current (p\<lparr>tok_replay := r\<rparr>) l = current p l"
  by (cases l; simp)+

lemma stream_shell [simp]: "stream (p\<lparr>shell := s\<rparr>) ls = stream p ls" "taken (p\<lparr>shell := s\<rparr>) l ls = taken p l ls"
  by (simp_all add: stream_def taken_def split: list.split)

lemma taken_stream: "taken p l ls \<Longrightarrow> stream p ls" "taken p l ls \<Longrightarrow> stream (finsh_token_replay p) (l # ls)"
  by (simp_all add: stream_def taken_def finsh_token_replay_def)

lemma taken_token: "taken p l ls \<Longrightarrow> tok_current p = lexeme_token l"
  by (cases l) (auto simp: taken_def)

lemma replay_shell [simp]: "shell (finsh_token_replay p) = shell p"
  by (simp add: finsh_token_replay_def)

lemma next_lexeme:
  assumes "stream p (l # ls)"
  obtains p' where "finsh_token_token p = Some (lexeme_token l, p')" "taken p' l ls" "shell p' = shell p"
proof (cases "tok_replay p")
  case True
  then have "taken (p\<lparr>tok_replay := False\<rparr>) l ls" using assms by (simp add: stream_def taken_def)
  then show ?thesis using that [of "p\<lparr>tok_replay := False\<rparr>"] True taken_token [of "p\<lparr>tok_replay := False\<rparr>"] by (simp add: finsh_token_token_def)
next
  case False
  then have a: "ahead p (CHR '' '' # lexeme_text l @ text_of ls)" "line_ok (l # ls)" using assms by (simp_all add: stream_def text_of_def)
  have f: "followed l (text_of ls)" using a(2) by (cases ls) (simp_all add: text_of_def)
  have "lexeme_ok l" "line_ok ls" using a(2) by (cases ls; auto)+
  then obtain p' where p': "token_run p = Some p'" "lexed p l (text_of ls) p'" using token_run_lexeme [OF a(1) _ f] by auto
  then have "taken p' l ls" using False \<open>line_ok ls\<close> by (simp add: taken_def lexed_def)
  then show ?thesis using that [of p'] p' False taken_token [of p'] by (simp add: finsh_token_token_def lexed_def)
qed

lemma next_end:
  assumes "stream p []"
  obtains p' where "finsh_token_token p = Some (finsh_token_type_eof, p')" "shell p' = shell p"
proof -
  have "\<not> tok_replay p" "ahead p []" using assms by (auto simp: stream_def text_of_def split: if_splits)
  then show ?thesis using token_run_end [of p] that by (auto simp: finsh_token_token_def)
qed

end
