(* ===== verification/RT_Finsh_Grammar.thy ===== *)
theory RT_Finsh_Grammar
  imports RT_Finsh_Line
begin

text \<open>
  How commands are written (\<open>lexemes\<close>), and the proof that the parser of the finsh shell makes the tree of a command from its text, and
  that the shell prints its value. As parentheses do not work, only commands that need none can be written (\<open>fits\<close>).
\<close>

section \<open>The text of a command\<close>

fun op_token :: "bin_op \<Rightarrow> finsh_token_type" where
  "op_token Add = finsh_token_type_add" | "op_token Sub = finsh_token_type_sub" | "op_token Mul = finsh_token_type_mul"
| "op_token Div = finsh_token_type_div" | "op_token Mod = finsh_token_type_mod" | "op_token And = finsh_token_type_and"
| "op_token Or = finsh_token_type_or" | "op_token Xor = finsh_token_type_xor" | "op_token Shl = finsh_token_type_shl"
| "op_token Shr = finsh_token_type_shr"

fun op_level :: "bin_op \<Rightarrow> nat" where
  "op_level Or = 1" | "op_level Xor = 2" | "op_level And = 3" | "op_level Shl = 4" | "op_level Shr = 4"
| "op_level Add = 5" | "op_level Sub = 5" | "op_level Mul = 6" | "op_level Div = 6" | "op_level Mod = 6"

text \<open>\<^verbatim>\<open>- e\<close> is the difference of a zero \<^verbatim>\<open>long\<close> and \<open>e\<close>.\<close>

definition is_neg :: "bin_op \<Rightarrow> expr \<Rightarrow> bool" where
  "is_neg x a \<longleftrightarrow> x = Sub \<and> a = Lit FINSH_NODE_VALUE_LONG 0"

fun place_name :: "finsh \<Rightarrow> place \<Rightarrow> string" where
  "place_name s (Global i) = var_name (global_variable s ! i)"
| "place_name s (System p) = (case sysvar_at s p of Some v \<Rightarrow> sysvar_name v | None \<Rightarrow> [])"

definition call_name :: "finsh \<Rightarrow> ptr \<Rightarrow> string" where
  "call_name s f = (case syscall_at s f of Some c \<Rightarrow> syscall_name c | None \<Rightarrow> [])"

fun lexemes :: "finsh \<Rightarrow> expr \<Rightarrow> lexeme list" and arg_lexemes :: "finsh \<Rightarrow> expr list \<Rightarrow> lexeme list" where
  "lexemes s (Lit t v) = [Number (unat v)]"
| "lexemes s (Var x) = [Name (place_name s x)]"
| "lexemes s (AddrOf x) = [Sym finsh_token_type_and, Name (place_name s x)]"
| "lexemes s (Deref e) = Sym finsh_token_type_mul # lexemes s e"
| "lexemes s (Binary x a b) = (if is_neg x a then Sym finsh_token_type_sub # lexemes s b else lexemes s a @ Sym (op_token x) # lexemes s b)"
| "lexemes s (Compl e) = Sym finsh_token_type_bitwise # lexemes s e"
| "lexemes s (Assign x e) = Name (place_name s x) # Sym finsh_token_type_assign # lexemes s e"
| "lexemes s (Store p e) = Sym finsh_token_type_mul # lexemes s p @ Sym finsh_token_type_assign # lexemes s e"
| "lexemes s (Pre x i) = [Sym (if x = Add then finsh_token_type_inc else finsh_token_type_dec), Name (place_name s (Global i))]"
| "lexemes s (Post x i) = [Name (place_name s (Global i)), Sym (if x = Add then finsh_token_type_inc else finsh_token_type_dec)]"
| "lexemes s (Call f es) = Name (call_name s f) # Sym finsh_token_type_left_paren # arg_lexemes s es @ [Sym finsh_token_type_right_paren]"
| "arg_lexemes s [] = []"
| "arg_lexemes s (e # es) = lexemes s e @ (if es = [] then [] else Sym finsh_token_type_comma # arg_lexemes s es)"

text \<open>The commands that can be written at a level: 0 for assignments, 1 to 6 for the binary operators, 7 for the unary ones, 8 for the rest.\<close>

fun fits :: "nat \<Rightarrow> expr \<Rightarrow> bool" where
  "fits l (Lit t v) \<longleftrightarrow> l \<le> 8 \<and> t = FINSH_NODE_VALUE_INT"
| "fits l (Var x) \<longleftrightarrow> l \<le> 8"
| "fits l (AddrOf x) \<longleftrightarrow> l \<le> 7"
| "fits l (Deref e) \<longleftrightarrow> l \<le> 7 \<and> fits 7 e"
| "fits l (Binary x a b) \<longleftrightarrow> (if is_neg x a then l \<le> 7 \<and> fits 7 b else l \<le> op_level x \<and> fits (op_level x) a \<and> fits (Suc (op_level x)) b)"
| "fits l (Compl e) \<longleftrightarrow> l \<le> 7 \<and> fits 7 e"
| "fits l (Assign x e) \<longleftrightarrow> l = 0 \<and> fits 0 e"
| "fits l (Store p e) \<longleftrightarrow> l = 0 \<and> fits 7 p \<and> fits 0 e"
| "fits l (Pre x i) \<longleftrightarrow> l \<le> 7 \<and> x \<in> {Add, Sub}"
| "fits l (Post x i) \<longleftrightarrow> l \<le> 8 \<and> x \<in> {Add, Sub}"
| "fits l (Call f es) \<longleftrightarrow> l \<le> 8 \<and> list_all (fits 0) es"

text \<open>Every name in the command is found, as what it is meant to be.\<close>

fun place_known :: "finsh \<Rightarrow> place \<Rightarrow> bool" where
  "place_known s (Global i) \<longleftrightarrow> is_name (place_name s (Global i)) \<and> var_addr s i \<noteq> RT_NULL \<and>
     finsh_var_lookup (place_name s (Global i)) s = var_addr s i"
| "place_known s (System p) \<longleftrightarrow> is_name (place_name s (System p)) \<and> p \<noteq> RT_NULL \<and>
     finsh_var_lookup (place_name s (System p)) s = RT_NULL \<and> finsh_sysvar_lookup (place_name s (System p)) s = p"

definition call_known :: "finsh \<Rightarrow> ptr \<Rightarrow> bool" where
  "call_known s f \<longleftrightarrow> is_name (call_name s f) \<and> f \<noteq> RT_NULL \<and> finsh_var_lookup (call_name s f) s = RT_NULL \<and>
     finsh_sysvar_lookup (call_name s f) s = RT_NULL \<and> finsh_syscall_lookup (call_name s f) s = f"

fun known :: "finsh \<Rightarrow> expr \<Rightarrow> bool" where
  "known s (Lit t v) \<longleftrightarrow> True"
| "known s (Var x) \<longleftrightarrow> place_known s x"
| "known s (AddrOf x) \<longleftrightarrow> place_known s x"
| "known s (Deref e) \<longleftrightarrow> known s e"
| "known s (Binary x a b) \<longleftrightarrow> known s a \<and> known s b"
| "known s (Compl e) \<longleftrightarrow> known s e"
| "known s (Assign x e) \<longleftrightarrow> place_known s x \<and> known s e"
| "known s (Store p e) \<longleftrightarrow> known s p \<and> known s e"
| "known s (Pre x i) \<longleftrightarrow> place_known s (Global i)"
| "known s (Post x i) \<longleftrightarrow> place_known s (Global i)"
| "known s (Call f es) \<longleftrightarrow> call_known s f \<and> list_all (known s) es"

section \<open>Steps of the parser\<close>

text \<open>The parser has the lexemes \<open>ls\<close> ahead, and \<open>k\<close> nodes are in use.\<close>

definition facing :: "finsh \<Rightarrow> nat \<Rightarrow> finsh_parser \<Rightarrow> lexeme list \<Rightarrow> bool" where
  "facing s k p ls \<longleftrightarrow> stream p ls \<and> shell p = s\<lparr>nodes_used := k\<rparr>"

definition got :: "finsh \<Rightarrow> nat \<Rightarrow> finsh_parser \<Rightarrow> lexeme \<Rightarrow> lexeme list \<Rightarrow> bool" where
  "got s k p l ls \<longleftrightarrow> taken p l ls \<and> shell p = s\<lparr>nodes_used := k\<rparr>"

lemma got_upto: "got s k p l ls \<Longrightarrow> facing s k p ls" "got s k p l ls \<Longrightarrow> facing s k (finsh_token_replay p) (l # ls)"
  by (auto simp: got_def facing_def intro: taken_stream)

lemma facing_next:
  assumes "facing s k p (l # ls)"
  obtains p' where "finsh_token_token p = Some (lexeme_token l, p')" "got s k p' l ls"
  using assms next_lexeme [of p l ls] by (auto simp: facing_def got_def)

lemma facing_sym:
  assumes "facing s k p (Sym t # ls)"
  obtains p' where "finsh_token_token p = Some (t, p')" "got s k p' (Sym t) ls"
  using facing_next [OF assms] by auto

lemma facing_name:
  assumes "facing s k p (Name w # ls)"
  obtains p' where "finsh_token_token p = Some (finsh_token_type_identifier, p')" "got s k p' (Name w) ls"
  using facing_next [OF assms] by auto

text \<open>How tightly a lexeme behind an expression binds.\<close>

fun prec :: "lexeme \<Rightarrow> nat" where
  "prec (Sym t) =
    (if t = finsh_token_type_assign then 1
     else if t = finsh_token_type_or then 2 else if t = finsh_token_type_xor then 3 else if t = finsh_token_type_and then 4
     else if t = finsh_token_type_shl \<or> t = finsh_token_type_shr then 5
     else if t = finsh_token_type_add \<or> t = finsh_token_type_sub then 6
     else if t = finsh_token_type_mul \<or> t = finsh_token_type_div \<or> t = finsh_token_type_mod then 7
     else if t \<in> {finsh_token_type_comma, finsh_token_type_semicolon, finsh_token_type_right_paren} then 0 else 9)"
| "prec (Keyword w) = 9"
| "prec _ = 0"

text \<open>A function of the parser makes the tree of \<open>e\<close> from its text, if what follows binds at most as tightly as \<open>l\<close>.\<close>

definition parses :: "finsh \<Rightarrow> nat \<Rightarrow> finsh_node parser \<Rightarrow> expr \<Rightarrow> bool" where
  "parses s l f e \<longleftrightarrow> (\<forall>p r ls k. facing s k p (lexemes s e @ r # ls) \<longrightarrow> prec r \<le> l \<longrightarrow> k + nodes e \<le> FINSH_NODE_MAX \<longrightarrow>
     (\<exists>p'. f p = Some (tree s e, p') \<and> facing s (k + nodes e) p' (r # ls)))"

lemma parsesE:
  assumes "parses s l f e" "facing s k p (lexemes s e @ r # ls)" "prec r \<le> l" "k + nodes e \<le> FINSH_NODE_MAX"
  obtains p' where "f p = Some (tree s e, p')" "facing s (k + nodes e) p' (r # ls)"
  using assms unfolding parses_def by blast

lemma facing_shell: "facing s k p ls \<Longrightarrow> facing s k' (p\<lparr>shell := s\<lparr>nodes_used := k'\<rparr>\<rparr>) ls"
  by (simp add: facing_def)

lemma make_node:
  assumes "facing s k p ls" "k < FINSH_NODE_MAX" "n1 \<noteq> NULL"
  obtains p' where "make_sys_node t n1 n2 p = (sys_node t n1 n2, p')" "facing s (Suc k) p' ls"
proof (rule that)
  have "shell p = s\<lparr>nodes_used := k\<rparr>" using assms(1) by (simp add: facing_def)
  then show "make_sys_node t n1 n2 p = (sys_node t n1 n2, p\<lparr>shell := s\<lparr>nodes_used := Suc k\<rparr>\<rparr>)"
    using assms(2,3) by (simp add: make_sys_node_def with_shell_def finsh_node_allocate_def)
qed (rule facing_shell [OF assms(1)])

lemma new_value:
  assumes "facing s k p ls" "k < FINSH_NODE_MAX"
  obtains p' where "with_shell (finsh_node_new_value t v) p = (Node ((new_info t)\<lparr>node_value := v\<rparr>) NULL NULL, p')" "facing s (Suc k) p' ls"
proof (rule that)
  have "shell p = s\<lparr>nodes_used := k\<rparr>" using assms(1) by (simp add: facing_def)
  then show "with_shell (finsh_node_new_value t v) p = (Node ((new_info t)\<lparr>node_value := v\<rparr>) NULL NULL, p\<lparr>shell := s\<lparr>nodes_used := Suc k\<rparr>\<rparr>)"
    using assms(2) by (simp add: with_shell_def finsh_node_new_value_def finsh_node_allocate_def)
qed (rule facing_shell [OF assms(1)])

lemma lookup_nodes [simp]:
  "finsh_var_lookup n (s\<lparr>nodes_used := k\<rparr>) = finsh_var_lookup n s" "finsh_sysvar_lookup n (s\<lparr>nodes_used := k\<rparr>) = finsh_sysvar_lookup n s"
  "finsh_syscall_lookup n (s\<lparr>nodes_used := k\<rparr>) = finsh_syscall_lookup n s"
  by (simp_all add: finsh_var_lookup_def finsh_sysvar_lookup_def finsh_syscall_lookup_def var_addr_def Let_def split: option.split)

lemma new_place:
  assumes "facing s k p ls" "k < FINSH_NODE_MAX" "place_known s x"
  obtains p' where "with_shell (finsh_node_new_id (place_name s x)) p = (Node (place_info s x) NULL NULL, p')" "facing s (Suc k) p' ls"
proof (rule that)
  have "shell p = s\<lparr>nodes_used := k\<rparr>" using assms(1) by (simp add: facing_def)
  then show "with_shell (finsh_node_new_id (place_name s x)) p = (Node (place_info s x) NULL NULL, p\<lparr>shell := s\<lparr>nodes_used := Suc k\<rparr>\<rparr>)"
    using assms(2,3) by (cases x) (simp_all add: with_shell_def finsh_node_new_id_def finsh_node_allocate_def Let_def)
qed (rule facing_shell [OF assms(1)])

lemma new_call:
  assumes "facing s k p ls" "k < FINSH_NODE_MAX" "call_known s f"
  obtains p' where "with_shell (finsh_node_new_id (call_name s f)) p = (Node (call_info f) NULL NULL, p')" "facing s (Suc k) p' ls"
proof (rule that)
  have "shell p = s\<lparr>nodes_used := k\<rparr>" using assms(1) by (simp add: facing_def)
  then show "with_shell (finsh_node_new_id (call_name s f)) p = (Node (call_info f) NULL NULL, p\<lparr>shell := s\<lparr>nodes_used := Suc k\<rparr>\<rparr>)"
    using assms(2,3) by (simp add: with_shell_def finsh_node_new_id_def finsh_node_allocate_def Let_def call_known_def)
qed (rule facing_shell [OF assms(1)])

subsection \<open>Primary and postfix expressions\<close>

lemma identifier_run:
  assumes "facing s k p (Name w # ls)" "is_name w"
  obtains p' where "proc_identifier p = Some (w, p')" "facing s k p' ls"
proof -
  obtain p' where p': "finsh_token_token p = Some (finsh_token_type_identifier, p')" "got s k p' (Name w) ls"
    using facing_name [OF assms(1)] by auto
  have "c_string (tok_string p') = w" using p'(2) by (simp add: got_def taken_def)
  then show thesis using that [of p'] p' assms(2) got_upto(1) [OF p'(2)]
    by (simp add: proc_identifier_def match_token_def check_token_def is_name_def)
qed

text \<open>An identifier, or a number, as primary expression.\<close>

lemma primary_name:
  assumes "facing s k p (Name w # ls)" "is_name w"
  obtains p' where "proc_primary_expr expr p = Some (with_shell (finsh_node_new_id w) p')" "facing s k p' ls"
proof -
  obtain p1 where p1: "finsh_token_token p = Some (finsh_token_type_identifier, p1)" "got s k p1 (Name w) ls"
    using facing_name [OF assms(1)] by auto
  obtain p' where p': "proc_identifier (finsh_token_replay p1) = Some (w, p')" "facing s k p' ls"
    by (rule identifier_run [OF got_upto(2) [OF p1(2)] assms(2)])
  then show thesis using that [of p'] p1 by (simp add: proc_primary_expr_def proc_literal_def)
qed

lemma primary_place:
  assumes "facing s k p (Name (place_name s x) # ls)" "place_known s x" "k < FINSH_NODE_MAX"
  obtains p' where "proc_primary_expr expr p = Some (tree s (Var x), p')" "facing s (Suc k) p' ls"
proof -
  have "is_name (place_name s x)" using assms(2) by (cases x) auto
  then obtain p1 where p1: "proc_primary_expr expr p = Some (with_shell (finsh_node_new_id (place_name s x)) p1)" "facing s k p1 ls"
    by (rule primary_name [OF assms(1)])
  obtain p' where "with_shell (finsh_node_new_id (place_name s x)) p1 = (Node (place_info s x) NULL NULL, p')" "facing s (Suc k) p' ls"
    by (rule new_place [OF p1(2) assms(3,2)])
  then show thesis using that p1(1) by simp
qed

lemma primary_number:
  assumes "facing s k p (Number (unat v) # ls)" "k < FINSH_NODE_MAX"
  obtains p' where "proc_primary_expr expr p = Some (tree s (Lit FINSH_NODE_VALUE_INT v), p')" "facing s (Suc k) p' ls"
proof -
  obtain p1 where p1: "finsh_token_token p = Some (finsh_token_type_value_int, p1)" "got s k p1 (Number (unat v)) ls"
    using facing_next [OF assms(1)] by auto
  have v: "tok_value p1 = v" using p1(2) by (simp add: got_def taken_def)
  obtain p' where "with_shell (finsh_node_new_value FINSH_NODE_VALUE_INT v) p1 = (Node ((new_info FINSH_NODE_VALUE_INT)\<lparr>node_value := v\<rparr>) NULL NULL, p')"
    "facing s (Suc k) p' ls"
    by (rule new_value [OF got_upto(1) [OF p1(2)] assms(2)])
  then show thesis using that [of p'] p1(1) v by (simp add: proc_primary_expr_def proc_literal_def)
qed

lemma postfix_round:
  "postfix_loop expr (Suc k) n finsh_token_type_inc p = (case make_sys_node FINSH_NODE_SYS_INC n NULL p of (n, p) \<Rightarrow>
     Option.bind (finsh_token_token p) (\<lambda>(t, p). postfix_loop expr k n t p))"
  "postfix_loop expr (Suc k) n finsh_token_type_dec p = (case make_sys_node FINSH_NODE_SYS_DEC n NULL p of (n, p) \<Rightarrow>
     Option.bind (finsh_token_token p) (\<lambda>(t, p). postfix_loop expr k n t p))"
  "postfix_loop expr (Suc k) n finsh_token_type_left_paren p = Option.bind (proc_call expr k p) (\<lambda>(params, p).
     case make_sys_node FINSH_NODE_SYS_FUNC n params p of (n, p) \<Rightarrow> Option.bind (finsh_token_token p) (\<lambda>(t, p). postfix_loop expr k n t p))"
  by (simp_all split: prod.split add: Option.bind_assoc case_prod_beta')

lemma postfix_stop:
  assumes "facing s k p (r # ls)" "prec r \<le> 7"
  obtains p' where "Option.bind (finsh_token_token p) (\<lambda>(t, p). postfix_loop expr (Suc j) n t p) = Some (n, p')" "facing s k p' (r # ls)"
proof -
  obtain p1 where p1: "finsh_token_token p = Some (lexeme_token r, p1)" "got s k p1 r ls" by (rule facing_next [OF assms(1)])
  have "lexeme_token r \<notin> {finsh_token_type_inc, finsh_token_type_dec, finsh_token_type_left_paren}"
    using assms(2) by (cases r) (auto split: if_splits)
  then show thesis using that [of "finsh_token_replay p1"] p1(1) got_upto(2) [OF p1(2)] by simp
qed

subsection \<open>Parameters\<close>

definition comma_lexemes :: "finsh \<Rightarrow> expr list \<Rightarrow> lexeme list" where
  "comma_lexemes s es = concat (map (\<lambda>e. Sym finsh_token_type_comma # lexemes s e) es)"

lemma arg_lexemes_Cons: "arg_lexemes s (e # es) = lexemes s e @ comma_lexemes s es"
  by (induction es arbitrary: e) (simp_all add: comma_lexemes_def)

lemma tree_size_pos: "tree s e \<noteq> NULL"
  by simp

lemma param_loop_run:
  assumes "facing s k p (comma_lexemes s es @ Sym finsh_token_type_right_paren # ls)" "\<forall>e \<in> set es. parses s 0 expr e"
    "k + sum_list (map nodes es) \<le> FINSH_NODE_MAX" "length es < j"
  shows "\<exists>p'. Option.bind (finsh_token_token p) (\<lambda>(t, p). param_loop expr j ns t p) = Some (ns @ map (tree s) es, p') \<and>
    facing s (k + sum_list (map nodes es)) p' (Sym finsh_token_type_right_paren # ls)"
  using assms
proof (induction es arbitrary: k p ns j)
  case Nil
  obtain i where j: "j = Suc i" using Nil(4) by (cases j) auto
  obtain p1 where p1: "finsh_token_token p = Some (lexeme_token (Sym finsh_token_type_right_paren), p1)" "got s k p1 (Sym finsh_token_type_right_paren) ls"
    by (rule facing_sym [of s k p]) (use Nil(1) in \<open>simp_all add: comma_lexemes_def\<close>)
  then show ?case using got_upto(2) [OF p1(2)] j by simp
next
  case (Cons e es)
  obtain i where j: "j = Suc i" "length es < i" using Cons.prems(4) by (cases j) auto
  let ?rest = "comma_lexemes s es @ Sym finsh_token_type_right_paren # ls"
  have u: "facing s k p (Sym finsh_token_type_comma # lexemes s e @ ?rest)" using Cons.prems(1) by (simp add: comma_lexemes_def)
  obtain p1 where p1: "finsh_token_token p = Some (finsh_token_type_comma, p1)" "got s k p1 (Sym finsh_token_type_comma) (lexemes s e @ ?rest)"
    using facing_sym [OF u] by auto
  obtain r rs where r: "?rest = r # rs" "prec r = 0" by (cases es) (auto simp: comma_lexemes_def)
  have e: "parses s 0 expr e" "k + nodes e \<le> FINSH_NODE_MAX" using Cons.prems(2,3) by simp_all
  obtain p2 where p2: "expr p1 = Some (tree s e, p2)" "facing s (k + nodes e) p2 ?rest"
    using parsesE [OF e(1) _ _ e(2)] got_upto(1) [OF p1(2)] r by (metis le_numeral_extra(3))
  obtain p3 where "Option.bind (finsh_token_token p2) (\<lambda>(t, p). param_loop expr i (ns @ [tree s e]) t p) = Some ((ns @ [tree s e]) @ map (tree s) es, p3)"
    "facing s (k + nodes e + sum_list (map nodes es)) p3 (Sym finsh_token_type_right_paren # ls)"
    using Cons.IH [OF p2(2), of i "ns @ [tree s e]"] Cons.prems(2,3) j(2) by (auto simp: add.assoc)
  then show ?case using p1(1) p2(1) j(1) by (simp add: add.assoc)
qed

lemma call_run:
  assumes "facing s k p (arg_lexemes s es @ Sym finsh_token_type_right_paren # ls)" "\<forall>e \<in> set es. parses s 0 expr e"
    "k + sum_list (map nodes es) \<le> FINSH_NODE_MAX" "length es \<le> j" "\<And>e. e \<in> set es \<Longrightarrow> lexeme_token (hd (lexemes s e)) \<noteq> finsh_token_type_right_paren"
    "\<And>e. lexemes s e \<noteq> []"
  obtains p' where "proc_call expr j p = Some (chain (map (tree s) es), p')" "facing s (k + sum_list (map nodes es)) p' ls"
proof (cases es)
  case Nil
  then have u: "facing s k p (Sym finsh_token_type_right_paren # ls)" using assms(1) by simp
  show ?thesis using facing_sym [OF u] that Nil got_upto(1) by (fastforce simp: proc_call_def)
next
  case (Cons e es')
  let ?rest = "comma_lexemes s es' @ Sym finsh_token_type_right_paren # ls"
  have u: "facing s k p (lexemes s e @ ?rest)" using assms(1) Cons by (simp add: arg_lexemes_Cons del: arg_lexemes.simps)
  obtain l0 l1 where l: "lexemes s e = l0 # l1" using assms(6) [of e] by (cases "lexemes s e") auto
  have u': "facing s k p (l0 # l1 @ ?rest)" using u l by simp
  obtain p1 where p1: "finsh_token_token p = Some (lexeme_token l0, p1)" "got s k p1 l0 (l1 @ ?rest)" by (rule facing_next [OF u'])
  have "lexeme_token l0 \<noteq> finsh_token_type_right_paren" using assms(5) [of e] Cons l by simp
  have u1: "facing s k (finsh_token_replay p1) (lexemes s e @ ?rest)" using got_upto(2) [OF p1(2)] l by simp
  obtain r rs where r: "?rest = r # rs" "prec r = 0" by (cases es') (auto simp: comma_lexemes_def)
  have e: "parses s 0 expr e" "k + nodes e \<le> FINSH_NODE_MAX" using assms(2,3) Cons by simp_all
  obtain p2 where p2: "expr (finsh_token_replay p1) = Some (tree s e, p2)" "facing s (k + nodes e) p2 ?rest"
    using parsesE [OF e(1) _ _ e(2)] u1 r by (metis le_numeral_extra(3))
  obtain p3 where p3: "Option.bind (finsh_token_token p2) (\<lambda>(t, p). param_loop expr j [tree s e] t p) = Some ([tree s e] @ map (tree s) es', p3)"
    "facing s (k + nodes e + sum_list (map nodes es')) p3 (Sym finsh_token_type_right_paren # ls)"
    using param_loop_run [OF p2(2), of expr j "[tree s e]"] assms(2,3,4) Cons by (auto simp: add.assoc)
  obtain p4 where p4: "finsh_token_token p3 = Some (finsh_token_type_right_paren, p4)" "got s (k + nodes e + sum_list (map nodes es')) p4 (Sym finsh_token_type_right_paren) ls"
    using facing_sym [OF p3(2)] by auto
  have "proc_param_list expr j (finsh_token_replay p1) = Some (chain (map (tree s) es), p3)"
    using p2(1) p3(1) Cons by (cases "finsh_token_token p2") (auto simp: proc_param_list_def)
  then show ?thesis using that [of p4] p1(1) p4 \<open>lexeme_token l0 \<noteq> _\<close> got_upto(1) [OF p4(2)] Cons
    by (simp add: proc_call_def match_token_def check_token_def add.assoc)
qed

lemma lexemes_not_Nil [simp]: "lexemes s e \<noteq> []"
  by (cases e) auto

fun starts :: "lexeme \<Rightarrow> bool" where
  "starts (Sym t) \<longleftrightarrow> t \<in> {finsh_token_type_and, finsh_token_type_mul, finsh_token_type_sub, finsh_token_type_bitwise, finsh_token_type_inc, finsh_token_type_dec}"
| "starts (Keyword w) \<longleftrightarrow> False"
| "starts _ \<longleftrightarrow> True"

lemma lexemes_start: "starts (hd (lexemes s e))"
  by (induction e) auto

lemma starts_token: "starts l \<Longrightarrow> lexeme_token l \<notin> {finsh_token_type_left_paren, finsh_token_type_right_paren, finsh_token_type_semicolon, finsh_token_type_eof,
    finsh_token_type_bad, finsh_token_type_unsigned} \<and> base_type (lexeme_token l) = None"
  by (cases l) (auto simp: base_type_def)

lemma lexemes_cases:
  obtains l ls where "lexemes s e = l # ls" "starts l"
  using lexemes_start [of s e] by (cases "lexemes s e") auto

lemma op_level_bounds: "1 \<le> op_level x" "op_level x \<le> 6"
  by (cases x; simp)+

lemma op_level_7 [simp]: "\<not> 7 \<le> op_level x" "\<not> 8 \<le> op_level x"
  by (cases x; simp)+

lemma postfix_parses:
  assumes e: "fits 8 e" "known s e" and j: "length (lexemes s e) \<le> j"
    and args: "\<And>f es a. e = Call f es \<Longrightarrow> a \<in> set es \<Longrightarrow> parses s 0 expr a"
  shows "parses s 7 (proc_postfix_expr expr j) e"
  unfolding parses_def
proof (intro allI impI)
  fix p r ls k assume u: "facing s k p (lexemes s e @ r # ls)" and r: "prec r \<le> 7" and n: "k + nodes e \<le> FINSH_NODE_MAX"
  have simple: "\<exists>p'. proc_postfix_expr expr j p = Some (t, p') \<and> facing s k' p' (r # ls)"
    if 1: "proc_primary_expr expr p = Some (t, p1)" and 2: "facing s k' p1 (r # ls)" and 3: "0 < j" for t p1 k'
  proof -
    obtain i where j: "j = Suc i" using 3 by (cases j) auto
    show ?thesis by (rule postfix_stop [OF 2 r, of expr i t]) (use 1 j in \<open>auto simp: proc_postfix_expr_def\<close>)
  qed
  show "\<exists>p'. proc_postfix_expr expr j p = Some (tree s e, p') \<and> facing s (k + nodes e) p' (r # ls)"
  proof (cases e)
    case (Lit t v)
    then have u': "facing s k p (Number (unat v) # r # ls)" using u by simp
    show ?thesis by (rule primary_number [OF u', of expr]) (use simple Lit e(1) n j in \<open>auto\<close>)
  next
    case (Var x)
    then have u': "facing s k p (Name (place_name s x) # r # ls)" using u by simp
    show ?thesis by (rule primary_place [OF u', of expr]) (use simple Var e(2) n j in \<open>auto\<close>)
  next
    case (Post x i)
    obtain j' where j': "j = Suc (Suc j')" using j Post by (cases j; cases "j - 1") auto
    let ?t = "if x = Add then finsh_token_type_inc else finsh_token_type_dec"
    have u': "facing s k p (Name (place_name s (Global i)) # Sym ?t # r # ls)" using u Post by simp
    obtain p1 where p1: "proc_primary_expr expr p = Some (tree s (Var (Global i)), p1)" "facing s (Suc k) p1 (Sym ?t # r # ls)"
      by (rule primary_place [OF u', of expr]) (use Post e(2) n in auto)
    obtain p2 where p2: "finsh_token_token p1 = Some (?t, p2)" "got s (Suc k) p2 (Sym ?t) (r # ls)" by (rule facing_sym [OF p1(2)])
    obtain p3 where p3: "make_sys_node (post_type x) (tree s (Var (Global i))) NULL p2 = (tree s e, p3)" "facing s (k + nodes e) p3 (r # ls)"
      using make_node [OF got_upto(1) [OF p2(2)], of "tree s (Var (Global i))" "post_type x" NULL] n Post by (auto simp: numeral_2_eq_2)
    obtain p4 where p4: "Option.bind (finsh_token_token p3) (\<lambda>(t, p). postfix_loop expr (Suc j') (tree s e) t p) = Some (tree s e, p4)" "facing s (k + nodes e) p4 (r # ls)"
      by (rule postfix_stop [OF p3(2) r])
    have "x = Add \<or> x = Sub" using e(1) Post by simp
    then have "proc_postfix_expr expr j p = Option.bind (finsh_token_token p3) (\<lambda>(t, p). postfix_loop expr (Suc j') (tree s e) t p)"
      using p1(1) p2(1) p3(1) j' by (auto simp: proc_postfix_expr_def postfix_round simp del: tree.simps postfix_loop.simps)
    then show ?thesis using p4 by auto
  next
    case (Call f es)
    obtain j' where j': "j = Suc (Suc j')" using j Call by (cases j; cases "j - 1") auto
    have f: "call_known s f" "is_name (call_name s f)" using e(2) Call by (simp_all add: call_known_def)
    have u': "facing s k p (Name (call_name s f) # Sym finsh_token_type_left_paren # arg_lexemes s es @ Sym finsh_token_type_right_paren # r # ls)"
      using u Call by simp
    obtain p0 where p0: "proc_primary_expr expr p = Some (with_shell (finsh_node_new_id (call_name s f)) p0)"
      "facing s k p0 (Sym finsh_token_type_left_paren # arg_lexemes s es @ Sym finsh_token_type_right_paren # r # ls)"
      by (rule primary_name [OF u' f(2)])
    obtain p1 where p1: "with_shell (finsh_node_new_id (call_name s f)) p0 = (Node (call_info f) NULL NULL, p1)"
      "facing s (Suc k) p1 (Sym finsh_token_type_left_paren # arg_lexemes s es @ Sym finsh_token_type_right_paren # r # ls)"
      by (rule new_call [OF p0(2) _ f(1)]) (use n Call in auto)
    obtain p2 where p2: "finsh_token_token p1 = Some (finsh_token_type_left_paren, p2)"
      "got s (Suc k) p2 (Sym finsh_token_type_left_paren) (arg_lexemes s es @ Sym finsh_token_type_right_paren # r # ls)"
      by (rule facing_sym [OF p1(2)])
    have len: "length es \<le> length (arg_lexemes s es)"
    proof (induction es)
      case (Cons a as)
      have "0 < length (lexemes s a)" by simp
      then show ?case using Cons by (cases as) (auto simp del: length_greater_0_conv)
    qed simp
    have start: "lexeme_token (hd (lexemes s a)) \<noteq> finsh_token_type_right_paren" for a using starts_token [OF lexemes_start [of s a]] by simp
    obtain p3 where p3: "proc_call expr (Suc j') p2 = Some (chain (map (tree s) es), p3)" "facing s (Suc k + sum_list (map nodes es)) p3 (r # ls)"
      by (rule call_run [OF got_upto(1) [OF p2(2)], of expr "Suc j'"])
        (use args Call n len j j' start in \<open>auto simp: list_all_iff\<close>)
    obtain p4 where p4: "make_sys_node FINSH_NODE_SYS_FUNC (Node (call_info f) NULL NULL) (chain (map (tree s) es)) p3 = (tree s e, p4)" "facing s (k + nodes e) p4 (r # ls)"
      using make_node [OF p3(2), of "Node (call_info f) NULL NULL" FINSH_NODE_SYS_FUNC "chain (map (tree s) es)"] n Call by (auto simp: add.commute)
    obtain p5 where p5: "Option.bind (finsh_token_token p4) (\<lambda>(t, p). postfix_loop expr (Suc j') (tree s e) t p) = Some (tree s e, p5)" "facing s (k + nodes e) p5 (r # ls)"
      by (rule postfix_stop [OF p4(2) r])
    have "proc_postfix_expr expr j p = Option.bind (finsh_token_token p4) (\<lambda>(t, p). postfix_loop expr (Suc j') (tree s e) t p)"
      using p0(1) p1(1) p2(1) p3(1) p4(1) j' by (simp add: proc_postfix_expr_def postfix_round del: tree.simps postfix_loop.simps)
    then show ?thesis using p5 by auto
  qed (use e(1) in \<open>auto split: if_splits\<close>)
qed

subsection \<open>Unary expressions\<close>

lemma cast_start:
  assumes "facing s k p (l # ls)" "starts l"
  obtains p0 p1 where "proc_cast_expr expr (Suc j) p = proc_unary_expr expr (proc_cast_expr expr j) j p0"
    "finsh_token_token p0 = Some (lexeme_token l, p1)" "got s k p1 l ls"
proof -
  obtain p1 where p1: "finsh_token_token p = Some (lexeme_token l, p1)" "got s k p1 l ls" by (rule facing_next [OF assms(1)])
  obtain p2 where p2: "finsh_token_token (finsh_token_replay p1) = Some (lexeme_token l, p2)" "got s k p2 l ls"
    by (rule facing_next [OF got_upto(2) [OF p1(2)]])
  show thesis by (rule that [OF _ p2]) (use p1(1) starts_token [OF assms(2)] in simp)
qed

lemma cast_postfix:
  assumes "parses s 7 (proc_postfix_expr expr j) e" "fits 8 e"
  shows "parses s 7 (proc_cast_expr expr (Suc j)) e"
  unfolding parses_def
proof (intro allI impI)
  fix p r ls k assume u: "facing s k p (lexemes s e @ r # ls)" and r: "prec r \<le> 7" "k + nodes e \<le> FINSH_NODE_MAX"
  obtain l ts where l: "lexemes s e = l # ts" "starts l" by (rule lexemes_cases)
  have "(\<exists>w. l = Name w) \<or> (\<exists>n. l = Number n)"
    using assms(2) l(1) by (cases e) (auto split: if_splits)
  then have t: "lexeme_token l = finsh_token_type_identifier \<or> lexeme_token l = finsh_token_type_value_int" by auto
  have u': "facing s k p (l # ts @ r # ls)" using u l by simp
  obtain p0 p1 where p: "proc_cast_expr expr (Suc j) p = proc_unary_expr expr (proc_cast_expr expr j) j p0"
    "finsh_token_token p0 = Some (lexeme_token l, p1)" "got s k p1 l (ts @ r # ls)"
    by (rule cast_start [OF u' l(2)])
  have "facing s k (finsh_token_replay p1) (lexemes s e @ r # ls)" using got_upto(2) [OF p(3)] l(1) by simp
  then obtain p' where "proc_postfix_expr expr j (finsh_token_replay p1) = Some (tree s e, p')" "facing s (k + nodes e) p' (r # ls)"
    using parsesE [OF assms(1) _ r] by blast
  then show "\<exists>p'. proc_cast_expr expr (Suc j) p = Some (tree s e, p') \<and> facing s (k + nodes e) p' (r # ls)"
    using p(1,2) t by (auto simp: proc_unary_expr_def simp del: proc_cast_expr.simps)
qed

lemma unary_op:
  assumes e: "parses s 7 (proc_cast_expr expr j) e"
    and t: "(t, ty) \<in> {(finsh_token_type_inc, FINSH_NODE_SYS_PREINC), (finsh_token_type_dec, FINSH_NODE_SYS_PREDEC),
      (finsh_token_type_bitwise, FINSH_NODE_SYS_BITWISE), (finsh_token_type_mul, FINSH_NODE_SYS_GETVALUE), (finsh_token_type_and, FINSH_NODE_SYS_GETADDR)}"
    and e': "lexemes s e' = Sym t # lexemes s e" "tree s e' = sys_node ty (tree s e) NULL" "nodes e' = Suc (nodes e)"
  shows "parses s 7 (proc_cast_expr expr (Suc j)) e'"
  unfolding parses_def
proof (intro allI impI)
  fix p r ls k assume u: "facing s k p (lexemes s e' @ r # ls)" and r: "prec r \<le> 7" and n: "k + nodes e' \<le> FINSH_NODE_MAX"
  have s: "starts (Sym t)" using t by auto
  have u': "facing s k p (Sym t # lexemes s e @ r # ls)" using u e'(1) by simp
  obtain p0 p1 where p: "proc_cast_expr expr (Suc j) p = proc_unary_expr expr (proc_cast_expr expr j) j p0"
    "finsh_token_token p0 = Some (t, p1)" "got s k p1 (Sym t) (lexemes s e @ r # ls)"
    using cast_start [OF u' s, of expr j] by auto
  obtain p2 where p2: "proc_cast_expr expr j p1 = Some (tree s e, p2)" "facing s (k + nodes e) p2 (r # ls)"
    using parsesE [OF e got_upto(1) [OF p(3)] r] n e'(3) by auto
  obtain p3 where p3: "make_sys_node ty (tree s e) NULL p2 = (tree s e', p3)" "facing s (k + nodes e') p3 (r # ls)"
    using make_node [OF p2(2), of "tree s e" ty NULL] n e'(2,3) by auto
  show "\<exists>p'. proc_cast_expr expr (Suc j) p = Some (tree s e', p') \<and> facing s (k + nodes e') p' (r # ls)"
    using p(1,2) p2(1) p3 t by (auto simp: proc_unary_expr_def simp del: proc_cast_expr.simps)
qed

lemma unary_neg:
  assumes e: "parses s 7 (proc_cast_expr expr j) e" and e': "e' = Binary Sub (Lit FINSH_NODE_VALUE_LONG 0) e"
  shows "parses s 7 (proc_cast_expr expr (Suc j)) e'"
  unfolding parses_def
proof (intro allI impI)
  fix p r ls k assume u: "facing s k p (lexemes s e' @ r # ls)" and r: "prec r \<le> 7" and n: "k + nodes e' \<le> FINSH_NODE_MAX"
  have u': "facing s k p (Sym finsh_token_type_sub # lexemes s e @ r # ls)" using u e' by (simp add: is_neg_def)
  obtain p0 p1 where p: "proc_cast_expr expr (Suc j) p = proc_unary_expr expr (proc_cast_expr expr j) j p0"
    "finsh_token_token p0 = Some (finsh_token_type_sub, p1)" "got s k p1 (Sym finsh_token_type_sub) (lexemes s e @ r # ls)"
    using cast_start [OF u', of expr j] by auto
  obtain p2 where p2: "proc_cast_expr expr j p1 = Some (tree s e, p2)" "facing s (k + nodes e) p2 (r # ls)"
    using parsesE [OF e got_upto(1) [OF p(3)] r] n e' by auto
  let ?zero = "Node ((new_info FINSH_NODE_VALUE_LONG)\<lparr>node_value := 0\<rparr>) NULL NULL"
  obtain p3 where p3: "with_shell (finsh_node_new_value FINSH_NODE_VALUE_LONG 0) p2 = (?zero, p3)" "facing s (Suc (k + nodes e)) p3 (r # ls)"
    using new_value [OF p2(2)] n e' by auto
  obtain p4 where p4: "make_sys_node (FINSH_NODE_SYS Sub) ?zero (tree s e) p3 = (tree s e', p4)" "facing s (k + nodes e') p4 (r # ls)"
    using make_node [OF p3(2), of ?zero "FINSH_NODE_SYS Sub" "tree s e"] n e' by auto
  show "\<exists>p'. proc_cast_expr expr (Suc j) p = Some (tree s e', p') \<and> facing s (k + nodes e') p' (r # ls)"
    using p(1,2) p2(1) p3(1) p4 by (simp add: proc_unary_expr_def del: proc_cast_expr.simps tree.simps)
qed

lemma fits_mono: "fits l e \<Longrightarrow> l' \<le> l \<Longrightarrow> l \<le> 8 \<Longrightarrow> 0 < l' \<Longrightarrow> fits l' e"
  by (cases e) auto

lemma call_args_shorter: "a \<in> set es \<Longrightarrow> length (lexemes s a) \<le> length (arg_lexemes s es)"
  by (induction es) auto

lemma cast_parses:
  assumes "fits 7 e" "known s e" "length (lexemes s e) < j"
    and "\<And>a. length (lexemes s a) < length (lexemes s e) \<Longrightarrow> fits 0 a \<Longrightarrow> known s a \<Longrightarrow> parses s 0 expr a"
  shows "parses s 7 (proc_cast_expr expr j) e"
  using assms
proof (induction e arbitrary: j)
  case (Deref e)
  obtain i where i: "j = Suc i" "length (lexemes s e) < i" using Deref.prems(3) by (cases j) auto
  have "parses s 7 (proc_cast_expr expr i) e" using Deref.prems i(2) by (intro Deref.IH) auto
  then show ?case unfolding i(1) by (rule unary_op [where ty = FINSH_NODE_SYS_GETVALUE]) auto
next
  case (Compl e)
  obtain i where i: "j = Suc i" "length (lexemes s e) < i" using Compl.prems(3) by (cases j) auto
  have "parses s 7 (proc_cast_expr expr i) e" using Compl.prems i(2) by (intro Compl.IH) auto
  then show ?case unfolding i(1) by (rule unary_op [where ty = FINSH_NODE_SYS_BITWISE]) auto
next
  case (Binary x a e)
  then have x: "is_neg x a" using op_level_bounds(2) [of x] by (auto split: if_splits)
  obtain i where i: "j = Suc i" "length (lexemes s e) < i" using Binary.prems(3) x by (cases j) auto
  have "parses s 7 (proc_cast_expr expr i) e" using Binary.prems i(2) x by (intro Binary.IH(2)) auto
  then show ?case unfolding i(1) by (rule unary_neg) (use x in \<open>simp add: is_neg_def\<close>)
next
  case (AddrOf x)
  obtain i where i: "j = Suc (Suc i)" "0 < i" using AddrOf.prems(3) by (cases j; cases "j - 1") auto
  have "parses s 7 (proc_postfix_expr expr i) (Var x)" using AddrOf.prems i(2) by (intro postfix_parses) auto
  then show ?case unfolding i(1) by (intro unary_op [OF cast_postfix, where ty = FINSH_NODE_SYS_GETADDR]) auto
next
  case (Pre x n)
  obtain i where i: "j = Suc (Suc i)" "0 < i" using Pre.prems(3) by (cases j; cases "j - 1") auto
  have p: "parses s 7 (proc_postfix_expr expr i) (Var (Global n))" using Pre.prems i(2) by (intro postfix_parses) auto
  have x: "x = Add \<or> x = Sub" using Pre.prems(1) by simp
  show ?case unfolding i(1) by (rule unary_op [OF cast_postfix [OF p], where ty = "pre_type x" and t = "if x = Add then finsh_token_type_inc else finsh_token_type_dec"])
    (use x in auto)
next
  case (Call f es)
  obtain i where i: "j = Suc i" "length (lexemes s (Call f es)) \<le> i" using Call.prems(3) by (cases j) auto
  have "parses s 7 (proc_postfix_expr expr i) (Call f es)"
    using Call.prems i(2) call_args_shorter [of _ es s]
    by (intro postfix_parses) (auto simp: list_all_iff less_Suc_eq_le intro!: le_SucI)
  then show ?case unfolding i(1) by (rule cast_postfix) (use Call.prems in auto)
next
  case (Lit t v)
  obtain i where i: "j = Suc i" "length (lexemes s (Lit t v)) \<le> i" using Lit.prems(3) by (cases j) auto
  then have "parses s 7 (proc_postfix_expr expr i) (Lit t v)" using Lit.prems by (intro postfix_parses) auto
  then show ?case unfolding i(1) by (rule cast_postfix) (use Lit.prems in auto)
next
  case (Var x)
  obtain i where i: "j = Suc i" "length (lexemes s (Var x)) \<le> i" using Var.prems(3) by (cases j) auto
  then have "parses s 7 (proc_postfix_expr expr i) (Var x)" using Var.prems by (intro postfix_parses) auto
  then show ?case unfolding i(1) by (rule cast_postfix) (use Var.prems in auto)
next
  case (Post x n)
  obtain i where i: "j = Suc i" "length (lexemes s (Post x n)) \<le> i" using Post.prems(3) by (cases j) auto
  then have "parses s 7 (proc_postfix_expr expr i) (Post x n)" using Post.prems by (intro postfix_parses) auto
  then show ?case unfolding i(1) by (rule cast_postfix) (use Post.prems in auto)
qed auto

subsection \<open>Binary operators\<close>

lemma level_op_token: "op_level x = l \<Longrightarrow> level_op l (op_token x) = Some x" "prec (Sym (op_token x)) = Suc (op_level x)"
  by (cases x; auto simp: level_op_def)+

lemma level_op_None: "prec r \<le> l \<Longrightarrow> 0 < l \<Longrightarrow> l < 7 \<Longrightarrow> level_op l (lexeme_token r) = None"
  by (cases r) (auto simp: level_op_def split: if_splits)

lemma fits_level:
  assumes "fits l e" "\<not> fits (Suc l) e" "0 < l" "l < 7"
  obtains x a b where "e = Binary x a b" "\<not> is_neg x a" "op_level x = l" "fits l a" "fits (Suc l) b"
  using assms by (cases e) (auto split: if_splits simp: le_Suc_eq not_less_eq_eq)

definition level_rest :: "nat \<Rightarrow> finsh_node parser \<Rightarrow> nat \<Rightarrow> finsh_node \<Rightarrow> finsh_node parser" where
  "level_rest l operand j n p = do { (t, p) \<leftarrow> finsh_token_token p; level_loop l operand j n t p }"

lemma level_rest_round:
  assumes "finsh_token_token p = Some (op_token x, p1)" "op_level x = l" "operand p1 = Some (right, p2)"
    "add_operand x left right p2 = (n, p3)"
  shows "level_rest l operand (Suc j) left p = level_rest l operand j n p3"
  using assms by (simp add: level_rest_def level_op_token(1))

lemma level_spine:
  assumes l: "0 < l" "l < 7"
    and ops: "\<And>a. fits (Suc l) a \<Longrightarrow> known s a \<Longrightarrow> length (lexemes s a) \<le> N \<Longrightarrow> parses s (Suc l) operand a"
  shows "fits l e \<Longrightarrow> known s e \<Longrightarrow> length (lexemes s e) \<le> N \<Longrightarrow> facing s k p (lexemes s e @ r # ls) \<Longrightarrow> prec r \<le> Suc l \<Longrightarrow>
    k + nodes e \<le> FINSH_NODE_MAX \<Longrightarrow> length (lexemes s e) \<le> j \<Longrightarrow>
    \<exists>p' j'. proc_level l operand j p = level_rest l operand j' (tree s e) p' \<and> facing s (k + nodes e) p' (r # ls) \<and> j < j' + length (lexemes s e)"
proof (induction "length (lexemes s e)" arbitrary: e p r ls rule: less_induct)
  case less
  note prems = less.prems
  show ?case
  proof (cases "fits (Suc l) e")
    case True
    obtain p' where "operand p = Some (tree s e, p')" "facing s (k + nodes e) p' (r # ls)"
      by (rule parsesE [OF ops [OF True prems(2,3)] prems(4-6)])
    then show ?thesis unfolding proc_level_def level_rest_def by (intro exI [of _ p'] exI [of _ j]) simp
  next
    case False
    obtain x a b where e: "e = Binary x a b" and x: "\<not> is_neg x a" "op_level x = l" "fits l a" "fits (Suc l) b"
      by (rule fits_level [OF prems(1) False l])
    have len: "length (lexemes s e) = Suc (length (lexemes s a) + length (lexemes s b))" using x(1) e by simp
    have known: "known s a" "known s b" using prems(2) e by simp_all
    have n: "k + nodes e = Suc (k + nodes a + nodes b)" using e by simp
    have u: "facing s k p (lexemes s a @ Sym (op_token x) # lexemes s b @ r # ls)" using prems(4) x(1) e by simp
    have r: "prec (Sym (op_token x)) \<le> Suc l" using x(2) by (simp add: level_op_token(2) del: prec.simps)
    have b: "length (lexemes s a) < length (lexemes s e)" "length (lexemes s a) \<le> N" "k + nodes a \<le> FINSH_NODE_MAX" "length (lexemes s a) \<le> j"
      using len prems(3,6,7) n by simp_all
    obtain p1 j1 where p1: "proc_level l operand j p = level_rest l operand j1 (tree s a) p1"
      "facing s (k + nodes a) p1 (Sym (op_token x) # lexemes s b @ r # ls)" "j < j1 + length (lexemes s a)"
      using less.hyps [OF b(1) x(3) known(1) b(2) u r b(3,4)] by (elim exE conjE) (rule that)
    obtain p2 where p2: "finsh_token_token p1 = Some (op_token x, p2)" "got s (k + nodes a) p2 (Sym (op_token x)) (lexemes s b @ r # ls)"
      by (rule facing_sym [OF p1(2)])
    obtain p3 where p3: "operand p2 = Some (tree s b, p3)" "facing s (k + nodes a + nodes b) p3 (r # ls)"
      by (rule parsesE [OF ops [OF x(4) known(2)] got_upto(1) [OF p2(2)] prems(5)]) (use prems(3,6) len n in auto)
    obtain p4 where p4: "make_sys_node (FINSH_NODE_SYS x) (tree s a) (tree s b) p3 = (tree s e, p4)" "facing s (k + nodes e) p4 (r # ls)"
    proof (rule make_node [OF p3(2), of "tree s a" "FINSH_NODE_SYS x" "tree s b"])
      show "k + nodes a + nodes b < FINSH_NODE_MAX" "tree s a \<noteq> NULL" using prems(6) n by simp_all
    qed (use e n in \<open>simp add: add.assoc\<close>)
    obtain j2 where j2: "j1 = Suc j2" using p1(3) prems(7) len by (cases j1) auto
    have "level_rest l operand j1 (tree s a) p1 = level_rest l operand j2 (tree s e) p4"
      unfolding j2 by (rule level_rest_round [of p1 x p2 l operand _ p3, OF p2(1) x(2) p3(1)]) (use p4(1) in \<open>simp add: add_operand_def\<close>)
    then show ?thesis using p1(1,3) p4(2) j2 len by (intro exI [of _ p4] exI [of _ j2]) auto
  qed
qed

lemma level_parses:
  assumes l: "0 < l" "l < 7"
    and ops: "\<And>a. fits (Suc l) a \<Longrightarrow> known s a \<Longrightarrow> length (lexemes s a) \<le> length (lexemes s e) \<Longrightarrow> parses s (Suc l) operand a"
    and e: "fits l e" "known s e" "length (lexemes s e) \<le> j"
  shows "parses s l (proc_level l operand j) e"
  unfolding parses_def
proof (intro allI impI)
  fix p r ls k assume u: "facing s k p (lexemes s e @ r # ls)" and r: "prec r \<le> l" and n: "k + nodes e \<le> FINSH_NODE_MAX"
  obtain p1 j1 where p1: "proc_level l operand j p = level_rest l operand j1 (tree s e) p1" "facing s (k + nodes e) p1 (r # ls)"
    "j < j1 + length (lexemes s e)"
    using level_spine [OF l ops e(1,2) order_refl u le_SucI [OF r] n e(3)] by blast
  obtain p2 where p2: "finsh_token_token p1 = Some (lexeme_token r, p2)" "got s (k + nodes e) p2 r ls" by (rule facing_next [OF p1(2)])
  obtain j2 where "j1 = Suc j2" using p1(3) e(3) by (cases j1) auto
  then have "proc_level l operand j p = Some (tree s e, finsh_token_replay p2)"
    using p1(1) p2(1) by (simp add: level_rest_def level_op_None [OF r l])
  then show "\<exists>p'. proc_level l operand j p = Some (tree s e, p') \<and> facing s (k + nodes e) p' (r # ls)"
    using got_upto(2) [OF p2(2)] by simp
qed

lemma inclusive_or_parses:
  assumes cast: "\<And>a. fits 7 a \<Longrightarrow> known s a \<Longrightarrow> length (lexemes s a) \<le> n \<Longrightarrow> parses s 7 cast a"
    and e: "fits 1 e" "known s e" "length (lexemes s e) \<le> n" "n \<le> j"
  shows "parses s 1 (proc_inclusive_or_expr cast j) e"
proof -
  have l6: "parses s 6 (proc_multiplicative_expr cast j) a" if "fits 6 a" "known s a" "length (lexemes s a) \<le> n" for a
    unfolding proc_multiplicative_expr_def by (rule level_parses) (use cast that e(4) in auto)
  have l5: "parses s 5 (proc_additive_expr cast j) a" if "fits 5 a" "known s a" "length (lexemes s a) \<le> n" for a
    unfolding proc_additive_expr_def by (rule level_parses) (use l6 that e(4) in auto)
  have l4: "parses s 4 (proc_shift_expr cast j) a" if "fits 4 a" "known s a" "length (lexemes s a) \<le> n" for a
    unfolding proc_shift_expr_def by (rule level_parses) (use l5 that e(4) in auto)
  have l3: "parses s 3 (proc_and_expr cast j) a" if "fits 3 a" "known s a" "length (lexemes s a) \<le> n" for a
    unfolding proc_and_expr_def by (rule level_parses) (use l4 that e(4) in auto)
  have l2: "parses s 2 (proc_exclusive_or_expr cast j) a" if "fits 2 a" "known s a" "length (lexemes s a) \<le> n" for a
    unfolding proc_exclusive_or_expr_def by (rule level_parses) (use l3 that e(4) in auto)
  show ?thesis unfolding proc_inclusive_or_expr_def by (rule level_parses) (use l2 e in \<open>auto simp: numeral_2_eq_2\<close>)
qed

subsection \<open>Assignments\<close>

lemma assign_rest:
  assumes left: "parses s 1 (proc_inclusive_or_expr (proc_cast_expr (proc_assign_expr j) j) j) a"
    and right: "parses s 0 (proc_assign_expr j) b"
    and e: "lexemes s e = lexemes s a @ Sym finsh_token_type_assign # lexemes s b" "tree s e = sys_node FINSH_NODE_SYS_ASSIGN (tree s a) (tree s b)"
      "nodes e = Suc (nodes a + nodes b)"
  shows "parses s 0 (proc_assign_expr (Suc j)) e"
  unfolding parses_def
proof (intro allI impI)
  fix p r ls k assume u: "facing s k p (lexemes s e @ r # ls)" and r: "prec r \<le> 0" and n: "k + nodes e \<le> FINSH_NODE_MAX"
  have u': "facing s k p (lexemes s a @ Sym finsh_token_type_assign # lexemes s b @ r # ls)" using u e(1) by simp
  obtain p1 where p1: "proc_inclusive_or_expr (proc_cast_expr (proc_assign_expr j) j) j p = Some (tree s a, p1)"
    "facing s (k + nodes a) p1 (Sym finsh_token_type_assign # lexemes s b @ r # ls)"
    by (rule parsesE [OF left u']) (use n e(3) in auto)
  obtain p2 where p2: "finsh_token_token p1 = Some (finsh_token_type_assign, p2)" "got s (k + nodes a) p2 (Sym finsh_token_type_assign) (lexemes s b @ r # ls)"
    by (rule facing_sym [OF p1(2)])
  obtain p3 where p3: "proc_assign_expr j p2 = Some (tree s b, p3)" "facing s (k + nodes a + nodes b) p3 (r # ls)"
    by (rule parsesE [OF right got_upto(1) [OF p2(2)] r]) (use n e(3) in auto)
  obtain p4 where "make_sys_node FINSH_NODE_SYS_ASSIGN (tree s a) (tree s b) p3 = (tree s e, p4)" "facing s (k + nodes e) p4 (r # ls)"
    using make_node [OF p3(2), of "tree s a" FINSH_NODE_SYS_ASSIGN "tree s b"] n e(2,3) by (auto simp: add.assoc)
  then show "\<exists>p'. proc_assign_expr (Suc j) p = Some (tree s e, p') \<and> facing s (k + nodes e) p' (r # ls)"
    using p1(1) p2(1) p3(1) by simp
qed

lemma no_assign_rest:
  assumes left: "parses s 1 (proc_inclusive_or_expr (proc_cast_expr (proc_assign_expr j) j) j) e"
  shows "parses s 0 (proc_assign_expr (Suc j)) e"
  unfolding parses_def
proof (intro allI impI)
  fix p r ls k assume u: "facing s k p (lexemes s e @ r # ls)" and r: "prec r \<le> 0" and n: "k + nodes e \<le> FINSH_NODE_MAX"
  obtain p1 where p1: "proc_inclusive_or_expr (proc_cast_expr (proc_assign_expr j) j) j p = Some (tree s e, p1)" "facing s (k + nodes e) p1 (r # ls)"
    by (rule parsesE [OF left u _ n]) (use r in auto)
  obtain p2 where p2: "finsh_token_token p1 = Some (lexeme_token r, p2)" "got s (k + nodes e) p2 r ls" by (rule facing_next [OF p1(2)])
  have "lexeme_token r \<noteq> finsh_token_type_assign" using r by (cases r) auto
  then show "\<exists>p'. proc_assign_expr (Suc j) p = Some (tree s e, p') \<and> facing s (k + nodes e) p' (r # ls)"
    using p1(1) p2(1) got_upto(2) [OF p2(2)] by simp
qed

lemma assign_parses: "fits 0 e \<Longrightarrow> known s e \<Longrightarrow> length (lexemes s e) + 1 < j \<Longrightarrow> parses s 0 (proc_assign_expr j) e"
proof (induction j arbitrary: e)
  case (Suc j)
  have cast: "parses s 7 (proc_cast_expr (proc_assign_expr j) j) a" if "fits 7 a" "known s a" "length (lexemes s a) < j" for a
    using that Suc.IH by (intro cast_parses) auto
  have left: "parses s 1 (proc_inclusive_or_expr (proc_cast_expr (proc_assign_expr j) j) j) a" if "fits 1 a" "known s a" "length (lexemes s a) < j" for a
    by (rule inclusive_or_parses [where n = "length (lexemes s a)"]) (use cast that in auto)
  show ?case
  proof (cases "fits 1 e")
    case True
    then show ?thesis using left Suc.prems by (intro no_assign_rest) auto
  next
    case False
    then consider x b where "e = Assign x b" | q b where "e = Store q b"
      using Suc.prems(1) op_level_bounds(1) by (cases e) (auto split: if_splits simp: Suc_le_eq)
    then show ?thesis
    proof cases
      case 1
      then show ?thesis using Suc.prems by (intro assign_rest [where a = "Var x" and b = b] left Suc.IH) auto
    next
      case 2
      then show ?thesis using Suc.prems by (intro assign_rest [where a = "Deref q" and b = b] left Suc.IH) auto
    qed
  qed
qed simp

section \<open>Statements\<close>

definition stmt_lexemes :: "finsh \<Rightarrow> expr \<Rightarrow> lexeme list" where
  "stmt_lexemes s e = lexemes s e @ [Sym finsh_token_type_semicolon]"

lemma expr_statement_run:
  assumes u: "facing s k p (stmt_lexemes s e @ ls)" and e: "fits 0 e" "known s e" "length (lexemes s e) + 1 < j" "k + nodes e \<le> FINSH_NODE_MAX"
  obtains t p1 p2 where "finsh_token_token p = Some (t, p1)" "t \<noteq> finsh_token_type_eof" "t \<noteq> finsh_token_type_bad"
    "parser_statement j root i t p1 = Some (add_statement root i [tree s e], p2)" "facing s (k + nodes e) p2 ls"
proof -
  obtain l ts where l: "lexemes s e = l # ts" "starts l" by (rule lexemes_cases)
  have u': "facing s k p (l # ts @ Sym finsh_token_type_semicolon # ls)" using u l(1) by (simp add: stmt_lexemes_def)
  obtain p1 where p1: "finsh_token_token p = Some (lexeme_token l, p1)" "got s k p1 l (ts @ Sym finsh_token_type_semicolon # ls)"
    by (rule facing_next [OF u'])
  obtain p2 where p2: "finsh_token_token (finsh_token_replay p1) = Some (lexeme_token l, p2)" "got s k p2 l (ts @ Sym finsh_token_type_semicolon # ls)"
    by (rule facing_next [OF got_upto(2) [OF p1(2)]])
  have "facing s k (finsh_token_replay p2) (lexemes s e @ Sym finsh_token_type_semicolon # ls)" using got_upto(2) [OF p2(2)] l(1) by simp
  then obtain p3 where p3: "proc_assign_expr j (finsh_token_replay p2) = Some (tree s e, p3)" "facing s (k + nodes e) p3 (Sym finsh_token_type_semicolon # ls)"
    by (rule parsesE [OF assign_parses [OF e(1-3)] _ _ e(4)]) auto
  obtain p4 where p4: "finsh_token_token p3 = Some (finsh_token_type_semicolon, p4)" "got s (k + nodes e) p4 (Sym finsh_token_type_semicolon) ls"
    using facing_sym [OF p3(2)] by auto
  have "proc_expr_statement j (finsh_token_replay p1) = Some (tree s e, p4)"
    using p2(1) p3(1) p4(1) starts_token [OF l(2)] by (simp add: proc_expr_statement_def match_token_def check_token_def)
  then have "parser_statement j root i (lexeme_token l) p1 = Some (add_statement root i [tree s e], p4)"
    using starts_token [OF l(2)] by (simp add: parser_statement_def as_list_def)
  then show thesis using that [OF p1(1)] starts_token [OF l(2)] got_upto(1) [OF p4(2)] by simp
qed

lemma add_last: "add_statement root (length root - 1) [n] = (root @ [n], length root)"
  by (cases root) (simp_all add: add_statement_def)

lemma statements_run:
  assumes "facing s k p (concat (map (stmt_lexemes s) es))" "list_all (fits 0) es" "list_all (known s) es"
    "length (concat (map (stmt_lexemes s) es)) + 1 < j" "k + sum_list (map nodes es) \<le> FINSH_NODE_MAX" "i = length root - 1"
  shows "\<exists>p'. Option.bind (finsh_token_token p) (\<lambda>(t, p). parser_loop j root i t p) = Some (root @ map (tree s) es, p') \<and>
    shell p' = s\<lparr>nodes_used := k + sum_list (map nodes es)\<rparr>"
  using assms
proof (induction es arbitrary: k p j i root)
  case Nil
  then obtain j' where j: "j = Suc j'" by (cases j) auto
  have "stream p []" "shell p = s\<lparr>nodes_used := k\<rparr>" using Nil(1) by (simp_all add: facing_def)
  then obtain p' where "finsh_token_token p = Some (finsh_token_type_eof, p')" "shell p' = s\<lparr>nodes_used := k\<rparr>"
    using next_end [of p] by auto
  then show ?case using j by simp
next
  case (Cons e es)
  obtain j' where j: "j = Suc j'" using Cons.prems(4) by (cases j) auto
  have "length (stmt_lexemes s e) = Suc (length (lexemes s e))" "0 < length (lexemes s e)" by (simp_all add: stmt_lexemes_def)
  then have len: "length (lexemes s e) + 1 < j'" "length (concat (map (stmt_lexemes s) es)) + 1 < j'"
    using Cons.prems(4) j by simp_all
  obtain t p1 p2 where p: "finsh_token_token p = Some (t, p1)" "t \<noteq> finsh_token_type_eof" "t \<noteq> finsh_token_type_bad"
    "parser_statement j' root i t p1 = Some ((root @ [tree s e], length root), p2)"
    "facing s (k + nodes e) p2 (concat (map (stmt_lexemes s) es))"
    by (rule expr_statement_run [of s k p e "concat (map (stmt_lexemes s) es)" j' root i]) (use Cons.prems len add_last in auto)
  have "\<exists>p'. Option.bind (finsh_token_token p2) (\<lambda>(t, p). parser_loop j' (root @ [tree s e]) (length root) t p) =
      Some ((root @ [tree s e]) @ map (tree s) es, p') \<and> shell p' = s\<lparr>nodes_used := k + nodes e + sum_list (map nodes es)\<rparr>"
    by (rule Cons.IH [OF p(5)]) (use Cons.prems len(2) in auto)
  then show ?case using p(1-4) j by (auto simp: add.assoc)
qed

lemma lexemes_ok: "fits l e \<Longrightarrow> known s e \<Longrightarrow> list_all lexeme_ok (lexemes s e)"
  "list_all (fits 0) es \<Longrightarrow> list_all (known s) es \<Longrightarrow> list_all lexeme_ok (arg_lexemes s es)"
proof (induction s e and s es arbitrary: l and rule: lexemes_arg_lexemes.induct)
  case (5 s x a b)
  have "sym_text (op_token x) \<noteq> []" by (cases x) auto
  then show ?case using 5 by (auto split: if_splits)
next
  case (11 s f es)
  then show ?case by (auto simp: call_known_def)
qed (auto simp: is_name_def dest: place_known.simps [THEN iffD1] split: place.splits elim: place_known.elims)

lemma line_ok_stmts: "list_all (fits 0) es \<Longrightarrow> list_all (known s) es \<Longrightarrow> line_ok (concat (map (stmt_lexemes s) es))"
proof (induction es)
  case (Cons e es)
  have *: "line_ok (ls @ Sym finsh_token_type_semicolon # rs)" if "list_all lexeme_ok ls" "line_ok rs" for ls rs
    using that
  proof (induction ls)
    case Nil
    then show ?case by (cases rs) auto
  next
    case (Cons l ls)
    then show ?case by (cases "ls @ Sym finsh_token_type_semicolon # rs") auto
  qed
  then show ?case using Cons lexemes_ok(1) [of 0 e s] by (simp add: stmt_lexemes_def)
qed simp

section \<open>Command lines\<close>

definition line_of :: "finsh \<Rightarrow> expr list \<Rightarrow> string" where
  "line_of s es = text_of (concat (map (stmt_lexemes s) es))"

text \<open>The commands that can be written on a line.\<close>

definition writable :: "finsh \<Rightarrow> expr list \<Rightarrow> bool" where
  "writable s es \<longleftrightarrow> es \<noteq> [] \<and> list_all (fits 0) es \<and> list_all (known s) es \<and> sum_list (map nodes es) \<le> FINSH_NODE_MAX"

lemma parser_run_line:
  assumes "writable s es" "nodes_used (shell p) = 0" "shell p = s" "length (concat (map (stmt_lexemes s) es)) + 1 < k"
  obtains p' where "finsh_parser_run k (line_of s es) p = Some (map (tree s) es, p')" "shell p' = s\<lparr>nodes_used := sum_list (map nodes es)\<rparr>"
proof -
  let ?p = "finsh_token_init (line_of s es) p"
  have "ahead ?p (text_of (concat (map (stmt_lexemes s) es)))" by (simp add: ahead_def finsh_token_init_def line_of_def)
  moreover have "\<not> tok_replay ?p" "shell ?p = s\<lparr>nodes_used := 0\<rparr>" using assms(2,3) by (auto simp: finsh_token_init_def)
  moreover have "line_ok (concat (map (stmt_lexemes s) es))" using assms(1) line_ok_stmts by (simp add: writable_def)
  ultimately have "facing s 0 ?p (concat (map (stmt_lexemes s) es))" by (simp add: facing_def stream_def)
  then show thesis
    using statements_run [of s 0 ?p es k 0 "[]"] assms(1,4) that by (auto simp: finsh_parser_run_def writable_def)
qed

text \<open>
  C12. The parser reads what was written: from the text of commands on known names, which need no parentheses, it makes their trees, with no error
  and no more nodes than theirs; the fuel is the number of lexemes and two.
\<close>

theorem finsh_parser_run_round:
  assumes "writable s es" "shell p = s" "nodes_used s = 0" "length (concat (map (stmt_lexemes s) es)) + 1 < k"
  shows "map_option (\<lambda>(root, p). (root, shell p)) (finsh_parser_run k (line_of s es) p) =
    Some (map (tree s) es, s\<lparr>nodes_used := sum_list (map nodes es)\<rparr>)"
  by (rule parser_run_line [OF assms(1) _ assms(2,4)]) (use assms(2,3) in auto)

text \<open>The line \<^verbatim>\<open>a = f ( 40 , 2 ) ; a ++ * 2 ;\<close>, with a blank in front of every lexeme, in the shell of \<open>RT_Finsh_Correct\<close>.\<close>

definition demo_parser :: finsh_parser where
  "demo_parser = \<lparr>tok_eof = False, tok_replay = False, tok_position = 0, tok_current = finsh_token_type_0, tok_value = 0, tok_string = [], tok_line = [],
     shell = demo_finsh\<rparr>"

definition demo_line :: "expr list" where
  "demo_line = [Assign (Global 0) (Call 0x4000 [Lit FINSH_NODE_VALUE_INT 40, Lit FINSH_NODE_VALUE_INT 2]), Binary Mul (Post Add 0) (Lit FINSH_NODE_VALUE_INT 2)]"

lemmas line_defs = line_of_def text_of_def stmt_lexemes_def is_neg_def call_name_def syscall_at_def

lemma demo_writable: "writable demo_finsh demo_line"
proof -
  have a: "finsh_var_lookup ''a'' demo_finsh = 0x1000"
    by (simp add: finsh_var_lookup_def same_name_def demo_defs)
  have "var_find (replicate 6 no_var) ''f'' 2 = 8" by (simp add: eval_nat_numeral same_name_def)
  then have v: "var_find (global_variable demo_finsh) ''f'' 0 = 8" by (simp add: demo_finsh_def same_name_def numeral_2_eq_2)
  have f: "finsh_var_lookup ''f'' demo_finsh = 0" "finsh_sysvar_lookup ''f'' demo_finsh = 0" "finsh_syscall_lookup ''f'' demo_finsh = 0x4000"
    using v by (simp_all add: finsh_var_lookup_def finsh_sysvar_lookup_def finsh_syscall_lookup_def) (simp_all add: demo_finsh_def)
  have n: "is_name ''a''" "is_name ''f''" by code_simp+
  have "place_known demo_finsh (Global 0)" using a n(1) by (simp add: demo_defs)
  moreover have "call_known demo_finsh 0x4000" using f n(2) by (simp add: call_known_def call_name_def syscall_at_def) (simp add: demo_defs)
  ultimately show ?thesis by (simp add: writable_def demo_line_def is_neg_def)
qed

lemma demo_text: "line_of demo_finsh demo_line = '' a = f ( 40 , 2 ) ; a ++ * 2 ;''"
proof -
  have d: "decimal 40 = ''40''" "decimal 2 = ''2''" by code_simp+
  have "unat (40 :: u32) = 40" "unat (2 :: u32) = 2" by simp_all
  then show ?thesis using d by (simp add: demo_line_def line_defs demo_finsh_def)
qed

theorem finsh_parser_run_round_witness:
  "map_option (\<lambda>(root, p). root) (finsh_parser_run 25 '' a = f ( 40 , 2 ) ; a ++ * 2 ;'' demo_parser) = Some (map (tree demo_finsh) demo_line)"
proof -
  have "length (concat (map (stmt_lexemes demo_finsh) demo_line)) + 1 < 25" by (simp add: demo_line_def line_defs)
  then have "map_option (\<lambda>(root, p). (root, shell p)) (finsh_parser_run 25 (line_of demo_finsh demo_line) demo_parser) =
      Some (map (tree demo_finsh) demo_line, demo_finsh\<lparr>nodes_used := sum_list (map nodes demo_line)\<rparr>)"
    by (intro finsh_parser_run_round demo_writable) (simp_all add: demo_parser_def demo_finsh_def)
  then show ?thesis unfolding demo_text by auto
qed

subsection \<open>From the line to the value\<close>

lemma place_nodes [simp]: "place_addr (s\<lparr>nodes_used := n\<rparr>) x = place_addr s x" "function_of (s\<lparr>nodes_used := n\<rparr>) f = function_of s f"
    "place_ok (s\<lparr>nodes_used := n\<rparr>) x = place_ok s x" "place_info (s\<lparr>nodes_used := n\<rparr>) x = place_info s x"
    "syscall_at (s\<lparr>nodes_used := n\<rparr>) f = syscall_at s f"
    "var_addr (s\<lparr>nodes_used := n\<rparr>) i = var_addr s i"
  by (cases x; simp add: var_addr_def sysvar_at_def function_of_def syscall_at_def)+

lemma eval_nodes [simp]: "eval sys (s\<lparr>nodes_used := n\<rparr>) e = eval sys s e" "eval_args sys (s\<lparr>nodes_used := n\<rparr>) es = eval_args sys s es"
proof -
  have "eval sys (s\<lparr>nodes_used := n\<rparr>) e m = eval sys s e m" "eval_args sys (s\<lparr>nodes_used := n\<rparr>) es m = eval_args sys s es m" for m
  proof (induction sys s e m and sys s es m rule: eval_eval_args.induct)
  qed (auto intro!: Option.bind_cong simp: Let_def simp del: place_addr.simps)
  then show "eval sys (s\<lparr>nodes_used := n\<rparr>) e = eval sys s e" "eval_args sys (s\<lparr>nodes_used := n\<rparr>) es = eval_args sys s es" by auto
qed

lemma eval_list_nodes [simp]: "eval_list sys (s\<lparr>nodes_used := n\<rparr>) es m = eval_list sys s es m"
  by (induction sys s es m rule: eval_list.induct) (auto intro!: Option.bind_cong)

lemma tree_nodes [simp]: "tree (s\<lparr>nodes_used := n\<rparr>) e = tree s e"
  by (induction e) (simp_all cong: map_cong)

lemma trees_nodes [simp]: "tree (s\<lparr>nodes_used := n\<rparr>) = tree s"
  by (rule ext) simp

lemma wt_nodes [simp]: "wt (s\<lparr>nodes_used := n\<rparr>) e = wt s e"
  by (induction e) (simp_all add: list_all_iff)

lemma code_nodes [simp]: "code_of (s\<lparr>nodes_used := n\<rparr>) e = code_of s e"
  by (induction e) (simp_all add: Let_def cong: map_cong del: place_addr.simps)

lemma code_list_nodes [simp]: "code_list (s\<lparr>nodes_used := n\<rparr>) es = code_list s es"
  by (induction s es rule: code_list.induct) simp_all

text \<open>
  C3. The shell does what the line says: for well-typed commands that can be written without parentheses and whose code fits, it prints the
  value of the last one and leaves the memory as the commands do, and nothing else; if a command has no result, neither has the line.
\<close>

theorem finsh_run_line_value:
  assumes "writable s es" "list_all (wt s) es" "length (assemble (code_list s es)) \<le> FINSH_TEXT_MAX" "length (finsh_vm_stack s) = FINSH_STACK_MAX"
    "shell p = s" "nodes_used s = 0" "global_errno s = FINSH_ERROR_OK" "length (concat (map (stmt_lexemes s) es)) + 1 < k"
  shows "map_option (\<lambda>(out, p). (out, fmem (shell p))) (finsh_run_line k sys (line_of s es) p) =
    map_option (\<lambda>(v, m). ([Value v], m)) (eval_list sys s es (fmem s))"
proof -
  let ?s = "s\<lparr>nodes_used := sum_list (map nodes es)\<rparr>"
  obtain p' where p': "finsh_parser_run k (line_of s es) p = Some (map (tree s) es, p')" "shell p' = ?s"
    by (rule parser_run_line [OF assms(1) _ assms(5,8)]) (use assms(5,6) in auto)
  obtain s1 where s1: "finsh_compiler_run (chain (map (tree s) es)) ?s = Some s1" "global_errno s1 = FINSH_ERROR_OK"
    "map_option (\<lambda>s2. (finsh_stack_bottom s2, fmem s2)) (finsh_vm_run sys s1) = eval_list sys s es (fmem s)"
    using command_correct [of es ?s sys] assms(1-4,7) by (auto simp: writable_def list_all_iff)
  have "fmem (finsh_flush s2) = fmem s2" for s2 by (simp add: finsh_flush_def finsh_node_init_def finsh_error_set_def)
  then show ?thesis unfolding s1(3) [symmetric] finsh_run_line_def
    by (cases "finsh_vm_run sys s1") (simp_all add: p' s1(1,2) assms(7))
qed

theorem finsh_run_line_value_witness:
  "map_option (\<lambda>(out, p). (out, load32 (fmem (shell p)) 0x1014)) (finsh_run_line 25 demo_calls '' a = f ( 40 , 2 ) ; a ++ * 2 ;'' demo_parser) =
    Some ([Value 84], 43)"
proof -
  have wt: "list_all (wt demo_finsh) demo_line" by (simp add: demo_line_def demo_defs)
  have len: "length (assemble (code_list demo_finsh demo_line)) \<le> FINSH_TEXT_MAX" by (simp add: demo_line_def Let_def)
  have ev: "eval_list demo_calls demo_finsh demo_line (fmem demo_finsh) = Some (84, store32 0x1014 43 (store32 0x1014 42 (\<lambda>_. 0)))"
    by (simp add: demo_line_def demo_defs Let_def load_store32)
  have fuel: "length (concat (map (stmt_lexemes demo_finsh) demo_line)) + 1 < 25" by (simp add: demo_line_def line_defs)
  have "map_option (\<lambda>(out, p). (out, fmem (shell p))) (finsh_run_line 25 demo_calls (line_of demo_finsh demo_line) demo_parser) =
      Some ([Value 84], store32 0x1014 43 (store32 0x1014 42 (\<lambda>_. 0)))"
    by (subst finsh_run_line_value [OF demo_writable wt len _ _ _ _ fuel]) (simp_all add: ev, simp_all add: demo_parser_def demo_finsh_def)
  then show ?thesis unfolding demo_text by (auto simp: load_store32)
qed

end
