(* ===== verification/RT_Finsh_Errors.thy ===== *)
theory RT_Finsh_Errors
  imports RT_Finsh_Grammar
begin

text \<open>
  Lines that the finsh shell rejects or misreads: an error of the lexer or the parser is never cleared before the end of the line, so what is behind
  a syntax error is not run; expressions in parentheses are such errors; and what is lost of lines with declarations.
\<close>

section \<open>Errors stay\<close>

definition has_error :: "finsh_parser \<Rightarrow> bool" where
  "has_error p \<longleftrightarrow> global_errno (shell p) \<noteq> FINSH_ERROR_OK"

lemma has_error_frame [simp]: "has_error (p\<lparr>tok_eof := b\<rparr>) = has_error p" "has_error (p\<lparr>tok_replay := b\<rparr>) = has_error p"
    "has_error (p\<lparr>tok_position := n\<rparr>) = has_error p" "has_error (p\<lparr>tok_current := t\<rparr>) = has_error p" "has_error (p\<lparr>tok_value := v\<rparr>) = has_error p"
    "has_error (p\<lparr>tok_string := cs\<rparr>) = has_error p" "has_error (set_token t p) = has_error p" "has_error (token_prev_char p) = has_error p"
    "has_error (finsh_token_replay p) = has_error p" "e \<noteq> 0 \<Longrightarrow> has_error (set_error e p)"
  by (simp_all add: has_error_def set_token_def token_prev_char_def finsh_token_replay_def set_error_def finsh_error_set_def)

lemma next_char_error [simp]: "has_error (snd (token_next_char p)) = has_error p"
  by (simp add: token_next_char_def)

lemma next_char_error': "token_next_char p = (c, p') \<Longrightarrow> has_error p' = has_error p"
  using next_char_error [of p] by simp

lemma put_string_error: "put_string_at i c p = Some p' \<Longrightarrow> has_error p' = has_error p"
  by (auto simp: put_string_at_def split: if_splits)

text \<open>Rules that go through a function step by step: \<open>okp P r\<close> says that a result that there is satisfies \<open>P\<close>.\<close>

named_theorems wp

lemma wp_if [wp]: "okp P a \<Longrightarrow> okp P b \<Longrightarrow> okp P (if c then a else b)"
  by simp

lemma wp_Some [wp]: "P x \<Longrightarrow> okp P (Some x)"
  by simp

lemma wp_None [wp]: "okp P None"
  by simp

lemma wp_bind [wp]: "okp (\<lambda>x. okp P (f x)) r \<Longrightarrow> okp P (Option.bind r f)"
  by (cases r) auto

lemma wp_map [wp]: "okp (\<lambda>x. P (f x)) r \<Longrightarrow> okp P (map_option f r)"
  by (cases r) auto

lemma wpI: "(\<And>x. r = Some x \<Longrightarrow> has_error p \<Longrightarrow> has_error (f x)) \<Longrightarrow> (\<And>x. (has_error p \<longrightarrow> has_error (f x)) \<Longrightarrow> P x) \<Longrightarrow> okp P r"
  by (cases r) auto

lemma wp_case [wp]: "okp P a \<Longrightarrow> (\<And>y. okp P (f y)) \<Longrightarrow> okp P (case x of None \<Rightarrow> a | Some y \<Rightarrow> f y)"
  by (cases x) auto

lemmas wp_unfold = Let_def case_prod_unfold

lemma put_string_wp [wp]: "(\<And>x. (has_error p \<longrightarrow> has_error x) \<Longrightarrow> P x) \<Longrightarrow> okp P (put_string_at i c p)"
  by (rule wpI [where f = "\<lambda>x. x" and p = p]) (simp_all add: put_string_error)

subsection \<open>The lexer\<close>

lemmas lex_error = next_char_error' put_string_error

lemma trim_loop_error: "trim_loop p = Some p' \<Longrightarrow> has_error p' = has_error p"
proof (induction rule: trim_loop.raw_induct [rotated, consumes 1])
  case (1 trim_loop p p')
  from 1(2) show ?case by (auto split: prod.splits if_splits dest!: lex_error 1(1))
qed

lemma name_loop_error: "name_loop ch i p = Some r \<Longrightarrow> has_error (snd r) = has_error p"
proof (induction rule: name_loop.raw_induct [rotated, consumes 1])
  case (1 name_loop ch i p r)
  from 1(2) show ?case by (auto split: prod.splits if_splits bind_splits dest!: lex_error 1(1))
qed

lemma char_digits_error: "char_digits_loop ch i p = Some r \<Longrightarrow> has_error (snd r) = has_error p"
proof (induction rule: char_digits_loop.raw_induct [rotated, consumes 1])
  case (1 char_digits_loop ch i p r)
  from 1(2) show ?case by (auto split: prod.splits if_splits dest!: lex_error 1(1))
qed

lemma escape_loop_error: "escape_loop b ch r p = Some x \<Longrightarrow> has_error (snd x) = has_error p"
proof (induction rule: escape_loop.raw_induct [rotated, consumes 1])
  case (1 escape_loop b ch r p x)
  from 1(2) show ?case by (auto simp: Let_def split: prod.splits if_splits dest!: lex_error 1(1))
qed

lemma digits_loop_error: "digits_loop f ch buf p = Some x \<Longrightarrow> has_error (snd (snd x)) = has_error p"
proof (induction rule: digits_loop.raw_induct [rotated, consumes 1])
  case (1 digits_loop f ch buf p x)
  from 1(2) show ?case by (auto simp: Let_def split: prod.splits if_splits dest!: lex_error 1(1))
qed

lemma decimal_loop_error: "decimal_loop ch v p = Some x \<Longrightarrow> has_error (snd (snd x)) = has_error p"
proof (induction rule: decimal_loop.raw_induct [rotated, consumes 1])
  case (1 decimal_loop ch v p x)
  from 1(2) show ?case by (auto simp: Let_def split: prod.splits if_splits dest!: lex_error 1(1))
qed

lemma trim_wp [wp]: "(\<And>x. (has_error p \<longrightarrow> has_error x) \<Longrightarrow> P x) \<Longrightarrow> okp P (trim_loop p)"
  by (rule wpI [where f = "\<lambda>x. x" and p = p]) (simp_all add: trim_loop_error)

lemma loops_wp [wp]: "(\<And>x. (has_error p \<longrightarrow> has_error (snd x)) \<Longrightarrow> P x) \<Longrightarrow> okp P (name_loop ch i p)"
    "(\<And>x. (has_error p \<longrightarrow> has_error (snd x)) \<Longrightarrow> P x) \<Longrightarrow> okp P (char_digits_loop ch i p)"
    "(\<And>x. (has_error p \<longrightarrow> has_error (snd x)) \<Longrightarrow> Q x) \<Longrightarrow> okp Q (escape_loop b ch r p)"
    "(\<And>x. (has_error p \<longrightarrow> has_error (snd (snd x))) \<Longrightarrow> R x) \<Longrightarrow> okp R (digits_loop g ch buf p)"
    "(\<And>x. (has_error p \<longrightarrow> has_error (snd (snd x))) \<Longrightarrow> T x) \<Longrightarrow> okp T (decimal_loop ch v p)"
      apply (rule wpI [where f = snd and p = p]; simp add: name_loop_error)
     apply (rule wpI [where f = snd and p = p]; simp add: char_digits_error)
    apply (rule wpI [where f = snd and p = p]; simp add: escape_loop_error)
   apply (rule wpI [where f = "\<lambda>x. snd (snd x)" and p = p]; simp add: digits_loop_error)
  apply (rule wpI [where f = "\<lambda>x. snd (snd x)" and p = p]; simp add: decimal_loop_error)
  done

lemma escape_wp [wp]: "(\<And>x. (has_error p \<longrightarrow> has_error (snd x)) \<Longrightarrow> P x) \<Longrightarrow> okp P (token_proc_escape p)"
  unfolding token_proc_escape_def wp_unfold by (intro wp) simp_all

lemma proc_char_wp [wp]: "(\<And>x. (has_error p \<longrightarrow> has_error (snd x)) \<Longrightarrow> P x) \<Longrightarrow> okp P (token_proc_char p)"
  unfolding token_proc_char_def wp_unfold by (intro wp) simp_all

lemma string_loop_error: "string_loop i p = Some p' \<Longrightarrow> has_error p \<longrightarrow> has_error p'"
proof (induction rule: string_loop.raw_induct [rotated, consumes 1])
  case (1 string_loop i p p')
  have "okp P (string_loop i p)" if "\<And>x. (has_error p \<longrightarrow> has_error x) \<Longrightarrow> P x" for P i p
    using that 1(1) by (auto simp: okp_iff)
  note * = wp this
  have "okp (\<lambda>x. has_error p \<longrightarrow> has_error x) (if i < FINSH_STRING_MAX then
       (let (ch, p) = token_next_char p in
        if tok_eof p then Some (set_error FINSH_ERROR_UNEXPECT_END p)
        else if ch = CHR 0x5C then do {
          (r, p) \<leftarrow> token_proc_escape p;
          p \<leftarrow> put_string_at i (char_of (unat (r AND 0xFF))) p;
          string_loop (i + 1) p }
        else if ch = CHR 0x22 then put_string_at i NUL p
        else do {
          p \<leftarrow> put_string_at i ch p;
          string_loop (i + 1) p })
     else Some p)"
    unfolding wp_unfold by (intro *) simp_all
  then show ?case using 1(2) by (rule okpD)
qed

lemma string_wp [wp]: "(\<And>x. (has_error p \<longrightarrow> has_error x) \<Longrightarrow> P x) \<Longrightarrow> okp P (token_proc_string p)"
  unfolding token_proc_string_def by (rule wpI [where f = "\<lambda>x. x" and p = p]) (simp_all add: string_loop_error [rule_format])

lemma number_wp [wp]: "(\<And>x. (has_error p \<longrightarrow> has_error x) \<Longrightarrow> P x) \<Longrightarrow> okp P (token_proc_number p)"
  unfolding token_proc_number_def number_suffix_def wp_unfold by (intro wp) simp_all

lemma one_or_two_error [simp]: "has_error (one_or_two c t2 t1 p) = has_error p"
  by (simp add: one_or_two_def wp_unfold)

lemma operator_wp [wp]: "(\<And>x. (has_error p \<longrightarrow> has_error x) \<Longrightarrow> P x) \<Longrightarrow> okp P (token_operator p)"
  unfolding token_operator_def wp_unfold by (intro wp) simp_all

lemma get_string_wp [wp]: "(\<And>x. (has_error p \<longrightarrow> has_error x) \<Longrightarrow> P x) \<Longrightarrow> okp P (token_get_string p)"
  unfolding token_get_string_def wp_unfold by (intro wp) simp_all

lemma token_wp [wp]: "(\<And>x. (has_error p \<longrightarrow> has_error (snd x)) \<Longrightarrow> P x) \<Longrightarrow> okp P (finsh_token_token p)"
  unfolding finsh_token_token_def token_run_def token_trim_space_def wp_unfold by (intro wp) simp_all

subsection \<open>Nodes and the heap\<close>

lemma heap_frame [simp]: "global_errno (set_block_length h n s) = global_errno s" "global_errno (set_block_next h n s) = global_errno s"
    "global_errno (finsh_block_split h n s) = global_errno s"
  by (simp_all add: set_block_length_def set_block_next_def finsh_block_split_def Let_def)

lemma heap_errno: "finsh_block_insert l h s = Some x \<Longrightarrow> global_errno (snd x) = global_errno s"
    "finsh_block_remove l h s = Some x \<Longrightarrow> global_errno (snd x) = global_errno s"
    "finsh_block_merge l h s = Some s' \<Longrightarrow> global_errno s' = global_errno s"
  by (auto simp: finsh_block_insert_def finsh_block_remove_def finsh_block_merge_def Let_def split: if_splits bind_splits)

lemma heap_free_errno: "finsh_heap_free p s = Some s' \<Longrightarrow> global_errno s' = global_errno s"
  by (auto simp: finsh_heap_free_def Let_def split: if_splits bind_splits dest!: heap_errno)

lemma heap_gc_errno: "heap_gc_loop h s = Some s' \<Longrightarrow> global_errno s' = global_errno s"
proof (induction rule: heap_gc_loop.raw_induct [rotated, consumes 1])
  case (1 heap_gc_loop h s s')
  from 1(2) show ?case by (auto simp: Let_def split: if_splits bind_splits dest!: heap_free_errno 1(1))
qed

lemma take_block_errno: "take_block h n s = Some x \<Longrightarrow> global_errno (snd x) = global_errno s"
  by (auto simp: take_block_def Let_def split: bind_splits dest!: heap_errno)

lemma heap_allocate_errno: "finsh_heap_allocate n s = Some x \<Longrightarrow> global_errno (snd x) = global_errno s"
  by (auto simp: finsh_heap_allocate_def finsh_heap_gc_def Let_def split: if_splits bind_splits dest!: heap_gc_errno take_block_errno)

lemma shell_error: "has_error p \<Longrightarrow> (global_errno (shell p) \<noteq> FINSH_ERROR_OK \<longrightarrow> global_errno (snd (f (shell p))) \<noteq> FINSH_ERROR_OK) \<Longrightarrow>
    has_error (snd (with_shell f p))"
  by (simp add: has_error_def with_shell_def case_prod_unfold Let_def)

lemma node_errors [simp]: "has_error p \<Longrightarrow> has_error (snd (with_shell (finsh_node_allocate t) p))"
    "has_error p \<Longrightarrow> has_error (snd (with_shell (finsh_node_new_value t v) p))"
    "has_error p \<Longrightarrow> has_error (snd (with_shell (finsh_node_new_id w) p))"
    "has_error p \<Longrightarrow> has_error (snd (with_shell (finsh_var_insert w ty) p))"
  by (erule shell_error; simp add: finsh_node_allocate_def finsh_node_new_value_def finsh_node_new_id_def finsh_var_insert_def finsh_error_set_def Let_def
    split: option.splits prod.splits)+

lemma make_node_error [simp]: "has_error p \<Longrightarrow> has_error (snd (make_sys_node t a b p))"
  using node_errors(1) [of p t] by (cases "with_shell (finsh_node_allocate t) p") (auto simp: make_sys_node_def split: option.splits)

lemma new_string_wp [wp]: "(\<And>x. (has_error p \<longrightarrow> has_error (p\<lparr>shell := snd x\<rparr>)) \<Longrightarrow> P x) \<Longrightarrow> okp P (finsh_node_new_string str (shell p))"
  by (auto simp: okp_iff has_error_def finsh_node_new_string_def finsh_node_allocate_def finsh_error_set_def split: if_splits bind_splits
    dest!: heap_allocate_errno)

subsection \<open>The parser\<close>

lemma match_error [wp]: "(\<And>x. (has_error p \<longrightarrow> has_error x) \<Longrightarrow> P x) \<Longrightarrow> okp P (match_token t p)"
  unfolding match_token_def check_token_def wp_unfold by (intro wp) simp_all

lemma check_error [simp]: "has_error p \<Longrightarrow> has_error (check_token t t' p)"
  by (simp add: check_token_def)

lemma type_wp [wp]: "(\<And>x. (has_error p \<longrightarrow> has_error (snd x)) \<Longrightarrow> P x) \<Longrightarrow> okp P (proc_type p)"
  unfolding proc_type_def type_pointer_def type_fail_def wp_unfold by (intro wp) simp_all

lemma identifier_wp [wp]: "(\<And>x. (has_error p \<longrightarrow> has_error (snd x)) \<Longrightarrow> P x) \<Longrightarrow> okp P (proc_identifier p)"
  unfolding proc_identifier_def wp_unfold by (intro wp) simp_all

lemma declarator_wp [wp]: "(\<And>x. (has_error p \<longrightarrow> has_error (snd x)) \<Longrightarrow> P x) \<Longrightarrow> okp P (proc_declarator ty p)"
  unfolding proc_declarator_def wp_unfold by (intro wp) simp_all

lemma add_operand_error [simp]: "has_error p \<Longrightarrow> has_error (snd (add_operand x l r p))"
  by (simp add: add_operand_def)

lemma literal_wp [wp]: "(\<And>x. (has_error p \<longrightarrow> has_error (snd x)) \<Longrightarrow> P x) \<Longrightarrow> okp P (proc_literal t p)"
  unfolding proc_literal_def wp_unfold
  by (cases t; simp only: finsh_token_type.case; intro wp; simp)

text \<open>A function of the parser that keeps errors.\<close>

definition keeps :: "'a parser \<Rightarrow> bool" where
  "keeps f \<longleftrightarrow> (\<forall>p. okp (\<lambda>x. has_error p \<longrightarrow> has_error (snd x)) (f p))"

lemma keepsD: "keeps f \<Longrightarrow> (\<And>x. (has_error p \<longrightarrow> has_error (snd x)) \<Longrightarrow> P x) \<Longrightarrow> okp P (f p)"
  by (auto simp: keeps_def okp_iff)

lemma keeps_param_loop: "keeps expr \<Longrightarrow> keeps (param_loop expr k ns t)"
proof (induction k arbitrary: ns t)
  case (Suc k)
  show ?case unfolding keeps_def param_loop.simps wp_unfold
    by (intro allI wp keepsD [OF Suc.prems] keepsD [OF Suc.IH [OF Suc.prems]]) auto
qed (simp add: keeps_def)

lemma keeps_call: "keeps expr \<Longrightarrow> keeps (proc_call expr k)"
  unfolding keeps_def [of "proc_call expr k"] proc_call_def proc_param_list_def wp_unfold
  by (intro allI wp keepsD [of expr] keepsD [OF keeps_param_loop]) auto

lemma keeps_postfix_loop: "keeps expr \<Longrightarrow> keeps (postfix_loop expr k n t)"
proof (induction k arbitrary: n t)
  case (Suc k)
  show ?case unfolding keeps_def postfix_loop.simps wp_unfold
    by (intro allI wp keepsD [OF Suc.prems] keepsD [OF keeps_call [OF Suc.prems]] keepsD [OF Suc.IH [OF Suc.prems]]) auto
qed (simp add: keeps_def)

lemma keeps_postfix: "keeps expr \<Longrightarrow> keeps (proc_postfix_expr expr k)"
  unfolding keeps_def [of "proc_postfix_expr expr k"] proc_postfix_expr_def proc_primary_expr_def wp_unfold
  by (intro allI wp keepsD [of expr] keepsD [OF keeps_postfix_loop]) auto

lemma keeps_unary: "keeps expr \<Longrightarrow> keeps cast \<Longrightarrow> keeps (proc_unary_expr expr cast k)"
  unfolding keeps_def [of "proc_unary_expr expr cast k"] proc_unary_expr_def wp_unfold
  by (intro allI wp keepsD [of cast] keepsD [OF keeps_postfix]) auto

lemma keeps_cast: "keeps expr \<Longrightarrow> keeps (proc_cast_expr expr k)"
proof (induction k)
  case (Suc k)
  show ?case unfolding keeps_def proc_cast_expr.simps wp_unfold
    by (intro allI wp keepsD [OF Suc.IH [OF Suc.prems]] keepsD [OF keeps_unary [OF Suc.prems Suc.IH [OF Suc.prems]]]) auto
qed (simp add: keeps_def)

lemma keeps_level_loop: "keeps operand \<Longrightarrow> keeps (level_loop l operand k n t)"
proof (induction k arbitrary: n t)
  case (Suc k)
  show ?case unfolding keeps_def level_loop.simps wp_unfold
    by (intro allI wp keepsD [OF Suc.prems] keepsD [OF Suc.IH [OF Suc.prems]]) auto
qed (simp add: keeps_def)

lemma keeps_level: "keeps operand \<Longrightarrow> keeps (proc_level l operand k)"
  unfolding keeps_def [of "proc_level l operand k"] proc_level_def wp_unfold
  by (intro allI wp keepsD [of operand] keepsD [OF keeps_level_loop]) auto

lemma keeps_or: "keeps cast \<Longrightarrow> keeps (proc_inclusive_or_expr cast k)"
  unfolding proc_inclusive_or_expr_def proc_exclusive_or_expr_def proc_and_expr_def proc_shift_expr_def proc_additive_expr_def proc_multiplicative_expr_def
  by (intro keeps_level)

lemma keeps_assign: "keeps (proc_assign_expr k)"
proof (induction k)
  case (Suc k)
  show ?case unfolding keeps_def proc_assign_expr.simps wp_unfold
    by (intro allI wp keepsD [OF keeps_or [OF keeps_cast [OF Suc]]] keepsD [OF Suc]) auto
qed (simp add: keeps_def)

lemma keeps_expr_statement: "keeps (proc_expr_statement k)"
  unfolding keeps_def proc_expr_statement_def wp_unfold
  by (intro allI wp keepsD [OF keeps_assign]) auto

lemma decl_assign_wp: "(\<And>x. (has_error p \<longrightarrow> has_error (snd (snd (snd x)))) \<Longrightarrow> P x) \<Longrightarrow> okp P (decl_assign k w ns lost t p)"
  unfolding decl_assign_def wp_unfold
  by (intro wp keepsD [OF keeps_assign]) auto

lemma keeps_decl_loop: "keeps (decl_loop k ty ns lost t)"
proof (induction k arbitrary: ns lost t)
  case (Suc k)
  show ?case unfolding keeps_def decl_loop.simps wp_unfold
    by (intro allI wp keepsD [OF Suc.IH] decl_assign_wp) auto
qed (simp add: keeps_def)

lemma keeps_variable_decl: "keeps (proc_variable_decl k)"
  unfolding keeps_def proc_variable_decl_def wp_unfold
  by (intro allI wp keepsD [OF keeps_decl_loop] decl_assign_wp) auto

lemma keeps_statement: "keeps (parser_statement k root i t)"
  unfolding keeps_def parser_statement_def wp_unfold
  by (intro allI wp keepsD [OF keeps_expr_statement] keepsD [OF keeps_variable_decl]) auto

lemma keeps_parser_loop: "keeps (parser_loop k root i t)"
proof (induction k arbitrary: root i t)
  case (Suc k)
  show ?case unfolding keeps_def parser_loop.simps wp_unfold
    by (intro allI wp keepsD [OF Suc.IH] keepsD [OF keeps_statement]) auto
qed (simp add: keeps_def)

lemma loop_error:
  assumes "okp (\<lambda>x. has_error (snd x)) (parser_statement k root i t p)" "t \<noteq> finsh_token_type_eof" "t \<noteq> finsh_token_type_bad"
  shows "okp (\<lambda>x. has_error (snd x)) (parser_loop (Suc k) root i t p)"
  unfolding parser_loop.simps wp_unfold
proof (rule okp_if)
  show "okp (\<lambda>x. has_error (snd x)) (Option.bind (parser_statement k root i t p) (\<lambda>x. if fst (fst x) = [] then Some (fst (fst x), snd x)
      else Option.bind (finsh_token_token (snd x)) (\<lambda>p. parser_loop k (fst (fst x)) (snd (fst x)) (fst p) (snd p))))"
    by (rule okp_bind [OF assms(1)]) (intro wp keepsD [OF keeps_parser_loop], auto)
qed (use assms(2,3) in simp)

text \<open>Of a line with an error only the message is printed.\<close>

lemma run_line_error:
  assumes "okp (\<lambda>x. has_error (snd x)) (finsh_parser_run k line p)" "finsh_run_line k sys line p = Some (out, p')"
  obtains c where "c \<noteq> FINSH_ERROR_OK" "out = [Message c]"
proof -
  obtain root p1 where r: "finsh_parser_run k line p = Some (root, p1)" using assms(2) by (auto simp: finsh_run_line_def split: bind_splits)
  then have "global_errno (shell p1) \<noteq> FINSH_ERROR_OK" using assms(1) by (simp add: has_error_def)
  then show thesis using that [of "global_errno (shell p1)"] assms(2) r by (simp add: finsh_run_line_def)
qed

section \<open>Syntax errors\<close>

text \<open>An opening parenthesis is taken for that of a cast, and no lexeme but a keyword is a type.\<close>

lemma cast_paren:
  assumes "facing s k p (Sym finsh_token_type_left_paren # l # ls)" "base_type (lexeme_token l) = None" "lexeme_token l \<noteq> finsh_token_type_unsigned"
    "keeps expr"
  shows "okp (\<lambda>x. has_error (snd x)) (proc_cast_expr expr j p)"
proof (cases j)
  case (Suc i)
  obtain p1 where p1: "finsh_token_token p = Some (finsh_token_type_left_paren, p1)" "got s k p1 (Sym finsh_token_type_left_paren) (l # ls)"
    using facing_sym [OF assms(1)] by auto
  obtain p2 where p2: "finsh_token_token p1 = Some (lexeme_token l, p2)" by (rule facing_next [OF got_upto(1) [OF p1(2)]])
  have "proc_type p1 = Some (type_fail p2)" using p2 assms(2,3) by (simp add: proc_type_def)
  moreover have "has_error (snd (type_fail p2))" by (simp add: type_fail_def)
  moreover have "okp (\<lambda>x. has_error (snd x)) (do {
       p \<leftarrow> match_token finsh_token_type_right_paren p';
       (c, p) \<leftarrow> proc_cast_expr expr i p;
       if c \<noteq> NULL then Some (set_data_type (type_number type) c, p)
       else proc_unary_expr expr (proc_cast_expr expr i) i (finsh_token_replay p) })" if "has_error p'" for p' type
    unfolding wp_unfold
    by (intro wp keepsD [OF keeps_cast [OF assms(4)]] keepsD [OF keeps_unary [OF assms(4) keeps_cast [OF assms(4)]]]) (use that in auto)
  ultimately show ?thesis using p1(1) Suc by (simp add: case_prod_unfold)
qed simp

lemma level_error: "keeps operand \<Longrightarrow> okp (\<lambda>x. has_error (snd x)) (operand p) \<Longrightarrow> okp (\<lambda>x. has_error (snd x)) (proc_level l operand j p)"
  unfolding proc_level_def wp_unfold
  by (rule okp_bind, assumption) (intro wp keepsD [OF keeps_level_loop], auto)

lemma or_error: "keeps cast \<Longrightarrow> okp (\<lambda>x. has_error (snd x)) (cast p) \<Longrightarrow> okp (\<lambda>x. has_error (snd x)) (proc_inclusive_or_expr cast j p)"
  unfolding proc_inclusive_or_expr_def proc_exclusive_or_expr_def proc_and_expr_def proc_shift_expr_def proc_additive_expr_def proc_multiplicative_expr_def
  by (intro level_error keeps_level)

lemma assign_error:
  assumes "okp (\<lambda>x. has_error (snd x)) (proc_cast_expr (proc_assign_expr j) j p)"
  shows "okp (\<lambda>x. has_error (snd x)) (proc_assign_expr (Suc j) p)"
  unfolding proc_assign_expr.simps wp_unfold
  by (rule okp_bind [OF or_error [OF keeps_cast [OF keeps_assign] assms]]) (intro wp keepsD [OF keeps_assign], auto)

lemma line_facing:
  assumes "line_ok ls" "shell p = s" "nodes_used s = 0"
  shows "facing s 0 (finsh_token_init (text_of ls) p) ls"
  using assms by (auto simp: facing_def stream_def ahead_def finsh_token_init_def)

lemma run_error:
  assumes ok: "line_ok (l # ls)" and s: "shell p = s" "nodes_used s = 0"
    and l: "lexeme_token l \<notin> {finsh_token_type_eof, finsh_token_type_bad, finsh_token_type_unsigned}" "base_type (lexeme_token l) = None"
    and err: "\<And>p. facing s 0 p (l # ls) \<Longrightarrow> okp (\<lambda>x. has_error (snd x)) (proc_expr_statement (k - 1) p)"
  shows "okp (\<lambda>x. has_error (snd x)) (finsh_parser_run k (text_of (l # ls)) p)"
proof (cases k)
  case 0
  then show ?thesis by (simp add: finsh_parser_run_def okp_iff split: bind_splits)
next
  case (Suc j)
  let ?p = "finsh_token_init (text_of (l # ls)) p"
  obtain p1 where p1: "finsh_token_token ?p = Some (lexeme_token l, p1)" "got s 0 p1 l ls" by (rule facing_next [OF line_facing [OF ok s]])
  have e: "okp (\<lambda>x. has_error (snd x)) (proc_expr_statement j (finsh_token_replay p1))" using err [OF got_upto(2) [OF p1(2)]] Suc by simp
  have "okp (\<lambda>x. has_error (snd x)) (parser_statement j [] 0 (lexeme_token l) p1)"
    using l okp_bind [OF e, of "\<lambda>x. has_error (snd x)" "\<lambda>x. Some (add_statement [] 0 (as_list (fst x)), snd x)"]
    by (auto simp: parser_statement_def case_prod_unfold)
  then have "okp (\<lambda>x. has_error (snd x)) (parser_loop (Suc j) [] 0 (lexeme_token l) p1)" by (rule loop_error) (use l in auto)
  then show ?thesis using p1(1) Suc by (simp add: finsh_parser_run_def del: parser_loop.simps)
qed

lemma not_a_type:
  assumes "line_ok (l # ls)" "\<And>w. l \<noteq> Keyword w"
  shows "base_type (lexeme_token l) = None" "lexeme_token l \<notin> {finsh_token_type_unsigned, finsh_token_type_eof, finsh_token_type_bad}"
proof -
  have "lexeme_ok l" using assms(1) by (cases ls) auto
  then have "base_type (lexeme_token l) = None \<and> lexeme_token l \<notin> {finsh_token_type_unsigned, finsh_token_type_eof, finsh_token_type_bad}"
  proof (cases l)
    case (Sym t)
    then show ?thesis using \<open>lexeme_ok l\<close> by (cases t) (simp_all add: base_type_def)
  qed (use assms(2) in \<open>auto simp: base_type_def\<close>)
  then show "base_type (lexeme_token l) = None" "lexeme_token l \<notin> {finsh_token_type_unsigned, finsh_token_type_eof, finsh_token_type_bad}" by auto
qed

lemma statement_paren:
  assumes "facing s 0 p (Sym finsh_token_type_left_paren # l # ls)" "base_type (lexeme_token l) = None" "lexeme_token l \<noteq> finsh_token_type_unsigned"
  shows "okp (\<lambda>x. has_error (snd x)) (proc_expr_statement j p)"
proof -
  obtain p1 where p1: "finsh_token_token p = Some (finsh_token_type_left_paren, p1)" "got s 0 p1 (Sym finsh_token_type_left_paren) (l # ls)"
    using facing_sym [OF assms(1)] by auto
  have "okp (\<lambda>x. has_error (snd x)) (proc_assign_expr j (finsh_token_replay p1))"
  proof (cases j)
    case (Suc i)
    show ?thesis unfolding Suc by (rule assign_error [OF cast_paren [OF got_upto(2) [OF p1(2)] assms(2,3) keeps_assign]])
  qed simp
  then have "okp (\<lambda>x. has_error (snd x)) (do { (e, p) \<leftarrow> proc_assign_expr j (finsh_token_replay p1); p \<leftarrow> match_token finsh_token_type_semicolon p; Some (e, p) })"
    unfolding wp_unfold by (rule okp_bind) (intro wp, auto)
  then show ?thesis using p1(1) by (simp add: proc_expr_statement_def)
qed

subsection \<open>A missing semicolon\<close>

abbreviation with_errno :: "finsh \<Rightarrow> u8 \<Rightarrow> finsh" where "with_errno s c \<equiv> s\<lparr>global_errno := c\<rparr>"

lemma errno_lookups [simp]: "finsh_var_lookup w (with_errno s c) = finsh_var_lookup w s" "finsh_sysvar_lookup w (with_errno s c) = finsh_sysvar_lookup w s"
    "finsh_syscall_lookup w (with_errno s c) = finsh_syscall_lookup w s" "var_addr (with_errno s c) i = var_addr s i"
    "call_name (with_errno s c) f = call_name s f"
  by (simp_all add: finsh_var_lookup_def finsh_sysvar_lookup_def finsh_syscall_lookup_def var_addr_def call_name_def syscall_at_def Let_def split: option.split)

lemma errno_place [simp]: "place_name (with_errno s c) x = place_name s x" "place_info (with_errno s c) x = place_info s x"
  by (cases x; simp add: sysvar_at_def)+

lemma errno_known [simp]: "known (with_errno s c) = known s"
proof
  fix e
  have p: "place_known (with_errno s c) x = place_known s x" for x by (cases x) (simp_all del: place_name.simps)
  show "known (with_errno s c) e = known s e" by (induction e) (simp_all add: p call_known_def list_all_iff)
qed

lemma errno_tree [simp]: "tree (with_errno s c) = tree s"
proof
  show "tree (with_errno s c) e = tree s e" for e by (induction e) (simp_all del: place_info.simps cong: map_cong)
qed

lemma errno_lexemes [simp]: "stmt_lexemes (with_errno s c) = stmt_lexemes s" "lexemes (with_errno s c) e = lexemes s e"
proof -
  have *: "lexemes (with_errno s c) e = lexemes s e" "arg_lexemes (with_errno s c) es = arg_lexemes s es" for e es
  proof (induction s e and s es rule: lexemes_arg_lexemes.induct)
  qed (simp_all del: place_name.simps)
  show "stmt_lexemes (with_errno s c) = stmt_lexemes s" "lexemes (with_errno s c) e = lexemes s e" using * by (auto simp: stmt_lexemes_def)
qed

lemma got_error: "got s k p l ls \<Longrightarrow> facing (with_errno s c) k (set_error c p) ls" "got s k p l ls \<Longrightarrow> facing (with_errno s c) k (finsh_token_replay (set_error c p)) (l # ls)"
  using taken_stream [of p l ls] by (auto simp: got_def facing_def set_error_def finsh_error_set_def finsh_token_replay_def stream_def taken_def)

lemma replay_set_error: "finsh_token_replay (set_error c p) = set_error c (finsh_token_replay p)"
  by (simp add: finsh_token_replay_def set_error_def)

lemma unended_run:
  assumes u: "facing s k p (lexemes s e @ r # ls)" and e: "fits 0 e" "known s e" "length (lexemes s e) + 1 < j" "k + nodes e \<le> FINSH_NODE_MAX"
    and r: "prec r = 0" "r \<noteq> Sym finsh_token_type_semicolon"
  obtains t p1 p2 where "finsh_token_token p = Some (t, p1)" "t \<noteq> finsh_token_type_eof" "t \<noteq> finsh_token_type_bad"
    "parser_statement j root i t p1 = Some (add_statement root i [tree s e], p2)"
    "facing (with_errno s FINSH_ERROR_INVALID_TOKEN) (k + nodes e) p2 (r # ls)"
proof -
  obtain l ts where l: "lexemes s e = l # ts" "starts l" by (rule lexemes_cases)
  have u': "facing s k p (l # ts @ r # ls)" using u l(1) by simp
  obtain p1 where p1: "finsh_token_token p = Some (lexeme_token l, p1)" "got s k p1 l (ts @ r # ls)" by (rule facing_next [OF u'])
  obtain p2 where p2: "finsh_token_token (finsh_token_replay p1) = Some (lexeme_token l, p2)" "got s k p2 l (ts @ r # ls)"
    by (rule facing_next [OF got_upto(2) [OF p1(2)]])
  have "facing s k (finsh_token_replay p2) (lexemes s e @ r # ls)" using got_upto(2) [OF p2(2)] l(1) by simp
  then obtain p3 where p3: "proc_assign_expr j (finsh_token_replay p2) = Some (tree s e, p3)" "facing s (k + nodes e) p3 (r # ls)"
    by (rule parsesE [OF assign_parses [OF e(1-3)] _ _ e(4)]) (use r(1) in auto)
  obtain p4 where p4: "finsh_token_token p3 = Some (lexeme_token r, p4)" "got s (k + nodes e) p4 r ls" by (rule facing_next [OF p3(2)])
  let ?p = "finsh_token_replay (set_error FINSH_ERROR_INVALID_TOKEN p4)"
  have "lexeme_token r \<noteq> finsh_token_type_semicolon" using r by (cases r) auto
  then have "proc_expr_statement j (finsh_token_replay p1) = Some (tree s e, ?p)"
    using p2(1) p3(1) p4(1) starts_token [OF l(2)] by (simp add: proc_expr_statement_def match_token_def check_token_def)
  then have "parser_statement j root i (lexeme_token l) p1 = Some (add_statement root i [tree s e], ?p)"
    using starts_token [OF l(2)] by (simp add: parser_statement_def as_list_def)
  then show thesis using that [OF p1(1)] starts_token [OF l(2)] got_error(2) [OF p4(2)] by simp
qed

lemma run_line_message:
  assumes "finsh_parser_run k line p = Some (root, p1)" "shell p1 = (with_errno s c)\<lparr>nodes_used := n\<rparr>" "c \<noteq> FINSH_ERROR_OK"
  shows "map_option (\<lambda>(out, p). (out, fmem (shell p), global_variable (shell p))) (finsh_run_line k sys line p) =
    Some ([Message c], fmem s, global_variable s)"
  using assms by (simp add: finsh_run_line_def finsh_flush_def finsh_node_init_def finsh_error_set_def)

lemma missing_semicolon:
  assumes es: "es \<noteq> []" "list_all (fits 0) (e # es)" "list_all (known s) (e # es)" "sum_list (map nodes (e # es)) \<le> FINSH_NODE_MAX"
    and start: "prec (hd (lexemes s (hd es))) = 0" and s: "shell p = s" "nodes_used s = 0"
    and k: "length (lexemes s e @ concat (map (stmt_lexemes s) es)) + 2 < k"
  shows "map_option (\<lambda>(out, p). (out, fmem (shell p), global_variable (shell p)))
    (finsh_run_line k sys (text_of (lexemes s e @ concat (map (stmt_lexemes s) es))) p) = Some ([Message FINSH_ERROR_INVALID_TOKEN], fmem s, global_variable s)"
proof -
  let ?ls = "concat (map (stmt_lexemes s) es)"
  obtain r ls where r: "?ls = r # ls" "prec r = 0" "r \<noteq> Sym finsh_token_type_semicolon"
  proof -
    obtain e' es' where es': "es = e' # es'" using es(1) by (cases es) auto
    obtain l ts where l: "lexemes s e' = l # ts" "starts l" by (rule lexemes_cases)
    then show thesis using that [of l] start es' by (cases "l = Sym finsh_token_type_semicolon") (auto simp: stmt_lexemes_def)
  qed
  have ok: "line_ok (lexemes s e @ ?ls)"
  proof -
    have "line_ok (ls @ rs)" if "list_all lexeme_ok ls" "line_ok rs" "rs \<noteq> []" for ls rs using that
    proof (induction ls)
      case (Cons l ls)
      then show ?case by (cases "ls @ rs") auto
    qed simp
    then show ?thesis using lexemes_ok(1) [of 0 e s] line_ok_stmts [of es s] es r(1) by simp
  qed
  obtain j where j: "k = Suc j" using k by (cases k) auto
  let ?p = "finsh_token_init (text_of (lexemes s e @ ?ls)) p"
  have u: "facing s 0 ?p (lexemes s e @ r # ls)" using line_facing [OF ok s] r(1) by simp
  obtain t p1 p2 where p: "finsh_token_token ?p = Some (t, p1)" "t \<noteq> finsh_token_type_eof" "t \<noteq> finsh_token_type_bad"
    "parser_statement j [] 0 t p1 = Some (add_statement [] 0 [tree s e], p2)"
    "facing (with_errno s FINSH_ERROR_INVALID_TOKEN) (0 + nodes e) p2 (r # ls)"
    by (rule unended_run [OF u, of j "[]" 0]) (use es k j r in auto)
  obtain p3 where p3: "Option.bind (finsh_token_token p2) (\<lambda>(t, p). parser_loop j [tree s e] 0 t p) = Some ([tree s e] @ map (tree s) es, p3)"
    "shell p3 = (with_errno s FINSH_ERROR_INVALID_TOKEN)\<lparr>nodes_used := nodes e + sum_list (map nodes es)\<rparr>"
    using statements_run [of "with_errno s FINSH_ERROR_INVALID_TOKEN" "nodes e" p2 es j 0 "[tree s e]"] p(5) es k j r(1) by auto
  have "finsh_parser_run k (text_of (lexemes s e @ ?ls)) p = Some ([tree s e] @ map (tree s) es, p3)"
    using p(1-4) p3(1) j by (simp add: finsh_parser_run_def add_statement_def)
  then show ?thesis by (rule run_line_message [OF _ p3(2)]) simp
qed

subsection \<open>Parentheses\<close>

lemma level_stop:
  assumes "operand p = Some (n, p1)" "facing s k p1 (r # ls)" "prec r \<le> l" "0 < l" "l < 7" "0 < j"
  obtains p2 where "proc_level l operand j p = Some (n, p2)" "facing s k p2 (r # ls)"
proof -
  obtain p2 where p2: "finsh_token_token p1 = Some (lexeme_token r, p2)" "got s k p2 r ls" by (rule facing_next [OF assms(2)])
  obtain i where "j = Suc i" using assms(6) by (cases j) auto
  then show thesis using that [OF _ got_upto(2) [OF p2(2)]] assms(1) p2(1) level_op_None [OF assms(3-5)] by (simp add: proc_level_def)
qed

lemma assign_stop:
  assumes c: "proc_cast_expr (proc_assign_expr j) j p = Some (n, p1)" and u: "facing s k p1 (r # ls)" and r: "prec r = 0" and j: "0 < j"
  obtains p2 where "proc_assign_expr (Suc j) p = Some (n, p2)" "facing s k p2 (r # ls)"
proof -
  let ?cast = "proc_cast_expr (proc_assign_expr j) j"
  obtain q6 where q6: "proc_multiplicative_expr ?cast j p = Some (n, q6)" "facing s k q6 (r # ls)"
    unfolding proc_multiplicative_expr_def by (rule level_stop [of "?cast" p n p1 s k r ls 6 j]) (use c u r j in auto)
  obtain q5 where q5: "proc_additive_expr ?cast j p = Some (n, q5)" "facing s k q5 (r # ls)"
    unfolding proc_additive_expr_def by (rule level_stop [of "proc_multiplicative_expr ?cast j" p n q6 s k r ls 5 j]) (use q6 r j in auto)
  obtain q4 where q4: "proc_shift_expr ?cast j p = Some (n, q4)" "facing s k q4 (r # ls)"
    unfolding proc_shift_expr_def by (rule level_stop [of "proc_additive_expr ?cast j" p n q5 s k r ls 4 j]) (use q5 r j in auto)
  obtain q3 where q3: "proc_and_expr ?cast j p = Some (n, q3)" "facing s k q3 (r # ls)"
    unfolding proc_and_expr_def by (rule level_stop [of "proc_shift_expr ?cast j" p n q4 s k r ls 3 j]) (use q4 r j in auto)
  obtain q2 where q2: "proc_exclusive_or_expr ?cast j p = Some (n, q2)" "facing s k q2 (r # ls)"
    unfolding proc_exclusive_or_expr_def by (rule level_stop [of "proc_and_expr ?cast j" p n q3 s k r ls 2 j]) (use q3 r j in auto)
  obtain q1 where q1: "proc_inclusive_or_expr ?cast j p = Some (n, q1)" "facing s k q1 (r # ls)"
    unfolding proc_inclusive_or_expr_def by (rule level_stop [of "proc_exclusive_or_expr ?cast j" p n q2 s k r ls 1 j]) (use q2 r j in auto)
  obtain p0 where p0: "finsh_token_token q1 = Some (lexeme_token r, p0)" "got s k p0 r ls" by (rule facing_next [OF q1(2)])
  have "lexeme_token r \<noteq> finsh_token_type_assign" using r by (cases r) auto
  then show thesis using that [OF _ got_upto(2) [OF p0(2)]] q1(1) p0(1) by simp
qed

text \<open>The closing parenthesis is left, an expression of its own that is no literal.\<close>

lemma right_paren_cast:
  assumes "facing s k p (Sym finsh_token_type_right_paren # r # ls)" "prec r = 0" "1 < j"
  obtains p' where "proc_cast_expr expr j p = Some (NULL, p')" "facing (with_errno s FINSH_ERROR_INVALID_TOKEN) k p' (r # ls)"
proof -
  let ?t = finsh_token_type_right_paren
  obtain i where j: "j = Suc (Suc i)" using assms(3) by (cases j; cases "j - 1") auto
  obtain p1 where p1: "finsh_token_token p = Some (?t, p1)" "got s k p1 (Sym ?t) (r # ls)" using facing_sym [OF assms(1)] by auto
  obtain p2 where p2: "finsh_token_token (finsh_token_replay p1) = Some (?t, p2)" "got s k p2 (Sym ?t) (r # ls)"
    using facing_sym [OF got_upto(2) [OF p1(2)]] by auto
  obtain p3 where p3: "finsh_token_token (finsh_token_replay p2) = Some (?t, p3)" "got s k p3 (Sym ?t) (r # ls)"
    using facing_sym [OF got_upto(2) [OF p2(2)]] by auto
  let ?s = "with_errno s FINSH_ERROR_INVALID_TOKEN" and ?p = "set_error FINSH_ERROR_INVALID_TOKEN p3"
  obtain p4 where p4: "Option.bind (finsh_token_token ?p) (\<lambda>(t, p). postfix_loop expr (Suc i) NULL t p) = Some (NULL, p4)" "facing ?s k p4 (r # ls)"
    by (rule postfix_stop [OF got_error(1) [OF p3(2)]]) (use assms(2) in auto)
  have "proc_cast_expr expr j p = Option.bind (finsh_token_token ?p) (\<lambda>(t, p). postfix_loop expr (Suc i) NULL t p)"
    using p1(1) p2(1) p3(1) j
    by (simp add: proc_unary_expr_def proc_postfix_expr_def proc_primary_expr_def proc_literal_def del: postfix_loop.simps)
  then show thesis using that p4 by simp
qed

lemma paren_cast:
  assumes u: "facing s k p (Sym finsh_token_type_left_paren # lexemes s e @ r # ls)" and r: "prec r \<le> 7"
    and e: "parses (with_errno s FINSH_ERROR_INVALID_TOKEN) 7 (proc_cast_expr expr j) e" "k + nodes e \<le> FINSH_NODE_MAX"
  obtains p' where "proc_cast_expr expr (Suc j) p = Some (set_data_type 0 (tree s e), p')"
    "facing (with_errno s FINSH_ERROR_INVALID_TOKEN) (k + nodes e) p' (r # ls)"
proof -
  let ?t = finsh_token_type_left_paren
  obtain l ts where l: "lexemes s e = l # ts" "starts l" by (rule lexemes_cases)
  have u': "facing s k p (Sym ?t # l # ts @ r # ls)" using u l(1) by simp
  obtain p1 where p1: "finsh_token_token p = Some (?t, p1)" "got s k p1 (Sym ?t) (l # ts @ r # ls)" using facing_sym [OF u'] by auto
  obtain p2 where p2: "finsh_token_token p1 = Some (lexeme_token l, p2)" "got s k p2 l (ts @ r # ls)" by (rule facing_next [OF got_upto(1) [OF p1(2)]])
  let ?p = "set_error FINSH_ERROR_UNKNOWN_TYPE (finsh_token_replay p2)"
  have t: "proc_type p1 = Some (finsh_type_unknown, ?p)"
    using p2(1) starts_token [OF l(2)] by (simp add: proc_type_def type_fail_def)
  have "facing (with_errno s FINSH_ERROR_UNKNOWN_TYPE) k ?p (l # ts @ r # ls)" using got_error(2) [OF p2(2)] by (simp add: replay_set_error)
  then obtain p3 where p3: "finsh_token_token ?p = Some (lexeme_token l, p3)" "got (with_errno s FINSH_ERROR_UNKNOWN_TYPE) k p3 l (ts @ r # ls)"
    by (rule facing_next)
  let ?q = "finsh_token_replay (set_error FINSH_ERROR_INVALID_TOKEN p3)" and ?s = "with_errno s FINSH_ERROR_INVALID_TOKEN"
  have m: "match_token finsh_token_type_right_paren ?p = Some ?q"
    using p3(1) starts_token [OF l(2)] by (simp add: match_token_def check_token_def)
  have "facing ?s k ?q (lexemes ?s e @ r # ls)" using got_error(2) [OF p3(2), of FINSH_ERROR_INVALID_TOKEN] l(1) by simp
  then obtain p4 where p4: "proc_cast_expr expr j ?q = Some (tree s e, p4)" "facing ?s (k + nodes e) p4 (r # ls)"
    using parsesE [OF e(1) _ _ e(2), of ?q r ls] r by auto
  then show thesis using that [of p4] p1(1) t m by simp
qed

text \<open>
  A function of the parser gets through an opening parenthesis and a command behind it: it makes a tree and leaves an error. The parenthesis
  only concerns the first operand, so the binary operators and the assignment go on as without it.
\<close>

definition opens :: "finsh \<Rightarrow> nat \<Rightarrow> finsh_node parser \<Rightarrow> expr \<Rightarrow> bool" where
  "opens s l f e \<longleftrightarrow> (\<forall>p r ls k. facing s k p (Sym finsh_token_type_left_paren # lexemes s e @ r # ls) \<longrightarrow> prec r \<le> l \<longrightarrow>
     k + nodes e \<le> FINSH_NODE_MAX \<longrightarrow>
     (\<exists>n p'. n \<noteq> NULL \<and> f p = Some (n, p') \<and> facing (with_errno s FINSH_ERROR_INVALID_TOKEN) (k + nodes e) p' (r # ls)))"

lemma opensE:
  assumes "opens s l f e" "facing s k p (Sym finsh_token_type_left_paren # lexemes s e @ r # ls)" "prec r \<le> l" "k + nodes e \<le> FINSH_NODE_MAX"
  obtains n p' where "n \<noteq> NULL" "f p = Some (n, p')" "facing (with_errno s FINSH_ERROR_INVALID_TOKEN) (k + nodes e) p' (r # ls)"
  using assms unfolding opens_def by blast

lemma parses_onE:
  assumes "parses (with_errno s c) l f e" "facing (with_errno s c) k p (lexemes s e @ r # ls)" "prec r \<le> l" "k + nodes e \<le> FINSH_NODE_MAX"
  obtains p' where "f p = Some (tree s e, p')" "facing (with_errno s c) (k + nodes e) p' (r # ls)"
proof -
  have u: "facing (with_errno s c) k p (lexemes (with_errno s c) e @ r # ls)" using assms(2) by simp
  obtain p' where "f p = Some (tree (with_errno s c) e, p')" "facing (with_errno s c) (k + nodes e) p' (r # ls)"
    by (rule parsesE [OF assms(1) u assms(3,4)])
  then show thesis using that by simp
qed

lemma cast_opens: "parses (with_errno s FINSH_ERROR_INVALID_TOKEN) 7 (proc_cast_expr expr j) e \<Longrightarrow> opens s 7 (proc_cast_expr expr (Suc j)) e"
  unfolding opens_def
proof (intro allI impI)
  fix p r ls k assume e: "parses (with_errno s FINSH_ERROR_INVALID_TOKEN) 7 (proc_cast_expr expr j) e" and
    u: "facing s k p (Sym finsh_token_type_left_paren # lexemes s e @ r # ls)" "prec r \<le> 7" "k + nodes e \<le> FINSH_NODE_MAX"
  have "set_data_type 0 (tree s e) \<noteq> NULL" by (cases "tree s e") auto
  then show "\<exists>n p'. n \<noteq> NULL \<and> proc_cast_expr expr (Suc j) p = Some (n, p') \<and> facing (with_errno s FINSH_ERROR_INVALID_TOKEN) (k + nodes e) p' (r # ls)"
    by (rule_tac paren_cast [OF u(1,2) e u(3)]) blast
qed

lemma opens_spine:
  assumes l: "0 < l" "l < 7"
    and ops: "\<And>a. fits (Suc l) a \<Longrightarrow> known s a \<Longrightarrow> length (lexemes s a) \<le> N \<Longrightarrow> parses (with_errno s FINSH_ERROR_INVALID_TOKEN) (Suc l) operand a"
    and opn: "\<And>a. fits (Suc l) a \<Longrightarrow> known s a \<Longrightarrow> length (lexemes s a) \<le> N \<Longrightarrow> opens s (Suc l) operand a"
  shows "fits l e \<Longrightarrow> known s e \<Longrightarrow> length (lexemes s e) \<le> N \<Longrightarrow> facing s k p (Sym finsh_token_type_left_paren # lexemes s e @ r # ls) \<Longrightarrow>
    prec r \<le> Suc l \<Longrightarrow> k + nodes e \<le> FINSH_NODE_MAX \<Longrightarrow> length (lexemes s e) \<le> j \<Longrightarrow>
    \<exists>n p' j'. n \<noteq> NULL \<and> proc_level l operand j p = level_rest l operand j' n p' \<and>
      facing (with_errno s FINSH_ERROR_INVALID_TOKEN) (k + nodes e) p' (r # ls) \<and> j < j' + length (lexemes s e)"
proof (induction "length (lexemes s e)" arbitrary: e p r ls rule: less_induct)
  case less
  let ?s = "with_errno s FINSH_ERROR_INVALID_TOKEN"
  note prems = less.prems
  show ?case
  proof (cases "fits (Suc l) e")
    case True
    obtain n p' where "n \<noteq> NULL" "operand p = Some (n, p')" "facing ?s (k + nodes e) p' (r # ls)"
      by (rule opensE [OF opn [OF True prems(2,3)] prems(4-6)])
    then show ?thesis unfolding proc_level_def level_rest_def by (intro exI [of _ n] exI [of _ p'] exI [of _ j]) simp
  next
    case False
    obtain x a b where e: "e = Binary x a b" and x: "\<not> is_neg x a" "op_level x = l" "fits l a" "fits (Suc l) b"
      by (rule fits_level [OF prems(1) False l])
    have len: "length (lexemes s e) = Suc (length (lexemes s a) + length (lexemes s b))" using x(1) e by simp
    have known: "known s a" "known s b" using prems(2) e by simp_all
    have n: "k + nodes e = Suc (k + nodes a + nodes b)" using e by simp
    have u: "facing s k p (Sym finsh_token_type_left_paren # lexemes s a @ Sym (op_token x) # lexemes s b @ r # ls)" using prems(4) x(1) e by simp
    have r: "prec (Sym (op_token x)) \<le> Suc l" using x(2) by (simp add: level_op_token(2) del: prec.simps)
    have b: "length (lexemes s a) < length (lexemes s e)" "length (lexemes s a) \<le> N" "k + nodes a \<le> FINSH_NODE_MAX" "length (lexemes s a) \<le> j"
      using len prems(3,6,7) n by simp_all
    obtain m p1 j1 where p1: "m \<noteq> NULL" "proc_level l operand j p = level_rest l operand j1 m p1"
      "facing ?s (k + nodes a) p1 (Sym (op_token x) # lexemes s b @ r # ls)" "j < j1 + length (lexemes s a)"
      using less.hyps [OF b(1) x(3) known(1) b(2) u r b(3,4)] by (elim exE conjE) (rule that)
    obtain p2 where p2: "finsh_token_token p1 = Some (op_token x, p2)" "got ?s (k + nodes a) p2 (Sym (op_token x)) (lexemes s b @ r # ls)"
      by (rule facing_sym [OF p1(3)])
    obtain p3 where p3: "operand p2 = Some (tree s b, p3)" "facing ?s (k + nodes a + nodes b) p3 (r # ls)"
      by (rule parses_onE [OF ops [OF x(4) known(2)] got_upto(1) [OF p2(2)] prems(5)]) (use prems(3,6) len n in auto)
    obtain p4 where p4: "make_sys_node (FINSH_NODE_SYS x) m (tree s b) p3 = (sys_node (FINSH_NODE_SYS x) m (tree s b), p4)"
      "facing ?s (Suc (k + nodes a + nodes b)) p4 (r # ls)"
      by (rule make_node [OF p3(2), of m]) (use prems(6) n p1(1) in auto)
    obtain j2 where j2: "j1 = Suc j2" using p1(4) prems(7) len by (cases j1) auto
    have "level_rest l operand j1 m p1 = level_rest l operand j2 (sys_node (FINSH_NODE_SYS x) m (tree s b)) p4"
      unfolding j2 by (rule level_rest_round [of p1 x p2 l operand _ p3, OF p2(1) x(2) p3(1)]) (use p4(1) in \<open>simp add: add_operand_def\<close>)
    then show ?thesis using p1(2,4) p4(2) j2 len n by (intro exI [of _ "sys_node (FINSH_NODE_SYS x) m (tree s b)"] exI [of _ p4] exI [of _ j2])
        (auto simp: add.assoc)
  qed
qed

lemma level_opens:
  assumes l: "0 < l" "l < 7"
    and ops: "\<And>a. fits (Suc l) a \<Longrightarrow> known s a \<Longrightarrow> length (lexemes s a) \<le> length (lexemes s e) \<Longrightarrow>
      parses (with_errno s FINSH_ERROR_INVALID_TOKEN) (Suc l) operand a \<and> opens s (Suc l) operand a"
    and e: "fits l e" "known s e" "length (lexemes s e) \<le> j"
  shows "opens s l (proc_level l operand j) e"
  unfolding opens_def
proof (intro allI impI)
  let ?s = "with_errno s FINSH_ERROR_INVALID_TOKEN"
  fix p r ls k assume u: "facing s k p (Sym finsh_token_type_left_paren # lexemes s e @ r # ls)" and r: "prec r \<le> l" and n: "k + nodes e \<le> FINSH_NODE_MAX"
  obtain m p1 j1 where p1: "m \<noteq> NULL" "proc_level l operand j p = level_rest l operand j1 m p1" "facing ?s (k + nodes e) p1 (r # ls)"
    "j < j1 + length (lexemes s e)"
    using opens_spine [OF l conjunct1 [OF ops] conjunct2 [OF ops] e(1,2) order_refl u le_SucI [OF r] n e(3)] by blast
  obtain p2 where p2: "finsh_token_token p1 = Some (lexeme_token r, p2)" "got ?s (k + nodes e) p2 r ls" by (rule facing_next [OF p1(3)])
  obtain j2 where "j1 = Suc j2" using p1(4) e(3) by (cases j1) auto
  then have "proc_level l operand j p = Some (m, finsh_token_replay p2)"
    using p1(2) p2(1) by (simp add: level_rest_def level_op_None [OF r l])
  then show "\<exists>n p'. n \<noteq> NULL \<and> proc_level l operand j p = Some (n, p') \<and> facing ?s (k + nodes e) p' (r # ls)"
    using got_upto(2) [OF p2(2)] p1(1) by simp
qed

lemma inclusive_or_opens:
  assumes cast: "\<And>a. fits 7 a \<Longrightarrow> known s a \<Longrightarrow> length (lexemes s a) \<le> n \<Longrightarrow>
      parses (with_errno s FINSH_ERROR_INVALID_TOKEN) 7 cast a \<and> opens s 7 cast a"
    and e: "fits 1 e" "known s e" "length (lexemes s e) \<le> n" "n \<le> j"
  shows "opens s 1 (proc_inclusive_or_expr cast j) e"
proof -
  let ?both = "\<lambda>l f a. parses (with_errno s FINSH_ERROR_INVALID_TOKEN) l f a \<and> opens s l f a"
  have step: "?both l (proc_level l operand j) a"
    if "0 < l" "l < 7" "\<And>a. fits (Suc l) a \<Longrightarrow> known s a \<Longrightarrow> length (lexemes s a) \<le> n \<Longrightarrow> ?both (Suc l) operand a"
      "fits l a" "known s a" "length (lexemes s a) \<le> n" for l operand a
    using that e(4) by (intro conjI level_parses level_opens) auto
  have l6: "?both 6 (proc_multiplicative_expr cast j) a" if "fits 6 a" "known s a" "length (lexemes s a) \<le> n" for a
    unfolding proc_multiplicative_expr_def by (rule step) (use cast that in auto)
  have l5: "?both 5 (proc_additive_expr cast j) a" if "fits 5 a" "known s a" "length (lexemes s a) \<le> n" for a
    unfolding proc_additive_expr_def by (rule step) (use l6 that in auto)
  have l4: "?both 4 (proc_shift_expr cast j) a" if "fits 4 a" "known s a" "length (lexemes s a) \<le> n" for a
    unfolding proc_shift_expr_def by (rule step) (use l5 that in auto)
  have l3: "?both 3 (proc_and_expr cast j) a" if "fits 3 a" "known s a" "length (lexemes s a) \<le> n" for a
    unfolding proc_and_expr_def by (rule step) (use l4 that in auto)
  have l2: "?both 2 (proc_exclusive_or_expr cast j) a" if "fits 2 a" "known s a" "length (lexemes s a) \<le> n" for a
    unfolding proc_exclusive_or_expr_def by (rule step) (use l3 that in auto)
  have "?both 1 (proc_inclusive_or_expr cast j) e"
    unfolding proc_inclusive_or_expr_def by (rule step) (use l2 e in \<open>auto simp: numeral_2_eq_2\<close>)
  then show ?thesis by simp
qed

lemma assign_rest_opens:
  assumes left: "opens s 1 (proc_inclusive_or_expr (proc_cast_expr (proc_assign_expr j) j) j) a"
    and right: "parses (with_errno s FINSH_ERROR_INVALID_TOKEN) 0 (proc_assign_expr j) b"
    and e: "lexemes s e = lexemes s a @ Sym finsh_token_type_assign # lexemes s b" "nodes e = Suc (nodes a + nodes b)"
  shows "opens s 0 (proc_assign_expr (Suc j)) e"
  unfolding opens_def
proof (intro allI impI)
  let ?s = "with_errno s FINSH_ERROR_INVALID_TOKEN"
  fix p r ls k assume u: "facing s k p (Sym finsh_token_type_left_paren # lexemes s e @ r # ls)" and r: "prec r \<le> 0" and n: "k + nodes e \<le> FINSH_NODE_MAX"
  have u': "facing s k p (Sym finsh_token_type_left_paren # lexemes s a @ Sym finsh_token_type_assign # lexemes s b @ r # ls)" using u e(1) by simp
  obtain m p1 where p1: "m \<noteq> NULL" "proc_inclusive_or_expr (proc_cast_expr (proc_assign_expr j) j) j p = Some (m, p1)"
    "facing ?s (k + nodes a) p1 (Sym finsh_token_type_assign # lexemes s b @ r # ls)"
    by (rule opensE [OF left u']) (use n e(2) in auto)
  obtain p2 where p2: "finsh_token_token p1 = Some (finsh_token_type_assign, p2)" "got ?s (k + nodes a) p2 (Sym finsh_token_type_assign) (lexemes s b @ r # ls)"
    by (rule facing_sym [OF p1(3)])
  obtain p3 where p3: "proc_assign_expr j p2 = Some (tree s b, p3)" "facing ?s (k + nodes a + nodes b) p3 (r # ls)"
    by (rule parses_onE [OF right got_upto(1) [OF p2(2)] r]) (use n e(2) in auto)
  obtain p4 where "make_sys_node FINSH_NODE_SYS_ASSIGN m (tree s b) p3 = (sys_node FINSH_NODE_SYS_ASSIGN m (tree s b), p4)"
    "facing ?s (Suc (k + nodes a + nodes b)) p4 (r # ls)"
    by (rule make_node [OF p3(2) _ p1(1)]) (use n e(2) in auto)
  then show "\<exists>n p'. n \<noteq> NULL \<and> proc_assign_expr (Suc j) p = Some (n, p') \<and> facing ?s (k + nodes e) p' (r # ls)"
    using p1(2) p2(1) p3(1) e(2) by (auto simp: add.assoc)
qed

lemma no_assign_rest_opens:
  assumes left: "opens s 1 (proc_inclusive_or_expr (proc_cast_expr (proc_assign_expr j) j) j) e"
  shows "opens s 0 (proc_assign_expr (Suc j)) e"
  unfolding opens_def
proof (intro allI impI)
  let ?s = "with_errno s FINSH_ERROR_INVALID_TOKEN"
  fix p r ls k assume u: "facing s k p (Sym finsh_token_type_left_paren # lexemes s e @ r # ls)" and r: "prec r \<le> 0" and n: "k + nodes e \<le> FINSH_NODE_MAX"
  obtain m p1 where p1: "m \<noteq> NULL" "proc_inclusive_or_expr (proc_cast_expr (proc_assign_expr j) j) j p = Some (m, p1)" "facing ?s (k + nodes e) p1 (r # ls)"
    by (rule opensE [OF left u _ n]) (use r in auto)
  obtain p2 where p2: "finsh_token_token p1 = Some (lexeme_token r, p2)" "got ?s (k + nodes e) p2 r ls" by (rule facing_next [OF p1(3)])
  have "lexeme_token r \<noteq> finsh_token_type_assign" using r by (cases r) auto
  then show "\<exists>n p'. n \<noteq> NULL \<and> proc_assign_expr (Suc j) p = Some (n, p') \<and> facing ?s (k + nodes e) p' (r # ls)"
    using p1 p2(1) got_upto(2) [OF p2(2)] by simp
qed

lemma assign_opens:
  assumes "fits 0 e" "known s e" "length (lexemes s e) + 2 < j"
  shows "opens s 0 (proc_assign_expr j) e"
proof -
  let ?s = "with_errno s FINSH_ERROR_INVALID_TOKEN"
  obtain i where j: "j = Suc (Suc i)" "length (lexemes s e) < i" using assms(3) by (cases j; cases "j - 1") auto
  let ?cast = "proc_cast_expr (proc_assign_expr (Suc i))"
  have cast: "parses ?s 7 (?cast (Suc i)) a \<and> opens s 7 (?cast (Suc i)) a" if a: "fits 7 a" "known s a" "length (lexemes s a) < i" for a
  proof
    have "parses ?s 7 (?cast m) a" if "length (lexemes s a) < m" for m
      by (rule cast_parses) (use a that in \<open>auto intro!: assign_parses\<close>)
    then show "parses ?s 7 (?cast (Suc i)) a" "opens s 7 (?cast (Suc i)) a" using a(3) by (auto intro: cast_opens simp del: proc_cast_expr.simps)
  qed
  have left: "opens s 1 (proc_inclusive_or_expr (?cast (Suc i)) (Suc i)) a" if "fits 1 a" "known s a" "length (lexemes s a) < i" for a
    by (rule inclusive_or_opens [where n = "length (lexemes s a)"]) (use cast that in auto)
  show ?thesis
  proof (cases "fits 1 e")
    case True
    then show ?thesis unfolding j(1) using left assms(2) j(2) by (intro no_assign_rest_opens) auto
  next
    case False
    then consider x b where "e = Assign x b" | q b where "e = Store q b"
      using assms(1) op_level_bounds(1) by (cases e) (auto split: if_splits simp: Suc_le_eq)
    then show ?thesis
    proof cases
      case 1
      then show ?thesis unfolding j(1) using assms(1,2) j(2) by (intro assign_rest_opens [where a = "Var x" and b = b] left assign_parses) auto
    next
      case 2
      then show ?thesis unfolding j(1) using assms(1,2) j(2) by (intro assign_rest_opens [where a = "Deref q" and b = b] left assign_parses) auto
    qed
  qed
qed

definition at_end :: "finsh_parser \<Rightarrow> bool" where
  "at_end p \<longleftrightarrow> tok_eof p \<and> \<not> tok_replay p"

lemma token_at_end:
  assumes "at_end p"
  obtains p' where "finsh_token_token p = Some (finsh_token_type_eof, p')" "at_end p'" "shell p' = shell p"
proof (rule that)
  have "token_next_char p = (NUL, p)" "trim_loop p = Some p" using assms by (simp_all add: at_end_def token_next_char_def trim_loop.simps)
  then show "finsh_token_token p = Some (finsh_token_type_eof, set_token finsh_token_type_eof p)"
    using assms by (simp add: finsh_token_token_def token_run_def token_trim_space_def token_get_string_def token_prev_char_def at_end_def set_token_def)
  show "at_end (set_token finsh_token_type_eof p)" "shell (set_token finsh_token_type_eof p) = shell p" using assms by (simp_all add: at_end_def set_token_def)
qed

lemma facing_end:
  assumes "facing s k p []"
  obtains p' where "finsh_token_token p = Some (finsh_token_type_eof, p')" "at_end p'" "shell p' = s\<lparr>nodes_used := k\<rparr>"
proof -
  have p: "\<not> tok_replay p" "ahead p []" "shell p = s\<lparr>nodes_used := k\<rparr>" using assms by (auto simp: facing_def stream_def text_of_def split: if_splits)
  show thesis by (rule that [of "set_token finsh_token_type_eof (p\<lparr>tok_eof := True, tok_position := 0\<rparr>)"])
    (use p in \<open>simp_all add: finsh_token_token_def token_run_def trim_end token_get_string_def token_next_char_def set_token_def at_end_def\<close>)
qed

lemma paren_statement:
  assumes u: "facing s k p (Sym finsh_token_type_left_paren # lexemes s e @ [Sym finsh_token_type_right_paren, Sym finsh_token_type_semicolon])"
    and e: "fits 0 e" "known s e" "length (lexemes s e) + 2 < j" "k + nodes e \<le> FINSH_NODE_MAX"
  obtains n p1 p2 where "finsh_token_token p = Some (finsh_token_type_left_paren, p1)"
    "parser_statement j [] 0 finsh_token_type_left_paren p1 = Some (([n], 0), p2)"
    "facing (with_errno s FINSH_ERROR_INVALID_TOKEN) (k + nodes e) p2 [Sym finsh_token_type_right_paren, Sym finsh_token_type_semicolon]"
proof -
  let ?t = finsh_token_type_left_paren and ?s = "with_errno s FINSH_ERROR_INVALID_TOKEN"
  let ?r = "Sym finsh_token_type_right_paren" and ?ls = "[Sym finsh_token_type_semicolon]"
  obtain p1 where p1: "finsh_token_token p = Some (?t, p1)" "got s k p1 (Sym ?t) (lexemes s e @ ?r # ?ls)" using facing_sym [OF u] by auto
  obtain p2 where p2: "finsh_token_token (finsh_token_replay p1) = Some (?t, p2)" "got s k p2 (Sym ?t) (lexemes s e @ ?r # ?ls)"
    using facing_sym [OF got_upto(2) [OF p1(2)]] by auto
  obtain n p4 where p4: "n \<noteq> NULL" "proc_assign_expr j (finsh_token_replay p2) = Some (n, p4)" "facing ?s (k + nodes e) p4 (?r # ?ls)"
    by (rule opensE [OF assign_opens [OF e(1-3)] got_upto(2) [OF p2(2)] _ e(4)]) auto
  obtain p5 where p5: "finsh_token_token p4 = Some (finsh_token_type_right_paren, p5)" "got ?s (k + nodes e) p5 ?r ?ls"
    using facing_sym [OF p4(3)] by auto
  let ?p = "finsh_token_replay (set_error FINSH_ERROR_INVALID_TOKEN p5)"
  have "proc_expr_statement j (finsh_token_replay p1) = Some (n, ?p)"
    using p2(1) p4(2) p5(1) by (simp add: proc_expr_statement_def match_token_def check_token_def)
  then have "parser_statement j [] 0 ?t p1 = Some (([n], 0), ?p)"
    using p4(1) by (simp add: parser_statement_def as_list_def add_statement_def base_type_def)
  moreover have "facing ?s (k + nodes e) ?p (?r # ?ls)" using got_error(2) [OF p5(2), of FINSH_ERROR_INVALID_TOKEN] by simp
  ultimately show thesis using that p1(1) by blast
qed

lemma right_paren_statement:
  assumes u: "facing s k p [Sym finsh_token_type_right_paren, Sym finsh_token_type_semicolon]" and j: "3 < j" and root: "length root = 1"
  obtains p1 p2 where "finsh_token_token p = Some (finsh_token_type_right_paren, p1)"
    "parser_statement j root 0 finsh_token_type_right_paren p1 = Some ((root, 0), p2)" "at_end p2"
    "shell p2 = (with_errno s FINSH_ERROR_INVALID_TOKEN)\<lparr>nodes_used := k\<rparr>"
proof -
  let ?t = finsh_token_type_right_paren and ?s = "with_errno s FINSH_ERROR_INVALID_TOKEN" and ?ls = "[Sym finsh_token_type_semicolon]"
  obtain i where i: "j = Suc i" "1 < i" using j by (cases j) auto
  obtain p1 where p1: "finsh_token_token p = Some (?t, p1)" "got s k p1 (Sym ?t) ?ls" using facing_sym [OF u] by auto
  obtain p2 where p2: "finsh_token_token (finsh_token_replay p1) = Some (?t, p2)" "got s k p2 (Sym ?t) ?ls"
    using facing_sym [OF got_upto(2) [OF p1(2)]] by auto
  obtain p3 where p3: "proc_cast_expr (proc_assign_expr i) i (finsh_token_replay p2) = Some (NULL, p3)" "facing ?s k p3 ?ls"
    by (rule right_paren_cast [OF got_upto(2) [OF p2(2)] _ i(2)]) auto
  obtain p4 where p4: "proc_assign_expr j (finsh_token_replay p2) = Some (NULL, p4)" "facing ?s k p4 ?ls"
    unfolding i(1) by (rule assign_stop [OF p3]) (use i(2) in auto)
  obtain p5 where p5: "finsh_token_token p4 = Some (finsh_token_type_semicolon, p5)" "got ?s k p5 (Sym finsh_token_type_semicolon) []"
    using facing_sym [OF p4(2)] by auto
  obtain p6 where p6: "finsh_token_token p5 = Some (finsh_token_type_eof, p6)" "at_end p6" "shell p6 = ?s\<lparr>nodes_used := k\<rparr>"
    by (rule facing_end [OF got_upto(1) [OF p5(2)]])
  have "proc_expr_statement j (finsh_token_replay p1) = Some (NULL, p5)"
    using p2(1) p4(1) p5(1) by (simp add: proc_expr_statement_def match_token_def check_token_def)
  moreover have "root \<noteq> []" "add_statement root 0 [] = (root, 0)" using root by (auto simp: add_statement_def)
  ultimately have "parser_statement j root 0 ?t p1 = Some ((root, 0), p6)"
    using p6(1) by (simp add: parser_statement_def as_list_def base_type_def)
  then show thesis using that p1(1) p6(2,3) by blast
qed

lemma parenthesised:
  assumes e: "fits 0 e" "known s e" "nodes e \<le> FINSH_NODE_MAX" and s: "shell p = s" "nodes_used s = 0" and k: "length (lexemes s e) + 6 < k"
  shows "map_option (\<lambda>(out, p). (out, fmem (shell p), global_variable (shell p))) (finsh_run_line k sys (text_of (Sym finsh_token_type_left_paren # lexemes s e @
    [Sym finsh_token_type_right_paren, Sym finsh_token_type_semicolon])) p) = Some ([Message FINSH_ERROR_INVALID_TOKEN], fmem s, global_variable s)"
proof -
  let ?ls = "Sym finsh_token_type_left_paren # lexemes s e @ [Sym finsh_token_type_right_paren, Sym finsh_token_type_semicolon]"
  have "line_ok (ls @ [Sym finsh_token_type_right_paren, Sym finsh_token_type_semicolon])" if "list_all lexeme_ok ls" for ls
    using that by (induction ls rule: line_ok.induct) auto
  from this [of "Sym finsh_token_type_left_paren # lexemes s e"] have ok: "line_ok ?ls" using lexemes_ok(1) [OF e(1,2)] by simp
  obtain j where j: "k = Suc (Suc (Suc j))" "length (lexemes s e) + 3 < j" using k by (cases k; cases "k - 1"; cases "k - 2") auto
  let ?p = "finsh_token_init (text_of ?ls) p" and ?s = "with_errno s FINSH_ERROR_INVALID_TOKEN"
  obtain n p1 p2 where p: "finsh_token_token ?p = Some (finsh_token_type_left_paren, p1)"
    "parser_statement (Suc (Suc j)) [] 0 finsh_token_type_left_paren p1 = Some (([n], 0), p2)"
    "facing ?s (nodes e) p2 [Sym finsh_token_type_right_paren, Sym finsh_token_type_semicolon]"
    by (rule paren_statement [OF line_facing [OF ok s], of "Suc (Suc j)"]) (use e j(2) in auto)
  obtain p3 p4 where q: "finsh_token_token p2 = Some (finsh_token_type_right_paren, p3)"
    "parser_statement (Suc j) [n] 0 finsh_token_type_right_paren p3 = Some (([n], 0), p4)" "at_end p4" "shell p4 = ?s\<lparr>nodes_used := nodes e\<rparr>"
    using right_paren_statement [OF p(3), of "Suc j" "[n]"] j(2) by auto
  obtain p5 where p5: "finsh_token_token p4 = Some (finsh_token_type_eof, p5)" "shell p5 = shell p4" by (rule token_at_end [OF q(3)])
  have "finsh_parser_run k (text_of ?ls) p = Some ([n], p5)"
    using p(1,2) q(1,2) p5(1) j(1) by (simp add: finsh_parser_run_def)
  then show ?thesis by (rule run_line_message [OF _ trans [OF p5(2) q(4)]]) simp
qed

text \<open>
  Whatever else follows an opening parenthesis at the start of a line, as long as it is no keyword (behind the parenthesis of a cast there is one):
  a run that returns prints no value.
\<close>

lemma paren_no_value:
  assumes "line_ok (Sym finsh_token_type_left_paren # l # ls)" "\<And>w. l \<noteq> Keyword w" "shell p = s" "nodes_used s = 0"
  shows "okp (\<lambda>(out, _). \<forall>v. Value v \<notin> set out) (finsh_run_line k sys (text_of (Sym finsh_token_type_left_paren # l # ls)) p)"
proof -
  let ?ls = "Sym finsh_token_type_left_paren # l # ls"
  have "okp (\<lambda>x. has_error (snd x)) (finsh_parser_run k (text_of ?ls) p)"
    by (rule run_error [OF assms(1,3,4)]) (use assms(1,2) not_a_type [of l ls] in \<open>auto simp: base_type_def intro: statement_paren\<close>)
  then show ?thesis
    using run_line_error [of k "text_of ?ls" p sys] by (intro okpI) (auto, metis in_set_conv_decomp_first shell_output.distinct(1) empty_iff empty_set set_ConsD)
qed

text \<open>
  C33. Two syntax errors: a line that is a command in parentheses, \<^verbatim>\<open>( e ) ;\<close>, is answered with an error message, as the opening parenthesis is
  taken for that of a cast; and so is a line of commands where the first has no semicolon and the next one begins with a name or a number. In
  both cases the message (of an invalid token) is all that the shell prints, and the memory and the table of variables are as before: nothing
  of the line is run. Here \<open>e\<close> and the other commands are any commands of the grammar (\<open>fits\<close>) whose names are known and whose nodes fit in the
  table together, and the fuel \<open>k\<close> is larger than the number of lexemes by more than six.
\<close>

theorem finsh_syntax_error:
  assumes "shell p = s" "nodes_used s = 0" "list_all (fits 0) (e # es)" "list_all (known s) (e # es)" "sum_list (map nodes (e # es)) \<le> FINSH_NODE_MAX"
    "length (lexemes s e @ concat (map (stmt_lexemes s) es)) + 6 < k"
  shows "map_option (\<lambda>(out, p). (out, fmem (shell p), global_variable (shell p)))
      (finsh_run_line k sys (text_of (Sym finsh_token_type_left_paren # lexemes s e @ [Sym finsh_token_type_right_paren, Sym finsh_token_type_semicolon])) p) =
      Some ([Message FINSH_ERROR_INVALID_TOKEN], fmem s, global_variable s) \<and>
    (es \<noteq> [] \<and> prec (hd (lexemes s (hd es))) = 0 \<longrightarrow>
      map_option (\<lambda>(out, p). (out, fmem (shell p), global_variable (shell p)))
        (finsh_run_line k sys (text_of (lexemes s e @ concat (map (stmt_lexemes s) es))) p) =
      Some ([Message FINSH_ERROR_INVALID_TOKEN], fmem s, global_variable s))"
proof (intro conjI impI)
  show "map_option (\<lambda>(out, p). (out, fmem (shell p), global_variable (shell p)))
      (finsh_run_line k sys (text_of (Sym finsh_token_type_left_paren # lexemes s e @ [Sym finsh_token_type_right_paren, Sym finsh_token_type_semicolon])) p) =
      Some ([Message FINSH_ERROR_INVALID_TOKEN], fmem s, global_variable s)"
    by (rule parenthesised) (use assms in auto)
next
  assume "es \<noteq> [] \<and> prec (hd (lexemes s (hd es))) = 0"
  then show "map_option (\<lambda>(out, p). (out, fmem (shell p), global_variable (shell p)))
        (finsh_run_line k sys (text_of (lexemes s e @ concat (map (stmt_lexemes s) es))) p) =
      Some ([Message FINSH_ERROR_INVALID_TOKEN], fmem s, global_variable s)"
    by (intro missing_semicolon) (use assms in auto)
qed

text \<open>\<^verbatim>\<open>( 1 + 2 * 3 ) ;\<close> and \<^verbatim>\<open>a a ;\<close>.\<close>

theorem finsh_syntax_error_witness:
  "map_option fst (finsh_run_line 25 demo_calls '' ( 1 + 2 * 3 ) ;'' demo_parser) = Some [Message FINSH_ERROR_INVALID_TOKEN] \<and>
   map_option fst (finsh_run_line 25 demo_calls '' a a ;'' demo_parser) = Some [Message FINSH_ERROR_INVALID_TOKEN]"
proof -
  have k: "known demo_finsh (Var (Global 0))" using demo_writable by (simp add: writable_def demo_line_def)
  have l: "var_name (global_variable demo_finsh ! 0) = ''a''" by (simp add: demo_finsh_def)
  have d: "shell demo_parser = demo_finsh" "nodes_used demo_finsh = 0" by (simp_all add: demo_parser_def demo_finsh_def)
  have out: "map_option fst r = Some y" if "map_option (\<lambda>(x, p). (x, f p, g p)) r = Some (y, z)" for r y z and f :: "finsh_parser \<Rightarrow> memory" and g :: "finsh_parser \<Rightarrow> finsh_var list"
    using that by (auto simp: case_prod_beta)
  let ?lit = "Lit FINSH_NODE_VALUE_INT" let ?sum = "Binary Add (?lit 1) (Binary Mul (?lit 2) (?lit 3))"
  have "decimal 1 = ''1''" "decimal 2 = ''2''" "decimal 3 = ''3''" by code_simp+
  then have "map_option fst (finsh_run_line 25 demo_calls '' ( 1 + 2 * 3 ) ;'' demo_parser) = Some [Message FINSH_ERROR_INVALID_TOKEN]"
    using finsh_syntax_error [of demo_parser demo_finsh ?sum "[]" 25 demo_calls, THEN conjunct1, THEN out] d
    by (simp add: text_of_def is_neg_def)
  moreover have "map_option fst (finsh_run_line 25 demo_calls '' a a ;'' demo_parser) = Some [Message FINSH_ERROR_INVALID_TOKEN]"
    using finsh_syntax_error [of demo_parser demo_finsh "Var (Global 0)" "[Var (Global 0)]" 25 demo_calls, THEN conjunct2, THEN mp, THEN out] k d
    by (simp add: l stmt_lexemes_def text_of_def)
  ultimately show ?thesis by simp
qed

section \<open>Declarations\<close>

lemma insert_loop: "var_insert_loop vs w i slot = Some r \<Longrightarrow>
    (\<forall>v \<in> set vs. \<not> same_name (var_name v) w) \<and> (slot = Some r \<or> slot = None \<and> i \<le> r \<and> r < i + length vs)"
  by (induction vs w i slot rule: var_insert_loop.induct) (fastforce split: if_splits)+

lemma find_updated: "r < length vs \<Longrightarrow> same_name (var_name v) w \<Longrightarrow> \<forall>v \<in> set vs. \<not> same_name (var_name v) w \<Longrightarrow> var_find (vs[r := v]) w i = i + r"
proof (induction vs arbitrary: r i)
  case (Cons a vs)
  then show ?case by (cases r) auto
qed simp

lemma inserted:
  assumes "finsh_var_insert w ty s = (i, s1)" "0 \<le> i" "is_name w" "length (global_variable s) = FINSH_VARIABLE_MAX"
  shows "s1 = s\<lparr>global_variable := (global_variable s)[nat i := \<lparr>var_name = w, var_type = ty\<rparr>]\<rparr>"
    "nat i < FINSH_VARIABLE_MAX" "place_name s1 (Global (nat i)) = w" "finsh_var_lookup w s1 = var_addr s1 (nat i)"
proof -
  obtain r where r: "var_insert_loop (global_variable s) w 0 None = Some r" "i = int r"
    using assms(1,2) by (auto simp: finsh_var_insert_def split: option.splits)
  have l: "\<forall>v \<in> set (global_variable s). \<not> same_name (var_name v) w" "r < FINSH_VARIABLE_MAX"
    using insert_loop [OF r(1)] assms(4) by auto
  have w: "take FINSH_NAME_MAX w = w" using assms(3) by (simp add: is_name_def)
  show s1: "s1 = s\<lparr>global_variable := (global_variable s)[nat i := \<lparr>var_name = w, var_type = ty\<rparr>]\<rparr>"
    using assms(1) r w by (simp add: finsh_var_insert_def)
  show "nat i < FINSH_VARIABLE_MAX" "place_name s1 (Global (nat i)) = w" using l(2) r(2) s1 assms(4) by simp_all
  have "var_find ((global_variable s)[r := \<lparr>var_name = w, var_type = ty\<rparr>]) w 0 = r"
    using find_updated [of r "global_variable s" "\<lparr>var_name = w, var_type = ty\<rparr>" w 0] l assms(4) by (simp add: same_name_def)
  then show "finsh_var_lookup w s1 = var_addr s1 (nat i)" using s1 r(2) l(2) by (simp add: finsh_var_lookup_def)
qed

lemma declarator_run:
  assumes "facing s k p (Name w # ls)" "is_name w" "finsh_var_insert w ty s = (i, s1)" "0 \<le> i"
  obtains p' where "proc_declarator ty p = Some (w, p')" "facing s1 k p' ls"
proof -
  obtain p1 where p1: "proc_identifier p = Some (w, p1)" "facing s k p1 ls" by (rule identifier_run [OF assms(1,2)])
  let ?p = "p1\<lparr>shell := s1\<lparr>nodes_used := k\<rparr>\<rparr>"
  have "finsh_var_insert w ty (s\<lparr>nodes_used := k\<rparr>) = (i, s1\<lparr>nodes_used := k\<rparr>)"
    using assms(3,4) by (auto simp: finsh_var_insert_def split: option.splits)
  then have "proc_declarator ty p = Some (w, ?p)" using p1 assms(4) by (simp add: proc_declarator_def with_shell_def facing_def)
  then show thesis using that [of ?p] p1(2) by (simp add: facing_def)
qed

lemma type_run:
  assumes "facing s k p (Keyword kw # Name w # ls)" "base_type (lexeme_token (Keyword kw)) = Some ty"
  obtains p' where "proc_type p = Some (ty, p')" "facing s k p' (Name w # ls)"
proof -
  obtain p1 where p1: "finsh_token_token p = Some (lexeme_token (Keyword kw), p1)" "got s k p1 (Keyword kw) (Name w # ls)" by (rule facing_next [OF assms(1)])
  obtain p2 where p2: "finsh_token_token p1 = Some (finsh_token_type_identifier, p2)" "got s k p2 (Name w) ls"
    by (rule facing_name [OF got_upto(1) [OF p1(2)]])
  show thesis by (rule that [OF _ got_upto(2) [OF p2(2)]]) (use p1(1) p2(1) assms(2) in \<open>simp add: proc_type_def type_pointer_def\<close>)
qed

lemma base_type_token: "base_type t = Some ty \<Longrightarrow> t \<noteq> finsh_token_type_eof \<and> t \<noteq> finsh_token_type_bad \<and> t \<noteq> finsh_token_type_identifier"
  by (auto simp: base_type_def)

lemma declaration_run:
  assumes "facing s 0 p (Keyword kw # Name w # Sym finsh_token_type_semicolon # ls)" "base_type (lexeme_token (Keyword kw)) = Some ty" "is_name w"
    "finsh_var_insert w ty s = (i, s1)" "0 \<le> i"
  obtains p' where "Option.bind (finsh_token_token p) (\<lambda>(t, p). parser_loop (Suc k) [] 0 t p) = Some ([], p')" "shell p' = s1\<lparr>nodes_used := 0\<rparr>"
proof -
  let ?kw = "Keyword kw"
  obtain p1 where p1: "finsh_token_token p = Some (lexeme_token ?kw, p1)" "got s 0 p1 ?kw (Name w # Sym finsh_token_type_semicolon # ls)"
    by (rule facing_next [OF assms(1)])
  obtain p2 where p2: "proc_type (finsh_token_replay p1) = Some (ty, p2)" "facing s 0 p2 (Name w # Sym finsh_token_type_semicolon # ls)"
    by (rule type_run [OF got_upto(2) [OF p1(2)] assms(2)])
  obtain p3 where p3: "proc_declarator ty p2 = Some (w, p3)" "facing s1 0 p3 (Sym finsh_token_type_semicolon # ls)"
    by (rule declarator_run [OF p2(2) assms(3-5)])
  obtain p4 where p4: "finsh_token_token p3 = Some (finsh_token_type_semicolon, p4)" "got s1 0 p4 (Sym finsh_token_type_semicolon) ls"
    by (rule facing_sym [OF p3(2)])
  have "proc_variable_decl k (finsh_token_replay p1) = Some ([], p4)" using p2(1) p3(1) p4(1) by (simp add: proc_variable_decl_def)
  then have "parser_statement k [] 0 (lexeme_token ?kw) p1 = Some (([], 0), p4)"
    using assms(2) base_type_token [OF assms(2)] by (simp add: parser_statement_def add_statement_def)
  then show thesis using that [of p4] p1(1) p4(2) base_type_token [OF assms(2)] by (simp add: got_def)
qed

lemma empty_program:
  assumes "length (finsh_vm_stack s) = FINSH_STACK_MAX"
  obtains s1 s2 where "finsh_compiler_run NULL s = Some s1" "global_errno s1 = global_errno s" "finsh_vm_run sys s1 = Some s2"
    "finsh_stack_bottom s2 = 0" "fmem s2 = fmem s" "global_variable s2 = global_variable s"
proof -
  let ?s = "s\<lparr>text_segment := replicate FINSH_TEXT_MAX 0, finsh_vm_stack := (finsh_vm_stack s)[0 := 0], finsh_compile_pc := 0\<rparr>"
  have c: "finsh_compiler_run NULL s = Some ?s" using compiler_run_code [of s "[]"] by simp
  have v: "finsh_vm_run sys ?s = Some (conf ?s FINSH_TEXT_MAX ([], finsh_vm_stack ?s, fmem s))"
    using vm_run_code [of ?s "[]" sys] assms by (simp add: holds_code_def)
  show thesis by (rule that [OF c _ v]) (use assms in \<open>simp_all add: finsh_stack_bottom_def\<close>)
qed

lemma decl_assign_run:
  assumes u: "facing s k p (lexemes s e @ r # ls)" and r: "prec r = 0" and e: "fits 0 e" "known s e" "length (lexemes s e) + 1 < j" "k + nodes e + 2 \<le> FINSH_NODE_MAX"
    and x: "place_known s (Global i)" "place_name s (Global i) = w"
  obtains p' where "decl_assign j w ns False t p = Some (ns @ [tree s (Assign (Global i) e)], False, lexeme_token r, p')"
    "got s (k + nodes e + 2) p' r ls"
proof -
  obtain p1 where p1: "proc_assign_expr j p = Some (tree s e, p1)" "facing s (k + nodes e) p1 (r # ls)"
    by (rule parsesE [OF assign_parses [OF e(1-3)] u]) (use r e(4) in auto)
  obtain p2 where p2: "with_shell (finsh_node_new_id w) p1 = (Node (place_info s (Global i)) NULL NULL, p2)" "facing s (Suc (k + nodes e)) p2 (r # ls)"
    using new_place [OF p1(2) _ x(1)] x(2) e(4) by auto
  obtain p3 where p3: "make_sys_node FINSH_NODE_SYS_ASSIGN (Node (place_info s (Global i)) NULL NULL) (tree s e) p2 = (tree s (Assign (Global i) e), p3)"
    "facing s (k + nodes e + 2) p3 (r # ls)"
    using make_node [OF p2(2), of "Node (place_info s (Global i)) NULL NULL" FINSH_NODE_SYS_ASSIGN "tree s e"] e(4) by auto
  obtain p4 where p4: "finsh_token_token p3 = Some (lexeme_token r, p4)" "got s (k + nodes e + 2) p4 r ls" by (rule facing_next [OF p3(2)])
  have "tree s (Assign (Global i) e) \<noteq> NULL" by (rule tree_not_NULL')
  then show thesis using that [OF _ p4(2)] p1(1) p2(1) p3(1) p4(1) by (simp add: decl_assign_def Let_def del: tree.simps)
qed

definition two_declarations :: "finsh \<Rightarrow> string \<Rightarrow> string \<Rightarrow> expr \<Rightarrow> string \<Rightarrow> expr \<Rightarrow> lexeme list" where
  "two_declarations s kw w1 e1 w2 e2 = Keyword kw # Name w1 # Sym finsh_token_type_assign # lexemes s e1 @ Sym finsh_token_type_comma # Name w2 #
    Sym finsh_token_type_assign # stmt_lexemes s e2"

lemma two_declarations_run:
  assumes u: "facing s k p (two_declarations s2 kw w1 e1 w2 e2 @ ls)" and kw: "base_type (lexeme_token (Keyword kw)) = Some ty"
    and w: "is_name w1" "is_name w2" "finsh_var_insert w1 ty s = (int i1, s1)" "finsh_var_insert w2 ty s1 = (int i2, s2)"
    and x: "place_known s1 (Global i1)" "place_name s1 (Global i1) = w1" "place_known s2 (Global i2)" "place_name s2 (Global i2) = w2"
    and e: "fits 0 e1" "known s1 e1" "fits 0 e2" "known s2 e2" "lexemes s1 e1 = lexemes s2 e1"
    and n: "length (lexemes s2 e1) + length (lexemes s2 e2) + 2 < j" "k + nodes e1 + nodes e2 + 4 \<le> FINSH_NODE_MAX"
  obtains p' where "proc_variable_decl j p = Some ([tree s1 (Assign (Global i1) e1), tree s2 (Assign (Global i2) e2)], p')"
    "facing s2 (k + nodes e1 + nodes e2 + 4) p' ls"
proof -
  let ?c = "Sym finsh_token_type_comma" and ?a = "Sym finsh_token_type_assign" and ?s = "Sym finsh_token_type_semicolon"
  let ?l2 = "Name w2 # ?a # lexemes s2 e2 @ ?s # ls"
  have u': "facing s k p (Keyword kw # Name w1 # ?a # lexemes s1 e1 @ ?c # ?l2)" using u e(5) by (simp add: two_declarations_def stmt_lexemes_def)
  obtain p1 where p1: "proc_type p = Some (ty, p1)" "facing s k p1 (Name w1 # ?a # lexemes s1 e1 @ ?c # ?l2)" by (rule type_run [OF u' kw])
  obtain p2 where p2: "proc_declarator ty p1 = Some (w1, p2)" "facing s1 k p2 (?a # lexemes s1 e1 @ ?c # ?l2)" by (rule declarator_run [OF p1(2) w(1,3)]) auto
  obtain p3 where p3: "finsh_token_token p2 = Some (finsh_token_type_assign, p3)" "got s1 k p3 ?a (lexemes s1 e1 @ ?c # ?l2)"
    by (rule facing_sym [OF p2(2)])
  obtain i where j: "j = Suc i" "length (lexemes s2 e2) + 1 < i" "0 < i" using n(1) by (cases j) auto
  obtain p4 where p4: "decl_assign j w1 [] False finsh_token_type_assign p3 = Some ([tree s1 (Assign (Global i1) e1)], False, finsh_token_type_comma, p4)"
    "got s1 (k + nodes e1 + 2) p4 ?c ?l2"
    using decl_assign_run [OF got_upto(1) [OF p3(2)] _ e(1,2) _ _ x(1,2), of j "[]" finsh_token_type_assign] n e(5) by auto
  obtain p5 where p5: "proc_declarator ty p4 = Some (w2, p5)" "facing s2 (k + nodes e1 + 2) p5 (?a # lexemes s2 e2 @ ?s # ls)"
    by (rule declarator_run [OF got_upto(1) [OF p4(2)] w(2,4)]) auto
  obtain p6 where p6: "finsh_token_token p5 = Some (finsh_token_type_assign, p6)" "got s2 (k + nodes e1 + 2) p6 ?a (lexemes s2 e2 @ ?s # ls)"
    by (rule facing_sym [OF p5(2)])
  obtain p7 where p7: "decl_assign i w2 [tree s1 (Assign (Global i1) e1)] False finsh_token_type_assign p6 =
      Some ([tree s1 (Assign (Global i1) e1), tree s2 (Assign (Global i2) e2)], False, finsh_token_type_semicolon, p7)"
    "got s2 (k + nodes e1 + 2 + nodes e2 + 2) p7 ?s ls"
    using decl_assign_run [OF got_upto(1) [OF p6(2)] _ e(3,4) j(2) _ x(3,4), of "[tree s1 (Assign (Global i1) e1)]" finsh_token_type_assign] n by auto
  obtain i' where i': "i = Suc i'" using j(3) by (cases i) auto
  have "decl_loop j ty [tree s1 (Assign (Global i1) e1)] False finsh_token_type_comma p4 = Some ([tree s1 (Assign (Global i1) e1), tree s2 (Assign (Global i2) e2)], p7)"
    unfolding j(1) decl_loop.simps using p5(1) p6(1) p7(1) i' by (simp add: check_token_def del: tree.simps)
  then have "proc_variable_decl j p = Some ([tree s1 (Assign (Global i1) e1), tree s2 (Assign (Global i2) e2)], p7)"
    using p1(1) p2(1) p3(1) p4(1) by (simp add: proc_variable_decl_def del: tree.simps decl_loop.simps)
  moreover have eq: "k + nodes e1 + 2 + nodes e2 + 2 = k + nodes e1 + nodes e2 + 4" by simp
  moreover have "facing s2 (k + nodes e1 + nodes e2 + 4) p7 ls" using got_upto(1) [OF p7(2)] unfolding eq .
  ultimately show thesis by (rule_tac that)
qed

text \<open>The lines in question: the first statement declares one variable, or two with values.\<close>

lemma declaration_line:
  assumes kw: "is_word kw" "token_match_name kw = Some t" "base_type t = Some ty"
    and w: "is_name w" "finsh_var_insert w ty s = (i, s1)" "0 \<le> i" and ls: "line_ok ls"
    and s: "shell p = s" "nodes_used s = 0" "global_errno s = FINSH_ERROR_OK" "length (finsh_vm_stack s) = FINSH_STACK_MAX"
  shows "map_option (\<lambda>(out, p). (out, fmem (shell p), global_variable (shell p)))
    (finsh_run_line (Suc k) sys (text_of (Keyword kw # Name w # Sym finsh_token_type_semicolon # ls)) p) = Some ([Value 0], fmem s, global_variable s1)"
proof -
  let ?ls = "Keyword kw # Name w # Sym finsh_token_type_semicolon # ls"
  have ok: "line_ok ?ls" using kw w(1) ls by (cases ls) auto
  obtain p' where p': "Option.bind (finsh_token_token (finsh_token_init (text_of ?ls) p)) (\<lambda>(t, p). parser_loop (Suc k) [] 0 t p) = Some ([], p')"
    "shell p' = s1\<lparr>nodes_used := 0\<rparr>"
    by (rule declaration_run [OF line_facing [OF ok s(1,2)] _ w, of k]) (use kw in auto)
  have f: "fmem s1 = fmem s" "global_errno s1 = FINSH_ERROR_OK" "length (finsh_vm_stack s1) = FINSH_STACK_MAX"
    using w(2,3) s by (auto simp: finsh_var_insert_def split: option.splits)
  obtain s2 s3 where s2: "finsh_compiler_run NULL (s1\<lparr>nodes_used := 0\<rparr>) = Some s2" "global_errno s2 = FINSH_ERROR_OK" "finsh_vm_run sys s2 = Some s3"
    "finsh_stack_bottom s3 = 0" "fmem s3 = fmem s" "global_variable s3 = global_variable s1"
    using empty_program [of "s1\<lparr>nodes_used := 0\<rparr>" sys] f by auto
  have "finsh_parser_run (Suc k) (text_of ?ls) p = Some ([], p')" using p'(1) by (simp add: finsh_parser_run_def)
  then show ?thesis using p'(2) f(2) s2
    by (simp add: finsh_run_line_def finsh_flush_def finsh_node_init_def finsh_error_set_def)
qed

lemma two_declarations_line:
  assumes kw: "is_word kw" "token_match_name kw = Some t" "base_type t = Some ty"
    and w: "is_name w1" "is_name w2" "finsh_var_insert w1 ty s = (int i1, s1)" "finsh_var_insert w2 ty s1 = (int i2, s2)"
    and x: "place_known s1 (Global i1)" "place_name s1 (Global i1) = w1" "place_known s2 (Global i2)" "place_name s2 (Global i2) = w2"
    and e: "fits 0 e1" "known s1 e1" "fits 0 e2" "known s2 e2" "lexemes s1 e1 = lexemes s2 e1" "fits 0 e3" "known s2 e3"
    and n: "length (two_declarations s2 kw w1 e1 w2 e2 @ stmt_lexemes s2 e3) < k" "nodes e1 + nodes e2 + nodes e3 + 4 \<le> FINSH_NODE_MAX"
    and s: "shell p = s" "nodes_used s = 0"
  shows "map_option fst (finsh_parser_run k (text_of (two_declarations s2 kw w1 e1 w2 e2 @ stmt_lexemes s2 e3)) p) =
    Some [tree s1 (Assign (Global i1) e1), tree s2 e3]"
proof -
  let ?ls = "two_declarations s2 kw w1 e1 w2 e2 @ stmt_lexemes s2 e3" and ?p = "finsh_token_init (text_of (two_declarations s2 kw w1 e1 w2 e2 @ stmt_lexemes s2 e3)) p"
  have okI: "line_ok (ls @ Sym t # rs)" if "list_all lexeme_ok ls" "sym_text t \<noteq> []" "line_ok rs" "t = finsh_token_type_semicolon \<or> rs \<noteq> []" for ls rs t
    using that
  proof (induction ls)
    case Nil
    then show ?case by (cases rs) auto
  next
    case (Cons l ls)
    then show ?case by (cases "ls @ Sym t # rs") auto
  qed
  have e1: "list_all lexeme_ok (lexemes s2 e1)" "list_all lexeme_ok (lexemes s2 e2)" "list_all lexeme_ok (lexemes s2 e3)"
    using lexemes_ok(1) [OF e(1,2)] lexemes_ok(1) [OF e(3,4)] lexemes_ok(1) [OF e(6,7)] e(5) by simp_all
  have "line_ok (stmt_lexemes s2 e3)" using okI [OF e1(3), of finsh_token_type_semicolon "[]"] by (simp add: stmt_lexemes_def)
  then have "line_ok (lexemes s2 e2 @ Sym finsh_token_type_semicolon # stmt_lexemes s2 e3)" using okI [OF e1(2)] by simp
  then have "line_ok (Name w2 # Sym finsh_token_type_assign # lexemes s2 e2 @ Sym finsh_token_type_semicolon # stmt_lexemes s2 e3)"
    using w(2) by (cases "lexemes s2 e2") auto
  then have "line_ok (lexemes s2 e1 @ Sym finsh_token_type_comma # Name w2 # Sym finsh_token_type_assign # lexemes s2 e2 @ Sym finsh_token_type_semicolon # stmt_lexemes s2 e3)"
    using okI [OF e1(1)] by simp
  then have ok: "line_ok ?ls" using kw w(1) by (cases "lexemes s2 e1") (auto simp: two_declarations_def stmt_lexemes_def)
  have "0 < length (lexemes s2 e1)" "0 < length (lexemes s2 e2)" "0 < length (lexemes s2 e3)" by simp_all
  then obtain j where j: "k = Suc (Suc (Suc j))" "length (lexemes s2 e1) + length (lexemes s2 e2) + 2 < Suc (Suc j)" "length (lexemes s2 e3) + 1 < Suc j"
    using n(1) by (cases k; cases "k - 1"; cases "k - 2") (auto simp: two_declarations_def stmt_lexemes_def)
  have u: "facing s 0 ?p ?ls" by (rule line_facing [OF ok s])
  then have u': "facing s 0 ?p (Keyword kw # tl ?ls)" by (simp add: two_declarations_def)
  obtain p1 where p1: "finsh_token_token ?p = Some (t, p1)" "got s 0 p1 (Keyword kw) (tl ?ls)" using facing_next [OF u'] kw(2) by auto
  have u1: "facing s 0 (finsh_token_replay p1) ?ls" using got_upto(2) [OF p1(2)] by (simp add: two_declarations_def)
  obtain p2 where p2: "proc_variable_decl (Suc (Suc j)) (finsh_token_replay p1) = Some ([tree s1 (Assign (Global i1) e1), tree s2 (Assign (Global i2) e2)], p2)"
    "facing s2 (nodes e1 + nodes e2 + 4) p2 (stmt_lexemes s2 e3)"
    using two_declarations_run [OF u1 _ w x e(1-5) j(2)] kw n(2) by auto
  let ?root = "[tree s1 (Assign (Global i1) e1), tree s2 (Assign (Global i2) e2)]" and ?m = "nodes e1 + nodes e2 + 4"
  have st: "parser_statement (Suc (Suc j)) [] 0 t p1 = Some ((?root, 0), p2)"
    using p2(1) kw(3) base_type_token [OF kw(3)] by (simp add: parser_statement_def add_statement_def del: tree.simps)
  have u2: "facing s2 ?m p2 (stmt_lexemes s2 e3 @ [])" using p2(2) by simp
  obtain t' p3 p4 where p3: "finsh_token_token p2 = Some (t', p3)" "t' \<noteq> finsh_token_type_eof" "t' \<noteq> finsh_token_type_bad"
    "parser_statement (Suc j) ?root 0 t' p3 = Some (add_statement ?root 0 [tree s2 e3], p4)" "facing s2 (?m + nodes e3) p4 []"
    by (rule expr_statement_run [OF u2 e(6,7) j(3), of ?root 0]) (use n(2) in auto)
  obtain p5 where p5: "finsh_token_token p4 = Some (finsh_token_type_eof, p5)" by (rule facing_end [OF p3(5)])
  have "finsh_parser_run k (text_of ?ls) p = Some ([tree s1 (Assign (Global i1) e1), tree s2 e3], p5)"
    using p1(1) st p3(1-4) p5 j(1) base_type_token [OF kw(3)] by (simp add: finsh_parser_run_def add_statement_def del: tree.simps)
  then show ?thesis by simp
qed

text \<open>
  C34. What is lost of a line with declarations: behind a leading declaration without a value, nothing of the line is run, although the shell
  reports no error, and prints 0. If the leading declaration has two variables with values and a command follows, the second value is never
  assigned: its node is replaced by that of the command.
\<close>

theorem finsh_declarations_lost:
  assumes kw: "is_word kw" "token_match_name kw = Some t" "base_type t = Some ty"
    and w: "is_name w1" "is_name w2" "finsh_var_insert w1 ty s = (int i1, s1)" "finsh_var_insert w2 ty s1 = (int i2, s2)"
    and e: "fits 0 e1" "known s1 e1" "fits 0 e2" "known s2 e2" "fits 0 e3" "known s2 e3" "lexemes s1 e1 = lexemes s2 e1" "nodes e1 + nodes e2 + nodes e3 + 4 \<le> FINSH_NODE_MAX"
    and k: "length (two_declarations s2 kw w1 e1 w2 e2 @ stmt_lexemes s2 e3) < k"
    and s: "shell p = s" "nodes_used s = 0" "global_errno s = FINSH_ERROR_OK" "length (finsh_vm_stack s) = FINSH_STACK_MAX"
      "length (global_variable s) = FINSH_VARIABLE_MAX" "global_variable_addr s \<noteq> RT_NULL" and ls: "line_ok ls"
  shows "map_option (\<lambda>(out, p). (out, fmem (shell p), global_variable (shell p)))
      (finsh_run_line k sys (text_of (Keyword kw # Name w1 # Sym finsh_token_type_semicolon # ls)) p) = Some ([Value 0], fmem s, global_variable s1) \<and>
    map_option fst (finsh_parser_run k (text_of (two_declarations s2 kw w1 e1 w2 e2 @ stmt_lexemes s2 e3)) p) =
      Some [tree s1 (Assign (Global i1) e1), tree s2 e3]"
proof
  note i1 = inserted [OF w(3) _ w(1) s(5)]
  have l1: "length (global_variable s1) = FINSH_VARIABLE_MAX" "global_variable_addr s1 \<noteq> RT_NULL" using i1(1) s(5,6) by simp_all
  note i2 = inserted [OF w(4) _ w(2) l1(1)]
  have a2: "global_variable_addr s2 \<noteq> RT_NULL" using i2(1) l1(2) by simp
  have x: "place_known s1 (Global i1)" "place_known s2 (Global i2)" using i1(3,4) i2(3,4) w(1,2) l1(2) a2 by (auto simp: var_addr_def)
  obtain j where j: "k = Suc j" using k by (cases k) auto
  show "map_option (\<lambda>(out, p). (out, fmem (shell p), global_variable (shell p)))
      (finsh_run_line k sys (text_of (Keyword kw # Name w1 # Sym finsh_token_type_semicolon # ls)) p) = Some ([Value 0], fmem s, global_variable s1)"
    unfolding j by (rule declaration_line [OF kw w(1,3) _ ls s(1-4)]) simp
  show "map_option fst (finsh_parser_run k (text_of (two_declarations s2 kw w1 e1 w2 e2 @ stmt_lexemes s2 e3)) p) =
      Some [tree s1 (Assign (Global i1) e1), tree s2 e3]"
    by (rule two_declarations_line [OF kw w x(1) _ x(2)]) (use e k s(1,2) i1(3) i2(3) in auto)
qed

theorem finsh_declarations_lost_witness:
  "map_option (\<lambda>(out, p). (out, load32 (fmem (shell p)) 0x1014)) (finsh_run_line 25 demo_calls '' int b ; a = 7 ;'' demo_parser) = Some ([Value 0], 0) \<and>
   map_option (\<lambda>(root, _). length root) (finsh_parser_run 25 '' int b = 1 , c = 2 ; c ;'' demo_parser) = Some 2"
proof -
  have d: "shell demo_parser = demo_finsh" "nodes_used demo_finsh = 0" "global_errno demo_finsh = FINSH_ERROR_OK" "length (finsh_vm_stack demo_finsh) = FINSH_STACK_MAX"
    "length (global_variable demo_finsh) = FINSH_VARIABLE_MAX" "global_variable_addr demo_finsh \<noteq> RT_NULL" "fmem demo_finsh = (\<lambda>_. 0)"
    by (simp_all add: demo_parser_def demo_finsh_def)
  have kw: "is_word ''int''" "token_match_name ''int'' = Some finsh_token_type_int" "base_type finsh_token_type_int = Some finsh_type_int"
    by (simp_all add: is_word_def is_separator_def is_digit_def token_match_name_def finsh_name_table_def base_type_def)
  have n: "is_name ''b''" "is_name ''c''" by (simp_all add: is_name_def is_separator_def is_digit_def token_match_name_def finsh_name_table_def)
  have g: "global_variable demo_finsh = [\<lparr>var_name = ''a'', var_type = finsh_type_int\<rparr>, \<lparr>var_name = ''p'', var_type = finsh_type_voidp\<rparr>, no_var, no_var, no_var, no_var, no_var, no_var]"
    by (simp add: demo_finsh_def) (simp add: eval_nat_numeral)
  obtain s1 where s1: "finsh_var_insert ''b'' finsh_type_int demo_finsh = (int 2, s1)"
    by (simp add: finsh_var_insert_def g same_name_def)
  note i1 = inserted [OF s1 _ n(1) d(5), simplified]
  obtain s2 where s2: "finsh_var_insert ''c'' finsh_type_int s1 = (int 3, s2)"
    unfolding i1(1) by (simp add: finsh_var_insert_def g same_name_def)
  have l1: "length (global_variable s1) = FINSH_VARIABLE_MAX" unfolding i1(1) using d(5) by simp
  note i2 = inserted [OF s2 _ n(2) l1, simplified]
  have a2: "global_variable_addr s2 = 0x1000" unfolding i2(1) i1(1) by (simp add: demo_finsh_def)
  have c: "known s2 (Var (Global 3))" using i2(3,4) n(2) a2 by (simp add: var_addr_def)
  have "decimal 1 = ''1''" "decimal 2 = ''2''" by code_simp+
  then have one: "decimal (unat (1 :: u32)) = ''1''" "decimal (unat (2 :: u32)) = ''2''" by simp_all
  have seven: "line_ok [Name ''a'', Sym finsh_token_type_assign, Number 7, Sym finsh_token_type_semicolon]"
    by (simp_all add: is_name_def is_separator_def is_digit_def token_match_name_def finsh_name_table_def)
  have seven': "decimal 7 = ''7''" by code_simp
  have t: "map_option (\<lambda>(out, p). (out, fmem (shell p), global_variable (shell p)))
      (finsh_run_line 25 demo_calls (text_of (Keyword ''int'' # Name ''b'' # Sym finsh_token_type_semicolon #
        [Name ''a'', Sym finsh_token_type_assign, Number 7, Sym finsh_token_type_semicolon])) demo_parser) = Some ([Value 0], fmem demo_finsh, global_variable s1) \<and>
    map_option fst (finsh_parser_run 25 (text_of (two_declarations s2 ''int'' ''b'' (Lit FINSH_NODE_VALUE_INT 1) ''c'' (Lit FINSH_NODE_VALUE_INT 2) @
        stmt_lexemes s2 (Var (Global 3)))) demo_parser) = Some [tree s1 (Assign (Global 2) (Lit FINSH_NODE_VALUE_INT 1)), tree s2 (Var (Global 3))]"
    by (rule finsh_declarations_lost [OF kw n s1 s2]) (use d(1-6) c seven in \<open>simp_all add: two_declarations_def stmt_lexemes_def\<close>)
  have written: "text_of (Keyword ''int'' # Name ''b'' # Sym finsh_token_type_semicolon #
        [Name ''a'', Sym finsh_token_type_assign, Number 7, Sym finsh_token_type_semicolon]) = '' int b ; a = 7 ;''"
    "text_of (two_declarations s2 ''int'' ''b'' (Lit FINSH_NODE_VALUE_INT 1) ''c'' (Lit FINSH_NODE_VALUE_INT 2) @ stmt_lexemes s2 (Var (Global 3))) =
      '' int b = 1 , c = 2 ; c ;''"
    using seven' one i2(3) by (simp_all add: text_of_def two_declarations_def stmt_lexemes_def)
  show ?thesis using t d(7) unfolding written by (auto simp: load32_def)
qed

end
