(* ===== verification/Spec2Isabelle.thy ===== *)
theory Spec2Isabelle
  imports RT_Boot RT_Ringbuffer RT_Mem_Align RT_Printf RT_Dataqueue RT_Workqueue RT_Finsh_Errors
begin

text \<open>
  A verification development for the kernel of RT-Thread 4.0.2, a real-time operating system in C
  (\<^verbatim>\<open>src/rt-thread-master\<close>; file names below are relative to it). The model is of the single-CPU kernel with hard timers, object
  classes for all IPC objects, a system heap, and neither modules, signals, soft timers nor hooks. It has the settings of
  \<^verbatim>\<open>bsp/imxrt/imxrt1060-nxp-evk/rtconfig.h\<close> but for three, where it takes the default or another choice of the sources: the priority of the
  main thread (\<^verbatim>\<open>RT_THREAD_PRIORITY_MAX / 3\<close>, the file has 3), the allocator of the system heap (\<^verbatim>\<open>src/mem.c\<close>, the file has \<^verbatim>\<open>src/memheap.c\<close>) and
  the size of the console buffer (128, the file has 512).

  \<^bold>\<open>The program.\<close> Kernel objects (threads, timers, semaphores, mutexes, events, mailboxes, message queues, memory pools) are C structures that
  embed a \<^verbatim>\<open>struct rt_object\<close> and are registered in a container, one list per class (\<^verbatim>\<open>src/object.c\<close>). The scheduler
  (\<^verbatim>\<open>src/scheduler.c\<close>) keeps ready threads in 32 circular queues with a bitmap of the non-empty ones. A thread that waits is in the wait list
  of an IPC object (\<^verbatim>\<open>src/ipc.c\<close>), with its timer in the sorted timer list (\<^verbatim>\<open>src/timer.c\<close>); the tick interrupt (\<^verbatim>\<open>src/clock.c\<close>) counts down
  time slices and runs expired timers, whose function for threads is \<^verbatim>\<open>rt_thread_timeout\<close> (\<^verbatim>\<open>src/thread.c\<close>). The idle thread
  (\<^verbatim>\<open>src/idle.c\<close>) frees threads that ended.

  \<^bold>\<open>The state.\<close> One record \<open>'h kernel\<close> (\<^verbatim>\<open>RT_State\<close>) holds the fields of all structures, as maps from addresses (\<open>ptr\<close>, the null pointer
  is 0) to records, and the kernel's global variables. List nodes embedded in threads are kept as one family of lists
  \<open>tlists\<close> indexed by list head (ready queue, defunct list, wait list, sender list of an object): \<^verbatim>\<open>RT_List\<close> models the pointer code of
  \<^verbatim>\<open>include/rtservice.h\<close> field write by field write and proves that it refines such families of disjoint lists, which is
  what the other theories compute with. Integers are words of the width the C fields have. A result of \<open>None\<close> is a failed \<^verbatim>\<open>RT_ASSERT\<close>, which
  halts the system, or an access the model cannot follow (an index out of range, linking a node that is already linked). The
  type \<open>'h\<close> is the state of the system heap, whose operations are an argument (\<open>heap_ops\<close>), since the configuration chooses
  between three allocators; that of \<^verbatim>\<open>src/mem.c\<close> is modelled, as \<open>mem_ops\<close> below.

  \<^bold>\<open>Steps.\<close> A critical section of the code, between disabling and enabling interrupts, is a step of the model, and consecutive ones of
  one call are composed. A context switch is visible as a change of the current thread: a definition ends where its caller is switched out,
  in the state the next thread starts with. What a blocked call does when its thread runs again is a definition of its own with
  the suffix \<open>_resume\<close>, and a call that may block returns \<open>Done\<close> with its result or \<open>Blocked\<close> with what the continuation needs.

  \<^bold>\<open>Theories.\<close>
  \<^item> \<^verbatim>\<open>RT_Prelude\<close>: words, lists and options shared by all parts; total results (\<open>okt\<close>).
  \<^item> \<^verbatim>\<open>RT_List\<close>: the doubly linked lists of \<^verbatim>\<open>include/rtservice.h\<close>; FIFO behaviour and removal.
  \<^item> \<^verbatim>\<open>RT_Kservice\<close>: bit search and string functions of \<^verbatim>\<open>src/kservice.c\<close>; \<^verbatim>\<open>__rt_ffs\<close> against its specification.
  \<^item> \<^verbatim>\<open>RT_State\<close>: the structures of \<^verbatim>\<open>include/rtdef.h\<close>, the state, interrupt nesting (\<^verbatim>\<open>src/irq.c\<close>) and the tick counter (\<^verbatim>\<open>src/clock.c\<close>).
  \<^item> \<^verbatim>\<open>RT_Scheduler\<close>: \<^verbatim>\<open>src/scheduler.c\<close>; the scheduler invariant \<open>swf\<close>, the choice of the highest priority thread, critical sections.
  \<^item> \<^verbatim>\<open>RT_Object\<close>: \<^verbatim>\<open>src/object.c\<close>; the container invariant \<open>owf\<close>, registration and lookup.
  \<^item> \<^verbatim>\<open>RT_Timer\<close>: \<^verbatim>\<open>src/timer.c\<close>; the sorted timer list under tick wrap-around, the effect and the termination of \<^verbatim>\<open>rt_timer_check\<close>.
  \<^item> \<^verbatim>\<open>RT_Thread\<close>: \<^verbatim>\<open>src/thread.c\<close>, \<^verbatim>\<open>src/idle.c\<close> and the tick handler; every operation keeps \<open>swf\<close>, and its effect.
  \<^item> \<^verbatim>\<open>RT_Ipc\<close>: the wait list operations at the head of \<^verbatim>\<open>src/ipc.c\<close>; what waiting and waking do; the locale \<open>ipc_detach\<close> for
    objects whose removal wakes all waiting threads, interpreted by each kind of object.
  \<^item> \<^verbatim>\<open>RT_Semaphore\<close>, \<^verbatim>\<open>RT_Mutex\<close>, \<^verbatim>\<open>RT_Event\<close>, \<^verbatim>\<open>RT_Mailbox\<close>, \<^verbatim>\<open>RT_Msgqueue\<close>: one kind of IPC object each, all operations; their
    results on every branch, hand-over to waiting threads, priority inheritance, the mutex invariant, the event wake-up.
  \<^item> \<^verbatim>\<open>RT_Fifo\<close>: the locale \<open>bounded_fifo\<close>, the contract of a bounded queue, with the theorem that any session of puts and gets refines
    a list; interpreted by the ring of a mailbox and the linked messages of a message queue.
  \<^item> \<^verbatim>\<open>RT_Mempool\<close>: \<^verbatim>\<open>src/mempool.c\<close>, memory pools; the locale \<open>block_allocator\<close> of \<^verbatim>\<open>RT_Alloc\<close>, the contract of an allocator of equal
    blocks, is interpreted by them.
  \<^item> \<^verbatim>\<open>RT_Ringbuffer\<close>: \<^verbatim>\<open>components/drivers/src/ringbuffer.c\<close>, the byte buffers of drivers; sessions of block and byte operations
    refine a bounded list of bytes. No kernel state is involved.
  \<^item> \<^verbatim>\<open>RT_Bytes\<close>: the memory and string functions of \<^verbatim>\<open>src/kservice.c\<close> on a memory of bytes; the loops over words against loops over bytes,
    the order of strings, the search for a string. \<^verbatim>\<open>RT_Printf\<close>: its formatted output; \<^verbatim>\<open>rt_vsnprintf\<close> against the text that a format stands for.
  \<^item> \<^verbatim>\<open>RT_Heap\<close>: the locale \<open>heap_allocator\<close>, the contract of an allocator of blocks of any size: in a session of allocations, frees and
    stores the blocks held are independent arrays.
  \<^item> \<^verbatim>\<open>RT_Mem\<close>: \<^verbatim>\<open>src/mem.c\<close>, the small memory heap, with headers in memory; its description by the list of blocks (\<open>heap_rep\<close>), the invariant
    \<open>heap_inv\<close> and what each operation does to the list. \<^verbatim>\<open>RT_Mem_Spec\<close>: it interprets \<open>heap_allocator\<close>; reachable heaps, first fit,
    merging of free memory, \<^verbatim>\<open>rt_realloc\<close> for all sizes, and the requests it answers wrongly. \<^verbatim>\<open>RT_Mem_Align\<close>: zeroed and aligned blocks and copies
    of strings on this heap.
  \<^item> \<^verbatim>\<open>RT_Completion\<close>, \<^verbatim>\<open>RT_Dataqueue\<close>, \<^verbatim>\<open>RT_Workqueue\<close>: the services for drivers on top of the kernel
    (\<^verbatim>\<open>components/drivers/src\<close>), whose structures stand beside the kernel in one record (\<open>drivers\<close>). A data queue interprets \<open>limited_fifo\<close> of
    \<^verbatim>\<open>RT_Fifo\<close>, the contract of a bounded queue that keeps it for a limited number of puts; a work queue runs its items in order. The
    lost signals, the overflow and the endless recursion in them.
  \<^item> \<^verbatim>\<open>RT_System\<close>: the kernel as a step relation over all these calls, the tick and interrupts, and the invariant of its reachable states.
  \<^item> \<^verbatim>\<open>RT_Boot\<close>: \<^verbatim>\<open>rtthread_startup\<close> (\<^verbatim>\<open>src/components.c\<close>) up to the first context switch.

  \<^bold>\<open>The shell.\<close> finsh (\<^verbatim>\<open>components/finsh\<close>) interprets lines of C: the lexer and the recursive descent parser make a tree for
  each statement, from at most 16 nodes, the compiler checks its types and writes byte code into \<^verbatim>\<open>text_segment\<close>, the virtual machine runs it, and
  the shell prints the bottom of its stack. The global variables of all files are one record \<open>finsh\<close>; what pointers refer to is in a
  memory of bytes, and the functions a command can call are an argument (\<open>syscalls\<close>).
  \<^item> \<^verbatim>\<open>RT_Finsh_Vm\<close>: \<^verbatim>\<open>finsh_vm.c\<close>, \<^verbatim>\<open>finsh_ops.c\<close>; the machine on bytes against a machine on instructions (\<open>exec\<close>).
  \<^item> \<^verbatim>\<open>RT_Finsh_Compiler\<close>: \<^verbatim>\<open>finsh_compiler.c\<close>. \<^verbatim>\<open>RT_Finsh_Correct\<close>: what commands mean (\<open>eval\<close>), the trees of commands (\<open>tree\<close>), and that
    their code computes it; the commands it gets wrong.
  \<^item> \<^verbatim>\<open>RT_Finsh_Node\<close>: \<^verbatim>\<open>finsh_var.c\<close>, \<^verbatim>\<open>finsh_heap.c\<close>, \<^verbatim>\<open>finsh_node.c\<close>, the symbol tables. \<^verbatim>\<open>RT_Finsh_Token\<close>: \<^verbatim>\<open>finsh_token.c\<close>.
    \<^verbatim>\<open>RT_Finsh_Parser\<close>: \<^verbatim>\<open>finsh_parser.c\<close>, \<^verbatim>\<open>finsh_init.c\<close> and \<^verbatim>\<open>finsh_run_line\<close> of \<^verbatim>\<open>shell.c\<close>.
  \<^item> \<^verbatim>\<open>RT_Finsh_Line\<close>: the lexer on a text of lexemes. \<^verbatim>\<open>RT_Finsh_Grammar\<close>: how commands are written (\<open>lexemes\<close>), that the parser makes
    their trees, and that the shell prints their value. \<^verbatim>\<open>RT_Finsh_Errors\<close>: errors are kept to the end of a line; lines that are
    rejected, among them those with parentheses, and what is lost of lines with declarations.

  \<^bold>\<open>Loops and fuel.\<close> The loop of \<^verbatim>\<open>rt_timer_check\<close> (\<open>timer_check_loop\<close>) can run forever, so it takes fuel; \<open>rt_timer_check_exact\<close> gives the
  amount that is enough when no restarted timer is due again at once, and \<open>rt_timer_check_diverges\<close> shows that none is for a period of 0. The
  loop of \<^verbatim>\<open>rt_ipc_list_resume_all\<close> takes one unit per waiting thread and is started with the length of the list. The loop of
  \<^verbatim>\<open>rt_mq_control\<close> takes one per queued message, at most the number of nodes of the pool. The loop that detaches a memory pool takes one unit per waiting thread, that of the idle thread
  one per defunct thread. The waiting loops of mailboxes and message queues are unfolded once per continuation.
  The searches of \<^verbatim>\<open>rt_malloc\<close> (\<open>malloc_find\<close>, \<open>next_free\<close>) follow links in memory and are partial functions, with \<open>None\<close> for a search that never ends;
  on the heaps of \<open>heap_inv\<close> they return, by \<open>malloc_find_first_fit\<close> and \<open>next_free_lowest\<close>, and \<open>rt_malloc_tiny_heap\<close> is a heap where they do not.
  The functions of the shell's parser take one unit of fuel for each call of \<^verbatim>\<open>proc_assign_expr\<close> and \<^verbatim>\<open>proc_cast_expr\<close> and each round of a loop;
  the number of lexemes of a line and two is enough for the lines of \<open>finsh_run_line_value\<close>. Its lexer and heap loops are partial functions: some
  lines are read forever. The virtual machine stops since its program counter only grows.

  \<^bold>\<open>Not modelled.\<close> Stack memory and the saved context, with the stack overflow check of the scheduler; the multi-core branches
  (\<^verbatim>\<open>RT_USING_SMP\<close>), signals, modules, soft timers and hooks, which the configuration leaves out; the console behind \<^verbatim>\<open>rt_kprintf\<close>; the heaps of \<^verbatim>\<open>src/memheap.c\<close> and \<^verbatim>\<open>src/slab.c\<close>; waiting for the semaphore of the heap; the device framework; block buffers, wait queues and
  pipes of the drivers; the line editor, history and completion of the shell, its \<^verbatim>\<open>msh\<close> mode, built-in commands and disassembler, and the
  stepping through symbol tables on x86-64; and everything else above and below the kernel (\<^verbatim>\<open>components\<close>, \<^verbatim>\<open>libcpu\<close>, \<^verbatim>\<open>bsp\<close>). Interrupts between the critical sections of one send or receive of
  a message queue are not interleaved.
\<close>

section \<open>Properties of the whole kernel\<close>

text \<open>
  C1. Whatever sequence of kernel calls, timer ticks and interrupts leads from the reset state to a state, the scheduler
  invariant holds there: the ready queues contain exactly the ready threads, at their priority, the bitmap has a bit for each
  non-empty queue, a thread is in at most one list, in the state its list demands, and no thread but the current one is running.
  So with the scheduler unlocked and some thread able to run, the next schedule returns, and a thread of the highest
  priority runs. The application's timeout and cleanup functions only have to keep the invariant themselves.
\<close>

theorem reachable_schedules:
  assumes reach: "reachable H user cleanup (kernel_reset size_of h) s"
    and us: "\<And>g p s s'. swf {} s \<Longrightarrow> user g p s = Some s' \<Longrightarrow> swf {} s'"
    and cl: "\<And>f t s s'. swf {} s \<Longrightarrow> cleanup f t s = Some s' \<Longrightarrow> swf {} s'"
  shows "swf {} s \<and>
    (lock_nest s = 0 \<and> cur s \<noteq> RT_NULL \<and> (tstat s (cur s) = RT_THREAD_RUNNING \<or> ready_group s \<noteq> 0) \<longrightarrow>
     (\<exists>s'. rt_schedule s = Some s' \<and> swf {} s' \<and> tstat s' (cur s') = RT_THREAD_RUNNING \<and>
       (\<forall>t. tstat s' t = RT_THREAD_READY \<longrightarrow> tprio s' (cur s') \<le> tprio s' t)))"
proof -
  have "swf {} s" by (rule swf_reachable [OF reach kernel_reset_ok(1) us cl]) assumption+
  then show ?thesis using rt_schedule_highest [of s] by blast
qed

text \<open>A heap that hands out fresh addresses upwards from 1000.\<close>

definition bump_heap :: "nat heap_ops" where
  "bump_heap = \<lparr>kmalloc = (\<lambda>h n. Some (1000 + h, h + n)), kfree = (\<lambda>h p. Some h)\<rparr>"

theorem reachable_schedules_witness:
  "\<exists>s s'. reachable bump_heap (\<lambda>_ _. Some) (\<lambda>_ _. Some) (kernel_reset (\<lambda>_. 4) 0) s \<and> cur s = 1000 \<and>
     rt_schedule s = Some s' \<and> tstat s' (cur s') = RT_THREAD_RUNNING"
proof -
  obtain s where s: "reachable bump_heap (\<lambda>_ _. Some) (\<lambda>_ _. Some) (kernel_reset (\<lambda>_. 4) 0) s" "cur s = 1000"
    "tstat s 1000 = RT_THREAD_RUNNING" "lock_nest s = 0"
    by (rule boot_sequence [where board = Some and size_of = "\<lambda>_. 4" and ?h0.0 = 0 and h = 0 and H = bump_heap and t = 1000 and ?h1.0 = 4
        and st = 1004 and ?h2.0 = 2052 and idle = 16 and stack = 32 and main = 7 and en = 8 and user = "\<lambda>_ _. Some" and cleanup = "\<lambda>_ _. Some"])
      (simp_all add: bump_heap_def)
  then show ?thesis
    using reachable_schedules [OF s(1)] by auto
qed

text \<open>
  The system boots: from the reset state, with a board initialisation that sets up the heap and nothing else of the kernel, and a
  heap that provides the structure and the stack of the main thread, \<^verbatim>\<open>rtthread_startup\<close> reaches the context switch into the main
  thread, which runs with priority 10 while the idle thread is ready with priority 31; the result is a reachable state.
\<close>

theorem rtthread_startup_boots:
  assumes board: "board (kernel_reset size_of h0) = Some (kernel_reset size_of h)"
    and k: "kmalloc H h (size_of RT_Object_Class_Thread) = Some (t, h1)" "t \<noteq> RT_NULL" "kmalloc H h1 2048 = Some (st, h2)" "st \<noteq> RT_NULL"
    and i: "idle \<noteq> RT_NULL" "idle \<noteq> t" "stack \<noteq> RT_NULL"
  shows "\<exists>s'. rtthread_startup H board main idle en stack (kernel_reset size_of h0) = Some s' \<and>
    reachable H user cleanup (kernel_reset size_of h) s' \<and> cur s' = t \<and> tstat s' t = RT_THREAD_RUNNING \<and> tprio s' t = 10 \<and>
    tstat s' idle = RT_THREAD_READY \<and> tprio s' idle = 31"
  by (rule boot_sequence [where board = board and H = H and main = main and en = en and user = user and cleanup = cleanup, OF assms]) blast

theorem rtthread_startup_boots_witness:
  "\<exists>s'. rtthread_startup bump_heap Some 7 16 8 32 (kernel_reset (\<lambda>_. 4) 0) = Some s' \<and> cur s' = 1000 \<and>
     tstat s' 16 = RT_THREAD_READY"
  using rtthread_startup_boots [where board = Some and size_of = "\<lambda>_. 4" and ?h0.0 = 0 and h = 0 and H = bump_heap and t = 1000 and ?h1.0 = 4
      and st = 1004 and ?h2.0 = 2052 and idle = 16 and stack = 32 and main = 7 and en = 8 and user = "\<lambda>_ _. Some" and cleanup = "\<lambda>_ _. Some"]
  by (auto simp: bump_heap_def)

text \<open>
  The heap of \<^verbatim>\<open>src/mem.c\<close> as the heap of the kernel, and the least that a board does: it gives the heap its memory.
\<close>

definition mem_ops :: "mem_heap heap_ops" where
  "mem_ops = \<lparr>kmalloc = (\<lambda>h n. rt_malloc (of_nat n) h), kfree = (\<lambda>h p. rt_free p h)\<rparr>"

definition heap_board :: "u32 \<Rightarrow> u32 \<Rightarrow> mem_heap kernel \<Rightarrow> mem_heap kernel option" where
  "heap_board b e s = Some (s\<lparr>heap := rt_system_heap_init b e (heap s)\<rparr>)"

lemma heap_board_reset: "heap_board b e (kernel_reset size_of h) = Some (kernel_reset size_of (rt_system_heap_init b e h))"
  by (simp add: heap_board_def reset_view(2)) (simp add: kernel_reset_def zero_kernel_def)

lemma malloc_twice:
  assumes a: "area_ok b e" and n: "0 < n" "n + 2100 + unat (rt_align4 b) \<le> unat (rt_align_down4 e)"
  obtains h1 q h2 where "kmalloc mem_ops (rt_system_heap_init b e (fresh_heap hm bm)) n = Some (unat (rt_align4 b) + 12, h1)"
    "kmalloc mem_ops h1 2048 = Some (q, h2)" "q \<noteq> RT_NULL"
proof -
  let ?h = "rt_system_heap_init b e (fresh_heap hm bm)" let ?n = "of_nat n :: u32"
  note i = heap_init_inv [OF a, of hm bm]
  have lt: "unat (rt_align_down4 e) < 2 ^ 32" by (rule unat_u32_less)
  then have u: "unat ?n = n" using n by (simp add: unat_of_nat)
  have k: "12 \<le> rounded ?n" "rounded ?n \<le> n + 15"
    using align_size [of ?n] n lt u by (auto simp: rounded_def)
  have hs: "heap_size ?h = unat (rt_align_down4 e) - unat (rt_align4 b) - 12" using i by linarith
  have room: "12 + rounded ?n + 12 + 2048 < heap_size ?h" using k(2) n(2) hs by linarith
  have "?n \<noteq> 0" using n(1) u by auto
  then obtain h1 where h1: "rt_malloc ?n ?h = Some (heap_ptr ?h + 12, h1)" "heap_inv h1 [(0, True), (12 + rounded ?n, False)]"
    "lowest h1 [(0, True), (12 + rounded ?n, False)]" "same_area ?h h1"
    using malloc_one_block [of ?h ?n] i room by (auto simp: split_tail_def)
  have r: "rounded 2048 = 2048" by (simp add: rounded_def rt_align4_def)
  have e1: "heap_size h1 = heap_size ?h" by (rule same_area_size [OF h1(4)])
  have "first_fit (rounded 2048) [(0, True), (12 + rounded ?n, False)] (heap_size h1) = Some (12 + rounded ?n)"
    using room e1 r by simp
  then obtain q h2 where "rt_malloc 2048 h1 = Some (q + 12, h2)"
    by (rule_tac rt_malloc_cases [OF h1(2), of 2048]) (use h1(3) in auto)
  then show thesis using that [of h1 "q + 12" h2] h1(1) i by (simp add: mem_ops_def)
qed

text \<open>
  C9. The kernel boots on its own heap: with a board that gives \<^verbatim>\<open>rt_system_heap_init\<close> memory enough for a thread structure, the
  stack of the main thread and three headers, and an idle thread outside of it, \<^verbatim>\<open>rtthread_startup\<close> reaches the context switch into the
  main thread, whose structure is the first block of the heap.
\<close>

theorem rtthread_startup_on_mem_heap:
  assumes a: "area_ok b e" and n: "0 < size_of RT_Object_Class_Thread"
      "size_of RT_Object_Class_Thread + 2100 + unat (rt_align4 b) \<le> unat (rt_align_down4 e)"
    and i: "idle \<noteq> RT_NULL" "idle \<notin> {unat b..<unat e}" "stack \<noteq> RT_NULL"
  shows "\<exists>s'. rtthread_startup mem_ops (heap_board b e) main idle en stack (kernel_reset size_of (fresh_heap hm bm)) = Some s' \<and>
    swf {} s' \<and> cur s' = unat (rt_align4 b) + 12 \<and> tstat s' (cur s') = RT_THREAD_RUNNING \<and> tstat s' idle = RT_THREAD_READY"
proof -
  let ?h = "rt_system_heap_init b e (fresh_heap hm bm)" let ?t = "unat (rt_align4 b) + 12"
  obtain h1 q h2 where k: "kmalloc mem_ops ?h (size_of RT_Object_Class_Thread) = Some (?t, h1)" "kmalloc mem_ops h1 2048 = Some (q, h2)" "q \<noteq> RT_NULL"
    by (rule malloc_twice [OF a n, of hm bm])
  have b: "unat b \<le> unat (rt_align4 b)" using align_size(2) [of b] a by (simp add: area_ok_def)
  have e: "unat (rt_align_down4 e) \<le> unat e" unfolding rt_align_down4_def unat_align_down by simp
  have t: "?t \<noteq> RT_NULL" "idle \<noteq> ?t" using i(2) b e n(2) by auto
  have board: "heap_board b e (kernel_reset size_of (fresh_heap hm bm)) = Some (kernel_reset size_of ?h)" by (rule heap_board_reset)
  show ?thesis
    by (rule boot_sequence [where size_of = size_of and board = "heap_board b e" and H = mem_ops and main = main and en = en and user = "\<lambda>_ _. Some" and cleanup = "\<lambda>_ _. Some",
      OF board k(1) t(1) k(2,3) i(1) t(2) i(3)]) auto
qed

theorem rtthread_startup_on_mem_heap_witness:
  "\<exists>s'. rtthread_startup mem_ops (heap_board 1001 5003) 7 16 8 32 (kernel_reset (\<lambda>_. 128) (fresh_heap (\<lambda>_. undefined) (\<lambda>_. 0))) = Some s' \<and>
     cur s' = 1016 \<and> tstat s' 16 = RT_THREAD_READY"
proof -
  have a: "rt_align4 1001 = 1004" "rt_align_down4 5003 = 5000" by (simp_all add: rt_align4_def rt_align_down4_def)
  show ?thesis
    using rtthread_startup_on_mem_heap [of 1001 5003 "\<lambda>_. 128" 16 32 7 8 "\<lambda>_. undefined" "\<lambda>_. 0"] demo_heap(1) a by auto
qed

end
